(* ===== verification/Prelude.thy ===== *)
theory Prelude
  imports Main "HOL-Library.Infinite_Set"
begin

text \<open>
  Shared vocabulary of the development: the convention for \<open>size_t\<close>, the standard-library
  algorithms the sources call (\<open>std::lower_bound\<close>), and the arithmetic of ``the k-th number
  outside a finite set'', on which the meaning of every shifting operation of \<open>IndexSet\<close> rests.
\<close>

section \<open>Machine sizes\<close>

text \<open>
  A \<open>size_t\<close> is modelled as a \<open>nat\<close>.  \<open>npos\<close> is its largest value, \<open>size_t(-1)\<close>.  Subtractions
  that the well-formedness invariants keep non-negative use the subtraction of \<open>nat\<close>; a
  subtraction of the source that can pass below zero uses \<open>size_sub\<close>, which wraps around.
\<close>

type_synonym size = nat

definition npos :: size where
  "npos = 2 ^ 64 - 1"

definition size_sub :: "size \<Rightarrow> size \<Rightarrow> size" where
  "size_sub a b = (if b \<le> a then a - b else 2 ^ 64 + a - b)"

lemma size_sub_le [simp]: "b \<le> a \<Longrightarrow> size_sub a b = a - b"
  by (simp add: size_sub_def)

section \<open>Collections of facts\<close>

named_theorems set_repr \<open>what an operation does to the set of indices it represents\<close>
named_theorems wf_intro \<open>an operation keeps the well-formedness invariant of its component\<close>

section \<open>std::lower_bound\<close>

text \<open>
  The binary search of the C++ standard library over the positions \<open>first, \<dots>, first + len - 1\<close>,
  with the predicate given by position.
\<close>

function lower_bound :: "(nat \<Rightarrow> bool) \<Rightarrow> nat \<Rightarrow> nat \<Rightarrow> nat" where
  "lower_bound p first len =
     (if len = 0 then first
      else let half = len div 2; mid = first + half in
        if p mid then lower_bound p (Suc mid) (len - half - 1)
        else lower_bound p first half)"
  by pat_completeness auto
termination
  by (relation "measure (\<lambda>(p, first, len). len)") auto

declare lower_bound.simps [simp del]

lemma lower_bound_range:
  "first \<le> lower_bound p first len \<and> lower_bound p first len \<le> first + len"
proof (induction p first len rule: lower_bound.induct)
  case (1 p first len)
  show ?case
  proof (cases "len = 0")
    case True
    then show ?thesis by (simp add: lower_bound.simps)
  next
    case False
    let ?half = "len div 2"
    have lt: "?half < len" using False by simp
    show ?thesis
    proof (cases "p (first + ?half)")
      case True
      have "Suc (first + ?half) \<le> lower_bound p (Suc (first + ?half)) (len - ?half - 1) \<and>
        lower_bound p (Suc (first + ?half)) (len - ?half - 1) \<le> Suc (first + ?half) + (len - ?half - 1)"
        using 1(1)[OF False refl refl True] .
      then show ?thesis
        using False True lt by (subst (1 2) lower_bound.simps) (simp add: Let_def)
    next
      case no: False
      have "first \<le> lower_bound p first ?half \<and> lower_bound p first ?half \<le> first + ?half"
        using 1(2)[OF False refl refl no] .
      then show ?thesis
        using False no lt by (subst (1 2) lower_bound.simps) (simp add: Let_def)
    qed
  qed
qed

text \<open>
  When the predicate holds on a prefix of the searched positions and on nothing after it, the
  search finds the end of that prefix.
\<close>

lemma lower_bound_partition:
  assumes "first \<le> k" "k \<le> first + len"
    and "\<And>i. first \<le> i \<Longrightarrow> i < first + len \<Longrightarrow> p i \<longleftrightarrow> i < k"
  shows "lower_bound p first len = k"
  using assms
proof (induction p first len rule: lower_bound.induct)
  case (1 p first len)
  show ?case
  proof (cases "len = 0")
    case True
    then show ?thesis using 1(3,4) by (simp add: lower_bound.simps)
  next
    case False
    let ?half = "len div 2"
    have lt: "?half < len" using False by simp
    have mid: "p (first + ?half) \<longleftrightarrow> first + ?half < k" using 1(5) lt by simp
    show ?thesis
    proof (cases "p (first + ?half)")
      case True
      have "lower_bound p (Suc (first + ?half)) (len - ?half - 1) = k"
        by (rule 1(1)[OF False refl refl True]) (use True mid lt 1(4,5) in auto)
      then show ?thesis using False True by (subst lower_bound.simps) (simp add: Let_def)
    next
      case no: False
      have "lower_bound p first ?half = k"
        by (rule 1(2)[OF False refl refl no]) (use no mid lt 1(3,5) in auto)
      then show ?thesis using False no by (subst lower_bound.simps) (simp add: Let_def)
    qed
  qed
qed

lemma lower_bound_takeWhile:
  assumes "i \<le> length xs" and "\<And>x. x \<in> set (take i xs) \<Longrightarrow> P x"
    and "\<And>j. j < length xs \<Longrightarrow> length (takeWhile P xs) \<le> j \<Longrightarrow> \<not> P (xs ! j)"
  shows "lower_bound (\<lambda>j. P (xs ! j)) i (length xs - i) = length (takeWhile P xs)"
proof (rule lower_bound_partition)
  show "i \<le> length (takeWhile P xs)"
  proof (rule ccontr)
    assume "\<not> i \<le> length (takeWhile P xs)"
    then have lt: "length (takeWhile P xs) < i" by simp
    then have "length (takeWhile P xs) < length xs" using assms(1) by simp
    then have "\<not> P (xs ! length (takeWhile P xs))" by (rule nth_length_takeWhile)
    moreover have "xs ! length (takeWhile P xs) \<in> set (take i xs)"
      using lt assms(1) by (auto simp: in_set_conv_nth intro!: exI[of _ "length (takeWhile P xs)"])
    ultimately show False using assms(2) by blast
  qed
  show "length (takeWhile P xs) \<le> i + (length xs - i)"
    using assms(1) by (simp add: length_takeWhile_le)
  fix j assume "i \<le> j" "j < i + (length xs - i)"
  then have "j < length xs" using assms(1) by simp
  then show "P (xs ! j) \<longleftrightarrow> j < length (takeWhile P xs)"
    using assms(3) by (metis leI nth_mem set_takeWhileD takeWhile_nth)
qed

section \<open>Numbers outside a finite set\<close>

text \<open>
  \<open>nth_outside S i\<close> is the \<open>i\<close>-th natural number (from 0) not in \<open>S\<close>; \<open>rank_outside S x\<close> counts
  the numbers below \<open>x\<close> not in \<open>S\<close>.  They are inverse to each other on the complement of \<open>S\<close>.
  Inserting the positions \<open>S\<close> into a sequence sends the old position \<open>i\<close> to \<open>nth_outside S i\<close>;
  deleting the positions \<open>S\<close> sends a surviving position \<open>x\<close> to \<open>rank_outside S x\<close>.
\<close>

definition nth_outside :: "nat set \<Rightarrow> nat \<Rightarrow> nat" where
  "nth_outside S i = enumerate (- S) i"

definition rank_outside :: "nat set \<Rightarrow> nat \<Rightarrow> nat" where
  "rank_outside S x = x - card (S \<inter> {..<x})"

lemma infinite_compl: "finite S \<Longrightarrow> infinite (- S :: nat set)"
  by (metis Diff_infinite_finite infinite_UNIV_nat Compl_eq_Diff_UNIV)

lemma card_below_le: "card (S \<inter> {..<x}) \<le> (x::nat)"
  using card_mono[of "{..<x}" "S \<inter> {..<x}"] by simp

lemma rank_outside_compl: "rank_outside S x = card (- S \<inter> {..<x})"
proof -
  have "x = card {..<x}" by simp
  also have "\<dots> = card ((S \<inter> {..<x}) \<union> (- S \<inter> {..<x}))" by (rule arg_cong[where f = card]) auto
  also have "\<dots> = card (S \<inter> {..<x}) + card (- S \<inter> {..<x})" by (rule card_Un_disjoint) auto
  finally show ?thesis by (simp add: rank_outside_def)
qed

lemma nth_outside_notin [simp]: "finite S \<Longrightarrow> nth_outside S i \<notin> S"
  using enumerate_in_set[OF infinite_compl, of S i] by (simp add: nth_outside_def)

lemma nth_outside_less [simp]:
  "finite S \<Longrightarrow> nth_outside S i < nth_outside S j \<longleftrightarrow> i < j"
  unfolding nth_outside_def by (simp add: infinite_compl)

lemma nth_outside_le [simp]:
  "finite S \<Longrightarrow> nth_outside S i \<le> nth_outside S j \<longleftrightarrow> i \<le> j"
  by (metis nth_outside_less not_le)

lemma nth_outside_inj [simp]:
  "finite S \<Longrightarrow> nth_outside S i = nth_outside S j \<longleftrightarrow> i = j"
  by (metis nat_neq_iff nth_outside_less)

lemma nth_outside_surj: "finite S \<Longrightarrow> x \<notin> S \<Longrightarrow> \<exists>i. nth_outside S i = x"
  using range_enumerate[OF infinite_compl, of S] unfolding nth_outside_def by (metis ComplI rangeE)

lemma nth_outside_ge: "finite S \<Longrightarrow> i \<le> nth_outside S i"
  unfolding nth_outside_def by (rule le_enumerate[OF infinite_compl])

lemma rank_nth_outside [simp]:
  assumes "finite S"
  shows "rank_outside S (nth_outside S i) = i"
proof -
  have "- S \<inter> {..<nth_outside S i} = nth_outside S ` {..<i}"
  proof (intro equalityI subsetI)
    fix x assume x: "x \<in> - S \<inter> {..<nth_outside S i}"
    then obtain j where "nth_outside S j = x" using nth_outside_surj assms by auto
    then show "x \<in> nth_outside S ` {..<i}" using x assms by (auto simp: image_iff)
  qed (use assms in auto)
  moreover have "inj_on (nth_outside S) {..<i}" using assms by (auto intro: inj_onI)
  ultimately show ?thesis by (simp add: rank_outside_compl card_image)
qed

lemma nth_rank_outside [simp]:
  "finite S \<Longrightarrow> x \<notin> S \<Longrightarrow> nth_outside S (rank_outside S x) = x"
  using nth_outside_surj by force

lemma nth_outside_eqI: "finite S \<Longrightarrow> x \<notin> S \<Longrightarrow> rank_outside S x = i \<Longrightarrow> nth_outside S i = x"
  by auto

lemma nth_outside_empty [simp]: "nth_outside {} i = i"
  by (rule nth_outside_eqI) (auto simp: rank_outside_def)

lemma rank_outside_empty [simp]: "rank_outside {} i = i"
  by (simp add: rank_outside_def)

lemma rank_outside_mono: "x \<le> y \<Longrightarrow> rank_outside S x \<le> rank_outside S y"
  unfolding rank_outside_compl by (rule card_mono) auto

lemma rank_outside_less_iff:
  assumes "finite S" "x \<notin> S" "y \<notin> S"
  shows "rank_outside S x < rank_outside S y \<longleftrightarrow> x < y"
  using assms by (metis nth_outside_less nth_rank_outside)

lemma rank_outside_le: "rank_outside S x \<le> x"
  by (simp add: rank_outside_def)

lemma rank_outside_singleton:
  "rank_outside {a} x = (if a < x then x - 1 else x)"
  by (auto simp: rank_outside_def)

section \<open>Moving positions past a run\<close>

lemma nth_outside_run: "nth_outside {i..<i + n} x = (if x < i then x else x + n)"
proof (rule nth_outside_eqI)
  show "rank_outside {i..<i + n} (if x < i then x else x + n) = x"
  proof (cases "x < i")
    case True
    then have "{i..<i + n} \<inter> {..<x} = {}" by auto
    with True show ?thesis by (simp add: rank_outside_def)
  next
    case False
    then have "{i..<i + n} \<inter> {..<x + n} = {i..<i + n}" by auto
    with False show ?thesis by (simp add: rank_outside_def)
  qed
qed auto

end
