(* ===== verification/Range_List.thy ===== *)
theory Range_List
  imports Prelude
begin

text \<open>
  Lists of half-open ranges, the flat view of a \<open>ChunkedRangeVector\<close>: the set of indices a list
  represents, the ordering invariant that \<open>ChunkedRangeVector::verify\<close> asserts, and how both
  behave under the edits the chunked operations perform.
\<close>

type_synonym range = "size \<times> size"

abbreviation range_len :: "range \<Rightarrow> nat" where
  "range_len r \<equiv> snd r - fst r"

definition rset :: "range list \<Rightarrow> nat set" where
  "rset rs = (\<Union>r \<in> set rs. {fst r..<snd r})"

text \<open>The invariant: every range is non-empty and a gap separates it from the next one.\<close>

definition sep :: "range list \<Rightarrow> bool" where
  "sep rs \<longleftrightarrow> (\<forall>r \<in> set rs. fst r < snd r) \<and> sorted_wrt (\<lambda>a b. snd a < fst b) rs"

definition range_total :: "range list \<Rightarrow> nat" where
  "range_total rs = (\<Sum>r\<leftarrow>rs. range_len r)"

text \<open>The indices of a range list, one by one, in the order of the ranges.\<close>

definition range_indexes :: "range list \<Rightarrow> nat list" where
  "range_indexes rs = concat (map (\<lambda>r. [fst r..<snd r]) rs)"

subsection \<open>The represented set\<close>

lemma rset_Nil [simp]: "rset [] = {}"
  by (simp add: rset_def)

lemma rset_Cons [simp]: "rset (r # rs) = {fst r..<snd r} \<union> rset rs"
  by (simp add: rset_def)

lemma rset_append [simp]: "rset (xs @ ys) = rset xs \<union> rset ys"
  by (simp add: rset_def)

lemma rset_iff: "x \<in> rset rs \<longleftrightarrow> (\<exists>r \<in> set rs. fst r \<le> x \<and> x < snd r)"
  by (auto simp: rset_def)

lemma finite_rset [simp]: "finite (rset rs)"
  by (simp add: rset_def)

lemma set_range_indexes [simp]: "set (range_indexes rs) = rset rs"
  by (auto simp: range_indexes_def rset_def)

lemma range_indexes_Nil [simp]: "range_indexes [] = []"
  by (simp add: range_indexes_def)

lemma range_indexes_Cons [simp]: "range_indexes (r # rs) = [fst r..<snd r] @ range_indexes rs"
  by (simp add: range_indexes_def)

lemma range_indexes_append [simp]: "range_indexes (xs @ ys) = range_indexes xs @ range_indexes ys"
  by (simp add: range_indexes_def)

lemma range_total_simps [simp]:
  "range_total [] = 0"
  "range_total (r # rs) = range_len r + range_total rs"
  "range_total (xs @ ys) = range_total xs + range_total ys"
  by (simp_all add: range_total_def)

subsection \<open>The ordering invariant\<close>

lemma sep_Nil [simp]: "sep []"
  by (simp add: sep_def)

lemma sep_Cons [simp]:
  "sep (r # rs) \<longleftrightarrow> fst r < snd r \<and> (\<forall>b \<in> set rs. snd r < fst b) \<and> sep rs"
  by (auto simp: sep_def)

lemma sep_append [simp]:
  "sep (xs @ ys) \<longleftrightarrow> sep xs \<and> sep ys \<and> (\<forall>a \<in> set xs. \<forall>b \<in> set ys. snd a < fst b)"
  by (auto simp: sep_def sorted_wrt_append)

lemma sep_nonempty: "sep rs \<Longrightarrow> r \<in> set rs \<Longrightarrow> fst r < snd r"
  by (simp add: sep_def)

lemma sep_less: "sep rs \<Longrightarrow> i < j \<Longrightarrow> j < length rs \<Longrightarrow> snd (rs ! i) < fst (rs ! j)"
  unfolding sep_def using sorted_wrt_nth_less by fastforce

lemma sep_tail_snd: "sep (r # rs) \<Longrightarrow> b \<in> set rs \<Longrightarrow> snd r < snd b"
  by (meson less_trans sep_Cons sep_nonempty)

text \<open>
  Only the neighbours matter: a list built from two separated parts is separated as soon as the
  last range of the first part ends before the first range of the second one starts.
\<close>

lemma sep_last_bound: "sep rs \<Longrightarrow> a \<in> set rs \<Longrightarrow> snd a \<le> snd (last rs)"
proof (induction rs)
  case (Cons r rs)
  show ?case
  proof (cases "rs = []")
    case False
    then have "snd r < snd (last rs)" using sep_tail_snd[OF Cons.prems(1)] by simp
    with False Cons show ?thesis by auto
  qed (use Cons in simp)
qed simp

lemma sep_hd_bound: "sep rs \<Longrightarrow> a \<in> set rs \<Longrightarrow> fst (hd rs) \<le> fst a"
  by (cases rs) auto

lemma sep_appendI:
  assumes "sep xs" "sep ys" "xs \<noteq> [] \<Longrightarrow> ys \<noteq> [] \<Longrightarrow> snd (last xs) < fst (hd ys)"
  shows "sep (xs @ ys)"
  unfolding sep_append
proof (intro conjI ballI assms)
  fix a b assume ab: "a \<in> set xs" "b \<in> set ys"
  then have ne: "xs \<noteq> []" "ys \<noteq> []" by auto
  have "snd a \<le> snd (last xs)" "fst (hd ys) \<le> fst b"
    using assms(1,2) ab by (auto intro: sep_last_bound sep_hd_bound)
  then show "snd a < fst b" using assms(3)[OF ne] by simp
qed

lemma sep_append_neighbours:
  "sep (xs @ ys) \<Longrightarrow> xs \<noteq> [] \<Longrightarrow> ys \<noteq> [] \<Longrightarrow> snd (last xs) < fst (hd ys)"
  by simp

lemma range_total_card: "sep rs \<Longrightarrow> range_total rs = card (rset rs)"
proof (induction rs)
  case (Cons r rs)
  have "{fst r..<snd r} \<inter> rset rs = {}"
    using Cons.prems by (force simp: rset_iff)
  with Cons show ?case by (simp add: card_Un_disjoint)
qed simp

lemma sorted_range_indexes: "sep rs \<Longrightarrow> sorted_wrt (<) (range_indexes rs)"
proof (induction rs)
  case (Cons r rs)
  have "\<forall>x \<in> set [fst r..<snd r]. \<forall>y \<in> rset rs. x < y"
    using Cons.prems by (force simp: rset_iff)
  with Cons show ?case by (simp add: sorted_wrt_append)
qed simp

lemma distinct_range_indexes: "sep rs \<Longrightarrow> distinct (range_indexes rs)"
  using sorted_range_indexes strict_sorted_iff by blast

text \<open>Two separated lists that represent the same set are equal: the representation is canonical.\<close>

lemma rset_hd_least: "sep (r # rs) \<Longrightarrow> x \<in> rset (r # rs) \<Longrightarrow> fst r \<le> x"
  by (force simp: rset_iff)

lemma sep_head_maximal: "sep (r # rs) \<Longrightarrow> snd r \<notin> rset (r # rs)"
  by (force simp: rset_iff)

lemma sep_canonical:
  assumes "sep xs" "sep ys" "rset xs = rset ys"
  shows "xs = ys"
  using assms
proof (induction xs arbitrary: ys)
  case Nil
  show ?case
  proof (cases ys)
    case (Cons r rs)
    with Nil have "fst r \<in> rset ys" by simp
    with Nil show ?thesis by auto
  qed simp
next
  case (Cons r rs)
  have "fst r \<in> rset ys" using Cons.prems by (metis Un_iff atLeastLessThan_iff le_refl rset_Cons sep_Cons)
  then obtain q qs where ys: "ys = q # qs" by (cases ys) auto
  have "fst q \<in> rset (r # rs)"
    using Cons.prems ys by simp
  then have "fst r \<le> fst q" by (rule rset_hd_least[OF Cons.prems(1)])
  moreover have "fst q \<le> fst r"
    using Cons.prems ys rset_hd_least[of q qs "fst r"] by auto
  ultimately have f: "fst r = fst q" by simp
  have s: "snd r = snd q"
  proof (rule ccontr)
    assume "snd r \<noteq> snd q"
    then consider "snd r < snd q" | "snd q < snd r" by linarith
    then show False
    proof cases
      case 1
      then have "snd r \<in> rset ys" using ys f Cons.prems by auto
      then show False using Cons.prems sep_head_maximal by metis
    next
      case 2
      then have "snd q \<in> rset (r # rs)" using f Cons.prems ys by auto
      then show False using Cons.prems ys sep_head_maximal by metis
    qed
  qed
  have disj: "{fst r..<snd r} \<inter> rset rs = {}" "{fst r..<snd r} \<inter> rset qs = {}"
    using Cons.prems ys f s by (force simp: rset_iff)+
  have "rset rs = rset qs"
    using Cons.prems(3) disj ys f s by auto
  then have "rs = qs" using Cons.prems ys Cons.IH by simp
  with f s ys show ?case by (simp add: prod_eq_iff)
qed

subsection \<open>Splitting at an index\<close>

text \<open>
  \<open>split_at xs ys i\<close>: the list is cut into the ranges that end at or before \<open>i\<close> and the others.
\<close>

definition split_at :: "range list \<Rightarrow> range list \<Rightarrow> nat \<Rightarrow> bool" where
  "split_at xs ys i \<longleftrightarrow> (\<forall>r \<in> set xs. snd r \<le> i) \<and> (ys \<noteq> [] \<longrightarrow> i < snd (hd ys))"

lemma split_at_unique:
  assumes "split_at xs ys i" "split_at us vs i" "xs @ ys = us @ vs"
  shows "xs = us \<and> ys = vs"
proof -
  have "length xs = length us"
  proof (rule ccontr)
    assume "length xs \<noteq> length us"
    then consider "length xs < length us" | "length us < length xs" by linarith
    then show False
    proof cases
      case 1
      then obtain zs where "us = xs @ zs" "ys = zs @ vs" "zs \<noteq> []"
        using assms(3) by (auto simp: append_eq_append_conv2)
      then show False using assms by (cases zs) (auto simp: split_at_def)
    next
      case 2
      then obtain zs where "xs = us @ zs" "vs = zs @ ys" "zs \<noteq> []"
        using assms(3) by (auto simp: append_eq_append_conv2)
      then show False using assms by (cases zs) (auto simp: split_at_def)
    qed
  qed
  then show ?thesis using assms(3) by simp
qed

lemma split_at_below: "split_at xs ys i \<Longrightarrow> x \<in> rset xs \<Longrightarrow> x < i"
  by (force simp: split_at_def rset_iff)

lemma split_at_tail:
  assumes "split_at xs ys i" "sep ys" "r \<in> set ys"
  shows "i < snd r"
proof (cases ys)
  case (Cons y zs)
  then have y: "i < snd y" using assms(1) by (simp add: split_at_def)
  show ?thesis
  proof (cases "r = y")
    case False
    then have "snd y < snd r" using assms Cons by (auto intro: sep_tail_snd[of y zs])
    with y show ?thesis by simp
  qed (use y in simp)
qed (use assms in simp)

lemma split_at_tail_fst:
  assumes "split_at xs (y # ys) i" "sep (y # ys)" "r \<in> set ys"
  shows "i < fst r"
  using assms by (auto simp: split_at_def)

lemma split_at_mem:
  assumes "split_at xs ys i" "sep (xs @ ys)"
  shows "i \<in> rset (xs @ ys) \<longleftrightarrow> ys \<noteq> [] \<and> fst (hd ys) \<le> i"
proof -
  have no: "i \<notin> rset xs" using split_at_below[OF assms(1)] by blast
  show ?thesis
  proof (cases ys)
    case (Cons y zs)
    have "i < snd y" using assms(1) Cons by (simp add: split_at_def)
    moreover have "i \<notin> rset zs"
      using split_at_tail_fst[of xs y zs i] assms Cons by (fastforce simp: rset_iff)
    ultimately show ?thesis using no Cons by auto
  qed (use no in simp)
qed

lemma split_at_partition:
  "sep rs \<Longrightarrow> split_at (takeWhile (\<lambda>r. snd r \<le> i) rs) (dropWhile (\<lambda>r. snd r \<le> i) rs) i"
  unfolding split_at_def using hd_dropWhile[of "\<lambda>r. snd r \<le> i" rs]
  by (metis not_le set_takeWhileD)

lemma sep_prefix_down:
  assumes "sep rs" "j \<le> k" "k < length rs" "snd (rs ! k) \<le> i"
  shows "snd (rs ! j) \<le> i"
proof (cases "j = k")
  case False
  then have "snd (rs ! j) < fst (rs ! k)" using sep_less[OF assms(1)] assms by simp
  also have "fst (rs ! k) < snd (rs ! k)" using assms by (simp add: sep_nonempty)
  finally show ?thesis using assms(4) by simp
qed (use assms in simp)

end
