(* ===== verification/Chunked_Ranges.thy ===== *)
theory Chunked_Ranges
  imports Range_List
begin

text \<open>
  \<open>ChunkedRangeVector\<close> of \<open>index_set.hpp\<close> and \<open>index_set.cpp\<close>: a vector of chunks, each a
  bounded vector of ranges with its cached begin, end and count, and the iterators that walk and
  edit it.  An iterator is the pair of the chunk's position (\<open>m_outer\<close>) and the offset of the
  range in it (\<open>m_inner\<close>); the end iterator is the number of chunks with offset 0 (there
  \<open>m_inner\<close> is null).  The second half relates every operation to the flat list of ranges.
\<close>

section \<open>Data\<close>

record chunk =
  chunk_data :: "range list"
  chunk_begin :: size
  chunk_end :: size
  chunk_count :: size

type_synonym crv = "chunk list"
type_synonym iter = "nat \<times> nat"

text \<open>\<open>4096 / sizeof(std::pair<size_t, size_t>)\<close>, the value of builds without \<open>REALM_DEBUG\<close>.\<close>

definition max_size :: nat where
  "max_size = 4096 div 16"

lemma max_size_val: "max_size = 256"
  by (simp add: max_size_def)

section \<open>Iterators\<close>

definition it_begin :: "crv \<Rightarrow> iter" where
  "it_begin m = (if m = [] then (length m, 0) else (0, 0))"

definition it_end :: "crv \<Rightarrow> iter" where
  "it_end m = (length m, 0)"

definition it_get :: "crv \<Rightarrow> iter \<Rightarrow> range" where
  "it_get m it = chunk_data (m ! fst it) ! snd it"

text \<open>The iterator has run off the last chunk (\<open>it == end()\<close>).\<close>

definition at_end :: "crv \<Rightarrow> iter \<Rightarrow> bool" where
  "at_end m it \<longleftrightarrow> length m \<le> fst it"

definition it_next_chunk :: "iter \<Rightarrow> iter" where
  "it_next_chunk it = (Suc (fst it), 0)"

text \<open>
  The source moves to the next chunk when the offset has become the size of the chunk; the offset
  of an iterator never exceeds it.
\<close>

definition it_next :: "crv \<Rightarrow> iter \<Rightarrow> iter" where
  "it_next m it =
     (if length (chunk_data (m ! fst it)) \<le> Suc (snd it) then it_next_chunk it
      else (fst it, Suc (snd it)))"

definition it_prev :: "crv \<Rightarrow> iter \<Rightarrow> iter" where
  "it_prev m it =
     (if snd it = 0 then (fst it - 1, length (chunk_data (m ! (fst it - 1))) - 1)
      else (fst it, snd it - 1))"

section \<open>Invariant-preserving mutation through an iterator\<close>

definition it_set :: "crv \<Rightarrow> iter \<Rightarrow> size \<Rightarrow> size \<Rightarrow> crv" where
  "it_set m it front back =
     (let c = m ! fst it; r = it_get m it in
      m[fst it := c\<lparr>
        chunk_begin := (if snd it = 0 then front else chunk_begin c),
        chunk_end := (if Suc (snd it) = length (chunk_data c) then back else chunk_end c),
        chunk_count := chunk_count c - (snd r - fst r) + (back - front),
        chunk_data := (chunk_data c)[snd it := (front, back)]\<rparr>])"

definition add_diff :: "size \<Rightarrow> int \<Rightarrow> size" where
  "add_diff x d = nat (int x + d)"

definition it_adjust :: "crv \<Rightarrow> iter \<Rightarrow> int \<Rightarrow> int \<Rightarrow> crv" where
  "it_adjust m it front back =
     (let c = m ! fst it; r = it_get m it in
      m[fst it := c\<lparr>
        chunk_begin := (if snd it = 0 then add_diff (chunk_begin c) front else chunk_begin c),
        chunk_end := (if Suc (snd it) = length (chunk_data c) then add_diff (chunk_end c) back
          else chunk_end c),
        chunk_count := add_diff (chunk_count c) (- front + back),
        chunk_data := (chunk_data c)[snd it := (add_diff (fst r) front, add_diff (snd r) back)]\<rparr>])"

definition it_shift :: "crv \<Rightarrow> iter \<Rightarrow> int \<Rightarrow> crv" where
  "it_shift m it distance =
     (let c = m ! fst it; r = it_get m it in
      m[fst it := c\<lparr>
        chunk_begin := (if snd it = 0 then add_diff (chunk_begin c) distance else chunk_begin c),
        chunk_end := (if Suc (snd it) = length (chunk_data c) then add_diff (chunk_end c) distance
          else chunk_end c),
        chunk_data := (chunk_data c)[snd it := (add_diff (fst r) distance, add_diff (snd r) distance)]\<rparr>])"

section \<open>Structural operations\<close>

definition crv_push_back :: "crv \<Rightarrow> range \<Rightarrow> crv" where
  "crv_push_back m v =
     (if m \<noteq> [] \<and> length (chunk_data (last m)) < max_size
      then let c = last m in
        butlast m @ [c\<lparr>chunk_data := chunk_data c @ [v],
          chunk_count := chunk_count c + (snd v - fst v), chunk_end := snd v\<rparr>]
      else m @ [\<lparr>chunk_data = [v], chunk_begin = fst v, chunk_end = snd v,
        chunk_count = snd v - fst v\<rparr>])"

definition ensure_space :: "crv \<Rightarrow> iter \<Rightarrow> crv \<times> iter" where
  "ensure_space m pos =
     (let prev = m ! fst pos; d = chunk_data prev in
      if length d + 1 \<le> max_size then (m, pos)
      else let to_move = max_size div 2;
          new_data = drop (length d - to_move) d;
          kept = take (length d - to_move) d;
          moved_count = (\<Sum>r\<leftarrow>new_data. snd r - fst r);
          prev' = prev\<lparr>chunk_data := kept, chunk_end := snd (last kept),
            chunk_count := chunk_count prev - moved_count\<rparr>;
          new_chunk = \<lparr>chunk_data = new_data, chunk_begin = fst (hd new_data),
            chunk_end = snd (last new_data), chunk_count = moved_count\<rparr>
        in (take (fst pos) m @ [prev', new_chunk] @ drop (Suc (fst pos)) m,
            if to_move \<le> snd pos then (Suc (fst pos), snd pos - to_move) else pos))"

definition crv_insert :: "crv \<Rightarrow> iter \<Rightarrow> range \<Rightarrow> crv \<times> iter" where
  "crv_insert m pos v =
     (if fst pos = length m
      then let m' = crv_push_back m v in (m', it_prev m' (it_end m'))
      else let (m1, pos1) = ensure_space m pos; c = m1 ! fst pos1; i = snd pos1 in
        (m1[fst pos1 := c\<lparr>
          chunk_data := take i (chunk_data c) @ v # drop i (chunk_data c),
          chunk_count := chunk_count c + (snd v - fst v),
          chunk_begin := min (chunk_begin c) (fst v),
          chunk_end := max (chunk_end c) (snd v)\<rparr>], pos1))"

definition crv_erase :: "crv \<Rightarrow> iter \<Rightarrow> crv \<times> iter" where
  "crv_erase m pos =
     (let c = m ! fst pos; i = snd pos; r = it_get m pos;
          d = take i (chunk_data c) @ drop (Suc i) (chunk_data c);
          n = chunk_count c - (snd r - fst r)
      in if d = [] then (take (fst pos) m @ drop (Suc (fst pos)) m, (fst pos, 0))
         else (m[fst pos := c\<lparr>chunk_data := d, chunk_count := n,
                 chunk_begin := fst (hd d), chunk_end := snd (last d)\<rparr>],
               if i < length d then pos else (Suc (fst pos), 0)))"

section \<open>The flat view and the invariant\<close>

definition ranges :: "crv \<Rightarrow> range list" where
  "ranges m = concat (map chunk_data m)"

definition chunk_ok :: "chunk \<Rightarrow> bool" where
  "chunk_ok c \<longleftrightarrow> chunk_data c \<noteq> [] \<and> length (chunk_data c) \<le> max_size \<and>
     chunk_begin c = fst (hd (chunk_data c)) \<and> chunk_end c = snd (last (chunk_data c)) \<and>
     chunk_count c = range_total (chunk_data c)"

text \<open>What \<open>ChunkedRangeVector::verify\<close> checks, and the bound on the size of a chunk.\<close>

definition wf :: "crv \<Rightarrow> bool" where
  "wf m \<longleftrightarrow> list_all chunk_ok m \<and> sep (ranges m)"

definition valid_it :: "crv \<Rightarrow> iter \<Rightarrow> bool" where
  "valid_it m it \<longleftrightarrow> fst it < length m \<and> snd it < length (chunk_data (m ! fst it)) \<or> it = it_end m"

definition before :: "crv \<Rightarrow> iter \<Rightarrow> range list" where
  "before m it = ranges (take (fst it) m) @
     (if fst it < length m then take (snd it) (chunk_data (m ! fst it)) else [])"

definition after :: "crv \<Rightarrow> iter \<Rightarrow> range list" where
  "after m it = (if fst it < length m then drop (snd it) (chunk_data (m ! fst it)) else []) @
     ranges (drop (Suc (fst it)) m)"


section \<open>Iterators on the flat view\<close>

lemma ranges_simps [simp]:
  "ranges [] = []"
  "ranges (c # m) = chunk_data c @ ranges m"
  "ranges (m @ m') = ranges m @ ranges m'"
  by (simp_all add: ranges_def)

lemma ranges_eq_Nil: "list_all chunk_ok m \<Longrightarrow> ranges m = [] \<longleftrightarrow> m = []"
  by (cases m) (auto simp: chunk_ok_def)

lemma it_eqs [simp]:
  "fst (it_end m) = length m" "snd (it_end m) = 0"
  "at_end m (it_end m)" "valid_it m (it_end m)"
  "before m (it_end m) = ranges m" "after m (it_end m) = []"
  by (simp_all add: it_end_def at_end_def valid_it_def before_def after_def)

text \<open>A valid iterator that is not at the end cuts the vector at one range.\<close>

lemma it_cases:
  assumes "valid_it m it" "\<not> at_end m it"
  obtains M1 c M2 d1 r d2 where "m = M1 @ c # M2" "it = (length M1, length d1)"
    "chunk_data c = d1 @ r # d2"
proof
  have o: "fst it < length m" using assms(2) by (simp add: at_end_def)
  then have i: "snd it < length (chunk_data (m ! fst it))"
    using assms(1) by (auto simp: valid_it_def it_end_def)
  show "m = take (fst it) m @ m ! fst it # drop (Suc (fst it)) m"
    using o by (rule id_take_nth_drop)
  show "chunk_data (m ! fst it) = take (snd it) (chunk_data (m ! fst it)) @
    chunk_data (m ! fst it) ! snd it # drop (Suc (snd it)) (chunk_data (m ! fst it))"
    using i by (rule id_take_nth_drop)
  show "it = (length (take (fst it) m), length (take (snd it) (chunk_data (m ! fst it))))"
    using o i by (simp add: prod_eq_iff)
qed

lemma valid_it_endD: "valid_it m it \<Longrightarrow> at_end m it \<Longrightarrow> it = it_end m"
  by (auto simp: valid_it_def at_end_def)

lemma cut_simps:
  assumes "it = (length M1, length d1)" "chunk_data c = d1 @ r # d2"
  shows "before (M1 @ c # M2) it = ranges M1 @ d1"
    and "after (M1 @ c # M2) it = r # d2 @ ranges M2"
    and "it_get (M1 @ c # M2) it = r"
    and "valid_it (M1 @ c # M2) it"
    and "\<not> at_end (M1 @ c # M2) it"
    and "it_next (M1 @ c # M2) it = (if d2 = [] then (Suc (length M1), 0) else (length M1, Suc (length d1)))"
  using assms
  by (simp_all add: before_def after_def it_get_def valid_it_def at_end_def it_next_def
      it_next_chunk_def length_greater_0_conv[symmetric] del: length_greater_0_conv)

lemma ranges_split: "valid_it m it \<Longrightarrow> ranges m = before m it @ after m it"
proof (cases "at_end m it")
  case False
  assume "valid_it m it"
  with False obtain M1 c M2 d1 r d2 where "m = M1 @ c # M2" "it = (length M1, length d1)"
    "chunk_data c = d1 @ r # d2" by (elim it_cases)
  then show ?thesis by (simp add: cut_simps)
qed (auto dest: valid_it_endD)

lemma at_end_iff: "valid_it m it \<Longrightarrow> at_end m it \<longleftrightarrow> after m it = []"
proof (cases "at_end m it")
  case False
  assume "valid_it m it"
  with False obtain M1 c M2 d1 r d2 where "m = M1 @ c # M2" "it = (length M1, length d1)"
    "chunk_data c = d1 @ r # d2" by (elim it_cases)
  with False show ?thesis by (simp add: cut_simps)
qed (auto dest: valid_it_endD)

lemma it_next_step:
  assumes ok: "list_all chunk_ok m" and v: "valid_it m it" and ne: "\<not> at_end m it"
  shows "after m it = it_get m it # after m (it_next m it)"
    and "before m (it_next m it) = before m it @ [it_get m it]"
    and "valid_it m (it_next m it)"
proof -
  obtain M1 c M2 d1 r d2 where m: "m = M1 @ c # M2" "it = (length M1, length d1)"
    "chunk_data c = d1 @ r # d2" using v ne by (elim it_cases)
  have nx: "after m (it_next m it) = d2 @ ranges M2 \<and> before m (it_next m it) = ranges M1 @ d1 @ [r]
    \<and> valid_it m (it_next m it)"
  proof (cases d2)
    case Nil
    show ?thesis
    proof (cases M2)
      case Nil
      then show ?thesis using m \<open>d2 = []\<close>
        by (simp add: cut_simps) (simp add: before_def after_def valid_it_def it_end_def)
    next
      case (Cons c' M3)
      then have "chunk_data c' \<noteq> []" using ok m by (simp add: chunk_ok_def)
      then show ?thesis using m \<open>d2 = []\<close> Cons
        by (simp add: cut_simps) (simp add: before_def after_def valid_it_def nth_append)
    qed
  next
    case (Cons r' d3)
    then show ?thesis using m
      by (simp add: cut_simps) (simp add: before_def after_def valid_it_def)
  qed
  then show "after m it = it_get m it # after m (it_next m it)"
    and "before m (it_next m it) = before m it @ [it_get m it]"
    and "valid_it m (it_next m it)"
    using m by (simp_all add: cut_simps)
qed

lemma it_begin_spec:
  assumes "list_all chunk_ok m"
  shows "before m (it_begin m) = []" "after m (it_begin m) = ranges m" "valid_it m (it_begin m)"
  using assms
  by (cases m; auto simp: it_begin_def before_def after_def valid_it_def it_end_def chunk_ok_def)+

lemma valid_chunk_start:
  assumes "list_all chunk_ok m" "k \<le> length m"
  shows "valid_it m (k, 0)" "before m (k, 0) = ranges (take k m)" "after m (k, 0) = ranges (drop k m)"
proof -
  show "valid_it m (k, 0)"
    using assms by (cases "k = length m") (auto simp: valid_it_def it_end_def list_all_length chunk_ok_def)
  show "before m (k, 0) = ranges (take k m)" by (simp add: before_def)
  show "after m (k, 0) = ranges (drop k m)"
    using assms(2) by (cases "k = length m") (simp_all add: after_def Cons_nth_drop_Suc[symmetric])
qed

text \<open>An iterator is determined by the ranges before it.\<close>

lemma it_eqI:
  assumes ok: "list_all chunk_ok m" and v: "valid_it m a" "valid_it m b"
    and eq: "before m a = before m b"
  shows "a = b"
proof -
  have aft: "after m a = after m b"
    using ranges_split[OF v(1)] ranges_split[OF v(2)] eq by simp
  show ?thesis
  proof (cases "at_end m a")
    case True
    then have "at_end m b" using aft at_end_iff v by simp
    with True show ?thesis using v by (metis valid_it_endD)
  next
    case na: False
    then have nb: "\<not> at_end m b" using aft at_end_iff v by simp
    obtain M1 c M2 d1 r d2 where A: "m = M1 @ c # M2" "a = (length M1, length d1)"
      "chunk_data c = d1 @ r # d2" using v(1) na by (elim it_cases)
    obtain N1 e N2 f1 q f2 where B: "m = N1 @ e # N2" "b = (length N1, length f1)"
      "chunk_data e = f1 @ q # f2" using v(2) nb by (elim it_cases)
    have bef: "ranges M1 @ d1 = ranges N1 @ f1"
      using eq cut_simps(1)[OF A(2,3), of M2] cut_simps(1)[OF B(2,3), of N2] A(1) B(1) by simp
    have "length M1 = length N1"
    proof (rule ccontr)
      assume "length M1 \<noteq> length N1"
      then consider "length M1 < length N1" | "length N1 < length M1" by linarith
      then show False
      proof cases
        case 1
        then obtain zs where "N1 = M1 @ c # zs"
          using A(1) B(1) by (auto simp: append_eq_append_conv2 append_eq_Cons_conv)
        then show False using bef A(3) by simp
      next
        case 2
        then obtain zs where "M1 = N1 @ e # zs"
          using A(1) B(1) by (auto simp: append_eq_append_conv2 append_eq_Cons_conv Cons_eq_append_conv)
        then show False using bef B(3) by simp
      qed
    qed
    then have "M1 = N1" using A(1) B(1) by simp
    then show ?thesis using bef A B by simp
  qed
qed

lemma it_is_begin:
  assumes "list_all chunk_ok m" "valid_it m it"
  shows "it = it_begin m \<longleftrightarrow> before m it = []"
  using it_begin_spec[OF assms(1)] it_eqI[OF assms(1)] assms(2) by metis

lemma it_prev_step:
  assumes ok: "list_all chunk_ok m" and v: "valid_it m it" and ne: "before m it \<noteq> []"
  shows "before m it = before m (it_prev m it) @ [it_get m (it_prev m it)]"
    and "after m (it_prev m it) = it_get m (it_prev m it) # after m it"
    and "valid_it m (it_prev m it)" and "\<not> at_end m (it_prev m it)"
proof -
  have ex: "\<exists>M1 c M2 d1 r d2. m = M1 @ c # M2 \<and> it_prev m it = (length M1, length d1) \<and>
    chunk_data c = d1 @ r # d2 \<and> before m it = ranges M1 @ d1 @ [r]"
  proof (cases "snd it")
    case 0
    define o' where "o' = fst it - 1"
    have "fst it \<noteq> 0" using ne 0 by (cases "fst it") (auto simp: before_def split: if_splits)
    moreover have le: "fst it \<le> length m" using v by (auto simp: valid_it_def)
    ultimately have o': "o' < length m" "fst it = Suc o'" by (auto simp: o'_def)
    let ?c = "m ! o'"
    have cne: "chunk_data ?c \<noteq> []" using ok o' by (auto simp: list_all_length chunk_ok_def)
    show ?thesis
    proof (intro exI conjI)
      show "m = take o' m @ ?c # drop (Suc o') m" using o'(1) by (rule id_take_nth_drop)
      show "chunk_data ?c = butlast (chunk_data ?c) @ last (chunk_data ?c) # []" using cne by simp
      show "it_prev m it = (length (take o' m), length (butlast (chunk_data ?c)))"
        using 0 o' by (simp add: it_prev_def)
      have "before m it = ranges (take o' m) @ chunk_data ?c"
        using 0 o' by (simp add: before_def take_Suc_conv_app_nth)
      then show "before m it = ranges (take o' m) @ butlast (chunk_data ?c) @ [last (chunk_data ?c)]"
        using cne by simp
    qed
  next
    case (Suc j)
    then have "\<not> at_end m it" using v by (auto simp: valid_it_def at_end_def)
    then obtain M1 c M2 d1 r d2 where m: "m = M1 @ c # M2" "it = (length M1, length d1)"
      "chunk_data c = d1 @ r # d2" using v by (elim it_cases)
    have d1: "d1 = butlast d1 @ [last d1]" using m(2) Suc by (cases d1 rule: rev_cases) auto
    show ?thesis
    proof (intro exI conjI)
      show "m = M1 @ c # M2" by fact
      show "chunk_data c = butlast d1 @ last d1 # r # d2" using m(3) d1 by (metis append.assoc append_Cons append_Nil)
      show "it_prev m it = (length M1, length (butlast d1))" using m(2) Suc by (simp add: it_prev_def)
      show "before m it = ranges M1 @ butlast d1 @ [last d1]" using m d1 by (simp add: cut_simps)
    qed
  qed
  then obtain M1 c M2 d1 r d2 where m: "m = M1 @ c # M2" "it_prev m it = (length M1, length d1)"
    "chunk_data c = d1 @ r # d2" and b: "before m it = ranges M1 @ d1 @ [r]" by blast
  show v': "valid_it m (it_prev m it)" and "\<not> at_end m (it_prev m it)"
    using m by (simp_all add: cut_simps)
  show b': "before m it = before m (it_prev m it) @ [it_get m (it_prev m it)]"
    using m b by (simp add: cut_simps)
  have "ranges M1 @ d1 @ r # d2 @ ranges M2 = before m it @ after m it"
    using ranges_split[OF v] m by simp
  then show "after m (it_prev m it) = it_get m (it_prev m it) # after m it"
    using m b by (simp add: cut_simps)
qed


section \<open>Edits on the flat view\<close>

text \<open>
  \<open>edits m it m' new\<close>: the chunked vector \<open>m'\<close> has the shape of \<open>m\<close>, the same ranges before
  \<open>it\<close>, and \<open>new\<close> in place of the range at \<open>it\<close>.
\<close>

definition edits :: "crv \<Rightarrow> iter \<Rightarrow> crv \<Rightarrow> range \<Rightarrow> bool" where
  "edits m it m' new \<longleftrightarrow> list_all chunk_ok m' \<and> length m' = length m \<and> valid_it m' it \<and>
     \<not> at_end m' it \<and> before m' it = before m it \<and> after m' it = new # tl (after m it) \<and>
     it_next m' it = it_next m it"

lemma editsD:
  assumes "edits m it m' new"
  shows "list_all chunk_ok m'" "length m' = length m" "valid_it m' it" "\<not> at_end m' it"
    "before m' it = before m it" "after m' it = new # tl (after m it)"
    "it_next m' it = it_next m it" "it_get m' it = new"
    "before m' (it_next m it) = before m it @ [new]" "after m' (it_next m it) = tl (after m it)"
    "valid_it m' (it_next m it)"
proof -
  note e = assms[unfolded edits_def]
  then show "list_all chunk_ok m'" "length m' = length m" "valid_it m' it" "\<not> at_end m' it"
    "before m' it = before m it" "after m' it = new # tl (after m it)"
    "it_next m' it = it_next m it" by blast+
  have "list_all chunk_ok m'" "valid_it m' it" "\<not> at_end m' it" using e by blast+
  from it_next_step[OF this] show "it_get m' it = new"
    "before m' (it_next m it) = before m it @ [new]" "after m' (it_next m it) = tl (after m it)"
    "valid_it m' (it_next m it)"
    using e by auto
qed

lemma it_set_edits:
  assumes ok: "list_all chunk_ok m" and v: "valid_it m it" and ne: "\<not> at_end m it"
  shows "edits m it (it_set m it front back) (front, back)"
proof -
  obtain M1 c M2 d1 r d2 where m: "m = M1 @ c # M2" "it = (length M1, length d1)"
    "chunk_data c = d1 @ r # d2" using v ne by (elim it_cases)
  define c' where "c' = c\<lparr>
        chunk_begin := (if d1 = [] then front else chunk_begin c),
        chunk_end := (if d2 = [] then back else chunk_end c),
        chunk_count := chunk_count c - (snd r - fst r) + (back - front),
        chunk_data := d1 @ (front, back) # d2\<rparr>"
  have eq: "it_set m it front back = M1 @ c' # M2"
    using m by (simp add: it_set_def cut_simps Let_def c'_def)
  have d': "chunk_data c' = d1 @ (front, back) # d2" by (simp add: c'_def)
  have cok: "chunk_ok c" using ok m by simp
  then have "chunk_ok c'"
    using m by (cases d1; cases d2 rule: rev_cases) (auto simp: chunk_ok_def c'_def)
  then have ok': "list_all chunk_ok (M1 @ c' # M2)" using ok m by simp
  show ?thesis
    unfolding edits_def eq
    using ok' cut_simps[OF m(2) d', of M2] cut_simps[OF m(2,3), of M2] m(1) by simp
qed

lemma add_diff_simps [simp]:
  "add_diff x (int n) = x + n" "n \<le> x \<Longrightarrow> add_diff x (- int n) = x - n"
  "add_diff x 0 = x" "add_diff x 1 = Suc x" "1 \<le> x \<Longrightarrow> add_diff x (- 1) = x - 1"
  by (simp_all add: add_diff_def)

text \<open>Within bounds, \<open>adjust\<close> and \<open>shift\<close> are \<open>set\<close> with the moved ends.\<close>

lemma it_adjust_set:
  assumes ok: "list_all chunk_ok m" and v: "valid_it m it" and ne: "\<not> at_end m it"
    and r: "fst (it_get m it) \<le> snd (it_get m it)"
    and b: "0 \<le> int (fst (it_get m it)) + a"
      "int (fst (it_get m it)) + a \<le> int (snd (it_get m it)) + d"
  shows "it_adjust m it a d = it_set m it (add_diff (fst (it_get m it)) a) (add_diff (snd (it_get m it)) d)"
proof -
  obtain M1 c M2 d1 r d2 where m: "m = M1 @ c # M2" "it = (length M1, length d1)"
    "chunk_data c = d1 @ r # d2" using v ne by (elim it_cases)
  have cok: "chunk_ok c" using ok m by simp
  have g: "it_get m it = r" using m by (simp add: cut_simps)
  have b1: "d1 = [] \<Longrightarrow> chunk_begin c = fst r" using cok m by (simp add: chunk_ok_def)
  have e1: "d2 = [] \<Longrightarrow> chunk_end c = snd r" using cok m by (simp add: chunk_ok_def)
  have n1: "snd r - fst r \<le> chunk_count c" using cok m by (simp add: chunk_ok_def)
  have n2: "add_diff (chunk_count c) (- a + d) =
      chunk_count c - (snd r - fst r) + (add_diff (snd r) d - add_diff (fst r) a)"
    using n1 \<open>fst (it_get m it) \<le> snd (it_get m it)\<close> b unfolding g add_diff_def by linarith
  show ?thesis
    using m g b1 e1 n2 by (auto simp: it_adjust_def it_set_def Let_def)
qed

lemma it_shift_set:
  assumes ok: "list_all chunk_ok m" and v: "valid_it m it" and ne: "\<not> at_end m it"
    and r: "fst (it_get m it) \<le> snd (it_get m it)"
    and b: "0 \<le> int (fst (it_get m it)) + d"
  shows "it_shift m it d = it_set m it (add_diff (fst (it_get m it)) d) (add_diff (snd (it_get m it)) d)"
proof -
  obtain M1 c M2 d1 r d2 where m: "m = M1 @ c # M2" "it = (length M1, length d1)"
    "chunk_data c = d1 @ r # d2" using v ne by (elim it_cases)
  have cok: "chunk_ok c" using ok m by simp
  have g: "it_get m it = r" using m by (simp add: cut_simps)
  have b1: "d1 = [] \<Longrightarrow> chunk_begin c = fst r" using cok m by (simp add: chunk_ok_def)
  have e1: "d2 = [] \<Longrightarrow> chunk_end c = snd r" using cok m by (simp add: chunk_ok_def)
  have n1: "snd r - fst r \<le> chunk_count c" using cok m by (simp add: chunk_ok_def)
  have n2: "chunk_count c - (snd r - fst r) + (add_diff (snd r) d - add_diff (fst r) d) = chunk_count c"
    using n1 \<open>fst (it_get m it) \<le> snd (it_get m it)\<close> b unfolding g add_diff_def by linarith
  show ?thesis
    using m g b1 e1 n2 by (auto simp: it_shift_def it_set_def Let_def)
qed

lemma it_adjust_edits:
  assumes "list_all chunk_ok m" "valid_it m it" "\<not> at_end m it"
    and "fst (it_get m it) \<le> snd (it_get m it)"
    and "0 \<le> int (fst (it_get m it)) + a"
    and "int (fst (it_get m it)) + a \<le> int (snd (it_get m it)) + d"
  shows "edits m it (it_adjust m it a d)
    (add_diff (fst (it_get m it)) a, add_diff (snd (it_get m it)) d)"
  using it_adjust_set[OF assms] it_set_edits[OF assms(1-3)] by simp

lemma it_shift_edits:
  assumes "list_all chunk_ok m" "valid_it m it" "\<not> at_end m it"
    and "fst (it_get m it) \<le> snd (it_get m it)" "0 \<le> int (fst (it_get m it)) + d"
  shows "edits m it (it_shift m it d)
    (add_diff (fst (it_get m it)) d, add_diff (snd (it_get m it)) d)"
  using it_shift_set[OF assms] it_set_edits[OF assms(1-3)] by simp

text \<open>Appending, splitting, inserting and erasing.\<close>

lemma chunk_ok_appendI:
  assumes "chunk_ok c" "length (chunk_data c) < max_size"
  shows "chunk_ok (c\<lparr>chunk_data := chunk_data c @ [v],
    chunk_count := chunk_count c + (snd v - fst v), chunk_end := snd v\<rparr>)"
  using assms by (auto simp: chunk_ok_def)

lemma crv_push_back_spec:
  assumes ok: "list_all chunk_ok m"
  shows "list_all chunk_ok (crv_push_back m v)" "ranges (crv_push_back m v) = ranges m @ [v]"
proof -
  show "list_all chunk_ok (crv_push_back m v)"
  proof (cases "m \<noteq> [] \<and> length (chunk_data (last m)) < max_size")
    case True
    then have "m = butlast m @ [last m]" by simp
    then have "list_all chunk_ok (butlast m)" "chunk_ok (last m)"
      using ok by (metis list_all_append list.pred_inject(2))+
    with True show ?thesis by (simp add: crv_push_back_def Let_def chunk_ok_appendI)
  next
    case False
    then show ?thesis using ok
      by (auto simp: crv_push_back_def chunk_ok_def max_size_def)
  qed
  show "ranges (crv_push_back m v) = ranges m @ [v]"
  proof (cases "m \<noteq> [] \<and> length (chunk_data (last m)) < max_size")
    case True
    then have "ranges m = ranges (butlast m) @ chunk_data (last m)"
      by (metis append_butlast_last_id append_Nil2 ranges_simps)
    with True show ?thesis by (simp add: crv_push_back_def Let_def)
  qed (auto simp: crv_push_back_def)
qed


lemma ensure_space_spec:
  assumes ok: "list_all chunk_ok m" and v: "valid_it m it" and ne: "\<not> at_end m it"
    and e: "ensure_space m it = (m', it')"
  shows "list_all chunk_ok m'" "valid_it m' it'" "\<not> at_end m' it'"
    "before m' it' = before m it" "after m' it' = after m it"
    "length (chunk_data (m' ! fst it')) < max_size"
proof -
  obtain M1 c M2 d1 r d2 where m: "m = M1 @ c # M2" "it = (length M1, length d1)"
    "chunk_data c = d1 @ r # d2" using v ne by (elim it_cases)
  have cok: "chunk_ok c" using ok m by simp
  have "list_all chunk_ok m' \<and> valid_it m' it' \<and> \<not> at_end m' it' \<and>
    before m' it' = before m it \<and> after m' it' = after m it \<and>
    length (chunk_data (m' ! fst it')) < max_size"
  proof (cases "length (chunk_data c) + 1 \<le> max_size")
    case True
    then show ?thesis using e m ok v ne by (auto simp: ensure_space_def Let_def)
  next
    case False
    then have len: "length (chunk_data c) = 256" using cok by (simp add: chunk_ok_def max_size_val)
    define kept where "kept = take 128 (chunk_data c)"
    define new where "new = drop 128 (chunk_data c)"
    have split: "chunk_data c = kept @ new" by (simp add: kept_def new_def)
    have kl: "length kept = 128" "length new = 128" "kept \<noteq> []" "new \<noteq> []"
      using len by (auto simp: kept_def new_def)
    define prev' where "prev' = c\<lparr>chunk_data := kept, chunk_end := snd (last kept),
      chunk_count := chunk_count c - range_total new\<rparr>"
    define nc where "nc = \<lparr>chunk_data = new, chunk_begin = fst (hd new), chunk_end = snd (last new),
      chunk_count = range_total new\<rparr>"
    have oks: "chunk_ok prev'" "chunk_ok nc"
      using cok kl split by (auto simp: chunk_ok_def prev'_def nc_def max_size_val)
    have m': "m' = M1 @ prev' # nc # M2"
      and it': "it' = (if 128 \<le> length d1 then (Suc (length M1), length d1 - 128) else it)"
      using e m False len
      by (auto simp: ensure_space_def Let_def max_size_val prev'_def nc_def kept_def new_def range_total_def)
    show ?thesis
    proof (cases "128 \<le> length d1")
      case True
      define k where "k = drop 128 d1"
      have nd: "new = k @ r # d2" and kp: "kept = take 128 d1"
        using m True by (simp_all add: new_def kept_def k_def)
      have d1: "d1 = kept @ k" by (simp add: kp k_def)
      have m'': "m' = (M1 @ [prev']) @ nc # M2" and it'': "it' = (length (M1 @ [prev']), length k)"
        and ncd: "chunk_data nc = k @ r # d2"
        using m' it' True nd by (simp_all add: k_def nc_def)
      have "before m' it' = before m it" "after m' it' = after m it"
        unfolding m'' m(1) cut_simps(1,2)[OF it'' ncd] cut_simps(1,2)[OF m(2,3)]
        by (simp_all add: prev'_def d1)
      moreover have "valid_it m' it'" "\<not> at_end m' it'"
        unfolding m'' using cut_simps(4,5)[OF it'' ncd] by blast+
      moreover have "list_all chunk_ok m'" using ok oks m(1) m'' by simp
      moreover have "length (chunk_data (m' ! fst it')) < max_size"
        unfolding m'' it'' using kl(2) by (simp add: nth_append max_size_val nc_def)
      ultimately show ?thesis by blast
    next
      case no: False
      define k where "k = take (128 - length d1) (r # d2)"
      obtain k' where k': "k = r # k'" using no by (cases "128 - length d1") (auto simp: k_def)
      have kd: "kept = d1 @ k" unfolding kept_def m(3) k_def using no by simp
      have "new = drop (128 - length d1) (r # d2)" unfolding new_def m(3) using no by simp
      then have "k @ new = r # d2" unfolding k_def by (simp only: append_take_drop_id)
      then have nw: "d2 = k' @ new" by (simp add: k')
      have pd: "chunk_data prev' = d1 @ r # k'" by (simp add: prev'_def kd k')
      have it'': "it' = (length M1, length d1)" using it' no m by simp
      have mm: "m' = M1 @ prev' # (nc # M2)" using m' by simp
      have "before m' it' = before m it" "after m' it' = after m it"
        unfolding mm m(1) cut_simps(1,2)[OF it'' pd] cut_simps(1,2)[OF m(2,3)]
        by (simp_all add: nc_def nw)
      moreover have "valid_it m' it'" "\<not> at_end m' it'"
        unfolding mm using cut_simps(4,5)[OF it'' pd] by blast+
      moreover have "list_all chunk_ok m'" using ok oks m(1) mm by simp
      moreover have "length (chunk_data (m' ! fst it')) < max_size"
        unfolding mm it'' using kl(1) by (simp add: max_size_val prev'_def)
      ultimately show ?thesis by blast
    qed
  qed
  then show "list_all chunk_ok m'" "valid_it m' it'" "\<not> at_end m' it'"
    "before m' it' = before m it" "after m' it' = after m it"
    "length (chunk_data (m' ! fst it')) < max_size" by blast+
qed

lemma crv_insert_spec:
  assumes ok: "list_all chunk_ok m" and v: "valid_it m it"
    and e: "crv_insert m it new = (m', it')"
    and lo: "\<forall>r \<in> set (before m it). fst r \<le> fst new"
    and hi: "\<forall>r \<in> set (after m it). fst new \<le> fst r \<and> snd new \<le> snd r"
  shows "list_all chunk_ok m'" "valid_it m' it'" "\<not> at_end m' it'"
    "before m' it' = before m it" "after m' it' = new # after m it"
proof -
  have "list_all chunk_ok m' \<and> valid_it m' it' \<and> \<not> at_end m' it' \<and>
    before m' it' = before m it \<and> after m' it' = new # after m it"
  proof (cases "at_end m it")
    case True
    then have it: "it = it_end m" using v by (simp add: valid_it_endD)
    then have m': "m' = crv_push_back m new" and it': "it' = it_prev m' (it_end m')"
      using e by (auto simp: crv_insert_def Let_def)
    note pb = crv_push_back_spec[OF ok, of new, folded m']
    have ne: "before m' (it_end m') \<noteq> []" using pb by simp
    show ?thesis
      using it_prev_step[OF pb(1) it_eqs(4) ne] pb it it' by simp
  next
    case False
    then have "fst it \<noteq> length m" by (simp add: at_end_def)
    moreover obtain m1 it1 where e1: "ensure_space m it = (m1, it1)" by (cases "ensure_space m it")
    ultimately have m': "m' = m1[fst it1 := (m1 ! fst it1)\<lparr>
          chunk_data := take (snd it1) (chunk_data (m1 ! fst it1)) @ new # drop (snd it1) (chunk_data (m1 ! fst it1)),
          chunk_count := chunk_count (m1 ! fst it1) + (snd new - fst new),
          chunk_begin := min (chunk_begin (m1 ! fst it1)) (fst new),
          chunk_end := max (chunk_end (m1 ! fst it1)) (snd new)\<rparr>]" and it': "it' = it1"
      using e by (auto simp: crv_insert_def Let_def)
    note es = ensure_space_spec[OF ok v False e1]
    obtain M1 c M2 d1 r d2 where m: "m1 = M1 @ c # M2" "it1 = (length M1, length d1)"
      "chunk_data c = d1 @ r # d2" using es by (elim it_cases)
    define c' where "c' = c\<lparr>chunk_data := d1 @ new # r # d2,
      chunk_count := chunk_count c + (snd new - fst new),
      chunk_begin := min (chunk_begin c) (fst new), chunk_end := max (chunk_end c) (snd new)\<rparr>"
    have m'': "m' = M1 @ c' # M2" using m' m by (simp add: c'_def)
    have d': "chunk_data c' = d1 @ new # (r # d2)" by (simp add: c'_def)
    note cs = cut_simps[OF m(2,3), of M2, folded m(1)]
    have "chunk_ok c" using es(1) m by simp
    moreover have "\<forall>q \<in> set d1. fst q \<le> fst new" "\<forall>q \<in> set (r # d2). fst new \<le> fst q \<and> snd new \<le> snd q"
      using lo hi unfolding es(4,5)[symmetric] cs(1,2) by auto
    moreover have "length (d1 @ r # d2) < max_size" using es(6) m by simp
    ultimately have "chunk_ok c'"
      using m(3) unfolding chunk_ok_def c'_def by (cases d1; cases d2 rule: rev_cases) (auto simp: min_def max_def)
    then have "list_all chunk_ok m'" using es(1) m m'' by simp
    then show ?thesis
      using cut_simps[OF m(2) d', of M2, folded m''] cs es it' by simp
  qed
  then show "list_all chunk_ok m'" "valid_it m' it'" "\<not> at_end m' it'"
    "before m' it' = before m it" "after m' it' = new # after m it" by blast+
qed

lemma crv_erase_spec:
  assumes ok: "list_all chunk_ok m" and v: "valid_it m it" and ne: "\<not> at_end m it"
    and e: "crv_erase m it = (m', it')"
  shows "list_all chunk_ok m'" "valid_it m' it'"
    "before m' it' = before m it" "after m' it' = tl (after m it)"
proof -
  obtain M1 c M2 d1 r d2 where m: "m = M1 @ c # M2" "it = (length M1, length d1)"
    "chunk_data c = d1 @ r # d2" using v ne by (elim it_cases)
  note cs = cut_simps[OF m(2,3), of M2, folded m(1)]
  have cok: "chunk_ok c" using ok m by simp
  have "list_all chunk_ok m' \<and> valid_it m' it' \<and> before m' it' = before m it \<and>
    after m' it' = tl (after m it)"
  proof (cases "d1 @ d2 = []")
    case True
    then have m': "m' = M1 @ M2" "it' = (length M1, 0)"
      using e m by (simp_all add: crv_erase_def Let_def)
    have ok': "list_all chunk_ok (M1 @ M2)" using ok m by simp
    show ?thesis
      using valid_chunk_start[OF ok', of "length M1"] m' ok' cs True by simp
  next
    case False
    define c' where "c' = c\<lparr>chunk_data := d1 @ d2, chunk_count := chunk_count c - (snd r - fst r),
      chunk_begin := fst (hd (d1 @ d2)), chunk_end := snd (last (d1 @ d2))\<rparr>"
    have m': "m' = M1 @ c' # M2" "it' = (if d2 = [] then (Suc (length M1), 0) else it)"
      using e m False by (auto simp: crv_erase_def Let_def c'_def cut_simps)
    have "chunk_ok c'" using cok m False by (simp add: chunk_ok_def c'_def)
    then have ok': "list_all chunk_ok m'" using ok m m' by simp
    show ?thesis
    proof (cases d2)
      case Nil
      then show ?thesis
        using valid_chunk_start[OF ok', of "Suc (length M1)"] m' ok' cs by (simp add: c'_def)
    next
      case (Cons q d3)
      then have d': "chunk_data c' = d1 @ q # d3" by (simp add: c'_def)
      show ?thesis
        using cut_simps[OF m(2) d', of M2] m' ok' cs Cons m(2) by simp
    qed
  qed
  then show "list_all chunk_ok m'" "valid_it m' it'"
    "before m' it' = before m it" "after m' it' = tl (after m it)" by blast+
qed

end
