(* ===== verification/Index_Set.thy ===== *)
theory Index_Set
  imports Chunked_Ranges
begin

text \<open>
  The operations of \<open>IndexSet\<close> on single indices and counted runs (\<open>index_set.cpp\<close>), written over
  the chunked vector and its iterators as the source writes them, with the proof of what each does
  to the represented set.
\<close>

section \<open>Loops over iterators\<close>

text \<open>\<open>for (; it != end(); ++it) it.shift(d)\<close>\<close>

definition it_fuel :: "crv \<Rightarrow> iter \<Rightarrow> nat" where
  "it_fuel m it = length (chunk_data (m ! fst it)) - snd it"

lemma it_next_decreases:
  assumes "\<not> at_end m it" "length m' = length m"
    "length (chunk_data (m' ! fst it)) = length (chunk_data (m ! fst it))"
  shows "((it_next m' it, m'), (it, m)) \<in> measures [\<lambda>(it, m). length m - fst it, \<lambda>(it, m). it_fuel m it]"
  using assms by (auto simp: it_next_def it_next_chunk_def at_end_def it_fuel_def)

lemma length_it_shift [simp]: "length (it_shift m it d) = length m"
  by (simp add: it_shift_def Let_def)

lemma data_it_shift [simp]:
  "length (chunk_data (it_shift m it d ! k)) = length (chunk_data (m ! k))"
  by (cases "k < length m"; cases "k = fst it") (auto simp: it_shift_def Let_def nth_list_update list_update_beyond)

function shift_from :: "crv \<Rightarrow> iter \<Rightarrow> int \<Rightarrow> crv" where
  "shift_from m it d =
     (if at_end m it then m
      else let m' = it_shift m it d in shift_from m' (it_next m' it) d)"
  by pat_completeness auto
termination
  by (relation "inv_image (measures [\<lambda>(it, m). length m - fst it, \<lambda>(it, m). it_fuel m it])
      (\<lambda>(m, it, d). (it, m))")
    (auto simp del: in_measures intro: it_next_decreases)

declare shift_from.simps [simp del]

section \<open>Lookup\<close>

definition find_from :: "crv \<Rightarrow> size \<Rightarrow> iter \<Rightarrow> iter" where
  "find_from m index b =
     (let outer = fst b + length (takeWhile (\<lambda>c. chunk_end c \<le> index) (drop (fst b) m)) in
      if length m \<le> outer then it_end m
      else let c = m ! outer; d = chunk_data c in
        if index < chunk_begin c then (outer, 0)
        else let inner_begin = (if outer = fst b then snd b else 0) in
          (outer, lower_bound (\<lambda>i. snd (d ! i) \<le> index) inner_begin (length d - inner_begin)))"

definition find :: "crv \<Rightarrow> size \<Rightarrow> iter" where
  "find m index = find_from m index (it_begin m)"

definition contains :: "crv \<Rightarrow> size \<Rightarrow> bool" where
  "contains m index = (let it = find m index in \<not> at_end m it \<and> fst (it_get m it) \<le> index)"

section \<open>Adding\<close>

definition do_add :: "crv \<Rightarrow> iter \<Rightarrow> size \<Rightarrow> crv \<times> iter" where
  "do_add m it index =
     (let more_before = (it \<noteq> it_begin m); valid = (\<not> at_end m it) in
      if valid \<and> fst (it_get m it) \<le> index \<and> index < snd (it_get m it) then (m, it)
      else if more_before \<and> snd (it_get m (it_prev m it)) = index then
        let prev = it_prev m it; m1 = it_adjust m prev 0 1 in
        if valid \<and> snd (it_get m1 prev) = fst (it_get m1 it) then
          let m2 = it_adjust m1 prev 0 (int (snd (it_get m1 it) - fst (it_get m1 it)));
              (m3, it3) = crv_erase m2 it
          in (m3, it_prev m3 it3)
        else (m1, prev)
      else if valid \<and> fst (it_get m it) = index + 1 then (it_adjust m it (- 1) 0, it)
      else crv_insert m it (index, index + 1))"

definition add :: "crv \<Rightarrow> size \<Rightarrow> crv" where
  "add m index = fst (do_add m (find m index) index)"

function add_shifted_chunks :: "crv \<Rightarrow> iter \<Rightarrow> size \<Rightarrow> iter \<times> size" where
  "add_shifted_chunks m it index =
     (if \<not> at_end m it \<and> chunk_end (m ! fst it) \<le> index
      then add_shifted_chunks m (it_next_chunk it) (index + chunk_count (m ! fst it))
      else (it, index))"
  by pat_completeness auto
termination
  by (relation "measure (\<lambda>(m, it, index). length m - fst it)") (auto simp: at_end_def it_next_chunk_def)

function add_shifted_ranges :: "crv \<Rightarrow> iter \<Rightarrow> size \<Rightarrow> iter \<times> size" where
  "add_shifted_ranges m it index =
     (if \<not> at_end m it \<and> fst (it_get m it) \<le> index
      then add_shifted_ranges m (it_next m it) (index + range_len (it_get m it))
      else (it, index))"
  by pat_completeness auto
termination
  by (relation "inv_image (measures [\<lambda>(it, m). length m - fst it, \<lambda>(it, m). it_fuel m it])
      (\<lambda>(m, it, index). (it, m))")
    (auto simp del: in_measures intro: it_next_decreases)

definition add_shifted :: "crv \<Rightarrow> size \<Rightarrow> crv \<times> size" where
  "add_shifted m index =
     (let (it, i) = add_shifted_chunks m (it_begin m) index; (it, i) = add_shifted_ranges m it i
      in (fst (do_add m it i), i))"

definition set_len :: "crv \<Rightarrow> size \<Rightarrow> crv" where
  "set_len m len = (if len \<noteq> 0 then crv_push_back [] (0, len) else [])"

fun insert_run :: "crv \<Rightarrow> iter \<Rightarrow> size \<Rightarrow> nat \<Rightarrow> crv" where
  "insert_run m pos index 0 = m"
| "insert_run m pos index (Suc n) =
     (let (m', it) = do_add m pos index in insert_run m' (it_next m' it) (index + 1) n)"

definition insert_at :: "crv \<Rightarrow> size \<Rightarrow> nat \<Rightarrow> crv" where
  "insert_at m index count =
     (let pos = find m index in
      if at_end m pos then insert_run m pos index count
      else if fst (it_get m pos) \<le> index then
        let m1 = it_adjust m pos 0 (int count) in shift_from m1 (it_next m1 pos) (int count)
      else
        let m1 = it_shift m pos (int count); m2 = shift_from m1 (it_next m1 pos) (int count)
        in insert_run m2 pos index count)"

definition shift_for_insert_at :: "crv \<Rightarrow> size \<Rightarrow> nat \<Rightarrow> crv" where
  "shift_for_insert_at m index count =
     (let it = find m index in
      if at_end m it then m
      else let m1 = shift_from m it (int count) in
        if fst (it_get m1 it) < index + count then
          let old_second = snd (it_get m1 it);
              m2 = it_set m1 it (fst (it_get m1 it) - count) index
          in fst (crv_insert m2 (it_next m2 it) (index + count, old_second))
        else m1)"

section \<open>Erasing\<close>

definition do_erase :: "crv \<Rightarrow> iter \<Rightarrow> size \<Rightarrow> crv" where
  "do_erase m it index =
     (let (m1, it1) =
        (if fst (it_get m it) \<le> index then
           if fst (it_get m it) + 1 = snd (it_get m it) then crv_erase m it
           else let m' = it_adjust m it 0 (- 1) in (m', it_next m' it)
         else if it \<noteq> it_begin m \<and> snd (it_get m (it_prev m it)) + 1 = fst (it_get m it) then
           crv_erase (it_adjust m (it_prev m it) 0 (int (range_len (it_get m it)))) it
         else (m, it))
      in shift_from m1 it1 (- 1))"

definition erase_at :: "crv \<Rightarrow> size \<Rightarrow> crv" where
  "erase_at m index =
     (let it = find m index in if at_end m it then m else do_erase m it index)"

function unshift_chunks :: "crv \<Rightarrow> iter \<Rightarrow> size \<Rightarrow> size \<Rightarrow> iter \<times> size" where
  "unshift_chunks m it index shifted =
     (if \<not> at_end m it \<and> chunk_end (m ! fst it) \<le> index
      then unshift_chunks m (it_next_chunk it) index (shifted - chunk_count (m ! fst it))
      else (it, shifted))"
  by pat_completeness auto
termination
  by (relation "measure (\<lambda>(m, it, index, shifted). length m - fst it)")
    (auto simp: at_end_def it_next_chunk_def)

function unshift_ranges :: "crv \<Rightarrow> iter \<Rightarrow> size \<Rightarrow> size \<Rightarrow> iter \<times> size" where
  "unshift_ranges m it index shifted =
     (if \<not> at_end m it \<and> snd (it_get m it) \<le> index
      then unshift_ranges m (it_next m it) index (shifted - range_len (it_get m it))
      else (it, shifted))"
  by pat_completeness auto
termination
  by (relation "inv_image (measures [\<lambda>(it, m). length m - fst it, \<lambda>(it, m). it_fuel m it])
      (\<lambda>(m, it, index, shifted). (it, m))")
    (auto simp del: in_measures intro: it_next_decreases)

definition erase_or_unshift :: "crv \<Rightarrow> size \<Rightarrow> crv \<times> size" where
  "erase_or_unshift m index =
     (let (it, shifted) = unshift_chunks m (it_begin m) index index;
          (it, shifted) = unshift_ranges m it index shifted
      in if at_end m it then (m, shifted)
         else (do_erase m it index, if fst (it_get m it) \<le> index then npos else shifted))"

text \<open>The loop re-finds its position after every edit, so it is not evidently terminating.\<close>

partial_function (option) do_remove :: "crv \<Rightarrow> iter \<Rightarrow> size \<Rightarrow> size \<Rightarrow> (crv \<times> iter) option" where
  [code]: "do_remove m it b e =
     (let it = find_from m b it in
      if at_end m it \<or> \<not> fst (it_get m it) < e then Some (m, it)
      else let r = it_get m it; b' = max (fst r) b in
        if fst r < b' \<and> snd r > e then
          let m1 = it_set m it (fst r) b'; (m2, it2) = crv_insert m1 (it_next m1 it) (e, snd r)
          in do_remove m2 (it_prev m2 it2) b' e
        else if b' = fst r \<and> e \<ge> snd r then
          let (m1, it1) = crv_erase m it in do_remove m1 it1 b' e
        else if b' = fst r then do_remove (it_set m it e (snd r)) it b' e
        else do_remove (it_set m it (fst r) b') it b' e)"

definition remove_run :: "crv \<Rightarrow> size \<Rightarrow> nat \<Rightarrow> crv option" where
  "remove_run m index count = map_option fst (do_remove m (find m index) index (index + count))"

section \<open>Counting and shifting an index\<close>

function count_within :: "crv \<Rightarrow> iter \<Rightarrow> size \<Rightarrow> size \<Rightarrow> iter \<times> size" where
  "count_within m it end_index ret =
     (if \<not> at_end m it \<and> snd (it_get m it) < end_index \<and> snd it \<noteq> 0
      then count_within m (it_next m it) end_index (ret + range_len (it_get m it))
      else (it, ret))"
  by pat_completeness auto
termination
  by (relation "inv_image (measures [\<lambda>(it, m). length m - fst it, \<lambda>(it, m). it_fuel m it])
      (\<lambda>(m, it, e, ret). (it, m))")
    (auto simp del: in_measures intro: it_next_decreases)

function count_chunks :: "crv \<Rightarrow> iter \<Rightarrow> size \<Rightarrow> size \<Rightarrow> iter \<times> size" where
  "count_chunks m it end_index ret =
     (if \<not> at_end m it \<and> chunk_end (m ! fst it) \<le> end_index
      then count_chunks m (it_next_chunk it) end_index (ret + chunk_count (m ! fst it))
      else (it, ret))"
  by pat_completeness auto
termination
  by (relation "measure (\<lambda>(m, it, e, ret). length m - fst it)") (auto simp: at_end_def it_next_chunk_def)

function count_ranges :: "crv \<Rightarrow> iter \<Rightarrow> size \<Rightarrow> size \<Rightarrow> iter \<times> size" where
  "count_ranges m it end_index ret =
     (if \<not> at_end m it \<and> snd (it_get m it) \<le> end_index
      then count_ranges m (it_next m it) end_index (ret + range_len (it_get m it))
      else (it, ret))"
  by pat_completeness auto
termination
  by (relation "inv_image (measures [\<lambda>(it, m). length m - fst it, \<lambda>(it, m). it_fuel m it])
      (\<lambda>(m, it, e, ret). (it, m))")
    (auto simp del: in_measures intro: it_next_decreases)

text \<open>The tail of \<open>count\<close>: whole chunks, then whole ranges of the last chunk, then a partial range.\<close>

definition count_tail :: "crv \<Rightarrow> iter \<Rightarrow> size \<Rightarrow> size \<Rightarrow> size" where
  "count_tail m it end_index ret =
     (let (it, ret) = count_chunks m it end_index ret;
          (it, ret) = count_ranges m it end_index ret
      in if \<not> at_end m it \<and> fst (it_get m it) < end_index
         then ret + (end_index - fst (it_get m it)) else ret)"

definition count :: "crv \<Rightarrow> size \<Rightarrow> size \<Rightarrow> size" where
  "count m start_index end_index =
     (let it = find m start_index in
      if at_end m it \<or> end_index \<le> fst (it_get m it) then 0
      else let r = it_get m it in
        if end_index \<le> snd r then size_sub (min (snd r) end_index) (max (fst r) start_index)
        else if fst r < start_index \<or> snd it \<noteq> 0 then
          let ret = snd r - max (fst r) start_index;
              (it, ret) = count_within m (it_next m it) end_index ret;
              ret = (if \<not> at_end m it \<and> fst (it_get m it) < end_index \<and> snd it \<noteq> 0
                then ret + (end_index - fst (it_get m it)) else ret)
          in if at_end m it \<or> end_index \<le> snd (it_get m it) then ret
             else count_tail m it end_index ret
        else count_tail m it end_index 0)"

fun shift_loop :: "range list \<Rightarrow> size \<Rightarrow> size" where
  "shift_loop [] index = index"
| "shift_loop (r # rs) index = (if fst r > index then index else shift_loop rs (index + range_len r))"

definition shift :: "crv \<Rightarrow> size \<Rightarrow> size" where
  "shift m index = shift_loop (ranges m) index"

definition unshift :: "crv \<Rightarrow> size \<Rightarrow> size" where
  "unshift m index = size_sub index (count m 0 index)"


declare add_shifted_chunks.simps [simp del] add_shifted_ranges.simps [simp del]
  unshift_chunks.simps [simp del] unshift_ranges.simps [simp del]
  count_within.simps [simp del] count_chunks.simps [simp del] count_ranges.simps [simp del]

section \<open>What find finds\<close>

lemma wfD: "wf m \<Longrightarrow> list_all chunk_ok m" "wf m \<Longrightarrow> sep (ranges m)"
  by (simp_all add: wf_def)

lemma wf_before_after:
  assumes "wf m" "valid_it m it"
  shows "sep (before m it)" "sep (after m it)"
    "\<And>a b. a \<in> set (before m it) \<Longrightarrow> b \<in> set (after m it) \<Longrightarrow> snd a < fst b"
  using wfD(2)[OF assms(1)] unfolding ranges_split[OF assms(2)] by simp_all

lemma chunk_end_bound:
  assumes "wf m" "c \<in> set m" "r \<in> set (chunk_data c)"
  shows "snd r \<le> chunk_end c"
proof -
  obtain M1 M2 where "m = M1 @ c # M2" using assms(2) by (meson split_list)
  then have "sep (chunk_data c)" "chunk_ok c" using assms(1) by (auto simp: wf_def)
  then show ?thesis using assms(3) sep_last_bound by (auto simp: chunk_ok_def)
qed

lemma find_from_spec:
  assumes w: "wf m" and v: "valid_it m b" and lo: "\<forall>r \<in> set (before m b). snd r \<le> i"
  shows "valid_it m (find_from m i b)"
    and "split_at (before m (find_from m i b)) (after m (find_from m i b)) i"
proof -
  note ok = wfD(1)[OF w]
  define p where "p = (\<lambda>c :: chunk. chunk_end c \<le> i)"
  define k where "k = fst b + length (takeWhile p (drop (fst b) m))"
  have bl: "fst b \<le> length m" using v by (auto simp: valid_it_def)
  have kl: "k \<le> length m"
    using bl length_takeWhile_le[of p "drop (fst b) m"] by (simp add: k_def)
  have lower: "\<forall>r \<in> set (ranges (take k m)). snd r \<le> i"
  proof
    fix r assume "r \<in> set (ranges (take k m))"
    moreover have "take k m = take (fst b) m @ takeWhile p (drop (fst b) m)"
      unfolding k_def by (simp add: take_add takeWhile_eq_take[symmetric])
    ultimately consider "r \<in> set (ranges (take (fst b) m))"
      | c where "c \<in> set (takeWhile p (drop (fst b) m))" "r \<in> set (chunk_data c)"
      by (auto simp: ranges_def)
    then show "snd r \<le> i"
    proof cases
      case 1
      then show ?thesis using lo by (auto simp: before_def)
    next
      case (2 c)
      then have "c \<in> set m" "chunk_end c \<le> i"
        by (auto simp: p_def dest: set_takeWhileD in_set_dropD)
      then show ?thesis using chunk_end_bound[OF w _ 2(2)] by simp
    qed
  qed
  have fnd: "find_from m i b = (if length m \<le> k then it_end m
      else if i < chunk_begin (m ! k) then (k, 0)
      else (k, lower_bound (\<lambda>j. snd (chunk_data (m ! k) ! j) \<le> i) (if k = fst b then snd b else 0)
        (length (chunk_data (m ! k)) - (if k = fst b then snd b else 0))))"
    by (simp add: find_from_def k_def p_def Let_def)
  have "valid_it m (find_from m i b) \<and> split_at (before m (find_from m i b)) (after m (find_from m i b)) i"
  proof (cases "length m \<le> k")
    case True
    then show ?thesis using fnd lower kl by (simp add: split_at_def)
  next
    case False
    define c where "c = m ! k"
    define d where "d = chunk_data c"
    have m: "m = take k m @ c # drop (Suc k) m" using False by (simp add: c_def id_take_nth_drop)
    have cin: "c \<in> set m" using False by (simp add: c_def)
    have cok: "chunk_ok c" using ok cin by (simp add: list_all_iff)
    have dne: "d \<noteq> []" and sd: "sep d"
      using cok w m by (auto simp: chunk_ok_def d_def wf_def) (metis ranges_simps(2,3) sep_append)
    have np: "\<not> chunk_end c \<le> i"
    proof -
      have "length (takeWhile p (drop (fst b) m)) < length (drop (fst b) m)"
        using False bl by (simp add: k_def)
      then have "\<not> p (drop (fst b) m ! length (takeWhile p (drop (fst b) m)))"
        by (rule nth_length_takeWhile)
      then show ?thesis using bl False by (simp add: p_def c_def k_def)
    qed
    have cend: "chunk_end c = snd (last d)" using cok by (simp add: chunk_ok_def d_def)
    show ?thesis
    proof (cases "i < chunk_begin c")
      case True
      then have "find_from m i b = (k, 0)" using fnd False by (simp add: c_def)
      moreover have "after m (k, 0) = d @ ranges (drop (Suc k) m)"
        using False by (simp add: after_def c_def d_def)
      moreover have "fst (hd d) < snd (hd d)" using sd dne sep_nonempty by fastforce
      moreover have "i < fst (hd d)" using True cok by (simp add: chunk_ok_def d_def)
      ultimately show ?thesis
        using valid_chunk_start[OF ok kl] lower dne by (auto simp: split_at_def)
    next
      case inner: False
      define n where "n = length (takeWhile (\<lambda>r. snd r \<le> i) d)"
      define ib where "ib = (if k = fst b then snd b else 0)"
      have "valid_it m b \<and> k = fst b \<Longrightarrow> snd b < length d"
        using False by (auto simp: valid_it_def c_def d_def it_end_def)
      then have ibl: "ib \<le> length d" using v by (auto simp: ib_def)
      have pre: "\<And>r. r \<in> set (take ib d) \<Longrightarrow> snd r \<le> i"
        using lo False by (auto simp: before_def ib_def c_def d_def split: if_splits)
      have post: "\<not> snd (d ! j) \<le> i" if "j < length d" "n \<le> j" for j
      proof
        assume "snd (d ! j) \<le> i"
        then have "snd (d ! n) \<le> i" using sep_prefix_down[OF sd \<open>n \<le> j\<close> \<open>j < length d\<close>] by simp
        moreover have "n < length d" using that by simp
        ultimately show False using nth_length_takeWhile[of "\<lambda>r. snd r \<le> i" d] by (simp add: n_def)
      qed
      have f: "find_from m i b = (k, n)"
        using fnd False inner lower_bound_takeWhile[where P = "\<lambda>r. snd r \<le> i", OF ibl pre post[unfolded n_def]]
        by (simp add: c_def d_def ib_def n_def)
      have "\<not> (\<forall>r \<in> set d. snd r \<le> i)" using np cend dne by (auto dest: last_in_set)
      then have nl: "n < length d"
        by (metis n_def length_takeWhile_le le_neq_implies_less takeWhile_eq_all_conv takeWhile_eq_take take_all order_refl)
      have "valid_it m (k, n)" using nl False by (simp add: valid_it_def c_def d_def)
      moreover have "before m (k, n) = ranges (take k m) @ takeWhile (\<lambda>r. snd r \<le> i) d"
        using False by (simp add: before_def c_def d_def n_def takeWhile_eq_take[symmetric])
      moreover have "after m (k, n) = drop n d @ ranges (drop (Suc k) m)"
        using False by (simp add: after_def c_def d_def)
      moreover have "hd (drop n d) = d ! n" "drop n d \<noteq> []" using nl by (simp_all add: hd_drop_conv_nth)
      ultimately show ?thesis
        using f lower post[OF nl] by (auto simp: split_at_def dest: set_takeWhileD)
    qed
  qed
  then show "valid_it m (find_from m i b)"
    and "split_at (before m (find_from m i b)) (after m (find_from m i b)) i" by blast+
qed

lemma find_spec:
  assumes "wf m"
  shows "valid_it m (find m i)" "split_at (before m (find m i)) (after m (find m i)) i"
  using find_from_spec[OF assms, of "it_begin m" i] it_begin_spec[OF wfD(1)[OF assms]]
  by (simp_all add: find_def)

lemma contains_iff:
  assumes w: "wf m"
  shows "contains m i \<longleftrightarrow> i \<in> rset (ranges m)"
proof -
  note f = find_spec[OF w, of i]
  note sp = ranges_split[OF f(1)]
  have "sep (before m (find m i) @ after m (find m i))" using w sp by (simp add: wf_def)
  then have "i \<in> rset (ranges m) \<longleftrightarrow> after m (find m i) \<noteq> [] \<and> fst (hd (after m (find m i))) \<le> i"
    using split_at_mem[OF f(2)] sp by simp
  moreover have "\<not> at_end m (find m i) \<Longrightarrow> hd (after m (find m i)) = it_get m (find m i)"
    using it_next_step(1)[OF wfD(1)[OF w] f(1)] by simp
  ultimately show ?thesis
    using at_end_iff[OF f(1)] by (auto simp: contains_def Let_def)
qed


section \<open>Shape\<close>

text \<open>Mutation through an iterator keeps the shape, so every iterator stays where it was.\<close>

definition shape :: "crv \<Rightarrow> nat list" where
  "shape m = map (\<lambda>c. length (chunk_data c)) m"

lemma shape_update:
  "length (chunk_data c') = length (chunk_data (m ! k)) \<Longrightarrow> shape (m[k := c']) = shape m"
  by (cases "k < length m") (simp_all add: shape_def map_update list_update_beyond list_update_same_conv)

lemma shape_edit [simp]:
  "shape (it_set m it f b) = shape m"
  "shape (it_adjust m it x y) = shape m"
  "shape (it_shift m it x) = shape m"
  by (simp_all add: it_set_def it_adjust_def it_shift_def Let_def shape_update)

lemma shape_data:
  "shape m' = shape m \<Longrightarrow> length m' = length m"
  "shape m' = shape m \<Longrightarrow> k < length m \<Longrightarrow> length (chunk_data (m' ! k)) = length (chunk_data (m ! k))"
  by (metis length_map shape_def) (metis length_map nth_map shape_def)

lemma shape_iter:
  assumes "shape m' = shape m"
  shows "valid_it m' it \<longleftrightarrow> valid_it m it" "at_end m' it \<longleftrightarrow> at_end m it"
    "length (before m' it) = length (before m it)"
proof -
  show "valid_it m' it \<longleftrightarrow> valid_it m it" "at_end m' it \<longleftrightarrow> at_end m it"
    using shape_data[OF assms] by (auto simp: valid_it_def at_end_def it_end_def)
  have "length (ranges (take k m')) = length (ranges (take k m))" for k
    using assms by (metis (no_types) length_concat map_map shape_def comp_def ranges_def take_map map_eq_conv)
  then show "length (before m' it) = length (before m it)"
    using shape_data[OF assms] by (simp add: before_def)
qed

lemma shape_next: "shape m' = shape m \<Longrightarrow> \<not> at_end m it \<Longrightarrow> it_next m' it = it_next m it"
  using shape_data[of m' m] by (simp add: it_next_def at_end_def)

lemma shape_before:
  assumes "shape m' = shape m" "valid_it m it" "ranges m' = xs @ ys" "length xs = length (before m it)"
  shows "before m' it = xs" "after m' it = ys"
proof -
  have "valid_it m' it" using assms(2) shape_iter(1)[OF assms(1)] by blast
  then have eq: "before m' it @ after m' it = xs @ ys" using assms(3) ranges_split[of m' it] by simp
  have len: "length (before m' it) = length xs" using shape_iter(3)[OF assms(1)] assms(4) by simp
  show "before m' it = xs" "after m' it = ys"
    using append_eq_append_conv[of "before m' it" xs "after m' it" ys] eq len by simp_all
qed

definition shift_range :: "int \<Rightarrow> range \<Rightarrow> range" where
  "shift_range d r = (add_diff (fst r) d, add_diff (snd r) d)"

lemma shift_from_spec:
  assumes "list_all chunk_ok m" "valid_it m it"
    and "\<forall>r \<in> set (after m it). fst r \<le> snd r \<and> 0 \<le> int (fst r) + d"
  shows "list_all chunk_ok (shift_from m it d) \<and> shape (shift_from m it d) = shape m \<and>
    ranges (shift_from m it d) = before m it @ map (shift_range d) (after m it)"
  using assms
proof (induction m it d rule: shift_from.induct)
  case (1 m it d)
  show ?case
  proof (cases "at_end m it")
    case True
    then show ?thesis
      using 1 by (subst (1 2 3) shift_from.simps) (auto dest: valid_it_endD)
  next
    case False
    note st = it_next_step[OF 1(2,3) False]
    let ?m = "it_shift m it d"
    have "fst (it_get m it) \<le> snd (it_get m it)" "0 \<le> int (fst (it_get m it)) + d"
      using 1(4) st(1) by auto
    note ed = editsD[OF it_shift_edits[OF 1(2,3) False this]]
    have nx: "it_next ?m it = it_next m it" by (rule shape_next[OF shape_edit(3) False])
    have af: "after ?m (it_next ?m it) = after m (it_next m it)"
      using ed(10) st(1) nx by simp
    have ih: "list_all chunk_ok (shift_from ?m (it_next ?m it) d) \<and>
        shape (shift_from ?m (it_next ?m it) d) = shape ?m \<and>
        ranges (shift_from ?m (it_next ?m it) d) =
          before ?m (it_next ?m it) @ map (shift_range d) (after ?m (it_next ?m it))"
      by (rule 1(1)[OF False refl ed(1)]) (use ed(11) nx af st(1) 1(4) in auto)
    have "shift_from m it d = shift_from ?m (it_next ?m it) d"
      using False by (subst shift_from.simps) (simp add: Let_def)
    then have eqs: "list_all chunk_ok (shift_from m it d)" "shape (shift_from m it d) = shape m"
      "ranges (shift_from m it d) = (before m it @ [shift_range d (it_get m it)]) @
        map (shift_range d) (after m (it_next m it))"
      using ih unfolding nx af[unfolded nx] ed(9) shift_range_def[symmetric] by simp_all
    have "after m it = it_get m it # after m (it_next m it)" by (rule st(1))
    then show ?thesis using eqs by simp
  qed
qed

section \<open>Adding one index\<close>

text \<open>The flat counterpart of \<open>do_add\<close>: the ranges before and from the returned position.\<close>

definition flat_add :: "range list \<Rightarrow> range list \<Rightarrow> nat \<Rightarrow> range list \<times> range list" where
  "flat_add B A i =
     (if A \<noteq> [] \<and> fst (hd A) \<le> i \<and> i < snd (hd A) then (B, A)
      else if B \<noteq> [] \<and> snd (last B) = i then
        if A \<noteq> [] \<and> fst (hd A) = i + 1 then (butlast B, (fst (last B), snd (hd A)) # tl A)
        else (butlast B, (fst (last B), i + 1) # A)
      else if A \<noteq> [] \<and> fst (hd A) = i + 1 then (B, (i, snd (hd A)) # tl A)
      else (B, (i, i + 1) # A))"

lemma flat_add_spec:
  assumes "sep (B @ A)" "split_at B A i" "flat_add B A i = (B', A')"
  shows "sep (B' @ A')" "rset (B' @ A') = insert i (rset (B @ A))"
    "A' \<noteq> []" "fst (hd A') \<le> i" "i < snd (hd A')" "\<forall>r \<in> set B'. snd r \<le> i"
proof -
  have B: "\<forall>r \<in> set B. snd r \<le> i" using assms(2) by (simp add: split_at_def)
  have "sep (B' @ A') \<and> rset (B' @ A') = insert i (rset (B @ A)) \<and> A' \<noteq> [] \<and> fst (hd A') \<le> i \<and>
    i < snd (hd A') \<and> (\<forall>r \<in> set B'. snd r \<le> i)"
  proof (cases "A \<noteq> [] \<and> fst (hd A) \<le> i \<and> i < snd (hd A)")
    case True
    then have "i \<in> rset A" by (cases A) auto
    then show ?thesis using True assms B by (auto simp: flat_add_def)
  next
    case out: False
    have A: "A = [] \<or> i < fst (hd A)" using out assms(2) by (auto simp: split_at_def)
    have A': "\<forall>r \<in> set A. i < fst r" using A assms(1) by (cases A) auto
    show ?thesis
    proof (cases "B \<noteq> [] \<and> snd (last B) = i")
      case True
      then obtain C q where C: "B = C @ [q]" "snd q = i" by (cases B rule: rev_cases) auto
      show ?thesis
      proof (cases "A \<noteq> [] \<and> fst (hd A) = i + 1")
        case True
        then obtain a D where D: "A = a # D" "fst a = i + 1" by (cases A) auto
        then have "B' = C" "A' = (fst q, snd a) # D" using assms(3) C out by (simp_all add: flat_add_def)
        then show ?thesis using assms(1) C D B by (force simp: atLeastLessThan_def)
      next
        case False
        then have "B' = C" "A' = (fst q, i + 1) # A" using assms(3) C out A by (auto simp: flat_add_def)
        moreover have "\<forall>r \<in> set A. i + 1 < fst r"
          using False A' assms(1) by (cases A) auto
        ultimately show ?thesis using assms(1) C B by (force simp: atLeastLessThan_def)
      qed
    next
      case nb: False
      have B1: "\<forall>r \<in> set B. snd r < i"
      proof (cases B rule: rev_cases)
        case (snoc C q)
        then have "snd q < i" using nb B by auto
        moreover have "\<forall>r \<in> set C. snd r \<le> snd q"
          using sep_last_bound[of B] assms(1) snoc by auto
        ultimately show ?thesis using snoc by auto
      qed simp
      show ?thesis
      proof (cases "A \<noteq> [] \<and> fst (hd A) = i + 1")
        case True
        then obtain a D where D: "A = a # D" "fst a = i + 1" by (cases A) auto
        then have "B' = B" "A' = (i, snd a) # D" using assms(3) nb by (simp_all add: flat_add_def)
        then show ?thesis using assms(1) D B B1 by (force simp: atLeastLessThan_def)
      next
        case False
        then have "B' = B" "A' = (i, i + 1) # A" using assms(3) nb out by (auto simp: flat_add_def)
        moreover have "\<forall>r \<in> set A. i + 1 < fst r"
          using False A' assms(1) by (cases A) auto
        ultimately show ?thesis using assms(1) B B1 by force
      qed
    qed
  qed
  then show "sep (B' @ A')" "rset (B' @ A') = insert i (rset (B @ A))"
    "A' \<noteq> []" "fst (hd A') \<le> i" "i < snd (hd A')" "\<forall>r \<in> set B'. snd r \<le> i" by blast+
qed


lemma do_add_flat:
  assumes w: "wf m" and v: "valid_it m it" and sp: "split_at (before m it) (after m it) i"
    and e: "do_add m it i = (m', it')"
  shows "list_all chunk_ok m'" "valid_it m' it'" "\<not> at_end m' it'"
    "flat_add (before m it) (after m it) i = (before m' it', after m' it')"
proof -
  note ok = wfD(1)[OF w]
  note sb = wf_before_after[OF w v]
  have mb: "it \<noteq> it_begin m \<longleftrightarrow> before m it \<noteq> []" using it_is_begin[OF ok v] by simp
  have ae: "at_end m it \<longleftrightarrow> after m it = []" by (rule at_end_iff[OF v])
  have g: "hd (after m it) = it_get m it" if "\<not> at_end m it"
    using it_next_step(1)[OF ok v that] by simp
  have gl: "fst (it_get m it) < snd (it_get m it)" if "\<not> at_end m it"
    using it_next_step(1)[OF ok v that] sb(2) by simp
  have l: "last (before m it) = it_get m (it_prev m it)" if "before m it \<noteq> []"
    using it_prev_step(1)[OF ok v that] by (metis last_snoc)
  have "list_all chunk_ok m' \<and> valid_it m' it' \<and> \<not> at_end m' it' \<and>
    flat_add (before m it) (after m it) i = (before m' it', after m' it')"
  proof (cases "\<not> at_end m it \<and> fst (it_get m it) \<le> i \<and> i < snd (it_get m it)")
    case True
    then show ?thesis using e ok v ae g by (auto simp: do_add_def flat_add_def)
  next
    case out: False
    show ?thesis
    proof (cases "before m it \<noteq> [] \<and> snd (it_get m (it_prev m it)) = i")
      case True
      then have ne: "before m it \<noteq> []" by simp
      let ?p = "it_prev m it" and ?q = "it_get m (it_prev m it)"
      note pv = it_prev_step[OF ok v ne]
      have ql: "fst ?q < snd ?q" using sb(1) pv(1) by (metis last_in_set ne l sep_nonempty)
      define m1 where "m1 = it_adjust m ?p 0 1"
      have "edits m ?p m1 (fst ?q, i + 1)"
        using it_adjust_edits[OF ok pv(3,4), of 0 1] ql True by (simp add: m1_def)
      note ed = editsD[OF this]
      have B1: "before m1 ?p = butlast (before m it)" using ed(5) pv(1) by (metis butlast_snoc)
      have A1: "after m1 ?p = (fst ?q, i + 1) # after m it" using ed(6) pv(2) by simp
      have R1: "ranges m1 = (butlast (before m it) @ [(fst ?q, i + 1)]) @ after m it"
        using ranges_split[OF ed(3)] B1 A1 by simp
      have S1: "shape m1 = shape m" by (simp add: m1_def)
      have "length (butlast (before m it) @ [(fst ?q, i + 1)]) = length (before m it)"
        using ne by simp
      note it1 = shape_before[OF S1 v R1 this]
      have v1: "valid_it m1 it" using v shape_iter(1)[OF S1] by blast
      have e1: "at_end m1 it \<longleftrightarrow> at_end m it" by (rule shape_iter(2)[OF S1])
      have g1: "it_get m1 it = it_get m it" if "\<not> at_end m it"
        using it_next_step(1)[OF ed(1) v1] e1 that it1(2) g by (metis list.sel(1))
      have sq: "snd (it_get m1 ?p) = i + 1" using ed(8) by simp
      show ?thesis
      proof (cases "\<not> at_end m it \<and> fst (it_get m it) = i + 1")
        case True
        define m2 where "m2 = it_adjust m1 ?p 0 (int (snd (it_get m1 it) - fst (it_get m1 it)))"
        have "edits m1 ?p m2 (fst ?q, i + 1 + (snd (it_get m it) - fst (it_get m it)))"
          using it_adjust_edits[OF ed(1,3,4), of 0 "int (snd (it_get m1 it) - fst (it_get m1 it))"]
            ed(8) ql True g1 \<open>before m it \<noteq> [] \<and> snd ?q = i\<close>
          by (simp add: m2_def)
        then have "edits m1 ?p m2 (fst ?q, snd (it_get m it))" using True gl by simp
        note ed2 = editsD[OF this]
        have R2: "ranges m2 = (butlast (before m it) @ [(fst ?q, snd (it_get m it))]) @ after m it"
          using ranges_split[OF ed2(3)] ed2(5,6) B1 A1 by simp
        have S2: "shape m2 = shape m" by (simp add: m2_def S1)
        have "length (butlast (before m it) @ [(fst ?q, snd (it_get m it))]) = length (before m it)"
          using ne by simp
        note it2 = shape_before[OF S2 v R2 this]
        have v2: "valid_it m2 it" "\<not> at_end m2 it" using v True shape_iter[OF S2] by blast+
        obtain m3 it3 where e3: "crv_erase m2 it = (m3, it3)" by (cases "crv_erase m2 it")
        note er = crv_erase_spec[OF ed2(1) v2 e3]
        have m': "m' = m3" "it' = it_prev m3 it3"
          using e out mb True e3[unfolded m2_def] g1 sq \<open>before m it \<noteq> [] \<and> snd ?q = i\<close>
          by (auto simp: do_add_def Let_def m1_def[symmetric])
        have ne3: "before m3 it3 \<noteq> []" using er(3) it2(1) by simp
        note p3 = it_prev_step[OF er(1,2) ne3]
        have "before m3 (it_prev m3 it3) = butlast (before m it)" "it_get m3 (it_prev m3 it3) = (fst ?q, snd (it_get m it))"
          using p3(1) er(3) it2(1) by simp_all
        then show ?thesis
          using m' p3 er it2 True out ne ae g l \<open>before m it \<noteq> [] \<and> snd ?q = i\<close>
          by (auto simp: flat_add_def)
      next
        case False
        have nj: "\<not> (\<not> at_end m it \<and> snd (it_get m1 ?p) = fst (it_get m1 it))"
          using False g1 sq by auto
        have c: "it \<noteq> it_begin m \<and> snd (it_get m ?p) = i" using True mb by simp
        have "do_add m it i = (m1, ?p)"
          unfolding do_add_def Let_def m1_def[symmetric] if_not_P[OF out] if_P[OF c] if_not_P[OF nj] ..
        then have m': "m' = m1" "it' = ?p" using e by simp_all
        show ?thesis
          using m' ed B1 A1 False out ne ae g l True by (auto simp: flat_add_def)
      qed
    next
      case nb: False
      have nb': "\<not> (before m it \<noteq> [] \<and> snd (last (before m it)) = i)" using nb l by auto
      show ?thesis
      proof (cases "\<not> at_end m it \<and> fst (it_get m it) = i + 1")
        case True
        then have m': "m' = it_adjust m it (- 1) 0" "it' = it"
          using e out mb nb by (auto simp: do_add_def Let_def)
        have "edits m it m' (i, snd (it_get m it))"
          using it_adjust_edits[OF ok v, of "- 1" 0] gl True m' by simp
        note ed = editsD[OF this]
        show ?thesis
          using m' ed True out nb' ae g by (auto simp: flat_add_def)
      next
        case False
        then have c: "crv_insert m it (i, i + 1) = (m', it')"
          using e out mb nb by (auto simp: do_add_def Let_def)
        have lo: "\<forall>r \<in> set (before m it). fst r \<le> fst (i, i + 1)"
          using sp sb(1) by (force simp: split_at_def dest: sep_nonempty)
        have hi: "\<forall>r \<in> set (after m it). fst (i, i + 1) \<le> fst r \<and> snd (i, i + 1) \<le> snd r"
        proof (cases "at_end m it")
          case True then show ?thesis using ae by simp
        next
          case ne: False
          note st = it_next_step(1)[OF ok v ne]
          have "i < fst (it_get m it)" using out ne sp st by (auto simp: split_at_def)
          then have i: "i < fst r" if "r \<in> set (after m it)" for r
            using sep_hd_bound[OF sb(2) that] st by simp
          show ?thesis
          proof
            fix r assume "r \<in> set (after m it)"
            with i[OF this] sep_nonempty[OF sb(2) this]
            show "fst (i, i + 1) \<le> fst r \<and> snd (i, i + 1) \<le> snd r" by simp
          qed
        qed
        note ins = crv_insert_spec[OF ok v c lo hi]
        have "flat_add (before m it) (after m it) i = (before m it, (i, i + 1) # after m it)"
          using False out nb' ae g by (auto simp: flat_add_def)
        then show ?thesis using ins by simp
      qed
    qed
  qed
  then show "list_all chunk_ok m'" "valid_it m' it'" "\<not> at_end m' it'"
    "flat_add (before m it) (after m it) i = (before m' it', after m' it')" by blast+
qed

lemma do_add_spec:
  assumes w: "wf m" and v: "valid_it m it" and sp: "split_at (before m it) (after m it) i"
    and e: "do_add m it i = (m', it')"
  shows "wf m'" "rset (ranges m') = insert i (rset (ranges m))" "valid_it m' it'" "\<not> at_end m' it'"
    "fst (it_get m' it') \<le> i" "i < snd (it_get m' it')" "\<forall>r \<in> set (before m' it'). snd r \<le> i"
proof -
  note f = do_add_flat[OF assms]
  have "sep (before m it @ after m it)" using w ranges_split[OF v] by (simp add: wf_def)
  note a = flat_add_spec[OF this sp f(4)]
  have r: "ranges m' = before m' it' @ after m' it'" by (rule ranges_split[OF f(2)])
  show "wf m'" "rset (ranges m') = insert i (rset (ranges m))"
    using a(1,2) f(1) r ranges_split[OF v] by (simp_all add: wf_def)
  show "valid_it m' it'" "\<not> at_end m' it'" by fact+
  have "hd (after m' it') = it_get m' it'" using it_next_step(1)[OF f(1-3)] by simp
  then show "fst (it_get m' it') \<le> i" "i < snd (it_get m' it')" "\<forall>r \<in> set (before m' it'). snd r \<le> i"
    using a by simp_all
qed

lemma add_spec:
  assumes "wf m"
  shows "wf (add m i)" "rset (ranges (add m i)) = insert i (rset (ranges m))"
proof -
  obtain m' it' where e: "do_add m (find m i) i = (m', it')" by (cases "do_add m (find m i) i")
  note d = do_add_spec[OF assms find_spec[OF assms] e]
  show "wf (add m i)" "rset (ranges (add m i)) = insert i (rset (ranges m))"
    using d(1,2) e by (simp_all add: add_def)
qed

end
