(* ===== verification/Index_Set_Laws.thy ===== *)
theory Index_Set_Laws
  imports Index_Set
begin

text \<open>
  What the operations of \<open>IndexSet\<close> on single indices and runs do to the represented set, for
  every well-formed chunked vector.  A position is moved by \<open>nth_outside P\<close> when the positions \<open>P\<close>
  are inserted and by \<open>rank_outside P\<close> when they are deleted.
\<close>

abbreviation idx :: "crv \<Rightarrow> nat set" where
  "idx m \<equiv> rset (ranges m)"

section \<open>Shifting range lists\<close>

lemma rset_shift_up: "rset (map (shift_range (int n)) A) = (\<lambda>x. x + n) ` rset A"
  by (induction A) (simp_all add: shift_range_def image_Un)

lemma rset_shift_down:
  assumes "\<forall>r \<in> set A. 0 < fst r"
  shows "rset (map (shift_range (- 1)) A) = (\<lambda>x. x - 1) ` rset A"
proof -
  have "{f - 1..<s - 1} = (\<lambda>x. x - 1) ` {f..<s}" if "0 < f" for f s :: nat
  proof (intro equalityI subsetI)
    fix x assume "x \<in> {f - 1..<s - 1}"
    then have "x + 1 \<in> {f..<s}" "x = (x + 1) - 1" using that by auto
    then show "x \<in> (\<lambda>x. x - 1) ` {f..<s}" by blast
  qed (use that in auto)
  moreover have "add_diff x (- 1) = x - 1" for x :: nat by (cases x) (auto simp: add_diff_def)
  ultimately show ?thesis
    using assms by (induction A) (auto simp: shift_range_def image_Un)
qed

lemma sep_shift_up: "sep (map (shift_range (int n)) A) = sep A"
  by (induction A) (auto simp: shift_range_def)

lemma sep_shift_down:
  assumes "sep A" "\<forall>r \<in> set A. 0 < fst r"
  shows "sep (map (shift_range (- 1)) A)"
proof -
  have "add_diff x (- 1) = x - 1" for x :: nat by (cases x) (auto simp: add_diff_def)
  with assms show ?thesis by (induction A) (fastforce simp: shift_range_def)+
qed

section \<open>Shifting and unshifting an index\<close>

lemma shift_loop_spec:
  assumes "sep (B @ A)" "\<forall>r \<in> set B. snd r \<le> i"
  shows "shift_loop A i \<notin> rset (B @ A) \<and>
    rank_outside (rset (B @ A)) (shift_loop A i) = i - card (rset B)"
  using assms
proof (induction A arbitrary: B i)
  case Nil
  have "rset B \<inter> {..<i} = rset B" using Nil.prems(2) by (force simp: rset_iff)
  moreover have "i \<notin> rset B" using Nil.prems(2) by (force simp: rset_iff)
  ultimately show ?case by (simp add: rank_outside_def)
next
  case (Cons r A)
  show ?case
  proof (cases "i < fst r")
    case True
    have A: "\<forall>b \<in> set (r # A). i < fst b" using Cons.prems(1) True by auto
    have "rset (B @ r # A) \<inter> {..<i} = rset B"
      using Cons.prems(2) A by (force simp: rset_iff)
    moreover have "i \<notin> rset (B @ r # A)"
      using Cons.prems(2) A by (force simp: rset_iff)
    ultimately show ?thesis using True by (simp add: rank_outside_def)
  next
    case False
    have s: "sep ((B @ [r]) @ A)" using Cons.prems(1) by simp
    have "\<forall>q \<in> set (B @ [r]). snd q \<le> i + range_len r"
      using Cons.prems(2) False by force
    note ih = Cons.IH[OF s this]
    have "sep B" "sep (B @ [r])" using Cons.prems(1) by auto
    then have "card (rset (B @ [r])) = card (rset B) + range_len r"
      by (metis range_total_card range_total_simps add_0_right)
    with ih False show ?thesis by simp
  qed
qed

lemma shift_spec:
  assumes "wf m"
  shows "shift m i = nth_outside (idx m) i"
  using shift_loop_spec[of "[]" "ranges m" i] assms
  by (intro nth_outside_eqI[symmetric]) (auto simp: shift_def wf_def)

section \<open>Adding a shifted index\<close>

lemma shift_loop_chunk:
  assumes "sep (d @ R)" "\<forall>r \<in> set d. snd r \<le> i"
  shows "shift_loop (d @ R) i = shift_loop R (i + range_total d)"
  using assms
proof (induction d arbitrary: i)
  case (Cons r d)
  have "fst r < snd r" "snd r \<le> i" using Cons.prems by auto
  then have "shift_loop ((r # d) @ R) i = shift_loop (d @ R) (i + range_len r)" by simp
  also have "\<dots> = shift_loop R (i + range_len r + range_total d)"
    by (rule Cons.IH) (use Cons.prems in force)+
  finally show ?case by (simp add: add.assoc)
qed simp

lemma chunk_step:
  assumes w: "wf m" and k: "k < length m"
  shows "after m (k, 0) = chunk_data (m ! k) @ after m (Suc k, 0)"
    "before m (Suc k, 0) = before m (k, 0) @ chunk_data (m ! k)"
    "\<And>r. r \<in> set (chunk_data (m ! k)) \<Longrightarrow> snd r \<le> chunk_end (m ! k)"
    "chunk_count (m ! k) = range_total (chunk_data (m ! k))"
    "valid_it m (Suc k, 0)"
    "chunk_end (m ! k) = snd (last (chunk_data (m ! k)))" "chunk_data (m ! k) \<noteq> []"
proof -
  note ok = wfD(1)[OF w]
  show "after m (k, 0) = chunk_data (m ! k) @ after m (Suc k, 0)"
    using k valid_chunk_start(3)[OF ok] by (simp add: Cons_nth_drop_Suc[symmetric])
  show "before m (Suc k, 0) = before m (k, 0) @ chunk_data (m ! k)"
    using k valid_chunk_start(2)[OF ok] by (simp add: take_Suc_conv_app_nth)
  show "valid_it m (Suc k, 0)" using k valid_chunk_start(1)[OF ok] by simp
  show "\<And>r. r \<in> set (chunk_data (m ! k)) \<Longrightarrow> snd r \<le> chunk_end (m ! k)"
    using chunk_end_bound[OF w] k by simp
  show "chunk_count (m ! k) = range_total (chunk_data (m ! k))"
    "chunk_end (m ! k) = snd (last (chunk_data (m ! k)))" "chunk_data (m ! k) \<noteq> []"
    using ok k by (auto simp: list_all_length chunk_ok_def)
qed

lemma add_shifted_chunks_spec:
  assumes "wf m" "valid_it m it" "snd it = 0" "\<forall>r \<in> set (before m it). snd r \<le> i"
    and "add_shifted_chunks m it i = (it', i')"
  shows "valid_it m it' \<and> snd it' = 0 \<and> (\<forall>r \<in> set (before m it'). snd r \<le> i') \<and>
    shift_loop (after m it') i' = shift_loop (after m it) i"
  using assms
proof (induction m it i arbitrary: it' i' rule: add_shifted_chunks.induct)
  case (1 m it i)
  show ?case
  proof (cases "\<not> at_end m it \<and> chunk_end (m ! fst it) \<le> i")
    case True
    obtain k where k: "it = (k, 0)" using 1(4) by (cases it) auto
    have kl: "k < length m" using True k by (simp add: at_end_def)
    note cs = chunk_step[OF 1(2) kl]
    have bnd: "\<forall>r \<in> set (chunk_data (m ! k)). snd r \<le> i" using cs(3) True k by force
    have nx: "it_next_chunk it = (Suc k, 0)" by (simp add: it_next_chunk_def k)
    have sp: "sep (after m it)" by (rule wf_before_after(2)[OF 1(2,3)])
    have "add_shifted_chunks m (it_next_chunk it) (i + chunk_count (m ! fst it)) = (it', i')"
      using 1(6) True by (subst (asm) add_shifted_chunks.simps) simp
    moreover have "\<forall>r \<in> set (before m (it_next_chunk it)). snd r \<le> i + chunk_count (m ! fst it)"
      using bnd 1(5) cs(2) nx k by (auto intro: trans_le_add1)
    ultimately have "valid_it m it' \<and> snd it' = 0 \<and> (\<forall>r \<in> set (before m it'). snd r \<le> i') \<and>
      shift_loop (after m it') i' =
        shift_loop (after m (it_next_chunk it)) (i + chunk_count (m ! fst it))"
      by (intro 1(1)[OF True 1(2)]) (simp_all add: nx cs(5))
    moreover have "shift_loop (after m it) i =
        shift_loop (after m (it_next_chunk it)) (i + chunk_count (m ! fst it))"
      using shift_loop_chunk[of "chunk_data (m ! k)" "after m (Suc k, 0)" i] sp bnd cs(1,4) k nx by simp
    ultimately show ?thesis by simp
  next
    case False
    then have "it' = it" "i' = i"
      using 1(6) unfolding add_shifted_chunks.simps[of m it i] if_not_P[OF False] by simp_all
    then show ?thesis using 1(3-5) by simp
  qed
qed

lemma add_shifted_ranges_spec:
  assumes "wf m" "valid_it m it" "\<forall>r \<in> set (before m it). snd r \<le> i"
    and "add_shifted_ranges m it i = (it', i')"
  shows "valid_it m it' \<and> split_at (before m it') (after m it') i' \<and> i' = shift_loop (after m it) i"
  using assms
proof (induction m it i arbitrary: it' i' rule: add_shifted_ranges.induct)
  case (1 m it i)
  note ok = wfD(1)[OF 1(2)]
  show ?case
  proof (cases "\<not> at_end m it \<and> fst (it_get m it) \<le> i")
    case True
    note st = it_next_step[OF ok 1(3)]
    have "add_shifted_ranges m (it_next m it) (i + range_len (it_get m it)) = (it', i')"
      using 1(5) True by (subst (asm) add_shifted_ranges.simps) simp
    moreover have "\<forall>r \<in> set (before m (it_next m it)). snd r \<le> i + range_len (it_get m it)"
      using st(2) True 1(4) by (auto intro: trans_le_add1)
    ultimately have ih: "valid_it m it' \<and> split_at (before m it') (after m it') i' \<and>
        i' = shift_loop (after m (it_next m it)) (i + range_len (it_get m it))"
      using True by (intro 1(1)[OF True 1(2)]) (simp_all add: st(3))
    moreover have "shift_loop (after m it) i =
        shift_loop (after m (it_next m it)) (i + range_len (it_get m it))"
      using st(1) True by simp
    ultimately show ?thesis by metis
  next
    case False
    have r: "it' = it" "i' = i"
      using 1(5) unfolding add_shifted_ranges.simps[of m it i] if_not_P[OF False] by simp_all
    show ?thesis
    proof (cases "at_end m it")
      case True
      then show ?thesis using 1(3,4) r at_end_iff by (simp add: split_at_def)
    next
      case ne: False
      note st = it_next_step(1)[OF ok 1(3) ne]
      have "fst (it_get m it) < snd (it_get m it)"
        using wf_before_after(2)[OF 1(2,3)] st by simp
      then show ?thesis using False ne r st 1(3,4) by (simp add: split_at_def)
    qed
  qed
qed

lemma add_shifted_spec:
  assumes w: "wf m" and e: "add_shifted m i = (m', j)"
  shows "wf m'" "idx m' = insert j (idx m)" "j = nth_outside (idx m) i"
proof -
  note ok = wfD(1)[OF w]
  note b = it_begin_spec[OF ok]
  obtain it1 i1 where e1: "add_shifted_chunks m (it_begin m) i = (it1, i1)"
    by (cases "add_shifted_chunks m (it_begin m) i")
  obtain it2 i2 where e2: "add_shifted_ranges m it1 i1 = (it2, i2)"
    by (cases "add_shifted_ranges m it1 i1")
  have "snd (it_begin m) = 0" by (simp add: it_begin_def)
  note c = add_shifted_chunks_spec[OF w b(3) this _ e1, unfolded b(1,2)]
  then have v1: "valid_it m it1" "\<forall>r \<in> set (before m it1). snd r \<le> i1" by simp_all
  note r = add_shifted_ranges_spec[OF w v1 e2]
  have as: "add_shifted m i = (fst (do_add m it2 i2), i2)" by (simp add: add_shifted_def e1 e2)
  then have j: "j = i2" and m': "m' = fst (do_add m it2 i2)" using e by auto
  have "j = shift m i" unfolding j using c r by (simp add: shift_def)
  then show "j = nth_outside (idx m) i" using shift_spec[OF w] by simp
  obtain m3 it3 where e3: "do_add m it2 i2 = (m3, it3)" by (cases "do_add m it2 i2")
  have "valid_it m it2" "split_at (before m it2) (after m it2) i2" using r by blast+
  note d = do_add_spec[OF w this e3]
  show "wf m'" "idx m' = insert j (idx m)" unfolding m' j e3 using d(1,2) by simp_all
qed


section \<open>Inserting and shifting\<close>

lemma insert_run_spec:
  assumes "wf m" "valid_it m it" "split_at (before m it) (after m it) i"
    and "after m it \<noteq> [] \<Longrightarrow> i + n < fst (hd (after m it))"
  shows "wf (insert_run m it i n) \<and> idx (insert_run m it i n) = idx m \<union> {i..<i + n}"
  using assms
proof (induction n arbitrary: m it i)
  case (Suc n)
  obtain m' it' where e: "do_add m it i = (m', it')" by (cases "do_add m it i")
  note f = do_add_flat[OF Suc.prems(1-3) e]
  note d = do_add_spec[OF Suc.prems(1-3) e]
  note st = it_next_step[OF f(1-3)]
  have A: "after m it = [] \<or> i + 1 < fst (hd (after m it))" using Suc.prems(4) by fastforce
  then have "\<not> (after m it \<noteq> [] \<and> fst (hd (after m it)) \<le> i \<and> i < snd (hd (after m it)))"
    "\<not> (after m it \<noteq> [] \<and> fst (hd (after m it)) = i + 1)" by auto
  note A' = this
  have "after m' it' = snd (if before m it \<noteq> [] \<and> snd (last (before m it)) = i
      then (butlast (before m it), (fst (last (before m it)), i + 1) # after m it)
      else (before m it, (i, i + 1) # after m it))"
    using arg_cong[OF f(4), of snd] unfolding flat_add_def if_not_P[OF A'(1)] if_not_P[OF A'(2)]
    by (simp only: snd_conv)
  then have "tl (after m' it') = after m it \<and> snd (hd (after m' it')) = i + 1"
    by (simp split: if_splits)
  then have af: "after m' (it_next m' it') = after m it" "snd (it_get m' it') = i + 1"
    using st(1) by simp_all
  have "\<forall>r \<in> set (before m' (it_next m' it')). snd r \<le> i + 1"
    using st(2) d(7) af(2) by (auto intro: le_SucI)
  moreover have "after m it \<noteq> [] \<longrightarrow> i + 1 < snd (hd (after m it))"
    using A wf_before_after(2)[OF Suc.prems(1,2)] by (cases "after m it") auto
  ultimately have "split_at (before m' (it_next m' it')) (after m' (it_next m' it')) (i + 1)"
    unfolding split_at_def af(1) by blast
  moreover have "i + 1 + n < fst (hd (after m' (it_next m' it')))" if "after m' (it_next m' it') \<noteq> []"
    using Suc.prems(4) that af(1) by simp
  ultimately have "wf (insert_run m' (it_next m' it') (i + 1) n) \<and>
    idx (insert_run m' (it_next m' it') (i + 1) n) = idx m' \<union> {i + 1..<i + 1 + n}"
    by (intro Suc.IH[OF d(1) st(3)])
  moreover have "insert i {i + 1..<i + 1 + n} = {i..<i + Suc n}" by auto
  ultimately show ?case using d(2) e by auto
qed simp

text \<open>The pieces of a set around a position, and where a run inserted there moves them.\<close>

lemma nth_outside_run_split:
  assumes "\<forall>x \<in> X. x < i" "\<forall>y \<in> Y. i \<le> y"
  shows "nth_outside {i..<i + n} ` (X \<union> Y) = X \<union> (\<lambda>y. y + n) ` Y"
proof -
  have "nth_outside {i..<i + n} ` X = (\<lambda>x. x) ` X"
    by (rule image_cong) (use assms(1) in \<open>auto simp: nth_outside_run\<close>)
  moreover have "nth_outside {i..<i + n} ` Y = (\<lambda>y. y + n) ` Y"
    by (rule image_cong) (use assms(2) in \<open>auto simp: nth_outside_run not_less\<close>)
  ultimately show ?thesis by (simp add: image_Un)
qed

lemma shift_after_pos:
  assumes "sep A" "r \<in> set A"
  shows "fst r \<le> snd r \<and> 0 \<le> int (fst r) + int n"
  using sep_nonempty[OF assms] by simp

lemma insert_at_spec:
  assumes w: "wf m" and n: "0 < n"
  shows "wf (insert_at m i n)" "idx (insert_at m i n) = nth_outside {i..<i + n} ` idx m \<union> {i..<i + n}"
proof -
  note ok = wfD(1)[OF w]
  define it where "it = find m i"
  note fs = find_spec[OF w, of i, folded it_def]
  note rs = ranges_split[OF fs(1)]
  note sb = wf_before_after[OF w fs(1)]
  define B A where "B = before m it" and "A = after m it"
  have lo: "\<forall>x \<in> rset B. x < i" using split_at_below[OF fs(2)] by (simp add: B_def)
  have "wf (insert_at m i n) \<and> idx (insert_at m i n) = nth_outside {i..<i + n} ` idx m \<union> {i..<i + n}"
  proof (cases "at_end m it")
    case True
    then have A: "A = []" using at_end_iff[OF fs(1)] by (simp add: A_def)
    have "insert_at m i n = insert_run m it i n" using True by (simp add: insert_at_def it_def Let_def)
    moreover have "nth_outside {i..<i + n} ` idx m = idx m"
      using nth_outside_run_split[OF lo, of "{}" n] rs A by (simp add: A_def B_def)
    ultimately show ?thesis
      using insert_run_spec[OF w fs, of n] A by (simp add: A_def)
  next
    case False
    note st = it_next_step[OF ok fs(1) False]
    define r where "r = it_get m it"
    define A' where "A' = after m (it_next m it)"
    have A: "A = r # A'" using st(1) by (simp add: A_def r_def A'_def)
    have sr: "fst r < snd r" "sep A'" "\<forall>b \<in> set A'. snd r < fst b" using sb(2) A A_def by auto
    have ri: "i < snd r" using fs(2) A A_def by (simp add: split_at_def)
    show ?thesis
    proof (cases "fst r \<le> i")
      case True
      define m1 where "m1 = it_adjust m it 0 (int n)"
      have "edits m it m1 (fst r, snd r + n)"
        using it_adjust_edits[OF ok fs(1) False, of 0 "int n"] sr by (simp add: m1_def r_def)
      note ed = editsD[OF this]
      have nx: "it_next m1 it = it_next m it" by (rule ed(7))
      have af: "after m1 (it_next m it) = A'" using ed(10) st(1) by (simp add: A'_def)
      have "insert_at m i n = shift_from m1 (it_next m it) (int n)"
        using False True nx by (simp add: insert_at_def it_def r_def m1_def Let_def)
      moreover have "\<forall>q \<in> set (after m1 (it_next m it)). fst q \<le> snd q \<and> 0 \<le> int (fst q) + int n"
        using shift_after_pos[OF sr(2)] af by blast
      note sf = shift_from_spec[OF ed(1,11) this]
      ultimately have ok': "list_all chunk_ok (insert_at m i n)"
        and R: "ranges (insert_at m i n) = B @ (fst r, snd r + n) # map (shift_range (int n)) A'"
        using ed(9) af by (simp_all add: B_def)
      have "sep (map (shift_range (int n)) A')" using sr(2) by (simp add: sep_shift_up)
      moreover have "\<forall>b \<in> set (map (shift_range (int n)) A'). snd r + n < fst b"
        using sr(3) by (auto simp: shift_range_def)
      moreover have "\<forall>a \<in> set B. snd a < fst r" using sb(3) A by (simp add: A_def B_def)
      ultimately have s: "sep (ranges (insert_at m i n))"
        unfolding R using sb(1) sr by (fastforce simp: B_def)
      have "\<forall>y \<in> {i..<snd r} \<union> rset A'. i \<le> y"
        using ri sr(3) by (fastforce simp: rset_iff)
      moreover have "\<forall>x \<in> rset B \<union> {fst r..<i}. x < i" using lo by auto
      ultimately have "nth_outside {i..<i + n} ` ((rset B \<union> {fst r..<i}) \<union> ({i..<snd r} \<union> rset A')) =
        (rset B \<union> {fst r..<i}) \<union> (\<lambda>y. y + n) ` ({i..<snd r} \<union> rset A')"
        by (intro nth_outside_run_split)
      moreover have "idx m = (rset B \<union> {fst r..<i}) \<union> ({i..<snd r} \<union> rset A')"
        using rs A True ri by (auto simp: A_def B_def)
      moreover have "(\<lambda>y. y + n) ` ({i..<snd r} \<union> rset A') = {i + n..<snd r + n} \<union> (\<lambda>y. y + n) ` rset A'"
        by (simp add: image_Un)
      ultimately have "nth_outside {i..<i + n} ` idx m \<union> {i..<i + n} =
        rset B \<union> ({fst r..<i} \<union> {i..<i + n} \<union> {i + n..<snd r + n}) \<union> (\<lambda>y. y + n) ` rset A'"
        by auto
      also have "{fst r..<i} \<union> {i..<i + n} \<union> {i + n..<snd r + n} = {fst r..<snd r + n}"
        using True ri by auto
      finally show ?thesis using ok' s R by (simp add: wf_def rset_shift_up Un_assoc)
    next
      case gap: False
      define m1 where "m1 = it_shift m it (int n)"
      have "edits m it m1 (fst r + n, snd r + n)"
        using it_shift_edits[OF ok fs(1) False, of "int n"] sr by (simp add: m1_def r_def)
      note ed = editsD[OF this]
      have nx: "it_next m1 it = it_next m it" by (rule ed(7))
      have af: "after m1 (it_next m it) = A'" using ed(10) st(1) by (simp add: A'_def)
      define m2 where "m2 = shift_from m1 (it_next m it) (int n)"
      have q: "\<forall>q \<in> set (after m1 (it_next m it)). fst q \<le> snd q \<and> 0 \<le> int (fst q) + int n"
        using shift_after_pos[OF sr(2)] af by blast
      note sf = shift_from_spec[OF ed(1,11) q, folded m2_def]
      have R: "ranges m2 = B @ map (shift_range (int n)) A"
        using sf ed(9) af A by (simp add: B_def shift_range_def)
      have S: "shape m2 = shape m" using sf by (simp add: m1_def)
      note pos = shape_before[OF S fs(1) R, unfolded B_def, OF refl, folded B_def]
      have v2: "valid_it m2 it" using fs(1) shape_iter(1)[OF S] by blast
      have "sep (map (shift_range (int n)) A)" using sb(2) by (simp add: sep_shift_up A_def)
      moreover have "\<forall>a \<in> set B. \<forall>b \<in> set (map (shift_range (int n)) A). snd a < fst b"
        using sb(3) by (fastforce simp: A_def B_def shift_range_def)
      ultimately have "sep (ranges m2)" unfolding R using sb(1) by (simp add: B_def)
      then have w2: "wf m2" using conjunct1[OF sf] unfolding wf_def by blast
      have "split_at B (map (shift_range (int n)) A) i"
        using fs(2) A ri by (simp add: split_at_def B_def A_def shift_range_def)
      then have sp2: "split_at (before m2 it) (after m2 it) i" using pos by simp
      have "i + n < fst (hd (after m2 it))" using pos(2) A gap by (simp add: shift_range_def)
      then have "wf (insert_run m2 it i n) \<and> idx (insert_run m2 it i n) = idx m2 \<union> {i..<i + n}"
        by (intro insert_run_spec[OF w2 v2 sp2])
      moreover have "insert_at m i n = insert_run m2 it i n"
        using False gap nx by (simp add: insert_at_def it_def[symmetric] r_def m1_def[symmetric] m2_def Let_def)
      moreover have "\<forall>y \<in> rset A. i \<le> y" using A gap sr by (fastforce simp: rset_iff)
      then have "nth_outside {i..<i + n} ` idx m = idx m2"
        using nth_outside_run_split[OF lo] rs R by (simp add: A_def B_def rset_shift_up)
      ultimately show ?thesis by simp
    qed
  qed
  then show "wf (insert_at m i n)" "idx (insert_at m i n) = nth_outside {i..<i + n} ` idx m \<union> {i..<i + n}"
    by blast+
qed


lemma insert_crv_bounds:
  assumes "sep (B @ new # A)"
  shows "\<forall>r \<in> set B. fst r \<le> fst new" "\<forall>r \<in> set A. fst new \<le> fst r \<and> snd new \<le> snd r"
proof -
  show "\<forall>r \<in> set B. fst r \<le> fst new"
  proof
    fix r assume r: "r \<in> set B"
    then have "snd r < fst new" "sep B" using assms by auto
    then show "fst r \<le> fst new" using sep_nonempty[of B r] r by simp
  qed
  show "\<forall>r \<in> set A. fst new \<le> fst r \<and> snd new \<le> snd r"
  proof
    fix r assume r: "r \<in> set A"
    then have "snd new < fst r" "fst new < snd new" "sep A" using assms by auto
    then show "fst new \<le> fst r \<and> snd new \<le> snd r" using sep_nonempty[of A r] r by simp
  qed
qed

lemma shift_for_insert_at_spec:
  assumes w: "wf m" and n: "0 < n"
  shows "wf (shift_for_insert_at m i n)" "idx (shift_for_insert_at m i n) = nth_outside {i..<i + n} ` idx m"
proof -
  note ok = wfD(1)[OF w]
  define it where "it = find m i"
  note fs = find_spec[OF w, of i, folded it_def]
  note rs = ranges_split[OF fs(1)]
  note sb = wf_before_after[OF w fs(1)]
  define B A where "B = before m it" and "A = after m it"
  have lo: "\<forall>x \<in> rset B. x < i" using split_at_below[OF fs(2)] by (simp add: B_def)
  have "wf (shift_for_insert_at m i n) \<and> idx (shift_for_insert_at m i n) = nth_outside {i..<i + n} ` idx m"
  proof (cases "at_end m it")
    case True
    then have A: "A = []" using at_end_iff[OF fs(1)] by (simp add: A_def)
    have "nth_outside {i..<i + n} ` idx m = idx m"
      using nth_outside_run_split[OF lo, of "{}" n] rs A by (simp add: A_def B_def)
    then show ?thesis using w True by (simp add: shift_for_insert_at_def it_def Let_def)
  next
    case False
    note st = it_next_step[OF ok fs(1) False]
    define r where "r = it_get m it"
    define A' where "A' = after m (it_next m it)"
    have A: "A = r # A'" using st(1) by (simp add: A_def r_def A'_def)
    have sr: "fst r < snd r" "sep A'" "\<forall>b \<in> set A'. snd r < fst b" using sb(2) A A_def by auto
    have ri: "i < snd r" using fs(2) A A_def by (simp add: split_at_def)
    define m1 where "m1 = shift_from m it (int n)"
    have q: "\<forall>q \<in> set (after m it). fst q \<le> snd q \<and> 0 \<le> int (fst q) + int n"
      using shift_after_pos[OF sb(2)] by blast
    note sf = shift_from_spec[OF ok fs(1) q, folded m1_def]
    have ok1: "list_all chunk_ok m1" and S1: "shape m1 = shape m"
      and R1: "ranges m1 = B @ map (shift_range (int n)) A" using sf by (simp_all add: A_def B_def)
    note pos = shape_before[OF S1 fs(1) R1, unfolded B_def, OF refl, folded B_def]
    have v1: "valid_it m1 it" "\<not> at_end m1 it" using fs(1) False shape_iter[OF S1] by blast+
    have g1: "it_get m1 it = (fst r + n, snd r + n)"
      using it_next_step(1)[OF ok1 v1] pos(2) A by (simp add: shift_range_def)
    show ?thesis
    proof (cases "fst r < i")
      case True
      define m2 where "m2 = it_set m1 it (fst r) i"
      note ed = editsD[OF it_set_edits[OF ok1 v1, of "fst r" i, folded m2_def]]
      obtain m3 it3 where e3: "crv_insert m2 (it_next m1 it) (i + n, snd r + n) = (m3, it3)"
        by (cases "crv_insert m2 (it_next m1 it) (i + n, snd r + n)")
      have "shift_for_insert_at m i n = m3"
        using False True e3 g1 ed(7)
        by (simp add: shift_for_insert_at_def it_def[symmetric] m1_def[symmetric] m2_def[symmetric] Let_def)
      moreover have bef: "before m2 (it_next m1 it) = B @ [(fst r, i)]" using ed(9) pos(1) by simp
      moreover have aft: "after m2 (it_next m1 it) = map (shift_range (int n)) A'"
        using ed(10) pos(2) A by simp
      moreover have "sep ((B @ [(fst r, i)]) @ (i + n, snd r + n) # map (shift_range (int n)) A')"
      proof -
        have "\<forall>b \<in> set (map (shift_range (int n)) A'). snd r + n < fst b"
          using sr(3) by (simp add: shift_range_def)
        moreover have "\<forall>b \<in> set B. snd b < fst r" using sb(3) A by (simp add: A_def B_def)
        moreover have "sep (map (shift_range (int n)) A')" using sr(2) by (simp add: sep_shift_up)
        ultimately show ?thesis using sb(1) True ri n by (fastforce simp: B_def)
      qed
      moreover note ins = crv_insert_spec[OF ed(1,11) e3, unfolded bef aft,
          OF insert_crv_bounds[OF calculation(4)]]
      have "ranges m3 = (B @ [(fst r, i)]) @ (i + n, snd r + n) # map (shift_range (int n)) A'"
        using ranges_split[OF ins(2)] ins(4,5) by simp
      moreover have "nth_outside {i..<i + n} ` idx m =
        (rset B \<union> {fst r..<i}) \<union> (\<lambda>y. y + n) ` ({i..<snd r} \<union> rset A')"
      proof -
        have "\<forall>y \<in> {i..<snd r} \<union> rset A'. i \<le> y" using ri sr(3) by (fastforce simp: rset_iff)
        moreover have "\<forall>x \<in> rset B \<union> {fst r..<i}. x < i" using lo by auto
        moreover have "idx m = (rset B \<union> {fst r..<i}) \<union> ({i..<snd r} \<union> rset A')"
          using rs A True ri by (auto simp: A_def B_def)
        ultimately show ?thesis by (metis nth_outside_run_split)
      qed
      ultimately show ?thesis using ins(1)
        by (simp add: wf_def rset_shift_up image_Un Un_assoc)
    next
      case ge: False
      have "shift_for_insert_at m i n = m1"
        using False ge g1
        by (simp add: shift_for_insert_at_def it_def[symmetric] m1_def[symmetric] Let_def)
      moreover have "sep (ranges m1)"
      proof -
        have "sep (map (shift_range (int n)) A)" using sb(2) by (simp add: sep_shift_up A_def)
        moreover have "\<forall>a \<in> set B. \<forall>b \<in> set (map (shift_range (int n)) A). snd a < fst b"
          using sb(3) by (fastforce simp: A_def B_def shift_range_def)
        ultimately show ?thesis unfolding R1 using sb(1) by (simp add: B_def)
      qed
      moreover have "\<forall>y \<in> rset A. i \<le> y" using A ge sr by (fastforce simp: rset_iff)
      then have "nth_outside {i..<i + n} ` idx m = idx m1"
        using nth_outside_run_split[OF lo] rs R1 by (simp add: A_def B_def rset_shift_up)
      ultimately show ?thesis using ok1 by (simp add: wf_def)
    qed
  qed
  then show "wf (shift_for_insert_at m i n)" "idx (shift_for_insert_at m i n) = nth_outside {i..<i + n} ` idx m"
    by blast+
qed


section \<open>Erasing one position\<close>

definition shift_down :: "range list \<Rightarrow> range list" where
  "shift_down = map (shift_range (- 1))"

text \<open>The flat counterpart of \<open>do_erase\<close>.\<close>

definition flat_erase :: "range list \<Rightarrow> range \<Rightarrow> range list \<Rightarrow> nat \<Rightarrow> range list" where
  "flat_erase B r A i =
     (if fst r \<le> i then
        (if fst r + 1 = snd r then B @ shift_down A else B @ (fst r, snd r - 1) # shift_down A)
      else if B \<noteq> [] \<and> snd (last B) + 1 = fst r then
        butlast B @ (fst (last B), snd (last B) + range_len r) # shift_down A
      else B @ shift_down (r # A))"

lemma shift_range_down: "shift_range (- 1) r = (fst r - 1, snd r - 1)"
proof -
  have "add_diff x (- 1) = x - 1" for x :: nat by (cases x) (auto simp: add_diff_def)
  then show ?thesis by (simp add: shift_range_def)
qed

lemma rank_outside_pos_split:
  assumes "\<forall>x \<in> X. x < i" "\<forall>y \<in> Y. i < y"
  shows "rank_outside {i} ` (X \<union> Y) = X \<union> (\<lambda>y. y - 1) ` Y"
proof -
  have "rank_outside {i} ` X = (\<lambda>x. x) ` X"
    by (rule image_cong) (use assms(1) in \<open>auto simp: rank_outside_singleton\<close>)
  moreover have "rank_outside {i} ` Y = (\<lambda>y. y - 1) ` Y"
    by (rule image_cong) (use assms(2) in \<open>auto simp: rank_outside_singleton\<close>)
  ultimately show ?thesis by (simp add: image_Un)
qed

lemma flat_erase_spec:
  assumes s: "sep (B @ r # A)" and sp: "split_at B (r # A) i"
  shows "sep (flat_erase B r A i)"
    "rset (flat_erase B r A i) = rank_outside {i} ` (rset (B @ r # A) - {i})"
proof -
  have B: "\<And>q. q \<in> set B \<Longrightarrow> snd q \<le> i" and ri: "i < snd r" using sp by (auto simp: split_at_def)
  have rl: "fst r < snd r" and sA: "sep A" and sB: "sep B" using s by auto
  have A: "\<And>q. q \<in> set A \<Longrightarrow> snd r < fst q" and Br: "\<And>q. q \<in> set B \<Longrightarrow> snd q < fst r" using s by auto
  have sd: "sep (shift_down A)" "rset (shift_down A) = (\<lambda>x. x - 1) ` rset A"
    unfolding shift_down_def using A by (force intro!: sep_shift_down sA rset_shift_down)+
  have dn: "\<And>q. q \<in> set (shift_down A) \<Longrightarrow> snd r \<le> fst q"
    using A by (force simp: shift_down_def shift_range_down)
  have dn1: "\<And>q. q \<in> set (shift_down A) \<Longrightarrow> snd r - 1 < fst q" using dn rl by fastforce
  have lo: "\<forall>x \<in> rset B. x < i" using split_at_below[OF sp] by simp
  have hi: "\<forall>x \<in> rset A. i < x" using A ri by (fastforce simp: rset_iff)
  have tot: "rank_outside {i} ` (rset (B @ r # A) - {i}) =
      (rset B \<union> {fst r..<i}) \<union> (\<lambda>y. y - 1) ` ({max (i + 1) (fst r)..<snd r} \<union> rset A)"
  proof -
    have S: "rset (B @ r # A) - {i} = (rset B \<union> {fst r..<i}) \<union> ({max (i + 1) (fst r)..<snd r} \<union> rset A)"
      using lo hi ri by fastforce
    show ?thesis unfolding S
    proof (rule rank_outside_pos_split)
      show "\<forall>x \<in> rset B \<union> {fst r..<i}. x < i" using lo by auto
      show "\<forall>y \<in> {max (i + 1) (fst r)..<snd r} \<union> rset A. i < y" using hi by auto
    qed
  qed
  have run: "(\<lambda>y. y - 1) ` {a + 1..<b} = {a..<b - 1}" for a b :: nat
  proof (intro equalityI subsetI)
    fix x assume "x \<in> {a..<b - 1}"
    then have "x + 1 \<in> {a + 1..<b}" "x = (x + 1) - 1" by auto
    then show "x \<in> (\<lambda>y. y - 1) ` {a + 1..<b}" by blast
  qed auto
  have "sep (flat_erase B r A i) \<and> rset (flat_erase B r A i) = rank_outside {i} ` (rset (B @ r # A) - {i})"
  proof (cases "fst r \<le> i")
    case in_range: True
    have mx: "max (i + 1) (fst r) = i + 1" using in_range by simp
    show ?thesis
    proof (cases "fst r + 1 = snd r")
      case True
      then have "flat_erase B r A i = B @ shift_down A" using in_range by (simp add: flat_erase_def)
      moreover have "snd a < fst b" if "a \<in> set B" "b \<in> set (shift_down A)" for a b
        using Br[OF that(1)] dn[OF that(2)] rl by simp
      moreover have "{fst r..<i} = {}" "{i + 1..<snd r} = {}" using True in_range ri by auto
      ultimately show ?thesis unfolding tot mx using sd sB by (simp add: image_Un)
    next
      case False
      then have "flat_erase B r A i = B @ (fst r, snd r - 1) # shift_down A"
        using in_range by (simp add: flat_erase_def)
      moreover have "snd a < fst b" if "a \<in> set B" "b \<in> set (shift_down A)" for a b
        using Br[OF that(1)] dn[OF that(2)] rl by simp
      moreover have "{fst r..<i} \<union> {i..<snd r - 1} = {fst r..<snd r - 1}" using in_range ri False rl by auto
      ultimately show ?thesis
        unfolding tot mx image_Un run using sd sB Br dn1 False rl by (simp add: Un_assoc[symmetric]) (simp add: Un_assoc)
    qed
  next
    case out: False
    have mx: "max (i + 1) (fst r) = (fst r - 1) + 1" using out by simp
    have em: "{fst r..<i} = {}" using out by simp
    show ?thesis
    proof (cases "B \<noteq> [] \<and> snd (last B) + 1 = fst r")
      case True
      then obtain C q where C: "B = C @ [q]" "snd q + 1 = fst r" by (cases B rule: rev_cases) auto
      have e: "snd q + range_len r = snd r - 1" using C rl by simp
      have "flat_erase B r A i = C @ (fst q, snd r - 1) # shift_down A"
        using out C e by (simp add: flat_erase_def)
      moreover have "snd a < fst b" if "a \<in> set C" "b \<in> set (shift_down A)" for a b
        using Br[of a] dn[OF that(2)] rl that C by simp
      moreover have "fst q < snd q" "\<forall>a \<in> set C. snd a < fst q" "sep C" using sB C by auto
      moreover have "{fst q..<snd q} \<union> {fst r - 1..<snd r - 1} = {fst q..<snd r - 1}"
        using C(2) rl \<open>fst q < snd q\<close> by auto
      ultimately show ?thesis
        unfolding tot mx em image_Un run using sd dn1 C rl by (simp add: Un_assoc[symmetric]) (simp add: Un_assoc)
    next
      case False
      then have "flat_erase B r A i = B @ shift_down (r # A)" using out by (auto simp: flat_erase_def)
      moreover have "shift_down (r # A) = (fst r - 1, snd r - 1) # shift_down A"
        by (simp add: shift_down_def shift_range_down)
      moreover have "snd a < fst r - 1" if "a \<in> set B" for a
      proof -
        have ne: "B \<noteq> []" using that by auto
        have "snd (last B) < fst r" by (rule Br[OF last_in_set[OF ne]])
        moreover have "snd (last B) + 1 \<noteq> fst r" using False ne by simp
        moreover have "snd a \<le> snd (last B)" by (rule sep_last_bound[OF sB that])
        ultimately show ?thesis by simp
      qed
      moreover have "snd a < fst b" if "a \<in> set B" "b \<in> set (shift_down A)" for a b
        using Br[OF that(1)] dn[OF that(2)] rl by simp
      moreover have "fst r - 1 < snd r - 1" using out rl by linarith
      ultimately show ?thesis
        unfolding tot mx em image_Un run using sd dn1 sB by simp
    qed
  qed
  then show "sep (flat_erase B r A i)"
    "rset (flat_erase B r A i) = rank_outside {i} ` (rset (B @ r # A) - {i})" by blast+
qed


lemma do_erase_flat:
  assumes w: "wf m" and v: "valid_it m it" and ne: "\<not> at_end m it"
    and sp: "split_at (before m it) (after m it) i"
  shows "list_all chunk_ok (do_erase m it i) \<and>
    ranges (do_erase m it i) = flat_erase (before m it) (it_get m it) (after m (it_next m it)) i"
proof -
  note ok = wfD(1)[OF w]
  note st = it_next_step[OF ok v ne]
  note sb = wf_before_after[OF w v]
  let ?r = "it_get m it" and ?A = "after m (it_next m it)"
  have rl: "fst ?r < snd ?r" and sA: "sep ?A" and A: "\<And>q. q \<in> set ?A \<Longrightarrow> snd ?r < fst q"
    using sb(2) st(1) by auto
  have qA: "\<forall>q \<in> set ?A. fst q \<le> snd q \<and> 0 \<le> int (fst q) + - 1"
  proof
    fix q assume q: "q \<in> set ?A"
    with A[OF q] sep_nonempty[OF sA q] show "fst q \<le> snd q \<and> 0 \<le> int (fst q) + - 1" by simp
  qed
  have mb: "it \<noteq> it_begin m \<longleftrightarrow> before m it \<noteq> []" using it_is_begin[OF ok v] by simp
  have l: "last (before m it) = it_get m (it_prev m it)" if "before m it \<noteq> []"
    using it_prev_step(1)[OF ok v that] by (metis last_snoc)
  show ?thesis
  proof (cases "fst ?r \<le> i")
    case in_range: True
    show ?thesis
    proof (cases "fst ?r + 1 = snd ?r")
      case True
      obtain m1 it1 where e1: "crv_erase m it = (m1, it1)" by (cases "crv_erase m it")
      note er = crv_erase_spec[OF ok v ne e1]
      have af: "after m1 it1 = ?A" using er(4) st(1) by simp
      have "do_erase m it i = shift_from m1 it1 (- 1)"
        using in_range True e1 by (simp add: do_erase_def)
      moreover have "\<forall>q \<in> set (after m1 it1). fst q \<le> snd q \<and> 0 \<le> int (fst q) + - 1"
        unfolding af by (rule qA)
      note shift_from_spec[OF er(1,2) this]
      ultimately show ?thesis
        using in_range True er(3) af by (simp add: flat_erase_def shift_down_def)
    next
      case False
      define m1 where "m1 = it_adjust m it 0 (- 1)"
      have "edits m it m1 (fst ?r, snd ?r - 1)"
        using it_adjust_edits[OF ok v ne, of 0 "- 1"] rl by (simp add: m1_def)
      note ed = editsD[OF this]
      have af: "after m1 (it_next m it) = ?A" using ed(10) st(1) by simp
      have "do_erase m it i = shift_from m1 (it_next m it) (- 1)"
        using in_range False ed(7) by (simp add: do_erase_def m1_def[symmetric] Let_def)
      moreover have "\<forall>q \<in> set (after m1 (it_next m it)). fst q \<le> snd q \<and> 0 \<le> int (fst q) + - 1"
        unfolding af by (rule qA)
      note shift_from_spec[OF ed(1,11) this]
      ultimately show ?thesis
        using in_range False ed(9) af by (simp add: flat_erase_def shift_down_def)
    qed
  next
    case out: False
    show ?thesis
    proof (cases "before m it \<noteq> [] \<and> snd (it_get m (it_prev m it)) + 1 = fst ?r")
      case True
      then have nb: "before m it \<noteq> []" by simp
      note pv = it_prev_step[OF ok v nb]
      let ?p = "it_prev m it" and ?q = "it_get m (it_prev m it)"
      have ql: "fst ?q < snd ?q" using sb(1) pv(1) by (metis last_in_set nb l sep_nonempty)
      define m1 where "m1 = it_adjust m ?p 0 (int (range_len ?r))"
      have "edits m ?p m1 (fst ?q, snd ?q + range_len ?r)"
        using it_adjust_edits[OF ok pv(3,4), of 0 "int (range_len ?r)"] ql by (simp add: m1_def)
      note ed = editsD[OF this]
      have B1: "before m1 ?p = butlast (before m it)" using ed(5) pv(1) by (metis butlast_snoc)
      have A1: "after m1 ?p = (fst ?q, snd ?q + range_len ?r) # after m it" using ed(6) pv(2) by simp
      have R1: "ranges m1 = (butlast (before m it) @ [(fst ?q, snd ?q + range_len ?r)]) @ after m it"
        using ranges_split[OF ed(3)] B1 A1 by simp
      have S1: "shape m1 = shape m" by (simp add: m1_def)
      have "length (butlast (before m it) @ [(fst ?q, snd ?q + range_len ?r)]) = length (before m it)"
        using nb by simp
      note it1 = shape_before[OF S1 v R1 this]
      have v1: "valid_it m1 it" "\<not> at_end m1 it" using v ne shape_iter[OF S1] by blast+
      obtain m2 it2 where e2: "crv_erase m1 it = (m2, it2)" by (cases "crv_erase m1 it")
      note er = crv_erase_spec[OF ed(1) v1 e2]
      have af: "after m2 it2 = ?A" using er(4) it1(2) st(1) by simp
      have "do_erase m it i = shift_from m2 it2 (- 1)"
        using out True mb e2 by (simp add: do_erase_def m1_def[symmetric])
      moreover have "\<forall>q \<in> set (after m2 it2). fst q \<le> snd q \<and> 0 \<le> int (fst q) + - 1"
        unfolding af by (rule qA)
      note shift_from_spec[OF er(1,2) this]
      ultimately show ?thesis
        using out True er(3) it1(1) af l by (simp add: flat_erase_def shift_down_def)
    next
      case False
      have c: "do_erase m it i = shift_from m it (- 1)"
        using out False mb by (auto simp: do_erase_def)
      have "\<forall>q \<in> set (after m it). fst q \<le> snd q \<and> 0 \<le> int (fst q) + - 1"
        using qA out rl st(1) by simp
      note shift_from_spec[OF ok v this]
      then show ?thesis
        using c out False l st(1) by (auto simp: flat_erase_def shift_down_def)
    qed
  qed
qed

lemma do_erase_spec:
  assumes "wf m" "valid_it m it" "\<not> at_end m it" "split_at (before m it) (after m it) i"
  shows "wf (do_erase m it i)" "idx (do_erase m it i) = rank_outside {i} ` (idx m - {i})"
proof -
  note st = it_next_step(1)[OF wfD(1)[OF assms(1)] assms(2,3)]
  have "sep (before m it @ it_get m it # after m (it_next m it))"
    using wfD(2)[OF assms(1)] unfolding ranges_split[OF assms(2)] st .
  note f = flat_erase_spec[OF this assms(4)[unfolded st], folded st, folded ranges_split[OF assms(2)]]
  show "wf (do_erase m it i)" "idx (do_erase m it i) = rank_outside {i} ` (idx m - {i})"
    using do_erase_flat[OF assms] f by (simp_all add: wf_def)
qed

lemma erase_beyond:
  assumes "split_at (ranges m) [] i"
  shows "rank_outside {i} ` (idx m - {i}) = idx m"
proof -
  have "\<forall>x \<in> idx m. x < i" using split_at_below[OF assms] by simp
  then have "idx m - {i} = idx m \<union> {}" by auto
  then show ?thesis using rank_outside_pos_split[of "idx m" i "{}"] \<open>\<forall>x \<in> idx m. x < i\<close> by simp
qed

lemma erase_at_spec:
  assumes w: "wf m"
  shows "wf (erase_at m i)" "idx (erase_at m i) = rank_outside {i} ` (idx m - {i})"
proof -
  note fs = find_spec[OF w, of i]
  have "wf (erase_at m i) \<and> idx (erase_at m i) = rank_outside {i} ` (idx m - {i})"
  proof (cases "at_end m (find m i)")
    case True
    then have "split_at (ranges m) [] i" using fs valid_it_endD[OF fs(1)] by auto
    with True show ?thesis using w erase_beyond by (simp add: erase_at_def)
  next
    case False
    then show ?thesis using do_erase_spec[OF w fs(1) False fs(2)] by (simp add: erase_at_def Let_def)
  qed
  then show "wf (erase_at m i)" "idx (erase_at m i) = rank_outside {i} ` (idx m - {i})" by blast+
qed


lemma unshift_chunks_spec:
  assumes "wf m" "valid_it m it" "snd it = 0" "\<forall>r \<in> set (before m it). snd r \<le> i"
    and "unshift_chunks m it i s = (it', s')"
    and "s = i - range_total (before m it)"
  shows "valid_it m it' \<and> (\<forall>r \<in> set (before m it'). snd r \<le> i) \<and> s' = i - range_total (before m it')"
  using assms
proof (induction m it i s arbitrary: it' s' rule: unshift_chunks.induct)
  case (1 m it i s)
  show ?case
  proof (cases "\<not> at_end m it \<and> chunk_end (m ! fst it) \<le> i")
    case True
    obtain k where k: "it = (k, 0)" using 1(4) by (cases it) auto
    have kl: "k < length m" using True k by (simp add: at_end_def)
    note cs = chunk_step[OF 1(2) kl]
    have nx: "it_next_chunk it = (Suc k, 0)" by (simp add: it_next_chunk_def k)
    have "unshift_chunks m (it_next_chunk it) i (s - chunk_count (m ! fst it)) = (it', s')"
      using 1(6) unfolding unshift_chunks.simps[of m it i s] if_P[OF True] .
    moreover have "\<forall>r \<in> set (before m (it_next_chunk it)). snd r \<le> i"
      using cs(2,3) True 1(5) nx k by force
    moreover have "s - chunk_count (m ! fst it) = i - range_total (before m (it_next_chunk it))"
      using 1(7) cs(2,4) nx k by simp
    ultimately show ?thesis
      by (intro 1(1)[OF True 1(2)]) (simp_all add: nx cs(5))
  next
    case False
    then have "it' = it" "s' = s"
      using 1(6) unfolding unshift_chunks.simps[of m it i s] if_not_P[OF False] by simp_all
    then show ?thesis using 1(3-7) by simp
  qed
qed

lemma unshift_ranges_spec:
  assumes "wf m" "valid_it m it" "\<forall>r \<in> set (before m it). snd r \<le> i"
    and "unshift_ranges m it i s = (it', s')"
    and "s = i - range_total (before m it)"
  shows "valid_it m it' \<and> split_at (before m it') (after m it') i \<and> s' = i - range_total (before m it')"
  using assms
proof (induction m it i s arbitrary: it' s' rule: unshift_ranges.induct)
  case (1 m it i s)
  note ok = wfD(1)[OF 1(2)]
  show ?case
  proof (cases "\<not> at_end m it \<and> snd (it_get m it) \<le> i")
    case True
    note st = it_next_step[OF ok 1(3) conjunct1[OF True]]
    have "unshift_ranges m (it_next m it) i (s - range_len (it_get m it)) = (it', s')"
      using 1(5) unfolding unshift_ranges.simps[of m it i s] if_P[OF True] .
    moreover have "\<forall>r \<in> set (before m (it_next m it)). snd r \<le> i"
      using st(2) True 1(4) by simp
    moreover have "s - range_len (it_get m it) = i - range_total (before m (it_next m it))"
      using 1(6) st(2) by simp
    ultimately show ?thesis by (intro 1(1)[OF True 1(2)]) (simp_all add: st(3))
  next
    case False
    then have r: "it' = it" "s' = s"
      using 1(5) unfolding unshift_ranges.simps[of m it i s] if_not_P[OF False] by simp_all
    show ?thesis
    proof (cases "at_end m it")
      case True
      then show ?thesis using 1(3,4,6) r at_end_iff by (simp add: split_at_def)
    next
      case ne: False
      show ?thesis using False ne r it_next_step(1)[OF ok 1(3) ne] 1(3,4,6) by (simp add: split_at_def)
    qed
  qed
qed

lemma split_at_rank:
  assumes "sep (B @ A)" "split_at B A i" "i \<notin> rset (B @ A)"
  shows "rank_outside (rset (B @ A)) i = i - range_total B"
proof -
  have "\<forall>r \<in> set A. i < fst r"
  proof (cases A)
    case (Cons a A')
    have "i < fst a" using assms split_at_mem[OF assms(2,1)] Cons by auto
    then show ?thesis using assms(1) Cons by auto
  qed simp
  then have "rset (B @ A) \<inter> {..<i} = rset B"
    using split_at_below[OF assms(2)] by (fastforce simp: rset_iff)
  moreover have "sep B" using assms(1) by simp
  ultimately show ?thesis by (simp add: rank_outside_def range_total_card)
qed

lemma erase_or_unshift_spec:
  assumes w: "wf m" and e: "erase_or_unshift m i = (m', s)"
  shows "wf m'" "idx m' = rank_outside {i} ` (idx m - {i})"
    "s = (if i \<in> idx m then npos else rank_outside (idx m) i)"
proof -
  note ok = wfD(1)[OF w]
  note b = it_begin_spec[OF ok]
  obtain it1 s1 where e1: "unshift_chunks m (it_begin m) i i = (it1, s1)"
    by (cases "unshift_chunks m (it_begin m) i i")
  obtain it2 s2 where e2: "unshift_ranges m it1 i s1 = (it2, s2)"
    by (cases "unshift_ranges m it1 i s1")
  have "snd (it_begin m) = 0" by (simp add: it_begin_def)
  note c = unshift_chunks_spec[OF w b(3) this _ e1, unfolded b(1,2)]
  then have v1: "valid_it m it1" "\<forall>r \<in> set (before m it1). snd r \<le> i"
    and "s1 = i - range_total (before m it1)" by simp_all
  note r = unshift_ranges_spec[OF w v1 e2 this(3)]
  have v2: "valid_it m it2" and sp: "split_at (before m it2) (after m it2) i"
    and s2: "s2 = i - range_total (before m it2)" using r by blast+
  note rs = ranges_split[OF v2]
  have sep: "sep (before m it2 @ after m it2)" using w rs by (simp add: wf_def)
  have sh: "s2 = rank_outside (idx m) i" if "i \<notin> idx m"
    using split_at_rank[OF sep sp] that s2 unfolding rs by simp
  have eq: "erase_or_unshift m i = (if at_end m it2 then (m, s2)
         else (do_erase m it2 i, if fst (it_get m it2) \<le> i then npos else s2))"
    by (simp add: erase_or_unshift_def e1 e2)
  have "wf m' \<and> idx m' = rank_outside {i} ` (idx m - {i}) \<and>
    s = (if i \<in> idx m then npos else rank_outside (idx m) i)"
  proof (cases "at_end m it2")
    case True
    then have "after m it2 = []" using at_end_iff[OF v2] by simp
    then have "split_at (ranges m) [] i" "i \<notin> idx m"
      using sp rs split_at_mem[OF sp sep] by simp_all
    then show ?thesis using eq e True w sh erase_beyond[of m i] by simp
  next
    case False
    note st = it_next_step(1)[OF ok v2 False]
    have "i \<in> idx m \<longleftrightarrow> fst (it_get m it2) \<le> i" using split_at_mem[OF sp sep] rs st by simp
    then show ?thesis using eq e False do_erase_spec[OF w v2 False sp] sh by auto
  qed
  then show "wf m'" "idx m' = rank_outside {i} ` (idx m - {i})"
    "s = (if i \<in> idx m then npos else rank_outside (idx m) i)" by blast+
qed

end
