(* ===== verification/Index_Set_Count.thy ===== *)
theory Index_Set_Count
  imports Index_Set_Laws
begin

text \<open>
  Removing a run of indices from an \<open>IndexSet\<close> without moving the others (the loop returns and
  removes exactly the run), resetting it to a prefix, and counting its members below or between
  positions, with the input on which \<open>count\<close> misses some.
\<close>

section \<open>Removing a run\<close>

definition flat_cut :: "range list \<Rightarrow> range \<Rightarrow> range list \<Rightarrow> nat \<Rightarrow> nat \<Rightarrow> range list" where
  "flat_cut B r A b e = B @ (if fst r < b then [(fst r, b)] else []) @
     (if e < snd r then [(e, snd r)] else []) @ A"

lemma flat_cut_spec:
  assumes s: "sep (B @ r # A)" and b: "fst r \<le> b" "b < snd r" "b < e" "fst r < e"
  shows "sep (flat_cut B r A b e)"
    "rset (flat_cut B r A b e) = rset (B @ r # A) - {b..<min e (snd r)}"
proof -
  have B: "\<forall>q \<in> set B. snd q < fst r" and A: "\<forall>q \<in> set A. snd r < fst q" using s by auto
  have "\<forall>q \<in> set B. \<forall>p \<in> set A. snd q < fst p" using s by simp
  then show "sep (flat_cut B r A b e)"
    using s b B A by (fastforce simp: flat_cut_def)
  have out: "rset B \<inter> {b..<min e (snd r)} = {}" "rset A \<inter> {b..<min e (snd r)} = {}"
    using B A b by (fastforce simp: rset_iff)+
  have "{fst r..<snd r} - {b..<min e (snd r)} = {fst r..<b} \<union> {e..<snd r}" using b by auto
  moreover have "rset (B @ r # A) - X = (rset B - X) \<union> ({fst r..<snd r} - X) \<union> (rset A - X)" for X
    by auto
  moreover have "rset B - {b..<min e (snd r)} = rset B" "rset A - {b..<min e (snd r)} = rset A"
    using out by blast+
  ultimately show "rset (flat_cut B r A b e) = rset (B @ r # A) - {b..<min e (snd r)}"
    using b by (auto simp: flat_cut_def)
qed

lemma do_remove_stop:
  assumes "it = find_from m b it0" "at_end m it \<or> \<not> fst (it_get m it) < e"
  shows "do_remove m it0 b e = Some (m, it)"
  using assms by (subst do_remove.simps) (simp add: Let_def)

lemma do_remove_step:
  assumes w: "wf m" and v: "valid_it m it" and ne: "\<not> at_end m it" and be: "b < e"
    and f: "it = find_from m b it0" and fe: "fst (it_get m it) < e" and sb: "b < snd (it_get m it)"
  defines "b' \<equiv> max (fst (it_get m it)) b"
  shows "\<exists>m1 it1. do_remove m it0 b e = do_remove m1 it1 b' e \<and> wf m1 \<and> valid_it m1 it1 \<and>
    before m1 it1 = before m it \<and> idx m1 = idx m - {b'..<min e (snd (it_get m it))}"
proof -
  note ok = wfD(1)[OF w]
  note st = it_next_step[OF ok v ne]
  define r B A where "r = it_get m it" and "B = before m it" and "A = after m (it_next m it)"
  have rs: "ranges m = B @ r # A" using ranges_split[OF v] st(1) by (simp add: r_def B_def A_def)
  then have s: "sep (B @ r # A)" using wfD(2)[OF w] by simp
  then have rl: "fst r < snd r" by simp
  have b': "fst r \<le> b'" "b' < snd r" "b' < e" "b' = max (fst r) b" using rl fe sb be by (auto simp: b'_def r_def)
  note fc = flat_cut_spec[OF s b'(1,2,3) fe[folded r_def], folded rs]
  have goal: "\<exists>m1 it1. do_remove m it0 b e = do_remove m1 it1 b' e \<and> wf m1 \<and> valid_it m1 it1 \<and>
    before m1 it1 = before m it \<and> idx m1 = idx m - {b'..<min e (snd (it_get m it))}"
    if "do_remove m it0 b e = do_remove m1 it1 b' e" "list_all chunk_ok m1" "valid_it m1 it1"
      "before m1 it1 = B" "ranges m1 = flat_cut B r A b' e" for m1 it1
    using that fc by (intro exI[of _ m1] exI[of _ it1]) (simp add: wf_def B_def r_def)
  have unf: "do_remove m it0 b e =
      (if fst r < b' \<and> snd r > e then
          (let (m2, it2) = crv_insert (it_set m it (fst r) b') (it_next (it_set m it (fst r) b') it) (e, snd r)
          in do_remove m2 (it_prev m2 it2) b' e)
        else if b' = fst r \<and> e \<ge> snd r then
          (let (m1, it1) = crv_erase m it in do_remove m1 it1 b' e)
        else if b' = fst r then do_remove (it_set m it e (snd r)) it b' e
        else do_remove (it_set m it (fst r) b') it b' e)"
    using ne fe by (subst do_remove.simps) (simp add: Let_def f[symmetric] r_def b'_def)
  show ?thesis
  proof (cases "fst r < b' \<and> snd r > e")
    case True
    define m1 where "m1 = it_set m it (fst r) b'"
    note ed = editsD[OF it_set_edits[OF ok v ne, of "fst r" b', folded m1_def]]
    obtain m2 it2 where e2: "crv_insert m1 (it_next m it) (e, snd r) = (m2, it2)"
      by (cases "crv_insert m1 (it_next m it) (e, snd r)")
    have bef: "before m1 (it_next m it) = B @ [(fst r, b')]" using ed(9) by (simp add: B_def)
    have aft: "after m1 (it_next m it) = A" using ed(10) st(1) by (simp add: A_def)
    have "sep ((B @ [(fst r, b')]) @ (e, snd r) # A)"
      using fc(1) True by (simp add: flat_cut_def)
    note ins = crv_insert_spec[OF ed(1,11) e2, unfolded bef aft, OF insert_crv_bounds[OF this]]
    note pv = it_prev_step[OF ins(1,2), unfolded ins(4)]
    have "do_remove m it0 b e = do_remove m2 (it_prev m2 it2) b' e"
      unfolding unf if_P[OF True] using e2 ed(7) by (simp add: m1_def)
    moreover have "before m2 (it_prev m2 it2) = B" using pv(1) by simp
    moreover have "ranges m2 = flat_cut B r A b' e"
      using ranges_split[OF ins(2)] ins(4,5) True by (simp add: flat_cut_def)
    ultimately show ?thesis using ins(1) pv(3) by (intro goal) simp_all
  next
    case n1: False
    show ?thesis
    proof (cases "b' = fst r \<and> e \<ge> snd r")
      case True
      obtain m1 it1 where e1: "crv_erase m it = (m1, it1)" by (cases "crv_erase m it")
      note er = crv_erase_spec[OF ok v ne e1]
      have "ranges m1 = flat_cut B r A b' e"
        using ranges_split[OF er(2)] er(3,4) st(1) True by (simp add: flat_cut_def B_def A_def)
      moreover have "do_remove m it0 b e = do_remove m1 it1 b' e"
        unfolding unf if_not_P[OF n1] if_P[OF True] by (simp add: e1)
      ultimately show ?thesis using er(1-3) by (intro goal) (simp_all add: B_def)
    next
      case n2: False
      show ?thesis
      proof (cases "b' = fst r")
        case True
        note ed = editsD[OF it_set_edits[OF ok v ne, of e "snd r"]]
        have "ranges (it_set m it e (snd r)) = flat_cut B r A b' e"
          using ranges_split[OF ed(3)] ed(5,6) st(1) True n2 by (simp add: flat_cut_def B_def A_def)
        moreover have "do_remove m it0 b e = do_remove (it_set m it e (snd r)) it b' e"
          unfolding unf if_not_P[OF n1] if_not_P[OF n2] using True by simp
        ultimately show ?thesis using ed(1,3,5) by (intro goal) (simp_all add: B_def)
      next
        case False
        then have lt: "fst r < b'" "snd r \<le> e" using b' n1 by auto
        note ed = editsD[OF it_set_edits[OF ok v ne, of "fst r" b']]
        have "ranges (it_set m it (fst r) b') = flat_cut B r A b' e"
          using ranges_split[OF ed(3)] ed(5,6) st(1) lt by (simp add: flat_cut_def B_def A_def)
        moreover have "do_remove m it0 b e = do_remove (it_set m it (fst r) b') it b' e"
          unfolding unf if_not_P[OF n1] if_not_P[OF n2] using False by simp
        ultimately show ?thesis using ed(1,3,5) by (intro goal) (simp_all add: B_def)
      qed
    qed
  qed
qed

lemma do_remove_spec:
  assumes "wf m" "valid_it m it" "\<forall>r \<in> set (before m it). snd r \<le> b" "b < e"
  shows "\<exists>m' it'. do_remove m it b e = Some (m', it') \<and> wf m' \<and> valid_it m' it' \<and>
    idx m' = idx m - {b..<e} \<and> (\<forall>r \<in> set (before m' it'). snd r \<le> e)"
  using assms
proof (induction "card (idx m \<inter> {b..<e})" arbitrary: m it b rule: less_induct)
  case less
  note ok = wfD(1)[OF less(2)]
  define it1 where "it1 = find_from m b it"
  note ff = find_from_spec[OF less(2-4), folded it1_def]
  note rs = ranges_split[OF ff(1)]
  have sp: "sep (before m it1 @ after m it1)" using wfD(2)[OF less(2)] rs by simp
  show ?case
  proof (cases "at_end m it1 \<or> \<not> fst (it_get m it1) < e")
    case True
    have "idx m \<inter> {b..<e} = {}"
    proof -
      have "\<forall>r \<in> set (after m it1). e \<le> fst r"
      proof (cases "at_end m it1")
        case False
        then have "e \<le> fst (hd (after m it1))"
          using True it_next_step(1)[OF ok ff(1) False] by simp
        then show ?thesis using sep_hd_bound[of "after m it1"] sp by fastforce
      qed (use at_end_iff[OF ff(1)] in simp)
      then have "\<And>x. x \<in> rset (after m it1) \<Longrightarrow> e \<le> x" by (fastforce simp: rset_iff)
      then show ?thesis using split_at_below[OF ff(2)] rs by force
    qed
    then have "idx m - {b..<e} = idx m" by blast
    moreover have "\<forall>r \<in> set (before m it1). snd r \<le> e"
      using ff(2) less(5) by (fastforce simp: split_at_def)
    moreover have "do_remove m it b e = Some (m, it1)"
      by (rule do_remove_stop[OF it1_def True])
    ultimately show ?thesis using less(2) ff(1) by blast
  next
    case False
    then have ne: "\<not> at_end m it1" and fe: "fst (it_get m it1) < e" by simp_all
    note st = it_next_step[OF ok ff(1) ne]
    define r where "r = it_get m it1"
    define b' where "b' = max (fst r) b"
    have sb: "b < snd r" using ff(2) st(1) by (simp add: split_at_def r_def)
    have rl: "fst r < snd r" using sp st(1) by (simp add: r_def)
    obtain m1 it2 where s1: "do_remove m it b e = do_remove m1 it2 b' e" "wf m1" "valid_it m1 it2"
      "before m1 it2 = before m it1" "idx m1 = idx m - {b'..<min e (snd r)}"
      using do_remove_step[OF less(2) ff(1) ne less(5) it1_def fe sb[unfolded r_def]]
      unfolding r_def b'_def by blast
    have b': "b \<le> b'" "b' < e" "b' < snd r" "fst r \<le> b'"
      using less(5) fe sb rl by (simp_all add: b'_def r_def)
    have mem: "b' \<in> idx m \<inter> {b..<e}" using rs st(1) b' by (simp add: r_def)
    have "idx m1 \<inter> {b'..<e} \<subset> idx m \<inter> {b..<e}"
    proof
      show "idx m1 \<inter> {b'..<e} \<subseteq> idx m \<inter> {b..<e}" using s1(5) b'(1) by auto
      have "b' \<notin> idx m1" using s1(5) b' by auto
      then show "idx m1 \<inter> {b'..<e} \<noteq> idx m \<inter> {b..<e}" using mem by blast
    qed
    then have "card (idx m1 \<inter> {b'..<e}) < card (idx m \<inter> {b..<e})" by (simp add: psubset_card_mono)
    moreover have "\<forall>q \<in> set (before m1 it2). snd q \<le> b'"
      using ff(2) s1(4) b'(1) by (fastforce simp: split_at_def)
    ultimately obtain m' it' where ih: "do_remove m1 it2 b' e = Some (m', it')" "wf m'" "valid_it m' it'"
      "idx m' = idx m1 - {b'..<e}" "\<forall>r \<in> set (before m' it'). snd r \<le> e"
      using less(1)[OF _ s1(2,3) _ b'(2)] by blast
    have gap: "idx m \<inter> {b..<b'} = {}"
    proof (rule ccontr)
      assume "idx m \<inter> {b..<b'} \<noteq> {}"
      then obtain x where x: "x \<in> idx m" "b \<le> x" "x < b'" by auto
      then have xr: "x < fst r" by (simp add: b'_def)
      have "x \<notin> rset (before m it1)" using x split_at_below[OF ff(2), of x] by auto
      then have "x \<in> rset (after m it1)" using rs x by simp
      then have "fst (hd (after m it1)) \<le> x"
        using sp sep_hd_bound[of "after m it1"] by (fastforce simp: rset_iff)
      then show False using xr st(1) by (simp add: r_def)
    qed
    have "idx m' = idx m - {b..<e}"
    proof (intro equalityI subsetI)
      fix x assume "x \<in> idx m'" then show "x \<in> idx m - {b..<e}"
        using ih(4) s1(5) gap by (cases "x < b'") auto
    next
      fix x assume "x \<in> idx m - {b..<e}" then show "x \<in> idx m'"
        using ih(4) s1(5) b'(1) by auto
    qed
    then show ?thesis using ih(1-3,5) s1(1) by auto
  qed
qed

lemma remove_run_spec:
  assumes w: "wf m" and n: "0 < n"
  shows "\<exists>m'. remove_run m i n = Some m' \<and> wf m' \<and> idx m' = idx m - {i..<i + n}"
proof -
  note fs = find_spec[OF w, of i]
  have "\<forall>r \<in> set (before m (find m i)). snd r \<le> i" using fs(2) by (simp add: split_at_def)
  from do_remove_spec[OF w fs(1) this, of "i + n"] n
  show ?thesis by (auto simp: remove_run_def)
qed

lemma set_len_spec: "wf (set_len m n)" "idx (set_len m n) = {..<n}"
  using crv_push_back_spec[of "[]" "(0, n)"]
  by (auto simp: set_len_def wf_def atLeast0LessThan)

section \<open>Counting\<close>

abbreviation below :: "range list \<Rightarrow> nat \<Rightarrow> nat" where
  "below A e \<equiv> card (rset A \<inter> {..<e})"

lemma below_Cons:
  assumes "sep (r # A)"
  shows "below (r # A) e = (min (snd r) e - fst r) + below A e"
proof -
  have "rset (r # A) \<inter> {..<e} = {fst r..<min (snd r) e} \<union> (rset A \<inter> {..<e})" by auto
  moreover have "{fst r..<min (snd r) e} \<inter> (rset A \<inter> {..<e}) = {}"
    using assms by (fastforce simp: rset_iff)
  ultimately show ?thesis by (simp add: card_Un_disjoint)
qed

lemma below_zero:
  assumes "sep A" "A \<noteq> [] \<Longrightarrow> e \<le> fst (hd A)"
  shows "below A e = 0"
proof -
  have "rset A \<inter> {..<e} = {}"
    using assms sep_hd_bound[OF assms(1)] by (cases A) (fastforce simp: rset_iff)+
  then show ?thesis by simp
qed

lemma below_full:
  "sep (d @ R) \<Longrightarrow> \<forall>r \<in> set d. snd r \<le> e \<Longrightarrow> below (d @ R) e = range_total d + below R e"
proof (induction d)
  case (Cons r d)
  then show ?case using below_Cons[of r "d @ R" e] by simp
qed simp

lemma count_chunks_spec:
  assumes "wf m" "valid_it m it" "snd it = 0" "count_chunks m it e ret = (it', ret')"
  shows "valid_it m it' \<and> snd it' = 0 \<and> ret' + below (after m it') e = ret + below (after m it) e"
  using assms
proof (induction m it e ret arbitrary: it' ret' rule: count_chunks.induct)
  case (1 m it e ret)
  show ?case
  proof (cases "\<not> at_end m it \<and> chunk_end (m ! fst it) \<le> e")
    case True
    obtain k where k: "it = (k, 0)" using 1(4) by (cases it) auto
    have kl: "k < length m" using True k by (simp add: at_end_def)
    note cs = chunk_step[OF 1(2) kl]
    have nx: "it_next_chunk it = (Suc k, 0)" by (simp add: it_next_chunk_def k)
    have sp: "sep (chunk_data (m ! k) @ after m (Suc k, 0))"
      using wf_before_after(2)[OF 1(2,3)] k cs(1) by simp
    have "\<forall>r \<in> set (chunk_data (m ! k)). snd r \<le> e" using cs(3) True k by force
    note bf = below_full[OF sp this]
    have "count_chunks m (it_next_chunk it) e (ret + chunk_count (m ! fst it)) = (it', ret')"
      using 1(5) unfolding count_chunks.simps[of m it e ret] if_P[OF True] .
    then have "valid_it m it' \<and> snd it' = 0 \<and> ret' + below (after m it') e =
      ret + chunk_count (m ! fst it) + below (after m (it_next_chunk it)) e"
      by (intro 1(1)[OF True 1(2)]) (simp_all add: nx cs(5))
    then show ?thesis using bf cs(1,4) nx k by simp
  next
    case False
    then have "it' = it" "ret' = ret"
      using 1(5) unfolding count_chunks.simps[of m it e ret] if_not_P[OF False] by simp_all
    then show ?thesis using 1(3,4) by simp
  qed
qed

lemma count_ranges_spec:
  assumes "wf m" "valid_it m it" "count_ranges m it e ret = (it', ret')"
  shows "valid_it m it' \<and> (\<not> at_end m it' \<longrightarrow> e < snd (it_get m it')) \<and>
    ret' + below (after m it') e = ret + below (after m it) e"
  using assms
proof (induction m it e ret arbitrary: it' ret' rule: count_ranges.induct)
  case (1 m it e ret)
  note ok = wfD(1)[OF 1(2)]
  show ?case
  proof (cases "\<not> at_end m it \<and> snd (it_get m it) \<le> e")
    case True
    note st = it_next_step[OF ok 1(3) conjunct1[OF True]]
    have bc: "below (after m it) e = range_len (it_get m it) + below (after m (it_next m it)) e"
      using below_Cons[of "it_get m it" "after m (it_next m it)" e] wf_before_after(2)[OF 1(2,3)] st(1) True
      by simp
    have "count_ranges m (it_next m it) e (ret + range_len (it_get m it)) = (it', ret')"
      using 1(4) unfolding count_ranges.simps[of m it e ret] if_P[OF True] .
    note ih = 1(1)[OF True 1(2) st(3) this]
    then show ?thesis unfolding bc by simp
  next
    case False
    then have "it' = it" "ret' = ret"
      using 1(4) unfolding count_ranges.simps[of m it e ret] if_not_P[OF False] by simp_all
    then show ?thesis using 1(3) False by auto
  qed
qed

lemma count_tail_spec:
  assumes w: "wf m" and v: "valid_it m it" and o: "snd it = 0"
  shows "count_tail m it e ret = ret + below (after m it) e"
proof -
  obtain it1 r1 where e1: "count_chunks m it e ret = (it1, r1)" by (cases "count_chunks m it e ret")
  obtain it2 r2 where e2: "count_ranges m it1 e r1 = (it2, r2)" by (cases "count_ranges m it1 e r1")
  note c = count_chunks_spec[OF w v o e1]
  note d = count_ranges_spec[OF w conjunct1[OF c] e2]
  have v2: "valid_it m it2" using d by simp
  have "below (after m it2) e = (if \<not> at_end m it2 \<and> fst (it_get m it2) < e then e - fst (it_get m it2) else 0)"
  proof (cases "at_end m it2")
    case True
    then have "after m it2 = []" using at_end_iff[OF v2] by simp
    then show ?thesis using True by simp
  next
    case False
    note st = it_next_step(1)[OF wfD(1)[OF w] v2 False]
    have sp: "sep (it_get m it2 # after m (it_next m it2))" using wf_before_after(2)[OF w v2] st by simp
    have lt: "e < snd (it_get m it2)" using d False by simp
    have "below (after m (it_next m it2)) e = 0"
    proof (rule below_zero)
      show "sep (after m (it_next m it2))" using sp by simp
      assume "after m (it_next m it2) \<noteq> []"
      then have "snd (it_get m it2) < fst (hd (after m (it_next m it2)))" using sp by simp
      then show "e \<le> fst (hd (after m (it_next m it2)))" using lt by simp
    qed
    then show ?thesis using below_Cons[OF sp, of e] lt st False by simp
  qed
  then have "count_tail m it e ret = r2 + below (after m it2) e"
    by (simp add: count_tail_def e1 e2)
  then show ?thesis using c d by simp
qed

text \<open>Counting from position 0 is exact, which is all \<open>unshift\<close> needs.\<close>

lemma count_zero_spec:
  assumes w: "wf m"
  shows "count m 0 e = card (idx m \<inter> {..<e})"
proof -
  note ok = wfD(1)[OF w]
  note fs = find_spec[OF w, of 0]
  have "before m (find m 0) = []"
  proof (rule ccontr)
    assume "before m (find m 0) \<noteq> []"
    then obtain r where "r \<in> set (before m (find m 0))" "snd r = 0"
      using fs(2) by (cases "before m (find m 0)") (auto simp: split_at_def)
    then show False using sep_nonempty[OF wf_before_after(1)[OF w fs(1)]] by fastforce
  qed
  then have fb: "find m 0 = it_begin m" using it_is_begin[OF ok fs(1)] by simp
  have o: "snd (it_begin m) = 0" by (simp add: it_begin_def)
  note b = it_begin_spec[OF ok]
  show ?thesis
  proof (cases "at_end m (it_begin m)")
    case True
    then have "idx m = {}" using at_end_iff[OF b(3)] b(2) by simp
    then show ?thesis using True by (simp add: count_def fb)
  next
    case False
    let ?r = "it_get m (it_begin m)" and ?A = "after m (it_next m (it_begin m))"
    have rs: "ranges m = ?r # ?A" using it_next_step(1)[OF ok b(3) False] b(2) by simp
    have sp: "sep (?r # ?A)" using wfD(2)[OF w] rs by simp
    note bc = below_Cons[OF sp, of e, folded rs]
    have z: "below ?A e = 0" if "e \<le> snd ?r"
    proof (rule below_zero)
      assume "?A \<noteq> []"
      then have "snd ?r < fst (hd ?A)" using sp by simp
      then show "e \<le> fst (hd ?A)" using that by simp
    qed (use sp in simp)
    show ?thesis
    proof (cases "e \<le> snd ?r")
      case True
      then show ?thesis using False bc z o sp by (auto simp: count_def fb Let_def)
    next
      case nle: False
      have "count m 0 e = count_tail m (it_begin m) e 0"
        using False nle o sp by (simp add: count_def fb Let_def)
      then show ?thesis using count_tail_spec[OF w b(3) o, of e 0] b(2) by simp
    qed
  qed
qed

lemma unshift_spec:
  assumes "wf m"
  shows "unshift m i = rank_outside (idx m) i"
  using count_zero_spec[OF assms, of i] card_below_le[of "idx m" i]
  by (simp add: unshift_def rank_outside_def)


text \<open>
  Counting between two positions.  The rest of the chunk in which the start lies is counted first;
  \<open>count\<close> is exact unless the end falls into the first range of a later chunk.
\<close>

definition count_safe :: "crv \<Rightarrow> size \<Rightarrow> bool" where
  "count_safe m e \<longleftrightarrow>
     list_all (\<lambda>c. fst (hd (chunk_data c)) < e \<longrightarrow> snd (hd (chunk_data c)) < e) (tl m)"

lemma count_within_spec:
  assumes "wf m" "valid_it m it" "count_within m it e ret = (it', ret')"
  shows "valid_it m it' \<and> (at_end m it' \<or> e \<le> snd (it_get m it') \<or> snd it' = 0) \<and>
    length (before m it) \<le> length (before m it') \<and>
    ret' + below (after m it') e = ret + below (after m it) e"
  using assms
proof (induction m it e ret arbitrary: it' ret' rule: count_within.induct)
  case (1 m it e ret)
  note ok = wfD(1)[OF 1(2)]
  show ?case
  proof (cases "\<not> at_end m it \<and> snd (it_get m it) < e \<and> snd it \<noteq> 0")
    case True
    note st = it_next_step[OF ok 1(3) conjunct1[OF True]]
    have bc: "below (after m it) e = range_len (it_get m it) + below (after m (it_next m it)) e"
      using below_Cons[of "it_get m it" "after m (it_next m it)" e] wf_before_after(2)[OF 1(2,3)] st(1) True
      by simp
    have "count_within m (it_next m it) e (ret + range_len (it_get m it)) = (it', ret')"
      using 1(4) unfolding count_within.simps[of m it e ret] if_P[OF True] .
    note ih = 1(1)[OF True 1(2) st(3) this]
    then show ?thesis using st(2) unfolding bc by simp
  next
    case False
    then have "it' = it" "ret' = ret"
      using 1(4) unfolding count_within.simps[of m it e ret] if_not_P[OF False] by simp_all
    then show ?thesis using 1(3) False by auto
  qed
qed

lemma below_ge_end:
  assumes "sep (r # A)" "e \<le> snd r"
  shows "below (r # A) e = (if fst r < e then e - fst r else 0)"
proof -
  have "below A e = 0"
  proof (rule below_zero)
    show "sep A" using assms(1) by simp
    assume "A \<noteq> []"
    then have "snd r < fst (hd A)" using assms(1) by simp
    then show "e \<le> fst (hd A)" using assms(2) by simp
  qed
  then show ?thesis using below_Cons[OF assms(1), of e] assms(2) by simp
qed

lemma count_between:
  assumes w: "wf m" and se: "s \<le> e"
  shows "idx m \<inter> {s..<e} = (rset (after m (find m s)) \<inter> {..<e}) \<inter> {s..}"
  using find_spec[OF w, of s] ranges_split[OF find_spec(1)[OF w, of s]] split_at_below
  by fastforce

lemma count_start:
  assumes w: "wf m" and se: "s \<le> e" and ne: "\<not> at_end m (find m s)"
    and lt: "snd (it_get m (find m s)) < e"
  shows "card (idx m \<inter> {s..<e}) = (snd (it_get m (find m s)) - max (fst (it_get m (find m s))) s) +
    below (after m (it_next m (find m s))) e"
proof -
  note fs = find_spec[OF w, of s]
  let ?r = "it_get m (find m s)" and ?A = "after m (it_next m (find m s))"
  note st = it_next_step(1)[OF wfD(1)[OF w] fs(1) ne]
  have sp: "sep (?r # ?A)" using wf_before_after(2)[OF w fs(1)] st by simp
  have sr: "s < snd ?r" using fs(2) st by (simp add: split_at_def)
  have A: "x > snd ?r" if "x \<in> rset ?A" for x using that sp by (fastforce simp: rset_iff)
  have "idx m \<inter> {s..<e} = {max (fst ?r) s..<snd ?r} \<union> (rset ?A \<inter> {..<e})"
    unfolding count_between[OF w se] st using lt sr A by fastforce
  moreover have "{max (fst ?r) s..<snd ?r} \<inter> (rset ?A \<inter> {..<e}) = {}" using A by fastforce
  ultimately show ?thesis by (simp add: card_Un_disjoint)
qed

lemma count_early:
  assumes w: "wf m" and se: "s \<le> e" and ne: "\<not> at_end m (find m s)"
    and le: "e \<le> snd (it_get m (find m s))"
  shows "card (idx m \<inter> {s..<e}) = e - max (fst (it_get m (find m s))) s"
proof -
  note fs = find_spec[OF w, of s]
  let ?r = "it_get m (find m s)" and ?A = "after m (it_next m (find m s))"
  note st = it_next_step(1)[OF wfD(1)[OF w] fs(1) ne]
  have sp: "sep (?r # ?A)" using wf_before_after(2)[OF w fs(1)] st by simp
  have A: "x > snd ?r" if "x \<in> rset ?A" for x using that sp by (fastforce simp: rset_iff)
  have "idx m \<inter> {s..<e} = {max (fst ?r) s..<e}"
    unfolding count_between[OF w se] st using le A by fastforce
  then show ?thesis by simp
qed

lemma count_spec:
  assumes w: "wf m" and se: "s \<le> e" and safe: "count_safe m e"
  shows "count m s e = card (idx m \<inter> {s..<e})"
proof -
  note ok = wfD(1)[OF w]
  note fs = find_spec[OF w, of s]
  let ?it = "find m s"
  show ?thesis
  proof (cases "at_end m ?it")
    case True
    then have "after m ?it = []" using at_end_iff[OF fs(1)] by simp
    then show ?thesis using True count_between[OF w se] by (simp add: count_def)
  next
    case ne: False
    let ?r = "it_get m ?it"
    note st = it_next_step[OF ok fs(1) ne]
    have sp: "sep (?r # after m (it_next m ?it))" using wf_before_after(2)[OF w fs(1)] st(1) by simp
    have sr: "s < snd ?r" using fs(2) st(1) by (simp add: split_at_def)
    show ?thesis
    proof (cases "e \<le> snd ?r")
      case True
      then show ?thesis using count_early[OF w se ne True] ne se
        by (auto simp: count_def Let_def max_def)
    next
      case nle: False
      then have lt: "snd ?r < e" by simp
      note cs = count_start[OF w se ne lt]
      have nz: "\<not> (at_end m ?it \<or> e \<le> fst ?r)" using ne lt sp by auto
      show ?thesis
      proof (cases "fst ?r < s \<or> snd ?it \<noteq> 0")
        case False
        then have "count m s e = count_tail m ?it e 0"
          using nz nle by (simp add: count_def Let_def)
        then have "count m s e = below (after m ?it) e"
          using count_tail_spec[OF w fs(1)] False by simp
        also have "\<dots> = range_len ?r + below (after m (it_next m ?it)) e"
          unfolding st(1) using below_Cons[OF sp, of e] lt by simp
        finally show ?thesis using cs False by (auto simp: max_def)
      next
        case True
        define r0 where "r0 = snd ?r - max (fst ?r) s"
        obtain it1 r1 where e1: "count_within m (it_next m ?it) e r0 = (it1, r1)"
          by (cases "count_within m (it_next m ?it) e r0")
        note cw = count_within_spec[OF w st(3) e1]
        have v1: "valid_it m it1" using cw by simp
        have eq: "count m s e = (let ret = (if \<not> at_end m it1 \<and> fst (it_get m it1) < e \<and> snd it1 \<noteq> 0
                then r1 + (e - fst (it_get m it1)) else r1)
            in if at_end m it1 \<or> e \<le> snd (it_get m it1) then ret else count_tail m it1 e ret)"
          using nz nle True e1 by (simp add: count_def Let_def r0_def)
        have "count m s e = r1 + below (after m it1) e"
        proof (cases "at_end m it1")
          case True
          then show ?thesis using eq at_end_iff[OF v1] by simp
        next
          case ne1: False
          note st1 = it_next_step(1)[OF ok v1 ne1]
          have sp1: "sep (it_get m it1 # after m (it_next m it1))" using wf_before_after(2)[OF w v1] st1 by simp
          show ?thesis
          proof (cases "e \<le> snd (it_get m it1)")
            case le1: True
            have "\<not> (fst (it_get m it1) < e \<and> snd it1 = 0)"
            proof
              assume a: "fst (it_get m it1) < e \<and> snd it1 = 0"
              have k: "fst it1 < length m" using ne1 by (simp add: at_end_def)
              then have g: "it_get m it1 = hd (chunk_data (m ! fst it1))"
                using a ok by (auto simp: it_get_def hd_conv_nth list_all_length chunk_ok_def)
              have "0 < fst it1"
              proof (rule ccontr)
                assume "\<not> 0 < fst it1"
                then have "it1 = it_begin m" using a ne1 by (auto simp: it_begin_def at_end_def prod_eq_iff)
                then have "before m it1 = []" using it_begin_spec[OF ok] by simp
                then show False using cw st(2) by simp
              qed
              then have "m ! fst it1 \<in> set (tl m)" using k by (cases m) (auto simp: nth_Cons')
              then show False using safe a g le1 by (auto simp: count_safe_def list_all_iff)
            qed
            then show ?thesis using eq ne1 le1 below_ge_end[OF sp1 le1] st1 by (auto simp: Let_def)
          next
            case False
            then have "snd it1 = 0" using cw ne1 by simp
            then show ?thesis using eq ne1 False count_tail_spec[OF w v1, of e r1] by simp
          qed
        qed
        then show ?thesis using cw cs by (simp add: r0_def)
      qed
    qed
  qed
qed

end
