(* ===== verification/Range_Builder.thy ===== *)
theory Range_Builder
  imports Index_Set_Count
begin

text \<open>
  \<open>ChunkedRangeVectorBuilder\<close> of \<open>index_set.cpp\<close>: it fills a vector of pre-allocated chunks with
  indices or ranges in increasing order and hands the chunks over.  The structure it builds is
  always right; the cached count of the chunk that is created when the pre-allocated chunks are
  exhausted is right only when that chunk is started with a single index.
\<close>

section \<open>The builder\<close>

record builder =
  b_data :: "chunk list"
  b_outer :: nat

definition empty_chunk :: chunk where
  "empty_chunk = \<lparr>chunk_data = [], chunk_begin = 0, chunk_end = 0, chunk_count = 0\<rparr>"

definition builder_init :: "crv \<Rightarrow> builder" where
  "builder_init expected =
     (let size = (\<Sum>c\<leftarrow>expected. length (chunk_data c)) in
      \<lparr>b_data = replicate (size div max_size + 1) empty_chunk, b_outer = 0\<rparr>)"

definition builder_push :: "builder \<Rightarrow> range \<Rightarrow> builder" where
  "builder_push b r =
     (let k = b_outer b; c = b_data b ! k; d = chunk_data c; len = snd r - fst r in
      if d = [] then
        b\<lparr>b_data := (b_data b)[k := c\<lparr>chunk_data := [r], chunk_count := len, chunk_begin := fst r\<rparr>]\<rparr>
      else if fst r = snd (last d) then
        b\<lparr>b_data := (b_data b)[k := c\<lparr>chunk_data := butlast d @ [(fst (last d), snd r)],
            chunk_count := chunk_count c + len\<rparr>]\<rparr>
      else if length d < max_size then
        b\<lparr>b_data := (b_data b)[k := c\<lparr>chunk_data := d @ [r], chunk_count := chunk_count c + len\<rparr>]\<rparr>
      else
        let data = (b_data b)[k := c\<lparr>chunk_end := snd (last d)\<rparr>] in
        if length data \<le> k + 1 then
          \<lparr>b_data = data @ [\<lparr>chunk_data = [r], chunk_begin = fst r, chunk_end = 0, chunk_count = 1\<rparr>],
            b_outer = k + 1\<rparr>
        else
          let n = data ! (k + 1) in
          \<lparr>b_data = data[k + 1 := n\<lparr>chunk_data := chunk_data n @ [r], chunk_begin := fst r,
              chunk_count := len\<rparr>], b_outer = k + 1\<rparr>)"

definition builder_push_index :: "builder \<Rightarrow> size \<Rightarrow> builder" where
  "builder_push_index b i = builder_push b (i, i + 1)"

definition builder_finalize :: "builder \<Rightarrow> crv" where
  "builder_finalize b =
     (if b_data b = [] then []
      else let data = take (b_outer b + 1) (b_data b); c = last data in
        if chunk_data c = [] then butlast data
        else butlast data @ [c\<lparr>chunk_end := snd (last (chunk_data c))\<rparr>])"

section \<open>What the builder holds\<close>

definition chunk_shaped :: "chunk \<Rightarrow> bool" where
  "chunk_shaped c \<longleftrightarrow> chunk_data c \<noteq> [] \<and> length (chunk_data c) \<le> max_size \<and>
     chunk_begin c = fst (hd (chunk_data c))"

definition count_right :: "chunk \<Rightarrow> bool" where
  "count_right c \<longleftrightarrow> chunk_count c = range_total (chunk_data c)"

definition end_right :: "chunk \<Rightarrow> bool" where
  "end_right c \<longleftrightarrow> chunk_end c = snd (last (chunk_data c))"

lemma chunk_ok_parts: "chunk_ok c \<longleftrightarrow> chunk_shaped c \<and> count_right c \<and> end_right c"
  by (auto simp: chunk_ok_def chunk_shaped_def count_right_def end_right_def)

text \<open>
  \<open>holds b full c free\<close>: the chunks before the current one are full, the ones after it are empty.
\<close>

definition holds :: "builder \<Rightarrow> chunk list \<Rightarrow> chunk \<Rightarrow> chunk list \<Rightarrow> bool" where
  "holds b full c free \<longleftrightarrow> b_data b = full @ c # free \<and> b_outer b = length full \<and>
     (\<forall>x \<in> set full. chunk_shaped x \<and> end_right x \<and> length (chunk_data x) = max_size) \<and>
     (chunk_data c = [] \<and> full = [] \<or> chunk_shaped c) \<and> (\<forall>x \<in> set free. x = empty_chunk)"

definition builder_ok :: "builder \<Rightarrow> bool" where
  "builder_ok b \<longleftrightarrow> (\<exists>full c free. holds b full c free)"

definition built :: "builder \<Rightarrow> range list" where
  "built b = ranges (b_data b)"

definition counts_right :: "builder \<Rightarrow> bool" where
  "counts_right b \<longleftrightarrow> (\<forall>c \<in> set (b_data b). count_right c)"

definition builder_cap :: "builder \<Rightarrow> nat" where
  "builder_cap b = max_size * length (b_data b)"

lemma empty_chunk_simps [simp]:
  "chunk_data empty_chunk = []" "count_right empty_chunk"
  by (simp_all add: empty_chunk_def count_right_def)

lemma builder_init_ok:
  "builder_ok (builder_init m)" "built (builder_init m) = []" "counts_right (builder_init m)"
proof -
  define n where "n = (\<Sum>c\<leftarrow>m. length (chunk_data c)) div max_size"
  have "b_data (builder_init m) = empty_chunk # replicate n empty_chunk" "b_outer (builder_init m) = 0"
    by (simp_all add: builder_init_def n_def Let_def)
  then show "builder_ok (builder_init m)" "built (builder_init m) = []" "counts_right (builder_init m)"
    unfolding builder_ok_def holds_def built_def counts_right_def
    by (auto simp: ranges_def intro!: exI[of _ "[]"])
qed

lemma length_ranges: "length (ranges m) = (\<Sum>c\<leftarrow>m. length (chunk_data c))"
  by (induction m) simp_all

lemma builder_init_cap: "length (ranges m) < builder_cap (builder_init m)"
proof -
  have "length (ranges m) < max_size + max_size * (length (ranges m) div max_size)"
    by (rule dividend_less_times_div) (simp add: max_size_val)
  then show ?thesis by (simp add: builder_cap_def builder_init_def Let_def length_ranges)
qed

text \<open>The flat counterpart of \<open>push_back\<close>: a range that starts where the last one ends extends it.\<close>

definition flat_push :: "range list \<Rightarrow> range \<Rightarrow> range list" where
  "flat_push L r = (if L \<noteq> [] \<and> fst r = snd (last L) then butlast L @ [(fst (last L), snd r)] else L @ [r])"

lemma flat_push_sep:
  assumes "sep L" "fst r < snd r" "\<forall>q \<in> set L. snd q \<le> fst r"
  shows "sep (flat_push L r)" "rset (flat_push L r) = rset L \<union> {fst r..<snd r}"
    "\<forall>q \<in> set (flat_push L r). snd q \<le> snd r"
proof -
  have "sep (flat_push L r) \<and> rset (flat_push L r) = rset L \<union> {fst r..<snd r} \<and>
    (\<forall>q \<in> set (flat_push L r). snd q \<le> snd r)"
  proof (cases L rule: rev_cases)
    case Nil
    then show ?thesis using assms by (simp add: flat_push_def)
  next
    case (snoc C q)
    show ?thesis
    proof (cases "fst r = snd q")
      case True
      then have "flat_push L r = C @ [(fst q, snd r)]" using snoc by (simp add: flat_push_def)
      moreover have "{fst q..<snd q} \<union> {fst r..<snd r} = {fst q..<snd r}"
        using True assms snoc by auto
      moreover have "\<forall>p \<in> set C. snd p \<le> snd r" using assms snoc by fastforce
      ultimately show ?thesis using assms snoc True by (simp add: Un_assoc)
    next
      case False
      then have e: "flat_push L r = L @ [r]" using snoc by (simp add: flat_push_def)
      have "snd q < fst r" using False assms(3) snoc by force
      moreover have "snd p \<le> snd q" if "p \<in> set L" for p
        using sep_last_bound[OF assms(1) that] snoc by simp
      ultimately have "snd p < fst r" if "p \<in> set L" for p using that by fastforce
      then show ?thesis using e assms by fastforce
    qed
  qed
  then show "sep (flat_push L r)" "rset (flat_push L r) = rset L \<union> {fst r..<snd r}"
    "\<forall>q \<in> set (flat_push L r). snd q \<le> snd r" by blast+
qed

lemma flat_push_length: "length (flat_push L r) \<le> Suc (length L)"
  by (simp add: flat_push_def)

lemma holds_flat:
  assumes "holds b full c free"
  shows "built b = ranges full @ chunk_data c" "length (ranges full) = max_size * length full"
    "b_data b ! b_outer b = c" "length (chunk_data c) \<le> max_size"
proof -
  note h = assms[unfolded holds_def]
  have "\<forall>x \<in> set free. x = empty_chunk" using h by simp
  then have "ranges free = []" by (induction free) auto
  then show "built b = ranges full @ chunk_data c" using h by (simp add: built_def)
  have "\<forall>x \<in> set full. length (chunk_data x) = max_size" using h by simp
  then show "length (ranges full) = max_size * length full" by (induction full) simp_all
  show "b_data b ! b_outer b = c" using h by simp
  show "length (chunk_data c) \<le> max_size" using h by (auto simp: chunk_shaped_def)
qed

text \<open>Pushing keeps the structure; it keeps the counts unless it overflows with a long range.\<close>

lemma builder_push_step:
  assumes h: "holds b full c free"
  shows "\<exists>full' c' free'. holds (builder_push b r) full' c' free' \<and>
    ranges full' @ chunk_data c' = flat_push (ranges full @ chunk_data c) r \<and>
    (fst r \<le> snd r \<and> (\<forall>q \<in> set (built b). fst q \<le> snd q) \<and> counts_right b \<and> (snd r = fst r + 1 \<or> length (built b) < builder_cap b) \<longrightarrow>
      counts_right (builder_push b r)) \<and> builder_cap b \<le> builder_cap (builder_push b r)"
proof -
  note hd = h[unfolded holds_def]
  note fl = holds_flat[OF h]
  let ?d = "chunk_data c" and ?len = "snd r - fst r"
  have data: "b_data b = full @ c # free" and out: "b_outer b = length full" using hd by simp_all
  have cc: "counts_right b \<Longrightarrow> chunk_count c = range_total ?d" using data by (simp add: counts_right_def count_right_def)
  show ?thesis
  proof (cases "?d = []")
    case True
    define c' where "c' = c\<lparr>chunk_data := [r], chunk_count := ?len, chunk_begin := fst r\<rparr>"
    have nf: "full = []" using hd True by (auto simp: chunk_shaped_def)
    have e: "builder_push b r = b\<lparr>b_data := full @ c' # free\<rparr>"
      using True data out by (simp add: builder_push_def c'_def Let_def)
    have "holds (builder_push b r) full c' free"
      unfolding e holds_def using hd by (simp add: c'_def chunk_shaped_def max_size_val)
    then show ?thesis
      using True nf data
      by (intro exI[of _ full] exI[of _ c'] exI[of _ free])
        (auto simp: e flat_push_def c'_def counts_right_def count_right_def builder_cap_def)
  next
    case ne: False
    then have sc: "chunk_shaped c" using hd by simp
    have last: "ranges full @ ?d \<noteq> []" "last (ranges full @ ?d) = last ?d" using ne by simp_all
    show ?thesis
    proof (cases "fst r = snd (last ?d)")
      case True
      define c' where "c' = c\<lparr>chunk_data := butlast ?d @ [(fst (last ?d), snd r)], chunk_count := chunk_count c + ?len\<rparr>"
      have e: "builder_push b r = b\<lparr>b_data := full @ c' # free\<rparr>"
        using True ne data out by (simp add: builder_push_def c'_def Let_def)
      have hb: "fst (hd (butlast ?d @ [(fst (last ?d), snd r)])) = fst (hd ?d)"
        using ne by (cases ?d rule: rev_cases) (auto simp: hd_append)
      have "holds (builder_push b r) full c' free"
        unfolding e holds_def using hd sc hb ne by (simp add: c'_def chunk_shaped_def)
      moreover have "ranges full @ chunk_data c' = flat_push (ranges full @ ?d) r"
        using True last ne by (simp add: flat_push_def c'_def butlast_append)
      moreover have "counts_right (builder_push b r)" if a: "fst r \<le> snd r" "counts_right b" "\<forall>q \<in> set (built b). fst q \<le> snd q"
      proof -
        obtain C q where C: "?d = C @ [q]" using ne by (cases ?d rule: rev_cases) auto
        have "fst q \<le> snd q" using a(3) fl(1) C by simp
        then show ?thesis
          using a cc[OF a(2)] data C True
          by (auto simp: e counts_right_def count_right_def c'_def)
      qed
      moreover have "builder_cap b \<le> builder_cap (builder_push b r)" using data by (simp add: e builder_cap_def)
      ultimately show ?thesis by blast
    next
      case na: False
      have fp: "flat_push (ranges full @ ?d) r = ranges full @ ?d @ [r]"
        using na last by (simp add: flat_push_def)
      show ?thesis
      proof (cases "length ?d < max_size")
        case True
        define c' where "c' = c\<lparr>chunk_data := ?d @ [r], chunk_count := chunk_count c + ?len\<rparr>"
        have e: "builder_push b r = b\<lparr>b_data := full @ c' # free\<rparr>"
          using True ne na data out by (simp add: builder_push_def c'_def Let_def)
        have "holds (builder_push b r) full c' free"
          unfolding e holds_def using hd sc True ne by (simp add: c'_def chunk_shaped_def)
        moreover have "counts_right b \<Longrightarrow> counts_right (builder_push b r)"
          using cc data by (auto simp: e counts_right_def count_right_def c'_def)
        moreover have "builder_cap b \<le> builder_cap (builder_push b r)" using data by (simp add: e builder_cap_def)
        moreover have "ranges full @ chunk_data c' = flat_push (ranges full @ ?d) r" using fp by (simp add: c'_def)
        ultimately show ?thesis by blast
      next
        case False
        then have full: "length ?d = max_size" using fl(4) by simp
        define c1 where "c1 = c\<lparr>chunk_end := snd (last ?d)\<rparr>"
        have c1: "chunk_shaped c1" "end_right c1" "chunk_data c1 = ?d"
          using sc by (simp_all add: c1_def chunk_shaped_def end_right_def)
        show ?thesis
        proof (cases free)
          case Nil
          define c' where "c' = \<lparr>chunk_data = [r], chunk_begin = fst r, chunk_end = 0, chunk_count = 1\<rparr>"
          have e: "builder_push b r = \<lparr>b_data = (full @ [c1]) @ [c'], b_outer = length full + 1\<rparr>"
            using False ne na data out Nil by (simp add: builder_push_def c'_def c1_def Let_def)
          have "holds (builder_push b r) (full @ [c1]) c' []"
            unfolding e holds_def using hd c1 full by (simp add: c'_def chunk_shaped_def max_size_val)
          moreover have "\<not> length (built b) < builder_cap b"
            using fl(1,2) full data Nil by (simp add: builder_cap_def)
          moreover have "counts_right (builder_push b r)" if "counts_right b" "snd r = fst r + 1"
            using that data by (auto simp: e counts_right_def count_right_def c'_def c1_def)
          moreover have "builder_cap b \<le> builder_cap (builder_push b r)" using data Nil by (simp add: e builder_cap_def)
          moreover have "ranges (full @ [c1]) @ chunk_data c' = flat_push (ranges full @ ?d) r"
            using fp c1(3) by (simp add: c'_def)
          ultimately show ?thesis by blast
        next
          case (Cons n free')
          define c' where "c' = n\<lparr>chunk_data := chunk_data n @ [r], chunk_begin := fst r, chunk_count := ?len\<rparr>"
          have n: "n = empty_chunk" using hd Cons by simp
          have e: "builder_push b r = \<lparr>b_data = (full @ [c1]) @ c' # free', b_outer = length full + 1\<rparr>"
            using False ne na data out Cons
            by (simp add: builder_push_def c'_def c1_def Let_def nth_append list_update_append)
          have "holds (builder_push b r) (full @ [c1]) c' free'"
            unfolding e holds_def using hd c1 full n Cons by (simp add: c'_def chunk_shaped_def max_size_val)
          moreover have "counts_right (builder_push b r)" if "counts_right b"
            using that data Cons n by (auto simp: e counts_right_def count_right_def c'_def c1_def)
          moreover have "builder_cap b \<le> builder_cap (builder_push b r)" using data Cons by (simp add: e builder_cap_def)
          moreover have "ranges (full @ [c1]) @ chunk_data c' = flat_push (ranges full @ ?d) r"
            using fp c1(3) n by (simp add: c'_def)
          ultimately show ?thesis by blast
        qed
      qed
    qed
  qed
qed

lemma builder_push_spec:
  assumes "builder_ok b"
  shows "builder_ok (builder_push b r)" "built (builder_push b r) = flat_push (built b) r"
    "fst r \<le> snd r \<Longrightarrow> sep (built b) \<Longrightarrow> counts_right b \<Longrightarrow> snd r = fst r + 1 \<or> length (built b) < builder_cap b \<Longrightarrow>
      counts_right (builder_push b r)"
    "builder_cap b \<le> builder_cap (builder_push b r)"
proof -
  obtain full c free where h: "holds b full c free" using assms by (auto simp: builder_ok_def)
  from builder_push_step[OF h, of r] obtain full' c' free' where
    s: "holds (builder_push b r) full' c' free'" "ranges full' @ chunk_data c' = flat_push (ranges full @ chunk_data c) r"
      "fst r \<le> snd r \<and> (\<forall>q \<in> set (built b). fst q \<le> snd q) \<and> counts_right b \<and>
        (snd r = fst r + 1 \<or> length (built b) < builder_cap b) \<longrightarrow> counts_right (builder_push b r)" "builder_cap b \<le> builder_cap (builder_push b r)" by metis
  show "builder_ok (builder_push b r)" using s(1) by (auto simp: builder_ok_def)
  show "built (builder_push b r) = flat_push (built b) r"
    using s(2) holds_flat(1)[OF h] holds_flat(1)[OF s(1)] by simp
  show "fst r \<le> snd r \<Longrightarrow> sep (built b) \<Longrightarrow> counts_right b \<Longrightarrow> snd r = fst r + 1 \<or> length (built b) < builder_cap b \<Longrightarrow>
      counts_right (builder_push b r)" using s(3) sep_nonempty[of "built b"] less_imp_le by blast
  show "builder_cap b \<le> builder_cap (builder_push b r)" by fact
qed

lemma builder_finalize_spec:
  assumes "builder_ok b"
  shows "ranges (builder_finalize b) = built b" "counts_right b \<Longrightarrow> list_all chunk_ok (builder_finalize b)"
proof -
  obtain full c free where h: "holds b full c free" using assms by (auto simp: builder_ok_def)
  note hd = h[unfolded holds_def]
  note fl = holds_flat[OF h]
  have e: "builder_finalize b =
      (if chunk_data c = [] then full else full @ [c\<lparr>chunk_end := snd (last (chunk_data c))\<rparr>])"
    using hd by (simp add: builder_finalize_def Let_def)
  then show "ranges (builder_finalize b) = built b" using fl(1) by simp
  show "list_all chunk_ok (builder_finalize b)" if "counts_right b"
    using that hd e
    by (auto simp: chunk_ok_parts list_all_iff counts_right_def chunk_shaped_def count_right_def end_right_def)
qed

section \<open>Building from a list of indices\<close>

definition push_indexes :: "builder \<Rightarrow> size list \<Rightarrow> builder" where
  "push_indexes = foldl builder_push_index"

lemma push_indexes_simps [simp]:
  "push_indexes b [] = b" "push_indexes b (i # is) = push_indexes (builder_push_index b i) is"
  "push_indexes b (is @ js) = push_indexes (push_indexes b is) js"
  by (simp_all add: push_indexes_def)

text \<open>The invariant of a build in progress: everything pushed lies below \<open>lim\<close>.\<close>

definition building :: "builder \<Rightarrow> nat set \<Rightarrow> nat \<Rightarrow> bool" where
  "building b X lim \<longleftrightarrow> builder_ok b \<and> sep (built b) \<and> rset (built b) = X \<and> (\<forall>q \<in> set (built b). snd q \<le> lim)"

lemma building_init [simp]: "building (builder_init m) {} 0"
  using builder_init_ok[of m] by (simp add: building_def)

lemma building_mono: "building b X k \<Longrightarrow> k \<le> l \<Longrightarrow> building b X l"
  by (force simp: building_def)

lemma building_push:
  assumes "building b X lim" "lim \<le> fst r" "fst r < snd r"
  shows "building (builder_push b r) (X \<union> {fst r..<snd r}) (snd r)"
proof -
  note b = assms(1)[unfolded building_def]
  have "\<forall>q \<in> set (built b). snd q \<le> fst r" using b assms(2) by fastforce
  then show ?thesis
    using flat_push_sep[of "built b" r] b assms(3) builder_push_spec(1,2)[of b r]
    by (simp add: building_def)
qed

lemma building_push_index:
  assumes "building b X lim" "lim \<le> i"
  shows "building (builder_push_index b i) (insert i X) (i + 1)"
    "counts_right b \<Longrightarrow> counts_right (builder_push_index b i)"
proof -
  have "{i..<i + 1} = {i}" by auto
  then show "building (builder_push_index b i) (insert i X) (i + 1)"
    using building_push[OF assms(1), of "(i, i + 1)"] assms(2) by (simp add: builder_push_index_def)
  show "counts_right b \<Longrightarrow> counts_right (builder_push_index b i)"
    using builder_push_spec(3)[of b "(i, i + 1)"] assms(1)
    by (simp add: builder_push_index_def building_def)
qed

lemma building_push_indexes:
  assumes "building b X lim" "sorted_wrt (<) is" "\<forall>i \<in> set is. lim \<le> i" "counts_right b"
  shows "(\<exists>lim'. building (push_indexes b is) (X \<union> set is) lim') \<and> counts_right (push_indexes b is)"
  using assms
proof (induction "is" arbitrary: b X lim)
  case (Cons i "is")
  have le: "lim \<le> i" using Cons.prems(3) by simp
  note bp = building_push_index[OF Cons.prems(1) le]
  have "\<forall>j \<in> set is. i + 1 \<le> j" using Cons.prems(2) by auto
  from Cons.IH[OF bp(1) _ this bp(2)[OF Cons.prems(4)]] Cons.prems(2)
  show ?case by simp
qed auto

text \<open>A strictly increasing list of indices is built into the set of its members.\<close>

lemma built_set:
  assumes "sorted_wrt (<) is"
  shows "wf (builder_finalize (push_indexes (builder_init m) is))"
    "idx (builder_finalize (push_indexes (builder_init m) is)) = set is"
proof -
  let ?b = "push_indexes (builder_init m) is"
  obtain lim where b: "building ?b ({} \<union> set is) lim" "counts_right ?b"
    using building_push_indexes[OF building_init[of m] assms _ builder_init_ok(3)] by blast
  then have "builder_ok ?b" "sep (built ?b)" "rset (built ?b) = set is" by (simp_all add: building_def)
  with builder_finalize_spec[of ?b] b(2)
  show "wf (builder_finalize ?b)" "idx (builder_finalize ?b) = set is" by (simp_all add: wf_def)
qed

end
