(* ===== verification/Index_Set_Bulk.thy ===== *)
theory Index_Set_Bulk
  imports Range_Builder
begin

text \<open>
  The operations of \<open>IndexSet\<close> that take a whole set: \<open>add\<close>, \<open>insert_at\<close>, \<open>shift_for_insert_at\<close>,
  \<open>erase_at\<close>, \<open>remove\<close> and \<open>add_shifted_by\<close>, the merges of two increasing walks over index
  iterators that feed a builder.
\<close>

section \<open>Walking over the ranges and the indices\<close>

text \<open>
  An \<open>IndexIterator\<close> is a range iterator and an offset into its range.  A walk is bounded by the
  number of ranges or indices of the set; \<open>range_walk_all\<close> and \<open>as_indexes_all\<close> show that it has
  then visited all of them.
\<close>

type_synonym index_iter = "iter \<times> size"

definition ii_begin :: "crv \<Rightarrow> index_iter" where
  "ii_begin m = (it_begin m, 0)"

definition ii_get :: "crv \<Rightarrow> index_iter \<Rightarrow> size" where
  "ii_get m ii = fst (it_get m (fst ii)) + snd ii"

definition ii_next :: "crv \<Rightarrow> index_iter \<Rightarrow> index_iter" where
  "ii_next m ii =
     (let r = it_get m (fst ii); offset = snd ii + 1 in
      if fst r + offset = snd r then (it_next m (fst ii), 0) else (fst ii, offset))"

fun index_walk :: "nat \<Rightarrow> crv \<Rightarrow> index_iter \<Rightarrow> size list" where
  "index_walk 0 m ii = []"
| "index_walk (Suc n) m ii =
     (if at_end m (fst ii) then [] else ii_get m ii # index_walk n m (ii_next m ii))"

definition as_indexes :: "crv \<Rightarrow> size list" where
  "as_indexes m = index_walk (range_total (ranges m)) m (ii_begin m)"

fun range_walk :: "nat \<Rightarrow> crv \<Rightarrow> iter \<Rightarrow> range list" where
  "range_walk 0 m it = []"
| "range_walk (Suc n) m it = (if at_end m it then [] else it_get m it # range_walk n m (it_next m it))"

definition all_ranges :: "crv \<Rightarrow> range list" where
  "all_ranges m = range_walk (length (ranges m)) m (it_begin m)"

lemma range_walk_spec:
  "list_all chunk_ok m \<Longrightarrow> valid_it m it \<Longrightarrow> length (after m it) \<le> n \<Longrightarrow> range_walk n m it = after m it"
proof (induction n arbitrary: it)
  case (Suc n)
  show ?case
  proof (cases "at_end m it")
    case True
    then show ?thesis using at_end_iff[OF Suc.prems(2)] by simp
  next
    case False
    note st = it_next_step[OF Suc.prems(1,2) False]
    show ?thesis using Suc.IH[OF Suc.prems(1) st(3)] Suc.prems(3) st(1) False by simp
  qed
qed simp

lemma range_walk_all: "list_all chunk_ok m \<Longrightarrow> all_ranges m = ranges m"
  using it_begin_spec[of m] by (simp add: all_ranges_def range_walk_spec)

lemma index_walk_spec:
  assumes "wf m" "valid_it m it" "range_total (after m it) - off \<le> n"
    and "\<not> at_end m it \<Longrightarrow> fst (it_get m it) + off < snd (it_get m it)" "at_end m it \<Longrightarrow> off = 0"
  shows "index_walk n m (it, off) = drop off (range_indexes (after m it))"
  using assms
proof (induction n arbitrary: it off)
  case 0
  show ?case
  proof (cases "at_end m it")
    case True
    then show ?thesis using at_end_iff[OF 0(2)] by simp
  next
    case False
    note st = it_next_step(1)[OF wfD(1)[OF 0(1)] 0(2) False]
    have "range_total (after m it) \<le> off" using 0(3) by simp
    then show ?thesis using 0(4)[OF False] st by simp
  qed
next
  case (Suc n)
  note ok = wfD(1)[OF Suc.prems(1)]
  show ?case
  proof (cases "at_end m it")
    case True
    then show ?thesis using at_end_iff[OF Suc.prems(2)] by simp
  next
    case False
    note st = it_next_step[OF ok Suc.prems(2) False]
    let ?r = "it_get m it" and ?A = "after m (it_next m it)"
    have lt: "fst ?r + off < snd ?r" by (rule Suc.prems(4)[OF False])
    have hd: "drop off (range_indexes (after m it)) =
        (fst ?r + off) # drop (off + 1) (range_indexes (after m it))"
    proof -
      have "off < length (range_indexes (after m it))" using lt st(1) by simp
      moreover have "off < range_len ?r" using lt by simp
      then have "range_indexes (after m it) ! off = fst ?r + off" using lt st(1) by (simp add: nth_append)
      ultimately show ?thesis by (metis Cons_nth_drop_Suc Suc_eq_plus1)
    qed
    show ?thesis
    proof (cases "fst ?r + (off + 1) = snd ?r")
      case True
      have "index_walk n m (it_next m it, 0) = drop 0 (range_indexes ?A)"
      proof (rule Suc.IH[OF Suc.prems(1) st(3)])
        show "range_total ?A - 0 \<le> n" using Suc.prems(3) st(1) True by simp
        assume "\<not> at_end m (it_next m it)"
        then have "it_get m (it_next m it) \<in> set (after m (it_next m it))"
          using it_next_step(1)[OF ok st(3)] by simp
        then show "fst (it_get m (it_next m it)) + 0 < snd (it_get m (it_next m it))"
          using wf_before_after(2)[OF Suc.prems(1) st(3)] by (simp add: sep_nonempty)
      qed simp
      moreover have "drop (off + 1) (range_indexes (after m it)) = range_indexes ?A"
        using True st(1) by simp
      ultimately show ?thesis using hd True False by (simp add: ii_get_def ii_next_def Let_def)
    next
      case ne: False
      have "index_walk n m (it, off + 1) = drop (off + 1) (range_indexes (after m it))"
        by (rule Suc.IH[OF Suc.prems(1,2)]) (use Suc.prems(3) ne lt False in auto)
      then show ?thesis using hd ne False by (simp add: ii_get_def ii_next_def Let_def)
    qed
  qed
qed

lemma as_indexes_all:
  assumes w: "wf m"
  shows "as_indexes m = range_indexes (ranges m)"
proof -
  note ok = wfD(1)[OF w]
  note b = it_begin_spec[OF ok]
  have "fst (it_get m (it_begin m)) + 0 < snd (it_get m (it_begin m))" if "\<not> at_end m (it_begin m)"
    using it_next_step(1)[OF ok b(3) that] wf_before_after(2)[OF w b(3)] by simp
  then show ?thesis
    using index_walk_spec[OF w b(3), of 0 "range_total (ranges m)"] b(2)
    by (simp add: as_indexes_def ii_begin_def)
qed

lemma as_indexes_sorted:
  assumes "wf m"
  shows "sorted_wrt (<) (as_indexes m)" "set (as_indexes m) = idx m"
  using as_indexes_all[OF assms] sorted_range_indexes wfD(2)[OF assms] by simp_all

section \<open>Adding a set\<close>

fun add_indexes :: "crv \<Rightarrow> iter \<Rightarrow> size list \<Rightarrow> crv" where
  "add_indexes m it [] = m"
| "add_indexes m it (index # is) =
     (let (m', it') = do_add m (find_from m index it) index in add_indexes m' it' is)"

definition add_set :: "crv \<Rightarrow> crv \<Rightarrow> crv" where
  "add_set m other = add_indexes m (it_begin m) (as_indexes other)"

lemma add_indexes_spec:
  assumes "wf m" "valid_it m it" "sorted_wrt (<) is" "\<forall>r \<in> set (before m it). \<forall>i \<in> set is. snd r \<le> i"
  shows "wf (add_indexes m it is) \<and> idx (add_indexes m it is) = idx m \<union> set is"
  using assms
proof (induction "is" arbitrary: m it)
  case (Cons i "is")
  obtain m' it' where e: "do_add m (find_from m i it) i = (m', it')"
    by (cases "do_add m (find_from m i it) i")
  have "\<forall>r \<in> set (before m it). snd r \<le> i" using Cons.prems(4) by simp
  note ff = find_from_spec[OF Cons.prems(1,2) this]
  note d = do_add_spec[OF Cons.prems(1) ff e]
  have "\<forall>r \<in> set (before m' it'). \<forall>j \<in> set is. snd r \<le> j"
    using d(7) Cons.prems(3) by fastforce
  from Cons.IH[OF d(1,3) _ this] Cons.prems(3) show ?case using d(2) e by simp
qed simp

lemma add_set_spec:
  assumes "wf m" "wf other"
  shows "wf (add_set m other)" "idx (add_set m other) = idx m \<union> idx other"
  using add_indexes_spec[OF assms(1) it_begin_spec(3)[OF wfD(1)[OF assms(1)]] as_indexes_sorted(1)[OF assms(2)]]
    it_begin_spec(1)[OF wfD(1)[OF assms(1)]] as_indexes_sorted(2)[OF assms(2)]
  by (simp_all add: add_set_def)

section \<open>Inserting the positions of a set\<close>

fun merge_insert :: "size list \<Rightarrow> size list \<Rightarrow> size \<Rightarrow> builder \<Rightarrow> builder" where
  "merge_insert (x # xs) (y # ys) sh b =
     (if x + sh < y then merge_insert xs (y # ys) sh (builder_push_index b (x + sh))
      else merge_insert (x # xs) ys (sh + 1) (builder_push_index b y))"
| "merge_insert (x # xs) [] sh b = merge_insert xs [] sh (builder_push_index b (x + sh))"
| "merge_insert [] (y # ys) sh b = merge_insert [] ys sh (builder_push_index b y)"
| "merge_insert [] [] sh b = b"

definition insert_set_at :: "crv \<Rightarrow> crv \<Rightarrow> crv" where
  "insert_set_at m positions =
     (if positions = [] then m
      else if m = [] then positions
      else builder_finalize (merge_insert (as_indexes m) (as_indexes positions) 0 (builder_init m)))"

fun merge_shift :: "size list \<Rightarrow> size list \<Rightarrow> size \<Rightarrow> builder \<Rightarrow> builder" where
  "merge_shift (x # xs) (y # ys) sh b =
     (if x + sh < y then merge_shift xs (y # ys) sh (builder_push_index b (x + sh))
      else merge_shift (x # xs) ys (sh + 1) b)"
| "merge_shift (x # xs) [] sh b = merge_shift xs [] sh (builder_push_index b (x + sh))"
| "merge_shift [] ys sh b = b"

definition shift_for_insert_set_at :: "crv \<Rightarrow> crv \<Rightarrow> crv" where
  "shift_for_insert_set_at m values =
     (if m = [] \<or> values = [] then m
      else if chunk_begin (hd values) \<ge> chunk_end (last m) then m
      else builder_finalize (merge_shift (as_indexes m) (as_indexes values) 0 (builder_init m)))"

fun merge_erase :: "size list \<Rightarrow> size list \<Rightarrow> size \<Rightarrow> builder \<Rightarrow> builder" where
  "merge_erase (x # xs) (y # ys) sh b =
     (if x < y then merge_erase xs (y # ys) sh (builder_push_index b (x - sh))
      else if x = y then merge_erase xs ys (sh + 1) b
      else merge_erase (x # xs) ys (sh + 1) b)"
| "merge_erase (x # xs) [] sh b = merge_erase xs [] sh (builder_push_index b (x - sh))"
| "merge_erase [] ys sh b = b"

definition erase_set_at :: "crv \<Rightarrow> crv \<Rightarrow> crv" where
  "erase_set_at m positions =
     (if m = [] \<or> positions = [] then m
      else builder_finalize (merge_erase (as_indexes m) (as_indexes positions) 0 (builder_init m)))"

text \<open>The lists the three merges push.\<close>

fun insert_list :: "nat list \<Rightarrow> nat list \<Rightarrow> nat \<Rightarrow> nat list" where
  "insert_list (x # xs) (y # ys) s =
     (if x + s < y then (x + s) # insert_list xs (y # ys) s else y # insert_list (x # xs) ys (s + 1))"
| "insert_list (x # xs) [] s = (x + s) # insert_list xs [] s"
| "insert_list [] ys s = ys"

lemma merge_insert_list: "merge_insert xs ys s b = push_indexes b (insert_list xs ys s)"
  by (induction xs ys s b rule: merge_insert.induct) simp_all

lemma insert_list_ge:
  "\<forall>x \<in> set xs. k \<le> x + s \<Longrightarrow> \<forall>y \<in> set ys. k \<le> y \<Longrightarrow> \<forall>z \<in> set (insert_list xs ys s). k \<le> z"
proof (induction xs ys s rule: insert_list.induct)
  case (1 x xs y ys s)
  have "\<forall>z \<in> set (x # xs). k \<le> z + (s + 1)" using 1(3) by fastforce
  then show ?case using 1 by simp
qed auto

lemma insert_list_sorted:
  "sorted_wrt (<) xs \<Longrightarrow> sorted_wrt (<) ys \<Longrightarrow> sorted_wrt (<) (insert_list xs ys s)"
proof (induction xs ys s rule: insert_list.induct)
  case (1 x xs y ys s)
  show ?case
  proof (cases "x + s < y")
    case True
    have "\<forall>z \<in> set (insert_list xs (y # ys) s). x + s + 1 \<le> z"
      by (rule insert_list_ge) (use 1(3,4) True in auto)
    then show ?thesis using 1(1)[OF True] 1(3,4) True by fastforce
  next
    case False
    have "\<forall>z \<in> set (insert_list (x # xs) ys (s + 1)). y + 1 \<le> z"
      by (rule insert_list_ge) (use 1(3,4) False in auto)
    then show ?thesis using 1(2)[OF False] 1(3,4) False by fastforce
  qed
next
  case (2 x xs s)
  have "\<forall>z \<in> set (insert_list xs [] s). x + s + 1 \<le> z"
    by (rule insert_list_ge) (use 2(2) in auto)
  then show ?case using 2 by fastforce
qed simp

text \<open>
  With \<open>ps\<close> the positions already passed, an index \<open>x\<close> is pushed as \<open>x + s\<close>, which is the
  \<open>x\<close>-th number outside the inserted positions.
\<close>

lemma nth_outside_merge:
  assumes "set ps \<inter> set ys = {}" "distinct ps" "\<forall>p \<in> set ps. p < x + length ps" "\<forall>y \<in> set ys. x + length ps < y"
  shows "nth_outside (set ps \<union> set ys) x = x + length ps"
proof (rule nth_outside_eqI)
  show "x + length ps \<notin> set ps \<union> set ys" using assms(3,4) by auto
  have "(set ps \<union> set ys) \<inter> {..<x + length ps} = set ps" using assms(3,4) by fastforce
  then show "rank_outside (set ps \<union> set ys) (x + length ps) = x"
    using assms(2) by (simp add: rank_outside_def distinct_card)
qed simp

lemma insert_list_set:
  assumes "sorted_wrt (<) xs" "sorted_wrt (<) (ps @ ys)"
    and "\<forall>x \<in> set xs. \<forall>p \<in> set ps. p < x + length ps"
  shows "set (insert_list xs ys (length ps)) = nth_outside (set ps \<union> set ys) ` set xs \<union> set ys"
  using assms
proof (induction xs ys "length ps" arbitrary: ps rule: insert_list.induct)
  case (1 x xs y ys)
  have d: "distinct (ps @ y # ys)" using 1(4) strict_sorted_iff by blast
  show ?case
  proof (cases "x + length ps < y")
    case True
    have "nth_outside (set ps \<union> set (y # ys)) x = x + length ps"
      by (rule nth_outside_merge) (use 1(4,5) d True in \<open>auto simp: sorted_wrt_append\<close>)
    then show ?thesis using 1(1)[OF True] 1(3-5) True by (simp add: insert_commute)
  next
    case False
    have l: "length ps + 1 = length (ps @ [y])" by simp
    have "\<forall>z \<in> set (x # xs). \<forall>p \<in> set (ps @ [y]). p < z + length (ps @ [y])"
      using 1(3,5) False by fastforce
    then have "set (insert_list (x # xs) ys (length (ps @ [y]))) =
      nth_outside (set (ps @ [y]) \<union> set ys) ` set (x # xs) \<union> set ys"
      using 1(2)[OF False l] 1(3,4) by simp
    then show ?thesis using False by auto
  qed
next
  case (2 x xs)
  have "nth_outside (set ps \<union> set []) x = x + length ps"
    by (rule nth_outside_merge) (use 2 in \<open>auto simp: strict_sorted_iff\<close>)
  then show ?case using 2 by simp
qed simp

lemma insert_set_at_spec:
  assumes "wf m" "wf p"
  shows "wf (insert_set_at m p)" "idx (insert_set_at m p) = nth_outside (idx p) ` idx m \<union> idx p"
proof -
  note xs = as_indexes_sorted[OF assms(1)] and ys = as_indexes_sorted[OF assms(2)]
  have st: "sorted_wrt (<) (insert_list (as_indexes m) (as_indexes p) 0)"
    by (rule insert_list_sorted[OF xs(1) ys(1)])
  have se: "set (insert_list (as_indexes m) (as_indexes p) 0) = nth_outside (idx p) ` idx m \<union> idx p"
    using insert_list_set[of "as_indexes m" "[]" "as_indexes p"] xs ys by simp
  have "wf (insert_set_at m p) \<and> idx (insert_set_at m p) = nth_outside (idx p) ` idx m \<union> idx p"
    using built_set[OF st, of m] assms se by (simp add: insert_set_at_def merge_insert_list)
  then show "wf (insert_set_at m p)" "idx (insert_set_at m p) = nth_outside (idx p) ` idx m \<union> idx p" by blast+
qed

fun shift_list :: "nat list \<Rightarrow> nat list \<Rightarrow> nat \<Rightarrow> nat list" where
  "shift_list (x # xs) (y # ys) s =
     (if x + s < y then (x + s) # shift_list xs (y # ys) s else shift_list (x # xs) ys (s + 1))"
| "shift_list (x # xs) [] s = (x + s) # shift_list xs [] s"
| "shift_list [] ys s = []"

lemma merge_shift_list: "merge_shift xs ys s b = push_indexes b (shift_list xs ys s)"
  by (induction xs ys s b rule: merge_shift.induct) simp_all

lemma shift_list_map:
  assumes "sorted_wrt (<) xs" "sorted_wrt (<) (ps @ ys)"
    and "\<forall>x \<in> set xs. \<forall>p \<in> set ps. p < x + length ps"
  shows "shift_list xs ys (length ps) = map (nth_outside (set ps \<union> set ys)) xs"
  using assms
proof (induction xs ys "length ps" arbitrary: ps rule: shift_list.induct)
  case (1 x xs y ys)
  have d: "distinct (ps @ y # ys)" using 1(4) strict_sorted_iff by blast
  show ?case
  proof (cases "x + length ps < y")
    case True
    have "nth_outside (set ps \<union> set (y # ys)) x = x + length ps"
      by (rule nth_outside_merge) (use 1(4,5) d True in \<open>auto simp: sorted_wrt_append\<close>)
    then show ?thesis using 1(1)[OF True] 1(3-5) True by simp
  next
    case False
    have l: "length ps + 1 = length (ps @ [y])" by simp
    have "\<forall>z \<in> set (x # xs). \<forall>p \<in> set (ps @ [y]). p < z + length (ps @ [y])"
      using 1(3,5) False by fastforce
    then have "shift_list (x # xs) ys (length (ps @ [y])) = map (nth_outside (set (ps @ [y]) \<union> set ys)) (x # xs)"
      using 1(2)[OF False l] 1(3,4) by simp
    then show ?thesis using False by simp
  qed
next
  case (2 x xs)
  have "nth_outside (set ps \<union> set []) x = x + length ps"
    by (rule nth_outside_merge) (use 2 in \<open>auto simp: strict_sorted_iff\<close>)
  then show ?case using 2 by simp
qed simp

lemma rank_outside_below: "\<forall>p \<in> P. x \<le> p \<Longrightarrow> rank_outside P x = x"
proof -
  assume "\<forall>p \<in> P. x \<le> p"
  then have "P \<inter> {..<x} = {}" by force
  then show ?thesis by (simp add: rank_outside_def)
qed

lemma nth_outside_below: "finite P \<Longrightarrow> \<forall>p \<in> P. x < p \<Longrightarrow> nth_outside P x = x"
  by (rule nth_outside_eqI) (auto intro!: rank_outside_below less_imp_le)

lemma wf_ends:
  assumes w: "wf m" and ne: "m \<noteq> []"
  shows "\<forall>x \<in> idx m. chunk_begin (hd m) \<le> x \<and> x < chunk_end (last m)"
proof -
  have ok: "list_all chunk_ok m" and s: "sep (ranges m)" using wfD[OF w] .
  obtain c M where c: "m = c # M" using ne by (cases m) auto
  obtain d N where d: "m = N @ [d]" using ne by (cases m rule: rev_cases) auto
  have cd: "chunk_ok c" "chunk_ok d" using ok c d by (metis list.pred_inject(2)) (use ok d in simp)
  have h: "fst (hd (ranges m)) = chunk_begin (hd m)" using cd(1) c by (simp add: chunk_ok_def)
  have l: "snd (last (ranges m)) = chunk_end (last m)" using cd(2) d by (simp add: chunk_ok_def)
  show ?thesis
  proof
    fix x assume "x \<in> idx m"
    then obtain r where r: "r \<in> set (ranges m)" "fst r \<le> x" "x < snd r" by (auto simp: rset_iff)
    then show "chunk_begin (hd m) \<le> x \<and> x < chunk_end (last m)"
      using sep_hd_bound[OF s r(1)] sep_last_bound[OF s r(1)] h l by simp
  qed
qed

lemma shift_for_insert_set_at_spec:
  assumes "wf m" "wf p"
  shows "wf (shift_for_insert_set_at m p)" "idx (shift_for_insert_set_at m p) = nth_outside (idx p) ` idx m"
proof -
  note xs = as_indexes_sorted[OF assms(1)] and ys = as_indexes_sorted[OF assms(2)]
  have mp: "shift_list (as_indexes m) (as_indexes p) 0 = map (nth_outside (idx p)) (as_indexes m)"
    using shift_list_map[of "as_indexes m" "[]" "as_indexes p"] xs ys by simp
  have st: "sorted_wrt (<) (shift_list (as_indexes m) (as_indexes p) 0)"
    unfolding mp using xs(1) by (simp add: sorted_wrt_map)
  have "nth_outside (idx p) ` idx m = idx m"
    if "m \<noteq> []" "p \<noteq> []" "chunk_end (last m) \<le> chunk_begin (hd p)"
  proof -
    have "nth_outside (idx p) x = x" if x: "x \<in> idx m" for x
    proof (rule nth_outside_below)
      show "\<forall>q \<in> idx p. x < q"
        using wf_ends[OF assms(1) \<open>m \<noteq> []\<close>] wf_ends[OF assms(2) \<open>p \<noteq> []\<close>] x
          \<open>chunk_end (last m) \<le> chunk_begin (hd p)\<close> by fastforce
    qed simp
    then show ?thesis by simp
  qed
  then have "wf (shift_for_insert_set_at m p) \<and> idx (shift_for_insert_set_at m p) = nth_outside (idx p) ` idx m"
    using built_set[OF st, of m] assms(1) mp xs(2)
    by (auto simp: shift_for_insert_set_at_def merge_shift_list)
  then show "wf (shift_for_insert_set_at m p)" "idx (shift_for_insert_set_at m p) = nth_outside (idx p) ` idx m"
    by blast+
qed

section \<open>Erasing the positions of a set\<close>

fun erase_list :: "nat list \<Rightarrow> nat list \<Rightarrow> nat \<Rightarrow> nat list" where
  "erase_list (x # xs) (y # ys) s =
     (if x < y then (x - s) # erase_list xs (y # ys) s
      else if x = y then erase_list xs ys (s + 1) else erase_list (x # xs) ys (s + 1))"
| "erase_list (x # xs) [] s = (x - s) # erase_list xs [] s"
| "erase_list [] ys s = []"

lemma merge_erase_list: "merge_erase xs ys s b = push_indexes b (erase_list xs ys s)"
  by (induction xs ys s b rule: merge_erase.induct) simp_all

lemma rank_outside_merge:
  assumes "distinct ps" "\<forall>p \<in> set ps. p < x" "\<forall>y \<in> set ys. x < y"
  shows "rank_outside (set ps \<union> set ys) x = x - length ps"
proof -
  have "(set ps \<union> set ys) \<inter> {..<x} = set ps" using assms(2,3) by fastforce
  then show ?thesis using assms(1) by (simp add: rank_outside_def distinct_card)
qed

lemma erase_list_map:
  assumes "sorted_wrt (<) xs" "sorted_wrt (<) (ps @ ys)" "\<forall>x \<in> set xs. \<forall>p \<in> set ps. p < x"
  shows "erase_list xs ys (length ps) =
    map (rank_outside (set ps \<union> set ys)) (filter (\<lambda>x. x \<notin> set ps \<union> set ys) xs)"
  using assms
proof (induction xs ys "length ps" arbitrary: ps rule: erase_list.induct)
  case (1 x xs y ys)
  have d: "distinct (ps @ y # ys)" using 1(5) strict_sorted_iff by blast
  have l: "length ps + 1 = length (ps @ [y])" by simp
  show ?case
  proof (cases "x < y")
    case True
    then have ys: "\<forall>z \<in> set (y # ys). x < z" using 1(5) by (auto simp: sorted_wrt_append)
    then have "x \<notin> set ps \<union> set (y # ys)" using 1(6) by fastforce
    moreover have "rank_outside (set ps \<union> set (y # ys)) x = x - length ps"
      by (rule rank_outside_merge) (use 1(6) d ys in auto)
    ultimately show ?thesis using 1(1)[OF True] 1(4-6) True by simp
  next
    case nl: False
    show ?thesis
    proof (cases "x = y")
      case True
      have "\<forall>z \<in> set xs. \<forall>p \<in> set (ps @ [y]). p < z" using 1(4,6) True by auto
      then show ?thesis using 1(2)[OF nl True l] 1(4,5) True by simp
    next
      case False
      have "\<forall>z \<in> set (x # xs). \<forall>p \<in> set (ps @ [y]). p < z" using 1(4,6) nl False by fastforce
      then show ?thesis using 1(3)[OF nl False l] 1(4,5) nl False by simp
    qed
  qed
next
  case (2 x xs)
  have "rank_outside (set ps \<union> set []) x = x - length ps"
    by (rule rank_outside_merge) (use 2 in \<open>auto simp: strict_sorted_iff\<close>)
  moreover have "x \<notin> set ps" using 2(4) by fastforce
  ultimately show ?case using 2 by simp
qed simp

lemma erase_set_at_spec:
  assumes "wf m" "wf p"
  shows "wf (erase_set_at m p)" "idx (erase_set_at m p) = rank_outside (idx p) ` (idx m - idx p)"
proof -
  note xs = as_indexes_sorted[OF assms(1)] and ys = as_indexes_sorted[OF assms(2)]
  have mp: "erase_list (as_indexes m) (as_indexes p) 0 =
      map (rank_outside (idx p)) (filter (\<lambda>x. x \<notin> idx p) (as_indexes m))"
    using erase_list_map[of "as_indexes m" "[]" "as_indexes p"] xs ys by simp
  have "sorted_wrt (\<lambda>x y. rank_outside (idx p) x < rank_outside (idx p) y) (filter (\<lambda>x. x \<notin> idx p) (as_indexes m))"
    using xs(1) by (rule sorted_wrt_mono_rel[rotated, OF sorted_wrt_filter]) (simp add: rank_outside_less_iff)
  then have st: "sorted_wrt (<) (erase_list (as_indexes m) (as_indexes p) 0)"
    unfolding mp by (simp add: sorted_wrt_map)
  have "set (erase_list (as_indexes m) (as_indexes p) 0) = rank_outside (idx p) ` (idx m - idx p)"
    unfolding mp using xs(2) by auto
  moreover have "rank_outside (idx p) ` (idx m - idx p) = idx m" if "m = [] \<or> p = []" using that by auto
  ultimately have "wf (erase_set_at m p) \<and> idx (erase_set_at m p) = rank_outside (idx p) ` (idx m - idx p)"
    using built_set[OF st, of m] assms(1) by (auto simp: erase_set_at_def merge_erase_list)
  then show "wf (erase_set_at m p)" "idx (erase_set_at m p) = rank_outside (idx p) ` (idx m - idx p)"
    by blast+
qed

section \<open>Removing a set\<close>

fun remove_ranges :: "crv \<Rightarrow> iter \<Rightarrow> range list \<Rightarrow> crv option" where
  "remove_ranges m it [] = Some m"
| "remove_ranges m it (r # rs) =
     (case do_remove m it (fst r) (snd r) of
        None \<Rightarrow> None
      | Some (m', it') \<Rightarrow> if at_end m' it' then Some m' else remove_ranges m' it' rs)"

definition remove_set :: "crv \<Rightarrow> crv \<Rightarrow> crv option" where
  "remove_set m values = remove_ranges m (it_begin m) (all_ranges values)"

lemma remove_ranges_spec:
  assumes "wf m" "valid_it m it" "sep rs" "\<forall>q \<in> set (before m it). \<forall>r \<in> set rs. snd q \<le> fst r"
  shows "\<exists>m'. remove_ranges m it rs = Some m' \<and> wf m' \<and> idx m' = idx m - rset rs"
  using assms
proof (induction rs arbitrary: m it)
  case (Cons r rs)
  have "\<forall>q \<in> set (before m it). snd q \<le> fst r" "fst r < snd r" using Cons.prems(3,4) by simp_all
  from do_remove_spec[OF Cons.prems(1,2) this] obtain m1 it1 where
    d: "do_remove m it (fst r) (snd r) = Some (m1, it1)" "wf m1" "valid_it m1 it1"
      "idx m1 = idx m - {fst r..<snd r}" "\<forall>q \<in> set (before m1 it1). snd q \<le> snd r" by blast
  show ?case
  proof (cases "at_end m1 it1")
    case True
    then have "ranges m1 = before m1 it1" using ranges_split[OF d(3)] at_end_iff[OF d(3)] by simp
    then have "\<forall>x \<in> idx m1. x < snd r" using d(5) by (force simp: rset_iff)
    moreover have "\<forall>x \<in> rset rs. snd r < x" using Cons.prems(3) by (fastforce simp: rset_iff)
    ultimately have "idx m1 \<inter> rset rs = {}" by fastforce
    then have "idx m1 = idx m - rset (r # rs)" using d(4) by auto
    then show ?thesis using d(1,2) True by simp
  next
    case False
    have "\<forall>q \<in> set (before m1 it1). \<forall>r' \<in> set rs. snd q \<le> fst r'"
      using d(5) Cons.prems(3) by fastforce
    from Cons.IH[OF d(2,3) _ this] Cons.prems(3) obtain m' where
      "remove_ranges m1 it1 rs = Some m'" "wf m'" "idx m' = idx m1 - rset rs" by auto
    moreover have "idx m1 - rset rs = idx m - rset (r # rs)" using d(4) by auto
    ultimately show ?thesis using d(1) False by simp
  qed
qed simp

lemma remove_set_spec:
  assumes "wf m" "wf v"
  shows "\<exists>m'. remove_set m v = Some m' \<and> wf m' \<and> idx m' = idx m - idx v"
  using remove_ranges_spec[OF assms(1) it_begin_spec(3)[OF wfD(1)[OF assms(1)]] wfD(2)[OF assms(2)]]
    it_begin_spec(1)[OF wfD(1)[OF assms(1)]] range_walk_all[OF wfD(1)[OF assms(2)]]
  by (simp add: remove_set_def)

end
