(* ===== verification/Index_Set_Shifted.thy ===== *)
theory Index_Set_Shifted
  imports Index_Set_Bulk
begin

text \<open>
  \<open>IndexSet::add_shifted_by\<close>: the one pass that adds indices given relative to one set of
  deletions and not yet shifted for another.  The set it builds is always the specified one; the
  cached counts are right as long as the result fits into the chunks allocated in advance.
\<close>

section \<open>The loop\<close>

fun shift_past :: "range list \<Rightarrow> size \<Rightarrow> size \<Rightarrow> size \<Rightarrow> range list \<times> size \<times> size" where
  "shift_past [] index new_shift skip = ([], new_shift, skip)"
| "shift_past (r # rs) index new_shift skip =
     (if fst r \<le> index then shift_past rs index (new_shift + range_len r) (snd r)
      else (r # rs, new_shift, skip))"

text \<open>\<open>u\<close> is \<open>index - new_shift\<close>.\<close>

fun copy_old :: "range list \<Rightarrow> size \<Rightarrow> size \<Rightarrow> builder \<Rightarrow> range list \<times> size \<times> builder" where
  "copy_old [] u old_shift b = ([], old_shift, b)"
| "copy_old (r # rs) u old_shift b =
     (if fst r \<le> u + old_shift
      then copy_old rs u (old_shift + range_len r) (push_indexes b [fst r..<snd r])
      else (r # rs, old_shift, b))"

fun shifted_loop :: "size list \<Rightarrow> range list \<Rightarrow> range list \<Rightarrow> size \<Rightarrow> size \<Rightarrow> size \<Rightarrow> builder \<Rightarrow>
    range list \<times> builder" where
  "shifted_loop [] sh old skip old_shift new_shift b = (old, b)"
| "shifted_loop (index # is) sh old skip old_shift new_shift b =
     (let (sh, new_shift, skip) = shift_past sh index new_shift skip in
      if index < skip then shifted_loop is sh old skip old_shift new_shift b
      else let (old, old_shift, b) = copy_old old (index - new_shift) old_shift b in
        shifted_loop is sh old skip old_shift new_shift
          (builder_push_index b (index - new_shift + old_shift)))"

definition add_shifted_by :: "crv \<Rightarrow> crv \<Rightarrow> crv \<Rightarrow> crv" where
  "add_shifted_by m shifted_by values =
     (if values = [] then m
      else let (old, b) = shifted_loop (as_indexes values) (all_ranges shifted_by) (all_ranges m) 0 0 0
            (builder_init m)
        in builder_finalize (foldl builder_push b old))"

text \<open>What it means: \<open>values\<close> lose the positions of \<open>shifted_by\<close> and move past those of the set.\<close>

definition shifted_values :: "nat set \<Rightarrow> nat set \<Rightarrow> nat set \<Rightarrow> nat set" where
  "shifted_values S I V = (\<lambda>v. nth_outside S (rank_outside I v)) ` (V - I)"

section \<open>Its correctness\<close>

lemma building_push_run:
  assumes "building b X lim" "lim \<le> a" "a < c"
  shows "building (push_indexes b [a..<c]) (X \<union> {a..<c}) c \<and>
    (counts_right b \<longrightarrow> counts_right (push_indexes b [a..<c]))"
  using assms(3)
proof (induction c)
  case (Suc c)
  show ?case
  proof (cases "a = c")
    case True
    have "{c..<Suc c} = {c}" by auto
    then show ?thesis
      using building_push_index[OF assms(1,2)] True by (simp add: upt_rec)
  next
    case False
    then have ih: "building (push_indexes b [a..<c]) (X \<union> {a..<c}) c"
      "counts_right b \<longrightarrow> counts_right (push_indexes b [a..<c])" using Suc by simp_all
    have "insert c (X \<union> {a..<c}) = X \<union> {a..<Suc c}" using False Suc.prems by auto
    then show ?thesis
      using building_push_index[OF ih(1), of c] ih(2) Suc.prems False by (simp add: upt_Suc_append)
  qed
qed simp

lemma shift_past_spec:
  assumes "sep sh" "shift_past sh v ns sk = (sh', ns', sk')"
  shows "\<exists>E. sh = E @ sh' \<and> ns' = ns + range_total E \<and> (\<forall>d \<in> set E. fst d \<le> v) \<and>
    (\<forall>r \<in> set sh'. v < fst r) \<and> sk' = (if E = [] then sk else snd (last E))"
  using assms
proof (induction sh arbitrary: ns sk)
  case (Cons r sh)
  show ?case
  proof (cases "fst r \<le> v")
    case True
    have "sep sh" "shift_past sh v (ns + range_len r) (snd r) = (sh', ns', sk')"
      using Cons.prems True by simp_all
    from Cons.IH[OF this] obtain E where
      "sh = E @ sh'" "ns' = ns + range_len r + range_total E" "\<forall>d \<in> set E. fst d \<le> v"
      "\<forall>r \<in> set sh'. v < fst r" "sk' = (if E = [] then snd r else snd (last E))" by blast
    then show ?thesis using True by (intro exI[of _ "r # E"]) simp
  next
    case False
    then have "\<forall>q \<in> set (r # sh). v < fst q" using Cons.prems(1) by auto
    moreover have "sh' = r # sh" "ns' = ns" "sk' = sk" using Cons.prems(2) False by auto
    ultimately show ?thesis by (intro exI[of _ "[]"]) simp
  qed
qed simp

lemma skip_iff:
  assumes s: "sep (D @ sh)" and d: "\<forall>d \<in> set D. fst d \<le> v" and r: "\<forall>r \<in> set sh. v < fst r"
    and sk: "sk = (if D = [] then 0 else snd (last D))"
  shows "v < sk \<longleftrightarrow> v \<in> rset (D @ sh)"
    "\<not> v < sk \<Longrightarrow> rank_outside (rset (D @ sh)) v = v - range_total D \<and> range_total D \<le> v"
proof -
  have "v \<notin> rset sh" using r by (auto simp: rset_iff)
  moreover have "v < sk \<longleftrightarrow> v \<in> rset D"
  proof
    assume "v < sk"
    then have "D \<noteq> []" "v < snd (last D)" using sk by (auto split: if_splits)
    then show "v \<in> rset D" using d by (auto simp: rset_iff)
  next
    assume "v \<in> rset D"
    then obtain q where "q \<in> set D" "v < snd q" by (auto simp: rset_iff)
    moreover have "sep D" using s by simp
    ultimately show "v < sk" using sep_last_bound[of D q] sk by auto
  qed
  ultimately show "v < sk \<longleftrightarrow> v \<in> rset (D @ sh)" by auto
  show "rank_outside (rset (D @ sh)) v = v - range_total D \<and> range_total D \<le> v" if a: "\<not> v < sk"
  proof -
    have "x < v" if "x \<in> rset D" for x
    proof -
      obtain q where q: "q \<in> set D" "x < snd q" using \<open>x \<in> rset D\<close> by (auto simp: rset_iff)
      moreover have "sep D" using s by simp
      ultimately have "snd q \<le> snd (last D)" "D \<noteq> []" using sep_last_bound by auto
      then show ?thesis using q a sk by simp
    qed
    then have "rset (D @ sh) \<inter> {..<v} = rset D" using r by (fastforce simp: rset_iff)
    moreover have "card (rset D) = range_total D" using s by (simp add: range_total_card)
    ultimately show ?thesis using card_below_le[of "rset (D @ sh)" v] by (simp add: rank_outside_def)
  qed
qed

lemma copy_old_spec:
  assumes "building b X lim" "sep old" "copy_old old u os b = (old', os', b')"
    and "\<forall>r \<in> set old. lim \<le> fst r" "lim \<le> u + os" "counts_right b"
  shows "\<exists>E lim'. old = E @ old' \<and> os' = os + range_total E \<and> building b' (X \<union> rset E) lim' \<and>
    lim \<le> lim' \<and> (\<forall>r \<in> set E. snd r \<le> lim') \<and> lim' \<le> u + os' \<and>
    (\<forall>r \<in> set old'. u + os' < fst r) \<and> counts_right b'"
  using assms
proof (induction old arbitrary: os b X lim)
  case (Cons r old)
  show ?case
  proof (cases "fst r \<le> u + os")
    case True
    have rl: "fst r < snd r" and lr: "lim \<le> fst r" using Cons.prems(2,4) by simp_all
    note bp = building_push_run[OF Cons.prems(1) lr rl]
    let ?b = "push_indexes b [fst r..<snd r]"
    have 1: "building ?b (X \<union> {fst r..<snd r}) (snd r)" using bp by simp
    have 2: "sep old" using Cons.prems(2) by simp
    have 3: "copy_old old u (os + range_len r) ?b = (old', os', b')" using Cons.prems(3) True by simp
    have 4: "\<forall>q \<in> set old. snd r \<le> fst q" using Cons.prems(2) by fastforce
    have 5: "snd r \<le> u + (os + range_len r)" using True rl by simp
    have 6: "counts_right ?b" using bp Cons.prems(6) by simp
    from Cons.IH[OF 1 2 3 4 5 6] obtain E lim' where ih: "old = E @ old'"
      "os' = os + range_len r + range_total E" "building b' (X \<union> {fst r..<snd r} \<union> rset E) lim'"
      "snd r \<le> lim'" "\<forall>r \<in> set E. snd r \<le> lim'" "lim' \<le> u + os'"
      "\<forall>r \<in> set old'. u + os' < fst r" "counts_right b'" by blast
    have "lim \<le> lim'" using ih(4) lr rl by simp
    then show ?thesis
      using ih by (intro exI[of _ "r # E"] exI[of _ lim']) (simp add: Un_assoc)
  next
    case False
    then have "\<forall>q \<in> set (r # old). u + os < fst q" using Cons.prems(2) by auto
    moreover have "old' = r # old" "os' = os" "b' = b" using Cons.prems(3) False by auto
    ultimately show ?thesis using Cons.prems(1,5,6) by (intro exI[of _ "[]"] exI[of _ lim]) simp
  qed
qed auto

text \<open>
  The invariant of the loop.  \<open>C\<close> and \<open>D\<close> are the ranges of the set and of \<open>shifted_by\<close> already
  passed, \<open>W\<close> the values already handled.
\<close>

lemma shifted_loop_spec:
  assumes "shifted_loop is sh old sk os ns b = (old', b')"
    and "sep (C @ old)" "sep (D @ sh)" "sorted_wrt (<) is"
    and "os = range_total C" "ns = range_total D" "sk = (if D = [] then 0 else snd (last D))"
    and "building b (rset C \<union> shifted_values (rset (C @ old)) (rset (D @ sh)) W) lim" "counts_right b"
    and "\<forall>r \<in> set C. snd r \<le> lim" "\<forall>r \<in> set old. lim \<le> fst r"
    and "\<forall>d \<in> set D. \<forall>i \<in> set is. fst d \<le> i"
    and "\<forall>i \<in> set is. i \<notin> rset (D @ sh) \<longrightarrow> lim \<le> rank_outside (rset (D @ sh)) i + os"
  shows "\<exists>C' lim'. C @ old = C' @ old' \<and>
    building b' (rset C' \<union> shifted_values (rset (C @ old)) (rset (D @ sh)) (W \<union> set is)) lim' \<and>
    (\<forall>r \<in> set old'. lim' \<le> fst r) \<and> counts_right b'"
  using assms
proof (induction "is" arbitrary: sh old sk os ns b C D W lim)
  case Nil
  then show ?case by (intro exI[of _ C] exI[of _ lim]) simp
next
  case (Cons i "is")
  let ?S = "rset (C @ old)" and ?I = "rset (D @ sh)"
  obtain sh1 ns1 sk1 where sp: "shift_past sh i ns sk = (sh1, ns1, sk1)"
    by (cases "shift_past sh i ns sk")
  have "sep sh" using Cons.prems(3) by simp
  from shift_past_spec[OF this sp] obtain E where E: "sh = E @ sh1" "ns1 = ns + range_total E"
    "\<forall>d \<in> set E. fst d \<le> i" "\<forall>r \<in> set sh1. i < fst r" "sk1 = (if E = [] then sk else snd (last E))" by blast
  define D1 where "D1 = D @ E"
  have D1: "D @ sh = D1 @ sh1" using E(1) by (simp add: D1_def)
  have s1: "sep (D1 @ sh1)" using Cons.prems(3) D1 by simp
  have d1: "\<forall>d \<in> set D1. fst d \<le> i" using Cons.prems(12) E(3) by (auto simp: D1_def)
  have k1: "sk1 = (if D1 = [] then 0 else snd (last D1))" using E(5) Cons.prems(7) by (simp add: D1_def)
  have n1: "ns1 = range_total D1" using E(2) Cons.prems(6) by (simp add: D1_def)
  note sk = skip_iff[OF s1 d1 E(4) k1, folded D1]
  have si: "sorted_wrt (<) is" and gi: "\<forall>j \<in> set is. i < j" using Cons.prems(4) by simp_all
  have f1: "\<forall>d \<in> set D1. \<forall>j \<in> set is. fst d \<le> j" using d1 gi by fastforce
  show ?case
  proof (cases "i < sk1")
    case True
    then have "shifted_loop is sh1 old sk1 os ns1 b = (old', b')" using Cons.prems(1) sp by simp
    moreover have "shifted_values ?S ?I (W \<union> set (i # is)) = shifted_values ?S ?I (W \<union> set is)"
      using True sk(1) by (auto simp: shifted_values_def)
    ultimately show ?thesis
      using Cons.IH[of sh1 old sk1 os ns1 b C D1 W lim] Cons.prems s1 si n1 k1 f1 D1 by simp
  next
    case False
    define u where "u = i - ns1"
    have out: "i \<notin> ?I" and rk: "rank_outside ?I i = u" using sk False n1 by (simp_all add: u_def)
    obtain old1 os1 b1 where cp: "copy_old old u os b = (old1, os1, b1)"
      by (cases "copy_old old u os b")
    have so: "sep old" using Cons.prems(2) by simp
    have lu: "lim \<le> u + os" using Cons.prems(13) out rk by simp
    from copy_old_spec[OF Cons.prems(8) so cp Cons.prems(11) lu Cons.prems(9)] obtain F lim1 where
      F: "old = F @ old1" "os1 = os + range_total F" "lim \<le> lim1" "\<forall>r \<in> set F. snd r \<le> lim1"
        "lim1 \<le> u + os1" "\<forall>r \<in> set old1. u + os1 < fst r" "counts_right b1"
      and b1: "building b1 (rset C \<union> shifted_values ?S ?I W \<union> rset F) lim1" by blast
    define C1 where "C1 = C @ F"
    have C1: "C @ old = C1 @ old1" using F(1) by (simp add: C1_def)
    have o1: "os1 = range_total C1" using F(2) Cons.prems(5) by (simp add: C1_def)
    have cl: "\<forall>r \<in> set C1. snd r \<le> lim1" using Cons.prems(10) F(3,4) by (force simp: C1_def)
    define p where "p = u + os1"
    have pS: "nth_outside ?S u = p"
    proof (rule nth_outside_eqI)
      have lo: "\<forall>x \<in> rset C1. x < p" using cl F(5) by (fastforce simp: p_def rset_iff)
      have hi: "\<forall>x \<in> rset old1. p < x" using F(6) by (fastforce simp: p_def rset_iff)
      show "p \<notin> ?S" unfolding C1 using lo hi by auto
      have "?S \<inter> {..<p} = rset C1" unfolding C1 using lo hi by fastforce
      moreover have "sep C1" using Cons.prems(2) C1 by simp
      ultimately show "rank_outside ?S p = u" using o1 by (simp add: rank_outside_def range_total_card p_def)
    qed simp
    have sv: "shifted_values ?S ?I (insert i W) = insert p (shifted_values ?S ?I W)"
      using out rk pS by (auto simp: shifted_values_def)
    define b2 where "b2 = builder_push_index b1 p"
    have "building b2 (insert p (rset C \<union> shifted_values ?S ?I W \<union> rset F)) (p + 1)"
      unfolding b2_def by (rule building_push_index(1)[OF b1]) (use F(5) in \<open>simp add: p_def\<close>)
    moreover have "insert p (rset C \<union> shifted_values ?S ?I W \<union> rset F) =
        rset C1 \<union> shifted_values ?S ?I (insert i W)"
      unfolding sv by (auto simp: C1_def)
    ultimately have B2: "building b2 (rset C1 \<union> shifted_values ?S ?I (insert i W)) (p + 1)" by simp
    have c2: "counts_right b2"
      unfolding b2_def by (rule building_push_index(2)[OF b1 _ F(7)]) (use F(5) in \<open>simp add: p_def\<close>)
    have lp: "shifted_loop is sh1 old1 sk1 os1 ns1 b2 = (old', b')"
      using Cons.prems(1) sp cp False by (simp add: u_def b2_def p_def)
    have 10: "\<forall>r \<in> set C1. snd r \<le> p + 1" using cl F(5) by (fastforce simp: p_def)
    have 11: "\<forall>r \<in> set old1. p + 1 \<le> fst r" using F(6) by (fastforce simp: p_def)
    have 13: "\<forall>j \<in> set is. j \<notin> ?I \<longrightarrow> p + 1 \<le> rank_outside ?I j + os1"
    proof (intro ballI impI)
      fix j assume j: "j \<in> set is" "j \<notin> ?I"
      then have "rank_outside ?I i < rank_outside ?I j"
        using gi out by (simp add: rank_outside_less_iff)
      then show "p + 1 \<le> rank_outside ?I j + os1" using rk by (simp add: p_def)
    qed
    have "\<exists>C' lim'. C1 @ old1 = C' @ old' \<and>
      building b' (rset C' \<union> shifted_values (rset (C1 @ old1)) (rset (D1 @ sh1)) (insert i W \<union> set is)) lim' \<and>
      (\<forall>r \<in> set old'. lim' \<le> fst r) \<and> counts_right b'"
      by (rule Cons.IH[OF lp _ s1 si o1 n1 k1 _ c2 10 11 f1])
        (use Cons.prems(2) C1 B2 D1 13 in simp_all)
    then show ?thesis unfolding C1 D1 by simp
  qed
qed

text \<open>The chunks never become fewer.\<close>

lemma push_cap: "builder_cap b \<le> builder_cap (builder_push b r)"
  by (simp add: builder_cap_def builder_push_def Let_def)

lemma push_indexes_cap: "builder_cap b \<le> builder_cap (push_indexes b is)"
  by (induction "is" arbitrary: b) (auto simp: builder_push_index_def intro: order_trans[OF push_cap])

lemma copy_old_cap: "copy_old old u os b = (old', os', b') \<Longrightarrow> builder_cap b \<le> builder_cap b'"
  by (induction old u os b rule: copy_old.induct)
    (auto split: if_splits intro: order_trans[OF push_indexes_cap])

lemma shifted_loop_cap:
  "shifted_loop is sh old sk os ns b = (old', b') \<Longrightarrow> builder_cap b \<le> builder_cap b'"
proof (induction "is" arbitrary: sh old sk os ns b)
  case (Cons i "is")
  obtain sh1 ns1 sk1 where sp: "shift_past sh i ns sk = (sh1, ns1, sk1)"
    by (cases "shift_past sh i ns sk")
  obtain old1 os1 b1 where cp: "copy_old old (i - ns1) os b = (old1, os1, b1)"
    by (cases "copy_old old (i - ns1) os b")
  show ?case
  proof (cases "i < sk1")
    case True
    then show ?thesis using Cons.IH[of sh1 old sk1 os ns1 b] Cons.prems sp by simp
  next
    case False
    then have "shifted_loop is sh1 old1 sk1 os1 ns1 (builder_push_index b1 (i - ns1 + os1)) = (old', b')"
      using Cons.prems sp cp by simp
    from Cons.IH[OF this] copy_old_cap[OF cp] push_cap[of b1 "(i - ns1 + os1, i - ns1 + os1 + 1)"]
    show ?thesis by (simp add: builder_push_index_def)
  qed
qed simp

lemma push_ranges_spec:
  assumes "building b X lim" "sep rs" "\<forall>r \<in> set rs. lim \<le> fst r"
  shows "\<exists>lim'. building (foldl builder_push b rs) (X \<union> rset rs) lim' \<and>
    builder_cap b \<le> builder_cap (foldl builder_push b rs) \<and>
    length (built b) \<le> length (built (foldl builder_push b rs)) \<and>
    (counts_right b \<and> length (built (foldl builder_push b rs)) < builder_cap b \<longrightarrow>
      counts_right (foldl builder_push b rs))"
  using assms
proof (induction rs arbitrary: b X lim)
  case (Cons r rs)
  let ?b = "builder_push b r"
  have rl: "fst r < snd r" and l: "lim \<le> fst r" using Cons.prems(2,3) by simp_all
  note bp = building_push[OF Cons.prems(1) l rl]
  have b: "builder_ok b" "sep (built b)" using Cons.prems(1) by (simp_all add: building_def)
  note ps = builder_push_spec[OF b(1), of r]
  have "sep rs" "\<forall>q \<in> set rs. snd r \<le> fst q" using Cons.prems(2) by fastforce+
  from Cons.IH[OF bp this] obtain lim' where
    ih: "building (foldl builder_push ?b rs) (X \<union> {fst r..<snd r} \<union> rset rs) lim'"
      "builder_cap ?b \<le> builder_cap (foldl builder_push ?b rs)"
      "length (built ?b) \<le> length (built (foldl builder_push ?b rs))"
      "counts_right ?b \<and> length (built (foldl builder_push ?b rs)) < builder_cap ?b \<longrightarrow>
        counts_right (foldl builder_push ?b rs)" by blast
  have "length (built b) \<le> length (built ?b)" using ps(2) by (simp add: flat_push_def)
  then show ?case
    using ih ps(3)[OF less_imp_le[OF rl] b(2)] ps(4) by (auto simp: Un_assoc)
qed auto

lemma shifted_values_empty [simp]: "shifted_values S I {} = {}"
  by (simp add: shifted_values_def)

lemma add_shifted_by_spec:
  assumes m: "wf m" and s: "wf s" and v: "wf v"
  shows "sep (ranges (add_shifted_by m s v))"
    "idx (add_shifted_by m s v) = idx m \<union> shifted_values (idx m) (idx s) (idx v)"
    "length (ranges (add_shifted_by m s v)) < builder_cap (builder_init m) \<Longrightarrow> wf (add_shifted_by m s v)"
proof -
  have "sep (ranges (add_shifted_by m s v)) \<and>
    idx (add_shifted_by m s v) = idx m \<union> shifted_values (idx m) (idx s) (idx v) \<and>
    (length (ranges (add_shifted_by m s v)) < builder_cap (builder_init m) \<longrightarrow> wf (add_shifted_by m s v))"
  proof (cases "v = []")
    case True
    then show ?thesis using m by (simp add: add_shifted_by_def wf_def)
  next
    case False
    let ?b = "builder_init m"
    obtain old b where e: "shifted_loop (as_indexes v) (ranges s) (ranges m) 0 0 0 ?b = (old, b)"
      by (cases "shifted_loop (as_indexes v) (ranges s) (ranges m) 0 0 0 ?b")
    note vs = as_indexes_sorted[OF v]
    have "\<exists>C' lim'. [] @ ranges m = C' @ old \<and>
      building b (rset C' \<union> shifted_values (rset ([] @ ranges m)) (rset ([] @ ranges s)) ({} \<union> set (as_indexes v))) lim' \<and>
      (\<forall>r \<in> set old. lim' \<le> fst r) \<and> counts_right b"
      by (rule shifted_loop_spec[OF e, where lim = 0]) (use m s vs wfD(2) builder_init_ok(3) in simp_all)
    then obtain C' lim where c: "ranges m = C' @ old"
      "building b (rset C' \<union> shifted_values (idx m) (idx s) (idx v)) lim"
      "\<forall>r \<in> set old. lim \<le> fst r" "counts_right b" using vs by auto
    have "sep old" using wfD(2)[OF m] c(1) by simp
    from push_ranges_spec[OF c(2) this c(3)] obtain lim' where
      p: "building (foldl builder_push b old) (rset C' \<union> shifted_values (idx m) (idx s) (idx v) \<union> rset old) lim'"
        "length (built (foldl builder_push b old)) < builder_cap b \<longrightarrow> counts_right (foldl builder_push b old)"
      using c(4) by blast
    have eq: "add_shifted_by m s v = builder_finalize (foldl builder_push b old)"
      using False e by (simp add: add_shifted_by_def range_walk_all[OF wfD(1)[OF m]] range_walk_all[OF wfD(1)[OF s]])
    have cap: "builder_cap ?b \<le> builder_cap b" by (rule shifted_loop_cap[OF e])
    note bf = builder_finalize_spec[of "foldl builder_push b old"]
    have "builder_ok (foldl builder_push b old)" using p(1) by (simp add: building_def)
    then show ?thesis using bf p cap c(1) unfolding eq wf_def by (auto simp: building_def)
  qed
  then show "sep (ranges (add_shifted_by m s v))"
    "idx (add_shifted_by m s v) = idx m \<union> shifted_values (idx m) (idx s) (idx v)"
    "length (ranges (add_shifted_by m s v)) < builder_cap (builder_init m) \<Longrightarrow> wf (add_shifted_by m s v)"
    by blast+
qed

end
