(* ===== verification/Sequence_Edits.thy ===== *)
theory Sequence_Edits
  imports Prelude
begin

text \<open>
  The meaning of a pair of index sets as an edit of a sequence: deleting the positions \<open>D\<close> of the
  old sequence and the positions \<open>I\<close> of the new one leaves the same elements in the same order.
  The laws here are about sequences only; the changeset builder is their client.
\<close>

section \<open>Composing position maps\<close>

lemma strict_mono_nth_outside: "finite S \<Longrightarrow> strict_mono (nth_outside S)"
  by (simp add: strict_mono_def)

text \<open>A strictly increasing enumeration of the complement is \<open>nth_outside\<close>.\<close>

lemma nth_outside_unique:
  assumes "finite S" "strict_mono f" "range f = - S"
  shows "nth_outside S i = f i"
proof (rule nth_outside_eqI[OF assms(1)])
  show "f i \<notin> S" using assms(3) by auto
  have "- S \<inter> {..<f i} = f ` {..<i}"
  proof (intro equalityI subsetI)
    fix x assume x: "x \<in> - S \<inter> {..<f i}"
    then obtain k where "x = f k" using assms(3) by blast
    then show "x \<in> f ` {..<i}" using x assms(2) by (simp add: strict_mono_less)
  next
    fix x assume "x \<in> f ` {..<i}"
    then show "x \<in> - S \<inter> {..<f i}" using assms(2,3) by (auto simp: strict_mono_less)
  qed
  moreover have "inj_on f {..<i}" by (rule inj_onI) (simp add: strict_mono_eq[OF assms(2)])
  ultimately show "rank_outside S (f i) = i" by (simp add: rank_outside_compl card_image)
qed

lemma nth_outside_comp:
  assumes A: "finite A" and B: "finite B"
  shows "nth_outside A (nth_outside B k) = nth_outside (A \<union> nth_outside A ` B) k"
proof -
  have "range (\<lambda>k. nth_outside A (nth_outside B k)) = - (A \<union> nth_outside A ` B)"
  proof (intro equalityI subsetI)
    fix x assume "x \<in> range (\<lambda>k. nth_outside A (nth_outside B k))"
    then show "x \<in> - (A \<union> nth_outside A ` B)" using A B by auto
  next
    fix x assume x: "x \<in> - (A \<union> nth_outside A ` B)"
    then obtain y where y: "nth_outside A y = x" using nth_outside_surj[OF A] by auto
    then have "y \<notin> B" using x by auto
    then obtain k where "nth_outside B k = y" using nth_outside_surj[OF B] by auto
    then show "x \<in> range (\<lambda>k. nth_outside A (nth_outside B k))" using y by auto
  qed
  moreover have "strict_mono (\<lambda>k. nth_outside A (nth_outside B k))" using A B by (simp add: strict_mono_def)
  moreover have "finite (A \<union> nth_outside A ` B)" using A B by simp
  ultimately show ?thesis using nth_outside_unique by metis
qed

lemma nth_rank_image: "finite A \<Longrightarrow> X \<inter> A = {} \<Longrightarrow> nth_outside A ` rank_outside A ` X = X"
proof -
  assume "finite A" "X \<inter> A = {}"
  then have "(\<lambda>x. nth_outside A (rank_outside A x)) ` X = (\<lambda>x. x) ` X"
    by (intro image_cong) (auto simp: disjoint_iff)
  then show ?thesis by (simp add: image_image)
qed

lemma nth_image_outside: "finite S \<Longrightarrow> nth_outside S ` X - S = nth_outside S ` X"
  by auto

text \<open>Taking out \<open>A\<close> first and then what is left of \<open>B\<close> is taking out both.\<close>

lemma nth_outside_Un:
  assumes "finite A" "finite B"
  shows "nth_outside A (nth_outside (rank_outside A ` (B - A)) k) = nth_outside (A \<union> B) k"
proof -
  have "nth_outside A ` rank_outside A ` (B - A) = B - A"
    using assms(1) by (intro nth_rank_image) auto
  then show ?thesis using assms by (simp add: nth_outside_comp)
qed

lemma inj_nth_outside: "finite S \<Longrightarrow> inj_on (nth_outside S) X"
  by (rule inj_onI) simp

lemma inj_rank_outside: "finite S \<Longrightarrow> X \<inter> S = {} \<Longrightarrow> inj_on (rank_outside S) X"
  by (rule inj_onI) (metis disjoint_iff nth_rank_outside)

lemma nth_outside_bound:
  assumes "S \<subseteq> {..<n}" "k < n - card S"
  shows "nth_outside S k < n"
proof (rule ccontr)
  assume "\<not> nth_outside S k < n"
  then have le: "n \<le> nth_outside S k" by simp
  have f: "finite S" using assms(1) finite_subset by blast
  have "S \<inter> {..<n} = S" using assms(1) by auto
  then have "rank_outside S n = n - card S" by (simp add: rank_outside_def)
  then show False using rank_outside_mono[OF le, of S] f assms(2) by simp
qed

lemma rank_outside_bound:
  assumes "S \<subseteq> {..<n}" "x < n" "x \<notin> S"
  shows "rank_outside S x < n - card S"
proof -
  have f: "finite S" using assms(1) finite_subset by blast
  have "S \<inter> {..<n} = S" using assms(1) by auto
  then have n: "rank_outside S n = n - card S" by (simp add: rank_outside_def)
  have "n \<notin> S" using assms(1) by auto
  then have "rank_outside S x < rank_outside S n" using assms(2,3) f by (simp add: rank_outside_less_iff)
  then show ?thesis using n by simp
qed

section \<open>What is left of a sequence\<close>

lemma nths_map_nth: "nths xs A = map (\<lambda>i. xs ! i) (filter (\<lambda>i. i \<in> A) [0..<length xs])"
proof -
  have "zip xs [0..<length xs] = map (\<lambda>i. (xs ! i, i)) [0..<length xs]"
    by (rule nth_equalityI) auto
  then show ?thesis by (simp add: nths_def filter_map comp_def)
qed

lemma filter_outside:
  assumes "D \<subseteq> {..<n}"
  shows "filter (\<lambda>i. i \<in> - D) [0..<n] = map (nth_outside D) [0..<n - card D]"
proof (rule strict_sorted_equal)
  have f: "finite D" using assms finite_subset by blast
  show "sorted_wrt (<) (filter (\<lambda>i. i \<in> - D) [0..<n])" by (simp add: sorted_wrt_filter)
  show "sorted_wrt (<) (map (nth_outside D) [0..<n - card D])" using f by (simp add: sorted_wrt_map)
  show "set (filter (\<lambda>i. i \<in> - D) [0..<n]) = set (map (nth_outside D) [0..<n - card D])"
  proof (intro equalityI subsetI)
    fix x assume "x \<in> set (map (nth_outside D) [0..<n - card D])"
    then show "x \<in> set (filter (\<lambda>i. i \<in> - D) [0..<n])" using f nth_outside_bound[OF assms] by auto
  next
    fix x assume x: "x \<in> set (filter (\<lambda>i. i \<in> - D) [0..<n])"
    then have "rank_outside D x < n - card D" "nth_outside D (rank_outside D x) = x"
      using rank_outside_bound[OF assms] f by simp_all
    then have "x \<in> nth_outside D ` {0..<n - card D}" by (metis atLeast0LessThan imageI lessThan_iff)
    then show "x \<in> set (map (nth_outside D) [0..<n - card D])" by simp
  qed
qed

lemma nths_outside:
  "D \<subseteq> {..<length xs} \<Longrightarrow> nths xs (- D) = map (\<lambda>k. xs ! nth_outside D k) [0..<length xs - card D]"
  by (simp add: nths_map_nth filter_outside del: Compl_iff)

definition applies :: "nat set \<Rightarrow> nat set \<Rightarrow> 'a list \<Rightarrow> 'a list \<Rightarrow> bool" where
  "applies D I xs ys \<longleftrightarrow> D \<subseteq> {..<length xs} \<and> I \<subseteq> {..<length ys} \<and> nths xs (- D) = nths ys (- I)"

lemma applies_iff:
  "applies D I xs ys \<longleftrightarrow> D \<subseteq> {..<length xs} \<and> I \<subseteq> {..<length ys} \<and>
     length xs - card D = length ys - card I \<and>
     (\<forall>k < length xs - card D. xs ! nth_outside D k = ys ! nth_outside I k)"
  unfolding applies_def by (auto simp: nths_outside list_eq_iff_nth_eq)

lemma appliesD:
  assumes "applies D I xs ys"
  shows "D \<subseteq> {..<length xs}" "I \<subseteq> {..<length ys}" "length xs - card D = length ys - card I"
    "\<And>k. k < length xs - card D \<Longrightarrow> xs ! nth_outside D k = ys ! nth_outside I k"
    "finite D" "finite I" "card D \<le> length xs" "card I \<le> length ys"
proof -
  note a = assms[unfolded applies_iff]
  show "D \<subseteq> {..<length xs}" "I \<subseteq> {..<length ys}" "length xs - card D = length ys - card I"
    "\<And>k. k < length xs - card D \<Longrightarrow> xs ! nth_outside D k = ys ! nth_outside I k"
    using a by blast+
  show "finite D" "finite I" using a finite_subset by blast+
  show "card D \<le> length xs" "card I \<le> length ys"
    using a card_mono[of "{..<length xs}" D] card_mono[of "{..<length ys}" I] by simp_all
qed

lemma applies_refl [simp]: "applies {} {} xs xs"
  by (simp add: applies_def)

text \<open>A survivor keeps its element.\<close>

lemma applies_survivor:
  assumes "applies D I xs ys" "i < length ys" "i \<notin> I"
  shows "xs ! nth_outside D (rank_outside I i) = ys ! i"
    "nth_outside D (rank_outside I i) < length xs" "nth_outside D (rank_outside I i) \<notin> D"
proof -
  note a = appliesD[OF assms(1)]
  have k: "rank_outside I i < length xs - card D"
    using rank_outside_bound[OF a(2) assms(2,3)] a(3) by simp
  show "xs ! nth_outside D (rank_outside I i) = ys ! i" using a(4)[OF k] a(6) assms(3) by simp
  show "nth_outside D (rank_outside I i) < length xs" using nth_outside_bound[OF a(1) k] .
  show "nth_outside D (rank_outside I i) \<notin> D" using a(5) by simp
qed

section \<open>Composing edits\<close>

definition merged_deletions :: "nat set \<Rightarrow> nat set \<Rightarrow> nat set \<Rightarrow> nat set" where
  "merged_deletions D1 I1 D2 = D1 \<union> nth_outside D1 ` rank_outside I1 ` (D2 - I1)"

definition merged_insertions :: "nat set \<Rightarrow> nat set \<Rightarrow> nat set \<Rightarrow> nat set" where
  "merged_insertions I1 D2 I2 = nth_outside I2 ` rank_outside D2 ` (I1 - D2) \<union> I2"

lemma rank_image_bound:
  "I \<subseteq> {..<n} \<Longrightarrow> D \<subseteq> {..<n} \<Longrightarrow> rank_outside I ` (D - I) \<subseteq> {..<n - card I}"
  using rank_outside_bound[of I n] by auto

lemma nth_image_bound: "D \<subseteq> {..<n} \<Longrightarrow> X \<subseteq> {..<n - card D} \<Longrightarrow> nth_outside D ` X \<subseteq> {..<n}"
  using nth_outside_bound[of D n] by auto

lemma card_merged:
  assumes "finite A" "finite B" "finite C"
  shows "card (A \<union> nth_outside A ` rank_outside B ` (C - B)) = card A + card (C - B)"
proof -
  have "card (nth_outside A ` rank_outside B ` (C - B)) = card (C - B)"
    using assms by (simp add: card_image inj_nth_outside inj_rank_outside Diff_disjoint inf_commute)
  moreover have "A \<inter> nth_outside A ` rank_outside B ` (C - B) = {}" using assms(1) by auto
  ultimately show ?thesis using assms by (simp add: card_Un_disjoint)
qed

theorem applies_merge:
  assumes a: "applies D1 I1 xs ys" and b: "applies D2 I2 ys zs"
  shows "applies (merged_deletions D1 I1 D2) (merged_insertions I1 D2 I2) xs zs"
proof -
  note A = appliesD[OF a] and B = appliesD[OF b]
  have ba: "rank_outside I1 ` (D2 - I1) \<subseteq> {..<length xs - card D1}"
    using rank_image_bound[OF A(2) B(1)] A(3) by simp
  have bb: "rank_outside D2 ` (I1 - D2) \<subseteq> {..<length zs - card I2}"
    using rank_image_bound[OF B(1) A(2)] B(3) by simp
  have sub: "merged_deletions D1 I1 D2 \<subseteq> {..<length xs}" "merged_insertions I1 D2 I2 \<subseteq> {..<length zs}"
    using nth_image_bound[OF A(1) ba] nth_image_bound[OF B(2) bb] A(1) B(2)
    by (auto simp: merged_deletions_def merged_insertions_def)
  have cd: "card (merged_deletions D1 I1 D2) = card D1 + card (D2 - I1)"
    "card (merged_insertions I1 D2 I2) = card I2 + card (I1 - D2)"
    using A(5,6) B(5,6) by (simp_all add: merged_deletions_def merged_insertions_def card_merged Un_commute)
  have "card I1 + card (D2 - I1) = card D2 + card (I1 - D2)"
  proof -
    have "card (I1 \<union> D2) = card I1 + card (D2 - I1)" "card (D2 \<union> I1) = card D2 + card (I1 - D2)"
      using A(6) B(5) by (metis Un_Diff_cancel card_Un_disjoint Diff_disjoint finite_Diff)+
    then show ?thesis by (simp add: Un_commute)
  qed
  then have len: "length xs - card (merged_deletions D1 I1 D2) = length zs - card (merged_insertions I1 D2 I2)"
    using cd A(3,7,8) B(3,7,8) by linarith
  have "xs ! nth_outside (merged_deletions D1 I1 D2) k = zs ! nth_outside (merged_insertions I1 D2 I2) k"
    if k: "k < length xs - card (merged_deletions D1 I1 D2)" for k
  proof -
    let ?j = "nth_outside (rank_outside I1 ` (D2 - I1)) k" and ?l = "nth_outside (rank_outside D2 ` (I1 - D2)) k"
    have "card (rank_outside I1 ` (D2 - I1)) = card (D2 - I1)" "card (rank_outside D2 ` (I1 - D2)) = card (I1 - D2)"
      using A(6) B(5) by (simp_all add: card_image inj_rank_outside Diff_disjoint inf_commute)
    then have j: "?j < length xs - card D1" and l: "?l < length zs - card I2"
      using nth_outside_bound[OF ba, of k] nth_outside_bound[OF bb, of k] k cd len by simp_all
    have "nth_outside (merged_deletions D1 I1 D2) k = nth_outside D1 ?j"
      using A(5) B(5) by (simp add: merged_deletions_def nth_outside_comp)
    moreover have "nth_outside (merged_insertions I1 D2 I2) k = nth_outside I2 ?l"
      using A(6) B(6) by (simp add: merged_insertions_def nth_outside_comp Un_commute)
    moreover have "nth_outside I1 ?j = nth_outside D2 ?l"
      using nth_outside_Un[OF A(6) B(5)] nth_outside_Un[OF B(5) A(6)] by (simp add: Un_commute)
    ultimately show ?thesis using A(4)[OF j] B(4)[of ?l] l B(3) by simp
  qed
  then show ?thesis using sub len by (simp add: applies_iff)
qed

text \<open>Single edits are special cases.\<close>

lemma applies_insert_step:
  assumes "i \<le> length ys"
  shows "applies {} {i..<i + length zs} ys (take i ys @ zs @ drop i ys)"
  unfolding applies_iff using assms by (auto simp: nth_outside_run nth_append)

lemma applies_erase_step:
  assumes "i < length ys"
  shows "applies {i} {} ys (take i ys @ drop (Suc i) ys)"
proof -
  have "nth_outside {i} k = (if k < i then k else k + 1)" for k
    using nth_outside_run[of i 1 k] by (simp add: atLeastLessThanSuc)
  then show ?thesis using assms by (auto simp: applies_iff nth_append)
qed

end
