(* ===== verification/Index_Set_Interface.thy ===== *)
theory Index_Set_Interface
  imports Index_Set_Shifted Sequence_Edits
begin

text \<open>
  The contract of \<open>IndexSet\<close> as its clients use it: a well-formedness predicate, the represented
  set, and what each operation does to it.  The lemmas inside the locales are about any
  implementation of the contract; the interpretations at the end discharge it for the chunked
  vectors of \<open>index_set.cpp\<close>.
\<close>

section \<open>Removing as the clients see it\<close>

text \<open>The loop of \<open>remove\<close> always ends (\<open>remove_run_spec\<close>, \<open>remove_set_spec\<close>).\<close>

definition remove :: "crv \<Rightarrow> size \<Rightarrow> nat \<Rightarrow> crv" where
  "remove m index n = (case remove_run m index n of Some m' \<Rightarrow> m' | None \<Rightarrow> m)"

definition removed :: "crv \<Rightarrow> crv \<Rightarrow> crv" where
  "removed m values = (case remove_set m values of Some m' \<Rightarrow> m' | None \<Rightarrow> m)"

section \<open>Operations on one position\<close>

locale index_set =
  fixes ok :: "'s \<Rightarrow> bool"
    and members :: "'s \<Rightarrow> nat set"
    and none :: "'s"
    and has :: "'s \<Rightarrow> nat \<Rightarrow> bool"
    and put :: "'s \<Rightarrow> nat \<Rightarrow> 's"
    and drop_run :: "'s \<Rightarrow> nat \<Rightarrow> nat \<Rightarrow> 's"
    and open_at :: "'s \<Rightarrow> nat \<Rightarrow> nat \<Rightarrow> 's"
    and slide_at :: "'s \<Rightarrow> nat \<Rightarrow> nat \<Rightarrow> 's"
    and close_at :: "'s \<Rightarrow> nat \<Rightarrow> 's"
    and take_out :: "'s \<Rightarrow> nat \<Rightarrow> 's \<times> nat"
    and put_shifted :: "'s \<Rightarrow> nat \<Rightarrow> 's \<times> nat"
    and up :: "'s \<Rightarrow> nat \<Rightarrow> nat"
    and down :: "'s \<Rightarrow> nat \<Rightarrow> nat"
    and prefix_set :: "nat \<Rightarrow> 's"
  assumes finite_members: "finite (members s)"
    and ok_none: "ok none" and members_none: "members none = {}"
    and has_iff: "ok s \<Longrightarrow> has s i \<longleftrightarrow> i \<in> members s"
    and ok_put: "ok s \<Longrightarrow> ok (put s i)"
    and members_put: "ok s \<Longrightarrow> members (put s i) = insert i (members s)"
    and ok_drop: "ok s \<Longrightarrow> 0 < n \<Longrightarrow> ok (drop_run s i n)"
    and members_drop: "ok s \<Longrightarrow> 0 < n \<Longrightarrow> members (drop_run s i n) = members s - {i..<i + n}"
    and ok_open: "ok s \<Longrightarrow> 0 < n \<Longrightarrow> ok (open_at s i n)"
    and members_open: "ok s \<Longrightarrow> 0 < n \<Longrightarrow>
      members (open_at s i n) = nth_outside {i..<i + n} ` members s \<union> {i..<i + n}"
    and ok_slide: "ok s \<Longrightarrow> 0 < n \<Longrightarrow> ok (slide_at s i n)"
    and members_slide: "ok s \<Longrightarrow> 0 < n \<Longrightarrow> members (slide_at s i n) = nth_outside {i..<i + n} ` members s"
    and ok_close: "ok s \<Longrightarrow> ok (close_at s i)"
    and members_close: "ok s \<Longrightarrow> members (close_at s i) = rank_outside {i} ` (members s - {i})"
    and ok_take_out: "ok s \<Longrightarrow> ok (fst (take_out s i))"
    and members_take_out: "ok s \<Longrightarrow> members (fst (take_out s i)) = rank_outside {i} ` (members s - {i})"
    and result_take_out: "ok s \<Longrightarrow>
      snd (take_out s i) = (if i \<in> members s then npos else rank_outside (members s) i)"
    and ok_put_shifted: "ok s \<Longrightarrow> ok (fst (put_shifted s i))"
    and members_put_shifted: "ok s \<Longrightarrow> members (fst (put_shifted s i)) = insert (nth_outside (members s) i) (members s)"
    and result_put_shifted: "ok s \<Longrightarrow> snd (put_shifted s i) = nth_outside (members s) i"
    and up_spec: "ok s \<Longrightarrow> up s i = nth_outside (members s) i"
    and down_spec: "ok s \<Longrightarrow> down s i = rank_outside (members s) i"
    and ok_prefix: "ok (prefix_set n)" and members_prefix: "members (prefix_set n) = {..<n}"
begin

text \<open>Shifting and unshifting an index are inverse outside the set.\<close>

lemma down_up: "ok s \<Longrightarrow> down s (up s i) = i"
  by (simp add: up_spec down_spec finite_members)

lemma up_down: "ok s \<Longrightarrow> \<not> has s i \<Longrightarrow> up s (down s i) = i"
  by (simp add: up_spec down_spec finite_members has_iff)

lemma up_fresh: "ok s \<Longrightarrow> \<not> has s (up s i)"
  by (simp add: up_spec has_iff finite_members)

text \<open>Opening a position and closing it again, or sliding and closing, changes nothing.\<close>

lemma close_open:
  assumes "ok s"
  shows "members (close_at (open_at s i 1) i) = members s" "members (close_at (slide_at s i 1) i) = members s"
proof -
  have e: "{i..<i + 1} = {i}" by auto
  have r: "rank_outside {i} ` nth_outside {i} ` members s = members s" by (simp add: image_image)
  have d: "nth_outside {i} ` members s - {i} = nth_outside {i} ` members s" by (rule nth_image_outside) simp
  have "members (open_at s i 1) - {i} = nth_outside {i} ` members s"
    using members_open[OF assms, of 1 i] d unfolding e by auto
  then show "members (close_at (open_at s i 1) i) = members s"
    using members_close[OF ok_open[OF assms], of 1 i i] r by simp
  have "members (slide_at s i 1) - {i} = nth_outside {i} ` members s"
    using members_slide[OF assms, of 1 i] d unfolding e by auto
  then show "members (close_at (slide_at s i 1) i) = members s"
    using members_close[OF ok_slide[OF assms], of 1 i i] r by simp
qed

text \<open>
  Recording edits of a sequence: \<open>d\<close> holds positions of the original sequence, \<open>i\<close> of the current
  one.
\<close>

lemma record_insert:
  assumes "ok i" "applies (members d) (members i) xs ys" "k \<le> length ys" "zs \<noteq> []"
  shows "applies (members d) (members (open_at i k (length zs))) xs (take k ys @ zs @ drop k ys)"
proof -
  have "applies (merged_deletions (members d) (members i) {}) (merged_insertions (members i) {} {k..<k + length zs})
      xs (take k ys @ zs @ drop k ys)"
    by (rule applies_merge[OF assms(2) applies_insert_step[OF assms(3)]])
  moreover have "rank_outside {} ` members i = members i" by (simp add: image_def)
  ultimately show ?thesis
    using assms(1,4) by (simp add: merged_deletions_def merged_insertions_def members_open)
qed

lemma record_erase:
  assumes "ok d" "ok i" "applies (members d) (members i) xs ys" "k < length ys" "length ys \<le> npos"
  shows "applies (members (if snd (take_out i k) \<noteq> npos then fst (put_shifted d (snd (take_out i k))) else d))
    (members (fst (take_out i k))) xs (take k ys @ drop (Suc k) ys)"
proof -
  have m: "applies (merged_deletions (members d) (members i) {k}) (merged_insertions (members i) {k} {})
      xs (take k ys @ drop (Suc k) ys)"
    by (rule applies_merge[OF assms(3) applies_erase_step[OF assms(4)]])
  have "merged_insertions (members i) {k} {} = members (fst (take_out i k))"
    using assms(2) by (simp add: merged_insertions_def members_take_out image_image)
  moreover have "merged_deletions (members d) (members i) {k} =
    members (if snd (take_out i k) \<noteq> npos then fst (put_shifted d (snd (take_out i k))) else d)"
  proof (cases "k \<in> members i")
    case True
    then show ?thesis using assms(2) by (simp add: merged_deletions_def result_take_out)
  next
    case False
    have "rank_outside (members i) k \<le> k" by (rule rank_outside_le)
    then have "rank_outside (members i) k \<noteq> npos" using assms(4,5) by simp
    moreover have "{k} - members i = {k}" using False by auto
    ultimately show ?thesis
      using False assms(1,2) by (simp add: merged_deletions_def result_take_out members_put_shifted)
  qed
  ultimately show ?thesis using m by simp
qed

lemma record_clear: "applies (members (prefix_set (length xs))) (members none) xs []"
  by (simp add: applies_iff members_prefix members_none)

end

section \<open>Operations on a set of positions\<close>

locale index_set_bulk = index_set ok members none has put drop_run open_at slide_at close_at take_out
    put_shifted up down prefix_set
  for ok :: "'s \<Rightarrow> bool" and members none has put drop_run open_at slide_at close_at take_out
    put_shifted up down prefix_set +
  fixes put_set :: "'s \<Rightarrow> 's \<Rightarrow> 's"
    and drop_set :: "'s \<Rightarrow> 's \<Rightarrow> 's"
    and open_set :: "'s \<Rightarrow> 's \<Rightarrow> 's"
    and slide_set :: "'s \<Rightarrow> 's \<Rightarrow> 's"
    and close_set :: "'s \<Rightarrow> 's \<Rightarrow> 's"
    and put_relative :: "'s \<Rightarrow> 's \<Rightarrow> 's \<Rightarrow> 's"
    and fits :: "'s \<Rightarrow> 's \<Rightarrow> 's \<Rightarrow> bool"
  assumes ok_put_set: "ok s \<Longrightarrow> ok p \<Longrightarrow> ok (put_set s p)"
    and members_put_set: "ok s \<Longrightarrow> ok p \<Longrightarrow> members (put_set s p) = members s \<union> members p"
    and ok_drop_set: "ok s \<Longrightarrow> ok p \<Longrightarrow> ok (drop_set s p)"
    and members_drop_set: "ok s \<Longrightarrow> ok p \<Longrightarrow> members (drop_set s p) = members s - members p"
    and ok_open_set: "ok s \<Longrightarrow> ok p \<Longrightarrow> ok (open_set s p)"
    and members_open_set: "ok s \<Longrightarrow> ok p \<Longrightarrow>
      members (open_set s p) = nth_outside (members p) ` members s \<union> members p"
    and ok_slide_set: "ok s \<Longrightarrow> ok p \<Longrightarrow> ok (slide_set s p)"
    and members_slide_set: "ok s \<Longrightarrow> ok p \<Longrightarrow> members (slide_set s p) = nth_outside (members p) ` members s"
    and ok_close_set: "ok s \<Longrightarrow> ok p \<Longrightarrow> ok (close_set s p)"
    and members_close_set: "ok s \<Longrightarrow> ok p \<Longrightarrow>
      members (close_set s p) = rank_outside (members p) ` (members s - members p)"
    and members_put_relative: "ok s \<Longrightarrow> ok a \<Longrightarrow> ok v \<Longrightarrow>
      members (put_relative s a v) = members s \<union> shifted_values (members s) (members a) (members v)"
    and ok_put_relative: "ok s \<Longrightarrow> ok a \<Longrightarrow> ok v \<Longrightarrow> fits s a v \<Longrightarrow> ok (put_relative s a v)"
begin

lemma close_open_set:
  assumes "ok s" "ok p"
  shows "members (close_set (open_set s p) p) = members s" "members (close_set (slide_set s p) p) = members s"
proof -
  have r: "rank_outside (members p) ` nth_outside (members p) ` members s = members s"
    by (simp add: image_image finite_members)
  have d: "nth_outside (members p) ` members s - members p = nth_outside (members p) ` members s"
    by (rule nth_image_outside[OF finite_members])
  have "members (open_set s p) - members p = nth_outside (members p) ` members s"
    using members_open_set[OF assms] d by auto
  then show "members (close_set (open_set s p) p) = members s"
    using members_close_set[OF ok_open_set[OF assms] assms(2)] r by simp
  show "members (close_set (slide_set s p) p) = members s"
    using members_close_set[OF ok_slide_set[OF assms] assms(2)] members_slide_set[OF assms] d r by simp
qed

text \<open>Recording the edit \<open>(d2, i2)\<close> after the edit \<open>(d, i)\<close>.\<close>

lemma record_merge:
  assumes "ok d" "ok i" "ok d2" "ok i2"
    and "applies (members d) (members i) xs ys" "applies (members d2) (members i2) ys zs"
  shows "applies (members (put_relative d i d2)) (members (open_set (close_set i d2) i2)) xs zs"
proof -
  have "members (put_relative d i d2) = merged_deletions (members d) (members i) (members d2)"
    using assms(1-3) by (simp add: members_put_relative shifted_values_def merged_deletions_def image_image)
  moreover have "members (open_set (close_set i d2) i2) = merged_insertions (members i) (members d2) (members i2)"
    using assms(2-4) by (simp add: members_open_set ok_close_set members_close_set merged_insertions_def)
  ultimately show ?thesis using applies_merge[OF assms(5,6)] by simp
qed

end

section \<open>The chunked vectors satisfy the contract\<close>

text \<open>The result of \<open>add_shifted_by\<close> fits into the chunks its builder allocates in advance.\<close>

definition shifted_fits :: "crv \<Rightarrow> crv \<Rightarrow> crv \<Rightarrow> bool" where
  "shifted_fits m s v \<longleftrightarrow> length (ranges (add_shifted_by m s v)) < builder_cap (builder_init m)"

lemma remove_spec:
  assumes "wf m" "0 < n"
  shows "wf (remove m i n)" "idx (remove m i n) = idx m - {i..<i + n}"
proof -
  obtain m' where "remove_run m i n = Some m'" "wf m'" "idx m' = idx m - {i..<i + n}"
    using remove_run_spec[OF assms, of i] by blast
  then show "wf (remove m i n)" "idx (remove m i n) = idx m - {i..<i + n}" by (simp_all add: remove_def)
qed

lemma removed_spec:
  assumes "wf m" "wf v"
  shows "wf (removed m v)" "idx (removed m v) = idx m - idx v"
proof -
  obtain m' where "remove_set m v = Some m'" "wf m'" "idx m' = idx m - idx v"
    using remove_set_spec[OF assms] by blast
  then show "wf (removed m v)" "idx (removed m v) = idx m - idx v" by (simp_all add: removed_def)
qed

lemma wf_Nil [simp]: "wf []"
  by (simp add: wf_def)

interpretation ix: index_set wf idx "[]" contains add remove insert_at shift_for_insert_at erase_at
    erase_or_unshift add_shifted shift unshift "set_len []"
proof (unfold_locales)
  fix m :: crv and i n :: nat
  assume w: "wf m"
  show "contains m i \<longleftrightarrow> i \<in> idx m" by (rule contains_iff[OF w])
  show "wf (add m i)" "idx (add m i) = insert i (idx m)" by (rule add_spec[OF w])+
  show "wf (erase_at m i)" "idx (erase_at m i) = rank_outside {i} ` (idx m - {i})" by (rule erase_at_spec[OF w])+
  obtain m' s where e: "erase_or_unshift m i = (m', s)" by (cases "erase_or_unshift m i")
  show "wf (fst (erase_or_unshift m i))" "idx (fst (erase_or_unshift m i)) = rank_outside {i} ` (idx m - {i})"
    "snd (erase_or_unshift m i) = (if i \<in> idx m then npos else rank_outside (idx m) i)"
    using erase_or_unshift_spec[OF w e] e by simp_all
  obtain m' s where e: "add_shifted m i = (m', s)" by (cases "add_shifted m i")
  show "wf (fst (add_shifted m i))" "idx (fst (add_shifted m i)) = insert (nth_outside (idx m) i) (idx m)"
    "snd (add_shifted m i) = nth_outside (idx m) i"
    using add_shifted_spec[OF w e] e by simp_all
  show "shift m i = nth_outside (idx m) i" by (rule shift_spec[OF w])
  show "unshift m i = rank_outside (idx m) i" by (rule unshift_spec[OF w])
  assume n: "0 < n"
  show "wf (remove m i n)" "idx (remove m i n) = idx m - {i..<i + n}" by (rule remove_spec[OF w n])+
  show "wf (insert_at m i n)" "idx (insert_at m i n) = nth_outside {i..<i + n} ` idx m \<union> {i..<i + n}"
    by (rule insert_at_spec[OF w n])+
  show "wf (shift_for_insert_at m i n)" "idx (shift_for_insert_at m i n) = nth_outside {i..<i + n} ` idx m"
    by (rule shift_for_insert_at_spec[OF w n])+
qed (simp_all add: set_len_spec)

interpretation ixb: index_set_bulk wf idx "[]" contains add remove insert_at shift_for_insert_at erase_at
    erase_or_unshift add_shifted shift unshift "set_len []" add_set removed insert_set_at
    shift_for_insert_set_at erase_set_at add_shifted_by shifted_fits
proof (unfold_locales)
  fix m p :: crv
  assume w: "wf m" "wf p"
  show "wf (add_set m p)" "idx (add_set m p) = idx m \<union> idx p" by (rule add_set_spec[OF w])+
  show "wf (removed m p)" "idx (removed m p) = idx m - idx p" by (rule removed_spec[OF w])+
  show "wf (insert_set_at m p)" "idx (insert_set_at m p) = nth_outside (idx p) ` idx m \<union> idx p"
    by (rule insert_set_at_spec[OF w])+
  show "wf (shift_for_insert_set_at m p)" "idx (shift_for_insert_set_at m p) = nth_outside (idx p) ` idx m"
    by (rule shift_for_insert_set_at_spec[OF w])+
  show "wf (erase_set_at m p)" "idx (erase_set_at m p) = rank_outside (idx p) ` (idx m - idx p)"
    by (rule erase_set_at_spec[OF w])+
  fix v :: crv
  assume v: "wf v"
  show "idx (add_shifted_by m p v) = idx m \<union> shifted_values (idx m) (idx p) (idx v)"
    by (rule add_shifted_by_spec(2)[OF w v])
  show "shifted_fits m p v \<Longrightarrow> wf (add_shifted_by m p v)"
    using add_shifted_by_spec(3)[OF w v] by (simp add: shifted_fits_def)
qed

end
