(* ===== verification/Index_Set_Properties.thy ===== *)
theory Index_Set_Properties
  imports Index_Set_Interface
begin

text \<open>
  What \<open>IndexSet\<close> guarantees, stated over its operations, with two inputs on which its cached
  counts or its counting go wrong.
\<close>

text \<open>Two small sets the examples below use: 1, 2, 5 and 0, 2, 3 as chunked vectors.\<close>

definition set_125 :: crv where
  "set_125 = [\<lparr>chunk_data = [(1, 3), (5, 6)], chunk_begin = 1, chunk_end = 6, chunk_count = 3\<rparr>]"

definition set_023 :: crv where
  "set_023 = [\<lparr>chunk_data = [(0, 1), (2, 4)], chunk_begin = 0, chunk_end = 4, chunk_count = 3\<rparr>]"

lemma set_125: "wf set_125" "idx set_125 = {1, 2, 5}"
  by (simp add: set_125_def wf_def chunk_ok_def max_size_val) (auto simp: set_125_def)

lemma set_023: "wf set_023" "idx set_023 = {0, 2, 3}"
  by (simp add: set_023_def wf_def chunk_ok_def max_size_val) (auto simp: set_023_def)

section \<open>Position arithmetic of whole sets\<close>

text \<open>
  C11. Inserting the positions of one set into another moves the old members to the remaining
  positions in order and adds the inserted ones; erasing the same positions again gives back the
  ranges the set had.
\<close>

theorem insert_erase_set_roundtrip:
  assumes "wf m" "wf p"
  shows "idx (insert_set_at m p) = nth_outside (idx p) ` idx m \<union> idx p \<and>
    wf (insert_set_at m p) \<and> ranges (erase_set_at (insert_set_at m p) p) = ranges m"
proof -
  have w: "wf (insert_set_at m p)" "wf (erase_set_at (insert_set_at m p) p)"
    using assms by (simp_all add: insert_set_at_spec erase_set_at_spec)
  have "idx (erase_set_at (insert_set_at m p) p) = idx m" by (rule ixb.close_open_set(1)[OF assms])
  then have "ranges (erase_set_at (insert_set_at m p) p) = ranges m"
    using wfD(2)[OF w(2)] wfD(2)[OF assms(1)] by (intro sep_canonical)
  then show ?thesis using w(1) insert_set_at_spec(2)[OF assms] by simp
qed

theorem insert_erase_set_roundtrip_witness:
  "ranges (erase_set_at (insert_set_at set_125 set_023) set_023) = ranges set_125"
  using insert_erase_set_roundtrip[OF set_125(1) set_023(1)] by simp

text \<open>
  C23. \<open>add_shifted_by\<close> always produces the specified set: the values that are not in \<open>shifted_by\<close>,
  moved down past \<open>shifted_by\<close> and up past the set, are added.  Its cached counts are right when
  the result fits into the chunks its builder allocates in advance.
\<close>

theorem add_shifted_by_correct:
  assumes "wf m" "wf s" "wf v"
  shows "idx (add_shifted_by m s v) = idx m \<union> shifted_values (idx m) (idx s) (idx v) \<and>
    (length (ranges (add_shifted_by m s v)) < max_size * (length (ranges m) div max_size + 1) \<longrightarrow>
      wf (add_shifted_by m s v))"
proof -
  have "builder_cap (builder_init m) = max_size * (length (ranges m) div max_size + 1)"
    by (simp add: builder_cap_def builder_init_def length_ranges)
  then show ?thesis using add_shifted_by_spec(2,3)[OF assms] by simp
qed

theorem add_shifted_by_correct_witness:
  "idx (add_shifted_by set_125 set_023 set_125) = {1, 2, 5} \<union> shifted_values {1, 2, 5} {0, 2, 3} {1, 2, 5}"
  using add_shifted_by_correct[OF set_125(1) set_023(1) set_125(1)] by (simp add: set_125 set_023)

text \<open>
  The loop of \<open>remove\<close>, which looks up its position again after every edit, ends, and it
  removes exactly the given run.
\<close>

theorem remove_run_terminates:
  assumes "wf m" "0 < n"
  shows "\<exists>m'. remove_run m i n = Some m' \<and> wf m' \<and> idx m' = idx m - {i..<i + n}"
  by (rule remove_run_spec[OF assms])

theorem remove_run_terminates_witness:
  "\<exists>m'. remove_run set_125 2 4 = Some m' \<and> wf m' \<and> idx m' = {1, 2, 5} - {2..<2 + 4}"
  using remove_run_terminates[OF set_125(1), of 4 2] by (simp add: set_125)

text \<open>
  Removing a set, range by range with the early return at the end of the target, ends and
  computes the set difference.
\<close>

theorem remove_set_terminates:
  assumes "wf m" "wf v"
  shows "\<exists>m'. remove_set m v = Some m' \<and> wf m' \<and> idx m' = idx m - idx v"
  by (rule remove_set_spec[OF assms])

theorem remove_set_terminates_witness:
  "\<exists>m'. remove_set set_125 set_023 = Some m' \<and> wf m' \<and> idx m' = {1, 2, 5} - {0, 2, 3}"
  using remove_set_terminates[OF set_125(1) set_023(1)] by (simp add: set_125 set_023)

section \<open>Single positions\<close>

text \<open>
  \<open>erase_or_unshift\<close> deletes the position and closes the gap; it answers \<open>npos\<close> for a member
  and otherwise the rank of the index among the non-members, which \<open>add_shifted\<close> on an equal set
  turns back into the index.
\<close>

theorem erase_or_unshift_correct:
  assumes "wf m" "wf k" "idx k = idx m" "i < npos"
  shows "idx (fst (erase_or_unshift m i)) = rank_outside {i} ` (idx m - {i}) \<and>
    wf (fst (erase_or_unshift m i)) \<and>
    (snd (erase_or_unshift m i) = npos \<longleftrightarrow> contains m i) \<and>
    (\<not> contains m i \<longrightarrow> snd (add_shifted k (snd (erase_or_unshift m i))) = i)"
proof -
  have "rank_outside (idx m) i \<noteq> npos" using rank_outside_le[of "idx m" i] assms(4) by simp
  then show ?thesis
    using assms(1-3) by (simp add: ix.ok_take_out ix.members_take_out ix.result_take_out ix.has_iff ix.result_put_shifted)
qed

theorem erase_or_unshift_correct_witness:
  "snd (add_shifted set_125 (snd (erase_or_unshift set_125 4))) = 4"
proof -
  have "\<not> contains set_125 4" using ix.has_iff[OF set_125(1)] by (simp add: set_125)
  then show ?thesis
    using erase_or_unshift_correct[OF set_125(1) set_125(1) refl, of 4] by (simp add: npos_def)
qed

text \<open>\<open>unshift\<close> undoes \<open>shift\<close>, and \<open>shift\<close> undoes \<open>unshift\<close> outside the set.\<close>

theorem shift_unshift_inverse:
  assumes "wf m"
  shows "unshift m (shift m i) = i \<and> \<not> contains m (shift m i) \<and>
    (\<not> contains m i \<longrightarrow> shift m (unshift m i) = i)"
  using ix.down_up[OF assms] ix.up_fresh[OF assms] ix.up_down[OF assms] by blast

theorem shift_unshift_inverse_witness: "unshift set_125 (shift set_125 2) = 2"
  using shift_unshift_inverse[OF set_125(1), of 2] by simp

text \<open>
  Opening a run of positions moves the members at or after it, adds the run, and a member
  inside a range splits nothing off: the invariant of the chunks is kept.  Shifting for an
  insertion does the same without adding the run.
\<close>

theorem insert_run_positions:
  assumes "wf m" "0 < n"
  shows "wf (insert_at m i n) \<and> wf (shift_for_insert_at m i n) \<and>
    idx (shift_for_insert_at m i n) = (\<lambda>x. if x < i then x else x + n) ` idx m \<and>
    idx (insert_at m i n) = idx (shift_for_insert_at m i n) \<union> {i..<i + n}"
  using ix.ok_open[OF assms] ix.ok_slide[OF assms] ix.members_open[OF assms] ix.members_slide[OF assms]
  by (simp add: nth_outside_run)

theorem insert_run_positions_witness:
  "idx (insert_at set_125 2 3) = idx (shift_for_insert_at set_125 2 3) \<union> {2..<2 + 3}"
  using insert_run_positions[OF set_125(1), of 3 2] by simp

section \<open>Counting\<close>

text \<open>
  \<open>count\<close> is exact from position 0, and between any two positions as long as the end does not
  fall into the first range of a chunk after the first.
\<close>

theorem count_exact:
  assumes "wf m" "s \<le> e" "s = 0 \<or> count_safe m e"
  shows "count m s e = card (idx m \<inter> {s..<e})"
proof (cases "s = 0")
  case True
  then show ?thesis using count_zero_spec[OF assms(1), of e] by (simp add: atLeast0LessThan)
next
  case False
  then show ?thesis using count_spec[OF assms(1,2)] assms(3) by simp
qed

theorem count_exact_witness: "count set_125 2 9 = card ({1, 2, 5::nat} \<inter> {2..<9})"
proof -
  have "count_safe set_125 9" by (simp add: count_safe_def set_125_def)
  then show ?thesis using count_exact[OF set_125(1), of 2 9] by (simp only: set_125) simp
qed

definition two_chunks :: crv where
  "two_chunks = [\<lparr>chunk_data = [(0, 1), (2, 3)], chunk_begin = 0, chunk_end = 3, chunk_count = 2\<rparr>,
     \<lparr>chunk_data = [(10, 20)], chunk_begin = 10, chunk_end = 20, chunk_count = 10\<rparr>]"

text \<open>
  When the start lies inside a chunk and the end inside the first range of the next chunk,
  \<open>count\<close> returns before it adds the members of that range: a well-formed set of 13 indices has 6
  members between 2 and 15, of which \<open>count\<close> reports one.
\<close>

theorem count_misses_partial_range:
  "wf two_chunks \<and> count two_chunks 2 15 = 1 \<and> card (idx two_chunks \<inter> {2..<15}) = 6"
proof (intro conjI)
  show "wf two_chunks" by (simp add: two_chunks_def wf_def chunk_ok_def max_size_val)
  show "count two_chunks 2 15 = 1" by code_simp
  have "idx two_chunks \<inter> {2..<15} = insert 2 {10..<15}" by (auto simp: two_chunks_def)
  then show "card (idx two_chunks \<inter> {2..<15}) = 6" by simp
qed

text \<open>
  Removing an empty run strictly inside a range cuts the range in two that touch, which breaks
  the invariant \<open>verify\<close> checks.
\<close>

theorem remove_nothing_splits:
  "\<exists>m'. remove_run set_125 2 0 = Some m' \<and> wf set_125 \<and> \<not> wf m' \<and> ranges m' = [(1, 2), (2, 3), (5, 6)]"
proof -
  have "map_option ranges (remove_run set_125 2 0) = Some [(1, 2), (2, 3), (5, 6)]" by code_simp
  then obtain m' where "remove_run set_125 2 0 = Some m'" "ranges m' = [(1, 2), (2, 3), (5, 6)]" by auto
  moreover from this have "\<not> wf m'" by (simp add: wf_def)
  ultimately show ?thesis using set_125(1) by blast
qed

section \<open>The overflow of the builder\<close>

lemma push_evens:
  assumes "n < max_size"
  shows "push_indexes (builder_init []) (map (\<lambda>i. 2 * i) [0..<Suc n]) =
    \<lparr>b_data = [\<lparr>chunk_data = map (\<lambda>i. (2 * i, 2 * i + 1)) [0..<Suc n], chunk_begin = 0, chunk_end = 0,
      chunk_count = Suc n\<rparr>], b_outer = 0\<rparr>"
  using assms
proof (induction n)
  case 0
  then show ?case
    by (simp add: builder_init_def builder_push_index_def builder_push_def empty_chunk_def Let_def)
next
  case (Suc n)
  have "push_indexes (builder_init []) (map (\<lambda>i. 2 * i) [0..<Suc (Suc n)]) =
    builder_push_index (push_indexes (builder_init []) (map (\<lambda>i. 2 * i) [0..<Suc n])) (2 * Suc n)"
    by simp
  then show ?case using Suc by (simp add: builder_push_index_def builder_push_def Let_def)
qed

definition evens :: "nat list" where
  "evens = map (\<lambda>i. 2 * i) [0..<256]"

definition far_range :: crv where
  "far_range = [\<lparr>chunk_data = [(1000, 1002)], chunk_begin = 1000, chunk_end = 1002, chunk_count = 2\<rparr>]"

lemma far_loop:
  assumes "\<forall>v \<in> set is. v < 1000"
  shows "shifted_loop is [] [(1000, 1002)] 0 0 0 b = ([(1000, 1002)], push_indexes b is)"
  using assms by (induction "is" arbitrary: b) simp_all

text \<open>
  Adding 256 separate indices in front of a range of two with \<open>add_shifted_by\<close> overflows the
  one chunk that was allocated: the range lands in a new chunk whose cached count is 1.  The set
  is right, but the invariant is broken and \<open>count\<close> is off by one from then on.
\<close>

theorem add_shifted_by_overflow:
  "\<exists>v. wf v \<and> wf far_range \<and> \<not> wf (add_shifted_by far_range [] v) \<and>
    idx (add_shifted_by far_range [] v) = idx v \<union> {1000, 1001} \<and>
    map chunk_count (add_shifted_by far_range [] v) = [256, 1]"
proof -
  define v where "v = builder_finalize (push_indexes (builder_init []) evens)"
  have st: "sorted_wrt (<) evens" by (simp add: evens_def sorted_wrt_map sorted_wrt_upt)
  note v = built_set[OF st, of "[]", folded v_def]
  have far: "wf far_range" "idx far_range = {1000, 1001}"
    by (simp add: far_range_def wf_def chunk_ok_def max_size_val) (auto simp: far_range_def)
  have ev: "as_indexes v = evens"
    using as_indexes_sorted[OF v(1)] v(2) st by (intro strict_sorted_equal) simp_all
  have bi: "builder_init far_range = builder_init []"
    by (simp add: builder_init_def far_range_def max_size_val)
  have "v \<noteq> []"
  proof
    assume "v = []"
    then have "set evens = {}" using v(2) by simp
    then show False by (simp add: evens_def)
  qed
  moreover have "all_ranges far_range = [(1000, 1002)]"
    using range_walk_all[OF wfD(1)[OF far(1)]] by (simp add: far_range_def)
  moreover have "all_ranges [] = []" by (simp add: all_ranges_def)
  moreover have "\<forall>i \<in> set evens. i < 1000" by (auto simp: evens_def)
  ultimately have e: "add_shifted_by far_range [] v =
      builder_finalize (builder_push (push_indexes (builder_init []) evens) (1000, 1002))"
    by (simp add: add_shifted_by_def ev bi far_loop)
  define d where "d = map (\<lambda>i. (2 * i, 2 * i + 1)) [0..<256::nat]"
  have d: "length d = 256" "d \<noteq> []" "last d = (510, 511)"
    by (simp_all add: d_def last_map)
  have "[0..<256] = [0..<Suc 255]" by simp
  then have "push_indexes (builder_init []) evens = \<lparr>b_data = [\<lparr>chunk_data = d, chunk_begin = 0, chunk_end = 0,
      chunk_count = 256\<rparr>], b_outer = 0\<rparr>"
    using push_evens[of 255] by (simp add: evens_def d_def max_size_val del: upt_Suc)
  then have a: "add_shifted_by far_range [] v = [\<lparr>chunk_data = d, chunk_begin = 0, chunk_end = 511, chunk_count = 256\<rparr>,
      \<lparr>chunk_data = [(1000, 1002)], chunk_begin = 1000, chunk_end = 1002, chunk_count = 1\<rparr>]"
    using d by (simp add: e builder_push_def builder_finalize_def Let_def max_size_val)
  then have "\<not> wf (add_shifted_by far_range [] v)" by (simp add: wf_def chunk_ok_def)
  moreover have "idx (add_shifted_by far_range [] v) = idx v \<union> {1000, 1001}"
    using add_shifted_by_spec(2)[OF far(1) wf_Nil v(1)] far(2)
  proof -
    have "rset d = set evens"
    proof -
      have "rset (map (\<lambda>i. (2 * i, 2 * i + 1)) xs) = set (map (\<lambda>i. 2 * i) xs)" for xs :: "nat list"
        by (induction xs) auto
      then show ?thesis by (simp add: d_def evens_def)
    qed
    moreover have "{1000..<1002} = {1000, 1001::nat}" by auto
    ultimately show ?thesis using v(2) by (simp add: a)
  qed
  ultimately show ?thesis using v(1) far(1) a by (intro exI[of _ v]) simp
qed

end
