(* ===== verification/Change_Builder.thy ===== *)
theory Change_Builder
  imports Index_Set_Interface "HOL-Library.AList"
begin

text \<open>
  \<open>CollectionChangeBuilder\<close> (\<open>collection_change_builder.cpp\<close>): the record of what happened to a
  collection between two versions, and the operations that record one more change, merge two
  records, or turn the record into the change set that is delivered.  The computation of a change
  set from two result lists is in \<open>Change_Calculate\<close>.
\<close>

section \<open>Data\<close>

record move =
  m_from :: size
  m_to :: size

record change_set =
  deletions :: crv
  insertions :: crv
  modifications :: crv
  modifications_new :: crv
  moves :: "move list"
  columns :: "crv list"

text \<open>
  The \<open>unordered_map\<close> of moved rows (new position to old position) is an association list with
  distinct keys; the order of its iteration is the order of the list, and no theorem depends on it.
\<close>

record change_builder = change_set +
  move_mapping :: "(size \<times> size) list"
  track_columns :: bool

definition empty_builder :: change_builder where
  "empty_builder = \<lparr>deletions = [], insertions = [], modifications = [], modifications_new = [],
     moves = [], columns = [], move_mapping = [], track_columns = True\<rparr>"

definition cs_empty :: "'z change_set_scheme \<Rightarrow> bool" where
  "cs_empty c \<longleftrightarrow> deletions c = [] \<and> insertions c = [] \<and> modifications c = [] \<and>
     modifications_new c = [] \<and> moves c = []"

definition make_builder :: "crv \<Rightarrow> crv \<Rightarrow> crv \<Rightarrow> move list \<Rightarrow> change_builder" where
  "make_builder ds is ms mv =
     foldl (\<lambda>b m. b\<lparr>deletions := add (deletions b) (m_from m), insertions := add (insertions b) (m_to m)\<rparr>)
       \<lparr>deletions = ds, insertions = is, modifications = ms, modifications_new = [], moves = mv,
         columns = [], move_mapping = [], track_columns = True\<rparr> mv"

section \<open>Library functions the code uses\<close>

text \<open>\<open>std::remove_if\<close> with a predicate that may update the element and a captured state.\<close>

fun remove_if_state :: "('a \<Rightarrow> 's \<Rightarrow> bool \<times> 'a \<times> 's) \<Rightarrow> 'a list \<Rightarrow> 's \<Rightarrow> 'a list \<times> 's" where
  "remove_if_state p [] s = ([], s)"
| "remove_if_state p (x # xs) s =
     (let (gone, x', s') = p x s; (ys, s'') = remove_if_state p xs s'
      in (if gone then ys else x' # ys, s''))"

text \<open>\<open>unordered_map::insert\<close> keeps an existing entry; \<open>operator[]\<close> assignment replaces it.\<close>

definition um_insert :: "(size \<times> size) list \<Rightarrow> size \<times> size \<Rightarrow> (size \<times> size) list" where
  "um_insert mm kv = (if map_of mm (fst kv) = None then mm @ [kv] else mm)"

definition resize :: "nat \<Rightarrow> crv list \<Rightarrow> crv list" where
  "resize n xs = take n xs @ replicate (n - length xs) []"

text \<open>\<open>std::rotate(begin + first, begin + middle, begin + last)\<close>\<close>

definition std_rotate :: "nat \<Rightarrow> nat \<Rightarrow> nat \<Rightarrow> 'a list \<Rightarrow> 'a list" where
  "std_rotate f m l xs = take f xs @ take (l - m) (drop m xs) @ take (m - f) (drop f xs) @ drop l xs"

section \<open>Recording a change\<close>

definition for_each_col :: "(crv \<Rightarrow> crv) \<Rightarrow> change_builder \<Rightarrow> change_builder" where
  "for_each_col f b =
     (let b = b\<lparr>modifications := f (modifications b)\<rparr> in
      if track_columns b then b\<lparr>columns := map f (columns b)\<rparr> else b)"

definition cb_modify :: "change_builder \<Rightarrow> size \<Rightarrow> size \<Rightarrow> change_builder" where
  "cb_modify b ndx col =
     (let b = b\<lparr>modifications := add (modifications b) ndx\<rparr> in
      if \<not> track_columns b \<or> col = npos then b
      else let cols = (if length (columns b) \<le> col then resize (col + 1) (columns b) else columns b)
        in b\<lparr>columns := cols[col := add (cols ! col) ndx]\<rparr>)"

definition shift_mapping :: "(size \<times> size) list \<Rightarrow> size \<Rightarrow> size \<Rightarrow> (size \<times> size) list" where
  "shift_mapping mm index n =
     foldl um_insert (filter (\<lambda>(k, v). k < index) mm)
       (map (\<lambda>(k, v). (k + n, v)) (filter (\<lambda>(k, v). index \<le> k) mm))"

definition cb_insert :: "change_builder \<Rightarrow> size \<Rightarrow> nat \<Rightarrow> bool \<Rightarrow> change_builder" where
  "cb_insert b index n track_moves =
     (let b = for_each_col (\<lambda>col. shift_for_insert_at col index n) b in
      if \<not> track_moves then b
      else let b = b\<lparr>insertions := insert_at (insertions b) index n,
            moves := map (\<lambda>m. if index \<le> m_to m then m\<lparr>m_to := m_to m + n\<rparr> else m) (moves b)\<rparr> in
        if move_mapping b = [] then b
        else b\<lparr>move_mapping := shift_mapping (move_mapping b) index n\<rparr>)"

fun erase_moves :: "size \<Rightarrow> move list \<Rightarrow> move list" where
  "erase_moves index [] = []"
| "erase_moves index (m # ms) =
     (if m_to m = index then erase_moves index ms
      else (if index < m_to m then m\<lparr>m_to := m_to m - 1\<rparr> else m) # erase_moves index ms)"

definition cb_erase :: "change_builder \<Rightarrow> size \<Rightarrow> change_builder" where
  "cb_erase b index =
     (let b = for_each_col (\<lambda>col. erase_at col index) b;
          (ins, unshifted) = erase_or_unshift (insertions b) index;
          del = (if unshifted \<noteq> npos then fst (add_shifted (deletions b) unshifted) else deletions b)
      in b\<lparr>insertions := ins, deletions := del, moves := erase_moves index (moves b)\<rparr>)"

definition cb_clear :: "change_builder \<Rightarrow> size \<Rightarrow> change_builder" where
  "cb_clear b old_size =
     (let size = (if old_size \<noteq> npos
          then size_sub (old_size + (\<Sum>r\<leftarrow>all_ranges (deletions b). range_len r))
            (\<Sum>r\<leftarrow>all_ranges (insertions b). range_len r)
          else old_size)
      in b\<lparr>modifications := [], insertions := [], moves := [], move_mapping := [], columns := [],
        deletions := set_len (deletions b) size\<rparr>)"

section \<open>Moves of list elements\<close>

text \<open>The loop over the recorded moves, with the insertions and the flag it updates.\<close>

fun move_loop :: "size \<Rightarrow> size \<Rightarrow> move list \<Rightarrow> crv \<Rightarrow> bool \<Rightarrow> move list \<times> crv \<times> bool" where
  "move_loop from_ndx to_ndx [] ins updated = ([], ins, updated)"
| "move_loop from_ndx to_ndx (m # ms) ins updated =
     (if m_to m \<noteq> from_ndx then
        let m' = (if to_ndx \<le> m_to m \<and> m_to m < from_ndx then m\<lparr>m_to := m_to m + 1\<rparr>
                  else if m_to m \<le> to_ndx \<and> from_ndx < m_to m then m\<lparr>m_to := m_to m - 1\<rparr> else m);
            (ms', ins, updated) = move_loop from_ndx to_ndx ms ins updated
        in (m' # ms', ins, updated)
      else
        let ins = insert_at (erase_at ins from_ndx) to_ndx 1;
            (ms', ins, updated) = move_loop from_ndx to_ndx ms ins True
        in (m\<lparr>m_to := to_ndx\<rparr> # ms', ins, updated))"

definition cb_move :: "change_builder \<Rightarrow> size \<Rightarrow> size \<Rightarrow> change_builder" where
  "cb_move b from_ndx to_ndx =
     (let (mv, ins, updated) = move_loop from_ndx to_ndx (moves b) (insertions b) False;
          b = b\<lparr>moves := mv, insertions := ins\<rparr>;
          b = (if updated then b
            else let (ins, shifted_from) = erase_or_unshift (insertions b) from_ndx;
                b = b\<lparr>insertions := insert_at ins to_ndx 1\<rparr>
              in if shifted_from \<noteq> npos then
                let (del, shifted_from) = add_shifted (deletions b) shifted_from
                in b\<lparr>deletions := del, moves := moves b @ [\<lparr>m_from = shifted_from, m_to = to_ndx\<rparr>]\<rparr>
              else b)
      in for_each_col (\<lambda>col.
          let modified = contains col from_ndx; col = erase_at col from_ndx in
          if modified then insert_at col to_ndx 1 else shift_for_insert_at col to_ndx 1) b)"

section \<open>Changes of table rows\<close>

text \<open>\<open>prev(s.end())->second\<close>\<close>

definition last_second :: "crv \<Rightarrow> size" where
  "last_second m = snd (it_get m (it_prev m (it_end m)))"

definition cb_move_over :: "change_builder \<Rightarrow> size \<Rightarrow> size \<Rightarrow> bool \<Rightarrow> change_builder" where
  "cb_move_over b row_ndx last_row track_moves =
     (if row_ndx = last_row then
        let b = (if track_moves then
            let (ins, shifted_from) = erase_or_unshift (insertions b) row_ndx;
                del = (if shifted_from \<noteq> npos then fst (add_shifted (deletions b) shifted_from)
                  else deletions b)
            in b\<lparr>insertions := ins, deletions := del, move_mapping := AList.delete row_ndx (move_mapping b)\<rparr>
            else b)
        in for_each_col (\<lambda>col. remove col row_ndx 1) b
      else
        let b = for_each_col (\<lambda>col.
            if contains col last_row then add (remove col last_row 1) row_ndx
            else remove col row_ndx 1) b in
        if \<not> track_moves then b
        else
          let row_is_insertion = contains (insertions b) row_ndx;
              last_is_insertion = (insertions b \<noteq> [] \<and> last_second (insertions b) = last_row + 1);
              found = (if last_is_insertion then map_of (move_mapping b) last_row else None);
              mm = (case found of
                  Some old \<Rightarrow> AList.delete last_row (AList.update row_ndx old (move_mapping b))
                | None \<Rightarrow> move_mapping b);
              last_was_already_moved = (found \<noteq> None);
              mm = (if row_is_insertion \<and> \<not> last_was_already_moved then AList.delete row_ndx mm else mm);
              (ins, del, mm) =
                (if last_is_insertion then (remove (insertions b) last_row 1, deletions b, mm)
                 else if \<not> last_was_already_moved then
                   let (del, shifted_last_row) = add_shifted (deletions b) (unshift (insertions b) last_row)
                   in (insertions b, del, AList.update row_ndx shifted_last_row mm)
                 else (insertions b, deletions b, mm));
              (ins, del) =
                (if \<not> row_is_insertion
                 then (add ins row_ndx, fst (add_shifted del (unshift ins row_ndx)))
                 else (ins, del))
          in b\<lparr>insertions := ins, deletions := del, move_mapping := mm\<rparr>)"

text \<open>The lambda \<open>update_move\<close> of \<open>swap\<close>: the entry at \<open>n2\<close> holds \<open>original\<close>.\<close>

definition swap_update_move :: "change_builder \<Rightarrow> size \<Rightarrow> size \<Rightarrow> size \<Rightarrow> change_builder" where
  "swap_update_move b original n1 n2 =
     (let mm = AList.update n1 original (AList.delete n2 (move_mapping b)) in
      if \<not> contains (insertions b) n1 then
        let (del, old) = add_shifted (deletions b) (unshift (insertions b) n1)
        in b\<lparr>deletions := del, move_mapping := AList.update n2 old mm, insertions := add (insertions b) n1\<rparr>
      else b\<lparr>move_mapping := mm\<rparr>)"

text \<open>One half of the case with no recorded move: row \<open>n1\<close> is marked as moved to \<open>n2\<close>.\<close>

definition swap_mark :: "change_builder \<Rightarrow> size \<Rightarrow> size \<Rightarrow> change_builder" where
  "swap_mark b n1 n2 =
     (if \<not> contains (insertions b) n1 then
        let (del, old) = add_shifted (deletions b) (unshift (insertions b) n1)
        in b\<lparr>deletions := del, move_mapping := AList.update n2 old (move_mapping b),
             insertions := add (insertions b) n1\<rparr>
      else b)"

definition cb_swap :: "change_builder \<Rightarrow> size \<Rightarrow> size \<Rightarrow> bool \<Rightarrow> change_builder" where
  "cb_swap b ndx_a ndx_b track_moves =
     (let (n1, n2) = (if ndx_b < ndx_a then (ndx_b, ndx_a) else (ndx_a, ndx_b));
          b = for_each_col (\<lambda>col.
            let mod1 = contains col n1; mod2 = contains col n2 in
            if mod1 \<noteq> mod2 then
              if mod1 then add (remove col n1 1) n2 else add (remove col n2 1) n1
            else col) b
      in if \<not> track_moves then b
      else case (map_of (move_mapping b) n1, map_of (move_mapping b) n2) of
          (Some v1, Some v2) \<Rightarrow>
            b\<lparr>move_mapping := AList.update n2 v1 (AList.update n1 v2 (move_mapping b))\<rparr>
        | (Some v1, None) \<Rightarrow> swap_update_move b v1 n2 n1
        | (None, Some v2) \<Rightarrow> swap_update_move b v2 n1 n2
        | (None, None) \<Rightarrow> swap_mark (swap_mark b n2 n1) n1 n2)"

definition cb_subsume :: "change_builder \<Rightarrow> size \<Rightarrow> size \<Rightarrow> bool \<Rightarrow> change_builder" where
  "cb_subsume b old_ndx new_ndx track_moves =
     (let b = for_each_col (\<lambda>col. if contains col old_ndx then add col new_ndx else col) b in
      if \<not> track_moves then b
      else case map_of (move_mapping b) old_ndx of
          Some v \<Rightarrow> b\<lparr>move_mapping := AList.delete old_ndx (AList.update new_ndx v (move_mapping b))\<rparr>
        | None \<Rightarrow>
          if \<not> contains (insertions b) old_ndx then
            b\<lparr>move_mapping := AList.update new_ndx
                (shift (deletions b) (unshift (insertions b) old_ndx)) (move_mapping b)\<rparr>
          else b)"

definition cb_parse_complete :: "change_builder \<Rightarrow> change_builder" where
  "cb_parse_complete b =
     (let (del, ins, mv) = foldl (\<lambda>(del, ins, mv) (new, old).
            if new = old then (remove del old 1, remove ins new 1, mv)
            else (del, ins, mv @ [\<lparr>m_from = old, m_to = new\<rparr>]))
          (deletions b, insertions b, moves b) (move_mapping b)
      in b\<lparr>deletions := del, insertions := ins, move_mapping := [], moves := sort_key m_from mv\<rparr>)"

section \<open>Columns\<close>

definition cb_insert_column :: "change_builder \<Rightarrow> nat \<Rightarrow> change_builder" where
  "cb_insert_column b ndx =
     (if ndx < length (columns b) then b\<lparr>columns := take ndx (columns b) @ [] # drop ndx (columns b)\<rparr> else b)"

definition cb_move_column :: "change_builder \<Rightarrow> nat \<Rightarrow> nat \<Rightarrow> change_builder" where
  "cb_move_column b from_ndx to_ndx =
     (if length (columns b) \<le> from_ndx \<and> length (columns b) \<le> to_ndx then b
      else let cols = (if length (columns b) \<le> from_ndx \<or> length (columns b) \<le> to_ndx
            then resize (max from_ndx to_ndx + 1) (columns b) else columns b)
        in b\<lparr>columns := (if from_ndx < to_ndx then std_rotate from_ndx (from_ndx + 1) (to_ndx + 1) cols
             else std_rotate to_ndx from_ndx (from_ndx + 1) cols)\<rparr>)"

section \<open>Merging two records\<close>

text \<open>The lambda \<open>for_each_col\<close> of \<open>merge\<close>, which walks the columns of both builders.\<close>

definition merge_cols :: "(crv \<Rightarrow> crv \<Rightarrow> crv \<times> crv) \<Rightarrow> change_builder \<times> change_builder \<Rightarrow>
    change_builder \<times> change_builder" where
  "merge_cols f s =
     (let (a, c) = s; (m, cm) = f (modifications a) (modifications c);
          a = a\<lparr>modifications := m\<rparr>; c = c\<lparr>modifications := cm\<rparr>
      in if track_columns a then
        let n = max (length (columns a)) (length (columns c));
            ps = map2 f (resize n (columns a)) (resize n (columns c))
        in (a\<lparr>columns := map fst ps\<rparr>, c\<lparr>columns := map snd ps\<rparr>)
      else (a, c))"

definition carry_modified :: "move \<Rightarrow> crv \<Rightarrow> crv \<Rightarrow> crv \<times> crv" where
  "carry_modified m col other = (col, if contains col (m_from m) then add other (m_to m) else other)"

definition update_old_move :: "move \<Rightarrow> change_builder \<times> change_builder \<Rightarrow>
    bool \<times> move \<times> change_builder \<times> change_builder" where
  "update_old_move old s =
     (let c = snd s; k = length (takeWhile (\<lambda>m. m_to old \<noteq> m_from m) (moves c)) in
      if k < length (moves c) then
        let it = moves c ! k; (a, c) = merge_cols (carry_modified it) s
        in (False, old\<lparr>m_to := m_to it\<rparr>, a, c\<lparr>moves := butlast ((moves c)[k := last (moves c)])\<rparr>)
      else if contains (deletions c) (m_to old) then (True, old, s)
      else (False, old\<lparr>m_to := shift (insertions c) (unshift (deletions c) (m_to old))\<rparr>, s))"

definition stale_move :: "move \<Rightarrow> crv \<times> crv \<Rightarrow> bool \<times> move \<times> crv \<times> crv" where
  "stale_move m s =
     (let (del, ins) = s in
      if size_sub (m_from m) (count del 0 (m_from m)) \<noteq> size_sub (m_to m) (count ins 0 (m_to m))
      then (False, m, s)
      else (True, m, remove del (m_from m) 1, remove ins (m_to m) 1))"

definition clean_up_stale_moves :: "change_builder \<Rightarrow> change_builder" where
  "clean_up_stale_moves b =
     (let (mv, del, ins) = remove_if_state stale_move (moves b) (deletions b, insertions b)
      in b\<lparr>moves := mv, deletions := del, insertions := ins\<rparr>)"

definition merge_old_moves :: "change_builder \<times> change_builder \<Rightarrow> change_builder \<times> change_builder" where
  "merge_old_moves s =
     (let (a, c) = s in
      if moves c \<noteq> [] \<or> deletions c \<noteq> [] \<or> insertions c \<noteq> [] then
        let (mv, a, c) = remove_if_state update_old_move (moves a) s in (a\<lparr>moves := mv\<rparr>, c)
      else s)"

definition merge_new_moves :: "change_builder \<times> change_builder \<Rightarrow> change_builder \<times> change_builder" where
  "merge_new_moves s =
     (let (a, c) = s;
          c = (if insertions a \<noteq> [] \<and> moves c \<noteq> []
            then c\<lparr>moves := filter (\<lambda>m. \<not> contains (insertions a) (m_from m)) (moves c)\<rparr> else c);
          (a, c) = (if modifications a \<noteq> [] \<and> moves c \<noteq> []
            then foldl (\<lambda>s m. merge_cols (carry_modified m) s) (a, c) (moves c) else (a, c));
          c = (if deletions a \<noteq> [] \<or> insertions a \<noteq> []
            then c\<lparr>moves := map (\<lambda>m. m\<lparr>m_from := shift (deletions a) (unshift (insertions a) (m_from m))\<rparr>) (moves c)\<rparr>
            else c)
      in (a\<lparr>moves := moves a @ moves c\<rparr>, c))"

definition cb_merge :: "change_builder \<Rightarrow> change_builder \<Rightarrow> change_builder" where
  "cb_merge a c =
     (if cs_empty c then a
      else if cs_empty a then c
      else
        let (a, c) = merge_new_moves (merge_old_moves (a, c));
            a = a\<lparr>deletions := add_shifted_by (deletions a) (insertions a) (deletions c),
                  insertions := insert_set_at (erase_set_at (insertions a) (deletions c)) (insertions c)\<rparr>;
            a = clean_up_stale_moves a
        in fst (merge_cols (\<lambda>col other.
            (add_set (shift_for_insert_set_at (erase_set_at col (deletions c)) (insertions c)) other, other)) (a, c)))"

section \<open>The delivered change set\<close>

definition cb_finalize :: "change_builder \<Rightarrow> change_set" where
  "cb_finalize b =
     \<lparr>deletions = deletions b, insertions = insertions b,
      modifications = shift_for_insert_set_at (erase_set_at (modifications b) (insertions b)) (deletions b),
      modifications_new = removed (modifications b) (insertions b),
      moves = moves b, columns = columns b\<rparr>"

end
