(* ===== verification/Change_Builder_Laws.thy ===== *)
theory Change_Builder_Laws
  imports Change_Builder
begin

text \<open>
  What the change builder promises for lists: after any recorded edits its deletions and
  insertions turn the original list into the current one, and every move it reports is the move
  of an element that is the same on both sides.
\<close>

section \<open>Invariant\<close>

definition cb_ok :: "change_builder \<Rightarrow> bool" where
  "cb_ok b \<longleftrightarrow> wf (deletions b) \<and> wf (insertions b) \<and> wf (modifications b) \<and>
     wf (modifications_new b) \<and> list_all wf (columns b) \<and> distinct (map fst (move_mapping b))"

definition moves_ok :: "move list \<Rightarrow> nat set \<Rightarrow> nat set \<Rightarrow> 'a list \<Rightarrow> 'a list \<Rightarrow> bool" where
  "moves_ok mv D I xs ys \<longleftrightarrow>
     (\<forall>m \<in> set mv. m_from m \<in> D \<and> m_to m \<in> I \<and> xs ! m_from m = ys ! m_to m) \<and>
     distinct (map m_from mv) \<and> distinct (map m_to mv)"

definition tracks :: "change_builder \<Rightarrow> 'a list \<Rightarrow> 'a list \<Rightarrow> bool" where
  "tracks b xs ys \<longleftrightarrow> cb_ok b \<and> applies (idx (deletions b)) (idx (insertions b)) xs ys \<and>
     moves_ok (moves b) (idx (deletions b)) (idx (insertions b)) xs ys"

lemma tracksD:
  assumes "tracks b xs ys"
  shows "cb_ok b" "wf (deletions b)" "wf (insertions b)" "wf (modifications b)"
    "applies (idx (deletions b)) (idx (insertions b)) xs ys"
    "moves_ok (moves b) (idx (deletions b)) (idx (insertions b)) xs ys"
  using assms by (simp_all add: tracks_def cb_ok_def)

lemma cb_ok_empty: "cb_ok empty_builder"
  by (simp add: cb_ok_def empty_builder_def)

lemma tracks_empty: "tracks empty_builder xs xs"
  by (simp add: tracks_def cb_ok_empty moves_ok_def) (simp add: empty_builder_def)

lemma for_each_col_simps [simp]:
  "deletions (for_each_col f b) = deletions b" "insertions (for_each_col f b) = insertions b"
  "modifications (for_each_col f b) = f (modifications b)"
  "modifications_new (for_each_col f b) = modifications_new b" "moves (for_each_col f b) = moves b"
  "columns (for_each_col f b) = (if track_columns b then map f (columns b) else columns b)"
  "move_mapping (for_each_col f b) = move_mapping b"
  "track_columns (for_each_col f b) = track_columns b"
  by (simp_all add: for_each_col_def Let_def)

lemma cb_ok_for_each_col:
  "cb_ok b \<Longrightarrow> (\<And>c. wf c \<Longrightarrow> wf (f c)) \<Longrightarrow> cb_ok (for_each_col f b)"
  by (simp add: cb_ok_def list_all_iff)

text \<open>The component facts the proofs below share.\<close>

lemmas ix_ok = ix.ok_put ix.ok_drop ix.ok_open ix.ok_slide ix.ok_close ix.ok_take_out ix.ok_put_shifted
  ixb.ok_put_set ixb.ok_drop_set ixb.ok_open_set ixb.ok_slide_set ixb.ok_close_set set_len_spec(1)

lemmas ix_members = ix.has_iff ix.members_put ix.members_drop ix.members_open ix.members_slide
  ix.members_close ix.members_take_out ix.result_take_out ix.members_put_shifted ix.result_put_shifted
  ix.up_spec ix.down_spec ixb.members_put_set ixb.members_drop_set ixb.members_open_set
  ixb.members_slide_set ixb.members_close_set ixb.members_put_relative set_len_spec(2)

section \<open>Edits of a list\<close>

lemma applies_sym: "applies D I xs ys \<longleftrightarrow> applies I D ys xs"
  by (auto simp: applies_def)

text \<open>Moves recorded before an edit \<open>(D2, I2)\<close>, carried to the edited list.\<close>

definition carry_to :: "nat set \<Rightarrow> nat set \<Rightarrow> nat \<Rightarrow> nat" where
  "carry_to D2 I2 t = nth_outside I2 (rank_outside D2 t)"

lemma carry_to_elem:
  assumes "applies D2 I2 ys zs" "t < length ys" "t \<notin> D2"
  shows "zs ! carry_to D2 I2 t = ys ! t" "carry_to D2 I2 t < length zs" "carry_to D2 I2 t \<notin> I2"
  using applies_survivor[of I2 D2 zs ys t] assms by (simp_all add: applies_sym carry_to_def)

lemma carry_to_inj:
  assumes "finite D2" "finite I2" "t \<notin> D2" "u \<notin> D2" "carry_to D2 I2 t = carry_to D2 I2 u"
  shows "t = u"
proof -
  have "rank_outside D2 t = rank_outside D2 u" using assms by (simp add: carry_to_def)
  then show ?thesis using assms by (metis nth_rank_outside)
qed

lemma carry_in_merged: "t \<in> I1 \<Longrightarrow> t \<notin> D2 \<Longrightarrow> carry_to D2 I2 t \<in> merged_insertions I1 D2 I2"
  by (auto simp: carry_to_def merged_insertions_def)

lemma in_merged_deletions: "f \<in> D1 \<Longrightarrow> f \<in> merged_deletions D1 I1 D2"
  by (simp add: merged_deletions_def)

text \<open>Old moves whose destination survives are carried; those whose destination was deleted go.\<close>

lemma moves_ok_carry:
  assumes mv: "moves_ok mv D1 I1 xs ys" and a: "applies D1 I1 xs ys" and b: "applies D2 I2 ys zs"
  shows "moves_ok (map (\<lambda>m. m\<lparr>m_to := carry_to D2 I2 (m_to m)\<rparr>) (filter (\<lambda>m. m_to m \<notin> D2) mv))
    (merged_deletions D1 I1 D2) (merged_insertions I1 D2 I2) xs zs"
proof -
  note A = appliesD[OF a] and B = appliesD[OF b]
  let ?f = "\<lambda>m. m\<lparr>m_to := carry_to D2 I2 (m_to m)\<rparr>" and ?mv = "filter (\<lambda>m. m_to m \<notin> D2) mv"
  have dm: "distinct (map m_from mv)" "distinct (map m_to mv)" using mv by (simp_all add: moves_ok_def)
  have "distinct (map m_from (map ?f ?mv))" using dm(1) by (simp add: comp_def distinct_map_filter)
  moreover have "distinct (map m_to (map ?f ?mv))"
  proof -
  have "inj_on (carry_to D2 I2) (set (map m_to ?mv))"
    using carry_to_inj[OF B(5,6)] by (intro inj_onI) auto
  moreover have "distinct (map m_to ?mv)" using dm(2) by (rule distinct_map_filter)
  ultimately have "distinct (map (carry_to D2 I2) (map m_to ?mv))"
    using distinct_map[of "carry_to D2 I2" "map m_to ?mv"] by blast
  then show ?thesis by (simp add: comp_def)
  qed
  moreover have "m_from m \<in> merged_deletions D1 I1 D2 \<and> m_to m \<in> merged_insertions I1 D2 I2 \<and>
    xs ! m_from m = zs ! m_to m" if "m \<in> set (map ?f ?mv)" for m
  proof -
    have "m \<in> ?f ` set ?mv" using that by (simp only: set_map)
    then obtain n where "m = ?f n" "n \<in> set ?mv" by (rule imageE)
    then have n: "n \<in> set mv" "m_to n \<notin> D2" "m = ?f n" by simp_all
    have "m_from n \<in> D1" "m_to n \<in> I1" "xs ! m_from n = ys ! m_to n" using mv n(1) by (simp_all add: moves_ok_def)
    moreover from this have "m_to n < length ys" using A(2) by auto
    ultimately show ?thesis
      using n carry_to_elem(1)[OF b _ n(2)] by (simp add: in_merged_deletions carry_in_merged)
  qed
  ultimately show ?thesis by (simp add: moves_ok_def)
qed

lemma run_of_one [simp]: "{i..<Suc i} = {i::nat}"
  by auto

lemma nth_outside_one: "nth_outside {i} x = (if x < i then x else x + 1)"
  using nth_outside_run[of i 1 x] by simp

text \<open>Insertion of a run.\<close>

lemma shift_mapping_distinct:
  assumes "distinct (map fst mm)"
  shows "distinct (map fst (shift_mapping mm k n))"
proof -
  have ins: "distinct (map fst (foldl um_insert acc xs))" if "distinct (map fst acc)"
    for acc xs :: "(size \<times> size) list"
    using that
  proof (induction xs arbitrary: acc)
    case (Cons x xs)
    have "distinct (map fst (um_insert acc x))"
      using Cons.prems by (auto simp: um_insert_def map_of_eq_None_iff)
    then show ?case using Cons.IH by simp
  qed simp
  have "distinct (map fst (filter P mm))" for P using assms by (rule distinct_map_filter)
  then show ?thesis unfolding shift_mapping_def by (rule ins)
qed

lemma cb_insert_ok: "cb_ok b \<Longrightarrow> 0 < n \<Longrightarrow> cb_ok (cb_insert b k n track)"
  by (auto simp: cb_insert_def Let_def cb_ok_def list_all_iff ix_ok shift_mapping_distinct)

lemma tracks_insert:
  assumes t: "tracks b xs ys" and k: "k \<le> length ys" and zs: "zs \<noteq> []"
  shows "tracks (cb_insert b k (length zs) True) xs (take k ys @ zs @ drop k ys)"
proof -
  note T = tracksD[OF t]
  let ?b = "cb_insert b k (length zs) True" and ?n = "length zs"
  have n: "0 < ?n" using zs by simp
  have s: "deletions ?b = deletions b" "insertions ?b = insert_at (insertions b) k ?n"
    "moves ?b = map (\<lambda>m. if k \<le> m_to m then m\<lparr>m_to := m_to m + ?n\<rparr> else m) (moves b)"
    by (auto simp: cb_insert_def Let_def)
  have st: "applies {} {k..<k + ?n} ys (take k ys @ zs @ drop k ys)" by (rule applies_insert_step[OF k])
  have md: "merged_deletions (idx (deletions b)) (idx (insertions b)) {} = idx (deletions b)"
    by (simp add: merged_deletions_def)
  have mi: "merged_insertions (idx (insertions b)) {} {k..<k + ?n} = idx (insertions ?b)"
    using T(3) n by (simp add: s merged_insertions_def ix_members image_def)
  have "map (\<lambda>m. m\<lparr>m_to := carry_to {} {k..<k + ?n} (m_to m)\<rparr>) (filter (\<lambda>m. m_to m \<notin> {}) (moves b)) = moves ?b"
    unfolding s by (auto simp: carry_to_def nth_outside_run)
  with moves_ok_carry[OF T(6,5) st] have "moves_ok (moves ?b) (idx (deletions b)) (idx (insertions ?b)) xs (take k ys @ zs @ drop k ys)"
    unfolding md mi by simp
  then show ?thesis
    using applies_merge[OF T(5) st] cb_insert_ok[OF T(1) n] md mi s(1) by (simp add: tracks_def)
qed

text \<open>Erasure of one element.\<close>

lemma erase_moves_carry:
  "erase_moves k mv = map (\<lambda>m. m\<lparr>m_to := carry_to {k} {} (m_to m)\<rparr>) (filter (\<lambda>m. m_to m \<notin> {k}) mv)"
  by (induction mv) (auto simp: carry_to_def rank_outside_singleton)

lemma cb_erase_ok: "cb_ok b \<Longrightarrow> cb_ok (cb_erase b k)"
  by (cases "erase_or_unshift (insertions b) k")
    (auto simp: cb_erase_def Let_def cb_ok_def list_all_iff ix_ok intro: erase_or_unshift_spec(1))

lemma cb_erase_simps:
  "insertions (cb_erase b k) = fst (erase_or_unshift (insertions b) k)"
  "deletions (cb_erase b k) = (if snd (erase_or_unshift (insertions b) k) \<noteq> npos
    then fst (add_shifted (deletions b) (snd (erase_or_unshift (insertions b) k))) else deletions b)"
  "moves (cb_erase b k) = erase_moves k (moves b)"
  "modifications (cb_erase b k) = erase_at (modifications b) k"
  by (simp_all add: cb_erase_def Let_def split_def)

lemma erase_sets:
  assumes "wf d" "wf i" "k < npos"
  shows "idx (if snd (erase_or_unshift i k) \<noteq> npos then fst (add_shifted d (snd (erase_or_unshift i k))) else d) =
    merged_deletions (idx d) (idx i) {k}"
    "idx (fst (erase_or_unshift i k)) = merged_insertions (idx i) {k} {}"
proof -
  have "rank_outside (idx i) k \<le> k" by (rule rank_outside_le)
  then have ne: "rank_outside (idx i) k \<noteq> npos" using assms(3) by simp
  have dif: "{k} - idx i = (if k \<in> idx i then {} else {k})" by auto
  show "idx (if snd (erase_or_unshift i k) \<noteq> npos then fst (add_shifted d (snd (erase_or_unshift i k))) else d) =
    merged_deletions (idx d) (idx i) {k}"
    using assms ne unfolding merged_deletions_def dif by (simp add: ix_members)
  show "idx (fst (erase_or_unshift i k)) = merged_insertions (idx i) {k} {}"
    using assms by (simp add: ix_members merged_insertions_def image_image)
qed

lemma tracks_erase:
  assumes t: "tracks b xs ys" and k: "k < length ys" and len: "length ys \<le> npos"
  shows "tracks (cb_erase b k) xs (take k ys @ drop (Suc k) ys)"
proof -
  note T = tracksD[OF t]
  note st = applies_erase_step[OF k]
  have kn: "k < npos" using k len by simp
  note es = erase_sets[OF T(2,3) kn]
  have mv: "moves_ok (erase_moves k (moves b)) (merged_deletions (idx (deletions b)) (idx (insertions b)) {k})
    (merged_insertions (idx (insertions b)) {k} {}) xs (take k ys @ drop (Suc k) ys)"
    unfolding erase_moves_carry by (rule moves_ok_carry[OF T(6,5) st])
  show ?thesis
    using applies_merge[OF T(5) st] mv cb_erase_ok[OF T(1)] unfolding tracks_def cb_erase_simps es by simp
qed

text \<open>Clearing the whole list: only the size of the original list matters.\<close>

lemma sum_ranges: "sep rs \<Longrightarrow> (\<Sum>r\<leftarrow>rs. range_len r) = card (rset rs)"
  using range_total_card by (simp add: range_total_def)

lemma cb_clear_ok: "cb_ok b \<Longrightarrow> cb_ok (cb_clear b n)"
  by (simp add: cb_clear_def Let_def cb_ok_def ix_ok)

lemma tracks_clear:
  assumes t: "tracks b xs ys" and len: "length ys < npos"
  shows "tracks (cb_clear b (length ys)) xs []"
proof -
  note T = tracksD[OF t]
  note A = appliesD[OF T(5)]
  have r: "all_ranges (deletions b) = ranges (deletions b)" "all_ranges (insertions b) = ranges (insertions b)"
    using T(2,3) by (simp_all add: range_walk_all wf_def)
  have "length ys + card (idx (deletions b)) - card (idx (insertions b)) = length xs"
    using A(3,7,8) by linarith
  then have "deletions (cb_clear b (length ys)) = set_len (deletions b) (length xs)"
    using T(2,3) len A(8) by (simp add: cb_clear_def Let_def r sum_ranges wf_def)
  then have "idx (deletions (cb_clear b (length ys))) = {..<length xs}" by (simp add: set_len_spec)
  moreover have "insertions (cb_clear b (length ys)) = []" "moves (cb_clear b (length ys)) = []"
    by (simp_all add: cb_clear_def Let_def)
  ultimately show ?thesis
    using cb_clear_ok[OF T(1)] by (simp add: tracks_def moves_ok_def applies_iff)
qed

section \<open>Moving one element\<close>

definition move_elem :: "nat \<Rightarrow> nat \<Rightarrow> 'a list \<Rightarrow> 'a list" where
  "move_elem f t ys = (let zs = take f ys @ drop (Suc f) ys in take t zs @ ys ! f # drop t zs)"

lemma move_elem_step:
  assumes "f < length ys" "t < length ys"
  shows "applies {f} {t} ys (move_elem f t ys)" "move_elem f t ys ! t = ys ! f"
    "length (move_elem f t ys) = length ys"
proof -
  let ?zs = "take f ys @ drop (Suc f) ys"
  have l: "t \<le> length ?zs" using assms by simp
  have "applies {} {t..<t + length [ys ! f]} ?zs (take t ?zs @ [ys ! f] @ drop t ?zs)"
    by (rule applies_insert_step[OF l])
  from applies_merge[OF applies_erase_step[OF assms(1)] this]
  show "applies {f} {t} ys (move_elem f t ys)"
    by (simp add: merged_deletions_def merged_insertions_def move_elem_def Let_def)
  have "length (take t ?zs) = t" using l by simp
  then show "move_elem f t ys ! t = ys ! f" unfolding move_elem_def Let_def by (metis nth_append_length)
  show "length (move_elem f t ys) = length ys" using l assms by (simp add: move_elem_def Let_def)
qed

text \<open>The destination of another move, as the loop updates it.\<close>

definition moved_past :: "size \<Rightarrow> size \<Rightarrow> move \<Rightarrow> move" where
  "moved_past f t m = m\<lparr>m_to := carry_to {f} {t} (m_to m)\<rparr>"

lemma move_loop_step:
  assumes "m_to m \<noteq> f"
  shows "(if t \<le> m_to m \<and> m_to m < f then m\<lparr>m_to := m_to m + 1\<rparr>
    else if m_to m \<le> t \<and> f < m_to m then m\<lparr>m_to := m_to m - 1\<rparr> else m) = moved_past f t m"
  using assms by (auto simp: moved_past_def carry_to_def rank_outside_singleton nth_outside_one)

lemma moved_past_to:
  assumes "\<And>n. n \<in> set mv \<Longrightarrow> carry_to {f} {t} (m_to n) \<noteq> t"
  shows "t \<notin> set (map m_to (map (moved_past f t) mv))"
proof
  assume t: "t \<in> set (map m_to (map (moved_past f t) mv))"
  have "set (map m_to (map (moved_past f t) mv)) = (\<lambda>n. carry_to {f} {t} (m_to n)) ` set mv"
    by (simp add: moved_past_def image_image)
  then obtain n where "t = carry_to {f} {t} (m_to n)" "n \<in> set mv" using t by blast
  then show False using assms by metis
qed

lemma map_moved_past:
  "f \<notin> m_to ` set mv \<Longrightarrow>
    map (\<lambda>m. if m_to m = f then m\<lparr>m_to := t\<rparr> else moved_past f t m) mv = map (moved_past f t) mv"
  by (induction mv) auto

lemma move_loop_none:
  assumes "f \<notin> m_to ` set mv"
  shows "move_loop f t mv ins u = (map (moved_past f t) mv, ins, u)"
  using assms by (induction mv) (simp_all add: move_loop_step)

lemma move_loop_one:
  assumes "distinct (map m_to (mv1 @ m # mv2))" "m_to m = f"
  shows "move_loop f t (mv1 @ m # mv2) ins u =
    (map (moved_past f t) mv1 @ m\<lparr>m_to := t\<rparr> # map (moved_past f t) mv2, insert_at (erase_at ins f) t 1, True)"
  using assms
proof (induction mv1)
  case Nil
  then have "f \<notin> m_to ` set mv2" by auto
  then show ?case using Nil by (simp add: move_loop_none Let_def)
next
  case (Cons x mv1)
  then have "m_to x \<noteq> f" by auto
  then show ?case using Cons by (simp add: move_loop_step)
qed

lemma move_insertions:
  assumes "wf i"
  shows "wf (insert_at (erase_at i f) t 1)"
    "idx (insert_at (erase_at i f) t 1) = merged_insertions (idx i) {f} {t}"
    "idx (insert_at (fst (erase_or_unshift i f)) t 1) = merged_insertions (idx i) {f} {t}"
  using assms by (simp_all add: ix_ok ix_members merged_insertions_def)

lemma moved_cols_wf:
  assumes "wf c"
  shows "wf (if contains c f then insert_at (erase_at c f) t 1 else shift_for_insert_at (erase_at c f) t 1)"
  using assms by (simp add: ix_ok)

lemma cb_ok_update:
  assumes "cb_ok b" "wf i" "wf d"
  shows "cb_ok (b\<lparr>insertions := i, deletions := d, moves := mv\<rparr>)"
  using assms by (simp add: cb_ok_def)

text \<open>The state before the columns are updated, in the three cases of \<open>move\<close>.\<close>

definition move_result :: "change_builder \<Rightarrow> size \<Rightarrow> size \<Rightarrow> change_builder" where
  "move_result b f t =
     (if f \<in> m_to ` set (moves b) then
        b\<lparr>moves := map (\<lambda>m. if m_to m = f then m\<lparr>m_to := t\<rparr> else moved_past f t m) (moves b),
          insertions := insert_at (erase_at (insertions b) f) t 1\<rparr>
      else let (ins, s) = erase_or_unshift (insertions b) f;
          b = b\<lparr>moves := map (moved_past f t) (moves b), insertions := insert_at ins t 1\<rparr>
        in if s \<noteq> npos then
             b\<lparr>deletions := fst (add_shifted (deletions b) s),
               moves := moves b @ [\<lparr>m_from = snd (add_shifted (deletions b) s), m_to = t\<rparr>]\<rparr>
           else b)"

lemma cb_move_result:
  assumes "distinct (map m_to (moves b))"
  shows "cb_move b f t = for_each_col (\<lambda>col. if contains col f then insert_at (erase_at col f) t 1
    else shift_for_insert_at (erase_at col f) t 1) (move_result b f t)"
proof (cases "f \<in> m_to ` set (moves b)")
  case True
  then obtain m where "m \<in> set (moves b)" "m_to m = f" by auto
  then obtain mv1 mv2 where mv: "moves b = mv1 @ m # mv2" by (meson split_list)
  have "f \<notin> m_to ` set mv1" "f \<notin> m_to ` set mv2" using assms mv \<open>m_to m = f\<close> by auto
  then have "map (\<lambda>m. if m_to m = f then m\<lparr>m_to := t\<rparr> else moved_past f t m) (moves b) =
    map (moved_past f t) mv1 @ m\<lparr>m_to := t\<rparr> # map (moved_past f t) mv2"
    using mv \<open>m_to m = f\<close> by (simp add: map_moved_past)
  moreover note move_loop_one[of mv1 m mv2 f t "insertions b" False]
  ultimately show ?thesis
    using assms mv \<open>m_to m = f\<close> True by (simp add: cb_move_def move_result_def Let_def)
next
  case False
  then show ?thesis
    by (simp add: cb_move_def move_result_def move_loop_none Let_def split_def)
qed

lemma tracks_move:
  assumes t: "tracks b xs ys" and f: "f < length ys" and t': "t < length ys" and len: "length ys \<le> npos"
  shows "tracks (cb_move b f t) xs (move_elem f t ys)"
proof -
  note T = tracksD[OF t]
  note A = appliesD[OF T(5)]
  note st = move_elem_step[OF f t']
  note mc = moves_ok_carry[OF T(6,5) st(1), folded moved_past_def]
  let ?D = "idx (deletions b)" and ?I = "idx (insertions b)"
  let ?D' = "merged_deletions ?D ?I {f}" and ?I' = "merged_insertions ?I {f} {t}"
  have dt: "distinct (map m_to (moves b))" and df: "distinct (map m_from (moves b))"
    and in_sets: "\<And>m. m \<in> set (moves b) \<Longrightarrow> m_from m \<in> ?D \<and> m_to m \<in> ?I \<and> xs ! m_from m = ys ! m_to m"
    using T(6) by (simp_all add: moves_ok_def)
  note cv = carry_to_elem[OF st(1)]
  define r where "r = move_result b f t"
  have "idx (deletions r) = ?D' \<and> idx (insertions r) = ?I' \<and> cb_ok r \<and>
    moves_ok (moves r) ?D' ?I' xs (move_elem f t ys)"
  proof (cases "f \<in> m_to ` set (moves b)")
    case True
    then obtain m where m: "m \<in> set (moves b)" "m_to m = f" by auto
    then have fI: "f \<in> ?I" using in_sets by auto
    then have "{f} - ?I = {}" by simp
    then have D: "?D' = ?D" unfolding merged_deletions_def by simp
    obtain mv1 mv2 where mv: "moves b = mv1 @ m # mv2" using m(1) by (meson split_list)
    have nf: "f \<notin> m_to ` set mv1" "f \<notin> m_to ` set mv2" using dt mv m(2) by auto
    have mr: "moves r = map (moved_past f t) mv1 @ m\<lparr>m_to := t\<rparr> # map (moved_past f t) mv2"
      using nf True mv m(2) by (simp add: r_def move_result_def map_moved_past)
    have filt: "filter (\<lambda>m. m_to m \<notin> {f}) (moves b) = mv1 @ mv2"
    proof -
      have "filter (\<lambda>m. m_to m \<notin> {f}) mv1 = mv1" by (rule filter_True) (use nf in auto)
      moreover have "filter (\<lambda>m. m_to m \<notin> {f}) mv2 = mv2" by (rule filter_True) (use nf in auto)
      ultimately show ?thesis using mv m(2) by simp
    qed
    have rest: "moves_ok (map (moved_past f t) (mv1 @ mv2)) ?D' ?I' xs (move_elem f t ys)"
      using mc unfolding filt .
    have "t \<notin> set (map m_to (map (moved_past f t) (mv1 @ mv2)))"
    proof (rule moved_past_to)
      fix n assume "n \<in> set (mv1 @ mv2)"
      then have "n \<in> set (moves b)" "m_to n \<noteq> f" using mv nf by auto
      then have "m_to n < length ys" "m_to n \<notin> {f}" using in_sets[of n] A(2) by auto
      then show "carry_to {f} {t} (m_to n) \<noteq> t" using cv(3) by blast
    qed
    moreover have "m_from m \<notin> set (map m_from (map (moved_past f t) (mv1 @ mv2)))"
      using df mv by (auto simp: moved_past_def)
    moreover have "m_from m \<in> ?D'" "t \<in> ?I'" "xs ! m_from m = move_elem f t ys ! t"
      using in_sets[OF m(1)] m(2) st(2) D by (simp_all add: merged_insertions_def)
    ultimately have "moves_ok (moves r) ?D' ?I' xs (move_elem f t ys)"
      using rest unfolding mr moves_ok_def by auto
    then show ?thesis
      using D True T(1,3) move_insertions[OF T(3), of f t]
      by (simp add: r_def move_result_def cb_ok_def)
  next
    case False
    then have filt: "filter (\<lambda>m. m_to m \<notin> {f}) (moves b) = moves b" by (auto simp: filter_id_conv)
    have rest: "moves_ok (map (moved_past f t) (moves b)) ?D' ?I' xs (move_elem f t ys)"
      using mc unfolding filt .
    have fn: "f < npos" using f len by simp
    note es = erase_sets[OF T(2,3) fn]
    obtain i s where e: "erase_or_unshift (insertions b) f = (i, s)" by (cases "erase_or_unshift (insertions b) f")
    have wi: "wf i" using erase_or_unshift_spec(1)[OF T(3) e] .
    have mi: "wf (insert_at i t 1)" "idx (insert_at i t 1) = ?I'"
      using move_insertions(3)[OF T(3), of f t] e wi by (simp_all add: ix_ok)
    show ?thesis
    proof (cases "s = npos")
      case True
      then have "?D' = ?D" using es(1) e by simp
      then show ?thesis
        using False True e mi rest T(1) by (simp add: r_def move_result_def cb_ok_def)
    next
      case ns: False
      obtain d p where p: "add_shifted (deletions b) s = (d, p)" by (cases "add_shifted (deletions b) s")
      note ad = add_shifted_spec[OF T(2) p]
      have fI: "f \<notin> ?I" "s = rank_outside ?I f"
        using erase_or_unshift_spec(3)[OF T(3) e] ns by (auto split: if_splits)
      have D: "idx d = ?D'" using es(1) e ns p by simp
      have mr: "moves r = map (moved_past f t) (moves b) @ [\<lparr>m_from = p, m_to = t\<rparr>]"
        "deletions r = d" "insertions r = insert_at i t 1"
        using False ns e p by (simp_all add: r_def move_result_def)
      have "p \<notin> ?D" using ad(3) by simp
      then have "p \<notin> set (map m_from (map (moved_past f t) (moves b)))"
        using in_sets by (auto simp: moved_past_def)
      moreover have "t \<notin> set (map m_to (map (moved_past f t) (moves b)))"
      proof (rule moved_past_to)
        fix n assume n: "n \<in> set (moves b)"
        then have "m_to n < length ys" "m_to n \<notin> {f}" using in_sets[OF n] A(2) False by auto
        then show "carry_to {f} {t} (m_to n) \<noteq> t" using cv(3) by blast
      qed
      moreover have "p \<in> ?D'" "t \<in> ?I'" using ad(2) D by (auto simp: merged_insertions_def)
      moreover have "xs ! p = move_elem f t ys ! t"
        using applies_survivor(1)[OF T(5) f fI(1)] ad(3) fI(2) st(2) by simp
      ultimately have "moves_ok (moves r) ?D' ?I' xs (move_elem f t ys)"
        using rest unfolding mr moves_ok_def by auto
      moreover have "cb_ok r"
        using False ns e p T(1) mi(1) ad(1) by (simp add: r_def move_result_def cb_ok_def)
      ultimately show ?thesis using mr D mi(2) by simp
    qed
  qed
  then have R: "idx (deletions r) = ?D'" "idx (insertions r) = ?I'" "cb_ok r"
    "moves_ok (moves r) ?D' ?I' xs (move_elem f t ys)" by blast+
  have "cb_ok (cb_move b f t)"
    unfolding cb_move_result[OF dt] r_def[symmetric] by (rule cb_ok_for_each_col[OF R(3) moved_cols_wf])
  moreover have "deletions (cb_move b f t) = deletions r" "insertions (cb_move b f t) = insertions r"
    "moves (cb_move b f t) = moves r" by (simp_all add: cb_move_result[OF dt] r_def)
  ultimately show ?thesis using R applies_merge[OF T(5) st(1)] by (simp add: tracks_def)
qed

end
