(* ===== verification/Change_Merge.thy ===== *)
theory Change_Merge
  imports Change_Builder_Laws "HOL-Library.Multiset"
begin

text \<open>
  Merging two change builders: the merged deletions and insertions turn the oldest list into the
  newest one, the moves of both are composed, moves that were undone disappear, and modified
  positions follow their elements.
\<close>

section \<open>Walking the columns of two builders\<close>

lemma resize_wf: "list_all wf xs \<Longrightarrow> list_all wf (resize n xs)"
  by (auto simp: resize_def list_all_iff dest: in_set_takeD)

lemma length_resize [simp]: "length (resize n xs) = n"
  by (simp add: resize_def)

lemma merge_cols_frame [simp]:
  "deletions (fst (merge_cols f s)) = deletions (fst s)" "insertions (fst (merge_cols f s)) = insertions (fst s)"
  "moves (fst (merge_cols f s)) = moves (fst s)"
  "modifications_new (fst (merge_cols f s)) = modifications_new (fst s)"
  "move_mapping (fst (merge_cols f s)) = move_mapping (fst s)"
  "track_columns (fst (merge_cols f s)) = track_columns (fst s)"
  "deletions (snd (merge_cols f s)) = deletions (snd s)" "insertions (snd (merge_cols f s)) = insertions (snd s)"
  "moves (snd (merge_cols f s)) = moves (snd s)"
  "modifications_new (snd (merge_cols f s)) = modifications_new (snd s)"
  "move_mapping (snd (merge_cols f s)) = move_mapping (snd s)"
  "modifications (fst (merge_cols f s)) = fst (f (modifications (fst s)) (modifications (snd s)))"
  "modifications (snd (merge_cols f s)) = snd (f (modifications (fst s)) (modifications (snd s)))"
  by (cases s; simp add: merge_cols_def Let_def split_def)+

lemma merge_cols_ok:
  assumes "cb_ok (fst s)" "cb_ok (snd s)"
    and f: "\<And>x y. wf x \<Longrightarrow> wf y \<Longrightarrow> wf (fst (f x y)) \<and> wf (snd (f x y))"
  shows "cb_ok (fst (merge_cols f s))" "cb_ok (snd (merge_cols f s))"
proof -
  obtain a c where s: "s = (a, c)" by (cases s)
  define n where "n = max (length (columns a)) (length (columns c))"
  define ps where "ps = map2 f (resize n (columns a)) (resize n (columns c))"
  have "list_all wf (resize n (columns a))" "list_all wf (resize n (columns c))"
    using assms(1,2) s by (simp_all add: cb_ok_def resize_wf)
  note w = this[unfolded list_all_iff]
  have "\<forall>p \<in> set ps. wf (fst p) \<and> wf (snd p)"
  proof
    fix p assume "p \<in> set ps"
    then obtain q where q: "q \<in> set (zip (resize n (columns a)) (resize n (columns c)))" "p = f (fst q) (snd q)"
      by (auto simp: ps_def)
    then have "wf (fst q)" "wf (snd q)"
      using w set_zip_leftD[of "fst q" "snd q"] set_zip_rightD[of "fst q" "snd q"] by auto
    then show "wf (fst p) \<and> wf (snd p)" using f q(2) by simp
  qed
  then have "list_all wf (map fst ps)" "list_all wf (map snd ps)" by (auto simp: list_all_iff)
  moreover have "columns (fst (merge_cols f s)) = (if track_columns a then map fst ps else columns a)"
    "columns (snd (merge_cols f s)) = (if track_columns a then map snd ps else columns c)"
    by (simp_all add: s merge_cols_def Let_def split_def n_def ps_def)
  ultimately show "cb_ok (fst (merge_cols f s))" "cb_ok (snd (merge_cols f s))"
    using assms(1,2) f[of "modifications a" "modifications c"] by (simp_all add: cb_ok_def s)
qed

lemma carry_modified_wf: "wf x \<Longrightarrow> wf y \<Longrightarrow> wf (fst (carry_modified m x y)) \<and> wf (snd (carry_modified m x y))"
  by (simp add: carry_modified_def ix_ok)

section \<open>Updating the old moves\<close>

lemma mset_swap_remove:
  assumes "k < length xs"
  shows "add_mset (xs ! k) (mset (butlast (xs[k := last xs]))) = mset xs"
proof -
  obtain ys z where xs: "xs = ys @ [z]" using assms by (cases xs rule: rev_cases) auto
  show ?thesis
  proof (cases "k < length ys")
    case True
    then have "xs ! k = ys ! k" "butlast (xs[k := last xs]) = ys[k := z]"
      using xs by (simp_all add: nth_append list_update_append)
    moreover have "ys ! k \<in># mset ys" using True by simp
    ultimately show ?thesis using True xs by (simp add: mset_update)
  next
    case False
    then have "k = length ys" using assms xs by simp
    then show ?thesis using xs by simp
  qed
qed

lemma distinct_map_sub:
  assumes "add_mset x (mset ys) = mset xs" "distinct (map f xs)"
  shows "distinct (map f ys)" "f x \<notin> f ` set ys"
proof -
  have "mset (x # ys) = mset xs" using assms(1) by simp
  then have "mset (map f (x # ys)) = mset (map f xs)" by (simp only: mset_map)
  then have "distinct (map f (x # ys))" using assms(2) by (metis mset_eq_imp_distinct_iff)
  then show "distinct (map f ys)" "f x \<notin> f ` set ys" by auto
qed

text \<open>Where a second move takes an element, when there is one.\<close>

definition moved_again :: "move list \<Rightarrow> size \<Rightarrow> size option" where
  "moved_again cm t = map_option m_to (List.find (\<lambda>m. m_from m = t) cm)"

lemma moved_again_iff:
  assumes "distinct (map m_from cm)"
  shows "moved_again cm t = Some u \<longleftrightarrow> (\<exists>m \<in> set cm. m_from m = t \<and> m_to m = u)"
  using assms
proof (induction cm)
  case (Cons m cm)
  show ?case
  proof (cases "m_from m = t")
    case True
    then have "\<forall>n \<in> set cm. m_from n \<noteq> t" using Cons.prems by (force simp: image_iff)
    then show ?thesis using True by (auto simp: moved_again_def)
  next
    case False
    then have "moved_again (m # cm) t = moved_again cm t" by (simp add: moved_again_def)
    then show ?thesis using Cons False by auto
  qed
qed (simp add: moved_again_def)

lemma moved_again_None:
  "moved_again cm t = None \<longleftrightarrow> (\<forall>m \<in> set cm. m_from m \<noteq> t)"
  by (auto simp: moved_again_def find_None_iff)

definition update_move :: "move list \<Rightarrow> crv \<Rightarrow> crv \<Rightarrow> move \<Rightarrow> move option" where
  "update_move cm del ins old =
     (case moved_again cm (m_to old) of
        Some u \<Rightarrow> Some (old\<lparr>m_to := u\<rparr>)
      | None \<Rightarrow> if contains del (m_to old) then None
          else Some (old\<lparr>m_to := shift ins (unshift del (m_to old))\<rparr>))"

lemma takeWhile_find:
  assumes "k = length (takeWhile (\<lambda>m. t \<noteq> m_from m) cm)"
  shows "k < length cm \<Longrightarrow> m_from (cm ! k) = t" "k < length cm \<longleftrightarrow> (\<exists>m \<in> set cm. m_from m = t)"
proof -
  show "k < length cm \<Longrightarrow> m_from (cm ! k) = t"
    using nth_length_takeWhile[of "\<lambda>m. t \<noteq> m_from m" cm] assms by simp
  show "k < length cm \<longleftrightarrow> (\<exists>m \<in> set cm. m_from m = t)"
  proof
    assume "k < length cm"
    then show "\<exists>m \<in> set cm. m_from m = t"
      using nth_length_takeWhile[of "\<lambda>m. t \<noteq> m_from m" cm] assms by (metis nth_mem)
  next
    assume ex: "\<exists>m \<in> set cm. m_from m = t"
    show "k < length cm"
    proof (rule ccontr)
      assume "\<not> k < length cm"
      then have "takeWhile (\<lambda>m. t \<noteq> m_from m) cm = cm"
        using assms takeWhile_eq_take[of "\<lambda>m. t \<noteq> m_from m" cm] by simp
      then have "\<forall>m \<in> set cm. t \<noteq> m_from m" by (simp only: takeWhile_eq_all_conv)
      then show False using ex by blast
    qed
  qed
qed

text \<open>What \<open>update_old_moves\<close> leaves of the moves of the second builder.\<close>

definition rest_of :: "move list \<Rightarrow> nat set \<Rightarrow> move list \<Rightarrow> bool" where
  "rest_of cm T cm' \<longleftrightarrow> distinct (map m_from cm') \<and> distinct (map m_to cm') \<and>
     set cm' = {m \<in> set cm. m_from m \<notin> T}"

lemma update_old_move_step:
  assumes "distinct (map m_from (moves c))" "distinct (map m_to (moves c))"
    and "update_old_move old (a, c) = (gone, old', a', c')"
  shows "(if gone then None else Some old') = update_move (moves c) (deletions c) (insertions c) old"
    "rest_of (moves c) {m_to old} (moves c')"
    "deletions c' = deletions c \<and> insertions c' = insertions c"
    "deletions a' = deletions a \<and> insertions a' = insertions a \<and> moves a' = moves a"
    "cb_ok a \<and> cb_ok c \<longrightarrow> cb_ok a' \<and> cb_ok c'"
proof -
  define k where "k = length (takeWhile (\<lambda>m. m_to old \<noteq> m_from m) (moves c))"
  note tf = takeWhile_find[OF k_def]
  have "(if gone then None else Some old') = update_move (moves c) (deletions c) (insertions c) old \<and>
    rest_of (moves c) {m_to old} (moves c') \<and>
    deletions c' = deletions c \<and> insertions c' = insertions c \<and>
    deletions a' = deletions a \<and> insertions a' = insertions a \<and> moves a' = moves a \<and>
    (cb_ok a \<and> cb_ok c \<longrightarrow> cb_ok a' \<and> cb_ok c')"
  proof (cases "k < length (moves c)")
    case True
    define it where "it = moves c ! k"
    obtain a1 c1 where mc: "merge_cols (carry_modified it) (a, c) = (a1, c1)"
      by (cases "merge_cols (carry_modified it) (a, c)")
    have e: "gone = False" "old' = old\<lparr>m_to := m_to it\<rparr>" "a' = a1"
      "c' = c1\<lparr>moves := butlast ((moves c1)[k := last (moves c1)])\<rparr>"
      using assms(3) True mc by (simp_all add: update_old_move_def k_def[symmetric] it_def[symmetric] Let_def)
    have fr: "deletions a1 = deletions a" "insertions a1 = insertions a" "moves a1 = moves a"
      "deletions c1 = deletions c" "insertions c1 = insertions c" "moves c1 = moves c"
      using merge_cols_frame[of "carry_modified it" "(a, c)"] mc by simp_all
    have ok: "cb_ok a \<and> cb_ok c \<longrightarrow> cb_ok a1 \<and> cb_ok c1"
      using merge_cols_ok[of "(a, c)" "carry_modified it"] carry_modified_wf mc by simp
    have ms: "add_mset it (mset (moves c')) = mset (moves c)"
      using mset_swap_remove[OF True] e(4) fr by (simp add: it_def)
    note df = distinct_map_sub[OF ms assms(1)] and dt = distinct_map_sub[OF ms assms(2)]
    have it: "it \<in> set (moves c)" "m_from it = m_to old" using True tf(1) by (simp_all add: it_def)
    have "set (moves c) = insert it (set (moves c'))" using ms by (metis set_mset_add_mset_insert set_mset_mset)
    then have "rest_of (moves c) {m_to old} (moves c')"
      using df dt it by (force simp: rest_of_def image_iff)
    moreover have "moved_again (moves c) (m_to old) = Some (m_to it)"
      using moved_again_iff[OF assms(1)] it by blast
    ultimately show ?thesis using e fr ok by (simp add: update_move_def cb_ok_def)
  next
    case False
    then have no: "\<forall>m \<in> set (moves c). m_from m \<noteq> m_to old" using tf(2) by blast
    then have "moved_again (moves c) (m_to old) = None" by (simp add: moved_again_None)
    moreover have "rest_of (moves c) {m_to old} (moves c)"
      using assms(1,2) no by (auto simp: rest_of_def)
    ultimately show ?thesis
      using assms(3) False by (auto simp: update_old_move_def k_def[symmetric] Let_def update_move_def split: if_splits)
  qed
  then show "(if gone then None else Some old') = update_move (moves c) (deletions c) (insertions c) old"
    "rest_of (moves c) {m_to old} (moves c')"
    "deletions c' = deletions c \<and> insertions c' = insertions c"
    "deletions a' = deletions a \<and> insertions a' = insertions a \<and> moves a' = moves a"
    "cb_ok a \<and> cb_ok c \<longrightarrow> cb_ok a' \<and> cb_ok c'" by blast+
qed

lemma update_move_rest:
  assumes "distinct (map m_from cm)" "rest_of cm T cm'" "m_to old \<notin> T"
  shows "update_move cm' del ins old = update_move cm del ins old"
proof -
  have r: "distinct (map m_from cm')" "set cm' = {m \<in> set cm. m_from m \<notin> T}"
    using assms(2) by (simp_all add: rest_of_def)
  have "moved_again cm' (m_to old) = moved_again cm (m_to old)"
  proof (cases "moved_again cm (m_to old)")
    case None
    then have "moved_again cm' (m_to old) = None" using r(2) by (simp add: moved_again_None)
    then show ?thesis using None by simp
  next
    case (Some u)
    then obtain m where "m \<in> set cm" "m_from m = m_to old" "m_to m = u"
      using moved_again_iff[OF assms(1)] by auto
    then have "m \<in> set cm'" using r(2) assms(3) by simp
    then show ?thesis using Some \<open>m_from m = m_to old\<close> \<open>m_to m = u\<close> moved_again_iff[OF r(1)] by auto
  qed
  then show ?thesis by (simp add: update_move_def)
qed

lemma rest_of_trans:
  "rest_of cm T cm1 \<Longrightarrow> rest_of cm1 U cm2 \<Longrightarrow> rest_of cm (T \<union> U) cm2"
  by (auto simp: rest_of_def)

lemma update_old_moves:
  assumes "distinct (map m_from (moves c))" "distinct (map m_to (moves c))" "distinct (map m_to mv)"
    and "remove_if_state update_old_move mv (a, c) = (mv', a', c')"
  shows "mv' = List.map_filter (update_move (moves c) (deletions c) (insertions c)) mv \<and>
    rest_of (moves c) (m_to ` set mv) (moves c') \<and>
    deletions c' = deletions c \<and> insertions c' = insertions c \<and>
    deletions a' = deletions a \<and> insertions a' = insertions a \<and> moves a' = moves a \<and>
    (cb_ok a \<and> cb_ok c \<longrightarrow> cb_ok a' \<and> cb_ok c')"
  using assms
proof (induction mv arbitrary: a c mv')
  case Nil
  then show ?case by (auto simp: rest_of_def map_filter_simps)
next
  case (Cons x mv)
  obtain gone x' a1 c1 where u: "update_old_move x (a, c) = (gone, x', a1, c1)"
    by (cases "update_old_move x (a, c)") auto
  obtain mv1 where r: "remove_if_state update_old_move mv (a1, c1) = (mv1, a', c')"
    and mv': "mv' = (if gone then mv1 else x' # mv1)"
    using Cons.prems(4) u by (cases "remove_if_state update_old_move mv (a1, c1)") (auto split: prod.splits)
  note st = update_old_move_step[OF Cons.prems(1,2) u]
  have d1: "distinct (map m_from (moves c1))" "distinct (map m_to (moves c1))"
    using st(2) by (simp_all add: rest_of_def)
  have dm: "distinct (map m_to mv)" "m_to x \<notin> m_to ` set mv" using Cons.prems(3) by auto
  note ih = Cons.IH[OF d1 dm(1) r]
  have "List.map_filter (update_move (moves c1) (deletions c1) (insertions c1)) mv =
    List.map_filter (update_move (moves c) (deletions c) (insertions c)) mv"
  proof -
    have "update_move (moves c1) (deletions c1) (insertions c1) y =
      update_move (moves c) (deletions c) (insertions c) y" if "y \<in> set mv" for y
    proof -
      have "m_to y \<notin> {m_to x}" using that dm(2) by (metis image_eqI singletonD)
      then show ?thesis using update_move_rest[OF Cons.prems(1) st(2)] st(3) by simp
    qed
    then show ?thesis unfolding List.map_filter_def by (auto intro!: map_cong filter_cong)
  qed
  then have "mv' = List.map_filter (update_move (moves c) (deletions c) (insertions c)) (x # mv)"
    unfolding mv' using conjunct1[OF ih] by (simp add: map_filter_simps st(1)[symmetric])
  moreover have "rest_of (moves c) (m_to ` set (x # mv)) (moves c')"
    using rest_of_trans[OF st(2) conjunct1[OF conjunct2[OF ih]]] by simp
  ultimately show ?case using ih st(3-5) by simp
qed


section \<open>The merged list of moves\<close>

lemma foldl_carry:
  defines "F \<equiv> foldl (\<lambda>s m. merge_cols (carry_modified m) s)"
  shows "deletions (fst (F s ms)) = deletions (fst s) \<and> insertions (fst (F s ms)) = insertions (fst s) \<and>
    moves (fst (F s ms)) = moves (fst s) \<and> deletions (snd (F s ms)) = deletions (snd s) \<and>
    insertions (snd (F s ms)) = insertions (snd s) \<and> moves (snd (F s ms)) = moves (snd s) \<and>
    (cb_ok (fst s) \<and> cb_ok (snd s) \<longrightarrow> cb_ok (fst (F s ms)) \<and> cb_ok (snd (F s ms)))"
  unfolding F_def
proof (induction ms arbitrary: s)
  case (Cons m ms)
  have "cb_ok (fst s) \<and> cb_ok (snd s) \<longrightarrow>
    cb_ok (fst (merge_cols (carry_modified m) s)) \<and> cb_ok (snd (merge_cols (carry_modified m) s))"
    using merge_cols_ok[of s "carry_modified m"] carry_modified_wf by blast
  then show ?case using Cons.IH[of "merge_cols (carry_modified m) s"] by simp
qed simp

lemma cb_ok_moves [simp]: "cb_ok (b\<lparr>moves := mv\<rparr>) = cb_ok b"
  by (simp add: cb_ok_def)

lemma shift_Nil [simp]: "shift [] i = i" "unshift [] i = i"
  using shift_spec[of "[]" i] unshift_spec[of "[]" i] by simp_all

lemma contains_Nil [simp]: "\<not> contains [] i"
  using contains_iff[of "[]" i] by simp

lemma merge_old_moves_spec:
  assumes "distinct (map m_from (moves c))" "distinct (map m_to (moves c))" "distinct (map m_to (moves a))"
    and "cb_ok a" "cb_ok c" "merge_old_moves (a, c) = (a', c')"
  shows "moves a' = List.map_filter (update_move (moves c) (deletions c) (insertions c)) (moves a) \<and>
    rest_of (moves c) (m_to ` set (moves a)) (moves c') \<and> deletions c' = deletions c \<and>
    insertions c' = insertions c \<and> deletions a' = deletions a \<and> insertions a' = insertions a \<and>
    cb_ok a' \<and> cb_ok c'"
proof (cases "moves c \<noteq> [] \<or> deletions c \<noteq> [] \<or> insertions c \<noteq> []")
  case True
  obtain mv a1 c1 where r: "remove_if_state update_old_move (moves a) (a, c) = (mv, a1, c1)"
    by (cases "remove_if_state update_old_move (moves a) (a, c)") auto
  have "a' = a1\<lparr>moves := mv\<rparr>" "c' = c1" using True r assms(6) by (simp_all add: merge_old_moves_def)
  then show ?thesis using update_old_moves[OF assms(1-3) r] assms(4,5) by simp
next
  case False
  then have "a' = a" "c' = c" using assms(6) by (simp_all add: merge_old_moves_def)
  moreover have "update_move (moves c) (deletions c) (insertions c) = Some"
    using False by (simp add: fun_eq_iff update_move_def moved_again_def)
  then have "List.map_filter (update_move (moves c) (deletions c) (insertions c)) (moves a) = moves a"
    by (simp add: List.map_filter_def)
  moreover have "rest_of (moves c) (m_to ` set (moves a)) (moves c)" using False by (simp add: rest_of_def)
  ultimately show ?thesis using assms(4,5) by simp
qed

definition shift_new_move :: "crv \<Rightarrow> crv \<Rightarrow> move \<Rightarrow> move" where
  "shift_new_move del ins m = m\<lparr>m_from := shift del (unshift ins (m_from m))\<rparr>"

lemma shift_new_move_Nil: "shift_new_move [] [] m = m"
  by (simp add: shift_new_move_def)

lemma merge_new_moves_spec:
  assumes "cb_ok a" "cb_ok c" "merge_new_moves (a, c) = (a', c')"
    and "distinct (map m_from (moves c))" "distinct (map m_to (moves c))"
  shows "\<exists>rest. moves a' = moves a @ map (shift_new_move (deletions a) (insertions a)) rest \<and>
    rest_of (moves c) (idx (insertions a)) rest \<and> deletions a' = deletions a \<and> insertions a' = insertions a \<and>
    deletions c' = deletions c \<and> insertions c' = insertions c \<and> cb_ok a' \<and> cb_ok c'"
proof -
  define c1 where "c1 = (if insertions a \<noteq> [] \<and> moves c \<noteq> []
    then c\<lparr>moves := filter (\<lambda>m. \<not> contains (insertions a) (m_from m)) (moves c)\<rparr> else c)"
  have wi: "wf (insertions a)" using assms(1) by (simp add: cb_ok_def)
  have m1: "moves c1 = filter (\<lambda>m. \<not> contains (insertions a) (m_from m)) (moves c)"
    by (auto simp: c1_def filter_id_conv)
  have r1: "rest_of (moves c) (idx (insertions a)) (moves c1)"
    unfolding m1 using assms(4,5) wi by (auto simp: rest_of_def contains_iff distinct_map_filter)
  have c1: "deletions c1 = deletions c" "insertions c1 = insertions c" "cb_ok c1"
    using assms(2) by (simp_all add: c1_def)
  obtain a2 c2 where s2: "(if modifications a \<noteq> [] \<and> moves c1 \<noteq> []
      then foldl (\<lambda>s m. merge_cols (carry_modified m) s) (a, c1) (moves c1) else (a, c1)) = (a2, c2)"
    by (cases "if modifications a \<noteq> [] \<and> moves c1 \<noteq> []
      then foldl (\<lambda>s m. merge_cols (carry_modified m) s) (a, c1) (moves c1) else (a, c1)")
  have f2: "deletions a2 = deletions a" "insertions a2 = insertions a" "moves a2 = moves a"
    "deletions c2 = deletions c1" "insertions c2 = insertions c1" "moves c2 = moves c1" "cb_ok a2" "cb_ok c2"
    using foldl_carry[of "(a, c1)" "moves c1"] s2 assms(1) c1(3)
    by (simp_all split: if_splits)
  define c3 where "c3 = (if deletions a2 \<noteq> [] \<or> insertions a2 \<noteq> []
    then c2\<lparr>moves := map (shift_new_move (deletions a2) (insertions a2)) (moves c2)\<rparr> else c2)"
  have m3: "moves c3 = map (shift_new_move (deletions a) (insertions a)) (moves c1)"
    using f2 by (auto simp: c3_def shift_new_move_Nil map_idI)
  have "merge_new_moves (a, c) = (a2\<lparr>moves := moves a2 @ moves c3\<rparr>, c3)"
    unfolding merge_new_moves_def Let_def prod.case c1_def[symmetric] s2 c3_def shift_new_move_def ..
  then have "a' = a2\<lparr>moves := moves a2 @ moves c3\<rparr>" "c' = c3" using assms(3) by simp_all
  then show ?thesis
    using m3 r1 f2 c1 by (intro exI[of _ "moves c1"]) (simp add: c3_def)
qed

lemma set_map_filter: "y \<in> set (List.map_filter g xs) \<longleftrightarrow> (\<exists>x \<in> set xs. g x = Some y)"
  by (induction xs) (auto simp: map_filter_simps split: option.splits)

lemma distinct_map_map_filter:
  assumes "distinct xs"
    and "\<And>x y x' y'. x \<in> set xs \<Longrightarrow> y \<in> set xs \<Longrightarrow> g x = Some x' \<Longrightarrow> g y = Some y' \<Longrightarrow> h x' = h y' \<Longrightarrow> x = y"
  shows "distinct (map h (List.map_filter g xs))"
  using assms
proof (induction xs)
  case (Cons x xs)
  have ih: "distinct (map h (List.map_filter g xs))" by (rule Cons.IH) (use Cons.prems in auto)
  show ?case
  proof (cases "g x")
    case None
    then show ?thesis using ih by (simp add: map_filter_simps)
  next
    case (Some x')
    have "h x' \<noteq> h y'" if mem: "y' \<in> set (List.map_filter g xs)" for y'
    proof
      assume eq: "h x' = h y'"
      obtain y where y: "y \<in> set xs" "g y = Some y'" using mem by (auto simp: set_map_filter)
      then have "x = y" using Cons.prems(2)[of x y x' y'] Some eq by simp
      then show False using y(1) Cons.prems(1) by simp
    qed
    then show ?thesis using ih Some by (auto simp: map_filter_simps)
  qed
qed (simp add: map_filter_simps)

lemma update_move_carry:
  assumes "wf del" "wf ins"
  shows "update_move cm del ins old =
    (case moved_again cm (m_to old) of Some u \<Rightarrow> Some (old\<lparr>m_to := u\<rparr>)
     | None \<Rightarrow> if m_to old \<in> idx del then None else Some (old\<lparr>m_to := carry_to (idx del) (idx ins) (m_to old)\<rparr>))"
  using assms
  by (cases "moved_again cm (m_to old)")
    (simp_all add: update_move_def carry_to_def contains_iff shift_spec unshift_spec)

theorem merged_moves_ok:
  assumes a: "applies (idx d1) (idx i1) xs ys" and b: "applies (idx d2) (idx i2) ys zs"
    and w: "wf d1" "wf i1" "wf d2" "wf i2"
    and m1: "moves_ok mv1 (idx d1) (idx i1) xs ys" and m2: "moves_ok mv2 (idx d2) (idx i2) ys zs"
    and r: "rest_of mv2 (m_to ` set mv1 \<union> idx i1) rest"
  shows "moves_ok (List.map_filter (update_move mv2 d2 i2) mv1 @ map (shift_new_move d1 i1) rest)
    (merged_deletions (idx d1) (idx i1) (idx d2)) (merged_insertions (idx i1) (idx d2) (idx i2)) xs zs"
    (is "moves_ok (?old @ ?new) ?D ?I xs zs")
proof -
  note A = appliesD[OF a] and B = appliesD[OF b]
  have s1: "\<And>m. m \<in> set mv1 \<Longrightarrow> m_from m \<in> idx d1 \<and> m_to m \<in> idx i1 \<and> xs ! m_from m = ys ! m_to m"
    and dd1: "distinct (map m_from mv1)" "distinct (map m_to mv1)" using m1 by (simp_all add: moves_ok_def)
  have s2: "\<And>m. m \<in> set mv2 \<Longrightarrow> m_from m \<in> idx d2 \<and> m_to m \<in> idx i2 \<and> ys ! m_from m = zs ! m_to m"
    and dd2: "distinct (map m_from mv2)" "distinct (map m_to mv2)" using m2 by (simp_all add: moves_ok_def)
  have rr: "set rest = {m \<in> set mv2. m_from m \<notin> m_to ` set mv1 \<union> idx i1}"
    and dr: "distinct (map m_from rest)" "distinct (map m_to rest)" using r by (simp_all add: rest_of_def)
  have i2: "inj_on m_to (set mv2)" using dd2(2) by (simp add: distinct_map)
  have i1: "inj_on m_to (set mv1)" "inj_on m_from (set mv1)" "distinct mv1"
    using dd1 by (simp_all add: distinct_map)
  note uc = update_move_carry[OF w(3,4), of mv2]
  have old: "(\<exists>m \<in> set mv2. m_from m = m_to n \<and> m_to n' = m_to m) \<or>
      m_to n \<notin> idx d2 \<and> m_to n' = carry_to (idx d2) (idx i2) (m_to n)"
    and oldf: "m_from n' = m_from n" if "update_move mv2 d2 i2 n = Some n'" for n n'
    using that unfolding uc by (auto split: option.splits if_splits simp: moved_again_iff[OF dd2(1)])
  have elem: "m_from n' \<in> ?D \<and> m_to n' \<in> ?I \<and> xs ! m_from n' = zs ! m_to n'"
    if n: "n \<in> set mv1" "update_move mv2 d2 i2 n = Some n'" for n n'
  proof -
    have "m_from n' \<in> ?D" using oldf[OF n(2)] s1[OF n(1)] by (simp add: in_merged_deletions)
    moreover from old[OF n(2)] have "m_to n' \<in> ?I \<and> zs ! m_to n' = ys ! m_to n"
    proof
      assume "\<exists>m \<in> set mv2. m_from m = m_to n \<and> m_to n' = m_to m"
      then show ?thesis using s2 by (force simp: merged_insertions_def)
    next
      assume "m_to n \<notin> idx d2 \<and> m_to n' = carry_to (idx d2) (idx i2) (m_to n)"
      moreover have "m_to n < length ys" using s1[OF n(1)] A(2) by auto
      ultimately show ?thesis
        using carry_to_elem(1)[OF b] carry_in_merged s1[OF n(1)] by simp
    qed
    ultimately show ?thesis using oldf[OF n(2)] s1[OF n(1)] by simp
  qed
  have to_old: "n = k" if "n \<in> set mv1" "k \<in> set mv1" "update_move mv2 d2 i2 n = Some n'"
    "update_move mv2 d2 i2 k = Some k'" "m_to n' = m_to k'" for n k n' k'
  proof -
    have nl: "m_to n < length ys" "m_to k < length ys" using s1 that(1,2) A(2) by auto
    have fresh: "carry_to (idx d2) (idx i2) t \<notin> idx i2" if "t < length ys" "t \<notin> idx d2" for t
      using carry_to_elem(3)[OF b that] .
    have "m_to n = m_to k"
      using old[OF that(3)] old[OF that(4)] that(5) s2 nl fresh carry_to_inj[OF B(5,6)] i2
      by (metis inj_onD)
    then show ?thesis using i1(1) that(1,2) by (simp add: inj_onD)
  qed
  have d1: "distinct (map m_from ?old)"
    by (rule distinct_map_map_filter[OF i1(3)]) (metis oldf i1(2) inj_onD)
  have d2: "distinct (map m_to ?old)"
    by (rule distinct_map_map_filter[OF i1(3)]) (rule to_old)
  have d3: "distinct (map m_to ?new)" using dr(2) by (simp add: comp_def shift_new_move_def)
  have sf: "m_from (shift_new_move d1 i1 m) = nth_outside (idx d1) (rank_outside (idx i1) (m_from m))" for m
    using w by (simp add: shift_new_move_def shift_spec unshift_spec)
  have d4: "distinct (map m_from ?new)"
  proof -
    have "inj_on (\<lambda>x. nth_outside (idx d1) (rank_outside (idx i1) x)) (m_from ` set rest)"
    proof (rule inj_onI)
      fix x y assume "x \<in> m_from ` set rest" "y \<in> m_from ` set rest"
        "nth_outside (idx d1) (rank_outside (idx i1) x) = nth_outside (idx d1) (rank_outside (idx i1) y)"
      then have "x \<notin> idx i1" "y \<notin> idx i1" "rank_outside (idx i1) x = rank_outside (idx i1) y"
        using rr by auto
      then show "x = y" by (metis A(6) nth_rank_outside)
    qed
    then have "distinct (map (\<lambda>x. nth_outside (idx d1) (rank_outside (idx i1) x)) (map m_from rest))"
      by (subst distinct_map) (use dr(1) in simp)
    then show ?thesis by (simp add: comp_def sf)
  qed
  have d5: "m_from ` set ?old \<inter> m_from ` set ?new = {}"
  proof -
    have "x \<in> idx d1" if "x \<in> m_from ` set ?old" for x
      using that oldf s1 by (fastforce simp: set_map_filter)
    moreover have "x \<notin> idx d1" if "x \<in> m_from ` set ?new" for x using that sf by auto
    ultimately show ?thesis by blast
  qed
  have d6: "m_to ` set ?old \<inter> m_to ` set ?new = {}"
  proof (rule ccontr)
    assume "m_to ` set ?old \<inter> m_to ` set ?new \<noteq> {}"
    then obtain n n' m where n: "n \<in> set mv1" "update_move mv2 d2 i2 n = Some n'" "m \<in> set rest" "m_to n' = m_to m"
      by (force simp: set_map_filter shift_new_move_def)
    have m: "m \<in> set mv2" "m_from m \<noteq> m_to n" using n(1,3) rr by (auto simp: image_iff)
    have "m_to n < length ys" using s1[OF n(1)] A(2) by auto
    then show False
      using old[OF n(2)] n(4) m s2 carry_to_elem(3)[OF b] i2 by (metis inj_onD)
  qed
  have e1: "m_from m \<in> ?D \<and> m_to m \<in> ?I \<and> xs ! m_from m = zs ! m_to m" if new: "m \<in> set ?new" for m
  proof -
    obtain k where k: "m = shift_new_move d1 i1 k" "k \<in> set rest" using new by auto
    have k2: "k \<in> set mv2" "m_from k \<notin> idx i1" using k(2) rr by auto
    have kl: "m_from k < length ys" using s2[OF k2(1)] B(1) by auto
    have "m_from m \<in> ?D" using s2[OF k2(1)] k2(2) sf k(1) by (auto simp: merged_deletions_def)
    moreover have "m_to m \<in> ?I" using s2[OF k2(1)] k(1) by (simp add: merged_insertions_def shift_new_move_def)
    moreover have "xs ! m_from m = zs ! m_to m"
      using applies_survivor(1)[OF a kl k2(2)] s2[OF k2(1)] sf k(1) by (simp add: shift_new_move_def)
    ultimately show ?thesis by blast
  qed
  have e2: "m_from m \<in> ?D \<and> m_to m \<in> ?I \<and> xs ! m_from m = zs ! m_to m" if "m \<in> set ?old" for m
    using that elem by (auto simp: set_map_filter)
  have all: "\<forall>m \<in> set (?old @ ?new). m_from m \<in> ?D \<and> m_to m \<in> ?I \<and> xs ! m_from m = zs ! m_to m"
  proof
    fix m assume "m \<in> set (?old @ ?new)"
    then have "m \<in> set ?old \<or> m \<in> set ?new" unfolding set_append Un_iff .
    then show "m_from m \<in> ?D \<and> m_to m \<in> ?I \<and> xs ! m_from m = zs ! m_to m"
    proof
      assume "m \<in> set ?old" then show ?thesis by (rule e2)
    next
      assume "m \<in> set ?new" then show ?thesis by (rule e1)
    qed
  qed
  have d7: "set (map m_from ?old) \<inter> set (map m_from ?new) = {}" using d5 by (simp only: set_map)
  have d8: "set (map m_to ?old) \<inter> set (map m_to ?new) = {}" using d6 by (simp only: set_map)
  have df: "distinct (map m_from (?old @ ?new))"
    unfolding map_append distinct_append by (intro conjI d1 d4 d7)
  have dt: "distinct (map m_to (?old @ ?new))"
    unfolding map_append distinct_append by (intro conjI d2 d3 d8)
  show ?thesis unfolding moves_ok_def by (intro conjI all df dt)
qed


section \<open>Dropping the moves that came to nothing\<close>

lemma applies_drop_pair:
  assumes a: "applies D I xs ys" and f: "f \<in> D" "t \<in> I" and r: "rank_outside D f = rank_outside I t"
    and e: "xs ! f = ys ! t"
  shows "applies (D - {f}) (I - {t}) xs ys"
proof -
  note A = appliesD[OF a]
  define k where "k = rank_outside D f"
  have split: "nth_outside S = (\<lambda>j. nth_outside (S - {x}) (nth_outside {rank_outside S x} j)) \<and>
      nth_outside (S - {x}) (rank_outside S x) = x" if x: "x \<in> S" and fin: "finite S" for S :: "nat set" and x
  proof -
    have "(S - {x}) \<inter> {..<x} = S \<inter> {..<x}" by auto
    then have rk: "rank_outside (S - {x}) x = rank_outside S x" by (simp add: rank_outside_def)
    have nx: "nth_outside (S - {x}) (rank_outside S x) = x"
      using nth_rank_outside[of "S - {x}" x] fin rk by simp
    have "S - {x} \<union> nth_outside (S - {x}) ` {rank_outside S x} = S" using nx x by auto
    then show ?thesis using nx fin nth_outside_comp[of "S - {x}" "{rank_outside S x}"] by (simp add: fun_eq_iff)
  qed
  note sd = split[OF f(1) A(5), folded k_def] and si = split[OF f(2) A(6), folded r, folded k_def]
  have cd: "card (D - {f}) = card D - 1" "card (I - {t}) = card I - 1" "0 < card D" "0 < card I"
    using f A(5,6) by (auto simp: card_gt_0_iff)
  have kl: "k < length xs - card (D - {f})"
  proof -
    have "f < length xs" using f(1) A(1) by auto
    then have "rank_outside (D - {f}) f < length xs - card (D - {f})"
      using rank_outside_bound[of "D - {f}" "length xs" f] A(1) by auto
    moreover have "(D - {f}) \<inter> {..<f} = D \<inter> {..<f}" by auto
    ultimately show ?thesis by (simp add: rank_outside_def k_def)
  qed
  have "xs ! nth_outside (D - {f}) j = ys ! nth_outside (I - {t}) j" if j: "j < length xs - card (D - {f})" for j
  proof (cases "j = k")
    case True
    then show ?thesis using sd si e by simp
  next
    case False
    define i where "i = rank_outside {k} j"
    have ji: "nth_outside {k} i = j" using False by (simp add: i_def)
    have "i < length xs - card (D - {f}) - 1"
      using False j kl by (auto simp: i_def rank_outside_singleton)
    then have "i < length xs - card D" using cd A(7) by simp
    then have "xs ! nth_outside D i = ys ! nth_outside I i" by (rule A(4))
    then show ?thesis using sd si ji by metis
  qed
  moreover have "length xs - card (D - {f}) = length ys - card (I - {t})" using cd A(3,7,8) by linarith
  ultimately show ?thesis using A(1,2) by (auto simp: applies_iff)
qed

lemma count_rank:
  assumes "wf m"
  shows "size_sub i (Index_Set.count m 0 i) = rank_outside (idx m) i"
  using count_zero_spec[OF assms, of i] card_below_le[of "idx m" i] by (simp add: rank_outside_def)

lemma moves_ok_remove:
  assumes "moves_ok (kept @ m # ms) D I xs ys"
  shows "moves_ok (kept @ ms) (D - {m_from m}) (I - {m_to m}) xs ys"
proof -
  have "m_from n \<noteq> m_from m \<and> m_to n \<noteq> m_to m" if "n \<in> set (kept @ ms)" for n
    using assms that by (force simp: moves_ok_def image_iff)
  then show ?thesis using assms by (auto simp: moves_ok_def)
qed

lemma stale_move_step:
  assumes "wf del" "wf ins"
  shows "stale_move m (del, ins) =
    (if rank_outside (idx del) (m_from m) \<noteq> rank_outside (idx ins) (m_to m) then (False, m, del, ins)
     else (True, m, remove del (m_from m) 1, remove ins (m_to m) 1))"
  using assms by (simp add: stale_move_def count_rank)

lemma stale_moves_spec:
  assumes "wf del" "wf ins" "applies (idx del) (idx ins) xs ys" "moves_ok (kept @ mv) (idx del) (idx ins) xs ys"
    and "remove_if_state stale_move mv (del, ins) = (mv', del', ins')"
  shows "wf del' \<and> wf ins' \<and> applies (idx del') (idx ins') xs ys \<and>
    moves_ok (kept @ mv') (idx del') (idx ins') xs ys"
  using assms
proof (induction mv arbitrary: kept del ins mv')
  case (Cons m mv)
  show ?case
  proof (cases "rank_outside (idx del) (m_from m) = rank_outside (idx ins) (m_to m)")
    case True
    have m: "m_from m \<in> idx del" "m_to m \<in> idx ins" "xs ! m_from m = ys ! m_to m"
      using Cons.prems(4) by (simp_all add: moves_ok_def)
    let ?d = "remove del (m_from m) 1" and ?i = "remove ins (m_to m) 1"
    have w: "wf ?d" "wf ?i" "idx ?d = idx del - {m_from m}" "idx ?i = idx ins - {m_to m}"
      using Cons.prems(1,2) by (simp_all add: ix_ok ix_members)
    have "remove_if_state stale_move mv (?d, ?i) = (mv', del', ins')"
      using Cons.prems(5) True Cons.prems(1,2) by (simp add: stale_move_step split: prod.splits)
    moreover have "applies (idx ?d) (idx ?i) xs ys"
      unfolding w(3,4) by (rule applies_drop_pair[OF Cons.prems(3) m(1,2) True m(3)])
    moreover have "moves_ok (kept @ mv) (idx ?d) (idx ?i) xs ys"
      unfolding w(3,4) by (rule moves_ok_remove[OF Cons.prems(4)])
    ultimately show ?thesis using Cons.IH[OF w(1,2)] by blast
  next
    case False
    obtain mv1 where r: "remove_if_state stale_move mv (del, ins) = (mv1, del', ins')" "mv' = m # mv1"
      using Cons.prems(5) False Cons.prems(1,2) by (auto simp: stale_move_step split: prod.splits)
    have "moves_ok ((kept @ [m]) @ mv) (idx del) (idx ins) xs ys" using Cons.prems(4) by simp
    from Cons.IH[OF Cons.prems(1-3) this r(1)] r(2) show ?thesis by simp
  qed
qed auto

lemma tracks_clean_up:
  assumes "tracks b xs ys"
  shows "tracks (clean_up_stale_moves b) xs ys"
proof -
  note T = tracksD[OF assms]
  obtain mv d i where r: "remove_if_state stale_move (moves b) (deletions b, insertions b) = (mv, d, i)"
    by (cases "remove_if_state stale_move (moves b) (deletions b, insertions b)") auto
  have "clean_up_stale_moves b = b\<lparr>moves := mv, deletions := d, insertions := i\<rparr>"
    by (simp add: clean_up_stale_moves_def r)
  then show ?thesis
    using stale_moves_spec[OF T(2,3,5) _ r, of "[]"] T(1,6) by (simp add: tracks_def cb_ok_def)
qed

section \<open>Merging\<close>

text \<open>The only way for a merge to lose track of its counts is the overflow of the builder.\<close>

definition merge_fits :: "change_builder \<Rightarrow> change_builder \<Rightarrow> bool" where
  "merge_fits a c \<longleftrightarrow> shifted_fits (deletions a) (insertions a) (deletions c)"

lemma applies_empty: "applies {} {} xs ys \<longleftrightarrow> xs = ys"
  by (auto simp: applies_iff list_eq_iff_nth_eq)

lemma merge_cols_tracks:
  assumes "tracks (fst s) xs ys" "cb_ok (snd s)"
    and "\<And>x y. wf x \<Longrightarrow> wf y \<Longrightarrow> wf (fst (f x y)) \<and> wf (snd (f x y))"
  shows "tracks (fst (merge_cols f s)) xs ys"
  using assms(1) merge_cols_ok(1)[OF tracksD(1)[OF assms(1)] assms(2,3)] by (simp add: tracks_def)

lemma merge_core:
  assumes a: "tracks a xs ys" and c: "tracks c ys zs" and fit: "merge_fits a c"
    and m: "merge_new_moves (merge_old_moves (a, c)) = (a', c')"
  defines "a2 \<equiv> a'\<lparr>deletions := add_shifted_by (deletions a') (insertions a') (deletions c'),
                  insertions := insert_set_at (erase_set_at (insertions a') (deletions c')) (insertions c')\<rparr>"
  shows "tracks a2 xs zs" "cb_ok c'" "deletions c' = deletions c" "insertions c' = insertions c"
proof -
  note A = tracksD[OF a] and C = tracksD[OF c]
  obtain a1 c1 where o: "merge_old_moves (a, c) = (a1, c1)" by (cases "merge_old_moves (a, c)")
  have d: "distinct (map m_from (moves c))" "distinct (map m_to (moves c))" "distinct (map m_to (moves a))"
    using A(6) C(6) by (simp_all add: moves_ok_def)
  note old = merge_old_moves_spec[OF d A(1) C(1) o]
  have d1: "distinct (map m_from (moves c1))" "distinct (map m_to (moves c1))"
    using old by (simp_all add: rest_of_def)
  have n: "merge_new_moves (a1, c1) = (a', c')" using m o by simp
  obtain rest where rest: "moves a' = moves a1 @ map (shift_new_move (deletions a1) (insertions a1)) rest"
    "rest_of (moves c1) (idx (insertions a1)) rest"
    and new: "deletions a' = deletions a1" "insertions a' = insertions a1" "deletions c' = deletions c1"
      "insertions c' = insertions c1" "cb_ok a'" "cb_ok c'"
    using merge_new_moves_spec[OF _ _ n d1] old by blast
  have s: "deletions a' = deletions a" "insertions a' = insertions a" "deletions c' = deletions c"
    "insertions c' = insertions c" using old new by simp_all
  then show "cb_ok c'" "deletions c' = deletions c" "insertions c' = insertions c" using new by simp_all
  have wc: "wf (deletions c)" "wf (insertions c)" using C(2,3) .
  have D: "idx (deletions a2) = merged_deletions (idx (deletions a)) (idx (insertions a)) (idx (deletions c))"
    using A(2,3) wc
    by (simp add: a2_def s ixb.members_put_relative shifted_values_def merged_deletions_def image_image)
  have I: "idx (insertions a2) = merged_insertions (idx (insertions a)) (idx (deletions c)) (idx (insertions c))"
    using A(2,3) wc by (simp add: a2_def s ix_ok ix_members merged_insertions_def)
  have "rest_of (moves c) (m_to ` set (moves a) \<union> idx (insertions a)) rest"
    using rest_of_trans[OF _ rest(2)] old by simp
  from merged_moves_ok[OF A(5) C(5) A(2,3) wc A(6) C(6) this]
  have "moves_ok (moves a2) (idx (deletions a2)) (idx (insertions a2)) xs zs"
    using old rest(1) unfolding D I by (simp add: a2_def)
  moreover have "cb_ok a2"
    using new(5) A(2,3) wc fit
    by (simp add: a2_def s cb_ok_def ix_ok merge_fits_def ixb.ok_put_relative)
  ultimately show "tracks a2 xs zs"
    using applies_merge[OF A(5) C(5)] by (simp add: tracks_def D I)
qed

theorem tracks_merge:
  assumes a: "tracks a xs ys" and c: "tracks c ys zs" and fit: "merge_fits a c"
  shows "tracks (cb_merge a c) xs zs"
proof (cases "cs_empty c \<or> cs_empty a")
  case True
  then consider "cs_empty c" | "\<not> cs_empty c" "cs_empty a" by blast
  then show ?thesis
  proof cases
    case 1
    then have "ys = zs" using tracksD(5)[OF c] by (simp add: cs_empty_def applies_empty)
    then show ?thesis using a 1 by (simp add: cb_merge_def)
  next
    case 2
    then have "xs = ys" using tracksD(5)[OF a] by (simp add: cs_empty_def applies_empty)
    then show ?thesis using c 2 by (simp add: cb_merge_def)
  qed
next
  case False
  obtain a' c' where m: "merge_new_moves (merge_old_moves (a, c)) = (a', c')"
    by (cases "merge_new_moves (merge_old_moves (a, c))")
  define a2 where "a2 = a'\<lparr>deletions := add_shifted_by (deletions a') (insertions a') (deletions c'),
    insertions := insert_set_at (erase_set_at (insertions a') (deletions c')) (insertions c')\<rparr>"
  note mc = merge_core[OF a c fit m, folded a2_def]
  let ?f = "\<lambda>col other. (add_set (shift_for_insert_set_at (erase_set_at col (deletions c')) (insertions c')) other, other)"
  have "cb_merge a c = fst (merge_cols ?f (clean_up_stale_moves a2, c'))"
    using False by (simp add: cb_merge_def m a2_def Let_def)
  moreover have "wf (deletions c')" "wf (insertions c')" using mc(2) by (simp_all add: cb_ok_def)
  then have "tracks (fst (merge_cols ?f (clean_up_stale_moves a2, c'))) xs zs"
    using tracks_clean_up[OF mc(1)] mc(2) by (intro merge_cols_tracks) (simp_all add: ix_ok)
  ultimately show ?thesis by simp
qed

end
