(* ===== verification/Change_Edits.thy ===== *)
theory Change_Edits
  imports Change_Merge
begin

text \<open>
  Whole histories of a list: a step relation over the edits a change builder can record, with
  merges of consecutive records as steps, and what holds of every reachable record.
\<close>

section \<open>Edits and their records\<close>

datatype 'a edit = Insert_Run nat "'a list" | Erase_At nat | Move_Elem nat nat | Modify_At nat size | Clear_All

fun edit_ok :: "'a edit \<Rightarrow> 'a list \<Rightarrow> bool" where
  "edit_ok (Insert_Run k zs) ys \<longleftrightarrow> k \<le> length ys \<and> zs \<noteq> []"
| "edit_ok (Erase_At k) ys \<longleftrightarrow> k < length ys"
| "edit_ok (Move_Elem f t) ys \<longleftrightarrow> f < length ys \<and> t < length ys \<and> f \<noteq> t"
| "edit_ok (Modify_At k col) ys \<longleftrightarrow> k < length ys"
| "edit_ok Clear_All ys \<longleftrightarrow> True"

fun apply_edit :: "'a edit \<Rightarrow> 'a list \<Rightarrow> 'a list" where
  "apply_edit (Insert_Run k zs) ys = take k ys @ zs @ drop k ys"
| "apply_edit (Erase_At k) ys = take k ys @ drop (Suc k) ys"
| "apply_edit (Move_Elem f t) ys = move_elem f t ys"
| "apply_edit (Modify_At k col) ys = ys"
| "apply_edit Clear_All ys = []"

fun record_edit :: "change_builder \<Rightarrow> 'a list \<Rightarrow> 'a edit \<Rightarrow> change_builder" where
  "record_edit b ys (Insert_Run k zs) = cb_insert b k (length zs) True"
| "record_edit b ys (Erase_At k) = cb_erase b k"
| "record_edit b ys (Move_Elem f t) = cb_move b f t"
| "record_edit b ys (Modify_At k col) = cb_modify b k col"
| "record_edit b ys Clear_All = cb_clear b (length ys)"

text \<open>
  \<open>history b xs ys\<close>: the record \<open>b\<close> was made while the list went from \<open>xs\<close> to \<open>ys\<close>.  Positions
  fit into \<open>size_t\<close>.
\<close>

inductive history :: "change_builder \<Rightarrow> 'a list \<Rightarrow> 'a list \<Rightarrow> bool" where
  start: "history empty_builder xs xs"
| edit: "history b xs ys \<Longrightarrow> edit_ok e ys \<Longrightarrow> length ys < npos \<Longrightarrow>
    history (record_edit b ys e) xs (apply_edit e ys)"
| merge: "history a xs ys \<Longrightarrow> history c ys zs \<Longrightarrow> merge_fits a c \<Longrightarrow> history (cb_merge a c) xs zs"

inductive_cases history_editE: "history (record_edit b ys e) xs zs"

lemma tracks_modify:
  assumes "tracks b xs ys"
  shows "tracks (cb_modify b k col) xs ys"
proof -
  note T = tracksD[OF assms]
  define cols where "cols = (if length (columns b) \<le> col then resize (col + 1) (columns b) else columns b)"
  have "list_all wf cols" using T(1) by (simp add: cols_def cb_ok_def resize_wf)
  moreover have "col < length cols" by (simp add: cols_def)
  ultimately have "list_all wf (cols[col := add (cols ! col) k])"
    by (auto simp: list_all_iff ix_ok dest!: set_update_subset_insert[THEN subsetD])
  moreover have "cb_modify b k col = (if \<not> track_columns b \<or> col = npos
      then b\<lparr>modifications := add (modifications b) k\<rparr>
      else b\<lparr>modifications := add (modifications b) k, columns := cols[col := add (cols ! col) k]\<rparr>)"
    by (simp add: cb_modify_def Let_def cols_def)
  ultimately have "cb_ok (cb_modify b k col)"
    using T(1) by (simp add: cb_ok_def ix_ok)
  moreover have "deletions (cb_modify b k col) = deletions b" "insertions (cb_modify b k col) = insertions b"
    "moves (cb_modify b k col) = moves b" by (simp_all add: cb_modify_def Let_def)
  ultimately show ?thesis using assms by (simp add: tracks_def)
qed

lemma tracks_edit:
  assumes "tracks b xs ys" "edit_ok e ys" "length ys < npos"
  shows "tracks (record_edit b ys e) xs (apply_edit e ys)"
proof (cases e)
  case (Insert_Run k zs)
  then show ?thesis using assms tracks_insert[OF assms(1), of k zs] by simp
next
  case (Erase_At k)
  then show ?thesis using assms tracks_erase[OF assms(1), of k] by simp
next
  case (Move_Elem f t)
  then show ?thesis using assms tracks_move[OF assms(1), of f t] by simp
next
  case (Modify_At k col)
  then show ?thesis using tracks_modify[OF assms(1)] by simp
next
  case Clear_All
  then show ?thesis using tracks_clear[OF assms(1,3)] by simp
qed

lemma history_tracks: "history b xs ys \<Longrightarrow> tracks b xs ys"
  by (induction rule: history.induct) (simp_all add: tracks_empty tracks_edit tracks_merge)

section \<open>Modified positions\<close>

text \<open>A flag per element, carried along with the edits, says which elements were modified.\<close>

definition flagged :: "bool list \<Rightarrow> nat set" where
  "flagged fs = {p. p < length fs \<and> fs ! p}"

lemma flagged_applies:
  assumes a: "applies D I fs gs"
  shows "flagged gs = carry_to D I ` (flagged fs - D) \<union> (flagged gs \<inter> I)"
proof (intro equalityI subsetI)
  fix p assume p: "p \<in> flagged gs"
  show "p \<in> carry_to D I ` (flagged fs - D) \<union> (flagged gs \<inter> I)"
  proof (cases "p \<in> I")
    case False
    have pl: "p < length gs" using p by (simp add: flagged_def)
    note s = applies_survivor[OF a pl False]
    let ?q = "nth_outside D (rank_outside I p)"
    have "carry_to D I ?q = p" using False appliesD(5,6)[OF a] by (simp add: carry_to_def)
    moreover have "?q \<in> flagged fs - D" using s p by (simp add: flagged_def)
    ultimately show ?thesis by (metis UnI1 imageI)
  qed (use p in simp)
next
  fix p assume "p \<in> carry_to D I ` (flagged fs - D) \<union> (flagged gs \<inter> I)"
  then show "p \<in> flagged gs"
  proof
    assume "p \<in> carry_to D I ` (flagged fs - D)"
    then obtain q where q: "p = carry_to D I q" "q < length fs" "fs ! q" "q \<notin> D" by (auto simp: flagged_def)
    then show ?thesis using carry_to_elem(1,2)[OF a q(2,4)] by (simp add: flagged_def)
  qed simp
qed

fun edit_flags :: "'a edit \<Rightarrow> bool list \<Rightarrow> bool list" where
  "edit_flags (Insert_Run k zs) fs = take k fs @ replicate (length zs) False @ drop k fs"
| "edit_flags (Erase_At k) fs = take k fs @ drop (Suc k) fs"
| "edit_flags (Move_Elem f t) fs = move_elem f t fs"
| "edit_flags (Modify_At k col) fs = fs[k := True]"
| "edit_flags Clear_All fs = []"

lemma modifications_of:
  "modifications (cb_insert b k n track) = shift_for_insert_at (modifications b) k n"
  "modifications (cb_modify b k col) = add (modifications b) k"
  "modifications (cb_clear b n) = []"
  by (simp_all add: cb_insert_def cb_modify_def cb_clear_def Let_def)

lemma flags_edit:
  assumes w: "wf (modifications b)" and d: "distinct (map m_to (moves b))"
    and m: "idx (modifications b) = flagged fs" and e: "edit_ok e fs'" and l: "length fs' = length fs"
  shows "idx (modifications (record_edit b ys e)) = flagged (edit_flags e fs)"
proof (cases e)
  case (Insert_Run k zs)
  then have k: "k \<le> length fs" "0 < length zs" using e l by auto
  let ?gs = "take k fs @ replicate (length zs) False @ drop k fs"
  have a: "applies {} {k..<k + length zs} fs ?gs"
    using applies_insert_step[OF k(1), of "replicate (length zs) False"] by simp
  have "flagged ?gs \<inter> {k..<k + length zs} = {}"
    using k(1) by (auto simp: flagged_def nth_append)
  then have "flagged ?gs = nth_outside {k..<k + length zs} ` flagged fs"
    using flagged_applies[OF a] by (simp add: carry_to_def)
  then show ?thesis
    using Insert_Run w m k(2) by (simp add: modifications_of ix_members)
next
  case (Erase_At k)
  then have k: "k < length fs" using e l by simp
  then show ?thesis
    using Erase_At w m flagged_applies[OF applies_erase_step[OF k]]
    by (simp add: cb_erase_simps ix_members carry_to_def)
next
  case (Move_Elem f t)
  then have ft: "f < length fs" "t < length fs" using e l by auto
  note st = move_elem_step[OF ft]
  have ft': "flagged (move_elem f t fs) \<inter> {t} = (if f \<in> flagged fs then {t} else {})"
    using st(2,3) ft by (auto simp: flagged_def)
  let ?M = "modifications b"
  have "idx (modifications (cb_move b f t)) =
    nth_outside {t} ` rank_outside {f} ` (idx ?M - {f}) \<union> (if f \<in> idx ?M then {t} else {})"
  proof -
    have mr: "modifications (move_result b f t) = ?M"
      by (simp add: move_result_def Let_def split_def)
    have mc: "modifications (cb_move b f t) = (if contains ?M f then insert_at (erase_at ?M f) t 1
      else shift_for_insert_at (erase_at ?M f) t 1)"
      unfolding cb_move_result[OF d] for_each_col_simps mr by (rule refl)
    show ?thesis unfolding mc using w by (simp add: ix_ok ix_members)
  qed
  also have "\<dots> = flagged (move_elem f t fs)"
    using flagged_applies[OF st(1)] ft' m by (simp add: carry_to_def image_image)
  finally show ?thesis using Move_Elem by simp
next
  case (Modify_At k col)
  then have "flagged (fs[k := True]) = insert k (flagged fs)"
    using e l by (auto simp: flagged_def nth_list_update)
  then show ?thesis using Modify_At w m by (simp add: modifications_of ix_members)
next
  case Clear_All
  then show ?thesis by (simp add: modifications_of flagged_def)
qed

text \<open>A run of edits on a list without merges, with the flags of the modified elements.\<close>

fun run_edits :: "'a edit list \<Rightarrow> change_builder \<times> 'a list \<times> bool list \<Rightarrow>
    (change_builder \<times> 'a list \<times> bool list) option" where
  "run_edits [] s = Some s"
| "run_edits (e # es) (b, ys, fs) =
     (if edit_ok e ys \<and> length ys < npos
      then run_edits es (record_edit b ys e, apply_edit e ys, edit_flags e fs) else None)"

lemma length_edit:
  "edit_ok e ys \<Longrightarrow> length fs = length ys \<Longrightarrow> length (edit_flags e fs) = length (apply_edit e ys)"
  by (cases e) (auto simp: move_elem_step(3))

lemma run_edits_inv:
  assumes "run_edits es (b, ys, fs) = Some (b', ys', fs')" "tracks b xs ys" "length fs = length ys"
    and "idx (modifications b) = flagged fs"
  shows "tracks b' xs ys' \<and> length fs' = length ys' \<and> idx (modifications b') = flagged fs'"
  using assms
proof (induction es arbitrary: b ys fs)
  case (Cons e es)
  then have ok: "edit_ok e ys" "length ys < npos"
    and r: "run_edits es (record_edit b ys e, apply_edit e ys, edit_flags e fs) = Some (b', ys', fs')"
    by (simp_all split: if_splits)
  have "distinct (map m_to (moves b))" using tracksD(6)[OF Cons.prems(2)] by (simp add: moves_ok_def)
  moreover have "edit_ok e ys" by fact
  ultimately have "idx (modifications (record_edit b ys e)) = flagged (edit_flags e fs)"
    using Cons.prems(3,4) tracksD(4)[OF Cons.prems(2)] by (intro flags_edit[of b fs e ys]) simp_all
  with Cons.IH[OF r tracks_edit[OF Cons.prems(2) ok] length_edit[OF ok(1) Cons.prems(3)]]
  show ?case by blast
qed simp

section \<open>The delivered change set\<close>

text \<open>
  \<open>finalize\<close> reports the surviving modified elements by their old and by their new positions.
\<close>

lemma finalize_sets:
  assumes "tracks b xs ys"
  shows "idx (modifications_new (cb_finalize b)) = idx (modifications b) - idx (insertions b)"
    "idx (modifications (cb_finalize b)) =
      carry_to (idx (insertions b)) (idx (deletions b)) ` (idx (modifications b) - idx (insertions b))"
    "wf (modifications (cb_finalize b))" "wf (modifications_new (cb_finalize b))"
  using tracksD(2-4)[OF assms]
  by (simp_all add: cb_finalize_def ix_ok ix_members carry_to_def image_image)

lemma finalize_old_new:
  assumes t: "tracks b xs ys" and m: "idx (modifications b) \<subseteq> {..<length ys}"
  shows "card (idx (modifications (cb_finalize b))) = card (idx (modifications_new (cb_finalize b)))"
    "\<forall>p \<in> idx (modifications_new (cb_finalize b)).
      let q = carry_to (idx (insertions b)) (idx (deletions b)) p in
      q \<in> idx (modifications (cb_finalize b)) \<and> q < length xs \<and> q \<notin> idx (deletions b) \<and> xs ! q = ys ! p"
proof -
  note T = tracksD[OF t]
  note F = finalize_sets[OF t]
  note A = appliesD[OF T(5)]
  have "inj_on (carry_to (idx (insertions b)) (idx (deletions b))) (idx (modifications b) - idx (insertions b))"
    using carry_to_inj[OF A(6,5)] by (intro inj_onI) auto
  then show "card (idx (modifications (cb_finalize b))) = card (idx (modifications_new (cb_finalize b)))"
    unfolding F(1,2) by (rule card_image)
  show "\<forall>p \<in> idx (modifications_new (cb_finalize b)).
      let q = carry_to (idx (insertions b)) (idx (deletions b)) p in
      q \<in> idx (modifications (cb_finalize b)) \<and> q < length xs \<and> q \<notin> idx (deletions b) \<and> xs ! q = ys ! p"
    unfolding F(1,2) Let_def
  proof
    fix p assume p: "p \<in> idx (modifications b) - idx (insertions b)"
    then have "p < length ys" "p \<notin> idx (insertions b)" using m by auto
    note s = applies_survivor[OF T(5) this]
    show "carry_to (idx (insertions b)) (idx (deletions b)) p
        \<in> carry_to (idx (insertions b)) (idx (deletions b)) ` (idx (modifications b) - idx (insertions b)) \<and>
      carry_to (idx (insertions b)) (idx (deletions b)) p < length xs \<and>
      carry_to (idx (insertions b)) (idx (deletions b)) p \<notin> idx (deletions b) \<and>
      xs ! carry_to (idx (insertions b)) (idx (deletions b)) p = ys ! p"
      using s p by (auto simp: carry_to_def)
  qed
qed

end
