(* ===== verification/Change_Properties.thy ===== *)
theory Change_Properties
  imports Change_Edits
begin

text \<open>What the change builder guarantees for lists, over whole histories of edits and merges.\<close>

text \<open>The history the examples use: \<open>[10, 20, 30]\<close> loses 20, gains 40 in front, and 30 moves there.\<close>

lemma sample_history:
  "history (cb_move (cb_insert (cb_erase empty_builder 1) 0 1 True) 2 0)
     [10, 20, 30 :: int] [30, 40, 10]"
proof -
  have n: "(3::nat) < npos" by (simp add: npos_def)
  have "history (record_edit empty_builder [10, 20, 30 :: int] (Erase_At 1)) [10, 20, 30 :: int]
      (apply_edit (Erase_At 1) [10, 20, 30 :: int])"
    by (rule history.edit[OF history.start]) (use n in simp_all)
  then have "history (cb_erase empty_builder 1) [10, 20, 30 :: int] [10, 30 :: int]"
    by (simp add: numeral_2_eq_2)
  then have "history (record_edit (cb_erase empty_builder 1) [10, 30 :: int] (Insert_Run 0 [40]))
      [10, 20, 30 :: int] (apply_edit (Insert_Run 0 [40]) [10, 30 :: int])"
    by (rule history.edit) (use n in simp_all)
  then have "history (cb_insert (cb_erase empty_builder 1) 0 1 True) [10, 20, 30 :: int] [40, 10, 30 :: int]"
    by simp
  then have "history (record_edit (cb_insert (cb_erase empty_builder 1) 0 1 True) [40, 10, 30 :: int]
      (Move_Elem 2 0)) [10, 20, 30 :: int] (apply_edit (Move_Elem 2 0) [40, 10, 30 :: int])"
    by (rule history.edit) (use n in simp_all)
  then show ?thesis by (simp add: move_elem_def numeral_2_eq_2)
qed

text \<open>
  C1. After any sequence of recorded edits within the bounds of the list and of merges that fit the
  pre-allocated chunks (\<open>merge_fits\<close>), deleting the reported deletions from the old list and the reported
  insertions from the new one leaves the same elements in the same order, and both sets lie within their lists.  A merge that does not fit
  leaves wrong cached counts (\<open>add_shifted_by_overflow\<close>), and nothing is said of what follows it.
\<close>

theorem history_changes_apply:
  assumes "history b xs ys"
  shows "nths xs (- idx (deletions b)) = nths ys (- idx (insertions b)) \<and>
    idx (deletions b) \<subseteq> {..<length xs} \<and> idx (insertions b) \<subseteq> {..<length ys}"
  using tracksD(5)[OF history_tracks[OF assms]] by (simp add: applies_def)

theorem history_changes_apply_witness:
  "\<exists>b :: change_builder. nths ([10, 20, 30] :: int list) (- idx (deletions b)) = nths [30, 40, 10] (- idx (insertions b)) \<and>
    idx (insertions b) \<subseteq> {..<length ([30, 40, 10] :: int list)}"
  using history_changes_apply[OF sample_history] by blast

text \<open>
  C12. In the record of any sequence of edits within the bounds of the list and of merges that fit the pre-allocated chunks, every
  reported move is the move of an element: its source is among the deletions, its destination among the
  insertions, the old list has the same element at the source as the new one at the destination, and no
  source or destination is reported twice.
\<close>

theorem history_moves_real:
  assumes "history b xs ys" "m \<in> set (moves b)"
  shows "m_from m \<in> idx (deletions b) \<and> m_to m \<in> idx (insertions b) \<and> xs ! m_from m = ys ! m_to m \<and>
    distinct (map m_from (moves b)) \<and> distinct (map m_to (moves b))"
  using tracksD(6)[OF history_tracks[OF assms(1)]] assms(2) by (simp add: moves_ok_def)

lemma sample_moves: "\<exists>m :: move. m \<in> set (moves (cb_move empty_builder 0 1))"
proof -
  have "erase_or_unshift [] 0 = ([], 0)"
    by (simp add: erase_or_unshift_def it_begin_def unshift_chunks.simps unshift_ranges.simps at_end_def)
  then show ?thesis by (simp add: cb_move_def empty_builder_def npos_def Let_def split_def)
qed

theorem history_moves_real_witness:
  "\<exists>m :: move. m_from m < 2 \<and> [True, False] ! m_from m = [False, True] ! m_to m"
proof -
  have "history (record_edit empty_builder [True, False] (Move_Elem 0 1)) [True, False]
      (apply_edit (Move_Elem 0 1) [True, False])"
    by (rule history.edit[OF history.start]) (simp_all add: npos_def)
  then have h: "history (cb_move empty_builder 0 1) [True, False] [False, True]"
    by (simp add: move_elem_def)
  obtain m where "m \<in> set (moves (cb_move empty_builder 0 1))" using sample_moves by blast
  note r = history_moves_real[OF h this]
  have "idx (deletions (cb_move empty_builder 0 1)) \<subseteq> {..<2}"
    using appliesD(1)[OF tracksD(5)[OF history_tracks[OF h]]] by (simp add: numeral_2_eq_2)
  then show ?thesis using r by (intro exI[of _ m]) blast
qed

text \<open>
  C13. Merging the record of a first change with the record of the next one gives a record of both,
  provided the merged deletions fit the pre-allocated chunks (\<open>merge_fits\<close>): the merged deletions and
  insertions turn the first list into the last, the moves are composed, and the invariant is kept.
\<close>

theorem merge_composes:
  assumes "tracks a xs ys" "tracks c ys zs" "merge_fits a c"
  shows "cb_ok (cb_merge a c) \<and>
    nths xs (- idx (deletions (cb_merge a c))) = nths zs (- idx (insertions (cb_merge a c))) \<and>
    moves_ok (moves (cb_merge a c)) (idx (deletions (cb_merge a c))) (idx (insertions (cb_merge a c))) xs zs"
  using tracks_merge[OF assms] by (simp add: tracks_def applies_def)

theorem merge_composes_witness:
  "cb_ok (cb_merge (cb_insert empty_builder 1 1 True)
     (cb_insert empty_builder 0 1 True))"
proof -
  let ?a = "cb_insert empty_builder 1 1 True"
  let ?c = "cb_insert empty_builder 0 1 True"
  have a: "tracks ?a [5] ([5, 7] :: int list)" using tracks_insert[OF tracks_empty, of 1 "[5]" "[7::int]"] by simp
  have c: "tracks ?c [5, 7] ([9, 5, 7] :: int list)" using tracks_insert[OF tracks_empty, of 0 "[5, 7]" "[9::int]"] by simp
  have "deletions ?c = []" "deletions ?a = []"
    by (simp_all add: cb_insert_def empty_builder_def Let_def)
  then have "merge_fits ?a ?c"
    by (simp add: merge_fits_def shifted_fits_def add_shifted_by_def builder_init_cap[of "[]", simplified])
  from merge_composes[OF a c this] show ?thesis by blast
qed

text \<open>
  C35. Along any run of edits within the bounds of the list the reported modifications are exactly the
  positions of the elements that were modified and are still there: inserting, erasing and moving carry them
  along.
\<close>

theorem modifications_follow_elements:
  assumes "run_edits es (empty_builder, xs, replicate (length xs) False) = Some (b, ys, fs)"
  shows "length fs = length ys \<and> (\<forall>p. p \<in> idx (modifications b) \<longleftrightarrow> p < length ys \<and> fs ! p)"
proof -
  have "idx (modifications empty_builder) = flagged (replicate (length xs) False)"
    by (auto simp: empty_builder_def flagged_def)
  from run_edits_inv[OF assms tracks_empty _ this] show ?thesis by (simp add: flagged_def set_eq_iff)
qed

theorem modifications_follow_elements_witness:
  "\<exists>b :: change_builder. \<forall>p. p \<in> idx (modifications b) \<longleftrightarrow> p < length [8, 6, 7::int] \<and> [False, False, True] ! p"
proof -
  define b where "b = record_edit (record_edit empty_builder ([6, 7] :: int list) (Modify_At 1 0)) [6, 7] (Insert_Run 0 [8])"
  have "run_edits [Modify_At 1 0, Insert_Run 0 [8]] (empty_builder, [6, 7::int], replicate (length [6, 7::int]) False) =
    Some (b, [8, 6, 7], [False, False, True])"
    by (simp add: npos_def b_def)
  note m = modifications_follow_elements[OF this]
  show ?thesis by (rule exI[of _ b]) (rule conjunct2[OF m])
qed

text \<open>
  \<open>finalize\<close> reports each modified element that is not an insertion once by its old and once by
  its new position: both sets have the same size, and corresponding positions hold the same
  element.
\<close>

theorem finalize_old_and_new:
  assumes "tracks b xs ys" "idx (modifications b) \<subseteq> {..<length ys}"
  shows "card (idx (modifications (cb_finalize b))) = card (idx (modifications_new (cb_finalize b))) \<and>
    idx (modifications_new (cb_finalize b)) = idx (modifications b) - idx (insertions b) \<and>
    (\<forall>p \<in> idx (modifications_new (cb_finalize b)). \<exists>q \<in> idx (modifications (cb_finalize b)).
      q < length xs \<and> q \<notin> idx (deletions b) \<and> xs ! q = ys ! p)"
  using finalize_old_new[OF assms] finalize_sets(1)[OF assms(1)] unfolding Let_def by blast

theorem finalize_old_and_new_witness:
  "card (idx (modifications (cb_finalize (cb_modify empty_builder 1 0)))) =
    card (idx (modifications_new (cb_finalize (cb_modify empty_builder 1 0))))"
proof -
  have t: "tracks (cb_modify empty_builder 1 0) [4, 5] ([4, 5] :: int list)" by (rule tracks_modify[OF tracks_empty])
  have "idx (modifications (cb_modify empty_builder 1 0)) \<subseteq> {..<length [4, 5::int]}"
    by (simp add: modifications_of ix.members_put) (simp add: empty_builder_def ix.members_put)
  from finalize_old_and_new[OF t this] show ?thesis by blast
qed

end
