(* ===== verification/Change_Calculate.thy ===== *)
theory Change_Calculate
  imports Change_Builder "HOL-Library.Product_Lexorder"
begin

text \<open>
  \<open>CollectionChangeBuilder::calculate\<close> (\<open>collection_change_builder.cpp\<close>): the change set between
  two lists of table rows, the results of a query before and after a write.  The rows common to
  both lists are matched through their row indices; then either the cheap pass for unsorted queries
  (\<open>calculate_moves_unsorted\<close>) or the search for longest matching blocks
  (\<open>calculate_moves_sorted\<close>, \<open>LongestCommonSubsequenceCalculator\<close>) decides which of the matched
  rows are reported as deleted and inserted again.  The pass for unsorted queries trusts its caller
  to name every row that may have moved.
\<close>

section \<open>Data\<close>

record row_info =
  ri_row :: size
  ri_prev :: size
  ri_tv :: size
  ri_shifted :: size

text \<open>\<open>LongestCommonSubsequenceCalculator::Row\<close> and \<open>Match\<close>\<close>

record lcs_row =
  lr_row :: size
  lr_tv :: size

record block =
  bl_i :: size
  bl_j :: size
  bl_size :: size
  bl_modified :: size

definition add_all :: "crv \<Rightarrow> size list \<Rightarrow> crv" where
  "add_all m is = foldl add m is"

section \<open>Moves of an unsorted query\<close>

text \<open>
  The loop state is the expected position, the positions removed from the old list and the change
  set under construction.
\<close>

definition unsorted_step :: "crv \<Rightarrow> size \<times> crv \<times> change_builder \<Rightarrow> row_info \<Rightarrow> size \<times> crv \<times> change_builder" where
  "unsorted_step cands s row =
     (let (expected, gone, c) = s in
      if ri_shifted row = expected then (expected + 1, gone, c)
      else if \<not> contains cands (ri_row row) then (ri_shifted row + 1, gone, c)
      else
        let calc_expected = ri_tv row - count (insertions c) 0 (ri_tv row) + count gone 0 (ri_prev row) in
        if ri_shifted row = calc_expected then (calc_expected + 1, gone, c)
        else (expected, add gone (ri_prev row),
          c\<lparr>moves := moves c @ [\<lparr>m_from = ri_prev row, m_to = ri_tv row\<rparr>],
            insertions := add (insertions c) (ri_tv row)\<rparr>))"

definition calculate_moves_unsorted ::
    "row_info list \<Rightarrow> crv \<Rightarrow> crv \<Rightarrow> change_builder \<Rightarrow> crv \<times> change_builder" where
  "calculate_moves_unsorted rows gone cands c = snd (foldl (unsorted_step cands) (0, gone, c) rows)"

section \<open>Longest matching blocks\<close>

text \<open>
  The loop of \<open>for_each_b_match\<close> from the position the binary search found: the table view indices
  of one row that fall into the searched range.
\<close>

fun matches_from :: "size \<Rightarrow> size \<Rightarrow> size \<Rightarrow> lcs_row list \<Rightarrow> size list" where
  "matches_from row lo hi [] = []"
| "matches_from row lo hi (r # rs) =
     (if lr_row r \<noteq> row then []
      else if lr_tv r < lo then matches_from row lo hi rs
      else if hi \<le> lr_tv r then []
      else lr_tv r # matches_from row lo hi rs)"

definition b_matches :: "lcs_row list \<Rightarrow> size \<Rightarrow> size \<Rightarrow> size \<Rightarrow> size list" where
  "b_matches b row lo hi =
     matches_from row lo hi (drop (lower_bound (\<lambda>k. lr_row (b ! k) < row) 0 (length b)) b)"

text \<open>The lambda \<open>length\<close>; an entry of \<open>prev\<close> is a pair of \<open>j\<close> and \<open>len\<close>.\<close>

definition length_at :: "(size \<times> size) list \<Rightarrow> size \<Rightarrow> size" where
  "length_at prev j = (case List.find (\<lambda>p. fst p + 1 = j) prev of Some p \<Rightarrow> snd p + 1 | None \<Rightarrow> 1)"

text \<open>
  The body of the inner loop.  \<open>bl_j best\<close> is where the best block begins, and the code counts its
  modified rows over the \<open>size\<close> positions that end there; that subtraction can wrap around.
\<close>

definition best_step :: "crv \<Rightarrow> size \<Rightarrow> (size \<times> size) list \<Rightarrow> (size \<times> size) list \<times> block \<Rightarrow> size \<Rightarrow>
    (size \<times> size) list \<times> block" where
  "best_step modified i prev s j =
     (let (cur, best) = s; size = length_at prev j in
      (cur @ [(j, size)],
       if bl_size best < size then \<lparr>bl_i = i + 1 - size, bl_j = j + 1 - size, bl_size = size, bl_modified = npos\<rparr>
       else if size = bl_size best then
         let best = (if bl_modified best = npos
               then best\<lparr>bl_modified := count modified (size_sub (bl_j best + 1) size) (bl_j best + 1)\<rparr> else best);
             n = count modified (j + 1 - size) (j + 1)
         in if n < bl_modified best
            then \<lparr>bl_i = i + 1 - size, bl_j = j + 1 - size, bl_size = size, bl_modified = n\<rparr> else best
       else best))"

definition match_row :: "crv \<Rightarrow> lcs_row list \<Rightarrow> lcs_row list \<Rightarrow> size \<Rightarrow> size \<Rightarrow>
    (size \<times> size) list \<times> block \<Rightarrow> size \<Rightarrow> (size \<times> size) list \<times> block" where
  "match_row modified a b lo hi s i =
     foldl (best_step modified i (fst s)) ([], snd s) (b_matches b (lr_row (a ! i)) lo hi)"

definition find_longest_match :: "crv \<Rightarrow> lcs_row list \<Rightarrow> lcs_row list \<Rightarrow> size \<Rightarrow> size \<Rightarrow> size \<Rightarrow> size \<Rightarrow> block" where
  "find_longest_match modified a b begin1 end1 begin2 end2 =
     snd (foldl (match_row modified a b begin2 end2)
       ([], \<lparr>bl_i = begin1, bl_j = begin2, bl_size = 0, bl_modified = 0\<rparr>) [begin1..<end1])"

text \<open>The recursion ends because the block that is found lies inside the searched rows of \<open>a\<close>.\<close>

lemma length_at_bound:
  assumes "\<And>p. p \<in> set prev \<Longrightarrow> snd p \<le> n"
  shows "0 < length_at prev j" "length_at prev j \<le> Suc n"
proof -
  have "length_at prev j = 1 \<or> (\<exists>p \<in> set prev. length_at prev j = snd p + 1)"
    by (auto simp: length_at_def find_Some_iff split: option.split) (metis nth_mem snd_conv)
  then show "0 < length_at prev j" "length_at prev j \<le> Suc n" using assms by auto
qed

definition inside_a :: "size \<Rightarrow> size \<Rightarrow> block \<Rightarrow> bool" where
  "inside_a lo hi best \<longleftrightarrow> bl_size best = 0 \<or> lo \<le> bl_i best \<and> bl_i best + bl_size best \<le> hi"

lemma best_step_inside_a:
  assumes "\<And>p. p \<in> set prev \<Longrightarrow> snd p \<le> i - lo" "lo \<le> i" "i < hi"
    and "inside_a lo hi (snd s)" "\<And>p. p \<in> set (fst s) \<Longrightarrow> snd p \<le> Suc i - lo"
  shows "inside_a lo hi (snd (best_step m i prev s j))"
    "p \<in> set (fst (best_step m i prev s j)) \<Longrightarrow> snd p \<le> Suc i - lo"
proof -
  have l: "0 < length_at prev j" "length_at prev j \<le> Suc i - lo"
    using length_at_bound[OF assms(1), of _ j] assms(2) by (simp_all add: Suc_diff_le)
  obtain cur best where s: "s = (cur, best)" by (cases s)
  have b: "lo \<le> i + 1 - length_at prev j" "i + 1 - length_at prev j + length_at prev j \<le> hi"
    using l assms(2,3) by auto
  show "inside_a lo hi (snd (best_step m i prev s j))"
    using assms(4) b by (auto simp: best_step_def inside_a_def Let_def s)
  show "p \<in> set (fst (best_step m i prev s j)) \<Longrightarrow> snd p \<le> Suc i - lo"
    using assms(5)[of p] l by (auto simp: best_step_def Let_def s)
qed

lemma match_row_inside_a:
  assumes "\<And>p. p \<in> set (fst s) \<Longrightarrow> snd p \<le> i - lo" "lo \<le> i" "i < hi" "inside_a lo hi (snd s)"
  shows "inside_a lo hi (snd (match_row m a b lo2 hi2 s i)) \<and>
    (\<forall>p \<in> set (fst (match_row m a b lo2 hi2 s i)). snd p \<le> Suc i - lo)"
proof -
  have "inside_a lo hi (snd t) \<Longrightarrow> (\<forall>p \<in> set (fst t). snd p \<le> Suc i - lo) \<Longrightarrow>
    inside_a lo hi (snd (foldl (best_step m i (fst s)) t js)) \<and>
    (\<forall>p \<in> set (fst (foldl (best_step m i (fst s)) t js)). snd p \<le> Suc i - lo)" for t js
  proof (induction js arbitrary: t)
    case (Cons j js)
    show ?case
      using Cons.IH[of "best_step m i (fst s) t j"]
        best_step_inside_a[OF assms(1-3) Cons.prems(1)] Cons.prems(2) by simp
  qed simp
  from this[of "([], snd s)"] show ?thesis using assms(4) by (simp add: match_row_def)
qed

lemma find_longest_match_inside_a:
  "inside_a begin1 end1 (find_longest_match m a b begin1 end1 begin2 end2)"
proof -
  let ?s = "\<lambda>k. foldl (match_row m a b begin2 end2)
    ([], \<lparr>bl_i = begin1, bl_j = begin2, bl_size = 0, bl_modified = 0\<rparr>) [begin1..<begin1 + k]"
  have "begin1 + k \<le> end1 \<Longrightarrow> inside_a begin1 end1 (snd (?s k)) \<and> (\<forall>p \<in> set (fst (?s k)). snd p \<le> k)" for k
  proof (induction k)
    case 0
    then show ?case by (simp add: inside_a_def)
  next
    case (Suc k)
    then show ?case using match_row_inside_a[of "?s k" "begin1 + k" begin1 end1] by simp
  qed
  from this[of "end1 - begin1"] show ?thesis
    by (cases "begin1 \<le> end1") (simp_all add: find_longest_match_def inside_a_def)
qed

function find_longest_matches :: "crv \<Rightarrow> lcs_row list \<Rightarrow> lcs_row list \<Rightarrow> size \<Rightarrow> size \<Rightarrow> size \<Rightarrow> size \<Rightarrow> block list" where
  "find_longest_matches modified a b begin1 end1 begin2 end2 =
     (let m = find_longest_match modified a b begin1 end1 begin2 end2 in
      if bl_size m = 0 then []
      else (if begin1 < bl_i m \<and> begin2 < bl_j m
            then find_longest_matches modified a b begin1 (bl_i m) begin2 (bl_j m) else []) @
        [m] @
        (if bl_i m + bl_size m < end2 \<and> bl_j m + bl_size m < end2
         then find_longest_matches modified a b (bl_i m + bl_size m) end1 (bl_j m + bl_size m) end2 else []))"
  by pat_completeness auto
termination
proof (relation "measure (\<lambda>(m, a, b, begin1, end1, begin2, end2). end1 - begin1)", goal_cases)
  case (2 m a b begin1 end1 begin2 end2 x)
  then show ?case using find_longest_match_inside_a[of begin1 end1 m a b begin2 end2]
    by (auto simp: inside_a_def)
next
  case (3 m a b begin1 end1 begin2 end2 x)
  then show ?case using find_longest_match_inside_a[of begin1 end1 m a b begin2 end2]
    by (auto simp: inside_a_def)
qed simp

declare find_longest_matches.simps [simp del]

definition longest_matches :: "crv \<Rightarrow> lcs_row list \<Rightarrow> lcs_row list \<Rightarrow> size \<Rightarrow> block list" where
  "longest_matches modified a b start =
     find_longest_matches modified a b start (length a) start (length b) @
     [\<lparr>bl_i = length a, bl_j = length b, bl_size = 0, bl_modified = 0\<rparr>]"

section \<open>Moves of a sorted query\<close>

fun align_matches :: "lcs_row list \<Rightarrow> row_info list \<Rightarrow> size \<Rightarrow> size \<Rightarrow> block list \<Rightarrow> change_builder \<Rightarrow> change_builder" where
  "align_matches a rows i j [] c = c"
| "align_matches a rows i j (m # ms) c =
     align_matches a rows (max i (bl_i m) + bl_size m) (max j (bl_j m) + bl_size m) ms
       (c\<lparr>deletions := add_all (deletions c) (map (\<lambda>k. lr_tv (a ! k)) [i..<bl_i m]),
          insertions := add_all (insertions c) (map (\<lambda>k. ri_tv (rows ! k)) [j..<bl_j m])\<rparr>)"

definition old_order :: "row_info list \<Rightarrow> lcs_row list" where
  "old_order rows = sort_key (\<lambda>r. (lr_tv r, lr_row r)) (map (\<lambda>r. \<lparr>lr_row = ri_row r, lr_tv = ri_prev r\<rparr>) rows)"

definition new_by_row :: "row_info list \<Rightarrow> lcs_row list" where
  "new_by_row rows = sort_key (\<lambda>r. (lr_row r, lr_tv r))
     (map (\<lambda>i. \<lparr>lr_row = ri_row (rows ! i), lr_tv = i\<rparr>) [0..<length rows])"

definition calculate_moves_sorted :: "row_info list \<Rightarrow> change_builder \<Rightarrow> change_builder" where
  "calculate_moves_sorted rows c =
     (let a = old_order rows in
      case List.find (\<lambda>i. lr_row (a ! i) \<noteq> ri_row (rows ! i)) [0..<length a] of
        None \<Rightarrow> c
      | Some first_difference \<Rightarrow>
          align_matches a rows first_difference first_difference
            (longest_matches (modifications c) a (new_by_row rows) first_difference) c)"

section \<open>Matching the two lists\<close>

text \<open>The rows of the old list; a row that was deleted outright is \<open>npos\<close> and goes to \<open>deletions\<close>.\<close>

fun collect_old :: "size list \<Rightarrow> size \<Rightarrow> size \<Rightarrow> crv \<Rightarrow> row_info list \<times> crv" where
  "collect_old [] i deleted del = ([], del)"
| "collect_old (r # rs) i deleted del =
     (if r = npos then collect_old rs (i + 1) (deleted + 1) (add del i)
      else let (old, del') = collect_old rs (i + 1) deleted del
        in (\<lparr>ri_row = r, ri_prev = npos, ri_tv = i, ri_shifted = i - deleted\<rparr> # old, del'))"

definition collect_new :: "size list \<Rightarrow> row_info list" where
  "collect_new rows = map (\<lambda>i. \<lparr>ri_row = rows ! i, ri_prev = npos, ri_tv = i, ri_shifted = 0\<rparr>) [0..<length rows]"

text \<open>
  The merge of the two lists ordered by row: the result holds the updated new rows, the removed
  old positions and the inserted new ones.
\<close>

fun match_rows :: "row_info list \<Rightarrow> row_info list \<Rightarrow> crv \<Rightarrow> crv \<Rightarrow> row_info list \<times> crv \<times> crv" where
  "match_rows [] new gone ins = (new, gone, add_all ins (map ri_tv new))"
| "match_rows (p # old) [] gone ins = ([], add_all gone (map ri_tv (p # old)), ins)"
| "match_rows (p # old) (n # new) gone ins =
     (if ri_row p = ri_row n then
        let (new', s) = match_rows old new gone ins
        in (n\<lparr>ri_prev := ri_tv p, ri_shifted := ri_shifted p\<rparr> # new', s)
      else if ri_row p < ri_row n then match_rows old (n # new) (add gone (ri_tv p)) ins
      else let (new', s) = match_rows (p # old) new gone (add ins (ri_tv n)) in (n # new', s))"

definition changed_rows :: "(size \<Rightarrow> bool) \<Rightarrow> row_info list \<Rightarrow> crv" where
  "changed_rows row_did_change rows =
     foldl (\<lambda>m r. if row_did_change (ri_row r) then add m (ri_tv r) else m) [] rows"

text \<open>
  \<open>std::sort\<close> is the stable \<open>sort_key\<close>; rows that compare equal differ only in their position, and
  no theorem depends on their order.
\<close>

definition cb_calculate :: "size list \<Rightarrow> size list \<Rightarrow> (size \<Rightarrow> bool) \<Rightarrow> crv option \<Rightarrow> change_builder" where
  "cb_calculate prev_rows next_rows row_did_change move_candidates =
     (let (old, del) = collect_old prev_rows 0 0 [];
          (new, gone, ins) = match_rows (sort_key ri_row old) (sort_key ri_row (collect_new next_rows)) [] [];
          rows = sort_key ri_tv (filter (\<lambda>r. ri_prev r \<noteq> npos) new);
          c = empty_builder\<lparr>deletions := del, insertions := ins, modifications := changed_rows row_did_change rows\<rparr>;
          (gone, c) = (case move_candidates of
              Some cands \<Rightarrow> calculate_moves_unsorted rows gone cands c
            | None \<Rightarrow> (gone, calculate_moves_sorted rows c))
      in c\<lparr>deletions := add_set (deletions c) gone\<rparr>)"

end
