(* ===== verification/Change_Calculate_Rows.thy ===== *)
theory Change_Calculate_Rows
  imports Change_Calculate Change_Builder_Laws
begin

text \<open>
  The matching of the two row lists, which both ways of finding the moves start from, and the pass
  for unsorted queries.
\<close>

section \<open>Sets of positions\<close>

lemma add_all_spec:
  "wf m \<Longrightarrow> wf (add_all m is) \<and> idx (add_all m is) = idx m \<union> set is"
proof (induction "is" arbitrary: m)
  case (Cons i js)
  then show ?case using Cons.IH[of "add m i"] by (simp add: add_all_def add_spec)
qed (simp add: add_all_def)

lemma changed_rows_spec:
  "wf (changed_rows f rows) \<and> idx (changed_rows f rows) = ri_tv ` {r \<in> set rows. f (ri_row r)}"
proof -
  have "wf m \<Longrightarrow> wf (foldl (\<lambda>m r. if f (ri_row r) then add m (ri_tv r) else m) m rows) \<and>
    idx (foldl (\<lambda>m r. if f (ri_row r) then add m (ri_tv r) else m) m rows) =
      idx m \<union> ri_tv ` {r \<in> set rows. f (ri_row r)}" for m
  proof (induction rows arbitrary: m)
    case (Cons r rows)
    have e: "{s \<in> set (r # rows). f (ri_row s)} =
        (if f (ri_row r) then {r} else {}) \<union> {s \<in> set rows. f (ri_row s)}" by auto
    show ?case using Cons.IH[of m] Cons.IH[of "add m (ri_tv r)"] Cons.prems
      by (simp only: e image_Un) (simp add: add_spec)
  qed simp
  from this[of "[]"] show ?thesis by (simp add: changed_rows_def)
qed

text \<open>What is left of a list, from an increasing enumeration of the positions that stay.\<close>

lemma nths_enum:
  assumes "sorted_wrt (<) ps" "set ps = {..<length xs} - X"
  shows "nths xs (- X) = map ((!) xs) ps"
proof -
  have "filter (\<lambda>i. i \<in> - X) [0..<length xs] = ps"
    by (rule strict_sorted_equal) (use assms in \<open>auto simp: sorted_wrt_filter\<close>)
  then show ?thesis by (simp add: nths_map_nth)
qed

text \<open>Deleting and inserting all but two increasing sequences of positions with equal elements.\<close>

lemma applies_kept:
  assumes "sorted_wrt (<) ps" "sorted_wrt (<) qs"
    and "set ps = {..<length xs} - D" "set qs = {..<length ys} - I"
    and "D \<subseteq> {..<length xs}" "I \<subseteq> {..<length ys}" "map ((!) xs) ps = map ((!) ys) qs"
  shows "applies D I xs ys"
  using assms nths_enum[of ps xs D] nths_enum[of qs ys I] by (simp add: applies_def)

section \<open>The old rows\<close>

text \<open>The positions of the old list whose row still exists.\<close>

definition live :: "size list \<Rightarrow> nat set" where
  "live rows = {p. p < length rows \<and> rows ! p \<noteq> npos}"

lemma finite_live [simp]: "finite (live rows)"
  by (simp add: live_def)

definition old_info :: "size list \<Rightarrow> size \<Rightarrow> row_info" where
  "old_info rows p = \<lparr>ri_row = rows ! p, ri_prev = npos, ri_tv = p, ri_shifted = card (live rows \<inter> {..<p})\<rparr>"

lemma old_info_simps [simp]:
  "ri_row (old_info rows p) = rows ! p" "ri_prev (old_info rows p) = npos" "ri_tv (old_info rows p) = p"
  "ri_shifted (old_info rows p) = card (live rows \<inter> {..<p})"
  by (simp_all add: old_info_def)

lemma live_below_Suc:
  "p < length rows \<Longrightarrow> live rows \<inter> {..<Suc p} =
     (if rows ! p = npos then live rows \<inter> {..<p} else insert p (live rows \<inter> {..<p}))"
  by (auto simp: live_def less_Suc_eq)

lemma upt_conv_Cons_filter:
  "i < n \<Longrightarrow> filter P [i..<n] = (if P i then i # filter P [Suc i..<n] else filter P [Suc i..<n])"
  by (simp add: upt_conv_Cons)

lemma collect_old_from:
  assumes "i \<le> length rows" "wf del"
  shows "fst (collect_old (drop i rows) i (i - card (live rows \<inter> {..<i})) del) =
      map (old_info rows) (filter (\<lambda>p. rows ! p \<noteq> npos) [i..<length rows])"
    and "wf (snd (collect_old (drop i rows) i (i - card (live rows \<inter> {..<i})) del))"
    and "idx (snd (collect_old (drop i rows) i (i - card (live rows \<inter> {..<i})) del)) =
      idx del \<union> {p. i \<le> p \<and> p < length rows \<and> rows ! p = npos}"
proof -
  have "fst (collect_old (drop i rows) i (i - card (live rows \<inter> {..<i})) del) =
      map (old_info rows) (filter (\<lambda>p. rows ! p \<noteq> npos) [i..<length rows]) \<and>
    wf (snd (collect_old (drop i rows) i (i - card (live rows \<inter> {..<i})) del)) \<and>
    idx (snd (collect_old (drop i rows) i (i - card (live rows \<inter> {..<i})) del)) =
      idx del \<union> {p. i \<le> p \<and> p < length rows \<and> rows ! p = npos}"
    using assms
  proof (induction "length rows - i" arbitrary: i del)
    case 0
    then show ?case by auto
  next
    case (Suc k)
    then have lt: "i < length rows" by simp
    have le: "card (live rows \<inter> {..<i}) \<le> i" by (rule card_below_le)
    have sh: "i - (i - card (live rows \<inter> {..<i})) = card (live rows \<inter> {..<i})" using le by simp
    have split: "{p. i \<le> p \<and> p < length rows \<and> rows ! p = npos} =
        (if rows ! i = npos then {i} else {}) \<union> {p. Suc i \<le> p \<and> p < length rows \<and> rows ! p = npos}"
      using lt by (auto simp: Suc_le_eq le_less)
    have c: "Suc i - card (live rows \<inter> {..<Suc i}) =
        (if rows ! i = npos then Suc (i - card (live rows \<inter> {..<i})) else i - card (live rows \<inter> {..<i}))"
      using le by (simp add: live_below_Suc[OF lt] Suc_diff_le)
    have ih: "fst (collect_old (drop (Suc i) rows) (Suc i) (Suc i - card (live rows \<inter> {..<Suc i})) d) =
        map (old_info rows) (filter (\<lambda>p. rows ! p \<noteq> npos) [Suc i..<length rows]) \<and>
      wf (snd (collect_old (drop (Suc i) rows) (Suc i) (Suc i - card (live rows \<inter> {..<Suc i})) d)) \<and>
      idx (snd (collect_old (drop (Suc i) rows) (Suc i) (Suc i - card (live rows \<inter> {..<Suc i})) d)) =
        idx d \<union> {p. Suc i \<le> p \<and> p < length rows \<and> rows ! p = npos}" if "wf d" for d
      using Suc(1)[of "Suc i" d] Suc(2) lt that by simp
    show ?case
    proof (cases "rows ! i = npos")
      case True
      then show ?thesis
        using ih[of "add del i"] Suc(4) c
        by (simp add: Cons_nth_drop_Suc[OF lt, symmetric] upt_conv_Cons_filter[OF lt] split add_spec)
    next
      case False
      then show ?thesis
        using ih[of del] Suc(4) c sh
        by (simp add: Cons_nth_drop_Suc[OF lt, symmetric] upt_conv_Cons_filter[OF lt] split old_info_def
            case_prod_beta)
    qed
  qed
  then show "fst (collect_old (drop i rows) i (i - card (live rows \<inter> {..<i})) del) =
      map (old_info rows) (filter (\<lambda>p. rows ! p \<noteq> npos) [i..<length rows])"
    "wf (snd (collect_old (drop i rows) i (i - card (live rows \<inter> {..<i})) del))"
    "idx (snd (collect_old (drop i rows) i (i - card (live rows \<inter> {..<i})) del)) =
      idx del \<union> {p. i \<le> p \<and> p < length rows \<and> rows ! p = npos}" by blast+
qed

definition old_rows :: "size list \<Rightarrow> row_info list" where
  "old_rows rows = map (old_info rows) (filter (\<lambda>p. rows ! p \<noteq> npos) [0..<length rows])"

lemma set_old_rows: "set (old_rows rows) = old_info rows ` live rows"
  by (auto simp: old_rows_def live_def)

lemma old_rows_tv: "map ri_tv (old_rows rows) = filter (\<lambda>p. rows ! p \<noteq> npos) [0..<length rows]"
  by (simp add: old_rows_def comp_def)

lemma collect_old_spec:
  obtains del where "collect_old rows 0 0 [] = (old_rows rows, del)" "wf del"
    "idx del = {..<length rows} - live rows"
proof
  show "collect_old rows 0 0 [] = (old_rows rows, snd (collect_old rows 0 0 []))"
    using collect_old_from(1)[of 0 rows "[]"] by (simp add: old_rows_def prod_eq_iff)
  show "wf (snd (collect_old rows 0 0 []))" using collect_old_from(2)[of 0 rows "[]"] by simp
  show "idx (snd (collect_old rows 0 0 [])) = {..<length rows} - live rows"
    using collect_old_from(3)[of 0 rows "[]"] by (auto simp: live_def)
qed

section \<open>Matching\<close>

abbreviation matched :: "row_info list \<Rightarrow> row_info list" where
  "matched rows \<equiv> filter (\<lambda>r. ri_prev r \<noteq> npos) rows"

text \<open>
  What a matching of the old rows \<open>old\<close> with the new rows \<open>new\<close> is: the new rows keep their place,
  every matched one carries the position of one old row with the same row index, no old row is used
  twice, and the rows without a partner are recorded.
\<close>

definition matching :: "row_info list \<Rightarrow> row_info list \<Rightarrow> crv \<Rightarrow> crv \<Rightarrow> row_info list \<times> crv \<times> crv \<Rightarrow> bool" where
  "matching old new gone ins res \<longleftrightarrow>
     (let (new', gone', ins') = res in
      map (\<lambda>r. (ri_row r, ri_tv r)) new' = map (\<lambda>r. (ri_row r, ri_tv r)) new \<and>
      wf gone' \<and> wf ins' \<and>
      idx ins' = idx ins \<union> ri_tv ` {r \<in> set new'. ri_prev r = npos} \<and>
      idx gone' = idx gone \<union> (ri_tv ` set old - ri_prev ` set (matched new')) \<and>
      distinct (map ri_prev (matched new')) \<and>
      (\<forall>r \<in> set (matched new'). \<exists>p \<in> set old.
        ri_row p = ri_row r \<and> ri_tv p = ri_prev r \<and> ri_shifted p = ri_shifted r))"

lemma matchingD:
  assumes "matching old new gone ins (new', gone', ins')"
  shows "map (\<lambda>r. (ri_row r, ri_tv r)) new' = map (\<lambda>r. (ri_row r, ri_tv r)) new" "wf gone'" "wf ins'"
    "idx ins' = idx ins \<union> ri_tv ` {r \<in> set new'. ri_prev r = npos}"
    "idx gone' = idx gone \<union> (ri_tv ` set old - ri_prev ` set (matched new'))"
    "distinct (map ri_prev (matched new'))"
    "\<forall>r \<in> set (matched new'). \<exists>p \<in> set old.
        ri_row p = ri_row r \<and> ri_tv p = ri_prev r \<and> ri_shifted p = ri_shifted r"
  using assms unfolding matching_def Let_def prod.case by - (elim conjE, assumption)+

lemma matching_sources: "matching old new gone ins (new', s) \<Longrightarrow> ri_prev ` set (matched new') \<subseteq> ri_tv ` set old"
proof
  fix x assume m: "matching old new gone ins (new', s)" and "x \<in> ri_prev ` set (matched new')"
  then obtain r where r: "r \<in> set (matched new')" "x = ri_prev r" by blast
  from m have "\<forall>r \<in> set (matched new'). \<exists>p \<in> set old.
        ri_row p = ri_row r \<and> ri_tv p = ri_prev r \<and> ri_shifted p = ri_shifted r"
    unfolding matching_def by (cases s) (simp only: Let_def prod.case, blast)
  then obtain p where "p \<in> set old" "ri_tv p = ri_prev r" using r(1) by blast
  then show "x \<in> ri_tv ` set old" using r(2) by (metis imageI)
qed

lemma matching_no_old:
  assumes "\<forall>n \<in> set new. ri_prev n = npos" "wf gone" "wf ins"
  shows "matching [] new gone ins (new, gone, add_all ins (map ri_tv new))"
proof -
  have "{r \<in> set new. ri_prev r = npos} = set new" "matched new = []"
    using assms(1) by (auto simp: filter_empty_conv)
  then show ?thesis using assms add_all_spec[of ins "map ri_tv new"] by (simp add: matching_def)
qed

lemma matching_no_new:
  "wf gone \<Longrightarrow> wf ins \<Longrightarrow> matching old [] gone ins ([], add_all gone (map ri_tv old), ins)"
  using add_all_spec[of gone "map ri_tv old"] by (simp add: matching_def)

lemma matching_pair:
  assumes "matching old new gone ins (new', gone', ins')" "ri_row p = ri_row n"
    and "ri_tv p \<notin> ri_tv ` set old" "ri_tv p \<noteq> npos"
  shows "matching (p # old) (n # new) gone ins
    (n\<lparr>ri_prev := ri_tv p, ri_shifted := ri_shifted p\<rparr> # new', gone', ins')"
proof -
  have src: "ri_prev ` set (matched new') \<subseteq> ri_tv ` set old" by (rule matching_sources[OF assms(1)])
  let ?n = "n\<lparr>ri_prev := ri_tv p, ri_shifted := ri_shifted p\<rparr>"
  have k: "matched (?n # new') = ?n # matched new'" using assms(4) by simp
  have u: "{r \<in> set (?n # new'). ri_prev r = npos} = {r \<in> set new'. ri_prev r = npos}" using assms(4) by auto
  have g: "ri_tv ` set (p # old) - ri_prev ` set (matched (?n # new')) = ri_tv ` set old - ri_prev ` set (matched new')"
    unfolding k using assms(3) by auto
  have d: "distinct (map ri_prev (matched (?n # new')))"
    unfolding k using assms(1,3) src by (auto simp: matching_def)
  have e: "\<forall>r \<in> set (matched (?n # new')). \<exists>q \<in> set (p # old).
      ri_row q = ri_row r \<and> ri_tv q = ri_prev r \<and> ri_shifted q = ri_shifted r"
    unfolding k using assms(1,2) by (simp add: matching_def)
  show ?thesis
    using assms(1,2) by (simp only: matching_def Let_def prod.case u g d e) simp
qed

lemma matching_gone:
  assumes "matching old new (add gone (ri_tv p)) ins (new', gone', ins')" "wf gone"
    and "ri_tv p \<notin> ri_tv ` set old"
  shows "matching (p # old) new gone ins (new', gone', ins')"
proof -
  have src: "ri_prev ` set (matched new') \<subseteq> ri_tv ` set old" by (rule matching_sources[OF assms(1)])
  have "idx gone' = insert (ri_tv p) (idx gone) \<union> (ri_tv ` set old - ri_prev ` set (matched new'))"
    using assms(1,2) by (simp add: matching_def add_spec)
  also have "\<dots> = idx gone \<union> (ri_tv ` set (p # old) - ri_prev ` set (matched new'))"
    using src assms(3) by auto
  finally have g: "idx gone' = idx gone \<union> (ri_tv ` set (p # old) - ri_prev ` set (matched new'))" .
  have e: "\<forall>r \<in> set (matched new'). \<exists>q \<in> set (p # old).
      ri_row q = ri_row r \<and> ri_tv q = ri_prev r \<and> ri_shifted q = ri_shifted r"
    using assms(1) by (simp add: matching_def)
  show ?thesis using assms(1) by (simp only: matching_def Let_def prod.case g e) simp
qed

lemma matching_inserted:
  assumes "matching old new gone (add ins (ri_tv n)) (new', gone', ins')" "wf ins" "ri_prev n = npos"
  shows "matching old (n # new) gone ins (n # new', gone', ins')"
proof -
  have u: "{r \<in> set (n # new'). ri_prev r = npos} = insert n {r \<in> set new'. ri_prev r = npos}"
    using assms(3) by auto
  have k: "matched (n # new') = matched new'" using assms(3) by simp
  show ?thesis using assms(1,2)
    by (simp only: matching_def Let_def prod.case u k image_insert) (simp add: add_spec)
qed

lemma match_rows_matching:
  assumes "\<forall>n \<in> set new. ri_prev n = npos" "\<forall>p \<in> set old. ri_tv p \<noteq> npos" "distinct (map ri_tv old)"
    and "wf gone" "wf ins"
  shows "matching old new gone ins (match_rows old new gone ins)"
  using assms
proof (induction old new gone ins rule: match_rows.induct)
  case (1 new gone ins)
  then show ?case by (simp add: matching_no_old)
next
  case (2 p old gone ins)
  then show ?case using matching_no_new[of gone ins "p # old"] by (simp del: list.map)
next
  case (3 p old n new gone ins)
  have p: "ri_tv p \<notin> ri_tv ` set old" "ri_tv p \<noteq> npos" using 3(5,6) by simp_all
  consider "ri_row p = ri_row n" | "ri_row p \<noteq> ri_row n" "ri_row p < ri_row n" | "ri_row p \<noteq> ri_row n" "\<not> ri_row p < ri_row n"
    by blast
  then show ?case
  proof cases
    case 1
    obtain new' gone' ins' where e: "match_rows old new gone ins = (new', gone', ins')" by (cases "match_rows old new gone ins")
    then have "matching old new gone ins (new', gone', ins')" using 3(1)[OF 1] 3(4-8) by simp
    then show ?thesis using matching_pair[OF _ 1 p] e 1 by simp
  next
    case 2
    obtain new' gone' ins' where e: "match_rows old (n # new) (add gone (ri_tv p)) ins = (new', gone', ins')"
      by (cases "match_rows old (n # new) (add gone (ri_tv p)) ins")
    then have "matching old (n # new) (add gone (ri_tv p)) ins (new', gone', ins')"
      using 3(2)[OF 2] 3(4-8) by (simp add: add_spec)
    then show ?thesis using matching_gone[OF _ 3(7) p(1)] e 2 by simp
  next
    case c: 3
    obtain new' gone' ins' where e: "match_rows (p # old) new gone (add ins (ri_tv n)) = (new', gone', ins')"
      by (cases "match_rows (p # old) new gone (add ins (ri_tv n))")
    then have "matching (p # old) new gone (add ins (ri_tv n)) (new', gone', ins')"
      using 3(3)[OF c] 3(4-8) by (simp add: add_spec)
    then show ?thesis using matching_inserted[OF _ 3(8)] 3(4) e c by simp
  qed
qed

section \<open>The matched rows\<close>

text \<open>
  The state both passes start from: the matched rows in the new order, and the positions without a
  partner on either side.
\<close>

definition row_match :: "size list \<Rightarrow> size list \<Rightarrow> crv \<Rightarrow> crv \<Rightarrow> row_info list \<Rightarrow> bool" where
  "row_match prev next gone ins rows \<longleftrightarrow>
     sorted_wrt (<) (map ri_tv rows) \<and> distinct (map ri_prev rows) \<and>
     (\<forall>r \<in> set rows. ri_prev r \<in> live prev \<and> ri_tv r < length next \<and>
        prev ! ri_prev r = ri_row r \<and> next ! ri_tv r = ri_row r \<and>
        ri_shifted r = card (live prev \<inter> {..<ri_prev r})) \<and>
     wf gone \<and> wf ins \<and> idx gone = live prev - ri_prev ` set rows \<and>
     idx ins = {..<length next} - ri_tv ` set rows"

lemma row_matchD:
  assumes "row_match prev next gone ins rows"
  shows "sorted_wrt (<) (map ri_tv rows)" "distinct (map ri_prev rows)" "wf gone" "wf ins"
    "idx gone = live prev - ri_prev ` set rows" "idx ins = {..<length next} - ri_tv ` set rows"
    "\<And>r. r \<in> set rows \<Longrightarrow> ri_prev r \<in> live prev" "\<And>r. r \<in> set rows \<Longrightarrow> ri_tv r < length next"
    "\<And>r. r \<in> set rows \<Longrightarrow> prev ! ri_prev r = ri_row r" "\<And>r. r \<in> set rows \<Longrightarrow> next ! ri_tv r = ri_row r"
    "\<And>r. r \<in> set rows \<Longrightarrow> ri_shifted r = card (live prev \<inter> {..<ri_prev r})"
  using assms by (simp_all add: row_match_def)

lemma collect_new_tv: "map ri_tv (collect_new rows) = [0..<length rows]"
  by (simp add: collect_new_def comp_def)

lemma matching_new_rows:
  assumes "matching old (sort_key ri_row (collect_new next)) gone ins (new, gone', ins')"
  shows "distinct (map ri_tv new)" "ri_tv ` set new = {..<length next}"
    "r \<in> set new \<Longrightarrow> next ! ri_tv r = ri_row r"
proof -
  let ?new = "sort_key ri_row (collect_new next)"
  have m: "map (\<lambda>r. (ri_row r, ri_tv r)) new = map (\<lambda>r. (ri_row r, ri_tv r)) ?new"
    using assms by (simp add: matching_def)
  then have "map snd (map (\<lambda>r. (ri_row r, ri_tv r)) new) = map snd (map (\<lambda>r. (ri_row r, ri_tv r)) ?new)"
    by (rule arg_cong)
  then have tv: "map ri_tv new = map ri_tv ?new" by (simp add: comp_def)
  have "distinct (map ri_tv (collect_new next))" by (simp add: collect_new_tv)
  then show "distinct (map ri_tv new)" unfolding tv by (simp add: distinct_map)
  have "set (map ri_tv new) = set (map ri_tv (collect_new next))" unfolding tv by simp
  then show "ri_tv ` set new = {..<length next}" unfolding collect_new_tv by (simp add: atLeast0LessThan)
  assume "r \<in> set new"
  then have "(ri_row r, ri_tv r) \<in> set (map (\<lambda>r. (ri_row r, ri_tv r)) new)" by simp
  then show "next ! ri_tv r = ri_row r" unfolding m by (auto simp: collect_new_def)
qed

lemma matching_row_match:
  assumes "matching (sort_key ri_row (old_rows prev)) (sort_key ri_row (collect_new next)) [] [] (new, gone, ins)"
  shows "row_match prev next gone ins (sort_key ri_tv (matched new))"
proof -
  note M = matchingD[OF assms]
  note N = matching_new_rows[OF assms]
  let ?rows = "sort_key ri_tv (matched new)"
  have old: "\<exists>p \<in> live prev. prev ! p = ri_row r \<and> p = ri_prev r \<and> card (live prev \<inter> {..<p}) = ri_shifted r"
    if "r \<in> set (matched new)" for r
  proof -
    from bspec[OF M(7) that] obtain q where "q \<in> set (sort_key ri_row (old_rows prev))"
      "ri_row q = ri_row r" "ri_tv q = ri_prev r" "ri_shifted q = ri_shifted r" by (elim bexE conjE)
    moreover from this(1) obtain p where p: "p \<in> live prev" "q = old_info prev p" by (auto simp: set_old_rows)
    ultimately have "prev ! p = ri_row r" "p = ri_prev r" "card (live prev \<inter> {..<p}) = ri_shifted r"
      unfolding p(2) by (simp_all only: old_info_simps)
    then show ?thesis using p(1) by blast
  qed
  have "distinct (map ri_tv (matched new))" using N(1) by (rule distinct_map_filter)
  then have "sorted_wrt (<) (map ri_tv ?rows)"
    by (simp add: strict_sorted_iff distinct_map)
  moreover have "distinct (map ri_prev ?rows)" using M(6) by (simp add: distinct_map)
  moreover have "idx gone = live prev - ri_prev ` set ?rows" using M(5) by (simp add: set_old_rows image_image)
  moreover have "idx ins = {..<length next} - ri_tv ` set ?rows"
  proof -
    have "idx ins = ri_tv ` {r \<in> set new. ri_prev r = npos}" using M(4) by simp
    also have "\<dots> = ri_tv ` (set new - set ?rows)" by (rule arg_cong[where f = "image ri_tv"]) auto
    also have "\<dots> = ri_tv ` set new - ri_tv ` set ?rows"
      by (rule inj_on_image_set_diff[of _ "set new"]) (use N(1) in \<open>auto simp: distinct_map\<close>)
    finally show ?thesis by (simp add: N(2))
  qed
  moreover have "ri_tv r < length next" "next ! ri_tv r = ri_row r" if "r \<in> set new" for r
    using N(2,3) that by auto
  ultimately show ?thesis
    using M(2,3) old unfolding row_match_def by auto
qed

definition calculate_start :: "size list \<Rightarrow> size list \<Rightarrow> row_info list \<times> crv \<times> crv" where
  "calculate_start prev next =
     match_rows (sort_key ri_row (old_rows prev)) (sort_key ri_row (collect_new next)) [] []"

lemma calculate_start_matching:
  assumes "length prev \<le> npos"
  shows "matching (sort_key ri_row (old_rows prev)) (sort_key ri_row (collect_new next)) [] []
    (calculate_start prev next)"
  unfolding calculate_start_def
proof (rule match_rows_matching)
  show "\<forall>n \<in> set (sort_key ri_row (collect_new next)). ri_prev n = npos" by (auto simp: collect_new_def)
  show "\<forall>p \<in> set (sort_key ri_row (old_rows prev)). ri_tv p \<noteq> npos"
    using assms by (auto simp: set_old_rows live_def)
  have "distinct (map ri_tv (old_rows prev))" by (simp add: old_rows_tv)
  then show "distinct (map ri_tv (sort_key ri_row (old_rows prev)))" by (simp add: distinct_map)
qed simp_all

text \<open>The change set before the moves are known.\<close>

definition unmoved :: "crv \<Rightarrow> crv \<Rightarrow> crv \<Rightarrow> change_builder" where
  "unmoved del ins mods = empty_builder\<lparr>deletions := del, insertions := ins, modifications := mods\<rparr>"

lemma cb_calculate_cases:
  assumes "length prev \<le> npos"
  obtains del gone ins rows where "wf del" "idx del = {..<length prev} - live prev"
    "row_match prev next gone ins rows" "rows = sort_key ri_tv (matched (fst (calculate_start prev next)))"
    "cb_calculate prev next f None =
      (let c = calculate_moves_sorted rows (unmoved del ins (changed_rows f rows))
       in c\<lparr>deletions := add_set (deletions c) gone\<rparr>)"
    "\<And>cands. cb_calculate prev next f (Some cands) =
      (let (gone, c) = calculate_moves_unsorted rows gone cands (unmoved del ins (changed_rows f rows))
       in c\<lparr>deletions := add_set (deletions c) gone\<rparr>)"
proof -
  obtain del where del: "collect_old prev 0 0 [] = (old_rows prev, del)" "wf del"
    "idx del = {..<length prev} - live prev" by (rule collect_old_spec)
  obtain new gone ins where s: "calculate_start prev next = (new, gone, ins)" by (cases "calculate_start prev next")
  have "row_match prev next gone ins (sort_key ri_tv (matched new))"
    by (rule matching_row_match) (use calculate_start_matching[OF assms, of "next"] s in simp)
  then show thesis
  proof (rule that[OF del(2,3)])
    show "sort_key ri_tv (matched new) = sort_key ri_tv (matched (fst (calculate_start prev next)))" by (simp add: s)
    note start = s[unfolded calculate_start_def]
    show "cb_calculate prev next f None =
      (let c = calculate_moves_sorted (sort_key ri_tv (matched new))
             (unmoved del ins (changed_rows f (sort_key ri_tv (matched new))))
       in c\<lparr>deletions := add_set (deletions c) gone\<rparr>)"
      by (simp add: cb_calculate_def del(1) start unmoved_def Let_def)
    show "cb_calculate prev next f (Some cands) =
      (let (gone, c) = calculate_moves_unsorted (sort_key ri_tv (matched new)) gone cands
             (unmoved del ins (changed_rows f (sort_key ri_tv (matched new))))
       in c\<lparr>deletions := add_set (deletions c) gone\<rparr>)" for cands
      by (simp add: cb_calculate_def del(1) start unmoved_def Let_def)
  qed
qed

end
