(* ===== verification/Change_Calculate_Blocks.thy ===== *)
theory Change_Calculate_Blocks
  imports Change_Calculate_Rows
begin

text \<open>
  The search for matching blocks: \<open>find_longest_match\<close> finds a longest block of rows that occur in the
  same order on both sides, and \<open>find_longest_matches\<close> a sequence of such blocks that ascends on both
  sides.
\<close>

section \<open>The positions of one row\<close>

text \<open>\<open>at_b b row j\<close>: the row is at position \<open>j\<close> of the new results.\<close>

definition at_b :: "lcs_row list \<Rightarrow> size \<Rightarrow> size \<Rightarrow> bool" where
  "at_b b row j \<longleftrightarrow> (\<exists>r \<in> set b. lr_row r = row \<and> lr_tv r = j)"

definition by_row :: "lcs_row list \<Rightarrow> bool" where
  "by_row b \<longleftrightarrow> sorted (map (\<lambda>r. (lr_row r, lr_tv r)) b)"

lemma matches_from_sound:
  "j \<in> set (matches_from row lo hi rs) \<Longrightarrow> lo \<le> j \<and> j < hi \<and> at_b rs row j"
  by (induction rs) (auto simp: at_b_def split: if_splits)

lemma matches_from_complete:
  assumes "by_row rs" "\<forall>r \<in> set rs. row \<le> lr_row r" "at_b rs row j" "lo \<le> j" "j < hi"
  shows "j \<in> set (matches_from row lo hi rs)"
  using assms
proof (induction rs)
  case (Cons r rs)
  obtain q where q: "q \<in> set (r # rs)" "lr_row q = row" "lr_tv q = j" using Cons.prems(3) by (auto simp: at_b_def)
  have le: "(lr_row r, lr_tv r) \<le> (lr_row q, lr_tv q)" using Cons.prems(1) q(1) by (auto simp: by_row_def)
  then have row: "lr_row r = row" "lr_tv r \<le> j" using q Cons.prems(2) by (auto simp: less_eq_prod_def)
  have ih: "q \<in> set rs \<Longrightarrow> j \<in> set (matches_from row lo hi rs)"
    using Cons.IH Cons.prems q by (auto simp: by_row_def at_b_def)
  show ?case using row q ih Cons.prems(4,5) by auto
qed (simp add: at_b_def)

lemma b_matches_set:
  assumes "by_row b"
  shows "set (b_matches b row lo hi) = {j. lo \<le> j \<and> j < hi \<and> at_b b row j}"
proof -
  let ?P = "\<lambda>r. lr_row r < row" and ?n = "length (takeWhile (\<lambda>r. lr_row r < row) b)"
  have s: "sorted (map lr_row b)" using assms unfolding by_row_def sorted_iff_nth_mono
    by (auto simp: less_eq_prod_def) (metis order_refl less_imp_le)+
  have "\<not> ?P (b ! j)" if "j < length b" "?n \<le> j" for j
  proof -
    have "\<not> ?P (b ! ?n)" by (rule nth_length_takeWhile) (use that in simp)
    moreover have "lr_row (b ! ?n) \<le> lr_row (b ! j)"
      using sorted_nth_mono[OF s that(2)] that by simp
    ultimately show ?thesis by simp
  qed
  then have "lower_bound (\<lambda>k. ?P (b ! k)) 0 (length b) = ?n"
    using lower_bound_takeWhile[of 0 b ?P] by simp
  then have e: "b_matches b row lo hi = matches_from row lo hi (dropWhile ?P b)"
    by (simp add: b_matches_def dropWhile_eq_drop)
  have sd: "by_row (dropWhile ?P b)"
    using assms by (simp add: by_row_def dropWhile_eq_drop drop_map[symmetric] sorted_wrt_drop)
  have sm: "sorted (map lr_row (dropWhile ?P b))"
    using s by (simp add: dropWhile_eq_drop drop_map[symmetric] sorted_wrt_drop)
  have ge: "\<forall>r \<in> set (dropWhile ?P b). row \<le> lr_row r"
  proof (cases "dropWhile ?P b")
    case (Cons r rs)
    then have "\<not> ?P r" using hd_dropWhile[of ?P b] by simp
    then show ?thesis using sm Cons by auto
  next
    case Nil
    then show ?thesis unfolding Nil by simp
  qed
  have "at_b (dropWhile ?P b) row j \<longleftrightarrow> at_b b row j" for j
  proof -
    have "set b = set (takeWhile ?P b) \<union> set (dropWhile ?P b)"
      by (metis set_append takeWhile_dropWhile_id)
    then show ?thesis by (auto simp: at_b_def dest: set_takeWhileD)
  qed
  then show ?thesis
    using matches_from_sound[of _ row lo hi "dropWhile ?P b"] matches_from_complete[OF sd ge] by (auto simp: e)
qed

section \<open>Blocks\<close>

text \<open>A block of \<open>len\<close> equal rows that ends at \<open>i\<close> and \<open>j\<close>, not before \<open>lo1\<close> and \<open>lo2\<close>.\<close>

definition run_at :: "(nat \<Rightarrow> nat \<Rightarrow> bool) \<Rightarrow> nat \<Rightarrow> nat \<Rightarrow> nat \<Rightarrow> nat \<Rightarrow> nat \<Rightarrow> bool" where
  "run_at eq lo1 lo2 i j len \<longleftrightarrow>
     len + lo1 \<le> Suc i \<and> len + lo2 \<le> Suc j \<and> (\<forall>k < len. eq (i - k) (j - k))"

definition longest_run :: "(nat \<Rightarrow> nat \<Rightarrow> bool) \<Rightarrow> nat \<Rightarrow> nat \<Rightarrow> nat \<Rightarrow> nat \<Rightarrow> nat \<Rightarrow> bool" where
  "longest_run eq lo1 lo2 i j len \<longleftrightarrow>
     run_at eq lo1 lo2 i j len \<and> (\<forall>l. run_at eq lo1 lo2 i j l \<longrightarrow> l \<le> len)"

definition block_ok :: "(nat \<Rightarrow> nat \<Rightarrow> bool) \<Rightarrow> nat \<Rightarrow> nat \<Rightarrow> nat \<Rightarrow> nat \<Rightarrow> block \<Rightarrow> bool" where
  "block_ok eq lo1 hi1 lo2 hi2 m \<longleftrightarrow>
     lo1 \<le> bl_i m \<and> bl_i m + bl_size m \<le> hi1 \<and> lo2 \<le> bl_j m \<and> bl_j m + bl_size m \<le> hi2 \<and>
     (\<forall>k < bl_size m. eq (bl_i m + k) (bl_j m + k))"

lemma run_block:
  assumes "run_at eq lo1 lo2 i j len" "0 < len" "i < hi1" "j < hi2"
    "bl_i m = i + 1 - len" "bl_j m = j + 1 - len" "bl_size m = len"
  shows "block_ok eq lo1 hi1 lo2 hi2 m"
proof -
  have r: "len + lo1 \<le> Suc i" "len + lo2 \<le> Suc j" "\<And>k. k < len \<Longrightarrow> eq (i - k) (j - k)"
    using assms(1) by (simp_all add: run_at_def)
  have "eq (i + 1 - len + k) (j + 1 - len + k)" if "k < len" for k
  proof -
    have "i + 1 - len + k = i - (len - 1 - k)" "j + 1 - len + k = j - (len - 1 - k)" using that r by auto
    then show ?thesis using r(3)[of "len - 1 - k"] that by simp
  qed
  then have "\<forall>k < bl_size m. eq (bl_i m + k) (bl_j m + k)" using assms(5-7) by simp
  moreover have "lo1 \<le> bl_i m \<and> bl_i m + bl_size m \<le> hi1" "lo2 \<le> bl_j m \<and> bl_j m + bl_size m \<le> hi2"
    using r(1,2) assms(2-7) by auto
  ultimately show ?thesis by (simp add: block_ok_def)
qed

lemma block_run:
  assumes "block_ok eq lo1 hi1 lo2 hi2 m" "0 < bl_size m"
  shows "run_at eq lo1 lo2 (bl_i m + bl_size m - 1) (bl_j m + bl_size m - 1) (bl_size m)"
proof -
  have e: "\<And>k. k < bl_size m \<Longrightarrow> eq (bl_i m + k) (bl_j m + k)" using assms(1) by (simp add: block_ok_def)
  have "eq (bl_i m + bl_size m - 1 - k) (bl_j m + bl_size m - 1 - k)" if "k < bl_size m" for k
  proof -
    have "bl_i m + bl_size m - 1 - k = bl_i m + (bl_size m - 1 - k)"
      "bl_j m + bl_size m - 1 - k = bl_j m + (bl_size m - 1 - k)" using that by auto
    then show ?thesis using e[of "bl_size m - 1 - k"] that by simp
  qed
  then show ?thesis using assms by (simp add: run_at_def block_ok_def)
qed

lemma run_at_one: "eq i j \<Longrightarrow> lo1 \<le> i \<Longrightarrow> lo2 \<le> j \<Longrightarrow> run_at eq lo1 lo2 i j 1"
  by (simp add: run_at_def)

lemma run_at_Suc:
  assumes "lo1 < i" "lo2 < j"
  shows "run_at eq lo1 lo2 i j (Suc len) \<longleftrightarrow> eq i j \<and> run_at eq lo1 lo2 (i - 1) (j - 1) len"
proof -
  have "(\<forall>k < Suc len. eq (i - k) (j - k)) \<longleftrightarrow> eq i j \<and> (\<forall>k < len. eq (i - 1 - k) (j - 1 - k))"
    unfolding All_less_Suc2 by simp
  then show ?thesis using assms by (auto simp: run_at_def)
qed

section \<open>The longest block\<close>

text \<open>What the inner loop knows of its entries for row \<open>i\<close> of \<open>a\<close>.\<close>

definition lengths_ok :: "(nat \<Rightarrow> nat \<Rightarrow> bool) \<Rightarrow> nat \<Rightarrow> nat \<Rightarrow> nat \<Rightarrow> nat \<Rightarrow> (size \<times> size) list \<Rightarrow> bool" where
  "lengths_ok eq lo1 lo2 hi2 i cur \<longleftrightarrow>
     (\<forall>p \<in> set cur. lo2 \<le> fst p \<and> fst p < hi2 \<and> 0 < snd p \<and> longest_run eq lo1 lo2 i (fst p) (snd p))"

text \<open>The entries the loop body sees: those of the row before, or none for the first row.\<close>

definition prev_ok :: "(nat \<Rightarrow> nat \<Rightarrow> bool) \<Rightarrow> nat \<Rightarrow> nat \<Rightarrow> nat \<Rightarrow> nat \<Rightarrow> (size \<times> size) list \<Rightarrow> bool" where
  "prev_ok eq lo1 lo2 hi2 i prev \<longleftrightarrow>
     (if lo1 < i then lengths_ok eq lo1 lo2 hi2 (i - 1) prev \<and> fst ` set prev = {j. lo2 \<le> j \<and> j < hi2 \<and> eq (i - 1) j}
      else prev = [])"

lemma length_at_longest:
  assumes prev: "prev_ok eq lo1 lo2 hi2 i prev" and j: "eq i j" "lo1 \<le> i" "lo2 \<le> j" "j < hi2"
  shows "longest_run eq lo1 lo2 i j (length_at prev j)" "0 < length_at prev j"
proof -
  have "longest_run eq lo1 lo2 i j (length_at prev j) \<and> 0 < length_at prev j"
  proof (cases "List.find (\<lambda>p. fst p + 1 = j) prev")
    case None
    have no: "j - 1 \<notin> fst ` set prev" if "0 < j" using None that by (auto simp: find_None_iff)
    have "l \<le> 1" if r: "run_at eq lo1 lo2 i j l" for l
    proof (rule ccontr)
      assume "\<not> l \<le> 1"
      then obtain n where n: "l = Suc (Suc n)" by (metis One_nat_def less_eq_Suc_le not_less_eq_eq old.nat.exhaust zero_le)
      have lt: "lo1 < i" "lo2 < j" using r n by (auto simp: run_at_def)
      then have "eq (i - 1) (j - 1)" using r n by (simp add: run_at_def)
      then have "j - 1 \<in> fst ` set prev" using prev lt j by (auto simp: prev_ok_def)
      then show False using no lt by simp
    qed
    then show ?thesis using None j by (simp add: length_at_def longest_run_def run_at_one[unfolded One_nat_def])
  next
    case (Some p)
    then have p: "p \<in> set prev" "fst p + 1 = j" by (auto simp: find_Some_iff)
    then have lt: "lo1 < i" using prev by (auto simp: prev_ok_def split: if_splits)
    then have e: "lo2 \<le> fst p" "longest_run eq lo1 lo2 (i - 1) (fst p) (snd p)"
      using prev p by (auto simp: prev_ok_def lengths_ok_def)
    have lt2: "lo2 < j" "j - 1 = fst p" using e(1) p(2) by auto
    have "l \<le> snd p + 1" if "run_at eq lo1 lo2 i j l" for l
    proof (cases l)
      case (Suc n)
      then have "run_at eq lo1 lo2 (i - 1) (fst p) n" using that run_at_Suc[OF lt lt2(1), of eq n] lt2(2) by simp
      then show ?thesis using e(2) Suc by (simp add: longest_run_def)
    qed simp
    moreover have "run_at eq lo1 lo2 i j (Suc (snd p))"
      using run_at_Suc[OF lt lt2(1), of eq "snd p"] lt2(2) e(2) j(1) by (simp add: longest_run_def)
    ultimately show ?thesis using Some by (simp add: length_at_def longest_run_def)
  qed
  then show "longest_run eq lo1 lo2 i j (length_at prev j)" "0 < length_at prev j" by blast+
qed

lemma best_step_simps:
  "fst (best_step m i prev s j) = fst s @ [(j, length_at prev j)]"
  "bl_size (snd (best_step m i prev s j)) = max (bl_size (snd s)) (length_at prev j)"
  by (auto simp: best_step_def Let_def case_prod_beta)

lemma best_step_block:
  "(bl_i (snd (best_step m i prev s j)) = bl_i (snd s) \<and> bl_j (snd (best_step m i prev s j)) = bl_j (snd s) \<and>
      bl_size (snd (best_step m i prev s j)) = bl_size (snd s)) \<or>
   (bl_i (snd (best_step m i prev s j)) = i + 1 - length_at prev j \<and>
      bl_j (snd (best_step m i prev s j)) = j + 1 - length_at prev j \<and>
      bl_size (snd (best_step m i prev s j)) = length_at prev j)"
  by (auto simp: best_step_def Let_def case_prod_beta)

lemma block_ok_cong:
  "bl_i m = bl_i m' \<Longrightarrow> bl_j m = bl_j m' \<Longrightarrow> bl_size m = bl_size m' \<Longrightarrow>
    block_ok eq lo1 hi1 lo2 hi2 m = block_ok eq lo1 hi1 lo2 hi2 m'"
  by (simp add: block_ok_def)

definition inner_inv :: "(nat \<Rightarrow> nat \<Rightarrow> bool) \<Rightarrow> nat \<Rightarrow> nat \<Rightarrow> nat \<Rightarrow> nat \<Rightarrow> nat \<Rightarrow> (size \<times> size) list \<times> block \<Rightarrow> bool" where
  "inner_inv eq lo1 hi1 lo2 hi2 i s \<longleftrightarrow>
     block_ok eq lo1 hi1 lo2 hi2 (snd s) \<and> lengths_ok eq lo1 lo2 hi2 i (fst s) \<and>
     (\<forall>p \<in> set (fst s). snd p \<le> bl_size (snd s))"

lemma best_step_inv:
  assumes inv: "inner_inv eq lo1 hi1 lo2 hi2 i s" and prev: "prev_ok eq lo1 lo2 hi2 i prev"
    and j: "eq i j" "lo1 \<le> i" "i < hi1" "lo2 \<le> j" "j < hi2"
  shows "inner_inv eq lo1 hi1 lo2 hi2 i (best_step m i prev s j)"
proof -
  note len = length_at_longest[OF prev j(1,2,4,5)]
  have "block_ok eq lo1 hi1 lo2 hi2 (snd (best_step m i prev s j))"
    using best_step_block[of m i prev s j]
  proof
    assume "bl_i (snd (best_step m i prev s j)) = bl_i (snd s) \<and>
      bl_j (snd (best_step m i prev s j)) = bl_j (snd s) \<and> bl_size (snd (best_step m i prev s j)) = bl_size (snd s)"
    then show ?thesis using inv block_ok_cong[of "snd (best_step m i prev s j)" "snd s"] by (simp add: inner_inv_def)
  next
    assume "bl_i (snd (best_step m i prev s j)) = i + 1 - length_at prev j \<and>
      bl_j (snd (best_step m i prev s j)) = j + 1 - length_at prev j \<and>
      bl_size (snd (best_step m i prev s j)) = length_at prev j"
    then show ?thesis using run_block[of eq lo1 lo2 i j "length_at prev j"] len j by (simp add: longest_run_def)
  qed
  moreover have "lengths_ok eq lo1 lo2 hi2 i (fst (best_step m i prev s j))"
    using inv len j by (auto simp: inner_inv_def lengths_ok_def best_step_simps)
  moreover have "\<forall>p \<in> set (fst (best_step m i prev s j)). snd p \<le> bl_size (snd (best_step m i prev s j))"
    using inv by (auto simp: inner_inv_def best_step_simps)
  ultimately show ?thesis by (simp add: inner_inv_def)
qed

lemma best_steps_inv:
  assumes "inner_inv eq lo1 hi1 lo2 hi2 i s" "prev_ok eq lo1 lo2 hi2 i prev" "lo1 \<le> i" "i < hi1"
    and "\<forall>j \<in> set js. eq i j \<and> lo2 \<le> j \<and> j < hi2"
  shows "inner_inv eq lo1 hi1 lo2 hi2 i (foldl (best_step m i prev) s js)"
    "fst ` set (fst (foldl (best_step m i prev) s js)) = fst ` set (fst s) \<union> set js"
    "bl_size (snd s) \<le> bl_size (snd (foldl (best_step m i prev) s js))"
proof -
  have "inner_inv eq lo1 hi1 lo2 hi2 i (foldl (best_step m i prev) s js) \<and>
    fst ` set (fst (foldl (best_step m i prev) s js)) = fst ` set (fst s) \<union> set js \<and>
    bl_size (snd s) \<le> bl_size (snd (foldl (best_step m i prev) s js))"
    using assms
  proof (induction js arbitrary: s)
    case (Cons j js)
    have "inner_inv eq lo1 hi1 lo2 hi2 i (best_step m i prev s j)"
      by (rule best_step_inv[OF Cons.prems(1,2)]) (use Cons.prems in auto)
    from Cons.IH[OF this Cons.prems(2-4)] Cons.prems(5) show ?case by (simp add: best_step_simps)
  qed simp
  then show "inner_inv eq lo1 hi1 lo2 hi2 i (foldl (best_step m i prev) s js)"
    "fst ` set (fst (foldl (best_step m i prev) s js)) = fst ` set (fst s) \<union> set js"
    "bl_size (snd s) \<le> bl_size (snd (foldl (best_step m i prev) s js))" by blast+
qed

text \<open>The outer loop: before row \<open>i\<close>, the best block is a longest one among the blocks that end earlier.\<close>

definition outer_inv :: "(nat \<Rightarrow> nat \<Rightarrow> bool) \<Rightarrow> nat \<Rightarrow> nat \<Rightarrow> nat \<Rightarrow> nat \<Rightarrow> nat \<Rightarrow> (size \<times> size) list \<times> block \<Rightarrow> bool" where
  "outer_inv eq lo1 hi1 lo2 hi2 i s \<longleftrightarrow>
     block_ok eq lo1 hi1 lo2 hi2 (snd s) \<and> prev_ok eq lo1 lo2 hi2 i (fst s) \<and>
     (\<forall>k j l. lo1 \<le> k \<longrightarrow> k < i \<longrightarrow> j < hi2 \<longrightarrow> run_at eq lo1 lo2 k j l \<longrightarrow> l \<le> bl_size (snd s))"

lemma match_row_inv:
  assumes b: "by_row b" and eq: "eq = (\<lambda>i j. at_b b (lr_row (a ! i)) j)"
    and inv: "outer_inv eq lo1 hi1 lo2 hi2 i s" and i: "lo1 \<le> i" "i < hi1"
  shows "outer_inv eq lo1 hi1 lo2 hi2 (Suc i) (match_row m a b lo2 hi2 s i)"
proof -
  let ?js = "b_matches b (lr_row (a ! i)) lo2 hi2" and ?t = "match_row m a b lo2 hi2 s i"
  have js: "set ?js = {j. lo2 \<le> j \<and> j < hi2 \<and> eq i j}" using b_matches_set[OF b] by (simp add: eq)
  have start: "inner_inv eq lo1 hi1 lo2 hi2 i ([], snd s)"
    using inv by (simp add: inner_inv_def outer_inv_def lengths_ok_def)
  have prev: "prev_ok eq lo1 lo2 hi2 i (fst s)" using inv by (simp add: outer_inv_def)
  have "\<forall>j \<in> set ?js. eq i j \<and> lo2 \<le> j \<and> j < hi2" using js by auto
  note R = best_steps_inv[OF start prev i this, of m, folded match_row_def]
  have keys: "fst ` set (fst ?t) = {j. lo2 \<le> j \<and> j < hi2 \<and> eq i j}" using R(2) js by simp
  have "prev_ok eq lo1 lo2 hi2 (Suc i) (fst ?t)" using R(1) keys i by (simp add: prev_ok_def inner_inv_def)
  moreover have "l \<le> bl_size (snd ?t)" if h: "k < Suc i" "lo1 \<le> k" "j < hi2" "run_at eq lo1 lo2 k j l" for k j l
  proof (cases "k = i \<and> l \<noteq> 0")
    case True
    then have "eq i j" "lo2 \<le> j" using h(4) by (auto simp: run_at_def dest: spec[of _ 0])
    then have "j \<in> fst ` set (fst ?t)" using keys h(3) by auto
    then obtain p where p: "p \<in> set (fst ?t)" "fst p = j" by auto
    then have "longest_run eq lo1 lo2 i j (snd p)" "snd p \<le> bl_size (snd ?t)"
      using R(1) by (auto simp: inner_inv_def lengths_ok_def)
    then have "l \<le> snd p" using h(4) True unfolding longest_run_def by blast
    then show ?thesis using \<open>snd p \<le> bl_size (snd ?t)\<close> by simp
  next
    case False
    then have "l = 0 \<or> k < i" using h(1) by auto
    then have "l \<le> bl_size (snd s)" using inv h(2-4) by (auto simp: outer_inv_def)
    then show ?thesis using R(3) by simp
  qed
  ultimately show ?thesis using R(1) by (simp add: outer_inv_def inner_inv_def)
qed

theorem find_longest_match_spec:
  assumes b: "by_row b" and eq: "eq = (\<lambda>i j. at_b b (lr_row (a ! i)) j)" and le: "lo1 \<le> hi1" "lo2 \<le> hi2"
  shows "block_ok eq lo1 hi1 lo2 hi2 (find_longest_match m a b lo1 hi1 lo2 hi2)"
    "\<And>c. block_ok eq lo1 hi1 lo2 hi2 c \<Longrightarrow> bl_size c \<le> bl_size (find_longest_match m a b lo1 hi1 lo2 hi2)"
proof -
  let ?s0 = "([], \<lparr>bl_i = lo1, bl_j = lo2, bl_size = 0, bl_modified = 0\<rparr>)"
  have inv: "lo1 + k \<le> hi1 \<Longrightarrow>
    outer_inv eq lo1 hi1 lo2 hi2 (lo1 + k) (foldl (match_row m a b lo2 hi2) ?s0 [lo1..<lo1 + k])" for k
  proof (induction k)
    case 0
    then show ?case using le by (simp add: outer_inv_def block_ok_def prev_ok_def)
  next
    case (Suc k)
    then show ?case using match_row_inv[OF b eq, of lo1 hi1 lo2 hi2 "lo1 + k"] by simp
  qed
  from inv[of "hi1 - lo1"] have R: "outer_inv eq lo1 hi1 lo2 hi2 hi1 (foldl (match_row m a b lo2 hi2) ?s0 [lo1..<hi1])"
    using le by simp
  then show "block_ok eq lo1 hi1 lo2 hi2 (find_longest_match m a b lo1 hi1 lo2 hi2)"
    by (simp add: outer_inv_def find_longest_match_def)
  fix c assume c: "block_ok eq lo1 hi1 lo2 hi2 c"
  show "bl_size c \<le> bl_size (find_longest_match m a b lo1 hi1 lo2 hi2)"
  proof (cases "bl_size c = 0")
    case False
    then have "run_at eq lo1 lo2 (bl_i c + bl_size c - 1) (bl_j c + bl_size c - 1) (bl_size c)"
      using block_run[OF c] by simp
    moreover have "lo1 \<le> bl_i c + bl_size c - 1" "bl_i c + bl_size c - 1 < hi1" "bl_j c + bl_size c - 1 < hi2"
      using c False by (auto simp: block_ok_def)
    ultimately show ?thesis using R by (auto simp: outer_inv_def find_longest_match_def)
  qed simp
qed

end
