(* ===== verification/Change_Calculate_Unsorted.thy ===== *)
theory Change_Calculate_Unsorted
  imports Change_Calculate_Rows
begin

text \<open>
  The pass for unsorted queries: as long as every row that may have moved forward is named as a
  candidate, what it reports turns the old list into the new one.
\<close>

section \<open>What the caller promises\<close>

text \<open>
  A row that is not a candidate keeps its place: no row behind it in the new list stood before it in
  the old one.  When rows only move by \<open>move_last_over\<close>, which moves a row to the front, naming the
  moved rows is enough.
\<close>

definition candidates_cover :: "crv \<Rightarrow> size list \<Rightarrow> size list \<Rightarrow> bool" where
  "candidates_cover cands prev next \<longleftrightarrow>
     (\<forall>t < length next. \<forall>s < t. \<forall>p < length prev. \<forall>q < length prev.
        prev ! p = next ! s \<longrightarrow> prev ! q = next ! t \<longrightarrow> \<not> contains cands (next ! s) \<longrightarrow> p < q)"

section \<open>Counting\<close>

lemma row_match_tv_below:
  assumes "row_match prev next gone ins (acc @ r # rest)"
  shows "- idx ins \<inter> {..<ri_tv r} = ri_tv ` set acc"
proof (intro equalityI subsetI)
  note M = row_matchD[OF assms]
  have lt: "\<forall>u \<in> set acc. ri_tv u < ri_tv r" "\<forall>u \<in> set rest. ri_tv r < ri_tv u"
    using M(1) by (simp_all add: sorted_wrt_append)
  fix x
  {
    assume "x \<in> - idx ins \<inter> {..<ri_tv r}"
    moreover have "ri_tv r < length next" using M(8) by simp
    ultimately have "x \<in> ri_tv ` set (acc @ r # rest)" "x < ri_tv r" using M(6) by auto
    then show "x \<in> ri_tv ` set acc" using lt(2) by auto
  next
    assume "x \<in> ri_tv ` set acc"
    then show "x \<in> - idx ins \<inter> {..<ri_tv r}" using lt(1) M(6) by auto
  }
qed

lemma row_match_rank:
  assumes "row_match prev next gone ins (acc @ r # rest)"
  shows "ri_tv r - count ins 0 (ri_tv r) = length acc"
proof -
  note M = row_matchD[OF assms]
  have "distinct (map ri_tv acc)" using M(1) by (simp add: sorted_wrt_append strict_sorted_iff)
  then have "card (ri_tv ` set acc) = length acc" by (metis distinct_card length_map set_map)
  moreover have "ri_tv r - card (idx ins \<inter> {..<ri_tv r}) = card (- idx ins \<inter> {..<ri_tv r})"
    using rank_outside_compl[of "idx ins" "ri_tv r"] by (simp add: rank_outside_def)
  ultimately show ?thesis by (simp add: count_zero_spec[OF M(4)] row_match_tv_below[OF assms])
qed

lemma row_match_shifted:
  assumes "row_match prev next gone ins (acc @ r # rest)" "\<forall>u \<in> set acc. ri_prev u < ri_prev r"
  shows "ri_shifted r = length acc + count gone 0 (ri_prev r) + card (ri_prev ` set rest \<inter> {..<ri_prev r})"
proof -
  note M = row_matchD[OF assms(1)]
  let ?b = "{..<ri_prev r}" and ?A = "ri_prev ` set acc" and ?R = "ri_prev ` set rest"
  have d: "?A \<inter> ?R = {}" "distinct (map ri_prev acc)" using M(2) by auto
  have "live prev \<inter> ?b = ?A \<union> (idx gone \<inter> ?b \<union> ?R \<inter> ?b)"
    using M(5,7) assms(2) by auto
  moreover have "?A \<inter> (idx gone \<inter> ?b \<union> ?R \<inter> ?b) = {}" using d M(5) by auto
  moreover have "idx gone \<inter> ?b \<inter> (?R \<inter> ?b) = {}" using M(5) by auto
  ultimately have "card (live prev \<inter> ?b) = card ?A + (card (idx gone \<inter> ?b) + card (?R \<inter> ?b))"
    by (simp add: card_Un_disjoint)
  moreover have "card ?A = length acc" using d(2) by (metis distinct_card length_map set_map)
  ultimately show ?thesis using M(11)[of r] by (simp add: count_zero_spec[OF M(3)])
qed

section \<open>The loop\<close>

definition accepted_before :: "row_info list \<Rightarrow> row_info list \<Rightarrow> bool" where
  "accepted_before acc rest \<longleftrightarrow>
     sorted_wrt (\<lambda>r u. ri_prev r < ri_prev u) acc \<and> (\<forall>r \<in> set acc. \<forall>u \<in> set rest. ri_prev r < ri_prev u)"

definition expected_after :: "row_info list \<Rightarrow> size" where
  "expected_after acc = (if acc = [] then 0 else ri_shifted (last acc) + 1)"

lemma accepted_before_snoc:
  "accepted_before (acc @ [r]) rest \<longleftrightarrow> accepted_before acc (r # rest) \<and> (\<forall>u \<in> set rest. ri_prev r < ri_prev u)"
  by (auto simp: accepted_before_def sorted_wrt_append)

lemma accepted_before_skip: "accepted_before acc (r # rest) \<Longrightarrow> accepted_before acc rest"
  by (simp add: accepted_before_def)

lemma shifted_less:
  assumes "row_match prev next gone ins rows" "r \<in> set rows" "u \<in> set rows" "ri_prev u < ri_prev r"
  shows "ri_shifted u < ri_shifted r"
proof -
  note M = row_matchD[OF assms(1)]
  have "live prev \<inter> {..<ri_prev u} \<subset> live prev \<inter> {..<ri_prev r}"
    using M(7)[OF assms(3)] assms(4) by auto
  then show ?thesis using M(11) assms(2,3) by (simp add: psubset_card_mono)
qed

lemma distinct_prev_later:
  assumes "row_match prev next gone ins (acc @ r # rest)" "u \<in> set rest" "\<not> ri_prev u < ri_prev r"
  shows "ri_prev r < ri_prev u"
proof -
  have "ri_prev r \<notin> ri_prev ` set rest" using row_matchD(2)[OF assms(1)] by simp
  then have "ri_prev u \<noteq> ri_prev r" using assms(2) by (metis imageI)
  then show ?thesis using assms(3) by simp
qed

text \<open>The three ways in which a row is accepted where it stands.\<close>

lemma expected_is_next:
  assumes M: "row_match prev next gone ins (acc @ r # rest)" and a: "accepted_before acc (r # rest)"
    and e: "ri_shifted r = expected_after acc" and u: "u \<in> set rest"
  shows "ri_prev r < ri_prev u"
proof (rule distinct_prev_later[OF M u], rule notI)
  assume "ri_prev u < ri_prev r"
  then have lt: "ri_shifted u < ri_shifted r" using shifted_less[OF M, of r u] u by simp
  then have ne: "acc \<noteq> []" using e by (auto simp: expected_after_def)
  then have "ri_prev (last acc) < ri_prev u" using a u by (simp add: accepted_before_def)
  then have "ri_shifted (last acc) < ri_shifted u" using shifted_less[OF M, of u "last acc"] u ne by simp
  then show False using lt e ne by (simp add: expected_after_def)
qed

lemma non_candidate_is_next:
  assumes M: "row_match prev next gone ins (acc @ r # rest)" and h: "candidates_cover cands prev next"
    and c: "\<not> contains cands (ri_row r)" and u: "u \<in> set rest"
  shows "ri_prev r < ri_prev u"
proof -
  note m = row_matchD[OF M]
  have "ri_tv r < ri_tv u" using m(1) u by (simp add: sorted_wrt_append)
  moreover have "ri_tv u < length next" "next ! ri_tv u = ri_row u" "prev ! ri_prev u = ri_row u"
    "ri_prev u < length prev" using m(7-10)[of u] u by (simp_all add: live_def)
  moreover have "next ! ri_tv r = ri_row r" "prev ! ri_prev r = ri_row r" "ri_prev r < length prev"
    using m(7-10)[of r] by (simp_all add: live_def)
  ultimately show ?thesis using h c unfolding candidates_cover_def by metis
qed

lemma calculated_is_next:
  assumes M: "row_match prev next gone ins (acc @ r # rest)" and a: "accepted_before acc (r # rest)"
    and e: "ri_shifted r = ri_tv r - count ins 0 (ri_tv r) + count gone 0 (ri_prev r)" and u: "u \<in> set rest"
  shows "ri_prev r < ri_prev u"
proof (rule distinct_prev_later[OF M u])
  have "\<forall>v \<in> set acc. ri_prev v < ri_prev r" using a by (simp add: accepted_before_def)
  from row_match_shifted[OF M this] have "card (ri_prev ` set rest \<inter> {..<ri_prev r}) = 0"
    using e row_match_rank[OF M] by simp
  then have "ri_prev ` set rest \<inter> {..<ri_prev r} = {}" by simp
  then show "\<not> ri_prev u < ri_prev r" using u by auto
qed

text \<open>A row that is reported as a move leaves the matched rows.\<close>

lemma row_match_moved:
  assumes "row_match prev next gone ins (acc @ r # rest)"
  shows "row_match prev next (add gone (ri_prev r)) (add ins (ri_tv r)) (acc @ rest)"
proof -
  note M = row_matchD[OF assms]
  have "ri_prev r \<notin> ri_prev ` set (acc @ rest)" using M(2) by auto
  moreover have "ri_prev r \<in> live prev" using M(7) by simp
  ultimately have "insert (ri_prev r) (live prev - ri_prev ` set (acc @ r # rest)) = live prev - ri_prev ` set (acc @ rest)"
    by auto
  moreover have "distinct (map ri_tv (acc @ r # rest))" using M(1) by (simp add: strict_sorted_iff)
  then have "ri_tv r \<notin> ri_tv ` set (acc @ rest)" by auto
  then have "insert (ri_tv r) ({..<length next} - ri_tv ` set (acc @ r # rest)) = {..<length next} - ri_tv ` set (acc @ rest)"
    using M(8)[of r] by auto
  moreover have "sorted_wrt (<) (map ri_tv (acc @ rest))" using M(1) by (simp add: sorted_wrt_append)
  moreover have "distinct (map ri_prev (acc @ rest))" using M(2) by simp
  moreover have "\<forall>u \<in> set (acc @ rest). ri_prev u \<in> live prev \<and> ri_tv u < length next \<and>
      prev ! ri_prev u = ri_row u \<and> next ! ri_tv u = ri_row u \<and> ri_shifted u = card (live prev \<inter> {..<ri_prev u})"
    using M(7-11) by simp
  moreover note add_spec[OF M(3)] add_spec[OF M(4)]
  ultimately show ?thesis unfolding row_match_def by (simp add: M(5,6))
qed

definition loop_inv :: "size list \<Rightarrow> size list \<Rightarrow> change_builder \<Rightarrow> row_info list \<Rightarrow> row_info list \<Rightarrow>
    size \<times> crv \<times> change_builder \<Rightarrow> bool" where
  "loop_inv prev next c0 acc rest s \<longleftrightarrow>
     (let (expected, gone, c) = s in
      row_match prev next gone (insertions c) (acc @ rest) \<and> accepted_before acc rest \<and>
      expected = expected_after acc \<and> moves_ok (moves c) (idx gone) (idx (insertions c)) prev next \<and>
      c = c0\<lparr>moves := moves c, insertions := insertions c\<rparr>)"

lemma loop_inv_accept:
  assumes "loop_inv prev next c0 acc (r # rest) (e, gone, c)" "\<And>u. u \<in> set rest \<Longrightarrow> ri_prev r < ri_prev u"
  shows "loop_inv prev next c0 (acc @ [r]) rest (ri_shifted r + 1, gone, c)"
  using assms by (simp add: loop_inv_def accepted_before_snoc expected_after_def)

lemma moves_ok_record:
  assumes "moves_ok mv D I xs ys" "d \<notin> D" "i \<notin> I" "xs ! d = ys ! i"
  shows "moves_ok (mv @ [\<lparr>m_from = d, m_to = i\<rparr>]) (insert d D) (insert i I) xs ys"
proof -
  have "d \<notin> m_from ` set mv" "i \<notin> m_to ` set mv" using assms(1-3) by (auto simp: moves_ok_def)
  then show ?thesis using assms(1,4) by (auto simp: moves_ok_def)
qed

lemma loop_inv_move:
  assumes "loop_inv prev next c0 acc (r # rest) (e, gone, c)"
  shows "loop_inv prev next c0 acc rest (e, add gone (ri_prev r),
    c\<lparr>moves := moves c @ [\<lparr>m_from = ri_prev r, m_to = ri_tv r\<rparr>], insertions := add (insertions c) (ri_tv r)\<rparr>)"
proof -
  have M: "row_match prev next gone (insertions c) (acc @ r # rest)"
    and a: "accepted_before acc (r # rest)" "e = expected_after acc"
    and mv: "moves_ok (moves c) (idx gone) (idx (insertions c)) prev next"
    and c: "c = c0\<lparr>moves := moves c, insertions := insertions c\<rparr>"
    using assms by (simp_all add: loop_inv_def)
  note m = row_matchD[OF M]
  have "ri_prev r \<notin> idx gone" "ri_tv r \<notin> idx (insertions c)" "prev ! ri_prev r = next ! ri_tv r"
    using m(5,6,9,10) by auto
  note mv' = moves_ok_record[OF mv this]
  have "c\<lparr>moves := x, insertions := y\<rparr> = c0\<lparr>moves := x, insertions := y\<rparr>" for x y
    by (subst c) simp
  then show ?thesis
    using row_match_moved[OF M] accepted_before_skip[OF a(1)] a(2) mv'
    by (simp add: loop_inv_def add_spec[OF m(3)] add_spec[OF m(4)])
qed

lemma loop_inv_step:
  assumes inv: "loop_inv prev next c0 acc (r # rest) s" and h: "candidates_cover cands prev next"
  shows "\<exists>acc'. loop_inv prev next c0 acc' rest (unsorted_step cands s r)"
proof -
  obtain e gone c where s: "s = (e, gone, c)" by (cases s)
  note inv' = inv[unfolded s]
  have M: "row_match prev next gone (insertions c) (acc @ r # rest)" and a: "accepted_before acc (r # rest)"
    and e: "e = expected_after acc" using inv' by (simp_all add: loop_inv_def)
  let ?calc = "ri_tv r - count (insertions c) 0 (ri_tv r) + count gone 0 (ri_prev r)"
  consider "ri_shifted r = e" | "ri_shifted r \<noteq> e" "\<not> contains cands (ri_row r)"
    | "ri_shifted r \<noteq> e" "contains cands (ri_row r)" "ri_shifted r = ?calc"
    | "ri_shifted r \<noteq> e" "contains cands (ri_row r)" "ri_shifted r \<noteq> ?calc" by blast
  then show ?thesis
  proof cases
    case 1
    have "loop_inv prev next c0 (acc @ [r]) rest (ri_shifted r + 1, gone, c)"
      by (rule loop_inv_accept[OF inv']) (rule expected_is_next[OF M a], use 1 e in simp_all)
    then show ?thesis using 1 by (auto simp: s unsorted_step_def)
  next
    case 2
    have "loop_inv prev next c0 (acc @ [r]) rest (ri_shifted r + 1, gone, c)"
      by (rule loop_inv_accept[OF inv']) (rule non_candidate_is_next[OF M h 2(2)])
    then show ?thesis using 2 by (auto simp: s unsorted_step_def)
  next
    case 3
    have "loop_inv prev next c0 (acc @ [r]) rest (ri_shifted r + 1, gone, c)"
      by (rule loop_inv_accept[OF inv']) (rule calculated_is_next[OF M a 3(3)])
    then show ?thesis using 3 by (auto simp: s unsorted_step_def Let_def)
  next
    case 4
    then show ?thesis using loop_inv_move[OF inv'] by (auto simp: s unsorted_step_def Let_def)
  qed
qed

lemma loop_inv_all:
  assumes "loop_inv prev next c0 acc rest s" "candidates_cover cands prev next"
  shows "\<exists>acc'. loop_inv prev next c0 acc' [] (foldl (unsorted_step cands) s rest)"
  using assms
proof (induction rest arbitrary: acc s)
  case (Cons r rest)
  obtain acc' where "loop_inv prev next c0 acc' rest (unsorted_step cands s r)"
    using loop_inv_step[OF Cons.prems] by blast
  then show ?case using Cons.IH Cons.prems(2) by simp
qed auto

section \<open>The pass\<close>

lemma row_match_edit:
  assumes "row_match prev next gone ins rows" "sorted_wrt (\<lambda>r u. ri_prev r < ri_prev u) rows"
    and "idx del = {..<length prev} - live prev"
  shows "applies (idx del \<union> idx gone) (idx ins) prev next"
proof (rule applies_kept)
  note M = row_matchD[OF assms(1)]
  have l: "live prev \<subseteq> {..<length prev}" by (auto simp: live_def)
  show "sorted_wrt (<) (map ri_prev rows)" using assms(2) by (simp add: sorted_wrt_map)
  show "sorted_wrt (<) (map ri_tv rows)" by (rule M(1))
  show "set (map ri_prev rows) = {..<length prev} - (idx del \<union> idx gone)"
    using M(5,7) l assms(3) by auto
  show "set (map ri_tv rows) = {..<length next} - idx ins" using M(6,8) by auto
  show "idx del \<union> idx gone \<subseteq> {..<length prev}" using M(5) l assms(3) by auto
  show "idx ins \<subseteq> {..<length next}" using M(6) by auto
  show "map ((!) prev) (map ri_prev rows) = map ((!) next) (map ri_tv rows)" using M(9,10) by simp
qed

lemma moves_ok_mono: "moves_ok mv D I xs ys \<Longrightarrow> D \<subseteq> D' \<Longrightarrow> moves_ok mv D' I xs ys"
  by (auto simp: moves_ok_def)

lemma calculate_unsorted:
  assumes "row_match prev next gone ins rows" "candidates_cover cands prev next"
    and "wf del" "idx del = {..<length prev} - live prev" "wf mods"
  shows "\<exists>gone' c. calculate_moves_unsorted rows gone cands (unmoved del ins mods) = (gone', c) \<and>
    tracks (c\<lparr>deletions := add_set (deletions c) gone'\<rparr>) prev next \<and> modifications c = mods"
proof -
  let ?c0 = "unmoved del ins mods"
  have c0: "insertions ?c0 = ins" "moves ?c0 = []" "deletions ?c0 = del" "modifications ?c0 = mods"
    "modifications_new ?c0 = []" "columns ?c0 = []" "move_mapping ?c0 = []"
    by (simp_all add: unmoved_def empty_builder_def)
  have "loop_inv prev next ?c0 [] rows (0, gone, ?c0)"
    using assms(1) by (simp add: loop_inv_def accepted_before_def expected_after_def moves_ok_def c0)
  then obtain acc where "loop_inv prev next ?c0 acc [] (foldl (unsorted_step cands) (0, gone, ?c0) rows)"
    using loop_inv_all assms(2) by blast
  moreover obtain e gone' c where f: "foldl (unsorted_step cands) (0, gone, ?c0) rows = (e, gone', c)"
    by (cases "foldl (unsorted_step cands) (0, gone, ?c0) rows")
  ultimately have M: "row_match prev next gone' (insertions c) acc"
    and a: "sorted_wrt (\<lambda>r u. ri_prev r < ri_prev u) acc"
    and mv: "moves_ok (moves c) (idx gone') (idx (insertions c)) prev next"
    and c: "c = ?c0\<lparr>moves := moves c, insertions := insertions c\<rparr>"
    by (simp_all add: loop_inv_def accepted_before_def)
  have g: "wf gone'" "wf (insertions c)" by (rule row_matchD(3,4)[OF M])+
  have f': "deletions c = del" "modifications c = mods" "modifications_new c = []" "columns c = []" "move_mapping c = []"
    using arg_cong[OF c, of deletions] arg_cong[OF c, of modifications] arg_cong[OF c, of modifications_new]
      arg_cong[OF c, of columns] arg_cong[OF c, of move_mapping] c0 by simp_all
  have "tracks (c\<lparr>deletions := add_set (deletions c) gone'\<rparr>) prev next"
    using row_match_edit[OF M a assms(4)] moves_ok_mono[OF mv, of "idx del \<union> idx gone'"] g assms(3,5)
    by (simp add: tracks_def cb_ok_def f' ixb.ok_put_set ixb.members_put_set)
  then show ?thesis using f by (auto simp: calculate_moves_unsorted_def f')
qed

end
