(* ===== verification/Change_Calculate_Sorted.thy ===== *)
theory Change_Calculate_Sorted
  imports Change_Calculate_Blocks Change_Calculate_Unsorted
begin

text \<open>
  The pass for sorted queries: the blocks that were found ascend on both sides, so that reporting
  every row outside them as deleted and inserted again turns the old list into the new one.
\<close>

section \<open>Ascending blocks\<close>

fun chain :: "(nat \<Rightarrow> nat \<Rightarrow> bool) \<Rightarrow> nat \<Rightarrow> nat \<Rightarrow> nat \<Rightarrow> nat \<Rightarrow> block list \<Rightarrow> bool" where
  "chain eq i j i' j' [] \<longleftrightarrow> i \<le> i' \<and> j \<le> j'"
| "chain eq i j i' j' (m # ms) \<longleftrightarrow>
     i \<le> bl_i m \<and> j \<le> bl_j m \<and> (\<forall>k < bl_size m. eq (bl_i m + k) (bl_j m + k)) \<and>
     chain eq (bl_i m + bl_size m) (bl_j m + bl_size m) i' j' ms"

lemma chain_le: "chain eq i j i' j' ms \<Longrightarrow> i \<le> i' \<and> j \<le> j'"
  by (induction ms arbitrary: i j) force+

lemma chain_weaken: "chain eq i j i' j' ms \<Longrightarrow> i0 \<le> i \<Longrightarrow> j0 \<le> j \<Longrightarrow> chain eq i0 j0 i' j' ms"
  by (cases ms) auto

lemma chain_append:
  "chain eq i j i1 j1 ms \<Longrightarrow> chain eq i1 j1 i' j' ns \<Longrightarrow> chain eq i j i' j' (ms @ ns)"
  by (induction ms arbitrary: i j) (auto intro: chain_weaken)

lemma find_longest_matches_chain:
  assumes "by_row b" "begin1 \<le> end1" "begin2 \<le> end2"
  shows "chain (\<lambda>i j. at_b b (lr_row (a ! i)) j) begin1 begin2 end1 end2
    (find_longest_matches m a b begin1 end1 begin2 end2)"
  using assms
proof (induction m a b begin1 end1 begin2 end2 rule: find_longest_matches.induct)
  case (1 m a b begin1 end1 begin2 end2)
  let ?eq = "\<lambda>i j. at_b b (lr_row (a ! i)) j" and ?m = "find_longest_match m a b begin1 end1 begin2 end2"
  have ok: "block_ok ?eq begin1 end1 begin2 end2 ?m"
    by (rule find_longest_match_spec(1)[OF 1(3) refl 1(4,5)])
  show ?case
  proof (cases "bl_size ?m = 0")
    case True
    then show ?thesis using 1(4,5) by (simp add: find_longest_matches.simps[of m a b begin1])
  next
    case False
    let ?L = "if begin1 < bl_i ?m \<and> begin2 < bl_j ?m
      then find_longest_matches m a b begin1 (bl_i ?m) begin2 (bl_j ?m) else []"
    let ?R = "if bl_i ?m + bl_size ?m < end2 \<and> bl_j ?m + bl_size ?m < end2
      then find_longest_matches m a b (bl_i ?m + bl_size ?m) end1 (bl_j ?m + bl_size ?m) end2 else []"
    have "chain ?eq begin1 begin2 (bl_i ?m) (bl_j ?m) ?L"
      using 1(1)[OF refl False _ 1(3)] ok by (auto simp: block_ok_def)
    moreover have "chain ?eq (bl_i ?m + bl_size ?m) (bl_j ?m + bl_size ?m) end1 end2 ?R"
      using 1(2)[OF refl False _ 1(3)] ok by (auto simp: block_ok_def)
    then have "chain ?eq (bl_i ?m) (bl_j ?m) end1 end2 (?m # ?R)" using ok by (simp add: block_ok_def)
    ultimately have "chain ?eq begin1 begin2 end1 end2 (?L @ ?m # ?R)" by (rule chain_append)
    then show ?thesis using False by (simp add: find_longest_matches.simps[of m a b begin1] Let_def)
  qed
qed

section \<open>What is kept\<close>

fun kept :: "(block \<Rightarrow> nat) \<Rightarrow> block list \<Rightarrow> nat list" where
  "kept side [] = []"
| "kept side (m # ms) = [side m..<side m + bl_size m] @ kept side ms"

lemma kept_append: "kept side (ms @ ns) = kept side ms @ kept side ns"
  by (induction ms) simp_all

lemma kept_range:
  assumes "chain eq i j i' j' ms"
  shows "set (kept bl_i ms) \<subseteq> {i..<i'}" "set (kept bl_j ms) \<subseteq> {j..<j'}"
    "sorted_wrt (<) (kept bl_i ms)" "sorted_wrt (<) (kept bl_j ms)"
proof -
  have "set (kept bl_i ms) \<subseteq> {i..<i'} \<and> set (kept bl_j ms) \<subseteq> {j..<j'} \<and>
    sorted_wrt (<) (kept bl_i ms) \<and> sorted_wrt (<) (kept bl_j ms)"
    using assms
  proof (induction ms arbitrary: i j)
    case (Cons m ms)
    let ?i = "bl_i m + bl_size m" and ?j = "bl_j m + bl_size m"
    have c: "chain eq ?i ?j i' j' ms" "i \<le> bl_i m" "j \<le> bl_j m" using Cons.prems by simp_all
    then have le: "?i \<le> i'" "?j \<le> j'" using chain_le by auto
    note ih = Cons.IH[OF c(1)]
    then have sub: "set (kept bl_i ms) \<subseteq> {?i..<i'}" "set (kept bl_j ms) \<subseteq> {?j..<j'}" by blast+
    have "set (kept bl_i (m # ms)) \<subseteq> {i..<i'}" "set (kept bl_j (m # ms)) \<subseteq> {j..<j'}"
      using sub le c(2,3) by (auto dest!: subsetD)
    moreover have "sorted_wrt (<) (kept bl_i (m # ms))" "sorted_wrt (<) (kept bl_j (m # ms))"
      using ih sub by (fastforce simp: sorted_wrt_append)+
    ultimately show ?case by blast
  qed simp
  then show "set (kept bl_i ms) \<subseteq> {i..<i'}" "set (kept bl_j ms) \<subseteq> {j..<j'}"
    "sorted_wrt (<) (kept bl_i ms)" "sorted_wrt (<) (kept bl_j ms)" by blast+
qed

lemma map_upt_shift: "map f [i..<i + n] = map (\<lambda>k. f (i + k)) [0..<n]"
  by (rule nth_equalityI) simp_all

lemma kept_rows:
  assumes "chain eq i j i' j' ms" "\<And>k l. eq k l \<Longrightarrow> f k = g l"
  shows "map f (kept bl_i ms) = map g (kept bl_j ms)"
  using assms(1)
proof (induction ms arbitrary: i j)
  case (Cons m ms)
  then have "map (\<lambda>k. f (bl_i m + k)) [0..<bl_size m] = map (\<lambda>k. g (bl_j m + k)) [0..<bl_size m]"
    using assms(2) by simp
  moreover have "map f (kept bl_i ms) = map g (kept bl_j ms)" using Cons by (metis chain.simps(2))
  ultimately show ?case by (simp add: map_upt_shift)
qed simp

section \<open>Reporting the rest\<close>

lemma gap_split:
  fixes x y z b :: nat
  assumes "S \<subseteq> {y..<z}" "x \<le> b" "b \<le> y" "y \<le> z"
  shows "{x..<z} - ({b..<y} \<union> S) = {x..<b} \<union> ({y..<z} - S)"
proof (intro set_eqI iffI)
  fix k assume "k \<in> {x..<z} - ({b..<y} \<union> S)"
  then show "k \<in> {x..<b} \<union> ({y..<z} - S)" by auto
next
  fix k assume "k \<in> {x..<b} \<union> ({y..<z} - S)"
  moreover have "k \<notin> S" if "k < b" using that assms(1,3) by auto
  ultimately show "k \<in> {x..<z} - ({b..<y} \<union> S)" using assms(2-4) by auto
qed

lemma align_matches_spec:
  assumes "chain eq i j i' j' ms" "last ms = \<lparr>bl_i = i', bl_j = j', bl_size = 0, bl_modified = n\<rparr>" "ms \<noteq> []"
    and "wf (deletions c)" "wf (insertions c)"
  shows "\<exists>D I. align_matches a rows i j ms c = c\<lparr>deletions := D, insertions := I\<rparr> \<and> wf D \<and> wf I \<and>
    idx D = idx (deletions c) \<union> (\<lambda>k. lr_tv (a ! k)) ` ({i..<i'} - set (kept bl_i ms)) \<and>
    idx I = idx (insertions c) \<union> (\<lambda>k. ri_tv (rows ! k)) ` ({j..<j'} - set (kept bl_j ms))"
  using assms
proof (induction ms arbitrary: i j c)
  case (Cons m ms)
  let ?D = "add_all (deletions c) (map (\<lambda>k. lr_tv (a ! k)) [i..<bl_i m])"
  let ?I = "add_all (insertions c) (map (\<lambda>k. ri_tv (rows ! k)) [j..<bl_j m])"
  let ?c = "c\<lparr>deletions := ?D, insertions := ?I\<rparr>" and ?i = "bl_i m + bl_size m" and ?j = "bl_j m + bl_size m"
  have ch: "chain eq ?i ?j i' j' ms" "i \<le> bl_i m" "j \<le> bl_j m" using Cons.prems(1) by simp_all
  have step: "align_matches a rows i j (m # ms) c = align_matches a rows ?i ?j ms ?c"
    using ch(2,3) by (simp add: max_absorb2)
  have D: "wf ?D" "idx ?D = idx (deletions c) \<union> (\<lambda>k. lr_tv (a ! k)) ` {i..<bl_i m}"
    and I: "wf ?I" "idx ?I = idx (insertions c) \<union> (\<lambda>k. ri_tv (rows ! k)) ` {j..<bl_j m}"
    using add_all_spec Cons.prems(4,5) by simp_all
  show ?case
  proof (cases "ms = []")
    case True
    then have m: "m = \<lparr>bl_i = i', bl_j = j', bl_size = 0, bl_modified = n\<rparr>" using Cons.prems(2) by simp
    show ?thesis unfolding step using True D I m by auto
  next
    case False
    have "\<exists>D' I'. align_matches a rows ?i ?j ms ?c = ?c\<lparr>deletions := D', insertions := I'\<rparr> \<and> wf D' \<and> wf I' \<and>
      idx D' = idx (deletions ?c) \<union> (\<lambda>k. lr_tv (a ! k)) ` ({?i..<i'} - set (kept bl_i ms)) \<and>
      idx I' = idx (insertions ?c) \<union> (\<lambda>k. ri_tv (rows ! k)) ` ({?j..<j'} - set (kept bl_j ms))"
      by (rule Cons.IH[OF ch(1)]) (use Cons.prems(2) False D I in simp_all)
    then obtain D' I' where R: "align_matches a rows ?i ?j ms ?c = ?c\<lparr>deletions := D', insertions := I'\<rparr>"
      "wf D'" "wf I'"
      "idx D' = idx (deletions ?c) \<union> (\<lambda>k. lr_tv (a ! k)) ` ({?i..<i'} - set (kept bl_i ms))"
      "idx I' = idx (insertions ?c) \<union> (\<lambda>k. ri_tv (rows ! k)) ` ({?j..<j'} - set (kept bl_j ms))"
      by (elim exE conjE)
    have le: "?i \<le> i'" "?j \<le> j'" using chain_le[OF ch(1)] by auto
    have k: "set (kept bl_i ms) \<subseteq> {?i..<i'}" "set (kept bl_j ms) \<subseteq> {?j..<j'}" by (rule kept_range[OF ch(1)])+
    have gi: "{i..<i'} - set (kept bl_i (m # ms)) = {i..<bl_i m} \<union> ({?i..<i'} - set (kept bl_i ms))"
      using gap_split[OF k(1) ch(2)] le by simp
    have gj: "{j..<j'} - set (kept bl_j (m # ms)) = {j..<bl_j m} \<union> ({?j..<j'} - set (kept bl_j ms))"
      using gap_split[OF k(2) ch(3)] le by simp
    have "align_matches a rows i j (m # ms) c = c\<lparr>deletions := D', insertions := I'\<rparr>"
      unfolding step R(1) by simp
    moreover have "idx D' = idx (deletions c) \<union> (\<lambda>k. lr_tv (a ! k)) ` ({i..<i'} - set (kept bl_i (m # ms)))"
      unfolding gi image_Un R(4) using D(2) by (simp add: Un_assoc)
    moreover have "idx I' = idx (insertions c) \<union> (\<lambda>k. ri_tv (rows ! k)) ` ({j..<j'} - set (kept bl_j (m # ms)))"
      unfolding gj image_Un R(5) using I(2) by (simp add: Un_assoc)
    ultimately show ?thesis using R(2,3) by blast
  qed
qed simp

section \<open>The two orders\<close>

lemma distinct_map_sort_key: "distinct (map g (sort_key f xs)) = distinct (map g xs)"
  by (simp only: distinct_map set_sort distinct_sort)

lemma old_order_facts:
  assumes "row_match prev next gone ins rows"
  shows "length (old_order rows) = length rows"
    "sorted_wrt (<) (map lr_tv (old_order rows))"
    "lr_tv ` set (old_order rows) = ri_prev ` set rows"
    "\<And>r. r \<in> set (old_order rows) \<Longrightarrow> prev ! lr_tv r = lr_row r"
proof -
  note M = row_matchD[OF assms]
  let ?xs = "map (\<lambda>r. \<lparr>lr_row = ri_row r, lr_tv = ri_prev r\<rparr>) rows"
  show "length (old_order rows) = length rows" by (simp add: old_order_def)
  have "sorted (map (\<lambda>r. (lr_tv r, lr_row r)) (old_order rows))" unfolding old_order_def by (rule sorted_sort_key)
  then have "sorted (map lr_tv (old_order rows))" unfolding sorted_iff_nth_mono
    by (auto simp: less_eq_prod_def) (metis order_refl less_imp_le)+
  moreover have "distinct (map lr_tv ?xs)" using M(2) by (simp add: comp_def)
  then have "distinct (map lr_tv (old_order rows))" unfolding old_order_def by (simp only: distinct_map_sort_key)
  ultimately show "sorted_wrt (<) (map lr_tv (old_order rows))" by (simp add: strict_sorted_iff)
  show "lr_tv ` set (old_order rows) = ri_prev ` set rows" by (simp add: old_order_def image_image)
  show "prev ! lr_tv r = lr_row r" if "r \<in> set (old_order rows)" for r
    using that M(9) by (auto simp: old_order_def)
qed

lemma new_by_row_facts:
  "length (new_by_row rows) = length rows" "by_row (new_by_row rows)"
  "at_b (new_by_row rows) row j \<longleftrightarrow> j < length rows \<and> ri_row (rows ! j) = row"
proof -
  show "length (new_by_row rows) = length rows" by (simp add: new_by_row_def)
  show "by_row (new_by_row rows)" unfolding by_row_def new_by_row_def by (rule sorted_sort_key)
  show "at_b (new_by_row rows) row j \<longleftrightarrow> j < length rows \<and> ri_row (rows ! j) = row"
    by (auto simp: at_b_def new_by_row_def)
qed

lemma sorted_wrt_nths_map:
  assumes "sorted_wrt (<) (map f xs)" "sorted_wrt (<) ks" "set ks \<subseteq> {0..<length xs}"
  shows "sorted_wrt (<) (map (\<lambda>k. f (xs ! k)) ks)"
proof -
  have "f (xs ! k) < f (xs ! l)" if "k \<in> set ks" "l \<in> set ks" "k < l" for k l
    using sorted_wrt_nth_less[OF assms(1) that(3)] that assms(3) by auto
  then show ?thesis unfolding sorted_wrt_map by (rule sorted_wrt_mono_rel[OF _ assms(2)])
qed

lemma image_nth_Diff:
  assumes "distinct (map f xs)" "set ks \<subseteq> {0..<length xs}"
  shows "f ` set xs - (\<lambda>k. f (xs ! k)) ` ({0..<length xs} - set ks) = (\<lambda>k. f (xs ! k)) ` set ks"
proof -
  have inj: "inj_on (\<lambda>k. f (xs ! k)) {0..<length xs}"
  proof (rule inj_onI)
    fix k l assume "k \<in> {0..<length xs}" "l \<in> {0..<length xs}" "f (xs ! k) = f (xs ! l)"
    then show "k = l" using nth_eq_iff_index_eq[OF assms(1), of k l] by simp
  qed
  have "f ` set xs = (\<lambda>k. f (xs ! k)) ` {0..<length xs}"
    by (simp add: image_image[of f "(!) xs", symmetric] nth_image[of "length xs" xs, simplified])
  also have "\<dots> - (\<lambda>k. f (xs ! k)) ` ({0..<length xs} - set ks) =
      (\<lambda>k. f (xs ! k)) ` ({0..<length xs} - ({0..<length xs} - set ks))"
    by (rule inj_on_image_set_diff[OF inj, symmetric]) auto
  also have "{0..<length xs} - ({0..<length xs} - set ks) = set ks" using assms(2) by auto
  finally show ?thesis .
qed

section \<open>The pass\<close>

text \<open>Keeping the rows \<open>ks\<close> of the old order and \<open>ls\<close> of the new one.\<close>

lemma kept_edit:
  assumes M: "row_match prev next gone ins rows" and a: "a = old_order rows"
    and ks: "sorted_wrt (<) ks" "set ks \<subseteq> {0..<length a}" and ls: "sorted_wrt (<) ls" "set ls \<subseteq> {0..<length rows}"
    and same: "map (\<lambda>k. lr_row (a ! k)) ks = map (\<lambda>k. ri_row (rows ! k)) ls"
    and del: "idx del = {..<length prev} - live prev"
    and D: "D = idx del \<union> (\<lambda>k. lr_tv (a ! k)) ` ({0..<length a} - set ks) \<union> idx gone"
    and I: "I = idx ins \<union> (\<lambda>k. ri_tv (rows ! k)) ` ({0..<length rows} - set ls)"
  shows "applies D I prev next"
proof (rule applies_kept)
  note m = row_matchD[OF M] and o = old_order_facts[OF M, folded a]
  have da: "distinct (map lr_tv a)" "distinct (map ri_tv rows)" using o(2) m(1) by (simp_all add: strict_sorted_iff)
  have l: "live prev \<subseteq> {..<length prev}" by (auto simp: live_def)
  have sub: "ri_prev ` set rows \<subseteq> live prev" "ri_tv ` set rows \<subseteq> {..<length next}" using m(7,8) by auto
  have ga: "(\<lambda>k. lr_tv (a ! k)) ` ({0..<length a} - set ks) \<subseteq> ri_prev ` set rows"
    unfolding o(3)[symmetric] by auto
  have gi: "(\<lambda>k. ri_tv (rows ! k)) ` ({0..<length rows} - set ls) \<subseteq> ri_tv ` set rows" by auto
  show "sorted_wrt (<) (map (\<lambda>k. lr_tv (a ! k)) ks)" by (rule sorted_wrt_nths_map[OF o(2) ks])
  show "sorted_wrt (<) (map (\<lambda>k. ri_tv (rows ! k)) ls)" by (rule sorted_wrt_nths_map[OF m(1) ls])
  have "set (map (\<lambda>k. lr_tv (a ! k)) ks) = ri_prev ` set rows - (\<lambda>k. lr_tv (a ! k)) ` ({0..<length a} - set ks)"
    using image_nth_Diff[OF da(1) ks(2)] o(3) by simp
  also have "\<dots> = {..<length prev} - D" unfolding D del m(5) using l sub(1) ga by blast
  finally show "set (map (\<lambda>k. lr_tv (a ! k)) ks) = {..<length prev} - D" .
  have "set (map (\<lambda>k. ri_tv (rows ! k)) ls) = ri_tv ` set rows - (\<lambda>k. ri_tv (rows ! k)) ` ({0..<length rows} - set ls)"
    using image_nth_Diff[OF da(2) ls(2)] by simp
  also have "\<dots> = {..<length next} - I" unfolding I m(6) using sub(2) gi by blast
  finally show "set (map (\<lambda>k. ri_tv (rows ! k)) ls) = {..<length next} - I" .
  show "D \<subseteq> {..<length prev}" unfolding D del m(5) using l sub(1) ga by blast
  show "I \<subseteq> {..<length next}" unfolding I m(6) using sub(2) gi by blast
  have "prev ! lr_tv (a ! k) = lr_row (a ! k)" if "k \<in> set ks" for k using o(4) ks(2) that by auto
  moreover have "next ! ri_tv (rows ! k) = ri_row (rows ! k)" if "k \<in> set ls" for k using m(10) ls(2) that by auto
  ultimately show "map ((!) prev) (map (\<lambda>k. lr_tv (a ! k)) ks) = map ((!) next) (map (\<lambda>k. ri_tv (rows ! k)) ls)"
    using same by (simp cong: map_cong)
qed

lemma first_difference_spec:
  assumes "List.find P [0..<n] = Some d"
  shows "d < n" "\<And>i. i < d \<Longrightarrow> \<not> P i"
  using assms by (auto simp: find_Some_iff)

lemma calculate_sorted:
  assumes M: "row_match prev next gone ins rows" and del: "wf del" "idx del = {..<length prev} - live prev" and mods: "wf mods"
  shows "\<exists>c. calculate_moves_sorted rows (unmoved del ins mods) = c \<and>
    tracks (c\<lparr>deletions := add_set (deletions c) gone\<rparr>) prev next \<and> modifications c = mods"
proof -
  let ?a = "old_order rows" and ?c0 = "unmoved del ins mods"
  let ?n = "length rows"
  note m = row_matchD[OF M] and o = old_order_facts[OF M] and n = new_by_row_facts[of rows]
  have c0: "insertions ?c0 = ins" "moves ?c0 = []" "deletions ?c0 = del" "modifications ?c0 = mods"
    "modifications_new ?c0 = []" "columns ?c0 = []" "move_mapping ?c0 = []"
    by (simp_all add: unmoved_def empty_builder_def)
  have finish: "tracks (c\<lparr>deletions := add_set (deletions c) gone\<rparr>) prev next \<and> modifications c = mods"
    if c: "c = ?c0\<lparr>deletions := D, insertions := I\<rparr>" and w: "wf D" "wf I" and a: "applies (idx D \<union> idx gone) (idx I) prev next"
    for c D I
    using w a m(3) mods by (simp add: c tracks_def cb_ok_def c0 moves_ok_def ixb.ok_put_set ixb.members_put_set)
  show ?thesis
  proof (cases "List.find (\<lambda>i. lr_row (?a ! i) \<noteq> ri_row (rows ! i)) [0..<length ?a]")
    case None
    then have "map (\<lambda>k. lr_row (?a ! k)) [0..<length ?a] = map (\<lambda>k. ri_row (rows ! k)) [0..<?n]"
      by (simp add: find_None_iff o(1))
    then have "applies (idx del \<union> idx gone) (idx ins) prev next"
      by (intro kept_edit[OF M refl, of "[0..<length ?a]" "[0..<?n]" del]) (simp_all add: del(2))
    moreover have "?c0 = ?c0\<lparr>deletions := del, insertions := ins\<rparr>" by (simp add: unmoved_def)
    moreover have "calculate_moves_sorted rows ?c0 = ?c0" using None by (simp add: calculate_moves_sorted_def)
    ultimately show ?thesis using finish[OF _ del(1) m(4)] by metis
  next
    case (Some d)
    let ?ms = "longest_matches mods ?a (new_by_row rows) d"
    let ?eq = "\<lambda>i j. at_b (new_by_row rows) (lr_row (?a ! i)) j"
    have d: "d < ?n" "\<And>i. i < d \<Longrightarrow> lr_row (?a ! i) = ri_row (rows ! i)"
      using first_difference_spec[OF Some] o(1) by auto
    have "chain ?eq d d ?n ?n (find_longest_matches mods ?a (new_by_row rows) d ?n d ?n)"
      by (rule find_longest_matches_chain[OF n(2)]) (use d(1) in simp_all)
    then have ch: "chain ?eq d d ?n ?n ?ms"
      unfolding longest_matches_def o(1) n(1) by (rule chain_append) simp
    have last: "last ?ms = \<lparr>bl_i = ?n, bl_j = ?n, bl_size = 0, bl_modified = 0\<rparr>" "?ms \<noteq> []"
      by (simp_all add: longest_matches_def o(1) n(1))
    note al = align_matches_spec[OF ch last, of ?c0 ?a rows]
    obtain D I where R: "align_matches ?a rows d d ?ms ?c0 = ?c0\<lparr>deletions := D, insertions := I\<rparr>" "wf D" "wf I"
      "idx D = idx del \<union> (\<lambda>k. lr_tv (?a ! k)) ` ({d..<?n} - set (kept bl_i ?ms))"
      "idx I = idx ins \<union> (\<lambda>k. ri_tv (rows ! k)) ` ({d..<?n} - set (kept bl_j ?ms))"
      using al del(1) m(4) unfolding c0 by blast
    let ?ks = "[0..<d] @ kept bl_i ?ms" and ?ls = "[0..<d] @ kept bl_j ?ms"
    have kr: "set (kept bl_i ?ms) \<subseteq> {d..<?n}" "set (kept bl_j ?ms) \<subseteq> {d..<?n}"
      "sorted_wrt (<) (kept bl_i ?ms)" "sorted_wrt (<) (kept bl_j ?ms)" by (rule kept_range[OF ch])+
    have same: "map (\<lambda>k. lr_row (?a ! k)) ?ks = map (\<lambda>k. ri_row (rows ! k)) ?ls"
      using kept_rows[OF ch, of "\<lambda>k. lr_row (?a ! k)" "\<lambda>k. ri_row (rows ! k)"] d(2) by (simp add: n(3))
    have srt: "sorted_wrt (<) ?ks" "sorted_wrt (<) ?ls" using kr by (auto simp: sorted_wrt_append dest!: subsetD)
    have rng: "set ?ks \<subseteq> {0..<length ?a}" "set ?ls \<subseteq> {0..<?n}" using kr d(1) o(1) by (auto dest!: subsetD)
    have gap: "{0..<length ?a} - set ?ks = {d..<?n} - set (kept bl_i ?ms)" "{0..<?n} - set ?ls = {d..<?n} - set (kept bl_j ?ms)"
      using d(1) o(1) by auto
    have "applies (idx D \<union> idx gone) (idx I) prev next"
      by (rule kept_edit[OF M refl srt(1) rng(1) srt(2) rng(2) same del(2)]) (simp_all only: gap R(4,5))
    moreover have "calculate_moves_sorted rows ?c0 = ?c0\<lparr>deletions := D, insertions := I\<rparr>"
      using Some R(1) by (simp add: calculate_moves_sorted_def c0)
    ultimately show ?thesis using finish[OF _ R(2,3)] by simp
  qed
qed

section \<open>Both passes\<close>

lemma cb_calculate_sorted:
  assumes "length prev \<le> npos"
  shows "tracks (cb_calculate prev next row_did_change None) prev next"
proof -
  obtain del gone ins rows where c: "wf del" "idx del = {..<length prev} - live prev" "row_match prev next gone ins rows"
    and e: "cb_calculate prev next row_did_change None =
      (let c = calculate_moves_sorted rows (unmoved del ins (changed_rows row_did_change rows))
       in c\<lparr>deletions := add_set (deletions c) gone\<rparr>)"
    using cb_calculate_cases[OF assms, of "next" row_did_change thesis] by blast
  have "wf (changed_rows row_did_change rows)" using changed_rows_spec by blast
  from calculate_sorted[OF c(3,1,2) this] show ?thesis by (auto simp: e Let_def)
qed

lemma cb_calculate_unsorted:
  assumes "length prev \<le> npos" "candidates_cover cands prev next"
  shows "tracks (cb_calculate prev next row_did_change (Some cands)) prev next"
proof -
  obtain del gone ins rows where c: "wf del" "idx del = {..<length prev} - live prev" "row_match prev next gone ins rows"
    and e: "\<And>cands. cb_calculate prev next row_did_change (Some cands) =
      (let (gone, c) = calculate_moves_unsorted rows gone cands (unmoved del ins (changed_rows row_did_change rows))
       in c\<lparr>deletions := add_set (deletions c) gone\<rparr>)"
    using cb_calculate_cases[OF assms(1), of "next" row_did_change thesis] by blast
  have "wf (changed_rows row_did_change rows)" using changed_rows_spec by blast
  from calculate_unsorted[OF c(3) assms(2) c(1,2) this] show ?thesis by (auto simp: e)
qed

end
