(* ===== verification/Calculate_Properties.thy ===== *)
theory Calculate_Properties
  imports Change_Calculate_Sorted
begin

text \<open>What the change set computed from two lists of rows guarantees.\<close>

section \<open>Which rows are matched\<close>

lemma match_rows_keys: "map ri_row (fst (match_rows old new gone ins)) = map ri_row new"
  by (induction old new gone ins rule: match_rows.induct) (auto split: prod.split)

text \<open>With both lists in ascending order, a new row that also occurs among the old ones finds a partner.\<close>

lemma match_rows_complete:
  assumes "sorted (map ri_row old)" "sorted_wrt (<) (map ri_row new)" "\<forall>p \<in> set old. ri_tv p \<noteq> npos"
    and "r \<in> set (fst (match_rows old new gone ins))" "ri_row r \<in> ri_row ` set old"
  shows "ri_prev r \<noteq> npos"
  using assms
proof (induction old new gone ins rule: match_rows.induct)
  case (3 p old n new gone ins)
  have keys: "ri_row r \<in> ri_row ` set new" if "r \<in> set (fst (match_rows o' new g i))" for o' g i
  proof -
    have "ri_row r \<in> set (map ri_row (fst (match_rows o' new g i)))" using that by simp
    then show ?thesis by (simp add: match_rows_keys)
  qed
  consider "ri_row p = ri_row n" | "ri_row p < ri_row n" | "ri_row n < ri_row p" by linarith
  then show ?case
  proof cases
    case 1
    show ?thesis
    proof (cases "r \<in> set (fst (match_rows old new gone ins))")
      case True
      then have "ri_row n < ri_row r" using keys[OF True] 3(5) by auto
      then have "ri_row r \<in> ri_row ` set old" using 3(8) 1 by auto
      then show ?thesis using 3(1)[OF 1 _ _ _ True] 3(4-6) by simp
    next
      case False
      then have "r = n\<lparr>ri_prev := ri_tv p, ri_shifted := ri_shifted p\<rparr>"
        using 3(7) 1 by (auto split: prod.splits)
      then show ?thesis using 3(6) by simp
    qed
  next
    case 2
    then have r: "r \<in> set (fst (match_rows old (n # new) (add gone (ri_tv p)) ins))" using 3(7) by simp
    then have "ri_row r \<in> set (map ri_row (fst (match_rows old (n # new) (add gone (ri_tv p)) ins)))" by simp
    then have "ri_row r \<in> ri_row ` set (n # new)" by (simp add: match_rows_keys)
    then have "ri_row p < ri_row r" using 2 3(5) by auto
    then have "ri_row r \<in> ri_row ` set old" using 3(8) by auto
    then show ?thesis using 3(2)[OF _ 2 _ _ _ r] 2 3(4-6) by simp
  next
    case gt: 3
    have "ri_row r \<noteq> ri_row n" using 3(4,8) gt by auto
    then have "r \<in> set (fst (match_rows (p # old) new gone (add ins (ri_tv n))))"
      using 3(7) gt by (auto split: prod.splits)
    then show ?thesis using 3(3)[OF _ _ 3(4)] gt 3(5,6,8) by simp
  qed
qed simp_all

lemma calculate_start_matched:
  assumes "length prev \<le> npos" "distinct next"
  shows "ri_tv ` {r \<in> set (matched (fst (calculate_start prev next))). f (ri_row r)} =
    {t. t < length next \<and> next ! t \<in> set prev \<and> next ! t \<noteq> npos \<and> f (next ! t)}"
proof -
  let ?old = "sort_key ri_row (old_rows prev)" and ?new = "sort_key ri_row (collect_new next)"
  obtain new gone ins where s: "calculate_start prev next = (new, gone, ins)" by (cases "calculate_start prev next")
  have m: "matching ?old ?new [] [] (new, gone, ins)"
    using calculate_start_matching[OF assms(1), of "next"] s by simp
  note N = matching_new_rows[OF m] and M = row_matchD[OF matching_row_match[OF m]]
  have keys: "ri_row ` set ?old = set prev - {npos}"
    by (auto simp: set_old_rows live_def image_image in_set_conv_nth)
  have "map ri_row (collect_new next) = next" by (simp add: collect_new_def comp_def map_nth)
  then have "distinct (map ri_row ?new)" using assms(2) by (simp add: distinct_map_sort_key)
  then have srt: "sorted_wrt (<) (map ri_row ?new)" by (simp add: strict_sorted_iff)
  have found: "ri_prev r \<noteq> npos" if "r \<in> set new" "ri_row r \<in> set prev" "ri_row r \<noteq> npos" for r
  proof (rule match_rows_complete[OF _ srt, of ?old r "[]" "[]"])
    show "\<forall>p \<in> set ?old. ri_tv p \<noteq> npos" using assms(1) by (auto simp: set_old_rows live_def)
    show "r \<in> set (fst (match_rows ?old ?new [] []))" using that(1) s by (simp add: calculate_start_def)
    show "ri_row r \<in> ri_row ` set ?old" unfolding keys using that(2,3) by simp
  qed simp
  show ?thesis
  proof (intro equalityI subsetI)
    fix t assume "t \<in> ri_tv ` {r \<in> set (matched (fst (calculate_start prev next))). f (ri_row r)}"
    then obtain r where r: "t = ri_tv r" "r \<in> set (matched new)" "f (ri_row r)" using s by auto
    then have "ri_prev r \<in> live prev" "ri_tv r < length next" "prev ! ri_prev r = ri_row r" "next ! ri_tv r = ri_row r"
      using M(7-10)[of r] by simp_all
    then show "t \<in> {t. t < length next \<and> next ! t \<in> set prev \<and> next ! t \<noteq> npos \<and> f (next ! t)}"
      using r by (auto simp: live_def) (metis nth_mem)
  next
    fix t assume t: "t \<in> {t. t < length next \<and> next ! t \<in> set prev \<and> next ! t \<noteq> npos \<and> f (next ! t)}"
    then have "t \<in> ri_tv ` set new" using N(2) by simp
    then obtain r where r: "t = ri_tv r" "r \<in> set new" by (rule imageE)
    then have row: "ri_row r = next ! t" using N(3) by simp
    then have "ri_prev r \<noteq> npos" using found[OF r(2)] t by simp
    then show "t \<in> ri_tv ` {r \<in> set (matched (fst (calculate_start prev next))). f (ri_row r)}"
      using r row t s by auto
  qed
qed

lemma unsorted_modifications:
  "modifications (snd (calculate_moves_unsorted rows gone cands c)) = modifications c"
proof -
  have "modifications (snd (snd (foldl (unsorted_step cands) s rows))) = modifications (snd (snd s))" for s
  proof (induction rows arbitrary: s)
    case (Cons r rows)
    have "modifications (snd (snd (unsorted_step cands s r))) = modifications (snd (snd s))"
      by (simp add: unsorted_step_def Let_def case_prod_beta)
    then show ?case using Cons by simp
  qed simp
  then show ?thesis by (simp add: calculate_moves_unsorted_def)
qed

section \<open>Properties\<close>

text \<open>Rows 0, 2 and 3 stayed and the last row was moved into the place of the deleted row 1.\<close>

lemma below_4: "(n::nat) < 4 \<Longrightarrow> n = 0 \<or> n = 1 \<or> n = 2 \<or> n = 3"
  by arith

lemma moved_last_over: "candidates_cover (add [] 1) [0, 2, 3, 1] [0, 1, 2, 3]"
  unfolding candidates_cover_def
proof (intro allI impI)
  let ?old = "[0, 2, 3, 1 :: nat]" and ?new = "[0, 1, 2, 3 :: nat]"
  fix t s p q
  assume b: "t < length ?new" "s < t" "p < length ?old" "q < length ?old"
    and e: "?old ! p = ?new ! s" "?old ! q = ?new ! t" and c: "\<not> contains (add [] 1) (?new ! s)"
  have same: "?new ! n = n" if "n < 4" for n using below_4[OF that] by auto
  have lt: "t < 4" "s < 4" "p < 4" "q < 4" using b by simp_all
  have "?new ! t = t" "?new ! s = s" by (rule same[OF lt(1)], rule same[OF lt(2)])
  moreover from this have "s \<noteq> 1" using c by (auto simp: contains_iff add_spec)
  ultimately show "p < q" using below_4[OF lt(3)] below_4[OF lt(4)] b(2) e by auto
qed

text \<open>
  C3. The change set computed for a sorted query is correct whatever the two lists are, duplicates
  and deleted rows included: deleting the reported deletions from the old list and the reported
  insertions from the new one leaves the same rows in the same order.
\<close>

theorem calculate_sorted_correct:
  assumes "length prev \<le> npos"
  shows "tracks (cb_calculate prev next row_did_change None) prev next"
  by (rule cb_calculate_sorted[OF assms])

theorem calculate_sorted_correct_witness:
  "tracks (cb_calculate [0, 1, 2, npos, 1] [2, 5, 1, 0] (\<lambda>r. r = 2) None) [0, 1, 2, npos, 1] [2, 5, 1, 0]"
  by (rule calculate_sorted_correct) (simp add: npos_def)

text \<open>
  C14. For an unsorted query the cheap pass is correct as well, moves included, as long as the caller
  names among the candidates every row that came to stand before a row that used to precede it.
\<close>

theorem calculate_unsorted_correct:
  assumes "length prev \<le> npos" "candidates_cover cands prev next"
  shows "tracks (cb_calculate prev next row_did_change (Some cands)) prev next"
  by (rule cb_calculate_unsorted[OF assms])

theorem calculate_unsorted_correct_witness:
  "tracks (cb_calculate [0, 2, 3, 1] [0, 1, 2, 3] (\<lambda>r. r = 2) (Some (add [] 1)))
    [0, 2, 3, 1 :: nat] [0, 1, 2, 3]"
  by (rule calculate_unsorted_correct[OF _ moved_last_over]) (simp add: npos_def)

text \<open>
  C30. When no row occurs twice in the new list, the modifications are the positions in it of exactly those
  rows that were in the old list too and that the caller reports as changed, whether or not they also moved.
\<close>

theorem calculate_modifications:
  assumes "length prev \<le> npos" "distinct next"
  shows "idx (modifications (cb_calculate prev next row_did_change cands)) =
    {t. t < length next \<and> next ! t \<in> set prev \<and> next ! t \<noteq> npos \<and> row_did_change (next ! t)}"
proof -
  obtain del gone ins rows where c: "wf del" "idx del = {..<length prev} - live prev" "row_match prev next gone ins rows"
    and r: "rows = sort_key ri_tv (matched (fst (calculate_start prev next)))"
    and n: "cb_calculate prev next row_did_change None =
      (let c = calculate_moves_sorted rows (unmoved del ins (changed_rows row_did_change rows))
       in c\<lparr>deletions := add_set (deletions c) gone\<rparr>)"
    and s: "\<And>cands. cb_calculate prev next row_did_change (Some cands) =
      (let (gone, c) = calculate_moves_unsorted rows gone cands (unmoved del ins (changed_rows row_did_change rows))
       in c\<lparr>deletions := add_set (deletions c) gone\<rparr>)"
    using cb_calculate_cases[OF assms(1), of "next" row_did_change thesis] by blast
  let ?mods = "changed_rows row_did_change rows"
  have w: "wf ?mods" using changed_rows_spec by blast
  have "modifications (cb_calculate prev next row_did_change cands) = ?mods"
  proof (cases cands)
    case None
    from calculate_sorted[OF c(3,1,2) w] show ?thesis by (auto simp: n None Let_def)
  next
    case (Some cs)
    have "modifications (unmoved del ins ?mods) = ?mods" by (simp add: unmoved_def)
    then show ?thesis by (simp add: s Some case_prod_beta unsorted_modifications)
  qed
  moreover have "idx ?mods = ri_tv ` {r \<in> set rows. row_did_change (ri_row r)}" using changed_rows_spec by blast
  ultimately show ?thesis using calculate_start_matched[OF assms, of row_did_change] by (simp add: r)
qed

theorem calculate_modifications_witness:
  "idx (modifications (cb_calculate [0, 1, 2] [2, 5, 0] (\<lambda>r. r \<noteq> 0) None)) =
    {t. t < length [2, 5, 0 :: nat] \<and> [2, 5, 0] ! t \<in> set [0, 1, 2 :: nat] \<and> [2, 5, 0] ! t \<noteq> npos \<and>
      [2, 5, 0] ! t \<noteq> (0 :: nat)}"
  by (rule calculate_modifications) (simp_all add: npos_def)

text \<open>
  C24. \<open>find_longest_match\<close> returns a block of rows that are the same on both sides, within the searched
  ranges, and no block within the ranges is longer.
\<close>

theorem longest_match_is_longest:
  assumes "lo1 \<le> hi1" "lo2 \<le> hi2" "hi2 \<le> length rows"
  shows "let m = find_longest_match modified a (new_by_row rows) lo1 hi1 lo2 hi2 in
    lo1 \<le> bl_i m \<and> bl_i m + bl_size m \<le> hi1 \<and> lo2 \<le> bl_j m \<and> bl_j m + bl_size m \<le> hi2 \<and>
    (\<forall>k < bl_size m. lr_row (a ! (bl_i m + k)) = ri_row (rows ! (bl_j m + k))) \<and>
    (\<forall>i j n. lo1 \<le> i \<longrightarrow> i + n \<le> hi1 \<longrightarrow> lo2 \<le> j \<longrightarrow> j + n \<le> hi2 \<longrightarrow>
      (\<forall>k < n. lr_row (a ! (i + k)) = ri_row (rows ! (j + k))) \<longrightarrow> n \<le> bl_size m)"
proof -
  let ?eq = "\<lambda>i j. at_b (new_by_row rows) (lr_row (a ! i)) j"
  let ?m = "find_longest_match modified a (new_by_row rows) lo1 hi1 lo2 hi2"
  note L = find_longest_match_spec[OF new_by_row_facts(2) refl assms(1,2)]
  have ok: "block_ok ?eq lo1 hi1 lo2 hi2 ?m" by (rule L(1))
  have "n \<le> bl_size ?m" if h: "lo1 \<le> i" "i + n \<le> hi1" "lo2 \<le> j" "j + n \<le> hi2"
    "\<forall>k < n. lr_row (a ! (i + k)) = ri_row (rows ! (j + k))" for i j n
  proof -
    have "block_ok ?eq lo1 hi1 lo2 hi2 \<lparr>bl_i = i, bl_j = j, bl_size = n, bl_modified = 0\<rparr>"
      using h assms(3) by (simp add: block_ok_def new_by_row_facts(3))
    from L(2)[OF this] show ?thesis by simp
  qed
  then show ?thesis using ok by (simp add: block_ok_def new_by_row_facts(3))
qed

theorem longest_match_is_longest_witness:
  "let m = find_longest_match [] [\<lparr>lr_row = 7, lr_tv = 0\<rparr>]
      (new_by_row [\<lparr>ri_row = 7, ri_prev = 0, ri_tv = 0, ri_shifted = 0\<rparr>]) 0 1 0 1 in
    0 \<le> bl_i m \<and> bl_i m + bl_size m \<le> 1 \<and> 0 \<le> bl_j m \<and> bl_j m + bl_size m \<le> 1 \<and>
    (\<forall>k < bl_size m. lr_row ([\<lparr>lr_row = 7, lr_tv = 0\<rparr>] ! (bl_i m + k)) =
      ri_row ([\<lparr>ri_row = 7, ri_prev = 0, ri_tv = 0, ri_shifted = 0\<rparr>] ! (bl_j m + k))) \<and>
    (\<forall>i j n. 0 \<le> i \<longrightarrow> i + n \<le> 1 \<longrightarrow> 0 \<le> j \<longrightarrow> j + n \<le> 1 \<longrightarrow>
      (\<forall>k < n. lr_row ([\<lparr>lr_row = 7, lr_tv = 0\<rparr>] ! (i + k)) =
        ri_row ([\<lparr>ri_row = 7, ri_prev = 0, ri_tv = 0, ri_shifted = 0\<rparr>] ! (j + k))) \<longrightarrow> n \<le> bl_size m)"
  by (rule longest_match_is_longest) simp_all

section \<open>A search that stops early\<close>

text \<open>
  After a block, \<open>find_longest_matches\<close> goes on only if both \<open>m.i + m.size\<close> and \<open>m.j + m.size\<close> are below
  \<open>end2\<close>, although the first is a position of \<open>a\<close>, which ends at \<open>end1\<close>.  With the rows \<open>0, \<dots>, 6\<close> before
  and \<open>1, 3, 5, 6, 0, 2, 4\<close> after a write, row 3 stands between rows 1 and 5 on both sides and is
  missed, so that it is reported as deleted and inserted.
\<close>

lemma small_neq_npos: "(n = npos) = False" if "n < 1000" for n
  using that by (simp add: npos_def)

definition tail_old :: "lcs_row list" where
  "tail_old = map (\<lambda>i. \<lparr>lr_row = i, lr_tv = i\<rparr>) [0..<7]"

definition tail_new :: "lcs_row list" where
  "tail_new = map2 (\<lambda>r t. \<lparr>lr_row = r, lr_tv = t\<rparr>) [0..<7] [4, 0, 5, 1, 6, 2, 3]"

lemma count_none: "count [] x y = 0"
  by (simp add: count_def Let_def find_def find_from_def at_end_def it_end_def)

lemma tail_old_row: "i < 7 \<Longrightarrow> lr_row (tail_old ! i) = i"
  by (simp add: tail_old_def)

lemma tail_matches:
  shows "b_matches tail_new 0 0 7 = [4]"
    "b_matches tail_new (Suc 0) 0 7 = [0]"
    "b_matches tail_new 2 0 7 = [5]"
    "b_matches tail_new 3 0 7 = [1]"
    "b_matches tail_new 4 0 7 = [6]"
    "b_matches tail_new 5 0 7 = [2]"
    "b_matches tail_new 6 0 7 = [3]"
    "b_matches tail_new 0 0 2 = []"
    "b_matches tail_new (Suc 0) 0 2 = [0]"
    "b_matches tail_new 2 0 2 = []"
    "b_matches tail_new 3 0 2 = [1]"
    "b_matches tail_new 4 0 2 = []"
  by code_simp+

lemma tail_upt: "[0..<7] = [0, Suc 0, 2, 3, 4, 5, 6]" "[0..<5] = [0, Suc 0, 2, 3, 4]"
  by (simp_all add: upt_rec)

lemma tail_first: "find_longest_match [] tail_old tail_new 0 7 0 7 = \<lparr>bl_i = 5, bl_j = 2, bl_size = 2, bl_modified = npos\<rparr>"
  by (simp add: find_longest_match_def tail_upt match_row_def tail_old_row tail_matches best_step_def length_at_def count_none small_neq_npos)

lemma tail_second: "find_longest_match [] tail_old tail_new 0 5 0 2 = \<lparr>bl_i = 1, bl_j = 0, bl_size = 1, bl_modified = 0\<rparr>"
  by (simp add: find_longest_match_def tail_upt match_row_def tail_old_row tail_matches best_step_def length_at_def count_none small_neq_npos)

lemma tail_search_stops_early:
  "map (\<lambda>m. (bl_i m, bl_j m, bl_size m)) (find_longest_matches [] tail_old tail_new 0 7 0 7) = [(1, 0, 1), (5, 2, 2)]"
  by (simp add: find_longest_matches.simps[of _ _ _ 0] tail_first tail_second)

end
