(* ===== verification/Change_Checker.thy ===== *)
theory Change_Checker
  imports Change_Builder
begin

text \<open>
  \<open>DeepChangeChecker\<close> (\<open>impl/collection_notifier.cpp\<close>): whether a row counts as changed because a row
  it links to was modified.  The search follows links up to a fixed depth and remembers rows that it
  has found unmodified.  The tables of the group belong to realm-core; a \<open>link_store\<close> is what the code
  reads of them.
\<close>

section \<open>What is read of the tables\<close>

datatype column_kind = Link_Column | Link_List_Column | Other_Column

text \<open>
  A table of the group is named by its index, which is below \<open>ls_count\<close>; \<open>get_index_in_group\<close> of
  any other table is \<open>npos\<close>.  The target of a link is always a table of the group.
\<close>

record link_store =
  ls_count :: size
  ls_columns :: "size \<Rightarrow> column_kind list"
  ls_target :: "size \<Rightarrow> size \<Rightarrow> size"
  ls_is_null :: "size \<Rightarrow> size \<Rightarrow> size \<Rightarrow> bool"
  ls_link :: "size \<Rightarrow> size \<Rightarrow> size \<Rightarrow> size"
  ls_list :: "size \<Rightarrow> size \<Rightarrow> size \<Rightarrow> size list"

definition index_in_group :: "link_store \<Rightarrow> size \<Rightarrow> size" where
  "index_in_group db t = (if t < ls_count db then t else npos)"

record outgoing_link =
  ol_col :: size
  ol_is_list :: bool

record related_table =
  rt_table :: size
  rt_links :: "outgoing_link list"

section \<open>The tables to watch\<close>

text \<open>
  \<open>find_related_tables\<close>.  The recursion is as deep as there are tables; the fuel counts down the depth
  and \<open>None\<close> is fuel that did not suffice.
\<close>

definition column_link :: "link_store \<Rightarrow> size \<Rightarrow> size \<Rightarrow> outgoing_link" where
  "column_link db t i = \<lparr>ol_col = i, ol_is_list = (ls_columns db t ! i = Link_List_Column)\<rparr>"

definition push_link :: "related_table list \<Rightarrow> nat \<Rightarrow> outgoing_link \<Rightarrow> related_table list" where
  "push_link out k l = out[k := (out ! k)\<lparr>rt_links := rt_links (out ! k) @ [l]\<rparr>]"

fun find_related :: "nat \<Rightarrow> link_store \<Rightarrow> related_table list \<Rightarrow> size \<Rightarrow> related_table list option" where
  "find_related 0 db out table = None"
| "find_related (Suc fuel) db out table =
     (let table_ndx = index_in_group db table in
      if table_ndx = npos then Some out
      else if table_ndx \<in> rt_table ` set out then Some out
      else
        let out_index = length out in
        foldl (\<lambda>res i. case res of None \<Rightarrow> None | Some out \<Rightarrow>
            if ls_columns db table_ndx ! i = Other_Column then Some out
            else find_related fuel db
              (push_link out out_index (column_link db table_ndx i))
              (ls_target db table_ndx i))
          (Some (out @ [\<lparr>rt_table = table_ndx, rt_links = []\<rparr>]))
          [0..<length (ls_columns db table_ndx)])"

definition find_related_tables :: "link_store \<Rightarrow> related_table list \<Rightarrow> size \<Rightarrow> related_table list option" where
  "find_related_tables db out table = find_related (ls_count db + 2) db out table"

section \<open>The search\<close>

record path_entry =
  pe_table :: size
  pe_row :: size
  pe_col :: size
  pe_exceeded :: bool

text \<open>\<open>m_current_path\<close> has four entries; \<open>m_not_modified\<close> holds one set of rows for each table.\<close>

definition path_limit :: nat where
  "path_limit = 4"

record checker =
  ck_path :: "path_entry list"
  ck_clean :: "crv list"

text \<open>What the constructor is given.\<close>

record check_env =
  ce_store :: link_store
  ce_tables :: "change_builder list"
  ce_related :: "related_table list"

definition exceed :: "nat \<Rightarrow> nat \<Rightarrow> path_entry list \<Rightarrow> path_entry list" where
  "exceed k n path = map (\<lambda>i. if k \<le> i \<and> i < n then (path ! i)\<lparr>pe_exceeded := True\<rparr> else path ! i) [0..<length path]"

text \<open>The lambda \<open>already_checking\<close>\<close>

definition already_checking :: "size \<Rightarrow> size \<Rightarrow> size \<Rightarrow> nat \<Rightarrow> checker \<Rightarrow> bool \<times> checker" where
  "already_checking table row col depth ck =
     (let k = length (takeWhile (\<lambda>p. \<not> (pe_table p = table \<and> pe_row p = row \<and> pe_col p = col)) (take depth (ck_path ck))) in
      if k < length (take depth (ck_path ck)) then (True, ck\<lparr>ck_path := exceed k depth (ck_path ck)\<rparr>)
      else (False, ck\<lparr>ck_path := (ck_path ck)[depth :=
        \<lparr>pe_table = table, pe_row = row, pe_col = col, pe_exceeded = False\<rparr>]\<rparr>))"

definition related_links :: "check_env \<Rightarrow> size \<Rightarrow> outgoing_link list" where
  "related_links env table =
     (case List.find (\<lambda>r. rt_table r = table) (ce_related env) of None \<Rightarrow> [] | Some r \<Rightarrow> rt_links r)"

definition is_modified :: "check_env \<Rightarrow> size \<Rightarrow> size \<Rightarrow> bool" where
  "is_modified env table row \<longleftrightarrow>
     table < length (ce_tables env) \<and> contains (modifications (ce_tables env ! table)) row"

definition clean_resize :: "size \<Rightarrow> checker \<Rightarrow> checker" where
  "clean_resize table ck =
     (if length (ck_clean ck) \<le> table then ck\<lparr>ck_clean := resize (table + 1) (ck_clean ck)\<rparr> else ck)"

text \<open>
  \<open>check_row\<close>, \<open>check_outgoing_links\<close> from its first link on, and the loop over a link list.  A row in
  a table without related links has nothing to follow, which is the early return of
  \<open>check_outgoing_links\<close>.
\<close>

function check_row :: "check_env \<Rightarrow> size \<Rightarrow> size \<Rightarrow> nat \<Rightarrow> checker \<Rightarrow> bool \<times> checker"
  and check_outgoing_links :: "check_env \<Rightarrow> size \<Rightarrow> size \<Rightarrow> nat \<Rightarrow> outgoing_link list \<Rightarrow> checker \<Rightarrow> bool \<times> checker"
  and check_list :: "check_env \<Rightarrow> size \<Rightarrow> nat \<Rightarrow> size list \<Rightarrow> checker \<Rightarrow> bool \<times> checker"
where
  "check_row env table row depth ck =
     (if path_limit \<le> depth then (False, ck\<lparr>ck_path := exceed 0 (length (ck_path ck)) (ck_path ck)\<rparr>)
      else if 0 < depth \<and> is_modified env table row then (True, ck)
      else
        let ck = clean_resize table ck in
        if contains (ck_clean ck ! table) row then (False, ck)
        else
          let (ret, ck) = check_outgoing_links env table row depth (related_links env table) ck in
          if \<not> ret \<and> (depth = 0 \<or> \<not> pe_exceeded (ck_path ck ! (depth - 1)))
          then (ret, ck\<lparr>ck_clean := (ck_clean ck)[table := add (ck_clean ck ! table) row]\<rparr>)
          else (ret, ck))"
| "check_outgoing_links env table row depth [] ck = (False, ck)"
| "check_outgoing_links env table row depth (l # ls) ck =
     (let col = ol_col l; target = ls_target (ce_store env) table col; (busy, ck) = already_checking table row col depth ck;
          (ret, ck) = (if busy then (False, ck)
            else if \<not> ol_is_list l then
              if ls_is_null (ce_store env) table col row then (False, ck)
              else check_row env target (ls_link (ce_store env) table col row) (depth + 1) ck
            else check_list env target (depth + 1) (ls_list (ce_store env) table col row) ck)
      in if ret then (True, ck) else check_outgoing_links env table row depth ls ck)"
| "check_list env table depth [] ck = (False, ck)"
| "check_list env table depth (row # rows) ck =
     (let (ret, ck) = check_row env table row depth ck in
      if ret then (True, ck) else check_list env table depth rows ck)"
  by pat_completeness auto
termination
  by (relation "measures [
        \<lambda>x. case x of Inl (env, t, r, d, ck) \<Rightarrow> 2 * (path_limit - d)
          | Inr (Inl (env, t, r, d, ls, ck)) \<Rightarrow> (if d < path_limit then 2 * (path_limit - d) - 1 else 1)
          | Inr (Inr (env, t, d, rs, ck)) \<Rightarrow> 2 * (path_limit - d),
        \<lambda>x. case x of Inl (env, t, r, d, ck) \<Rightarrow> 0
          | Inr (Inl (env, t, r, d, ls, ck)) \<Rightarrow> length ls
          | Inr (Inr (env, t, d, rs, ck)) \<Rightarrow> Suc (length rs)]")
    (auto simp: path_limit_def)

declare check_row.simps [simp del]

text \<open>\<open>operator()\<close>: the root row itself may be modified as well.\<close>

definition check_changed :: "check_env \<Rightarrow> size \<Rightarrow> size \<Rightarrow> checker \<Rightarrow> bool \<times> checker" where
  "check_changed env root row ck =
     (if is_modified env root row then (True, ck) else check_row env root row 0 ck)"

text \<open>The answers to a sequence of questions, with the rows remembered from one to the next.\<close>

fun check_all :: "check_env \<Rightarrow> size \<Rightarrow> size list \<Rightarrow> checker \<Rightarrow> bool list" where
  "check_all env root [] ck = []"
| "check_all env root (row # rows) ck =
     (let (ret, ck) = check_changed env root row ck in ret # check_all env root rows ck)"

definition new_checker :: "path_entry list \<Rightarrow> checker" where
  "new_checker path = \<lparr>ck_path = path, ck_clean = []\<rparr>"

section \<open>The checker a notifier uses\<close>

text \<open>
  \<open>get_modification_checker\<close>.  After a change of the schema the related tables are looked up again, as
  \<open>set_table\<close> does; the result of \<open>renew_related\<close> is also what the notifier keeps.  With no modified table in
  reach nothing is searched, and with a single related table its modifications answer directly.
\<close>

datatype modification_checker = Nothing_Changed | Single_Table crv | Deep check_env

definition renew_related :: "link_store \<Rightarrow> bool \<Rightarrow> size \<Rightarrow> related_table list \<Rightarrow> related_table list" where
  "renew_related db schema_changed root related =
     (if schema_changed then case find_related_tables db [] root of None \<Rightarrow> [] | Some related \<Rightarrow> related else related)"

definition get_modification_checker ::
    "link_store \<Rightarrow> bool \<Rightarrow> size \<Rightarrow> change_builder list \<Rightarrow> related_table list \<Rightarrow> modification_checker" where
  "get_modification_checker db schema_changed root tables related =
     (let related = renew_related db schema_changed root related in
      if \<not> (\<exists>r \<in> set related. rt_table r < length tables \<and> modifications (tables ! rt_table r) \<noteq> [])
      then Nothing_Changed
      else if length related = 1 then Single_Table (modifications (tables ! rt_table (related ! 0)))
      else Deep \<lparr>ce_store = db, ce_tables = tables, ce_related = related\<rparr>)"

fun run_checker :: "modification_checker \<Rightarrow> size \<Rightarrow> path_entry list \<Rightarrow> size list \<Rightarrow> bool list" where
  "run_checker Nothing_Changed root path rows = map (\<lambda>_. False) rows"
| "run_checker (Single_Table m) root path rows = map (contains m) rows"
| "run_checker (Deep env) root path rows = check_all env root rows (new_checker path)"

end
