(* ===== verification/Change_Checker_Laws.thy ===== *)
theory Change_Checker_Laws
  imports Change_Checker Change_Builder_Laws
begin

text \<open>
  The search of \<open>DeepChangeChecker\<close> answers whether a modified row is at most three links away, although
  it cuts off cycles and remembers rows from earlier searches.
\<close>

section \<open>What the answer should be\<close>

type_synonym node = "size \<times> size"

definition link_rows :: "check_env \<Rightarrow> size \<Rightarrow> size \<Rightarrow> outgoing_link \<Rightarrow> size list" where
  "link_rows env t r l =
     (if ol_is_list l then ls_list (ce_store env) t (ol_col l) r
      else if ls_is_null (ce_store env) t (ol_col l) r then [] else [ls_link (ce_store env) t (ol_col l) r])"

definition link_ends :: "check_env \<Rightarrow> node \<Rightarrow> outgoing_link \<Rightarrow> node set" where
  "link_ends env x l = Pair (ls_target (ce_store env) (fst x) (ol_col l)) ` set (link_rows env (fst x) (snd x) l)"

definition linked :: "check_env \<Rightarrow> node \<Rightarrow> node set" where
  "linked env x = (\<Union>l \<in> set (related_links env (fst x)). link_ends env x l)"

definition modified_node :: "check_env \<Rightarrow> node \<Rightarrow> bool" where
  "modified_node env x \<longleftrightarrow> is_modified env (fst x) (snd x)"

text \<open>A modified row is between one and \<open>n\<close> links away.\<close>

fun modified_within :: "check_env \<Rightarrow> nat \<Rightarrow> node \<Rightarrow> bool" where
  "modified_within env 0 x = False"
| "modified_within env (Suc n) x = (\<exists>y \<in> linked env x. modified_node env y \<or> modified_within env n y)"

section \<open>Walks to a modified row\<close>

fun walk_to :: "check_env \<Rightarrow> node list \<Rightarrow> bool" where
  "walk_to env [] = False"
| "walk_to env [x] = modified_node env x"
| "walk_to env (x # y # ys) = (y \<in> linked env x \<and> walk_to env (y # ys))"

lemma modified_within_walk:
  "modified_within env n x \<longleftrightarrow> (\<exists>ys. ys \<noteq> [] \<and> length ys \<le> n \<and> walk_to env (x # ys))"
proof (induction n arbitrary: x)
  case (Suc n)
  show ?case
  proof
    assume "modified_within env (Suc n) x"
    then obtain y where y: "y \<in> linked env x" "modified_node env y \<or> modified_within env n y" by auto
    from y(2) show "\<exists>ys. ys \<noteq> [] \<and> length ys \<le> Suc n \<and> walk_to env (x # ys)"
    proof
      assume "modified_node env y"
      then show ?thesis using y(1) by (intro exI[of _ "[y]"]) simp
    next
      assume "modified_within env n y"
      then obtain ys where "ys \<noteq> []" "length ys \<le> n" "walk_to env (y # ys)" using Suc.IH by blast
      then show ?thesis using y(1) by (intro exI[of _ "y # ys"]) simp
    qed
  next
    assume "\<exists>ys. ys \<noteq> [] \<and> length ys \<le> Suc n \<and> walk_to env (x # ys)"
    then obtain y ys where w: "length ys \<le> n" "walk_to env (x # y # ys)" by (metis Suc_le_mono length_Cons list.exhaust)
    then show "modified_within env (Suc n) x"
    proof (cases ys)
      case Nil
      then show ?thesis using w by auto
    next
      case (Cons z zs)
      then have "modified_within env n y" using Suc.IH[of y] w by auto
      then show ?thesis using w by auto
    qed
  qed
qed auto

lemma walk_to_drop: "walk_to env (xs @ y # ys) \<Longrightarrow> walk_to env (y # ys)"
proof (induction xs)
  case (Cons x xs)
  then show ?case by (cases xs) auto
qed simp

lemma walk_to_replace: "walk_to env (xs @ y # ys) \<Longrightarrow> walk_to env (y # zs) \<Longrightarrow> walk_to env (xs @ y # zs)"
proof (induction xs)
  case (Cons x xs)
  then show ?case by (cases xs) auto
qed simp

text \<open>A shortest walk visits no row twice before its end.\<close>

lemma simple_walk:
  assumes "walk_to env (x # ys)" "ys \<noteq> []"
  shows "\<exists>zs. zs \<noteq> [] \<and> length zs \<le> length ys \<and> walk_to env (x # zs) \<and> distinct (butlast (x # zs))"
  using assms
proof (induction "length ys" arbitrary: ys rule: less_induct)
  case less
  show ?case
  proof (cases "distinct (butlast (x # ys))")
    case True
    then show ?thesis using less.prems by blast
  next
    case False
    then obtain as b cs ds where d: "butlast (x # ys) = as @ [b] @ cs @ [b] @ ds" using not_distinct_decomp by blast
    have "x # ys = butlast (x # ys) @ [last (x # ys)]" by simp
    then have e: "x # ys = as @ b # (cs @ b # ds @ [last (x # ys)])" using d by simp
    have w: "walk_to env (as @ b # (cs @ b # ds @ [last (x # ys)]))" using less.prems(1) e by simp
    have "walk_to env ((as @ b # cs) @ b # ds @ [last (x # ys)])" using w by simp
    then have "walk_to env (b # ds @ [last (x # ys)])" by (rule walk_to_drop)
    from walk_to_replace[OF w this] have w': "walk_to env (as @ b # ds @ [last (x # ys)])" .
    obtain zs where zs: "as @ b # ds @ [last (x # ys)] = x # zs" using e by (cases as) auto
    then have ne: "zs \<noteq> []" by (cases as) auto
    have "length (x # zs) < length (x # ys)"
      using arg_cong[OF e, of length] arg_cong[OF zs, of length] by simp
    then have lt: "length zs < length ys" by simp
    from less.hyps[OF lt _ ne] w' zs obtain us where "us \<noteq> []" "length us \<le> length zs" "walk_to env (x # us)"
      "distinct (butlast (x # us))" by metis
    then show ?thesis using lt by (metis le_trans less_imp_le)
  qed
qed

text \<open>The walks a failed search from a row has to rule out.\<close>

definition threat :: "check_env \<Rightarrow> node \<Rightarrow> node list \<Rightarrow> bool" where
  "threat env x ys \<longleftrightarrow> ys \<noteq> [] \<and> hd ys = x \<and> walk_to env ys \<and> distinct (butlast ys) \<and> length ys \<le> path_limit"

lemma within_threat:
  assumes "modified_within env 3 x"
  obtains ys where "threat env x ys" "1 < length ys"
proof -
  obtain ys where ys: "ys \<noteq> []" "length ys \<le> 3" "walk_to env (x # ys)" using assms modified_within_walk by blast
  from simple_walk[OF ys(3,1)] obtain zs where zs: "zs \<noteq> []" "length zs \<le> length ys" "walk_to env (x # zs)"
    "distinct (butlast (x # zs))" by blast
  then have "threat env x (x # zs)" using ys(2) by (simp add: threat_def path_limit_def)
  then show thesis using that zs(1) by simp
qed

lemma threat_tail:
  assumes "threat env x (x # y # ys)"
  shows "y \<in> linked env x" "threat env y (y # ys)" "x \<notin> set (butlast (y # ys))"
  using assms by (auto simp: threat_def)

section \<open>Why a search may miss a walk\<close>

text \<open>
  A failed search at some depth of the path rules out every walk, except for one that is cut off by the
  depth limit or at a row of the path; the entries of the path from there on are then marked.
\<close>

definition entry_node :: "path_entry \<Rightarrow> node" where
  "entry_node p = (pe_table p, pe_row p)"

definition cut_off :: "path_entry list \<Rightarrow> nat \<Rightarrow> node list \<Rightarrow> bool" where
  "cut_off path depth ys \<longleftrightarrow>
     (path_limit < depth + length ys \<and> (\<forall>j < depth. pe_exceeded (path ! j))) \<or>
     (\<exists>j < depth. entry_node (path ! j) \<in> set (butlast ys) \<and> (\<forall>l. j \<le> l \<longrightarrow> l < depth \<longrightarrow> pe_exceeded (path ! l)))"

text \<open>A search below some depth keeps the path above it and only adds marks.\<close>

definition path_kept :: "nat \<Rightarrow> path_entry list \<Rightarrow> path_entry list \<Rightarrow> bool" where
  "path_kept depth path path' \<longleftrightarrow> length path' = length path \<and>
     (\<forall>j < depth. entry_node (path' ! j) = entry_node (path ! j) \<and> pe_col (path' ! j) = pe_col (path ! j) \<and>
        (pe_exceeded (path ! j) \<longrightarrow> pe_exceeded (path' ! j)))"

lemma path_kept_refl [simp]: "path_kept d p p"
  by (simp add: path_kept_def)

lemma path_kept_trans: "path_kept d p q \<Longrightarrow> path_kept d q r \<Longrightarrow> path_kept d p r"
  by (simp add: path_kept_def)

lemma path_kept_le: "path_kept d p q \<Longrightarrow> d' \<le> d \<Longrightarrow> path_kept d' p q"
  by (simp add: path_kept_def)

lemma cut_off_mono: "cut_off p d ys \<Longrightarrow> path_kept d p q \<Longrightarrow> cut_off q d ys"
  unfolding cut_off_def path_kept_def by (elim disjE) (simp, metis)

text \<open>A walk that is cut off below a link is cut off above it, unless it returns to the row the link leaves.\<close>

lemma cut_off_Cons:
  assumes "cut_off p (Suc d) ys" "entry_node (p ! d) = x" "x \<notin> set (butlast ys)" "ys \<noteq> []"
  shows "cut_off p d (x # ys)"
  using assms(1) unfolding cut_off_def
proof (elim disjE exE conjE)
  fix j assume j: "j < Suc d" "entry_node (p ! j) \<in> set (butlast ys)"
    "\<forall>l. j \<le> l \<longrightarrow> l < Suc d \<longrightarrow> pe_exceeded (p ! l)"
  then have "j \<noteq> d" using assms(2,3) by auto
  then have "j < d" using j(1) by simp
  moreover have "entry_node (p ! j) \<in> set (butlast (x # ys))" using j(2) assms(4) by simp
  ultimately show "path_limit < d + length (x # ys) \<and> (\<forall>j < d. pe_exceeded (p ! j)) \<or>
    (\<exists>j < d. entry_node (p ! j) \<in> set (butlast (x # ys)) \<and> (\<forall>l. j \<le> l \<longrightarrow> l < d \<longrightarrow> pe_exceeded (p ! l)))"
    using j(3) by auto
qed auto

lemma exceed_simps:
  "length (exceed k n p) = length p"
  "i < length p \<Longrightarrow> exceed k n p ! i = (if k \<le> i \<and> i < n then (p ! i)\<lparr>pe_exceeded := True\<rparr> else p ! i)"
  by (simp_all add: exceed_def)

lemma path_kept_exceed: "d \<le> length p \<Longrightarrow> path_kept d p (exceed k n p)"
  by (auto simp: path_kept_def exceed_simps entry_node_def)

section \<open>One link\<close>

lemma already_checking_True:
  assumes "already_checking t r c d ck = (True, ck')" "d \<le> length (ck_path ck)"
  shows "path_kept d (ck_path ck) (ck_path ck')" "ck_clean ck' = ck_clean ck"
    "\<exists>j < d. entry_node (ck_path ck' ! j) = (t, r) \<and> (\<forall>l. j \<le> l \<longrightarrow> l < d \<longrightarrow> pe_exceeded (ck_path ck' ! l))"
proof -
  let ?P = "\<lambda>p. \<not> (pe_table p = t \<and> pe_row p = r \<and> pe_col p = c)" and ?p = "ck_path ck"
  let ?k = "length (takeWhile ?P (take d ?p))"
  have k: "?k < length (take d ?p)" and e: "ck' = ck\<lparr>ck_path := exceed ?k d ?p\<rparr>"
    using assms(1) by (auto simp: already_checking_def Let_def split: if_splits)
  show "path_kept d (ck_path ck) (ck_path ck')" using path_kept_exceed[OF assms(2)] e by simp
  show "ck_clean ck' = ck_clean ck" using e by simp
  have "\<not> ?P (take d ?p ! ?k)" by (rule nth_length_takeWhile[OF k])
  then have "entry_node (?p ! ?k) = (t, r)" using k by (simp add: entry_node_def)
  moreover have "?k < d" "?k < length ?p" using k by simp_all
  ultimately show "\<exists>j < d. entry_node (ck_path ck' ! j) = (t, r) \<and>
      (\<forall>l. j \<le> l \<longrightarrow> l < d \<longrightarrow> pe_exceeded (ck_path ck' ! l))"
    using assms(2) by (intro exI[of _ ?k]) (auto simp: e exceed_simps entry_node_def)
qed

lemma already_checking_False:
  assumes "already_checking t r c d ck = (False, ck')" "d < length (ck_path ck)"
  shows "path_kept d (ck_path ck) (ck_path ck')" "ck_clean ck' = ck_clean ck"
    "entry_node (ck_path ck' ! d) = (t, r)"
proof -
  have e: "ck' = ck\<lparr>ck_path := (ck_path ck)[d := \<lparr>pe_table = t, pe_row = r, pe_col = c, pe_exceeded = False\<rparr>]\<rparr>"
    using assms(1) by (auto simp: already_checking_def Let_def split: if_splits)
  show "path_kept d (ck_path ck) (ck_path ck')" using assms(2) by (simp add: e path_kept_def)
  show "ck_clean ck' = ck_clean ck" using e by simp
  show "entry_node (ck_path ck' ! d) = (t, r)" using assms(2) by (simp add: e entry_node_def)
qed

section \<open>The search\<close>

text \<open>No remembered row has a modified row within reach.\<close>

definition clean_ok :: "check_env \<Rightarrow> checker \<Rightarrow> bool" where
  "clean_ok env ck \<longleftrightarrow> (\<forall>t < length (ck_clean ck). wf (ck_clean ck ! t) \<and>
     (\<forall>r \<in> idx (ck_clean ck ! t). \<not> modified_within env 3 (t, r)))"

lemma clean_ok_resize:
  assumes "clean_ok env ck"
  shows "clean_ok env (clean_resize t ck)" "t < length (ck_clean (clean_resize t ck))"
    "ck_path (clean_resize t ck) = ck_path ck"
  using assms by (auto simp: clean_ok_def clean_resize_def resize_def nth_append)

lemma clean_ok_add:
  assumes "clean_ok env ck" "t < length (ck_clean ck)" "\<not> modified_within env 3 (t, r)"
  shows "clean_ok env (ck\<lparr>ck_clean := (ck_clean ck)[t := add (ck_clean ck ! t) r]\<rparr>)"
  using assms by (auto simp: clean_ok_def nth_list_update add_spec)

text \<open>
  What a step of the search guarantees: the path above \<open>d\<close> is kept, the remembered rows stay correct,
  and a negative answer rules out all walks from the nodes \<open>X\<close> that are not cut off.
\<close>

definition search_ok :: "check_env \<Rightarrow> nat \<Rightarrow> (node list \<Rightarrow> bool) \<Rightarrow> bool \<Rightarrow> checker \<Rightarrow> bool \<times> checker \<Rightarrow> bool" where
  "search_ok env d W yes ck res \<longleftrightarrow>
     path_kept d (ck_path ck) (ck_path (snd res)) \<and> clean_ok env (snd res) \<and>
     (fst res \<longrightarrow> yes) \<and> (\<not> fst res \<longrightarrow> (\<forall>ys. W ys \<longrightarrow> cut_off (ck_path (snd res)) d ys))"

lemma search_okD:
  assumes "search_ok env d W yes ck res"
  shows "path_kept d (ck_path ck) (ck_path (snd res))" "clean_ok env (snd res)" "fst res \<Longrightarrow> yes"
    "\<not> fst res \<Longrightarrow> W ys \<Longrightarrow> cut_off (ck_path (snd res)) d ys" "length (ck_path (snd res)) = length (ck_path ck)"
  using assms by (auto simp: search_ok_def path_kept_def)

text \<open>One step after another, the second only if the first answers no.\<close>

lemma search_ok_then:
  assumes "search_ok env d W1 yes1 ck res1" "\<not> fst res1 \<Longrightarrow> search_ok env d W2 yes2 (snd res1) res2"
    and "yes1 \<longrightarrow> yes" "yes2 \<longrightarrow> yes" "\<And>ys. W ys \<Longrightarrow> W1 ys \<or> W2 ys"
  shows "search_ok env d W yes ck (if fst res1 then (True, snd res1) else res2)"
proof (cases "fst res1")
  case True
  then show ?thesis using assms(1,3) by (simp add: search_ok_def)
next
  case False
  note S = search_okD[OF assms(1)] and R = search_okD[OF assms(2)[OF False]]
  have "cut_off (ck_path (snd res2)) d ys" if h: "W ys" "\<not> fst res2" for ys
    using assms(5)[OF h(1)] S(4)[OF False, of ys] R(4)[OF h(2), of ys] cut_off_mono[OF _ R(1), of ys] by blast
  then show ?thesis using False R(2,3) assms(4) path_kept_trans[OF S(1) R(1)] by (simp add: search_ok_def)
qed

text \<open>A search below a link, seen from the row the link leaves.\<close>

lemma search_ok_below:
  assumes s: "search_ok env (Suc d) W yes ck res" and e: "entry_node (ck_path ck ! d) = x"
    and W: "\<And>ys. V ys \<Longrightarrow> \<exists>zs. ys = x # zs \<and> zs \<noteq> [] \<and> x \<notin> set (butlast zs) \<and> W zs"
  shows "search_ok env d V yes ck res"
proof -
  note S = search_okD[OF s]
  have x: "entry_node (ck_path (snd res) ! d) = x" using S(1) e by (simp add: path_kept_def)
  have "cut_off (ck_path (snd res)) d ys" if h: "V ys" "\<not> fst res" for ys
  proof -
    obtain zs where zs: "ys = x # zs" "zs \<noteq> []" "x \<notin> set (butlast zs)" "W zs" using W[OF h(1)] by blast
    show ?thesis unfolding zs(1) by (rule cut_off_Cons[OF S(4)[OF h(2) zs(4)] x zs(3,2)])
  qed
  moreover have "path_kept d (ck_path ck) (ck_path (snd res))" by (rule path_kept_le[OF S(1)]) simp
  ultimately show ?thesis using S(2,3) by (simp add: search_ok_def)
qed

lemma search_ok_start:
  assumes "path_kept d (ck_path ck) (ck_path ck')" "search_ok env d W yes ck' res"
  shows "search_ok env d W yes ck res"
  using assms path_kept_trans by (auto simp: search_ok_def)

section \<open>The three functions\<close>

definition row_threat :: "check_env \<Rightarrow> size \<Rightarrow> size \<Rightarrow> nat \<Rightarrow> node list \<Rightarrow> bool" where
  "row_threat env t r d ys \<longleftrightarrow> threat env (t, r) ys \<and> (d = 0 \<longrightarrow> 1 < length ys)"

definition row_yes :: "check_env \<Rightarrow> size \<Rightarrow> size \<Rightarrow> nat \<Rightarrow> bool" where
  "row_yes env t r d \<longleftrightarrow> d < path_limit \<and>
     ((0 < d \<and> modified_node env (t, r)) \<or> modified_within env (3 - d) (t, r))"

definition links_threat :: "check_env \<Rightarrow> size \<Rightarrow> size \<Rightarrow> outgoing_link list \<Rightarrow> node list \<Rightarrow> bool" where
  "links_threat env t r ls ys \<longleftrightarrow>
     (\<exists>y zs. ys = (t, r) # y # zs \<and> threat env (t, r) ys \<and> (\<exists>l \<in> set ls. y \<in> link_ends env (t, r) l))"

definition links_yes :: "check_env \<Rightarrow> size \<Rightarrow> size \<Rightarrow> nat \<Rightarrow> outgoing_link list \<Rightarrow> bool" where
  "links_yes env t r d ls \<longleftrightarrow> (\<exists>l \<in> set ls. \<exists>y \<in> link_ends env (t, r) l. row_yes env (fst y) (snd y) (Suc d))"

lemma cut_off_links:
  assumes "\<exists>j < d. entry_node (p ! j) = (t, r) \<and> (\<forall>l. j \<le> l \<longrightarrow> l < d \<longrightarrow> pe_exceeded (p ! l))"
    and "links_threat env t r ls ys"
  shows "cut_off p d ys"
proof -
  have "(t, r) \<in> set (butlast ys)" using assms(2) by (auto simp: links_threat_def)
  then show ?thesis using assms(1) unfolding cut_off_def by metis
qed

lemma is_modified_node: "is_modified env t r \<longleftrightarrow> modified_node env (t, r)"
  by (simp add: modified_node_def)

text \<open>A row is remembered only after a search from it that nothing has cut off.\<close>

lemma links_exhausted:
  assumes s: "search_ok env d (links_threat env t r (related_links env t)) yes ck res"
    and no: "\<not> fst res" and d: "d < path_limit" and flag: "d = 0 \<or> \<not> pe_exceeded (ck_path (snd res) ! (d - 1))"
  shows "\<not> modified_within env 3 (t, r)"
proof
  assume "modified_within env 3 (t, r)"
  then obtain ys where ys: "threat env (t, r) ys" "1 < length ys" by (rule within_threat)
  then obtain y zs where e: "ys = (t, r) # y # zs"
    by (cases ys; cases "tl ys") (auto simp: threat_def)
  have "y \<in> linked env (t, r)" using threat_tail(1) ys(1) e by blast
  then have "links_threat env t r (related_links env t) ys"
    using ys(1) e by (auto simp: links_threat_def linked_def)
  from search_okD(4)[OF s no this] have c: "cut_off (ck_path (snd res)) d ys" .
  show False
  proof (cases "d = 0")
    case True
    then show ?thesis using c ys(1) by (simp add: cut_off_def threat_def)
  next
    case False
    then have nf: "\<not> pe_exceeded (ck_path (snd res) ! (d - 1))" "d - 1 < d" using flag by simp_all
    from c show ?thesis unfolding cut_off_def
    proof (elim disjE exE conjE)
      assume "\<forall>j < d. pe_exceeded (ck_path (snd res) ! j)"
      then show ?thesis using nf by blast
    next
      fix j assume "j < d" "\<forall>l. j \<le> l \<longrightarrow> l < d \<longrightarrow> pe_exceeded (ck_path (snd res) ! l)"
      moreover from this(1) have "j \<le> d - 1" by simp
      ultimately show ?thesis using nf by blast
    qed
  qed
qed

lemma threat_within:
  assumes "threat env x ys" "1 < length ys"
  shows "modified_within env 3 x"
proof -
  obtain y zs where "ys = x # y # zs" using assms by (cases ys; cases "tl ys") (auto simp: threat_def)
  then show ?thesis using assms(1) unfolding modified_within_walk
    by (intro exI[of _ "y # zs"]) (simp add: threat_def path_limit_def)
qed

lemma row_threat_long:
  assumes "row_threat env t r d ys" "\<not> (0 < d \<and> is_modified env t r)"
  shows "threat env (t, r) ys" "1 < length ys"
proof -
  show th: "threat env (t, r) ys" using assms(1) by (simp add: row_threat_def)
  show "1 < length ys"
  proof (cases ys)
    case (Cons x zs)
    then show ?thesis using assms th
      by (cases zs) (auto simp: row_threat_def threat_def is_modified_node)
  qed (use th in \<open>simp add: threat_def\<close>)
qed

text \<open>The links of a row: a negative answer below each of them.\<close>

lemma link_search_below:
  assumes "search_ok env (Suc d)
      (\<lambda>ys. \<exists>r' \<in> set (link_rows env t r l). row_threat env (ls_target (ce_store env) t (ol_col l)) r' (Suc d) ys)
      (\<exists>r' \<in> set (link_rows env t r l). row_yes env (ls_target (ce_store env) t (ol_col l)) r' (Suc d)) ck res"
    and "entry_node (ck_path ck ! d) = (t, r)"
  shows "search_ok env d (links_threat env t r [l]) (links_yes env t r d [l]) ck res"
proof -
  have y: "links_yes env t r d [l] \<longleftrightarrow>
      (\<exists>r' \<in> set (link_rows env t r l). row_yes env (ls_target (ce_store env) t (ol_col l)) r' (Suc d))"
    by (auto simp: links_yes_def link_ends_def)
  have "\<exists>zs. ys = (t, r) # zs \<and> zs \<noteq> [] \<and> (t, r) \<notin> set (butlast zs) \<and>
      (\<exists>r' \<in> set (link_rows env t r l). row_threat env (ls_target (ce_store env) t (ol_col l)) r' (Suc d) zs)"
    if h: "links_threat env t r [l] ys" for ys
  proof -
    obtain y zs where e: "ys = (t, r) # y # zs" and th: "threat env (t, r) ((t, r) # y # zs)"
      and y: "y \<in> link_ends env (t, r) l" using h unfolding links_threat_def by auto
    obtain r' where r': "r' \<in> set (link_rows env t r l)" "y = (ls_target (ce_store env) t (ol_col l), r')"
      using y by (auto simp: link_ends_def)
    note T = threat_tail[OF th]
    have "row_threat env (ls_target (ce_store env) t (ol_col l)) r' (Suc d) (y # zs)"
      using T(2) r'(2) by (simp add: row_threat_def)
    then show ?thesis using e T(3) r'(1) by blast
  qed
  from search_ok_below[OF assms(1,2) this] show ?thesis unfolding y by simp
qed

lemma links_threat_Cons: "links_threat env t r (l # ls) ys \<longleftrightarrow> links_threat env t r [l] ys \<or> links_threat env t r ls ys"
  by (auto simp: links_threat_def)

lemma links_yes_Cons: "links_yes env t r d (l # ls) \<longleftrightarrow> links_yes env t r d [l] \<or> links_yes env t r d ls"
  by (auto simp: links_yes_def)

lemma links_yes_row:
  assumes "links_yes env t r d (related_links env t)" "d < path_limit"
  shows "row_yes env t r d"
proof -
  obtain l y where y: "l \<in> set (related_links env t)" "y \<in> link_ends env (t, r) l" "row_yes env (fst y) (snd y) (Suc d)"
    using assms(1) by (auto simp: links_yes_def)
  then have d: "Suc d < path_limit" and m: "modified_node env y \<or> modified_within env (3 - Suc d) y"
    by (auto simp: row_yes_def)
  have "3 - d = Suc (3 - Suc d)" using d by (simp add: path_limit_def)
  moreover have "y \<in> linked env (t, r)" using y(1,2) by (auto simp: linked_def)
  ultimately show ?thesis using m assms(2) by (auto simp: row_yes_def)
qed

lemma search_ok_weaken:
  "search_ok env d W yes ck res \<Longrightarrow> (yes \<Longrightarrow> yes') \<Longrightarrow> (\<And>ys. W' ys \<Longrightarrow> W ys) \<Longrightarrow> search_ok env d W' yes' ck res"
  by (auto simp: search_ok_def)

theorem check_spec:
  shows "\<lbrakk>length (ck_path ck) = path_limit; clean_ok env ck; d \<le> path_limit\<rbrakk> \<Longrightarrow>
      search_ok env d (row_threat env t r d) (row_yes env t r d) ck (check_row env t r d ck)"
    and "\<lbrakk>length (ck_path ck) = path_limit; clean_ok env ck; d < path_limit\<rbrakk> \<Longrightarrow>
      search_ok env d (links_threat env t r ls) (links_yes env t r d ls) ck (check_outgoing_links env t r d ls ck)"
    and "\<lbrakk>length (ck_path ck) = path_limit; clean_ok env ck; d \<le> path_limit\<rbrakk> \<Longrightarrow>
      search_ok env d (\<lambda>ys. \<exists>r \<in> set rows. row_threat env t r d ys) (\<exists>r \<in> set rows. row_yes env t r d) ck
        (check_list env t d rows ck)"
proof (induction env t r d ck and env t r d ls ck and env t d rows ck
    rule: check_row_check_outgoing_links_check_list.induct)
  case (1 env t r d ck)
  show ?case
  proof (cases "path_limit \<le> d")
    case True
    then have d: "d = path_limit" using 1(4) by simp
    have "cut_off (exceed 0 (length (ck_path ck)) (ck_path ck)) d ys" if "row_threat env t r d ys" for ys
      using that 1(2) d by (auto simp: cut_off_def row_threat_def threat_def exceed_simps)
    then show ?thesis using True 1(2,3) d
      by (simp add: check_row.simps search_ok_def path_kept_exceed clean_ok_def)
  next
    case d: False
    show ?thesis
    proof (cases "0 < d \<and> is_modified env t r")
      case True
      then show ?thesis using d 1(3)
        by (simp add: check_row.simps search_ok_def row_yes_def is_modified_node)
    next
      case unmod: False
      let ?ck = "clean_resize t ck"
      note C = clean_ok_resize[OF 1(3), of t]
      have long: "threat env (t, r) ys" "1 < length ys" if "row_threat env t r d ys" for ys
        by (rule row_threat_long[OF that unmod])+
      show ?thesis
      proof (cases "contains (ck_clean ?ck ! t) r")
        case True
        then have "\<not> modified_within env 3 (t, r)"
          using C(1,2) by (auto simp: clean_ok_def contains_iff)
        then have "\<not> row_threat env t r d ys" for ys using long threat_within by blast
        then show ?thesis using d unmod True C(1,3)
          by (auto simp: check_row.simps[of env t r d ck] search_ok_def)
      next
        case False
        obtain ret ck' where res: "check_outgoing_links env t r d (related_links env t) ?ck = (ret, ck')"
          by (cases "check_outgoing_links env t r d (related_links env t) ?ck")
        have S: "search_ok env d (links_threat env t r (related_links env t)) (links_yes env t r d (related_links env t))
            ?ck (ret, ck')"
          using 1(1)[OF d unmod refl False] C(1,3) 1(2) d unfolding res by simp
        have lt: "links_threat env t r (related_links env t) ys" if h: "row_threat env t r d ys" for ys
        proof -
          obtain y zs where e: "ys = (t, r) # y # zs"
            using long[OF h] by (cases ys; cases "tl ys") (auto simp: threat_def)
          then have "y \<in> linked env (t, r)" using threat_tail(1) long(1)[OF h] by blast
          then show ?thesis using long(1)[OF h] e by (auto simp: links_threat_def linked_def)
        qed
        have R: "search_ok env d (row_threat env t r d) (row_yes env t r d) ck (ret, ck')"
          by (rule search_ok_weaken[OF search_ok_start[OF _ S]])
            (use C(3) d lt links_yes_row in simp_all)
        show ?thesis
        proof (cases "\<not> ret \<and> (d = 0 \<or> \<not> pe_exceeded (ck_path ck' ! (d - 1)))")
          case True
          have n: "\<not> modified_within env 3 (t, r)"
            by (rule links_exhausted[OF S]) (use True d in simp_all)
          have c: "clean_ok env ck'" "path_kept d (ck_path ck) (ck_path ck')" using search_okD(1,2)[OF R] by simp_all
          have "clean_ok env (ck'\<lparr>ck_clean := (ck_clean ck')[t := add (ck_clean ck' ! t) r]\<rparr>)"
          proof (cases "t < length (ck_clean ck')")
            case True
            then show ?thesis by (rule clean_ok_add[OF c(1) _ n])
          qed (use c(1) in \<open>simp add: clean_ok_def\<close>)
          then have "search_ok env d (row_threat env t r d) (row_yes env t r d) ck
              (ret, ck'\<lparr>ck_clean := (ck_clean ck')[t := add (ck_clean ck' ! t) r]\<rparr>)"
            using R by (simp add: search_ok_def)
          then show ?thesis using d unmod False res True by (auto simp: check_row.simps[of env t r d ck] Let_def)
        next
          case no: False
          then show ?thesis using d unmod False res R by (auto simp: check_row.simps[of env t r d ck] Let_def)
        qed
      qed
    qed
  qed
next
  case (2 env t r d ck)
  then show ?case by (simp add: search_ok_def links_threat_def)
next
  case (3 env t r d l ls ck)
  let ?target = "ls_target (ce_store env) t (ol_col l)"
  obtain busy ck1 where ac: "already_checking t r (ol_col l) d ck = (busy, ck1)"
    by (cases "already_checking t r (ol_col l) d ck")
  define res1 where "res1 = (if busy then (False, ck1)
      else if \<not> ol_is_list l then
        if ls_is_null (ce_store env) t (ol_col l) r then (False, ck1)
        else check_row env ?target (ls_link (ce_store env) t (ol_col l) r) (d + 1) ck1
      else check_list env ?target (d + 1) (ls_list (ce_store env) t (ol_col l) r) ck1)"
  have step: "check_outgoing_links env t r d (l # ls) ck =
      (if fst res1 then (True, snd res1) else check_outgoing_links env t r d ls (snd res1))"
    by (cases busy; cases "ol_is_list l"; cases "ls_is_null (ce_store env) t (ol_col l) r")
      (simp_all add: ac res1_def case_prod_beta Let_def)
  have first: "search_ok env d (links_threat env t r [l]) (links_yes env t r d [l]) ck res1"
  proof (cases busy)
    case True
    have le: "d \<le> length (ck_path ck)" using 3(4,6) by simp
    have "already_checking t r (ol_col l) d ck = (True, ck1)" using ac True by simp
    note A = already_checking_True[OF this le]
    show ?thesis using A(1) cut_off_links[OF A(3)] 3(5) A(2) True
      by (simp add: res1_def search_ok_def clean_ok_def)
  next
    case False
    have lt: "d < length (ck_path ck)" using 3(4,6) by simp
    have "already_checking t r (ol_col l) d ck = (False, ck1)" using ac False by simp
    note A = already_checking_False[OF this lt]
    have ck1: "length (ck_path ck1) = path_limit" "clean_ok env ck1"
      using A(1,2) 3(4,5) by (simp_all add: path_kept_def clean_ok_def)
    have "search_ok env (Suc d)
        (\<lambda>ys. \<exists>r' \<in> set (link_rows env t r l). row_threat env ?target r' (Suc d) ys)
        (\<exists>r' \<in> set (link_rows env t r l). row_yes env ?target r' (Suc d)) ck1 res1"
    proof (cases "ol_is_list l")
      case True
      then show ?thesis using 3(2)[OF refl refl refl ac[symmetric] False] ck1 3(6) False
        by (simp add: res1_def link_rows_def)
    next
      case single: False
      show ?thesis
      proof (cases "ls_is_null (ce_store env) t (ol_col l) r")
        case True
        then show ?thesis using single False ck1 by (simp add: res1_def link_rows_def search_ok_def)
      next
        case no: False
        then show ?thesis using 3(1)[OF refl refl refl ac[symmetric] False] ck1 3(6) False single
          by (simp add: res1_def link_rows_def)
      qed
    qed
    from search_ok_start[OF A(1) link_search_below[OF this A(3)]] show ?thesis .
  qed
  have rest: "search_ok env d (links_threat env t r ls) (links_yes env t r d ls) (snd res1)
      (check_outgoing_links env t r d ls (snd res1))" if no: "\<not> fst res1"
  proof -
    have ok: "length (ck_path (snd res1)) = path_limit" "clean_ok env (snd res1)"
      using search_okD(2,5)[OF first] 3(4) by simp_all
    have split: "(fst res1, snd res1) = res1" by simp
    show ?thesis by (rule 3(3)[OF refl refl refl ac[symmetric] res1_def split no ok 3(6)])
  qed
  show ?case unfolding step
    by (rule search_ok_then[OF first rest]) (use links_threat_Cons[of env t r l ls] links_yes_Cons[of env t r d l ls] in blast)+
next
  case (4 env t d ck)
  then show ?case by (simp add: search_ok_def)
next
  case (5 env t d row rows ck)
  have first: "search_ok env d (row_threat env t row d) (row_yes env t row d) ck (check_row env t row d ck)"
    by (rule 5(1)[OF 5(3-5)])
  have rest: "search_ok env d (\<lambda>ys. \<exists>r \<in> set rows. row_threat env t r d ys) (\<exists>r \<in> set rows. row_yes env t r d)
      (snd (check_row env t row d ck)) (check_list env t d rows (snd (check_row env t row d ck)))"
    if no: "\<not> fst (check_row env t row d ck)"
    by (rule 5(2)[OF _ _ no]) (use search_okD(2,5)[OF first] 5(3,5) in simp_all)
  have step: "check_list env t d (row # rows) ck = (if fst (check_row env t row d ck) then (True, snd (check_row env t row d ck))
      else check_list env t d rows (snd (check_row env t row d ck)))"
    by (simp add: case_prod_beta)
  show ?case unfolding step by (rule search_ok_then[OF first rest]) auto
qed

section \<open>The answers\<close>

lemma check_changed_spec:
  assumes "length (ck_path ck) = path_limit" "clean_ok env ck"
  shows "fst (check_changed env root row ck) \<longleftrightarrow>
      modified_node env (root, row) \<or> modified_within env 3 (root, row)"
    "length (ck_path (snd (check_changed env root row ck))) = path_limit"
    "clean_ok env (snd (check_changed env root row ck))"
proof -
  have S: "search_ok env 0 (row_threat env root row 0) (row_yes env root row 0) ck (check_row env root row 0 ck)"
    by (rule check_spec(1)[OF assms]) simp
  note D = search_okD[OF S]
  have "fst (check_row env root row 0 ck) \<longleftrightarrow> modified_within env 3 (root, row)"
  proof
    assume "fst (check_row env root row 0 ck)"
    then show "modified_within env 3 (root, row)" using D(3) by (simp add: row_yes_def)
  next
    assume "modified_within env 3 (root, row)"
    then obtain ys where ys: "threat env (root, row) ys" "1 < length ys" by (rule within_threat)
    show "fst (check_row env root row 0 ck)"
    proof (rule ccontr)
      assume "\<not> fst (check_row env root row 0 ck)"
      from D(4)[OF this, of ys] ys show False by (simp add: row_threat_def cut_off_def threat_def)
    qed
  qed
  then show "fst (check_changed env root row ck) \<longleftrightarrow>
      modified_node env (root, row) \<or> modified_within env 3 (root, row)"
    by (auto simp: check_changed_def is_modified_node)
  show "length (ck_path (snd (check_changed env root row ck))) = path_limit"
    "clean_ok env (snd (check_changed env root row ck))"
    using D(2,5) assms by (simp_all add: check_changed_def)
qed

lemma check_all_spec:
  assumes "length (ck_path ck) = path_limit" "clean_ok env ck"
  shows "check_all env root rows ck =
    map (\<lambda>r. modified_node env (root, r) \<or> modified_within env 3 (root, r)) rows"
  using assms
proof (induction rows arbitrary: ck)
  case (Cons r rows)
  note C = check_changed_spec[OF Cons.prems, of root r]
  show ?case using C(1) Cons.IH[OF C(2,3)] by (simp add: case_prod_beta)
qed simp

lemma clean_ok_new: "clean_ok env (new_checker path)"
  by (simp add: clean_ok_def new_checker_def)

section \<open>The related tables\<close>

definition link_columns :: "link_store \<Rightarrow> size \<Rightarrow> size list" where
  "link_columns db t = filter (\<lambda>i. ls_columns db t ! i \<noteq> Other_Column) [0..<length (ls_columns db t)]"

definition table_links :: "link_store \<Rightarrow> (size \<times> size) set" where
  "table_links db = {(t, u). u < ls_count db \<and> (\<exists>i \<in> set (link_columns db t). u = ls_target db t i)}"

text \<open>What one call appends to the list.\<close>

definition closed_tables :: "link_store \<Rightarrow> size set \<Rightarrow> size \<Rightarrow> related_table list \<Rightarrow> bool" where
  "closed_tables db seen root new \<longleftrightarrow> (\<forall>x \<in> set new. rt_table x < ls_count db \<and>
     rt_links x = map (column_link db (rt_table x)) (link_columns db (rt_table x)) \<and>
     table_links db `` {rt_table x} \<subseteq> seen \<and> (root, rt_table x) \<in> (table_links db)\<^sup>*)"

definition tables_of :: "related_table list \<Rightarrow> size set" where
  "tables_of out = rt_table ` set out"

lemma tables_of_simps [simp]:
  "tables_of [] = {}" "tables_of (out @ out') = tables_of out \<union> tables_of out'" "tables_of (x # out) = insert (rt_table x) (tables_of out)"
  by (auto simp: tables_of_def)

lemma closed_tables_mono:
  "closed_tables db seen root new \<Longrightarrow> seen \<subseteq> seen' \<Longrightarrow> (root', root) \<in> (table_links db)\<^sup>* \<Longrightarrow> closed_tables db seen' root' new"
  by (auto simp: closed_tables_def intro: rtrancl_trans)

definition room :: "link_store \<Rightarrow> related_table list \<Rightarrow> nat" where
  "room db out = card ({..<ls_count db} - tables_of out)"

lemma room_less: "t < ls_count db \<Longrightarrow> t \<notin> tables_of out \<Longrightarrow> insert t (tables_of out) \<subseteq> tables_of out' \<Longrightarrow> room db out' < room db out"
  unfolding room_def by (rule psubset_card_mono) auto

definition found_tables :: "link_store \<Rightarrow> related_table list \<Rightarrow> size \<Rightarrow> related_table list \<Rightarrow> bool" where
  "found_tables db out table new \<longleftrightarrow>
     distinct (map rt_table (out @ new)) \<and> closed_tables db (tables_of (out @ new)) table new \<and>
     (table < ls_count db \<longrightarrow> table \<in> tables_of (out @ new))"

lemma push_link_middle:
  "push_link (out @ \<lparr>rt_table = t, rt_links = ls\<rparr> # new) (length out) l = out @ \<lparr>rt_table = t, rt_links = ls @ [l]\<rparr> # new"
  by (simp add: push_link_def)

text \<open>The scan of the columns of one table, once the calls it makes are known to behave.\<close>

lemma scan_columns:
  assumes IH: "\<And>out u. distinct (map rt_table out) \<Longrightarrow> room db out < fuel \<Longrightarrow>
      \<exists>new. find_related fuel db out u = Some (out @ new) \<and> found_tables db out u new"
    and t: "t < ls_count db" "t \<notin> tables_of out" "distinct (map rt_table out)" "room db out < Suc fuel"
    and n: "n \<le> length (ls_columns db t)"
  shows "\<exists>new. foldl (\<lambda>res i. case res of None \<Rightarrow> None | Some out' \<Rightarrow>
            if ls_columns db t ! i = Other_Column then Some out'
            else find_related fuel db (push_link out' (length out) (column_link db t i)) (ls_target db t i))
          (Some (out @ [\<lparr>rt_table = t, rt_links = []\<rparr>])) [0..<n] =
        Some (out @ \<lparr>rt_table = t, rt_links = map (column_link db t) (filter (\<lambda>i. ls_columns db t ! i \<noteq> Other_Column) [0..<n])\<rparr> # new) \<and>
      distinct (map rt_table out @ t # map rt_table new) \<and>
      closed_tables db (insert t (tables_of (out @ new))) t new \<and>
      (\<forall>i < n. ls_columns db t ! i \<noteq> Other_Column \<longrightarrow> ls_target db t i < ls_count db \<longrightarrow>
        ls_target db t i \<in> insert t (tables_of (out @ new)))"
  using n
proof (induction n)
  case 0
  have "t \<notin> rt_table ` set out" using t(2) by (simp add: tables_of_def)
  then show ?case using t(3) by (intro exI[of _ "[]"]) (simp add: closed_tables_def)
next
  case (Suc n)
  let ?ls = "\<lambda>n. map (column_link db t) (filter (\<lambda>i. ls_columns db t ! i \<noteq> Other_Column) [0..<n])"
  from Suc.IH[OF Suc_leD[OF Suc.prems]]
  obtain new where new: "foldl (\<lambda>res i. case res of None \<Rightarrow> None | Some out' \<Rightarrow>
            if ls_columns db t ! i = Other_Column then Some out'
            else find_related fuel db (push_link out' (length out) (column_link db t i)) (ls_target db t i))
          (Some (out @ [\<lparr>rt_table = t, rt_links = []\<rparr>])) [0..<n] = Some (out @ \<lparr>rt_table = t, rt_links = ?ls n\<rparr> # new)"
    and d: "distinct (map rt_table out @ t # map rt_table new)"
    and c: "closed_tables db (insert t (tables_of (out @ new))) t new"
    and r: "\<forall>i < n. ls_columns db t ! i \<noteq> Other_Column \<longrightarrow> ls_target db t i < ls_count db \<longrightarrow>
        ls_target db t i \<in> insert t (tables_of (out @ new))"
    by (elim exE conjE)
  show ?case
  proof (cases "ls_columns db t ! n = Other_Column")
    case True
    then show ?thesis using new d c r by (intro exI[of _ new]) (simp add: less_Suc_eq)
  next
    case False
    let ?out = "out @ \<lparr>rt_table = t, rt_links = ?ls (Suc n)\<rparr> # new" and ?u = "ls_target db t n"
    have l: "push_link (out @ \<lparr>rt_table = t, rt_links = ?ls n\<rparr> # new) (length out) (column_link db t n) = ?out"
      using False by (simp add: push_link_middle)
    have "tables_of ?out = insert t (tables_of (out @ new))" by (auto simp: tables_of_def)
    note tabs = this
    have "room db ?out < room db out" by (rule room_less[OF t(1,2)]) (auto simp: tables_of_def)
    then have "room db ?out < fuel" using t(4) by simp
    from IH[OF _ this, of ?u] d obtain more where more: "find_related fuel db ?out ?u = Some (?out @ more)"
      "found_tables db ?out ?u more" by auto
    have reach: "(t, ?u) \<in> (table_links db)\<^sup>*" if "?u < ls_count db"
      using that False Suc.prems by (intro r_into_rtrancl) (auto simp: table_links_def link_columns_def intro!: exI[of _ n])
    have none: "more = []" if "\<not> ?u < ls_count db"
    proof -
      have "find_related fuel db ?out ?u = Some ?out" if "fuel = Suc k" for k
        using \<open>\<not> ?u < ls_count db\<close> that by (simp add: index_in_group_def Let_def)
      then show ?thesis using more(1) by (cases fuel) auto
    qed
    have tabs': "tables_of (?out @ more) = insert t (tables_of (out @ new @ more))"
      using tabs by (simp add: Un_assoc)
    have cm: "closed_tables db (insert t (tables_of (out @ new @ more))) ?u more"
      using more(2) unfolding found_tables_def tabs' by blast
    have "closed_tables db (insert t (tables_of (out @ new @ more))) t more"
    proof (cases "?u < ls_count db")
      case True
      show ?thesis by (rule closed_tables_mono[OF cm order_refl reach[OF True]])
    next
      case False
      then show ?thesis using none by (simp add: closed_tables_def)
    qed
    then have "closed_tables db (insert t (tables_of (out @ (new @ more)))) t (new @ more)"
      using closed_tables_mono[OF c, of "insert t (tables_of (out @ (new @ more)))" t]
      by (auto simp: closed_tables_def)
    moreover have "distinct (map rt_table out @ t # map rt_table (new @ more))"
      using more(2) by (simp add: found_tables_def)
    moreover have "?u < ls_count db \<longrightarrow> ?u \<in> insert t (tables_of (out @ (new @ more)))"
      using more(2) tabs by (auto simp: found_tables_def)
    ultimately show ?thesis using new False l more(1) r
      by (intro exI[of _ "new @ more"]) (auto simp: less_Suc_eq)
  qed
qed

lemma find_related_spec:
  assumes "ls_count db \<le> npos" "distinct (map rt_table out)" "room db out < fuel"
  shows "\<exists>new. find_related fuel db out table = Some (out @ new) \<and> found_tables db out table new"
  using assms(2,3)
proof (induction fuel arbitrary: out table)
  case (Suc fuel)
  show ?case
  proof (cases "table < ls_count db \<and> table \<notin> tables_of out")
    case False
    then show ?thesis using Suc.prems(1)
      by (intro exI[of _ "[]"]) (auto simp: index_in_group_def Let_def found_tables_def closed_tables_def tables_of_def)
  next
    case True
    then have i: "index_in_group db table = table" "table \<noteq> npos" using assms(1) by (simp_all add: index_in_group_def)
    obtain new where new: "foldl (\<lambda>res i. case res of None \<Rightarrow> None | Some out' \<Rightarrow>
            if ls_columns db table ! i = Other_Column then Some out'
            else find_related fuel db (push_link out' (length out) (column_link db table i)) (ls_target db table i))
          (Some (out @ [\<lparr>rt_table = table, rt_links = []\<rparr>])) [0..<length (ls_columns db table)] =
        Some (out @ \<lparr>rt_table = table, rt_links = map (column_link db table) (link_columns db table)\<rparr> # new)"
      and d: "distinct (map rt_table out @ table # map rt_table new)"
      and c: "closed_tables db (insert table (tables_of (out @ new))) table new"
      and r: "\<forall>i < length (ls_columns db table). ls_columns db table ! i \<noteq> Other_Column \<longrightarrow>
        ls_target db table i < ls_count db \<longrightarrow> ls_target db table i \<in> insert table (tables_of (out @ new))"
      using scan_columns[OF Suc.IH _ _ Suc.prems(1,2) order_refl, of table] True
      unfolding link_columns_def by blast
    let ?new = "\<lparr>rt_table = table, rt_links = map (column_link db table) (link_columns db table)\<rparr> # new"
    have "find_related (Suc fuel) db out table = Some (out @ ?new)"
      using new True i by (simp add: tables_of_def Let_def)
    moreover have "found_tables db out table ?new"
    proof -
      have "tables_of (out @ ?new) = insert table (tables_of (out @ new))" by (auto simp: tables_of_def)
      moreover have "table_links db `` {table} \<subseteq> insert table (tables_of (out @ new))"
        using r by (auto simp: table_links_def link_columns_def)
      ultimately show ?thesis using c d True by (simp add: found_tables_def closed_tables_def)
    qed
    ultimately show ?thesis by blast
  qed
qed simp

end
