(* ===== verification/Checker_Properties.thy ===== *)
theory Checker_Properties
  imports Change_Checker_Laws
begin

text \<open>What the modification checkers of the notifiers answer, and which tables they watch.\<close>

section \<open>The tables in reach\<close>

lemma found_from_empty:
  assumes "found_tables db [] root new" "root < ls_count db"
  shows "tables_of new = {t. (root, t) \<in> (table_links db)\<^sup>*}"
proof (intro equalityI subsetI)
  fix t assume "t \<in> tables_of new"
  then show "t \<in> {t. (root, t) \<in> (table_links db)\<^sup>*}"
    using assms(1) by (auto simp: found_tables_def closed_tables_def tables_of_def)
next
  fix t assume "t \<in> {t. (root, t) \<in> (table_links db)\<^sup>*}"
  then have "(root, t) \<in> (table_links db)\<^sup>*" by simp
  then show "t \<in> tables_of new"
  proof (induction rule: rtrancl_induct)
    case base
    then show ?case using assms by (simp add: found_tables_def)
  next
    case (step t u)
    then obtain x where "x \<in> set new" "rt_table x = t" by (auto simp: tables_of_def)
    then have "table_links db `` {t} \<subseteq> tables_of new"
      using assms(1) by (auto simp: found_tables_def closed_tables_def)
    then show ?case using step by auto
  qed
qed

lemma found_links:
  assumes "found_tables db [] root new" "x \<in> set new" "ce_related env = new"
  shows "related_links env (rt_table x) = map (column_link db (rt_table x)) (link_columns db (rt_table x))"
proof -
  have d: "distinct (map rt_table new)" using assms(1) by (simp add: found_tables_def)
  have "List.find (\<lambda>r. rt_table r = rt_table x) new = Some x"
    using d assms(2)
  proof (induction new)
    case (Cons y new)
    then show ?case by (cases "rt_table y = rt_table x") (auto dest: imageI[of x _ rt_table])
  qed simp
  then show ?thesis using assms by (auto simp: related_links_def found_tables_def closed_tables_def)
qed

text \<open>
  C32. \<open>find_related_tables\<close> returns, and lists every table that can be reached over links from the given
  one, each once and with exactly its link columns.
\<close>

theorem related_tables_exact:
  assumes "ls_count db \<le> npos" "root < ls_count db"
  shows "\<exists>out. find_related_tables db [] root = Some out \<and> distinct (map rt_table out) \<and>
    rt_table ` set out = {t. (root, t) \<in> (table_links db)\<^sup>*} \<and>
    (\<forall>x \<in> set out. rt_links x = map (column_link db (rt_table x)) (link_columns db (rt_table x)))"
proof -
  have "room db [] \<le> card {..<ls_count db}" unfolding room_def by (rule card_mono) auto
  then have "room db [] < ls_count db + 2" by simp
  from find_related_spec[OF assms(1) _ this, of root] obtain new where
    n: "find_related_tables db [] root = Some new" "found_tables db [] root new"
    by (auto simp: find_related_tables_def)
  then have "distinct (map rt_table new)"
    "\<forall>x \<in> set new. rt_links x = map (column_link db (rt_table x)) (link_columns db (rt_table x))"
    by (simp_all add: found_tables_def closed_tables_def)
  then show ?thesis using n(1) found_from_empty[OF n(2) assms(2)] by (auto simp: tables_of_def)
qed

text \<open>Two tables that link to each other.\<close>

definition two_tables :: link_store where
  "two_tables = \<lparr>ls_count = 2, ls_columns = (\<lambda>t. if t = 0 then [Other_Column, Link_Column] else [Link_List_Column]),
     ls_target = (\<lambda>t c. 1 - t), ls_is_null = (\<lambda>t c r. r = 0), ls_link = (\<lambda>t c r. r), ls_list = (\<lambda>t c r. [r])\<rparr>"

theorem related_tables_exact_witness:
  "\<exists>out. find_related_tables two_tables [] 0 = Some out \<and> distinct (map rt_table out) \<and>
    rt_table ` set out = {t. (0, t) \<in> (table_links two_tables)\<^sup>*} \<and>
    (\<forall>x \<in> set out. rt_links x = map (column_link two_tables (rt_table x)) (link_columns two_tables (rt_table x)))"
  by (rule related_tables_exact) (simp_all add: two_tables_def npos_def)

section \<open>The answers\<close>

lemma nothing_modified_within:
  assumes "\<And>x y. fst x \<in> S \<Longrightarrow> y \<in> linked env x \<Longrightarrow> fst y \<in> S" "\<And>x. fst x \<in> S \<Longrightarrow> \<not> modified_node env x" "fst x \<in> S"
  shows "\<not> modified_within env n x"
  using assms(3)
proof (induction n arbitrary: x)
  case (Suc n)
  then show ?case using assms(1,2) by auto
qed simp

lemma contains_single: "contains (add [] i) j \<longleftrightarrow> j = i" "add [] i \<noteq> []"
proof -
  show "contains (add [] i) j \<longleftrightarrow> j = i" using contains_iff[of "add [] i" j] by (simp add: add_spec)
  have "idx (add [] i) \<noteq> {}" by (simp add: add_spec)
  then show "add [] i \<noteq> []" by auto
qed

lemma not_contains_Nil [simp]: "\<not> contains [] i"
  using contains_iff[of "[]" i] by simp

lemma linked_in_related:
  assumes "found_tables db [] root related" "env = \<lparr>ce_store = db, ce_tables = tables, ce_related = related\<rparr>"
    and "\<forall>t < ls_count db. \<forall>c. ls_target db t c < ls_count db" "fst x \<in> tables_of related" "y \<in> linked env x"
  shows "fst y \<in> tables_of related"
proof -
  obtain r where r: "r \<in> set related" "rt_table r = fst x" using assms(4) by (auto simp: tables_of_def)
  have "closed_tables db (tables_of related) root related" using assms(1) by (simp add: found_tables_def)
  then have "rt_table r < ls_count db" and c: "table_links db `` {rt_table r} \<subseteq> tables_of related"
    using r(1) unfolding closed_tables_def by blast+
  obtain l where l: "l \<in> set (related_links env (fst x))" "y \<in> link_ends env x l" using assms(5) by (auto simp: linked_def)
  then obtain i where "i \<in> set (link_columns db (fst x))" "l = column_link db (fst x) i"
    using found_links[OF assms(1) r(1), of env] assms(2) r(2) by auto
  then have "fst y = ls_target db (fst x) i" "(fst x, ls_target db (fst x) i) \<in> table_links db"
    using l(2) assms(2,3) \<open>rt_table r < ls_count db\<close> r(2)
    by (auto simp: link_ends_def column_link_def table_links_def)
  then show ?thesis using c r(2) by auto
qed

text \<open>
  C6. The checker a notifier uses answers for each row whether that row or a row at most three links
  away was modified, for every sequence of questions, although it remembers rows between questions,
  cuts off cycles and stops at a fixed depth, and also after a change of the schema, when it looks the
  related tables up again.  One case is excluded: a table that is the only one in reach and links to itself,
  for which the shortcut for a single table ignores the links (\<open>self_links_missed\<close>).
\<close>

theorem modification_checker_exact:
  assumes "find_related_tables db [] root = Some related" "ls_count db \<le> npos" "root < ls_count db"
    and "\<forall>t < ls_count db. \<forall>c. ls_target db t c < ls_count db"
    and "length related \<noteq> 1 \<or> link_columns db root = []" "length path = path_limit"
    and "env = \<lparr>ce_store = db, ce_tables = tables, ce_related = related\<rparr>"
    and "kept = related \<or> schema_changed"
  shows "run_checker (get_modification_checker db schema_changed root tables kept) root path rows =
    map (\<lambda>r. modified_node env (root, r) \<or> modified_within env 3 (root, r)) rows"
proof -
  have "room db [] \<le> card {..<ls_count db}" unfolding room_def by (rule card_mono) auto
  then have "room db [] < ls_count db + 2" by simp
  from find_related_spec[OF assms(2) _ this, of root] assms(1) have f: "found_tables db [] root related"
    by (auto simp: find_related_tables_def)
  then have root: "root \<in> tables_of related" using assms(3) by (simp add: found_tables_def)
  have g: "get_modification_checker db schema_changed root tables kept = get_modification_checker db False root tables related"
    using assms(1,8) by (auto simp: get_modification_checker_def renew_related_def)
  have "run_checker (get_modification_checker db False root tables related) root path rows =
    map (\<lambda>r. modified_node env (root, r) \<or> modified_within env 3 (root, r)) rows" (is ?goal)
  proof (cases "\<exists>r \<in> set related. rt_table r < length tables \<and> modifications (tables ! rt_table r) \<noteq> []")
    case False
    then have n: "\<not> modified_node env x" if "fst x \<in> tables_of related" for x
      using that assms(7) by (auto simp: modified_node_def is_modified_def tables_of_def)
    have "\<not> modified_within env 3 (root, r)" for r
      by (rule nothing_modified_within[where S = "tables_of related"])
        (use linked_in_related[OF f assms(7,4)] n root in auto)
    then show ?goal using False n root by (auto simp: get_modification_checker_def renew_related_def)
  next
    case some: True
    show ?goal
    proof (cases "length related = 1")
      case True
      then obtain x where x: "related = [x]" by (cases related) auto
      then have t: "rt_table x = root" using root by (simp add: tables_of_def)
      have "related_links env root = []"
        using found_links[OF f, of x env] x t assms(5,7) True by simp
      then have "linked env (root, r) = {}" for r by (simp add: linked_def)
      then have "\<not> modified_within env 3 (root, r)" for r by (simp add: numeral_3_eq_3)
      moreover have "root < length tables" using some x t by auto
      ultimately show ?goal
        using some True x t assms(7) by (auto simp: get_modification_checker_def renew_related_def modified_node_def is_modified_def)
    next
      case False
      then show ?goal using some check_all_spec[OF _ clean_ok_new, of path env root rows] assms(6,7)
        by (auto simp: get_modification_checker_def renew_related_def new_checker_def)
    qed
  qed
then show ?thesis unfolding g .
qed

text \<open>One checker asked about all the rows answers as a fresh one for each row does.\<close>

lemma shared_checker:
  assumes "length path = path_limit"
  shows "run_checker checker root path rows = map (\<lambda>row. hd (run_checker checker root path [row])) rows"
proof (cases checker)
  case (Deep env)
  have l: "length (ck_path (new_checker path)) = path_limit" using assms by (simp add: new_checker_def)
  show ?thesis unfolding Deep run_checker.simps check_all_spec[OF l clean_ok_new] by simp
qed simp_all

lemma one_neq_npos [simp]: "0 \<noteq> npos" "Suc 0 \<noteq> npos"
  by (simp_all add: npos_def)

lemma two_tables_related:
  "find_related_tables two_tables [] 0 = Some
    [\<lparr>rt_table = 0, rt_links = [\<lparr>ol_col = 1, ol_is_list = False\<rparr>]\<rparr>,
     \<lparr>rt_table = 1, rt_links = [\<lparr>ol_col = 0, ol_is_list = True\<rparr>]\<rparr>]"
proof -
  have fuel: "ls_count two_tables + 2 = Suc (Suc (Suc (Suc 0)))" by (simp add: two_tables_def)
  show ?thesis unfolding find_related_tables_def fuel
    by (simp add: two_tables_def index_in_group_def push_link_def column_link_def upt_rec)
qed

text \<open>Row 5 of the second table was modified.\<close>

definition two_changes :: "change_builder list" where
  "two_changes = [empty_builder, empty_builder\<lparr>modifications := add [] 5\<rparr>]"

theorem modification_checker_exact_witness:
  "let related = [\<lparr>rt_table = 0, rt_links = [\<lparr>ol_col = 1, ol_is_list = False\<rparr>]\<rparr>,
        \<lparr>rt_table = 1, rt_links = [\<lparr>ol_col = 0, ol_is_list = True\<rparr>]\<rparr>];
      env = \<lparr>ce_store = two_tables, ce_tables = two_changes, ce_related = related\<rparr> in
    run_checker (get_modification_checker two_tables True 0 two_changes []) 0
      (replicate 4 \<lparr>pe_table = 0, pe_row = 0, pe_col = 0, pe_exceeded = False\<rparr>) [5, 6] =
    map (\<lambda>r. modified_node env (0, r) \<or> modified_within env 3 (0, r)) [5, 6]"
  unfolding Let_def
proof (rule modification_checker_exact[OF two_tables_related])
  show "\<forall>t < ls_count two_tables. \<forall>c. ls_target two_tables t c < ls_count two_tables"
    by (auto simp: two_tables_def)
qed (simp_all add: two_tables_def npos_def path_limit_def)

section \<open>A table that links to itself\<close>

text \<open>
  The exception is real: with a single table whose rows link to each other the first shortcut asks only
  for the row itself, so a row that links to a modified one does not count as changed.
\<close>

definition self_linked :: link_store where
  "self_linked = \<lparr>ls_count = 1, ls_columns = (\<lambda>t. [Link_Column]), ls_target = (\<lambda>t c. 0),
     ls_is_null = (\<lambda>t c r. r \<noteq> 0), ls_link = (\<lambda>t c r. r + 1), ls_list = (\<lambda>t c r. [])\<rparr>"

definition self_related :: "related_table list" where
  "self_related = [\<lparr>rt_table = 0, rt_links = [\<lparr>ol_col = 0, ol_is_list = False\<rparr>]\<rparr>]"

definition self_changes :: "change_builder list" where
  "self_changes = [empty_builder\<lparr>modifications := add [] 1\<rparr>]"

theorem self_links_missed:
  "find_related_tables self_linked [] 0 = Some self_related \<and>
   run_checker (get_modification_checker self_linked False 0 self_changes self_related) 0 path [0] = [False] \<and>
   modified_within \<lparr>ce_store = self_linked, ce_tables = self_changes, ce_related = self_related\<rparr> 3 (0, 0)"
proof (intro conjI)
  show "find_related_tables self_linked [] 0 = Some self_related"
  proof -
    have fuel: "ls_count self_linked + 2 = Suc (Suc (Suc 0))" by (simp add: self_linked_def)
    show ?thesis unfolding find_related_tables_def fuel
      by (simp add: self_linked_def index_in_group_def push_link_def column_link_def
          upt_rec self_related_def)
  qed
  show "run_checker (get_modification_checker self_linked False 0 self_changes self_related) 0 path [0] = [False]"
    by (simp add: get_modification_checker_def renew_related_def self_related_def self_changes_def contains_single)
  let ?env = "\<lparr>ce_store = self_linked, ce_tables = self_changes, ce_related = self_related\<rparr>"
  have l: "related_links ?env 0 = [\<lparr>ol_col = 0, ol_is_list = False\<rparr>]"
    by (simp add: related_links_def self_related_def)
  have "(0, 1) \<in> linked ?env (0, 0)" by (simp add: linked_def l link_ends_def link_rows_def) (simp add: self_linked_def)
  moreover have "modified_node ?env (0, 1)"
    by (simp add: modified_node_def is_modified_def self_changes_def contains_single)
  ultimately show "modified_within ?env 3 (0, 0)" unfolding numeral_3_eq_3 by auto
qed

end
