(* ===== verification/Callback_Walk.thy ===== *)
theory Callback_Walk
  imports Prelude
begin

text \<open>
  Walking through a vector of callbacks that may be changed meanwhile.  \<open>ConnectionChangeNotifier\<close> and
  \<open>CollectionNotifier\<close> do it the same way: the index of the walk is a member, which a removal moves back,
  and the number of callbacks to call is a member too, which a removal lowers.  The locale says what a
  removal does; its lemmas keep the place of the walk through removals and additions.
\<close>

text \<open>\<open>++\<close> of a \<open>size_t\<close>.\<close>

definition size_succ :: "size \<Rightarrow> size" where
  "size_succ n = (if n = npos then 0 else n + 1)"

text \<open>What a removal at \<open>idx\<close> does to the index of a walk.\<close>

definition index_after_removal :: "size \<Rightarrow> size \<Rightarrow> size" where
  "index_after_removal idx i = (if i \<noteq> npos \<and> idx \<le> i then size_sub i 1 else i)"

text \<open>The position \<open>find_if\<close> returns for a token.\<close>

lemma token_position_absent: "t \<notin> set (map tok cs) \<Longrightarrow> length (takeWhile (\<lambda>c. tok c \<noteq> t) cs) = length cs"
  by (induction cs) auto

lemma token_position_present:
  "map tok cs = ys @ t # zs \<Longrightarrow> t \<notin> set ys \<Longrightarrow> length (takeWhile (\<lambda>c. tok c \<noteq> t) cs) = length ys"
proof (induction cs arbitrary: ys)
  case (Cons c cs)
  then show ?case by (cases ys) auto
qed simp

locale callback_list =
  fixes tokens :: "'s \<Rightarrow> size list" and index_of :: "'s \<Rightarrow> size" and count_of :: "'s \<Rightarrow> size"
    and next_of :: "'s \<Rightarrow> size" and removal :: "size \<Rightarrow> 's \<Rightarrow> 's"
  assumes removal_next: "next_of (removal t s) = next_of s"
    and removal_absent: "t \<notin> set (tokens s) \<Longrightarrow>
      tokens (removal t s) = tokens s \<and> index_of (removal t s) = index_of s \<and> count_of (removal t s) = count_of s"
    and removal_present: "tokens s = ys @ t # zs \<Longrightarrow> t \<notin> set ys \<Longrightarrow>
      tokens (removal t s) = ys @ zs \<and> index_of (removal t s) = index_after_removal (length ys) (index_of s) \<and>
      count_of (removal t s) = size_sub (count_of s) 1"
begin

definition issued_tokens :: "'s \<Rightarrow> bool" where
  "issued_tokens s \<longleftrightarrow> distinct (tokens s) \<and> (\<forall>t \<in> set (tokens s). t < next_of s)"

text \<open>
  In the middle of a walk: the tokens already passed, those to come, and those added since, with the
  index on the last one passed, before the increment of the loop.
\<close>

definition in_walk :: "size \<Rightarrow> size list \<Rightarrow> size list \<Rightarrow> 's \<Rightarrow> bool" where
  "in_walk bound as bs s \<longleftrightarrow> issued_tokens s \<and>
     (\<exists>xs. tokens s = as @ bs @ xs \<and> (\<forall>x \<in> set xs. bound \<le> x)) \<and>
     (\<forall>t \<in> set (as @ bs). t < bound) \<and> bound \<le> next_of s \<and> length (as @ bs) < npos \<and>
     index_of s = (if as = [] then npos else length as - 1) \<and> count_of s = length (as @ bs)"

lemma removal_tokens:
  assumes "distinct (tokens s)"
  shows "tokens (removal t s) = removeAll t (tokens s)"
proof (cases "t \<in> set (tokens s)")
  case True
  then obtain ys zs where s: "tokens s = ys @ t # zs" by (meson split_list)
  then have n: "t \<notin> set ys" "t \<notin> set zs" using assms by auto
  show ?thesis using removal_present[OF s n(1)] n by (simp add: s)
qed (simp add: removal_absent)

lemma issued_tokens_removal: "issued_tokens s \<Longrightarrow> issued_tokens (removal t s)"
  by (auto simp: issued_tokens_def removal_tokens removal_next distinct_removeAll)

lemma in_walk_same:
  assumes "in_walk bound as bs s" "tokens s' = tokens s" "next_of s' = next_of s" "index_of s' = index_of s"
    "count_of s' = count_of s"
  shows "in_walk bound as bs s'"
  using assms by (simp add: in_walk_def issued_tokens_def)

lemma issued_tokens_add:
  assumes "issued_tokens s" "tokens s' = tokens s @ [next_of s]" "next_of s' = next_of s + 1"
  shows "issued_tokens s'"
  using assms by (auto simp: issued_tokens_def less_Suc_eq)

lemma in_walk_add:
  assumes "in_walk bound as bs s" "tokens s' = tokens s @ [next_of s]" "next_of s' = next_of s + 1"
    "index_of s' = index_of s" "count_of s' = count_of s"
  shows "in_walk bound as bs s'"
proof -
  obtain xs where x: "tokens s = as @ bs @ xs" "\<forall>x \<in> set xs. bound \<le> x"
    using assms(1) by (auto simp: in_walk_def)
  then have "tokens s' = as @ bs @ (xs @ [next_of s])" by (simp add: assms)
  moreover have "\<forall>x \<in> set (xs @ [next_of s]). bound \<le> x" using x(2) assms(1) by (simp add: in_walk_def)
  ultimately show ?thesis
    using assms issued_tokens_add[OF _ assms(2,3)] unfolding in_walk_def by fastforce
qed

lemma in_walk_remove:
  assumes w: "in_walk bound as bs s" and t: "t < bound"
  shows "in_walk bound (removeAll t as) (removeAll t bs) (removal t s)"
proof -
  obtain xs where x: "tokens s = as @ bs @ xs" "\<forall>x \<in> set xs. bound \<le> x"
    using w by (auto simp: in_walk_def)
  have f: "issued_tokens s" using w by (simp add: in_walk_def)
  then have d: "distinct (as @ bs @ xs)" using x(1) by (simp add: issued_tokens_def)
  have nx: "t \<notin> set xs" using x(2) t by auto
  have c: "tokens (removal t s) = removeAll t as @ removeAll t bs @ xs"
    using removal_tokens[of s t] d x(1) nx by simp
  have i: "index_of s = (if as = [] then npos else length as - 1)" "count_of s = length (as @ bs)"
    "length (as @ bs) < npos"
    using w by (simp_all add: in_walk_def)
  have "index_of (removal t s) = (if removeAll t as = [] then npos else length (removeAll t as) - 1) \<and>
    count_of (removal t s) = length (removeAll t as @ removeAll t bs)"
  proof -
    consider (none) "t \<notin> set (as @ bs @ xs)" | (passed) "t \<in> set as" | (to_come) "t \<in> set bs"
      using nx by auto
    then show ?thesis
    proof cases
      case none
      then show ?thesis using i removal_absent[of t s] x(1) by auto
    next
      case passed
      then obtain ys zs where a: "as = ys @ t # zs" by (meson split_list)
      then have n: "t \<notin> set ys" "t \<notin> set zs" "t \<notin> set bs" using d by auto
      have "tokens s = ys @ t # (zs @ bs @ xs)" by (simp add: x(1) a)
      from removal_present[OF this n(1)] show ?thesis
        using i n by (cases ys; cases zs) (simp_all add: a index_after_removal_def size_sub_def npos_def)
    next
      case to_come
      then obtain ys zs where b: "bs = ys @ t # zs" by (meson split_list)
      then have n: "t \<notin> set ys" "t \<notin> set zs" "t \<notin> set as" using d by auto
      have "tokens s = (as @ ys) @ t # (zs @ xs)" "t \<notin> set (as @ ys)" using n by (simp_all add: x(1) b)
      from removal_present[OF this] show ?thesis
        using i n by (cases as) (simp_all add: b index_after_removal_def size_sub_def npos_def)
    qed
  qed
  moreover have "length (removeAll t as @ removeAll t bs) \<le> length (as @ bs)"
    by (simp add: add_mono length_removeAll_less_eq)
  ultimately show ?thesis
    using w c x(2) issued_tokens_removal[OF f, of t] i(3) unfolding in_walk_def by (auto simp: removal_next)
qed

lemma in_walk_start:
  assumes "issued_tokens s" "index_of s = npos" "count_of s = length (tokens s)" "length (tokens s) < npos"
  shows "in_walk (next_of s) [] (tokens s) s"
  using assms by (simp add: in_walk_def issued_tokens_def)

lemma in_walk_here:
  assumes "in_walk bound as (t # bs) s"
  shows "size_succ (index_of s) = length as" "length as < count_of s" "length as < length (tokens s)"
    "tokens s ! length as = t"
  using assms by (auto simp: in_walk_def size_succ_def nth_append)

lemma in_walk_next:
  assumes "in_walk bound as (t # bs) s" "tokens s' = tokens s" "next_of s' = next_of s" "index_of s' = length as"
    "count_of s' = count_of s"
  shows "in_walk bound (as @ [t]) bs s'"
  using assms by (auto simp: in_walk_def issued_tokens_def)

lemma in_walk_end:
  assumes "in_walk bound as [] s"
  shows "\<not> size_succ (index_of s) < count_of s"
  using assms by (auto simp: in_walk_def size_succ_def)

end

end
