(* ===== verification/Collection_Notifier.thy ===== *)
theory Collection_Notifier
  imports Change_Checker Callback_Walk
begin

text \<open>
  \<open>CollectionNotifier\<close> (\<open>impl/collection_notifier.cpp\<close>): the callbacks of a collection, the changes that
  are collected for each of them on the worker thread, and their delivery on the target thread.  The mutex
  of the callbacks is released only while the function of a callback runs, so a walk over the callbacks is
  a sequence of sections, one for each callback, and any operation may come between two sections.
\<close>

section \<open>Failures\<close>

datatype failure = Assertion_Failed | Null_Realm | Incorrect_Thread | Invalid_Transaction

definition and_then :: "failure + 'a \<Rightarrow> ('a \<Rightarrow> failure + 'b) \<Rightarrow> failure + 'b" where
  "and_then r f = (case r of Inl e \<Rightarrow> Inl e | Inr x \<Rightarrow> f x)"

lemma and_then_simps [simp]: "and_then (Inl e) f = Inl e" "and_then (Inr x) f = f x"
  by (simp_all add: and_then_def)

lemma and_then_Inr: "and_then r f = Inr y \<longleftrightarrow> (\<exists>x. r = Inr x \<and> f x = Inr y)"
  by (cases r) simp_all

text \<open>Who calls, and what the Realm the caller goes through says of itself.\<close>

record caller =
  on_thread :: nat
  realm_thread :: "nat option"
  realm_in_write :: bool

definition verify_thread :: "caller \<Rightarrow> failure + unit" where
  "verify_thread ca = (case realm_thread ca of None \<Rightarrow> Inr ()
     | Some th \<Rightarrow> if th = on_thread ca then Inr () else Inl Incorrect_Thread)"

definition verify_in_write :: "caller \<Rightarrow> failure + unit" where
  "verify_in_write ca = (if realm_in_write ca then Inr () else Inl Invalid_Transaction)"

section \<open>State\<close>

record version_id =
  v_version :: nat
  v_index :: nat

text \<open>A callback's function is an opaque number.\<close>

record change_callback =
  cl_fn :: nat
  cl_accumulated :: change_builder
  cl_deliver :: change_set
  cl_token :: size
  cl_initial :: bool
  cl_skip :: bool

datatype notice = Worker_Woken | Told_Before size change_set | Told_After size change_set | Told_Error size

text \<open>
  The Realm and the \<open>SharedGroup\<close> are pointers.  The last field is not the object's: the calls that
  leave it, in order.
\<close>

record notifier =
  no_realm :: "nat option"
  no_version :: version_id
  no_group :: "nat option"
  no_has_run :: bool
  no_error :: bool
  no_related :: "related_table list"
  no_callbacks :: "change_callback list"
  no_have_callbacks :: bool
  no_index :: size
  no_count :: size
  no_next_token :: size
  no_trace :: "notice list"

definition notify :: "notice \<Rightarrow> 'z notifier_scheme \<Rightarrow> 'z notifier_scheme" where
  "notify e n = n\<lparr>no_trace := no_trace n @ [e]\<rparr>"

definition no_changes :: change_set where
  "no_changes = \<lparr>deletions = [], insertions = [], modifications = [], modifications_new = [], moves = [], columns = []\<rparr>"

definition make_notifier :: "nat \<Rightarrow> version_id \<Rightarrow> notifier" where
  "make_notifier realm version =
     \<lparr>no_realm = Some realm, no_version = version, no_group = None, no_has_run = False, no_error = False,
      no_related = [], no_callbacks = [], no_have_callbacks = False, no_index = npos, no_count = npos,
      no_next_token = 0, no_trace = []\<rparr>"

section \<open>Callbacks\<close>

definition new_callback :: "nat \<Rightarrow> size \<Rightarrow> change_callback" where
  "new_callback fn token = \<lparr>cl_fn = fn, cl_accumulated = empty_builder, cl_deliver = no_changes,
     cl_token = token, cl_initial = False, cl_skip = False\<rparr>"

definition push_callback :: "nat \<Rightarrow> 'z notifier_scheme \<Rightarrow> size \<times> 'z notifier_scheme" where
  "push_callback fn n =
     (let token = no_next_token n;
          n = n\<lparr>no_next_token := token + 1, no_callbacks := no_callbacks n @ [new_callback fn token]\<rparr>
      in (token, if no_index n = npos then notify Worker_Woken n\<lparr>no_have_callbacks := True\<rparr> else n))"

definition add_change_callback :: "caller \<Rightarrow> nat \<Rightarrow> 'z notifier_scheme \<Rightarrow> failure + size \<times> 'z notifier_scheme" where
  "add_change_callback ca fn n =
     (if no_realm n = None then Inl Null_Realm
      else and_then (verify_thread ca) (\<lambda>_. Inr (push_callback fn n)))"

text \<open>The position of a callback; the length of the vector stands for its \<open>end\<close>.\<close>

definition find_callback :: "size \<Rightarrow> 'z notifier_scheme \<Rightarrow> failure + nat" where
  "find_callback token n =
     (if \<not> (no_error n \<or> no_callbacks n \<noteq> []) then Inl Assertion_Failed
      else
        let it = length (takeWhile (\<lambda>c. cl_token c \<noteq> token) (no_callbacks n)) in
        if no_error n \<or> it \<noteq> length (no_callbacks n) then Inr it else Inl Assertion_Failed)"

definition erase_callback :: "nat \<Rightarrow> 'z notifier_scheme \<Rightarrow> 'z notifier_scheme" where
  "erase_callback pos n =
     (let cs = take pos (no_callbacks n) @ drop (Suc pos) (no_callbacks n) in
      n\<lparr>no_index := index_after_removal pos (no_index n), no_count := size_sub (no_count n) 1,
        no_callbacks := cs, no_have_callbacks := cs \<noteq> []\<rparr>)"

definition remove_change_callback :: "size \<Rightarrow> 'z notifier_scheme \<Rightarrow> failure + 'z notifier_scheme" where
  "remove_change_callback token n =
     and_then (find_callback token n) (\<lambda>it. Inr (if it = length (no_callbacks n) then n else erase_callback it n))"

definition suppress_next_notification :: "caller \<Rightarrow> size \<Rightarrow> 'z notifier_scheme \<Rightarrow> failure + 'z notifier_scheme" where
  "suppress_next_notification ca token n =
     (if no_realm n = None then Inl Assertion_Failed
      else and_then (verify_thread ca) (\<lambda>_. and_then (verify_in_write ca) (\<lambda>_.
        and_then (find_callback token n) (\<lambda>it. Inr (if it \<noteq> length (no_callbacks n)
          then n\<lparr>no_callbacks := (no_callbacks n)[it := (no_callbacks n ! it)\<lparr>cl_skip := True\<rparr>]\<rparr> else n)))))"

text \<open>\<open>add_changes\<close>.  Debug builds assert that a callback that skips has collected nothing.\<close>

definition collect :: "change_builder \<Rightarrow> change_callback \<Rightarrow> change_callback" where
  "collect change cb =
     (if cl_skip cb then cb\<lparr>cl_skip := False\<rparr> else cb\<lparr>cl_accumulated := cb_merge (cl_accumulated cb) change\<rparr>)"

definition add_changes :: "change_builder \<Rightarrow> 'z notifier_scheme \<Rightarrow> 'z notifier_scheme" where
  "add_changes change n = n\<lparr>no_callbacks := map (collect change) (no_callbacks n)\<rparr>"

text \<open>A builder that was moved from as a whole.\<close>

definition taken :: "change_builder \<Rightarrow> change_builder" where
  "taken b = empty_builder\<lparr>track_columns := track_columns b\<rparr>"

text \<open>The builder after \<open>std::move(b).finalize()\<close>: what was moved out is empty.\<close>

definition moved_from :: "change_builder \<Rightarrow> change_builder" where
  "moved_from b = b\<lparr>deletions := [], insertions := [], modifications := [], moves := [], columns := []\<rparr>"

definition package_callback :: "change_callback \<Rightarrow> change_callback" where
  "package_callback cb =
     cb\<lparr>cl_deliver := cb_finalize (cl_accumulated cb), cl_accumulated := moved_from (cl_accumulated cb)\<rparr>"

definition package_for_delivery :: "('z notifier_scheme \<Rightarrow> bool \<times> 'z notifier_scheme) \<Rightarrow> 'z notifier_scheme \<Rightarrow>
    bool \<times> 'z notifier_scheme" where
  "package_for_delivery prepare n =
     (let (ok, n) = prepare n in
      if \<not> ok then (False, n)
      else (True, n\<lparr>no_callbacks := map package_callback (no_callbacks n), no_count := length (no_callbacks n)\<rparr>))"

section \<open>Walking over the callbacks\<close>

text \<open>
  What a section does to the callback at a position: it answers the token if the function is to be called,
  for which the mutex is released.
\<close>

definition before_visit :: "nat \<Rightarrow> 'z notifier_scheme \<Rightarrow> size option \<times> 'z notifier_scheme" where
  "before_visit i n =
     (let cb = no_callbacks n ! i in
      if cs_empty (cl_deliver cb) then (None, n)
      else (Some (cl_token cb), notify (Told_Before (cl_token cb) (cl_deliver cb)) n))"

definition after_visit :: "nat \<Rightarrow> 'z notifier_scheme \<Rightarrow> size option \<times> 'z notifier_scheme" where
  "after_visit i n =
     (let cb = no_callbacks n ! i in
      if cl_initial cb \<and> cs_empty (cl_deliver cb) then (None, n)
      else (Some (cl_token cb), notify (Told_After (cl_token cb) (cl_deliver cb))
        (n\<lparr>no_callbacks := (no_callbacks n)[i := cb\<lparr>cl_initial := True, cl_deliver := no_changes\<rparr>]\<rparr>)))"

definition error_visit :: "nat \<Rightarrow> 'z notifier_scheme \<Rightarrow> size option \<times> 'z notifier_scheme" where
  "error_visit i n =
     (let cb = no_callbacks n ! i in (Some (cl_token cb), notify (Told_Error (cl_token cb)) n))"

text \<open>
  One section of \<open>for_each_callback\<close>: the index is incremented and compared, and either the walk ends or
  the next callback is visited.
\<close>

datatype 'n section_result = Finished 'n | Overrun | Visited "size option" 'n

definition next_section :: "(nat \<Rightarrow> 'z notifier_scheme \<Rightarrow> size option \<times> 'z notifier_scheme) \<Rightarrow> 'z notifier_scheme \<Rightarrow>
    'z notifier_scheme section_result" where
  "next_section visit n =
     (let n = n\<lparr>no_index := size_succ (no_index n)\<rparr> in
      if \<not> no_index n < no_count n then Finished (n\<lparr>no_index := npos\<rparr>)
      else if length (no_callbacks n) \<le> no_index n then Overrun
      else case visit (no_index n) n of (token, n) \<Rightarrow> Visited token n)"

text \<open>
  What may happen while the function of a callback runs, on its thread or on another one.  \<open>script\<close> gives
  it for the callback of each token.
\<close>

datatype client_op = Op_Add caller nat | Op_Remove size | Op_Suppress caller size | Op_Changes change_builder

fun client_step :: "client_op \<Rightarrow> 'z notifier_scheme \<Rightarrow> failure + 'z notifier_scheme" where
  "client_step (Op_Add ca fn) n = and_then (add_change_callback ca fn n) (\<lambda>(token, n). Inr n)"
| "client_step (Op_Remove token) n = remove_change_callback token n"
| "client_step (Op_Suppress ca token) n = suppress_next_notification ca token n"
| "client_step (Op_Changes change) n = Inr (add_changes change n)"

fun client_steps :: "client_op list \<Rightarrow> 'z notifier_scheme \<Rightarrow> failure + 'z notifier_scheme" where
  "client_steps [] n = Inr n"
| "client_steps (op # ops) n = and_then (client_step op n) (client_steps ops)"

datatype 'n walk_result = Walk_Finished 'n | Walk_Overran | Walk_Failed failure

partial_function (option) for_each_callback ::
    "(nat \<Rightarrow> 'z notifier_scheme \<Rightarrow> size option \<times> 'z notifier_scheme) \<Rightarrow> (size \<Rightarrow> client_op list) \<Rightarrow>
     'z notifier_scheme \<Rightarrow> 'z notifier_scheme walk_result option" where
  "for_each_callback visit script n =
     (case next_section visit n of
        Finished n \<Rightarrow> Some (Walk_Finished n)
      | Overrun \<Rightarrow> Some Walk_Overran
      | Visited token n \<Rightarrow>
          (case client_steps (case token of None \<Rightarrow> [] | Some t \<Rightarrow> script t) n of
             Inl e \<Rightarrow> Some (Walk_Failed e)
           | Inr n \<Rightarrow> for_each_callback visit script n))"

definition before_advance :: "(size \<Rightarrow> client_op list) \<Rightarrow> 'z notifier_scheme \<Rightarrow> 'z notifier_scheme walk_result option" where
  "before_advance script n = for_each_callback before_visit script n"

definition after_advance :: "(size \<Rightarrow> client_op list) \<Rightarrow> 'z notifier_scheme \<Rightarrow> 'z notifier_scheme walk_result option" where
  "after_advance script n = for_each_callback after_visit script n"

text \<open>Once it has been told of the error a callback is removed.\<close>

definition deliver_error :: "(size \<Rightarrow> client_op list) \<Rightarrow> 'z notifier_scheme \<Rightarrow> 'z notifier_scheme walk_result option" where
  "deliver_error script n =
     (let n = n\<lparr>no_error := True, no_count := length (no_callbacks n)\<rparr> in
      for_each_callback error_visit (\<lambda>token. script token @ [Op_Remove token]) n)"

section \<open>The Realm and the worker\<close>

definition unregister :: "'z notifier_scheme \<Rightarrow> 'z notifier_scheme" where
  "unregister n = n\<lparr>no_realm := None\<rparr>"

definition is_alive :: "'z notifier_scheme \<Rightarrow> bool" where
  "is_alive n \<longleftrightarrow> no_realm n \<noteq> None"

definition is_for_realm :: "nat \<Rightarrow> 'z notifier_scheme \<Rightarrow> bool" where
  "is_for_realm realm n \<longleftrightarrow> no_realm n = Some realm"

text \<open>The virtual functions of the subclasses are arguments.\<close>

definition attach_to :: "(nat \<Rightarrow> 'z notifier_scheme \<Rightarrow> failure + 'z notifier_scheme) \<Rightarrow> nat \<Rightarrow> 'z notifier_scheme \<Rightarrow>
    failure + 'z notifier_scheme" where
  "attach_to do_attach_to sg n =
     (if no_group n \<noteq> None then Inl Assertion_Failed else do_attach_to sg (n\<lparr>no_group := Some sg\<rparr>))"

definition detach :: "(nat \<Rightarrow> 'z notifier_scheme \<Rightarrow> failure + 'z notifier_scheme) \<Rightarrow> 'z notifier_scheme \<Rightarrow>
    failure + 'z notifier_scheme" where
  "detach do_detach_from n =
     (case no_group n of None \<Rightarrow> Inl Assertion_Failed
      | Some sg \<Rightarrow> and_then (do_detach_from sg n) (\<lambda>n. Inr (n\<lparr>no_group := None\<rparr>)))"

definition prepare_handover :: "(nat \<Rightarrow> version_id) \<Rightarrow> (nat \<Rightarrow> 'z notifier_scheme \<Rightarrow> failure + 'z notifier_scheme) \<Rightarrow>
    'z notifier_scheme \<Rightarrow> failure + 'z notifier_scheme" where
  "prepare_handover current do_prepare_handover n =
     (case no_group n of None \<Rightarrow> Inl Assertion_Failed
      | Some sg \<Rightarrow> and_then (do_prepare_handover sg (n\<lparr>no_version := current sg\<rparr>)) (\<lambda>n. Inr (n\<lparr>no_has_run := True\<rparr>)))"

definition set_table :: "link_store \<Rightarrow> size \<Rightarrow> 'z notifier_scheme \<Rightarrow> 'z notifier_scheme option" where
  "set_table db table n = (case find_related_tables db [] table of None \<Rightarrow> None
     | Some related \<Rightarrow> Some (n\<lparr>no_related := related\<rparr>))"

text \<open>
  What the next transaction is asked to record.  A list to watch names the notifier whose builder is to be
  filled.
\<close>

record list_change_info =
  li_table :: size
  li_row :: size
  li_col :: size
  li_changes :: nat

record change_info =
  ci_modifications_needed :: "bool list"
  ci_moves_needed :: "bool list"
  ci_lists :: "list_change_info list"
  ci_tables :: "change_builder list"
  ci_column_indices :: "size list list"
  ci_table_indices :: "size list"
  ci_track_all :: bool
  ci_schema_changed :: bool

text \<open>\<open>resize\<close> of a vector of flags.\<close>

definition resize_flags :: "nat \<Rightarrow> bool list \<Rightarrow> bool list" where
  "resize_flags k xs = take k xs @ replicate (k - length xs) False"

definition set_flag :: "nat \<Rightarrow> bool list \<Rightarrow> bool list" where
  "set_flag k xs = (if length xs \<le> k then resize_flags (k + 1) xs else xs)[k := True]"

definition need_related :: "related_table list \<Rightarrow> change_info \<Rightarrow> change_info" where
  "need_related related info =
     (let max = foldl (\<lambda>m r. if m < rt_table r then rt_table r else m) (rt_table (hd related)) (tl related);
          flags = ci_modifications_needed info;
          flags = (if length flags \<le> max then resize_flags (max + 1) flags else flags)
      in info\<lparr>ci_modifications_needed := foldl (\<lambda>fs r. fs[rt_table r := True]) flags related\<rparr>)"

definition add_required_change_info :: "(change_info \<Rightarrow> 'z notifier_scheme \<Rightarrow> bool \<times> change_info \<times> 'z notifier_scheme) \<Rightarrow>
    change_info \<Rightarrow> 'z notifier_scheme \<Rightarrow> change_info \<times> 'z notifier_scheme" where
  "add_required_change_info do_add_required_change_info info n =
     (let (needed, info, n) = do_add_required_change_info info n in
      if \<not> needed \<or> no_related n = [] then (info, n)
      else (need_related (no_related n) info, n))"

end
