(* ===== verification/Notifier_Walks.thy ===== *)
theory Notifier_Walks
  imports Collection_Notifier
begin

text \<open>
  The walks of \<open>CollectionNotifier\<close>: where a walk stands after any operation on the callbacks, and that it
  ends.
\<close>

section \<open>Tokens\<close>

abbreviation callback_tokens :: "'z notifier_scheme \<Rightarrow> size list" where
  "callback_tokens n \<equiv> map cl_token (no_callbacks n)"

definition removed_callback :: "size \<Rightarrow> 'z notifier_scheme \<Rightarrow> 'z notifier_scheme" where
  "removed_callback t n = (case remove_change_callback t n of Inl _ \<Rightarrow> n | Inr n' \<Rightarrow> n')"

lemma notify_simps [simp]:
  "no_callbacks (notify e n) = no_callbacks n" "no_index (notify e n) = no_index n"
  "no_count (notify e n) = no_count n" "no_next_token (notify e n) = no_next_token n"
  "no_error (notify e n) = no_error n" "no_realm (notify e n) = no_realm n"
  "no_have_callbacks (notify e n) = no_have_callbacks n" "no_has_run (notify e n) = no_has_run n"
  "no_trace (notify e n) = no_trace n @ [e]"
  by (simp_all add: notify_def)

lemma find_callback_present:
  assumes "callback_tokens n = ys @ t # zs" "t \<notin> set ys"
  shows "find_callback t n = Inr (length ys)" "length ys < length (no_callbacks n)"
proof -
  show l: "length ys < length (no_callbacks n)" using arg_cong[OF assms(1), of length] by simp
  then show "find_callback t n = Inr (length ys)"
    using token_position_present[OF assms] by (auto simp: find_callback_def Let_def)
qed

lemma remove_present:
  assumes "callback_tokens n = ys @ t # zs" "t \<notin> set ys"
  shows "remove_change_callback t n = Inr (erase_callback (length ys) n)"
  using find_callback_present[OF assms] by (simp add: remove_change_callback_def)

lemma remove_absent:
  assumes "t \<notin> set (callback_tokens n)"
  shows "remove_change_callback t n = (if no_error n then Inr n else Inl Assertion_Failed)"
  using token_position_absent[OF assms] by (simp add: remove_change_callback_def find_callback_def Let_def)

lemma erase_tokens:
  "callback_tokens n = ys @ t # zs \<Longrightarrow> callback_tokens (erase_callback (length ys) n) = ys @ zs"
  by (simp add: erase_callback_def Let_def take_map[symmetric] drop_map[symmetric])

lemma erase_simps [simp]:
  "no_next_token (erase_callback k n) = no_next_token n" "no_error (erase_callback k n) = no_error n"
  "no_realm (erase_callback k n) = no_realm n" "no_trace (erase_callback k n) = no_trace n"
  "no_index (erase_callback k n) = index_after_removal k (no_index n)"
  "no_count (erase_callback k n) = size_sub (no_count n) 1"
  by (simp_all add: erase_callback_def Let_def)

lemma removed_present:
  assumes "callback_tokens n = ys @ t # zs" "t \<notin> set ys"
  shows "removed_callback t n = erase_callback (length ys) n"
  by (simp add: removed_callback_def remove_present[OF assms])

lemma removed_absent: "t \<notin> set (callback_tokens n) \<Longrightarrow> removed_callback t n = n"
  by (simp add: removed_callback_def remove_absent)

interpretation nw: callback_list callback_tokens no_index no_count no_next_token removed_callback
proof unfold_locales
  fix t and n :: "'z notifier_scheme"
  show "no_next_token (removed_callback t n) = no_next_token n"
  proof (cases "t \<in> set (callback_tokens n)")
    case True
    then obtain ys zs where "callback_tokens n = ys @ t # zs" "t \<notin> set ys" by (meson split_list_first)
    then show ?thesis by (simp add: removed_present)
  qed (simp add: removed_absent)
qed (simp_all add: removed_absent removed_present erase_tokens)

lemma erase_keeps: "set (no_callbacks (erase_callback k n)) \<subseteq> set (no_callbacks n)"
  by (auto simp: erase_callback_def Let_def dest: in_set_takeD in_set_dropD)

lemma removed_keeps: "set (no_callbacks (removed_callback t n)) \<subseteq> set (no_callbacks n)"
proof (cases "t \<in> set (callback_tokens n)")
  case True
  then obtain ys zs where "callback_tokens n = ys @ t # zs" "t \<notin> set ys" by (meson split_list_first)
  then show ?thesis using erase_keeps by (simp add: removed_present)
qed (simp add: removed_absent)

section \<open>Operations keep the place of a walk\<close>

lemma add_callback_result:
  assumes "add_change_callback ca fn n = Inr (token, n')"
  shows "token = no_next_token n" "no_callbacks n' = no_callbacks n @ [new_callback fn (no_next_token n)]"
    "no_next_token n' = no_next_token n + 1" "no_index n' = no_index n" "no_count n' = no_count n"
  using assms
  by (auto simp: add_change_callback_def and_then_Inr push_callback_def Let_def split: if_splits)

lemma suppress_result:
  assumes "suppress_next_notification ca t n = Inr n'"
  shows "\<exists>k. n' = n \<or> k < length (no_callbacks n) \<and>
    n' = n\<lparr>no_callbacks := (no_callbacks n)[k := (no_callbacks n ! k)\<lparr>cl_skip := True\<rparr>]\<rparr>"
proof -
  obtain k where k: "find_callback t n = Inr k"
    "n' = (if k \<noteq> length (no_callbacks n)
      then n\<lparr>no_callbacks := (no_callbacks n)[k := (no_callbacks n ! k)\<lparr>cl_skip := True\<rparr>]\<rparr> else n)"
    using assms by (auto simp: suppress_next_notification_def and_then_Inr split: if_splits)
  have "k \<le> length (no_callbacks n)"
    using k(1) length_takeWhile_le[of _ "no_callbacks n"] by (auto simp: find_callback_def Let_def split: if_splits)
  then show ?thesis using k(2) by (intro exI[of _ k]) auto
qed

lemma update_token_same:
  assumes "cl_token c = cl_token (cs ! k)"
  shows "map cl_token (cs[k := c]) = map cl_token cs"
  using assms by (cases "k < length cs") (auto simp: list_eq_iff_nth_eq nth_list_update)

lemma suppress_same:
  assumes "suppress_next_notification ca t n = Inr n'"
  shows "callback_tokens n' = callback_tokens n" "no_next_token n' = no_next_token n"
    "no_index n' = no_index n" "no_count n' = no_count n"
  using suppress_result[OF assms] by (auto simp: update_token_same)

lemma add_changes_same [simp]:
  "callback_tokens (add_changes c n) = callback_tokens n" "no_next_token (add_changes c n) = no_next_token n"
  "no_index (add_changes c n) = no_index n" "no_count (add_changes c n) = no_count n"
  by (simp_all add: add_changes_def collect_def)

lemma remove_result:
  assumes "remove_change_callback t n = Inr n'"
  shows "n' = removed_callback t n"
  using assms by (simp add: removed_callback_def)

text \<open>The tokens an operation removes, and those it must not remove during a walk.\<close>

fun op_removes :: "client_op \<Rightarrow> size set" where
  "op_removes (Op_Remove t) = {t}"
| "op_removes _ = {}"

definition ops_remove :: "client_op list \<Rightarrow> size set" where
  "ops_remove ops = \<Union> (op_removes ` set ops)"

lemma in_walk_op:
  assumes w: "nw.in_walk bound as bs n" and s: "client_step op n = Inr n'" and r: "op_removes op \<subseteq> {..<bound}"
  shows "nw.in_walk bound (filter (\<lambda>t. t \<notin> op_removes op) as) (filter (\<lambda>t. t \<notin> op_removes op) bs) n'"
proof (cases op)
  case (Op_Add ca fn)
  then obtain t where "add_change_callback ca fn n = Inr (t, n')" using s by (auto simp: and_then_Inr)
  from nw.in_walk_add[OF w, of n'] add_callback_result[OF this] show ?thesis
    by (simp add: Op_Add new_callback_def)
next
  case (Op_Remove t)
  then have "n' = removed_callback t n" using s remove_result by simp
  moreover have "t < bound" using r Op_Remove by simp
  ultimately show ?thesis using nw.in_walk_remove[OF w, of t]
    by (simp add: Op_Remove removeAll_filter_not_eq eq_commute[of t])
next
  case (Op_Suppress ca t)
  then have "suppress_next_notification ca t n = Inr n'" using s by simp
  from nw.in_walk_same[OF w suppress_same[OF this]] show ?thesis by (simp add: Op_Suppress)
next
  case (Op_Changes c)
  then show ?thesis using s nw.in_walk_same[OF w, of "add_changes c n"] by auto
qed

lemma in_walk_ops:
  assumes "nw.in_walk bound as bs n" "client_steps ops n = Inr n'" "ops_remove ops \<subseteq> {..<bound}"
  shows "\<exists>as' bs'. nw.in_walk bound as' bs' n' \<and> length bs' \<le> length bs"
  using assms
proof (induction ops arbitrary: as bs n)
  case (Cons op ops)
  from Cons.prems(2) obtain n1 where n1: "client_step op n = Inr n1" "client_steps ops n1 = Inr n'"
    by (auto simp: and_then_Inr)
  have "op_removes op \<subseteq> {..<bound}" "ops_remove ops \<subseteq> {..<bound}" using Cons.prems(3) by (auto simp: ops_remove_def)
  from Cons.IH[OF in_walk_op[OF Cons.prems(1) n1(1) this(1)] n1(2) this(2)] show ?case
    using length_filter_le[of "\<lambda>t. t \<notin> op_removes op" bs] le_trans by blast
qed auto

section \<open>Sections\<close>

text \<open>What the visits of the three walks have in common.\<close>

definition quiet_visit :: "(nat \<Rightarrow> 'z notifier_scheme \<Rightarrow> size option \<times> 'z notifier_scheme) \<Rightarrow> bool" where
  "quiet_visit visit \<longleftrightarrow> (\<forall>i n. i < length (no_callbacks n) \<longrightarrow>
     callback_tokens (snd (visit i n)) = callback_tokens n \<and> no_next_token (snd (visit i n)) = no_next_token n \<and>
     no_index (snd (visit i n)) = no_index n \<and> no_count (snd (visit i n)) = no_count n \<and>
     (\<forall>t. fst (visit i n) = Some t \<longrightarrow> t = cl_token (no_callbacks n ! i)))"

lemma quiet_visits: "quiet_visit before_visit" "quiet_visit after_visit" "quiet_visit error_visit"
  by (auto simp: quiet_visit_def before_visit_def after_visit_def error_visit_def update_token_same Let_def)

lemma section_visits:
  assumes w: "nw.in_walk bound as (t # bs) n" and q: "quiet_visit visit"
  shows "next_section visit n =
      Visited (fst (visit (length as) (n\<lparr>no_index := length as\<rparr>))) (snd (visit (length as) (n\<lparr>no_index := length as\<rparr>)))"
    "nw.in_walk bound (as @ [t]) bs (snd (visit (length as) (n\<lparr>no_index := length as\<rparr>)))"
    "length as < length (no_callbacks n)" "cl_token (no_callbacks n ! length as) = t"
proof -
  note h = nw.in_walk_here[OF w]
  show l: "length as < length (no_callbacks n)" "cl_token (no_callbacks n ! length as) = t" using h by auto
  show "next_section visit n = Visited (fst (visit (length as) (n\<lparr>no_index := length as\<rparr>)))
      (snd (visit (length as) (n\<lparr>no_index := length as\<rparr>)))"
    using h by (simp add: next_section_def Let_def split: prod.split)
  show "nw.in_walk bound (as @ [t]) bs (snd (visit (length as) (n\<lparr>no_index := length as\<rparr>)))"
    using q l(1) unfolding quiet_visit_def by (intro nw.in_walk_next[OF w]) simp_all
qed

lemma section_finishes:
  assumes "nw.in_walk bound as [] n"
  shows "next_section visit n = Finished (n\<lparr>no_index := npos\<rparr>)"
  using nw.in_walk_end[OF assms] by (simp add: next_section_def Let_def)

section \<open>Every walk ends\<close>

lemma walk_ends:
  assumes "nw.in_walk bound as bs n" "quiet_visit visit" "\<forall>t. ops_remove (script t) \<subseteq> {..<bound}"
  shows "\<exists>r. for_each_callback visit script n = Some r \<and> r \<noteq> Walk_Overran"
  using assms(1)
proof (induction "length bs" arbitrary: as bs n rule: less_induct)
  case less
  show ?case
  proof (cases bs)
    case Nil
    then show ?thesis using section_finishes less.prems by (subst for_each_callback.simps) force
  next
    case (Cons t bs1)
    let ?v = "visit (length as) (n\<lparr>no_index := length as\<rparr>)"
    let ?ops = "case fst ?v of None \<Rightarrow> [] | Some t \<Rightarrow> script t"
    note v = section_visits[OF less.prems[unfolded Cons] assms(2)]
    have r: "ops_remove ?ops \<subseteq> {..<bound}" using assms(3) by (auto simp: ops_remove_def split: option.split)
    show ?thesis
    proof (cases "client_steps ?ops (snd ?v)")
      case (Inl e)
      then show ?thesis by (subst for_each_callback.simps) (simp add: v(1))
    next
      case (Inr n')
      then obtain as' bs' where w: "nw.in_walk bound as' bs' n'" "length bs' \<le> length bs1"
        using in_walk_ops[OF v(2) _ r] by blast
      from less.hyps[OF _ w(1)] w(2) Cons Inr show ?thesis
        by (subst for_each_callback.simps) (simp add: v(1))
    qed
  qed
qed

end
