(* ===== verification/Notifier_Clients.thy ===== *)
theory Notifier_Clients
  imports Notifier_Walks Change_Merge
begin

text \<open>
  What the clients of a \<open>CollectionNotifier\<close> see.  Every client keeps a copy of the collection, which it
  updates with each change set it is told, the way a table view does: it deletes the reported rows and
  inserts the new ones.  The steps are the operations and the sections of the walks, in any order that the
  mutex of the callbacks allows.
\<close>

section \<open>A client's copy\<close>

definition insert_rows :: "nat set \<Rightarrow> 'a list \<Rightarrow> 'a list \<Rightarrow> 'a list" where
  "insert_rows I ys kept = foldl (\<lambda>l p. take p l @ ys ! p # drop p l) kept (filter (\<lambda>p. p \<in> I) [0..<length ys])"

definition client_update :: "change_set \<Rightarrow> 'a list \<Rightarrow> 'a list \<Rightarrow> 'a list" where
  "client_update c copy new = insert_rows (idx (insertions c)) new (nths copy (- idx (deletions c)))"

definition reports :: "change_set \<Rightarrow> 'a list \<Rightarrow> 'a list \<Rightarrow> bool" where
  "reports c xs ys \<longleftrightarrow> applies (idx (deletions c)) (idx (insertions c)) xs ys \<and>
     moves_ok (moves c) (idx (deletions c)) (idx (insertions c)) xs ys"

lemma insert_rows_prefix:
  assumes I: "I \<subseteq> {..<length ys}" and m: "m \<le> length ys"
  shows "foldl (\<lambda>l p. take p l @ ys ! p # drop p l) (nths ys (- I)) (filter (\<lambda>p. p \<in> I) [0..<m]) =
    take m ys @ nths (drop m ys) {j. m + j \<notin> I}"
  using m
proof (induction m)
  case (Suc m)
  have d: "drop m ys = ys ! m # drop (Suc m) ys" using Suc.prems by (simp add: Cons_nth_drop_Suc)
  have s: "{j. Suc j \<in> {j. m + j \<notin> I}} = {j. Suc m + j \<notin> I}" by simp
  have t: "take (Suc m) ys = take m ys @ [ys ! m]" using Suc.prems by (simp add: take_Suc_conv_app_nth)
  show ?case
  proof (cases "m \<in> I")
    case True
    then have "nths (drop m ys) {j. m + j \<notin> I} = nths (drop (Suc m) ys) {j. Suc m + j \<notin> I}"
      by (simp add: d nths_Cons)
    then show ?thesis using Suc True by (simp add: t min_def)
  next
    case False
    then have "nths (drop m ys) {j. m + j \<notin> I} = ys ! m # nths (drop (Suc m) ys) {j. Suc m + j \<notin> I}"
      by (simp add: d nths_Cons)
    then show ?thesis using Suc False by (simp add: t)
  qed
qed (simp add: Compl_eq)

lemma client_update_exact:
  assumes "reports c copy new"
  shows "client_update c copy new = new"
proof -
  have a: "applies (idx (deletions c)) (idx (insertions c)) copy new" using assms by (simp add: reports_def)
  then have "nths copy (- idx (deletions c)) = nths new (- idx (insertions c))" "idx (insertions c) \<subseteq> {..<length new}"
    by (simp_all add: applies_def)
  then show ?thesis
    using insert_rows_prefix[of "idx (insertions c)" new "length new"] by (simp add: client_update_def insert_rows_def)
qed

lemma reports_finalize: "tracks b xs ys \<Longrightarrow> reports (cb_finalize b) xs ys"
  by (simp add: tracks_def reports_def cb_finalize_def)

lemma reports_empty: "reports c xs ys \<Longrightarrow> cs_empty c \<Longrightarrow> xs = ys"
  by (simp add: reports_def cs_empty_def applies_empty)

lemma tracks_empty_eq: "tracks b xs ys \<Longrightarrow> cs_empty b \<Longrightarrow> xs = ys"
  by (simp add: tracks_def cs_empty_def applies_empty)

lemma tracks_moved_from: "tracks b xs ys \<Longrightarrow> tracks (moved_from b) ys ys"
  by (simp add: tracks_def moved_from_def cb_ok_def moves_ok_def)

lemma cs_empty_no_changes [simp]: "cs_empty no_changes"
  by (simp add: cs_empty_def no_changes_def)

section \<open>Scenes\<close>

text \<open>
  Between the packaging and the end of the walk that tells of it, the callbacks still to be told are
  pending.
\<close>

datatype stage = Resting | Packaged | Telling_Before | Telling_After

text \<open>
  A notifier with what it works for: the collection as the worker last saw it and as it was packaged, the
  copies of the clients by their tokens, the tokens still to be told, and the first token that was not
  known at packaging.
\<close>

record 'a scene =
  sc_notifier :: notifier
  sc_stage :: stage
  sc_current :: "'a list"
  sc_packed :: "'a list"
  sc_copy :: "size \<Rightarrow> 'a list"
  sc_pending :: "size list"
  sc_bound :: size

definition begin_scene :: "nat \<Rightarrow> version_id \<Rightarrow> 'a list \<Rightarrow> 'a scene" where
  "begin_scene realm version xs = \<lparr>sc_notifier = make_notifier realm version, sc_stage = Resting, sc_current = xs,
     sc_packed = [], sc_copy = (\<lambda>_. []), sc_pending = [], sc_bound = 0\<rparr>"

definition skips :: "size \<Rightarrow> 'z notifier_scheme \<Rightarrow> bool" where
  "skips t n \<longleftrightarrow> (\<exists>cb \<in> set (no_callbacks n). cl_token cb = t \<and> cl_skip cb)"

text \<open>
  A change may only be skipped by a client that has nothing outstanding; it has made the change itself, in
  its copy too.  The merge has to fit the chunks of the index sets.  During a walk only callbacks known at
  packaging are removed.
\<close>

definition change_fits :: "change_builder \<Rightarrow> 'a scene \<Rightarrow> bool" where
  "change_fits c s \<longleftrightarrow> (\<forall>cb \<in> set (no_callbacks (sc_notifier s)).
     if cl_skip cb then cs_empty (cl_accumulated cb) \<and> cl_token cb \<notin> set (sc_pending s)
     else merge_fits (cl_accumulated cb) c)"

inductive scene_step :: "'a scene \<Rightarrow> 'a scene \<Rightarrow> bool" where
  add: "add_change_callback ca fn (sc_notifier s) = Inr (t, n) \<Longrightarrow>
    scene_step s (s\<lparr>sc_notifier := n, sc_copy := (sc_copy s)(t := sc_current s)\<rparr>)"
| remove: "remove_change_callback t (sc_notifier s) = Inr n \<Longrightarrow> sc_stage s = Resting \<or> t < sc_bound s \<Longrightarrow>
    scene_step s (s\<lparr>sc_notifier := n, sc_pending := removeAll t (sc_pending s)\<rparr>)"
| suppress: "suppress_next_notification ca t (sc_notifier s) = Inr n \<Longrightarrow> scene_step s (s\<lparr>sc_notifier := n\<rparr>)"
| change: "tracks c (sc_current s) ys \<Longrightarrow> change_fits c s \<Longrightarrow>
    scene_step s (s\<lparr>sc_notifier := add_changes c (sc_notifier s), sc_current := ys,
      sc_copy := (\<lambda>t. if skips t (sc_notifier s) then ys else sc_copy s t)\<rparr>)"
| package: "sc_stage s = Resting \<Longrightarrow> package_for_delivery (Pair True) (sc_notifier s) = (True, n) \<Longrightarrow>
    length (no_callbacks n) < npos \<Longrightarrow>
    scene_step s (s\<lparr>sc_notifier := n, sc_stage := Packaged, sc_packed := sc_current s,
      sc_pending := callback_tokens n, sc_bound := no_next_token n\<rparr>)"
| before: "sc_stage s \<in> {Packaged, Telling_Before} \<Longrightarrow> next_section before_visit (sc_notifier s) = Visited v n \<Longrightarrow>
    scene_step s (s\<lparr>sc_notifier := n, sc_stage := Telling_Before\<rparr>)"
| before_end: "sc_stage s \<in> {Packaged, Telling_Before} \<Longrightarrow> next_section before_visit (sc_notifier s) = Finished n \<Longrightarrow>
    scene_step s (s\<lparr>sc_notifier := n, sc_stage := Packaged\<rparr>)"
| after: "sc_stage s \<in> {Packaged, Telling_After} \<Longrightarrow> next_section after_visit (sc_notifier s) = Visited v n \<Longrightarrow>
    cb = no_callbacks (sc_notifier s) ! size_succ (no_index (sc_notifier s)) \<Longrightarrow>
    scene_step s (s\<lparr>sc_notifier := n, sc_stage := Telling_After, sc_pending := removeAll (cl_token cb) (sc_pending s),
      sc_copy := (case v of None \<Rightarrow> sc_copy s
        | Some t \<Rightarrow> (sc_copy s)(t := client_update (cl_deliver cb) (sc_copy s t) (sc_packed s)))\<rparr>)"
| after_end: "sc_stage s \<in> {Packaged, Telling_After} \<Longrightarrow> next_section after_visit (sc_notifier s) = Finished n \<Longrightarrow>
    scene_step s (s\<lparr>sc_notifier := n, sc_stage := Resting\<rparr>)"

inductive scene_reached :: "'a scene \<Rightarrow> bool" where
  start: "scene_reached (begin_scene realm version xs)"
| step: "scene_reached s \<Longrightarrow> scene_step s s' \<Longrightarrow> scene_reached s'"

section \<open>Invariant\<close>

definition place_ok :: "'a scene \<Rightarrow> bool" where
  "place_ok s \<longleftrightarrow> (let n = sc_notifier s; b = sc_bound s; p = sc_pending s in
     case sc_stage s of
       Resting \<Rightarrow> nw.issued_tokens n \<and> no_index n = npos \<and> p = []
     | Packaged \<Rightarrow> nw.in_walk b [] p n
     | Telling_Before \<Rightarrow> (\<exists>as bs. nw.in_walk b as bs n \<and> p = as @ bs)
     | Telling_After \<Rightarrow> (\<exists>as. nw.in_walk b as p n))"

definition outstanding :: "'a list \<Rightarrow> 'a list \<Rightarrow> 'a list \<Rightarrow> bool \<Rightarrow> change_callback \<Rightarrow> bool" where
  "outstanding current packed copy pending cb \<longleftrightarrow>
     (if pending then reports (cl_deliver cb) copy packed \<and> tracks (cl_accumulated cb) packed current
      else cs_empty (cl_deliver cb) \<and> tracks (cl_accumulated cb) copy current)"

definition callback_ok :: "'a scene \<Rightarrow> change_callback \<Rightarrow> bool" where
  "callback_ok s cb \<longleftrightarrow> outstanding (sc_current s) (sc_packed s) (sc_copy s (cl_token cb))
     (cl_token cb \<in> set (sc_pending s)) cb"

definition scene_ok :: "'a scene \<Rightarrow> bool" where
  "scene_ok s \<longleftrightarrow> place_ok s \<and> (\<forall>cb \<in> set (no_callbacks (sc_notifier s)). callback_ok s cb)"

lemma before_place:
  assumes "place_ok s" "sc_stage s \<in> {Packaged, Telling_Before}"
  shows "\<exists>as bs. nw.in_walk (sc_bound s) as bs (sc_notifier s) \<and> sc_pending s = as @ bs"
proof (cases "sc_stage s = Packaged")
  case True
  then have "nw.in_walk (sc_bound s) [] (sc_pending s) (sc_notifier s)" using assms by (simp add: place_ok_def Let_def)
  then show ?thesis by (intro exI[of _ "[]"] exI[of _ "sc_pending s"]) simp
qed (use assms in \<open>auto simp: place_ok_def Let_def\<close>)

lemma after_place:
  assumes "place_ok s" "sc_stage s \<in> {Packaged, Telling_After}"
  shows "\<exists>as. nw.in_walk (sc_bound s) as (sc_pending s) (sc_notifier s)"
  using assms by (auto simp: place_ok_def Let_def)

lemma walk_fresh:
  assumes "nw.in_walk b as bs n"
  shows "nw.issued_tokens n" "\<forall>t \<in> set (as @ bs). t < no_next_token n"
  using assms order_less_le_trans unfolding nw.in_walk_def by blast+

lemma place_fresh:
  assumes "place_ok s"
  shows "nw.issued_tokens (sc_notifier s)" "\<forall>t \<in> set (sc_pending s). t < no_next_token (sc_notifier s)"
proof -
  consider "sc_stage s = Resting" | "sc_stage s \<in> {Packaged, Telling_Before}" | "sc_stage s \<in> {Packaged, Telling_After}"
    by (cases "sc_stage s") auto
  then have "nw.issued_tokens (sc_notifier s) \<and> (\<forall>t \<in> set (sc_pending s). t < no_next_token (sc_notifier s))"
  proof cases
    case 1
    then show ?thesis using assms by (simp add: place_ok_def Let_def)
  next
    case 2
    from before_place[OF assms this] walk_fresh show ?thesis by metis
  next
    case 3
    from after_place[OF assms this] walk_fresh show ?thesis by (metis Un_iff set_append)
  qed
  then show "nw.issued_tokens (sc_notifier s)" "\<forall>t \<in> set (sc_pending s). t < no_next_token (sc_notifier s)" by blast+
qed

lemma place_op:
  assumes p: "place_ok s" and op: "client_step op (sc_notifier s) = Inr n"
    and r: "sc_stage s = Resting \<or> op_removes op \<subseteq> {..<sc_bound s}"
    and s': "sc_notifier s' = n" "sc_stage s' = sc_stage s" "sc_bound s' = sc_bound s"
      "sc_pending s' = filter (\<lambda>t. t \<notin> op_removes op) (sc_pending s)"
  shows "place_ok s'"
proof (cases "sc_stage s = Resting")
  case True
  have f: "nw.issued_tokens (sc_notifier s)" "no_index (sc_notifier s) = npos" using p True by (simp_all add: place_ok_def Let_def)
  have "nw.issued_tokens n \<and> no_index n = npos"
  proof (cases op)
    case (Op_Add ca fn)
    then obtain t where a: "add_change_callback ca fn (sc_notifier s) = Inr (t, n)" using op by (auto simp: and_then_Inr)
    have "nw.issued_tokens n"
      using add_callback_result[OF a] by (intro nw.issued_tokens_add[OF f(1)]) (simp_all add: new_callback_def)
    then show ?thesis using add_callback_result[OF a] f(2) by simp
  next
    case (Op_Remove t)
    then have n: "n = removed_callback t (sc_notifier s)" using op remove_result by simp
    have "no_index (removed_callback t (sc_notifier s)) = npos"
    proof (cases "t \<in> set (callback_tokens (sc_notifier s))")
      case True
      then obtain ys zs where "callback_tokens (sc_notifier s) = ys @ t # zs" "t \<notin> set ys" by (meson split_list_first)
      then show ?thesis using f(2) by (simp add: removed_present index_after_removal_def)
    qed (simp add: removed_absent f(2))
    then show ?thesis using nw.issued_tokens_removal[OF f(1)] n by simp
  next
    case (Op_Suppress ca t)
    then have "suppress_next_notification ca t (sc_notifier s) = Inr n" using op by simp
    from suppress_same[OF this] f show ?thesis by (simp add: nw.issued_tokens_def)
  next
    case (Op_Changes c)
    then have "n = add_changes c (sc_notifier s)" using op by simp
    then show ?thesis using f by (simp add: nw.issued_tokens_def del: map_map)
  qed
  then show ?thesis using True p s' by (simp add: place_ok_def Let_def)
next
  case False
  note w = in_walk_op[OF _ op, of "sc_bound s"]
  have r: "op_removes op \<subseteq> {..<sc_bound s}" using r False by blast
  show ?thesis
  proof (cases "sc_stage s")
    case Packaged
    then show ?thesis using p s' w[of "[]"] r by (simp add: place_ok_def Let_def)
  next
    case Telling_Before
    then obtain as bs where "nw.in_walk (sc_bound s) as bs (sc_notifier s)" "sc_pending s = as @ bs"
      using p by (auto simp: place_ok_def Let_def)
    from w[OF this(1) r] this(2) show ?thesis using Telling_Before s' by (auto simp: place_ok_def Let_def)
  next
    case Telling_After
    then obtain as where "nw.in_walk (sc_bound s) as (sc_pending s) (sc_notifier s)" using p by (auto simp: place_ok_def Let_def)
    from w[OF this r] show ?thesis using Telling_After s' by (auto simp: place_ok_def Let_def)
  qed (use False in simp)
qed

lemma callback_ok_cong:
  assumes "callback_ok s cb" "cl_deliver cb' = cl_deliver cb" "cl_accumulated cb' = cl_accumulated cb"
    "cl_token cb' = cl_token cb" "sc_current s' = sc_current s" "sc_packed s' = sc_packed s"
    "sc_copy s' (cl_token cb) = sc_copy s (cl_token cb)"
    "cl_token cb \<in> set (sc_pending s') \<longleftrightarrow> cl_token cb \<in> set (sc_pending s)"
  shows "callback_ok s' cb'"
  using assms by (simp add: callback_ok_def outstanding_def)

lemma scene_add:
  assumes ok: "scene_ok s" and a: "add_change_callback ca fn (sc_notifier s) = Inr (t, n)"
  shows "scene_ok (s\<lparr>sc_notifier := n, sc_copy := (sc_copy s)(t := sc_current s)\<rparr>)" (is "scene_ok ?s")
proof -
  have p: "place_ok s" using ok by (simp add: scene_ok_def)
  note r = add_callback_result[OF a] and f = place_fresh[OF p]
  have "client_step (Op_Add ca fn) (sc_notifier s) = Inr n" using a by simp
  then have "place_ok ?s" by (rule place_op[OF p]) simp_all
  moreover have "callback_ok ?s cb" if cb: "cb \<in> set (no_callbacks n)" for cb
  proof (cases "cb \<in> set (no_callbacks (sc_notifier s))")
    case True
    then have "cl_token cb \<noteq> t" using f(1) r(1) by (auto simp: nw.issued_tokens_def)
    then show ?thesis using ok True by - (rule callback_ok_cong[of s cb], simp_all add: scene_ok_def)
  next
    case False
    then have "cb = new_callback fn t" using cb r by auto
    moreover have "t \<notin> set (sc_pending s)" using f(2) r(1) by auto
    ultimately show ?thesis by (simp add: callback_ok_def outstanding_def new_callback_def tracks_empty)
  qed
  ultimately show ?thesis by (simp add: scene_ok_def)
qed

lemma scene_remove:
  assumes ok: "scene_ok s" and r: "remove_change_callback t (sc_notifier s) = Inr n"
    and t: "sc_stage s = Resting \<or> t < sc_bound s"
  shows "scene_ok (s\<lparr>sc_notifier := n, sc_pending := removeAll t (sc_pending s)\<rparr>)" (is "scene_ok ?s")
proof -
  have p: "place_ok s" using ok by (simp add: scene_ok_def)
  note n = remove_result[OF r]
  have "client_step (Op_Remove t) (sc_notifier s) = Inr n" using r by simp
  then have "place_ok ?s" by (rule place_op[OF p]) (use t in \<open>auto simp: removeAll_filter_not_eq eq_commute[of t]\<close>)
  moreover have "callback_ok ?s cb" if cb: "cb \<in> set (no_callbacks n)" for cb
  proof -
    have "cl_token cb \<in> set (callback_tokens n)" using cb by simp
    moreover have "distinct (callback_tokens (sc_notifier s))" using place_fresh(1)[OF p] by (simp add: nw.issued_tokens_def)
    ultimately have "cl_token cb \<noteq> t" using nw.removal_tokens[of "sc_notifier s" t] n by auto
    moreover have "cb \<in> set (no_callbacks (sc_notifier s))" using cb removed_keeps[of t "sc_notifier s"] n by blast
    ultimately show ?thesis using ok by - (rule callback_ok_cong[of s cb], simp_all add: scene_ok_def)
  qed
  ultimately show ?thesis by (simp add: scene_ok_def)
qed

lemma scene_suppress:
  assumes ok: "scene_ok s" and u: "suppress_next_notification ca t (sc_notifier s) = Inr n"
  shows "scene_ok (s\<lparr>sc_notifier := n\<rparr>)" (is "scene_ok ?s")
proof -
  have p: "place_ok s" using ok by (simp add: scene_ok_def)
  have "client_step (Op_Suppress ca t) (sc_notifier s) = Inr n" using u by simp
  then have "place_ok ?s" by (rule place_op[OF p]) simp_all
  moreover have "callback_ok ?s cb" if cb: "cb \<in> set (no_callbacks n)" for cb
  proof -
    obtain k where k: "n = sc_notifier s \<or> k < length (no_callbacks (sc_notifier s)) \<and> n = sc_notifier s\<lparr>no_callbacks :=
        (no_callbacks (sc_notifier s))[k := (no_callbacks (sc_notifier s) ! k)\<lparr>cl_skip := True\<rparr>]\<rparr>"
      using suppress_result[OF u] by blast
    have "\<exists>c \<in> set (no_callbacks (sc_notifier s)). cb = c \<or> cb = c\<lparr>cl_skip := True\<rparr>"
      using k
    proof
      assume "k < length (no_callbacks (sc_notifier s)) \<and> n = sc_notifier s\<lparr>no_callbacks :=
        (no_callbacks (sc_notifier s))[k := (no_callbacks (sc_notifier s) ! k)\<lparr>cl_skip := True\<rparr>]\<rparr>"
      then have "cb = (no_callbacks (sc_notifier s) ! k)\<lparr>cl_skip := True\<rparr> \<or> cb \<in> set (no_callbacks (sc_notifier s))"
        "no_callbacks (sc_notifier s) ! k \<in> set (no_callbacks (sc_notifier s))"
        using cb set_update_subset_insert by fastforce+
      then show ?thesis by blast
    qed (use cb in auto)
    then obtain c where c: "c \<in> set (no_callbacks (sc_notifier s))" "cb = c \<or> cb = c\<lparr>cl_skip := True\<rparr>" by blast
    show ?thesis using ok c by - (rule callback_ok_cong[of s c], auto simp: scene_ok_def)
  qed
  ultimately show ?thesis by (simp add: scene_ok_def)
qed

lemma tracks_still_empty: "tracks b xs ys \<Longrightarrow> cs_empty b \<Longrightarrow> tracks b zs zs"
  by (simp add: tracks_def cs_empty_def moves_ok_def)

lemma scene_change:
  assumes ok: "scene_ok s" and c: "tracks c (sc_current s) ys" and fit: "change_fits c s"
  shows "scene_ok (s\<lparr>sc_notifier := add_changes c (sc_notifier s), sc_current := ys,
      sc_copy := (\<lambda>t. if skips t (sc_notifier s) then ys else sc_copy s t)\<rparr>)" (is "scene_ok ?s")
proof -
  have p: "place_ok s" using ok by (simp add: scene_ok_def)
  have "client_step (Op_Changes c) (sc_notifier s) = Inr (add_changes c (sc_notifier s))" by simp
  then have "place_ok ?s" by (rule place_op[OF p]) simp_all
  moreover have "callback_ok ?s (collect c cb)" if cb: "cb \<in> set (no_callbacks (sc_notifier s))" for cb
  proof -
    have "distinct (callback_tokens (sc_notifier s))" using place_fresh(1)[OF p] by (simp add: nw.issued_tokens_def)
    then have k: "skips (cl_token cb) (sc_notifier s) = cl_skip cb"
      using cb by (auto simp: skips_def distinct_map dest: inj_onD)
    have o: "outstanding (sc_current s) (sc_packed s) (sc_copy s (cl_token cb)) (cl_token cb \<in> set (sc_pending s)) cb"
      using ok cb by (simp add: scene_ok_def callback_ok_def)
    show ?thesis
    proof (cases "cl_skip cb")
      case True
      then have "cs_empty (cl_accumulated cb)" "cl_token cb \<notin> set (sc_pending s)" using fit cb by (auto simp: change_fits_def)
      then show ?thesis using o True k tracks_still_empty
        by (auto simp: callback_ok_def outstanding_def collect_def)
    next
      case False
      then have "merge_fits (cl_accumulated cb) c" using fit cb by (auto simp: change_fits_def)
      then show ?thesis using o False k tracks_merge[OF _ c]
        by (auto simp: callback_ok_def outstanding_def collect_def)
    qed
  qed
  ultimately show ?thesis by (simp add: scene_ok_def add_changes_def)
qed

lemma scene_package:
  assumes ok: "scene_ok s" and r: "sc_stage s = Resting"
    and k: "package_for_delivery (Pair True) (sc_notifier s) = (True, n)" and l: "length (no_callbacks n) < npos"
  shows "scene_ok (s\<lparr>sc_notifier := n, sc_stage := Packaged, sc_packed := sc_current s,
      sc_pending := callback_tokens n, sc_bound := no_next_token n\<rparr>)" (is "scene_ok ?s")
proof -
  have n: "n = (sc_notifier s)\<lparr>no_callbacks := map package_callback (no_callbacks (sc_notifier s)),
      no_count := length (no_callbacks (sc_notifier s))\<rparr>"
    using k by (simp add: package_for_delivery_def)
  then have t: "callback_tokens n = callback_tokens (sc_notifier s)" by (simp add: package_callback_def)
  have f: "nw.issued_tokens (sc_notifier s)" "no_index (sc_notifier s) = npos" "sc_pending s = []"
    using ok r by (simp_all add: scene_ok_def place_ok_def Let_def)
  have "nw.in_walk (no_next_token n) [] (callback_tokens n) n"
    using f l t by (intro nw.in_walk_start) (simp_all add: nw.issued_tokens_def n del: map_map)
  then have "place_ok ?s" by (simp add: place_ok_def Let_def)
  moreover have "callback_ok ?s (package_callback cb)" if cb: "cb \<in> set (no_callbacks (sc_notifier s))" for cb
  proof -
    have "tracks (cl_accumulated cb) (sc_copy s (cl_token cb)) (sc_current s)"
      using ok cb f(3) by (simp add: scene_ok_def callback_ok_def outstanding_def)
    moreover have "cl_token cb \<in> set (callback_tokens n)" using cb t by simp
    ultimately show ?thesis
      by (simp add: callback_ok_def outstanding_def package_callback_def reports_finalize tracks_moved_from)
  qed
  ultimately show ?thesis by (simp add: scene_ok_def n)
qed

lemma before_visit_same: "no_callbacks (snd (before_visit i n)) = no_callbacks n"
  by (simp add: before_visit_def Let_def)

lemma scene_before:
  assumes ok: "scene_ok s" and g: "sc_stage s \<in> {Packaged, Telling_Before}"
    and v: "next_section before_visit (sc_notifier s) = Visited v n"
  shows "scene_ok (s\<lparr>sc_notifier := n, sc_stage := Telling_Before\<rparr>)" (is "scene_ok ?s")
proof -
  obtain as bs where w: "nw.in_walk (sc_bound s) as bs (sc_notifier s)" "sc_pending s = as @ bs"
    using before_place ok g by (metis scene_ok_def)
  then obtain t ts where b: "bs = t # ts" using v section_finishes[of "sc_bound s" as "sc_notifier s" before_visit] by (cases bs) auto
  note x = section_visits[OF w(1)[unfolded b] quiet_visits(1)]
  have n: "n = snd (before_visit (length as) ((sc_notifier s)\<lparr>no_index := length as\<rparr>))" using v x(1) by simp
  have "place_ok ?s"
    using x(2) w(2) b n unfolding place_ok_def Let_def by (simp, intro exI[of _ "as @ [t]"] exI[of _ ts]) simp
  moreover have "callback_ok ?s cb" if "cb \<in> set (no_callbacks n)" for cb
    using that ok n by - (rule callback_ok_cong[of s cb], simp_all add: scene_ok_def before_visit_same)
  ultimately show ?thesis by (simp add: scene_ok_def)
qed

lemma scene_before_end:
  assumes ok: "scene_ok s" and g: "sc_stage s \<in> {Packaged, Telling_Before}"
    and v: "next_section before_visit (sc_notifier s) = Finished n"
  shows "scene_ok (s\<lparr>sc_notifier := n, sc_stage := Packaged\<rparr>)" (is "scene_ok ?s")
proof -
  obtain as bs where w: "nw.in_walk (sc_bound s) as bs (sc_notifier s)" "sc_pending s = as @ bs"
    using before_place ok g by (metis scene_ok_def)
  then have b: "bs = []" using v w(1) section_visits(1)[of "sc_bound s" as _ _ "sc_notifier s" before_visit] quiet_visits(1) by (cases bs) auto
  then have n: "n = (sc_notifier s)\<lparr>no_index := npos\<rparr>" using v section_finishes[of "sc_bound s" as "sc_notifier s" before_visit] w(1) by simp
  have "nw.in_walk (sc_bound s) [] as n" using w(1) by (simp add: b n nw.in_walk_def nw.issued_tokens_def)
  then have "place_ok ?s" using w(2) b by (simp add: place_ok_def Let_def)
  moreover have "callback_ok ?s cb" if "cb \<in> set (no_callbacks n)" for cb
    using that ok n by - (rule callback_ok_cong[of s cb], simp_all add: scene_ok_def)
  ultimately show ?thesis by (simp add: scene_ok_def)
qed

text \<open>The walk after the change ends when nobody is pending, and otherwise visits the first who is.\<close>

lemma section_after_end:
  assumes ok: "scene_ok s" and g: "sc_stage s \<in> {Packaged, Telling_After}" and e: "sc_pending s = []"
  shows "next_section after_visit (sc_notifier s) = Finished ((sc_notifier s)\<lparr>no_index := npos\<rparr>)"
proof -
  obtain as where "nw.in_walk (sc_bound s) as (sc_pending s) (sc_notifier s)"
    using after_place ok g by (metis scene_ok_def)
  then show ?thesis unfolding e by (rule section_finishes)
qed

lemma section_after_visit:
  assumes ok: "scene_ok s" and g: "sc_stage s \<in> {Packaged, Telling_After}" and p: "sc_pending s = t # ts"
  obtains as cb where "size_succ (no_index (sc_notifier s)) = length as" "length as < length (no_callbacks (sc_notifier s))"
    "no_callbacks (sc_notifier s) ! length as = cb" "cl_token cb = t"
    "next_section after_visit (sc_notifier s) = Visited (if cl_initial cb \<and> cs_empty (cl_deliver cb) then None else Some t)
      (snd (after_visit (length as) ((sc_notifier s)\<lparr>no_index := length as\<rparr>)))"
    "nw.in_walk (sc_bound s) (as @ [t]) ts (snd (after_visit (length as) ((sc_notifier s)\<lparr>no_index := length as\<rparr>)))"
    "reports (cl_deliver cb) (sc_copy s t) (sc_packed s)" "tracks (cl_accumulated cb) (sc_packed s) (sc_current s)"
proof -
  obtain as where w: "nw.in_walk (sc_bound s) as (t # ts) (sc_notifier s)"
    using after_place ok g p by (metis scene_ok_def)
  note x = section_visits[OF w quiet_visits(2)]
  let ?cb = "no_callbacks (sc_notifier s) ! length as"
  have "callback_ok s ?cb" using ok x(3) by (simp add: scene_ok_def)
  then have r: "reports (cl_deliver ?cb) (sc_copy s t) (sc_packed s)" "tracks (cl_accumulated ?cb) (sc_packed s) (sc_current s)"
    using p x(4) by (simp_all add: callback_ok_def outstanding_def)
  have "fst (after_visit (length as) ((sc_notifier s)\<lparr>no_index := length as\<rparr>)) =
    (if cl_initial ?cb \<and> cs_empty (cl_deliver ?cb) then None else Some t)"
    using x(4) by (simp add: after_visit_def Let_def)
  then have v: "next_section after_visit (sc_notifier s) = Visited (if cl_initial ?cb \<and> cs_empty (cl_deliver ?cb) then None else Some t)
      (snd (after_visit (length as) ((sc_notifier s)\<lparr>no_index := length as\<rparr>)))"
    using x(1) by simp
  show thesis by (rule that[OF nw.in_walk_here(1)[OF w] x(3) refl x(4) v x(2) r])
qed

lemma scene_after:
  assumes ok: "scene_ok s" and g: "sc_stage s \<in> {Packaged, Telling_After}"
    and v: "next_section after_visit (sc_notifier s) = Visited v n"
    and cb: "cb = no_callbacks (sc_notifier s) ! size_succ (no_index (sc_notifier s))"
  shows "scene_ok (s\<lparr>sc_notifier := n, sc_stage := Telling_After, sc_pending := removeAll (cl_token cb) (sc_pending s),
      sc_copy := (case v of None \<Rightarrow> sc_copy s
        | Some t \<Rightarrow> (sc_copy s)(t := client_update (cl_deliver cb) (sc_copy s t) (sc_packed s)))\<rparr>)" (is "scene_ok ?s")
proof -
  obtain t ts where p: "sc_pending s = t # ts" using section_after_end[OF ok g] v by (cases "sc_pending s") auto
  obtain as c where a: "size_succ (no_index (sc_notifier s)) = length as" "length as < length (no_callbacks (sc_notifier s))"
    "no_callbacks (sc_notifier s) ! length as = c" "cl_token c = t"
    "next_section after_visit (sc_notifier s) = Visited (if cl_initial c \<and> cs_empty (cl_deliver c) then None else Some t)
      (snd (after_visit (length as) ((sc_notifier s)\<lparr>no_index := length as\<rparr>)))"
    "nw.in_walk (sc_bound s) (as @ [t]) ts (snd (after_visit (length as) ((sc_notifier s)\<lparr>no_index := length as\<rparr>)))"
    "reports (cl_deliver c) (sc_copy s t) (sc_packed s)" "tracks (cl_accumulated c) (sc_packed s) (sc_current s)"
    using section_after_visit[OF ok g p] .
  have c: "cb = c" using cb a(1,3) by simp
  let ?n = "snd (after_visit (length as) ((sc_notifier s)\<lparr>no_index := length as\<rparr>))"
  have n: "n = ?n" "v = (if cl_initial c \<and> cs_empty (cl_deliver c) then None else Some t)" using v a(5) by simp_all
  have d: "distinct (callback_tokens (sc_notifier s))" using ok place_fresh(1) by (auto simp: scene_ok_def nw.issued_tokens_def)
  have "distinct (callback_tokens ?n)" using a(6) by (simp add: nw.in_walk_def nw.issued_tokens_def)
  then have t: "t \<notin> set ts" using a(6) unfolding nw.in_walk_def by auto
  then have pend: "sc_pending ?s = ts" using p a(4) c by simp
  have place: "place_ok ?s" using a(6) pend n(1) by (auto simp: place_ok_def Let_def)
  have copy: "sc_copy ?s = (sc_copy s)(t := sc_packed s)"
    using n(2) c client_update_exact[OF a(7)] reports_empty[OF a(7)] by auto
  have others: "callback_ok ?s b" if b: "b \<in> set (no_callbacks (sc_notifier s))" "cl_token b \<noteq> t" for b
    using ok b p pend copy by - (rule callback_ok_cong[of s b], simp_all add: scene_ok_def)
  have this_one: "cl_token b = t \<Longrightarrow> b = c" if "b \<in> set (no_callbacks (sc_notifier s))" for b
    using that d a(2-4) nth_mem[OF a(2)] by (auto simp: distinct_map dest: inj_onD)
  have "callback_ok ?s b" if b: "b \<in> set (no_callbacks n)" for b
  proof (cases "cl_initial c \<and> cs_empty (cl_deliver c)")
    case True
    then have "no_callbacks n = no_callbacks (sc_notifier s)" using n(1) a(3) by (simp add: after_visit_def Let_def)
    then have b: "b \<in> set (no_callbacks (sc_notifier s))" using b by simp
    show ?thesis
    proof (cases "cl_token b = t")
      case same: True
      then have "b = c" using this_one b by blast
      then show ?thesis using True t a(4,8) pend copy by (simp add: callback_ok_def outstanding_def)
    qed (use others b in blast)
  next
    case False
    then have l: "no_callbacks n = (no_callbacks (sc_notifier s))[length as := c\<lparr>cl_initial := True, cl_deliver := no_changes\<rparr>]"
      using n(1) a(3) by (auto simp: after_visit_def Let_def)
    then obtain k where k: "k < length (no_callbacks (sc_notifier s))" "b = no_callbacks n ! k"
      using b by (auto simp: in_set_conv_nth)
    show ?thesis
    proof (cases "k = length as")
      case True
      then have "b = c\<lparr>cl_initial := True, cl_deliver := no_changes\<rparr>" using k l by simp
      then show ?thesis using t a(4,8) pend copy by (simp add: callback_ok_def outstanding_def)
    next
      case other: False
      then have b: "b = no_callbacks (sc_notifier s) ! k" using k l by simp
      moreover have "cl_token b \<noteq> t"
        using d other k(1) a(2-4) b by (auto simp: distinct_conv_nth)
      ultimately show ?thesis using others k(1) nth_mem by blast
    qed
  qed
  then show ?thesis using place by (simp add: scene_ok_def)
qed

lemma scene_after_end:
  assumes ok: "scene_ok s" and g: "sc_stage s \<in> {Packaged, Telling_After}"
    and v: "next_section after_visit (sc_notifier s) = Finished n"
  shows "sc_pending s = []" "scene_ok (s\<lparr>sc_notifier := n, sc_stage := Resting\<rparr>)" (is "scene_ok ?s")
proof -
  show e: "sc_pending s = []"
  proof (cases "sc_pending s")
    case (Cons t ts)
    then show ?thesis using section_after_visit[OF ok g] v by (metis section_result.distinct(3))
  qed
  have n: "n = (sc_notifier s)\<lparr>no_index := npos\<rparr>" using section_after_end[OF ok g e] v by simp
  have "nw.issued_tokens n" using place_fresh(1)[of s] ok by (simp add: scene_ok_def nw.issued_tokens_def n)
  then have "place_ok ?s" using e n by (simp add: place_ok_def Let_def)
  moreover have "callback_ok ?s cb" if "cb \<in> set (no_callbacks n)" for cb
    using that ok n by - (rule callback_ok_cong[of s cb], simp_all add: scene_ok_def)
  ultimately show "scene_ok ?s" by (simp add: scene_ok_def)
qed

lemma scene_ok_begin: "scene_ok (begin_scene realm version xs)"
  by (simp add: scene_ok_def begin_scene_def place_ok_def make_notifier_def nw.issued_tokens_def)

lemma scene_ok_step: "scene_step s s' \<Longrightarrow> scene_ok s \<Longrightarrow> scene_ok s'"
  by (induction rule: scene_step.induct)
    (blast intro: scene_add scene_remove scene_suppress scene_change scene_package scene_before scene_before_end
      scene_after scene_after_end(2))+

lemma scene_reached_ok: "scene_reached s \<Longrightarrow> scene_ok s"
  by (induction rule: scene_reached.induct) (simp_all add: scene_ok_begin scene_ok_step)

end
