(* ===== verification/Notifier_Package.thy ===== *)
theory Notifier_Package
  imports Collection_Notifier
begin

text \<open>
  \<open>NotifierPackage\<close> (\<open>impl/collection_notifier.cpp\<close>): the notifiers of one Realm instance on their way to
  delivery.  The notifiers are the objects themselves; the script of a walk says what each callback does to
  its own notifier.
\<close>

record notifier_package =
  pk_version :: "version_id option"
  pk_notifiers :: "notifier list"
  pk_coordinator :: bool
  pk_error :: bool

definition make_package :: "bool \<Rightarrow> notifier list \<Rightarrow> bool \<Rightarrow> notifier_package" where
  "make_package error notifiers coordinator =
     \<lparr>pk_version = None, pk_notifiers = notifiers, pk_coordinator = coordinator, pk_error = error\<rparr>"

text \<open>What \<open>package_and_wait\<close> waits for.\<close>

definition ready_for :: "nat option \<Rightarrow> notifier list \<Rightarrow> bool" where
  "ready_for target ns = (case target of None \<Rightarrow> True
     | Some v \<Rightarrow> list_all (\<lambda>n. \<not> no_have_callbacks n \<or> no_has_run n \<and> v \<le> v_version (no_version n)) ns)"

text \<open>The lambda \<open>package\<close>; it answers whether the notifier is to be removed.\<close>

definition package_one :: "(notifier \<Rightarrow> bool \<times> notifier) \<Rightarrow> notifier \<Rightarrow> version_id option \<Rightarrow>
    bool \<times> notifier \<times> version_id option" where
  "package_one prepare n version =
     (if \<not> no_has_run n then (True, n, version)
      else case package_for_delivery prepare n of (ok, n) \<Rightarrow>
        if ok then (False, n, Some (no_version n)) else (True, n, version))"

text \<open>
  \<open>waited\<close> is what the notifiers are when the wait looks at them; \<open>None\<close> is a wait that goes on.
\<close>

definition package_and_wait :: "(notifier \<Rightarrow> bool \<times> notifier) \<Rightarrow> nat option \<Rightarrow> notifier list \<Rightarrow> notifier_package \<Rightarrow>
    (failure + notifier_package) option" where
  "package_and_wait prepare target waited p =
     (if \<not> pk_coordinator p \<or> pk_error p \<or> pk_notifiers p = [] then Some (Inr p)
      else if \<not> ready_for target waited then None
      else
        let (ns, version) = remove_if_state (package_one prepare) waited (pk_version p);
            (ns, version) = (case (version, target) of
                (Some v, Some t) \<Rightarrow> if v_version v < t then ([], None) else (ns, version)
              | _ \<Rightarrow> (ns, version))
        in if version \<noteq> None \<or> ns = []
           then Some (Inr (p\<lparr>pk_notifiers := ns, pk_version := version, pk_coordinator := False\<rparr>))
           else Some (Inl Assertion_Failed))"

text \<open>The notifiers one after the other, until something goes wrong.\<close>

fun each_notifier :: "(nat \<Rightarrow> notifier \<Rightarrow> notifier walk_result option) \<Rightarrow> nat \<Rightarrow> notifier list \<Rightarrow>
    notifier list walk_result option" where
  "each_notifier f i [] = Some (Walk_Finished [])"
| "each_notifier f i (n # ns) =
     (case f i n of
        None \<Rightarrow> None
      | Some Walk_Overran \<Rightarrow> Some Walk_Overran
      | Some (Walk_Failed e) \<Rightarrow> Some (Walk_Failed e)
      | Some (Walk_Finished n') \<Rightarrow>
          (case each_notifier f (Suc i) ns of
             None \<Rightarrow> None
           | Some Walk_Overran \<Rightarrow> Some Walk_Overran
           | Some (Walk_Failed e) \<Rightarrow> Some (Walk_Failed e)
           | Some (Walk_Finished ns') \<Rightarrow> Some (Walk_Finished (n' # ns'))))"

definition package_before_advance :: "(nat \<Rightarrow> size \<Rightarrow> client_op list) \<Rightarrow> notifier_package \<Rightarrow> notifier list walk_result option" where
  "package_before_advance script p =
     (if pk_error p then Some (Walk_Finished (pk_notifiers p))
      else each_notifier (\<lambda>i. before_advance (script i)) 0 (pk_notifiers p))"

definition package_deliver :: "(notifier \<Rightarrow> notifier) \<Rightarrow> bool \<Rightarrow> (nat \<Rightarrow> size \<Rightarrow> client_op list) \<Rightarrow> notifier_package \<Rightarrow>
    notifier list walk_result option" where
  "package_deliver deliver reading script p =
     (if pk_error p then each_notifier (\<lambda>i. deliver_error (script i)) 0 (pk_notifiers p)
      else Some (Walk_Finished (if reading then map deliver (pk_notifiers p) else pk_notifiers p)))"

definition package_after_advance :: "(nat \<Rightarrow> size \<Rightarrow> client_op list) \<Rightarrow> notifier_package \<Rightarrow> notifier list walk_result option" where
  "package_after_advance script p =
     (if pk_error p then Some (Walk_Finished (pk_notifiers p))
      else each_notifier (\<lambda>i. after_advance (script i)) 0 (pk_notifiers p))"

text \<open>The notifier is registered with the coordinator as well, which is returned as the second component.\<close>

definition package_add_notifier :: "notifier \<Rightarrow> notifier list \<Rightarrow> notifier_package \<Rightarrow> notifier_package \<times> notifier list" where
  "package_add_notifier n registered p = (p\<lparr>pk_notifiers := pk_notifiers p @ [n]\<rparr>, registered @ [n])"

section \<open>What is packaged\<close>

text \<open>The notifiers that have run and can deliver, packaged.\<close>

definition packaged_of :: "(notifier \<Rightarrow> bool \<times> notifier) \<Rightarrow> notifier list \<Rightarrow> notifier list" where
  "packaged_of prepare ns = map (\<lambda>n. snd (package_for_delivery prepare n))
     (filter (\<lambda>n. no_has_run n \<and> fst (package_for_delivery prepare n)) ns)"

lemma packaged_of_simps [simp]:
  "packaged_of prepare [] = []"
  "packaged_of prepare (n # ns) = (if no_has_run n \<and> fst (package_for_delivery prepare n)
     then snd (package_for_delivery prepare n) # packaged_of prepare ns else packaged_of prepare ns)"
  by (simp_all add: packaged_of_def)

lemma package_all:
  "remove_if_state (package_one prepare) ns v = (packaged_of prepare ns,
     if packaged_of prepare ns = [] then v else Some (no_version (last (packaged_of prepare ns))))"
proof (induction ns arbitrary: v)
  case (Cons n ns)
  obtain ok n' where "package_for_delivery prepare n = (ok, n')" by (cases "package_for_delivery prepare n")
  moreover from this have "package_one prepare n v = (if no_has_run n \<and> ok then (False, n', Some (no_version n')) else (True, if no_has_run n then n' else n, v))"
    by (simp add: package_one_def)
  ultimately show ?case by (simp add: Cons.IH)
qed simp

lemma package_and_wait_returns:
  assumes "pk_coordinator p" "\<not> pk_error p" "pk_notifiers p \<noteq> []" "pk_version p = None" "ready_for target waited"
    and "\<forall>n \<in> set (packaged_of prepare waited). no_version n = v" "\<forall>t. target = Some t \<longrightarrow> t \<le> v_version v"
  shows "package_and_wait prepare target waited p = Some (Inr (p\<lparr>pk_notifiers := packaged_of prepare waited,
    pk_version := (if packaged_of prepare waited = [] then None else Some v), pk_coordinator := False\<rparr>))"
proof -
  let ?ps = "packaged_of prepare waited"
  have r: "remove_if_state (package_one prepare) waited None = (?ps, if ?ps = [] then None else Some (no_version (last ?ps)))"
    by (rule package_all)
  moreover have "?ps \<noteq> [] \<Longrightarrow> no_version (last ?ps) = v" using assms(6) by simp
  ultimately show ?thesis
    using assms(1-5,7) by (cases "?ps = []") (auto simp: package_and_wait_def split: option.splits)
qed

end
