(* ===== verification/Notifier_Properties.thy ===== *)
theory Notifier_Properties
  imports Notifier_Clients Notifier_Package
begin

text \<open>What \<open>CollectionNotifier\<close> promises to its clients, and the operations that break the promise.\<close>

section \<open>Examples\<close>

definition any_caller :: caller where
  "any_caller = \<lparr>on_thread = 0, realm_thread = None, realm_in_write = False\<rparr>"

definition fresh_notifier :: notifier where
  "fresh_notifier = make_notifier 0 \<lparr>v_version = 1, v_index = 0\<rparr>"

text \<open>A notifier of the list \<open>[5]\<close> with one client, after 7 was appended to the list.\<close>

definition one_client :: notifier where
  "one_client = snd (push_callback 0 fresh_notifier)"

lemma add_any: "no_realm n \<noteq> None \<Longrightarrow> add_change_callback any_caller fn n = Inr (push_callback fn n)"
  by (simp add: add_change_callback_def any_caller_def verify_thread_def)

lemma one_client_callbacks:
  "no_callbacks one_client = [new_callback 0 0]" "no_index one_client = npos" "no_next_token one_client = 1"
  "no_realm one_client = Some 0" "no_count one_client = npos"
  by (simp_all add: one_client_def push_callback_def fresh_notifier_def make_notifier_def Let_def)

definition appended :: change_builder where
  "appended = cb_insert empty_builder 1 1 True"

lemma appended_tracks: "tracks appended [5] [5, 7 :: int]"
  using tracks_insert[OF tracks_empty, of 1 "[5]" "[7::int]"] by (simp add: appended_def)

definition changed_scene :: "int scene" where
  "changed_scene = (begin_scene 0 \<lparr>v_version = 1, v_index = 0\<rparr> [5])\<lparr>
     sc_notifier := add_changes appended one_client, sc_current := [5, 7], sc_copy := (\<lambda>_. [])(0 := [5])\<rparr>"

lemma changed_scene_reached: "scene_reached changed_scene"
proof -
  let ?s = "begin_scene 0 \<lparr>v_version = 1, v_index = 0\<rparr> [5 :: int]"
  have "sc_notifier ?s = fresh_notifier" by (simp add: begin_scene_def fresh_notifier_def)
  then have a: "add_change_callback any_caller 0 (sc_notifier ?s) = Inr (0, one_client)"
    by (simp add: add_any fresh_notifier_def make_notifier_def)
      (simp add: one_client_def push_callback_def fresh_notifier_def make_notifier_def Let_def)
  let ?t = "?s\<lparr>sc_notifier := one_client, sc_copy := (sc_copy ?s)(0 := sc_current ?s)\<rparr>"
  have t: "scene_reached ?t" by (rule scene_reached.step[OF scene_reached.start scene_step.add[OF a]])
  have "merge_fits empty_builder appended"
    by (simp add: merge_fits_def shifted_fits_def add_shifted_by_def empty_builder_def appended_def cb_insert_def Let_def
        builder_init_cap[of "[]", simplified])
  then have f: "change_fits appended ?t" by (simp add: change_fits_def one_client_callbacks new_callback_def)
  have "tracks appended (sc_current ?t) [5, 7]" by (simp add: begin_scene_def appended_tracks)
  from scene_reached.step[OF t scene_step.change[OF this f]]
  have "scene_reached (?t\<lparr>sc_notifier := add_changes appended (sc_notifier ?t), sc_current := [5, 7],
      sc_copy := (\<lambda>t. if skips t (sc_notifier ?t) then [5, 7] else sc_copy ?t t)\<rparr>)" .
  moreover have "\<not> skips t one_client" for t by (simp add: skips_def one_client_callbacks new_callback_def)
  ultimately show ?thesis by (simp add: changed_scene_def begin_scene_def fun_upd_def)
qed

lemma packaged_scene:
  "scene_reached (changed_scene\<lparr>sc_notifier := snd (package_for_delivery (Pair True) (sc_notifier changed_scene)),
     sc_stage := Packaged, sc_packed := [5, 7], sc_pending := [0], sc_bound := 1\<rparr>)"
proof -
  let ?n = "snd (package_for_delivery (Pair True) (sc_notifier changed_scene))"
  have n: "package_for_delivery (Pair True) (sc_notifier changed_scene) = (True, ?n)"
    by (simp add: package_for_delivery_def)
  have c: "callback_tokens ?n = [0]" "no_next_token ?n = 1"
    by (simp_all add: package_for_delivery_def changed_scene_def add_changes_def one_client_callbacks
        package_callback_def collect_def new_callback_def)
  have "length (no_callbacks ?n) < npos" using arg_cong[OF c(1), of length] by (simp add: npos_def)
  moreover have "sc_stage changed_scene = Resting" "sc_current changed_scene = [5, 7]"
    by (simp_all add: changed_scene_def begin_scene_def)
  ultimately show ?thesis
    using scene_reached.step[OF changed_scene_reached scene_step.package[OF _ n]] c by simp
qed

section \<open>Clients keep up\<close>

text \<open>
  C7. Between the sections of a delivery callbacks may be added, removed and told to skip, and changes may be
  collected, under three conditions (\<open>scene_step\<close>): a callback added after the packaging is not removed before the
  delivery ends (\<open>removing_added_callback_loses_changes\<close>), a merge fits the chunks of the index sets, and a
  change is skipped only by a client that has nothing outstanding and made it itself.  Nor is an error delivered
  meanwhile.  Then each section that tells a client tells the first one pending, once; a table view that
  deletes and inserts the rows it is told of then shows the collection as it was packaged; a client that is
  not called shows it already; the walk ends when nobody is pending any more, and it never leaves the vector.
\<close>

theorem clients_keep_up:
  assumes "scene_reached s" "sc_stage s \<in> {Packaged, Telling_After}"
  shows "case next_section after_visit (sc_notifier s) of
      Overrun \<Rightarrow> False
    | Finished n \<Rightarrow> sc_pending s = []
    | Visited v n \<Rightarrow> \<exists>cb \<in> set (no_callbacks (sc_notifier s)). \<exists>ts. sc_pending s = cl_token cb # ts \<and>
        (case v of
           None \<Rightarrow> sc_copy s (cl_token cb) = sc_packed s
         | Some t \<Rightarrow> t = cl_token cb \<and> no_trace n = no_trace (sc_notifier s) @ [Told_After t (cl_deliver cb)] \<and>
             client_update (cl_deliver cb) (sc_copy s t) (sc_packed s) = sc_packed s)"
proof (cases "sc_pending s")
  case Nil
  then show ?thesis using section_after_end[OF scene_reached_ok[OF assms(1)] assms(2)] by simp
next
  case (Cons t ts)
  obtain as c where a: "size_succ (no_index (sc_notifier s)) = length as" "length as < length (no_callbacks (sc_notifier s))"
    "no_callbacks (sc_notifier s) ! length as = c" "cl_token c = t"
    "next_section after_visit (sc_notifier s) = Visited (if cl_initial c \<and> cs_empty (cl_deliver c) then None else Some t)
      (snd (after_visit (length as) ((sc_notifier s)\<lparr>no_index := length as\<rparr>)))"
    "nw.in_walk (sc_bound s) (as @ [t]) ts (snd (after_visit (length as) ((sc_notifier s)\<lparr>no_index := length as\<rparr>)))"
    "reports (cl_deliver c) (sc_copy s t) (sc_packed s)" "tracks (cl_accumulated c) (sc_packed s) (sc_current s)"
    using section_after_visit[OF scene_reached_ok[OF assms(1)] assms(2) Cons] .
  have "no_trace (snd (after_visit (length as) ((sc_notifier s)\<lparr>no_index := length as\<rparr>))) =
      no_trace (sc_notifier s) @ [Told_After t (cl_deliver c)]" if "\<not> (cl_initial c \<and> cs_empty (cl_deliver c))"
    using that a(3,4) by (auto simp: after_visit_def Let_def)
  then show ?thesis
    using a Cons client_update_exact[OF a(7)] reports_empty[OF a(7)] nth_mem[OF a(2)]
    by (auto intro!: bexI[of _ c])
qed

theorem clients_keep_up_witness:
  "\<exists>c :: change_set. client_update c [5] [5, 7 :: int] = [5, 7]"
proof -
  let ?n = "snd (package_for_delivery (Pair True) (sc_notifier changed_scene))"
  let ?s = "changed_scene\<lparr>sc_notifier := ?n, sc_stage := Packaged, sc_packed := [5, 7], sc_pending := [0], sc_bound := 1\<rparr>"
  have i: "no_callbacks ?n = [package_callback (collect appended (new_callback 0 0))]" "no_index ?n = npos" "no_count ?n = 1"
    by (simp_all add: package_for_delivery_def changed_scene_def add_changes_def one_client_callbacks)
  have v: "next_section after_visit (sc_notifier ?s) = Visited (Some 0) (snd (after_visit 0 (?n\<lparr>no_index := 0\<rparr>)))"
    using i by (simp add: next_section_def size_succ_def Let_def split: prod.split)
      (simp add: after_visit_def Let_def i package_callback_def collect_def new_callback_def)
  have "sc_copy ?s 0 = [5]" "sc_packed ?s = [5, 7]" by (simp_all add: changed_scene_def)
  moreover have "sc_stage ?s \<in> {Packaged, Telling_After}" by simp
  note clients_keep_up[OF packaged_scene this]
  ultimately show ?thesis unfolding v by auto
qed

text \<open>
  C19. No change is lost between two deliveries: at any moment what was collected for a callback leads from
  the collection its client has, or is about to be told of, to the collection as the worker last saw it,
  and only callbacks that are pending have something packaged.  The moments are those of C7: no callback added
  after a packaging is removed before that delivery ends, merges fit, a client that skips a change has nothing
  outstanding, and no error is delivered.
\<close>

theorem no_change_is_lost:
  assumes "scene_reached s" "cb \<in> set (no_callbacks (sc_notifier s))"
  shows "(cl_token cb \<in> set (sc_pending s) \<longrightarrow>
      client_update (cl_deliver cb) (sc_copy s (cl_token cb)) (sc_packed s) = sc_packed s \<and>
      client_update (cb_finalize (cl_accumulated cb)) (sc_packed s) (sc_current s) = sc_current s) \<and>
    (cl_token cb \<notin> set (sc_pending s) \<longrightarrow> cs_empty (cl_deliver cb) \<and>
      client_update (cb_finalize (cl_accumulated cb)) (sc_copy s (cl_token cb)) (sc_current s) = sc_current s)"
proof -
  have "callback_ok s cb" using scene_reached_ok[OF assms(1)] assms(2) by (simp add: scene_ok_def)
  then show ?thesis
    using client_update_exact client_update_exact[OF reports_finalize] by (auto simp: callback_ok_def outstanding_def)
qed

theorem no_change_is_lost_witness:
  "client_update (cb_finalize (cl_accumulated (collect appended (new_callback 0 0)))) [5] [5, 7 :: int] = [5, 7]"
proof -
  have "collect appended (new_callback 0 0) \<in> set (no_callbacks (sc_notifier changed_scene))"
    by (simp add: changed_scene_def add_changes_def one_client_callbacks)
  note r = no_change_is_lost[OF changed_scene_reached this]
  have "cl_token (collect appended (new_callback 0 0)) = 0" "sc_pending changed_scene = []"
    "sc_copy changed_scene 0 = [5]" "sc_current changed_scene = [5, 7]"
    by (simp_all add: collect_def new_callback_def changed_scene_def begin_scene_def)
  then show ?thesis using r by simp
qed

section \<open>Walks end\<close>

text \<open>
  C33. A delivery comes to its end whatever the callbacks do, and does not read past the end of the vector,
  as long as only callbacks known at packaging are removed during it; it may fail where the code asserts or
  throws.
\<close>

theorem deliveries_end:
  assumes "nw.issued_tokens n" "no_index n = npos" "no_count n = length (no_callbacks n)" "length (no_callbacks n) < npos"
    and "\<forall>t. ops_remove (script t) \<subseteq> {..<no_next_token n}"
  shows "(\<exists>r. before_advance script n = Some r \<and> r \<noteq> Walk_Overran) \<and> (\<exists>r. after_advance script n = Some r \<and> r \<noteq> Walk_Overran)"
proof -
  have w: "nw.in_walk (no_next_token n) [] (callback_tokens n) n" using assms(1-4) by (intro nw.in_walk_start) simp_all
  show ?thesis
    unfolding before_advance_def after_advance_def
    using walk_ends[OF w quiet_visits(1) assms(5)] walk_ends[OF w quiet_visits(2) assms(5)] by blast
qed

theorem deliveries_end_witness:
  "\<exists>r. after_advance (\<lambda>t. if t = 0 then [Op_Add any_caller 5, Op_Remove t] else []) (one_client\<lparr>no_count := 1\<rparr>) = Some r \<and>
     r \<noteq> Walk_Overran"
  by (rule deliveries_end[THEN conjunct2])
    (auto simp: nw.issued_tokens_def one_client_callbacks new_callback_def npos_def ops_remove_def)

section \<open>The cached flag\<close>

lemma scene_flag:
  assumes "scene_step s s'" "scene_ok s" "no_have_callbacks (sc_notifier s) \<longleftrightarrow> no_callbacks (sc_notifier s) \<noteq> []"
  shows "no_have_callbacks (sc_notifier s') \<longleftrightarrow> no_callbacks (sc_notifier s') \<noteq> []"
  using assms
proof (induction rule: scene_step.induct)
  case (add ca fn s t n)
  have "no_index (sc_notifier s) \<noteq> npos \<Longrightarrow> no_callbacks (sc_notifier s) \<noteq> []"
    using add.prems(1) by (auto simp: scene_ok_def place_ok_def nw.in_walk_def Let_def split: stage.splits if_splits)
  then show ?case using add
    by (auto simp: add_change_callback_def and_then_Inr push_callback_def Let_def split: if_splits)
next
  case (remove t s n)
  have "no_have_callbacks (erase_callback k m) \<longleftrightarrow> no_callbacks (erase_callback k m) \<noteq> []" for k and m :: notifier
    by (simp add: erase_callback_def Let_def)
  then show ?case using remove by (auto simp: remove_change_callback_def and_then_Inr split: if_splits)
next
  case (suppress ca t s n)
  then show ?case by (auto dest!: suppress_result)
next
  case (change c s ys)
  then show ?case by (simp add: add_changes_def)
next
  case (package s n)
  then show ?case by (auto simp: package_for_delivery_def)
next
  case (before s v n)
  then show ?case by (auto simp: next_section_def before_visit_def Let_def split: if_splits)
next
  case (before_end s n)
  then show ?case by (auto simp: next_section_def Let_def split: if_splits prod.splits)
next
  case (after s v n cb)
  then show ?case by (auto simp: next_section_def after_visit_def Let_def split: if_splits)
next
  case (after_end s n)
  then show ?case by (auto simp: next_section_def Let_def split: if_splits prod.splits)
qed

text \<open>
  C39. The flag that says whether there are callbacks, which the worker reads without the mutex, is exact
  whenever the mutex is free, although registering a callback during a delivery does not set it.
\<close>

theorem callback_flag_exact:
  assumes "scene_reached s"
  shows "no_have_callbacks (sc_notifier s) \<longleftrightarrow> no_callbacks (sc_notifier s) \<noteq> []"
  using assms
proof (induction rule: scene_reached.induct)
  case (start realm version xs)
  then show ?case by (simp add: begin_scene_def make_notifier_def)
next
  case (step s s')
  then show ?case using scene_flag scene_reached_ok by blast
qed

theorem callback_flag_exact_witness: "no_have_callbacks (sc_notifier changed_scene)"
  using callback_flag_exact[OF changed_scene_reached] by (simp add: changed_scene_def add_changes_def one_client_callbacks)

section \<open>Errors\<close>

text \<open>The callbacks that are told: all but those that an earlier one, or another thread meanwhile, removes.\<close>

function told_errors :: "(size \<Rightarrow> client_op list) \<Rightarrow> size list \<Rightarrow> size list" where
  "told_errors script [] = []"
| "told_errors script (t # ts) = t # told_errors script (filter (\<lambda>x. x \<notin> ops_remove (script t)) ts)"
  by pat_completeness auto
termination by (relation "measure (\<lambda>(script, ts). length ts)") (auto simp: less_Suc_eq_le)

fun error_events :: "notice list \<Rightarrow> size list" where
  "error_events [] = []"
| "error_events (Told_Error t # es) = t # error_events es"
| "error_events (e # es) = error_events es"

lemma error_events_append [simp]: "error_events (es @ fs) = error_events es @ error_events fs"
  by (induction es rule: error_events.induct) auto

lemma client_step_quiet:
  assumes "client_step op n = Inr n'"
  shows "no_error n' = no_error n \<and> error_events (no_trace n') = error_events (no_trace n)"
proof (cases op)
  case (Op_Add ca fn)
  then show ?thesis using assms
    by (auto simp: and_then_Inr add_change_callback_def push_callback_def Let_def notify_def split: if_splits)
next
  case (Op_Remove t)
  then show ?thesis using assms by (auto simp: remove_change_callback_def and_then_Inr split: if_splits)
next
  case (Op_Suppress ca t)
  then have "suppress_next_notification ca t n = Inr n'" using assms by simp
  from suppress_result[OF this] show ?thesis by auto
next
  case (Op_Changes c)
  then show ?thesis using assms by (auto simp: add_changes_def)
qed

lemma client_steps_in_walk:
  assumes "nw.in_walk bound as bs n" "client_steps ops n = Inr n'" "ops_remove ops \<subseteq> {..<bound}"
  shows "nw.in_walk bound (filter (\<lambda>t. t \<notin> ops_remove ops) as) (filter (\<lambda>t. t \<notin> ops_remove ops) bs) n' \<and>
    no_error n' = no_error n \<and> error_events (no_trace n') = error_events (no_trace n)"
  using assms
proof (induction ops arbitrary: as bs n)
  case (Cons op ops)
  from Cons.prems(2) obtain n1 where n1: "client_step op n = Inr n1" "client_steps ops n1 = Inr n'"
    by (auto simp: and_then_Inr)
  have r: "op_removes op \<subseteq> {..<bound}" "ops_remove ops \<subseteq> {..<bound}" "ops_remove (op # ops) = op_removes op \<union> ops_remove ops"
    using Cons.prems(3) by (auto simp: ops_remove_def)
  show ?case
    using Cons.IH[OF in_walk_op[OF Cons.prems(1) n1(1) r(1)] n1(2) r(2)] client_step_quiet[OF n1(1)]
    by (simp add: r(3) conj_commute filter_filter)
qed (simp add: ops_remove_def)

lemma error_walk:
  assumes "nw.in_walk bound [] bs n" "no_error n" "\<forall>t. ops_remove (script t) \<subseteq> {..<bound}"
  shows "\<exists>r. for_each_callback error_visit (\<lambda>t. script t @ [Op_Remove t]) n = Some r \<and>
    (case r of Walk_Overran \<Rightarrow> False | Walk_Failed e \<Rightarrow> True
     | Walk_Finished n' \<Rightarrow> no_error n' \<and> (\<forall>t \<in> set (callback_tokens n'). bound \<le> t) \<and>
         error_events (no_trace n') = error_events (no_trace n) @ told_errors script bs)"
  using assms(1,2)
proof (induction "length bs" arbitrary: bs n rule: less_induct)
  case less
  show ?case
  proof (cases bs)
    case Nil
    have "\<forall>t \<in> set (callback_tokens n). bound \<le> t" using less.prems(1) Nil by (auto simp: nw.in_walk_def)
    then show ?thesis using section_finishes[of bound "[]" n] less.prems Nil by (subst for_each_callback.simps) simp
  next
    case (Cons t ts)
    let ?v = "snd (error_visit 0 (n\<lparr>no_index := 0\<rparr>))"
    note v = section_visits[OF less.prems(1)[unfolded Cons] quiet_visits(3), simplified]
    have f: "fst (error_visit 0 (n\<lparr>no_index := 0\<rparr>)) = Some t" "no_error ?v"
      "error_events (no_trace ?v) = error_events (no_trace n) @ [t]"
      using v(4) less.prems(2) by (simp_all add: error_visit_def Let_def)
    let ?ops = "script t @ [Op_Remove t]"
    have o: "ops_remove ?ops = insert t (ops_remove (script t))" by (auto simp: ops_remove_def)
    have d: "distinct (t # ts)" "t < bound" using less.prems(1) Cons by (auto simp: nw.in_walk_def nw.issued_tokens_def)
    show ?thesis
    proof (cases "client_steps ?ops ?v")
      case (Inl e)
      then show ?thesis using v(1) f(1) by (subst for_each_callback.simps) simp
    next
      case (Inr n')
      let ?bs = "filter (\<lambda>x. x \<notin> ops_remove (script t)) ts"
      have w: "nw.in_walk bound [] (filter (\<lambda>x. x \<notin> ops_remove ?ops) ts) n'" "no_error n'"
        "error_events (no_trace n') = error_events (no_trace n) @ [t]"
        using client_steps_in_walk[OF v(2) Inr] o assms(3) d(2) f by auto
      have b: "filter (\<lambda>x. x \<notin> ops_remove ?ops) ts = ?bs"
        unfolding o by (rule filter_cong) (use d(1) in auto)
      have "length ?bs < length bs" unfolding Cons by (simp add: less_Suc_eq_le)
      from less.hyps[OF this w(1)[unfolded b] w(2)] obtain r where
        r: "for_each_callback error_visit (\<lambda>t. script t @ [Op_Remove t]) n' = Some r"
          "case r of Walk_Overran \<Rightarrow> False | Walk_Failed e \<Rightarrow> True
           | Walk_Finished m \<Rightarrow> no_error m \<and> (\<forall>t \<in> set (callback_tokens m). bound \<le> t) \<and>
               error_events (no_trace m) = error_events (no_trace n') @ told_errors script ?bs" by blast
      have "for_each_callback error_visit (\<lambda>t. script t @ [Op_Remove t]) n = Some r"
        using v(1) f(1) Inr r(1) by (subst for_each_callback.simps) simp
      then show ?thesis using r(2) w(3) Cons by (intro exI[of _ r]) (auto split: walk_result.splits)
    qed
  qed
qed

text \<open>
  C40. The walk that delivers an error ends without reading past the end of the vector.  If no operation
  of the callbacks meanwhile fails, the error was told once and in the order of registration to every
  callback that was not removed before its turn, none of the callbacks known before is registered any more, and
  removing such a token afterwards, as the clients will, is no failure.  The callbacks may add and suppress
  any and remove those known before the walk.
\<close>

theorem errors_reach_everyone:
  assumes "nw.issued_tokens n" "no_index n = npos" "length (no_callbacks n) < npos"
    and "\<forall>t. ops_remove (script t) \<subseteq> {..<no_next_token n}"
  shows "\<exists>r. deliver_error script n = Some r \<and>
    (case r of Walk_Overran \<Rightarrow> False | Walk_Failed e \<Rightarrow> True
     | Walk_Finished n' \<Rightarrow>
         error_events (no_trace n') = error_events (no_trace n) @ told_errors script (callback_tokens n) \<and>
         (\<forall>t < no_next_token n. t \<notin> set (callback_tokens n') \<and> remove_change_callback t n' = Inr n'))"
proof -
  define m where "m = n\<lparr>no_error := True, no_count := length (no_callbacks n)\<rparr>"
  have m: "no_next_token m = no_next_token n" "no_callbacks m = no_callbacks n" "no_trace m = no_trace n" "no_error m"
    by (simp_all add: m_def)
  have "nw.in_walk (no_next_token m) [] (callback_tokens m) m"
    using assms(1-3) by (intro nw.in_walk_start) (simp_all add: nw.issued_tokens_def m_def)
  from error_walk[OF this m(4), of script] assms(4) obtain r where
    r: "deliver_error script n = Some r" "case r of Walk_Overran \<Rightarrow> False | Walk_Failed e \<Rightarrow> True
     | Walk_Finished n' \<Rightarrow> no_error n' \<and> (\<forall>t \<in> set (callback_tokens n'). no_next_token n \<le> t) \<and>
         error_events (no_trace n') = error_events (no_trace n) @ told_errors script (callback_tokens n)"
    by (auto simp: deliver_error_def m_def[symmetric] m cong: walk_result.case_cong)
  show ?thesis
  proof (intro exI[of _ r] conjI r(1))
    show "case r of Walk_Overran \<Rightarrow> False | Walk_Failed e \<Rightarrow> True | Walk_Finished n' \<Rightarrow>
         error_events (no_trace n') = error_events (no_trace n) @ told_errors script (callback_tokens n) \<and>
         (\<forall>t < no_next_token n. t \<notin> set (callback_tokens n') \<and> remove_change_callback t n' = Inr n')"
    proof (cases r)
      case (Walk_Finished n')
      have "t \<notin> set (callback_tokens n')" if "t < no_next_token n" for t
        using r(2) that unfolding Walk_Finished by fastforce
      then show ?thesis using r(2) remove_absent[of _ n'] unfolding Walk_Finished by simp
    qed (use r(2) in simp_all)
  qed
qed

text \<open>The first of two callbacks adds one and removes the second.\<close>

definition clients_in_error :: notifier where
  "clients_in_error = snd (push_callback 1 one_client)"

theorem errors_reach_everyone_witness:
  "\<exists>r. deliver_error (\<lambda>t. if t = 0 then [Op_Add any_caller 5, Op_Remove 1] else []) clients_in_error = Some r \<and>
    (case r of Walk_Finished n' \<Rightarrow> error_events (no_trace n') = [0] | _ \<Rightarrow> False)"
proof -
  let ?script = "\<lambda>t :: nat. if t = 0 then [Op_Add any_caller 5, Op_Remove 1] else []"
  have n: "no_callbacks clients_in_error = [new_callback 0 0, new_callback 1 1]" "no_index clients_in_error = npos"
    "no_next_token clients_in_error = 2" "no_realm clients_in_error = Some 0" "error_events (no_trace clients_in_error) = []"
    by (simp_all add: clients_in_error_def push_callback_def one_client_callbacks notify_def Let_def)
      (simp add: one_client_def push_callback_def fresh_notifier_def make_notifier_def notify_def Let_def)
  have t: "callback_tokens clients_in_error = [0, 1]" by (simp add: n new_callback_def)
  let ?e = "clients_in_error\<lparr>no_error := True, no_count := 2\<rparr>"
  let ?m = "?e\<lparr>no_index := 0, no_trace := no_trace clients_in_error @ [Told_Error 0]\<rparr>"
  have s: "next_section error_visit ?e = Visited (Some 0) ?m"
    by (simp add: next_section_def error_visit_def size_succ_def n new_callback_def notify_def Let_def)
  let ?a = "?m\<lparr>no_next_token := 3, no_callbacks := [new_callback 0 0, new_callback 1 1, new_callback 5 2]\<rparr>"
  let ?b = "?a\<lparr>no_callbacks := [new_callback 0 0, new_callback 5 2], no_count := 1, no_have_callbacks := True\<rparr>"
  let ?c = "?b\<lparr>no_callbacks := [new_callback 5 2], no_count := 0, no_index := npos\<rparr>"
  have "client_step (Op_Add any_caller 5) ?m = Inr ?a"
    by (simp add: add_any n push_callback_def npos_def Let_def)
  moreover have "callback_tokens ?a = [0] @ 1 # [2]" by (simp add: new_callback_def)
  from remove_present[OF this] have "client_step (Op_Remove 1) ?a = Inr ?b"
    by (simp add: erase_callback_def index_after_removal_def npos_def n Let_def)
  moreover have "callback_tokens ?b = [] @ 0 # [2]" by (simp add: new_callback_def)
  from remove_present[OF this] have "client_step (Op_Remove 0) ?b = Inr ?c"
    by (simp add: erase_callback_def index_after_removal_def size_sub_def npos_def n Let_def)
  ultimately have o: "client_steps (?script 0 @ [Op_Remove 0]) ?m = Inr ?c" by simp
  have e: "next_section error_visit ?c = Finished (?c\<lparr>no_index := npos\<rparr>)"
    by (simp add: next_section_def size_succ_def npos_def Let_def)
  have "deliver_error ?script clients_in_error = for_each_callback error_visit (\<lambda>t. ?script t @ [Op_Remove t]) ?e"
    by (simp add: deliver_error_def n numeral_2_eq_2)
  also have "\<dots> = for_each_callback error_visit (\<lambda>t. ?script t @ [Op_Remove t]) ?c"
    by (subst for_each_callback.simps) (simp only: s o option.case section_result.case sum.case)
  also have "\<dots> = Some (Walk_Finished (?c\<lparr>no_index := npos\<rparr>))"
    by (subst for_each_callback.simps) (simp only: e section_result.case)
  finally have r: "deliver_error ?script clients_in_error = Some (Walk_Finished (?c\<lparr>no_index := npos\<rparr>))" .
  have "nw.issued_tokens clients_in_error" "\<forall>t. ops_remove (?script t) \<subseteq> {..<no_next_token clients_in_error}"
    by (auto simp: nw.issued_tokens_def n new_callback_def ops_remove_def)
  from errors_reach_everyone[OF this(1) n(2) _ this(2)] have
    "error_events (no_trace (?c\<lparr>no_index := npos\<rparr>)) = error_events (no_trace clients_in_error) @ told_errors ?script [0, 1]"
    unfolding r t by (simp add: n npos_def)
  also have "\<dots> = [0]" by (simp add: n ops_remove_def)
  finally show ?thesis unfolding r by simp
qed

section \<open>What the transaction is asked for\<close>

lemma resize_flags_nth:
  "length (resize_flags k xs) = k" "t < k \<Longrightarrow> resize_flags k xs ! t = (t < length xs \<and> xs ! t)"
  by (auto simp: resize_flags_def nth_append)

lemma foldl_max: "\<forall>k \<in> insert m (rt_table ` set rs). k \<le> foldl (\<lambda>m r. if m < rt_table r then rt_table r else m) m rs"
proof (induction rs arbitrary: m)
  case (Cons a rs)
  show ?case
  proof (cases "m < rt_table a")
    case True
    then show ?thesis using Cons.IH[of "rt_table a"] by auto
  next
    case False
    then show ?thesis using Cons.IH[of m] by auto
  qed
qed simp

lemma foldl_flags:
  "length (foldl (\<lambda>fs r. fs[rt_table r := True]) fs rs) = length fs"
  "t < length fs \<Longrightarrow> foldl (\<lambda>fs r. fs[rt_table r := True]) fs rs ! t = (fs ! t \<or> t \<in> rt_table ` set rs)"
proof (induction rs arbitrary: fs)
  case (Cons a rs)
  { case 1 then show ?case using Cons.IH(1) by simp }
  { case 2 then show ?case using Cons.IH(2)[of "fs[rt_table a := True]"] by (cases "rt_table a = t") auto }
qed simp_all

text \<open>
  The notifier asks for the modifications of exactly the tables in reach of its own, besides those that
  were asked for before, and leaves the rest of the request as it is.
\<close>

theorem related_tables_requested:
  "let info' = need_related (r # rs) info; fs = ci_modifications_needed info; fs' = ci_modifications_needed info' in
   (\<forall>t. t < length fs' \<and> fs' ! t \<longleftrightarrow> t < length fs \<and> fs ! t \<or> t \<in> rt_table ` set (r # rs)) \<and>
   info'\<lparr>ci_modifications_needed := fs\<rparr> = info"
proof -
  define fs where "fs = ci_modifications_needed info"
  define m where "m = foldl (\<lambda>m r. if m < rt_table r then rt_table r else m) (rt_table r) rs"
  define gs where "gs = (if length fs \<le> m then resize_flags (m + 1) fs else fs)"
  have f: "ci_modifications_needed (need_related (r # rs) info) = foldl (\<lambda>fs r. fs[rt_table r := True]) gs (r # rs)"
    by (simp add: need_related_def Let_def gs_def m_def fs_def)
  have t: "t \<le> m" if "t \<in> rt_table ` set (r # rs)" for t 
    using that foldl_max[of "rt_table r" rs] by (auto simp: m_def)
  have l: "m < length gs" "length fs \<le> length gs" by (auto simp: gs_def resize_flags_nth)
  have g: "t < length gs \<and> gs ! t \<longleftrightarrow> t < length fs \<and> fs ! t" for t
    using resize_flags_nth(2)[of t "m + 1" fs] by (auto simp: gs_def resize_flags_nth(1))
  have "t < length (foldl (\<lambda>fs r. fs[rt_table r := True]) gs (r # rs)) \<and> foldl (\<lambda>fs r. fs[rt_table r := True]) gs (r # rs) ! t \<longleftrightarrow>
      t < length fs \<and> fs ! t \<or> t \<in> rt_table ` set (r # rs)" for t
  proof (cases "t < length gs")
    case True
    then show ?thesis unfolding foldl_flags(1) foldl_flags(2)[OF True] using g[of t] by blast
  next
    case False
    then have "t \<notin> rt_table ` set (r # rs)" using t[of t] l by linarith
    then show ?thesis unfolding foldl_flags(1) using False g[of t] by blast
  qed
  moreover have "(need_related (r # rs) info)\<lparr>ci_modifications_needed := fs\<rparr> = info"
    by (simp add: need_related_def Let_def fs_def)
  ultimately show ?thesis unfolding Let_def f fs_def[symmetric] by blast
qed

section \<open>Packages\<close>

text \<open>
  When the wait for a version is over, the package holds exactly the notifiers that have run and can
  deliver, packaged, and states the version they have in common; none of them is dropped.
\<close>

theorem package_holds_the_ready:
  assumes "pk_coordinator p" "\<not> pk_error p" "pk_notifiers p \<noteq> []" "pk_version p = None" "ready_for target waited"
    and "\<forall>n \<in> set (packaged_of prepare waited). no_version n = v" "\<forall>t. target = Some t \<longrightarrow> t \<le> v_version v"
  shows "package_and_wait prepare target waited p = Some (Inr (p\<lparr>pk_notifiers := packaged_of prepare waited,
    pk_version := (if packaged_of prepare waited = [] then None else Some v), pk_coordinator := False\<rparr>))"
  by (rule package_and_wait_returns[OF assms])

theorem package_holds_the_ready_witness:
  "\<exists>p. package_and_wait (Pair True) (Some 1) [fresh_notifier, one_client\<lparr>no_has_run := True\<rparr>]
      (make_package False [fresh_notifier, one_client] True) = Some (Inr p) \<and> length (pk_notifiers p) = 1"
proof -
  let ?ns = "[fresh_notifier, one_client\<lparr>no_has_run := True\<rparr>]"
  have f: "\<not> no_has_run fresh_notifier" "\<not> no_have_callbacks fresh_notifier" "v_version (no_version one_client) = 1"
    "no_version one_client = \<lparr>v_version = 1, v_index = 0\<rparr>"
    by (simp_all add: fresh_notifier_def make_notifier_def one_client_def push_callback_def notify_def Let_def)
  have r: "ready_for (Some 1) ?ns" by (simp add: ready_for_def f)
  have p: "packaged_of (Pair True) ?ns = [snd (package_for_delivery (Pair True) (one_client\<lparr>no_has_run := True\<rparr>))]"
    by (simp add: f package_for_delivery_def)
  have "no_version (snd (package_for_delivery (Pair True) (one_client\<lparr>no_has_run := True\<rparr>))) = \<lparr>v_version = 1, v_index = 0\<rparr>"
    by (simp add: package_for_delivery_def f)
  then have "package_and_wait (Pair True) (Some 1) ?ns (make_package False [fresh_notifier, one_client] True) =
    Some (Inr ((make_package False [fresh_notifier, one_client] True)\<lparr>pk_notifiers := packaged_of (Pair True) ?ns,
      pk_version := (if packaged_of (Pair True) ?ns = [] then None else Some \<lparr>v_version = 1, v_index = 0\<rparr>), pk_coordinator := False\<rparr>))"
    using r by (intro package_holds_the_ready) (simp_all add: make_package_def p f)
  then show ?thesis unfolding p by simp
qed

section \<open>Operations that break the promise\<close>

lemma appended_not_empty: "\<not> cs_empty (cb_finalize appended)"
  using reports_empty[OF reports_finalize[OF appended_tracks]] by auto

lemma moved_from_empty: "cs_empty (cb_finalize (moved_from appended))"
proof -
  have "removed [] [] = []" by (simp add: removed_def remove_set_def all_ranges_def)
  then show ?thesis by (simp add: cs_empty_def cb_finalize_def moved_from_def shift_for_insert_set_at_def erase_set_at_def)
qed

text \<open>
  Two clients and a packaged change.  While the first is told it adds a callback and removes it again: the
  second is not told, and the next packaging throws away what it was to be told.
\<close>

definition two_clients :: notifier where
  "two_clients = snd (package_for_delivery (Pair True) (add_changes appended (snd (push_callback 1 one_client))))"

definition packaged_client :: "size \<Rightarrow> change_callback" where
  "packaged_client k = package_callback (collect appended (new_callback k k))"

lemma packaged_client_simps:
  "cl_token (packaged_client k) = k" "cl_initial (packaged_client k) = False"
  "cl_deliver (packaged_client k) = cb_finalize appended" "cl_accumulated (packaged_client k) = moved_from appended"
proof -
  have "cb_merge empty_builder appended = appended"
    using tracks_empty_eq[OF appended_tracks] by (auto simp: cb_merge_def) (simp add: cs_empty_def empty_builder_def)
  then show "cl_deliver (packaged_client k) = cb_finalize appended" "cl_accumulated (packaged_client k) = moved_from appended"
    by (simp_all add: packaged_client_def package_callback_def collect_def new_callback_def)
qed (simp_all add: packaged_client_def package_callback_def collect_def new_callback_def)

theorem removing_added_callback_loses_changes:
  "\<exists>n. after_advance (\<lambda>t. if t = 0 then [Op_Add any_caller 5, Op_Remove 2] else []) two_clients = Some (Walk_Finished n) \<and>
     no_trace n = no_trace two_clients @ [Told_After 0 (cb_finalize appended)] \<and>
     map (\<lambda>cb. cs_empty (cl_deliver cb)) (no_callbacks n) = [True, False] \<and>
     map (\<lambda>cb. cs_empty (cl_deliver cb)) (no_callbacks (snd (package_for_delivery (Pair True) n))) = [True, True]"
proof -
  let ?script = "\<lambda>t :: size. if t = 0 then [Op_Add any_caller 5, Op_Remove 2] else []"
  let ?p0 = "(packaged_client 0)\<lparr>cl_initial := True, cl_deliver := no_changes\<rparr>"
  let ?told = "notify (Told_After 0 (cb_finalize appended)) (two_clients\<lparr>no_index := 0, no_callbacks := [?p0, packaged_client 1]\<rparr>)"
  have n: "no_callbacks two_clients = [packaged_client 0, packaged_client 1]" "no_index two_clients = npos"
    "no_count two_clients = 2" "no_next_token two_clients = 2" "no_realm two_clients = Some 0"
    by (simp_all add: two_clients_def package_for_delivery_def add_changes_def push_callback_def one_client_callbacks
        packaged_client_def Let_def)
  have s: "next_section after_visit two_clients = Visited (Some 0) ?told"
    by (simp add: next_section_def after_visit_def size_succ_def n packaged_client_simps Let_def)
  let ?after = "?told\<lparr>no_next_token := 3, no_count := 1, no_have_callbacks := True\<rparr>"
  have o: "client_steps (?script 0) ?told = Inr ?after"
  proof -
    let ?m = "?told\<lparr>no_next_token := 3, no_callbacks := [?p0, packaged_client 1, new_callback 5 2]\<rparr>"
    have "client_step (Op_Add any_caller 5) ?told = Inr ?m"
      by (simp add: add_any n push_callback_def npos_def notify_def Let_def)
    moreover have "callback_tokens ?m = [0, 1] @ 2 # []" by (simp add: packaged_client_simps new_callback_def)
    from remove_present[OF this] have "client_step (Op_Remove 2) ?m = Inr ?after"
      by (simp add: erase_callback_def index_after_removal_def npos_def n notify_def numeral_2_eq_2 Let_def)
    ultimately show ?thesis by simp
  qed
  have e: "next_section after_visit ?after = Finished (?after\<lparr>no_index := npos\<rparr>)"
    by (simp add: next_section_def size_succ_def npos_def Let_def)
  have "after_advance ?script two_clients = for_each_callback after_visit ?script ?after"
    unfolding after_advance_def by (subst for_each_callback.simps) (simp only: s o option.case section_result.case sum.case)
  also have "\<dots> = Some (Walk_Finished (?after\<lparr>no_index := npos\<rparr>))"
    by (subst for_each_callback.simps) (simp only: e section_result.case)
  finally show ?thesis
    by (intro exI[of _ "?after\<lparr>no_index := npos\<rparr>"])
      (simp add: packaged_client_simps appended_not_empty package_for_delivery_def package_callback_def moved_from_empty)
qed

end
