(* ===== verification/Results_Notifier.thy ===== *)
theory Results_Notifier
  imports Collection_Notifier Change_Calculate
begin

text \<open>
  \<open>ResultsNotifier\<close> (\<open>impl/results_notifier.cpp\<close>): the notifier of a query.  On the worker thread it runs
  the query again and computes how the rows it finds differ from those of the last run.
\<close>

section \<open>State\<close>

text \<open>
  Query, table view and ordering belong to realm-core.  \<open>query_run\<close> is what the code reads of them during
  one run: whether the table is still attached, its index in the group (\<open>npos\<close> for a subtable), the
  version of the view, and the rows the query finds, ordered.
\<close>

record query_run =
  qr_attached :: bool
  qr_table :: size
  qr_version :: nat
  qr_rows :: "size list"
  qr_view_version :: nat

text \<open>
  The query is here, handed over, or gone; the table view is attached while it holds the rows of a run that
  have not been handed over yet.
\<close>

record results_notifier = notifier +
  rn_target :: nat
  rn_query_handover :: bool
  rn_query :: bool
  rn_in_table_order :: bool
  rn_will_sort :: bool
  rn_view :: "size list option"
  rn_view_handover :: "(size list \<times> version_id) option"
  rn_view_to_deliver :: "(size list \<times> version_id) option"
  rn_last_seen :: nat
  rn_previous_rows :: "size list"
  rn_changes :: change_builder
  rn_has_info :: bool

definition make_results_notifier :: "notifier \<Rightarrow> nat \<Rightarrow> bool \<Rightarrow> bool \<Rightarrow> results_notifier" where
  "make_results_notifier n target in_table_order will_sort = notifier.extend n
     \<lparr>rn_target = target, rn_query_handover = True, rn_query = False, rn_in_table_order = in_table_order,
      rn_will_sort = will_sort, rn_view = None, rn_view_handover = None, rn_view_to_deliver = None,
      rn_last_seen = npos, rn_previous_rows = [], rn_changes = empty_builder, rn_has_info = False\<rparr>"

definition target_results_moved :: "nat \<Rightarrow> nat \<Rightarrow> results_notifier \<Rightarrow> failure + results_notifier" where
  "target_results_moved old new n =
     (if rn_target n \<noteq> old then Inl Assertion_Failed else Inr (n\<lparr>rn_target := new\<rparr>))"

definition results_release_data :: "results_notifier \<Rightarrow> results_notifier" where
  "results_release_data n = n\<lparr>rn_query := False\<rparr>"

section \<open>The request to the next transaction\<close>

text \<open>
  \<open>place\<close> is where a subtable is: the index of the parent table, the row and the column.  The number of the
  notifier itself stands for the pointer to its builder.
\<close>

definition results_do_add_required_change_info :: "query_run \<Rightarrow> size \<times> size \<times> size \<Rightarrow> nat \<Rightarrow> change_info \<Rightarrow>
    results_notifier \<Rightarrow> failure + bool \<times> change_info \<times> results_notifier" where
  "results_do_add_required_change_info q place self info n =
     (if \<not> rn_query n then Inl Assertion_Failed
      else
        let n = n\<lparr>rn_has_info := True\<rparr> in
        if \<not> qr_attached q then Inr (False, info, n)
        else
          let info = (case place of (table, row, col) \<Rightarrow>
            if qr_table q = npos then info\<lparr>ci_lists := ci_lists info @
              [\<lparr>li_table = table, li_row = row, li_col = col, li_changes = self\<rparr>]\<rparr>
            else info\<lparr>ci_moves_needed := set_flag (qr_table q) (ci_moves_needed info)\<rparr>)
          in Inr (no_has_run n \<and> no_have_callbacks n, info, n))"

section \<open>Running the query\<close>

text \<open>\<open>info\<close> is what \<open>m_info\<close> points to by then: the advance of the transaction has filled it in.\<close>

definition need_to_run :: "bool \<Rightarrow> query_run \<Rightarrow> results_notifier \<Rightarrow> failure + bool" where
  "need_to_run wants_background_updates q n =
     (if \<not> rn_has_info n \<or> rn_view n \<noteq> None then Inl Assertion_Failed
      else if no_realm n = None \<or> \<not> no_have_callbacks n \<and> \<not> wants_background_updates then Inr False
      else Inr (\<not> (no_has_run n \<and> qr_version q = rn_last_seen n)))"

text \<open>Where a row of the last run is now: \<open>npos\<close> when it was deleted.\<close>

definition current_row :: "change_builder \<Rightarrow> size \<Rightarrow> size" where
  "current_row changes row =
     (if contains (deletions changes) row then
        let it = lower_bound (\<lambda>k. m_from (moves changes ! k) < row) 0 (length (moves changes)) in
        if it \<noteq> length (moves changes) \<and> m_from (moves changes ! it) = row then m_to (moves changes ! it) else npos
      else shift (insertions changes) (unshift (deletions changes) row))"

text \<open>The builder that recorded what happened to the table of the query, if there is one.\<close>

definition recorded_changes :: "query_run \<Rightarrow> change_info \<Rightarrow> results_notifier \<Rightarrow> change_builder option" where
  "recorded_changes q info n =
     (if qr_table q = npos then Some (rn_changes n)
      else if qr_table q < length (ci_tables info) then Some (ci_tables info ! qr_table q) else None)"

text \<open>
  The modification checker is asked about single rows.  The code asks one checker during the whole run, which
  remembers rows; its answers are those of a fresh one for each row (lemma \<open>shared_checker\<close> of
  \<open>Checker_Properties\<close>), whatever the order of the questions.
\<close>

definition row_changed :: "link_store \<Rightarrow> change_info \<Rightarrow> related_table list \<Rightarrow> size \<Rightarrow> path_entry list \<Rightarrow> size \<Rightarrow> bool" where
  "row_changed db info related root path row =
     hd (run_checker (get_modification_checker db (ci_schema_changed info) root (ci_tables info) related) root path [row])"

definition calculate_changes :: "link_store \<Rightarrow> path_entry list \<Rightarrow> query_run \<Rightarrow> change_info \<Rightarrow> results_notifier \<Rightarrow>
    results_notifier" where
  "calculate_changes db path q info n =
     (let view = the (rn_view n) in
      if no_has_run n \<and> no_have_callbacks n then
        let changes = recorded_changes q info n;
            previous = (case changes of None \<Rightarrow> rn_previous_rows n | Some c \<Rightarrow> map (current_row c) (rn_previous_rows n));
            move_candidates = (case changes of None \<Rightarrow> None
              | Some c \<Rightarrow> if rn_in_table_order n \<and> \<not> rn_will_sort n then Some (insertions c) else None)
        in n\<lparr>rn_changes := cb_calculate previous view (row_changed db info (no_related n) (qr_table q) path) move_candidates,
             rn_previous_rows := view,
             no_related := renew_related db (ci_schema_changed info) (qr_table q) (no_related n)\<rparr>
      else n\<lparr>rn_previous_rows := view\<rparr>)"

definition results_run :: "link_store \<Rightarrow> path_entry list \<Rightarrow> bool \<Rightarrow> query_run \<Rightarrow> change_info \<Rightarrow> results_notifier \<Rightarrow>
    failure + results_notifier" where
  "results_run db path wants_background_updates q info n =
     (if \<not> rn_query n then Inl Assertion_Failed
      else if \<not> qr_attached q then
        Inr (n\<lparr>rn_changes := empty_builder\<lparr>deletions := set_len [] (length (rn_previous_rows n))\<rparr>, rn_previous_rows := []\<rparr>)
      else and_then (need_to_run wants_background_updates q n) (\<lambda>needed.
        if \<not> needed then Inr n
        else Inr (calculate_changes db path q info
          (n\<lparr>rn_view := Some (qr_rows q), rn_last_seen := qr_view_version q\<rparr>))))"

section \<open>Handing over and delivering\<close>

definition hand_over_changes :: "results_notifier \<Rightarrow> results_notifier" where
  "hand_over_changes n = (add_changes (rn_changes n) n)\<lparr>rn_changes := taken (rn_changes n)\<rparr>"

definition results_do_prepare_handover :: "version_id \<Rightarrow> results_notifier \<Rightarrow> results_notifier" where
  "results_do_prepare_handover version n =
     (case rn_view n of
        None \<Rightarrow> hand_over_changes (n\<lparr>rn_view_handover := map_option (\<lambda>(rows, _). (rows, version)) (rn_view_handover n)\<rparr>)
      | Some rows \<Rightarrow> (hand_over_changes (n\<lparr>rn_view_handover := Some (rows, version)\<rparr>))\<lparr>rn_view := None\<rparr>)"

definition results_prepare_to_deliver :: "results_notifier \<Rightarrow> bool \<times> results_notifier" where
  "results_prepare_to_deliver n =
     (if no_realm n = None then (False, n)
      else (True, n\<lparr>rn_view_to_deliver := rn_view_handover n, rn_view_handover := None\<rparr>))"

text \<open>The rows the target's table view is set to, if any.\<close>

definition results_deliver :: "results_notifier \<Rightarrow> failure + size list option \<times> results_notifier" where
  "results_deliver n =
     (if no_realm n = None then Inr (None, n)
      else if rn_query_handover n then Inl Assertion_Failed
      else Inr (map_option fst (rn_view_to_deliver n), n\<lparr>rn_view_to_deliver := None\<rparr>))"

definition results_do_attach_to :: "nat \<Rightarrow> results_notifier \<Rightarrow> failure + results_notifier" where
  "results_do_attach_to sg n =
     (if \<not> rn_query_handover n then Inl Assertion_Failed else Inr (n\<lparr>rn_query := True, rn_query_handover := False\<rparr>))"

definition results_do_detach_from :: "nat \<Rightarrow> results_notifier \<Rightarrow> failure + results_notifier" where
  "results_do_detach_from sg n =
     (if \<not> rn_query n \<or> rn_view n \<noteq> None then Inl Assertion_Failed
      else Inr (n\<lparr>rn_query_handover := True, rn_query := False\<rparr>))"

end
