(* ===== verification/Results_Properties.thy ===== *)
theory Results_Properties
  imports Results_Notifier Change_Calculate_Sorted
begin

text \<open>
  What a run of \<open>ResultsNotifier\<close> computes, in terms of the objects of the table: the rows are only
  positions, and move when other rows are deleted.
\<close>

section \<open>Rows of the last run\<close>


section \<open>Rows and objects\<close>







section \<open>A run of the query\<close>


definition example_query :: query_run where
  "example_query = \<lparr>qr_attached = True, qr_table = 0, qr_version = 3, qr_rows = [1], qr_view_version = 3\<rparr>"

definition example_info :: change_info where
  "example_info = \<lparr>ci_modifications_needed = [], ci_moves_needed = [True], ci_lists = [], ci_tables = [empty_builder],
     ci_column_indices = [], ci_table_indices = [], ci_track_all = False, ci_schema_changed = False\<rparr>"

definition example_store :: link_store where
  "example_store = \<lparr>ls_count = 1, ls_columns = (\<lambda>_. []), ls_target = (\<lambda>_ _. 0), ls_is_null = (\<lambda>_ _ _. True),
     ls_link = (\<lambda>_ _ _. 0), ls_list = (\<lambda>_ _ _. [])\<rparr>"

definition example_results :: results_notifier where
  "example_results = (make_results_notifier ((make_notifier 0 \<lparr>v_version = 2, v_index = 0\<rparr>)\<lparr>no_has_run := True,
     no_have_callbacks := True\<rparr>) 0 True False)\<lparr>rn_query := True, rn_has_info := True, rn_previous_rows := [0, 1]\<rparr>"


text \<open>
  The limit is one of the code.  The first, second and third row of a table of five are the result of a query;
  two swaps of rows reverse the table.  The pass for table order reports the first object as deleted
  and inserted at the end, and the other two, which changed places, as staying.
\<close>

definition swapped_rows :: change_builder where
  "swapped_rows = cb_parse_complete (cb_swap (cb_swap empty_builder 1 3 True) 0 4 True)"

lemma swapped_rows_current: "map (current_row swapped_rows) [0, 1, 2] = [4, 3, 2]"
  by code_simp

lemma reversed_rows:
  "cb_calculate [4, 3, 2] [2, 3, 4] (\<lambda>_. False) (Some cands) =
     (let (gone, c) = calculate_moves_unsorted [\<lparr>ri_row = 2, ri_prev = 2, ri_tv = 0, ri_shifted = 2\<rparr>,
        \<lparr>ri_row = 3, ri_prev = 1, ri_tv = 1, ri_shifted = 1\<rparr>, \<lparr>ri_row = 4, ri_prev = 0, ri_tv = 2, ri_shifted = 0\<rparr>] [] cands empty_builder
      in c\<lparr>deletions := add_set (deletions c) gone\<rparr>)"
proof -
  have "collect_old [4, 3, 2] 0 0 [] = ([\<lparr>ri_row = 4, ri_prev = npos, ri_tv = 0, ri_shifted = 0\<rparr>,
      \<lparr>ri_row = 3, ri_prev = npos, ri_tv = 1, ri_shifted = 1\<rparr>, \<lparr>ri_row = 2, ri_prev = npos, ri_tv = 2, ri_shifted = 2\<rparr>], [])"
    by (simp add: npos_def)
  moreover have "collect_new [2, 3, 4] = [\<lparr>ri_row = 2, ri_prev = npos, ri_tv = 0, ri_shifted = 0\<rparr>,
      \<lparr>ri_row = 3, ri_prev = npos, ri_tv = 1, ri_shifted = 0\<rparr>, \<lparr>ri_row = 4, ri_prev = npos, ri_tv = 2, ri_shifted = 0\<rparr>]"
    by (simp add: collect_new_def upt_rec numeral_2_eq_2)
  ultimately show ?thesis
    by (simp add: cb_calculate_def changed_rows_def npos_def) (simp add: empty_builder_def add_all_def numeral_2_eq_2)
qed

theorem swapped_rows_misreported:
  "let c = cb_calculate (map (current_row swapped_rows) [0, 1, 2]) [2, 3, 4] (\<lambda>_. False) (Some (insertions swapped_rows)) in
     map (contains (deletions c)) [0, 1, 2] = [True, False, False] \<and> map (contains (insertions c)) [0, 1, 2] = [False, False, True]"
  unfolding swapped_rows_current reversed_rows by code_simp

text \<open>When the table of the query is gone all objects of the last run are reported as deleted, once.\<close>

theorem results_of_deleted_table:
  assumes "rn_query n" "\<not> qr_attached q"
  shows "\<exists>n'. results_run db path wants q info n = Inr n' \<and> rn_previous_rows n' = [] \<and>
    idx (deletions (rn_changes n')) = {..<length (rn_previous_rows n)} \<and> insertions (rn_changes n') = [] \<and>
    (\<exists>n''. results_run db path wants q info n' = Inr n'' \<and> cs_empty (rn_changes n''))"
  using assms by (simp add: results_run_def set_len_spec cs_empty_def) (simp add: empty_builder_def set_len_def)

theorem results_of_deleted_table_witness:
  "\<exists>n'. results_run example_store [] True (example_query\<lparr>qr_attached := False\<rparr>) example_info example_results = Inr n' \<and>
    idx (deletions (rn_changes n')) = {..<2}"
proof -
  have "rn_query example_results" "\<not> qr_attached (example_query\<lparr>qr_attached := False\<rparr>)"
    "length (rn_previous_rows example_results) = 2"
    by (simp_all add: example_results_def)
  from results_of_deleted_table[OF this(1,2)] this(3) show ?thesis by metis
qed

text \<open>
  Handing over clears the request to skip a notification for every callback, also when there is nothing
  to report, as the debug builds assert afterwards; callbacks that do not skip get the changes merged into
  theirs, and the notifier keeps none.
\<close>

theorem handover_distributes:
  assumes "n' = results_do_prepare_handover v n"
  shows "(\<forall>cb \<in> set (no_callbacks n'). \<not> cl_skip cb) \<and> cs_empty (rn_changes n') \<and>
    map cl_accumulated (no_callbacks n') = map (\<lambda>cb. if cl_skip cb then cl_accumulated cb
      else cb_merge (cl_accumulated cb) (rn_changes n)) (no_callbacks n)"
  unfolding assms
  by (auto simp: results_do_prepare_handover_def hand_over_changes_def add_changes_def collect_def taken_def
      split: option.split) (simp_all add: cs_empty_def empty_builder_def)

end
