(* ===== verification/List_Notifiers.thy ===== *)
theory List_Notifiers
  imports Collection_Notifier
begin

text \<open>
  The notifiers of one list of objects, one list of values and one object (\<open>impl/list_notifier.cpp\<close>,
  \<open>impl/primitive_list_notifier.cpp\<close>, \<open>impl/object_notifier.cpp\<close>).  Their builders are filled in while the
  transaction is advanced; \<open>run\<close> completes them.
\<close>

section \<open>Lists of objects\<close>

text \<open>What the code reads of the list: whether its object is still there, where it is, and the rows it links to.\<close>

record list_place =
  lp_attached :: bool
  lp_table :: size
  lp_row :: size
  lp_col :: size
  lp_rows :: "size list"

text \<open>The accessor is held while attached to a \<open>SharedGroup\<close>, and otherwise handed over.\<close>

record list_notifier = notifier +
  ln_view :: bool
  ln_handover :: bool
  ln_prev_size :: size
  ln_change :: change_builder
  ln_has_info :: bool

definition make_list_notifier :: "notifier \<Rightarrow> size \<Rightarrow> list_notifier" where
  "make_list_notifier n len = notifier.extend n
     \<lparr>ln_view = False, ln_handover = True, ln_prev_size = len, ln_change = empty_builder, ln_has_info = False\<rparr>"

definition list_release_data :: "list_notifier \<Rightarrow> list_notifier" where
  "list_release_data n = n\<lparr>ln_view := False\<rparr>"

definition list_do_attach_to :: "nat \<Rightarrow> list_notifier \<Rightarrow> failure + list_notifier" where
  "list_do_attach_to sg n =
     (if \<not> ln_handover n \<or> ln_view n then Inl Assertion_Failed else Inr (n\<lparr>ln_view := True, ln_handover := False\<rparr>))"

definition list_do_detach_from :: "nat \<Rightarrow> list_notifier \<Rightarrow> failure + list_notifier" where
  "list_do_detach_from sg n =
     (if ln_handover n then Inl Assertion_Failed
      else Inr (if ln_view n then n\<lparr>ln_handover := True, ln_view := False\<rparr> else n))"

definition list_do_add_required_change_info :: "list_place \<Rightarrow> nat \<Rightarrow> change_info \<Rightarrow> list_notifier \<Rightarrow>
    failure + bool \<times> change_info \<times> list_notifier" where
  "list_do_add_required_change_info p self info n =
     (if ln_handover n then Inl Assertion_Failed
      else if \<not> ln_view n \<or> \<not> lp_attached p then Inr (False, info, n)
      else Inr (True, info\<lparr>ci_lists := ci_lists info @
          [\<lparr>li_table = lp_table p, li_row = lp_row p, li_col = lp_col p, li_changes = self\<rparr>]\<rparr>, n\<lparr>ln_has_info := True\<rparr>))"

text \<open>One of the two loops that mark rows as modified, over the given positions.\<close>

definition mark_changed :: "(size \<Rightarrow> bool) \<Rightarrow> size list \<Rightarrow> size list \<Rightarrow> crv \<Rightarrow> crv" where
  "mark_changed row_did_change rows positions mods =
     foldl (\<lambda>mods i. if contains mods i then mods
       else if row_did_change (rows ! i) then add mods i else mods) mods positions"

definition list_run :: "(size \<Rightarrow> bool) \<Rightarrow> list_place \<Rightarrow> list_notifier \<Rightarrow> list_notifier" where
  "list_run row_did_change p n =
     (if \<not> ln_view n \<or> \<not> lp_attached p then
        if ln_prev_size n \<noteq> 0
        then n\<lparr>ln_change := (ln_change n)\<lparr>deletions := set_len (deletions (ln_change n)) (ln_prev_size n)\<rparr>, ln_prev_size := 0\<rparr>
        else n\<lparr>ln_change := empty_builder\<rparr>
      else
        let c = ln_change n;
            mods = mark_changed row_did_change (lp_rows p) [0..<length (lp_rows p)] (modifications c);
            mods = mark_changed row_did_change (lp_rows p) (map m_to (moves c)) mods
        in n\<lparr>ln_change := c\<lparr>modifications := mods\<rparr>, ln_prev_size := length (lp_rows p)\<rparr>)"

definition list_do_prepare_handover :: "list_notifier \<Rightarrow> list_notifier" where
  "list_do_prepare_handover n = (add_changes (ln_change n) n)\<lparr>ln_change := taken (ln_change n)\<rparr>"

section \<open>Lists of values\<close>

text \<open>
  The state is that of a list of objects, with the accessor of the subtable for the list.  A subtable that
  is detached is not handed over.
\<close>

definition values_do_attach_to :: "nat \<Rightarrow> list_notifier \<Rightarrow> failure + list_notifier" where
  "values_do_attach_to sg n =
     (if ln_view n then Inl Assertion_Failed
      else Inr (if ln_handover n then n\<lparr>ln_view := True, ln_handover := False\<rparr> else n))"

definition values_do_detach_from :: "bool \<Rightarrow> nat \<Rightarrow> list_notifier \<Rightarrow> failure + list_notifier" where
  "values_do_detach_from attached sg n =
     (if ln_handover n then Inl Assertion_Failed
      else Inr (if ln_view n then n\<lparr>ln_handover := attached, ln_view := False\<rparr> else n))"

text \<open>
  A clear that was recorded without the size of the list is a deletion of everything up to \<open>npos\<close>; it is
  recognised by the end of the first range.
\<close>

definition values_run :: "bool \<Rightarrow> size \<Rightarrow> list_notifier \<Rightarrow> list_notifier" where
  "values_run attached len n =
     (if \<not> ln_view n \<or> \<not> attached then
        if ln_prev_size n \<noteq> 0
        then n\<lparr>ln_change := (ln_change n)\<lparr>deletions := set_len (deletions (ln_change n)) (ln_prev_size n)\<rparr>, ln_prev_size := 0\<rparr>
        else n\<lparr>ln_change := empty_builder\<rparr>
      else
        let c = ln_change n;
            c = (if deletions c \<noteq> [] \<and> snd (it_get (deletions c) (it_begin (deletions c))) = npos
              then c\<lparr>deletions := set_len (deletions c) (ln_prev_size n)\<rparr> else c)
        in n\<lparr>ln_change := c, ln_prev_size := len\<rparr>)"

section \<open>Objects\<close>

record object_place =
  op_attached :: bool
  op_table :: size
  op_row :: size

record object_notifier = notifier +
  on_row :: bool
  on_handover :: bool
  on_change :: change_builder
  on_has_info :: bool

definition make_object_notifier :: "notifier \<Rightarrow> object_notifier" where
  "make_object_notifier n = notifier.extend n
     \<lparr>on_row = False, on_handover = True, on_change = empty_builder, on_has_info = False\<rparr>"

definition object_release_data :: "object_notifier \<Rightarrow> object_notifier" where
  "object_release_data n = n\<lparr>on_row := False\<rparr>"

definition object_do_attach_to :: "nat \<Rightarrow> object_notifier \<Rightarrow> failure + object_notifier" where
  "object_do_attach_to sg n =
     (if \<not> on_handover n \<or> on_row n then Inl Assertion_Failed else Inr (n\<lparr>on_row := True, on_handover := False\<rparr>))"

definition object_do_detach_from :: "nat \<Rightarrow> object_notifier \<Rightarrow> failure + object_notifier" where
  "object_do_detach_from sg n =
     (if on_handover n then Inl Assertion_Failed
      else Inr (if on_row n then n\<lparr>on_handover := True, on_row := False\<rparr> else n))"

definition object_do_add_required_change_info :: "object_place \<Rightarrow> change_info \<Rightarrow> object_notifier \<Rightarrow>
    failure + bool \<times> change_info \<times> object_notifier" where
  "object_do_add_required_change_info p info n =
     (if on_handover n then Inl Assertion_Failed
      else Inr (False, if on_row n \<and> op_attached p
          then info\<lparr>ci_modifications_needed := set_flag (op_table p) (ci_modifications_needed info)\<rparr> else info,
        n\<lparr>on_has_info := True\<rparr>))"

definition object_run :: "object_place \<Rightarrow> change_info \<Rightarrow> object_notifier \<Rightarrow> object_notifier" where
  "object_run p info n =
     (if \<not> on_row n then n
      else if \<not> op_attached p
      then n\<lparr>on_change := (on_change n)\<lparr>deletions := add (deletions (on_change n)) 0\<rparr>, on_row := False\<rparr>
      else if length (ci_tables info) \<le> op_table p then n
      else
        let change = ci_tables info ! op_table p in
        if \<not> contains (modifications change) (op_row p) then n
        else n\<lparr>on_change := (on_change n)\<lparr>modifications := add (modifications (on_change n)) 0,
          columns := columns (on_change n) @
            map (\<lambda>col. if contains col (op_row p) then add [] 0 else []) (columns change)\<rparr>\<rparr>)"

definition object_do_prepare_handover :: "object_notifier \<Rightarrow> object_notifier" where
  "object_do_prepare_handover n = (add_changes (on_change n) n)\<lparr>on_change := taken (on_change n)\<rparr>"

end
