(* ===== verification/List_Properties.thy ===== *)
theory List_Properties
  imports List_Notifiers Change_Merge
begin

text \<open>What the notifiers of lists and of objects report.\<close>

section \<open>Lists of objects\<close>

lemma mark_changed_spec:
  assumes "wf mods"
  shows "wf (mark_changed f rows is mods) \<and> idx (mark_changed f rows is mods) = idx mods \<union> {i \<in> set is. f (rows ! i)}"
  using assms
proof (induction "is" arbitrary: mods)
  case (Cons i "is")
  let ?m = "if contains mods i then mods else if f (rows ! i) then add mods i else mods"
  have "wf ?m" "idx ?m = idx mods \<union> {j \<in> {i}. f (rows ! j)}"
    using Cons.prems contains_iff[OF Cons.prems] by (auto simp: add_spec)
  then show ?case using Cons.IH[of ?m] by (auto simp: mark_changed_def)
qed (simp add: mark_changed_def)

text \<open>
  A run of the notifier of a list marks exactly the positions whose object has changed, besides those
  that were recorded, and leaves the rest of the record as it is, so that it still describes the change of
  the list.
\<close>

theorem list_run_marks:
  assumes "ln_view n" "lp_attached p" "tracks (ln_change n) xs (lp_rows p)"
  shows "tracks (ln_change (list_run f p n)) xs (lp_rows p) \<and> ln_prev_size (list_run f p n) = length (lp_rows p) \<and>
    idx (modifications (ln_change (list_run f p n))) =
      idx (modifications (ln_change n)) \<union> {i. i < length (lp_rows p) \<and> f (lp_rows p ! i)}"
proof -
  note T = tracksD[OF assms(3)]
  let ?m1 = "mark_changed f (lp_rows p) [0..<length (lp_rows p)] (modifications (ln_change n))"
  let ?m2 = "mark_changed f (lp_rows p) (map m_to (moves (ln_change n))) ?m1"
  have m1: "wf ?m1" "idx ?m1 = idx (modifications (ln_change n)) \<union> {i \<in> set [0..<length (lp_rows p)]. f (lp_rows p ! i)}"
    using mark_changed_spec[OF T(4), of f "lp_rows p" "[0..<length (lp_rows p)]"] by blast+
  have m2: "wf ?m2" "idx ?m2 = idx ?m1 \<union> {i \<in> set (map m_to (moves (ln_change n))). f (lp_rows p ! i)}"
    using mark_changed_spec[OF m1(1), of f "lp_rows p" "map m_to (moves (ln_change n))"] by blast+
  have r: "list_run f p n = n\<lparr>ln_change := (ln_change n)\<lparr>modifications := ?m2\<rparr>, ln_prev_size := length (lp_rows p)\<rparr>"
    using assms(1,2) by (simp add: list_run_def Let_def)
  have "i < length (lp_rows p)" if "i \<in> set (map m_to (moves (ln_change n)))" for i
    using that T(6) appliesD(2)[OF T(5)] by (auto simp: moves_ok_def)
  then have "idx ?m2 = idx (modifications (ln_change n)) \<union> {i. i < length (lp_rows p) \<and> f (lp_rows p ! i)}"
    unfolding m2(2) m1(2) by auto
  moreover have "tracks ((ln_change n)\<lparr>modifications := ?m2\<rparr>) xs (lp_rows p)"
    using assms(3) m2(1) by (simp add: tracks_def cb_ok_def)
  ultimately show ?thesis by (simp add: r)
qed

definition example_list :: list_notifier where
  "example_list = (make_list_notifier (make_notifier 0 \<lparr>v_version = 1, v_index = 0\<rparr>) 2)\<lparr>ln_view := True, ln_handover := False\<rparr>"

definition example_place :: list_place where
  "example_place = \<lparr>lp_attached = True, lp_table = 0, lp_row = 0, lp_col = 1, lp_rows = [4, 6]\<rparr>"

theorem list_run_marks_witness:
  "idx (modifications (ln_change (list_run (\<lambda>row. row = 6) example_place example_list))) = {1}"
proof -
  have f: "ln_view example_list" "ln_change example_list = empty_builder" "lp_attached example_place" "lp_rows example_place = [4, 6]"
    by (simp_all add: example_list_def make_list_notifier_def make_notifier_def notifier.defs example_place_def)
  have "tracks (ln_change example_list) [4, 6] (lp_rows example_place)" by (simp add: f tracks_empty)
  note r = list_run_marks[OF f(1,3) this, of "\<lambda>row. row = 6"]
  have "modifications empty_builder = []" by (simp add: empty_builder_def)
  then have "idx (modifications (ln_change (list_run (\<lambda>row. row = 6) example_place example_list))) = {i. i < 2 \<and> [4, 6 :: nat] ! i = 6}"
    using r by (simp add: f numeral_2_eq_2)
  also have "\<dots> = {1}" by (auto simp: less_2_cases_iff)
  finally show ?thesis .
qed

text \<open>
  A list that is changed and whose object is then deleted, in one step of the Realm: the rows it had are
  reported as deleted, but the recorded insertions stay in the record, although the list is empty.
\<close>

theorem deleted_list_keeps_insertions:
  "\<not> tracks (ln_change (list_run f (example_place\<lparr>lp_attached := False\<rparr>)
      (example_list\<lparr>ln_change := cb_insert empty_builder 0 1 True\<rparr>))) xs []"
proof
  let ?c = "cb_insert empty_builder 0 1 True"
  let ?d = "?c\<lparr>deletions := set_len (deletions ?c) 2\<rparr>"
  assume "tracks (ln_change (list_run f (example_place\<lparr>lp_attached := False\<rparr>) (example_list\<lparr>ln_change := ?c\<rparr>))) xs []"
  moreover have "ln_prev_size example_list = 2"
    by (simp add: example_list_def make_list_notifier_def make_notifier_def notifier.defs)
  ultimately have "tracks ?d xs []" by (simp add: list_run_def)
  then have "idx (insertions ?c) = {}" using appliesD(2)[OF tracksD(5)] by fastforce
  moreover have "tracks ?c [] ([] @ [True] @ [])" using tracks_insert[OF tracks_empty, of 0 "[]" "[True]"] by simp
  then have "nths ([] :: bool list) (- idx (deletions ?c)) = nths [True] (- idx (insertions ?c))"
    using tracksD(5) by (fastforce simp: applies_def)
  ultimately show False by simp
qed

section \<open>Lists of values\<close>

lemma set_len_end: "0 < n \<Longrightarrow> set_len m n \<noteq> [] \<and> snd (it_get (set_len m n) (it_begin (set_len m n))) = n"
  by (simp add: set_len_def crv_push_back_def it_get_def it_begin_def)

lemma first_range:
  assumes "wf m" "m \<noteq> []"
  shows "it_get m (it_begin m) \<in> set (ranges m)"
proof -
  obtain c cs where m: "m = c # cs" using assms(2) by (cases m) auto
  then have "chunk_data c \<noteq> []" using assms(1) by (auto simp: wf_def chunk_ok_def)
  then show ?thesis by (cases "chunk_data c") (auto simp: m it_get_def it_begin_def ranges_def)
qed

text \<open>
  The record of a list of values is right after a run, also when the list was cleared and the
  transaction log did not say how many values it had: the deletion of everything up to the largest index is
  replaced by that of the values there were.
\<close>

theorem values_run_completes:
  assumes "ln_view n" "ln_prev_size n = length xs" "length xs < npos"
    and "tracks (ln_change n) xs ys \<or> (\<exists>m. deletions (ln_change n) = set_len m npos) \<and>
      cb_ok (ln_change n) \<and> idx (insertions (ln_change n)) = {..<length ys} \<and> moves (ln_change n) = []"
  shows "tracks (ln_change (values_run True (length ys) n)) xs ys \<and> ln_prev_size (values_run True (length ys) n) = length ys"
proof -
  let ?c = "ln_change n"
  let ?cleared = "deletions ?c \<noteq> [] \<and> snd (it_get (deletions ?c) (it_begin (deletions ?c))) = npos"
  have r: "values_run True (length ys) n = n\<lparr>ln_change := (if ?cleared then ?c\<lparr>deletions := set_len (deletions ?c) (length xs)\<rparr> else ?c),
      ln_prev_size := length ys\<rparr>"
    using assms(1,2) by (simp add: values_run_def Let_def)
  from assms(4) have "tracks (if ?cleared then ?c\<lparr>deletions := set_len (deletions ?c) (length xs)\<rparr> else ?c) xs ys"
  proof
    assume t: "tracks ?c xs ys"
    have nc: "\<not> ?cleared"
    proof
      assume c: ?cleared
      let ?r = "it_get (deletions ?c) (it_begin (deletions ?c))"
      have "?r \<in> set (ranges (deletions ?c))" using first_range tracksD(2)[OF t] c by blast
      moreover have "sep (ranges (deletions ?c))" using tracksD(2)[OF t] by (simp add: wf_def)
      ultimately have "fst ?r < snd ?r" "{fst ?r..<snd ?r} \<subseteq> idx (deletions ?c)"
        by (auto simp: sep_nonempty rset_def)
      then have "npos - 1 \<in> idx (deletions ?c)" using c by auto
      then show False using appliesD(1)[OF tracksD(5)[OF t]] assms(3) by auto
    qed
    show ?thesis unfolding if_not_P[OF nc] by (rule t)
  next
    assume c: "(\<exists>m. deletions ?c = set_len m npos) \<and> cb_ok ?c \<and> idx (insertions ?c) = {..<length ys} \<and> moves ?c = []"
    then obtain m where "deletions ?c = set_len m npos" by blast
    moreover have "0 < npos" by (simp add: npos_def)
    ultimately have ?cleared using set_len_end by metis
    moreover have "applies {..<length xs} {..<length ys} xs ys" by (simp add: applies_iff)
    ultimately show ?thesis using c by (simp add: tracks_def cb_ok_def set_len_spec moves_ok_def)
  qed
  then show ?thesis by (simp add: r)
qed

theorem values_run_completes_witness:
  "\<exists>n'. n' = values_run True 0 (example_list\<lparr>ln_change := cb_clear empty_builder npos\<rparr>) \<and> tracks (ln_change n') [3, 5 :: int] []"
proof -
  let ?n = "example_list\<lparr>ln_change := cb_clear empty_builder npos\<rparr>"
  have "ln_view ?n" "ln_prev_size ?n = length [3, 5 :: int]"
    by (simp_all add: example_list_def make_list_notifier_def make_notifier_def notifier.defs)
  moreover have "deletions (ln_change ?n) = set_len [] npos" "moves (ln_change ?n) = []" "insertions (ln_change ?n) = []"
    by (simp_all add: cb_clear_def Let_def empty_builder_def)
  moreover have "cb_ok (ln_change ?n)" using cb_clear_ok[OF cb_ok_empty] by simp
  ultimately have "tracks (ln_change (values_run True (length ([] :: int list)) ?n)) [3, 5] ([] :: int list) \<and>
      ln_prev_size (values_run True (length ([] :: int list)) ?n) = length ([] :: int list)"
    by (intro values_run_completes) (auto simp: npos_def)
  then show ?thesis by simp
qed

section \<open>Objects\<close>

text \<open>
  The notifier of an object reports the one row it watches: as modified, with the columns that changed,
  exactly when the transaction modified it, and as deleted once when it is gone.
\<close>

theorem object_run_reports:
  assumes "on_row n" "on_change n = empty_builder"
  shows "(op_attached p \<and> op_table p < length (ci_tables info) \<and> cb_ok (ci_tables info ! op_table p) \<longrightarrow>
      idx (modifications (on_change (object_run p info n))) =
        (if op_row p \<in> idx (modifications (ci_tables info ! op_table p)) then {0} else {}) \<and>
      (op_row p \<in> idx (modifications (ci_tables info ! op_table p)) \<longrightarrow>
        map idx (columns (on_change (object_run p info n))) =
          map (\<lambda>col. if op_row p \<in> idx col then {0} else {}) (columns (ci_tables info ! op_table p)))) \<and>
    (\<not> op_attached p \<longrightarrow> idx (deletions (on_change (object_run p info n))) = {0} \<and>
      object_run p info (object_run p info n) = object_run p info n)"
proof (intro conjI impI)
  have e: "modifications empty_builder = []" "columns empty_builder = []" "deletions empty_builder = []"
    by (simp_all add: empty_builder_def)
  let ?t = "ci_tables info ! op_table p"
  { assume a: "op_attached p \<and> op_table p < length (ci_tables info) \<and> cb_ok ?t"
    then have w: "wf (modifications ?t)" "\<forall>col \<in> set (columns ?t). wf col" by (simp_all add: cb_ok_def list_all_iff)
    then show "idx (modifications (on_change (object_run p info n))) = (if op_row p \<in> idx (modifications ?t) then {0} else {})"
      using assms a by (auto simp: object_run_def Let_def e contains_iff add_spec)
    assume "op_row p \<in> idx (modifications ?t)"
    then show "map idx (columns (on_change (object_run p info n))) = map (\<lambda>col. if op_row p \<in> idx col then {0} else {}) (columns ?t)"
      using assms a w by (auto simp: object_run_def Let_def e contains_iff add_spec) }
  { assume "\<not> op_attached p"
    then show "idx (deletions (on_change (object_run p info n))) = {0}" "object_run p info (object_run p info n) = object_run p info n"
      using assms by (simp_all add: object_run_def e add_spec) }
qed

definition empty_info :: change_info where
  "empty_info = \<lparr>ci_modifications_needed = [], ci_moves_needed = [], ci_lists = [], ci_tables = [],
     ci_column_indices = [], ci_table_indices = [], ci_track_all = False, ci_schema_changed = False\<rparr>"

definition example_object :: object_notifier where
  "example_object = (make_object_notifier (make_notifier 0 \<lparr>v_version = 1, v_index = 0\<rparr>))\<lparr>on_row := True\<rparr>"

theorem object_run_reports_witness:
  "idx (deletions (on_change (object_run \<lparr>op_attached = False, op_table = 0, op_row = 3\<rparr> empty_info example_object))) = {0}"
proof -
  have "on_row example_object" "on_change example_object = empty_builder"
    by (simp_all add: example_object_def make_object_notifier_def make_notifier_def notifier.defs)
  from object_run_reports[OF this, of "\<lparr>op_attached = False, op_table = 0, op_row = 3\<rparr>" empty_info]
  show ?thesis by simp
qed

end
