(* ===== verification/Transact_Instructions.thy ===== *)
theory Transact_Instructions
  imports Prelude
begin

text \<open>
  The instructions of the transaction log (\<open>core/realm/impl/transact_log.hpp\<close>), as the parser hands them to
  a handler.
\<close>

text \<open>\<open>instr_Set\<close>, \<open>instr_SetUnique\<close>, which comes with the number of rows before it, and \<open>instr_SetDefault\<close>.\<close>

datatype set_variant = Plain_Set | Unique_Set size | Default_Set

datatype data_type = Type_Int | Type_Bool | Type_String | Type_Binary | Type_Table | Type_Mixed | Type_Old_Date_Time
  | Type_Timestamp | Type_Float | Type_Double | Type_Link | Type_Link_List

datatype link_type = Link_Strong | Link_Weak

text \<open>A byte is a number below 256; a floating-point number is its bytes.\<close>

type_synonym byte = nat

datatype mixed = Mixed_Int int | Mixed_Bool bool | Mixed_Float "byte list" | Mixed_Double "byte list"
  | Mixed_Old_Date_Time int | Mixed_Timestamp int int | Mixed_String "byte list" | Mixed_Binary "byte list" | Mixed_Table

datatype cell_value = Null_Value | Int_Value int | Bool_Value bool | Float_Value "byte list" | Double_Value "byte list"
  | String_Value "byte list" | Binary_Value "byte list" | Old_Date_Time_Value int | Timestamp_Value int int
  | Table_Value | Mixed_Value mixed | Link_Value size size

datatype instruction =
    Set_Cell set_variant size size cell_value
  | Add_Int size size int
  | Nullify_Link size size size
  | Insert_Substring size size size "byte list"
  | Erase_Substring size size size size
  | Insert_Empty_Rows size size size bool
  | Add_Row_With_Key size size size int
  | Erase_Rows size size size bool
  | Swap_Rows size size
  | Move_Row size size
  | Merge_Rows size size
  | Select_Table size "(size \<times> size) list"
  | Clear_Table size
  | Optimize_Table
  | Link_List_Set size size size
  | Link_List_Insert size size size
  | Link_List_Move size size
  | Link_List_Swap size size
  | Link_List_Erase size size
  | Link_List_Nullify size size
  | Link_List_Clear size
  | Select_Link_List size size size
  | Select_Descriptor "size list"
  | Insert_Column size data_type "byte list" bool
  | Insert_Link_Column size data_type "byte list" size size
  | Erase_Column size
  | Erase_Link_Column size size size
  | Rename_Column size "byte list"
  | Move_Column size size
  | Add_Search_Index size
  | Remove_Search_Index size
  | Set_Link_Type size link_type
  | Insert_Group_Level_Table size size "byte list"
  | Erase_Group_Level_Table size size
  | Rename_Group_Level_Table size "byte list"
  | Move_Group_Level_Table size size

end
