(* ===== verification/Transact_Observer.thy ===== *)
theory Transact_Observer
  imports Transact_Instructions Collection_Notifier
begin

text \<open>
  The handlers of the transaction log (\<open>impl/transact_log_handler.cpp\<close>): the validator, and the observer
  that records what happens to the tables and lists a \<open>TransactionChangeInfo\<close> asks for.
\<close>

section \<open>Helpers\<close>

text \<open>\<open>rotate\<close>, with the value \<open>resize\<close> fills in.\<close>

definition rotate_to :: "'a \<Rightarrow> 'a list \<Rightarrow> nat \<Rightarrow> nat \<Rightarrow> 'a list" where
  "rotate_to d xs from_ndx to_ndx =
     (if length xs \<le> from_ndx \<and> length xs \<le> to_ndx then xs
      else
        let xs = (if length xs \<le> from_ndx \<or> length xs \<le> to_ndx
          then xs @ replicate (max from_ndx to_ndx + 1 - length xs) d else xs)
        in if from_ndx < to_ndx then std_rotate from_ndx (from_ndx + 1) (to_ndx + 1) xs
           else std_rotate to_ndx from_ndx (from_ndx + 1) xs)"

definition insert_empty_at :: "'a \<Rightarrow> 'a list \<Rightarrow> nat \<Rightarrow> 'a list" where
  "insert_empty_at d xs pos = (if pos < length xs then take pos xs @ d # drop pos xs else xs)"

definition adjust_for_move :: "size \<Rightarrow> size \<Rightarrow> size \<Rightarrow> size" where
  "adjust_for_move from_ndx to_ndx v =
     (if v = from_ndx then to_ndx
      else if from_ndx < v \<and> v \<le> to_ndx then v - 1
      else if v < from_ndx \<and> to_ndx \<le> v then v + 1
      else v)"

definition expand_to :: "size list \<Rightarrow> size \<Rightarrow> size list" where
  "expand_to cols i =
     (let old = length cols in
      if i < old then cols
      else cols @ map (\<lambda>k. (if old = 0 then 0 else size_succ (cols ! (old - 1))) + k) [0..<max (old * 2) (i + 1) - old])"

definition adjust_ge :: "size list \<Rightarrow> size \<Rightarrow> size list" where
  "adjust_ge values i = map (\<lambda>v. if i \<le> v then v + 1 else v) values"

section \<open>Validation\<close>

datatype log_failure = Unsupported_Schema_Change | Log_Assertion

text \<open>\<open>TransactLogValidationMixin\<close>: which instructions are never supported while a Realm is open.\<close>

fun unsupported_change :: "instruction \<Rightarrow> bool" where
  "unsupported_change (Erase_Group_Level_Table _ _) = True"
| "unsupported_change (Rename_Group_Level_Table _ _) = True"
| "unsupported_change (Erase_Column _) = True"
| "unsupported_change (Erase_Link_Column _ _ _) = True"
| "unsupported_change (Rename_Column _ _) = True"
| "unsupported_change _ = False"

definition validate_log :: "instruction list \<Rightarrow> log_failure + unit" where
  "validate_log is = (if list_ex unsupported_change is then Inl Unsupported_Schema_Change else Inr ())"

section \<open>The observer\<close>

text \<open>
  Builders are pointed to: those of the tables are in the request, those of the lists belong to the
  notifiers, whose numbers the request lists.
\<close>

datatype builder_ref = Table_Builder nat | List_Builder nat

record log_state =
  lg_info :: change_info
  lg_builders :: "nat \<Rightarrow> change_builder"
  lg_table :: size
  lg_active_list :: "nat option"
  lg_active_table :: "builder_ref option"
  lg_active_descriptor :: "builder_ref option"
  lg_need_moves :: bool
  lg_top_level :: bool

definition start_log :: "change_info \<Rightarrow> (nat \<Rightarrow> change_builder) \<Rightarrow> log_state" where
  "start_log info builders = \<lparr>lg_info = info, lg_builders = builders, lg_table = 0, lg_active_list = None,
     lg_active_table = None, lg_active_descriptor = None, lg_need_moves = False, lg_top_level = True\<rparr>"

definition edit_list :: "(change_builder \<Rightarrow> change_builder) \<Rightarrow> nat \<Rightarrow> log_state \<Rightarrow> log_state" where
  "edit_list f p s = s\<lparr>lg_builders := (lg_builders s)(p := f (lg_builders s p))\<rparr>"

fun edit_builder :: "(change_builder \<Rightarrow> change_builder) \<Rightarrow> builder_ref option \<Rightarrow> log_state \<Rightarrow> log_state" where
  "edit_builder f None s = s"
| "edit_builder f (Some (List_Builder p)) s = edit_list f p s"
| "edit_builder f (Some (Table_Builder t)) s =
     s\<lparr>lg_info := (lg_info s)\<lparr>ci_tables := (ci_tables (lg_info s))[t := f (ci_tables (lg_info s) ! t)]\<rparr>\<rparr>"

definition edit_table :: "(change_builder \<Rightarrow> change_builder) \<Rightarrow> log_state \<Rightarrow> log_state" where
  "edit_table f s = edit_builder f (lg_active_table s) s"

definition edit_active_list :: "(change_builder \<Rightarrow> change_builder) \<Rightarrow> log_state \<Rightarrow> log_state" where
  "edit_active_list f s = edit_builder f (map_option List_Builder (lg_active_list s)) s"

definition edit_lists :: "(list_change_info list \<Rightarrow> list_change_info list) \<Rightarrow> log_state \<Rightarrow> log_state" where
  "edit_lists f s = s\<lparr>lg_info := (lg_info s)\<lparr>ci_lists := f (ci_lists (lg_info s))\<rparr>\<rparr>"

text \<open>The last entry is the one to use.\<close>

definition find_list :: "size \<Rightarrow> size \<Rightarrow> size \<Rightarrow> log_state \<Rightarrow> nat option" where
  "find_list tbl col row s =
     map_option li_changes (List.find (\<lambda>l. li_table l = tbl \<and> li_row l = row \<and> li_col l = col) (rev (ci_lists (lg_info s))))"

definition mark_dirty :: "size \<Rightarrow> size \<Rightarrow> log_state \<Rightarrow> log_state" where
  "mark_dirty row col s = edit_table (\<lambda>b. cb_modify b row col) s"

definition parse_complete :: "log_state \<Rightarrow> log_state" where
  "parse_complete s =
     (let s = s\<lparr>lg_info := (lg_info s)\<lparr>ci_tables := map cb_parse_complete (ci_tables (lg_info s))\<rparr>\<rparr>
      in foldl (\<lambda>s l. edit_list clean_up_stale_moves (li_changes l) s) s (ci_lists (lg_info s)))"

definition flag_set :: "bool list \<Rightarrow> nat \<Rightarrow> bool" where
  "flag_set fs t \<longleftrightarrow> t < length fs \<and> fs ! t"

definition obs_select_table :: "size \<Rightarrow> (size \<times> size) list \<Rightarrow> log_state \<Rightarrow> log_state" where
  "obs_select_table tbl_ndx path s =
     (let s = s\<lparr>lg_table := tbl_ndx, lg_active_table := None, lg_top_level := True\<rparr>; info = lg_info s in
      if 1 < length path then s\<lparr>lg_top_level := False\<rparr>
      else if \<not> ci_track_all info \<and> \<not> flag_set (ci_modifications_needed info) tbl_ndx then s
      else
        let tables = (if length (ci_tables info) \<le> tbl_ndx
              then ci_tables info @ replicate (max (length (ci_tables info) * 2) (tbl_ndx + 1) - length (ci_tables info)) empty_builder
              else ci_tables info);
            s = s\<lparr>lg_need_moves := (ci_track_all info \<or> flag_set (ci_moves_needed info) tbl_ndx),
              lg_info := info\<lparr>ci_tables := tables\<rparr>, lg_active_table := Some (Table_Builder tbl_ndx)\<rparr>
        in case path of
             [(col, row)] \<Rightarrow>
               let s = (mark_dirty row col s)\<lparr>lg_active_table := None, lg_top_level := False\<rparr> in
               (case find_list tbl_ndx col row s of
                  Some p \<Rightarrow> s\<lparr>lg_active_table := Some (List_Builder p), lg_need_moves := True\<rparr>
                | None \<Rightarrow> s)
           | _ \<Rightarrow> s)"

definition obs_select_descriptor :: "nat \<Rightarrow> log_state \<Rightarrow> log_state" where
  "obs_select_descriptor levels s = s\<lparr>lg_active_descriptor := (if levels = 0 then lg_active_table s else None)\<rparr>"

definition obs_select_link_list :: "size \<Rightarrow> size \<Rightarrow> log_state \<Rightarrow> log_state" where
  "obs_select_link_list col row s =
     (let s = mark_dirty row col s in s\<lparr>lg_active_list := find_list (lg_table s) col row s\<rparr>)"

definition obs_insert_empty_rows :: "size \<Rightarrow> size \<Rightarrow> log_state \<Rightarrow> log_state" where
  "obs_insert_empty_rows row_ndx num s =
     (let s = edit_table (\<lambda>b. cb_insert b row_ndx num (lg_need_moves s)) s in
      if \<not> lg_top_level s then s
      else edit_lists (map (\<lambda>l. if li_table l = lg_table s \<and> row_ndx \<le> li_row l
        then l\<lparr>li_row := li_row l + num\<rparr> else l)) s)"

text \<open>
  The loop over the watched lists when a row is deleted and the last row takes its place: a list of the
  deleted row is replaced by the last of the watched ones.
\<close>

function drop_row_lists :: "size \<Rightarrow> size \<Rightarrow> size \<Rightarrow> nat \<Rightarrow> list_change_info list \<Rightarrow> list_change_info list" where
  "drop_row_lists tbl row_ndx last_row i ls =
     (if i < length ls then
        if li_table (ls ! i) \<noteq> tbl then drop_row_lists tbl row_ndx last_row (Suc i) ls
        else if li_row (ls ! i) = row_ndx
        then drop_row_lists tbl row_ndx last_row (Suc i) (butlast (if i + 1 < length ls then ls[i := last ls] else ls))
        else if li_row (ls ! i) = last_row
        then drop_row_lists tbl row_ndx last_row (Suc i) (ls[i := (ls ! i)\<lparr>li_row := row_ndx\<rparr>])
        else drop_row_lists tbl row_ndx last_row (Suc i) ls
      else ls)"
  by pat_completeness auto
termination
  by (relation "measure (\<lambda>(tbl, row, last, i, ls). length ls - i)") auto

declare drop_row_lists.simps [simp del]

definition obs_erase_rows :: "size \<Rightarrow> size \<Rightarrow> bool \<Rightarrow> log_state \<Rightarrow> log_state" where
  "obs_erase_rows row_ndx prior_num_rows unordered s =
     (if \<not> unordered then edit_table (\<lambda>b. cb_erase b row_ndx) s
      else
        let last_row = size_sub prior_num_rows 1;
            s = edit_table (\<lambda>b. cb_move_over b row_ndx last_row (lg_need_moves s)) s
        in if \<not> lg_top_level s then s
           else edit_lists (drop_row_lists (lg_table s) row_ndx last_row 0) s)"

definition obs_swap_rows :: "size \<Rightarrow> size \<Rightarrow> log_state \<Rightarrow> log_failure + log_state" where
  "obs_swap_rows r1 r2 s =
     (if \<not> r1 < r2 then Inl Log_Assertion
      else if \<not> lg_top_level s then
        Inr (edit_table (\<lambda>b. let b = cb_move b r1 r2 in if r1 + 1 \<noteq> r2 then cb_move b (r2 - 1) r1 else b) s)
      else
        let s = edit_table (\<lambda>b. cb_swap b r1 r2 (lg_need_moves s)) s in
        Inr (edit_lists (map (\<lambda>l. if li_table l = lg_table s then
            if li_row l = r1 then l\<lparr>li_row := r2\<rparr> else if li_row l = r2 then l\<lparr>li_row := r1\<rparr> else l
          else l)) s))"

definition obs_move_row :: "size \<Rightarrow> size \<Rightarrow> log_state \<Rightarrow> log_failure + log_state" where
  "obs_move_row from_ndx to_ndx s =
     (if lg_active_table s \<noteq> None \<and> lg_top_level s then Inl Log_Assertion
      else Inr (edit_table (\<lambda>b. cb_move b from_ndx to_ndx) s))"

definition obs_merge_rows :: "size \<Rightarrow> size \<Rightarrow> log_state \<Rightarrow> log_state" where
  "obs_merge_rows from_ndx to_ndx s =
     (let s = edit_table (\<lambda>b. cb_subsume b from_ndx to_ndx (lg_need_moves s)) s in
      if \<not> lg_top_level s then s
      else edit_lists (map (\<lambda>l. if li_table l = lg_table s \<and> li_row l = from_ndx then l\<lparr>li_row := to_ndx\<rparr> else l)) s)"

definition obs_clear_table :: "log_state \<Rightarrow> log_state" where
  "obs_clear_table s =
     (let s = edit_table (\<lambda>b. cb_clear b npos) s in
      if \<not> lg_top_level s then s else edit_lists (filter (\<lambda>l. li_table l \<noteq> lg_table s)) s)"

section \<open>Schema changes\<close>

text \<open>The indices of the columns of the selected table, edited.\<close>

definition edit_column_indices :: "(size list \<Rightarrow> size list) \<Rightarrow> log_state \<Rightarrow> log_state" where
  "edit_column_indices f s =
     (let info = lg_info s; t = lg_table s;
          all = (if length (ci_column_indices info) \<le> t
            then ci_column_indices info @ replicate (t + 1 - length (ci_column_indices info)) [] else ci_column_indices info)
      in s\<lparr>lg_info := info\<lparr>ci_column_indices := all[t := f (all ! t)]\<rparr>\<rparr>)"

definition schema_changes :: "log_state \<Rightarrow> log_state" where
  "schema_changes s = s\<lparr>lg_info := (lg_info s)\<lparr>ci_schema_changed := True\<rparr>\<rparr>"

definition obs_insert_column :: "size \<Rightarrow> log_state \<Rightarrow> log_state" where
  "obs_insert_column ndx s =
     (let s = schema_changes s; s = edit_builder (\<lambda>b. cb_insert_column b ndx) (lg_active_descriptor s) s in
      if lg_active_descriptor s \<noteq> lg_active_table s \<or> \<not> lg_top_level s then s
      else
        let s = edit_lists (map (\<lambda>l. if li_table l = lg_table s \<and> ndx \<le> li_col l then l\<lparr>li_col := li_col l + 1\<rparr> else l)) s
        in edit_column_indices (\<lambda>indices. (insert_empty_at 0 (expand_to indices ndx) ndx)[ndx := npos]) s)"

definition obs_move_column :: "size \<Rightarrow> size \<Rightarrow> log_state \<Rightarrow> log_failure + log_state" where
  "obs_move_column from_ndx to_ndx s =
     (let s = schema_changes s; s = edit_builder (\<lambda>b. cb_move_column b from_ndx to_ndx) (lg_active_descriptor s) s in
      if lg_active_descriptor s \<noteq> lg_active_table s \<or> \<not> lg_top_level s then Inr s
      else if from_ndx = to_ndx then Inl Log_Assertion
      else
        let s = edit_lists (map (\<lambda>l. if li_table l = lg_table s
            then l\<lparr>li_col := adjust_for_move from_ndx to_ndx (li_col l)\<rparr> else l)) s
        in Inr (edit_column_indices (\<lambda>indices. rotate_to 0 (expand_to indices (max from_ndx to_ndx + 1)) from_ndx to_ndx) s))"

definition prepare_table_indices :: "log_state \<Rightarrow> log_state" where
  "prepare_table_indices s =
     (let info = lg_info s in
      if ci_table_indices info = [] \<and> ci_modifications_needed info \<noteq> []
      then s\<lparr>lg_info := info\<lparr>ci_table_indices := [0..<length (ci_modifications_needed info)]\<rparr>\<rparr> else s)"

definition obs_insert_group_level_table :: "size \<Rightarrow> log_state \<Rightarrow> log_state" where
  "obs_insert_group_level_table ndx s =
     (let s = schema_changes s;
          s = edit_lists (map (\<lambda>l. if ndx \<le> li_table l then l\<lparr>li_table := li_table l + 1\<rparr> else l)) s;
          s = prepare_table_indices s; info = lg_info s
      in s\<lparr>lg_info := info\<lparr>ci_table_indices := adjust_ge (ci_table_indices info) ndx,
           ci_tables := insert_empty_at empty_builder (ci_tables info) ndx,
           ci_moves_needed := insert_empty_at False (ci_moves_needed info) ndx,
           ci_modifications_needed := insert_empty_at False (ci_modifications_needed info) ndx\<rparr>\<rparr>)"

definition obs_move_group_level_table :: "size \<Rightarrow> size \<Rightarrow> log_state \<Rightarrow> log_failure + log_state" where
  "obs_move_group_level_table from_ndx to_ndx s =
     (if from_ndx = to_ndx then Inl Log_Assertion
      else
        let s = schema_changes s;
            s = edit_lists (map (\<lambda>l. l\<lparr>li_table := adjust_for_move from_ndx to_ndx (li_table l)\<rparr>)) s;
            s = prepare_table_indices s; info = lg_info s
        in Inr (s\<lparr>lg_info := info\<lparr>ci_table_indices := map (adjust_for_move from_ndx to_ndx) (ci_table_indices info),
             ci_tables := rotate_to empty_builder (ci_tables info) from_ndx to_ndx,
             ci_modifications_needed := rotate_to False (ci_modifications_needed info) from_ndx to_ndx,
             ci_moves_needed := rotate_to False (ci_moves_needed info) from_ndx to_ndx\<rparr>\<rparr>))"

section \<open>One instruction\<close>

text \<open>\<open>set_default\<close> and \<open>set_unique\<close> cannot be changes of existing rows.\<close>

fun observe :: "instruction \<Rightarrow> log_state \<Rightarrow> log_failure + log_state" where
  "observe (Set_Cell Plain_Set col row v) s = Inr (mark_dirty row col s)"
| "observe (Set_Cell (Unique_Set _) col row v) s = Inr s"
| "observe (Set_Cell Default_Set col row v) s = Inr s"
| "observe (Add_Int col row v) s = Inr (mark_dirty row col s)"
| "observe (Nullify_Link col row _) s = Inr (mark_dirty row col s)"
| "observe (Insert_Substring col row _ _) s = Inr (mark_dirty row col s)"
| "observe (Erase_Substring col row _ _) s = Inr (mark_dirty row col s)"
| "observe (Insert_Empty_Rows row num _ _) s = Inr (obs_insert_empty_rows row num s)"
| "observe (Add_Row_With_Key row _ _ _) s = Inr (obs_insert_empty_rows row 1 s)"
| "observe (Erase_Rows row _ prior unordered) s = Inr (obs_erase_rows row prior unordered s)"
| "observe (Swap_Rows r1 r2) s = obs_swap_rows r1 r2 s"
| "observe (Move_Row f t) s = obs_move_row f t s"
| "observe (Merge_Rows f t) s = Inr (obs_merge_rows f t s)"
| "observe (Select_Table tbl path) s = Inr (obs_select_table tbl path s)"
| "observe (Clear_Table _) s = Inr (obs_clear_table s)"
| "observe Optimize_Table s = Inr s"
| "observe (Link_List_Set i _ _) s = Inr (edit_active_list (\<lambda>b. cb_modify b i npos) s)"
| "observe (Link_List_Insert i _ _) s = Inr (edit_active_list (\<lambda>b. cb_insert b i 1 True) s)"
| "observe (Link_List_Move f t) s = Inr (edit_active_list (\<lambda>b. cb_move b f t) s)"
| "observe (Link_List_Swap i j) s =
     Inr (edit_active_list (\<lambda>b. cb_modify b j npos) (edit_active_list (\<lambda>b. cb_modify b i npos) s))"
| "observe (Link_List_Erase i _) s = Inr (edit_active_list (\<lambda>b. cb_erase b i) s)"
| "observe (Link_List_Nullify i _) s = Inr (edit_active_list (\<lambda>b. cb_erase b i) s)"
| "observe (Link_List_Clear old_size) s = Inr (edit_active_list (\<lambda>b. cb_clear b old_size) s)"
| "observe (Select_Link_List col row _) s = Inr (obs_select_link_list col row s)"
| "observe (Select_Descriptor path) s = Inr (obs_select_descriptor (length path) s)"
| "observe (Insert_Column ndx _ _ _) s = Inr (obs_insert_column ndx s)"
| "observe (Insert_Link_Column ndx _ _ _ _) s = Inr (obs_insert_column ndx s)"
| "observe (Erase_Column _) s = Inl Unsupported_Schema_Change"
| "observe (Erase_Link_Column _ _ _) s = Inl Unsupported_Schema_Change"
| "observe (Rename_Column _ _) s = Inl Unsupported_Schema_Change"
| "observe (Move_Column f t) s = obs_move_column f t s"
| "observe (Add_Search_Index _) s = Inr s"
| "observe (Remove_Search_Index _) s = Inr s"
| "observe (Set_Link_Type _ _) s = Inr s"
| "observe (Insert_Group_Level_Table ndx _ _) s = Inr (obs_insert_group_level_table ndx s)"
| "observe (Erase_Group_Level_Table _ _) s = Inl Unsupported_Schema_Change"
| "observe (Rename_Group_Level_Table _ _) s = Inl Unsupported_Schema_Change"
| "observe (Move_Group_Level_Table f t) s = obs_move_group_level_table f t s"

fun observe_all :: "instruction list \<Rightarrow> log_state \<Rightarrow> log_failure + log_state" where
  "observe_all [] s = Inr s"
| "observe_all (i # is) s = (case observe i s of Inl e \<Rightarrow> Inl e | Inr s \<Rightarrow> observe_all is s)"

text \<open>\<open>transaction::advance\<close> of the worker: nothing is observed when nothing was asked for.\<close>

definition advance_observed :: "instruction list \<Rightarrow> change_info \<Rightarrow> (nat \<Rightarrow> change_builder) \<Rightarrow>
    log_failure + change_info \<times> (nat \<Rightarrow> change_builder)" where
  "advance_observed is info builders =
     (if \<not> ci_track_all info \<and> ci_modifications_needed info = [] \<and> ci_lists info = [] then Inr (info, builders)
      else case observe_all is (start_log info builders) of
          Inl e \<Rightarrow> Inl e
        | Inr s \<Rightarrow> let s = parse_complete s in Inr (lg_info s, lg_builders s))"

end
