(* ===== verification/Row_Records.thy ===== *)
theory Row_Records
  imports Change_Merge
begin

text \<open>
  What the change builder promises for the rows of a table.  The rows of a table are not ordered: a new
  row comes last, the last row takes the place of a deleted one, and two rows can be swapped.  A row that
  is not recorded as moved is where it was.
\<close>

section \<open>The record of a table\<close>

definition row_record :: "change_builder \<Rightarrow> 'o list \<Rightarrow> 'o list \<Rightarrow> bool" where
  "row_record b xs ys \<longleftrightarrow>
     wf (deletions b) \<and> wf (insertions b) \<and> wf (modifications_new b) \<and> moves b = [] \<and>
     distinct xs \<and> distinct ys \<and> idx (insertions b) \<subseteq> {..<length ys} \<and>
     (\<forall>p < length ys. p \<notin> idx (insertions b) \<longrightarrow> p < length xs \<and> p \<notin> idx (deletions b) \<and> ys ! p = xs ! p) \<and>
     (\<forall>p < length xs. p \<notin> idx (deletions b) \<longrightarrow> p < length ys \<and> p \<notin> idx (insertions b)) \<and>
     distinct (map fst (move_mapping b)) \<and>
     (\<forall>n v. map_of (move_mapping b) n = Some v \<longrightarrow>
        n \<in> idx (insertions b) \<and> v \<in> idx (deletions b) \<and> v < length xs \<and> ys ! n = xs ! v) \<and>
     (\<forall>n \<in> idx (insertions b). ys ! n \<in> set xs \<longrightarrow> map_of (move_mapping b) n \<noteq> None)"

lemma row_recordI:
  assumes "wf (deletions b)" "wf (insertions b)" "wf (modifications_new b)" "moves b = []"
    and "distinct xs" "distinct ys" "idx (insertions b) \<subseteq> {..<length ys}"
    and "\<And>p. p < length ys \<Longrightarrow> p \<notin> idx (insertions b) \<Longrightarrow> p < length xs \<and> p \<notin> idx (deletions b) \<and> ys ! p = xs ! p"
    and "\<And>p. p < length xs \<Longrightarrow> p \<notin> idx (deletions b) \<Longrightarrow> p < length ys \<and> p \<notin> idx (insertions b)"
    and "distinct (map fst (move_mapping b))"
    and "\<And>n v. map_of (move_mapping b) n = Some v \<Longrightarrow>
        n \<in> idx (insertions b) \<and> v \<in> idx (deletions b) \<and> v < length xs \<and> ys ! n = xs ! v"
    and "\<And>n. n \<in> idx (insertions b) \<Longrightarrow> ys ! n \<in> set xs \<Longrightarrow> map_of (move_mapping b) n \<noteq> None"
  shows "row_record b xs ys"
  using assms unfolding row_record_def by blast

lemma row_recordD:
  assumes "row_record b xs ys"
  shows "wf (deletions b)" "wf (insertions b)" "wf (modifications_new b)" "moves b = []"
    and "distinct xs" "distinct ys" "idx (insertions b) \<subseteq> {..<length ys}"
    and "\<And>p. p < length ys \<Longrightarrow> p \<notin> idx (insertions b) \<Longrightarrow> p < length xs \<and> p \<notin> idx (deletions b) \<and> ys ! p = xs ! p"
    and "\<And>p. p < length xs \<Longrightarrow> p \<notin> idx (deletions b) \<Longrightarrow> p < length ys \<and> p \<notin> idx (insertions b)"
    and "distinct (map fst (move_mapping b))"
    and "\<And>n v. map_of (move_mapping b) n = Some v \<Longrightarrow>
        n \<in> idx (insertions b) \<and> v \<in> idx (deletions b) \<and> v < length xs \<and> ys ! n = xs ! v"
    and "\<And>n. n \<in> idx (insertions b) \<Longrightarrow> ys ! n \<in> set xs \<Longrightarrow> map_of (move_mapping b) n \<noteq> None"
  using assms unfolding row_record_def by blast+

lemma row_record_empty: "distinct xs \<Longrightarrow> row_record empty_builder xs xs"
  by (rule row_recordI) (simp_all add: empty_builder_def)

text \<open>A row that is not recorded as inserted counts as itself in the old table.\<close>

lemma rank_outside_cong:
  assumes "\<And>q. q < p \<Longrightarrow> q \<in> A \<longleftrightarrow> q \<in> B"
  shows "rank_outside A p = rank_outside B p"
proof -
  have "A \<inter> {..<p} = B \<inter> {..<p}" using assms by auto
  then show ?thesis by (simp add: rank_outside_def)
qed

lemma row_keeps_number:
  assumes "row_record b xs ys" "p < length ys" "p \<notin> idx (insertions b)"
  shows "rank_outside (idx (insertions b)) p = rank_outside (idx (deletions b)) p"
    "nth_outside (idx (deletions b)) (rank_outside (idx (insertions b)) p) = p"
proof -
  note R = row_recordD[OF assms(1)]
  have p: "p < length xs" "p \<notin> idx (deletions b)" using R(8)[OF assms(2,3)] by blast+
  have e: "q \<in> idx (insertions b) \<longleftrightarrow> q \<in> idx (deletions b)" if "q < p" for q
    using R(8)[of q] R(9)[of q] that p(1) assms(2) by fastforce
  then show s: "rank_outside (idx (insertions b)) p = rank_outside (idx (deletions b)) p" by (rule rank_outside_cong)
  show "nth_outside (idx (deletions b)) (rank_outside (idx (insertions b)) p) = p"
    unfolding s using p(2) ix.finite_members by simp
qed

text \<open>The number a row had when the record began, if it was there.\<close>

definition old_number :: "change_builder \<Rightarrow> nat \<Rightarrow> nat option" where
  "old_number b n = (if n \<in> idx (insertions b) then map_of (move_mapping b) n else Some n)"

text \<open>Where only positions from \<open>p\<close> on differ, shifting and unshifting cancel.\<close>

lemma shifted_number:
  assumes "\<And>q. q < p \<Longrightarrow> q \<in> idx d \<longleftrightarrow> q \<in> idx i" "p \<notin> idx d" "wf d" "wf i"
  shows "snd (add_shifted d (unshift i p)) = p" "idx (fst (add_shifted d (unshift i p))) = insert p (idx d)"
    "wf (fst (add_shifted d (unshift i p)))"
proof -
  have "rank_outside (idx i) p = rank_outside (idx d) p" using assms(1) by (intro rank_outside_cong) simp
  then have "nth_outside (idx d) (rank_outside (idx i) p) = p" using assms(2) ix.finite_members by simp
  then show "snd (add_shifted d (unshift i p)) = p" "idx (fst (add_shifted d (unshift i p))) = insert p (idx d)"
    "wf (fst (add_shifted d (unshift i p)))"
    using assms(3,4) by (simp_all add: ix_members ix_ok)
qed

lemma agree_below:
  assumes "row_record b xs ys" "p < length ys" "p \<notin> idx (insertions b)" "q < p"
  shows "q \<in> idx (deletions b) \<longleftrightarrow> q \<in> idx (insertions b)"
  using row_recordD(8)[OF assms(1), of q] row_recordD(9)[OF assms(1), of q] row_recordD(8)[OF assms(1-3)]
    assms(2,4) by fastforce

lemma last_second_iff:
  assumes "wf m" "idx m \<subseteq> {..l}"
  shows "m \<noteq> [] \<and> last_second m = l + 1 \<longleftrightarrow> l \<in> idx m"
proof (cases "m = []")
  case False
  have ok: "list_all chunk_ok m" and se: "sep (ranges m)" using assms(1) by (simp_all add: wf_def)
  then have ne: "ranges m \<noteq> []" using False ranges_eq_Nil by blast
  define r where "r = last (ranges m)"
  have "ranges m = before m (it_prev m (it_end m)) @ [it_get m (it_prev m (it_end m))]"
    using it_prev_step(1)[OF ok, of "it_end m"] ne by simp
  then have ls: "last_second m = snd r" by (simp add: last_second_def r_def)
  have rm: "r \<in> set (ranges m)" using ne by (simp add: r_def)
  have lt: "fst r < snd r" using se rm by (simp add: sep_def)
  have le: "snd r' \<le> snd r" if "r' \<in> set (ranges m)" for r'
  proof (cases "r' = r")
    case False
    have d: "ranges m = butlast (ranges m) @ [r]" using ne by (simp add: r_def)
    then have "r' \<in> set (butlast (ranges m))" using that False by (metis Un_iff set_append set_ConsD list.set(1) empty_iff)
    moreover have "sorted_wrt (\<lambda>a b. snd a < fst b) (butlast (ranges m) @ [r])" using se d by (simp add: sep_def)
    ultimately have "snd r' < fst r" by (simp add: sorted_wrt_append)
    then show ?thesis using lt by simp
  qed simp
  have "snd r - 1 \<in> idx m" using rm lt by (force simp: rset_def)
  then have b: "snd r \<le> l + 1" using assms(2) by auto
  have "l \<in> idx m \<longleftrightarrow> snd r = l + 1"
  proof
    assume "l \<in> idx m"
    then obtain r' where "r' \<in> set (ranges m)" "l < snd r'" by (auto simp: rset_def)
    then show "snd r = l + 1" using le b by fastforce
  next
    assume "snd r = l + 1"
    then show "l \<in> idx m" using rm lt by (force simp: rset_def)
  qed
  then show ?thesis using False ls by simp
qed simp

section \<open>New rows\<close>

lemma move_keys:
  assumes "row_record b xs ys" "(k, v) \<in> set (move_mapping b)"
  shows "k < length ys" "k \<in> idx (insertions b)"
proof -
  have "map_of (move_mapping b) k = Some v" using row_recordD(10)[OF assms(1)] assms(2) by simp
  then show "k \<in> idx (insertions b)" using row_recordD(11)[OF assms(1)] by blast
  then show "k < length ys" using row_recordD(7)[OF assms(1)] by blast
qed

lemma no_key: "row_record b xs ys \<Longrightarrow> length ys \<le> p \<Longrightarrow> map_of (move_mapping b) p = None"
  using move_keys(1)[of b xs ys p] by (meson leD map_of_eq_None_iff not_None_eq map_of_SomeD)

lemma nth_outside_prefix: "X \<subseteq> {..<k} \<Longrightarrow> nth_outside {k..<k + n} ` X = X"
  by (auto simp: nth_outside_run image_iff subset_eq)

lemma row_record_append:
  assumes r: "row_record b xs ys" and os: "os \<noteq> []" "distinct os" "set os \<inter> (set ys \<union> set xs) = {}"
  shows "row_record (cb_insert b (length ys) (length os) True) xs (ys @ os)"
proof -
  note R = row_recordD[OF r]
  let ?b = "cb_insert b (length ys) (length os) True"
  have n: "0 < length os" using os(1) by simp
  have f: "filter (\<lambda>(k, v). length ys \<le> k) (move_mapping b) = []" "filter (\<lambda>(k, v). k < length ys) (move_mapping b) = move_mapping b"
    by (auto simp: filter_empty_conv filter_id_conv dest: move_keys(1)[OF r])
  have D: "deletions ?b = deletions b" "modifications_new ?b = modifications_new b" "moves ?b = []"
    "move_mapping ?b = move_mapping b" "wf (insertions ?b)"
    using R(2,4) n f by (simp_all add: cb_insert_def Let_def shift_mapping_def ix_ok)
  have I: "idx (insertions ?b) = idx (insertions b) \<union> {length ys..<length ys + length os}"
    using R(2) n nth_outside_prefix[OF R(7)] by (simp add: cb_insert_def Let_def ix_members)
  show ?thesis
  proof (rule row_recordI, unfold D I)
    show "distinct (ys @ os)" using R(6) os by auto
    show "idx (insertions b) \<union> {length ys..<length ys + length os} \<subseteq> {..<length (ys @ os)}" using R(7) by auto
    fix p
    show "p < length (ys @ os) \<Longrightarrow> p \<notin> idx (insertions b) \<union> {length ys..<length ys + length os} \<Longrightarrow>
      p < length xs \<and> p \<notin> idx (deletions b) \<and> (ys @ os) ! p = xs ! p"
      using R(8)[of p] by (auto simp: nth_append)
    show "p < length xs \<Longrightarrow> p \<notin> idx (deletions b) \<Longrightarrow>
      p < length (ys @ os) \<and> p \<notin> idx (insertions b) \<union> {length ys..<length ys + length os}"
      using R(9)[of p] by auto
    show "map_of (move_mapping b) p = Some v \<Longrightarrow> p \<in> idx (insertions b) \<union> {length ys..<length ys + length os} \<and>
      v \<in> idx (deletions b) \<and> v < length xs \<and> (ys @ os) ! p = xs ! v" for v
      using R(11)[of p v] R(7) by (auto simp: nth_append)
    assume p: "p \<in> idx (insertions b) \<union> {length ys..<length ys + length os}" "(ys @ os) ! p \<in> set xs"
    have "p < length ys"
    proof (rule ccontr)
      assume "\<not> p < length ys"
      then have "(ys @ os) ! p \<in> set os" using p(1) R(7) by (auto simp: nth_append)
      then show False using p(2) os(3) by auto
    qed
    then show "map_of (move_mapping b) p \<noteq> None" using p R(12)[of p] by (auto simp: nth_append)
  qed (use R D in simp_all)
qed

section \<open>Rows that change places\<close>

text \<open>
  A step after which the rows at the positions \<open>P\<close> are the ones that were at \<open>g p\<close>, and the positions \<open>G\<close> at
  the end are gone.
\<close>

lemma row_record_step:
  assumes r: "row_record b xs ys" and zs: "length zs \<le> length ys" "distinct zs"
    and P: "P \<subseteq> {..<length zs}" "\<And>p. p \<in> P \<Longrightarrow> g p < length ys \<and> zs ! p = ys ! g p"
      "\<And>p. p < length zs \<Longrightarrow> p \<notin> P \<Longrightarrow> zs ! p = ys ! p"
    and w: "wf (deletions b')" "wf (insertions b')" "wf (modifications_new b')" "moves b' = []" "distinct (map fst (move_mapping b'))"
    and D: "idx (deletions b') = idx (deletions b) \<union> ((P \<union> {length zs..<length ys}) - idx (insertions b))"
    and I: "idx (insertions b') = (idx (insertions b) \<inter> {..<length zs}) \<union> P"
    and M: "\<And>p. map_of (move_mapping b') p = (if p \<in> P then old_number b (g p)
      else if p < length zs then map_of (move_mapping b) p else None)"
    and G: "\<And>p. p \<in> P \<Longrightarrow> g p \<in> P \<or> length zs \<le> g p"
  shows "row_record b' xs zs"
proof (rule row_recordI, unfold D I)
  note R = row_recordD[OF r]
  show "idx (insertions b) \<inter> {..<length zs} \<union> P \<subseteq> {..<length zs}" using P(1) by auto
  fix p
  assume "p < length zs" "p \<notin> idx (insertions b) \<inter> {..<length zs} \<union> P"
  then show "p < length xs \<and> p \<notin> idx (deletions b) \<union> (P \<union> {length zs..<length ys} - idx (insertions b)) \<and> zs ! p = xs ! p"
    using R(8)[of p] P(3)[of p] zs(1) by auto
next
  note R = row_recordD[OF r]
  fix p
  assume "p < length xs" "p \<notin> idx (deletions b) \<union> (P \<union> {length zs..<length ys} - idx (insertions b))"
  then show "p < length zs \<and> p \<notin> idx (insertions b) \<inter> {..<length zs} \<union> P"
    using R(9)[of p] by auto
next
  note R = row_recordD[OF r]
  fix n v
  assume m: "map_of (move_mapping b') n = Some v"
  show "n \<in> idx (insertions b) \<inter> {..<length zs} \<union> P \<and>
    v \<in> idx (deletions b) \<union> (P \<union> {length zs..<length ys} - idx (insertions b)) \<and> v < length xs \<and> zs ! n = xs ! v"
  proof (cases "n \<in> P")
    case True
    then have o: "old_number b (g n) = Some v" "g n < length ys" "zs ! n = ys ! g n" "g n \<in> P \<or> length zs \<le> g n"
      using m M P(2) G by simp_all
    then show ?thesis
      using True R(11)[of "g n" v] R(8)[of "g n"] by (auto simp: old_number_def split: if_splits)
  next
    case False
    then have "n < length zs" "map_of (move_mapping b) n = Some v" using m M by (simp_all split: if_splits)
    then show ?thesis using False R(11)[of n v] P(3)[of n] by simp
  qed
next
  note R = row_recordD[OF r]
  fix n
  assume n: "n \<in> idx (insertions b) \<inter> {..<length zs} \<union> P" "zs ! n \<in> set xs"
  show "map_of (move_mapping b') n \<noteq> None"
  proof (cases "n \<in> P")
    case True
    then have "ys ! g n \<in> set xs" using P(2) n(2) by simp
    then show ?thesis using True M R(12)[of "g n"] by (simp add: old_number_def)
  next
    case False
    then show ?thesis using n M R(12)[of n] P(3)[of n] by auto
  qed
qed (use w zs row_recordD(5)[OF r] in simp_all)

text \<open>A row is deleted and the last one takes its place.\<close>

definition move_last_over :: "nat \<Rightarrow> 'o list \<Rightarrow> 'o list" where
  "move_last_over r ys = butlast (ys[r := last ys])"

lemma move_last_over_simps:
  assumes "r < length ys"
  shows "length (move_last_over r ys) = length ys - 1"
    "\<And>p. p < length ys - 1 \<Longrightarrow> move_last_over r ys ! p = (if p = r then ys ! (length ys - 1) else ys ! p)"
    "distinct ys \<Longrightarrow> distinct (move_last_over r ys)"
    "distinct ys \<Longrightarrow> set (move_last_over r ys) = set ys - {ys ! r}"
proof -
  have ne: "ys \<noteq> []" using assms by auto
  show l: "length (move_last_over r ys) = length ys - 1" by (simp add: move_last_over_def)
  show n: "move_last_over r ys ! p = (if p = r then ys ! (length ys - 1) else ys ! p)" if "p < length ys - 1" for p
    using that ne by (simp add: move_last_over_def nth_butlast nth_list_update last_conv_nth)
  show "distinct (move_last_over r ys)" if d: "distinct ys"
    unfolding distinct_conv_nth l using n d by (auto simp: nth_eq_iff_index_eq)
  show "set (move_last_over r ys) = set ys - {ys ! r}" if d: "distinct ys"
  proof (intro equalityI subsetI)
    fix x assume "x \<in> set (move_last_over r ys)"
    then obtain p where p: "p < length ys - 1" "x = move_last_over r ys ! p" unfolding l[symmetric] by (metis in_set_conv_nth)
    then show "x \<in> set ys - {ys ! r}" using n[OF p(1)] d assms by (auto simp: nth_eq_iff_index_eq split: if_splits)
  next
    fix x assume "x \<in> set ys - {ys ! r}"
    then obtain q where q: "q < length ys" "x = ys ! q" "q \<noteq> r" by (metis DiffE in_set_conv_nth singletonI)
    show "x \<in> set (move_last_over r ys)"
    proof (cases "q = length ys - 1")
      case True
      then have "r < length ys - 1" using q assms by simp
      then show ?thesis using n[of r] q True l by (metis nth_mem)
    next
      case False
      then have "q < length ys - 1" using q by simp
      then show ?thesis using n[of q] q l by (metis nth_mem)
    qed
  qed
qed

lemma row_record_erase_last:
  assumes r: "row_record b xs ys" and ys: "ys \<noteq> []" "length ys < npos"
  shows "row_record (cb_move_over b (length ys - 1) (length ys - 1) True) xs (move_last_over (length ys - 1) ys)"
    (is "row_record ?b xs ?zs")
proof -
  note R = row_recordD[OF r]
  let ?l = "length ys - 1"
  have l: "?l < length ys" using ys by simp
  note Z = move_last_over_simps[OF l]
  have ne: "rank_outside (idx (insertions b)) ?l \<noteq> npos"
    using rank_outside_le[of "idx (insertions b)" ?l] ys by linarith
  have ri: "rank_outside {?l} ` (idx (insertions b) - {?l}) = idx (insertions b) - {?l}"
  proof -
    have "rank_outside {?l} q = q" if "q \<in> idx (insertions b) - {?l}" for q
      using that R(7) by (auto simp: rank_outside_singleton)
    then show ?thesis by simp
  qed
  have I: "idx (insertions ?b) = idx (insertions b) - {?l}" "wf (insertions ?b)"
    using R(2) ri by (simp_all add: cb_move_over_def Let_def split_def ix_members ix_ok)
  have D: "idx (deletions ?b) = idx (deletions b) \<union> ({?l} - idx (insertions b))" "wf (deletions ?b)"
    "modifications_new ?b = modifications_new b" "moves ?b = []" "move_mapping ?b = AList.delete ?l (move_mapping b)"
    using R(1,2,4) ne row_keeps_number(2)[OF r l]
    by (auto simp: cb_move_over_def Let_def split_def ix_members ix_ok)
  show ?thesis
  proof (rule row_record_step[OF r, where P = "{}" and g = id])
    show "idx (deletions ?b) = idx (deletions b) \<union> ({} \<union> {length ?zs..<length ys} - idx (insertions b))"
    proof -
      have "{length ?zs..<length ys} = {?l}" using l Z(1) by auto
      then show ?thesis using D(1) by simp
    qed
    have "{..<length ys} = insert ?l {..<?l}" using l by auto
    then show "idx (insertions ?b) = idx (insertions b) \<inter> {..<length ?zs} \<union> {}"
      unfolding I(1) Z(1) using R(7) by auto
    fix p
    show "map_of (move_mapping ?b) p = (if p \<in> {} then old_number b (id p)
      else if p < length ?zs then map_of (move_mapping b) p else None)"
    proof (cases "p < length ys")
      case True
      then show ?thesis unfolding D(5) Z(1) delete_conv' by (simp add: less_diff_conv) linarith
    next
      case False
      then show ?thesis unfolding D(5) Z(1) delete_conv' using no_key[OF r, of p] by simp
    qed
    show "p < length ?zs \<Longrightarrow> ?zs ! p = ys ! p" using Z(1,2) by simp
    show "distinct (map fst (move_mapping ?b))" unfolding D(5) using R(10) by (rule distinct_delete)
    show "distinct ?zs" using Z(3) R(6) .
    show "length ?zs \<le> length ys" using Z(1) by simp
  qed (use D I R(3) in simp_all)
qed

lemma cb_move_over_result:
  assumes r: "row_record b xs ys" and p: "p < length ys - 1"
  defines "l \<equiv> length ys - 1"
  defines "c \<equiv> cb_move_over b p l True"
  shows "idx (deletions c) = idx (deletions b) \<union> ({p, l} - idx (insertions b))" "wf (deletions c)"
    "idx (insertions c) = insert p (idx (insertions b) - {l})" "wf (insertions c)"
    "modifications_new c = modifications_new b" "moves c = moves b" "distinct (map fst (move_mapping c))"
    "map_of (move_mapping c) = (map_of (move_mapping b))(l := None, p := old_number b l)"
proof -
  note R = row_recordD[OF r]
  have pl: "p < length ys" "l < length ys" "p \<noteq> l" "p < l" using p by (simp_all add: l_def)
  define d i mm where "d = deletions b" and "i = insertions b" and "mm = move_mapping b"
  have w: "wf d" "wf i" and dm: "distinct (map fst mm)" using R by (simp_all add: d_def i_def mm_def)
  have li: "i \<noteq> [] \<and> last_second i = l + 1 \<longleftrightarrow> l \<in> idx i"
    using last_second_iff[OF w(2), of l] R(7) pl by (fastforce simp: i_def l_def)
  have kn: "map_of mm q = None" if "q < length ys" "q \<notin> idx i" for q
    using R(11)[of q] that by (cases "map_of mm q") (auto simp: i_def mm_def)
  have ul: "snd (add_shifted d (unshift i l)) = l" "idx (fst (add_shifted d (unshift i l))) = insert l (idx d)"
      "wf (fst (add_shifted d (unshift i l)))" if "l \<notin> idx i"
    using shifted_number[of l d i, OF _ _ w] agree_below[OF r pl(2)] that R(8)[OF pl(2)] by (auto simp: d_def i_def)
  define i1 where "i1 = (if l \<in> idx i then remove i l 1 else i)"
  define d1 where "d1 = (if l \<in> idx i then d else fst (add_shifted d (unshift i l)))"
  have e1: "wf i1" "idx i1 = idx i - {l}" "wf d1" "idx d1 = idx d \<union> ({l} - idx i)"
    using w ul by (auto simp: i1_def d1_def ix_ok ix_members)
  define i2 d2 where "i2 = (if p \<in> idx i then i1 else add i1 p)"
    and "d2 = (if p \<in> idx i then d1 else fst (add_shifted d1 (unshift i1 p)))"
  have up: "idx (fst (add_shifted d1 (unshift i1 p))) = insert p (idx d1)" "wf (fst (add_shifted d1 (unshift i1 p)))"
    if "p \<notin> idx i"
    using shifted_number[of p d1 i1, OF _ _ e1(3,1)] agree_below[OF r pl(1)] that R(8)[OF pl(1)] pl
    by (auto simp: e1 d_def i_def)
  have e2: "wf i2" "idx i2 = insert p (idx i - {l})" "wf d2" "idx d2 = idx d \<union> ({p, l} - idx i)"
    using e1 up pl by (auto simp: i2_def d2_def ix_ok ix_members)
  define mm2 where "mm2 = (case if l \<in> idx i then map_of mm l else None of
        Some v \<Rightarrow> AList.delete l (AList.update p v mm)
      | None \<Rightarrow> if l \<in> idx i then (if p \<in> idx i then AList.delete p mm else mm)
          else AList.update p l (if p \<in> idx i then AList.delete p mm else mm))"
  have c: "deletions c = d2" "insertions c = i2" "move_mapping c = mm2"
    "modifications_new c = modifications_new b" "moves c = moves b"
    using pl(3) ul(1) w
    by (auto simp: c_def cb_move_over_def Let_def split_def li[unfolded Suc_eq_plus1[symmetric]] i_def[symmetric]
        d_def[symmetric] mm_def[symmetric] mm2_def d2_def i2_def d1_def i1_def ix.has_iff split: option.splits)
  have "map_of mm2 = (map_of mm)(l := None, p := old_number b l)"
    using kn pl by (auto simp: mm2_def old_number_def i_def[symmetric] mm_def[symmetric] update_conv' delete_conv'
        fun_eq_iff split: option.splits)
  moreover have "distinct (map fst mm2)"
    using dm by (auto simp: mm2_def distinct_update distinct_delete split: option.splits)
  ultimately show "idx (deletions c) = idx (deletions b) \<union> ({p, l} - idx (insertions b))" "wf (deletions c)"
    "idx (insertions c) = insert p (idx (insertions b) - {l})" "wf (insertions c)"
    "modifications_new c = modifications_new b" "moves c = moves b" "distinct (map fst (move_mapping c))"
    "map_of (move_mapping c) = (map_of (move_mapping b))(l := None, p := old_number b l)"
    using e2 c by (simp_all add: d_def i_def mm_def)
qed

lemma row_record_move_over:
  assumes r: "row_record b xs ys" and p: "p < length ys" and n: "length ys < npos"
  shows "row_record (cb_move_over b p (length ys - 1) True) xs (move_last_over p ys)"
proof (cases "p = length ys - 1")
  case True
  have "ys \<noteq> []" using p by auto
  then show ?thesis unfolding True using row_record_erase_last[OF r] n by simp
next
  case False
  then have pl: "p < length ys - 1" using p by simp
  let ?l = "length ys - 1"
  note R = row_recordD[OF r] and Z = move_last_over_simps[OF p]
  note C = cb_move_over_result[OF r pl]
  have ends: "{..<length ys} = insert ?l {..<?l}" "{?l..<length ys} = {?l}" using p by auto
  show ?thesis
  proof (rule row_record_step[OF r, where P = "{p}" and g = "\<lambda>_. ?l"], unfold C Z(1))
    show "idx (deletions b) \<union> ({p, ?l} - idx (insertions b)) =
      idx (deletions b) \<union> ({p} \<union> {length ys - 1..<length ys} - idx (insertions b))" using ends by auto
    show "insert p (idx (insertions b) - {?l}) = idx (insertions b) \<inter> {..<length ys - 1} \<union> {p}"
      using R(7) unfolding ends(1) by auto
    fix q
    show "((map_of (move_mapping b))(?l := None, p := old_number b ?l)) q =
      (if q \<in> {p} then old_number b ?l else if q < length ys - 1 then map_of (move_mapping b) q else None)"
      using no_key[OF r, of q] pl by (auto split: if_splits)
    show "q < length ys - 1 \<Longrightarrow> q \<notin> {p} \<Longrightarrow> move_last_over p ys ! q = ys ! q" using Z(2) by simp
    show "q \<in> {p} \<Longrightarrow> ?l < length ys \<and> move_last_over p ys ! q = ys ! ?l" using Z(2)[OF pl] p by simp
    show "distinct (move_last_over p ys)" using Z(3) R(6) .
    show "{p} \<subseteq> {..<length ys - 1}" using pl by simp
    show "distinct (map fst (move_mapping (cb_move_over b p (length ys - 1) True)))" by (rule C(7))
  qed (use R C in simp_all)
qed

text \<open>Two rows are swapped.\<close>

definition swap_elems :: "nat \<Rightarrow> nat \<Rightarrow> 'o list \<Rightarrow> 'o list" where
  "swap_elems i j ys = ys[i := ys ! j, j := ys ! i]"

lemma swap_elems_simps:
  assumes "i < length ys" "j < length ys"
  shows "length (swap_elems i j ys) = length ys"
    "\<And>p. p < length ys \<Longrightarrow> swap_elems i j ys ! p = (if p = i then ys ! j else if p = j then ys ! i else ys ! p)"
    "distinct ys \<Longrightarrow> distinct (swap_elems i j ys)" "set (swap_elems i j ys) = set ys"
  using assms by (auto simp: swap_elems_def nth_list_update set_swap distinct_swap)

lemma swap_mark_result:
  assumes r: "row_record b xs ys" and p: "n1 < length ys"
    and c: "wf (deletions c)" "wf (insertions c)" "n1 \<in> idx (insertions c) \<longleftrightarrow> n1 \<in> idx (insertions b)"
      "n1 \<notin> idx (insertions b) \<longrightarrow> (\<forall>q < n1. q \<in> idx (deletions c) \<longleftrightarrow> q \<in> idx (insertions c))"
      "n1 \<in> idx (deletions c) \<longrightarrow> n1 \<in> idx (insertions b)"
  shows "idx (deletions (swap_mark c n1 n2)) = idx (deletions c) \<union> ({n1} - idx (insertions b))"
    "wf (deletions (swap_mark c n1 n2))" "wf (insertions (swap_mark c n1 n2))"
    "idx (insertions (swap_mark c n1 n2)) = insert n1 (idx (insertions c))"
    "move_mapping (swap_mark c n1 n2) = (if n1 \<in> idx (insertions b) then move_mapping c
      else AList.update n2 n1 (move_mapping c))"
    "modifications_new (swap_mark c n1 n2) = modifications_new c" "moves (swap_mark c n1 n2) = moves c"
proof -
  have u: "snd (add_shifted (deletions c) (unshift (insertions c) n1)) = n1"
    "idx (fst (add_shifted (deletions c) (unshift (insertions c) n1))) = insert n1 (idx (deletions c))"
    "wf (fst (add_shifted (deletions c) (unshift (insertions c) n1)))" if "n1 \<notin> idx (insertions b)"
    using shifted_number[of n1 "deletions c" "insertions c", OF _ _ c(1,2)] c(4,5) that by blast+
  show "idx (deletions (swap_mark c n1 n2)) = idx (deletions c) \<union> ({n1} - idx (insertions b))"
    "wf (deletions (swap_mark c n1 n2))" "wf (insertions (swap_mark c n1 n2))"
    "idx (insertions (swap_mark c n1 n2)) = insert n1 (idx (insertions c))"
    "move_mapping (swap_mark c n1 n2) = (if n1 \<in> idx (insertions b) then move_mapping c
      else AList.update n2 n1 (move_mapping c))"
    "modifications_new (swap_mark c n1 n2) = modifications_new c" "moves (swap_mark c n1 n2) = moves c"
    using u c(1-3) by (auto simp: swap_mark_def split_def Let_def ix.has_iff ix.ok_put ix.members_put)
qed

lemma swap_update_move_result:
  assumes r: "row_record c xs ys" and p: "n1 < length ys"
  shows "idx (deletions (swap_update_move c v n1 n2)) = idx (deletions c) \<union> ({n1} - idx (insertions c))"
    "wf (deletions (swap_update_move c v n1 n2))" "wf (insertions (swap_update_move c v n1 n2))"
    "idx (insertions (swap_update_move c v n1 n2)) = insert n1 (idx (insertions c))"
    "move_mapping (swap_update_move c v n1 n2) = (let mm = AList.update n1 v (AList.delete n2 (move_mapping c)) in
      if n1 \<in> idx (insertions c) then mm else AList.update n2 n1 mm)"
    "modifications_new (swap_update_move c v n1 n2) = modifications_new c" "moves (swap_update_move c v n1 n2) = moves c"
proof -
  note R = row_recordD[OF r]
  have u: "snd (add_shifted (deletions c) (unshift (insertions c) n1)) = n1"
    "idx (fst (add_shifted (deletions c) (unshift (insertions c) n1))) = insert n1 (idx (deletions c))"
    "wf (fst (add_shifted (deletions c) (unshift (insertions c) n1)))" if "n1 \<notin> idx (insertions c)"
    using shifted_number[of n1 "deletions c" "insertions c", OF _ _ R(1,2)] agree_below[OF r p that] R(8)[OF p that]
    by blast+
  show "idx (deletions (swap_update_move c v n1 n2)) = idx (deletions c) \<union> ({n1} - idx (insertions c))"
    "wf (deletions (swap_update_move c v n1 n2))" "wf (insertions (swap_update_move c v n1 n2))"
    "idx (insertions (swap_update_move c v n1 n2)) = insert n1 (idx (insertions c))"
    "move_mapping (swap_update_move c v n1 n2) = (let mm = AList.update n1 v (AList.delete n2 (move_mapping c)) in
      if n1 \<in> idx (insertions c) then mm else AList.update n2 n1 mm)"
    "modifications_new (swap_update_move c v n1 n2) = modifications_new c" "moves (swap_update_move c v n1 n2) = moves c"
    using u R(1,2)
    by (auto simp: swap_update_move_def split_def Let_def ix.has_iff ix.ok_put ix.members_put)
qed

lemma row_record_for_each_col: "row_record b xs ys \<Longrightarrow> row_record (for_each_col f b) xs ys"
  unfolding row_record_def for_each_col_simps .

lemma row_record_swap:
  assumes r: "row_record b xs ys" and p: "n1 < n2" "n2 < length ys"
  shows "row_record (cb_swap b n1 n2 True) xs (swap_elems n1 n2 ys)"
proof -
  define c where "c = for_each_col (\<lambda>col.
            let mod1 = contains col n1; mod2 = contains col n2 in
            if mod1 \<noteq> mod2 then
              if mod1 then add (remove col n1 1) n2 else add (remove col n2 1) n1
            else col) b"
  have rc: "row_record c xs ys" unfolding c_def by (rule row_record_for_each_col[OF r])
  note R = row_recordD[OF rc]
  have n1: "n1 < length ys" "n1 \<noteq> n2" using p by simp_all
  note Z = swap_elems_simps[OF n1(1) p(2)]
  define mm I where "mm = move_mapping c" and "I = idx (insertions c)"
  define s where "s = (case (map_of mm n1, map_of mm n2) of
          (Some v1, Some v2) \<Rightarrow> c\<lparr>move_mapping := AList.update n2 v1 (AList.update n1 v2 mm)\<rparr>
        | (Some v1, None) \<Rightarrow> swap_update_move c v1 n2 n1
        | (None, Some v2) \<Rightarrow> swap_update_move c v2 n1 n2
        | (None, None) \<Rightarrow> swap_mark (swap_mark c n2 n1) n1 n2)"
  have cs: "cb_swap b n1 n2 True = s"
  proof -
    have o: "(if n2 < n1 then (n2, n1) else (n1, n2)) = (n1, n2)" using p(1) by simp
    have t: "(\<not> True) = False" by simp
    show ?thesis unfolding s_def mm_def c_def cb_swap_def Let_def o prod.case t if_False by (rule refl)
  qed
  have kI: "n \<in> I" if "map_of mm n = Some v" for n v using R(11) that by (simp add: mm_def I_def)
  note U1 = swap_update_move_result[OF rc n1(1), folded mm_def I_def] and U2 = swap_update_move_result[OF rc p(2), folded mm_def I_def]
  note M2 = swap_mark_result[OF rc p(2) R(1,2) refl, of n1, folded mm_def I_def]
  have D2: "n2 \<in> idx (deletions c) \<longrightarrow> n2 \<in> I" using R(8)[OF p(2)] by (auto simp: I_def)
  have D1: "n1 \<in> idx (deletions c) \<longrightarrow> n1 \<in> I" using R(8)[OF n1(1)] by (auto simp: I_def)
  have B2: "n2 \<notin> I \<longrightarrow> (\<forall>q < n2. q \<in> idx (deletions c) \<longleftrightarrow> q \<in> idx (insertions c))"
    using agree_below[OF rc p(2)] by (simp add: I_def)
  note B2 = B2[unfolded I_def] and M2 = M2[unfolded I_def] and D2 = D2[unfolded I_def]
  note M2' = M2[OF B2 D2, folded I_def]
  have B1: "n1 \<notin> I \<longrightarrow> (\<forall>q < n1. q \<in> idx (deletions (swap_mark c n2 n1)) \<longleftrightarrow> q \<in> idx (insertions (swap_mark c n2 n1)))"
    using agree_below[OF rc n1(1)] p(1) unfolding M2'(1,4) by (auto simp: I_def)
  note M1 = swap_mark_result[OF rc n1(1), of "swap_mark c n2 n1" n2, folded mm_def I_def]
  have M1': "idx (deletions (swap_mark (swap_mark c n2 n1) n1 n2)) = idx (deletions c) \<union> ({n1, n2} - I)"
    "wf (deletions (swap_mark (swap_mark c n2 n1) n1 n2))" "wf (insertions (swap_mark (swap_mark c n2 n1) n1 n2))"
    "idx (insertions (swap_mark (swap_mark c n2 n1) n1 n2)) = insert n1 (insert n2 I)"
    "move_mapping (swap_mark (swap_mark c n2 n1) n1 n2) =
      (let m = (if n2 \<in> I then mm else AList.update n1 n2 mm) in if n1 \<in> I then m else AList.update n2 n1 m)"
    "modifications_new (swap_mark (swap_mark c n2 n1) n1 n2) = modifications_new c"
    "moves (swap_mark (swap_mark c n2 n1) n1 n2) = moves c"
    using M1[OF M2'(2,3) _ B1] M2' n1(2) D1 by (auto simp: I_def Let_def)
  have S: "idx (deletions s) = idx (deletions c) \<union> ({n1, n2} - I)" "wf (deletions s)" "wf (insertions s)"
    "idx (insertions s) = insert n1 (insert n2 I)" "modifications_new s = modifications_new c" "moves s = moves c"
    using M1' U1 U2 kI R(1,2) by (auto simp: s_def I_def[symmetric] split: option.splits)
  have mm: "map_of (move_mapping s) = (map_of mm)(n1 := old_number c n2, n2 := old_number c n1)"
    using kI n1(2) unfolding s_def
    by (auto simp: U1(5) U2(5) M1'(5) Let_def update_conv' delete_conv' old_number_def I_def[symmetric] mm_def[symmetric]
        fun_eq_iff split: option.splits)
  have dm: "distinct (map fst (move_mapping s))"
    using R(10) unfolding s_def
    by (auto simp: U1(5) U2(5) M1'(5) Let_def mm_def distinct_update distinct_delete split: option.splits)
  show ?thesis unfolding cs
  proof (rule row_record_step[OF rc, where P = "{n1, n2}" and g = "\<lambda>p. if p = n1 then n2 else n1"], unfold S Z(1) mm)
    show "idx (deletions c) \<union> ({n1, n2} - I) = idx (deletions c) \<union> ({n1, n2} \<union> {length ys..<length ys} - idx (insertions c))"
      by (simp add: I_def)
    show "insert n1 (insert n2 I) = idx (insertions c) \<inter> {..<length ys} \<union> {n1, n2}" using R(7) by (auto simp: I_def)
    fix q
    show "((map_of mm)(n1 := old_number c n2, n2 := old_number c n1)) q =
      (if q \<in> {n1, n2} then old_number c (if q = n1 then n2 else n1)
       else if q < length ys then map_of (move_mapping c) q else None)"
      using no_key[OF rc, of q] n1 by (auto simp: mm_def)
    show "q < length ys \<Longrightarrow> q \<notin> {n1, n2} \<Longrightarrow> swap_elems n1 n2 ys ! q = ys ! q" using Z(2) by simp
    show "q \<in> {n1, n2} \<Longrightarrow> (if q = n1 then n2 else n1) < length ys \<and> swap_elems n1 n2 ys ! q = ys ! (if q = n1 then n2 else n1)"
      using Z(2) n1 p(2) by auto
    show "distinct (swap_elems n1 n2 ys)" using Z(3) R(6) .
    show "{n1, n2} \<subseteq> {..<length ys}" using n1 p(2) by simp
  qed (use S dm R in auto)
qed

section \<open>Clearing, and changes of values\<close>

lemma row_record_clear:
  assumes r: "row_record b xs ys" and n: "length xs \<le> npos"
  shows "row_record (cb_clear b npos) xs []"
  using row_recordD(3,5)[OF r] n by (intro row_recordI) (simp_all add: cb_clear_def set_len_spec)

lemma row_record_modify: "row_record b xs ys \<Longrightarrow> row_record (cb_modify b p col) xs ys"
proof -
  assume r: "row_record b xs ys"
  have e: "deletions (cb_modify b p col) = deletions b" "insertions (cb_modify b p col) = insertions b"
    "modifications_new (cb_modify b p col) = modifications_new b" "moves (cb_modify b p col) = moves b"
    "move_mapping (cb_modify b p col) = move_mapping b"
    by (simp_all add: cb_modify_def Let_def)
  show "row_record (cb_modify b p col) xs ys" using r unfolding row_record_def e .
qed

end
