(* ===== verification/Row_Marks.thy ===== *)
theory Row_Marks
  imports Row_Records
begin

text \<open>
  Which rows of a table the record says were modified, in all and by column, and what a finished record
  says of a row of the old table.
\<close>

section \<open>Modified rows\<close>

text \<open>The positions of the objects of a set.\<close>

definition marks :: "'o list \<Rightarrow> 'o set \<Rightarrow> crv \<Rightarrow> bool" where
  "marks ys S m \<longleftrightarrow> wf m \<and> idx m = {p. p < length ys \<and> ys ! p \<in> S}"

text \<open>\<open>touched\<close> holds the objects modified so far, with the column.\<close>

definition row_marks :: "change_builder \<Rightarrow> 'o list \<Rightarrow> ('o \<times> size) set \<Rightarrow> bool" where
  "row_marks b ys touched \<longleftrightarrow> track_columns b \<and> marks ys (fst ` touched) (modifications b) \<and>
     (\<forall>c. marks ys {x. (x, c) \<in> touched} (if c < length (columns b) then columns b ! c else []))"

lemma marks_Nil [simp]: "marks ys S [] \<longleftrightarrow> set ys \<inter> S = {}"
  by (auto simp: marks_def in_set_conv_nth disjoint_iff)

lemma row_marks_for_each:
  assumes r: "row_marks b ys touched"
    and f: "\<And>S m. S \<subseteq> fst ` touched \<Longrightarrow> marks ys S m \<Longrightarrow> marks zs S (f m)"
    and z: "set zs \<inter> fst ` touched \<subseteq> set ys"
  shows "row_marks (for_each_col f b) zs touched"
proof -
  have t: "track_columns b" and m: "marks ys (fst ` touched) (modifications b)"
    and c: "\<And>c. marks ys {x. (x, c) \<in> touched} (if c < length (columns b) then columns b ! c else [])"
    using r by (simp_all add: row_marks_def)
  have "marks zs {x. (x, c) \<in> touched} (if c < length (columns b) then f (columns b ! c) else [])" for c
  proof -
    have s: "{x. (x, c) \<in> touched} \<subseteq> fst ` touched" by force
    show ?thesis
    proof (cases "c < length (columns b)")
      case True
      then show ?thesis using c[of c] f[OF s] by simp
    next
      case False
      then have "set ys \<inter> {x. (x, c) \<in> touched} = {}" using c[of c] by simp
      then have "set zs \<inter> {x. (x, c) \<in> touched} = {}" using z s by blast
      then show ?thesis using False by simp
    qed
  qed
  then show ?thesis using t m f[OF subset_refl m] by (simp add: row_marks_def cong: if_cong)
qed

lemma row_marks_cong:
  assumes "track_columns b' = track_columns b" "modifications b' = modifications b" "columns b' = columns b"
  shows "row_marks b' ys touched = row_marks b ys touched"
  using assms by (simp add: row_marks_def)

lemma row_marks_empty: "row_marks empty_builder xs {}"
  by (simp add: row_marks_def) (simp add: empty_builder_def)

lemma row_marks_append:
  assumes r: "row_marks b ys touched" and os: "os \<noteq> []" "set os \<inter> fst ` touched = {}"
  shows "row_marks (cb_insert b (length ys) (length os) t) (ys @ os) touched"
proof -
  let ?f = "\<lambda>col. shift_for_insert_at col (length ys) (length os)"
  have "row_marks (for_each_col ?f b) (ys @ os) touched"
  proof (rule row_marks_for_each[OF r])
    fix S m
    assume S: "S \<subseteq> fst ` touched" and m: "marks ys S m"
    have l: "0 < length os" using os(1) by simp
    have "idx m \<subseteq> {..<length ys}" "set os \<inter> S = {}" using m S os(2) by (auto simp: marks_def)
    then show "marks (ys @ os) S (?f m)"
      using m l nth_outside_prefix[of "idx m" "length ys" "length os"]
      by (auto simp: marks_def ix_ok ix_members nth_append disjoint_iff)
  qed (use os(2) in auto)
  then show ?thesis by (subst row_marks_cong[where b = "for_each_col ?f b"]) (simp_all add: cb_insert_def Let_def)
qed

lemma marks_nth: "marks ys S m \<Longrightarrow> p < length ys \<Longrightarrow> p \<in> idx m \<longleftrightarrow> ys ! p \<in> S"
  by (simp add: marks_def)

lemma marks_bound: "marks ys S m \<Longrightarrow> p \<in> idx m \<Longrightarrow> p < length ys"
  by (simp add: marks_def)

lemma marksI:
  "wf m \<Longrightarrow> (\<And>p. p \<in> idx m \<Longrightarrow> p < length ys) \<Longrightarrow> (\<And>p. p < length ys \<Longrightarrow> p \<in> idx m \<longleftrightarrow> ys ! p \<in> S) \<Longrightarrow> marks ys S m"
  by (auto simp: marks_def)

lemma marks_wf: "marks ys S m \<Longrightarrow> wf m"
  by (simp add: marks_def)

lemma row_marks_move_over:
  assumes r: "row_marks b ys touched" and p: "p < length ys" and d: "distinct ys"
  shows "row_marks (cb_move_over b p (length ys - 1) t) (move_last_over p ys) touched"
proof -
  let ?l = "length ys - 1"
  note Z = move_last_over_simps[OF p]
  have z: "set (move_last_over p ys) \<inter> fst ` touched \<subseteq> set ys" using Z(4)[OF d] by auto
  show ?thesis
  proof (cases "p = ?l")
    case True
    have "row_marks (for_each_col (\<lambda>col. remove col p 1) b) (move_last_over p ys) touched"
    proof (rule row_marks_for_each[OF r _ z])
      fix S m
      assume m: "marks ys S m"
      have i: "idx (remove m p 1) = idx m - {p}" "wf (remove m p 1)" using marks_wf[OF m] by (simp_all add: ix_members ix_ok)
      show "marks (move_last_over p ys) S (remove m p 1)"
      proof (rule marksI, unfold i Z(1))
        fix q
        show "q \<in> idx m - {p} \<Longrightarrow> q < length ys - 1" using marks_bound[OF m, of q] True by auto
        show "q < length ys - 1 \<Longrightarrow> q \<in> idx m - {p} \<longleftrightarrow> move_last_over p ys ! q \<in> S"
          using marks_nth[OF m, of q] Z(2)[of q] True by auto
      qed (rule i(2))
    qed
    then show ?thesis
      using True by (subst row_marks_cong[where b = "for_each_col (\<lambda>col. remove col p 1) b"])
        (simp_all add: cb_move_over_def Let_def split_def for_each_col_def)
  next
    case False
    then have pl: "p < ?l" "?l < length ys" using p by simp_all
    let ?f = "\<lambda>col. if contains col ?l then add (remove col ?l 1) p else remove col p 1"
    have "row_marks (for_each_col ?f b) (move_last_over p ys) touched"
    proof (rule row_marks_for_each[OF r _ z])
      fix S m
      assume m: "marks ys S m"
      have i: "idx (?f m) = (if ?l \<in> idx m then insert p (idx m - {?l}) else idx m - {p})" "wf (?f m)"
        using marks_wf[OF m] by (simp_all add: ix_members ix_ok)
      show "marks (move_last_over p ys) S (?f m)"
      proof (rule marksI, unfold i Z(1))
        fix q
        show "q \<in> (if ?l \<in> idx m then insert p (idx m - {?l}) else idx m - {p}) \<Longrightarrow> q < length ys - 1"
          using marks_bound[OF m, of q] pl by (cases "q = ?l") (auto split: if_splits)
        show "q < length ys - 1 \<Longrightarrow> q \<in> (if ?l \<in> idx m then insert p (idx m - {?l}) else idx m - {p}) \<longleftrightarrow>
            move_last_over p ys ! q \<in> S"
          using marks_nth[OF m, of q] marks_nth[OF m pl(2)] Z(2)[of q] pl by auto
      qed (rule i(2))
    qed
    then show ?thesis
      using False by (subst row_marks_cong[where b = "for_each_col ?f b"])
        (simp_all add: cb_move_over_def Let_def split_def)
  qed
qed

lemma row_marks_swap:
  assumes r: "row_marks b ys touched" and p: "n1 < n2" "n2 < length ys"
  shows "row_marks (cb_swap b n1 n2 t) (swap_elems n1 n2 ys) touched"
proof -
  let ?f = "\<lambda>col. let mod1 = contains col n1; mod2 = contains col n2 in
            if mod1 \<noteq> mod2 then
              if mod1 then add (remove col n1 1) n2 else add (remove col n2 1) n1
            else col"
  have n1: "n1 < length ys" "n1 \<noteq> n2" using p by simp_all
  note Z = swap_elems_simps[OF n1(1) p(2)]
  have "row_marks (for_each_col ?f b) (swap_elems n1 n2 ys) touched"
  proof (rule row_marks_for_each[OF r])
    fix S m
    assume m: "marks ys S m"
    note w = marks_wf[OF m]
    have i: "wf (?f m)" "\<And>q. q \<in> idx (?f m) \<longleftrightarrow> (if q = n1 then n2 \<in> idx m else if q = n2 then n1 \<in> idx m else q \<in> idx m)"
      using w n1(2) by (auto simp: Let_def ix_members ix_ok)
    show "marks (swap_elems n1 n2 ys) S (?f m)"
    proof (rule marksI, unfold i(2) Z(1))
      fix q
      show "(if q = n1 then n2 \<in> idx m else if q = n2 then n1 \<in> idx m else q \<in> idx m) \<Longrightarrow> q < length ys"
        using marks_bound[OF m] n1 p(2) by (auto split: if_splits)
      show "q < length ys \<Longrightarrow> (if q = n1 then n2 \<in> idx m else if q = n2 then n1 \<in> idx m else q \<in> idx m) \<longleftrightarrow>
          swap_elems n1 n2 ys ! q \<in> S"
        using marks_nth[OF m] Z(2)[of q] n1 p(2) by auto
    qed (rule i(1))
  qed (use Z(4) in auto)
  moreover have "track_columns (cb_swap b n1 n2 t) = track_columns (for_each_col ?f b)"
    "modifications (cb_swap b n1 n2 t) = modifications (for_each_col ?f b)"
    "columns (cb_swap b n1 n2 t) = columns (for_each_col ?f b)"
    using p(1) by (simp_all add: cb_swap_def split_def swap_update_move_def swap_mark_def Let_def split: option.splits)
  ultimately show ?thesis by (subst row_marks_cong[where b = "for_each_col ?f b"]) simp_all
qed

lemma row_marks_clear: "row_marks b ys touched \<Longrightarrow> row_marks (cb_clear b n) [] touched"
  by (simp add: row_marks_def cb_clear_def Let_def)

lemma marks_touch:
  assumes m: "marks ys S m" and p: "p < length ys" and d: "distinct ys"
  shows "marks ys (insert (ys ! p) S) (add m p)"
proof (rule marksI)
  show "wf (add m p)" using marks_wf[OF m] by (rule ix.ok_put)
  fix q
  have i: "q \<in> idx (add m p) \<longleftrightarrow> q = p \<or> q \<in> idx m" using marks_wf[OF m] by (simp add: ix_members)
  show "q \<in> idx (add m p) \<Longrightarrow> q < length ys" unfolding i using marks_bound[OF m] p by auto
  show "q \<in> idx (add m p) \<longleftrightarrow> ys ! q \<in> insert (ys ! p) S" if q: "q < length ys"
    unfolding i using marks_nth[OF m q] nth_eq_iff_index_eq[OF d q p] by simp
qed

lemma row_marks_modify:
  assumes r: "row_marks b ys touched" and p: "p < length ys" and d: "distinct ys" and c: "col \<noteq> npos"
  shows "row_marks (cb_modify b p col) ys (insert (ys ! p, col) touched)"
proof -
  have t: "track_columns b" and m: "marks ys (fst ` touched) (modifications b)"
    and cs: "\<And>c. marks ys {x. (x, c) \<in> touched} (if c < length (columns b) then columns b ! c else [])"
    using r by (simp_all add: row_marks_def)
  define cols where "cols = (if length (columns b) \<le> col then resize (col + 1) (columns b) else columns b)"
  have cols: "(if c < length cols then cols ! c else []) = (if c < length (columns b) then columns b ! c else [])" for c
    by (auto simp: cols_def resize_def nth_append)
  have cb: "modifications (cb_modify b p col) = add (modifications b) p" "track_columns (cb_modify b p col)"
    "columns (cb_modify b p col) = cols[col := add (cols ! col) p]"
    using t c by (simp_all add: cb_modify_def Let_def cols_def)
  have lc: "col < length cols" by (simp add: cols_def resize_def)
  have "marks ys {x. (x, c) \<in> insert (ys ! p, col) touched}
      (if c < length (cols[col := add (cols ! col) p]) then cols[col := add (cols ! col) p] ! c else [])" for c
  proof (cases "c = col")
    case True
    have "{x. (x, col) \<in> insert (ys ! p, col) touched} = insert (ys ! p) {x. (x, col) \<in> touched}" by auto
    then show ?thesis using True marks_touch[OF cs[of col, folded cols] p d] lc by simp
  next
    case False
    then have e: "{x. (x, c) \<in> insert (ys ! p, col) touched} = {x. (x, c) \<in> touched}"
      "cols[col := add (cols ! col) p] ! c = cols ! c" by auto
    show ?thesis unfolding e length_list_update by (rule cs[of c, folded cols])
  qed
  with marks_touch[OF m p d] show ?thesis
    unfolding row_marks_def cb(1,3) image_insert fst_conv using cb(2) by blast
qed

section \<open>The finished record\<close>

text \<open>
  \<open>parse_complete\<close> turns the map of moved rows into moves; a row that came back to its place is not
  recorded as moved.
\<close>

lemma parse_complete_fold:
  assumes "wf d" "wf i"
  shows "foldl (\<lambda>(del, ins, mv) (new, old).
            if new = old then (remove del old 1, remove ins new 1, mv)
            else (del, ins, mv @ [\<lparr>m_from = old, m_to = new\<rparr>])) (d, i, mv) mm = (d', i', mv') \<Longrightarrow>
    wf d' \<and> wf i' \<and> idx d' = idx d - {p. (p, p) \<in> set mm} \<and> idx i' = idx i - {p. (p, p) \<in> set mm} \<and>
    mv' = mv @ map (\<lambda>(new, old). \<lparr>m_from = old, m_to = new\<rparr>) (filter (\<lambda>(new, old). new \<noteq> old) mm)"
  using assms
proof (induction mm arbitrary: d i mv)
  case (Cons kv mm)
  obtain n v where kv: "kv = (n, v)" by (cases kv)
  show ?case
  proof (cases "n = v")
    case True
    note IH = Cons.IH[of "remove d v 1" "remove i n 1" mv]
    have "wf (remove d v 1)" "wf (remove i n 1)" "idx (remove d v 1) = idx d - {v}" "idx (remove i n 1) = idx i - {v}"
      using Cons.prems(2,3) True by (simp_all add: ix_ok ix_members)
    then show ?thesis using IH Cons.prems(1) True kv by auto
  next
    case False
    note IH = Cons.IH[of d i "mv @ [\<lparr>m_from = v, m_to = n\<rparr>]"]
    show ?thesis using IH Cons.prems False kv by auto
  qed
qed auto

text \<open>
  \<open>row_change b xs ys\<close>: the finished record tells of every row of the old table where it is now.
\<close>

definition row_change :: "'z change_set_scheme \<Rightarrow> 'o list \<Rightarrow> 'o list \<Rightarrow> bool" where
  "row_change b xs ys \<longleftrightarrow>
     wf (deletions b) \<and> wf (insertions b) \<and> sorted (map m_from (moves b)) \<and> idx (insertions b) \<subseteq> {..<length ys} \<and>
     (\<forall>p < length ys. p \<notin> idx (insertions b) \<longrightarrow> p < length xs \<and> p \<notin> idx (deletions b) \<and> ys ! p = xs ! p) \<and>
     (\<forall>p < length xs. p \<notin> idx (deletions b) \<longrightarrow> p < length ys \<and> p \<notin> idx (insertions b)) \<and>
     (\<forall>m. m \<in> set (moves b) \<longleftrightarrow> m_from m \<in> idx (deletions b) \<and> m_to m \<in> idx (insertions b) \<and>
        m_from m < length xs \<and> xs ! m_from m = ys ! m_to m)"

lemma row_change_parse_complete:
  assumes r: "row_record b xs ys"
  shows "row_change (cb_parse_complete b) xs ys" "move_mapping (cb_parse_complete b) = []"
    "row_marks b ys touched \<Longrightarrow> row_marks (cb_parse_complete b) ys touched"
proof -
  note R = row_recordD[OF r]
  obtain d i mv where f: "foldl (\<lambda>(del, ins, mv) (new, old).
            if new = old then (remove del old 1, remove ins new 1, mv)
            else (del, ins, mv @ [\<lparr>m_from = old, m_to = new\<rparr>]))
          (deletions b, insertions b, moves b) (move_mapping b) = (d, i, mv)" by (rule prod_cases3)
  note F = parse_complete_fold[OF R(1,2) f]
  have c: "deletions (cb_parse_complete b) = d" "insertions (cb_parse_complete b) = i"
    "moves (cb_parse_complete b) = sort_key m_from mv" "move_mapping (cb_parse_complete b) = []"
    "modifications (cb_parse_complete b) = modifications b" "columns (cb_parse_complete b) = columns b"
    "track_columns (cb_parse_complete b) = track_columns b"
    using f by (simp_all add: cb_parse_complete_def)
  have mm: "(n, v) \<in> set (move_mapping b) \<longleftrightarrow> map_of (move_mapping b) n = Some v" for n v using R(10) by simp
  have mvE: "mv = map (\<lambda>(new, old). \<lparr>m_from = old, m_to = new\<rparr>) (filter (\<lambda>(new, old). new \<noteq> old) (move_mapping b))"
    using F R(4) by simp
  have mv: "m \<in> set mv \<longleftrightarrow> map_of (move_mapping b) (m_to m) = Some (m_from m) \<and> m_from m \<noteq> m_to m" for m
  proof -
    have e: "m = \<lparr>m_from = v, m_to = n\<rparr> \<longleftrightarrow> n = m_to m \<and> v = m_from m" for n v by (cases m) auto
    have "m \<in> set mv \<longleftrightarrow> (\<exists>n v. (n, v) \<in> set (move_mapping b) \<and> n \<noteq> v \<and> m = \<lparr>m_from = v, m_to = n\<rparr>)"
      unfolding mvE by (auto simp: image_iff)
    then show ?thesis unfolding e mm by auto
  qed
  define K where "K = {p. map_of (move_mapping b) p = Some p}"
  have D: "idx d = idx (deletions b) - K" "idx i = idx (insertions b) - K" using F by (simp_all add: K_def mm)
  show "move_mapping (cb_parse_complete b) = []" by (rule c(4))
  show "row_marks b ys touched \<Longrightarrow> row_marks (cb_parse_complete b) ys touched"
    by (simp add: row_marks_cong[OF c(7,5,6)])
  show "row_change (cb_parse_complete b) xs ys"
    unfolding row_change_def c D
  proof (intro conjI allI impI)
    show "wf d" "wf i" using F by blast+
    show "sorted (map m_from (sort_key m_from mv))" by simp
    show "idx (insertions b) - K \<subseteq> {..<length ys}" using R(7) by auto
    fix p
    {
      assume p: "p < length ys" "p \<notin> idx (insertions b) - K"
      show "p < length xs" "p \<notin> idx (deletions b) - K" "ys ! p = xs ! p"
        using R(8)[OF p(1)] R(11)[of p p] p(2) by (auto simp: K_def)
    next
      assume p: "p < length xs" "p \<notin> idx (deletions b) - K"
      show "p < length ys" "p \<notin> idx (insertions b) - K"
        using R(9)[OF p(1)] R(11)[of p p] R(7) p(2) by (auto simp: K_def)
    }
  next
    fix m
    show "m \<in> set (sort_key m_from mv) \<longleftrightarrow> m_from m \<in> idx (deletions b) - K \<and>
      m_to m \<in> idx (insertions b) - K \<and> m_from m < length xs \<and> xs ! m_from m = ys ! m_to m" (is "?l \<longleftrightarrow> ?r")
    proof
      assume ?l
      then have m: "map_of (move_mapping b) (m_to m) = Some (m_from m)" "m_from m \<noteq> m_to m" by (simp_all add: mv)
      note e = R(11)[OF m(1)]
      have "m_from m \<notin> K"
      proof
        assume "m_from m \<in> K"
        then have k: "map_of (move_mapping b) (m_from m) = Some (m_from m)" by (simp add: K_def)
        then have "ys ! m_from m = ys ! m_to m" "m_from m < length ys" "m_to m < length ys" using R(11)[OF k] e R(7) by auto
        then show False using R(6) m(2) by (simp add: nth_eq_iff_index_eq)
      qed
      moreover have "m_to m \<notin> K" using m by (simp add: K_def)
      ultimately show ?r using e by simp
    next
      assume m: ?r
      then have y: "ys ! m_to m \<in> set xs" by (metis nth_mem)
      then obtain v where v: "map_of (move_mapping b) (m_to m) = Some v" using R(12)[of "m_to m"] m by blast
      then have "v < length xs" "xs ! v = xs ! m_from m" using R(11)[OF v] m by simp_all
      then have "v = m_from m" using nth_eq_iff_index_eq[OF R(5), of v "m_from m"] m by simp
      then show ?l using v m by (auto simp: mv K_def)
    qed
  qed
qed

end
