(* ===== verification/Transact_World.thy ===== *)
theory Transact_World
  imports Transact_Observer Row_Marks Change_Edits
begin

text \<open>
  What a transaction log does to the tables and link lists it is about, and what it means that the
  observer follows it.  Objects and the slots of lists have an identity; rows are the positions of objects.
\<close>

section \<open>The tables\<close>

record ('o, 'e) world =
  w_rows :: "size \<Rightarrow> 'o list"
  w_list :: "'o \<Rightarrow> size \<Rightarrow> 'e list"
  w_flags :: "'o \<Rightarrow> size \<Rightarrow> bool list"
  w_used :: "'o set"
  w_table :: "size option"
  w_chosen :: "('o \<times> size) option"
  w_touched :: "('o \<times> size) set"

definition set_rows :: "size \<Rightarrow> 'o list \<Rightarrow> ('o, 'e) world \<Rightarrow> ('o, 'e) world" where
  "set_rows t ys w = w\<lparr>w_rows := (w_rows w)(t := ys)\<rparr>"

definition touch :: "'o \<Rightarrow> size \<Rightarrow> ('o, 'e) world \<Rightarrow> ('o, 'e) world" where
  "touch x col w = w\<lparr>w_touched := insert (x, col) (w_touched w)\<rparr>"

text \<open>The cell an instruction writes.\<close>

fun written_cell :: "instruction \<Rightarrow> (size \<times> size) option" where
  "written_cell (Set_Cell Plain_Set col row _) = Some (col, row)"
| "written_cell (Add_Int col row _) = Some (col, row)"
| "written_cell (Nullify_Link col row _) = Some (col, row)"
| "written_cell (Insert_Substring col row _ _) = Some (col, row)"
| "written_cell (Erase_Substring col row _ _) = Some (col, row)"
| "written_cell _ = None"

text \<open>Instructions that change no row that others have seen, and none of the positions.\<close>

fun quiet :: "instruction \<Rightarrow> bool" where
  "quiet (Set_Cell (Unique_Set _) _ _ _) = True"
| "quiet (Set_Cell Default_Set _ _ _) = True"
| "quiet Optimize_Table = True"
| "quiet (Add_Search_Index _) = True"
| "quiet (Remove_Search_Index _) = True"
| "quiet (Set_Link_Type _ _) = True"
| "quiet (Select_Descriptor _) = True"
| "quiet _ = False"

text \<open>What an instruction does to the slots of the selected list; \<open>z\<close> is the slot an insertion creates.\<close>

fun list_edits :: "instruction \<Rightarrow> 'e \<Rightarrow> 'e list \<Rightarrow> 'e edit list" where
  "list_edits (Link_List_Set k _ _) z ys = [Modify_At k npos]"
| "list_edits (Link_List_Insert k _ _) z ys = [Insert_Run k [z]]"
| "list_edits (Link_List_Move f t) z ys = [Move_Elem f t]"
| "list_edits (Link_List_Swap i j) z ys = [Modify_At i npos, Modify_At j npos]"
| "list_edits (Link_List_Erase k _) z ys = [Erase_At k]"
| "list_edits (Link_List_Nullify k _) z ys = [Erase_At k]"
| "list_edits (Link_List_Clear n) z ys = (if n = length ys then [Clear_All] else [])"
| "list_edits _ z ys = []"

fun edits_ok :: "'e edit list \<Rightarrow> 'e list \<Rightarrow> bool" where
  "edits_ok [] ys \<longleftrightarrow> True"
| "edits_ok (e # es) ys \<longleftrightarrow> edit_ok e ys \<and> length ys < npos \<and> edits_ok es (apply_edit e ys)"

definition set_list :: "'o \<Rightarrow> size \<Rightarrow> 'e edit list \<Rightarrow> ('o, 'e) world \<Rightarrow> ('o, 'e) world" where
  "set_list x c es w = w\<lparr>w_list := (w_list w)(x := (w_list w x)(c := foldl (\<lambda>ys e. apply_edit e ys) (w_list w x c) es)),
     w_flags := (w_flags w)(x := (w_flags w x)(c := foldl (\<lambda>fs e. edit_flags e fs) (w_flags w x c) es))\<rparr>"

text \<open>
  When a row is deleted, the loop over the watched lists is only right if at most one watched list is
  concerned; \<open>watched\<close> holds the watched lists by object and column.
\<close>

definition one_at_stake :: "('o \<times> size) set \<Rightarrow> 'o \<Rightarrow> 'o \<Rightarrow> bool" where
  "one_at_stake watched gone moved \<longleftrightarrow>
     (\<forall>a \<in> watched. \<forall>b \<in> watched. a \<noteq> b \<longrightarrow> fst a = gone \<longrightarrow> fst b \<noteq> gone \<and> fst b \<noteq> moved)"

inductive world_step :: "('o \<times> size) set \<Rightarrow> ('o, 'e) world \<Rightarrow> instruction \<Rightarrow> ('o, 'e) world \<Rightarrow> bool"
  for watched :: "('o \<times> size) set" where
  select: "world_step watched w (Select_Table t []) (w\<lparr>w_table := Some t\<rparr>)"
| writes: "written_cell i = Some (col, row) \<Longrightarrow> w_table w = Some t \<Longrightarrow> row < length (w_rows w t) \<Longrightarrow> col \<noteq> npos \<Longrightarrow>
    world_step watched w i (touch (w_rows w t ! row) col w)"
| quiet: "quiet i \<Longrightarrow> world_step watched w i w"
| append: "w_table w = Some t \<Longrightarrow> os \<noteq> [] \<Longrightarrow> distinct os \<Longrightarrow> set os \<inter> w_used w = {} \<Longrightarrow>
    i = Insert_Empty_Rows (length (w_rows w t)) (length os) prior unordered \<or>
    length os = 1 \<and> i = Add_Row_With_Key (length (w_rows w t)) prior key_col key \<Longrightarrow>
    world_step watched w i ((set_rows t (w_rows w t @ os) w)\<lparr>w_used := w_used w \<union> set os\<rparr>)"
| erase: "w_table w = Some t \<Longrightarrow> row < length (w_rows w t) \<Longrightarrow> length (w_rows w t) < npos \<Longrightarrow>
    one_at_stake watched (w_rows w t ! row) (last (w_rows w t)) \<Longrightarrow>
    world_step watched w (Erase_Rows row 1 (length (w_rows w t)) True) (set_rows t (move_last_over row (w_rows w t)) w)"
| swap: "w_table w = Some t \<Longrightarrow> r1 < r2 \<Longrightarrow> r2 < length (w_rows w t) \<Longrightarrow>
    world_step watched w (Swap_Rows r1 r2) (set_rows t (swap_elems r1 r2 (w_rows w t)) w)"
| clear: "w_table w = Some t \<Longrightarrow> world_step watched w (Clear_Table n) (set_rows t [] w)"
| select_list: "w_table w = Some t \<Longrightarrow> row < length (w_rows w t) \<Longrightarrow> col \<noteq> npos \<Longrightarrow> x = w_rows w t ! row \<Longrightarrow>
    world_step watched w (Select_Link_List col row target) ((touch x col w)\<lparr>w_chosen := Some (x, col)\<rparr>)"
| edit: "w_chosen w = Some (x, c) \<Longrightarrow> list_edits i z (w_list w x c) \<noteq> [] \<Longrightarrow>
    edits_ok (list_edits i z (w_list w x c)) (w_list w x c) \<Longrightarrow>
    world_step watched w i (set_list x c (list_edits i z (w_list w x c)) w)"

text \<open>A whole log.\<close>

inductive logged :: "('o \<times> size) set \<Rightarrow> ('o, 'e) world \<Rightarrow> instruction list \<Rightarrow> ('o, 'e) world \<Rightarrow> bool"
  for watched :: "('o \<times> size) set" and w0 :: "('o, 'e) world" where
  none: "logged watched w0 [] w0"
| more: "logged watched w0 is w \<Longrightarrow> world_step watched w i w' \<Longrightarrow> logged watched w0 (is @ [i]) w'"

text \<open>A consistent start: every object is in one row of one table, and nothing is modified yet.\<close>

definition world_ok :: "('o, 'e) world \<Rightarrow> bool" where
  "world_ok w \<longleftrightarrow> (\<forall>t. distinct (w_rows w t) \<and> set (w_rows w t) \<subseteq> w_used w) \<and>
     (\<forall>t u. t \<noteq> u \<longrightarrow> set (w_rows w t) \<inter> set (w_rows w u) = {}) \<and> fst ` w_touched w \<subseteq> w_used w"

definition starts :: "('o, 'e) world \<Rightarrow> bool" where
  "starts w \<longleftrightarrow> world_ok w \<and> w_table w = None \<and> w_chosen w = None \<and> w_touched w = {} \<and>
     (\<forall>t. length (w_rows w t) \<le> npos) \<and> (\<forall>x c. w_flags w x c = replicate (length (w_list w x c)) False)"

section \<open>The watched lists when a row is deleted\<close>

definition on_row :: "size \<Rightarrow> size \<Rightarrow> list_change_info \<Rightarrow> bool" where
  "on_row t row l \<longleftrightarrow> li_table l = t \<and> li_row l = row"

definition follow_erase :: "size \<Rightarrow> size \<Rightarrow> size \<Rightarrow> list_change_info \<Rightarrow> list_change_info" where
  "follow_erase t row last_row l = (if on_row t last_row l then l\<lparr>li_row := row\<rparr> else l)"

lemma drop_row_lists_idle:
  assumes "\<And>j. i \<le> j \<Longrightarrow> j < length ls \<Longrightarrow> \<not> on_row t row (ls ! j) \<and> \<not> on_row t last_row (ls ! j)"
  shows "drop_row_lists t row last_row i ls = ls"
  using assms
proof (induction t row last_row i ls rule: drop_row_lists.induct)
  case (1 t row last_row i ls)
  show ?case
  proof (cases "i < length ls")
    case True
    have n: "\<not> on_row t row (ls ! i)" "\<not> on_row t last_row (ls ! i)" using 1(5)[of i] True by simp_all
    show ?thesis
    proof (cases "li_table (ls ! i) = t")
      case True
      then show ?thesis
        using 1(4)[OF \<open>i < length ls\<close>] n 1(5) \<open>i < length ls\<close> by (subst drop_row_lists.simps) (simp add: on_row_def)
    next
      case False
      then show ?thesis
        using 1(1)[OF \<open>i < length ls\<close>] 1(5) \<open>i < length ls\<close> by (subst drop_row_lists.simps) simp
    qed
  next
    case False
    then show ?thesis by (subst drop_row_lists.simps) simp
  qed
qed

text \<open>With one list concerned at most, the loop drops the list of the deleted row and follows the moved one.\<close>

lemma drop_row_lists_spec:
  assumes "\<And>j k. i \<le> j \<Longrightarrow> j < length ls \<Longrightarrow> i \<le> k \<Longrightarrow> k < length ls \<Longrightarrow> j \<noteq> k \<Longrightarrow> on_row t row (ls ! j) \<Longrightarrow>
    \<not> on_row t row (ls ! k) \<and> \<not> on_row t last_row (ls ! k)" and "i \<le> length ls"
  shows "mset (drop_row_lists t row last_row i ls) = mset (take i ls) +
    mset (map (follow_erase t row last_row) (filter (\<lambda>l. \<not> on_row t row l) (drop i ls)))"
  using assms
proof (induction t row last_row i ls rule: drop_row_lists.induct)
  case (1 t row last_row i ls)
  show ?case
  proof (cases "i < length ls")
    case lt: True
    have dr: "drop i ls = ls ! i # drop (Suc i) ls" using lt by (rule Cons_nth_drop_Suc[symmetric])
    have tk: "take (Suc i) ls = take i ls @ [ls ! i]" using lt by (rule take_Suc_conv_app_nth)
    have safe: "\<And>j k. Suc i \<le> j \<Longrightarrow> j < length ls \<Longrightarrow> Suc i \<le> k \<Longrightarrow> k < length ls \<Longrightarrow> j \<noteq> k \<Longrightarrow>
      on_row t row (ls ! j) \<Longrightarrow> \<not> on_row t row (ls ! k) \<and> \<not> on_row t last_row (ls ! k)"
      using 1(5) Suc_leD by blast
    show ?thesis
    proof (cases "li_table (ls ! i) = t")
      case False
      then have "drop_row_lists t row last_row i ls = drop_row_lists t row last_row (Suc i) ls"
        using lt by (subst drop_row_lists.simps) simp
      then show ?thesis using 1(1)[OF lt False safe] False lt by (simp add: dr tk on_row_def follow_erase_def)
    next
      case tb: True
      show ?thesis
      proof (cases "li_row (ls ! i) = row")
        case True
        then have g: "on_row t row (ls ! i)" using tb by (simp add: on_row_def)
        have idle: "\<not> on_row t row (ls ! k)" "\<not> on_row t last_row (ls ! k)" if "Suc i \<le> k" "k < length ls" for k
          using 1(5)[of i k] g lt that by simp_all
        have f: "filter (\<lambda>l. \<not> on_row t row l) (drop i ls) = drop (Suc i) ls"
          "map (follow_erase t row last_row) (drop (Suc i) ls) = drop (Suc i) ls"
          using idle g unfolding dr by (auto simp: filter_id_conv in_set_conv_nth follow_erase_def intro!: nth_equalityI)
        let ?ls = "if i + 1 < length ls then ls[i := last ls] else ls"
        have m: "mset (butlast ?ls) = mset (take i ls) + mset (drop (Suc i) ls)"
        proof (cases "i + 1 < length ls")
          case True
          then have ne: "drop (Suc i) ls \<noteq> []" by simp
          have "ls[i := last ls] = take i ls @ last ls # drop (Suc i) ls" using lt by (rule upd_conv_take_nth_drop)
          then have "butlast ?ls = take i ls @ last ls # butlast (drop (Suc i) ls)"
            using True ne by (simp add: butlast_append)
          moreover have "last ls = last (drop (Suc i) ls)" using True by (simp add: last_drop)
          moreover have "mset (drop (Suc i) ls) = add_mset (last (drop (Suc i) ls)) (mset (butlast (drop (Suc i) ls)))"
            using append_butlast_last_id[OF ne] by (metis mset.simps(1) mset.simps(2) mset_append union_commute add_mset_add_single)
          ultimately show ?thesis by simp
        next
          case False
          then have "length ls = Suc i" using lt by simp
          then show ?thesis by (simp add: butlast_conv_take)
        qed
        have "drop_row_lists t row last_row i ls = drop_row_lists t row last_row (Suc i) (butlast ?ls)"
          using lt tb True by (subst drop_row_lists.simps) simp
        also have "\<dots> = butlast ?ls"
        proof (rule drop_row_lists_idle)
          fix j
          assume j: "Suc i \<le> j" "j < length (butlast ?ls)"
          then have "j < length ls" "butlast ?ls ! j = ls ! j" by (simp_all add: nth_butlast split: if_splits)
          then show "\<not> on_row t row (butlast ?ls ! j) \<and> \<not> on_row t last_row (butlast ?ls ! j)" using idle j(1) by simp
        qed
        finally show ?thesis using m f by simp
      next
        case nr: False
        show ?thesis
        proof (cases "li_row (ls ! i) = last_row")
          case True
          let ?ls = "ls[i := (ls ! i)\<lparr>li_row := row\<rparr>]"
          have safe': "\<And>j k. Suc i \<le> j \<Longrightarrow> j < length ?ls \<Longrightarrow> Suc i \<le> k \<Longrightarrow> k < length ?ls \<Longrightarrow> j \<noteq> k \<Longrightarrow>
            on_row t row (?ls ! j) \<Longrightarrow> \<not> on_row t row (?ls ! k) \<and> \<not> on_row t last_row (?ls ! k)"
            using safe by simp
          have "drop_row_lists t row last_row i ls = drop_row_lists t row last_row (Suc i) ?ls"
            using lt tb nr True by (subst drop_row_lists.simps) simp
          moreover have "take (Suc i) ?ls = take i ls @ [(ls ! i)\<lparr>li_row := row\<rparr>]" using lt by (simp add: take_Suc_conv_app_nth)
          ultimately show ?thesis
            using 1(3)[OF lt _ nr True safe'] tb nr True lt by (simp add: dr on_row_def follow_erase_def)
        next
          case False
          then have "drop_row_lists t row last_row i ls = drop_row_lists t row last_row (Suc i) ls"
            using lt tb nr by (subst drop_row_lists.simps) simp
          then show ?thesis using 1(4)[OF lt _ nr False safe] tb nr False lt by (simp add: dr tk on_row_def follow_erase_def)
        qed
      qed
    qed
  next
    case False
    then show ?thesis using 1(6) by (subst drop_row_lists.simps) simp
  qed
qed

end
