(* ===== verification/Transact_Tracking.thy ===== *)
theory Transact_Tracking
  imports Transact_World
begin

text \<open>
  The observer follows the log: a simulation between the steps of the tables and the handlers of the
  instructions.
\<close>

section \<open>What is asked for\<close>

definition all_wanted :: "change_info \<Rightarrow> size \<Rightarrow> bool" where
  "all_wanted info t \<longleftrightarrow> ci_track_all info \<or> flag_set (ci_modifications_needed info) t"

definition moves_wanted :: "change_info \<Rightarrow> size \<Rightarrow> bool" where
  "moves_wanted info t \<longleftrightarrow> ci_track_all info \<or> flag_set (ci_moves_needed info) t"

definition builder_at :: "change_info \<Rightarrow> size \<Rightarrow> change_builder" where
  "builder_at info t = (if t < length (ci_tables info) then ci_tables info ! t else empty_builder)"

definition same_request :: "change_info \<Rightarrow> change_info \<Rightarrow> bool" where
  "same_request info info' \<longleftrightarrow> ci_track_all info' = ci_track_all info \<and>
     ci_modifications_needed info' = ci_modifications_needed info \<and> ci_moves_needed info' = ci_moves_needed info \<and>
     ci_column_indices info' = ci_column_indices info \<and> ci_table_indices info' = ci_table_indices info"

lemma same_request_wanted:
  "same_request info info' \<Longrightarrow> all_wanted info' = all_wanted info"
  "same_request info info' \<Longrightarrow> moves_wanted info' = moves_wanted info"
  by (simp_all add: same_request_def all_wanted_def moves_wanted_def fun_eq_iff)

section \<open>The tables\<close>

definition table_follows :: "change_builder \<Rightarrow> 'o list \<Rightarrow> 'o list \<Rightarrow> ('o \<times> size) set \<Rightarrow> bool" where
  "table_follows b xs ys touched \<longleftrightarrow> row_record b xs ys \<and> row_marks b ys touched"

definition tables_follow :: "change_info \<Rightarrow> ('o, 'e) world \<Rightarrow> ('o, 'e) world \<Rightarrow> log_state \<Rightarrow> bool" where
  "tables_follow info w0 w s \<longleftrightarrow> same_request info (lg_info s) \<and> lg_top_level s \<and>
     (w_table w = None \<longrightarrow> lg_active_table s = None) \<and>
     (\<forall>t. w_table w = Some t \<longrightarrow> lg_table s = t \<and>
        lg_active_table s = (if all_wanted info t then Some (Table_Builder t) else None) \<and>
        (all_wanted info t \<longrightarrow> t < length (ci_tables (lg_info s)) \<and> lg_need_moves s = moves_wanted info t)) \<and>
     (\<forall>t. all_wanted info t \<longrightarrow> moves_wanted info t \<longrightarrow>
        table_follows (builder_at (lg_info s) t) (w_rows w0 t) (w_rows w t) (w_touched w))"

lemma table_follows_other:
  "x \<notin> set ys \<Longrightarrow> table_follows b xs ys (insert (x, c) touched) = table_follows b xs ys touched"
proof -
  assume x: "x \<notin> set ys"
  have m: "marks ys (insert x S) m = marks ys S m" for S m
    using x by (auto simp: marks_def set_conv_nth intro!: arg_cong2[of _ _ _ _ "(\<and>)"] Collect_cong)
  have "marks ys {y. (y, k) \<in> insert (x, c) touched} m = marks ys {y. (y, k) \<in> touched} m" for k m
  proof (cases "k = c")
    case True
    then have "{y. (y, k) \<in> insert (x, c) touched} = insert x {y. (y, k) \<in> touched}" by auto
    then show ?thesis using m by simp
  next
    case False
    then have "{y. (y, k) \<in> insert (x, c) touched} = {y. (y, k) \<in> touched}" by auto
    then show ?thesis by simp
  qed
  then show ?thesis unfolding table_follows_def row_marks_def image_insert fst_conv m by simp
qed

text \<open>A handler that edits the selected table.\<close>

lemma edit_table_following:
  assumes "tables_follow info w0 w s" "w_table w = Some t"
  shows "edit_table f s = (if all_wanted info t
    then s\<lparr>lg_info := (lg_info s)\<lparr>ci_tables := (ci_tables (lg_info s))[t := f (ci_tables (lg_info s) ! t)]\<rparr>\<rparr> else s)"
  using assms by (simp add: tables_follow_def edit_table_def)

lemma tables_follow_edit:
  assumes f: "tables_follow info w0 w s" and t: "w_table w = Some t" "w_table w' = Some t"
    and u: "\<And>u. u \<noteq> t \<Longrightarrow> w_rows w' u = w_rows w u"
    and o: "\<And>u b xs. u \<noteq> t \<Longrightarrow> table_follows b xs (w_rows w u) (w_touched w) \<Longrightarrow>
      table_follows b xs (w_rows w u) (w_touched w')"
    and e: "\<And>b. moves_wanted info t \<Longrightarrow> table_follows b (w_rows w0 t) (w_rows w t) (w_touched w) \<Longrightarrow>
      table_follows (g b) (w_rows w0 t) (w_rows w' t) (w_touched w')"
  shows "tables_follow info w0 w' (edit_table g s)"
proof -
  have b: "builder_at (lg_info (edit_table g s)) u =
      (if u = t \<and> all_wanted info t then g (builder_at (lg_info s) t) else builder_at (lg_info s) u)" for u
    unfolding edit_table_following[OF f t(1)] using f t(1)
    by (auto simp: builder_at_def tables_follow_def)
  have "table_follows (builder_at (lg_info (edit_table g s)) v) (w_rows w0 v) (w_rows w' v) (w_touched w')"
    if "all_wanted info v" "moves_wanted info v" for v
    unfolding b using f that u o[of v] e by (cases "v = t") (simp_all add: tables_follow_def)
  moreover have "same_request info (lg_info (edit_table g s))" "lg_top_level (edit_table g s)"
    "lg_table (edit_table g s) = t" "lg_active_table (edit_table g s) = lg_active_table s"
    "lg_need_moves (edit_table g s) = lg_need_moves s"
    "length (ci_tables (lg_info (edit_table g s))) = length (ci_tables (lg_info s))"
    unfolding edit_table_following[OF f t(1)] using f t(1) by (auto simp: tables_follow_def same_request_def)
  ultimately show ?thesis using f t by (simp add: tables_follow_def)
qed

lemma edit_lists_simps [simp]:
  "ci_tables (lg_info (edit_lists f s)) = ci_tables (lg_info s)" "lg_top_level (edit_lists f s) = lg_top_level s"
  "ci_lists (lg_info (edit_lists f s)) = f (ci_lists (lg_info s))" "lg_builders (edit_lists f s) = lg_builders s"
  "lg_active_list (edit_lists f s) = lg_active_list s" "lg_table (edit_lists f s) = lg_table s"
  by (simp_all add: edit_lists_def)

lemma tables_follow_edit_lists [simp]: "tables_follow info w0 w (edit_lists f s) = tables_follow info w0 w s"
  by (simp add: tables_follow_def edit_lists_def same_request_def builder_at_def)

lemma tables_follow_edit_list [simp]:
  "tables_follow info w0 w (edit_active_list f s) = tables_follow info w0 w s"
  by (cases "lg_active_list s") (simp_all add: tables_follow_def edit_active_list_def edit_list_def)

lemma tables_follow_active [simp]:
  "tables_follow info w0 w (s\<lparr>lg_active_list := a\<rparr>) = tables_follow info w0 w s"
  "tables_follow info w0 w (s\<lparr>lg_active_descriptor := d\<rparr>) = tables_follow info w0 w s"
  by (simp_all add: tables_follow_def)

lemma edit_table_lists:
  assumes "tables_follow info w0 w s" "w_table w = Some t"
  shows "ci_lists (lg_info (edit_table f s)) = ci_lists (lg_info s)" "lg_builders (edit_table f s) = lg_builders s"
    "lg_active_list (edit_table f s) = lg_active_list s" "lg_table (edit_table f s) = t" "lg_top_level (edit_table f s)"
  using edit_table_following[OF assms, of f] assms by (auto simp: tables_follow_def)

lemma tables_follow_select:
  assumes f: "tables_follow info w0 w s"
  shows "tables_follow info w0 (w\<lparr>w_table := Some t\<rparr>) (obs_select_table t [] s)"
    "ci_lists (lg_info (obs_select_table t [] s)) = ci_lists (lg_info s)"
    "lg_builders (obs_select_table t [] s) = lg_builders s"
    "lg_active_list (obs_select_table t [] s) = lg_active_list s"
proof -
  have i: "same_request info (lg_info s)" using f by (simp add: tables_follow_def)
  have w: "all_wanted info t = (ci_track_all (lg_info s) \<or> flag_set (ci_modifications_needed (lg_info s)) t)"
    "moves_wanted info t = (ci_track_all (lg_info s) \<or> flag_set (ci_moves_needed (lg_info s)) t)"
    using i by (simp_all add: same_request_def all_wanted_def moves_wanted_def)
  show "ci_lists (lg_info (obs_select_table t [] s)) = ci_lists (lg_info s)"
    "lg_builders (obs_select_table t [] s) = lg_builders s"
    "lg_active_list (obs_select_table t [] s) = lg_active_list s"
    by (simp_all add: obs_select_table_def Let_def)
  show "tables_follow info w0 (w\<lparr>w_table := Some t\<rparr>) (obs_select_table t [] s)"
  proof (cases "all_wanted info t")
    case True
    have b: "builder_at (lg_info (obs_select_table t [] s)) u = builder_at (lg_info s) u" for u
      using True[unfolded w] by (auto simp: obs_select_table_def Let_def builder_at_def nth_append)
    then show ?thesis
      using True f i w unfolding tables_follow_def b
      by (auto simp: obs_select_table_def Let_def same_request_def)
  next
    case False
    then show ?thesis
      using f i w by (auto simp: tables_follow_def obs_select_table_def Let_def)
  qed
qed

section \<open>The lists\<close>

definition entry_ok :: "(nat \<Rightarrow> 'o \<times> size) \<Rightarrow> ('o, 'e) world \<Rightarrow> list_change_info \<Rightarrow> bool" where
  "entry_ok own w l \<longleftrightarrow> li_row l < length (w_rows w (li_table l)) \<and>
     own (li_changes l) = (w_rows w (li_table l) ! li_row l, li_col l)"

definition list_follows :: "('o, 'e) world \<Rightarrow> ('o, 'e) world \<Rightarrow> change_builder \<Rightarrow> 'o \<times> size \<Rightarrow> bool" where
  "list_follows w0 w b xc \<longleftrightarrow> (case xc of (x, c) \<Rightarrow> tracks b (w_list w0 x c) (w_list w x c) \<and>
     length (w_flags w x c) = length (w_list w x c) \<and> idx (modifications b) = flagged (w_flags w x c))"

text \<open>\<open>ps\<close> are the watched lists and \<open>own\<close> says which list each is.\<close>

definition lists_follow :: "nat set \<Rightarrow> (nat \<Rightarrow> 'o \<times> size) \<Rightarrow> ('o, 'e) world \<Rightarrow> ('o, 'e) world \<Rightarrow> log_state \<Rightarrow> bool" where
  "lists_follow ps own w0 w s \<longleftrightarrow>
     distinct (map li_changes (ci_lists (lg_info s))) \<and> inj_on own ps \<and>
     (\<forall>l \<in> set (ci_lists (lg_info s)). li_changes l \<in> ps \<and> entry_ok own w l) \<and>
     (\<forall>p \<in> ps. fst (own p) \<in> w_used w \<and>
        ((\<exists>l \<in> set (ci_lists (lg_info s)). li_changes l = p) \<or> (\<forall>t. fst (own p) \<notin> set (w_rows w t)))) \<and>
     (\<forall>p \<in> ps. list_follows w0 w (lg_builders s p) (own p)) \<and>
     (\<forall>p \<in> ps. w_chosen w = Some (own p) \<longleftrightarrow> lg_active_list s = Some p) \<and>
     (\<forall>p. lg_active_list s = Some p \<longrightarrow> p \<in> ps)"

lemma lists_followD:
  assumes "lists_follow ps own w0 w s"
  shows "distinct (map li_changes (ci_lists (lg_info s)))" "inj_on own ps"
    "\<And>l. l \<in> set (ci_lists (lg_info s)) \<Longrightarrow> li_changes l \<in> ps \<and> entry_ok own w l"
    "\<And>p. p \<in> ps \<Longrightarrow> fst (own p) \<in> w_used w"
    "\<And>p. p \<in> ps \<Longrightarrow> (\<exists>l \<in> set (ci_lists (lg_info s)). li_changes l = p) \<or> (\<forall>t. fst (own p) \<notin> set (w_rows w t))"
    "\<And>p. p \<in> ps \<Longrightarrow> list_follows w0 w (lg_builders s p) (own p)"
    "\<And>p. p \<in> ps \<Longrightarrow> w_chosen w = Some (own p) \<longleftrightarrow> lg_active_list s = Some p"
    "\<And>p. lg_active_list s = Some p \<Longrightarrow> p \<in> ps"
  using assms unfolding lists_follow_def by blast+

lemma lists_follow_step:
  assumes f: "lists_follow ps own w0 w s"
    and s: "lg_builders s' = lg_builders s" "lg_active_list s' = lg_active_list s"
      "mset (ci_lists (lg_info s')) = mset (map adj (filter keep (ci_lists (lg_info s))))"
    and a: "\<And>l. li_changes (adj l) = li_changes l"
    and k: "\<And>l. l \<in> set (ci_lists (lg_info s)) \<Longrightarrow> keep l \<Longrightarrow> entry_ok own w l \<Longrightarrow> entry_ok own w' (adj l)"
    and g: "\<And>l t. l \<in> set (ci_lists (lg_info s)) \<Longrightarrow> \<not> keep l \<Longrightarrow> entry_ok own w l \<Longrightarrow> fst (own (li_changes l)) \<notin> set (w_rows w' t)"
    and w: "w_list w' = w_list w" "w_flags w' = w_flags w" "w_chosen w' = w_chosen w" "w_used w \<subseteq> w_used w'"
      "\<And>t x. x \<in> w_used w \<Longrightarrow> x \<in> set (w_rows w' t) \<Longrightarrow> \<exists>u. x \<in> set (w_rows w u)"
  shows "lists_follow ps own w0 w' s'"
proof -
  let ?ls = "ci_lists (lg_info s)" and ?ls' = "ci_lists (lg_info s')"
  have same: "list_follows w0 w' b xc = list_follows w0 w b xc" for b xc by (simp add: list_follows_def w(1,2))
  have st: "set ?ls' = adj ` {l \<in> set ?ls. keep l}" using arg_cong[OF s(3), of set_mset] by simp
  have "mset (map li_changes ?ls') = mset (map li_changes (filter keep ?ls))"
    using arg_cong[OF s(3), of "image_mset li_changes"] a by (simp add: image_mset.compositionality comp_def)
  moreover have "distinct (map li_changes (filter keep ?ls))" using f by (simp add: lists_follow_def distinct_map_filter)
  ultimately have "distinct (map li_changes ?ls')" using mset_eq_imp_distinct_iff by blast
  moreover have "\<forall>l \<in> set ?ls'. li_changes l \<in> ps \<and> entry_ok own w' l"
  proof
    fix l' assume "l' \<in> set ?ls'"
    then obtain l where l: "l \<in> set ?ls" "keep l" "l' = adj l" unfolding st by blast
    then have "li_changes l \<in> ps" "entry_ok own w l" using f unfolding lists_follow_def by blast+
    then show "li_changes l' \<in> ps \<and> entry_ok own w' l'" using k l by (simp add: a)
  qed
  moreover have "fst (own p) \<in> w_used w' \<and> ((\<exists>l \<in> set ?ls'. li_changes l = p) \<or> (\<forall>t. fst (own p) \<notin> set (w_rows w' t)))"
    if p: "p \<in> ps" for p
  proof -
    have u: "fst (own p) \<in> w_used w"
      and "(\<exists>l \<in> set ?ls. li_changes l = p) \<or> (\<forall>t. fst (own p) \<notin> set (w_rows w t))"
      using f p unfolding lists_follow_def by blast+
    then consider l where "l \<in> set ?ls" "li_changes l = p" | "\<forall>t. fst (own p) \<notin> set (w_rows w t)" by blast
    then have "(\<exists>l \<in> set ?ls'. li_changes l = p) \<or> (\<forall>t. fst (own p) \<notin> set (w_rows w' t))"
    proof cases
      case 1
      then have e: "entry_ok own w l" using f unfolding lists_follow_def by blast
      show ?thesis
      proof (cases "keep l")
        case True
        then have "adj l \<in> set ?ls'" "li_changes (adj l) = p" using 1 a by (simp_all add: st)
        then show ?thesis by blast
      next
        case False
        then show ?thesis using g[OF 1(1) False e] 1(2) by simp
      qed
    next
      case 2
      then show ?thesis using w(5)[OF u] by blast
    qed
    then show ?thesis using u w(4) by blast
  qed
  moreover have "inj_on own ps" "\<forall>p \<in> ps. list_follows w0 w' (lg_builders s' p) (own p)"
    "\<forall>p \<in> ps. w_chosen w' = Some (own p) \<longleftrightarrow> lg_active_list s' = Some p" "\<forall>p. lg_active_list s' = Some p \<longrightarrow> p \<in> ps"
    using lists_followD[OF f] same unfolding s(1,2) w(3) by simp_all
  ultimately show ?thesis unfolding lists_follow_def by blast
qed

lemma lists_follow_same:
  assumes "lists_follow ps own w0 w s" "lg_builders s' = lg_builders s" "lg_active_list s' = lg_active_list s"
    "ci_lists (lg_info s') = ci_lists (lg_info s)" "w_rows w' = w_rows w" "w_list w' = w_list w" "w_flags w' = w_flags w"
    "w_chosen w' = w_chosen w" "w_used w' = w_used w"
  shows "lists_follow ps own w0 w' s'"
  using assms by (simp add: lists_follow_def entry_ok_def list_follows_def)

end
