(* ===== verification/Transact_Simulation.thy ===== *)
theory Transact_Simulation
  imports Transact_Tracking
begin

text \<open>Every step of the tables is followed by the observer.\<close>

section \<open>The tables stay consistent\<close>

lemma world_okD:
  assumes "world_ok w"
  shows "distinct (w_rows w t)" "set (w_rows w t) \<subseteq> w_used w"
    "t \<noteq> u \<Longrightarrow> x \<in> set (w_rows w t) \<Longrightarrow> x \<notin> set (w_rows w u)" "fst ` w_touched w \<subseteq> w_used w"
  using assms unfolding world_ok_def by blast+

lemma world_ok_rows:
  assumes ok: "world_ok w" and d: "distinct zs" and n: "set zs \<subseteq> set (w_rows w t) \<union> new" "new \<inter> w_used w = {}"
    and w: "w_rows w' = (w_rows w)(t := zs)" "w_used w \<union> set zs \<subseteq> w_used w'" "w_touched w' = w_touched w"
  shows "world_ok w'"
proof -
  have "set (w_rows w' u) \<inter> set (w_rows w' v) = {}" if "u \<noteq> v" for u v
  proof -
    have "x \<notin> set (w_rows w v)" if "x \<in> set zs" "v \<noteq> t" for x v
      using that n world_okD(2,3)[OF ok] by blast
    then show ?thesis using that world_okD(3)[OF ok] unfolding w(1) by (cases "u = t"; cases "v = t") auto
  qed
  moreover have "distinct (w_rows w' u)" "set (w_rows w' u) \<subseteq> w_used w'" for u
    using d w(2) world_okD(1,2)[OF ok, of u] unfolding w(1) by auto
  moreover have "fst ` w_touched w' \<subseteq> w_used w'" using world_okD(4)[OF ok] w(2,3) by auto
  ultimately show ?thesis unfolding world_ok_def by blast
qed

lemma world_ok_touch: "world_ok w \<Longrightarrow> x \<in> set (w_rows w t) \<Longrightarrow> world_ok (touch x c w)"
  using world_okD(2)[of w t] by (auto simp: world_ok_def touch_def)

lemma world_ok_cong:
  "world_ok w \<Longrightarrow> w_rows w' = w_rows w \<Longrightarrow> w_used w' = w_used w \<Longrightarrow> w_touched w' = w_touched w \<Longrightarrow> world_ok w'"
  by (simp add: world_ok_def)

lemma set_list_simps [simp]:
  "w_rows (set_list x c es w) = w_rows w" "w_used (set_list x c es w) = w_used w"
  "w_touched (set_list x c es w) = w_touched w" "w_table (set_list x c es w) = w_table w"
  "w_chosen (set_list x c es w) = w_chosen w"
  by (simp_all add: set_list_def)

lemma set_rows_simps [simp]:
  "w_rows (set_rows t ys w) = (w_rows w)(t := ys)" "w_used (set_rows t ys w) = w_used w"
  "w_touched (set_rows t ys w) = w_touched w" "w_table (set_rows t ys w) = w_table w"
  "w_chosen (set_rows t ys w) = w_chosen w" "w_list (set_rows t ys w) = w_list w" "w_flags (set_rows t ys w) = w_flags w"
  by (simp_all add: set_rows_def)

lemma touch_simps [simp]:
  "w_rows (touch x c w) = w_rows w" "w_used (touch x c w) = w_used w" "w_table (touch x c w) = w_table w"
  "w_touched (touch x c w) = insert (x, c) (w_touched w)"
  "w_chosen (touch x c w) = w_chosen w" "w_list (touch x c w) = w_list w" "w_flags (touch x c w) = w_flags w"
  by (simp_all add: touch_def)

lemma world_step_ok: "world_step watched w i w' \<Longrightarrow> world_ok w \<Longrightarrow> world_ok w'"
proof (induction rule: world_step.induct)
  case (append w t os i prior unordered key_col key)
  then show ?case
    using world_okD(1,2)[OF append.prems, of t]
    by (intro world_ok_rows[OF append.prems, where zs = "w_rows w t @ os" and t = t and new = "set os"]) auto
next
  case (erase w t row)
  then show ?case
    using world_okD(1,2)[OF erase.prems, of t] move_last_over_simps(3,4)[of row "w_rows w t"]
    by (intro world_ok_rows[OF erase.prems, where zs = "move_last_over row (w_rows w t)" and t = t and new = "{}"]) auto
next
  case (swap w t r1 r2)
  then show ?case
    using world_okD(1,2)[OF swap.prems, of t] swap_elems_simps(3,4)[of r1 "w_rows w t" r2]
    by (intro world_ok_rows[OF swap.prems, where zs = "swap_elems r1 r2 (w_rows w t)" and t = t and new = "{}"]) auto
next
  case (clear w t n)
  then show ?case
    by (intro world_ok_rows[OF clear.prems, where zs = "[]" and t = t and new = "{}"]) auto
next
  case (writes i col row w t)
  then show ?case using world_ok_touch[of w "w_rows w t ! row" t] by simp
next
  case (select_list w t row col x target)
  then have "world_ok (touch x col w)" using world_ok_touch[of w "w_rows w t ! row" t] by simp
  then show ?case by (rule world_ok_cong) simp_all
qed (auto elim: world_ok_cong)

section \<open>Steps of the rows\<close>

definition log_follows :: "change_info \<Rightarrow> nat set \<Rightarrow> (nat \<Rightarrow> 'o \<times> size) \<Rightarrow> ('o, 'e) world \<Rightarrow> ('o, 'e) world \<Rightarrow> log_state \<Rightarrow> bool" where
  "log_follows info ps own w0 w s \<longleftrightarrow> tables_follow info w0 w s \<and> lists_follow ps own w0 w s \<and> world_ok w \<and>
     (\<forall>t. set (w_rows w0 t) \<subseteq> w_used w) \<and> (\<forall>t. length (w_rows w0 t) \<le> npos)"

lemma log_followsD:
  assumes "log_follows info ps own w0 w s"
  shows "tables_follow info w0 w s" "lists_follow ps own w0 w s" "world_ok w" "\<And>t. set (w_rows w0 t) \<subseteq> w_used w"
    "\<And>t. length (w_rows w0 t) \<le> npos"
  using assms unfolding log_follows_def by blast+

lemma lg_table_selected: "tables_follow info w0 w s \<Longrightarrow> w_table w = Some t \<Longrightarrow> lg_table s = t"
  by (simp add: tables_follow_def)

lemma need_moves_selected:
  "tables_follow info w0 w s \<Longrightarrow> w_table w = Some t \<Longrightarrow> all_wanted info t \<Longrightarrow> lg_need_moves s = moves_wanted info t"
  by (simp add: tables_follow_def)

text \<open>A handler whose edit depends on \<open>m_need_move_info\<close>; it matters only for tables that are observed.\<close>

lemma edit_table_need_moves:
  assumes "tables_follow info w0 w s" "w_table w = Some t" "moves_wanted info t"
  shows "edit_table (\<lambda>b. f b (lg_need_moves s)) s = edit_table (\<lambda>b. f b True) s"
  using assms need_moves_selected[OF assms(1,2)] by (simp add: edit_table_following)

lemma tables_follow_rows:
  assumes f: "log_follows info ps own w0 w s" and t: "w_table w = Some t" "w_table w' = Some t"
    and w: "w_rows w' = (w_rows w)(t := zs)" "w_touched w' = w_touched w"
    and e: "\<And>b. table_follows b (w_rows w0 t) (w_rows w t) (w_touched w) \<Longrightarrow>
      table_follows (g b True) (w_rows w0 t) zs (w_touched w)"
  shows "tables_follow info w0 w' (edit_table (\<lambda>b. g b (lg_need_moves s)) s)"
proof (cases "moves_wanted info t")
  case True
  show ?thesis
    unfolding edit_table_need_moves[OF log_followsD(1)[OF f] t(1) True]
    by (rule tables_follow_edit[OF log_followsD(1)[OF f] t]) (use w e in auto)
next
  case False
  show ?thesis by (rule tables_follow_edit[OF log_followsD(1)[OF f] t]) (use w False in auto)
qed

lemma follow_append:
  assumes f: "log_follows info ps own w0 w s" and t: "w_table w = Some t"
    and os: "os \<noteq> []" "distinct os" "set os \<inter> w_used w = {}"
  shows "log_follows info ps own w0 ((set_rows t (w_rows w t @ os) w)\<lparr>w_used := w_used w \<union> set os\<rparr>)
    (obs_insert_empty_rows (length (w_rows w t)) (length os) s)"
proof -
  let ?n = "length (w_rows w t)" and ?w = "(set_rows t (w_rows w t @ os) w)\<lparr>w_used := w_used w \<union> set os\<rparr>"
  let ?s = "edit_table (\<lambda>b. cb_insert b ?n (length os) (lg_need_moves s)) s"
  note F = log_followsD[OF f] and E = edit_table_lists[OF log_followsD(1)[OF f] t, of "\<lambda>b. cb_insert b ?n (length os) (lg_need_moves s)"]
  let ?adj = "\<lambda>l. if li_table l = t \<and> ?n \<le> li_row l then l\<lparr>li_row := li_row l + length os\<rparr> else l"
  have o: "obs_insert_empty_rows ?n (length os) s = edit_lists (map ?adj) ?s"
    using E(4,5) by (simp add: obs_insert_empty_rows_def Let_def)
  have tf: "tables_follow info w0 ?w ?s"
  proof (rule tables_follow_rows[OF f t])
    fix b assume b: "table_follows b (w_rows w0 t) (w_rows w t) (w_touched w)"
    have "set os \<inter> (set (w_rows w t) \<union> set (w_rows w0 t)) = {}" "set os \<inter> fst ` w_touched w = {}"
      using os(3) F(4)[of t] world_okD(2)[OF F(3), of t] world_okD(4)[OF F(3)] by blast+
    then show "table_follows (cb_insert b ?n (length os) True) (w_rows w0 t) (w_rows w t @ os) (w_touched w)"
      using b row_record_append[OF _ os(1,2)] row_marks_append[OF _ os(1)] by (simp add: table_follows_def)
  qed (use t in simp_all)
  have lf: "lists_follow ps own w0 ?w (edit_lists (map ?adj) ?s)"
  proof (rule lists_follow_step[OF F(2), where adj = ?adj and keep = "\<lambda>_. True"])
    fix l assume "entry_ok own w l"
    then show "entry_ok own ?w (?adj l)" by (auto simp: entry_ok_def nth_append)
  next
    fix u x assume "x \<in> w_used w" "x \<in> set (w_rows ?w u)"
    then show "\<exists>u. x \<in> set (w_rows w u)" using os(3) by (auto split: if_splits)
  qed (auto simp: E)
  have "world_ok ?w"
    using world_okD(1,2)[OF F(3), of t] os by (intro world_ok_rows[OF F(3), where zs = "w_rows w t @ os" and t = t and new = "set os"]) auto
  then show ?thesis using tf lf F(4,5) unfolding o log_follows_def by auto
qed

lemma follow_erase_row:
  assumes f: "log_follows info ps own w0 w s" and t: "w_table w = Some t"
    and r: "row < length (w_rows w t)" "length (w_rows w t) < npos"
    and one: "one_at_stake (own ` ps) (w_rows w t ! row) (last (w_rows w t))"
  shows "log_follows info ps own w0 (set_rows t (move_last_over row (w_rows w t)) w)
    (obs_erase_rows row (length (w_rows w t)) True s)"
proof -
  let ?n = "length (w_rows w t)" and ?w = "set_rows t (move_last_over row (w_rows w t)) w"
  let ?l = "?n - 1"
  let ?s = "edit_table (\<lambda>b. cb_move_over b row ?l (lg_need_moves s)) s"
  note F = log_followsD[OF f] and E = edit_table_lists[OF log_followsD(1)[OF f] t, of "\<lambda>b. cb_move_over b row ?l (lg_need_moves s)"]
  note L = lists_followD[OF F(2)] and d = world_okD(1)[OF F(3), of t]
  note Z = move_last_over_simps[OF r(1)]
  let ?ls = "ci_lists (lg_info s)"
  have ls: "last (w_rows w t) = w_rows w t ! ?l" using r(1) by (intro last_conv_nth) auto
  have o: "obs_erase_rows row ?n True s = edit_lists (drop_row_lists t row ?l 0) ?s"
    using E(4,5) r(1) by (simp add: obs_erase_rows_def Let_def)
  have tf: "tables_follow info w0 ?w ?s"
  proof (rule tables_follow_rows[OF f t])
    fix b assume b: "table_follows b (w_rows w0 t) (w_rows w t) (w_touched w)"
    then show "table_follows (cb_move_over b row ?l True) (w_rows w0 t) (move_last_over row (w_rows w t)) (w_touched w)"
      using row_record_move_over[OF _ r] row_marks_move_over[OF _ r(1) d] by (simp add: table_follows_def)
  qed (use t in simp_all)
  have safe: "\<not> on_row t row (?ls ! k) \<and> \<not> on_row t ?l (?ls ! k)"
    if "j < length ?ls" "k < length ?ls" "j \<noteq> k" "on_row t row (?ls ! j)" for j k
  proof -
    let ?a = "?ls ! j" and ?b = "?ls ! k"
    have ab: "li_changes ?a \<in> ps" "li_changes ?b \<in> ps" "entry_ok own w ?a" "entry_ok own w ?b"
      using L(3)[of ?a] L(3)[of ?b] that by simp_all
    have "li_changes ?a \<noteq> li_changes ?b"
      using L(1) that nth_eq_iff_index_eq[OF L(1), of j k] by simp
    then have "own (li_changes ?a) \<noteq> own (li_changes ?b)" using L(2) ab by (simp add: inj_on_eq_iff)
    then have "fst (own (li_changes ?b)) \<noteq> w_rows w t ! row \<and> fst (own (li_changes ?b)) \<noteq> w_rows w t ! ?l"
      using one that(4) ab unfolding one_at_stake_def ls by (fastforce simp: entry_ok_def on_row_def)
    then show ?thesis using ab(4) by (auto simp: entry_ok_def on_row_def)
  qed
  have ms: "mset (drop_row_lists t row ?l 0 ?ls) =
    mset (map (follow_erase t row ?l) (filter (\<lambda>l. \<not> on_row t row l) ?ls))"
  proof -
    have "mset (drop_row_lists t row ?l 0 ?ls) = mset (take 0 ?ls) +
      mset (map (follow_erase t row ?l) (filter (\<lambda>l. \<not> on_row t row l) (drop 0 ?ls)))"
      by (rule drop_row_lists_spec[OF safe le0])
    then show ?thesis unfolding take_0 drop_0 mset.simps(1) add_0 .
  qed
  have lf: "lists_follow ps own w0 ?w (edit_lists (drop_row_lists t row ?l 0) ?s)"
  proof (rule lists_follow_step[OF F(2), where adj = "follow_erase t row ?l" and keep = "\<lambda>l. \<not> on_row t row l"])
    fix l assume l: "l \<in> set ?ls" "entry_ok own w l"
    show "entry_ok own ?w (follow_erase t row ?l l)" if k: "\<not> on_row t row l"
    proof (cases "li_table l = t")
      case True
      then have n: "li_row l \<noteq> row" "li_row l < ?n" "own (li_changes l) = (w_rows w t ! li_row l, li_col l)"
        using k l(2) by (auto simp: on_row_def entry_ok_def)
      show ?thesis
      proof (cases "li_row l = ?l")
        case True
        then have "row < ?l" using n r(1) by simp
        then show ?thesis using Z(1) Z(2)[of row] True \<open>li_table l = t\<close> n
          by (simp add: entry_ok_def follow_erase_def on_row_def)
      next
        case False
        then have "li_row l < ?l" using n(2) by simp
        then show ?thesis using Z(1) Z(2)[of "li_row l"] False \<open>li_table l = t\<close> n
          by (simp add: entry_ok_def follow_erase_def on_row_def)
      qed
    next
      case False
      then show ?thesis using l(2) by (simp add: entry_ok_def follow_erase_def on_row_def)
    qed
    show "fst (own (li_changes l)) \<notin> set (w_rows ?w u)" if k: "\<not> \<not> on_row t row l" for u
    proof -
      have x: "fst (own (li_changes l)) = w_rows w t ! row" using k l(2) by (auto simp: on_row_def entry_ok_def)
      show ?thesis
        using Z(4)[OF d] world_okD(3)[OF F(3), of t u "w_rows w t ! row"] r(1) unfolding x by (cases "u = t") auto
    qed
  next
    fix u x assume "x \<in> set (w_rows ?w u)"
    then show "\<exists>u. x \<in> set (w_rows w u)" using Z(4)[OF d] by (auto split: if_splits)
  qed (use E ms in \<open>simp_all add: follow_erase_def\<close>)
  have "world_ok ?w"
    using world_okD(1,2)[OF F(3), of t] Z(3,4)
    by (intro world_ok_rows[OF F(3), where zs = "move_last_over row (w_rows w t)" and t = t and new = "{}"]) auto
  then show ?thesis using tf lf F(4,5) unfolding o log_follows_def by auto
qed

lemma follow_swap:
  assumes f: "log_follows info ps own w0 w s" and t: "w_table w = Some t"
    and r: "r1 < r2" "r2 < length (w_rows w t)"
  shows "\<exists>s'. obs_swap_rows r1 r2 s = Inr s' \<and> log_follows info ps own w0 (set_rows t (swap_elems r1 r2 (w_rows w t)) w) s'"
proof -
  let ?w = "set_rows t (swap_elems r1 r2 (w_rows w t)) w"
  let ?s = "edit_table (\<lambda>b. cb_swap b r1 r2 (lg_need_moves s)) s"
  let ?adj = "\<lambda>l. if li_table l = t then if li_row l = r1 then l\<lparr>li_row := r2\<rparr>
    else if li_row l = r2 then l\<lparr>li_row := r1\<rparr> else l else l"
  note F = log_followsD[OF f] and E = edit_table_lists[OF log_followsD(1)[OF f] t, of "\<lambda>b. cb_swap b r1 r2 (lg_need_moves s)"]
  have r1: "r1 < length (w_rows w t)" using r by simp
  note Z = swap_elems_simps[OF r1 r(2)] and d = world_okD(1)[OF F(3), of t]
  have top: "lg_top_level s" using F(1) by (simp add: tables_follow_def)
  have o: "obs_swap_rows r1 r2 s = Inr (edit_lists (map ?adj) ?s)"
    using E(4) r(1) top by (simp add: obs_swap_rows_def Let_def)
  have tf: "tables_follow info w0 ?w ?s"
  proof (rule tables_follow_rows[OF f t])
    fix b assume b: "table_follows b (w_rows w0 t) (w_rows w t) (w_touched w)"
    then show "table_follows (cb_swap b r1 r2 True) (w_rows w0 t) (swap_elems r1 r2 (w_rows w t)) (w_touched w)"
      using row_record_swap[OF _ r] row_marks_swap[OF _ r] by (simp add: table_follows_def)
  qed (use t in simp_all)
  have lf: "lists_follow ps own w0 ?w (edit_lists (map ?adj) ?s)"
  proof (rule lists_follow_step[OF F(2), where adj = ?adj and keep = "\<lambda>_. True"])
    fix l assume l: "entry_ok own w l"
    then show "entry_ok own ?w (?adj l)"
      using Z(1) Z(2)[of "li_row l"] Z(2)[OF r1] Z(2)[OF r(2)] r by (auto simp: entry_ok_def)
  next
    fix u x assume "x \<in> set (w_rows ?w u)"
    then show "\<exists>u. x \<in> set (w_rows w u)" using Z(4) by (auto split: if_splits)
  qed (auto simp: E)
  have "world_ok ?w"
    using world_okD(2)[OF F(3), of t] d Z(3,4)
    by (intro world_ok_rows[OF F(3), where zs = "swap_elems r1 r2 (w_rows w t)" and t = t and new = "{}"]) auto
  then have "log_follows info ps own w0 ?w (edit_lists (map ?adj) ?s)" using tf lf F(4,5) unfolding log_follows_def by auto
  then show ?thesis using o by blast
qed

lemma follow_clear:
  assumes f: "log_follows info ps own w0 w s" and t: "w_table w = Some t"
  shows "log_follows info ps own w0 (set_rows t [] w) (obs_clear_table s)"
proof -
  let ?w = "set_rows t [] w" and ?s = "edit_table (\<lambda>b. cb_clear b npos) s"
  note F = log_followsD[OF f] and E = edit_table_lists[OF log_followsD(1)[OF f] t, of "\<lambda>b. cb_clear b npos"]
  have o: "obs_clear_table s = edit_lists (filter (\<lambda>l. li_table l \<noteq> t)) ?s"
    using E(4,5) by (simp add: obs_clear_table_def Let_def)
  have tf: "tables_follow info w0 ?w ?s"
  proof (rule tables_follow_rows[OF f t, where g = "\<lambda>b _. cb_clear b npos" and zs = "[]"])
    fix b assume b: "table_follows b (w_rows w0 t) (w_rows w t) (w_touched w)"
    then show "table_follows (cb_clear b npos) (w_rows w0 t) [] (w_touched w)"
      unfolding table_follows_def using row_record_clear[OF _ F(5)] row_marks_clear by blast
  qed (use t in simp_all)
  have lf: "lists_follow ps own w0 ?w (edit_lists (filter (\<lambda>l. li_table l \<noteq> t)) ?s)"
  proof (rule lists_follow_step[OF F(2), where adj = id and keep = "\<lambda>l. li_table l \<noteq> t"])
    fix l u assume l: "\<not> li_table l \<noteq> t" "entry_ok own w l"
    then have "fst (own (li_changes l)) \<in> set (w_rows w t)" by (auto simp: entry_ok_def)
    then show "fst (own (li_changes l)) \<notin> set (w_rows ?w u)" using world_okD(3)[OF F(3), of t u] by auto
  next
    fix l assume "li_table l \<noteq> t" "entry_ok own w l"
    then show "entry_ok own ?w (id l)" by (simp add: entry_ok_def)
  next
    fix u x assume "x \<in> set (w_rows ?w u)"
    then show "\<exists>u. x \<in> set (w_rows w u)" by (auto split: if_splits)
  qed (auto simp: E)
  have "world_ok ?w" by (intro world_ok_rows[OF F(3), where zs = "[]" and t = t and new = "{}"]) auto
  then show ?thesis using tf lf F(4,5) unfolding o log_follows_def by auto
qed

section \<open>Steps of the cells and lists\<close>

lemma follow_write:
  assumes f: "log_follows info ps own w0 w s" and t: "w_table w = Some t"
    and r: "row < length (w_rows w t)" "col \<noteq> npos"
  shows "log_follows info ps own w0 (touch (w_rows w t ! row) col w) (mark_dirty row col s)"
proof -
  let ?x = "w_rows w t ! row" and ?w = "touch (w_rows w t ! row) col w"
  note F = log_followsD[OF f] and E = edit_table_lists[OF log_followsD(1)[OF f] t, of "\<lambda>b. cb_modify b row col"]
  have x: "?x \<in> set (w_rows w t)" using r(1) by simp
  have tf: "tables_follow info w0 ?w (mark_dirty row col s)"
    unfolding mark_dirty_def
  proof (rule tables_follow_edit[OF F(1) t])
    fix u b xs assume u: "u \<noteq> t" "table_follows b xs (w_rows w u) (w_touched w)"
    have "?x \<notin> set (w_rows w u)" using world_okD(3)[OF F(3) not_sym[OF u(1)] x] .
    then show "table_follows b xs (w_rows w u) (w_touched ?w)" using u(2) by (simp add: table_follows_other)
  next
    fix b assume "table_follows b (w_rows w0 t) (w_rows w t) (w_touched w)"
    then show "table_follows (cb_modify b row col) (w_rows w0 t) (w_rows ?w t) (w_touched ?w)"
      unfolding table_follows_def touch_simps
      using row_record_modify row_marks_modify[OF _ r(1) world_okD(1)[OF F(3)] r(2)] by blast
  qed (use t in simp_all)
  have lf: "lists_follow ps own w0 ?w (mark_dirty row col s)"
    unfolding mark_dirty_def by (rule lists_follow_same[OF F(2)]) (simp_all add: E)
  show ?thesis using tf lf F(4,5) world_ok_touch[OF F(3) x] unfolding log_follows_def by simp
qed

lemma find_Some_mem: "List.find q xs = Some x \<Longrightarrow> x \<in> set xs \<and> q x"
  by (induction xs) (auto split: if_splits)

lemma follow_select_list:
  assumes f: "log_follows info ps own w0 w s" and t: "w_table w = Some t"
    and r: "row < length (w_rows w t)" "col \<noteq> npos"
  shows "log_follows info ps own w0 ((touch (w_rows w t ! row) col w)\<lparr>w_chosen := Some (w_rows w t ! row, col)\<rparr>)
    (obs_select_link_list col row s)"
proof -
  let ?x = "w_rows w t ! row"
  let ?w1 = "touch ?x col w" and ?s1 = "mark_dirty row col s"
  let ?w = "?w1\<lparr>w_chosen := Some (?x, col)\<rparr>"
  note f1 = follow_write[OF f t r]
  note F = log_followsD[OF f1] and L = lists_followD[OF log_followsD(2)[OF f1]]
  have t1: "w_table ?w1 = Some t" using t by simp
  have lt: "lg_table ?s1 = t" using F(1) t1 by (rule lg_table_selected)
  have o: "obs_select_link_list col row s = ?s1\<lparr>lg_active_list := find_list t col row ?s1\<rparr>"
    using lt by (simp add: obs_select_link_list_def Let_def)
  let ?ls = "ci_lists (lg_info ?s1)"
  let ?is = "\<lambda>l. li_table l = t \<and> li_row l = row \<and> li_col l = col"
  have owner: "own (li_changes l) = (?x, col) \<longleftrightarrow> ?is l" if l: "l \<in> set ?ls" for l
  proof
    assume o: "own (li_changes l) = (?x, col)"
    have e: "li_row l < length (w_rows w (li_table l))" "w_rows w (li_table l) ! li_row l = ?x" "li_col l = col"
      using L(3)[OF l] o by (auto simp: entry_ok_def)
    have "?x \<in> set (w_rows w (li_table l))" using e nth_mem by metis
    then have "li_table l = t" using world_okD(3)[OF log_followsD(3)[OF f], of t "li_table l" ?x] r(1) nth_mem by blast
    then show "?is l" using e r(1) world_okD(1)[OF log_followsD(3)[OF f], of t] by (simp add: nth_eq_iff_index_eq)
  next
    assume "?is l"
    then show "own (li_changes l) = (?x, col)" using L(3)[OF l] by (simp add: entry_ok_def)
  qed
  have found: "find_list t col row ?s1 = Some p \<longleftrightarrow> p \<in> ps \<and> own p = (?x, col)" for p
  proof
    assume "find_list t col row ?s1 = Some p"
    then obtain l where l: "List.find ?is (rev ?ls) = Some l" "li_changes l = p" by (auto simp: find_list_def)
    then have "l \<in> set ?ls" "?is l" using find_Some_mem[OF l(1)] by simp_all
    then show "p \<in> ps \<and> own p = (?x, col)" using owner l(2) L(3) by blast
  next
    assume p: "p \<in> ps \<and> own p = (?x, col)"
    have "?x \<in> set (w_rows ?w1 t)" using r(1) by simp
    then obtain l where l: "l \<in> set ?ls" "li_changes l = p" using L(5)[of p] p by force
    then have "?is l" using owner p by blast
    then have "List.find ?is (rev ?ls) \<noteq> None" using l(1) unfolding find_None_iff set_rev by blast
    then obtain l' where l': "List.find ?is (rev ?ls) = Some l'" by blast
    then have "l' \<in> set ?ls" "?is l'" using find_Some_mem[OF l'] by simp_all
    then have "own (li_changes l') = own p" "li_changes l' \<in> ps" using owner p L(3) by auto
    then have "li_changes l' = p" using inj_onD[OF L(2), of "li_changes l'" p] p by simp
    then show "find_list t col row ?s1 = Some p" using l' by (simp add: find_list_def)
  qed
  have "tables_follow info w0 ?w (?s1\<lparr>lg_active_list := find_list t col row ?s1\<rparr>)"
    using F(1) by (simp add: tables_follow_def)
  moreover have "lists_follow ps own w0 ?w (?s1\<lparr>lg_active_list := find_list t col row ?s1\<rparr>)"
    using F(2) found by (auto simp: lists_follow_def entry_ok_def list_follows_def)
  moreover have "world_ok ?w" using F(3) by (rule world_ok_cong) simp_all
  ultimately show ?thesis using F(4,5) unfolding o log_follows_def by simp
qed

fun record_all :: "change_builder \<Rightarrow> 'e list \<Rightarrow> 'e edit list \<Rightarrow> change_builder" where
  "record_all b ys [] = b"
| "record_all b ys (e # es) = record_all (record_edit b ys e) (apply_edit e ys) es"

lemma record_all_follows:
  assumes "tracks b xs ys" "edits_ok es ys" "length fs = length ys" "idx (modifications b) = flagged fs"
  shows "tracks (record_all b ys es) xs (foldl (\<lambda>ys e. apply_edit e ys) ys es) \<and>
    length (foldl (\<lambda>fs e. edit_flags e fs) fs es) = length (foldl (\<lambda>ys e. apply_edit e ys) ys es) \<and>
    idx (modifications (record_all b ys es)) = flagged (foldl (\<lambda>fs e. edit_flags e fs) fs es)"
  using assms
proof (induction es arbitrary: b ys fs)
  case (Cons e es)
  then have ok: "edit_ok e ys" "length ys < npos" "edits_ok es (apply_edit e ys)" by simp_all
  have d: "distinct (map m_to (moves b))" using tracksD(6)[OF Cons.prems(1)] by (simp add: moves_ok_def)
  show ?case
    using Cons.IH[OF tracks_edit[OF Cons.prems(1) ok(1,2)] ok(3) length_edit[OF ok(1) Cons.prems(3)]
        flags_edit[OF tracksD(4)[OF Cons.prems(1)] d Cons.prems(4) ok(1) Cons.prems(3)[symmetric]]] by simp
qed simp

lemma observe_list_edit:
  assumes "list_edits i z ys \<noteq> []"
  shows "observe i s = Inr (edit_active_list (\<lambda>b. record_all b ys (list_edits i z ys)) s)"
  using assms by (cases "lg_active_list s"; cases "(i, z, ys)" rule: list_edits.cases)
    (auto simp: edit_active_list_def edit_list_def split: if_splits)

lemma follow_list_edit:
  assumes f: "log_follows info ps own w0 w s" and c: "w_chosen w = Some (x, c)"
    and e: "edits_ok es (w_list w x c)"
  shows "log_follows info ps own w0 (set_list x c es w) (edit_active_list (\<lambda>b. record_all b (w_list w x c) es) s)"
proof -
  let ?w = "set_list x c es w" and ?s = "edit_active_list (\<lambda>b. record_all b (w_list w x c) es) s"
  note F = log_followsD[OF f] and L = lists_followD[OF log_followsD(2)[OF f]]
  have other: "w_list ?w y d = w_list w y d" "w_flags ?w y d = w_flags w y d" if "(y, d) \<noteq> (x, c)" for y d
    using that by (auto simp: set_list_def)
  have here: "w_list ?w x c = foldl (\<lambda>ys e. apply_edit e ys) (w_list w x c) es"
    "w_flags ?w x c = foldl (\<lambda>fs e. edit_flags e fs) (w_flags w x c) es" by (simp_all add: set_list_def)
  have b: "lg_builders ?s p = (if lg_active_list s = Some p then record_all (lg_builders s p) (w_list w x c) es else lg_builders s p)" for p
    by (cases "lg_active_list s") (auto simp: edit_active_list_def edit_list_def)
  have same: "lg_info ?s = lg_info s" "lg_active_list ?s = lg_active_list s"
    by (cases "lg_active_list s"; simp add: edit_active_list_def edit_list_def)+
  have lf: "list_follows w0 ?w (lg_builders ?s p) (own p)" if p: "p \<in> ps" for p
  proof (cases "own p = (x, c)")
    case True
    then have "lg_active_list s = Some p" using L(7)[OF p] c by simp
    then show ?thesis
      using L(6)[OF p] True e record_all_follows[of "lg_builders s p" "w_list w0 x c" "w_list w x c" es "w_flags w x c"]
      by (simp add: list_follows_def here b)
  next
    case False
    then have "lg_active_list s \<noteq> Some p" using L(7)[OF p] c by auto
    then show ?thesis using L(6)[OF p] False other[of "fst (own p)" "snd (own p)"] by (simp add: list_follows_def b split_def)
  qed
  have "lists_follow ps own w0 ?w ?s"
    using F(2) lf unfolding lists_follow_def same by (simp add: entry_ok_def)
  moreover have "tables_follow info w0 ?w ?s" using F(1) by simp (simp add: tables_follow_def)
  moreover have "world_ok ?w" using F(3) by (rule world_ok_cong) simp_all
  ultimately show ?thesis using F(4,5) unfolding log_follows_def by simp
qed

section \<open>The simulation\<close>

lemma observe_written: "written_cell i = Some (col, row) \<Longrightarrow> observe i s = Inr (mark_dirty row col s)"
  by (cases i rule: written_cell.cases) auto

lemma observe_quiet: "quiet i \<Longrightarrow> observe i s = Inr s \<or> (\<exists>n. observe i s = Inr (obs_select_descriptor n s))"
  by (cases i rule: quiet.cases) auto

lemma follow_quiet: "log_follows info ps own w0 w s \<Longrightarrow> log_follows info ps own w0 w (obs_select_descriptor n s)"
  by (simp add: log_follows_def obs_select_descriptor_def lists_follow_def)

theorem follow_step:
  assumes "world_step watched w i w'" "log_follows info ps own w0 w s" "watched = own ` ps"
  shows "\<exists>s'. observe i s = Inr s' \<and> log_follows info ps own w0 w' s'"
  using assms
proof (induction rule: world_step.induct)
  case (select w t)
  note F = log_followsD[OF select(1)] and S = tables_follow_select[OF log_followsD(1)[OF select(1)], of t]
  have "lists_follow ps own w0 (w\<lparr>w_table := Some t\<rparr>) (obs_select_table t [] s)"
    by (rule lists_follow_same[OF F(2)]) (simp_all add: S)
  moreover have "world_ok (w\<lparr>w_table := Some t\<rparr>)" using F(3) by (rule world_ok_cong) simp_all
  ultimately show ?case using S(1) F(4,5) by (simp add: log_follows_def)
next
  case (writes i col row w t)
  then show ?case using follow_write[of info ps own w0 w s t row col] by (simp add: observe_written)
next
  case (quiet i w)
  then show ?case using observe_quiet[of i s] follow_quiet by blast
next
  case (append w t os i prior unordered key_col key)
  have "observe i s = Inr (obs_insert_empty_rows (length (w_rows w t)) (length os) s)" using append.hyps(5) by auto
  then show ?case using follow_append[OF append.prems(1) append.hyps(1-4)] by blast
next
  case (erase w t row)
  then show ?case using follow_erase_row[of info ps own w0 w s t row] by simp
next
  case (swap w t r1 r2)
  then show ?case using follow_swap[of info ps own w0 w s t r1 r2] by simp
next
  case (clear w t n)
  then show ?case using follow_clear[of info ps own w0 w s t] by simp
next
  case (select_list w t row col x target)
  then show ?case using follow_select_list[of info ps own w0 w s t row col] by simp
next
  case (edit w x c i z)
  then show ?case using follow_list_edit[OF edit.prems(1) edit.hyps(1,3)] observe_list_edit[OF edit.hyps(2)] by blast
qed

lemma observe_all_snoc:
  "observe_all (is @ [i]) s = (case observe_all is s of Inl e \<Rightarrow> Inl e | Inr s \<Rightarrow> observe i s)"
  by (induction "is" arbitrary: s) (auto split: sum.splits)

lemma follow_log:
  assumes "logged watched w0 is w" "log_follows info ps own w0 w0 s0" "watched = own ` ps"
  shows "\<exists>s. observe_all is s0 = Inr s \<and> log_follows info ps own w0 w s"
  using assms
proof (induction rule: logged.induct)
  case (more "is" w i w')
  then obtain s where s: "observe_all is s0 = Inr s" "log_follows info ps own w0 w s" by blast
  show ?case using follow_step[OF more.hyps(2) s(2) more.prems(2)] s(1) by (simp add: observe_all_snoc)
qed simp

section \<open>The end of the log\<close>

lemma parse_complete_simps:
  "ci_tables (lg_info (parse_complete s)) = map cb_parse_complete (ci_tables (lg_info s))"
  "lg_builders (parse_complete s) p = (if p \<in> li_changes ` set (ci_lists (lg_info s)) then
     lg_builders (parse_complete s) p else lg_builders s p)"
proof -
  have "ci_tables (lg_info (foldl (\<lambda>s l. edit_list clean_up_stale_moves (li_changes l) s) s ls)) = ci_tables (lg_info s)" for s and ls :: "list_change_info list"
    by (induction ls arbitrary: s) (simp_all add: edit_list_def)
  then show "ci_tables (lg_info (parse_complete s)) = map cb_parse_complete (ci_tables (lg_info s))"
    by (simp add: parse_complete_def Let_def)
  have "p \<notin> li_changes ` set ls \<Longrightarrow>
      lg_builders (foldl (\<lambda>s l. edit_list clean_up_stale_moves (li_changes l) s) s ls) p = lg_builders s p" for s and ls :: "list_change_info list"
    by (induction ls arbitrary: s) (auto simp: edit_list_def)
  then show "lg_builders (parse_complete s) p = (if p \<in> li_changes ` set (ci_lists (lg_info s)) then
     lg_builders (parse_complete s) p else lg_builders s p)"
    by (simp add: parse_complete_def Let_def)
qed

lemma clean_up_modifications [simp]: "modifications (clean_up_stale_moves b) = modifications b"
  by (simp add: clean_up_stale_moves_def split_def Let_def)

lemma parse_complete_list:
  assumes "list_follows w0 w (lg_builders s p) xc"
  shows "list_follows w0 w (lg_builders (parse_complete s) p) xc"
proof -
  have "list_follows w0 w (lg_builders s p) xc \<Longrightarrow>
    list_follows w0 w (lg_builders (foldl (\<lambda>s l. edit_list clean_up_stale_moves (li_changes l) s) s ls) p) xc" for s and ls :: "list_change_info list"
  proof (induction ls arbitrary: s)
    case (Cons l ls)
    have "list_follows w0 w (lg_builders (edit_list clean_up_stale_moves (li_changes l) s) p) xc"
      using Cons.prems tracks_clean_up by (auto simp: edit_list_def list_follows_def split: prod.splits)
    then show ?case using Cons.IH by simp
  qed simp
  then show ?thesis using assms by (simp add: parse_complete_def Let_def)
qed

end
