(* ===== verification/KVO_Adapter.thy ===== *)
theory KVO_Adapter
  imports Transact_Observer
begin

text \<open>
  \<open>KVOAdapter\<close> (\<open>impl/transact_log_handler.cpp\<close>): what a binding that observes single rows is told before a
  transaction is advanced.  The columns of the tables and the sizes of subtables are realm-core's and come
  in as functions.
\<close>

section \<open>Observers\<close>

datatype change_kind = No_Change | Set_Change | Insert_Change | Remove_Change | Set_All_Change

record column_info =
  co_initial :: size
  co_kind :: change_kind
  co_indices :: crv

definition new_column_info :: column_info where
  "new_column_info = \<lparr>co_initial = npos, co_kind = No_Change, co_indices = []\<rparr>"

text \<open>The opaque data of the delegate is a number.\<close>

record observer_state =
  ob_table :: size
  ob_row :: size
  ob_info :: nat
  ob_changes :: "column_info list"

text \<open>
  \<open>KVOAdapter::ListInfo\<close>: the position of the observer, the builder, which is number \<open>i\<close> for the \<open>i\<close>-th
  list, the column and the size at the start.
\<close>

record kvo_list =
  kl_observer :: nat
  kl_col :: size
  kl_initial_size :: size

section \<open>Asking\<close>

definition observer_lists :: "(size \<Rightarrow> data_type list) \<Rightarrow> (size \<Rightarrow> size \<Rightarrow> size \<Rightarrow> size) \<Rightarrow> nat \<Rightarrow> observer_state \<Rightarrow> kvo_list list" where
  "observer_lists cols subtable_size k ob =
     concat (map (\<lambda>i. case cols (ob_table ob) ! i of
         Type_Link_List \<Rightarrow> [\<lparr>kl_observer = k, kl_col = i, kl_initial_size = npos\<rparr>]
       | Type_Table \<Rightarrow> [\<lparr>kl_observer = k, kl_col = i, kl_initial_size = subtable_size (ob_table ob) i (ob_row ob)\<rparr>]
       | _ \<Rightarrow> []) [0..<length (cols (ob_table ob))])"

definition no_request :: change_info where
  "no_request = \<lparr>ci_modifications_needed = [], ci_moves_needed = [], ci_lists = [], ci_tables = [],
     ci_column_indices = [], ci_table_indices = [], ci_track_all = False, ci_schema_changed = False\<rparr>"

definition make_adapter :: "(size \<Rightarrow> data_type list) \<Rightarrow> (size \<Rightarrow> size \<Rightarrow> size \<Rightarrow> size) \<Rightarrow> observer_state list \<Rightarrow>
    change_info \<times> kvo_list list" where
  "make_adapter cols subtable_size obs =
     (if obs = [] then (no_request, [])
      else
        let needed = remdups_adj (sort (map ob_table obs));
            lists = concat (map (\<lambda>k. observer_lists cols subtable_size k (obs ! k)) [0..<length obs]);
            flags = foldl (\<lambda>fs t. fs[t := True]) (replicate (Max (set needed) + 1) False) needed
        in (no_request\<lparr>ci_modifications_needed := flags, ci_moves_needed := flags,
              ci_lists := map (\<lambda>i. let l = lists ! i; ob = obs ! kl_observer l in
                \<lparr>li_table = ob_table ob, li_row = ob_row ob, li_col = kl_col l, li_changes = i\<rparr>) [0..<length lists]\<rparr>, lists))"

section \<open>Rows\<close>

definition new_table_ndx :: "change_info \<Rightarrow> size \<Rightarrow> size" where
  "new_table_ndx info ndx = (if ndx < length (ci_table_indices info) then ci_table_indices info ! ndx else ndx)"

text \<open>The new number of an observed row; \<open>None\<close> is a deleted one.\<close>

definition observed_row :: "change_builder \<Rightarrow> size \<Rightarrow> size option" where
  "observed_row table row =
     (let it = lower_bound (\<lambda>k. m_from (moves table ! k) < row) 0 (length (moves table)) in
      if it \<noteq> length (moves table) \<and> m_from (moves table ! it) = row then Some (m_to (moves table ! it))
      else if contains (deletions table) row then None
      else Some (shift (insertions table) (unshift (deletions table) row)))"

definition initial_column :: "change_info \<Rightarrow> size \<Rightarrow> size \<Rightarrow> size" where
  "initial_column info t i =
     (if length (ci_column_indices info) \<le> t \<or> ci_column_indices info ! t = [] then i
      else let ns = ci_column_indices info ! t in
        if length ns \<le> i then size_sub i (length ns) + last ns + 1 else ns ! i)"

definition told_columns :: "change_info \<Rightarrow> size \<Rightarrow> change_builder \<Rightarrow> size \<Rightarrow> column_info list \<Rightarrow> column_info list" where
  "told_columns info t table ndx changes =
     map (\<lambda>i. let change = (if i < length changes then changes ! i else new_column_info)\<lparr>co_initial := initial_column info t i\<rparr>
        in if co_initial change \<noteq> npos \<and> contains (columns table ! i) ndx then change\<lparr>co_kind := Set_Change\<rparr> else change)
       [0..<length (columns table)]"

definition observe_row :: "change_info \<Rightarrow> observer_state \<Rightarrow> observer_state \<times> bool" where
  "observe_row info ob =
     (let t = new_table_ndx info (ob_table ob) in
      if length (ci_tables info) \<le> t then (ob, False)
      else
        let table = ci_tables info ! t in
        case observed_row table (ob_row ob) of
          None \<Rightarrow> (ob, True)
        | Some ndx \<Rightarrow> (if contains (modifications table) ndx
            then ob\<lparr>ob_changes := told_columns info t table ndx (ob_changes ob)\<rparr> else ob, False))"

section \<open>Lists\<close>

text \<open>The lambda \<open>in_range\<close>; an iterator is a position in the ranges.\<close>

definition step_in_range :: "range list \<Rightarrow> nat \<Rightarrow> size \<Rightarrow> nat \<times> bool" where
  "step_in_range rs it i =
     (let it = (if it < length rs \<and> snd (rs ! it) \<le> i then it + 1 else it)
      in (it, it < length rs \<and> fst (rs ! it) \<le> i \<and> i < snd (rs ! it)))"

definition size_plus :: "size \<Rightarrow> int \<Rightarrow> size" where
  "size_plus i d = nat ((int i + d) mod 2 ^ 64)"

fun mark_shifted :: "range list \<Rightarrow> range list \<Rightarrow> size list \<Rightarrow> nat \<Rightarrow> nat \<Rightarrow> int \<Rightarrow> crv \<Rightarrow> crv" where
  "mark_shifted dels inss [] del_it ins_it sh indices = indices"
| "mark_shifted dels inss (i # is) del_it ins_it sh indices =
     (let (del_it, deleted) = step_in_range dels del_it i;
          (ins_it, inserted) = (if deleted then (ins_it, False) else step_in_range inss ins_it (size_plus i sh));
          sh = (if deleted then sh - 1 else if inserted then sh + 1 else sh)
      in mark_shifted dels inss is del_it ins_it sh (if sh \<noteq> 0 then add indices i else indices))"

definition mark_moved :: "change_builder \<Rightarrow> crv \<Rightarrow> crv" where
  "mark_moved b indices =
     (let dels = all_ranges (deletions b); inss = all_ranges (insertions b)
      in mark_shifted dels inss
        [min (fst (hd inss)) (fst (hd dels))..<max (last_second (insertions b)) (last_second (deletions b))] 0 0 0 indices)"

text \<open>What one list amounts to, for a builder that is not empty.\<close>

definition list_change :: "size \<Rightarrow> change_builder \<Rightarrow> column_info \<Rightarrow> column_info" where
  "list_change initial_size b ci =
     (let b = b\<lparr>modifications := removed (modifications b) (insertions b)\<rparr> in
      if moves b \<noteq> [] \<and> Index_Set.count (insertions b) 0 npos = length (moves b) \<and> Index_Set.count (deletions b) 0 npos = length (moves b)
      then ci\<lparr>co_kind := Set_Change, co_indices := mark_moved b (add_set (modifications b) (deletions b))\<rparr>
      else if (if insertions b = [] then 1 else 0) + (if modifications b = [] then 1 else 0) +
          (if deletions b = [] then 1 else 0 :: nat) < 2 then ci\<lparr>co_kind := Set_All_Change\<rparr>
      else if insertions b \<noteq> [] then ci\<lparr>co_kind := Insert_Change, co_indices := insertions b\<rparr>
      else if modifications b \<noteq> [] then ci\<lparr>co_kind := Set_Change, co_indices := modifications b\<rparr>
      else ci\<lparr>co_kind := Remove_Change, co_indices := (if initial_size < last_second (deletions b)
          then set_len (co_indices ci) initial_size else deletions b)\<rparr>)"

definition observe_list :: "(nat \<Rightarrow> change_builder) \<Rightarrow> observer_state list \<Rightarrow> nat \<Rightarrow> kvo_list \<Rightarrow> log_failure + observer_state list" where
  "observe_list builders obs i l =
     (let b = builders i; ob = obs ! kl_observer l; changes = ob_changes ob;
          put = (\<lambda>ci. obs[kl_observer l := ob\<lparr>ob_changes := changes[kl_col l := ci]\<rparr>]) in
      if cs_empty b then
        Inr (if kl_col l < length changes then put ((changes ! kl_col l)\<lparr>co_kind := No_Change\<rparr>) else obs)
      else if changes = [] then Inr obs
      else if length changes \<le> kl_col l then Inl Log_Assertion
      else Inr (put (list_change (kl_initial_size l) b (changes ! kl_col l))))"

fun observe_lists :: "(nat \<Rightarrow> change_builder) \<Rightarrow> observer_state list \<Rightarrow> nat \<Rightarrow> kvo_list list \<Rightarrow> log_failure + observer_state list" where
  "observe_lists builders obs i [] = Inr obs"
| "observe_lists builders obs i (l # ls) =
     (case observe_list builders obs i l of Inl e \<Rightarrow> Inl e | Inr obs \<Rightarrow> observe_lists builders obs (i + 1) ls)"

text \<open>
  \<open>before\<close>: what \<open>will_change\<close> is called with, the observers and the deleted ones; \<open>None\<close> when it is not
  called.
\<close>

definition adapter_before :: "bool \<Rightarrow> change_info \<Rightarrow> (nat \<Rightarrow> change_builder) \<Rightarrow> kvo_list list \<Rightarrow> observer_state list \<Rightarrow>
    log_failure + (observer_state list \<times> nat list) option" where
  "adapter_before has_context info builders ls obs =
     (if \<not> has_context \<or> ci_tables info = [] then Inr None
      else
        let seen = map (observe_row info) obs;
            invalidated = map (\<lambda>(ob, gone). ob_info ob) (filter snd seen)
        in case observe_lists builders (map fst seen) 0 ls of
            Inl e \<Rightarrow> Inl e | Inr obs \<Rightarrow> Inr (Some (obs, invalidated)))"

section \<open>Advancing with notifications\<close>

text \<open>
  What \<open>advance_with_notifications\<close> asks of the binding, of the database and of the notifiers, in order.
  The answers it depends on are the fields of a record; the binding may close the Realm in a callback.
\<close>

datatype advance_call = Advance_Validated | Advance_Observed | Bare_Did_Change | Will_Send | Did_Send
  | Before_Advance | Package_And_Wait | Deliver | After_Advance | Adapter_Will_Change | Adapter_Did_Change

record advance_env =
  en_context :: bool
  en_observed :: bool
  en_tables_recorded :: bool
  en_package :: bool
  en_has_version :: bool
  en_old_version :: nat
  en_new_version :: nat
  en_closed_by_did_change :: bool
  en_closed_by_will_send :: bool
  en_current_version :: nat
  en_closed_by_delivery :: bool

text \<open>\<open>KVOTransactLogObserver\<close>: what happens when the log has been parsed and when the observer is destroyed.\<close>

definition observer_parse_complete :: "advance_env \<Rightarrow> advance_call list" where
  "observer_parse_complete en = (if en_context en \<and> en_tables_recorded en then [Adapter_Will_Change] else []) @ [Package_And_Wait, Before_Advance]"

definition observer_destroyed :: "advance_env \<Rightarrow> advance_call list" where
  "observer_destroyed en = (if en_context en then [Adapter_Did_Change] else [])"

definition advance_with_notifications :: "advance_env \<Rightarrow> advance_call list" where
  "advance_with_notifications en =
     (if \<not> en_observed en \<and> (\<not> en_package en \<or> en_has_version en) then
        let changed = en_context en \<and> en_old_version en \<noteq> en_new_version en;
            calls = [Before_Advance, Advance_Validated] @ (if changed then [Bare_Did_Change] else [])
        in if changed \<and> en_closed_by_did_change en then calls
        else
          let calls = calls @ (if en_context en then [Will_Send] else [])
          in if en_context en \<and> en_closed_by_will_send en then calls
          else calls @ (if en_new_version en = en_current_version en then [Deliver] else []) @ [After_Advance] @
            (if \<not> en_closed_by_delivery en \<and> en_context en then [Did_Send] else [])
      else (if en_context en then [Will_Send] else []) @ [Advance_Observed] @ observer_parse_complete en @
        observer_destroyed en @ [Package_And_Wait, Deliver, After_Advance] @ (if en_context en then [Did_Send] else []))"

text \<open>
  Nothing is delivered when a callback moved the Realm to another version, and nothing at all is called once a
  callback has closed the Realm.
\<close>

lemma no_delivery_elsewhere:
  assumes "\<not> en_observed en" "\<not> en_package en \<or> en_has_version en" "en_new_version en \<noteq> en_current_version en"
  shows "Deliver \<notin> set (advance_with_notifications en)"
  using assms by (auto simp: advance_with_notifications_def Let_def)

lemma closed_by_callback:
  assumes "\<not> en_observed en" "\<not> en_package en \<or> en_has_version en" "en_context en" "en_closed_by_will_send en"
  shows "last (advance_with_notifications en) \<in> {Bare_Did_Change, Will_Send}"
  using assms by (auto simp: advance_with_notifications_def Let_def)

end
