(* ===== verification/Transact_Outcome.thy ===== *)
theory Transact_Outcome
  imports Transact_Simulation KVO_Adapter
begin

text \<open>
  What the observer has recorded at the end of a log, and where an observed row is then.
\<close>

section \<open>A whole transaction\<close>

text \<open>The watched lists of a request by object and column, and a request that makes sense for the tables.\<close>

definition list_of :: "('o, 'e) world \<Rightarrow> list_change_info \<Rightarrow> 'o \<times> size" where
  "list_of w l = (w_rows w (li_table l) ! li_row l, li_col l)"

definition request_ok :: "change_info \<Rightarrow> (nat \<Rightarrow> change_builder) \<Rightarrow> ('o, 'e) world \<Rightarrow> bool" where
  "request_ok info builders w \<longleftrightarrow>
     distinct (map li_changes (ci_lists info)) \<and> distinct (map (\<lambda>l. (li_table l, li_row l, li_col l)) (ci_lists info)) \<and>
     (\<forall>l \<in> set (ci_lists info). li_row l < length (w_rows w (li_table l)) \<and> builders (li_changes l) = empty_builder) \<and>
     (\<forall>b \<in> set (ci_tables info). b = empty_builder)"

definition owner :: "change_info \<Rightarrow> ('o, 'e) world \<Rightarrow> nat \<Rightarrow> 'o \<times> size" where
  "owner info w p = list_of w (the (List.find (\<lambda>l. li_changes l = p) (ci_lists info)))"

lemma owner_entry:
  assumes "distinct (map li_changes (ci_lists info))" "l \<in> set (ci_lists info)"
  shows "owner info w (li_changes l) = list_of w l"
proof -
  have "List.find (\<lambda>k. li_changes k = li_changes l) (ci_lists info) \<noteq> None" using assms(2) unfolding find_None_iff by blast
  then obtain k where k: "List.find (\<lambda>k. li_changes k = li_changes l) (ci_lists info) = Some k" by blast
  then have "k \<in> set (ci_lists info)" "li_changes k = li_changes l" using find_Some_mem[OF k] by simp_all
  then have "k = l" using assms by (metis distinct_map inj_onD)
  then show ?thesis using k by (simp add: owner_def)
qed

lemma list_of_inj:
  assumes s: "starts w" and r: "request_ok info builders w" and l: "l \<in> set (ci_lists info)" "k \<in> set (ci_lists info)"
    and e: "list_of w l = list_of w k"
  shows "l = k"
proof -
  have rows: "li_row l < length (w_rows w (li_table l))" "li_row k < length (w_rows w (li_table k))"
    using r l by (simp_all add: request_ok_def)
  have x: "w_rows w (li_table l) ! li_row l = w_rows w (li_table k) ! li_row k" "li_col l = li_col k"
    using e by (simp_all add: list_of_def)
  have ok: "world_ok w" using s by (simp add: starts_def)
  have t: "li_table l = li_table k"
    using world_okD(3)[OF ok, of "li_table l" "li_table k" "w_rows w (li_table l) ! li_row l"] x(1) rows nth_mem by metis
  then have "li_row l = li_row k" using x(1) rows world_okD(1)[OF ok, of "li_table k"] by (simp add: nth_eq_iff_index_eq)
  then have "(li_table l, li_row l, li_col l) = (li_table k, li_row k, li_col k)" using t x(2) by simp
  then show ?thesis using r l unfolding request_ok_def distinct_map inj_on_def by blast
qed

lemma start_follows:
  assumes s: "starts w" and r: "request_ok info builders w"
  shows "log_follows info (li_changes ` set (ci_lists info)) (owner info w) w w (start_log info builders)"
proof -
  let ?ps = "li_changes ` set (ci_lists info)" and ?own = "owner info w" and ?s = "start_log info builders"
  have d: "distinct (map li_changes (ci_lists info))" using r by (simp add: request_ok_def)
  note own = owner_entry[OF d, where w = w]
  have inj: "inj_on ?own ?ps"
  proof (rule inj_onI)
    fix p q assume "p \<in> ?ps" "q \<in> ?ps" "?own p = ?own q"
    then obtain l k where l: "l \<in> set (ci_lists info)" "p = li_changes l" and k: "k \<in> set (ci_lists info)" "q = li_changes k"
      and e: "owner info w p = owner info w q" by blast
    have "list_of w l = list_of w k" using e own[OF l(1)] own[OF k(1)] l(2) k(2) by simp
    then show "p = q" using list_of_inj[OF s r l(1) k(1)] l(2) k(2) by simp
  qed
  have ok: "world_ok w" using s by (simp add: starts_def)
  have entry: "entry_ok ?own w l" if "l \<in> set (ci_lists info)" for l
    using r that own[OF that] by (simp add: entry_ok_def list_of_def request_ok_def)
  have fresh: "list_follows w w empty_builder xc" for xc
    using s by (cases xc) (simp add: list_follows_def tracks_empty starts_def flagged_def, simp add: empty_builder_def)
  have lists: "lists_follow ?ps ?own w w ?s"
    unfolding lists_follow_def
  proof (intro conjI ballI)
    show "distinct (map li_changes (ci_lists (lg_info ?s)))" using d by (simp add: start_log_def)
    show "inj_on ?own ?ps" by (rule inj)
    fix l assume l: "l \<in> set (ci_lists (lg_info ?s))"
    show "li_changes l \<in> ?ps" "entry_ok ?own w l" using l entry by (simp_all add: start_log_def)
  next
    fix p assume "p \<in> ?ps"
    then obtain l where l: "l \<in> set (ci_lists info)" "p = li_changes l" by blast
    have "fst (?own p) \<in> set (w_rows w (li_table l))" using r l own[OF l(1)] by (simp add: list_of_def request_ok_def)
    then show "fst (?own p) \<in> w_used w" using world_okD(2)[OF ok] by blast
    show "(\<exists>l \<in> set (ci_lists (lg_info ?s)). li_changes l = p) \<or> (\<forall>t. fst (?own p) \<notin> set (w_rows w t))"
      using l by (auto simp: start_log_def)
    show "list_follows w w (lg_builders ?s p) (?own p)" using fresh r l by (simp add: start_log_def request_ok_def)
    show "w_chosen w = Some (?own p) \<longleftrightarrow> lg_active_list ?s = Some p" using s by (simp add: start_log_def starts_def)
  qed (simp add: start_log_def)
  have "table_follows (builder_at info t) (w_rows w t) (w_rows w t) {}" for t
  proof -
    have b: "builder_at info t = empty_builder" using r by (simp add: builder_at_def request_ok_def)
    show ?thesis
      unfolding b table_follows_def using row_record_empty[OF world_okD(1)[OF ok]] row_marks_empty by blast
  qed
  then have "tables_follow info w w ?s"
    using s by (simp add: tables_follow_def start_log_def same_request_def starts_def)
  then show ?thesis
    using lists ok s world_okD(2)[OF ok] unfolding log_follows_def by (simp add: starts_def)
qed

lemma log_followed:
  assumes s: "starts w0" and r: "request_ok info builders w0"
    and l: "logged (list_of w0 ` set (ci_lists info)) w0 is w"
  obtains info' builders' where "advance_observed is info builders = Inr (info', builders')"
    "\<And>l. l \<in> set (ci_lists info) \<Longrightarrow> list_follows w0 w (builders' (li_changes l)) (list_of w0 l)"
    "\<And>t. all_wanted info t \<Longrightarrow> moves_wanted info t \<Longrightarrow> row_change (builder_at info' t) (w_rows w0 t) (w_rows w t) \<and>
      row_marks (builder_at info' t) (w_rows w t) (w_touched w)"
    "same_request info info'" "world_ok w"
proof -
  have d: "distinct (map li_changes (ci_lists info))" using r by (simp add: request_ok_def)
  have wt: "list_of w0 ` set (ci_lists info) = owner info w0 ` li_changes ` set (ci_lists info)"
    unfolding image_image using owner_entry[OF d, of _ w0] by (intro image_cong) simp_all
  obtain s where o: "observe_all is (start_log info builders) = Inr s"
    and f: "log_follows info (li_changes ` set (ci_lists info)) (owner info w0) w0 w s"
    using follow_log[OF l start_follows[OF s r] wt] by blast
  note F = log_followsD[OF f] and L = lists_followD[OF log_followsD(2)[OF f]]
  have ok: "world_ok w" by (rule F(3))
  show thesis
  proof (cases "\<not> ci_track_all info \<and> ci_modifications_needed info = [] \<and> ci_lists info = []")
    case True
    have "advance_observed is info builders = Inr (info, builders)" unfolding advance_observed_def if_P[OF True] ..
    then show thesis using that True ok by (simp add: all_wanted_def flag_set_def same_request_def)
  next
    case False
    let ?s = "parse_complete s"
    have a: "advance_observed is info builders = Inr (lg_info ?s, lg_builders ?s)"
      unfolding advance_observed_def if_not_P[OF False] o by (simp add: Let_def)
    have "list_follows w0 w (lg_builders ?s (li_changes l)) (list_of w0 l)" if "l \<in> set (ci_lists info)" for l
      using parse_complete_list[OF L(6)] owner_entry[OF d that] that by (metis imageI)
    moreover have "row_change (builder_at (lg_info ?s) t) (w_rows w0 t) (w_rows w t) \<and>
        row_marks (builder_at (lg_info ?s) t) (w_rows w t) (w_touched w)" if "all_wanted info t" "moves_wanted info t" for t
    proof -
      have e: "cb_parse_complete empty_builder = empty_builder" by (simp add: cb_parse_complete_def empty_builder_def)
      have b: "builder_at (lg_info ?s) t = cb_parse_complete (builder_at (lg_info s) t)"
        by (simp add: builder_at_def parse_complete_simps(1) e)
      have "table_follows (builder_at (lg_info s) t) (w_rows w0 t) (w_rows w t) (w_touched w)"
        using F(1) that by (simp add: tables_follow_def)
      then show ?thesis unfolding b table_follows_def using row_change_parse_complete by blast
    qed
    moreover have "same_request info (lg_info ?s)"
    proof -
      have "same_request info (lg_info (foldl (\<lambda>s l. edit_list clean_up_stale_moves (li_changes l) s) s' ls)) =
          same_request info (lg_info s')" for s' and ls :: "list_change_info list"
        by (induction ls arbitrary: s') (simp_all add: edit_list_def)
      then show ?thesis using F(1) by (simp add: parse_complete_def Let_def tables_follow_def same_request_def)
    qed
    ultimately show thesis using that[OF a] ok by blast
  qed
qed

section \<open>Observed rows\<close>

lemma observed_row_spec:
  assumes c: "row_change b xs ys" and d: "distinct xs" "distinct ys" and p: "p < length xs"
  shows "observed_row b p = Some q \<longleftrightarrow> q < length ys \<and> ys ! q = xs ! p"
proof -
  let ?D = "idx (deletions b)" and ?I = "idx (insertions b)"
  have w: "wf (deletions b)" "wf (insertions b)" and so: "sorted (map m_from (moves b))" and I: "?I \<subseteq> {..<length ys}"
    and kept: "\<And>p. p < length ys \<Longrightarrow> p \<notin> ?I \<Longrightarrow> p < length xs \<and> p \<notin> ?D \<and> ys ! p = xs ! p"
    and kept': "\<And>p. p < length xs \<Longrightarrow> p \<notin> ?D \<Longrightarrow> p < length ys \<and> p \<notin> ?I"
    and mv: "\<And>m. m \<in> set (moves b) \<longleftrightarrow> m_from m \<in> ?D \<and> m_to m \<in> ?I \<and> m_from m < length xs \<and> xs ! m_from m = ys ! m_to m"
    using c unfolding row_change_def by blast+
  let ?P = "\<lambda>m. m_from m < p"
  define it where "it = lower_bound (\<lambda>k. ?P (moves b ! k)) 0 (length (moves b))"
  have "\<not> ?P (moves b ! j)" if "j < length (moves b)" "length (takeWhile ?P (moves b)) \<le> j" for j
  proof -
    have lt: "length (takeWhile ?P (moves b)) < length (moves b)" using that by simp
    have "m_from (moves b ! length (takeWhile ?P (moves b))) \<le> m_from (moves b ! j)"
      using sorted_nth_mono[OF so that(2)] that(1) lt by simp
    then show ?thesis using nth_length_takeWhile[OF lt] by simp
  qed
  then have it: "it = length (takeWhile ?P (moves b))"
    using lower_bound_takeWhile[of 0 "moves b" ?P] by (simp add: it_def)
  have found: "it < length (moves b) \<and> m_from (moves b ! it) = p \<longleftrightarrow> (\<exists>m \<in> set (moves b). m_from m = p)"
  proof
    assume "\<exists>m \<in> set (moves b). m_from m = p"
    then obtain j where j: "j < length (moves b)" "m_from (moves b ! j) = p" by (metis in_set_conv_nth)
    have "it \<le> j"
    proof (rule ccontr)
      assume "\<not> it \<le> j"
      then have "j < length (takeWhile ?P (moves b))" by (simp add: it)
      then have "?P (moves b ! j)" by (metis nth_mem set_takeWhileD takeWhile_nth)
      then show False using j(2) by simp
    qed
    then have lt: "it < length (moves b)" using j(1) by simp
    have "m_from (moves b ! it) \<le> p" using sorted_nth_mono[OF so \<open>it \<le> j\<close>] j lt by simp
    moreover have "\<not> m_from (moves b ! it) < p" using nth_length_takeWhile lt unfolding it by blast
    ultimately show "it < length (moves b) \<and> m_from (moves b ! it) = p" using lt by simp
  qed (auto intro: nth_mem)
  have "it \<le> length (moves b)" by (simp add: it length_takeWhile_le)
  then have o: "observed_row b p = (if it < length (moves b) \<and> m_from (moves b ! it) = p then Some (m_to (moves b ! it))
      else if p \<in> ?D then None else Some (shift (insertions b) (unshift (deletions b) p)))"
    using w(1) by (auto simp: observed_row_def it_def[symmetric] Let_def ix.has_iff)
  show ?thesis
  proof (cases "\<exists>m \<in> set (moves b). m_from m = p")
    case True
    let ?m = "moves b ! it"
    have f: "it < length (moves b) \<and> m_from ?m = p" using found True by blast
    then have m: "m_to ?m \<in> ?I" "ys ! m_to ?m = xs ! p" using mv[of ?m] nth_mem[of it "moves b"] by auto
    then have l: "m_to ?m < length ys" using I by blast
    have "observed_row b p = Some (m_to ?m)" using o f by simp
    then show ?thesis using m(2) l nth_eq_iff_index_eq[OF d(2) _ l, of q] by auto
  next
    case nm: False
    then have nf: "\<not> (it < length (moves b) \<and> m_from (moves b ! it) = p)" using found by blast
    show ?thesis
    proof (cases "p \<in> ?D")
      case True
      have "\<not> (q < length ys \<and> ys ! q = xs ! p)"
      proof
        assume q: "q < length ys \<and> ys ! q = xs ! p"
        show False
        proof (cases "q \<in> ?I")
          case True
          then have "\<lparr>m_from = p, m_to = q\<rparr> \<in> set (moves b)" using mv \<open>p \<in> ?D\<close> p q by simp
          then show False using nm by force
        next
          case False
          then have "q < length xs" "q \<notin> ?D" "xs ! q = xs ! p" using kept[of q] q by simp_all
          then show False using d(1) p \<open>p \<in> ?D\<close> by (simp add: nth_eq_iff_index_eq)
        qed
      qed
      then show ?thesis using o nf True by simp
    next
      case False
      have k: "p < length ys" "p \<notin> ?I" "ys ! p = xs ! p" using kept'[OF p False] kept[of p] by auto
      have "r \<in> ?D \<longleftrightarrow> r \<in> ?I" if "r < p" for r using kept[of r] kept'[of r] that p k(1) by fastforce
      then have "rank_outside ?D p = rank_outside ?I p" by (intro rank_outside_cong) simp
      then have "shift (insertions b) (unshift (deletions b) p) = p"
        using w k(2) ix.finite_members by (simp add: ix_members)
      then show ?thesis using o nf False k nth_eq_iff_index_eq[OF d(2) _ k(1), of q] by auto
    qed
  qed
qed

end
