(* ===== verification/Transact_Properties.thy ===== *)
theory Transact_Properties
  imports Transact_Outcome
begin

text \<open>
  Properties of the transaction log handlers: what the observer has recorded at the end of a log, what the
  observers of single rows are told, and which logs are rejected.
\<close>

section \<open>The observer\<close>

text \<open>
  C2. The observer follows the log.  The logs are those of \<open>world_step\<close>: selections of tables, writes of
  cells, appended rows, deletions of one row by moving the last one over it, swaps of rows, cleared tables,
  and selections and edits of link lists; when a row is deleted and a watched list is in it, no other watched
  list is in it or in the row that takes its place (\<open>one_at_stake\<close>; otherwise
  \<open>erase_forgets_moved_list\<close>).  Merged and moved rows, deletions that keep the order, rows inserted
  within a table, subtables, and new or moved columns and tables are not among them.  For each such log each
  watched list's builder describes exactly how the slots of that list went from the old to the new version and
  which were modified, although its row moved meanwhile, and the builder of each table that is tracked for
  modifications and for moves says where its rows went and which objects were modified in which columns.
\<close>

theorem observer_follows_log:
  assumes "starts w0" "request_ok info builders w0" "logged (list_of w0 ` set (ci_lists info)) w0 is w"
  shows "\<exists>info' builders'. advance_observed is info builders = Inr (info', builders') \<and>
    (\<forall>l \<in> set (ci_lists info). list_follows w0 w (builders' (li_changes l)) (list_of w0 l)) \<and>
    (\<forall>t. all_wanted info t \<longrightarrow> moves_wanted info t \<longrightarrow> row_change (builder_at info' t) (w_rows w0 t) (w_rows w t) \<and>
      row_marks (builder_at info' t) (w_rows w t) (w_touched w))"
proof -
  obtain info' builders' where "advance_observed is info builders = Inr (info', builders')"
    "\<And>l. l \<in> set (ci_lists info) \<Longrightarrow> list_follows w0 w (builders' (li_changes l)) (list_of w0 l)"
    "\<And>t. all_wanted info t \<Longrightarrow> moves_wanted info t \<Longrightarrow> row_change (builder_at info' t) (w_rows w0 t) (w_rows w t) \<and>
      row_marks (builder_at info' t) (w_rows w t) (w_touched w)"
    using log_followed[OF assms] by metis
  then show ?thesis by blast
qed

text \<open>Three objects in a table; the first is deleted, and the list of the last one, which takes its place, grows.\<close>

definition demo_world :: "(nat, nat) world" where
  "demo_world = \<lparr>w_rows = (\<lambda>t. if t = 0 then [10, 20, 30] else []), w_list = (\<lambda>x c. [1, 2]),
     w_flags = (\<lambda>x c. [False, False]), w_used = {10, 20, 30}, w_table = None, w_chosen = None, w_touched = {}\<rparr>"

definition demo_request :: change_info where
  "demo_request = no_request\<lparr>ci_track_all := True,
     ci_lists := [\<lparr>li_table = 0, li_row = 2, li_col = 1, li_changes = 0\<rparr>]\<rparr>"

definition demo_log :: "instruction list" where
  "demo_log = [Select_Table 0 [], Erase_Rows 0 1 3 True, Select_Link_List 1 0 0, Link_List_Insert 0 5 2]"

definition demo_end :: "(nat, nat) world" where
  "demo_end = set_list 30 1 [Insert_Run 0 [3]] ((touch 30 1 (set_rows 0 [30, 20] (demo_world\<lparr>w_table := Some 0\<rparr>)))\<lparr>w_chosen := Some (30, 1)\<rparr>)"

lemma demo_starts: "starts demo_world" "request_ok demo_request (\<lambda>_. empty_builder) demo_world"
  "list_of demo_world ` set (ci_lists demo_request) = {(30, 1)}"
proof -
  have "world_ok demo_world" by (auto simp: world_ok_def demo_world_def)
  then show "starts demo_world" by (simp add: starts_def demo_world_def npos_def)
  show "request_ok demo_request (\<lambda>_. empty_builder) demo_world"
    "list_of demo_world ` set (ci_lists demo_request) = {(30, 1)}"
    by (simp_all add: demo_world_def request_ok_def demo_request_def no_request_def list_of_def)
qed

lemma demo_logged: "logged {(30, 1)} demo_world demo_log demo_end"
proof -
  let ?w1 = "demo_world\<lparr>w_table := Some 0\<rparr>"
  let ?w2 = "set_rows 0 [30, 20] ?w1"
  let ?w3 = "(touch 30 1 ?w2)\<lparr>w_chosen := Some (30, 1)\<rparr>"
  let ?W = "{(30, 1)} :: (nat \<times> nat) set"
  have 1: "world_step ?W demo_world (Select_Table 0 []) ?w1" by (rule world_step.select)
  have 2: "world_step ?W ?w1 (Erase_Rows 0 1 3 True) ?w2"
  proof -
    have n: "length (w_rows ?w1 0) = 3" "w_rows ?w1 0 = [10, 20, 30]" by (simp_all add: demo_world_def)
    have "w_table ?w1 = Some 0" by simp
    from world_step.erase[OF this, of 0 ?W, unfolded n] show ?thesis
      by (simp add: npos_def one_at_stake_def move_last_over_def numeral_3_eq_3)
  qed
  have 3: "world_step ?W ?w2 (Select_Link_List 1 0 0) ?w3"
    using world_step.select_list[of ?w2 0 0 1 30 ?W 0] by (simp add: demo_world_def npos_def)
  have 4: "world_step ?W ?w3 (Link_List_Insert 0 5 2) demo_end"
    using world_step.edit[of ?w3 30 1 "Link_List_Insert 0 5 2" 3 ?W] by (simp add: demo_world_def demo_end_def npos_def)
  have "logged ?W demo_world ((([] @ [Select_Table 0 []]) @ [Erase_Rows 0 1 3 True]) @ [Select_Link_List 1 0 0]) ?w3"
    by (rule logged.more[OF logged.more[OF logged.more[OF logged.none 1] 2] 3])
  from logged.more[OF this 4] show ?thesis by (simp add: demo_log_def)
qed

theorem observer_follows_log_witness:
  "\<exists>info' builders'. advance_observed demo_log demo_request (\<lambda>_. empty_builder) = Inr (info', builders') \<and>
    list_follows demo_world demo_end (builders' 0) (30, 1) \<and>
    row_change (builder_at info' 0) [10, 20, 30] [30, 20 :: nat] \<and> w_list demo_end 30 1 = [3, 1, 2]"
proof -
  have e: "w_rows demo_world 0 = [10, 20, 30]" "w_rows demo_end 0 = [30, 20]" "w_list demo_end 30 1 = [3, 1, 2]"
    by (simp_all add: demo_world_def demo_end_def set_list_def)
  have a: "all_wanted demo_request 0" "moves_wanted demo_request 0" "ci_lists demo_request =
      [\<lparr>li_table = 0, li_row = 2, li_col = 1, li_changes = 0\<rparr>]"
    by (simp_all add: all_wanted_def moves_wanted_def demo_request_def no_request_def)
  have l: "list_of demo_world \<lparr>li_table = 0, li_row = 2, li_col = 1, li_changes = 0\<rparr> = (30, 1)"
    by (simp add: list_of_def demo_world_def numeral_2_eq_2)
  show ?thesis
    using observer_follows_log[OF demo_starts(1,2), of demo_log demo_end] demo_logged e a l
    unfolding demo_starts(3) by fastforce
qed

section \<open>Rows of observed objects\<close>

lemma column_change_set:
  assumes "row_marks b ys touched" "ci_column_indices info = []" "q < length ys" "c < npos"
  shows "c < length (told_columns info t b q []) \<and> co_kind (told_columns info t b q [] ! c) = Set_Change \<longleftrightarrow> (ys ! q, c) \<in> touched"
proof -
  have m: "marks ys {x. (x, c) \<in> touched} (if c < length (columns b) then columns b ! c else [])"
    using assms(1) by (simp add: row_marks_def)
  have k: "co_kind (told_columns info t b q [] ! c) = Set_Change \<longleftrightarrow> contains (columns b ! c) q" if "c < length (columns b)"
    using that assms(2,4) by (simp add: told_columns_def Let_def initial_column_def new_column_info_def)
  show ?thesis
  proof (cases "c < length (columns b)")
    case True
    then have mc: "marks ys {x. (x, c) \<in> touched} (columns b ! c)" using m by simp
    have "c < length (told_columns info t b q [])" using True by (simp add: told_columns_def)
    then show ?thesis unfolding k[OF True] ix.has_iff[OF marks_wf[OF mc]] marks_nth[OF mc assms(3)] by simp
  next
    case False
    then have "set ys \<inter> {x. (x, c) \<in> touched} = {}" using m by simp
    then show ?thesis using False assms(3) nth_mem by (auto simp: told_columns_def)
  qed
qed

lemma observe_row_follows:
  assumes "starts w0" "request_ok info builders w0" "logged (list_of w0 ` set (ci_lists info)) w0 is w"
    and "advance_observed is info builders = Inr (info', builders')"
    and "all_wanted info (ob_table ob)" "moves_wanted info (ob_table ob)"
    and "ci_table_indices info = []" "ci_column_indices info = []"
    and "ob_row ob < length (w_rows w0 (ob_table ob))" "ob_changes ob = []"
  shows "let (ob', gone) = observe_row info' ob; x = w_rows w0 (ob_table ob) ! ob_row ob in
    (gone \<longleftrightarrow> x \<notin> set (w_rows w (ob_table ob))) \<and>
    (\<not> gone \<longrightarrow> (\<forall>c < npos. c < length (ob_changes ob') \<and> co_kind (ob_changes ob' ! c) = Set_Change \<longleftrightarrow>
      (x, c) \<in> w_touched w))"
proof -
  obtain info1 builders1 where o: "advance_observed is info builders = Inr (info1, builders1)"
    and t: "\<And>t. all_wanted info t \<Longrightarrow> moves_wanted info t \<Longrightarrow> row_change (builder_at info1 t) (w_rows w0 t) (w_rows w t) \<and>
      row_marks (builder_at info1 t) (w_rows w t) (w_touched w)"
    and sr: "same_request info info1" and ok: "world_ok w"
    using log_followed[OF assms(1-3)] by metis
  have i: "info1 = info'" using o assms(4) by simp
  let ?t = "ob_table ob" and ?p = "ob_row ob"
  let ?xs = "w_rows w0 ?t" and ?ys = "w_rows w ?t" and ?b = "builder_at info' ?t" and ?x = "w_rows w0 ?t ! ?p"
  have rc: "row_change ?b ?xs ?ys" and rm: "row_marks ?b ?ys (w_touched w)" using t[OF assms(5,6)] i by simp_all
  have d: "distinct ?xs" "distinct ?ys" using assms(1) world_okD(1)[OF ok] by (simp_all add: starts_def world_ok_def)
  note spec = observed_row_spec[OF rc d assms(9)]
  have idx: "new_table_ndx info' ?t = ?t" "ci_column_indices info' = []"
    using sr assms(7,8) i by (simp_all add: same_request_def new_table_ndx_def)
  have or: "observe_row info' ob = (if length (ci_tables info') \<le> ?t then (ob, False) else
      case observed_row ?b ?p of None \<Rightarrow> (ob, True) | Some ndx \<Rightarrow> (if contains (modifications ?b) ndx
        then ob\<lparr>ob_changes := told_columns info' ?t ?b ndx []\<rparr> else ob, False))"
    using idx assms(10) by (simp add: observe_row_def Let_def builder_at_def split: option.splits)
  have em: "observed_row ?b ?p = Some ?p \<and> \<not> contains (modifications ?b) ?p" if "length (ci_tables info') \<le> ?t"
    using that by (simp add: builder_at_def observed_row_def Let_def empty_builder_def contains_iff ix_members lower_bound.simps[of _ 0 0])
  have mem: "?x \<in> set ?ys \<longleftrightarrow> (\<exists>q. observed_row ?b ?p = Some q)"
    unfolding spec by (metis in_set_conv_nth)
  show ?thesis
  proof (cases "observed_row ?b ?p")
    case None
    then have "\<not> length (ci_tables info') \<le> ?t" using em by auto
    then show ?thesis using or None mem by simp
  next
    case (Some q)
    then have q: "q < length ?ys" "?ys ! q = ?x" using spec by simp_all
    have mm: "marks ?ys (fst ` w_touched w) (modifications ?b)" using rm by (simp add: row_marks_def)
    have mq: "contains (modifications ?b) q \<longleftrightarrow> ?x \<in> fst ` w_touched w"
      unfolding ix.has_iff[OF marks_wf[OF mm]] marks_nth[OF mm q(1)] q(2) ..
    have tell: "observe_row info' ob = (if contains (modifications ?b) q
        then ob\<lparr>ob_changes := told_columns info' ?t ?b q []\<rparr> else ob, False)"
      using or Some em by (cases "length (ci_tables info') \<le> ?t") auto
    have "c < length (ob_changes (fst (observe_row info' ob))) \<and>
        co_kind (ob_changes (fst (observe_row info' ob)) ! c) = Set_Change \<longleftrightarrow> (?x, c) \<in> w_touched w" if "c < npos" for c
    proof (cases "contains (modifications ?b) q")
      case True
      then show ?thesis using tell column_change_set[OF rm idx(2) q(1) that] q(2) by simp
    next
      case False
      then have "(?x, c) \<notin> w_touched w" using mq by force
      then show ?thesis using False tell assms(10) by simp
    qed
    then show ?thesis using mem Some tell by simp
  qed
qed

text \<open>The loop over the lists leaves the observers and their other columns as they are.\<close>

lemma observe_list_keeps:
  assumes "observe_list builders obs i l = Inr obs'" "kl_observer l \<noteq> k \<or> kl_col l \<noteq> c"
  shows "length obs' = length obs \<and> length (ob_changes (obs' ! k)) = length (ob_changes (obs ! k)) \<and>
    ob_changes (obs' ! k) ! c = ob_changes (obs ! k) ! c"
proof -
  let ?o = "kl_observer l"
  obtain ci where "obs' = obs \<or> obs' = obs[?o := (obs ! ?o)\<lparr>ob_changes := (ob_changes (obs ! ?o))[kl_col l := ci]\<rparr>]"
    using assms(1) by (auto simp: observe_list_def Let_def split: if_splits)
  moreover have "obs[?o := z] ! k = (if k = ?o \<and> k < length obs then z else obs ! k)" for z
    by (cases "k = ?o") (simp_all add: list_update_beyond)
  ultimately show ?thesis using assms(2) by auto
qed

lemma observe_lists_keep:
  assumes "observe_lists builders obs i ls = Inr obs'" "\<forall>l \<in> set ls. kl_observer l \<noteq> k \<or> kl_col l \<noteq> c"
  shows "length obs' = length obs \<and> length (ob_changes (obs' ! k)) = length (ob_changes (obs ! k)) \<and>
    ob_changes (obs' ! k) ! c = ob_changes (obs ! k) ! c"
  using assms
proof (induction ls arbitrary: i obs)
  case (Cons l ls)
  then obtain obs1 where o: "observe_list builders obs i l = Inr obs1" "observe_lists builders obs1 (i + 1) ls = Inr obs'"
    by (auto split: sum.splits)
  show ?case using Cons.IH[OF o(2)] observe_list_keeps[OF o(1), of k c] Cons.prems(2) by simp
qed simp

lemma filter_map_snd: "map (\<lambda>(ob, gone). g ob) (filter snd (map f obs)) = map (\<lambda>ob. g (fst (f ob))) (filter (\<lambda>ob. snd (f ob)) obs)"
  by (induction obs) (simp_all add: case_prod_unfold)

lemma observe_row_info: "ob_info (fst (observe_row info ob)) = ob_info ob"
  by (simp add: observe_row_def Let_def split: option.splits)

text \<open>
  C8.  What a binding that observes objects hears before the log is applied.  The log is one of those of C2,
  read forwards; the observed objects are in tables tracked for modifications and moves.  The objects given
  as invalidated are exactly those the log deletes.  For any other object, a column that is not one of the
  lists the adapter watches is told as set exactly when an instruction of the log wrote it, wherever the row
  of the object went.  When the binding is not called no observed object was deleted or written.  What is
  told of a watched list is decided by the second loop of the adapter, of which this only says that it leaves
  the other columns alone, as long as its assertion holds.
\<close>

theorem observed_objects_follow:
  assumes "starts w0" "request_ok info builders w0" "logged (list_of w0 ` set (ci_lists info)) w0 is w"
    and "advance_observed is info builders = Inr (info', builders')" "adapter_before True info' builders' ls obs = Inr told"
    and "ci_table_indices info = []" "ci_column_indices info = []"
    and "\<forall>ob \<in> set obs. all_wanted info (ob_table ob) \<and> moves_wanted info (ob_table ob) \<and>
      ob_row ob < length (w_rows w0 (ob_table ob)) \<and> ob_changes ob = []"
  shows "let object = (\<lambda>ob :: observer_state. w_rows w0 (ob_table ob) ! ob_row ob); gone = (\<lambda>ob :: observer_state. object ob \<notin> set (w_rows w (ob_table ob))) in
    case told of
      None \<Rightarrow> \<forall>ob \<in> set obs. \<not> gone ob \<and> (\<forall>c < npos. (object ob, c) \<notin> w_touched w)
    | Some (obs', invalidated) \<Rightarrow> invalidated = map ob_info (filter gone obs) \<and>
        (\<forall>k < length obs. \<not> gone (obs ! k) \<longrightarrow> (\<forall>c < npos. (\<forall>l \<in> set ls. kl_observer l \<noteq> k \<or> kl_col l \<noteq> c) \<longrightarrow>
          (c < length (ob_changes (obs' ! k)) \<and> co_kind (ob_changes (obs' ! k) ! c) = Set_Change \<longleftrightarrow>
            (object (obs ! k), c) \<in> w_touched w)))"
proof -
  define object where "object = (\<lambda>ob :: observer_state. w_rows w0 (ob_table ob) ! ob_row ob)"
  define gone where "gone = (\<lambda>ob :: observer_state. object ob \<notin> set (w_rows w (ob_table ob)))"
  have f: "(snd (observe_row info' ob) \<longleftrightarrow> gone ob) \<and>
      (\<not> gone ob \<longrightarrow> (\<forall>c < npos. c < length (ob_changes (fst (observe_row info' ob))) \<and>
        co_kind (ob_changes (fst (observe_row info' ob)) ! c) = Set_Change \<longleftrightarrow> (object ob, c) \<in> w_touched w))"
    if "ob \<in> set obs" for ob
    using observe_row_follows[OF assms(1-4) _ _ assms(6,7), of ob] assms(8) that
    by (simp add: object_def gone_def Let_def case_prod_unfold)
  have "case told of
      None \<Rightarrow> \<forall>ob \<in> set obs. \<not> gone ob \<and> (\<forall>c < npos. (object ob, c) \<notin> w_touched w)
    | Some (obs', invalidated) \<Rightarrow> invalidated = map ob_info (filter gone obs) \<and>
        (\<forall>k < length obs. \<not> gone (obs ! k) \<longrightarrow> (\<forall>c < npos. (\<forall>l \<in> set ls. kl_observer l \<noteq> k \<or> kl_col l \<noteq> c) \<longrightarrow>
          (c < length (ob_changes (obs' ! k)) \<and> co_kind (ob_changes (obs' ! k) ! c) = Set_Change \<longleftrightarrow>
            (object (obs ! k), c) \<in> w_touched w)))"
  proof (cases "ci_tables info' = []")
    case True
    then have "told = None" using assms(5) by (simp add: adapter_before_def)
    moreover have o: "observe_row info' ob = (ob, False)" for ob using True by (simp add: observe_row_def Let_def)
    ultimately show ?thesis using f assms(8) by auto
  next
    case False
    then obtain obs' where o: "observe_lists builders' (map fst (map (observe_row info') obs)) 0 ls = Inr obs'"
      "told = Some (obs', map (\<lambda>(ob, gone). ob_info ob) (filter snd (map (observe_row info') obs)))"
      using assms(5) by (auto simp: adapter_before_def Let_def split: sum.splits)
    have "map (\<lambda>(ob, gone). ob_info ob) (filter snd (map (observe_row info') obs)) = map ob_info (filter gone obs)"
      unfolding filter_map_snd observe_row_info using f by (simp cong: filter_cong)
    moreover have "c < length (ob_changes (obs' ! k)) \<and> co_kind (ob_changes (obs' ! k) ! c) = Set_Change \<longleftrightarrow>
        (object (obs ! k), c) \<in> w_touched w"
      if "k < length obs" "\<not> gone (obs ! k)" "c < npos" "\<forall>l \<in> set ls. kl_observer l \<noteq> k \<or> kl_col l \<noteq> c" for k c
      using observe_lists_keep[OF o(1) that(4)] f[OF nth_mem[OF that(1)]] that by simp
    ultimately show ?thesis using o(2) by simp
  qed
  then show ?thesis unfolding Let_def object_def gone_def .
qed

text \<open>The binding observes the third row of the demo, and the first one, which is deleted; the adapter watches no list.\<close>

theorem observed_objects_follow_witness:
  "case advance_observed demo_log demo_request (\<lambda>_. empty_builder) of Inl e \<Rightarrow> False | Inr (info', builders') \<Rightarrow>
    (case adapter_before True info' builders' []
        [\<lparr>ob_table = 0, ob_row = 2, ob_info = 7, ob_changes = []\<rparr>, \<lparr>ob_table = 0, ob_row = 0, ob_info = 8, ob_changes = []\<rparr>] of
      Inr (Some (obs', gone)) \<Rightarrow> gone = [8] \<and> co_kind (ob_changes (obs' ! 0) ! 1) = Set_Change | _ \<Rightarrow> False)"
proof -
  let ?obs = "[\<lparr>ob_table = 0, ob_row = 2, ob_info = 7, ob_changes = []\<rparr>, \<lparr>ob_table = 0, ob_row = 0, ob_info = 8, ob_changes = []\<rparr>]"
  obtain info' builders' where a: "advance_observed demo_log demo_request (\<lambda>_. empty_builder) = Inr (info', builders')"
    using log_followed[OF demo_starts(1,2)] demo_logged unfolding demo_starts(3) by metis
  have w: "all_wanted demo_request 0" "moves_wanted demo_request 0" "ci_table_indices demo_request = []"
    "ci_column_indices demo_request = []"
    by (simp_all add: all_wanted_def moves_wanted_def demo_request_def no_request_def)
  have e: "w_rows demo_world 0 = [10, 20, 30]" "w_rows demo_end 0 = [30, 20]" "w_touched demo_end = {(30, 1)}"
    by (simp_all add: demo_world_def demo_end_def)
  have n: "(1::nat) < npos" by (simp add: npos_def)
  obtain told where told: "adapter_before True info' builders' [] ?obs = Inr told"
    by (cases "ci_tables info' = []") (simp_all add: adapter_before_def Let_def)
  have "\<forall>ob \<in> set ?obs. all_wanted demo_request (ob_table ob) \<and> moves_wanted demo_request (ob_table ob) \<and>
      ob_row ob < length (w_rows demo_world (ob_table ob)) \<and> ob_changes ob = []"
    using w by (simp add: e)
  note r = observed_objects_follow[OF demo_starts(1,2) demo_logged[folded demo_starts(3)] a told w(3,4) this, unfolded Let_def]
  have k: "filter (\<lambda>ob. w_rows demo_world (ob_table ob) ! ob_row ob \<notin> set (w_rows demo_end (ob_table ob))) ?obs =
      [\<lparr>ob_table = 0, ob_row = 0, ob_info = 8, ob_changes = []\<rparr>]"
    by (simp add: e numeral_2_eq_2)
  show ?thesis
  proof (cases told)
    case None
    then have "\<forall>ob \<in> set ?obs. w_rows demo_world (ob_table ob) ! ob_row ob \<in> set (w_rows demo_end (ob_table ob))"
      using r by simp
    then show ?thesis by (simp add: e)
  next
    case (Some p)
    obtain obs' gone where p: "p = (obs', gone)" by (cases p)
    from r have g: "gone = [8]" and c: "\<forall>k < length ?obs. \<not> (w_rows demo_world (ob_table (?obs ! k)) ! ob_row (?obs ! k) \<notin>
        set (w_rows demo_end (ob_table (?obs ! k)))) \<longrightarrow> (\<forall>c < npos. (\<forall>l \<in> set ([] :: kvo_list list). kl_observer l \<noteq> k \<or> kl_col l \<noteq> c) \<longrightarrow>
        (c < length (ob_changes (obs' ! k)) \<and> co_kind (ob_changes (obs' ! k) ! c) = Set_Change \<longleftrightarrow>
         (w_rows demo_world (ob_table (?obs ! k)) ! ob_row (?obs ! k), c) \<in> w_touched demo_end))"
      unfolding Some p option.case prod.case k by simp_all
    from c[rule_format, of 0 1] n have "co_kind (ob_changes (obs' ! 0) ! 1) = Set_Change" by (simp add: e numeral_2_eq_2)
    then show ?thesis using g by (simp add: a told Some p)
  qed
qed

section \<open>Rejected logs\<close>

lemma observe_unsupported: "observe i s = Inl Unsupported_Schema_Change \<longleftrightarrow> unsupported_change i"
  by (cases "(i, s)" rule: observe.cases)
    (auto simp: obs_swap_rows_def obs_move_row_def obs_move_column_def obs_move_group_level_table_def Let_def)

text \<open>
  The validator and the observer reject the same logs: those that remove or rename a table or a
  column, provided no assertion fails before.
\<close>

theorem handlers_reject_same_logs:
  assumes "observe_all is s \<noteq> Inl Log_Assertion"
  shows "observe_all is s = Inl Unsupported_Schema_Change \<longleftrightarrow> validate_log is = Inl Unsupported_Schema_Change"
  using assms
proof (induction "is" arbitrary: s)
  case (Cons i rest)
  show ?case
  proof (cases "observe i s")
    case (Inl e)
    then show ?thesis using Cons.prems observe_unsupported[of i s] by (cases e) (auto simp: validate_log_def)
  next
    case (Inr s')
    then have "\<not> unsupported_change i" using observe_unsupported[of i s] by simp
    then show ?thesis using Cons.IH[of s'] Cons.prems Inr by (simp add: validate_log_def)
  qed
qed (simp add: validate_log_def)

theorem handlers_reject_same_logs_witness:
  "observe_all [Select_Table 0 [], Rename_Column 1 []] (start_log no_request (\<lambda>_. empty_builder)) = Inl Unsupported_Schema_Change"
  using handlers_reject_same_logs[of "[Select_Table 0 [], Rename_Column 1 []]" "start_log no_request (\<lambda>_. empty_builder)"]
  by (simp add: validate_log_def)

section \<open>Logs the observer does not follow\<close>

text \<open>
  When a list of the deleted row is watched and the last watched list is one of the row that takes its
  place, the loop moves that entry into the freed slot and does not look at it: its row stays the old one,
  and later changes of that list are not recorded.  Without the first list they are.
\<close>

definition two_lists :: "list_change_info list" where
  "two_lists = [\<lparr>li_table = 0, li_row = 1, li_col = 0, li_changes = 0\<rparr>, \<lparr>li_table = 0, li_row = 2, li_col = 0, li_changes = 1\<rparr>]"

definition erase_log :: "instruction list" where
  "erase_log = [Select_Table 0 [], Erase_Rows 1 0 3 True, Select_Link_List 0 1 0, Link_List_Insert 0 9 0]"

theorem erase_forgets_moved_list:
  "(case advance_observed erase_log (no_request\<lparr>ci_lists := two_lists\<rparr>) (\<lambda>_. empty_builder) of
      Inr (info', builders') \<Rightarrow> cs_empty (builders' 1) | _ \<Rightarrow> False) \<and>
   (case advance_observed erase_log (no_request\<lparr>ci_lists := tl two_lists\<rparr>) (\<lambda>_. empty_builder) of
      Inr (info', builders') \<Rightarrow> contains (insertions (builders' 1)) 0 | _ \<Rightarrow> False)"
  by code_simp

text \<open>
  \<open>select_table\<close> returns early for a table nobody asked about, before it notes that a subtable was
  selected.  An insertion into a list of values of such a table then counts as a new row, and the watched
  lists of the table are looked for in the wrong rows.
\<close>

definition subtable_log :: "instruction list" where
  "subtable_log = [Select_Table 0 [(1, 0)], Insert_Empty_Rows 0 1 0 False, Select_Table 0 [], Select_Link_List 0 2 0, Link_List_Insert 0 9 0]"

theorem subtable_edit_shifts_rows:
  "case advance_observed subtable_log (no_request\<lparr>ci_lists := tl two_lists\<rparr>) (\<lambda>_. empty_builder) of
      Inr (info', builders') \<Rightarrow> cs_empty (builders' 1) \<and> map li_row (ci_lists info') = [3] | _ \<Rightarrow> False"
  by code_simp

end
