(* ===== verification/KVO_Properties.thy ===== *)
theory KVO_Properties
  imports KVO_Adapter Change_Edits
begin

text \<open>
  Properties of the translation of list changes for observers of single rows: a move has no counterpart
  there and becomes a set of the positions that hold something else afterwards.
\<close>

section \<open>One move\<close>

lemma ranges_single:
  assumes "wf m" "idx m = {f}"
  shows "ranges m = [(f, Suc f)]" "all_ranges m = [(f, Suc f)]" "last_second m = Suc f"
proof -
  have se: "sep (ranges m)" and ok: "list_all chunk_ok m" using assms(1) by (simp_all add: wf_def)
  have one: "r = (f, Suc f)" if "r \<in> set (ranges m)" for r
  proof -
    have lt: "fst r < snd r" using se that by (simp add: sep_def)
    have "{fst r..<snd r} \<subseteq> {f}" using that assms(2) by (auto simp: rset_def)
    moreover have "fst r \<in> {fst r..<snd r}" "snd r - 1 \<in> {fst r..<snd r}" using lt by auto
    ultimately have "fst r = f" "snd r - 1 = f" by blast+
    then show ?thesis using lt by (cases r) auto
  qed
  have ne: "ranges m \<noteq> []" using assms(2) by auto
  have "length (ranges m) \<le> 1"
  proof (rule ccontr)
    assume "\<not> length (ranges m) \<le> 1"
    then have l: "0 < length (ranges m)" "1 < length (ranges m)" by auto
    have "snd (ranges m ! 0) < fst (ranges m ! 1)"
      using se l by (simp add: sep_def sorted_wrt_iff_nth_less)
    moreover have "ranges m ! 0 = (f, Suc f)" "ranges m ! 1 = (f, Suc f)" using one l nth_mem by blast+
    ultimately show False by simp
  qed
  then have "length (ranges m) = Suc 0" using ne by (cases "ranges m") auto
  then obtain r where "ranges m = [r]" by (auto simp: length_Suc_conv)
  then show rs: "ranges m = [(f, Suc f)]" using one[of r] by simp
  show "all_ranges m = [(f, Suc f)]" using range_walk_all[OF ok] rs by simp
  have "ranges m = before m (it_prev m (it_end m)) @ [it_get m (it_prev m (it_end m))]"
    using it_prev_step(1)[OF ok, of "it_end m"] ne by simp
  then have "it_get m (it_prev m (it_end m)) = (f, Suc f)" unfolding rs by simp
  then show "last_second m = Suc f" by (simp add: last_second_def)
qed

lemma size_plus_small: "0 \<le> int i + d \<Longrightarrow> int i + d < 2 ^ 64 \<Longrightarrow> size_plus i d = nat (int i + d)"
  by (simp add: size_plus_def)

lemma mark_shifted_wf: "wf S \<Longrightarrow> wf (mark_shifted dels inss is dit iit sh S)"
  by (induction dels inss "is" dit iit sh S rule: mark_shifted.induct) (auto simp: Let_def split_def ix.ok_put)

lemma mark_forward:
  assumes "wf S" "f < t" "f < a" "a \<le> Suc t" "Suc t < 2 ^ 64"
  shows "idx (mark_shifted [(f, Suc f)] [(t, Suc t)] [a..<Suc t] dit 0 (-1) S) = idx S \<union> {a..<Suc t}"
  using assms
proof (induction "Suc t - a" arbitrary: a dit S)
  case (Suc n)
  then have a: "a < Suc t" by simp
  have u: "[a..<Suc t] = a # [Suc a..<Suc t]" using a by (rule upt_conv_Cons)
  have sp: "size_plus a (-1) = a - 1" using Suc.prems by (simp add: size_plus_def)
  have d: "\<exists>dit'. step_in_range [(f, Suc f)] dit a = (dit', False)"
    using Suc.prems(3) by (cases dit) (auto simp: step_in_range_def Let_def)
  then obtain dit' where d: "step_in_range [(f, Suc f)] dit a = (dit', False)" by blast
  have i: "step_in_range [(t, Suc t)] 0 (a - 1) = (0, False)" using a Suc.prems(3) by (simp add: step_in_range_def Let_def) linarith
  have "mark_shifted [(f, Suc f)] [(t, Suc t)] [a..<Suc t] dit 0 (-1) S =
      mark_shifted [(f, Suc f)] [(t, Suc t)] [Suc a..<Suc t] dit' 0 (-1) (add S a)"
    unfolding u mark_shifted.simps d Let_def prod.case if_False sp i by simp
  also have "idx \<dots> = idx (add S a) \<union> {Suc a..<Suc t}"
    by (rule Suc.hyps(1)) (use Suc.hyps(2) Suc.prems a in \<open>auto simp: ix.ok_put\<close>)
  also have "\<dots> = idx S \<union> {a..<Suc t}" using a Suc.prems(1) by (auto simp: ix.members_put)
  finally show ?case .
qed simp

lemma mark_backward:
  assumes "wf S" "t < a" "a \<le> Suc f" "Suc f < 2 ^ 64"
  shows "idx (mark_shifted [(f, Suc f)] [(t, Suc t)] [a..<Suc f] 0 iit 1 S) = idx S \<union> {a..<f}"
  using assms
proof (induction "Suc f - a" arbitrary: a iit S)
  case (Suc n)
  then have a: "a < Suc f" by simp
  have u: "[a..<Suc f] = a # [Suc a..<Suc f]" using a by (rule upt_conv_Cons)
  show ?case
  proof (cases "a = f")
    case True
    then show ?thesis by (simp add: u step_in_range_def Let_def)
  next
    case False
    then have af: "a < f" using a by simp
    have sp: "size_plus a 1 = a + 1" using Suc.prems af by (simp add: size_plus_def)
    have d: "step_in_range [(f, Suc f)] 0 a = (0, False)" using af by (auto simp: step_in_range_def Let_def)
    have "\<exists>iit'. step_in_range [(t, Suc t)] iit (a + 1) = (iit', False)"
      using Suc.prems(2) by (cases iit) (auto simp: step_in_range_def Let_def)
    then obtain iit' where i: "step_in_range [(t, Suc t)] iit (a + 1) = (iit', False)" by blast
    have "mark_shifted [(f, Suc f)] [(t, Suc t)] [a..<Suc f] 0 iit 1 S =
        mark_shifted [(f, Suc f)] [(t, Suc t)] [Suc a..<Suc f] 0 iit' 1 (add S a)"
      unfolding u mark_shifted.simps d Let_def prod.case if_False sp i by simp
    also have "idx \<dots> = idx (add S a) \<union> {Suc a..<f}"
      by (rule Suc.hyps(1)) (use Suc.hyps(2) Suc.prems a in \<open>auto simp: ix.ok_put\<close>)
    also have "\<dots> = idx S \<union> {a..<f}" using af Suc.prems(1) by (auto simp: ix.members_put)
    finally show ?thesis .
  qed
qed simp

lemma mark_moved_single:
  assumes b: "wf (deletions b)" "wf (insertions b)" "idx (deletions b) = {f}" "idx (insertions b) = {t}"
    and ft: "f \<noteq> t" "f < npos" "t < npos" and S: "wf S" "f \<in> idx S"
  shows "idx (mark_moved b S) = idx S \<union> {min f t..max f t}"
proof -
  note D = ranges_single[OF b(1,3)] and I = ranges_single[OF b(2,4)]
  have big: "Suc f < 2 ^ 64" "Suc t < 2 ^ 64" using ft(2,3) by (simp_all add: npos_def)
  show ?thesis
  proof (cases "f < t")
    case True
    have u: "[f..<Suc t] = f # [Suc f..<Suc t]" using True by (intro upt_conv_Cons) simp
    have m: "min t f = f" "max (Suc t) (Suc f) = Suc t" using True by simp_all
    have s: "step_in_range [(f, Suc f)] 0 f = (0, True)" by (simp add: step_in_range_def Let_def)
    have z: "(0 - 1 :: int) = -1" "((-1 :: int) \<noteq> 0) = True" by simp_all
    have "mark_moved b S = mark_shifted [(f, Suc f)] [(t, Suc t)] [Suc f..<Suc t] 0 0 (-1) (add S f)"
      unfolding mark_moved_def D(2,3) I(2,3) Let_def list.sel fst_conv m u mark_shifted.simps s prod.case if_True z ..
    also have "idx \<dots> = idx (add S f) \<union> {Suc f..<Suc t}"
      by (rule mark_forward[OF ix.ok_put[OF S(1)] True lessI _ big(2)]) (use True in linarith)
    also have "\<dots> = idx S \<union> {f..t}" unfolding ix.members_put[OF S(1)] using True by auto
    finally show ?thesis using True by (simp add: min_def max_def)
  next
    case False
    then have tf: "t < f" using ft(1) by simp
    have u: "[t..<Suc f] = t # [Suc t..<Suc f]" using tf by (intro upt_conv_Cons) simp
    have m: "min t f = t" "max (Suc t) (Suc f) = Suc f" using tf by simp_all
    have s: "step_in_range [(f, Suc f)] 0 t = (0, False)" "step_in_range [(t, Suc t)] 0 t = (0, True)"
      using tf by (auto simp: step_in_range_def Let_def)
    have sp: "size_plus t 0 = t" using big by (simp add: size_plus_def)
    have z: "(0 + 1 :: int) = 1" "((1 :: int) \<noteq> 0) = True" by simp_all
    have "mark_moved b S = mark_shifted [(f, Suc f)] [(t, Suc t)] [Suc t..<Suc f] 0 0 1 (add S t)"
      unfolding mark_moved_def D(2,3) I(2,3) Let_def list.sel fst_conv m u mark_shifted.simps s sp prod.case if_True if_False z ..
    also have "idx \<dots> = idx (add S t) \<union> {Suc t..<f}"
      by (rule mark_backward[OF ix.ok_put[OF S(1)] lessI _ big(1)]) (use tf in linarith)
    also have "\<dots> = idx S \<union> {t..f}" unfolding ix.members_put[OF S(1)] using tf S(2) by auto
    finally show ?thesis using tf by (simp add: min_def max_def)
  qed
qed

text \<open>
  C28.  When the net change of a list is one moved element, the observer is told of a set at exactly the
  modified positions and those between the old and the new position of the element; every position it is
  not told about holds what it held.
\<close>

theorem single_move_told:
  assumes "tracks b xs ys" "length xs = length ys" "length xs < npos" "moves b = [\<lparr>m_from = f, m_to = t\<rparr>]"
    and "f \<noteq> t" "Index_Set.count (insertions b) 0 npos = 1" "Index_Set.count (deletions b) 0 npos = 1"
  shows "let ci' = list_change n b ci in co_kind ci' = Set_Change \<and>
    idx (co_indices ci') = (idx (modifications b) - idx (insertions b)) \<union> {min f t..max f t} \<and>
    (\<forall>i < length xs. i \<notin> idx (co_indices ci') \<longrightarrow> ys ! i = xs ! i)"
proof -
  note T = tracksD[OF assms(1)] and A = appliesD[OF tracksD(5)[OF assms(1)]]
  have c: "card (idx (insertions b)) = 1" "card (idx (deletions b)) = 1"
  proof -
    have sub: "idx (insertions b) \<inter> {..<npos} = idx (insertions b)" "idx (deletions b) \<inter> {..<npos} = idx (deletions b)"
      using A(1,2) assms(2,3) by auto
    show "card (idx (insertions b)) = 1" using count_zero_spec[OF T(3), of npos] assms(6) sub(1) by simp
    show "card (idx (deletions b)) = 1" using count_zero_spec[OF T(2), of npos] assms(7) sub(2) by simp
  qed
  have "f \<in> idx (deletions b)" "t \<in> idx (insertions b)" using T(6) assms(4) by (simp_all add: moves_ok_def)
  then have D: "idx (deletions b) = {f}" and I: "idx (insertions b) = {t}" using c by (auto simp: card_1_singleton_iff)
  let ?b = "b\<lparr>modifications := removed (modifications b) (insertions b)\<rparr>"
  let ?S = "add_set (modifications ?b) (deletions ?b)"
  have S: "wf ?S" "idx ?S = (idx (modifications b) - {t}) \<union> {f}"
    using T(2-4) D I by (simp_all add: ix_ok ix_members)
  have fl: "f < length xs" "t < length xs" using A(1,2) D I assms(2) by auto
  have lc: "list_change n b ci = ci\<lparr>co_kind := Set_Change, co_indices := mark_moved ?b ?S\<rparr>"
    using assms(4,6,7) by (simp add: list_change_def)
  have mm: "idx (mark_moved ?b ?S) = idx ?S \<union> {min f t..max f t}"
    by (rule mark_moved_single) (use T(2,3) D I fl assms(3,5) S in auto)
  have ind: "idx (mark_moved ?b ?S) = (idx (modifications b) - idx (insertions b)) \<union> {min f t..max f t}"
    unfolding mm S(2) I by auto
  have "ys ! i = xs ! i" if i: "i < length xs" "i \<notin> {min f t..max f t}" for i
  proof -
    have ni: "i < length ys" "i \<notin> idx (insertions b)" using i assms(2) by (auto simp: I)
    have "rank_outside {t} i = rank_outside {f} i" using i(2) by (auto simp: rank_outside_singleton)
    moreover have "i \<notin> {f}" using i(2) by auto
    ultimately have "nth_outside {f} (rank_outside {t} i) = i" using nth_rank_outside[of "{f}" i] by simp
    then show ?thesis using applies_survivor(1)[OF T(5) ni] by (simp add: D I)
  qed
  then show ?thesis unfolding lc Let_def using ind by simp
qed

definition one_chunk :: "range list \<Rightarrow> size \<Rightarrow> size \<Rightarrow> size \<Rightarrow> crv" where
  "one_chunk rs b e n = [\<lparr>chunk_data = rs, chunk_begin = b, chunk_end = e, chunk_count = n\<rparr>]"

lemma small_size: "n < 1000 \<Longrightarrow> (n = npos) = False" "n < 1000 \<Longrightarrow> n < npos"
  by (simp_all add: npos_def)

definition moved_once :: "size \<Rightarrow> size \<Rightarrow> change_builder" where
  "moved_once f t = empty_builder\<lparr>deletions := one_chunk [(f, f + 1)] f (f + 1) 1,
     insertions := one_chunk [(t, t + 1)] t (t + 1) 1, moves := [\<lparr>m_from = f, m_to = t\<rparr>]\<rparr>"

lemma cb_move_empty:
  "cb_move empty_builder 0 2 = moved_once 0 2" "cb_move empty_builder 2 0 = moved_once 2 0"
proof -
  have e: "erase_or_unshift [] 0 = ([], 0)" "erase_or_unshift [] 2 = ([], 2)"
    "insert_at [] 2 1 = one_chunk [(2, 3)] 2 3 1" "insert_at [] 0 1 = one_chunk [(0, 1)] 0 1 1"
    "add_shifted [] 0 = (one_chunk [(0, 1)] 0 1 1, 0)" "add_shifted [] 2 = (one_chunk [(2, 3)] 2 3 1, 2)"
    "erase_at [] 0 = []" "erase_at [] 2 = []" "contains [] 0 = False" "contains [] 2 = False"
    "shift_for_insert_at [] 2 1 = []" "shift_for_insert_at [] 0 1 = []"
    by code_simp+
  show "cb_move empty_builder 0 2 = moved_once 0 2" "cb_move empty_builder 2 0 = moved_once 2 0"
    using small_size(1)[of 0] small_size(1)[of 2]
    by (simp_all add: cb_move_def empty_builder_def moved_once_def for_each_col_def Let_def
        e[unfolded One_nat_def])
qed

lemma count_card: "wf m \<Longrightarrow> idx m \<subseteq> {..<npos} \<Longrightarrow> Index_Set.count m 0 npos = card (idx m)"
  using count_zero_spec[of m npos] by (simp add: Int_absorb2)

theorem single_move_told_witness:
  "let ci' = list_change 3 (cb_move empty_builder 0 2) new_column_info in
    co_kind ci' = Set_Change \<and> idx (co_indices ci') = {0, 1, 2::nat}"
proof -
  let ?b = "cb_move empty_builder 0 2" and ?xs = "[10, 20, 30::nat]"
  have t: "tracks ?b ?xs (move_elem 0 2 ?xs)"
    by (rule tracks_move[OF tracks_empty]) (simp_all add: npos_def)
  note T = tracksD[OF t]
  have e: "move_elem 0 2 ?xs = [20, 30, 10]" by (simp add: move_elem_def)
  have m: "moves ?b = [\<lparr>m_from = 0, m_to = 2\<rparr>]" "modifications ?b = []"
    unfolding cb_move_empty by (simp_all add: moved_once_def empty_builder_def)
  have i: "idx (insertions ?b) = {2}" "idx (deletions ?b) = {0}"
    by (auto simp: cb_move_empty moved_once_def one_chunk_def rset_def)
  have n: "Index_Set.count (insertions ?b) 0 npos = 1" "Index_Set.count (deletions ?b) 0 npos = 1"
    using count_card[OF T(3)] count_card[OF T(2)] i small_size(2)[of 2] small_size(2)[of 0] by simp_all
  have "{min 0 2..max 0 (2::nat)} = {0, 1, 2}" by auto
  then show ?thesis
    using single_move_told[OF t _ _ m(1) _ n, of 3 new_column_info] small_size(2)[of 3] by (simp add: e m(2) Let_def)
qed

text \<open>
  With two moves the loop counts a run of insertions once only and takes a later deletion for its end: the
  elements 2 and 5 move to the front, the positions 3 and 4 change and are not told.
\<close>

definition moved_twice :: change_builder where
  "moved_twice = empty_builder\<lparr>deletions := one_chunk [(2, 3), (5, 6)] 2 6 2,
     insertions := one_chunk [(0, 2)] 0 2 2, moves := [\<lparr>m_from = 2, m_to = 0\<rparr>, \<lparr>m_from = 5, m_to = 1\<rparr>]\<rparr>"

lemma cb_move_twice: "cb_move (cb_move empty_builder 2 0) 5 1 = moved_twice"
proof -
  have e: "erase_or_unshift (one_chunk [(0, 1)] 0 1 1) 5 = (one_chunk [(0, 1)] 0 1 1, 4)"
    "insert_at (one_chunk [(0, 1)] 0 1 1) 1 1 = one_chunk [(0, 2)] 0 2 2"
    "add_shifted (one_chunk [(2, 3)] 2 3 1) 4 = (one_chunk [(2, 3), (5, 6)] 2 6 2, 5)"
    "erase_at [] 5 = []" "contains [] 5 = False" "shift_for_insert_at [] 1 1 = []"
    by code_simp+
  show ?thesis
    using small_size(1)[of 4]
    unfolding cb_move_empty
    by (simp add: cb_move_def moved_once_def moved_twice_def empty_builder_def for_each_col_def Let_def
        e[unfolded One_nat_def])
qed

theorem two_moves_missed:
  "let b = cb_move (cb_move empty_builder 2 0) 5 1; ci = list_change 6 b new_column_info;
     ys = move_elem 5 1 (move_elem 2 0 [0..<6]) in
   co_kind ci = Set_Change \<and> \<not> contains (co_indices ci) 3 \<and> \<not> contains (co_indices ci) 4 \<and> ys ! 3 \<noteq> 3 \<and> ys ! 4 \<noteq> 4"
proof -
  have w: "wf (insertions moved_twice)" "wf (deletions moved_twice)" by code_simp+
  have i: "idx (insertions moved_twice) = {0, 1}" "idx (deletions moved_twice) = {2, 5}"
    by (auto simp: moved_twice_def one_chunk_def rset_def)
  have n: "Index_Set.count (insertions moved_twice) 0 npos = 2" "Index_Set.count (deletions moved_twice) 0 npos = 2"
    using count_card[OF w(1)] count_card[OF w(2)] i small_size(2)[of 0] small_size(2)[of 1] small_size(2)[of 2] small_size(2)[of 5]
    by simp_all
  have m: "length (moves moved_twice) = 2" "moves moved_twice \<noteq> []" "modifications moved_twice = []"
    by (simp_all add: moved_twice_def empty_builder_def)
  let ?S = "mark_moved (moved_twice\<lparr>modifications := removed [] (insertions moved_twice)\<rparr>)
    (add_set (removed [] (insertions moved_twice)) (deletions moved_twice))"
  have l: "list_change 6 moved_twice new_column_info = new_column_info\<lparr>co_kind := Set_Change, co_indices := ?S\<rparr>"
    using n m by (simp add: list_change_def)
  have r: "all_ranges (insertions moved_twice) = [(0, 2)]" "all_ranges (deletions moved_twice) = [(2, 3), (5, 6)]"
    "last_second (insertions moved_twice) = 2" "last_second (deletions moved_twice) = 6"
    using w range_walk_all by (simp_all add: wf_def moved_twice_def one_chunk_def last_second_def it_get_def it_prev_def it_end_def)
  have u: "[0..<6] = [0, 1, 2, 3, 4, 5::nat]" by code_simp
  let ?d = "[(2, 3), (5, 6)] :: range list" and ?i = "[(0, 2)] :: range list"
  have st: "step_in_range ?d 0 0 = (0, False)" "step_in_range ?d 0 1 = (0, False)" "step_in_range ?d 0 2 = (0, True)"
    "step_in_range ?d 0 3 = (1, False)" "step_in_range ?d 1 4 = (1, False)" "step_in_range ?d 1 5 = (1, True)"
    "step_in_range ?i 0 0 = (0, True)" "step_in_range ?i 0 2 = (1, False)" "step_in_range ?i 1 3 = (1, False)"
    "step_in_range ?i 1 4 = (1, False)"
    by (simp_all add: step_in_range_def)
  have sp: "size_plus 0 0 = 0" "size_plus 1 1 = 2" "size_plus 3 0 = 3" "size_plus 4 0 = 4" by (simp_all add: size_plus_def)
  have z: "(0 + 1 :: int) = 1" "(1 - 1 :: int) = 0" "(0 - 1 :: int) = -1" "((1 :: int) \<noteq> 0) = True" "((0 :: int) \<noteq> 0) = False"
    "((-1 :: int) \<noteq> 0) = True" by simp_all
  have marked: "mark_shifted ?d ?i [0, 1, 2, 3, 4, 5] 0 0 0 S = add (add (add S 0) 1) 5" for S
    by (simp only: mark_shifted.simps Let_def st sp z prod.case if_True if_False)
  have mm: "min (0::size) 2 = 0" "max (2::size) 6 = 6" by simp_all
  have p: "insertions (moved_twice\<lparr>modifications := m\<rparr>) = insertions moved_twice"
    "deletions (moved_twice\<lparr>modifications := m\<rparr>) = deletions moved_twice" for m
    by simp_all
  have "?S = add (add (add (add_set (removed [] (insertions moved_twice)) (deletions moved_twice)) 0) 1) 5"
    unfolding mark_moved_def Let_def p r list.sel fst_conv mm u marked ..
  moreover have "wf (removed [] (insertions moved_twice))" "idx (removed [] (insertions moved_twice)) = {}"
    using removed_spec[OF wf_Nil w(1)] by simp_all
  ultimately have c: "\<not> contains ?S 3" "\<not> contains ?S 4" using w i by (simp_all add: ix_ok ix_members)
  have y: "move_elem 5 1 (move_elem 2 0 [0..<6]) ! 3 = 1" "move_elem 5 1 (move_elem 2 0 [0..<6]) ! 4 = 3" by code_simp+
  show ?thesis unfolding cb_move_twice Let_def l using c y by simp
qed

end
