(* ===== verification/Integer_Coding.thy ===== *)
theory Integer_Coding
  imports Transact_Instructions "HOL-Library.Monad_Syntax"
begin

text \<open>
  The integers of the transaction log: \<open>TransactLogEncoder::encode_int\<close> and
  \<open>TransactLogParser::read_int\<close>, with the blocks of input the parser reads from.
\<close>

unbundle bit_operations_syntax

section \<open>Integer types\<close>

text \<open>The types the two templates are used at, with their \<open>std::numeric_limits\<close>.\<close>

datatype int_type = Char_Type | Int32_Type | Int64_Type | Size_Type

fun digits :: "int_type \<Rightarrow> nat" where
  "digits Char_Type = 7"
| "digits Int32_Type = 31"
| "digits Int64_Type = 63"
| "digits Size_Type = 64"

fun is_signed :: "int_type \<Rightarrow> bool" where
  "is_signed Size_Type = False"
| "is_signed _ = True"

definition max_value :: "int_type \<Rightarrow> nat" where
  "max_value T = 2 ^ digits T - 1"

definition min_value :: "int_type \<Rightarrow> int" where
  "min_value T = (if is_signed T then - (2 ^ digits T) else 0)"

definition in_type :: "int_type \<Rightarrow> int \<Rightarrow> bool" where
  "in_type T v \<longleftrightarrow> min_value T \<le> v \<and> v \<le> int (max_value T)"

definition max_bytes :: "int_type \<Rightarrow> nat" where
  "max_bytes T = (digits T + 1 + 6) div 7"

section \<open>Encoding\<close>

text \<open>The loop, by the number of iterations left.\<close>

fun encode_loop :: "nat \<Rightarrow> bool \<Rightarrow> nat \<Rightarrow> byte list" where
  "encode_loop 0 negative v = [(if negative then 0x40 OR v else v) mod 256]"
| "encode_loop (Suc n) negative v =
     (if drop_bit 6 v = 0 then [(if negative then 0x40 OR v else v) mod 256]
      else (0x80 OR (v AND 0x7F)) mod 256 # encode_loop n negative (drop_bit 7 v))"

definition encode_int :: "int_type \<Rightarrow> int \<Rightarrow> byte list" where
  "encode_int T v =
     (let negative = v < 0; value = (if negative then - (v + 1) else v)
      in encode_loop (max_bytes T) negative (nat value))"

section \<open>The input\<close>

text \<open>
  The rest of the current block (\<open>m_input_begin\<close> to \<open>m_input_end\<close>), and the blocks that \<open>next_block\<close> has
  still to deliver before it returns false.  A delivered block is not empty.
\<close>

type_synonym input = "byte list \<times> byte list list"

fun next_input_buffer :: "input \<Rightarrow> input option" where
  "next_input_buffer (_, []) = None"
| "next_input_buffer (_, b # bs) = Some (b, bs)"

fun has_next :: "input \<Rightarrow> input option" where
  "has_next (c # cs, bs) = Some (c # cs, bs)"
| "has_next ([], bs) = next_input_buffer ([], bs)"

fun read_char :: "input \<Rightarrow> (byte \<times> input) option" where
  "read_char (c # cs, bs) = Some (c, cs, bs)"
| "read_char ([], (c # cs) # bs) = Some (c, cs, bs)"
| "read_char ([], _) = None"

section \<open>Decoding\<close>

text \<open>
  \<open>read_int\<close>: the loop, and the treatment of the sign.  A failure is \<open>BadTransactLog\<close>.  The test for bits
  above the eighth is left out, as a byte has none.
\<close>

function read_parts :: "int_type \<Rightarrow> nat \<Rightarrow> nat \<Rightarrow> input \<Rightarrow> ((nat \<times> byte) \<times> input) option" where
  "read_parts T i value s =
     (if max_bytes T \<le> i then Some ((value, 0), s)
      else do {
        (part, s) \<leftarrow> read_char s;
        if part AND 0x80 = 0 then
          let p = part AND 0x3F in
          if drop_bit (i * 7) (max_value T) < p then None
          else Some ((value OR push_bit (i * 7) p, part), s)
        else if Suc i = max_bytes T then None
        else read_parts T (Suc i) (value OR push_bit (i * 7) (part AND 0x7F)) s
      })"
  by pat_completeness auto
termination
  by (relation "measure (\<lambda>(T, i, v, s). max_bytes T - i)") auto

declare read_parts.simps [simp del]

definition negate :: "int_type \<Rightarrow> nat \<Rightarrow> int" where
  "negate T v = (if is_signed T then - int v else (- int v) mod 2 ^ digits T)"

text \<open>\<open>int_subtract_with_overflow_detect(value, 1)\<close>.\<close>

definition subtract_one :: "int_type \<Rightarrow> int \<Rightarrow> int option" where
  "subtract_one T v =
     (if is_signed T then if v < min_value T + 1 then None else Some (v - 1)
      else let v2 = (v - 1) mod 2 ^ digits T in if v < v2 then None else Some v2)"

definition read_int :: "int_type \<Rightarrow> input \<Rightarrow> (int \<times> input) option" where
  "read_int T s = do {
     (r, s) \<leftarrow> read_parts T 0 0 s;
     if snd r AND 0x40 \<noteq> 0 then case subtract_one T (negate T (fst r)) of None \<Rightarrow> None | Some v \<Rightarrow> Some (v, s)
     else Some (int (fst r), s)
   }"

section \<open>Bits\<close>

lemma and_masks:
  "(x::nat) AND 0x7F = x mod 128" "(x::nat) AND 0x3F = x mod 64"
proof -
  have "x AND 0x7F = x AND mask 7" "x AND 0x3F = x AND mask 6" by (simp_all add: mask_eq_exp_minus_1)
  then show "x AND 0x7F = x mod 128" "x AND 0x3F = x mod 64"
    by (simp_all only: take_bit_eq_mask[symmetric] take_bit_eq_mod) simp_all
qed

lemma and_bit: "(x::nat) AND 2 ^ n = (x div 2 ^ n mod 2) * 2 ^ n"
proof -
  have "x AND 2 ^ n = (if bit x n then 2 ^ n else 0)"
    by (rule bit_eqI) (auto simp: bit_and_iff bit_exp_iff)
  then show ?thesis by (simp add: bit_iff_odd odd_iff_mod_2_eq_one)
qed

lemma or_disjoint:
  assumes "(a::nat) < 2 ^ n"
  shows "a OR push_bit n b = a + b * 2 ^ n"
proof -
  have "a + push_bit n b = a OR push_bit n b"
  proof (rule disjunctive_add_eq_or, rule bit_eqI)
    fix k show "bit (a AND push_bit n b) k = bit 0 k"
    proof (cases "k < n")
      case False
      then have "a < 2 ^ k" using assms by (meson less_le_trans linorder_not_less one_le_numeral power_increasing)
      then have "\<not> bit a k" by (simp add: bit_iff_odd)
      then show ?thesis by (simp add: bit_and_iff)
    qed (simp add: bit_and_iff bit_push_bit_iff)
  qed
  then show ?thesis by (simp add: push_bit_eq_mult)
qed

lemma byte_bits:
  assumes "x < 128"
  shows "((0x80 OR x) mod 256) AND 0x80 \<noteq> (0::nat)" "((0x80 OR x) mod 256) AND 0x7F = x" "x AND 0x80 = 0"
proof -
  have o: "0x80 OR x = x + 128"
    using or_disjoint[of x 7 1] assms by (simp add: or.commute push_bit_eq_mult)
  then have m: "(0x80 OR x) mod 256 = x + 128" using assms by simp
  show "((0x80 OR x) mod 256) AND 0x80 \<noteq> 0" unfolding m using and_bit[of "x + 128" 7] assms by simp
  show "((0x80 OR x) mod 256) AND 0x7F = x" unfolding m and_masks using assms by simp
  show "x AND 0x80 = 0" using and_bit[of x 7] assms by simp
qed

definition last_byte :: "bool \<Rightarrow> nat \<Rightarrow> byte" where
  "last_byte negative v = (if negative then 0x40 OR v else v) mod 256"

lemma last_byte_bits:
  assumes "v < 64"
  shows "last_byte negative v AND 0x80 = 0" "last_byte negative v AND 0x3F = v" "(last_byte negative v AND 0x40 \<noteq> 0) = negative"
proof -
  have "0x40 OR v = v + 64" using or_disjoint[of v 6 1] assms by (simp add: or.commute push_bit_eq_mult)
  then have m: "last_byte negative v = (if negative then v + 64 else v)" using assms by (simp add: last_byte_def)
  show "last_byte negative v AND 0x80 = 0" unfolding m using byte_bits(3)[of "v + 64"] byte_bits(3)[of v] assms by simp
  show "last_byte negative v AND 0x3F = v" unfolding m and_masks using assms by simp
  show "(last_byte negative v AND 0x40 \<noteq> 0) = negative"
    unfolding m using and_bit[of "v + 64" 6] and_bit[of v 6] assms by (simp add: div_add_self2)
qed

section \<open>What is written\<close>

text \<open>Without the bound on the iterations.\<close>

fun groups :: "bool \<Rightarrow> nat \<Rightarrow> byte list" where
  "groups negative v = (if v < 64 then [last_byte negative v] else (0x80 OR (v mod 128)) mod 256 # groups negative (v div 128))"

declare groups.simps [simp del]

lemma encode_loop_groups: "v < 2 ^ (7 * n + 6) \<Longrightarrow> encode_loop n negative v = groups negative v"
proof (induction n arbitrary: v)
  case 0
  then show ?case by (simp add: groups.simps last_byte_def)
next
  case (Suc n)
  have "drop_bit 6 v = 0 \<longleftrightarrow> v < 64" by (simp add: drop_bit_eq_div div_eq_0_iff)
  moreover have "v div 128 < 2 ^ (7 * n + 6)" using Suc.prems by (simp add: less_mult_imp_div_less power_add)
  ultimately show ?case
    using Suc.IH[of "v div 128"] by (subst groups.simps) (simp add: last_byte_def and_masks drop_bit_eq_div)
qed

text \<open>The distance of a value from zero that is written: \<open>v\<close>, or \<open>-(v + 1)\<close> when \<open>v\<close> is negative.\<close>

definition magnitude :: "int \<Rightarrow> nat" where
  "magnitude v = nat (if v < 0 then - (v + 1) else v)"

lemma magnitude_bound: "in_type T v \<Longrightarrow> magnitude v < 2 ^ digits T"
  by (cases T) (auto simp: in_type_def magnitude_def min_value_def max_value_def)

lemma encode_int_groups: "in_type T v \<Longrightarrow> encode_int T v = groups (v < 0) (magnitude v)"
  using magnitude_bound[of T v] unfolding encode_int_def Let_def magnitude_def[symmetric]
  by (intro encode_loop_groups) (cases T; simp add: max_bytes_def)

section \<open>What is read back\<close>

lemma max_fits:
  assumes "acc < (2::nat) ^ k" "k \<le> d"
  shows "(2 ^ d - 1) div 2 ^ k < v \<longleftrightarrow> 2 ^ d - 1 < acc + v * 2 ^ k"
proof -
  have e: "(2::nat) ^ d = 2 ^ k * 2 ^ (d - k)" using assms(2) by (simp flip: power_add)
  have "(x * y - 1) div x = y - 1" if pos: "0 < x" "0 < y" for x y :: nat
  proof -
    obtain z where "y = Suc z" using pos by (cases y) auto
    then have "x * y - 1 = (x - 1) + z * x" using pos by (simp add: algebra_simps)
    moreover have "((x - 1) + z * x) div x = z" using pos(1) by (simp only: div_mult_self1) simp
    ultimately show ?thesis using \<open>y = Suc z\<close> by simp
  qed
  then have q: "((2::nat) ^ d - 1) div 2 ^ k = 2 ^ (d - k) - 1" unfolding e by simp
  show ?thesis
  proof (cases "v < 2 ^ (d - k)")
    case True
    then have "(v + 1) * 2 ^ k \<le> 2 ^ d" unfolding e by (subst mult.commute) (rule mult_le_mono2, simp)
    then show ?thesis using True assms(1) q by (simp add: algebra_simps) linarith
  next
    case False
    then have "2 ^ d \<le> v * 2 ^ k" unfolding e by (subst mult.commute) (rule mult_le_mono1, simp)
    moreover have "(2::nat) ^ d - 1 < 2 ^ d" "(2::nat) ^ (d - k) - 1 < 2 ^ (d - k)" by simp_all
    ultimately have "(2::nat) ^ d - 1 < acc + v * 2 ^ k" "(2::nat) ^ (d - k) - 1 < v" using False by linarith+
    then show ?thesis unfolding q by blast
  qed
qed

lemma max_bytes_digits:
  "i < max_bytes T \<Longrightarrow> 7 * i \<le> digits T" "Suc i = max_bytes T \<Longrightarrow> digits T \<le> 7 * i + 6" "0 < max_bytes T"
  by (cases T; simp add: max_bytes_def)+

lemma read_parts_groups:
  assumes "acc < 2 ^ (7 * i)" "i < max_bytes T"
  shows "\<exists>lb. (lb AND 0x40 \<noteq> 0) = negative \<and> read_parts T i acc (groups negative v @ rest, bs) =
    (if acc + v * 2 ^ (7 * i) \<le> max_value T then Some ((acc + v * 2 ^ (7 * i), lb), rest, bs) else None)"
  using assms
proof (induction negative v arbitrary: i acc rule: groups.induct)
  case (1 negative v)
  have k: "7 * i \<le> digits T" by (rule max_bytes_digits(1)[OF 1(3)])
  have c: "i * 7 = 7 * i" by simp
  show ?case
  proof (cases "v < 64")
    case True
    have "drop_bit (7 * i) (max_value T) < v \<longleftrightarrow> max_value T < acc + v * 2 ^ (7 * i)"
      using max_fits[OF 1(2) k] by (simp add: max_value_def drop_bit_eq_div)
    then have "read_parts T i acc (groups negative v @ rest, bs) =
      (if acc + v * 2 ^ (7 * i) \<le> max_value T then Some ((acc + v * 2 ^ (7 * i), last_byte negative v), rest, bs) else None)"
      using 1(3) True last_byte_bits[OF True, of negative] or_disjoint[OF 1(2), of v]
      by (subst groups.simps, subst read_parts.simps) (simp add: Let_def c)
    then show ?thesis using last_byte_bits(3)[OF True] by blast
  next
    case False
    let ?a = "acc + (v mod 128) * 2 ^ (7 * i)"
    have step: "read_parts T i acc (groups negative v @ rest, bs) =
      (if Suc i = max_bytes T then None else read_parts T (Suc i) ?a (groups negative (v div 128) @ rest, bs))"
      using 1(3) False byte_bits[of "v mod 128"] or_disjoint[OF 1(2), of "v mod 128"]
      by (subst groups.simps, subst read_parts.simps) (simp add: c)
    have p: "(2::nat) ^ (7 * Suc i) = 128 * 2 ^ (7 * i)" by (simp add: power_add)
    show ?thesis
    proof (cases "Suc i = max_bytes T")
      case True
      have "(2::nat) ^ digits T \<le> 2 ^ (7 * i + 6)" using max_bytes_digits(2)[OF True] by (intro power_increasing) simp_all
      also have "\<dots> \<le> v * 2 ^ (7 * i)" using False by (simp add: power_add)
      finally have "(2::nat) ^ digits T \<le> v * 2 ^ (7 * i)" .
      moreover have "max_value T < 2 ^ digits T" by (simp add: max_value_def)
      ultimately have "\<not> acc + v * 2 ^ (7 * i) \<le> max_value T" by linarith
      moreover have "(64 AND 0x40 \<noteq> (0::nat)) = True" "((0::nat) AND 0x40 \<noteq> (0::nat)) = False" by simp_all
      ultimately show ?thesis using step True by (metis (full_types))
    next
      case False
      then have i: "Suc i < max_bytes T" using 1(3) by simp
      have "(v mod 128) * 2 ^ (7 * i) \<le> 127 * 2 ^ (7 * i)" by (intro mult_right_mono) (simp_all add: less_Suc_eq_le[symmetric])
      then have a: "?a < 2 ^ (7 * Suc i)" unfolding p using 1(2) by linarith
      have "v * 2 ^ (7 * i) = (v div 128 * 128 + v mod 128) * 2 ^ (7 * i)" by simp
      also have "\<dots> = v div 128 * 2 ^ (7 * Suc i) + (v mod 128) * 2 ^ (7 * i)" unfolding p by (simp only: algebra_simps)
      finally have e: "?a + v div 128 * 2 ^ (7 * Suc i) = acc + v * 2 ^ (7 * i)" by simp
      show ?thesis using 1(1)[OF \<open>\<not> v < 64\<close> a i] step False unfolding e by simp
    qed
  qed
qed

text \<open>
  Reading a value as \<open>T\<close> that was written as some integer type: a signed \<open>T\<close> gives the value when it has one.
\<close>

lemma read_int_groups:
  "read_int T (groups (v < 0) (magnitude v) @ rest, bs) =
    (if max_value T < magnitude v then None
     else if v < 0 then (case subtract_one T (negate T (magnitude v)) of None \<Rightarrow> None | Some w \<Rightarrow> Some (w, rest, bs))
     else Some (v, rest, bs))"
proof -
  obtain lb where lb: "(lb AND 0x40 \<noteq> 0) = (v < 0)"
    "read_parts T 0 0 (groups (v < 0) (magnitude v) @ rest, bs) =
      (if 0 + magnitude v * 2 ^ (7 * 0) \<le> max_value T then Some ((0 + magnitude v * 2 ^ (7 * 0), lb), rest, bs) else None)"
    using read_parts_groups[of 0 0 T "v < 0" "magnitude v" rest bs] max_bytes_digits(3) by auto
  then show ?thesis
    unfolding read_int_def lb(2) by (auto simp: magnitude_def split: option.splits)
qed

lemma read_int_signed:
  "is_signed T \<Longrightarrow> read_int T (groups (v < 0) (magnitude v) @ rest, bs) = (if in_type T v then Some (v, rest, bs) else None)"
  unfolding read_int_groups
  by (cases T) (auto simp: subtract_one_def negate_def in_type_def min_value_def max_value_def magnitude_def)

lemma read_int_size:
  "read_int Size_Type (groups (v < 0) (magnitude v) @ rest, bs) =
    (if v = -1 then None else if - (2 ^ 64) \<le> v \<and> v < 2 ^ 64 then Some (v mod 2 ^ 64, rest, bs) else None)"
proof (cases "v < -1")
  case True
  show ?thesis
  proof (cases "- (2 ^ 64) \<le> v")
    case le: True
    have m: "x mod 2 ^ 64 = x + 2 ^ 64" if "- (2 ^ 64) \<le> x" "x < 0" for x :: int
    proof -
      have "x mod 2 ^ 64 = (x + 2 ^ 64) mod 2 ^ 64" by simp
      also have "\<dots> = x + 2 ^ 64" by (rule mod_pos_pos_trivial) (use that in auto)
      finally show ?thesis .
    qed
    show ?thesis
      unfolding read_int_groups using True le m[of v] m[of "1 + v"] by (simp add: subtract_one_def negate_def max_value_def magnitude_def)
  next
    case False
    then have "max_value Size_Type < magnitude v" by (simp add: max_value_def magnitude_def)
    then show ?thesis unfolding read_int_groups using False by simp
  qed
next
  case False
  then show ?thesis unfolding read_int_groups by (auto simp: subtract_one_def negate_def max_value_def magnitude_def)
qed

lemma read_int_encoded:
  assumes "in_type T v"
  shows "read_int T (encode_int T v @ rest, bs) = Some (v, rest, bs)"
proof (cases "is_signed T")
  case True
  then show ?thesis using assms by (simp add: encode_int_groups read_int_signed)
next
  case False
  then have "T = Size_Type" by (cases T) simp_all
  then show ?thesis
    using assms read_int_size[of v rest bs] by (auto simp: encode_int_groups in_type_def min_value_def max_value_def)
qed

lemma in_size: "n \<le> npos \<Longrightarrow> in_type Size_Type (int n)"
  by (simp add: in_type_def min_value_def max_value_def npos_def)

section \<open>The number of bytes\<close>

fun bit_width :: "nat \<Rightarrow> nat" where
  "bit_width v = (if v = 0 then 0 else Suc (bit_width (v div 2)))"

declare bit_width.simps [simp del]

lemma bit_width_le: "v < 2 ^ n \<Longrightarrow> bit_width v \<le> n"
proof (induction n arbitrary: v)
  case (Suc n)
  then show ?case by (subst bit_width.simps) (simp add: less_mult_imp_div_less)
qed (simp add: bit_width.simps)

lemma bit_width_split: "2 ^ n \<le> 2 * v \<Longrightarrow> bit_width v = n + bit_width (v div 2 ^ n)"
proof (induction n arbitrary: v)
  case (Suc n)
  then have v: "v \<noteq> 0" "2 ^ n \<le> v" by (auto intro: Nat.gr0I)
  show ?case
  proof (cases n)
    case 0
    then show ?thesis using v by (subst bit_width.simps) simp
  next
    case m: (Suc m)
    then have "2 ^ m \<le> v div 2" using v(2) by simp
    then have "2 ^ n \<le> 2 * (v div 2)" using m by simp
    then have "bit_width (v div 2) = n + bit_width (v div 2 div 2 ^ n)" by (rule Suc.IH)
    then show ?thesis using v(1) by (subst bit_width.simps) (simp add: div_mult2_eq)
  qed
qed simp

lemma length_groups: "length (groups negative v) = (bit_width v + 1 + 6) div 7"
proof (induction negative v rule: groups.induct)
  case (1 negative v)
  show ?case
  proof (cases "v < 64")
    case True
    then have "bit_width v \<le> 6" using bit_width_le[of v 6] by simp
    then show ?thesis using True by (subst groups.simps) simp
  next
    case False
    then have "bit_width v = 7 + bit_width (v div 128)" using bit_width_split[of 7 v] by simp
    then show ?thesis using 1[OF False] False by (subst groups.simps) simp
  qed
qed

lemma length_encode_int:
  assumes "in_type T v"
  shows "length (encode_int T v) = (bit_width (magnitude v) + 1 + 6) div 7" "length (encode_int T v) \<le> 10"
proof -
  show l: "length (encode_int T v) = (bit_width (magnitude v) + 1 + 6) div 7"
    by (simp add: encode_int_groups[OF assms] length_groups)
  have "bit_width (magnitude v) \<le> 64"
    using bit_width_le[OF magnitude_bound[OF assms]] by (cases T) simp_all
  then have "(bit_width (magnitude v) + 1 + 6) div 7 \<le> 71 div 7" by (intro div_le_mono) simp
  then show "length (encode_int T v) \<le> 10" unfolding l by simp
qed

lemma encode_int_ne: "encode_int T v \<noteq> []"
  unfolding encode_int_def Let_def by (cases "max_bytes T") simp_all

end
