(* ===== verification/Transact_Parser.thy ===== *)
theory Transact_Parser
  imports Integer_Coding
begin

text \<open>
  \<open>TransactLogParser\<close> (\<open>core/realm/impl/transact_log.hpp\<close>): reading the values, the instructions and the
  whole log, and the calls of the handler.  \<open>BadTransactLog\<close> is \<open>None\<close> for the readers.  The handler is a
  parameter; it returns false or throws an error of its own.
\<close>

section \<open>Codes\<close>

text \<open>\<open>enum Instruction\<close>.\<close>

datatype instr =
    Instr_Insert_Group_Level_Table | Instr_Erase_Group_Level_Table | Instr_Rename_Group_Level_Table
  | Instr_Move_Group_Level_Table | Instr_Select_Table | Instr_Set | Instr_Set_Unique | Instr_Set_Default
  | Instr_Add_Integer | Instr_Nullify_Link | Instr_Insert_Substring | Instr_Erase_From_String
  | Instr_Insert_Empty_Rows | Instr_Erase_Rows | Instr_Swap_Rows | Instr_Move_Row | Instr_Merge_Rows
  | Instr_Clear_Table | Instr_Optimize_Table | Instr_Select_Descriptor | Instr_Insert_Column
  | Instr_Insert_Link_Column | Instr_Insert_Nullable_Column | Instr_Erase_Column | Instr_Erase_Link_Column
  | Instr_Rename_Column | Instr_Move_Column | Instr_Add_Search_Index | Instr_Remove_Search_Index
  | Instr_Set_Link_Type | Instr_Select_Link_List | Instr_Link_List_Set | Instr_Link_List_Insert
  | Instr_Link_List_Move | Instr_Link_List_Swap | Instr_Link_List_Erase | Instr_Link_List_Nullify
  | Instr_Link_List_Clear | Instr_Link_List_Set_All | Instr_Add_Row_With_Key

definition all_instrs :: "instr list" where
  "all_instrs =
     [Instr_Insert_Group_Level_Table, Instr_Erase_Group_Level_Table, Instr_Rename_Group_Level_Table,
      Instr_Move_Group_Level_Table, Instr_Select_Table, Instr_Set, Instr_Set_Unique, Instr_Set_Default,
      Instr_Add_Integer, Instr_Nullify_Link, Instr_Insert_Substring, Instr_Erase_From_String,
      Instr_Insert_Empty_Rows, Instr_Erase_Rows, Instr_Swap_Rows, Instr_Move_Row, Instr_Merge_Rows,
      Instr_Clear_Table, Instr_Optimize_Table, Instr_Select_Descriptor, Instr_Insert_Column,
      Instr_Insert_Link_Column, Instr_Insert_Nullable_Column, Instr_Erase_Column, Instr_Erase_Link_Column,
      Instr_Rename_Column, Instr_Move_Column, Instr_Add_Search_Index, Instr_Remove_Search_Index,
      Instr_Set_Link_Type, Instr_Select_Link_List, Instr_Link_List_Set, Instr_Link_List_Insert,
      Instr_Link_List_Move, Instr_Link_List_Swap, Instr_Link_List_Erase, Instr_Link_List_Nullify,
      Instr_Link_List_Clear, Instr_Link_List_Set_All, Instr_Add_Row_With_Key]"

text \<open>The values are given from 1 in this order; \<open>Instruction(c)\<close> of any other character is no case of the switch.\<close>

definition instr_of :: "byte \<Rightarrow> instr option" where
  "instr_of c = (if 1 \<le> c \<and> c \<le> length all_instrs then Some (all_instrs ! (c - 1)) else None)"

text \<open>\<open>enum DataType\<close> and \<open>enum LinkType\<close>.\<close>

fun data_type_code :: "data_type \<Rightarrow> nat" where
  "data_type_code Type_Int = 0"
| "data_type_code Type_Bool = 1"
| "data_type_code Type_String = 2"
| "data_type_code Type_Binary = 4"
| "data_type_code Type_Table = 5"
| "data_type_code Type_Mixed = 6"
| "data_type_code Type_Old_Date_Time = 7"
| "data_type_code Type_Timestamp = 8"
| "data_type_code Type_Float = 9"
| "data_type_code Type_Double = 10"
| "data_type_code Type_Link = 12"
| "data_type_code Type_Link_List = 13"

definition all_data_types :: "data_type list" where
  "all_data_types = [Type_Int, Type_Bool, Type_String, Type_Binary, Type_Table, Type_Mixed, Type_Old_Date_Time,
     Type_Timestamp, Type_Float, Type_Double, Type_Link, Type_Link_List]"

definition data_type_of :: "int \<Rightarrow> data_type option" where
  "data_type_of v = List.find (\<lambda>t. int (data_type_code t) = v) all_data_types"

definition link_type_of :: "int \<Rightarrow> link_type option" where
  "link_type_of v = (if v = 0 then Some Link_Strong else if v = 1 then Some Link_Weak else None)"

text \<open>\<open>Table::max_string_size\<close>, with \<open>Array::header_size\<close> 8.\<close>

definition max_string_size :: size where
  "max_string_size = 0xFFFFF8 - 8 - 1"

section \<open>Values\<close>

definition read_size :: "input \<Rightarrow> (size \<times> input) option" where
  "read_size s = do { (n, s) \<leftarrow> read_int Size_Type s; Some (nat n, s) }"

fun read_bytes :: "nat \<Rightarrow> input \<Rightarrow> (byte list \<times> input) option" where
  "read_bytes n (chunk, []) = (if n \<le> length chunk then Some (take n chunk, drop n chunk, []) else None)"
| "read_bytes n (chunk, b # bs) =
     (if n \<le> length chunk then Some (take n chunk, drop n chunk, b # bs)
      else do { (data, s) \<leftarrow> read_bytes (n - length chunk) (b, bs); Some (chunk @ data, s) })"

fun read_buffer :: "nat \<Rightarrow> input \<Rightarrow> (byte list \<times> input) option" where
  "read_buffer n (chunk, bs) =
     (if n \<le> length chunk then Some (take n chunk, drop n chunk, bs) else read_bytes n (chunk, bs))"

definition read_bool :: "input \<Rightarrow> (bool \<times> input) option" where
  "read_bool s = do { (v, s) \<leftarrow> read_int Char_Type s; Some (v \<noteq> 0, s) }"

definition read_float :: "input \<Rightarrow> (byte list \<times> input) option" where
  "read_float s = read_bytes 4 s"

definition read_double :: "input \<Rightarrow> (byte list \<times> input) option" where
  "read_double s = read_bytes 8 s"

definition read_string :: "input \<Rightarrow> (byte list \<times> input) option" where
  "read_string s = do { (n, s) \<leftarrow> read_size s; if max_string_size < n then None else read_buffer n s }"

definition read_binary :: "input \<Rightarrow> (byte list \<times> input) option" where
  "read_binary s = do { (n, s) \<leftarrow> read_size s; read_buffer n s }"

fun read_mixed_value :: "data_type \<Rightarrow> input \<Rightarrow> (mixed \<times> input) option" where
  "read_mixed_value Type_Int s = do { (v, s) \<leftarrow> read_int Int64_Type s; Some (Mixed_Int v, s) }"
| "read_mixed_value Type_Bool s = do { (v, s) \<leftarrow> read_bool s; Some (Mixed_Bool v, s) }"
| "read_mixed_value Type_Float s = do { (v, s) \<leftarrow> read_float s; Some (Mixed_Float v, s) }"
| "read_mixed_value Type_Double s = do { (v, s) \<leftarrow> read_double s; Some (Mixed_Double v, s) }"
| "read_mixed_value Type_Old_Date_Time s = do { (v, s) \<leftarrow> read_int Int64_Type s; Some (Mixed_Old_Date_Time v, s) }"
| "read_mixed_value Type_Timestamp s = do {
     (sec, s) \<leftarrow> read_int Int64_Type s; (nano, s) \<leftarrow> read_int Int32_Type s; Some (Mixed_Timestamp sec nano, s) }"
| "read_mixed_value Type_String s = do { (v, s) \<leftarrow> read_string s; Some (Mixed_String v, s) }"
| "read_mixed_value Type_Binary s = do { (v, s) \<leftarrow> read_binary s; Some (Mixed_Binary v, s) }"
| "read_mixed_value Type_Table s = Some (Mixed_Table, s)"
| "read_mixed_value Type_Mixed s = None"
| "read_mixed_value Type_Link s = None"
| "read_mixed_value Type_Link_List s = None"

definition read_mixed :: "input \<Rightarrow> (mixed \<times> input) option" where
  "read_mixed s = do {
     (type, s) \<leftarrow> read_int Int32_Type s;
     case data_type_of type of None \<Rightarrow> None | Some t \<Rightarrow> read_mixed_value t s }"

fun read_cell_value :: "data_type \<Rightarrow> input \<Rightarrow> (cell_value \<times> input) option" where
  "read_cell_value Type_Int s = do { (v, s) \<leftarrow> read_int Int64_Type s; Some (Int_Value v, s) }"
| "read_cell_value Type_Bool s = do { (v, s) \<leftarrow> read_bool s; Some (Bool_Value v, s) }"
| "read_cell_value Type_Float s = do { (v, s) \<leftarrow> read_float s; Some (Float_Value v, s) }"
| "read_cell_value Type_Double s = do { (v, s) \<leftarrow> read_double s; Some (Double_Value v, s) }"
| "read_cell_value Type_String s = do { (v, s) \<leftarrow> read_string s; Some (String_Value v, s) }"
| "read_cell_value Type_Binary s = do { (v, s) \<leftarrow> read_binary s; Some (Binary_Value v, s) }"
| "read_cell_value Type_Old_Date_Time s = do { (v, s) \<leftarrow> read_int Int64_Type s; Some (Old_Date_Time_Value v, s) }"
| "read_cell_value Type_Timestamp s = do {
     (sec, s) \<leftarrow> read_int Int64_Type s; (nano, s) \<leftarrow> read_int Int32_Type s; Some (Timestamp_Value sec nano, s) }"
| "read_cell_value Type_Table s = Some (Table_Value, s)"
| "read_cell_value Type_Mixed s = do { (v, s) \<leftarrow> read_mixed s; Some (Mixed_Value v, s) }"
| "read_cell_value Type_Link s = do {
     (v, s) \<leftarrow> read_size s; (target, s) \<leftarrow> read_size s; Some (Link_Value (size_sub v 1) target, s) }"
| "read_cell_value Type_Link_List s = None"

primrec read_sizes :: "nat \<Rightarrow> input \<Rightarrow> (size list \<times> input) option" where
  "read_sizes 0 s = Some ([], s)"
| "read_sizes (Suc n) s = do { (x, s) \<leftarrow> read_size s; (xs, s) \<leftarrow> read_sizes n s; Some (x # xs, s) }"

primrec read_path :: "nat \<Rightarrow> input \<Rightarrow> ((size \<times> size) list \<times> input) option" where
  "read_path 0 s = Some ([], s)"
| "read_path (Suc n) s = do {
     (col, s) \<leftarrow> read_size s; (row, s) \<leftarrow> read_size s; (path, s) \<leftarrow> read_path n s; Some ((col, row) # path, s) }"

text \<open>\<open>m_max_levels\<close>.\<close>

definition max_levels :: int where
  "max_levels = 1024"

definition read_levels :: "input \<Rightarrow> (nat \<times> input) option" where
  "read_levels s = do {
     (levels, s) \<leftarrow> read_int Int32_Type s;
     if levels < 0 \<or> max_levels < levels then None else Some (nat levels, s) }"

section \<open>Instructions\<close>

text \<open>
  \<open>parse_one\<close> up to the call of the handler.  Only \<open>instr_LinkListSetAll\<close> reads between the calls it makes.
  The number of rows that precedes a unique value is handed on for every type of value here; the code
  passes it on for integers, strings and null only.
\<close>

datatype log_call = Call instruction | Set_All_Links size

definition read_set :: "instr \<Rightarrow> input \<Rightarrow> (log_call \<times> input) option" where
  "read_set instr s = do {
     (type, s) \<leftarrow> read_int Int32_Type s;
     (col, s) \<leftarrow> read_size s;
     (row, s) \<leftarrow> read_size s;
     (prior, s) \<leftarrow> (if instr = Instr_Set_Unique then read_size s else Some (0, s));
     let variant = (if instr = Instr_Set_Unique then Unique_Set prior else if instr = Instr_Set_Default then Default_Set else Plain_Set);
     if type = -1 then Some (Call (Set_Cell variant col row Null_Value), s)
     else case data_type_of type of
         None \<Rightarrow> None
       | Some t \<Rightarrow> do { (v, s) \<leftarrow> read_cell_value t s; Some (Call (Set_Cell variant col row v), s) } }"

definition read_1 :: "(size \<Rightarrow> instruction) \<Rightarrow> input \<Rightarrow> (log_call \<times> input) option" where
  "read_1 f s = do { (a, s) \<leftarrow> read_size s; Some (Call (f a), s) }"

definition read_2 :: "(size \<Rightarrow> size \<Rightarrow> instruction) \<Rightarrow> input \<Rightarrow> (log_call \<times> input) option" where
  "read_2 f s = do { (a, s) \<leftarrow> read_size s; (b, s) \<leftarrow> read_size s; Some (Call (f a b), s) }"

definition read_3 :: "(size \<Rightarrow> size \<Rightarrow> size \<Rightarrow> instruction) \<Rightarrow> input \<Rightarrow> (log_call \<times> input) option" where
  "read_3 f s = do { (a, s) \<leftarrow> read_size s; (b, s) \<leftarrow> read_size s; (c, s) \<leftarrow> read_size s; Some (Call (f a b c), s) }"

definition read_insert_column :: "bool \<Rightarrow> input \<Rightarrow> (log_call \<times> input) option" where
  "read_insert_column nullable s = do {
     (col, s) \<leftarrow> read_size s;
     (type, s) \<leftarrow> read_int Int32_Type s;
     case data_type_of type of
       None \<Rightarrow> None
     | Some t \<Rightarrow>
         if t = Type_Link \<or> t = Type_Link_List then None
         else do {
           (name, s) \<leftarrow> read_string s;
           if nullable \<and> t = Type_Mixed then None else Some (Call (Insert_Column col t name nullable), s) } }"

definition read_insert_link_column :: "input \<Rightarrow> (log_call \<times> input) option" where
  "read_insert_link_column s = do {
     (col, s) \<leftarrow> read_size s;
     (type, s) \<leftarrow> read_int Int32_Type s;
     case data_type_of type of
       None \<Rightarrow> None
     | Some t \<Rightarrow>
         if t \<noteq> Type_Link \<and> t \<noteq> Type_Link_List then None
         else do {
           (target, s) \<leftarrow> read_size s;
           (backlink, s) \<leftarrow> read_size s;
           (name, s) \<leftarrow> read_string s;
           Some (Call (Insert_Link_Column col t name target backlink), s) } }"

fun read_operands :: "instr \<Rightarrow> input \<Rightarrow> (log_call \<times> input) option" where
  "read_operands Instr_Set_Default s = read_set Instr_Set_Default s"
| "read_operands Instr_Set_Unique s = read_set Instr_Set_Unique s"
| "read_operands Instr_Set s = read_set Instr_Set s"
| "read_operands Instr_Add_Integer s = do {
     (col, s) \<leftarrow> read_size s; (row, s) \<leftarrow> read_size s; (v, s) \<leftarrow> read_int Int64_Type s; Some (Call (Add_Int col row v), s) }"
| "read_operands Instr_Nullify_Link s = read_3 Nullify_Link s"
| "read_operands Instr_Insert_Substring s = do {
     (col, s) \<leftarrow> read_size s; (row, s) \<leftarrow> read_size s; (pos, s) \<leftarrow> read_size s; (v, s) \<leftarrow> read_string s;
     Some (Call (Insert_Substring col row pos v), s) }"
| "read_operands Instr_Erase_From_String s = do {
     (col, s) \<leftarrow> read_size s; (row, s) \<leftarrow> read_size s; (pos, s) \<leftarrow> read_size s; (n, s) \<leftarrow> read_size s;
     Some (Call (Erase_Substring col row pos n), s) }"
| "read_operands Instr_Insert_Empty_Rows s = do {
     (row, s) \<leftarrow> read_size s; (n, s) \<leftarrow> read_size s; (prior, s) \<leftarrow> read_size s; (unordered, s) \<leftarrow> read_bool s;
     Some (Call (Insert_Empty_Rows row n prior unordered), s) }"
| "read_operands Instr_Add_Row_With_Key s = do {
     (row, s) \<leftarrow> read_size s; (prior, s) \<leftarrow> read_size s; (col, s) \<leftarrow> read_size s; (key, s) \<leftarrow> read_int Int64_Type s;
     Some (Call (Add_Row_With_Key row prior col key), s) }"
| "read_operands Instr_Erase_Rows s = do {
     (row, s) \<leftarrow> read_size s; (n, s) \<leftarrow> read_size s; (prior, s) \<leftarrow> read_size s; (unordered, s) \<leftarrow> read_bool s;
     Some (Call (Erase_Rows row n prior unordered), s) }"
| "read_operands Instr_Swap_Rows s = read_2 Swap_Rows s"
| "read_operands Instr_Move_Row s = read_2 Move_Row s"
| "read_operands Instr_Merge_Rows s = read_2 Merge_Rows s"
| "read_operands Instr_Select_Table s = do {
     (levels, s) \<leftarrow> read_levels s; (tbl, s) \<leftarrow> read_size s; (path, s) \<leftarrow> read_path levels s; Some (Call (Select_Table tbl path), s) }"
| "read_operands Instr_Clear_Table s = read_1 Clear_Table s"
| "read_operands Instr_Link_List_Set s = read_3 Link_List_Set s"
| "read_operands Instr_Link_List_Set_All s = do { (n, s) \<leftarrow> read_size s; Some (Set_All_Links n, s) }"
| "read_operands Instr_Link_List_Insert s = read_3 Link_List_Insert s"
| "read_operands Instr_Link_List_Move s = read_2 Link_List_Move s"
| "read_operands Instr_Link_List_Swap s = read_2 Link_List_Swap s"
| "read_operands Instr_Link_List_Erase s = read_2 Link_List_Erase s"
| "read_operands Instr_Link_List_Nullify s = read_2 Link_List_Nullify s"
| "read_operands Instr_Link_List_Clear s = read_1 Link_List_Clear s"
| "read_operands Instr_Select_Link_List s = read_3 Select_Link_List s"
| "read_operands Instr_Move_Column s = None"
| "read_operands Instr_Add_Search_Index s = read_1 Add_Search_Index s"
| "read_operands Instr_Remove_Search_Index s = read_1 Remove_Search_Index s"
| "read_operands Instr_Set_Link_Type s = do {
     (col, s) \<leftarrow> read_size s; (type, s) \<leftarrow> read_int Int32_Type s;
     case link_type_of type of None \<Rightarrow> None | Some t \<Rightarrow> Some (Call (Set_Link_Type col t), s) }"
| "read_operands Instr_Insert_Column s = read_insert_column False s"
| "read_operands Instr_Insert_Nullable_Column s = read_insert_column True s"
| "read_operands Instr_Insert_Link_Column s = read_insert_link_column s"
| "read_operands Instr_Erase_Column s = read_1 Erase_Column s"
| "read_operands Instr_Erase_Link_Column s = read_3 Erase_Link_Column s"
| "read_operands Instr_Rename_Column s = do {
     (col, s) \<leftarrow> read_size s; (name, s) \<leftarrow> read_string s; Some (Call (Rename_Column col name), s) }"
| "read_operands Instr_Select_Descriptor s = do {
     (levels, s) \<leftarrow> read_levels s; (path, s) \<leftarrow> read_sizes levels s; Some (Call (Select_Descriptor path), s) }"
| "read_operands Instr_Insert_Group_Level_Table s = do {
     (tbl, s) \<leftarrow> read_size s; (num, s) \<leftarrow> read_size s; (name, s) \<leftarrow> read_string s;
     Some (Call (Insert_Group_Level_Table tbl num name), s) }"
| "read_operands Instr_Erase_Group_Level_Table s = read_2 Erase_Group_Level_Table s"
| "read_operands Instr_Rename_Group_Level_Table s = do {
     (tbl, s) \<leftarrow> read_size s; (name, s) \<leftarrow> read_string s; Some (Call (Rename_Group_Level_Table tbl name), s) }"
| "read_operands Instr_Move_Group_Level_Table s = None"
| "read_operands Instr_Optimize_Table s = Some (Call Optimize_Table, s)"

definition read_call :: "input \<Rightarrow> (log_call \<times> input) option" where
  "read_call s = do {
     (c, s) \<leftarrow> read_char s;
     case instr_of c of None \<Rightarrow> None | Some instr \<Rightarrow> read_operands instr s }"

end
