(* ===== verification/Transact_Parsing.thy ===== *)
theory Transact_Parsing
  imports Transact_Parser
begin

text \<open>
  The loop of the parser, its termination, and that nothing depends on how the log is cut into blocks.
\<close>

section \<open>Readers\<close>

definition flat :: "input \<Rightarrow> byte list" where
  "flat s = fst s @ concat (snd s)"

text \<open>What \<open>next_block\<close> promises: a block that is delivered is not empty.\<close>

definition full_blocks :: "input \<Rightarrow> bool" where
  "full_blocks s \<longleftrightarrow> [] \<notin> set (snd s)"

lemma flat_pair [simp]: "flat (c, bs) = c @ concat bs"
  by (simp add: flat_def)

lemma full_blocks_pair [simp]: "full_blocks (c, bs) \<longleftrightarrow> [] \<notin> set bs"
  by (simp add: full_blocks_def)

text \<open>What a reader leaves is not longer than what it was given.\<close>

definition consumes :: "(input \<Rightarrow> ('a \<times> input) option) \<Rightarrow> bool" where
  "consumes p \<longleftrightarrow> (\<forall>s x s'. p s = Some (x, s') \<longrightarrow> length (flat s') \<le> length (flat s))"

text \<open>A reader gives the same when all the bytes are in one block.\<close>

definition blind :: "(input \<Rightarrow> ('a \<times> input) option) \<Rightarrow> bool" where
  "blind p \<longleftrightarrow> (\<forall>s. full_blocks s \<longrightarrow>
     (case p (flat s, []) of
        None \<Rightarrow> p s = None
      | Some (x, t) \<Rightarrow> snd t = [] \<and> (\<exists>s'. p s = Some (x, s') \<and> full_blocks s' \<and> flat s' = fst t)))"

text \<open>More bytes do not change what was read.\<close>

definition extends :: "(input \<Rightarrow> ('a \<times> input) option) \<Rightarrow> bool" where
  "extends p \<longleftrightarrow> (\<forall>b u x t. p (b, []) = Some (x, t) \<longrightarrow> p (b @ u, []) = Some (x, fst t @ u, []))"

definition reader :: "(input \<Rightarrow> ('a \<times> input) option) \<Rightarrow> bool" where
  "reader p \<longleftrightarrow> consumes p \<and> blind p \<and> extends p"

named_theorems readers \<open>functions that are readers\<close>

lemma consumesD: "consumes p \<Longrightarrow> p s = Some (x, s') \<Longrightarrow> length (flat s') \<le> length (flat s)"
  unfolding consumes_def by blast

lemma blindI:
  assumes "\<And>s. full_blocks s \<Longrightarrow> p (flat s, []) = None \<Longrightarrow> p s = None"
    and "\<And>s x t ts. full_blocks s \<Longrightarrow> p (flat s, []) = Some (x, t, ts) \<Longrightarrow>
      ts = [] \<and> (\<exists>s'. p s = Some (x, s') \<and> full_blocks s' \<and> flat s' = t)"
  shows "blind p"
  unfolding blind_def using assms by (auto split: option.splits prod.splits)

lemma blindE:
  assumes "blind p" "full_blocks s"
  obtains "p (flat s, []) = None" "p s = None"
    | x t s' where "p (flat s, []) = Some (x, t, [])" "p s = Some (x, s')" "full_blocks s'" "flat s' = t"
  using assms unfolding blind_def by (fastforce split: option.splits prod.splits)

lemma extends_some: "extends p \<Longrightarrow> p (b, []) = Some (x, t) \<Longrightarrow> p (b @ u, []) = Some (x, fst t @ u, [])"
  unfolding extends_def by blast

lemma readerD: "reader p \<Longrightarrow> consumes p" "reader p \<Longrightarrow> blind p" "reader p \<Longrightarrow> extends p"
  by (simp_all add: reader_def)

text \<open>Within one block, nothing but a rest of the block is left.\<close>

lemma blind_one_block: "blind p \<Longrightarrow> p (b, []) = Some (x, t) \<Longrightarrow> snd t = []"
  unfolding blind_def by (drule spec[of _ "(b, [])"]) simp

section \<open>The readers of the parser\<close>

lemma reader_return [readers]: "reader (\<lambda>s. Some (x, s))"
  by (auto simp: reader_def consumes_def blind_def extends_def)

lemma reader_fail [readers]: "reader (\<lambda>s. None)"
  by (auto simp: reader_def consumes_def blind_def extends_def)

lemma consumes_bind:
  assumes "consumes p" "\<And>x. consumes (q x)"
  shows "consumes (\<lambda>s. Option.bind (p s) (\<lambda>(x, s). q x s))"
  unfolding consumes_def
proof (intro allI impI)
  fix s y s2 assume "Option.bind (p s) (\<lambda>(x, s). q x s) = Some (y, s2)"
  then obtain x s1 where "p s = Some (x, s1)" "q x s1 = Some (y, s2)" by (auto simp: bind_eq_Some_conv)
  then show "length (flat s2) \<le> length (flat s)" using consumesD[OF assms(1)] consumesD[OF assms(2)] le_trans by blast
qed

lemma blind_bind:
  assumes p: "blind p" and q: "\<And>x. blind (q x)"
  shows "blind (\<lambda>s. Option.bind (p s) (\<lambda>(x, s). q x s))"
proof -
  have "case Option.bind (p (flat s, [])) (\<lambda>(x, s). q x s) of
      None \<Rightarrow> Option.bind (p s) (\<lambda>(x, s). q x s) = None
    | Some (y, t) \<Rightarrow> snd t = [] \<and> (\<exists>s'. Option.bind (p s) (\<lambda>(x, s). q x s) = Some (y, s') \<and> full_blocks s' \<and> flat s' = fst t)"
    if s: "full_blocks s" for s
    using p s
  proof (cases rule: blindE)
    case one: (2 x t s')
    show ?thesis using q[of x] one(3) by (cases rule: blindE) (use one in simp_all)
  qed simp
  then show ?thesis unfolding blind_def by blast
qed

lemma extends_bind:
  assumes p: "extends p" "blind p" and q: "\<And>x. extends (q x)"
  shows "extends (\<lambda>s. Option.bind (p s) (\<lambda>(x, s). q x s))"
  unfolding extends_def
proof (intro allI impI)
  fix b u y t assume "Option.bind (p (b, [])) (\<lambda>(x, s). q x s) = Some (y, t)"
  then obtain x r rs where r: "p (b, []) = Some (x, r, rs)" "q x (r, rs) = Some (y, t)" by (auto simp: bind_eq_Some_conv)
  moreover have "rs = []" using blind_one_block[OF p(2) r(1)] by simp
  ultimately show "Option.bind (p (b @ u, [])) (\<lambda>(x, s). q x s) = Some (y, fst t @ u, [])"
    using extends_some[OF p(1) r(1)] extends_some[OF q, of x r y t] by simp
qed

lemma reader_bind [readers]: "reader p \<Longrightarrow> (\<And>x. reader (q x)) \<Longrightarrow> reader (\<lambda>s. Option.bind (p s) (\<lambda>(x, s). q x s))"
  unfolding reader_def by (blast intro: consumes_bind blind_bind extends_bind)

lemma reader_if [readers]: "(b \<Longrightarrow> reader p) \<Longrightarrow> (\<not> b \<Longrightarrow> reader q) \<Longrightarrow> reader (\<lambda>s. if b then p s else q s)"
  by (cases b) simp_all

lemma reader_option [readers]:
  "(\<And>x. v = Some x \<Longrightarrow> reader (q x)) \<Longrightarrow> (v = None \<Longrightarrow> reader p) \<Longrightarrow> reader (\<lambda>s. case v of None \<Rightarrow> p s | Some x \<Rightarrow> q x s)"
  by (cases v) simp_all

lemma read_char_consumes: "read_char s = Some (c, s') \<Longrightarrow> length (flat s') < length (flat s)"
  by (cases s rule: read_char.cases) auto

lemma reader_read_char [readers]: "reader read_char"
proof -
  have "blind read_char"
  proof (rule blindI)
    fix s assume "full_blocks s" "read_char (flat s, []) = None"
    then show "read_char s = None" by (cases s rule: read_char.cases) auto
  next
    fix s x t ts assume "full_blocks s" "read_char (flat s, []) = Some (x, t, ts)"
    then show "ts = [] \<and> (\<exists>s'. read_char s = Some (x, s') \<and> full_blocks s' \<and> flat s' = t)"
      by (cases s rule: read_char.cases) auto
  qed
  moreover have "read_char (b @ u, []) = Some (x, fst t @ u, [])" if "read_char (b, []) = Some (x, t)" for b u x t
    using that by (cases b) auto
  then have "extends read_char" unfolding extends_def by blast
  moreover have "consumes read_char" unfolding consumes_def using read_char_consumes less_imp_le by blast
  ultimately show ?thesis by (simp add: reader_def)
qed

lemma reader_read_parts [readers]: "reader (read_parts T i acc)"
proof (induction "max_bytes T - i" arbitrary: i acc rule: less_induct)
  case less
  show ?case
  proof (cases "max_bytes T \<le> i")
    case True
    then show ?thesis unfolding read_parts.simps[of T i acc] by (simp add: reader_return)
  next
    case False
    have "reader (\<lambda>s. Option.bind (read_char s) (\<lambda>(part, s). if part AND 0x80 = 0 then
          if drop_bit (i * 7) (max_value T) < (part AND 0x3F) then None
          else Some ((acc OR push_bit (i * 7) (part AND 0x3F), part), s)
        else if Suc i = max_bytes T then None
        else read_parts T (Suc i) (acc OR push_bit (i * 7) (part AND 0x7F)) s))"
      by (intro readers less) (use False in linarith)
    then show ?thesis unfolding read_parts.simps[of T i acc] Let_def using False by simp
  qed
qed

lemma reader_read_int [readers]: "reader (read_int T)"
  unfolding read_int_def[abs_def] by (intro readers)

lemma reader_read_size [readers]: "reader read_size"
  unfolding read_size_def[abs_def] by (intro readers)

lemma read_bytes_spec:
  "if n \<le> length (flat (c, bs)) then \<exists>s'. read_bytes n (c, bs) = Some (take n (flat (c, bs)), s') \<and>
      ([] \<notin> set bs \<longrightarrow> full_blocks s') \<and> flat s' = drop n (flat (c, bs))
   else read_bytes n (c, bs) = None"
proof (induction bs arbitrary: n c)
  case (Cons b bs)
  show ?case
  proof (cases "n \<le> length c")
    case False
    then have "n - length c \<le> length (b @ concat bs) \<longleftrightarrow> n \<le> length (c @ concat (b # bs))" by auto
    then show ?thesis using Cons.IH[of "n - length c" b] False by (auto split: if_splits)
  qed simp
qed simp

lemma reader_read_bytes [readers]: "reader (read_bytes n)"
proof -
  have "length (flat s') \<le> length (flat s)" if "read_bytes n s = Some (x, s')" for x s s'
    using read_bytes_spec[of n "fst s" "snd s"] that by (auto split: if_splits)
  then have "consumes (read_bytes n)" unfolding consumes_def by blast
  moreover have "blind (read_bytes n)"
  proof (rule blindI)
    fix s assume "full_blocks s" "read_bytes n (flat s, []) = None"
    then show "read_bytes n s = None" using read_bytes_spec[of n "fst s" "snd s"] by (cases s) (auto split: if_splits)
  next
    fix s x t ts assume "full_blocks s" "read_bytes n (flat s, []) = Some (x, t, ts)"
    then show "ts = [] \<and> (\<exists>s'. read_bytes n s = Some (x, s') \<and> full_blocks s' \<and> flat s' = t)"
      using read_bytes_spec[of n "fst s" "snd s"] by (cases s) (auto split: if_splits)
  qed
  moreover have "extends (read_bytes n)" by (auto simp: extends_def split: if_splits)
  ultimately show ?thesis by (simp add: reader_def)
qed

lemma read_buffer_eq: "read_buffer n s = read_bytes n s"
  by (cases "(n, s)" rule: read_bytes.cases) auto

lemma reader_read_buffer [readers]: "reader (read_buffer n)"
  unfolding read_buffer_eq[abs_def] by (intro readers)

lemma reader_read_values [readers]: "reader read_bool" "reader read_float" "reader read_double" "reader read_string" "reader read_binary"
  unfolding read_bool_def[abs_def] read_float_def[abs_def] read_double_def[abs_def] read_string_def[abs_def]
    read_binary_def[abs_def]
  by (intro readers)+

lemma reader_read_mixed_value [readers]: "reader (read_mixed_value t)"
proof (cases t)
qed (simp_all only: read_mixed_value.simps[abs_def], (intro readers)+)

lemma reader_read_mixed [readers]: "reader read_mixed"
  unfolding read_mixed_def[abs_def] by (intro readers)

lemma reader_read_cell_value [readers]: "reader (read_cell_value t)"
proof (cases t)
qed (simp_all only: read_cell_value.simps[abs_def], (intro readers)+)

lemma reader_read_lists [readers]: "reader (read_sizes n)" "reader (read_path n)"
  by (induction n) (simp_all only: read_sizes.simps[abs_def] read_path.simps[abs_def], (intro readers | assumption)+)

lemma reader_read_operand_lists [readers]: "reader read_levels" "reader (read_1 f1)" "reader (read_2 f2)" "reader (read_3 f3)"
  unfolding read_levels_def[abs_def] read_1_def[abs_def] read_2_def[abs_def] read_3_def[abs_def]
  by (intro readers)+

lemma reader_read_set [readers]: "reader (read_set instr)"
  unfolding read_set_def[abs_def] Let_def by (intro readers)

lemma reader_read_insert_columns [readers]: "reader (read_insert_column nullable)" "reader read_insert_link_column"
  unfolding read_insert_column_def[abs_def] read_insert_link_column_def[abs_def] by (intro readers)+

lemma reader_read_operands [readers]: "reader (read_operands instr)"
proof (cases instr)
qed (simp_all only: read_operands.simps[abs_def], (intro readers)+)

lemma reader_read_call [readers]: "reader read_call"
  unfolding read_call_def[abs_def] by (intro readers)

lemma read_call_consumes:
  assumes "read_call s = Some (c, s')"
  shows "length (flat s') < length (flat s)"
proof -
  obtain b s1 where b: "read_char s = Some (b, s1)" "(case instr_of b of None \<Rightarrow> None | Some i \<Rightarrow> read_operands i s1) = Some (c, s')"
    using assms by (auto simp: read_call_def bind_eq_Some_conv)
  then obtain i where "read_operands i s1 = Some (c, s')" by (auto split: option.splits)
  then have "length (flat s') \<le> length (flat s1)" by (rule consumesD[OF readerD(1)[OF reader_read_operands]])
  then show ?thesis using read_char_consumes[OF b(1)] by simp
qed

section \<open>The handler is called\<close>

datatype 'e parse_error = Bad_Transact_Log | Handler_Threw 'e

type_synonym ('h, 'e) handler = "instruction \<Rightarrow> 'h \<Rightarrow> 'e + bool \<times> 'h"

definition call_handler :: "('h, 'e) handler \<Rightarrow> instruction \<Rightarrow> 'h \<Rightarrow> 'e parse_error + 'h" where
  "call_handler handle i h =
     (case handle i h of
        Inl e \<Rightarrow> Inl (Handler_Threw e)
      | Inr (ok, h) \<Rightarrow> if ok then Inr h else Inl Bad_Transact_Log)"

text \<open>The loop of \<open>instr_LinkListSetAll\<close>, with \<open>k\<close> links to come.\<close>

primrec set_all_links :: "('h, 'e) handler \<Rightarrow> size \<Rightarrow> nat \<Rightarrow> size \<Rightarrow> 'h \<Rightarrow> input \<Rightarrow> 'e parse_error + 'h \<times> input" where
  "set_all_links handle n 0 i h s = Inr (h, s)"
| "set_all_links handle n (Suc k) i h s =
     (case read_size s of
        None \<Rightarrow> Inl Bad_Transact_Log
      | Some (link, s) \<Rightarrow>
          (case call_handler handle (Link_List_Set i link n) h of
             Inl e \<Rightarrow> Inl e
           | Inr h \<Rightarrow> set_all_links handle n k (i + 1) h s))"

definition parse_one :: "('h, 'e) handler \<Rightarrow> 'h \<Rightarrow> input \<Rightarrow> 'e parse_error + 'h \<times> input" where
  "parse_one handle h s =
     (case read_call s of
        None \<Rightarrow> Inl Bad_Transact_Log
      | Some (Call i, s) \<Rightarrow> (case call_handler handle i h of Inl e \<Rightarrow> Inl e | Inr h \<Rightarrow> Inr (h, s))
      | Some (Set_All_Links n, s) \<Rightarrow> set_all_links handle n n 0 h s)"

lemma set_all_links_consumes: "set_all_links handle n k i h s = Inr (h', s') \<Longrightarrow> length (flat s') \<le> length (flat s)"
proof (induction k arbitrary: i h s)
  case (Suc k)
  then obtain link s1 h1 where "read_size s = Some (link, s1)" "set_all_links handle n k (i + 1) h1 s1 = Inr (h', s')"
    by (auto split: option.splits sum.splits)
  then show ?case using Suc.IH consumesD[OF readerD(1)[OF reader_read_size]] le_trans by blast
qed simp

lemma parse_one_consumes: "parse_one handle h s = Inr (h', s') \<Longrightarrow> length (flat s') < length (flat s)"
proof -
  assume p: "parse_one handle h s = Inr (h', s')"
  then obtain c s1 where c: "read_call s = Some (c, s1)" by (auto simp: parse_one_def split: option.splits)
  have "length (flat s') \<le> length (flat s1)"
  proof (cases c)
    case (Call i)
    then show ?thesis using p c by (auto simp: parse_one_def split: sum.splits)
  next
    case (Set_All_Links n)
    then have "set_all_links handle n n 0 h s1 = Inr (h', s')" using p c by (simp add: parse_one_def)
    then show ?thesis by (rule set_all_links_consumes)
  qed
  then show ?thesis using read_call_consumes[OF c] by simp
qed

lemma has_next_flat: "has_next s = Some s' \<Longrightarrow> flat s' = flat s"
  by (cases s rule: has_next.cases) (auto elim: next_input_buffer.elims)

function parse_loop :: "('h, 'e) handler \<Rightarrow> 'h \<Rightarrow> input \<Rightarrow> 'e parse_error + 'h" where
  "parse_loop handle h s =
     (case has_next s of
        None \<Rightarrow> Inr h
      | Some s \<Rightarrow> (case parse_one handle h s of Inl e \<Rightarrow> Inl e | Inr (h, s) \<Rightarrow> parse_loop handle h s))"
  by pat_completeness auto
termination
  by (relation "measure (\<lambda>(handle, h, s). length (flat s))") (auto dest!: parse_one_consumes has_next_flat)

declare parse_loop.simps [simp del]

text \<open>\<open>parse\<close>: no block has been asked for yet.\<close>

definition parse :: "('h, 'e) handler \<Rightarrow> byte list list \<Rightarrow> 'h \<Rightarrow> 'e parse_error + 'h" where
  "parse handle blocks h = parse_loop handle h ([], blocks)"

section \<open>Blocks do not matter\<close>

fun same_result :: "'e parse_error + 'h \<times> input \<Rightarrow> 'e parse_error + 'h \<times> input \<Rightarrow> bool" where
  "same_result (Inl e) r \<longleftrightarrow> r = Inl e"
| "same_result (Inr (h, s)) r \<longleftrightarrow> full_blocks s \<and> r = Inr (h, flat s, [])"

lemma set_all_links_blind:
  "full_blocks s \<Longrightarrow> same_result (set_all_links handle n k i h s) (set_all_links handle n k i h (flat s, []))"
proof (induction k arbitrary: i h s)
  case (Suc k)
  show ?case
    using readerD(2)[OF reader_read_size] Suc.prems
  proof (cases rule: blindE)
    case (2 x t s')
    then show ?thesis using Suc.IH[of s'] by (auto split: sum.split)
  qed simp
qed simp

lemma parse_one_blind: "full_blocks s \<Longrightarrow> same_result (parse_one handle h s) (parse_one handle h (flat s, []))"
proof -
  assume s: "full_blocks s"
  show ?thesis
    using readerD(2)[OF reader_read_call] s
  proof (cases rule: blindE)
    case (2 x t s')
    then show ?thesis using set_all_links_blind[of s'] by (cases x) (auto simp: parse_one_def split: sum.split)
  qed (simp_all add: parse_one_def)
qed

lemma parse_loop_blind:
  "full_blocks s \<Longrightarrow> parse_loop handle h s = parse_loop handle h (flat s, [])"
proof (induction "length (flat s)" arbitrary: h s rule: less_induct)
  case less
  show ?case
  proof (cases "has_next s")
    case None
    then have "flat s = []" by (cases s rule: has_next.cases) (auto elim: next_input_buffer.elims)
    then show ?thesis using None by (subst (1 2) parse_loop.simps) simp
  next
    case (Some s1)
    then have s1: "full_blocks s1" "flat s1 = flat s" "flat s \<noteq> []"
      using less(2) by (cases s rule: has_next.cases; auto elim!: next_input_buffer.elims)+
    then have n: "has_next (flat s, []) = Some (flat s, [])" by (cases "flat s") simp_all
    show ?thesis
    proof (cases "parse_one handle h s1")
      case (Inl e)
      then show ?thesis using parse_one_blind[OF s1(1), of handle h] Some n s1(2) by (subst (1 2) parse_loop.simps) simp
    next
      case (Inr r)
      obtain h2 s2 where r: "r = (h2, s2)" by (cases r)
      then have o: "full_blocks s2" "parse_one handle h (flat s, []) = Inr (h2, flat s2, [])"
        using parse_one_blind[OF s1(1), of handle h] Inr s1(2) by simp_all
      have "length (flat s2) < length (flat s)" using parse_one_consumes[OF Inr[unfolded r]] s1(2) by simp
      then have "parse_loop handle h2 s2 = parse_loop handle h2 (flat s2, [])" using o(1) by (rule less(1))
      then show ?thesis using Some n Inr r o(2) by (subst (1 2) parse_loop.simps) simp
    qed
  qed
qed

lemma parse_blocks:
  "[] \<notin> set blocks \<Longrightarrow> parse handle blocks h = parse_loop handle h (concat blocks, [])"
  unfolding parse_def using parse_loop_blind[of "([], blocks)" handle h] by simp

end
