(* ===== verification/Transact_Encoder.thy ===== *)
theory Transact_Encoder
  imports Transact_Parser
begin

text \<open>
  \<open>TransactLogEncoder\<close> and \<open>TransactLogBufferStream\<close> (\<open>core/realm/impl/transact_log.hpp\<close>): the arguments of
  an instruction are encoded one after the other into a buffer in which room for them has been reserved.
  A write outside the free room is a failure of the model.
\<close>

section \<open>The buffer\<close>

text \<open>
  The memory of the buffer, with \<open>m_transact_log_free_begin\<close> and \<open>m_transact_log_free_end\<close> as offsets into
  it.  Memory that was never written holds zeros.
\<close>

record encoder =
  te_memory :: "byte list"
  te_begin :: nat
  te_end :: nat

definition new_encoder :: encoder where
  "new_encoder = \<lparr>te_memory = [], te_begin = 0, te_end = 0\<rparr>"

text \<open>\<open>Buffer::reserve\<close> and \<open>reserve_extra\<close>; \<open>None\<close> is \<open>BufferSizeOverflow\<close>.\<close>

definition grown_capacity :: "size \<Rightarrow> size \<Rightarrow> size" where
  "grown_capacity current minimum =
     (let new = (if npos div 3 < current then npos else current * 3) div 2
      in if new < minimum then minimum else new)"

definition buffer_reserve :: "size \<Rightarrow> size \<Rightarrow> byte list \<Rightarrow> byte list" where
  "buffer_reserve used minimum memory =
     (if minimum \<le> length memory then memory
      else take used memory @ replicate (grown_capacity (length memory) minimum - used) 0)"

definition buffer_reserve_extra :: "size \<Rightarrow> size \<Rightarrow> byte list \<Rightarrow> byte list option" where
  "buffer_reserve_extra used extra memory =
     (if npos < used + extra then None else Some (buffer_reserve used (used + extra) memory))"

definition transact_log_reserve :: "size \<Rightarrow> encoder \<Rightarrow> encoder option" where
  "transact_log_reserve n e =
     (case buffer_reserve_extra (te_begin e) n (te_memory e) of
        None \<Rightarrow> None
      | Some memory \<Rightarrow> Some (e\<lparr>te_memory := memory, te_end := length memory\<rparr>))"

definition reserve :: "size \<Rightarrow> encoder \<Rightarrow> encoder option" where
  "reserve n e = (if te_end e - te_begin e < n then transact_log_reserve n e else Some e)"

text \<open>Bytes written from an offset on, which moves past them.\<close>

definition write_bytes :: "byte list \<Rightarrow> encoder \<times> nat \<Rightarrow> (encoder \<times> nat) option" where
  "write_bytes bytes = (\<lambda>(e, ptr).
     if te_end e < ptr + length bytes then None
     else Some (e\<lparr>te_memory := take ptr (te_memory e) @ bytes @ drop (ptr + length bytes) (te_memory e)\<rparr>, ptr + length bytes))"

definition advance :: "nat \<Rightarrow> encoder \<Rightarrow> encoder" where
  "advance ptr e = e\<lparr>te_begin := ptr\<rparr>"

section \<open>Arguments\<close>

text \<open>
  The instantiations of \<open>encode\<close>: a character, an instruction, a truth value or a data type is one byte; the
  bytes of a floating-point number are copied; a string is its length and its bytes.
\<close>

datatype arg = Raw byte | Number int_type int | Bytes_Of_Float "byte list" | Bytes_Of_Double "byte list"
  | Text "byte list" | Integers "int list"

definition max_enc_bytes_per_num :: nat where
  "max_enc_bytes_per_num = 10"

definition max_numbers_per_chunk :: nat where
  "max_numbers_per_chunk = 8"

fun max_size_arg :: "arg \<Rightarrow> size" where
  "max_size_arg (Raw _) = 1"
| "max_size_arg (Number _ _) = max_enc_bytes_per_num"
| "max_size_arg (Bytes_Of_Float _) = max_enc_bytes_per_num"
| "max_size_arg (Bytes_Of_Double _) = max_enc_bytes_per_num"
| "max_size_arg (Text s) = max_enc_bytes_per_num + length s"
| "max_size_arg (Integers _) = max_enc_bytes_per_num * max_numbers_per_chunk"

fun max_size_list :: "arg list \<Rightarrow> size" where
  "max_size_list [] = 0"
| "max_size_list (a # as) = max_size_arg a + max_size_list as"

text \<open>The list of integers: room is reserved anew for every eight of them.\<close>

function encode_integers :: "int list \<Rightarrow> encoder \<times> nat \<Rightarrow> (encoder \<times> nat) option" where
  "encode_integers vs (e, ptr) =
     (if max_numbers_per_chunk < length vs then do {
        (e, ptr) \<leftarrow> write_bytes (concat (map (encode_int Int64_Type) (take max_numbers_per_chunk vs))) (e, ptr);
        e \<leftarrow> reserve (max_enc_bytes_per_num * max_numbers_per_chunk) (advance ptr e);
        encode_integers (drop max_numbers_per_chunk vs) (e, te_begin e) }
      else write_bytes (concat (map (encode_int Int64_Type) vs)) (e, ptr))"
  by pat_completeness auto
termination
  by (relation "measure (\<lambda>(vs, e). length vs)") (auto simp: max_numbers_per_chunk_def)

declare encode_integers.simps [simp del]

fun encode_arg :: "arg \<Rightarrow> encoder \<times> nat \<Rightarrow> (encoder \<times> nat) option" where
  "encode_arg (Raw b) p = write_bytes [b] p"
| "encode_arg (Number T v) p = write_bytes (encode_int T v) p"
| "encode_arg (Bytes_Of_Float bs) p = write_bytes bs p"
| "encode_arg (Bytes_Of_Double bs) p = write_bytes bs p"
| "encode_arg (Text s) p = do { p \<leftarrow> write_bytes (encode_int Size_Type (int (length s))) p; write_bytes s p }"
| "encode_arg (Integers vs) p = encode_integers vs p"

fun encode_list :: "arg list \<Rightarrow> encoder \<times> nat \<Rightarrow> encoder option" where
  "encode_list [] (e, ptr) = Some (advance ptr e)"
| "encode_list (a # as) p = do { p \<leftarrow> encode_arg a p; encode_list as p }"

definition append_simple_instr :: "arg list \<Rightarrow> encoder \<Rightarrow> encoder option" where
  "append_simple_instr as e = do { e \<leftarrow> reserve (max_size_list as) e; encode_list as (e, te_begin e) }"

section \<open>Instructions\<close>

fun instr_code :: "instr \<Rightarrow> byte" where
  "instr_code Instr_Insert_Group_Level_Table = 1"
| "instr_code Instr_Erase_Group_Level_Table = 2"
| "instr_code Instr_Rename_Group_Level_Table = 3"
| "instr_code Instr_Move_Group_Level_Table = 4"
| "instr_code Instr_Select_Table = 5"
| "instr_code Instr_Set = 6"
| "instr_code Instr_Set_Unique = 7"
| "instr_code Instr_Set_Default = 8"
| "instr_code Instr_Add_Integer = 9"
| "instr_code Instr_Nullify_Link = 10"
| "instr_code Instr_Insert_Substring = 11"
| "instr_code Instr_Erase_From_String = 12"
| "instr_code Instr_Insert_Empty_Rows = 13"
| "instr_code Instr_Erase_Rows = 14"
| "instr_code Instr_Swap_Rows = 15"
| "instr_code Instr_Move_Row = 16"
| "instr_code Instr_Merge_Rows = 17"
| "instr_code Instr_Clear_Table = 18"
| "instr_code Instr_Optimize_Table = 19"
| "instr_code Instr_Select_Descriptor = 20"
| "instr_code Instr_Insert_Column = 21"
| "instr_code Instr_Insert_Link_Column = 22"
| "instr_code Instr_Insert_Nullable_Column = 23"
| "instr_code Instr_Erase_Column = 24"
| "instr_code Instr_Erase_Link_Column = 25"
| "instr_code Instr_Rename_Column = 26"
| "instr_code Instr_Move_Column = 27"
| "instr_code Instr_Add_Search_Index = 28"
| "instr_code Instr_Remove_Search_Index = 29"
| "instr_code Instr_Set_Link_Type = 30"
| "instr_code Instr_Select_Link_List = 31"
| "instr_code Instr_Link_List_Set = 32"
| "instr_code Instr_Link_List_Insert = 33"
| "instr_code Instr_Link_List_Move = 34"
| "instr_code Instr_Link_List_Swap = 35"
| "instr_code Instr_Link_List_Erase = 36"
| "instr_code Instr_Link_List_Nullify = 37"
| "instr_code Instr_Link_List_Clear = 38"
| "instr_code Instr_Link_List_Set_All = 39"
| "instr_code Instr_Add_Row_With_Key = 40"

definition Op :: "instr \<Rightarrow> arg" where
  "Op i = Raw (instr_code i)"

definition Typ :: "data_type \<Rightarrow> arg" where
  "Typ t = Raw (data_type_code t)"

definition Size :: "size \<Rightarrow> arg" where
  "Size n = Number Size_Type (int n)"

definition Int64 :: "int \<Rightarrow> arg" where
  "Int64 v = Number Int64_Type v"

definition Int32 :: "int \<Rightarrow> arg" where
  "Int32 v = Number Int32_Type v"

definition Bool :: "bool \<Rightarrow> arg" where
  "Bool b = Raw (if b then 1 else 0)"

fun variant_instr :: "set_variant \<Rightarrow> instr" where
  "variant_instr Plain_Set = Instr_Set"
| "variant_instr (Unique_Set _) = Instr_Set_Unique"
| "variant_instr Default_Set = Instr_Set_Default"

fun prior_rows :: "set_variant \<Rightarrow> arg list" where
  "prior_rows (Unique_Set n) = [Size n]"
| "prior_rows _ = []"

text \<open>\<open>append_mixed_instr\<close>: what follows the other numbers.\<close>

fun mixed_args :: "mixed \<Rightarrow> arg list" where
  "mixed_args (Mixed_Int v) = [Typ Type_Int, Int64 v]"
| "mixed_args (Mixed_Bool b) = [Typ Type_Bool, Bool b]"
| "mixed_args (Mixed_Float bs) = [Typ Type_Float, Bytes_Of_Float bs]"
| "mixed_args (Mixed_Double bs) = [Typ Type_Double, Bytes_Of_Double bs]"
| "mixed_args (Mixed_Old_Date_Time v) = [Typ Type_Old_Date_Time, Int64 v]"
| "mixed_args (Mixed_String s) = [Typ Type_String, Text s]"
| "mixed_args (Mixed_Binary s) = [Typ Type_Binary, Text s]"
| "mixed_args (Mixed_Timestamp sec nano) = [Typ Type_Timestamp, Int64 sec, Int32 nano]"
| "mixed_args Mixed_Table = [Typ Type_Table]"

text \<open>
  The methods \<open>set_int\<close> to \<open>set_null\<close>.  Those that take no number of prior rows write none, and \<open>set_double\<close>
  always writes \<open>instr_Set\<close>.  A null string or binary value is written by \<open>set_null\<close>, so it is \<open>Null_Value\<close>.
\<close>

fun set_args :: "set_variant \<Rightarrow> size \<Rightarrow> size \<Rightarrow> cell_value \<Rightarrow> arg list" where
  "set_args var col row (Int_Value v) = [Op (variant_instr var), Typ Type_Int, Size col, Size row] @ prior_rows var @ [Int64 v]"
| "set_args var col row (Bool_Value b) = [Op (variant_instr var), Typ Type_Bool, Size col, Size row, Bool b]"
| "set_args var col row (Float_Value bs) = [Op (variant_instr var), Typ Type_Float, Size col, Size row, Bytes_Of_Float bs]"
| "set_args var col row (Double_Value bs) = [Op Instr_Set, Typ Type_Double, Size col, Size row, Bytes_Of_Double bs]"
| "set_args var col row (String_Value s) = [Op (variant_instr var), Typ Type_String, Size col, Size row] @ prior_rows var @ [Text s]"
| "set_args var col row (Binary_Value s) = [Op (variant_instr var), Typ Type_Binary, Size col, Size row, Text s]"
| "set_args var col row (Old_Date_Time_Value v) = [Op (variant_instr var), Typ Type_Old_Date_Time, Size col, Size row, Int64 v]"
| "set_args var col row (Timestamp_Value sec nano) =
     [Op (variant_instr var), Typ Type_Timestamp, Size col, Size row, Int64 sec, Int32 nano]"
| "set_args var col row Table_Value = [Op (variant_instr var), Typ Type_Table, Size col, Size row]"
| "set_args var col row (Mixed_Value m) = [Op (variant_instr var), Typ Type_Mixed, Size col, Size row] @ mixed_args m"
| "set_args var col row (Link_Value v target) =
     [Op (variant_instr var), Typ Type_Link, Size col, Size row, Size ((1 + v) mod 2 ^ 64), Size target]"
| "set_args var col row Null_Value = [Op (variant_instr var), Int32 (-1), Size col, Size row] @ prior_rows var"

text \<open>
  The arguments of \<open>append_simple_instr\<close> for every method of the encoder.  Those of \<open>select_table\<close>,
  \<open>select_descriptor\<close> and \<open>select_link_list\<close>, which are in the prebuilt library, are the parameter \<open>select\<close>; the
  encoder has no method for the two instructions of the last equation.
\<close>

fun instruction_args :: "(instruction \<Rightarrow> arg list) \<Rightarrow> instruction \<Rightarrow> arg list option" where
  "instruction_args select (Set_Cell var col row v) = Some (set_args var col row v)"
| "instruction_args select (Add_Int col row v) = Some [Op Instr_Add_Integer, Size col, Size row, Int64 v]"
| "instruction_args select (Nullify_Link col row target) = Some [Op Instr_Nullify_Link, Size col, Size row, Size target]"
| "instruction_args select (Insert_Substring col row pos s) =
     Some [Op Instr_Insert_Substring, Size col, Size row, Size pos, Text s]"
| "instruction_args select (Erase_Substring col row pos n) =
     Some [Op Instr_Erase_From_String, Size col, Size row, Size pos, Size n]"
| "instruction_args select (Insert_Empty_Rows row n prior unordered) =
     Some [Op Instr_Insert_Empty_Rows, Size row, Size n, Size prior, Bool unordered]"
| "instruction_args select (Add_Row_With_Key row prior col key) =
     Some [Op Instr_Add_Row_With_Key, Size row, Size prior, Size col, Int64 key]"
| "instruction_args select (Erase_Rows row n prior unordered) =
     Some [Op Instr_Erase_Rows, Size row, Size n, Size prior, Bool unordered]"
| "instruction_args select (Swap_Rows r1 r2) = Some [Op Instr_Swap_Rows, Size r1, Size r2]"
| "instruction_args select (Move_Row f t) = Some [Op Instr_Move_Row, Size f, Size t]"
| "instruction_args select (Merge_Rows r n) = Some [Op Instr_Merge_Rows, Size r, Size n]"
| "instruction_args select (Clear_Table n) = Some [Op Instr_Clear_Table, Size n]"
| "instruction_args select Optimize_Table = Some [Op Instr_Optimize_Table]"
| "instruction_args select (Link_List_Set i v prior) = Some [Op Instr_Link_List_Set, Size i, Size v, Size prior]"
| "instruction_args select (Link_List_Insert i v prior) = Some [Op Instr_Link_List_Insert, Size i, Size v, Size prior]"
| "instruction_args select (Link_List_Move f t) = Some [Op Instr_Link_List_Move, Size f, Size t]"
| "instruction_args select (Link_List_Swap i j) = Some [Op Instr_Link_List_Swap, Size i, Size j]"
| "instruction_args select (Link_List_Erase i prior) = Some [Op Instr_Link_List_Erase, Size i, Size prior]"
| "instruction_args select (Link_List_Nullify i prior) = Some [Op Instr_Link_List_Nullify, Size i, Size prior]"
| "instruction_args select (Link_List_Clear n) = Some [Op Instr_Link_List_Clear, Size n]"
| "instruction_args select (Insert_Column col t name nullable) =
     Some [Op (if nullable then Instr_Insert_Nullable_Column else Instr_Insert_Column), Size col, Typ t, Text name]"
| "instruction_args select (Insert_Link_Column col t name target backlink) =
     Some [Op Instr_Insert_Link_Column, Size col, Typ t, Size target, Size backlink, Text name]"
| "instruction_args select (Erase_Column col) = Some [Op Instr_Erase_Column, Size col]"
| "instruction_args select (Erase_Link_Column col target backlink) =
     Some [Op Instr_Erase_Link_Column, Size col, Size target, Size backlink]"
| "instruction_args select (Rename_Column col name) = Some [Op Instr_Rename_Column, Size col, Text name]"
| "instruction_args select (Add_Search_Index col) = Some [Op Instr_Add_Search_Index, Size col]"
| "instruction_args select (Remove_Search_Index col) = Some [Op Instr_Remove_Search_Index, Size col]"
| "instruction_args select (Set_Link_Type col t) =
     Some [Op Instr_Set_Link_Type, Size col, Int32 (case t of Link_Strong \<Rightarrow> 0 | Link_Weak \<Rightarrow> 1)]"
| "instruction_args select (Insert_Group_Level_Table tbl prior name) =
     Some [Op Instr_Insert_Group_Level_Table, Size tbl, Size prior, Text name]"
| "instruction_args select (Erase_Group_Level_Table tbl prior) = Some [Op Instr_Erase_Group_Level_Table, Size tbl, Size prior]"
| "instruction_args select (Rename_Group_Level_Table tbl name) = Some [Op Instr_Rename_Group_Level_Table, Size tbl, Text name]"
| "instruction_args select (Select_Table tbl path) = Some (select (Select_Table tbl path))"
| "instruction_args select (Select_Descriptor path) = Some (select (Select_Descriptor path))"
| "instruction_args select (Select_Link_List col row target) = Some (select (Select_Link_List col row target))"
| "instruction_args select i = None"

definition link_list_set_all :: "int list \<Rightarrow> encoder \<Rightarrow> encoder option" where
  "link_list_set_all vs = append_simple_instr [Op Instr_Link_List_Set_All, Size (length vs), Integers vs]"

definition append_instruction :: "(instruction \<Rightarrow> arg list) \<Rightarrow> instruction \<Rightarrow> encoder \<Rightarrow> encoder option" where
  "append_instruction select i e = do { as \<leftarrow> instruction_args select i; append_simple_instr as e }"

section \<open>What is appended\<close>

fun arg_bytes :: "arg \<Rightarrow> byte list" where
  "arg_bytes (Raw b) = [b]"
| "arg_bytes (Number T v) = encode_int T v"
| "arg_bytes (Bytes_Of_Float bs) = bs"
| "arg_bytes (Bytes_Of_Double bs) = bs"
| "arg_bytes (Text s) = encode_int Size_Type (int (length s)) @ s"
| "arg_bytes (Integers vs) = concat (map (encode_int Int64_Type) vs)"

definition args_bytes :: "arg list \<Rightarrow> byte list" where
  "args_bytes as = concat (map arg_bytes as)"

text \<open>The log: what was written so far.\<close>

definition log_bytes :: "encoder \<Rightarrow> byte list" where
  "log_bytes e = take (te_begin e) (te_memory e)"

end
