(* ===== verification/Transact_Encoding.thy ===== *)
theory Transact_Encoding
  imports Transact_Encoder
begin

text \<open>
  The encoder writes only into reserved room, and what it appends is the bytes of the arguments.
\<close>

section \<open>Room in the buffer\<close>

definition encoder_ok :: "encoder \<Rightarrow> bool" where
  "encoder_ok e \<longleftrightarrow> te_begin e \<le> te_end e \<and> te_end e \<le> length (te_memory e)"

definition arg_ok :: "arg \<Rightarrow> bool" where
  "arg_ok a \<longleftrightarrow> (case a of
      Raw b \<Rightarrow> b < 256
    | Number T v \<Rightarrow> in_type T v
    | Bytes_Of_Float bs \<Rightarrow> length bs = 4
    | Bytes_Of_Double bs \<Rightarrow> length bs = 8
    | Text s \<Rightarrow> length s \<le> npos
    | Integers vs \<Rightarrow> list_all (in_type Int64_Type) vs)"

text \<open>A list of integers is the last argument.\<close>

fun args_ok :: "arg list \<Rightarrow> bool" where
  "args_ok [] \<longleftrightarrow> True"
| "args_ok (Integers vs # as) \<longleftrightarrow> arg_ok (Integers vs) \<and> as = []"
| "args_ok (a # as) \<longleftrightarrow> arg_ok a \<and> args_ok as"

lemma new_encoder_ok: "encoder_ok new_encoder" "log_bytes new_encoder = []"
  by (simp_all add: encoder_ok_def new_encoder_def log_bytes_def)

lemma grown_capacity_ge: "minimum \<le> grown_capacity current minimum"
  by (simp add: grown_capacity_def Let_def)

lemma reserve_spec:
  assumes "encoder_ok e" "te_begin e + n \<le> npos"
  shows "\<exists>e'. reserve n e = Some e' \<and> encoder_ok e' \<and> te_begin e' = te_begin e \<and> te_begin e + n \<le> te_end e' \<and>
    log_bytes e' = log_bytes e"
proof (cases "te_end e - te_begin e < n")
  case True
  have "te_begin e + n \<le> length (buffer_reserve (te_begin e) (te_begin e + n) (te_memory e))"
    using assms(1) grown_capacity_ge[of "te_begin e + n" "length (te_memory e)"]
    by (simp add: buffer_reserve_def encoder_ok_def)
  then show ?thesis
    using True assms
    by (auto simp: reserve_def transact_log_reserve_def buffer_reserve_extra_def encoder_ok_def log_bytes_def buffer_reserve_def)
qed (use assms in \<open>auto simp: reserve_def encoder_ok_def\<close>)

text \<open>A position up to which everything is written.\<close>

definition written :: "encoder \<times> nat \<Rightarrow> byte list" where
  "written p = take (snd p) (te_memory (fst p))"

definition free_room :: "encoder \<times> nat \<Rightarrow> nat \<Rightarrow> bool" where
  "free_room p n \<longleftrightarrow> encoder_ok (fst p) \<and> te_begin (fst p) \<le> snd p \<and> snd p + n \<le> te_end (fst p)"

lemma write_bytes_spec:
  assumes "free_room p n" "length bytes + m \<le> n"
  shows "\<exists>q. write_bytes bytes p = Some q \<and> free_room q m \<and> written q = written p @ bytes \<and> snd q = snd p + length bytes"
proof -
  obtain e ptr where p: "p = (e, ptr)" by (cases p)
  have "ptr + length bytes \<le> length (te_memory e)" "ptr \<le> length (te_memory e)"
    using assms unfolding p by (simp_all add: free_room_def encoder_ok_def)
  then show ?thesis using assms unfolding p by (auto simp: write_bytes_def free_room_def encoder_ok_def written_def)
qed

lemma encode_integers_spec:
  assumes "free_room (e, ptr) (max_enc_bytes_per_num * max_numbers_per_chunk)" "list_all (in_type Int64_Type) vs"
    and "ptr + 10 * (length vs + 8) \<le> npos"
  shows "\<exists>q. encode_integers vs (e, ptr) = Some q \<and> free_room q 0 \<and> written q = written (e, ptr) @ concat (map (encode_int Int64_Type) vs)"
  using assms
proof (induction vs "(e, ptr)" arbitrary: e ptr rule: encode_integers.induct)
  case (1 vs e ptr)
  have len: "length (concat (map (encode_int Int64_Type) us)) \<le> 10 * length us" if "set us \<subseteq> set vs" for us
    using that
  proof (induction us)
    case (Cons u us)
    then have "length (encode_int Int64_Type u) \<le> 10" using length_encode_int(2)[of Int64_Type u] 1(3) by (simp add: list_all_iff)
    then show ?case using Cons by simp
  qed simp
  let ?k = max_numbers_per_chunk
  have k: "?k = 8" "max_enc_bytes_per_num = 10" by (simp_all add: max_numbers_per_chunk_def max_enc_bytes_per_num_def)
  show ?case
  proof (cases "?k < length vs")
    case True
    let ?us = "take ?k vs" and ?ws = "drop ?k vs"
    have l: "length (concat (map (encode_int Int64_Type) ?us)) \<le> 80" using len[of ?us, OF set_take_subset] True k(1) by simp
    obtain q where q: "write_bytes (concat (map (encode_int Int64_Type) ?us)) (e, ptr) = Some q" "free_room q 0"
      "written q = written (e, ptr) @ concat (map (encode_int Int64_Type) ?us)" "snd q \<le> ptr + 80"
      using write_bytes_spec[OF 1(2), of "concat (map (encode_int Int64_Type) ?us)" 0] l unfolding k by auto
    obtain e1 p1 where qe: "q = (e1, p1)" by (cases q)
    have ok: "encoder_ok (advance p1 e1)" using q(2) unfolding qe by (simp add: free_room_def encoder_ok_def advance_def)
    have "te_begin (advance p1 e1) + max_enc_bytes_per_num * ?k \<le> npos"
      using q(4) 1(4) True unfolding k qe by (simp add: advance_def)
    then obtain e2 where e2: "reserve (max_enc_bytes_per_num * ?k) (advance p1 e1) = Some e2" "encoder_ok e2" "te_begin e2 = p1"
      "p1 + max_enc_bytes_per_num * ?k \<le> te_end e2" "log_bytes e2 = log_bytes (advance p1 e1)"
      using reserve_spec[OF ok] by (auto simp: advance_def)
    have w: "written (e2, te_begin e2) = written q" using e2(3,5) unfolding qe by (simp add: written_def log_bytes_def advance_def)
    have r: "free_room (e2, te_begin e2) (max_enc_bytes_per_num * ?k)" using e2(2,3,4) by (simp add: free_room_def)
    have "te_begin e2 + 10 * (length ?ws + 8) \<le> npos" using e2(3) q(4) 1(4) True unfolding qe k by simp
    then obtain q2 where q2: "encode_integers ?ws (e2, te_begin e2) = Some q2" "free_room q2 0"
      "written q2 = written q @ concat (map (encode_int Int64_Type) ?ws)"
      using 1(1)[OF True q(1) qe[symmetric] e2(1) r] 1(3) unfolding w[symmetric]
      by (auto simp: list_all_iff dest: in_set_dropD)
    have "encode_integers vs (e, ptr) = Some q2"
      using True q(1) e2(1) q2(1) by (subst encode_integers.simps) (simp add: qe)
    moreover have "concat (map (encode_int Int64_Type) ?us) @ concat (map (encode_int Int64_Type) ?ws) =
        concat (map (encode_int Int64_Type) vs)"
      by (simp flip: concat_append map_append)
    ultimately show ?thesis using q2(2,3) q(3) by (metis append_assoc)
  next
    case False
    then have "length (concat (map (encode_int Int64_Type) vs)) \<le> 80" using len[of vs, OF subset_refl] k(1) by linarith
    then show ?thesis
      using write_bytes_spec[OF 1(2), of "concat (map (encode_int Int64_Type) vs)" 0] False unfolding k by (subst encode_integers.simps) (auto simp: k)
  qed
qed

definition is_list :: "arg \<Rightarrow> bool" where
  "is_list a \<longleftrightarrow> (case a of Integers _ \<Rightarrow> True | _ \<Rightarrow> False)"

lemma encode_arg_spec:
  assumes "arg_ok a" "\<not> is_list a" "free_room p (max_size_arg a + n)"
  shows "\<exists>q. encode_arg a p = Some q \<and> free_room q n \<and> written q = written p @ arg_bytes a \<and> snd q \<le> snd p + max_size_arg a"
proof -
  have w: "\<exists>q. write_bytes bs p = Some q \<and> free_room q n \<and> written q = written p @ bs \<and> snd q \<le> snd p + max_size_arg a"
    if "length bs \<le> max_size_arg a" for bs
    using write_bytes_spec[OF assms(3), of bs n] that by auto
  show ?thesis
  proof (cases a)
    case (Number T v)
    then show ?thesis using w[of "encode_int T v"] length_encode_int(2)[of T v] assms(1)
      by (simp add: arg_ok_def max_enc_bytes_per_num_def)
  next
    case (Text s)
    let ?l = "encode_int Size_Type (int (length s))"
    have l: "length ?l \<le> 10" using length_encode_int(2)[OF in_size] assms(1) Text by (simp add: arg_ok_def)
    have r: "free_room p (10 + (length s + n))" using assms(3) Text by (simp add: max_enc_bytes_per_num_def add.assoc)
    obtain q where q: "write_bytes ?l p = Some q" "free_room q (length s + n)" "written q = written p @ ?l" "snd q \<le> snd p + 10"
      using write_bytes_spec[OF r, of ?l "length s + n"] l by auto
    obtain q2 where "write_bytes s q = Some q2" "free_room q2 n" "written q2 = written q @ s" "snd q2 = snd q + length s"
      using write_bytes_spec[OF q(2), of s n] by auto
    then show ?thesis using q Text by (auto simp: max_enc_bytes_per_num_def)
  qed (use w assms(1,2) in \<open>auto simp: arg_ok_def max_enc_bytes_per_num_def is_list_def\<close>)
qed

text \<open>What the offsets must not exceed.\<close>

fun needed :: "arg list \<Rightarrow> nat" where
  "needed [] = 0"
| "needed (Integers vs # as) = 10 * (length vs + 8) + needed as"
| "needed (a # as) = max_size_arg a + needed as"

lemma max_size_list_needed: "max_size_list as \<le> needed as"
  by (induction as rule: needed.induct) (auto simp: max_enc_bytes_per_num_def max_numbers_per_chunk_def)

lemma encode_list_spec:
  assumes "args_ok as" "free_room p (max_size_list as)" "snd p + needed as \<le> npos"
  shows "\<exists>e'. encode_list as p = Some e' \<and> encoder_ok e' \<and> log_bytes e' = written p @ args_bytes as"
  using assms
proof (induction as arbitrary: p)
  case Nil
  then show ?case by (cases p) (auto simp: free_room_def encoder_ok_def advance_def log_bytes_def written_def args_bytes_def)
next
  case (Cons a as)
  show ?case
  proof (cases "is_list a")
    case True
    then obtain vs where a: "a = Integers vs" by (auto simp: is_list_def split: arg.splits)
    have vs: "list_all (in_type Int64_Type) vs" "as = []" using Cons.prems(1) a by (simp_all add: arg_ok_def)
    obtain e ptr where p: "p = (e, ptr)" by (cases p)
    have r: "free_room (e, ptr) (max_enc_bytes_per_num * max_numbers_per_chunk)" using Cons.prems(2) vs a p by simp
    have "ptr + 10 * (length vs + 8) \<le> npos" using Cons.prems(3) vs a p by simp
    then obtain q where q: "encode_integers vs p = Some q" "free_room q 0"
      "written q = written p @ concat (map (encode_int Int64_Type) vs)"
      using encode_integers_spec[OF r vs(1)] p by auto
    then show ?thesis using a vs(2)
      by (cases q) (auto simp: free_room_def encoder_ok_def advance_def log_bytes_def written_def args_bytes_def)
  next
    case False
    then have a: "arg_ok a" "args_ok as" "needed (a # as) = max_size_arg a + needed as"
      using Cons.prems(1) by (cases a; simp add: is_list_def)+
    obtain q where q: "encode_arg a p = Some q" "free_room q (max_size_list as)" "written q = written p @ arg_bytes a"
      "snd q \<le> snd p + max_size_arg a"
      using encode_arg_spec[OF a(1) False, of p "max_size_list as"] Cons.prems(2) by auto
    then have "snd q + needed as \<le> npos" using Cons.prems(3) a(3) by simp
    then obtain e' where "encode_list as q = Some e'" "encoder_ok e'" "log_bytes e' = written q @ args_bytes as"
      using Cons.IH[OF a(2) q(2)] by blast
    then show ?thesis using q(1,3) by (simp add: args_bytes_def)
  qed
qed

text \<open>The bytes are appended, all writes are in the room that was reserved.\<close>

lemma append_simple_instr_spec:
  assumes "encoder_ok e" "args_ok as" "length (log_bytes e) + needed as \<le> npos"
  shows "\<exists>e'. append_simple_instr as e = Some e' \<and> encoder_ok e' \<and> log_bytes e' = log_bytes e @ args_bytes as"
proof -
  have b: "length (log_bytes e) = te_begin e" using assms(1) by (simp add: log_bytes_def encoder_ok_def)
  then have "te_begin e + max_size_list as \<le> npos" using assms(3) max_size_list_needed[of as] by simp
  then obtain e1 where e1: "reserve (max_size_list as) e = Some e1" "encoder_ok e1" "te_begin e1 = te_begin e"
    "te_begin e + max_size_list as \<le> te_end e1" "log_bytes e1 = log_bytes e"
    using reserve_spec[OF assms(1)] by blast
  have r: "free_room (e1, te_begin e1) (max_size_list as)" using e1 by (simp add: free_room_def)
  have "snd (e1, te_begin e1) + needed as \<le> npos" using assms(3) b e1(3) by simp
  from encode_list_spec[OF assms(2) r this] show ?thesis
    using e1(1,5) by (auto simp: append_simple_instr_def written_def log_bytes_def)
qed

end
