(* ===== verification/Transact_Roundtrip.thy ===== *)
theory Transact_Roundtrip
  imports Transact_Parsing Transact_Encoding
begin

text \<open>
  What the encoder writes, the parser reads: for values, for instructions and for whole logs, with any
  handler and with any cut of the log into blocks.
\<close>

section \<open>Values\<close>

named_theorems read_back \<open>a reader applied to what was written\<close>

declare arg_bytes.simps [simp del]

lemma args_bytes_simps [simp]:
  "args_bytes [] = []" "args_bytes (a # as) = arg_bytes a @ args_bytes as" "args_bytes (as @ bs) = args_bytes as @ args_bytes bs"
  by (simp_all add: args_bytes_def)

lemma read_op [read_back]:
  "read_char (arg_bytes (Op i) @ rest, bs) = Some (instr_code i, rest, bs)" "instr_of (instr_code i) = Some i"
proof -
  show "read_char (arg_bytes (Op i) @ rest, bs) = Some (instr_code i, rest, bs)" by (simp add: Op_def arg_bytes.simps)
  show "instr_of (instr_code i) = Some i" by (cases i) (simp_all add: instr_of_def all_instrs_def)
qed

text \<open>The switch on the code of an instruction.\<close>

lemma read_call_op: "read_call (arg_bytes (Op i) @ rest, bs) = read_operands i (rest, bs)"
  by (simp add: read_call_def read_op)

lemma read_size_back [read_back]: "n \<le> npos \<Longrightarrow> read_size (arg_bytes (Size n) @ rest, bs) = Some (n, rest, bs)"
  by (simp add: read_size_def Size_def arg_bytes.simps read_int_encoded[OF in_size])

lemma read_int64_back [read_back]:
  "in_type Int64_Type v \<Longrightarrow> read_int Int64_Type (arg_bytes (Int64 v) @ rest, bs) = Some (v, rest, bs)"
  by (simp add: Int64_def arg_bytes.simps read_int_encoded)

lemma read_int32_back [read_back]:
  "in_type Int32_Type v \<Longrightarrow> read_int Int32_Type (arg_bytes (Int32 v) @ rest, bs) = Some (v, rest, bs)"
  by (simp add: Int32_def arg_bytes.simps read_int_encoded)

text \<open>A small number is its own encoding.\<close>

lemma read_small:
  assumes "b < 64" "is_signed T"
  shows "read_int T (b # rest, bs) = Some (int b, rest, bs)"
proof -
  have "groups (int b < 0) (magnitude (int b)) = [b]"
    using assms(1) by (subst groups.simps) (simp add: magnitude_def last_byte_def)
  moreover have "in_type T (int b)" using assms by (cases T) (simp_all add: in_type_def min_value_def max_value_def)
  ultimately show ?thesis using read_int_signed[OF assms(2), of "int b" rest bs] by simp
qed

lemma read_type_back [read_back]:
  "read_int Int32_Type (arg_bytes (Typ t) @ rest, bs) = Some (int (data_type_code t), rest, bs)"
  "data_type_of (int (data_type_code t)) = Some t"
  "int (data_type_code t) \<noteq> -1"
proof -
  have "data_type_code t < 64" by (cases t) simp_all
  then show "read_int Int32_Type (arg_bytes (Typ t) @ rest, bs) = Some (int (data_type_code t), rest, bs)"
    by (simp add: Typ_def arg_bytes.simps read_small)
  show "data_type_of (int (data_type_code t)) = Some t" by (cases t) (simp_all add: data_type_of_def all_data_types_def)
qed simp

lemma read_bool_back [read_back]: "read_bool (arg_bytes (Bool b) @ rest, bs) = Some (b, rest, bs)"
  by (simp add: Bool_def arg_bytes.simps read_bool_def read_small)

lemma read_bytes_back: "length c = n \<Longrightarrow> read_bytes n (c @ rest, bs) = Some (c, rest, bs)"
  by (cases bs) simp_all

lemma read_floats_back [read_back]:
  "length c = 4 \<Longrightarrow> read_float (arg_bytes (Bytes_Of_Float c) @ rest, bs) = Some (c, rest, bs)"
  "length c = 8 \<Longrightarrow> read_double (arg_bytes (Bytes_Of_Double c) @ rest, bs) = Some (c, rest, bs)"
  by (simp_all add: arg_bytes.simps read_float_def read_double_def read_bytes_back)

lemma read_text_back [read_back]:
  "length c \<le> max_string_size \<Longrightarrow> read_string (arg_bytes (Text c) @ rest, bs) = Some (c, rest, bs)"
  "length c \<le> npos \<Longrightarrow> read_binary (arg_bytes (Text c) @ rest, bs) = Some (c, rest, bs)"
proof -
  have l: "read_size (encode_int Size_Type (int (length c)) @ c @ rest, bs) = Some (length c, c @ rest, bs)" if "length c \<le> npos"
    using that by (simp add: read_size_def read_int_encoded[OF in_size])
  have "max_string_size \<le> npos" by (simp add: max_string_size_def npos_def)
  then show "length c \<le> max_string_size \<Longrightarrow> read_string (arg_bytes (Text c) @ rest, bs) = Some (c, rest, bs)"
    using l by (simp add: arg_bytes.simps read_string_def)
  show "length c \<le> npos \<Longrightarrow> read_binary (arg_bytes (Text c) @ rest, bs) = Some (c, rest, bs)"
    using l by (simp add: arg_bytes.simps read_binary_def)
qed

text \<open>The switch on a type.\<close>

lemma read_mixed_type: "read_mixed (arg_bytes (Typ t) @ rest, bs) = read_mixed_value t (rest, bs)"
  by (simp add: read_mixed_def read_type_back)

section \<open>Instructions\<close>

text \<open>Values the parser takes: in their ranges, and strings not too long.\<close>

fun mixed_ok :: "mixed \<Rightarrow> bool" where
  "mixed_ok (Mixed_Int v) \<longleftrightarrow> in_type Int64_Type v"
| "mixed_ok (Mixed_Float c) \<longleftrightarrow> length c = 4"
| "mixed_ok (Mixed_Double c) \<longleftrightarrow> length c = 8"
| "mixed_ok (Mixed_Old_Date_Time v) \<longleftrightarrow> in_type Int64_Type v"
| "mixed_ok (Mixed_Timestamp s n) \<longleftrightarrow> in_type Int64_Type s \<and> in_type Int32_Type n"
| "mixed_ok (Mixed_String c) \<longleftrightarrow> length c \<le> max_string_size"
| "mixed_ok (Mixed_Binary c) \<longleftrightarrow> length c \<le> npos"
| "mixed_ok _ \<longleftrightarrow> True"

fun value_ok :: "cell_value \<Rightarrow> bool" where
  "value_ok (Int_Value v) \<longleftrightarrow> in_type Int64_Type v"
| "value_ok (Float_Value c) \<longleftrightarrow> length c = 4"
| "value_ok (Double_Value c) \<longleftrightarrow> length c = 8"
| "value_ok (Old_Date_Time_Value v) \<longleftrightarrow> in_type Int64_Type v"
| "value_ok (Timestamp_Value s n) \<longleftrightarrow> in_type Int64_Type s \<and> in_type Int32_Type n"
| "value_ok (String_Value c) \<longleftrightarrow> length c \<le> max_string_size"
| "value_ok (Binary_Value c) \<longleftrightarrow> length c \<le> npos"
| "value_ok (Mixed_Value m) \<longleftrightarrow> mixed_ok m"
| "value_ok (Link_Value v t) \<longleftrightarrow> v \<le> npos \<and> t \<le> npos"
| "value_ok _ \<longleftrightarrow> True"

text \<open>
  The variants the methods assert; a default value that is a double is excluded, as it is written as a
  plain one.
\<close>

fun variant_ok :: "set_variant \<Rightarrow> cell_value \<Rightarrow> bool" where
  "variant_ok (Unique_Set n) (Int_Value _) \<longleftrightarrow> n \<le> npos"
| "variant_ok (Unique_Set n) (String_Value _) \<longleftrightarrow> n \<le> npos"
| "variant_ok (Unique_Set n) Null_Value \<longleftrightarrow> n \<le> npos"
| "variant_ok (Unique_Set n) _ \<longleftrightarrow> False"
| "variant_ok Default_Set (Double_Value _) \<longleftrightarrow> False"
| "variant_ok _ _ \<longleftrightarrow> True"

fun selection :: "instruction \<Rightarrow> bool" where
  "selection (Select_Table _ _) = True"
| "selection (Select_Descriptor _) = True"
| "selection (Select_Link_List _ _ _) = True"
| "selection _ = False"

fun loggable :: "instruction \<Rightarrow> bool" where
  "loggable (Set_Cell var c r v) \<longleftrightarrow> c \<le> npos \<and> r \<le> npos \<and> value_ok v \<and> variant_ok var v"
| "loggable (Add_Int c r v) \<longleftrightarrow> c \<le> npos \<and> r \<le> npos \<and> in_type Int64_Type v"
| "loggable (Nullify_Link c r t) \<longleftrightarrow> c \<le> npos \<and> r \<le> npos \<and> t \<le> npos"
| "loggable (Insert_Substring c r p s) \<longleftrightarrow> c \<le> npos \<and> r \<le> npos \<and> p \<le> npos \<and> length s \<le> max_string_size"
| "loggable (Erase_Substring c r p n) \<longleftrightarrow> c \<le> npos \<and> r \<le> npos \<and> p \<le> npos \<and> n \<le> npos"
| "loggable (Insert_Empty_Rows r n p u) \<longleftrightarrow> r \<le> npos \<and> n \<le> npos \<and> p \<le> npos"
| "loggable (Add_Row_With_Key r p c k) \<longleftrightarrow> r \<le> npos \<and> p \<le> npos \<and> c \<le> npos \<and> in_type Int64_Type k"
| "loggable (Erase_Rows r n p u) \<longleftrightarrow> r \<le> npos \<and> n \<le> npos \<and> p \<le> npos"
| "loggable (Swap_Rows a b) \<longleftrightarrow> a \<le> npos \<and> b \<le> npos"
| "loggable (Move_Row a b) \<longleftrightarrow> a \<le> npos \<and> b \<le> npos"
| "loggable (Merge_Rows a b) \<longleftrightarrow> a \<le> npos \<and> b \<le> npos"
| "loggable (Select_Table t path) \<longleftrightarrow> t \<le> npos \<and> length path \<le> 1024 \<and> list_all (\<lambda>(c, r). c \<le> npos \<and> r \<le> npos) path"
| "loggable (Clear_Table n) \<longleftrightarrow> n \<le> npos"
| "loggable Optimize_Table \<longleftrightarrow> True"
| "loggable (Link_List_Set a b c) \<longleftrightarrow> a \<le> npos \<and> b \<le> npos \<and> c \<le> npos"
| "loggable (Link_List_Insert a b c) \<longleftrightarrow> a \<le> npos \<and> b \<le> npos \<and> c \<le> npos"
| "loggable (Link_List_Move a b) \<longleftrightarrow> a \<le> npos \<and> b \<le> npos"
| "loggable (Link_List_Swap a b) \<longleftrightarrow> a \<le> npos \<and> b \<le> npos"
| "loggable (Link_List_Erase a b) \<longleftrightarrow> a \<le> npos \<and> b \<le> npos"
| "loggable (Link_List_Nullify a b) \<longleftrightarrow> a \<le> npos \<and> b \<le> npos"
| "loggable (Link_List_Clear n) \<longleftrightarrow> n \<le> npos"
| "loggable (Select_Link_List c r t) \<longleftrightarrow> c \<le> npos \<and> r \<le> npos \<and> t \<le> npos"
| "loggable (Select_Descriptor path) \<longleftrightarrow> length path \<le> 1024 \<and> list_all (\<lambda>c. c \<le> npos) path"
| "loggable (Insert_Column c t s n) \<longleftrightarrow> c \<le> npos \<and> length s \<le> max_string_size \<and> t \<noteq> Type_Link \<and> t \<noteq> Type_Link_List \<and>
     (t = Type_Mixed \<longrightarrow> \<not> n)"
| "loggable (Insert_Link_Column c t s a b) \<longleftrightarrow> c \<le> npos \<and> length s \<le> max_string_size \<and> (t = Type_Link \<or> t = Type_Link_List) \<and>
     a \<le> npos \<and> b \<le> npos"
| "loggable (Erase_Column c) \<longleftrightarrow> c \<le> npos"
| "loggable (Erase_Link_Column c a b) \<longleftrightarrow> c \<le> npos \<and> a \<le> npos \<and> b \<le> npos"
| "loggable (Rename_Column c s) \<longleftrightarrow> c \<le> npos \<and> length s \<le> max_string_size"
| "loggable (Move_Column _ _) \<longleftrightarrow> False"
| "loggable (Add_Search_Index c) \<longleftrightarrow> c \<le> npos"
| "loggable (Remove_Search_Index c) \<longleftrightarrow> c \<le> npos"
| "loggable (Set_Link_Type c _) \<longleftrightarrow> c \<le> npos"
| "loggable (Insert_Group_Level_Table t n s) \<longleftrightarrow> t \<le> npos \<and> n \<le> npos \<and> length s \<le> max_string_size"
| "loggable (Erase_Group_Level_Table t n) \<longleftrightarrow> t \<le> npos \<and> n \<le> npos"
| "loggable (Rename_Group_Level_Table t s) \<longleftrightarrow> t \<le> npos \<and> length s \<le> max_string_size"
| "loggable (Move_Group_Level_Table _ _) \<longleftrightarrow> False"

lemma link_target_back:
  assumes "v \<le> npos"
  shows "(1 + v) mod 2 ^ 64 \<le> npos" "size_sub ((1 + v) mod 2 ^ 64) 1 = v"
proof -
  have "(1 + v) mod 2 ^ 64 = (if v = npos then 0 else 1 + v)" using assms by (auto simp: npos_def)
  then show "(1 + v) mod 2 ^ 64 \<le> npos" "size_sub ((1 + v) mod 2 ^ 64) 1 = v"
    using assms by (auto simp: size_sub_def npos_def)
qed

lemma read_mixed_back [read_back]:
  "mixed_ok m \<Longrightarrow> read_mixed (args_bytes (mixed_args m) @ rest, bs) = Some (m, rest, bs)"
  by (cases m) (simp_all add: read_mixed_type read_back)

lemma read_null_back: "read_int Int32_Type (arg_bytes (Int32 (-1)) @ rest, bs) = Some (-1, rest, bs)"
  by (rule read_int32_back) (simp add: in_type_def min_value_def max_value_def)

lemma read_set_value_back:
  assumes "c \<le> npos" "r \<le> npos" "\<And>n. var = Unique_Set n \<Longrightarrow> n \<le> npos"
  shows "read_set (variant_instr var) (arg_bytes (Typ t) @ arg_bytes (Size c) @ arg_bytes (Size r) @ args_bytes (prior_rows var) @ rest, bs) =
      Option.bind (read_cell_value t (rest, bs)) (\<lambda>(v, s). Some (Call (Set_Cell var c r v), s))"
    "read_set (variant_instr var) (arg_bytes (Int32 (-1)) @ arg_bytes (Size c) @ arg_bytes (Size r) @ args_bytes (prior_rows var) @ rest, bs) =
      Some (Call (Set_Cell var c r Null_Value), rest, bs)"
  using assms by (cases var; simp add: read_set_def read_back read_null_back Let_def)+

lemma read_set_back:
  assumes "c \<le> npos" "r \<le> npos" "value_ok v" "variant_ok var v"
  shows "read_call (args_bytes (set_args var c r v) @ rest, bs) = Some (Call (Set_Cell var c r v), rest, bs)"
proof -
  have o: "read_operands (variant_instr var) = read_set (variant_instr var)" by (cases var) auto
  have u: "var = Unique_Set n \<Longrightarrow> n \<le> npos" for n using assms(4) by (cases v) simp_all
  note V = read_set_value_back[OF assms(1,2), where var = var, OF u]
  have p: "(\<exists>x. v = Int_Value x) \<or> (\<exists>x. v = String_Value x) \<or> v = Null_Value \<or> args_bytes (prior_rows var) = []"
    using assms(4) by (cases var; cases v) simp_all
  show ?thesis
  proof (cases v)
    case (Double_Value c')
    then have "var = Plain_Set" using assms(4) by (cases var) simp_all
    then show ?thesis using Double_Value V(1)[where t = Type_Double] assms(3) by (simp add: read_call_op read_back)
  qed (use V p assms(3) in \<open>simp_all add: read_call_op o read_back link_target_back[simplified]\<close>)
qed

lemma read_call_back:
  assumes "loggable i" "\<not> selection i" "instruction_args select i = Some as"
  shows "read_call (args_bytes as @ rest, bs) = Some (Call i, rest, bs)"
proof (cases i)
  case (Set_Cell var c r v)
  then show ?thesis using assms read_set_back[of c r v var] by simp
next
  case (Set_Link_Type c t)
  then show ?thesis using assms
    by (cases t) (auto simp: read_call_op read_back link_type_of_def in_type_def min_value_def max_value_def)
next
  case (Insert_Column c t s n)
  then show ?thesis using assms by (cases n) (auto simp: read_call_op read_back read_insert_column_def)
next
  case (Insert_Link_Column c t s a b)
  then show ?thesis using assms read_type_back(2)[of Type_Link] read_type_back(2)[of Type_Link_List]
    by (auto simp: read_call_op read_back read_insert_link_column_def)
qed (use assms in \<open>auto simp: read_call_op read_back read_1_def read_2_def read_3_def\<close>)

section \<open>What the encoder needs\<close>

lemma arg_ok_simps [simp]:
  "arg_ok (Op i)" "arg_ok (Typ t)" "arg_ok (Bool b)" "n \<le> npos \<Longrightarrow> arg_ok (Size n)" "arg_ok (Int64 v) \<longleftrightarrow> in_type Int64_Type v"
  "arg_ok (Int32 v) \<longleftrightarrow> in_type Int32_Type v" "arg_ok (Bytes_Of_Float c) \<longleftrightarrow> length c = 4" "arg_ok (Bytes_Of_Double c) \<longleftrightarrow> length c = 8"
  "arg_ok (Text c) \<longleftrightarrow> length c \<le> npos"
proof -
  show "arg_ok (Op i)" by (cases i) (simp_all add: arg_ok_def Op_def)
  show "arg_ok (Typ t)" by (cases t) (simp_all add: arg_ok_def Typ_def)
qed (simp_all add: arg_ok_def Bool_def Size_def Int64_def Int32_def in_size)

lemma args_ok_simps [simp]:
  "args_ok (Op i # as) \<longleftrightarrow> args_ok as" "args_ok (Typ t # as) \<longleftrightarrow> args_ok as" "args_ok (Bool b # as) \<longleftrightarrow> args_ok as"
  "args_ok (Size n # as) \<longleftrightarrow> arg_ok (Size n) \<and> args_ok as" "args_ok (Int64 v # as) \<longleftrightarrow> in_type Int64_Type v \<and> args_ok as"
  "args_ok (Int32 v # as) \<longleftrightarrow> in_type Int32_Type v \<and> args_ok as"
proof -
  show "args_ok (Op i # as) \<longleftrightarrow> args_ok as" using arg_ok_simps(1)[of i] by (simp add: Op_def)
  show "args_ok (Typ t # as) \<longleftrightarrow> args_ok as" using arg_ok_simps(2)[of t] by (simp add: Typ_def)
  show "args_ok (Bool b # as) \<longleftrightarrow> args_ok as" using arg_ok_simps(3)[of b] by (simp add: Bool_def)
  show "args_ok (Int64 v # as) \<longleftrightarrow> in_type Int64_Type v \<and> args_ok as" using arg_ok_simps(5)[of v] by (simp add: Int64_def)
  show "args_ok (Int32 v # as) \<longleftrightarrow> in_type Int32_Type v \<and> args_ok as" using arg_ok_simps(6)[of v] by (simp add: Int32_def)
qed (simp add: Size_def)

lemma max_string_npos: "n \<le> max_string_size \<Longrightarrow> n \<le> npos"
  by (simp add: max_string_size_def npos_def)

lemma small_int32: "in_type Int32_Type (-1)" "in_type Int32_Type 0" "in_type Int32_Type 1"
  by (simp_all add: in_type_def min_value_def max_value_def)

lemma set_args_ok:
  assumes "c \<le> npos" "r \<le> npos" "value_ok v" "variant_ok var v"
  shows "args_ok (set_args var c r v)"
proof -
  have u: "n \<le> npos" if "var = Unique_Set n" for n using assms(4) that by (cases v) simp_all
  have "args_ok (prior_rows var @ as) \<longleftrightarrow> args_ok as" for as using u by (cases var) simp_all
  from this[of "[]"] this have "args_ok (prior_rows var)" "\<And>as. args_ok (prior_rows var @ as) \<longleftrightarrow> args_ok as" by simp_all
  moreover have "args_ok (mixed_args m)" if "mixed_ok m" for m using that by (cases m) (simp_all add: max_string_npos)
  ultimately show ?thesis
    using assms(1-3) link_target_back[simplified] small_int32 by (cases v) (auto simp: max_string_npos)
qed

lemma instruction_args_ok:
  assumes "loggable i" "\<not> selection i"
  shows "\<exists>as. instruction_args select i = Some as \<and> args_ok as"
proof (cases i)
  case (Set_Link_Type c t)
  then show ?thesis using assms small_int32 by (cases t) auto
qed (use assms set_args_ok in \<open>auto simp: max_string_npos\<close>)

end
