(* ===== verification/Input_Streams.thy ===== *)
theory Input_Streams
  imports Transact_Parsing
begin

text \<open>
  The streams a log is read from (\<open>core/realm/impl/input_stream.hpp\<close>), and the two contracts of that file:
  of an \<open>InputStream\<close>, and of a \<open>NoCopyInputStream\<close>, whose blocks are what the parser works on.
\<close>

section \<open>Streams of blocks\<close>

text \<open>The blocks that the first calls of \<open>next_block\<close> give.\<close>

primrec drain :: "('s \<Rightarrow> (byte list \<times> 's) option) \<Rightarrow> nat \<Rightarrow> 's \<Rightarrow> byte list list" where
  "drain next_block 0 s = []"
| "drain next_block (Suc n) s = (case next_block s of None \<Rightarrow> [] | Some (b, s) \<Rightarrow> b # drain next_block n s)"

locale block_source =
  fixes next_block :: "'s \<Rightarrow> (byte list \<times> 's) option"
    and blocks :: "'s \<Rightarrow> byte list list"
  assumes ended: "next_block s = None \<Longrightarrow> blocks s = []"
    and delivered: "next_block s = Some (b, s') \<Longrightarrow> b \<noteq> [] \<and> blocks s = b # blocks s'"
begin

lemma drain_blocks: "length (blocks s) \<le> n \<Longrightarrow> drain next_block n s = blocks s"
proof (induction n arbitrary: s)
  case 0
  then show ?case by simp
next
  case (Suc n)
  show ?case
  proof (cases "next_block s")
    case None
    then show ?thesis using ended by simp
  next
    case (Some r)
    then obtain b s' where r: "next_block s = Some (b, s')" by (cases r) auto
    then show ?thesis using delivered[OF r] Suc by simp
  qed
qed

lemma blocks_full: "[] \<notin> set (blocks s)"
proof (induction "blocks s" arbitrary: s)
  case (Cons b bs)
  then obtain r where "next_block s = Some r" using ended by fastforce
  then obtain b' s' where n: "next_block s = Some (b', s')" by (cases r) auto
  then have "b' \<noteq> []" "blocks s = b' # blocks s'" using delivered by blast+
  then show ?case using Cons.hyps(1)[of s'] Cons.hyps(2) by simp
qed simp

text \<open>Parsing a stream of blocks is parsing its bytes.\<close>

lemma parse_source: "parse handle (blocks s) h = parse_loop handle h (concat (blocks s), [])"
  by (rule parse_blocks[OF blocks_full])

end

section \<open>Input streams\<close>

text \<open>\<open>NoCopyInputStreamAdaptor::next_block\<close>.\<close>

definition adaptor_next :: "(nat \<Rightarrow> 's \<Rightarrow> byte list \<times> 's) \<Rightarrow> nat \<Rightarrow> 's \<Rightarrow> (byte list \<times> 's) option" where
  "adaptor_next read buffer_size s = (let (b, s) = read buffer_size s in if b = [] then None else Some (b, s))"

text \<open>\<open>InputStream::read\<close> gives no byte only at the end.\<close>

locale input_stream =
  fixes read :: "nat \<Rightarrow> 's \<Rightarrow> byte list \<times> 's"
    and content :: "'s \<Rightarrow> byte list"
    and buffer_size :: nat
  assumes reads: "read n s = (b, s') \<Longrightarrow> content s = b @ content s' \<and> length b \<le> n"
    and ends: "read n s = ([], s') \<Longrightarrow> n = 0 \<or> content s = []"
    and positive: "buffer_size \<noteq> 0"
begin

lemma adaptor_none: "adaptor_next read buffer_size s = None \<Longrightarrow> content s = []"
  using ends[of buffer_size s] positive by (auto simp: adaptor_next_def split: prod.splits if_splits)

lemma adaptor_some:
  "adaptor_next read buffer_size s = Some (b, s') \<Longrightarrow> b \<noteq> [] \<and> content s = b @ content s' \<and> length b \<le> buffer_size"
  using reads[of buffer_size s] by (auto simp: adaptor_next_def split: prod.splits if_splits)

lemma drain_content: "length (content s) \<le> n \<Longrightarrow> concat (drain (adaptor_next read buffer_size) n s) = content s"
proof (induction n arbitrary: s)
  case (Suc n)
  show ?case
  proof (cases "adaptor_next read buffer_size s")
    case None
    then show ?thesis using adaptor_none by simp
  next
    case (Some r)
    then obtain b s' where r: "adaptor_next read buffer_size s = Some (b, s')" by (cases r) auto
    then have "length (content s') \<le> n" using adaptor_some[OF r] Suc.prems by (cases b) auto
    then show ?thesis using Suc.IH adaptor_some[OF r] r by simp
  qed
qed simp

lemma drain_enough:
  "length (content s) \<le> m \<Longrightarrow> length (content s) \<le> n \<Longrightarrow> drain (adaptor_next read buffer_size) m s = drain (adaptor_next read buffer_size) n s"
proof (induction m arbitrary: n s)
  case 0
  then have "adaptor_next read buffer_size s = None"
    using adaptor_some[of s] by (cases "adaptor_next read buffer_size s") auto
  then show ?case by (cases n) simp_all
next
  case (Suc m)
  show ?case
  proof (cases "adaptor_next read buffer_size s")
    case None
    then show ?thesis by (cases n) simp_all
  next
    case (Some r)
    then obtain b s' where r: "adaptor_next read buffer_size s = Some (b, s')" by (cases r) auto
    then have l: "length (content s') < length (content s)" using adaptor_some[OF r] by (cases b) auto
    then obtain k where k: "n = Suc k" using Suc.prems by (cases n) auto
    then have "drain (adaptor_next read buffer_size) m s' = drain (adaptor_next read buffer_size) k s'"
      using Suc.IH[of s' k] Suc.prems l by simp
    then show ?thesis using r k by simp
  qed
qed

end

sublocale input_stream \<subseteq> adaptor: block_source "adaptor_next read buffer_size"
  "\<lambda>s. drain (adaptor_next read buffer_size) (length (content s)) s"
proof
  fix s assume n: "adaptor_next read buffer_size s = None"
  then show "drain (adaptor_next read buffer_size) (length (content s)) s = []" using adaptor_none[OF n] by simp
next
  fix s b s' assume r: "adaptor_next read buffer_size s = Some (b, s')"
  then obtain k where k: "length (content s) = Suc k" "length (content s') \<le> k"
    using adaptor_some[OF r] by (cases b) auto
  then show "b \<noteq> [] \<and> drain (adaptor_next read buffer_size) (length (content s)) s =
      b # drain (adaptor_next read buffer_size) (length (content s')) s'"
    using r adaptor_some[OF r] drain_enough[of s' k "length (content s')"] by simp
qed

text \<open>\<open>SimpleInputStream\<close>: the bytes between \<open>m_ptr\<close> and \<open>m_end\<close>.\<close>

definition simple_read :: "nat \<Rightarrow> byte list \<Rightarrow> byte list \<times> byte list" where
  "simple_read n data = (take n data, drop n data)"

text \<open>\<open>MultiLogNoCopyInputStream\<close>: what is left of the current log, and the logs after it.\<close>

fun multi_read :: "nat \<Rightarrow> byte list list \<Rightarrow> byte list \<times> byte list list" where
  "multi_read n [] = ([], [])"
| "multi_read n (log # logs) =
     (if log \<noteq> [] then (take n log, drop n log # logs) else if logs = [] then ([], []) else multi_read n logs)"

fun multi_next :: "byte list list \<Rightarrow> (byte list \<times> byte list list) option" where
  "multi_next [] = None"
| "multi_next (log # logs) = (if log = [] then multi_next logs else Some (log, logs))"

definition multi_blocks :: "byte list list \<Rightarrow> byte list list" where
  "multi_blocks logs = filter (\<lambda>log. log \<noteq> []) logs"

text \<open>\<open>SimpleNoCopyInputStream\<close>.\<close>

definition simple_next :: "byte list \<Rightarrow> (byte list \<times> byte list) option" where
  "simple_next data = (if data = [] then None else Some (data, []))"

definition simple_blocks :: "byte list \<Rightarrow> byte list list" where
  "simple_blocks data = (if data = [] then [] else [data])"

text \<open>The size of the buffer of \<open>parse(InputStream&)\<close>.\<close>

definition parser_buffer_size :: nat where
  "parser_buffer_size = 1024"

interpretation simple_in: input_stream simple_read "\<lambda>data. data" parser_buffer_size
  by unfold_locales (auto simp: simple_read_def parser_buffer_size_def)

lemma multi_read_content: "multi_read n logs = (b, logs') \<Longrightarrow> concat logs = b @ concat logs' \<and> length b \<le> n"
  by (induction n logs rule: multi_read.induct) (auto split: if_splits)

lemma multi_read_end: "multi_read n logs = ([], logs') \<Longrightarrow> n = 0 \<or> concat logs = []"
  by (induction n logs rule: multi_read.induct) (auto split: if_splits)

interpretation multi_in: input_stream multi_read concat parser_buffer_size
proof
  show "multi_read n s = (b, s') \<Longrightarrow> concat s = b @ concat s' \<and> length b \<le> n" for n s b s' by (rule multi_read_content)
  show "multi_read n s = ([], s') \<Longrightarrow> n = 0 \<or> concat s = []" for n s s' by (rule multi_read_end)
qed (simp add: parser_buffer_size_def)

interpretation simple_source: block_source simple_next simple_blocks
  by unfold_locales (auto simp: simple_next_def simple_blocks_def split: if_splits)

lemma multi_next_none: "multi_next logs = None \<Longrightarrow> multi_blocks logs = []"
  by (induction logs) (auto simp: multi_blocks_def split: if_splits)

lemma multi_next_some: "multi_next logs = Some (b, logs') \<Longrightarrow> b \<noteq> [] \<and> multi_blocks logs = b # multi_blocks logs'"
  by (induction logs) (auto simp: multi_blocks_def split: if_splits)

interpretation multi_source: block_source multi_next multi_blocks
  by unfold_locales (auto simp: multi_next_none multi_next_some)

lemma concat_multi_blocks: "concat (multi_blocks logs) = concat logs"
  by (induction logs) (auto simp: multi_blocks_def)

lemma concat_simple_blocks: "concat (simple_blocks data) = data"
  by (simp add: simple_blocks_def)

section \<open>The changesets of a history\<close>

text \<open>
  \<open>ChangesetInputStream\<close>.  A \<open>BinaryIterator\<close> is the chunks that \<open>get_next\<close> gives until it gives none, and
  the history is a function from versions to changesets: \<open>history v\<close> leads from \<open>v\<close> to \<open>v + 1\<close>.
\<close>

type_synonym iterator = "byte list list"

fun get_next :: "iterator \<Rightarrow> byte list" where
  "get_next [] = []"
| "get_next (c # _) = c"

record changeset_stream =
  cs_begin :: nat
  cs_end :: nat
  cs_iterators :: "iterator list"
  cs_valid :: bool

definition nb_buffers :: nat where
  "nb_buffers = 8"

definition get_changeset :: "(nat \<Rightarrow> iterator) \<Rightarrow> changeset_stream \<Rightarrow> changeset_stream" where
  "get_changeset history s =
     (let versions_to_get = cs_end s - cs_begin s in
      if 0 < versions_to_get then
        let end = cs_begin s + min nb_buffers versions_to_get
        in s\<lparr>cs_begin := end, cs_iterators := map history [cs_begin s..<end], cs_valid := True\<rparr>
      else s\<lparr>cs_iterators := [], cs_valid := False\<rparr>)"

definition new_changeset_stream :: "(nat \<Rightarrow> iterator) \<Rightarrow> nat \<Rightarrow> nat \<Rightarrow> changeset_stream" where
  "new_changeset_stream history b e =
     get_changeset history \<lparr>cs_begin = b, cs_end = e, cs_iterators = [], cs_valid = False\<rparr>"

function changeset_next :: "(nat \<Rightarrow> iterator) \<Rightarrow> changeset_stream \<Rightarrow> (byte list \<times> changeset_stream) option" where
  "changeset_next history s =
     (if \<not> cs_valid s then None
      else case cs_iterators s of
          [] \<Rightarrow> None
        | it # its \<Rightarrow>
            if get_next it \<noteq> [] then Some (get_next it, s\<lparr>cs_iterators := tl it # its\<rparr>)
            else changeset_next history (if its = [] then get_changeset history s else s\<lparr>cs_iterators := its\<rparr>))"
  by pat_completeness auto
termination
  by (relation "measure (\<lambda>(history, s). length (cs_iterators s) + 2 * (cs_end s - cs_begin s))")
    (auto simp: get_changeset_def Let_def nb_buffers_def)

declare changeset_next.simps [simp del]

definition iterator_blocks :: "iterator \<Rightarrow> byte list list" where
  "iterator_blocks it = takeWhile (\<lambda>c. c \<noteq> []) it"

definition changeset_blocks :: "(nat \<Rightarrow> iterator) \<Rightarrow> changeset_stream \<Rightarrow> byte list list" where
  "changeset_blocks history s =
     (if cs_valid s \<and> cs_iterators s \<noteq> []
      then concat (map iterator_blocks (cs_iterators s)) @ concat (map (iterator_blocks \<circ> history) [cs_begin s..<cs_end s])
      else [])"

lemma get_changeset_blocks:
  "changeset_blocks history (get_changeset history s) = concat (map (iterator_blocks \<circ> history) [cs_begin s..<cs_end s])"
proof (cases "cs_begin s < cs_end s")
  case True
  let ?e = "cs_begin s + min nb_buffers (cs_end s - cs_begin s)"
  have e: "cs_begin s < ?e" "?e \<le> cs_end s" using True by (simp_all add: nb_buffers_def)
  then have "[cs_begin s..<cs_end s] = [cs_begin s..<?e] @ [?e..<cs_end s]" by (metis less_imp_le upt_add_eq_append le_Suc_ex)
  then show ?thesis using True e by (simp add: changeset_blocks_def get_changeset_def Let_def)
qed (simp add: changeset_blocks_def get_changeset_def)

lemma iterator_blocks_next:
  "get_next it = [] \<Longrightarrow> iterator_blocks it = []" "get_next it \<noteq> [] \<Longrightarrow> iterator_blocks it = get_next it # iterator_blocks (tl it)"
  by (cases it; simp add: iterator_blocks_def)+

lemma changeset_next_none: "changeset_next history s = None \<Longrightarrow> changeset_blocks history s = []"
proof (induction history s rule: changeset_next.induct)
  case (1 history s)
  show ?case
  proof (cases "cs_valid s \<and> cs_iterators s \<noteq> []")
    case True
    then obtain it its where i: "cs_iterators s = it # its" "cs_valid s" by (cases "cs_iterators s") auto
    have n: "get_next it = []" using 1(2) i by (subst (asm) changeset_next.simps) (auto split: if_splits)
    let ?s = "if its = [] then get_changeset history s else s\<lparr>cs_iterators := its\<rparr>"
    have "changeset_next history ?s = None" using 1(2) i n by (subst (asm) changeset_next.simps) simp
    then have "changeset_blocks history ?s = []" using 1(1) i n by simp
    moreover have "changeset_blocks history s = changeset_blocks history ?s"
      using i n by (cases "its = []") (simp_all add: get_changeset_blocks, simp_all add: changeset_blocks_def iterator_blocks_next)
    ultimately show ?thesis by simp
  qed (auto simp: changeset_blocks_def)
qed

lemma changeset_next_some:
  "changeset_next history s = Some (b, s') \<Longrightarrow> b \<noteq> [] \<and> changeset_blocks history s = b # changeset_blocks history s'"
proof (induction history s rule: changeset_next.induct)
  case (1 history s)
  then have "cs_valid s \<and> cs_iterators s \<noteq> []" by (subst (asm) (2) changeset_next.simps) (auto split: if_splits list.splits)
  then obtain it its where i: "cs_iterators s = it # its" "cs_valid s" by (cases "cs_iterators s") auto
  show ?case
  proof (cases "get_next it = []")
    case n: True
    let ?s = "if its = [] then get_changeset history s else s\<lparr>cs_iterators := its\<rparr>"
    have "changeset_next history ?s = Some (b, s')" using 1(2) i n by (subst (asm) changeset_next.simps) simp
    then have "b \<noteq> [] \<and> changeset_blocks history ?s = b # changeset_blocks history s'" using 1(1) i n by simp
    moreover have "changeset_blocks history s = changeset_blocks history ?s"
      using i n by (cases "its = []") (simp_all add: get_changeset_blocks, simp_all add: changeset_blocks_def iterator_blocks_next)
    ultimately show ?thesis by simp
  next
    case False
    then have "b = get_next it" "s' = s\<lparr>cs_iterators := tl it # its\<rparr>"
      using 1(2) i by (subst (asm) changeset_next.simps, simp)+
    then show ?thesis using i False by (simp add: changeset_blocks_def iterator_blocks_next)
  qed
qed

interpretation changeset_source: block_source "changeset_next history" "changeset_blocks history" for history
  by unfold_locales (auto simp: changeset_next_none changeset_next_some)

text \<open>All the changesets are read when no chunk of a changeset is empty.\<close>

lemma new_changeset_blocks:
  "changeset_blocks history (new_changeset_stream history b e) = concat (map (iterator_blocks \<circ> history) [b..<e])"
  unfolding new_changeset_stream_def by (simp add: get_changeset_blocks)

end
