(* ===== verification/Transact_Logs.thy ===== *)
theory Transact_Logs
  imports Transact_Roundtrip Input_Streams
begin

text \<open>
  Whole logs: what the encoder appends for a sequence of calls, and what the parser makes of it.
\<close>

section \<open>Calls of the encoder\<close>

text \<open>A call of \<open>link_list_set_all\<close> is no instruction of its own: the handler sees an assignment per link.\<close>

datatype log_entry = Entry instruction | Entry_Set_All "size list"

fun entry_args :: "(instruction \<Rightarrow> arg list) \<Rightarrow> log_entry \<Rightarrow> arg list" where
  "entry_args select (Entry i) = (case instruction_args select i of None \<Rightarrow> [] | Some as \<Rightarrow> as)"
| "entry_args select (Entry_Set_All vs) = [Op Instr_Link_List_Set_All, Size (length vs), Integers (map int vs)]"

fun entry_calls :: "log_entry \<Rightarrow> instruction list" where
  "entry_calls (Entry i) = [i]"
| "entry_calls (Entry_Set_All vs) = map (\<lambda>(k, v). Link_List_Set k v (length vs)) (List.enumerate 0 vs)"

fun log_entry_ok :: "log_entry \<Rightarrow> bool" where
  "log_entry_ok (Entry i) \<longleftrightarrow> loggable i"
| "log_entry_ok (Entry_Set_All vs) \<longleftrightarrow> length vs \<le> npos \<and> list_all (\<lambda>v. v < 2 ^ 63) vs"

fun encode_entry :: "(instruction \<Rightarrow> arg list) \<Rightarrow> log_entry \<Rightarrow> encoder \<Rightarrow> encoder option" where
  "encode_entry select (Entry i) e = append_instruction select i e"
| "encode_entry select (Entry_Set_All vs) e = link_list_set_all (map int vs) e"

fun encode_entries :: "(instruction \<Rightarrow> arg list) \<Rightarrow> log_entry list \<Rightarrow> encoder \<Rightarrow> encoder option" where
  "encode_entries select [] e = Some e"
| "encode_entries select (x # xs) e = do { e \<leftarrow> encode_entry select x e; encode_entries select xs e }"

text \<open>
  What is relied on of the three methods that are not in the sources: they write instructions that the parser
  reads as the selection that was meant.
\<close>

definition selections_read :: "(instruction \<Rightarrow> arg list) \<Rightarrow> bool" where
  "selections_read select \<longleftrightarrow> (\<forall>i rest. selection i \<and> loggable i \<longrightarrow>
     args_ok (select i) \<and> read_call (args_bytes (select i) @ rest, []) = Some (Call i, rest, []))"

definition entry_bytes :: "(instruction \<Rightarrow> arg list) \<Rightarrow> log_entry \<Rightarrow> byte list" where
  "entry_bytes select x = args_bytes (entry_args select x)"

definition log_of :: "(instruction \<Rightarrow> arg list) \<Rightarrow> log_entry list \<Rightarrow> byte list" where
  "log_of select xs = concat (map (entry_bytes select) xs)"

definition entries_need :: "(instruction \<Rightarrow> arg list) \<Rightarrow> log_entry list \<Rightarrow> nat" where
  "entries_need select xs = sum_list (map (\<lambda>x. needed (entry_args select x)) xs)"

lemma links_ok: "list_all (\<lambda>v. v < 2 ^ 63) vs \<Longrightarrow> arg_ok (Integers (map int vs))"
  by (induction vs) (simp_all add: arg_ok_def in_type_def min_value_def max_value_def)

lemma entry_args_ok:
  assumes "selections_read select" "log_entry_ok x"
  shows "args_ok (entry_args select x)" "\<exists>i. x = Entry i \<Longrightarrow> \<exists>i. x = Entry i \<and> instruction_args select i = Some (entry_args select x)"
proof -
  have "\<exists>as. instruction_args select i = Some as \<and> args_ok as" if "loggable i" for i
  proof (cases "selection i")
    case True
    then have "args_ok (select i)" using assms(1) that by (auto simp: selections_read_def)
    moreover have "instruction_args select i = Some (select i)" using True by (cases i) simp_all
    ultimately show ?thesis by blast
  qed (rule instruction_args_ok[OF that])
  then show "args_ok (entry_args select x)"
    "\<exists>i. x = Entry i \<Longrightarrow> \<exists>i. x = Entry i \<and> instruction_args select i = Some (entry_args select x)"
    using assms(2) links_ok by (cases x; fastforce)+
qed

lemma encode_entry_append:
  assumes "selections_read select" "log_entry_ok x"
  shows "encode_entry select x e = append_simple_instr (entry_args select x) e"
  using entry_args_ok[OF assms] by (cases x) (auto simp: append_instruction_def link_list_set_all_def split: option.splits)

lemma integers_needed: "list_all (in_type Int64_Type) vs \<Longrightarrow> length (concat (map (encode_int Int64_Type) vs)) \<le> 10 * length vs"
proof (induction vs)
  case (Cons v vs)
  then show ?case using length_encode_int(2)[of Int64_Type v] by simp
qed simp

lemma args_bytes_needed: "args_ok as \<Longrightarrow> length (args_bytes as) \<le> needed as"
proof (induction as)
  case (Cons a as)
  show ?case
  proof (cases a)
    case (Integers vs)
    then show ?thesis using Cons.prems integers_needed[of vs] by (simp add: arg_bytes.simps arg_ok_def)
  next
    case (Number T v)
    then show ?thesis
      using Cons length_encode_int(2)[of T v] by (simp add: arg_ok_def arg_bytes.simps max_enc_bytes_per_num_def)
  next
    case (Text s)
    then show ?thesis using Cons length_encode_int(2)[OF in_size, of "length s"]
      by (simp add: arg_ok_def arg_bytes.simps max_enc_bytes_per_num_def)
  qed (use Cons in \<open>auto simp: arg_bytes.simps arg_ok_def max_enc_bytes_per_num_def\<close>)
qed (simp add: arg_bytes.simps)

lemma encode_entries_spec:
  assumes "selections_read select" "list_all log_entry_ok xs" "encoder_ok e" "length (log_bytes e) + entries_need select xs \<le> npos"
  shows "\<exists>e'. encode_entries select xs e = Some e' \<and> encoder_ok e' \<and> log_bytes e' = log_bytes e @ log_of select xs"
  using assms(2-)
proof (induction xs arbitrary: e)
  case (Cons x xs)
  then have x: "log_entry_ok x" "list_all log_entry_ok xs" by simp_all
  note a = entry_args_ok(1)[OF assms(1) x(1)]
  have "length (log_bytes e) + needed (entry_args select x) \<le> npos" using Cons.prems(3) by (simp add: entries_need_def)
  then obtain e1 where e1: "append_simple_instr (entry_args select x) e = Some e1" "encoder_ok e1"
    "log_bytes e1 = log_bytes e @ entry_bytes select x"
    using append_simple_instr_spec[OF Cons.prems(2) a] by (auto simp: entry_bytes_def)
  have "length (log_bytes e1) + entries_need select xs \<le> npos"
    using Cons.prems(3) args_bytes_needed[OF a] e1(3) by (simp add: entries_need_def entry_bytes_def)
  then show ?case
    using Cons.IH[OF x(2) e1(2)] e1 by (auto simp: encode_entry_append[OF assms(1) x(1)] log_of_def)
qed (simp add: log_of_def)

section \<open>What the parser does\<close>

fun run_handler :: "('h, 'e) handler \<Rightarrow> instruction list \<Rightarrow> 'h \<Rightarrow> 'e parse_error + 'h" where
  "run_handler handle [] h = Inr h"
| "run_handler handle (i # is) h = (case call_handler handle i h of Inl e \<Rightarrow> Inl e | Inr h \<Rightarrow> run_handler handle is h)"

lemma run_handler_append:
  "run_handler handle (is @ js) h = (case run_handler handle is h of Inl e \<Rightarrow> Inl e | Inr h \<Rightarrow> run_handler handle js h)"
  by (induction "is" arbitrary: h) (auto split: sum.split)

lemma set_all_links_back:
  assumes "list_all (\<lambda>v. v < 2 ^ 63) vs"
  shows "set_all_links handle n (length vs) k h (concat (map (encode_int Int64_Type) (map int vs)) @ rest, []) =
    (case run_handler handle (map (\<lambda>(k, v). Link_List_Set k v n) (List.enumerate k vs)) h of
       Inl e \<Rightarrow> Inl e | Inr h \<Rightarrow> Inr (h, rest, []))"
  using assms
proof (induction vs arbitrary: k h)
  case (Cons v vs)
  have "in_type Int64_Type (int v)" using Cons.prems by (simp add: in_type_def min_value_def max_value_def)
  moreover have "\<not> int v < 0" "int v \<noteq> -1" "- (2 ^ 64) \<le> int v" "int v < 2 ^ 64" "int v mod 2 ^ 64 = int v" using Cons.prems by auto
  ultimately have "read_size (encode_int Int64_Type (int v) @ r, []) = Some (v, r, [])" for r
    using read_int_size[of "int v" r "[]"] by (simp add: read_size_def encode_int_groups)
  then show ?case using Cons by (auto split: sum.split)
qed simp

lemma read_call_entry:
  assumes "selections_read select" "loggable i"
  shows "read_call (entry_bytes select (Entry i) @ rest, []) = Some (Call i, rest, [])"
proof (cases "selection i")
  case True
  then have "entry_bytes select (Entry i) = args_bytes (select i)" by (cases i) (simp_all add: entry_bytes_def)
  then show ?thesis using assms True by (simp add: selections_read_def)
next
  case False
  then show ?thesis
    using read_call_back[of i select] entry_args_ok(2)[of select "Entry i"] assms by (auto simp: entry_bytes_def)
qed

lemma parse_one_entry:
  assumes "selections_read select" "log_entry_ok x"
  shows "parse_one handle h (entry_bytes select x @ rest, []) =
    (case run_handler handle (entry_calls x) h of Inl e \<Rightarrow> Inl e | Inr h \<Rightarrow> Inr (h, rest, []))"
proof (cases x)
  case (Entry i)
  have "read_call (entry_bytes select x @ rest, []) = Some (Call i, rest, [])"
    using read_call_entry[OF assms(1)] assms(2) Entry by simp
  then show ?thesis using Entry by (simp add: parse_one_def split: sum.split)
next
  case (Entry_Set_All vs)
  let ?vs = "concat (map (encode_int Int64_Type) (map int vs))"
  have "read_call (entry_bytes select x @ rest, []) = Some (Set_All_Links (length vs), ?vs @ rest, [])"
    using assms(2) Entry_Set_All by (simp add: entry_bytes_def read_call_op read_back arg_bytes.simps(6))
  then show ?thesis using set_all_links_back[of vs handle "length vs" 0 h rest] assms(2) Entry_Set_All by (simp add: parse_one_def)
qed

lemma instruction_entries:
  "concat (map entry_calls (map Entry is)) = is" "list_all log_entry_ok (map Entry is) \<longleftrightarrow> list_all loggable is"
  by (induction "is") simp_all

text \<open>An instruction that is cut.\<close>

lemma read_call_cut:
  assumes "selections_read select" "loggable i" "entry_bytes select (Entry i) = b @ u" "u \<noteq> []"
  shows "read_call (b, []) = None"
proof (rule ccontr)
  assume "read_call (b, []) \<noteq> None"
  then obtain x t where "read_call (b, []) = Some (x, t)" by auto
  then have "read_call (b @ u, []) = Some (x, fst t @ u, [])" by (rule extends_some[OF readerD(3)[OF reader_read_call]])
  then show False using read_call_entry[OF assms(1,2), of "[]"] assms(3,4) by simp
qed

lemma entry_bytes_ne:
  assumes "selections_read select" "log_entry_ok x"
  shows "entry_bytes select x \<noteq> []"
proof
  assume e: "entry_bytes select x = []"
  let ?handle = "\<lambda>i h. Inr (True, h) :: unit + bool \<times> unit"
  have "run_handler ?handle is () = Inr ()" for "is" by (induction "is") (simp_all add: call_handler_def)
  then have "parse_one ?handle () ([], []) = Inr ((), [], [])" using parse_one_entry[OF assms, of ?handle "()" "[]"] e by simp
  then show False by (simp add: parse_one_def read_call_def)
qed

lemma parse_log:
  assumes "selections_read select" "list_all log_entry_ok xs"
  shows "parse_loop handle h (log_of select xs, []) = run_handler handle (concat (map entry_calls xs)) h"
  using assms(2)
proof (induction xs arbitrary: h)
  case Nil
  then show ?case by (subst parse_loop.simps) (simp add: log_of_def)
next
  case (Cons x xs)
  have x: "log_entry_ok x" using Cons.prems by simp
  have n: "has_next (log_of select (x # xs), []) = Some (log_of select (x # xs), [])"
    using entry_bytes_ne[OF assms(1) x] by (cases "entry_bytes select x") (simp_all add: log_of_def)
  have "parse_one handle h (log_of select (x # xs), []) =
      (case run_handler handle (entry_calls x) h of Inl e \<Rightarrow> Inl e | Inr h \<Rightarrow> Inr (h, log_of select xs, []))"
    using parse_one_entry[OF assms(1) x, of handle h "log_of select xs"] by (simp add: log_of_def)
  then show ?case
    using Cons n by (subst parse_loop.simps) (auto simp: run_handler_append split: sum.split)
qed

lemma parse_cut_log:
  assumes "selections_read select" "list_all log_entry_ok xs" "loggable i" "entry_bytes select (Entry i) = b @ u" "b \<noteq> []" "u \<noteq> []"
  shows "parse_loop handle h (log_of select xs @ b, []) =
    (case run_handler handle (concat (map entry_calls xs)) h of Inl e \<Rightarrow> Inl e | Inr _ \<Rightarrow> Inl Bad_Transact_Log)"
  using assms(2)
proof (induction xs arbitrary: h)
  case Nil
  obtain c cs where "b = c # cs" using assms(5) by (cases b) auto
  then show ?case
    using read_call_cut[OF assms(1,3,4,6)] by (subst parse_loop.simps) (simp add: log_of_def parse_one_def)
next
  case (Cons x xs)
  have x: "log_entry_ok x" using Cons.prems by simp
  have n: "has_next (log_of select (x # xs) @ b, []) = Some (log_of select (x # xs) @ b, [])"
    using entry_bytes_ne[OF assms(1) x] by (cases "entry_bytes select x") (simp_all add: log_of_def)
  have "parse_one handle h (log_of select (x # xs) @ b, []) =
      (case run_handler handle (entry_calls x) h of Inl e \<Rightarrow> Inl e | Inr h \<Rightarrow> Inr (h, log_of select xs @ b, []))"
    using parse_one_entry[OF assms(1) x, of handle h "log_of select xs @ b"] by (simp add: log_of_def)
  then show ?case
    using Cons n by (subst parse_loop.simps) (auto simp: run_handler_append split: sum.split)
qed

section \<open>Selections as the parser reads them\<close>

text \<open>One way to write the three selections.\<close>

fun plain_select :: "instruction \<Rightarrow> arg list" where
  "plain_select (Select_Table t path) =
     [Op Instr_Select_Table, Int32 (int (length path)), Size t] @ concat (map (\<lambda>(c, r). [Size c, Size r]) path)"
| "plain_select (Select_Descriptor path) = [Op Instr_Select_Descriptor, Int32 (int (length path))] @ map Size path"
| "plain_select (Select_Link_List c r t) = [Op Instr_Select_Link_List, Size c, Size r, Size t]"
| "plain_select _ = []"

lemma plain_path:
  "list_all (\<lambda>(c, r). c \<le> npos \<and> r \<le> npos) path \<Longrightarrow>
    args_ok (concat (map (\<lambda>(c, r). [Size c, Size r]) path)) \<and>
    read_path (length path) (args_bytes (concat (map (\<lambda>(c, r). [Size c, Size r]) path)) @ rest, bs) = Some (path, rest, bs)"
  by (induction path) (auto simp: read_back)

lemma plain_columns:
  "list_all (\<lambda>c. c \<le> npos) path \<Longrightarrow>
    args_ok (map Size path) \<and> read_sizes (length path) (args_bytes (map Size path) @ rest, bs) = Some (path, rest, bs)"
  by (induction path) (auto simp: read_back)

lemma plain_levels:
  "n \<le> 1024 \<Longrightarrow> in_type Int32_Type (int n)" "n \<le> 1024 \<Longrightarrow> read_levels (arg_bytes (Int32 (int n)) @ rest, bs) = Some (n, rest, bs)"
  by (simp_all add: read_levels_def read_back max_levels_def in_type_def min_value_def max_value_def)

lemma plain_select_read: "selections_read plain_select"
proof -
  have "args_ok (plain_select i) \<and> read_call (args_bytes (plain_select i) @ rest, []) = Some (Call i, rest, [])"
    if "selection i" "loggable i" for i rest
    using that plain_path plain_columns
    by (cases i) (auto simp: read_call_op plain_levels read_back read_3_def)
  then show ?thesis by (simp add: selections_read_def)
qed

end
