(* ===== verification/Transact_Reverser.thy ===== *)
theory Transact_Reverser
  imports Transact_Logs
begin

text \<open>
  \<open>TransactReverser\<close> and \<open>ReversedNoCopyInputStream\<close> (\<open>core/realm/impl/transact_log.hpp\<close>): the handler that
  writes, for the log of a transaction, the instructions that lead back, and the stream that gives them in
  reverse order.
\<close>

section \<open>The handler\<close>

text \<open>\<open>Instr\<close> is a range of the buffer; a pending selection is \<open>(0, 0)\<close> when there is none.\<close>

record reverser =
  rv_encoder :: encoder
  rv_instructions :: "(nat \<times> nat) list"
  rv_start :: nat
  rv_table :: "nat \<times> nat"
  rv_descriptor :: "nat \<times> nat"
  rv_link_list :: "nat \<times> nat"

definition new_reverser :: reverser where
  "new_reverser = \<lparr>rv_encoder = new_encoder, rv_instructions = [], rv_start = 0, rv_table = (0, 0), rv_descriptor = (0, 0),
     rv_link_list = (0, 0)\<rparr>"

definition wrap64 :: "int \<Rightarrow> int" where
  "wrap64 v = (v + 2 ^ 63) mod 2 ^ 64 - 2 ^ 63"

text \<open>The instructions written for one that is not a selection.\<close>

fun inverse_instrs :: "instruction \<Rightarrow> instruction list" where
  "inverse_instrs (Insert_Group_Level_Table t num _) = [Erase_Group_Level_Table t ((num + 1) mod 2 ^ 64)]"
| "inverse_instrs (Erase_Group_Level_Table t num) = [Insert_Group_Level_Table t (size_sub num 1) []]"
| "inverse_instrs (Insert_Empty_Rows row n prior unordered) = [Erase_Rows row n ((prior + n) mod 2 ^ 64) unordered]"
| "inverse_instrs (Add_Row_With_Key row prior _ _) = [Erase_Rows row 1 ((prior + 1) mod 2 ^ 64) True]"
| "inverse_instrs (Erase_Rows row n prior unordered) = [Insert_Empty_Rows row n (size_sub prior n) unordered]"
| "inverse_instrs (Swap_Rows r1 r2) = [Swap_Rows r1 r2]"
| "inverse_instrs (Move_Row f t) = [Move_Row t f]"
| "inverse_instrs (Merge_Rows r n) = [Merge_Rows r r, Merge_Rows n n]"
| "inverse_instrs (Set_Cell var col row v) = [Set_Cell var col row v]"
| "inverse_instrs (Add_Int col row v) = [Add_Int col row (wrap64 (- v))]"
| "inverse_instrs (Clear_Table n) = [Insert_Empty_Rows 0 n 0 False]"
| "inverse_instrs (Insert_Link_Column col _ _ target backlink) = [Erase_Link_Column col target backlink]"
| "inverse_instrs (Erase_Link_Column col target backlink) = [Insert_Link_Column col Type_Link [] target backlink]"
| "inverse_instrs (Insert_Column col _ _ _) = [Erase_Column col]"
| "inverse_instrs (Erase_Column col) = [Insert_Column col Type_Int [] False]"
| "inverse_instrs (Link_List_Set i v prior) = [Link_List_Set i v prior]"
| "inverse_instrs (Link_List_Insert i _ prior) = [Link_List_Erase i ((prior + 1) mod 2 ^ 64)]"
| "inverse_instrs (Link_List_Move f t) = [Link_List_Move f t]"
| "inverse_instrs (Link_List_Swap i j) = [Link_List_Swap i j]"
| "inverse_instrs (Link_List_Erase i prior) = [Link_List_Insert i 0 (size_sub prior 1)]"
| "inverse_instrs (Link_List_Clear n) = map (\<lambda>i. Link_List_Insert (i - 1) 0 (n - i)) (rev [1..<n + 1])"
| "inverse_instrs (Nullify_Link col row target) = [Set_Cell Plain_Set col row (Link_Value 0 target)]"
| "inverse_instrs (Link_List_Nullify i prior) = [Link_List_Insert i 0 (size_sub prior 1)]"
| "inverse_instrs _ = []"

fun group_level :: "instruction \<Rightarrow> bool" where
  "group_level (Insert_Group_Level_Table _ _ _) = True"
| "group_level (Erase_Group_Level_Table _ _) = True"
| "group_level (Rename_Group_Level_Table _ _) = True"
| "group_level _ = False"

definition get_inst :: "reverser \<Rightarrow> (nat \<times> nat) \<times> reverser" where
  "get_inst r = ((rv_start r, te_begin (rv_encoder r)), r\<lparr>rv_start := te_begin (rv_encoder r)\<rparr>)"

definition append_range :: "nat \<times> nat \<Rightarrow> reverser \<Rightarrow> reverser" where
  "append_range i r = r\<lparr>rv_instructions := rv_instructions r @ [i]\<rparr>"

definition sync_linkview :: "reverser \<Rightarrow> reverser" where
  "sync_linkview r =
     (if fst (rv_link_list r) \<noteq> snd (rv_link_list r) then (append_range (rv_link_list r) r)\<lparr>rv_link_list := (0, 0)\<rparr> else r)"

definition sync_descriptor :: "reverser \<Rightarrow> reverser" where
  "sync_descriptor r = (let r = sync_linkview r in
     if fst (rv_descriptor r) \<noteq> snd (rv_descriptor r) then (append_range (rv_descriptor r) r)\<lparr>rv_descriptor := (0, 0)\<rparr> else r)"

definition sync_table :: "reverser \<Rightarrow> reverser" where
  "sync_table r = (let r = sync_descriptor r in
     if fst (rv_table r) \<noteq> snd (rv_table r) then (append_range (rv_table r) r)\<lparr>rv_table := (0, 0)\<rparr> else r)"

definition rv_encode :: "(instruction \<Rightarrow> arg list) \<Rightarrow> instruction \<Rightarrow> reverser \<Rightarrow> reverser option" where
  "rv_encode select i r = do { e \<leftarrow> append_instruction select i (rv_encoder r); Some (r\<lparr>rv_encoder := e\<rparr>) }"

fun emit_undo :: "(instruction \<Rightarrow> arg list) \<Rightarrow> instruction list \<Rightarrow> reverser \<Rightarrow> reverser option" where
  "emit_undo select [] r = Some r"
| "emit_undo select (i # is) r = do {
     r \<leftarrow> rv_encode select i r;
     let (inst, r) = get_inst r in emit_undo select is (append_range inst r) }"

fun reverse_step :: "(instruction \<Rightarrow> arg list) \<Rightarrow> instruction \<Rightarrow> reverser \<Rightarrow> reverser option" where
  "reverse_step select (Select_Table t path) r = do {
     r \<leftarrow> rv_encode select (Select_Table t path) (sync_table r);
     let (inst, r) = get_inst r in Some (r\<lparr>rv_table := inst\<rparr>) }"
| "reverse_step select (Select_Descriptor path) r = do {
     r \<leftarrow> rv_encode select (Select_Descriptor path) (sync_descriptor r);
     let (inst, r) = get_inst r in Some (r\<lparr>rv_descriptor := inst\<rparr>) }"
| "reverse_step select (Select_Link_List col row target) r = do {
     r \<leftarrow> rv_encode select (Select_Link_List col row target) (sync_linkview r);
     let (inst, r) = get_inst r in Some (r\<lparr>rv_link_list := inst\<rparr>) }"
| "reverse_step select i r = emit_undo select (inverse_instrs i) (if group_level i then sync_table r else r)"

text \<open>As a handler of the parser; the only error is that the buffer cannot grow.\<close>

datatype buffer_error = Buffer_Size_Overflow

definition reverser_handler :: "(instruction \<Rightarrow> arg list) \<Rightarrow> (reverser, buffer_error) handler" where
  "reverser_handler select i r = (case reverse_step select i r of None \<Rightarrow> Inl Buffer_Size_Overflow | Some r \<Rightarrow> Inr (True, r))"

section \<open>The reversed stream\<close>

record reversed_input =
  rs_buffer :: "byte list"
  rs_order :: "(nat \<times> nat) list"
  rs_current :: nat

definition reversed_stream :: "reverser \<Rightarrow> reversed_input" where
  "reversed_stream r = (let r = sync_table r in
     \<lparr>rs_buffer = te_memory (rv_encoder r), rs_order = rv_instructions r, rs_current = length (rv_instructions r)\<rparr>)"

definition slice :: "byte list \<Rightarrow> nat \<times> nat \<Rightarrow> byte list" where
  "slice m i = drop (fst i) (take (snd i) m)"

text \<open>The ranges are in the buffer, so that \<open>end > begin\<close> means that there are bytes.\<close>

definition reversed_next :: "reversed_input \<Rightarrow> (byte list \<times> reversed_input) option" where
  "reversed_next s =
     (if rs_current s \<noteq> 0 then
        let s = s\<lparr>rs_current := rs_current s - 1\<rparr>; b = slice (rs_buffer s) (rs_order s ! rs_current s)
        in if b \<noteq> [] then Some (b, s) else None
      else None)"

primrec reversed_blocks_from :: "byte list \<Rightarrow> (nat \<times> nat) list \<Rightarrow> nat \<Rightarrow> byte list list" where
  "reversed_blocks_from buffer order 0 = []"
| "reversed_blocks_from buffer order (Suc n) =
     (let b = slice buffer (order ! n) in if b \<noteq> [] then b # reversed_blocks_from buffer order n else [])"

definition reversed_blocks :: "reversed_input \<Rightarrow> byte list list" where
  "reversed_blocks s = reversed_blocks_from (rs_buffer s) (rs_order s) (rs_current s)"

interpretation reversed_source: block_source reversed_next reversed_blocks
proof
  fix s show "reversed_next s = None \<Longrightarrow> reversed_blocks s = []"
    by (cases "rs_current s") (auto simp: reversed_next_def reversed_blocks_def Let_def split: if_splits)
next
  fix s b s' show "reversed_next s = Some (b, s') \<Longrightarrow> b \<noteq> [] \<and> reversed_blocks s = b # reversed_blocks s'"
    by (cases "rs_current s") (auto simp: reversed_next_def reversed_blocks_def Let_def split: if_splits)
qed

section \<open>The instructions that are written\<close>

text \<open>The same, of instructions instead of ranges of bytes.\<close>

record undo =
  un_done :: "instruction list"
  un_table :: "instruction option"
  un_descriptor :: "instruction option"
  un_link_list :: "instruction option"

definition new_undo :: undo where
  "new_undo = \<lparr>un_done = [], un_table = None, un_descriptor = None, un_link_list = None\<rparr>"

definition flush_link_list :: "undo \<Rightarrow> undo" where
  "flush_link_list u = u\<lparr>un_done := un_done u @ (case un_link_list u of None \<Rightarrow> [] | Some i \<Rightarrow> [i]), un_link_list := None\<rparr>"

definition flush_descriptor :: "undo \<Rightarrow> undo" where
  "flush_descriptor u = (let u = flush_link_list u in
     u\<lparr>un_done := un_done u @ (case un_descriptor u of None \<Rightarrow> [] | Some i \<Rightarrow> [i]), un_descriptor := None\<rparr>)"

definition flush_table :: "undo \<Rightarrow> undo" where
  "flush_table u = (let u = flush_descriptor u in
     u\<lparr>un_done := un_done u @ (case un_table u of None \<Rightarrow> [] | Some i \<Rightarrow> [i]), un_table := None\<rparr>)"

fun undo_step :: "instruction \<Rightarrow> undo \<Rightarrow> undo" where
  "undo_step (Select_Table t path) u = (flush_table u)\<lparr>un_table := Some (Select_Table t path)\<rparr>"
| "undo_step (Select_Descriptor path) u = (flush_descriptor u)\<lparr>un_descriptor := Some (Select_Descriptor path)\<rparr>"
| "undo_step (Select_Link_List col row target) u = (flush_link_list u)\<lparr>un_link_list := Some (Select_Link_List col row target)\<rparr>"
| "undo_step i u = (let u = if group_level i then flush_table u else u in u\<lparr>un_done := un_done u @ inverse_instrs i\<rparr>)"

definition undo_log :: "instruction list \<Rightarrow> instruction list" where
  "undo_log is = rev (un_done (flush_table (fold undo_step is new_undo)))"

definition emitted :: "instruction \<Rightarrow> instruction list" where
  "emitted i = (if selection i then [i] else inverse_instrs i)"

lemma wrap64_in: "in_type Int64_Type (wrap64 v)"
  using pos_mod_bound[of "2 ^ 64" "v + 2 ^ 63"] pos_mod_sign[of "2 ^ 64" "v + 2 ^ 63"]
  by (simp add: wrap64_def in_type_def min_value_def max_value_def)

lemma size_results: "(n::nat) mod 2 ^ 64 \<le> npos" "a \<le> npos \<Longrightarrow> size_sub a b \<le> npos" "Suc 0 \<le> npos"
proof -
  have "n mod 2 ^ 64 < 2 ^ 64" by simp
  then show "n mod 2 ^ 64 \<le> npos" unfolding npos_def by linarith
  show "a \<le> npos \<Longrightarrow> size_sub a b \<le> npos" by (auto simp: size_sub_def npos_def)
qed (simp add: npos_def)

lemma emitted_loggable: "loggable i \<Longrightarrow> list_all loggable (emitted i)"
proof (cases i)
  case (Link_List_Clear n)
  assume "loggable i"
  then show ?thesis using Link_List_Clear by (auto simp: emitted_def list_all_iff intro: le_trans[of _ n])
qed (auto simp: emitted_def size_results[simplified] size_results wrap64_in)

end
