(* ===== verification/Transact_Undo.thy ===== *)
theory Transact_Undo
  imports Transact_Reverser
begin

text \<open>
  The reverser writes what \<open>undo_log\<close> says, and in the reversed log every instruction is read with the
  selections under which the one it reverses was read.
\<close>

section \<open>Ranges hold instructions\<close>

definition holds_entry :: "(instruction \<Rightarrow> arg list) \<Rightarrow> byte list \<Rightarrow> nat \<times> nat \<Rightarrow> instruction \<Rightarrow> bool" where
  "holds_entry select m r i \<longleftrightarrow> fst r < snd r \<and> snd r \<le> length m \<and> slice m r = entry_bytes select (Entry i)"

fun holds_entry_pending :: "(instruction \<Rightarrow> arg list) \<Rightarrow> byte list \<Rightarrow> nat \<times> nat \<Rightarrow> instruction option \<Rightarrow> bool" where
  "holds_entry_pending select m r None \<longleftrightarrow> fst r = snd r"
| "holds_entry_pending select m r (Some i) \<longleftrightarrow> holds_entry select m r i"

definition represents :: "(instruction \<Rightarrow> arg list) \<Rightarrow> reverser \<Rightarrow> undo \<Rightarrow> bool" where
  "represents select r u \<longleftrightarrow> encoder_ok (rv_encoder r) \<and> rv_start r = te_begin (rv_encoder r) \<and>
     list_all2 (holds_entry select (log_bytes (rv_encoder r))) (rv_instructions r) (un_done u) \<and>
     holds_entry_pending select (log_bytes (rv_encoder r)) (rv_table r) (un_table u) \<and>
     holds_entry_pending select (log_bytes (rv_encoder r)) (rv_descriptor r) (un_descriptor u) \<and>
     holds_entry_pending select (log_bytes (rv_encoder r)) (rv_link_list r) (un_link_list u)"

lemma represents_new: "represents select new_reverser new_undo"
  by (simp add: represents_def new_reverser_def new_undo_def encoder_ok_def new_encoder_def)

lemma holds_entry_append: "holds_entry select m r i \<Longrightarrow> holds_entry select (m @ n) r i"
  by (simp add: holds_entry_def slice_def)

lemma holds_entry_pending_append: "holds_entry_pending select m r p \<Longrightarrow> holds_entry_pending select (m @ n) r p"
  by (cases p) (simp_all add: holds_entry_append)

lemma represents_flush:
  "represents select r u \<Longrightarrow> represents select (sync_linkview r) (flush_link_list u)"
  "represents select r u \<Longrightarrow> represents select (sync_descriptor r) (flush_descriptor u)"
  "represents select r u \<Longrightarrow> represents select (sync_table r) (flush_table u)"
proof -
  show l: "represents select r u \<Longrightarrow> represents select (sync_linkview r) (flush_link_list u)" for r u
    by (cases "un_link_list u") (auto simp: represents_def sync_linkview_def flush_link_list_def append_range_def holds_entry_def
      intro: list_all2_appendI)
  show d: "represents select r u \<Longrightarrow> represents select (sync_descriptor r) (flush_descriptor u)" for r u
    using l[of r u] by (cases "un_descriptor (flush_link_list u)")
      (auto simp: represents_def sync_descriptor_def flush_descriptor_def append_range_def holds_entry_def Let_def
        intro: list_all2_appendI)
  show "represents select r u \<Longrightarrow> represents select (sync_table r) (flush_table u)"
    using d[of r u] by (cases "un_table (flush_descriptor u)")
      (auto simp: represents_def sync_table_def flush_table_def append_range_def holds_entry_def Let_def intro: list_all2_appendI)
qed

lemma sync_encoder [simp]: "rv_encoder (sync_linkview r) = rv_encoder r" "rv_encoder (sync_descriptor r) = rv_encoder r"
  "rv_encoder (sync_table r) = rv_encoder r"
  by (simp_all add: sync_linkview_def sync_descriptor_def sync_table_def append_range_def Let_def)

section \<open>One step\<close>

lemma encode_one:
  assumes "selections_read select" "represents select r u" "loggable i"
    and "length (log_bytes (rv_encoder r)) + needed (entry_args select (Entry i)) \<le> npos"
  shows "\<exists>e'. rv_encode select i r = Some (r\<lparr>rv_encoder := e'\<rparr>) \<and> encoder_ok e' \<and>
    log_bytes e' = log_bytes (rv_encoder r) @ entry_bytes select (Entry i) \<and>
    holds_entry select (log_bytes e') (rv_start r, te_begin e') i"
proof -
  have ok: "encoder_ok (rv_encoder r)" "rv_start r = te_begin (rv_encoder r)" using assms(2) by (simp_all add: represents_def)
  have x: "log_entry_ok (Entry i)" using assms(3) by simp
  note a = entry_args_ok(1)[OF assms(1) x]
  obtain e' where e': "append_simple_instr (entry_args select (Entry i)) (rv_encoder r) = Some e'" "encoder_ok e'"
    "log_bytes e' = log_bytes (rv_encoder r) @ entry_bytes select (Entry i)"
    using append_simple_instr_spec[OF ok(1) a assms(4)] by (auto simp: entry_bytes_def)
  have "append_instruction select i (rv_encoder r) = Some e'"
    using encode_entry_append[OF assms(1) x] e'(1) by simp
  then have "rv_encode select i r = Some (r\<lparr>rv_encoder := e'\<rparr>)" by (simp add: rv_encode_def)
  moreover have l: "length (log_bytes e') = te_begin e'" "length (log_bytes (rv_encoder r)) = te_begin (rv_encoder r)"
    using ok(1) e'(2) by (simp_all add: log_bytes_def encoder_ok_def)
  then have "te_begin e' = te_begin (rv_encoder r) + length (entry_bytes select (Entry i))" using e'(3) by simp
  moreover have "entry_bytes select (Entry i) \<noteq> []" by (rule entry_bytes_ne[OF assms(1) x])
  ultimately show ?thesis using e'(2,3) ok(2) l by (auto simp: holds_entry_def slice_def)
qed

lemma represents_encode:
  assumes "represents select r u" "encoder_ok e'" "log_bytes e' = log_bytes (rv_encoder r) @ bs"
  shows "list_all2 (holds_entry select (log_bytes e')) (rv_instructions r) (un_done u)"
    "holds_entry_pending select (log_bytes e') (rv_table r) (un_table u)"
    "holds_entry_pending select (log_bytes e') (rv_descriptor r) (un_descriptor u)"
    "holds_entry_pending select (log_bytes e') (rv_link_list r) (un_link_list u)"
  using assms by (auto simp: represents_def holds_entry_append holds_entry_pending_append elim: list_all2_mono)

lemma emit_undo_represents:
  assumes "selections_read select" "represents select r u" "list_all loggable is"
    and "length (log_bytes (rv_encoder r)) + entries_need select (map Entry is) \<le> npos"
  shows "\<exists>r'. emit_undo select is r = Some r' \<and> represents select r' (u\<lparr>un_done := un_done u @ is\<rparr>) \<and>
    length (log_bytes (rv_encoder r')) \<le> length (log_bytes (rv_encoder r)) + entries_need select (map Entry is)"
  using assms(2-)
proof (induction "is" arbitrary: r u)
  case (Cons i "is")
  have i: "loggable i" "list_all loggable is" using Cons.prems(2) by simp_all
  have n: "length (log_bytes (rv_encoder r)) + needed (entry_args select (Entry i)) \<le> npos"
    using Cons.prems(3) by (simp add: entries_need_def)
  obtain e' where e': "rv_encode select i r = Some (r\<lparr>rv_encoder := e'\<rparr>)" "encoder_ok e'"
    "log_bytes e' = log_bytes (rv_encoder r) @ entry_bytes select (Entry i)"
    "holds_entry select (log_bytes e') (rv_start r, te_begin e') i"
    using encode_one[OF assms(1) Cons.prems(1) i(1) n] by blast
  let ?r = "append_range (rv_start r, te_begin e') (r\<lparr>rv_encoder := e', rv_start := te_begin e'\<rparr>)"
  have l: "length (entry_bytes select (Entry i)) \<le> needed (entry_args select (Entry i))"
    using args_bytes_needed[OF entry_args_ok(1)[OF assms(1), of "Entry i"]] i(1) by (simp add: entry_bytes_def)
  have rep: "represents select ?r (u\<lparr>un_done := un_done u @ [i]\<rparr>)"
    using represents_encode[OF Cons.prems(1) e'(2,3)] e'(2,4)
    by (auto simp: represents_def append_range_def intro: list_all2_appendI)
  have len: "length (log_bytes (rv_encoder ?r)) + entries_need select (map Entry is) \<le> npos"
    using Cons.prems(3) e'(3) l by (simp add: append_range_def entries_need_def)
  have "emit_undo select (i # is) r = emit_undo select is ?r" using e'(1) by (simp add: get_inst_def)
  moreover obtain r' where "emit_undo select is ?r = Some r'" "represents select r' (u\<lparr>un_done := (un_done u @ [i]) @ is\<rparr>)"
    "length (log_bytes (rv_encoder r')) \<le> length (log_bytes (rv_encoder ?r)) + entries_need select (map Entry is)"
    using Cons.IH[OF rep i(2) len] by auto
  ultimately show ?case using e'(3) l by (auto simp: append_range_def entries_need_def)
qed (simp add: entries_need_def)

lemma reverse_step_represents:
  assumes "selections_read select" "represents select r u" "loggable i"
    and "length (log_bytes (rv_encoder r)) + entries_need select (map Entry (emitted i)) \<le> npos"
  shows "\<exists>r'. reverse_step select i r = Some r' \<and> represents select r' (undo_step i u) \<and>
    length (log_bytes (rv_encoder r')) \<le> length (log_bytes (rv_encoder r)) + entries_need select (map Entry (emitted i))"
proof (cases "selection i")
  case True
  have n: "length (log_bytes (rv_encoder r)) + needed (entry_args select (Entry i)) \<le> npos"
    "emitted i = [i]" using assms(4) True by (simp_all add: emitted_def entries_need_def)
  have l: "length (entry_bytes select (Entry i)) \<le> needed (entry_args select (Entry i))"
    using args_bytes_needed[OF entry_args_ok(1)[OF assms(1), of "Entry i"]] assms(3) by (simp add: entry_bytes_def)
  have step: "\<exists>e'. rv_encode select i r2 = Some (r2\<lparr>rv_encoder := e'\<rparr>) \<and> encoder_ok e' \<and>
      log_bytes e' = log_bytes (rv_encoder r) @ entry_bytes select (Entry i) \<and>
      holds_entry select (log_bytes e') (rv_start r2, te_begin e') i"
    if "represents select r2 u2" "rv_encoder r2 = rv_encoder r" for r2 u2
    using encode_one[OF assms(1) that(1) assms(3)] n(1) that(2) by simp
  note F = represents_flush[OF assms(2)]
  show ?thesis
  proof (cases i)
    case (Select_Table t path)
    obtain e' where e': "rv_encode select i (sync_table r) = Some ((sync_table r)\<lparr>rv_encoder := e'\<rparr>)" "encoder_ok e'"
      "log_bytes e' = log_bytes (rv_encoder r) @ entry_bytes select (Entry i)"
      "holds_entry select (log_bytes e') (rv_start (sync_table r), te_begin e') i"
      using step[OF F(3)] by auto
    then show ?thesis
      using represents_encode[OF F(3), of e' "entry_bytes select (Entry i)"] l Select_Table n(2)
      by (auto simp: represents_def get_inst_def entries_need_def)
  next
    case (Select_Descriptor path)
    obtain e' where e': "rv_encode select i (sync_descriptor r) = Some ((sync_descriptor r)\<lparr>rv_encoder := e'\<rparr>)" "encoder_ok e'"
      "log_bytes e' = log_bytes (rv_encoder r) @ entry_bytes select (Entry i)"
      "holds_entry select (log_bytes e') (rv_start (sync_descriptor r), te_begin e') i"
      using step[OF F(2)] by auto
    then show ?thesis
      using represents_encode[OF F(2), of e' "entry_bytes select (Entry i)"] l Select_Descriptor n(2)
      by (auto simp: represents_def get_inst_def entries_need_def)
  next
    case (Select_Link_List c row t)
    obtain e' where e': "rv_encode select i (sync_linkview r) = Some ((sync_linkview r)\<lparr>rv_encoder := e'\<rparr>)" "encoder_ok e'"
      "log_bytes e' = log_bytes (rv_encoder r) @ entry_bytes select (Entry i)"
      "holds_entry select (log_bytes e') (rv_start (sync_linkview r), te_begin e') i"
      using step[OF F(1)] by auto
    then show ?thesis
      using represents_encode[OF F(1), of e' "entry_bytes select (Entry i)"] l Select_Link_List n(2)
      by (auto simp: represents_def get_inst_def entries_need_def)
  qed (use True in simp_all)
next
  case False
  let ?r = "if group_level i then sync_table r else r" and ?u = "if group_level i then flush_table u else u"
  have e: "emitted i = inverse_instrs i" using False by (simp add: emitted_def)
  have s: "reverse_step select i r = emit_undo select (inverse_instrs i) ?r"
    "undo_step i u = ?u\<lparr>un_done := un_done ?u @ inverse_instrs i\<rparr>"
    using False by (cases i; simp add: Let_def)+
  have "represents select ?r ?u" using assms(2) represents_flush(3) by simp
  then have "\<exists>r'. emit_undo select (inverse_instrs i) ?r = Some r' \<and> represents select r' (?u\<lparr>un_done := un_done ?u @ inverse_instrs i\<rparr>) \<and>
      length (log_bytes (rv_encoder r')) \<le> length (log_bytes (rv_encoder ?r)) + entries_need select (map Entry (inverse_instrs i))"
    by (rule emit_undo_represents[OF assms(1)]) (use emitted_loggable[OF assms(3)] assms(4) e in simp_all)
  moreover have "rv_encoder ?r = rv_encoder r" by simp
  ultimately show ?thesis unfolding s e by metis
qed

definition undo_needs :: "(instruction \<Rightarrow> arg list) \<Rightarrow> instruction list \<Rightarrow> nat" where
  "undo_needs select is = entries_need select (map Entry (concat (map emitted is)))"

lemma reverse_log_represents:
  assumes "selections_read select" "represents select r u" "list_all loggable is"
    and "length (log_bytes (rv_encoder r)) + undo_needs select is \<le> npos"
  shows "\<exists>r'. run_handler (reverser_handler select) is r = Inr r' \<and> represents select r' (fold undo_step is u)"
  using assms(2-)
proof (induction "is" arbitrary: r u)
  case (Cons i "is")
  have n: "undo_needs select (i # is) = entries_need select (map Entry (emitted i)) + undo_needs select is"
    by (simp add: undo_needs_def entries_need_def)
  have i: "loggable i" "list_all loggable is" using Cons.prems(2) by simp_all
  obtain r' where r': "reverse_step select i r = Some r'" "represents select r' (undo_step i u)"
    "length (log_bytes (rv_encoder r')) \<le> length (log_bytes (rv_encoder r)) + entries_need select (map Entry (emitted i))"
    using reverse_step_represents[OF assms(1) Cons.prems(1) i(1)] Cons.prems(3) n by auto
  have "length (log_bytes (rv_encoder r')) + undo_needs select is \<le> npos" using r'(3) Cons.prems(3) n by simp
  then show ?case
    using Cons.IH[OF r'(2) i(2)] r'(1) by (auto simp: call_handler_def reverser_handler_def)
qed simp

section \<open>The reversed stream\<close>

lemma slice_log:
  assumes "encoder_ok e" "snd i \<le> length (log_bytes e)"
  shows "slice (te_memory e) i = slice (log_bytes e) i"
proof -
  have "snd i \<le> te_begin e" using assms by (simp add: log_bytes_def encoder_ok_def)
  then show ?thesis by (simp add: slice_def log_bytes_def min_absorb1)
qed

lemma reversed_blocks_holds:
  assumes "list_all2 (\<lambda>r i. slice m r = f i \<and> f i \<noteq> []) rs is" "n \<le> length rs"
  shows "reversed_blocks_from m rs n = map f (rev (take n is))"
  using assms(2)
proof (induction n)
  case (Suc n)
  then have "slice m (rs ! n) = f (is ! n)" "f (is ! n) \<noteq> []" "take (Suc n) is = take n is @ [is ! n]"
    using assms(1) by (auto simp: list_all2_conv_all_nth take_Suc_conv_app_nth)
  then show ?case using Suc by simp
qed simp

lemma reversed_stream_blocks:
  assumes "represents select r u"
  shows "reversed_blocks (reversed_stream r) = map (entry_bytes select \<circ> Entry) (rev (un_done (flush_table u)))"
proof -
  have rep: "represents select (sync_table r) (flush_table u)" by (rule represents_flush(3)[OF assms])
  let ?r = "sync_table r"
  have "list_all2 (\<lambda>x i. slice (te_memory (rv_encoder ?r)) x = (entry_bytes select \<circ> Entry) i \<and> (entry_bytes select \<circ> Entry) i \<noteq> [])
      (rv_instructions ?r) (un_done (flush_table u))"
    using rep unfolding represents_def
    by (auto elim!: list_all2_mono simp: holds_entry_def slice_log) (auto simp: slice_def)
  then have "reversed_blocks_from (te_memory (rv_encoder ?r)) (rv_instructions ?r) (length (rv_instructions ?r)) =
      map (entry_bytes select \<circ> Entry) (rev (take (length (rv_instructions ?r)) (un_done (flush_table u))))"
    "length (rv_instructions ?r) = length (un_done (flush_table u))"
    by (rule reversed_blocks_holds, simp) (use list_all2_lengthD rep represents_def in blast)
  then show ?thesis by (simp add: reversed_blocks_def reversed_stream_def Let_def)
qed

lemma undo_loggable:
  assumes "list_all loggable is"
  shows "list_all loggable (undo_log is)"
proof -
  define ok where "ok u \<longleftrightarrow> list_all loggable (un_done u) \<and> (\<forall>i. un_table u = Some i \<longrightarrow> loggable i) \<and>
    (\<forall>i. un_descriptor u = Some i \<longrightarrow> loggable i) \<and> (\<forall>i. un_link_list u = Some i \<longrightarrow> loggable i)" for u :: undo
  have l: "ok u \<Longrightarrow> ok (flush_link_list u)" for u by (cases "un_link_list u") (simp_all add: ok_def flush_link_list_def)
  have d: "ok u \<Longrightarrow> ok (flush_descriptor u)" for u
    using l[of u] by (cases "un_descriptor (flush_link_list u)") (simp_all add: ok_def flush_descriptor_def Let_def)
  have t: "ok u \<Longrightarrow> ok (flush_table u)" for u
    using d[of u] by (cases "un_table (flush_descriptor u)") (simp_all add: ok_def flush_table_def Let_def)
  have "ok (undo_step i u)" if u: "ok u" and i: "loggable i" for i u
  proof (cases "selection i")
    case True
    then show ?thesis using l[OF u] d[OF u] t[OF u] i by (cases i) (auto simp: ok_def)
  next
    case False
    then have "undo_step i u = (let v = if group_level i then flush_table u else u in v\<lparr>un_done := un_done v @ inverse_instrs i\<rparr>)"
      by (cases i) simp_all
    then show ?thesis using t[OF u] u emitted_loggable[OF i] False by (auto simp: ok_def Let_def emitted_def)
  qed
  then have "ok u \<Longrightarrow> list_all loggable is \<Longrightarrow> ok (fold undo_step is u)" for u "is"
    by (induction "is" arbitrary: u) auto
  moreover have "ok new_undo" by (simp add: ok_def new_undo_def)
  ultimately have "ok (flush_table (fold undo_step is new_undo))" using t assms by blast
  then show ?thesis by (simp add: ok_def undo_log_def)
qed

end
