(* ===== verification/Undo_Selections.thy ===== *)
theory Undo_Selections
  imports Transact_Undo
begin

text \<open>
  Instructions act on what is selected.  In the log of a transaction the encoder selects anew whenever it has to;
  in the reversed log every instruction finds the selections of the one it reverses.
\<close>

section \<open>What an instruction acts on\<close>

text \<open>The last selections, each by its instruction.  A new table has no descriptor and no list selected.\<close>

record selections =
  sl_table :: "instruction option"
  sl_descriptor :: "instruction option"
  sl_link_list :: "instruction option"

definition nothing_selected :: selections where
  "nothing_selected = \<lparr>sl_table = None, sl_descriptor = None, sl_link_list = None\<rparr>"

fun select_next :: "instruction \<Rightarrow> selections \<Rightarrow> selections" where
  "select_next (Select_Table t path) c = nothing_selected\<lparr>sl_table := Some (Select_Table t path)\<rparr>"
| "select_next (Select_Descriptor path) c = c\<lparr>sl_descriptor := Some (Select_Descriptor path)\<rparr>"
| "select_next (Select_Link_List col row target) c = c\<lparr>sl_link_list := Some (Select_Link_List col row target)\<rparr>"
| "select_next _ c = c"

datatype scope = On_Group | On_Table | On_Descriptor | On_Link_List

fun scope_of :: "instruction \<Rightarrow> scope" where
  "scope_of (Insert_Group_Level_Table _ _ _) = On_Group"
| "scope_of (Erase_Group_Level_Table _ _) = On_Group"
| "scope_of (Rename_Group_Level_Table _ _) = On_Group"
| "scope_of (Move_Group_Level_Table _ _) = On_Group"
| "scope_of (Insert_Column _ _ _ _) = On_Descriptor"
| "scope_of (Insert_Link_Column _ _ _ _ _) = On_Descriptor"
| "scope_of (Erase_Column _) = On_Descriptor"
| "scope_of (Erase_Link_Column _ _ _) = On_Descriptor"
| "scope_of (Rename_Column _ _) = On_Descriptor"
| "scope_of (Move_Column _ _) = On_Descriptor"
| "scope_of (Add_Search_Index _) = On_Descriptor"
| "scope_of (Remove_Search_Index _) = On_Descriptor"
| "scope_of (Link_List_Set _ _ _) = On_Link_List"
| "scope_of (Link_List_Insert _ _ _) = On_Link_List"
| "scope_of (Link_List_Move _ _) = On_Link_List"
| "scope_of (Link_List_Swap _ _) = On_Link_List"
| "scope_of (Link_List_Erase _ _) = On_Link_List"
| "scope_of (Link_List_Nullify _ _) = On_Link_List"
| "scope_of (Link_List_Clear _) = On_Link_List"
| "scope_of _ = On_Table"

type_synonym target = "instruction option \<times> instruction option"

fun target_in :: "scope \<Rightarrow> selections \<Rightarrow> target" where
  "target_in On_Group c = (None, None)"
| "target_in On_Table c = (sl_table c, None)"
| "target_in On_Descriptor c = (sl_table c, sl_descriptor c)"
| "target_in On_Link_List c = (sl_table c, sl_link_list c)"

fun addressed :: "selections \<Rightarrow> instruction list \<Rightarrow> (target \<times> instruction) list" where
  "addressed c [] = []"
| "addressed c (i # is) =
     (if selection i then addressed (select_next i c) is else (target_in (scope_of i) c, i) # addressed c is)"

text \<open>
  The logs of \<open>TransactLogConvenientEncoder\<close>: a descriptor unselects the list and the other way round, and
  what changes the tables of the group unselects everything.
\<close>

fun selected_by_encoder :: "instruction \<Rightarrow> selections \<Rightarrow> selections" where
  "selected_by_encoder (Select_Table t path) c = nothing_selected\<lparr>sl_table := Some (Select_Table t path)\<rparr>"
| "selected_by_encoder (Select_Descriptor path) c = c\<lparr>sl_descriptor := Some (Select_Descriptor path), sl_link_list := None\<rparr>"
| "selected_by_encoder (Select_Link_List col row target) c =
     c\<lparr>sl_link_list := Some (Select_Link_List col row target), sl_descriptor := None\<rparr>"
| "selected_by_encoder i c = (if scope_of i = On_Group then nothing_selected else c)"

fun has_selected :: "instruction \<Rightarrow> selections \<Rightarrow> bool" where
  "has_selected (Select_Table _ _) c \<longleftrightarrow> True"
| "has_selected (Select_Descriptor _) c \<longleftrightarrow> sl_table c \<noteq> None"
| "has_selected (Select_Link_List _ _ _) c \<longleftrightarrow> sl_table c \<noteq> None"
| "has_selected i c \<longleftrightarrow>
     (case scope_of i of
        On_Group \<Rightarrow> True
      | On_Table \<Rightarrow> sl_table c \<noteq> None
      | On_Descriptor \<Rightarrow> sl_descriptor c \<noteq> None
      | On_Link_List \<Rightarrow> sl_link_list c \<noteq> None)"

fun well_selected :: "selections \<Rightarrow> instruction list \<Rightarrow> bool" where
  "well_selected c [] \<longleftrightarrow> True"
| "well_selected c (i # is) \<longleftrightarrow> has_selected i c \<and> loggable i \<and> well_selected (selected_by_encoder i c) is"

definition undone :: "(target \<times> instruction) list \<Rightarrow> (target \<times> instruction) list" where
  "undone xs = concat (map (\<lambda>(t, i). map (Pair t) (inverse_instrs i)) xs)"

lemma inverse_scope: "\<not> selection i \<Longrightarrow> j \<in> set (inverse_instrs i) \<Longrightarrow> \<not> selection j \<and> scope_of j = scope_of i"
  by (cases i) auto

lemma addressed_same_scope:
  "(\<And>j. j \<in> set is \<Longrightarrow> \<not> selection j \<and> scope_of j = s) \<Longrightarrow>
    addressed c (is @ js) = map (Pair (target_in s c)) is @ addressed c js"
  by (induction "is") auto

section \<open>Flushing\<close>

text \<open>\<open>c\<close> has selected what is pending.\<close>

definition agrees :: "undo \<Rightarrow> selections \<Rightarrow> bool" where
  "agrees u c \<longleftrightarrow> (un_table u \<noteq> None \<longrightarrow> sl_table c = un_table u) \<and> (un_descriptor u \<noteq> None \<longrightarrow> sl_descriptor c = un_descriptor u) \<and>
     (un_link_list u \<noteq> None \<longrightarrow> sl_link_list c = un_link_list u)"

definition pending_ok :: "undo \<Rightarrow> bool" where
  "pending_ok u \<longleftrightarrow> (\<forall>i. un_table u = Some i \<longrightarrow> (\<exists>t path. i = Select_Table t path)) \<and>
     (\<forall>i. un_descriptor u = Some i \<longrightarrow> (\<exists>path. i = Select_Descriptor path)) \<and>
     (\<forall>i. un_link_list u = Some i \<longrightarrow> (\<exists>c r t. i = Select_Link_List c r t)) \<and>
     (un_table u = None \<longrightarrow> un_descriptor u = None \<and> un_link_list u = None)"

text \<open>Read backwards under any selections that agree with what is pending, the written instructions give \<open>xs\<close>.\<close>

definition gives :: "undo \<Rightarrow> (target \<times> instruction) list \<Rightarrow> bool" where
  "gives u xs \<longleftrightarrow> (\<forall>c. agrees u c \<longrightarrow> addressed c (rev (un_done u)) = rev xs)"

lemma flush_link_list_gives: "pending_ok u \<Longrightarrow> gives u xs \<Longrightarrow> pending_ok (flush_link_list u) \<and> gives (flush_link_list u) xs"
  by (cases "un_link_list u") (fastforce simp: flush_link_list_def pending_ok_def gives_def agrees_def)+

lemma flush_descriptor_gives:
  assumes "pending_ok u" "gives u xs"
  shows "pending_ok (flush_descriptor u) \<and> gives (flush_descriptor u) xs"
proof -
  let ?u = "flush_link_list u"
  have "pending_ok ?u" "gives ?u xs" "un_link_list ?u = None"
    using flush_link_list_gives[OF assms] by (simp_all add: flush_link_list_def)
  then show ?thesis
    by (cases "un_descriptor ?u") (fastforce simp: flush_descriptor_def Let_def pending_ok_def gives_def agrees_def)+
qed

lemma flush_table_gives:
  assumes "pending_ok u" "gives u xs"
  shows "pending_ok (flush_table u) \<and> gives (flush_table u) xs"
proof -
  let ?u = "flush_descriptor u"
  have "pending_ok ?u" "gives ?u xs" "un_link_list ?u = None" "un_descriptor ?u = None"
    using flush_descriptor_gives[OF assms] by (simp_all add: flush_descriptor_def flush_link_list_def Let_def)
  then show ?thesis
    by (cases "un_table ?u") (fastforce simp: flush_table_def Let_def pending_ok_def gives_def agrees_def)+
qed

lemma flushed [simp]:
  "un_link_list (flush_link_list u) = None" "un_table (flush_link_list u) = un_table u" "un_descriptor (flush_link_list u) = un_descriptor u"
  "un_link_list (flush_descriptor u) = None" "un_descriptor (flush_descriptor u) = None" "un_table (flush_descriptor u) = un_table u"
  "un_link_list (flush_table u) = None" "un_descriptor (flush_table u) = None" "un_table (flush_table u) = None"
  by (simp_all add: flush_table_def flush_descriptor_def flush_link_list_def Let_def)

section \<open>One instruction\<close>

text \<open>The selections of the encoder are pending, and those of a reader.\<close>

definition tracked :: "undo \<Rightarrow> selections \<Rightarrow> selections \<Rightarrow> bool" where
  "tracked u sent read \<longleftrightarrow> un_table u = sl_table sent \<and>
     (sl_descriptor sent \<noteq> None \<longrightarrow> un_descriptor u = sl_descriptor sent \<and> sl_descriptor read = sl_descriptor sent) \<and>
     (sl_link_list sent \<noteq> None \<longrightarrow> un_link_list u = sl_link_list sent \<and> sl_link_list read = sl_link_list sent) \<and>
     (sl_table sent \<noteq> None \<longrightarrow> sl_table read = sl_table sent) \<and>
     (sl_table sent = None \<longrightarrow> sl_descriptor sent = None \<and> sl_link_list sent = None)"

lemma undo_step_selection:
  assumes "pending_ok u" "gives u xs" "tracked u sent read" "selection i" "has_selected i sent"
  shows "pending_ok (undo_step i u) \<and> gives (undo_step i u) xs \<and> tracked (undo_step i u) (selected_by_encoder i sent) (select_next i read)"
proof (cases i)
  case (Select_Table t path)
  then show ?thesis
    using flush_table_gives[OF assms(1,2)] assms(3)
    by (auto simp: pending_ok_def gives_def agrees_def tracked_def nothing_selected_def)
next
  case (Select_Descriptor path)
  then show ?thesis
    using flush_descriptor_gives[OF assms(1,2)] assms(3,5)
    by (auto simp: pending_ok_def gives_def agrees_def tracked_def)
next
  case (Select_Link_List c r t)
  then show ?thesis
    using flush_link_list_gives[OF assms(1,2)] assms(3,5)
    by (auto simp: pending_ok_def gives_def agrees_def tracked_def)
qed (use assms(4) in simp_all)

lemma target_tracked:
  assumes "tracked u sent read" "agrees u c" "has_selected i sent" "\<not> selection i"
  shows "target_in (scope_of i) c = target_in (scope_of i) read"
  using assms by (cases i) (auto simp: tracked_def agrees_def)

lemma group_scope: "loggable i \<Longrightarrow> \<not> selection i \<Longrightarrow> group_level i \<longleftrightarrow> scope_of i = On_Group"
  by (cases i) simp_all

lemma undo_step_other:
  assumes "pending_ok u" "gives u xs" "tracked u sent read" "\<not> selection i" "has_selected i sent" "loggable i"
  shows "pending_ok (undo_step i u) \<and> gives (undo_step i u) (xs @ undone [(target_in (scope_of i) read, i)]) \<and>
    tracked (undo_step i u) (selected_by_encoder i sent) read"
proof -
  let ?v = "if group_level i then flush_table u else u"
  have step: "undo_step i u = ?v\<lparr>un_done := un_done ?v @ inverse_instrs i\<rparr>" using assms(4) by (cases i; simp add: Let_def)
  have v: "pending_ok ?v" "gives ?v xs" using flush_table_gives[OF assms(1,2)] assms(1,2) by simp_all
  have t: "target_in (scope_of i) c = target_in (scope_of i) read" if "agrees ?v c" for c
    using that target_tracked[OF assms(3) _ assms(5,4)] group_scope[OF assms(6,4)] by (cases "group_level i") auto
  have "addressed c (rev (un_done ?v @ inverse_instrs i)) =
      map (Pair (target_in (scope_of i) read)) (rev (inverse_instrs i)) @ rev xs" if "agrees ?v c" for c
    using addressed_same_scope[of "rev (inverse_instrs i)" "scope_of i" c "rev (un_done ?v)"] inverse_scope[OF assms(4)]
      v(2) that t[OF that] by (simp add: gives_def)
  then have "gives (undo_step i u) (xs @ undone [(target_in (scope_of i) read, i)])"
    unfolding step gives_def by (auto simp: agrees_def undone_def rev_map)
  moreover have "tracked (undo_step i u) (selected_by_encoder i sent) read"
    using assms(3) group_scope[OF assms(6,4)] assms(4) unfolding step
    by (cases "group_level i"; cases i) (auto simp: tracked_def nothing_selected_def)
  moreover have "pending_ok (undo_step i u)" using v(1) unfolding step pending_ok_def by simp
  ultimately show ?thesis by blast
qed

lemma undo_gives:
  assumes "pending_ok u" "gives u xs" "tracked u sent read" "well_selected sent is"
  shows "gives (flush_table (fold undo_step is u)) (xs @ undone (addressed read is))"
  using assms
proof (induction "is" arbitrary: u xs sent read)
  case Nil
  then show ?case using flush_table_gives by (simp add: undone_def)
next
  case (Cons i "is")
  have i: "has_selected i sent" "loggable i" "well_selected (selected_by_encoder i sent) is" using Cons.prems(4) by simp_all
  show ?case
  proof (cases "selection i")
    case True
    have "pending_ok (undo_step i u) \<and> gives (undo_step i u) xs \<and> tracked (undo_step i u) (selected_by_encoder i sent) (select_next i read)"
      by (rule undo_step_selection[OF Cons.prems(1-3) True i(1)])
    then show ?thesis using Cons.IH[of "undo_step i u" xs "selected_by_encoder i sent" "select_next i read"] i(3) True by simp
  next
    case False
    let ?ys = "xs @ undone [(target_in (scope_of i) read, i)]"
    have "pending_ok (undo_step i u) \<and> gives (undo_step i u) ?ys \<and> tracked (undo_step i u) (selected_by_encoder i sent) read"
      by (rule undo_step_other[OF Cons.prems(1-3) False i(1,2)])
    then have "gives (flush_table (fold undo_step is (undo_step i u))) (?ys @ undone (addressed read is))"
      using Cons.IH i(3) by blast
    then show ?thesis using False by (simp add: undone_def)
  qed
qed

lemma undo_log_addressed:
  assumes "well_selected nothing_selected is"
  shows "addressed nothing_selected (undo_log is) = rev (undone (addressed nothing_selected is))"
proof -
  have "pending_ok new_undo" "gives new_undo []" "tracked new_undo nothing_selected nothing_selected"
    by (simp_all add: pending_ok_def new_undo_def gives_def tracked_def nothing_selected_def)
  then have "gives (flush_table (fold undo_step is new_undo)) ([] @ undone (addressed nothing_selected is))"
    using assms by (rule undo_gives)
  then show ?thesis by (simp add: gives_def agrees_def undo_log_def)
qed

lemma well_selected_loggable: "well_selected c is \<Longrightarrow> list_all loggable is"
  by (induction "is" arbitrary: c) auto

end
