(* ===== verification/Transact_Log_Properties.thy ===== *)
theory Transact_Log_Properties
  imports Undo_Selections KVO_Adapter Row_Records Change_Edits
begin

text \<open>
  Properties of the transaction log as bytes: the encoder, the streams, the parser and the reverser together.
\<close>

section \<open>What is written is read\<close>

text \<open>
  C9. A log of entries that can be logged is written without leaving the reserved room, and the parser, given
  its bytes in any blocks, calls any handler with the instructions of the entries, in order and until the
  handler fails.  What can be logged is \<open>loggable\<close>: numbers in the range of their types, strings no longer than
  \<open>max_string_size\<close>, paths of at most 1024 levels, unique sets of integers, strings and null only, and
  neither moves of columns and tables nor a double set with \<open>instr_SetDefault\<close>; the latter is read back as a
  plain set (\<open>default_double_logged_plain\<close>).  The room the log needs has to fit a \<open>size_t\<close>.
\<close>

theorem log_round_trip:
  assumes "selections_read select" "list_all log_entry_ok xs" "entries_need select xs \<le> npos"
  shows "\<exists>e. encode_entries select xs new_encoder = Some e \<and>
    (\<forall>blocks handle h. [] \<notin> set blocks \<longrightarrow> concat blocks = log_bytes e \<longrightarrow>
      parse handle blocks h = run_handler handle (concat (map entry_calls xs)) h)"
proof -
  obtain e where e: "encode_entries select xs new_encoder = Some e" "log_bytes e = log_of select xs"
    using encode_entries_spec[OF assms(1,2) new_encoder_ok(1)] assms(3) new_encoder_ok(2) by auto
  then show ?thesis using parse_blocks parse_log[OF assms(1,2)] by metis
qed

text \<open>A handler that keeps the instructions it gets.\<close>

definition collect_handler :: "(instruction list, unit) handler" where
  "collect_handler i h = Inr (True, h @ [i])"

definition demo_entries :: "log_entry list" where
  "demo_entries = [Entry (Select_Table 0 []), Entry (Set_Cell (Unique_Set 3) 0 2 (Int_Value (-5))), Entry_Set_All [1, 0]]"

lemma demo_entries_ok: "list_all log_entry_ok demo_entries" "entries_need plain_select demo_entries \<le> npos"
  by (simp_all add: demo_entries_def npos_def in_type_def min_value_def max_value_def entries_need_def Op_def Typ_def Size_def
    Int32_def Int64_def max_enc_bytes_per_num_def)

theorem log_round_trip_witness:
  "\<exists>e. encode_entries plain_select demo_entries new_encoder = Some e \<and>
    (\<forall>blocks. [] \<notin> set blocks \<longrightarrow> concat blocks = log_bytes e \<longrightarrow>
      parse collect_handler blocks [] = Inr [Select_Table 0 [], Set_Cell (Unique_Set 3) 0 2 (Int_Value (-5)),
        Link_List_Set 0 1 2, Link_List_Set 1 0 2])"
proof -
  have "run_handler collect_handler (concat (map entry_calls demo_entries)) [] =
      Inr [Select_Table 0 [], Set_Cell (Unique_Set 3) 0 2 (Int_Value (-5)), Link_List_Set 0 1 2, Link_List_Set 1 0 2]"
    by (simp add: demo_entries_def call_handler_def collect_handler_def)
  then show ?thesis using log_round_trip[OF plain_select_read demo_entries_ok] by metis
qed

text \<open>
  C21.  The bytes of an entry lie within the room reserved for it, whatever the buffer holds and however it has
  to grow: the encoder never writes past the end of its free memory, and only appends.
\<close>

theorem encoder_stays_in_room:
  assumes "selections_read select" "log_entry_ok x" "encoder_ok e" "length (log_bytes e) + entries_need select [x] \<le> npos"
  shows "\<exists>e'. encode_entry select x e = Some e' \<and> encoder_ok e' \<and> log_bytes e' = log_bytes e @ entry_bytes select x"
  using append_simple_instr_spec[OF assms(3) entry_args_ok(1)[OF assms(1,2)]] assms(4)
  by (auto simp: encode_entry_append[OF assms(1,2)] entries_need_def entry_bytes_def)

theorem encoder_stays_in_room_witness:
  "\<exists>e'. encode_entry plain_select (Entry_Set_All [7, 8]) new_encoder = Some e' \<and> encoder_ok e' \<and>
    log_bytes e' = entry_bytes plain_select (Entry_Set_All [7, 8])"
proof -
  have n: "length (log_bytes new_encoder) + entries_need plain_select [Entry_Set_All [7, 8]] \<le> npos"
    by (simp add: new_encoder_ok(2) entries_need_def npos_def Op_def Size_def max_enc_bytes_per_num_def)
  have ok: "log_entry_ok (Entry_Set_All [7, 8])" by (simp add: npos_def)
  show ?thesis
    using encoder_stays_in_room[OF plain_select_read ok new_encoder_ok(1) n] new_encoder_ok(2) by simp
qed

text \<open>
  C22.  An integer is read back exactly when it fits the signed type it is read as, whatever type it was
  written as; its bytes are as many as its bits and the sign need at seven per byte, and at most ten.
\<close>

theorem integers_survive:
  assumes "in_type U v" "is_signed T"
  shows "read_int T (encode_int U v @ rest, bs) = (if in_type T v then Some (v, rest, bs) else None) \<and>
    length (encode_int U v) = (bit_width (magnitude v) + 1 + 6) div 7 \<and> length (encode_int U v) \<le> 10"
  using read_int_signed[OF assms(2), of v rest bs] length_encode_int[OF assms(1)] by (simp add: encode_int_groups[OF assms(1)])

theorem integers_survive_witness:
  "read_int Int32_Type (encode_int Int64_Type (-300) @ [9], []) = Some (-300, [9], []) \<and>
   read_int Char_Type (encode_int Int64_Type (-300) @ [9], []) = None"
  using integers_survive[of Int64_Type "-300" Int32_Type "[9]" "[]"] integers_survive[of Int64_Type "-300" Char_Type "[9]" "[]"]
  by (simp add: in_type_def min_value_def max_value_def)

text \<open>
  The comment of the encoding says that decoding fails if the value is outside the range of the type it is
  read as.  A negative value read as \<open>size_t\<close> fails for -1 only; any other wraps around.
\<close>

theorem negative_read_as_size:
  "- (2 ^ 63) \<le> v \<Longrightarrow> v < -1 \<Longrightarrow>
    read_int Size_Type (encode_int Int64_Type v @ rest, bs) = Some (2 ^ 64 + v, rest, bs)"
  "read_int Size_Type (encode_int Int64_Type (-1) @ rest, bs) = None"
proof -
  show "read_int Size_Type (encode_int Int64_Type (-1) @ rest, bs) = None"
    using read_int_size[of "-1" rest bs] encode_int_groups[of Int64_Type "-1"] by (simp add: in_type_def min_value_def max_value_def)
  assume v: "- (2 ^ 63) \<le> v" "v < -1"
  have "v mod 2 ^ 64 = (v + 2 ^ 64) mod 2 ^ 64" by simp
  also have "\<dots> = v + 2 ^ 64" by (rule mod_pos_pos_trivial) (use v in auto)
  finally show "read_int Size_Type (encode_int Int64_Type v @ rest, bs) = Some (2 ^ 64 + v, rest, bs)"
    using read_int_size[of v rest bs] encode_int_groups[of Int64_Type v] v by (simp add: in_type_def min_value_def max_value_def)
qed

text \<open>A default value that is a double is logged as a plain one: the variant is not handed on.\<close>

theorem default_double_logged_plain:
  assumes "c \<le> npos" "r \<le> npos" "length d = 8"
  shows "read_call (args_bytes (set_args Default_Set c r (Double_Value d)), []) =
    Some (Call (Set_Cell Plain_Set c r (Double_Value d)), [], [])"
  using read_set_back[of c r "Double_Value d" Plain_Set "[]" "[]"] assms by simp

section \<open>Streams\<close>

text \<open>
  C34.  Parsing gives the same from every stream: the logs of several transactions one after the other, or
  the same bytes through an input stream and the buffer of the parser, or the changesets of a history.  Their
  calls of \<open>next_block\<close>, as many as there are bytes or more, give all of the log.
\<close>

theorem streams_agree:
  assumes "length (concat logs) \<le> n" "\<forall>v. [] \<notin> set (hist v)" "concat (concat (map hist [b..<e])) = concat logs"
  shows "parse handle (drain multi_next n logs) h = parse_loop handle h (concat logs, []) \<and>
    parse handle (drain (adaptor_next multi_read parser_buffer_size) n logs) h = parse_loop handle h (concat logs, []) \<and>
    parse handle (drain (adaptor_next simple_read parser_buffer_size) n (concat logs)) h = parse_loop handle h (concat logs, []) \<and>
    parse handle (drain (changeset_next hist) n (new_changeset_stream hist b e)) h = parse_loop handle h (concat logs, [])"
proof -
  have len: "length bs \<le> length (concat bs)" if "[] \<notin> set bs" for bs :: "byte list list"
    using that
  proof (induction bs)
    case (Cons b bs)
    then show ?case by (cases b) auto
  qed simp
  have it: "iterator_blocks (hist v) = hist v" for v using assms(2) by (auto simp: iterator_blocks_def takeWhile_eq_all_conv)
  have "concat (map (iterator_blocks \<circ> hist) [b..<e]) = concat (map hist [b..<e])" using it by (simp add: comp_def)
  then have h: "concat (changeset_blocks hist (new_changeset_stream hist b e)) = concat logs"
    using assms(3) by (simp add: new_changeset_blocks)
  have m: "drain multi_next n logs = multi_blocks logs"
    using len[OF multi_source.blocks_full, of logs] assms(1) by (intro multi_source.drain_blocks) (simp add: concat_multi_blocks)
  have c: "drain (changeset_next hist) n (new_changeset_stream hist b e) = changeset_blocks hist (new_changeset_stream hist b e)"
    using len[OF changeset_source.blocks_full, of hist "new_changeset_stream hist b e"] assms(1) h
    by (intro changeset_source.drain_blocks) simp
  show ?thesis
    unfolding m c
    using multi_source.parse_source[of handle logs h] changeset_source.parse_source[of handle hist "new_changeset_stream hist b e" h]
      multi_in.adaptor.parse_source[of handle logs h] simple_in.adaptor.parse_source[of handle "concat logs" h]
      multi_in.drain_enough[of logs n "length (concat logs)"] simple_in.drain_enough[of "concat logs" n "length (concat logs)"]
      multi_in.drain_content[of logs "length (concat logs)"] simple_in.drain_content[of "concat logs" "length (concat logs)"] assms(1) h
    by (simp add: concat_multi_blocks)
qed

theorem streams_agree_witness:
  "parse collect_handler (drain (adaptor_next multi_read parser_buffer_size) 9 [[19], [], [18, 3]]) [] =
   parse collect_handler (drain (changeset_next (\<lambda>v. [[19, 18], [3]])) 9 (new_changeset_stream (\<lambda>v. [[19, 18], [3]]) 4 5)) []"
  using streams_agree[of "[[19], [], [18, 3]]" 9 "\<lambda>v. [[19, 18], [3]]" 4 5 collect_handler "[]"] by simp

text \<open>
  C29.  A log that ends within an instruction is refused with \<open>BadTransactLog\<close>, after the handler has seen the
  instructions before it.
\<close>

theorem cut_log_rejected:
  assumes "selections_read select" "list_all log_entry_ok xs" "loggable i"
    and "entry_bytes select (Entry i) = b @ u" "b \<noteq> []" "u \<noteq> []" "[] \<notin> set blocks" "concat blocks = log_of select xs @ b"
  shows "parse handle blocks h =
    (case run_handler handle (concat (map entry_calls xs)) h of Inl e \<Rightarrow> Inl e | Inr _ \<Rightarrow> Inl Bad_Transact_Log)"
  using parse_cut_log[OF assms(1-6)] parse_blocks[OF assms(7)] assms(8) by metis

lemma small_size_bytes: "n < 64 \<Longrightarrow> encode_int Size_Type (int n) = [n]"
  using encode_int_groups[OF in_size, of n] by (simp add: npos_def groups.simps last_byte_def magnitude_def)

theorem cut_log_rejected_witness:
  "parse collect_handler [[19, 15], [3]] [] = Inl Bad_Transact_Log"
proof -
  have b: "entry_bytes plain_select (Entry (Swap_Rows 3 7)) = [15, 3] @ [7]" "entry_bytes plain_select (Entry Optimize_Table) = [19]"
    using small_size_bytes[of 3] small_size_bytes[of 7] by (simp_all add: entry_bytes_def arg_bytes.simps Op_def Size_def)
  have "run_handler collect_handler (concat (map entry_calls [Entry Optimize_Table])) [] = Inr [Optimize_Table]"
    by (simp add: call_handler_def collect_handler_def)
  then show ?thesis
    using cut_log_rejected[OF plain_select_read _ _ b(1), of "[Entry Optimize_Table]" "[[19, 15], [3]]" collect_handler "[]"] b(2)
    by (simp add: log_of_def npos_def)
qed

section \<open>Reversed logs\<close>

text \<open>
  C10.  For a log as the encoder selects, the reverser succeeds, the reversed stream gives any handler the undo
  log, and in it the instructions that reverse one act on the table, descriptor or list that one acted on,
  in reverse order.
\<close>

theorem rollback_reverses_log:
  assumes "selections_read select" "well_selected nothing_selected is" "undo_needs select is \<le> npos"
  shows "\<exists>r. parse (reverser_handler select)
        (drain (adaptor_next simple_read parser_buffer_size) (length (log_of select (map Entry is))) (log_of select (map Entry is)))
        new_reverser = Inr r \<and>
    (\<forall>handle h. parse handle (drain reversed_next (length (undo_log is)) (reversed_stream r)) h = run_handler handle (undo_log is) h) \<and>
    addressed nothing_selected (undo_log is) = rev (undone (addressed nothing_selected is))"
proof -
  let ?log = "log_of select (map Entry is)"
  have l: "list_all loggable is" by (rule well_selected_loggable[OF assms(2)])
  then have ok: "list_all log_entry_ok (map Entry is)" by (simp only: instruction_entries)
  have "length (log_bytes (rv_encoder new_reverser)) + undo_needs select is \<le> npos"
    using assms(3) by (simp add: new_reverser_def new_encoder_ok(2))
  then obtain r where r: "run_handler (reverser_handler select) is new_reverser = Inr r"
    "represents select r (fold undo_step is new_undo)"
    using reverse_log_represents[OF assms(1) represents_new l] by blast
  have p: "parse (reverser_handler select) (drain (adaptor_next simple_read parser_buffer_size) (length ?log) ?log) new_reverser = Inr r"
    using simple_in.adaptor.parse_source[of "reverser_handler select" ?log new_reverser]
      simple_in.drain_content[of ?log "length ?log"] parse_log[OF assms(1) ok, of "reverser_handler select" new_reverser]
    by (simp only: instruction_entries r(1))
  have u: "list_all log_entry_ok (map Entry (undo_log is))" using undo_loggable[OF l] by (simp only: instruction_entries)
  have b: "reversed_blocks (reversed_stream r) = map (entry_bytes select \<circ> Entry) (undo_log is)"
    using reversed_stream_blocks[OF r(2)] by (simp add: undo_log_def)
  then have "drain reversed_next (length (undo_log is)) (reversed_stream r) = reversed_blocks (reversed_stream r)"
    by (intro reversed_source.drain_blocks) simp
  moreover have "concat (reversed_blocks (reversed_stream r)) = log_of select (map Entry (undo_log is))"
    unfolding b by (simp add: log_of_def comp_def)
  ultimately have "parse handle (drain reversed_next (length (undo_log is)) (reversed_stream r)) h = run_handler handle (undo_log is) h"
    for handle :: "('h, 'e) handler" and h
    using reversed_source.parse_source[of handle "reversed_stream r" h] parse_log[OF assms(1) u, of handle h]
    by (simp only: instruction_entries)
  then show ?thesis using p undo_log_addressed[OF assms(2)] by blast
qed

definition demo_transaction :: "instruction list" where
  "demo_transaction = [Select_Table 0 [], Insert_Empty_Rows 2 1 2 False, Select_Link_List 1 2 0, Link_List_Insert 0 1 0,
     Select_Table 1 [], Swap_Rows 0 1]"

theorem rollback_reverses_log_witness:
  "\<exists>r. parse (reverser_handler plain_select)
        (drain (adaptor_next simple_read parser_buffer_size) (length (log_of plain_select (map Entry demo_transaction)))
          (log_of plain_select (map Entry demo_transaction))) new_reverser = Inr r \<and>
    parse collect_handler (drain reversed_next 6 (reversed_stream r)) [] =
      Inr [Select_Table 1 [], Swap_Rows 0 1, Select_Table 0 [], Select_Link_List 1 2 0, Link_List_Erase 0 1, Erase_Rows 2 1 3 False]"
proof -
  have w: "well_selected nothing_selected demo_transaction"
    by (simp add: demo_transaction_def nothing_selected_def npos_def)
  have n: "undo_needs plain_select demo_transaction \<le> npos"
    by (simp add: demo_transaction_def undo_needs_def emitted_def entries_need_def npos_def Op_def Size_def Int32_def Bool_def
      max_enc_bytes_per_num_def)
  have u: "undo_log demo_transaction = [Select_Table 1 [], Swap_Rows 0 1, Select_Table 0 [], Select_Link_List 1 2 0,
      Link_List_Erase 0 1, Erase_Rows 2 1 3 False]"
    by (simp add: undo_log_def demo_transaction_def new_undo_def flush_table_def flush_descriptor_def flush_link_list_def Let_def)
  let ?r = "\<lambda>r. parse (reverser_handler plain_select)
        (drain (adaptor_next simple_read parser_buffer_size) (length (log_of plain_select (map Entry demo_transaction)))
          (log_of plain_select (map Entry demo_transaction))) new_reverser = Inr r"
  from rollback_reverses_log[OF plain_select_read w n] obtain r where r: "?r r"
    "\<forall>(handle :: (instruction list, unit) handler) h.
      parse handle (drain reversed_next (length (undo_log demo_transaction)) (reversed_stream r)) h =
      run_handler handle (undo_log demo_transaction) h"
    by (elim exE conjE)
  have l: "length (undo_log demo_transaction) = 6" unfolding u by simp
  have "run_handler collect_handler (undo_log demo_transaction) [] = Inr (undo_log demo_transaction)"
    unfolding u by (simp add: call_handler_def collect_handler_def)
  then have "parse collect_handler (drain reversed_next 6 (reversed_stream r)) [] = Inr (undo_log demo_transaction)"
    unfolding r(2)[rule_format, unfolded l] .
  with r(1) show ?thesis unfolding u by (intro exI conjI)
qed

text \<open>The move of a link is written as it is: done twice, it does not lead back.\<close>

theorem link_move_not_reversed:
  "undo_log [Select_Table 0 [], Select_Link_List 0 0 0, Link_List_Move 0 2] =
     [Select_Table 0 [], Select_Link_List 0 0 0, Link_List_Move 0 2]"
  "move_elem 0 2 (move_elem 0 2 [1, 2, 3 :: nat]) \<noteq> [1, 2, 3]"
  by (simp_all add: undo_log_def new_undo_def flush_table_def flush_descriptor_def flush_link_list_def Let_def) code_simp

text \<open>
  The insertions that reverse the clearing of a list come in the right order, but the sizes before them are
  counted down: the first, into the empty list, claims that there are all but one already.
\<close>

theorem cleared_list_wrong_sizes:
  "rev (inverse_instrs (Link_List_Clear 3)) = [Link_List_Insert 0 0 2, Link_List_Insert 1 0 1, Link_List_Insert 2 0 0]"
  by (simp add: numeral_3_eq_3)

section \<open>Rolling back under observation\<close>

text \<open>
  The row after a deleted one was written in the transaction.  Deleting moved the last row into the gap; the
  reversed log says that a row comes back there and, by its last flag, that the row found there goes to the
  end again.  The observer ignores the flag and shifts the rows after the gap: the observer of the object whose
  value is rolled back hears nothing, and that of the moved object, which did not change, hears of a set.
\<close>

definition rolled_back :: "instruction list" where
  "rolled_back = [Select_Table 0 [], Set_Cell Plain_Set 0 2 (Int_Value 7), Erase_Rows 1 1 4 True]"

definition rolled_back_observers :: "observer_state list" where
  "rolled_back_observers = [\<lparr>ob_table = 0, ob_row = 2, ob_info = 100, ob_changes = []\<rparr>,
     \<lparr>ob_table = 0, ob_row = 1, ob_info = 200, ob_changes = []\<rparr>]"

definition rolled_back_builder :: change_builder where
  "rolled_back_builder = empty_builder\<lparr>
     insertions := [\<lparr>chunk_data = [(1, 2)], chunk_begin = 1, chunk_end = 2, chunk_count = 1\<rparr>],
     modifications := [\<lparr>chunk_data = [(2, 3)], chunk_begin = 2, chunk_end = 3, chunk_count = 1\<rparr>],
     columns := [[\<lparr>chunk_data = [(2, 3)], chunk_begin = 2, chunk_end = 3, chunk_count = 1\<rparr>]]\<rparr>"

theorem rollback_tells_wrong_row:
  "move_last_over 1 [10, 20, 30, 40 :: nat] ! 2 = 30 \<and> move_last_over 1 [10, 20, 30, 40 :: nat] ! 1 = 40 \<and>
   (case advance_observed (undo_log rolled_back)
      (no_request\<lparr>ci_modifications_needed := [True], ci_moves_needed := [True]\<rparr>) (\<lambda>_. empty_builder) of
     Inl e \<Rightarrow> False
   | Inr (info, builders) \<Rightarrow>
      map (\<lambda>ob. (map co_kind (ob_changes (fst (observe_row info ob))), snd (observe_row info ob))) rolled_back_observers =
        [([], False), ([Set_Change], False)])"
proof -
  have u: "undo_log rolled_back = [Select_Table 0 [], Insert_Empty_Rows 1 1 3 True, Set_Cell Plain_Set 0 2 (Int_Value 7)]"
    by (simp add: undo_log_def rolled_back_def new_undo_def flush_table_def flush_descriptor_def flush_link_list_def Let_def)
  have p: "(0 = npos) = False" by (simp add: npos_def)
  have e: "insert_at [] 1 1 = [\<lparr>chunk_data = [(1, 2)], chunk_begin = 1, chunk_end = 2, chunk_count = 1\<rparr>]"
    "shift_for_insert_at [] 1 1 = []" "add [] 2 = [\<lparr>chunk_data = [(2, 3)], chunk_begin = 2, chunk_end = 3, chunk_count = 1\<rparr>]"
    by code_simp+
  have b: "cb_modify (cb_insert empty_builder 1 1 True) 2 0 = rolled_back_builder"
    by (simp add: cb_modify_def cb_insert_def for_each_col_def empty_builder_def rolled_back_builder_def Let_def resize_def p
      e[unfolded One_nat_def])
  let ?asked = "no_request\<lparr>ci_modifications_needed := [True], ci_moves_needed := [True]\<rparr>"
  have c: "cb_parse_complete rolled_back_builder = rolled_back_builder"
    by (simp add: cb_parse_complete_def rolled_back_builder_def empty_builder_def)
  have a: "advance_observed (undo_log rolled_back) ?asked (\<lambda>_. empty_builder) =
      Inr (?asked\<lparr>ci_tables := [rolled_back_builder]\<rparr>, \<lambda>_. empty_builder)"
    unfolding u using b c
    by (simp add: advance_observed_def start_log_def obs_select_table_def obs_insert_empty_rows_def mark_dirty_def edit_table_def
      edit_lists_def flag_set_def no_request_def parse_complete_def Let_def)
  have o: "observed_row rolled_back_builder 2 = Some 3" "observed_row rolled_back_builder 1 = Some 2"
    "contains (modifications rolled_back_builder) 3 = False" "contains (modifications rolled_back_builder) 2 = True"
    "contains (columns rolled_back_builder ! 0) 2 = True" "length (columns rolled_back_builder) = 1"
    by code_simp+
  have m: "move_last_over 1 [10, 20, 30, 40 :: nat] ! 2 = 30" "move_last_over 1 [10, 20, 30, 40 :: nat] ! 1 = 40"
    by code_simp+
  show ?thesis
    unfolding a using m o p
    by (simp add: rolled_back_observers_def observe_row_def new_table_ndx_def no_request_def told_columns_def initial_column_def Let_def
      new_column_info_def)
qed

end
