(* ===== verification/Schema_Model.thy ===== *)
theory Schema_Model
  imports Prelude "HOL-Library.Word" "HOL-Library.Char_ord" "HOL-Library.List_Lexorder"
begin

text \<open>
  Properties, object schemas and schemas (\<open>property.hpp\<close>, \<open>object_schema.cpp\<close>, \<open>schema.cpp\<close>): the
  data, the lookups, and the sorted vector a \<open>Schema\<close> is.  Validation and comparison are in
  \<open>Schema_Validate\<close> and \<open>Schema_Compare\<close>.
\<close>

unbundle bit_operations_syntax

section \<open>Property types\<close>

text \<open>An \<open>unsigned char\<close>: a base type with two flag bits.\<close>

type_synonym prop_type = "8 word"

definition PT_Int :: prop_type where "PT_Int = 0"
definition PT_Bool :: prop_type where "PT_Bool = 1"
definition PT_String :: prop_type where "PT_String = 2"
definition PT_Data :: prop_type where "PT_Data = 3"
definition PT_Date :: prop_type where "PT_Date = 4"
definition PT_Float :: prop_type where "PT_Float = 5"
definition PT_Double :: prop_type where "PT_Double = 6"
definition PT_Object :: prop_type where "PT_Object = 7"
definition PT_LinkingObjects :: prop_type where "PT_LinkingObjects = 8"
definition PT_Any :: prop_type where "PT_Any = 9"
definition PT_Required :: prop_type where "PT_Required = 0"
definition PT_Nullable :: prop_type where "PT_Nullable = 64"
definition PT_Array :: prop_type where "PT_Array = 128"
definition PT_Flags :: prop_type where "PT_Flags = PT_Nullable OR PT_Array"

lemmas PT_defs = PT_Int_def PT_Bool_def PT_String_def PT_Data_def PT_Date_def PT_Float_def
  PT_Double_def PT_Object_def PT_LinkingObjects_def PT_Any_def PT_Required_def PT_Nullable_def
  PT_Array_def PT_Flags_def

definition base_type :: "prop_type \<Rightarrow> prop_type" where
  "base_type t = t AND NOT PT_Flags"

text \<open>The overloaded \<open>==\<close> of property types ignores the flags.\<close>

definition type_eq :: "prop_type \<Rightarrow> prop_type \<Rightarrow> bool" where
  "type_eq a b \<longleftrightarrow> base_type a = base_type b"

definition is_array :: "prop_type \<Rightarrow> bool" where
  "is_array t \<longleftrightarrow> t AND PT_Array = PT_Array"

definition is_nullable :: "prop_type \<Rightarrow> bool" where
  "is_nullable t \<longleftrightarrow> t AND PT_Nullable = PT_Nullable"

text \<open>A type is its base and its two flags.\<close>

lemma bit_64: "bit (64 :: prop_type) n \<longleftrightarrow> n = 6"
  using bit_exp_iff[where 'a = "8 word", of 6 n] by (auto simp: possible_bit_word)

lemma bit_128: "bit (128 :: prop_type) n \<longleftrightarrow> n = 7"
  using bit_exp_iff[where 'a = "8 word", of 7 n] by (auto simp: possible_bit_word)

lemma is_array_bit: "is_array t \<longleftrightarrow> bit t 7"
proof -
  have "t AND PT_Array = PT_Array \<longleftrightarrow> (\<forall>n. bit (t AND PT_Array) n = bit PT_Array n)"
    by (metis bit_eqI)
  also have "\<dots> \<longleftrightarrow> (\<forall>n. (bit t n \<and> n = 7) = (n = 7))"
    unfolding bit_and_iff PT_Array_def bit_128 ..
  finally show ?thesis by (auto simp: is_array_def)
qed

lemma is_nullable_bit: "is_nullable t \<longleftrightarrow> bit t 6"
proof -
  have "t AND PT_Nullable = PT_Nullable \<longleftrightarrow> (\<forall>n. bit (t AND PT_Nullable) n = bit PT_Nullable n)"
    by (metis bit_eqI)
  also have "\<dots> \<longleftrightarrow> (\<forall>n. (bit t n \<and> n = 6) = (n = 6))"
    unfolding bit_and_iff PT_Nullable_def bit_64 ..
  finally show ?thesis by (auto simp: is_nullable_def)
qed

lemma bit_flags: "bit PT_Flags n \<longleftrightarrow> n = 6 \<or> n = 7"
  unfolding PT_Flags_def PT_Nullable_def PT_Array_def bit_or_iff bit_64 bit_128 ..

lemma prop_type_eq_iff:
  "a = b \<longleftrightarrow> type_eq a b \<and> is_array a = is_array b \<and> is_nullable a = is_nullable b"
proof
  assume r: "type_eq a b \<and> is_array a = is_array b \<and> is_nullable a = is_nullable b"
  show "a = b"
  proof (rule bit_word_eqI)
    fix n assume n: "n < LENGTH(8)"
    have "bit (base_type a) n = bit (base_type b) n" using r by (simp add: type_eq_def)
    then have "n \<noteq> 6 \<Longrightarrow> n \<noteq> 7 \<Longrightarrow> bit a n = bit b n"
      using n by (simp add: base_type_def bit_and_iff bit_not_iff bit_flags)
    then show "bit a n = bit b n" using r by (cases "n = 6"; cases "n = 7") (simp_all add: is_array_bit is_nullable_bit)
  qed
qed (simp add: type_eq_def)

lemma base_type_flags [simp]:
  "\<not> is_array (base_type t)" "\<not> is_nullable (base_type t)" "base_type (base_type t) = base_type t"
  by (auto simp: is_array_bit is_nullable_bit base_type_def bit_and_iff bit_not_iff bit_flags intro!: bit_word_eqI)

lemma type_eq_equiv: "type_eq a a" "type_eq a b \<Longrightarrow> type_eq b a"
  by (simp_all add: type_eq_def)

section \<open>Properties\<close>

record property =
  p_name :: string
  p_public_name :: string
  p_type :: prop_type
  p_object_type :: string
  p_link_origin :: string
  p_is_primary :: bool
  p_is_indexed :: bool
  p_column :: size

definition make_property :: "string \<Rightarrow> prop_type \<Rightarrow> bool \<Rightarrow> bool \<Rightarrow> string \<Rightarrow> property" where
  "make_property n t primary indexed public =
     \<lparr>p_name = n, p_public_name = public, p_type = t, p_object_type = [], p_link_origin = [],
      p_is_primary = primary, p_is_indexed = indexed, p_column = npos\<rparr>"

definition make_link :: "string \<Rightarrow> prop_type \<Rightarrow> string \<Rightarrow> string \<Rightarrow> string \<Rightarrow> property" where
  "make_link n t obj origin public =
     \<lparr>p_name = n, p_public_name = public, p_type = t, p_object_type = obj, p_link_origin = origin,
      p_is_primary = False, p_is_indexed = False, p_column = npos\<rparr>"

definition requires_index :: "property \<Rightarrow> bool" where
  "requires_index p \<longleftrightarrow> p_is_primary p \<or> p_is_indexed p"

definition type_is_indexable :: "property \<Rightarrow> bool" where
  "type_is_indexable p \<longleftrightarrow> type_eq (p_type p) PT_Int \<or> type_eq (p_type p) PT_Bool \<or>
     type_eq (p_type p) PT_Date \<or> type_eq (p_type p) PT_String"

definition type_is_nullable :: "property \<Rightarrow> bool" where
  "type_is_nullable p \<longleftrightarrow> \<not> (is_array (p_type p) \<and> type_eq (p_type p) PT_Object) \<and>
     \<not> type_eq (p_type p) PT_LinkingObjects"

text \<open>Base types outside the enumeration do not occur; the source marks that case unreachable.\<close>

definition string_for_property_type :: "prop_type \<Rightarrow> string" where
  "string_for_property_type t =
     (if is_array t then (if type_eq t PT_LinkingObjects then ''linking objects'' else ''array'')
      else let b = base_type t in
        if b = PT_String then ''string'' else if b = PT_Int then ''int''
        else if b = PT_Bool then ''bool'' else if b = PT_Date then ''date''
        else if b = PT_Data then ''data'' else if b = PT_Double then ''double''
        else if b = PT_Float then ''float'' else if b = PT_Object then ''object''
        else if b = PT_Any then ''any'' else if b = PT_LinkingObjects then ''linking objects''
        else [])"

definition type_string :: "property \<Rightarrow> string" where
  "type_string p =
     (let t = p_type p; b = base_type t in
      if is_array t then
        if type_eq t PT_Object then ''array<'' @ p_object_type p @ ''>''
        else if type_eq t PT_LinkingObjects then ''linking objects<'' @ p_object_type p @ ''>''
        else ''array<'' @ string_for_property_type b @ ''>''
      else if b = PT_Object then ''<'' @ p_object_type p @ ''>''
      else if b = PT_LinkingObjects then ''linking objects<'' @ p_object_type p @ ''>''
      else string_for_property_type b)"

text \<open>\<open>operator==\<close>, which ignores the public name and the column.\<close>

definition property_equal :: "property \<Rightarrow> property \<Rightarrow> bool" where
  "property_equal l r \<longleftrightarrow> p_type l = p_type r \<and> p_is_primary l = p_is_primary r \<and>
     requires_index l = requires_index r \<and> p_name l = p_name r \<and> p_object_type l = p_object_type r \<and>
     p_link_origin l = p_link_origin r"

lemma property_equal_refl [simp]: "property_equal p p"
  by (simp add: property_equal_def)

section \<open>Object schemas\<close>

record object_schema =
  os_name :: string
  os_persisted :: "property list"
  os_computed :: "property list"
  os_primary_key :: string

definition make_object_schema :: "string \<Rightarrow> property list \<Rightarrow> property list \<Rightarrow> object_schema" where
  "make_object_schema n persisted computed =
     \<lparr>os_name = n, os_persisted = persisted, os_computed = computed,
      os_primary_key = (case List.find p_is_primary persisted of Some p \<Rightarrow> p_name p | None \<Rightarrow> [])\<rparr>"

definition property_for_name :: "object_schema \<Rightarrow> string \<Rightarrow> property option" where
  "property_for_name os n =
     (case List.find (\<lambda>p. p_name p = n) (os_persisted os) of
        Some p \<Rightarrow> Some p
      | None \<Rightarrow> List.find (\<lambda>p. p_name p = n) (os_computed os))"

definition property_for_public_name :: "object_schema \<Rightarrow> string \<Rightarrow> property option" where
  "property_for_public_name os n =
     (case List.find (\<lambda>p. p_public_name p = n \<or> p_public_name p = [] \<and> p_name p = n) (os_persisted os) of
        Some p \<Rightarrow> Some p
      | None \<Rightarrow> List.find (\<lambda>p. (if p_public_name p = [] then p_name p else p_public_name p) = n) (os_computed os))"

definition primary_key_property :: "object_schema \<Rightarrow> property option" where
  "primary_key_property os = property_for_name os (os_primary_key os)"

definition property_is_computed :: "object_schema \<Rightarrow> property \<Rightarrow> bool" where
  "property_is_computed os p \<longleftrightarrow> list_ex (\<lambda>q. property_equal q p) (os_computed os)"

text \<open>Assigning through the pointer a lookup returned.\<close>

fun update_first :: "('a \<Rightarrow> bool) \<Rightarrow> ('a \<Rightarrow> 'a) \<Rightarrow> 'a list \<Rightarrow> 'a list" where
  "update_first p f [] = []"
| "update_first p f (x # xs) = (if p x then f x # xs else x # update_first p f xs)"

definition update_property :: "object_schema \<Rightarrow> string \<Rightarrow> (property \<Rightarrow> property) \<Rightarrow> object_schema" where
  "update_property os n f =
     (if list_ex (\<lambda>p. p_name p = n) (os_persisted os)
      then os\<lparr>os_persisted := update_first (\<lambda>p. p_name p = n) f (os_persisted os)\<rparr>
      else os\<lparr>os_computed := update_first (\<lambda>p. p_name p = n) f (os_computed os)\<rparr>)"

definition set_primary_key_property :: "object_schema \<Rightarrow> object_schema" where
  "set_primary_key_property os =
     (if os_primary_key os \<noteq> [] then
        case primary_key_property os of
          Some p \<Rightarrow> update_property os (os_primary_key os) (\<lambda>p. p\<lparr>p_is_primary := True\<rparr>)
        | None \<Rightarrow> os
      else os)"

definition object_schema_equal :: "object_schema \<Rightarrow> object_schema \<Rightarrow> bool" where
  "object_schema_equal a b \<longleftrightarrow> os_name a = os_name b \<and> os_primary_key a = os_primary_key b \<and>
     list_all2 property_equal (os_persisted a) (os_persisted b) \<and>
     list_all2 property_equal (os_computed a) (os_computed b)"

lemma find_name_SomeD:
  "List.find (\<lambda>p. p_name p = n) ps = Some p \<Longrightarrow> p \<in> set ps \<and> p_name p = n"
  by (auto simp: find_Some_iff)

lemma find_name_None_iff: "List.find (\<lambda>p. p_name p = n) ps = None \<longleftrightarrow> n \<notin> p_name ` set ps"
  by (auto simp: find_None_iff)

lemma property_for_name_SomeD:
  "property_for_name os n = Some p \<Longrightarrow> p \<in> set (os_persisted os) \<union> set (os_computed os) \<and> p_name p = n"
  by (auto simp: property_for_name_def dest!: find_name_SomeD split: option.splits)

lemma property_for_name_None_iff:
  "property_for_name os n = None \<longleftrightarrow> n \<notin> p_name ` (set (os_persisted os) \<union> set (os_computed os))"
  by (auto simp: property_for_name_def find_name_None_iff image_Un split: option.splits dest!: find_name_SomeD)

lemma find_name_distinct:
  assumes "distinct (map p_name ps)" "p \<in> set ps"
  shows "List.find (\<lambda>q. p_name q = p_name p) ps = Some p"
  using assms by (induction ps) force+

lemma property_for_name_persisted:
  assumes "distinct (map p_name (os_persisted os))" "p \<in> set (os_persisted os)"
  shows "property_for_name os (p_name p) = Some p"
  using find_name_distinct[OF assms] by (simp add: property_for_name_def)

section \<open>The two orders of strings\<close>

text \<open>
  \<open>std::string\<close> compares unsigned bytes, which is the order of \<open>char\<close> and of lists here.
  \<open>StringData\<close> compares with \<open>std::lexicographical_compare\<close> over \<open>char\<close>, which is signed on the
  target platforms.
\<close>

definition signed_char :: "char \<Rightarrow> int" where
  "signed_char c = (let n = of_char c in if n < 128 then n else n - 256)"

definition sd_key :: "string \<Rightarrow> int list" where
  "sd_key s = map signed_char s"

definition sd_less :: "string \<Rightarrow> string \<Rightarrow> bool" where
  "sd_less a b \<longleftrightarrow> sd_key a < sd_key b"

definition ascii :: "string \<Rightarrow> bool" where
  "ascii s \<longleftrightarrow> list_all (\<lambda>c. of_char c < (128 :: nat)) s"

lemma inj_signed_char: "inj signed_char"
proof (rule injI)
  fix c d assume "signed_char c = signed_char d"
  moreover have "(of_char c :: int) < 256" "(of_char d :: int) < 256"
    "0 \<le> (of_char c :: int)" "0 \<le> (of_char d :: int)"
    by (simp_all add: of_char_def)
  ultimately have "(of_char c :: int) = of_char d" by (auto simp: signed_char_def Let_def split: if_splits)
  then show "c = d" by simp
qed

lemma inj_sd_key: "inj sd_key"
  unfolding sd_key_def using inj_signed_char by (simp add: inj_map_eq_map inj_def)

lemma sd_key_eq [simp]: "sd_key a = sd_key b \<longleftrightarrow> a = b"
  using inj_sd_key by (simp add: inj_eq)

lemma sd_key_ascii:
  assumes "ascii a" "ascii b"
  shows "sd_key a < sd_key b \<longleftrightarrow> a < b"
  using assms
proof (induction a arbitrary: b)
  case Nil
  then show ?case by (cases b) (simp_all add: sd_key_def)
next
  case (Cons c a)
  show ?case
  proof (cases b)
    case Nil
    then show ?thesis by (simp add: sd_key_def)
  next
    case (Cons d b')
    have n: "(of_char c :: nat) < 128" "(of_char d :: nat) < 128"
      using Cons.prems Cons by (simp_all add: ascii_def)
    have i: "(of_char x :: int) = int (of_char x)" for x :: char by (simp add: of_char_def)
    have "signed_char c = int (of_char c)" "signed_char d = int (of_char d)"
      using n by (simp_all add: signed_char_def Let_def i)
    then have "signed_char c < signed_char d \<longleftrightarrow> c < d" "signed_char c = signed_char d \<longleftrightarrow> c = d"
      by (simp_all add: less_char_def)
    then show ?thesis using Cons.IH[of b'] Cons.prems Cons by (simp add: sd_key_def ascii_def)
  qed
qed

section \<open>Schemas\<close>

type_synonym schema = "object_schema list"

definition make_schema :: "object_schema list \<Rightarrow> schema" where
  "make_schema types = sort_key os_name types"

definition schema_find :: "schema \<Rightarrow> string \<Rightarrow> object_schema option" where
  "schema_find s n =
     (let it = lower_bound (\<lambda>i. sd_less (os_name (s ! i)) n) 0 (length s) in
      if it < length s \<and> os_name (s ! it) = n then Some (s ! it) else None)"

definition sorted_schema :: "schema \<Rightarrow> bool" where
  "sorted_schema s \<longleftrightarrow> sorted (map os_name s)"

lemma make_schema_sorted: "sorted_schema (make_schema xs)" "set (make_schema xs) = set xs"
  by (simp_all add: sorted_schema_def make_schema_def)

end
