(* ===== verification/Schema_Validate.thy ===== *)
theory Schema_Validate
  imports Schema_Model
begin

text \<open>
  Finding an object schema by name, and \<open>Schema::validate\<close>: the errors it collects, and the
  declarative description of the schemas it accepts.
\<close>

section \<open>Lookup by binary search\<close>

definition ascii_schema :: "schema \<Rightarrow> bool" where
  "ascii_schema s \<longleftrightarrow> (\<forall>os \<in> set s. ascii (os_name os))"

lemma sorted_schema_nth:
  "sorted_schema s \<Longrightarrow> i \<le> j \<Longrightarrow> j < length s \<Longrightarrow> os_name (s ! i) \<le> os_name (s ! j)"
  using sorted_nth_mono[of "map os_name s" i j] by (simp add: sorted_schema_def)

lemma takeWhile_nth_holds: "i < length (takeWhile P xs) \<Longrightarrow> P (xs ! i)"
  by (metis nth_mem set_takeWhileD takeWhile_nth)

text \<open>For names in ASCII the two string orders agree, and the search finds the first match.\<close>

lemma schema_find_takeWhile:
  assumes s: "sorted_schema s" and a: "ascii_schema s" "ascii n"
  shows "lower_bound (\<lambda>i. sd_less (os_name (s ! i)) n) 0 (length s) =
    length (takeWhile (\<lambda>os. os_name os < n) s)"
proof -
  have k: "sd_less (os_name (s ! i)) n \<longleftrightarrow> os_name (s ! i) < n" if "i < length s" for i
    using a that by (simp add: sd_less_def ascii_schema_def sd_key_ascii)
  have "lower_bound (\<lambda>i. sd_less (os_name (s ! i)) n) 0 (length s) =
      length (takeWhile (\<lambda>os. os_name os < n) s)"
  proof (rule lower_bound_partition)
    fix i assume i: "0 \<le> i" "i < 0 + length s"
    show "sd_less (os_name (s ! i)) n \<longleftrightarrow> i < length (takeWhile (\<lambda>os. os_name os < n) s)"
    proof
      assume l: "sd_less (os_name (s ! i)) n"
      show "i < length (takeWhile (\<lambda>os. os_name os < n) s)"
      proof (rule ccontr)
        assume "\<not> i < length (takeWhile (\<lambda>os. os_name os < n) s)"
        then have le: "length (takeWhile (\<lambda>os. os_name os < n) s) \<le> i" by simp
        then have "length (takeWhile (\<lambda>os. os_name os < n) s) < length s" using i by simp
        then have "\<not> os_name (s ! length (takeWhile (\<lambda>os. os_name os < n) s)) < n"
          by (rule nth_length_takeWhile)
        moreover have "os_name (s ! length (takeWhile (\<lambda>os. os_name os < n) s)) \<le> os_name (s ! i)"
          using sorted_schema_nth[OF s le] i by simp
        ultimately show False using l k i by simp
      qed
    next
      assume "i < length (takeWhile (\<lambda>os. os_name os < n) s)"
      then have "os_name (s ! i) < n" by (rule takeWhile_nth_holds)
      then show "sd_less (os_name (s ! i)) n" using k i by simp
    qed
  next
    show "length (takeWhile (\<lambda>os. os_name os < n) s) \<le> 0 + length s" by (simp add: length_takeWhile_le)
  qed simp
  then show ?thesis .
qed

lemma schema_find_spec:
  assumes s: "sorted_schema s" and a: "ascii_schema s" "ascii n"
  shows "schema_find s n = List.find (\<lambda>os. os_name os = n) s"
proof -
  define k where "k = length (takeWhile (\<lambda>os. os_name os < n) s)"
  have f: "schema_find s n = (if k < length s \<and> os_name (s ! k) = n then Some (s ! k) else None)"
    by (simp add: schema_find_def schema_find_takeWhile[OF assms] k_def Let_def)
  have before: "os_name (s ! i) < n" if "i < k" for i
    using that unfolding k_def by (rule takeWhile_nth_holds)
  show ?thesis
  proof (cases "k < length s \<and> os_name (s ! k) = n")
    case True
    moreover have "\<forall>j < k. os_name (s ! j) \<noteq> n" using before by (metis less_irrefl)
    ultimately have "List.find (\<lambda>os. os_name os = n) s = Some (s ! k)"
      unfolding find_Some_iff by (intro exI[of _ k]) simp
    then show ?thesis using f True by simp
  next
    case False
    have "os_name os \<noteq> n" if "os \<in> set s" for os
    proof
      assume n: "os_name os = n"
      from that obtain i where i: "i < length s" "s ! i = os" unfolding in_set_conv_nth by metis
      have "k \<le> i" using before[of i] n i by (cases "i < k") auto
      then have kl: "k < length s" using i by simp
      then have "\<not> os_name (s ! k) < n" unfolding k_def by (rule nth_length_takeWhile)
      moreover have "os_name (s ! k) \<le> n" using sorted_schema_nth[OF s \<open>k \<le> i\<close> i(1)] i(2) n by simp
      ultimately show False using False kl by simp
    qed
    then have "List.find (\<lambda>os. os_name os = n) s = None" by (auto simp: find_None_iff)
    then show ?thesis using f False by simp
  qed
qed

section \<open>Errors\<close>

datatype validation_error =
    Not_An_Array string string
  | Cannot_Be_Nullable string string string
  | Must_Be_Nullable string string
  | Bad_Primary_Type string string string
  | Two_Primaries string string string
  | Not_Indexable string string string
  | Has_Origin string string string
  | Needs_Origin string string string
  | Has_Object_Type string string string
  | Unknown_Object_Type string string string string
  | Origin_Missing string string string string
  | Origin_No_Link string string string string
  | Origin_Wrong_Type string string string string string
  | Duplicate_Alias string string
  | Duplicate_Property string string
  | Alias_Conflict string string string
  | Missing_Primary string string
  | Duplicate_Type string

section \<open>One property\<close>

definition nullability_errors :: "string \<Rightarrow> property \<Rightarrow> validation_error list" where
  "nullability_errors obj p =
     (if is_nullable (p_type p) \<and> \<not> type_is_nullable p
      then [Cannot_Be_Nullable obj (p_name p) (string_for_property_type (p_type p))]
      else if type_eq (p_type p) PT_Object \<and> \<not> is_nullable (p_type p) \<and> \<not> is_array (p_type p)
      then [Must_Be_Nullable obj (p_name p)] else [])"

definition primary_errors :: "string \<Rightarrow> property \<Rightarrow> property option \<Rightarrow> validation_error list" where
  "primary_errors obj p primary =
     (if p_is_primary p then
        (if \<not> type_eq (p_type p) PT_Int \<and> \<not> type_eq (p_type p) PT_String
         then [Bad_Primary_Type obj (p_name p) (string_for_property_type (p_type p))] else []) @
        (case primary of Some q \<Rightarrow> [Two_Primaries (p_name p) (p_name q) obj] | None \<Rightarrow> [])
      else [])"

definition origin_errors :: "string \<Rightarrow> property \<Rightarrow> validation_error list" where
  "origin_errors obj p =
     (if \<not> type_eq (p_type p) PT_LinkingObjects \<and> p_link_origin p \<noteq> []
      then [Has_Origin obj (p_name p) (string_for_property_type (p_type p))]
      else if type_eq (p_type p) PT_LinkingObjects \<and> p_link_origin p = []
      then [Needs_Origin obj (p_name p) (string_for_property_type (p_type p))] else [])"

definition link_errors :: "schema \<Rightarrow> string \<Rightarrow> property \<Rightarrow> validation_error list" where
  "link_errors s obj p =
     (if \<not> type_eq (p_type p) PT_Object \<and> \<not> type_eq (p_type p) PT_LinkingObjects then
        (if p_object_type p \<noteq> [] then [Has_Object_Type obj (p_name p) (type_string p)] else [])
      else case schema_find s (p_object_type p) of
        None \<Rightarrow> [Unknown_Object_Type obj (p_name p) (string_for_property_type (p_type p)) (p_object_type p)]
      | Some target \<Rightarrow>
        if \<not> type_eq (p_type p) PT_LinkingObjects then []
        else case property_for_name target (p_link_origin p) of
          None \<Rightarrow> [Origin_Missing (p_object_type p) (p_link_origin p) obj (p_name p)]
        | Some origin \<Rightarrow>
          if \<not> type_eq (p_type origin) PT_Object
          then [Origin_No_Link (p_object_type p) (p_link_origin p) obj (p_name p)]
          else if p_object_type origin \<noteq> obj
          then [Origin_Wrong_Type (p_object_type p) (p_link_origin p) obj (p_name p) (p_object_type origin)]
          else [])"

definition validate_property :: "schema \<Rightarrow> string \<Rightarrow> property \<Rightarrow> property option \<Rightarrow>
    validation_error list \<times> property option" where
  "validate_property s obj p primary =
     ((if type_eq (p_type p) PT_LinkingObjects \<and> \<not> is_array (p_type p)
       then [Not_An_Array obj (p_name p)] else []) @
      nullability_errors obj p @ primary_errors obj p primary @
      (if p_is_indexed p \<and> \<not> type_is_indexable p
       then [Not_Indexable obj (p_name p) (string_for_property_type (p_type p))] else []) @
      origin_errors obj p @ link_errors s obj p,
      if p_is_primary p then Some p else primary)"

fun validate_properties :: "schema \<Rightarrow> string \<Rightarrow> property list \<Rightarrow> property option \<Rightarrow>
    validation_error list \<times> property option" where
  "validate_properties s obj [] primary = ([], primary)"
| "validate_properties s obj (p # ps) primary =
     (let (es, primary) = validate_property s obj p primary;
          (es', primary) = validate_properties s obj ps primary in (es @ es', primary))"

section \<open>One object schema\<close>

text \<open>\<open>for_each_duplicate\<close>: \<open>adjacent_find\<close>, continued two elements further.\<close>

fun duplicates :: "'a list \<Rightarrow> 'a list" where
  "duplicates (x # y # zs) = (if x = y then x # duplicates zs else duplicates (y # zs))"
| "duplicates xs = []"

text \<open>\<open>std::set_intersection\<close> with the order of \<open>StringData\<close>.\<close>

fun set_intersection :: "string list \<Rightarrow> string list \<Rightarrow> string list" where
  "set_intersection (x # xs) (y # ys) =
     (if sd_less x y then set_intersection xs (y # ys)
      else if sd_less y x then set_intersection (x # xs) ys
      else x # set_intersection xs ys)"
| "set_intersection xs ys = []"

definition public_names :: "object_schema \<Rightarrow> string list" where
  "public_names os =
     sort_key sd_key (filter (\<lambda>n. n \<noteq> []) (map p_public_name (os_persisted os @ os_computed os)))"

definition internal_names :: "object_schema \<Rightarrow> string list" where
  "internal_names os = sort_key sd_key (map p_name (os_persisted os @ os_computed os))"

text \<open>An alias has a property, so the dereference in the message is safe (\<open>alias_has_property\<close>).\<close>

definition alias_conflicts :: "object_schema \<Rightarrow> validation_error list" where
  "alias_conflicts os =
     map (\<lambda>n. Alias_Conflict (os_name os)
         (case property_for_public_name os n of Some p \<Rightarrow> p_name p | None \<Rightarrow> []) n)
       (set_intersection (public_names os) (internal_names os))"

definition validate_object :: "schema \<Rightarrow> object_schema \<Rightarrow> validation_error list" where
  "validate_object s os =
     (let (es, primary) = validate_properties s (os_name os) (os_persisted os) None;
          (es', primary) = validate_properties s (os_name os) (os_computed os) primary
      in map (\<lambda>n. Duplicate_Alias n (os_name os)) (duplicates (public_names os)) @
         map (\<lambda>n. Duplicate_Property n (os_name os)) (duplicates (internal_names os)) @
         alias_conflicts os @ es @ es' @
         (if os_primary_key os \<noteq> [] \<and> primary = None \<and> primary_key_property os = None
          then [Missing_Primary (os_name os) (os_primary_key os)] else []))"

section \<open>The whole schema\<close>

fun duplicate_types :: "schema \<Rightarrow> string list" where
  "duplicate_types (x # y # zs) =
     (if os_name x = os_name y then os_name x # duplicate_types (y # zs) else duplicate_types (y # zs))"
| "duplicate_types xs = []"

definition schema_validate :: "schema \<Rightarrow> validation_error list + unit" where
  "schema_validate s =
     (let es = map Duplicate_Type (duplicate_types s) @ concat (map (validate_object s) s)
      in if es \<noteq> [] then Inl es else Inr ())"

section \<open>What is accepted\<close>

definition type_allowed :: "property \<Rightarrow> bool" where
  "type_allowed p \<longleftrightarrow>
     (type_eq (p_type p) PT_LinkingObjects \<longrightarrow> is_array (p_type p) \<and> \<not> is_nullable (p_type p)) \<and>
     (type_eq (p_type p) PT_Object \<longrightarrow> is_array (p_type p) \<noteq> is_nullable (p_type p)) \<and>
     (p_is_primary p \<longrightarrow> type_eq (p_type p) PT_Int \<or> type_eq (p_type p) PT_String) \<and>
     (p_is_indexed p \<longrightarrow> type_is_indexable p) \<and>
     (type_eq (p_type p) PT_LinkingObjects \<longleftrightarrow> p_link_origin p \<noteq> [])"

definition links_resolve :: "schema \<Rightarrow> string \<Rightarrow> property \<Rightarrow> bool" where
  "links_resolve s obj p \<longleftrightarrow>
     (if type_eq (p_type p) PT_Object then p_object_type p \<in> os_name ` set s
      else if type_eq (p_type p) PT_LinkingObjects then
        \<exists>target \<in> set s. os_name target = p_object_type p \<and>
          (\<exists>origin. property_for_name target (p_link_origin p) = Some origin \<and>
            type_eq (p_type origin) PT_Object \<and> p_object_type origin = obj)
      else p_object_type p = [])"

definition all_properties :: "object_schema \<Rightarrow> property list" where
  "all_properties os = os_persisted os @ os_computed os"

definition object_valid :: "schema \<Rightarrow> object_schema \<Rightarrow> bool" where
  "object_valid s os \<longleftrightarrow>
     distinct (map p_name (all_properties os)) \<and>
     distinct (filter (\<lambda>n. n \<noteq> []) (map p_public_name (all_properties os))) \<and>
     (\<forall>p \<in> set (all_properties os). p_public_name p \<noteq> [] \<longrightarrow>
       p_public_name p \<notin> p_name ` set (all_properties os)) \<and>
     length (filter p_is_primary (all_properties os)) \<le> 1 \<and>
     (\<forall>p \<in> set (all_properties os). type_allowed p \<and> links_resolve s (os_name os) p) \<and>
     (os_primary_key os \<noteq> [] \<longrightarrow> (\<exists>p \<in> set (all_properties os). p_is_primary p) \<or>
       os_primary_key os \<in> p_name ` set (all_properties os))"

definition schema_valid :: "schema \<Rightarrow> bool" where
  "schema_valid s \<longleftrightarrow> distinct (map os_name s) \<and> (\<forall>os \<in> set s. object_valid s os)"

text \<open>All names that a lookup goes by.\<close>

definition ascii_links :: "schema \<Rightarrow> bool" where
  "ascii_links s \<longleftrightarrow> ascii_schema s \<and> (\<forall>os \<in> set s. \<forall>p \<in> set (all_properties os). ascii (p_object_type p))"

section \<open>Duplicates and intersections\<close>

lemma duplicates_Nil_iff:
  assumes "sorted (map sd_key xs)"
  shows "duplicates xs = [] \<longleftrightarrow> distinct xs"
  using assms
proof (induction xs rule: duplicates.induct)
  case (1 x y zs)
  have n: "x \<notin> set zs" if "x \<noteq> y"
  proof
    assume "x \<in> set zs"
    then have "sd_key y \<le> sd_key x" "sd_key x \<le> sd_key y" using 1(3) by auto
    then show False using that by (metis antisym sd_key_eq)
  qed
  show ?case using 1 n by (cases "x = y") auto
qed simp_all

lemma set_intersection_Nil_iff:
  assumes "sorted (map sd_key xs)" "sorted (map sd_key ys)"
  shows "set_intersection xs ys = [] \<longleftrightarrow> set xs \<inter> set ys = {}"
  using assms
proof (induction xs ys rule: set_intersection.induct)
  case (1 x xs y ys)
  show ?case
  proof (cases "sd_less x y")
    case True
    then have "x \<notin> set (y # ys)" using 1(5) by (auto simp: sd_less_def)
    then show ?thesis using 1 True by auto
  next
    case F: False
    show ?thesis
    proof (cases "sd_less y x")
      case True
      then have "y \<notin> set (x # xs)" using 1(4) by (auto simp: sd_less_def)
      then show ?thesis using 1 F True by auto
    next
      case False
      then have "x = y" using F by (auto simp: sd_less_def dest: antisym simp flip: not_less)
      then show ?thesis using F False by simp
    qed
  qed
qed simp_all

lemma sorted_names: "sorted (map sd_key (public_names os))" "sorted (map sd_key (internal_names os))"
  by (simp_all add: public_names_def internal_names_def)

lemma set_names:
  "set (internal_names os) = p_name ` set (all_properties os)"
  "set (public_names os) = p_public_name ` set (all_properties os) - {[]}"
  by (auto simp: internal_names_def public_names_def all_properties_def)

lemma distinct_names:
  "distinct (internal_names os) \<longleftrightarrow> distinct (map p_name (all_properties os))"
  "distinct (public_names os) \<longleftrightarrow> distinct (filter (\<lambda>n. n \<noteq> []) (map p_public_name (all_properties os)))"
  by (simp_all add: internal_names_def public_names_def all_properties_def distinct_sort)

lemma duplicate_types_Nil_iff:
  assumes "sorted_schema s"
  shows "duplicate_types s = [] \<longleftrightarrow> distinct (map os_name s)"
  using assms
proof (induction s rule: duplicate_types.induct)
  case (1 x y zs)
  then have n: "os_name x \<noteq> os_name y \<Longrightarrow> os_name x \<notin> os_name ` set zs"
    by (auto simp: sorted_schema_def)
  show ?case using 1 n by (cases "os_name x = os_name y") (auto simp: sorted_schema_def)
qed simp_all

lemma alias_has_property:
  assumes "n \<in> set (public_names os)"
  shows "property_for_public_name os n \<noteq> None"
proof -
  obtain p where p: "p \<in> set (all_properties os)" "p_public_name p = n" "n \<noteq> []"
    using assms by (auto simp: set_names)
  then have "p \<in> set (os_persisted os) \<or> p \<in> set (os_computed os)" by (simp add: all_properties_def)
  then have "List.find (\<lambda>p. p_public_name p = n \<or> p_public_name p = [] \<and> p_name p = n) (os_persisted os) \<noteq> None \<or>
      List.find (\<lambda>p. (if p_public_name p = [] then p_name p else p_public_name p) = n) (os_computed os) \<noteq> None"
    using p unfolding find_None_iff by (cases "p \<in> set (os_persisted os)") auto
  then show ?thesis unfolding property_for_public_name_def by (cases "List.find (\<lambda>p. p_public_name p = n \<or>
      p_public_name p = [] \<and> p_name p = n) (os_persisted os)") simp_all
qed

section \<open>The errors of an object schema\<close>

lemma property_errors_iff:
  assumes s: "sorted_schema s" "distinct (map os_name s)" and a: "ascii_schema s" "ascii (p_object_type p)"
  shows "fst (validate_property s obj p primary) = [] \<longleftrightarrow>
    type_allowed p \<and> links_resolve s obj p \<and> (p_is_primary p \<longrightarrow> primary = None)"
proof -
  have distinct_base: "\<not> (type_eq (p_type p) PT_Object \<and> type_eq (p_type p) PT_LinkingObjects)"
    by (auto simp: type_eq_def base_type_def PT_defs)
  have find: "schema_find s (p_object_type p) = List.find (\<lambda>os. os_name os = p_object_type p) s"
    by (rule schema_find_spec[OF s(1) a])
  have find_some: "List.find (\<lambda>os. os_name os = n) s = Some t \<longleftrightarrow> t \<in> set s \<and> os_name t = n" for n t
  proof
    assume "t \<in> set s \<and> os_name t = n"
    then show "List.find (\<lambda>os. os_name os = n) s = Some t" using s(2) by (induction s) force+
  qed (auto simp: find_Some_iff)
  have "link_errors s obj p = [] \<longleftrightarrow> links_resolve s obj p"
  proof (cases "schema_find s (p_object_type p)")
    case None
    then have none: "\<And>t. t \<in> set s \<Longrightarrow> os_name t \<noteq> p_object_type p" unfolding find by (auto simp: find_None_iff)
    then have "p_object_type p \<notin> os_name ` set s" by (metis imageE)
    then show ?thesis using None none unfolding link_errors_def links_resolve_def by (auto dest: none)
  next
    case (Some t)
    then have t: "t \<in> set s" "os_name t = p_object_type p" using find find_some by simp_all
    then have u: "\<And>u. u \<in> set s \<and> os_name u = p_object_type p \<longleftrightarrow> u = t"
      using find_some[of "p_object_type p"] by (metis option.inject)
    have ex: "(\<exists>target \<in> set s. os_name target = p_object_type p \<and> Q target) \<longleftrightarrow> Q t" for Q
      using u by metis
    have "p_object_type p \<in> os_name ` set s" using t by (metis imageI)
    then show ?thesis
      using distinct_base unfolding link_errors_def links_resolve_def ex Some
      by (cases "property_for_name t (p_link_origin p)") auto
  qed
  moreover have "nullability_errors obj p = [] \<and> origin_errors obj p = [] \<and>
      (type_eq (p_type p) PT_LinkingObjects \<longrightarrow> is_array (p_type p)) \<longleftrightarrow>
      (type_eq (p_type p) PT_LinkingObjects \<longrightarrow> is_array (p_type p) \<and> \<not> is_nullable (p_type p)) \<and>
      (type_eq (p_type p) PT_Object \<longrightarrow> is_array (p_type p) \<noteq> is_nullable (p_type p)) \<and>
      (type_eq (p_type p) PT_LinkingObjects \<longleftrightarrow> p_link_origin p \<noteq> [])"
    using distinct_base by (auto simp: nullability_errors_def origin_errors_def type_is_nullable_def)
  moreover have "primary_errors obj p primary = [] \<longleftrightarrow>
      (p_is_primary p \<longrightarrow> (type_eq (p_type p) PT_Int \<or> type_eq (p_type p) PT_String) \<and> primary = None)"
    by (auto simp: primary_errors_def split: option.splits)
  ultimately show ?thesis
    unfolding validate_property_def type_allowed_def by auto
qed

lemma validate_properties_iff:
  assumes s: "sorted_schema s" "distinct (map os_name s)" and a: "ascii_schema s"
    "\<forall>p \<in> set ps. ascii (p_object_type p)"
  shows "fst (validate_properties s obj ps primary) = [] \<longleftrightarrow>
      (\<forall>p \<in> set ps. type_allowed p \<and> links_resolve s obj p) \<and>
      length (filter p_is_primary ps) + (if primary = None then 0 else 1) \<le> 1"
    and "snd (validate_properties s obj ps primary) = None \<longleftrightarrow> filter p_is_primary ps = [] \<and> primary = None"
  using a(2)
proof (induction ps arbitrary: primary)
  case Nil
  { case 1 show ?case by simp }
  { case 2 show ?case by simp }
next
  case (Cons p ps)
  have e: "fst (validate_properties s obj (p # ps) primary) =
      fst (validate_property s obj p primary) @
      fst (validate_properties s obj ps (snd (validate_property s obj p primary)))"
    "snd (validate_properties s obj (p # ps) primary) =
      snd (validate_properties s obj ps (snd (validate_property s obj p primary)))" for primary
    by (simp_all add: split_def Let_def)
  have n: "snd (validate_property s obj p primary) = (if p_is_primary p then Some p else primary)" for primary
    by (simp add: validate_property_def)
  { case 1
    then show ?case
      using Cons.IH(1)[of "snd (validate_property s obj p primary)"] property_errors_iff[OF s a(1), of p obj primary]
      unfolding e by (cases "p_is_primary p"; cases primary) (auto simp: n) }
  { case 2
    then show ?case using Cons.IH(2)[of "snd (validate_property s obj p primary)"]
      unfolding e by (cases "p_is_primary p"; cases primary) (auto simp: n) }
qed

lemma validate_object_iff:
  assumes s: "sorted_schema s" "distinct (map os_name s)" and a: "ascii_links s" and os: "os \<in> set s"
  shows "validate_object s os = [] \<longleftrightarrow> object_valid s os"
proof -
  have ac: "ascii_schema s" "\<forall>p \<in> set (os_persisted os). ascii (p_object_type p)"
    "\<forall>p \<in> set (os_computed os). ascii (p_object_type p)"
    using a os by (auto simp: ascii_links_def all_properties_def)
  define r1 where "r1 = validate_properties s (os_name os) (os_persisted os) None"
  define r2 where "r2 = validate_properties s (os_name os) (os_computed os) (snd r1)"
  note V1 = validate_properties_iff[OF s ac(1,2), of "os_name os" None, folded r1_def]
  note V2 = validate_properties_iff[OF s ac(1,3), of "os_name os" "snd r1", folded r2_def]
  have e: "validate_object s os = map (\<lambda>n. Duplicate_Alias n (os_name os)) (duplicates (public_names os)) @
      map (\<lambda>n. Duplicate_Property n (os_name os)) (duplicates (internal_names os)) @
      alias_conflicts os @ fst r1 @ fst r2 @
      (if os_primary_key os \<noteq> [] \<and> snd r2 = None \<and> primary_key_property os = None
       then [Missing_Primary (os_name os) (os_primary_key os)] else [])"
    by (simp add: validate_object_def r1_def r2_def split_def Let_def)
  have conf: "alias_conflicts os = [] \<longleftrightarrow> (\<forall>p \<in> set (all_properties os). p_public_name p \<noteq> [] \<longrightarrow>
       p_public_name p \<notin> p_name ` set (all_properties os))"
    unfolding alias_conflicts_def map_is_Nil_conv set_intersection_Nil_iff[OF sorted_names] set_names by blast
  have props: "fst r1 = [] \<and> fst r2 = [] \<longleftrightarrow>
      (\<forall>p \<in> set (all_properties os). type_allowed p \<and> links_resolve s (os_name os) p) \<and>
      length (filter p_is_primary (all_properties os)) \<le> 1"
    unfolding V1(1) V2(1) V1(2) by (cases "filter p_is_primary (os_persisted os)") (auto simp: all_properties_def)
  have none: "snd r2 = None \<longleftrightarrow> \<not> (\<exists>p \<in> set (all_properties os). p_is_primary p)"
    unfolding V2(2) V1(2) filter_empty_conv all_properties_def set_append by blast
  have pk: "primary_key_property os = None \<longleftrightarrow> os_primary_key os \<notin> p_name ` set (all_properties os)"
    unfolding primary_key_property_def property_for_name_None_iff all_properties_def set_append ..
  have last: "(if os_primary_key os \<noteq> [] \<and> snd r2 = None \<and> primary_key_property os = None
       then [Missing_Primary (os_name os) (os_primary_key os)] else []) = [] \<longleftrightarrow>
      (os_primary_key os \<noteq> [] \<longrightarrow> (\<exists>p \<in> set (all_properties os). p_is_primary p) \<or>
       os_primary_key os \<in> p_name ` set (all_properties os))"
    unfolding none pk by (simp add: if_split)
  show ?thesis
    unfolding e append_is_Nil_conv last conf map_is_Nil_conv duplicates_Nil_iff[OF sorted_names(1)]
      duplicates_Nil_iff[OF sorted_names(2)] distinct_names object_valid_def
    using props by blast
qed

text \<open>The schemas accepted are exactly the valid ones, for class names in ASCII.\<close>

lemma schema_validate_iff:
  assumes "sorted_schema s" "ascii_links s"
  shows "schema_validate s = Inr () \<longleftrightarrow> schema_valid s"
proof -
  have "schema_validate s = Inr () \<longleftrightarrow> duplicate_types s = [] \<and> (\<forall>os \<in> set s. validate_object s os = [])"
    by (simp add: schema_validate_def Let_def)
  also have "\<dots> \<longleftrightarrow> schema_valid s"
    using duplicate_types_Nil_iff[OF assms(1)] validate_object_iff[OF assms(1) _ assms(2)]
    by (auto simp: schema_valid_def)
  finally show ?thesis .
qed

end
