(* ===== verification/Schema_Compare.thy ===== *)
theory Schema_Compare
  imports Schema_Model "HOL-Library.Multiset"
begin

text \<open>
  \<open>Schema::compare\<close>: the changes that turn an existing schema into a target schema, with the
  walk over two sorted schemas, the partition and the sort that move removals to the end, and
  \<open>copy_table_columns_from\<close>.
\<close>

section \<open>Changes\<close>

text \<open>The pointers of the source are the values they point to.\<close>

datatype schema_change =
    Add_Table object_schema
  | Remove_Table object_schema
  | Add_Initial_Properties object_schema
  | Add_Property object_schema property
  | Remove_Property object_schema property
  | Change_Property_Type object_schema property property
  | Make_Nullable object_schema property
  | Make_Required object_schema property
  | Add_Index object_schema property
  | Remove_Index object_schema property
  | Change_Primary_Key object_schema "property option"

fun is_not_remove :: "schema_change \<Rightarrow> bool" where
  "is_not_remove (Remove_Property os p) = False"
| "is_not_remove c = True"

text \<open>Only called on removals.\<close>

fun removed_column :: "schema_change \<Rightarrow> size" where
  "removed_column (Remove_Property os p) = p_column p"
| "removed_column c = 0"

section \<open>std::partition\<close>

text \<open>
  The algorithm for bidirectional iterators: the first element that fails the predicate is swapped
  with the last one that satisfies it, and the search continues between the two.
\<close>

definition upto_last :: "('a \<Rightarrow> bool) \<Rightarrow> 'a list \<Rightarrow> 'a list" where
  "upto_last p xs = rev (dropWhile (\<lambda>y. \<not> p y) (rev xs))"

definition after_last :: "('a \<Rightarrow> bool) \<Rightarrow> 'a list \<Rightarrow> 'a list" where
  "after_last p xs = rev (takeWhile (\<lambda>y. \<not> p y) (rev xs))"

lemma upto_after_last: "upto_last p xs @ after_last p xs = xs"
  by (simp add: upto_last_def after_last_def flip: rev_append)

lemma after_last_not: "y \<in> set (after_last p xs) \<Longrightarrow> \<not> p y"
  by (auto simp: after_last_def dest: set_takeWhileD)

lemma last_upto_last: "upto_last p xs \<noteq> [] \<Longrightarrow> p (last (upto_last p xs))"
proof -
  assume "upto_last p xs \<noteq> []"
  then have "dropWhile (\<lambda>y. \<not> p y) (rev xs) \<noteq> []" by (auto simp: upto_last_def)
  from hd_dropWhile[OF this] show ?thesis unfolding upto_last_def last_rev by blast
qed

lemma length_upto_last: "length (upto_last p xs) \<le> length xs"
  by (metis length_append le_add1 upto_after_last)

function std_partition :: "('a \<Rightarrow> bool) \<Rightarrow> 'a list \<Rightarrow> 'a list" where
  "std_partition p [] = []"
| "std_partition p (x # xs) =
     (if p x then x # std_partition p xs
      else if upto_last p xs = [] then x # xs
      else last (upto_last p xs) # std_partition p (butlast (upto_last p xs)) @ x # after_last p xs)"
  by pat_completeness auto
termination
proof (relation "measure (\<lambda>(p, xs). length xs)")
  fix p and x :: 'a and xs :: "'a list"
  show "((p, butlast (upto_last p xs)), p, x # xs) \<in> measure (\<lambda>(p, xs). length xs)"
    using length_upto_last[of p xs] by simp
qed simp_all

lemma std_partition_split:
  "\<exists>ys zs. std_partition p xs = ys @ zs \<and> (\<forall>y \<in> set ys. p y) \<and> (\<forall>z \<in> set zs. \<not> p z) \<and>
     mset ys = mset (filter p xs) \<and> mset zs = mset (filter (\<lambda>x. \<not> p x) xs)"
proof (induction p xs rule: std_partition.induct)
  case (1 p)
  then show ?case by simp
next
  case (2 p x xs)
  let ?K = "upto_last p xs" and ?T = "after_last p xs"
  have T: "filter p ?T = []" "filter (\<lambda>x. \<not> p x) ?T = ?T"
    using after_last_not[of _ p xs] by (simp_all add: filter_empty_conv filter_id_conv)
  consider "p x" | "\<not> p x" "?K = []" | "\<not> p x" "?K \<noteq> []" by blast
  then show ?case
  proof cases
    case 1
    then obtain ys zs where r: "std_partition p xs = ys @ zs" "\<forall>y \<in> set ys. p y" "\<forall>z \<in> set zs. \<not> p z"
      "mset ys = mset (filter p xs)" "mset zs = mset (filter (\<lambda>x. \<not> p x) xs)"
      using 2(1) by blast
    show ?thesis using 1 r by (intro exI[of _ "x # ys"] exI[of _ zs]) simp
  next
    case 2
    then have "?T = xs" using upto_after_last[of p xs] by simp
    then have "filter p xs = []" "filter (\<lambda>x. \<not> p x) xs = xs" "\<forall>y \<in> set xs. \<not> p y"
      using T after_last_not[of _ p xs] by simp_all
    then show ?thesis using 2 by (intro exI[of _ "[]"] exI[of _ "x # xs"]) simp
  next
    case 3
    obtain ys zs where r: "std_partition p (butlast ?K) = ys @ zs" "\<forall>y \<in> set ys. p y" "\<forall>z \<in> set zs. \<not> p z"
      "mset ys = mset (filter p (butlast ?K))" "mset zs = mset (filter (\<lambda>x. \<not> p x) (butlast ?K))"
      using 2(2)[OF 3] by blast
    define k where "k = last ?K"
    have pk: "p k" using last_upto_last[OF 3(2)] by (simp add: k_def)
    have e: "std_partition p (x # xs) = (k # ys) @ (zs @ x # ?T)"
      using 3 r(1) by (simp add: k_def)
    have K: "?K = butlast ?K @ [k]" using 3(2) by (simp add: k_def)
    have f: "filter q xs = filter q (butlast ?K) @ filter q [k] @ filter q ?T" for q
      using upto_after_last[of p xs] K by (metis append.assoc filter_append)
    have m: "mset (filter p (x # xs)) = mset (k # ys)"
      "mset (filter (\<lambda>x. \<not> p x) (x # xs)) = mset (zs @ x # ?T)"
      using 3(1) pk r(4,5) unfolding filter.simps f T by simp_all
    have s: "\<forall>y \<in> set (k # ys). p y" "\<forall>z \<in> set (zs @ x # ?T). \<not> p z"
      using pk r(2,3) 3(1) after_last_not[of _ p xs] by auto
    show ?thesis
      by (rule exI[of _ "k # ys"], rule exI[of _ "zs @ x # ?T"]) (intro conjI e s m[symmetric])
  qed
qed

section \<open>Comparing one object schema\<close>

definition property_changes :: "object_schema \<Rightarrow> object_schema \<Rightarrow> property \<Rightarrow> schema_change list" where
  "property_changes existing target current =
     (case property_for_name target (p_name current) of
        None \<Rightarrow> [Remove_Property existing current]
      | Some t \<Rightarrow>
        if property_is_computed target t then [Remove_Property existing current]
        else if \<not> type_eq (p_type current) (p_type t) \<or> p_object_type current \<noteq> p_object_type t \<or>
          is_array (p_type current) \<noteq> is_array (p_type t)
        then [Change_Property_Type existing current t]
        else
          (if is_nullable (p_type current) \<noteq> is_nullable (p_type t) then
             (if is_nullable (p_type current) then [Make_Required existing current]
              else [Make_Nullable existing current]) else []) @
          (if requires_index t then
             (if \<not> p_is_indexed current then [Add_Index existing current] else [])
           else if requires_index current then [Remove_Index existing current] else []))"

definition object_changes :: "object_schema \<Rightarrow> object_schema \<Rightarrow> schema_change list" where
  "object_changes existing target =
     concat (map (property_changes existing target) (os_persisted existing)) @
     (if os_primary_key existing \<noteq> os_primary_key target
      then [Change_Primary_Key existing (primary_key_property target)] else []) @
     map (Add_Property existing)
       (filter (\<lambda>t. property_for_name existing (p_name t) = None) (os_persisted target))"

text \<open>The changes collected so far take part in the partition and in the sort.\<close>

definition removals_last :: "schema_change list \<Rightarrow> schema_change list" where
  "removals_last changes =
     (let ys = std_partition is_not_remove changes; k = length (filter is_not_remove changes)
      in take k ys @ sort_key (\<lambda>c. - int (removed_column c)) (drop k ys))"

definition compare_objects :: "object_schema \<Rightarrow> object_schema \<Rightarrow> schema_change list \<Rightarrow> schema_change list" where
  "compare_objects existing target changes = removals_last (changes @ object_changes existing target)"

section \<open>Comparing schemas\<close>

text \<open>The sequence of calls \<open>zip_matching\<close> makes.\<close>

fun zip_matching :: "schema \<Rightarrow> schema \<Rightarrow> (object_schema option \<times> object_schema option) list" where
  "zip_matching (a # as) (b # bs) =
     (if os_name a = os_name b then (Some a, Some b) # zip_matching as bs
      else if os_name a < os_name b then (Some a, None) # zip_matching as (b # bs)
      else (None, Some b) # zip_matching (a # as) bs)"
| "zip_matching as [] = map (\<lambda>a. (Some a, None)) as"
| "zip_matching [] bs = map (\<lambda>b. (None, Some b)) bs"

definition table_changes :: "bool \<Rightarrow> object_schema option \<times> object_schema option \<Rightarrow> schema_change list" where
  "table_changes removals pair =
     (case pair of (Some target, None) \<Rightarrow> [Add_Table target]
      | (None, Some existing) \<Rightarrow> if removals then [Remove_Table existing] else []
      | _ \<Rightarrow> [])"

definition column_changes :: "object_schema option \<times> object_schema option \<Rightarrow> schema_change list \<Rightarrow>
    schema_change list" where
  "column_changes pair changes =
     (case pair of (Some target, Some existing) \<Rightarrow> compare_objects existing target changes
      | (Some target, None) \<Rightarrow> changes @ [Add_Initial_Properties target]
      | _ \<Rightarrow> changes)"

definition schema_compare :: "schema \<Rightarrow> schema \<Rightarrow> bool \<Rightarrow> schema_change list" where
  "schema_compare existing target include_removals =
     fold column_changes (zip_matching target existing)
       (concat (map (table_changes include_removals) (zip_matching target existing)))"

definition copy_columns :: "object_schema \<Rightarrow> object_schema \<Rightarrow> object_schema" where
  "copy_columns existing other =
     foldl (\<lambda>os current. case property_for_name os (p_name current) of
         Some t \<Rightarrow> update_property os (p_name current) (\<lambda>p. p\<lparr>p_column := p_column current\<rparr>)
       | None \<Rightarrow> os) existing (os_persisted other)"

definition copy_table_columns_from :: "schema \<Rightarrow> schema \<Rightarrow> schema" where
  "copy_table_columns_from s other =
     concat (map (\<lambda>pair. case pair of (Some existing, Some other) \<Rightarrow> [copy_columns existing other]
       | (Some existing, None) \<Rightarrow> [existing] | (None, _) \<Rightarrow> []) (zip_matching s other))"

section \<open>Removals come last\<close>

lemma mset_removals_last: "mset (removals_last cs) = mset cs"
proof -
  obtain ys zs where p: "std_partition is_not_remove cs = ys @ zs"
    "mset ys = mset (filter is_not_remove cs)" "mset zs = mset (filter (\<lambda>x. \<not> is_not_remove x) cs)"
    using std_partition_split[of is_not_remove cs] by blast
  have "length ys = length (filter is_not_remove cs)" using p(2) by (metis size_mset)
  then have "mset (removals_last cs) = mset ys + mset zs" using p(1) by (simp add: removals_last_def)
  also have "\<dots> = mset cs" unfolding p(2,3) mset_filter by (rule multiset_partition[symmetric])
  finally show ?thesis .
qed

lemma removals_last_shape:
  "\<exists>A R. removals_last cs = A @ R \<and> (\<forall>c \<in> set A. is_not_remove c) \<and> (\<forall>c \<in> set R. \<not> is_not_remove c) \<and>
     sorted_wrt (\<lambda>a b. removed_column b \<le> removed_column a) R"
proof -
  obtain ys zs where p: "std_partition is_not_remove cs = ys @ zs"
    "\<forall>y \<in> set ys. is_not_remove y" "\<forall>z \<in> set zs. \<not> is_not_remove z"
    "mset ys = mset (filter is_not_remove cs)"
    using std_partition_split[of is_not_remove cs] by blast
  have l: "length ys = length (filter is_not_remove cs)" using p(4) by (metis size_mset)
  let ?R = "sort_key (\<lambda>c. - int (removed_column c)) zs"
  have "sorted (map (\<lambda>c. - int (removed_column c)) ?R)" by simp
  then have "sorted_wrt (\<lambda>a b. removed_column b \<le> removed_column a) ?R"
    by (simp add: sorted_wrt_map)
  then show ?thesis
    using p l by (intro exI[of _ ys] exI[of _ ?R]) (simp add: removals_last_def)
qed

text \<open>Objects that are new come after the removals; nothing else does.\<close>

definition removals_late :: "schema_change list \<Rightarrow> bool" where
  "removals_late cs \<longleftrightarrow> (\<exists>A R N. cs = A @ R @ N \<and> (\<forall>c \<in> set A. is_not_remove c) \<and>
     (\<forall>c \<in> set R. \<not> is_not_remove c) \<and> sorted_wrt (\<lambda>a b. removed_column b \<le> removed_column a) R \<and>
     (\<forall>c \<in> set N. \<exists>os. c = Add_Initial_Properties os))"

lemma removals_late_removals_last: "removals_late (removals_last cs)"
proof -
  obtain A R where "removals_last cs = A @ R" "\<forall>c \<in> set A. is_not_remove c" "\<forall>c \<in> set R. \<not> is_not_remove c"
    "sorted_wrt (\<lambda>a b. removed_column b \<le> removed_column a) R" using removals_last_shape by blast
  then show ?thesis
    unfolding removals_late_def by (intro exI[of _ A] exI[of _ R] exI[of _ "[]"]) simp
qed

lemma removals_late_initial: "removals_late cs \<Longrightarrow> removals_late (cs @ [Add_Initial_Properties os])"
proof -
  assume "removals_late cs"
  then obtain A R N where s: "cs = A @ R @ N" "\<forall>c \<in> set A. is_not_remove c"
    "\<forall>c \<in> set R. \<not> is_not_remove c" "sorted_wrt (\<lambda>a b. removed_column b \<le> removed_column a) R"
    "\<forall>c \<in> set N. \<exists>os. c = Add_Initial_Properties os" unfolding removals_late_def by blast
  show ?thesis
    unfolding removals_late_def
    by (rule exI[of _ A], rule exI[of _ R], rule exI[of _ "N @ [Add_Initial_Properties os]"])
      (use s in simp)
qed

lemma column_changes_simps [simp]:
  "column_changes (Some t, Some e) cs = compare_objects e t cs"
  "column_changes (Some t, None) cs = cs @ [Add_Initial_Properties t]"
  "column_changes (None, x) cs = cs"
  by (simp_all add: column_changes_def split: option.splits)

lemma removals_late_column:
  assumes "removals_late cs"
  shows "removals_late (column_changes p cs)"
proof -
  consider t e where "p = (Some t, Some e)" | t where "p = (Some t, None)" | x where "p = (None, x)"
    by (metis option.exhaust surj_pair)
  then show ?thesis
    by cases (simp_all add: assms compare_objects_def removals_late_removals_last removals_late_initial)
qed

lemma table_changes_simps [simp]:
  "table_changes inc (Some t, Some e) = []"
  "table_changes inc (Some t, None) = [Add_Table t]"
  "table_changes inc (None, Some e) = (if inc then [Remove_Table e] else [])"
  "table_changes inc (None, None) = []"
  by (simp_all add: table_changes_def)

lemma table_changes_keep: "c \<in> set (table_changes inc p) \<Longrightarrow> is_not_remove c"
proof -
  assume c: "c \<in> set (table_changes inc p)"
  consider t e where "p = (Some t, Some e)" | t where "p = (Some t, None)" | e where "p = (None, Some e)"
    | "p = (None, None)" by (metis option.exhaust surj_pair)
  then show ?thesis using c by cases (auto split: if_splits)
qed

lemma compare_removals_late: "removals_late (schema_compare e t inc)"
proof -
  let ?cs = "concat (map (table_changes inc) (zip_matching t e))"
  have "\<forall>c \<in> set ?cs. is_not_remove c" using table_changes_keep by fastforce
  then have start: "removals_late ?cs"
    unfolding removals_late_def by (intro exI[of _ ?cs] exI[of _ "[]"]) simp
  have "removals_late cs \<Longrightarrow> removals_late (fold column_changes ps cs)" for ps cs
    by (induction ps arbitrary: cs) (simp_all add: removals_late_column)
  then show ?thesis using start by (simp add: schema_compare_def)
qed

end
