(* ===== verification/Schema_Policies.thy ===== *)
theory Schema_Policies
  imports Schema_Compare
begin

text \<open>
  The schema modes of \<open>object_store.cpp\<close>: which changes each mode accepts, with the messages for
  those it refuses.
\<close>

section \<open>Explaining differences\<close>

datatype schema_error =
    Class_Added string
  | Class_Removed string
  | Property_Added string string
  | Property_Removed string string
  | Type_Changed string string string string
  | Made_Optional string string
  | Made_Required string string
  | Primary_Changed string string string
  | Primary_Added string
  | Primary_Removed string
  | Made_Indexed string string
  | Made_Unindexed string string

fun explain :: "schema_change \<Rightarrow> schema_error list" where
  "explain (Add_Table os) = [Class_Added (os_name os)]"
| "explain (Remove_Table os) = []"
| "explain (Add_Initial_Properties os) = []"
| "explain (Add_Property os p) = [Property_Added (os_name os) (p_name p)]"
| "explain (Remove_Property os p) = [Property_Removed (os_name os) (p_name p)]"
| "explain (Change_Property_Type os p q) = [Type_Changed (os_name os) (p_name q) (type_string p) (type_string q)]"
| "explain (Make_Nullable os p) = [Made_Optional (os_name os) (p_name p)]"
| "explain (Make_Required os p) = [Made_Required (os_name os) (p_name p)]"
| "explain (Change_Primary_Key os pk) =
     (case pk of
        Some p \<Rightarrow> if os_primary_key os \<noteq> [] then [Primary_Changed (os_name os) (os_primary_key os) (p_name p)]
          else [Primary_Added (os_name os)]
      | None \<Rightarrow> [Primary_Removed (os_name os)])"
| "explain (Add_Index os p) = [Made_Indexed (os_name os) (p_name p)]"
| "explain (Remove_Index os p) = [Made_Unindexed (os_name os) (p_name p)]"

definition verify_no_errors :: "(schema_change \<Rightarrow> schema_error list) \<Rightarrow> schema_change list \<Rightarrow>
    schema_error list + unit" where
  "verify_no_errors verifier changes =
     (let es = concat (map verifier changes) in if es \<noteq> [] then Inl es else Inr ())"

lemma verify_no_errors_iff:
  "verify_no_errors v cs = Inr () \<longleftrightarrow> (\<forall>c \<in> set cs. v c = [])"
  by (simp add: verify_no_errors_def Let_def)

lemma verify_no_errors_error:
  "verify_no_errors v cs = Inl es \<longleftrightarrow> es = concat (map v cs) \<and> es \<noteq> []"
  by (auto simp: verify_no_errors_def Let_def)

section \<open>The modes\<close>

fun change_needs_migration :: "schema_change \<Rightarrow> bool" where
  "change_needs_migration (Add_Index os p) = False"
| "change_needs_migration (Add_Initial_Properties os) = False"
| "change_needs_migration (Add_Property os p) = True"
| "change_needs_migration (Add_Table os) = False"
| "change_needs_migration (Remove_Table os) = False"
| "change_needs_migration (Change_Primary_Key os p) = True"
| "change_needs_migration (Change_Property_Type os p q) = True"
| "change_needs_migration (Make_Nullable os p) = True"
| "change_needs_migration (Make_Required os p) = True"
| "change_needs_migration (Remove_Index os p) = False"
| "change_needs_migration (Remove_Property os p) = True"

definition needs_migration :: "schema_change list \<Rightarrow> bool" where
  "needs_migration changes = list_ex change_needs_migration changes"

definition verify_no_changes_required :: "schema_change list \<Rightarrow> schema_error list + unit" where
  "verify_no_changes_required changes = verify_no_errors explain changes"

fun explain_migration :: "schema_change \<Rightarrow> schema_error list" where
  "explain_migration (Add_Table os) = []"
| "explain_migration (Add_Initial_Properties os) = []"
| "explain_migration (Add_Index os p) = []"
| "explain_migration (Remove_Index os p) = []"
| "explain_migration c = explain c"

definition verify_no_migration_required :: "schema_change list \<Rightarrow> schema_error list + unit" where
  "verify_no_migration_required changes = verify_no_errors explain_migration changes"

fun explain_additive :: "schema_change \<Rightarrow> schema_error list" where
  "explain_additive (Add_Table os) = []"
| "explain_additive (Add_Initial_Properties os) = []"
| "explain_additive (Add_Property os p) = []"
| "explain_additive (Remove_Property os p) = []"
| "explain_additive (Add_Index os p) = []"
| "explain_additive (Remove_Index os p) = []"
| "explain_additive c = explain c"

fun is_index_change :: "schema_change \<Rightarrow> bool" where
  "is_index_change (Add_Index os p) = True"
| "is_index_change (Remove_Index os p) = True"
| "is_index_change c = False"

fun is_addition :: "schema_change \<Rightarrow> bool" where
  "is_addition (Add_Table os) = True"
| "is_addition (Add_Initial_Properties os) = True"
| "is_addition (Add_Property os p) = True"
| "is_addition c = False"

definition verify_valid_additive_changes :: "schema_change list \<Rightarrow> bool \<Rightarrow> schema_error list + bool" where
  "verify_valid_additive_changes changes update_indexes =
     (case verify_no_errors explain_additive changes of
        Inl es \<Rightarrow> Inl es
      | Inr u \<Rightarrow> Inr (list_ex is_addition changes \<or> list_ex is_index_change changes \<and> update_indexes))"

fun explain_external :: "schema_change \<Rightarrow> schema_error list" where
  "explain_external (Add_Table os) = []"
| "explain_external (Add_Initial_Properties os) = []"
| "explain_external (Add_Property os p) = []"
| "explain_external (Add_Index os p) = []"
| "explain_external (Remove_Index os p) = []"
| "explain_external (Remove_Table os) = [Class_Removed (os_name os)]"
| "explain_external c = explain c"

definition verify_valid_external_changes :: "schema_change list \<Rightarrow> schema_error list + unit" where
  "verify_valid_external_changes changes = verify_no_errors explain_external changes"

fun explain_readonly :: "schema_change \<Rightarrow> schema_error list" where
  "explain_readonly (Add_Table os) = []"
| "explain_readonly (Add_Initial_Properties os) = []"
| "explain_readonly (Remove_Property os p) = []"
| "explain_readonly (Add_Index os p) = []"
| "explain_readonly (Remove_Index os p) = []"
| "explain_readonly c = explain c"

definition verify_compatible_for_readonly :: "schema_change list \<Rightarrow> schema_error list + unit" where
  "verify_compatible_for_readonly changes = verify_no_errors explain_readonly changes"

section \<open>How the modes relate\<close>

text \<open>A change of the type, of the nullability or of the primary key of existing data.\<close>

fun rewrites_data :: "schema_change \<Rightarrow> bool" where
  "rewrites_data (Change_Property_Type os p q) = True"
| "rewrites_data (Make_Nullable os p) = True"
| "rewrites_data (Make_Required os p) = True"
| "rewrites_data (Change_Primary_Key os p) = True"
| "rewrites_data c = False"

fun changes_nothing :: "schema_change \<Rightarrow> bool" where
  "changes_nothing (Remove_Table os) = True"
| "changes_nothing (Add_Initial_Properties os) = True"
| "changes_nothing c = False"

fun is_property_addition :: "schema_change \<Rightarrow> bool" where
  "is_property_addition (Add_Property os p) = True"
| "is_property_addition c = False"

fun is_table_removal :: "schema_change \<Rightarrow> bool" where
  "is_table_removal (Remove_Table os) = True"
| "is_table_removal c = False"

lemma explain_Nil_iff: "explain c = [] \<longleftrightarrow> changes_nothing c"
  by (cases c) (simp_all split: option.splits)

lemma explain_migration_Nil_iff: "explain_migration c = [] \<longleftrightarrow> \<not> change_needs_migration c"
  by (cases c) (simp_all split: option.splits)

lemma explain_additive_Nil_iff: "explain_additive c = [] \<longleftrightarrow> \<not> rewrites_data c"
  by (cases c) (simp_all split: option.splits)

lemma explain_readonly_Nil_iff: "explain_readonly c = [] \<longleftrightarrow> \<not> rewrites_data c \<and> \<not> is_property_addition c"
  by (cases c) (simp_all split: option.splits)

lemma explain_external_Nil_iff:
  "explain_external c = [] \<longleftrightarrow> \<not> rewrites_data c \<and> is_not_remove c \<and> \<not> is_table_removal c"
  by (cases c) (simp_all split: option.splits)

lemma verify_migration_iff: "verify_no_migration_required cs = Inr () \<longleftrightarrow> \<not> needs_migration cs"
  by (simp add: verify_no_migration_required_def verify_no_errors_iff explain_migration_Nil_iff
      needs_migration_def list_ex_iff)

lemma verify_additive_cases:
  "(\<exists>b. verify_valid_additive_changes cs upd = Inr b) \<longleftrightarrow> (\<forall>c \<in> set cs. \<not> rewrites_data c)"
  "verify_valid_additive_changes cs upd = Inr b \<Longrightarrow>
     b = (\<exists>c \<in> set cs. is_addition c \<or> upd \<and> is_index_change c)"
proof -
  show "(\<exists>b. verify_valid_additive_changes cs upd = Inr b) \<longleftrightarrow> (\<forall>c \<in> set cs. \<not> rewrites_data c)"
    using verify_no_errors_iff[of explain_additive cs]
    by (cases "verify_no_errors explain_additive cs")
      (auto simp: verify_valid_additive_changes_def explain_additive_Nil_iff)
  show "verify_valid_additive_changes cs upd = Inr b \<Longrightarrow>
     b = (\<exists>c \<in> set cs. is_addition c \<or> upd \<and> is_index_change c)"
    by (cases "verify_no_errors explain_additive cs")
      (auto simp: verify_valid_additive_changes_def list_ex_iff)
qed

lemma verify_readonly_iff:
  "verify_compatible_for_readonly cs = Inr () \<longleftrightarrow> (\<forall>c \<in> set cs. \<not> rewrites_data c \<and> \<not> is_property_addition c)"
  by (simp add: verify_compatible_for_readonly_def verify_no_errors_iff explain_readonly_Nil_iff)

lemma verify_external_iff:
  "verify_valid_external_changes cs = Inr () \<longleftrightarrow>
     (\<forall>c \<in> set cs. \<not> rewrites_data c \<and> is_not_remove c \<and> \<not> is_table_removal c)"
  by (simp add: verify_valid_external_changes_def verify_no_errors_iff explain_external_Nil_iff)

lemma verify_nothing_iff: "verify_no_changes_required cs = Inr () \<longleftrightarrow> (\<forall>c \<in> set cs. changes_nothing c)"
  by (simp add: verify_no_changes_required_def verify_no_errors_iff explain_Nil_iff)

section \<open>The decision of the Realm\<close>

datatype schema_mode = Automatic | Immutable | Read_Only_Alternative | Reset_File | Additive | Manual

datatype update_error =
    Invalid_Schema_Version size size
  | Schema_Mismatch "schema_error list"
  | Invalid_Schema_Change "schema_error list"
  | Reached_Unreachable

datatype write_decision = No_Write | Write | Reset_Then_Write

definition not_versioned :: size where
  "not_versioned = npos"

text \<open>
  \<open>schema_change_needs_write_transaction\<close>; \<open>current\<close> is the version in the file.  Resetting the
  file, which recomputes the changes, is the caller's part of \<open>Reset_Then_Write\<close>.
\<close>

definition needs_write_transaction :: "schema_mode \<Rightarrow> size \<Rightarrow> schema_change list \<Rightarrow> size \<Rightarrow>
    update_error + write_decision" where
  "needs_write_transaction mode current changes version =
     (if version = current \<and> changes = [] then Inr No_Write
      else case mode of
        Automatic \<Rightarrow>
          if version < current \<and> current \<noteq> not_versioned then Inl (Invalid_Schema_Version current version)
          else Inr Write
      | Immutable \<Rightarrow>
          if version \<noteq> current then Inl (Invalid_Schema_Version current version)
          else (case verify_compatible_for_readonly changes of
            Inl es \<Rightarrow> Inl (Invalid_Schema_Change es) | Inr u \<Rightarrow> Inr No_Write)
      | Read_Only_Alternative \<Rightarrow>
          (case verify_compatible_for_readonly changes of
            Inl es \<Rightarrow> Inl (Invalid_Schema_Change es) | Inr u \<Rightarrow> Inr No_Write)
      | Reset_File \<Rightarrow>
          if current = not_versioned then Inr Write
          else if current = version \<and> \<not> needs_migration changes then Inr Write
          else Inr Reset_Then_Write
      | Additive \<Rightarrow>
          (case verify_valid_additive_changes changes (version > current) of
            Inl es \<Rightarrow> Inl (Invalid_Schema_Change es)
          | Inr applies \<Rightarrow> if applies then Inr Write
              else if version \<noteq> current then Inr Write else Inr No_Write)
      | Manual \<Rightarrow>
          if version < current \<and> current \<noteq> not_versioned then Inl (Invalid_Schema_Version current version)
          else if version = current then
            (case verify_no_changes_required changes of
              Inl es \<Rightarrow> Inl (Schema_Mismatch es) | Inr u \<Rightarrow> Inl Reached_Unreachable)
          else Inr Write)"

text \<open>\<open>set_schema_subset\<close>: the check of a schema against the one already in use.\<close>

definition verify_schema_subset :: "schema_mode \<Rightarrow> schema \<Rightarrow> schema \<Rightarrow> update_error + unit" where
  "verify_schema_subset mode existing target =
     (let changes = schema_compare existing target False in
      case mode of
        Automatic \<Rightarrow> (case verify_no_migration_required changes of Inl es \<Rightarrow> Inl (Schema_Mismatch es) | Inr u \<Rightarrow> Inr ())
      | Reset_File \<Rightarrow> (case verify_no_migration_required changes of Inl es \<Rightarrow> Inl (Schema_Mismatch es) | Inr u \<Rightarrow> Inr ())
      | Immutable \<Rightarrow> (case verify_compatible_for_readonly changes of Inl es \<Rightarrow> Inl (Invalid_Schema_Change es) | Inr u \<Rightarrow> Inr ())
      | Read_Only_Alternative \<Rightarrow>
          (case verify_compatible_for_readonly changes of Inl es \<Rightarrow> Inl (Invalid_Schema_Change es) | Inr u \<Rightarrow> Inr ())
      | Additive \<Rightarrow>
          (case verify_valid_additive_changes changes False of Inl es \<Rightarrow> Inl (Invalid_Schema_Change es) | Inr u \<Rightarrow> Inr ())
      | Manual \<Rightarrow> (case verify_no_changes_required changes of Inl es \<Rightarrow> Inl (Schema_Mismatch es) | Inr u \<Rightarrow> Inr ()))"

lemma readonly_case:
  "(case verify_compatible_for_readonly cs of Inl es \<Rightarrow> Inl (E es) | Inr u \<Rightarrow> Inr d) = Inr d' \<longleftrightarrow>
     d = d' \<and> (\<forall>c \<in> set cs. \<not> rewrites_data c \<and> \<not> is_property_addition c)"
  using verify_readonly_iff[of cs] by (auto split: sum.splits)

lemma no_write_cases:
  assumes "needs_write_transaction mode current changes version = Inr No_Write"
  shows "(version = current \<and> changes = []) \<or>
    (mode = Immutable \<or> mode = Read_Only_Alternative) \<and>
      (\<forall>c \<in> set changes. \<not> rewrites_data c \<and> \<not> is_property_addition c) \<or>
    mode = Additive \<and> version = current \<and> (\<forall>c \<in> set changes. \<not> rewrites_data c \<and> \<not> is_addition c)"
proof (cases "version = current \<and> changes = []")
  case ne: False
  show ?thesis
  proof (cases mode)
    case Additive
    have upd: "(case verify_valid_additive_changes changes (version > current) of
          Inl es \<Rightarrow> Inl (Invalid_Schema_Change es)
        | Inr applies \<Rightarrow> if applies then Inr Write else if version \<noteq> current then Inr Write else Inr No_Write) =
        Inr No_Write"
      using assms ne Additive by (simp add: needs_write_transaction_def)
    then obtain b where b: "verify_valid_additive_changes changes (version > current) = Inr b"
      by (cases "verify_valid_additive_changes changes (version > current)") auto
    then have "\<not> b" "version = current" using upd by (auto split: if_splits)
    then show ?thesis
      using Additive verify_additive_cases(1)[of changes "version > current"] verify_additive_cases(2)[OF b] b by blast
  next
    case Immutable
    then have "version = current" "(case verify_compatible_for_readonly changes of
        Inl es \<Rightarrow> Inl (Invalid_Schema_Change es) | Inr u \<Rightarrow> Inr No_Write) = Inr No_Write"
      using assms ne by (auto simp: needs_write_transaction_def split: if_splits)
    then show ?thesis unfolding readonly_case using Immutable by blast
  next
    case Read_Only_Alternative
    then have "(case verify_compatible_for_readonly changes of
        Inl es \<Rightarrow> Inl (Invalid_Schema_Change es) | Inr u \<Rightarrow> Inr No_Write) = Inr No_Write"
      using assms ne by (auto simp: needs_write_transaction_def split: if_splits)
    then show ?thesis unfolding readonly_case using Read_Only_Alternative by blast
  next
    case Manual
    then show ?thesis
      using assms ne by (cases "verify_no_changes_required changes") (auto simp: needs_write_transaction_def split: if_splits)
  qed (use assms ne in \<open>auto simp: needs_write_transaction_def split: if_splits\<close>)
qed simp

end
