(* ===== verification/Object_Store.thy ===== *)
theory Object_Store
  imports Schema_Policies
begin

text \<open>
  \<open>object_store.cpp\<close>: reading the schema from the tables of a group, and applying schema changes
  to them.  The storage engine is a library outside the repository: its operations are the
  parameter \<open>C\<close> of the definitions, a record of functions over an abstract group.
\<close>

section \<open>The storage engine\<close>

datatype core_type = Core_Int | Core_Bool | Core_Float | Core_Double | Core_String | Core_Binary |
  Core_Timestamp | Core_Mixed | Core_Link | Core_Link_List | Core_Table

text \<open>What the queries about a column answer: the link target is a table name, the last field the
  columns of the subdescriptor of a table column.\<close>

datatype core_column =
  Core_Column (cc_name: string) (cc_type: core_type) (cc_nullable: bool) (cc_indexed: bool)
    (cc_target: string) (cc_sub: "core_column list")

record ('g, 'v) core_ops =
  c_columns :: "'g \<Rightarrow> string \<Rightarrow> core_column list option"
  c_tables :: "'g \<Rightarrow> string list"
  c_rows :: "'g \<Rightarrow> string \<Rightarrow> nat"
  c_value :: "'g \<Rightarrow> string \<Rightarrow> nat \<Rightarrow> nat \<Rightarrow> 'v"
  c_int :: "'g \<Rightarrow> string \<Rightarrow> nat \<Rightarrow> nat \<Rightarrow> size"
  c_distinct :: "'g \<Rightarrow> string \<Rightarrow> nat \<Rightarrow> nat"
  c_primary_keys :: "'g \<Rightarrow> (string \<times> string) list option"
  c_role_exists :: "'g \<Rightarrow> string \<Rightarrow> bool"
  c_add_table :: "string \<Rightarrow> 'g \<Rightarrow> 'g"
  c_create_table :: "string \<Rightarrow> 'g \<Rightarrow> 'g"
  c_create_keyed_table :: "string \<Rightarrow> core_type \<Rightarrow> string \<Rightarrow> bool \<Rightarrow> 'g \<Rightarrow> 'g"
  c_remove_table :: "string \<Rightarrow> 'g \<Rightarrow> 'g"
  c_insert_column :: "string \<Rightarrow> nat \<Rightarrow> core_column \<Rightarrow> 'g \<Rightarrow> 'g"
  c_remove_column :: "string \<Rightarrow> nat \<Rightarrow> 'g \<Rightarrow> 'g"
  c_rename_column :: "string \<Rightarrow> nat \<Rightarrow> string \<Rightarrow> 'g \<Rightarrow> 'g"
  c_add_index :: "string \<Rightarrow> nat \<Rightarrow> 'g \<Rightarrow> 'g"
  c_remove_index :: "string \<Rightarrow> nat \<Rightarrow> 'g \<Rightarrow> 'g"
  c_add_row :: "string \<Rightarrow> 'g \<Rightarrow> 'g"
  c_set_value :: "string \<Rightarrow> nat \<Rightarrow> nat \<Rightarrow> 'v \<Rightarrow> 'g \<Rightarrow> 'g"
  c_set_int :: "string \<Rightarrow> nat \<Rightarrow> nat \<Rightarrow> size \<Rightarrow> 'g \<Rightarrow> 'g"
  c_add_primary_key :: "string \<Rightarrow> string \<Rightarrow> 'g \<Rightarrow> 'g"
  c_set_primary_key :: "nat \<Rightarrow> string \<Rightarrow> 'g \<Rightarrow> 'g"
  c_drop_primary_key :: "nat \<Rightarrow> 'g \<Rightarrow> 'g"
  c_has_object_ids :: "'g \<Rightarrow> bool"
  c_set_up_permissions :: "'g \<Rightarrow> 'g"
  c_add_user_to_role :: "string \<Rightarrow> string \<Rightarrow> 'g \<Rightarrow> 'g"
  c_link_private_role :: "string \<Rightarrow> string \<Rightarrow> 'g \<Rightarrow> 'g"
  c_allow_class :: "string \<Rightarrow> 'g \<Rightarrow> 'g"
  c_object_id_column :: string

section \<open>Names\<close>

definition class_prefix :: string where
  "class_prefix = ''class_''"

definition table_name_for_object_type :: "string \<Rightarrow> string" where
  "table_name_for_object_type t = class_prefix @ t"

definition object_type_for_table_name :: "string \<Rightarrow> string" where
  "object_type_for_table_name t = (if take (length class_prefix) t = class_prefix then drop (length class_prefix) t else [])"

definition array_column_name :: string where
  "array_column_name = ''!ARRAY_VALUE''"

lemma object_type_round_trip [simp]: "object_type_for_table_name (table_name_for_object_type t) = t"
  by (simp add: object_type_for_table_name_def table_name_for_object_type_def)

lemma table_name_inject [simp]: "table_name_for_object_type s = table_name_for_object_type t \<longleftrightarrow> s = t"
  by (simp add: table_name_for_object_type_def)

section \<open>Metadata\<close>

definition column_count :: "('g, 'v) core_ops \<Rightarrow> 'g \<Rightarrow> string \<Rightarrow> nat" where
  "column_count C g t = (case c_columns C g t of Some cs \<Rightarrow> length cs | None \<Rightarrow> 0)"

definition create_metadata_tables :: "('g, 'v) core_ops \<Rightarrow> 'g \<Rightarrow> 'g" where
  "create_metadata_tables C g =
     (let g = c_add_table C ''pk'' g;
          g = c_add_table C ''metadata'' g;
          g = (if column_count C g ''metadata'' = 0 then
              c_set_int C ''metadata'' 0 0 not_versioned (c_add_row C ''metadata''
                (c_insert_column C ''metadata'' 0 (Core_Column ''version'' Core_Int False False [] []) g))
            else g);
          g = (if column_count C g ''pk'' = 0 then
              c_insert_column C ''pk'' 1 (Core_Column ''pk_property'' Core_String False False [] [])
                (c_insert_column C ''pk'' 0 (Core_Column ''pk_table'' Core_String False False [] []) g)
            else g)
      in c_add_index C ''pk'' 0 g)"

definition store_schema_version :: "('g, 'v) core_ops \<Rightarrow> size \<Rightarrow> 'g \<Rightarrow> 'g" where
  "store_schema_version C version g = c_set_int C ''metadata'' 0 0 version g"

definition set_schema_version :: "('g, 'v) core_ops \<Rightarrow> size \<Rightarrow> 'g \<Rightarrow> 'g" where
  "set_schema_version C version g = store_schema_version C version (create_metadata_tables C g)"

definition get_schema_version :: "('g, 'v) core_ops \<Rightarrow> 'g \<Rightarrow> size" where
  "get_schema_version C g =
     (if column_count C g ''metadata'' = 0 then not_versioned else c_int C g ''metadata'' 0 0)"

definition primary_key_row :: "(string \<times> string) list \<Rightarrow> string \<Rightarrow> nat option" where
  "primary_key_row rows t =
     (let k = length (takeWhile (\<lambda>r. fst r \<noteq> t) rows) in if k < length rows then Some k else None)"

definition get_primary_key_for_object :: "('g, 'v) core_ops \<Rightarrow> 'g \<Rightarrow> string \<Rightarrow> string" where
  "get_primary_key_for_object C g t =
     (case c_primary_keys C g of None \<Rightarrow> []
      | Some rows \<Rightarrow> (case primary_key_row rows t of Some k \<Rightarrow> snd (rows ! k) | None \<Rightarrow> []))"

definition set_primary_key_for_object :: "('g, 'v) core_ops \<Rightarrow> string \<Rightarrow> string \<Rightarrow> 'g \<Rightarrow> 'g" where
  "set_primary_key_for_object C t pk g =
     (let rows = (case c_primary_keys C g of Some rows \<Rightarrow> rows | None \<Rightarrow> []); row = primary_key_row rows t in
      if c_has_object_ids C g then g
      else if row = None \<and> pk \<noteq> [] then c_add_primary_key C t pk g
      else if pk = [] then (case row of Some k \<Rightarrow> c_drop_primary_key C k g | None \<Rightarrow> g)
      else (case row of Some k \<Rightarrow> c_set_primary_key C k pk g | None \<Rightarrow> g))"

section \<open>Columns of properties\<close>

text \<open>Links and mixed columns are handled before this is called.\<close>

definition to_core_type :: "prop_type \<Rightarrow> core_type" where
  "to_core_type t =
     (let b = base_type t in
      if b = PT_Int then Core_Int else if b = PT_Bool then Core_Bool else if b = PT_Float then Core_Float
      else if b = PT_Double then Core_Double else if b = PT_String then Core_String
      else if b = PT_Date then Core_Timestamp else Core_Binary)"

fun from_core_type :: "core_column \<Rightarrow> prop_type" where
  "from_core_type (Core_Column n t nullable idx target sub) =
     (let opt = (if nullable then PT_Nullable else PT_Required) in
      case t of
        Core_Int \<Rightarrow> PT_Int OR opt
      | Core_Float \<Rightarrow> PT_Float OR opt
      | Core_Double \<Rightarrow> PT_Double OR opt
      | Core_Bool \<Rightarrow> PT_Bool OR opt
      | Core_String \<Rightarrow> PT_String OR opt
      | Core_Binary \<Rightarrow> PT_Data OR opt
      | Core_Timestamp \<Rightarrow> PT_Date OR opt
      | Core_Mixed \<Rightarrow> PT_Any OR opt
      | Core_Link \<Rightarrow> PT_Object OR PT_Nullable
      | Core_Link_List \<Rightarrow> PT_Object OR PT_Array
      | Core_Table \<Rightarrow> (case sub of c # cs \<Rightarrow> from_core_type c OR PT_Array | [] \<Rightarrow> PT_Array))"

definition insert_column :: "('g, 'v) core_ops \<Rightarrow> string \<Rightarrow> property \<Rightarrow> nat \<Rightarrow> 'g \<Rightarrow> 'g" where
  "insert_column C t p col g =
     (if type_eq (p_type p) PT_Object then
        c_insert_column C t col (Core_Column (p_name p) (if is_array (p_type p) then Core_Link_List else Core_Link)
          False False (table_name_for_object_type (p_object_type p)) []) g
      else if is_array (p_type p) then
        c_insert_column C t col (Core_Column (p_name p) Core_Table False False []
          [Core_Column array_column_name (to_core_type (base_type (p_type p))) (is_nullable (p_type p)) False [] []]) g
      else
        let g = c_insert_column C t col
              (Core_Column (p_name p) (to_core_type (p_type p)) (is_nullable (p_type p)) False [] []) g
        in if requires_index p then c_add_index C t col g else g)"

definition add_column :: "('g, 'v) core_ops \<Rightarrow> string \<Rightarrow> property \<Rightarrow> 'g \<Rightarrow> 'g" where
  "add_column C t p g = insert_column C t p (column_count C g t) g"

definition replace_column :: "('g, 'v) core_ops \<Rightarrow> string \<Rightarrow> property \<Rightarrow> property \<Rightarrow> 'g \<Rightarrow> 'g" where
  "replace_column C t old new g =
     c_remove_column C t (p_column old + 1) (insert_column C t new (p_column old) g)"

definition create_table :: "('g, 'v) core_ops \<Rightarrow> object_schema \<Rightarrow> 'g \<Rightarrow> 'g" where
  "create_table C os g =
     (let name = table_name_for_object_type (os_name os) in
      case primary_key_property os of
        Some pk \<Rightarrow> c_create_keyed_table C name (to_core_type (p_type pk)) (p_name pk) (is_nullable (p_type pk)) g
      | None \<Rightarrow> c_create_table C name g)"

definition add_initial_columns :: "('g, 'v) core_ops \<Rightarrow> object_schema \<Rightarrow> 'g \<Rightarrow> 'g" where
  "add_initial_columns C os g =
     fold (\<lambda>p g. if p_is_primary p then g else add_column C (table_name_for_object_type (os_name os)) p g)
       (os_persisted os) g"

definition copy_property_values :: "('g, 'v) core_ops \<Rightarrow> property \<Rightarrow> string \<Rightarrow> 'g \<Rightarrow> 'g" where
  "copy_property_values C p t g =
     (if base_type (p_type p) \<in> {PT_Int, PT_Bool, PT_Float, PT_Double, PT_String, PT_Data, PT_Date} then
        fold (\<lambda>i g. c_set_value C t (p_column p) i (c_value C g t (p_column p + 1) i) g) [0..<c_rows C g t] g
      else g)"

definition make_property_optional :: "('g, 'v) core_ops \<Rightarrow> string \<Rightarrow> property \<Rightarrow> 'g \<Rightarrow> 'g" where
  "make_property_optional C t p g =
     (let p = p\<lparr>p_type := p_type p OR PT_Nullable\<rparr>;
          g = insert_column C t p (p_column p) g;
          g = copy_property_values C p t g
      in c_remove_column C t (p_column p + 1) g)"

definition make_property_required :: "('g, 'v) core_ops \<Rightarrow> string \<Rightarrow> property \<Rightarrow> 'g \<Rightarrow> 'g" where
  "make_property_required C t p g =
     (let p = p\<lparr>p_type := p_type p AND NOT PT_Nullable\<rparr>;
          g = insert_column C t p (p_column p) g
      in c_remove_column C t (p_column p + 1) g)"

section \<open>Reading the schema\<close>

definition property_for_column_index :: "('g, 'v) core_ops \<Rightarrow> core_column list \<Rightarrow> nat \<Rightarrow> property option" where
  "property_for_column_index C cs i =
     (let c = cs ! i in
      if cc_name c = c_object_id_column C then None
      else if cc_type c = Core_Table \<and> (length (cc_sub c) \<noteq> 1 \<or> cc_name (hd (cc_sub c)) \<noteq> array_column_name) then None
      else let t = from_core_type c in
        Some \<lparr>p_name = cc_name c, p_public_name = [], p_type = t,
          p_object_type = (if type_eq t PT_Object then object_type_for_table_name (cc_target c) else []),
          p_link_origin = [], p_is_primary = False, p_is_indexed = cc_indexed c, p_column = i\<rparr>)"

definition object_schema_from_group :: "('g, 'v) core_ops \<Rightarrow> 'g \<Rightarrow> string \<Rightarrow> object_schema" where
  "object_schema_from_group C g t =
     (let cs = (case c_columns C g (table_name_for_object_type t) of Some cs \<Rightarrow> cs | None \<Rightarrow> [])
      in set_primary_key_property
          \<lparr>os_name = t, os_persisted = List.map_filter (property_for_column_index C cs) [0..<length cs],
           os_computed = [], os_primary_key = get_primary_key_for_object C g t\<rparr>)"

definition schema_from_group :: "('g, 'v) core_ops \<Rightarrow> 'g \<Rightarrow> schema" where
  "schema_from_group C g =
     make_schema (map (object_schema_from_group C g)
       (filter (\<lambda>t. t \<noteq> []) (map object_type_for_table_name (c_tables C g))))"

definition column_index :: "core_column list \<Rightarrow> string \<Rightarrow> size" where
  "column_index cs n =
     (let k = length (takeWhile (\<lambda>c. cc_name c \<noteq> n) cs) in if k < length cs then k else npos)"

definition set_schema_columns :: "('g, 'v) core_ops \<Rightarrow> 'g \<Rightarrow> schema \<Rightarrow> schema" where
  "set_schema_columns C g s =
     map (\<lambda>os. case c_columns C g (table_name_for_object_type (os_name os)) of
         None \<Rightarrow> os
       | Some cs \<Rightarrow> os\<lparr>os_persisted := map (\<lambda>p. p\<lparr>p_column := column_index cs (p_name p)\<rparr>) (os_persisted os)\<rparr>) s"

definition delete_data_for_object :: "('g, 'v) core_ops \<Rightarrow> string \<Rightarrow> 'g \<Rightarrow> 'g" where
  "delete_data_for_object C t g =
     (if c_columns C g (table_name_for_object_type t) \<noteq> None then
        set_primary_key_for_object C t [] (c_remove_table C (table_name_for_object_type t) g)
      else g)"

definition group_is_empty :: "('g, 'v) core_ops \<Rightarrow> 'g \<Rightarrow> bool" where
  "group_is_empty C g =
     list_all (\<lambda>t. let ot = object_type_for_table_name t in
         ot = [] \<or> take 2 ot = ''__'' \<or> c_rows C g t = 0) (c_tables C g)"

section \<open>Renaming\<close>

datatype rename_error =
    Table_Missing string
  | Table_Removed string
  | Source_Still_Exists string string string
  | Source_Missing string string
  | Type_Differs string string string string string
  | Would_Become_Required string string string

definition rename_property :: "('g, 'v) core_ops \<Rightarrow> schema \<Rightarrow> string \<Rightarrow> string \<Rightarrow> string \<Rightarrow> 'g \<Rightarrow>
    rename_error + 'g \<times> schema" where
  "rename_property C target t old_name new_name g =
     (let tn = table_name_for_object_type t in
      if c_columns C g tn = None then Inl (Table_Missing t)
      else case schema_find target t of
        None \<Rightarrow> Inl (Table_Removed t)
      | Some target_os \<Rightarrow>
        if property_for_name target_os old_name \<noteq> None then Inl (Source_Still_Exists t old_name new_name)
        else let table_os = object_schema_from_group C g t in
          case property_for_name table_os old_name of
            None \<Rightarrow> Inl (Source_Missing t old_name)
          | Some old_p \<Rightarrow>
            (case property_for_name table_os new_name of
              None \<Rightarrow> Inr (c_rename_column C tn (p_column old_p) new_name g, target)
            | Some new_p \<Rightarrow>
              if \<not> type_eq (p_type old_p) (p_type new_p) \<or> p_object_type old_p \<noteq> p_object_type new_p
              then Inl (Type_Differs t old_name new_name (type_string old_p) (type_string new_p))
              else if is_nullable (p_type old_p) \<and> \<not> is_nullable (p_type new_p)
              then Inl (Would_Become_Required t old_name new_name)
              else
                let gone = p_column new_p;
                    g = c_remove_column C tn gone (c_rename_column C tn (p_column old_p) new_name g);
                    target = map (\<lambda>os. if os_name os = t then
                        os\<lparr>os_persisted := map (\<lambda>p.
                            if p_column p = gone then p\<lparr>p_column := p_column old_p\<rparr>
                            else if p_column p > gone then p\<lparr>p_column := p_column p - 1\<rparr> else p) (os_persisted os)\<rparr>
                      else os) target
                in Inr (if is_nullable (p_type new_p) \<and> \<not> is_nullable (p_type old_p)
                    then make_property_optional C tn (new_p\<lparr>p_column := p_column old_p\<rparr>) g else g, target)))"

section \<open>Applying changes\<close>

definition object_table :: "object_schema \<Rightarrow> string" where
  "object_table os = table_name_for_object_type (os_name os)"

text \<open>\<open>apply_non_migration_changes\<close>: unsupported changes are errors, collected to the end.\<close>

fun apply_non_migration :: "('g, 'v) core_ops \<Rightarrow> schema_change \<Rightarrow> 'g \<times> schema_error list \<Rightarrow> 'g \<times> schema_error list" where
  "apply_non_migration C (Add_Table os) (g, es) = (create_table C os g, es)"
| "apply_non_migration C (Add_Initial_Properties os) (g, es) = (add_initial_columns C os g, es)"
| "apply_non_migration C (Add_Index os p) (g, es) = (c_add_index C (object_table os) (p_column p) g, es)"
| "apply_non_migration C (Remove_Index os p) (g, es) = (c_remove_index C (object_table os) (p_column p) g, es)"
| "apply_non_migration C c (g, es) = (g, es @ explain c)"

definition apply_non_migration_changes :: "('g, 'v) core_ops \<Rightarrow> schema_change list \<Rightarrow> 'g \<Rightarrow> schema_error list + 'g" where
  "apply_non_migration_changes C changes g =
     (let (g, es) = fold (apply_non_migration C) changes (g, []) in if es \<noteq> [] then Inl es else Inr g)"

definition new_primary_key :: "property option \<Rightarrow> string" where
  "new_primary_key pk = (case pk of Some p \<Rightarrow> p_name p | None \<Rightarrow> [])"

fun apply_initial :: "('g, 'v) core_ops \<Rightarrow> schema_change \<Rightarrow> 'g \<Rightarrow> 'g" where
  "apply_initial C (Add_Table os) g = create_table C os g"
| "apply_initial C (Remove_Table os) g = g"
| "apply_initial C (Add_Initial_Properties os) g = add_initial_columns C os g"
| "apply_initial C (Add_Property os p) g = add_column C (object_table os) p g"
| "apply_initial C (Remove_Property os p) g = c_remove_column C (object_table os) (p_column p) g"
| "apply_initial C (Make_Nullable os p) g = make_property_optional C (object_table os) p g"
| "apply_initial C (Make_Required os p) g = make_property_required C (object_table os) p g"
| "apply_initial C (Change_Primary_Key os pk) g = set_primary_key_for_object C (os_name os) (new_primary_key pk) g"
| "apply_initial C (Add_Index os p) g = c_add_index C (object_table os) (p_column p) g"
| "apply_initial C (Remove_Index os p) g = c_remove_index C (object_table os) (p_column p) g"
| "apply_initial C (Change_Property_Type os p q) g = replace_column C (object_table os) p q g"

definition create_initial_tables :: "('g, 'v) core_ops \<Rightarrow> schema_change list \<Rightarrow> 'g \<Rightarrow> 'g" where
  "create_initial_tables C changes g = fold (apply_initial C) changes g"

fun apply_additive :: "('g, 'v) core_ops \<Rightarrow> bool \<Rightarrow> schema_change \<Rightarrow> 'g \<Rightarrow> 'g" where
  "apply_additive C upd (Add_Table os) g = create_table C os g"
| "apply_additive C upd (Add_Initial_Properties os) g = add_initial_columns C os g"
| "apply_additive C upd (Add_Property os p) g = add_column C (object_table os) p g"
| "apply_additive C upd (Add_Index os p) g = (if upd then c_add_index C (object_table os) (p_column p) g else g)"
| "apply_additive C upd (Remove_Index os p) g = (if upd then c_remove_index C (object_table os) (p_column p) g else g)"
| "apply_additive C upd c g = g"

definition apply_additive_changes :: "('g, 'v) core_ops \<Rightarrow> schema_change list \<Rightarrow> bool \<Rightarrow> 'g \<Rightarrow> 'g" where
  "apply_additive_changes C changes update_indexes g = fold (apply_additive C update_indexes) changes g"

fun apply_pre_migration :: "('g, 'v) core_ops \<Rightarrow> schema_change \<Rightarrow> 'g \<Rightarrow> 'g" where
  "apply_pre_migration C (Remove_Property os p) g = g"
| "apply_pre_migration C c g = apply_initial C c g"

definition apply_pre_migration_changes :: "('g, 'v) core_ops \<Rightarrow> schema_change list \<Rightarrow> 'g \<Rightarrow> 'g" where
  "apply_pre_migration_changes C changes g = fold (apply_pre_migration C) changes g"

datatype apply_error =
    Renamed_Property_Missing string string
  | Duplicate_Primary_Key string string
  | Mismatch "schema_error list"
  | Migration_Failed

definition primary_column_unique :: "('g, 'v) core_ops \<Rightarrow> 'g \<Rightarrow> string \<Rightarrow> string \<Rightarrow> bool" where
  "primary_column_unique C g t pk =
     (let tn = table_name_for_object_type t; cs = (case c_columns C g tn of Some cs \<Rightarrow> cs | None \<Rightarrow> [])
      in c_distinct C g tn (column_index cs pk) = c_rows C g tn)"

definition validate_primary_columns :: "('g, 'v) core_ops \<Rightarrow> 'g \<Rightarrow> apply_error option" where
  "validate_primary_columns C g =
     (case c_primary_keys C g of None \<Rightarrow> None
      | Some rows \<Rightarrow> (case List.find (\<lambda>(t, pk). \<not> primary_column_unique C g t pk) rows of
          None \<Rightarrow> None | Some (t, pk) \<Rightarrow> Some (Duplicate_Primary_Key t pk)))"

fun apply_post_migration :: "('g, 'v) core_ops \<Rightarrow> schema \<Rightarrow> bool \<Rightarrow> schema_change \<Rightarrow> 'g \<Rightarrow> apply_error + 'g" where
  "apply_post_migration C initial reread (Remove_Property os p) g =
     (if initial \<noteq> [] \<and> (case schema_find initial (os_name os) of
          Some ios \<Rightarrow> property_for_name ios (p_name p) = None | None \<Rightarrow> False)
      then Inl (Renamed_Property_Missing (os_name os) (p_name p))
      else Inr (c_remove_column C (object_table os) (p_column p) g))"
| "apply_post_migration C initial reread (Change_Primary_Key os pk) g =
     (case pk of
        Some p \<Rightarrow> if primary_column_unique C g (os_name os) (p_name p) then Inr g
          else Inl (Duplicate_Primary_Key (os_name os) (p_name p))
      | None \<Rightarrow> Inr g)"
| "apply_post_migration C initial reread (Add_Table os) g = Inr (create_table C os g)"
| "apply_post_migration C initial reread (Add_Initial_Properties os) g =
     Inr (if reread then add_initial_columns C os g else g)"
| "apply_post_migration C initial reread (Add_Index os p) g = Inr (c_add_index C (object_table os) (p_column p) g)"
| "apply_post_migration C initial reread (Remove_Index os p) g = Inr (c_remove_index C (object_table os) (p_column p) g)"
| "apply_post_migration C initial reread c g = Inr g"

fun apply_post_migration_changes :: "('g, 'v) core_ops \<Rightarrow> schema \<Rightarrow> bool \<Rightarrow> schema_change list \<Rightarrow> 'g \<Rightarrow> apply_error + 'g" where
  "apply_post_migration_changes C initial reread [] g = Inr g"
| "apply_post_migration_changes C initial reread (c # cs) g =
     (case apply_post_migration C initial reread c g of
        Inl e \<Rightarrow> Inl e | Inr g \<Rightarrow> apply_post_migration_changes C initial reread cs g)"

section \<open>Permissions of a partially synchronised database\<close>

definition ensure_private_role_exists_for_user :: "('g, 'v) core_ops \<Rightarrow> string \<Rightarrow> 'g \<Rightarrow> 'g" where
  "ensure_private_role_exists_for_user C user g =
     (let role = ''__User:'' @ user in
      if c_role_exists C g role then g
      else c_link_private_role C user role (c_add_user_to_role C user role g))"

fun allow_new_class :: "('g, 'v) core_ops \<Rightarrow> schema_change \<Rightarrow> 'g \<Rightarrow> 'g" where
  "allow_new_class C (Add_Table os) g = c_allow_class C (os_name os) g"
| "allow_new_class C c g = g"

definition create_default_permissions :: "('g, 'v) core_ops \<Rightarrow> schema_change list \<Rightarrow> string \<Rightarrow> 'g \<Rightarrow> 'g" where
  "create_default_permissions C changes user g =
     (let g = c_set_up_permissions C g;
          g = c_add_user_to_role C user ''everyone'' g;
          g = ensure_private_role_exists_for_user C user g
      in fold (allow_new_class C) changes g)"

section \<open>Updating the schema of a file\<close>

text \<open>
  The migration function is the client's: it gets the group and the target schema, which it may
  change through \<open>rename_property\<close>, and it may throw.
\<close>

definition apply_schema_changes :: "('g, 'v) core_ops \<Rightarrow> size \<Rightarrow> schema \<Rightarrow> size \<Rightarrow> schema_mode \<Rightarrow>
    schema_change list \<Rightarrow> string option \<Rightarrow> ('g \<times> schema \<Rightarrow> apply_error + 'g \<times> schema) option \<Rightarrow> 'g \<Rightarrow>
    apply_error + 'g \<times> schema" where
  "apply_schema_changes C version target target_version mode changes sync_user migration g =
     (let g = create_metadata_tables C g in
      if mode = Additive then
        let newer = (version < target_version \<or> version = not_versioned);
            g = apply_additive_changes C changes True g;
            g = (if newer then set_schema_version C target_version g else g);
            g = (case sync_user of Some user \<Rightarrow> create_default_permissions C changes user g | None \<Rightarrow> g)
        in Inr (g, set_schema_columns C g target)
      else if version = not_versioned then
        let g = set_schema_version C target_version (create_initial_tables C changes g)
        in Inr (g, set_schema_columns C g target)
      else if mode = Manual then
        let target = set_schema_columns C g target in
        case (case migration of Some f \<Rightarrow> f (g, target) | None \<Rightarrow> Inr (g, target)) of
          Inl e \<Rightarrow> Inl e
        | Inr (g, target) \<Rightarrow>
          (case verify_no_changes_required (schema_compare (schema_from_group C g) target False) of
            Inl es \<Rightarrow> Inl (Mismatch es)
          | Inr u \<Rightarrow>
            (case validate_primary_columns C g of
              Some e \<Rightarrow> Inl e
            | None \<Rightarrow> let target = set_schema_columns C g target
                in Inr (set_schema_version C target_version g, target)))
      else if version = target_version then
        (case apply_non_migration_changes C changes g of
          Inl es \<Rightarrow> Inl (Mismatch es)
        | Inr g \<Rightarrow> Inr (g, set_schema_columns C g target))
      else
        let old_schema = schema_from_group C g; g = apply_pre_migration_changes C changes g in
        case (case migration of
            Some f \<Rightarrow>
              (case f (g, set_schema_columns C g target) of
                Inl e \<Rightarrow> Inl e
              | Inr (g, target) \<Rightarrow>
                (case apply_post_migration_changes C old_schema True
                    (schema_compare (schema_from_group C g) target False) g of
                  Inl e \<Rightarrow> Inl e
                | Inr g \<Rightarrow> (case validate_primary_columns C g of Some e \<Rightarrow> Inl e | None \<Rightarrow> Inr (g, target))))
          | None \<Rightarrow>
              (case apply_post_migration_changes C [] False changes g of
                Inl e \<Rightarrow> Inl e | Inr g \<Rightarrow> Inr (g, target))) of
          Inl e \<Rightarrow> Inl e
        | Inr (g, target) \<Rightarrow>
            let g = set_schema_version C target_version g in Inr (g, set_schema_columns C g target))"

end
