(* ===== verification/Schema_Effects.thy ===== *)
theory Schema_Effects
  imports Schema_Compare
begin

text \<open>
  What a list of schema changes does to the columns of a database, and the proof that the changes
  \<open>Schema::compare\<close> computes turn the existing columns into those of the target.
\<close>

section \<open>Columns and the effect of a change\<close>

text \<open>A column: its type with flags, the type it links to, whether it is indexed.\<close>

type_synonym cell = "prop_type \<times> string \<times> bool"

definition existing_cell :: "property \<Rightarrow> cell" where
  "existing_cell p = (p_type p, p_object_type p, p_is_indexed p)"

definition target_cell :: "property \<Rightarrow> cell" where
  "target_cell p = (p_type p, p_object_type p, requires_index p)"

definition lookup_cell :: "(property \<Rightarrow> cell) \<Rightarrow> property list \<Rightarrow> string \<Rightarrow> cell option" where
  "lookup_cell f ps n = map_option f (List.find (\<lambda>p. p_name p = n) ps)"

definition columns_of :: "(property \<Rightarrow> cell) \<Rightarrow> schema \<Rightarrow> string \<Rightarrow> string \<Rightarrow> cell option" where
  "columns_of f s obj n =
     (case List.find (\<lambda>os. os_name os = obj) s of
        Some os \<Rightarrow> lookup_cell f (os_persisted os) n | None \<Rightarrow> None)"

fun apply_change :: "schema_change \<Rightarrow> string \<Rightarrow> string \<Rightarrow> cell option \<Rightarrow> cell option" where
  "apply_change (Add_Table os) obj n c = c"
| "apply_change (Remove_Table os) obj n c = (if os_name os = obj then None else c)"
| "apply_change (Add_Initial_Properties os) obj n c =
     (if os_name os = obj then lookup_cell target_cell (os_persisted os) n else c)"
| "apply_change (Add_Property os p) obj n c = (if os_name os = obj \<and> p_name p = n then Some (target_cell p) else c)"
| "apply_change (Remove_Property os p) obj n c = (if os_name os = obj \<and> p_name p = n then None else c)"
| "apply_change (Change_Property_Type os p q) obj n c =
     (if os_name os = obj \<and> p_name p = n then Some (target_cell q) else c)"
| "apply_change (Make_Nullable os p) obj n c =
     (if os_name os = obj \<and> p_name p = n then map_option (\<lambda>(t, l, i). (t OR PT_Nullable, l, i)) c else c)"
| "apply_change (Make_Required os p) obj n c =
     (if os_name os = obj \<and> p_name p = n then map_option (\<lambda>(t, l, i). (t AND NOT PT_Nullable, l, i)) c else c)"
| "apply_change (Add_Index os p) obj n c =
     (if os_name os = obj \<and> p_name p = n then map_option (\<lambda>(t, l, i). (t, l, True)) c else c)"
| "apply_change (Remove_Index os p) obj n c =
     (if os_name os = obj \<and> p_name p = n then map_option (\<lambda>(t, l, i). (t, l, False)) c else c)"
| "apply_change (Change_Primary_Key os p) obj n c = c"

definition apply_changes :: "schema_change list \<Rightarrow> string \<Rightarrow> string \<Rightarrow> cell option \<Rightarrow> cell option" where
  "apply_changes cs obj n = fold (\<lambda>ch. apply_change ch obj n) cs"

fun change_object :: "schema_change \<Rightarrow> object_schema" where
  "change_object (Add_Table os) = os"
| "change_object (Remove_Table os) = os"
| "change_object (Add_Initial_Properties os) = os"
| "change_object (Add_Property os p) = os"
| "change_object (Remove_Property os p) = os"
| "change_object (Change_Property_Type os p q) = os"
| "change_object (Make_Nullable os p) = os"
| "change_object (Make_Required os p) = os"
| "change_object (Add_Index os p) = os"
| "change_object (Remove_Index os p) = os"
| "change_object (Change_Primary_Key os p) = os"

fun touches :: "string \<Rightarrow> string \<Rightarrow> schema_change \<Rightarrow> bool" where
  "touches obj n (Add_Table os) = False"
| "touches obj n (Remove_Table os) \<longleftrightarrow> os_name os = obj"
| "touches obj n (Add_Initial_Properties os) \<longleftrightarrow> os_name os = obj"
| "touches obj n (Change_Primary_Key os p) = False"
| "touches obj n (Add_Property os p) \<longleftrightarrow> os_name os = obj \<and> p_name p = n"
| "touches obj n (Remove_Property os p) \<longleftrightarrow> os_name os = obj \<and> p_name p = n"
| "touches obj n (Change_Property_Type os p q) \<longleftrightarrow> os_name os = obj \<and> p_name p = n"
| "touches obj n (Make_Nullable os p) \<longleftrightarrow> os_name os = obj \<and> p_name p = n"
| "touches obj n (Make_Required os p) \<longleftrightarrow> os_name os = obj \<and> p_name p = n"
| "touches obj n (Add_Index os p) \<longleftrightarrow> os_name os = obj \<and> p_name p = n"
| "touches obj n (Remove_Index os p) \<longleftrightarrow> os_name os = obj \<and> p_name p = n"

lemma apply_untouched: "\<not> touches obj n ch \<Longrightarrow> apply_change ch obj n c = c"
  by (cases ch) auto

lemma apply_changes_filter: "apply_changes cs obj n c = apply_changes (filter (touches obj n) cs) obj n c"
  by (induction cs arbitrary: c) (simp_all add: apply_changes_def apply_untouched)

lemma apply_changes_simps [simp]:
  "apply_changes [] obj n c = c"
  "apply_changes (ch # cs) obj n c = apply_changes cs obj n (apply_change ch obj n c)"
  by (simp_all add: apply_changes_def)

text \<open>A small multiset of changes, in either order.\<close>

lemma apply_changes_mset:
  assumes "mset cs = mset ds" "length ds \<le> 1 \<or> (\<exists>a b. ds = [a, b] \<and>
    (\<forall>c. apply_change a obj n (apply_change b obj n c) = apply_change b obj n (apply_change a obj n c)))"
  shows "apply_changes cs obj n c = apply_changes ds obj n c"
proof -
  have l: "length cs = length ds" using assms(1) by (metis size_mset)
  show ?thesis
  proof (cases "length ds \<le> 1")
    case True
    then have "cs = ds" using assms(1) l by (cases ds; cases cs) auto
    then show ?thesis by simp
  next
    case False
    then obtain a b where ds: "ds = [a, b]"
      and comm: "\<And>c. apply_change a obj n (apply_change b obj n c) = apply_change b obj n (apply_change a obj n c)"
      using assms(2) by blast
    obtain x y where cs: "cs = [x, y]"
    proof (cases cs)
      case (Cons x ys)
      then show ?thesis using l ds that by (cases ys) auto
    qed (use l ds in simp)
    then have "cs = [a, b] \<or> cs = [b, a]" using assms(1) ds by (auto simp: add_eq_conv_ex)
    then show ?thesis using ds comm by auto
  qed
qed

section \<open>The changes of one property\<close>

lemma type_or_nullable: "is_nullable (t OR PT_Nullable)" "is_array (t OR PT_Nullable) = is_array t"
  "base_type (t OR PT_Nullable) = base_type t"
proof -
  have b: "bit PT_Nullable i \<longleftrightarrow> i = 6" for i by (simp only: PT_Nullable_def bit_64)
  show "is_nullable (t OR PT_Nullable)" "is_array (t OR PT_Nullable) = is_array t"
    by (simp_all add: is_nullable_bit is_array_bit bit_or_iff b)
  show "base_type (t OR PT_Nullable) = base_type t"
    by (rule bit_word_eqI) (auto simp: base_type_def bit_and_iff bit_or_iff bit_not_iff bit_flags b)
qed

lemma type_and_required: "\<not> is_nullable (t AND NOT PT_Nullable)" "is_array (t AND NOT PT_Nullable) = is_array t"
  "base_type (t AND NOT PT_Nullable) = base_type t"
proof -
  have b: "bit PT_Nullable i \<longleftrightarrow> i = 6" for i by (simp only: PT_Nullable_def bit_64)
  have le: "bit t i \<Longrightarrow> i < 8" for i using bit_imp_le_length[of t i] by simp
  show "\<not> is_nullable (t AND NOT PT_Nullable)" "is_array (t AND NOT PT_Nullable) = is_array t"
    by (auto simp: is_nullable_bit is_array_bit bit_and_iff bit_not_iff b)
  show "base_type (t AND NOT PT_Nullable) = base_type t"
    by (rule bit_word_eqI) (auto simp: base_type_def bit_and_iff bit_not_iff bit_flags b)
qed

lemma set_nullability:
  assumes "type_eq t u" "is_array t = is_array u"
  shows "is_nullable u \<Longrightarrow> t OR PT_Nullable = u" "\<not> is_nullable u \<Longrightarrow> t AND NOT PT_Nullable = u"
    "is_nullable t = is_nullable u \<Longrightarrow> t = u"
  using assms type_or_nullable[of t] type_and_required[of t]
  by (auto intro!: prop_type_eq_iff[THEN iffD2] simp: type_eq_def)

lemma property_changes_member:
  "c \<in> set (property_changes e t p) \<Longrightarrow> touches obj n c \<longleftrightarrow> os_name e = obj \<and> p_name p = n"
  by (cases "property_for_name t (p_name p)") (auto simp: property_changes_def split: if_splits)

lemma property_changes_touch:
  "filter (touches obj n) (property_changes e t p) =
    (if os_name e = obj \<and> p_name p = n then property_changes e t p else [])"
  using property_changes_member[of _ e t p obj n] by (auto simp: filter_id_conv filter_empty_conv)

lemma property_changes_effect:
  assumes "cs = property_changes e t p" "os_name e = obj" "p_name p = n"
    and t: "\<forall>q \<in> set (os_persisted t). \<not> property_is_computed t q"
  shows "apply_changes cs obj n (Some (existing_cell p)) =
      lookup_cell target_cell (os_persisted t) n"
    and "length cs \<le> 1 \<or> (\<exists>a b. cs = [a, b] \<and>
      (\<forall>c. apply_change a obj n (apply_change b obj n c) = apply_change b obj n (apply_change a obj n c)))"
proof -
  show "apply_changes cs obj n (Some (existing_cell p)) = lookup_cell target_cell (os_persisted t) n"
  proof (cases "List.find (\<lambda>p. p_name p = n) (os_persisted t)")
    case None
    have "property_for_name t n = None \<or> (\<exists>q. property_for_name t n = Some q \<and> property_is_computed t q)"
    proof (cases "property_for_name t n")
      case (Some q)
      then have "List.find (\<lambda>p. p_name p = n) (os_computed t) = Some q"
        using None by (simp add: property_for_name_def)
      then have "q \<in> set (os_computed t)" by (rule find_name_SomeD[THEN conjunct1])
      then have "property_is_computed t q" by (auto simp: property_is_computed_def list_ex_iff intro: bexI[of _ q])
      then show ?thesis using Some by blast
    qed simp
    then have "property_changes e t p = [Remove_Property e p]"
      using assms(3) by (auto simp: property_changes_def)
    then show ?thesis using assms(1-3) None by (simp add: lookup_cell_def)
  next
    case (Some q)
    then have q: "property_for_name t n = Some q" "q \<in> set (os_persisted t)" "p_name q = n"
      using find_name_SomeD[OF Some] by (simp_all add: property_for_name_def)
    then have nc: "\<not> property_is_computed t q" using t by simp
    have l: "lookup_cell target_cell (os_persisted t) n = Some (target_cell q)"
      using Some by (simp add: lookup_cell_def)
    show ?thesis
    proof (cases "\<not> type_eq (p_type p) (p_type q) \<or> p_object_type p \<noteq> p_object_type q \<or>
        is_array (p_type p) \<noteq> is_array (p_type q)")
      case True
      then show ?thesis using q nc l assms(1-3) by (simp add: property_changes_def)
    next
      case False
      then have eq: "type_eq (p_type p) (p_type q)" "is_array (p_type p) = is_array (p_type q)"
        "p_object_type p = p_object_type q" by simp_all
      note S = set_nullability[OF eq(1,2)]
      show ?thesis
        unfolding l assms(1)
        using eq q(1) nc assms(2,3) S
        by (cases "is_nullable (p_type p)"; cases "is_nullable (p_type q)")
          (auto simp: property_changes_def existing_cell_def target_cell_def requires_index_def)
    qed
  qed
  show "length cs \<le> 1 \<or> (\<exists>a b. cs = [a, b] \<and>
      (\<forall>c. apply_change a obj n (apply_change b obj n c) = apply_change b obj n (apply_change a obj n c)))"
    unfolding assms(1) property_changes_def
    by (cases "property_for_name t (p_name p)") (auto simp: map_option.compositionality comp_def split_def)
qed

section \<open>The changes of one object\<close>

lemma object_changes_touch:
  assumes e: "distinct (map p_name (os_persisted e))" "os_computed e = []"
    and t: "distinct (map p_name (os_persisted t))" and obj: "os_name e = obj"
  shows "filter (touches obj n) (object_changes e t) =
    (case List.find (\<lambda>p. p_name p = n) (os_persisted e) of
       Some p \<Rightarrow> property_changes e t p
     | None \<Rightarrow> (case List.find (\<lambda>p. p_name p = n) (os_persisted t) of
         Some q \<Rightarrow> [Add_Property e q] | None \<Rightarrow> []))"
proof -
  have a: "filter (touches obj n) (concat (map (property_changes e t) ps)) =
      (case List.find (\<lambda>p. p_name p = n) ps of Some p \<Rightarrow> property_changes e t p | None \<Rightarrow> [])"
    if "distinct (map p_name ps)" for ps
    using that
  proof (induction ps)
    case (Cons p ps)
    have "p_name p = n \<Longrightarrow> List.find (\<lambda>p. p_name p = n) ps = None"
      using Cons.prems by (auto simp: find_name_None_iff)
    then show ?case using Cons obj by (auto simp: property_changes_touch)
  qed simp
  have b: "filter (touches obj n) (map (Add_Property e) (filter P qs)) =
      (case List.find (\<lambda>p. p_name p = n) qs of Some q \<Rightarrow> if P q then [Add_Property e q] else [] | None \<Rightarrow> [])"
    if "distinct (map p_name qs)" for P qs
    using that
  proof (induction qs)
    case (Cons q qs)
    have "p_name q = n \<Longrightarrow> List.find (\<lambda>p. p_name p = n) qs = None"
      using Cons.prems by (auto simp: find_name_None_iff)
    then show ?case using Cons obj by auto
  qed simp
  have P: "property_for_name e (p_name q) = None \<longleftrightarrow> List.find (\<lambda>p. p_name p = n) (os_persisted e) = None"
    if "List.find (\<lambda>p. p_name p = n) (os_persisted t) = Some q" for q
    using find_name_SomeD[OF that] e(2) by (simp add: property_for_name_def split: option.splits)
  show ?thesis
    unfolding object_changes_def filter_append a[OF e(1)] b[OF t]
    by (cases "List.find (\<lambda>p. p_name p = n) (os_persisted e)";
        cases "List.find (\<lambda>p. p_name p = n) (os_persisted t)") (simp_all add: P)
qed

lemma object_changes_other:
  assumes "os_name e \<noteq> obj"
  shows "filter (touches obj n) (object_changes e t) = []"
proof -
  have "\<not> touches obj n c" if "c \<in> set (property_changes e t p)" for c p
    using property_changes_touch[of obj n e t p] assms that by (auto simp: filter_empty_conv)
  then show ?thesis using assms by (auto simp: object_changes_def filter_empty_conv)
qed

section \<open>Walking two schemas\<close>

definition pair_changes :: "bool \<Rightarrow> object_schema option \<times> object_schema option \<Rightarrow> schema_change list" where
  "pair_changes inc pair =
     (case pair of
        (Some t, Some e) \<Rightarrow> object_changes e t
      | (Some t, None) \<Rightarrow> [Add_Table t, Add_Initial_Properties t]
      | (None, Some e) \<Rightarrow> (if inc then [Remove_Table e] else [])
      | (None, None) \<Rightarrow> [])"

lemma pair_changes_simps [simp]:
  "pair_changes inc (Some t, Some e) = object_changes e t"
  "pair_changes inc (Some t, None) = [Add_Table t, Add_Initial_Properties t]"
  "pair_changes inc (None, Some e) = (if inc then [Remove_Table e] else [])"
  "pair_changes inc (None, None) = []"
  by (simp_all add: pair_changes_def)

lemma mset_fold_column_changes:
  "mset (fold column_changes ps cs) = mset cs + mset (concat (map (\<lambda>p. column_changes p []) ps))"
proof (induction ps arbitrary: cs)
  case (Cons p ps)
  consider t e where "p = (Some t, Some e)" | t where "p = (Some t, None)" | x where "p = (None, x)"
    by (metis option.exhaust surj_pair)
  then have "mset (column_changes p cs) = mset cs + mset (column_changes p [])"
    by cases (simp_all add: compare_objects_def mset_removals_last)
  then show ?case using Cons.IH[of "column_changes p cs"] by simp
qed simp

lemma mset_compare:
  "mset (schema_compare e t inc) = mset (concat (map (pair_changes inc) (zip_matching t e)))"
proof -
  have "mset (table_changes inc p) + mset (column_changes p []) = mset (pair_changes inc p)" for p
  proof -
    consider t e where "p = (Some t, Some e)" | t where "p = (Some t, None)" | e where "p = (None, Some e)"
      | "p = (None, None)" by (metis option.exhaust surj_pair)
    then show ?thesis
      by cases (simp_all add: compare_objects_def mset_removals_last)
  qed
  then have "mset (concat (map (table_changes inc) ps)) + mset (concat (map (\<lambda>p. column_changes p []) ps)) =
      mset (concat (map (pair_changes inc) ps))" for ps
    by (induction ps) (simp_all add: algebra_simps)
  then show ?thesis by (simp add: schema_compare_def mset_fold_column_changes)
qed

text \<open>The pair of an object name in the walk.\<close>

definition pair_name :: "object_schema option \<times> object_schema option \<Rightarrow> string" where
  "pair_name p = (case p of (Some t, _) \<Rightarrow> os_name t | (None, Some e) \<Rightarrow> os_name e | _ \<Rightarrow> [])"

definition find_object :: "schema \<Rightarrow> string \<Rightarrow> object_schema option" where
  "find_object s obj = List.find (\<lambda>os. os_name os = obj) s"

lemma pair_changes_touch:
  assumes "pair_name p \<noteq> obj" "fst p = None \<or> snd p = None \<or> os_name (the (fst p)) = os_name (the (snd p))"
  shows "filter (touches obj n) (pair_changes inc p) = []"
proof -
  consider t e where "p = (Some t, Some e)" | t where "p = (Some t, None)" | e where "p = (None, Some e)"
    | "p = (None, None)" by (metis option.exhaust surj_pair)
  then show ?thesis
    using assms by cases (auto simp: pair_name_def object_changes_other)
qed

lemma find_object_None: "\<forall>os \<in> set s. os_name os \<noteq> obj \<Longrightarrow> find_object s obj = None"
  by (auto simp: find_object_def find_None_iff)

lemma find_object_fresh:
  "distinct (map os_name (a # s)) \<Longrightarrow> os_name a = obj \<Longrightarrow> find_object s obj = None"
  by (rule find_object_None) (auto simp: rev_image_eqI)

lemma find_object_Cons: "find_object (a # s) obj = (if os_name a = obj then Some a else find_object s obj)"
  by (simp add: find_object_def)

lemma one_sided_touch:
  assumes "distinct (map os_name s)"
  shows "filter (touches obj n) (concat (map (\<lambda>a. pair_changes inc (Some a, None)) s)) =
      filter (touches obj n) (pair_changes inc (find_object s obj, None))"
    and "filter (touches obj n) (concat (map (\<lambda>b. pair_changes inc (None, Some b)) s)) =
      filter (touches obj n) (pair_changes inc (None, find_object s obj))"
proof -
  show "filter (touches obj n) (concat (map (\<lambda>a. pair_changes inc (Some a, None)) s)) =
      filter (touches obj n) (pair_changes inc (find_object s obj, None))"
    using assms
  proof (induction s)
    case (Cons a s)
    then show ?case using find_object_fresh[OF Cons.prems, of obj]
      by (cases "os_name a = obj") (simp_all add: find_object_Cons)
  qed (simp add: find_object_def)
  show "filter (touches obj n) (concat (map (\<lambda>b. pair_changes inc (None, Some b)) s)) =
      filter (touches obj n) (pair_changes inc (None, find_object s obj))"
    using assms
  proof (induction s)
    case (Cons a s)
    then show ?case using find_object_fresh[OF Cons.prems, of obj]
      by (cases "os_name a = obj"; cases inc) (simp_all add: find_object_Cons)
  qed (simp add: find_object_def)
qed

lemma zip_touch:
  assumes "sorted_schema t" "sorted_schema e" "distinct (map os_name t)" "distinct (map os_name e)"
  shows "filter (touches obj n) (concat (map (pair_changes inc) (zip_matching t e))) =
    filter (touches obj n) (pair_changes inc (find_object t obj, find_object e obj))"
  using assms
proof (induction t e rule: zip_matching.induct)
  case (1 a as b bs)
  have later: "\<forall>os \<in> set as. os_name a < os_name os" "\<forall>os \<in> set bs. os_name b < os_name os"
    using 1(4-7) by (auto simp: sorted_schema_def order.strict_iff_order rev_image_eqI)
  have tails: "sorted_schema as" "sorted_schema bs" "sorted_schema (a # as)" "sorted_schema (b # bs)"
    "distinct (map os_name as)" "distinct (map os_name bs)" "distinct (map os_name (a # as))"
    "distinct (map os_name (b # bs))" using 1(4-7) by (simp_all add: sorted_schema_def)
  consider "os_name a = os_name b" | "os_name a < os_name b" | "os_name b < os_name a" by (metis linorder_less_linear)
  then show ?case
  proof cases
    case 1
    have IH: "filter (touches obj n) (concat (map (pair_changes inc) (zip_matching as bs))) =
        filter (touches obj n) (pair_changes inc (find_object as obj, find_object bs obj))"
      using "1.IH"(1) 1 tails by simp
    show ?thesis
    proof (cases "os_name a = obj")
      case True
      then have "find_object as obj = None" "find_object bs obj = None"
        using later 1 by (intro find_object_None; force)+
      then show ?thesis using True 1 IH by (simp add: find_object_def)
    next
      case False
      then show ?thesis using 1 IH by (simp add: find_object_def object_changes_other)
    qed
  next
    case 2
    have IH: "filter (touches obj n) (concat (map (pair_changes inc) (zip_matching as (b # bs)))) =
        filter (touches obj n) (pair_changes inc (find_object as obj, find_object (b # bs) obj))"
      using "1.IH"(2) 2 tails by simp
    show ?thesis
    proof (cases "os_name a = obj")
      case True
      then have "find_object as obj = None" "find_object (b # bs) obj = None"
        using later 2 by (intro find_object_None; force)+
      then show ?thesis using True 2 less_imp_neq[OF 2] IH by (simp add: find_object_def)
    next
      case False
      then show ?thesis using 2 less_imp_neq[OF 2] IH by (simp add: find_object_def pair_changes_touch pair_name_def)
    qed
  next
    case 3
    have IH: "filter (touches obj n) (concat (map (pair_changes inc) (zip_matching (a # as) bs))) =
        filter (touches obj n) (pair_changes inc (find_object (a # as) obj, find_object bs obj))"
      using "1.IH"(3) 3 tails by simp
    show ?thesis
    proof (cases "os_name b = obj")
      case True
      then have "find_object bs obj = None" "find_object (a # as) obj = None"
        using later 3 by (intro find_object_None; force)+
      then show ?thesis using True 3 less_imp_neq[OF 3] less_not_sym[OF 3] IH by (cases inc) (simp_all add: find_object_def)
    next
      case False
      then show ?thesis using 3 less_imp_neq[OF 3] less_not_sym[OF 3] IH by (cases inc) (simp_all add: find_object_def pair_changes_touch pair_name_def)
    qed
  qed
next
  case (2 as)
  then show ?case using one_sided_touch(1)[of as obj n inc] by (simp add: find_object_def comp_def)
next
  case (3 b bs)
  then show ?case using one_sided_touch(2)[of "b # bs" obj n inc]
    by (simp add: find_object_def[of "[]"] comp_def del: list.map pair_changes_simps)
qed

section \<open>The changes lead to the target\<close>

definition well_named :: "schema \<Rightarrow> bool" where
  "well_named s \<longleftrightarrow> sorted_schema s \<and> distinct (map os_name s) \<and>
     (\<forall>os \<in> set s. distinct (map p_name (os_persisted os)) \<and>
       (\<forall>p \<in> set (os_persisted os). \<not> property_is_computed os p))"

lemma find_object_member: "find_object s obj = Some os \<Longrightarrow> os \<in> set s \<and> os_name os = obj"
  by (auto simp: find_object_def find_Some_iff)

lemma lookup_cell_map:
  "lookup_cell f ps n = (case List.find (\<lambda>p. p_name p = n) ps of Some p \<Rightarrow> Some (f p) | None \<Rightarrow> None)"
  by (simp add: lookup_cell_def split: option.splits)

lemma compare_effect:
  assumes e: "well_named e" "\<forall>os \<in> set e. os_computed os = []" and t: "well_named t"
  shows "apply_changes (schema_compare e t inc) obj n (columns_of existing_cell e obj n) =
    (if obj \<in> os_name ` set t then columns_of target_cell t obj n
     else if inc then None else columns_of existing_cell e obj n)"
proof -
  let ?cs = "filter (touches obj n) (schema_compare e t inc)"
  let ?ds = "filter (touches obj n) (pair_changes inc (find_object t obj, find_object e obj))"
  have "mset ?cs = mset (filter (touches obj n) (concat (map (pair_changes inc) (zip_matching t e))))"
    by (simp add: mset_compare)
  also have "\<dots> = mset ?ds" using e(1) t by (simp add: zip_touch well_named_def)
  finally have m: "mset ?cs = mset ?ds" .
  have tn: "obj \<in> os_name ` set t \<longleftrightarrow> find_object t obj \<noteq> None"
    by (auto simp: find_object_def find_None_iff)
  have c: "columns_of f s obj n = (case find_object s obj of Some os \<Rightarrow> lookup_cell f (os_persisted os) n | None \<Rightarrow> None)"
    for f s by (simp add: columns_of_def find_object_def)
  have key: "apply_changes ?ds obj n (columns_of existing_cell e obj n) =
      (if obj \<in> os_name ` set t then columns_of target_cell t obj n
       else if inc then None else columns_of existing_cell e obj n) \<and>
    (length ?ds \<le> 1 \<or> (\<exists>a b. ?ds = [a, b] \<and>
      (\<forall>c. apply_change a obj n (apply_change b obj n c) = apply_change b obj n (apply_change a obj n c))))"
  proof (cases "find_object t obj")
    case None
    then show ?thesis
      using find_object_member[of e obj] unfolding tn c by (cases "find_object e obj") auto
  next
    case (Some ot)
    note ot = find_object_member[OF Some]
    have dt: "distinct (map p_name (os_persisted ot))" "\<forall>p \<in> set (os_persisted ot). \<not> property_is_computed ot p"
      using t ot by (simp_all add: well_named_def)
    show ?thesis
    proof (cases "find_object e obj")
      case None
      then show ?thesis using Some ot unfolding tn c by simp
    next
      case (Some oe)
      note oe = find_object_member[OF Some]
      have de: "distinct (map p_name (os_persisted oe))" "os_computed oe = []"
        using e oe by (simp_all add: well_named_def)
      have ds: "?ds = (case List.find (\<lambda>p. p_name p = n) (os_persisted oe) of
          Some p \<Rightarrow> property_changes oe ot p
        | None \<Rightarrow> (case List.find (\<lambda>p. p_name p = n) (os_persisted ot) of
            Some q \<Rightarrow> [Add_Property oe q] | None \<Rightarrow> []))"
        using \<open>find_object t obj = Some ot\<close> Some object_changes_touch[OF de dt(1), of obj n] oe by simp
      show ?thesis
      proof (cases "List.find (\<lambda>p. p_name p = n) (os_persisted oe)")
        case None
        then show ?thesis
          using Some \<open>find_object t obj = Some ot\<close> oe unfolding tn c ds
          by (cases "List.find (\<lambda>p. p_name p = n) (os_persisted ot)")
            (auto simp: lookup_cell_map dest: find_name_SomeD)
      next
        case f: (Some p)
        have n: "p_name p = n" using find_name_SomeD[OF f] by simp
        have "columns_of existing_cell e obj n = Some (existing_cell p)"
          using Some f by (simp add: c lookup_cell_map)
        moreover have "columns_of target_cell t obj n = lookup_cell target_cell (os_persisted ot) n"
          using \<open>find_object t obj = Some ot\<close> by (simp add: c)
        moreover have "?ds = property_changes oe ot p" using ds f by simp
        ultimately show ?thesis
          using property_changes_effect[OF refl conjunct2[OF oe] n dt(2)] \<open>find_object t obj = Some ot\<close>
          unfolding tn by simp
      qed
    qed
  qed
  have "apply_changes (schema_compare e t inc) obj n x = apply_changes ?cs obj n x" for x
    by (rule apply_changes_filter)
  also have "apply_changes ?cs obj n x = apply_changes ?ds obj n x" for x
    by (rule apply_changes_mset[OF m conjunct2[OF key]])
  finally show ?thesis using key by simp
qed

end
