(* ===== verification/Object_Store_Laws.thy ===== *)
theory Object_Store_Laws
  imports Object_Store Schema_Effects
begin

text \<open>
  What applying schema changes does to the columns of the tables, given the documented behaviour
  of the storage engine's column operations.
\<close>

section \<open>The documented behaviour of columns\<close>

definition set_indexed :: "bool \<Rightarrow> core_column \<Rightarrow> core_column" where
  "set_indexed b c = Core_Column (cc_name c) (cc_type c) (cc_nullable c) b (cc_target c) (cc_sub c)"

definition set_column_name :: "string \<Rightarrow> core_column \<Rightarrow> core_column" where
  "set_column_name n c = Core_Column n (cc_type c) (cc_nullable c) (cc_indexed c) (cc_target c) (cc_sub c)"

definition insert_nth :: "nat \<Rightarrow> 'a \<Rightarrow> 'a list \<Rightarrow> 'a list" where
  "insert_nth k x xs = take k xs @ x # drop k xs"

definition remove_nth :: "nat \<Rightarrow> 'a list \<Rightarrow> 'a list" where
  "remove_nth k xs = take k xs @ drop (Suc k) xs"

definition keeps_columns :: "('g, 'v) core_ops \<Rightarrow> ('g \<Rightarrow> 'g) \<Rightarrow> bool" where
  "keeps_columns C f \<longleftrightarrow> (\<forall>g u. c_columns C (f g) u = c_columns C g u)"

definition edits_columns :: "('g, 'v) core_ops \<Rightarrow> string \<Rightarrow> (core_column list \<Rightarrow> core_column list) \<Rightarrow> ('g \<Rightarrow> 'g) \<Rightarrow> bool" where
  "edits_columns C t e f \<longleftrightarrow>
     (\<forall>g u. c_columns C (f g) u = (if u = t then map_option e (c_columns C g t) else c_columns C g u))"

text \<open>
  Creating a table that exists already leaves its columns alone.  \<open>sync/object.hpp\<close> documents the creation
  only; that a second one does no harm is what \<open>object_store.cpp\<close> relies on: the tables that are created before
  a migration are created again by \<open>apply_post_migration_changes\<close>.
\<close>

definition creates_table :: "('g, 'v) core_ops \<Rightarrow> string \<Rightarrow> ('g \<Rightarrow> 'g) \<Rightarrow> bool" where
  "creates_table C t f \<longleftrightarrow> (\<forall>g u. (u \<noteq> t \<or> c_columns C g t \<noteq> None \<longrightarrow> c_columns C (f g) u = c_columns C g u) \<and>
     c_columns C (f g) t \<noteq> None)"

definition core_laws :: "('g, 'v) core_ops \<Rightarrow> bool" where
  "core_laws C \<longleftrightarrow>
     (\<forall>t k c. edits_columns C t (insert_nth k c) (c_insert_column C t k c)) \<and>
     (\<forall>t k. edits_columns C t (remove_nth k) (c_remove_column C t k)) \<and>
     (\<forall>t k n. edits_columns C t (\<lambda>cs. cs[k := set_column_name n (cs ! k)]) (c_rename_column C t k n)) \<and>
     (\<forall>t k. edits_columns C t (\<lambda>cs. cs[k := set_indexed True (cs ! k)]) (c_add_index C t k)) \<and>
     (\<forall>t k. edits_columns C t (\<lambda>cs. cs[k := set_indexed False (cs ! k)]) (c_remove_index C t k)) \<and>
     (\<forall>t. creates_table C t (c_create_table C t)) \<and>
     (\<forall>t ty n nl. creates_table C t (c_create_keyed_table C t ty n nl)) \<and>
     (\<forall>t c r v. keeps_columns C (c_set_value C t c r v)) \<and>
     (\<forall>t k. keeps_columns C (c_add_primary_key C t k)) \<and>
     (\<forall>k s. keeps_columns C (c_set_primary_key C k s)) \<and>
     (\<forall>k. keeps_columns C (c_drop_primary_key C k))"

lemma core_lawsD:
  assumes "core_laws C"
  shows
    "c_columns C (c_insert_column C t k c g) u = (if u = t then map_option (insert_nth k c) (c_columns C g t) else c_columns C g u)"
    "c_columns C (c_remove_column C t k g) u = (if u = t then map_option (remove_nth k) (c_columns C g t) else c_columns C g u)"
    "c_columns C (c_rename_column C t k n g) u =
      (if u = t then map_option (\<lambda>cs. cs[k := set_column_name n (cs ! k)]) (c_columns C g t) else c_columns C g u)"
    "c_columns C (c_add_index C t k g) u =
      (if u = t then map_option (\<lambda>cs. cs[k := set_indexed True (cs ! k)]) (c_columns C g t) else c_columns C g u)"
    "c_columns C (c_remove_index C t k g) u =
      (if u = t then map_option (\<lambda>cs. cs[k := set_indexed False (cs ! k)]) (c_columns C g t) else c_columns C g u)"
    "c_columns C (c_set_value C t col r v g) u = c_columns C g u"
    "c_columns C (c_add_primary_key C t s g) u = c_columns C g u"
    "c_columns C (c_set_primary_key C k s g) u = c_columns C g u"
    "c_columns C (c_drop_primary_key C k g) u = c_columns C g u"
  using assms unfolding core_laws_def edits_columns_def keeps_columns_def by simp_all

lemma create_table_keeps:
  assumes "core_laws C" "c_columns C g u = Some cs"
  shows "c_columns C (create_table C os g) u = Some cs"
proof -
  have c: "c_columns C (c_create_table C t g) u = Some cs"
    "c_columns C (c_create_keyed_table C t ty n nl g) u = Some cs" for t ty n nl
    using assms unfolding core_laws_def creates_table_def by (metis option.distinct(1))+
  show ?thesis unfolding create_table_def Let_def by (cases "primary_key_property os") (simp_all add: c)
qed

text \<open>A concrete engine that only keeps columns.\<close>

definition toy_create :: "string \<Rightarrow> core_column list \<Rightarrow> (string \<Rightarrow> core_column list option) \<Rightarrow> string \<Rightarrow> core_column list option" where
  "toy_create t cs g = (if g t = None then g(t := Some cs) else g)"

definition toy_edit :: "string \<Rightarrow> (core_column list \<Rightarrow> core_column list) \<Rightarrow> (string \<Rightarrow> core_column list option) \<Rightarrow>
    string \<Rightarrow> core_column list option" where
  "toy_edit t f g = g(t := map_option f (g t))"

definition toy_core :: "(string \<Rightarrow> core_column list option, unit) core_ops" where
  "toy_core =
     \<lparr>c_columns = (\<lambda>g. g), c_tables = (\<lambda>g. []), c_rows = (\<lambda>g t. 0), c_value = (\<lambda>g t c r. ()),
      c_int = (\<lambda>g t c r. 0), c_distinct = (\<lambda>g t c. 0), c_primary_keys = (\<lambda>g. None),
      c_role_exists = (\<lambda>g r. True), c_add_table = (\<lambda>t. toy_create t []),
      c_create_table = (\<lambda>t. toy_create t [Core_Column ''!OID'' Core_Int False False [] []]),
      c_create_keyed_table = (\<lambda>t ty n nl. toy_create t
        [Core_Column ''!OID'' Core_Int False False [] [], Core_Column n ty nl True [] []]),
      c_remove_table = (\<lambda>t g. g(t := None)),
      c_insert_column = (\<lambda>t k c. toy_edit t (insert_nth k c)),
      c_remove_column = (\<lambda>t k. toy_edit t (remove_nth k)),
      c_rename_column = (\<lambda>t k n. toy_edit t (\<lambda>cs. cs[k := set_column_name n (cs ! k)])),
      c_add_index = (\<lambda>t k. toy_edit t (\<lambda>cs. cs[k := set_indexed True (cs ! k)])),
      c_remove_index = (\<lambda>t k. toy_edit t (\<lambda>cs. cs[k := set_indexed False (cs ! k)])),
      c_add_row = (\<lambda>t g. g), c_set_value = (\<lambda>t c r v g. g), c_set_int = (\<lambda>t c r v g. g),
      c_add_primary_key = (\<lambda>t p g. g), c_set_primary_key = (\<lambda>k p g. g), c_drop_primary_key = (\<lambda>k g. g),
      c_has_object_ids = (\<lambda>g. True), c_set_up_permissions = (\<lambda>g. g), c_add_user_to_role = (\<lambda>u r g. g),
      c_link_private_role = (\<lambda>u r g. g), c_allow_class = (\<lambda>t g. g), c_object_id_column = ''!OID''\<rparr>"

lemma toy_core_laws: "core_laws toy_core"
  by (auto simp: core_laws_def toy_core_def edits_columns_def creates_table_def keeps_columns_def
      toy_create_def toy_edit_def split: if_splits)

section \<open>Columns that stay\<close>

text \<open>The kept part of a column: everything but the index flag.\<close>

definition column_core :: "core_column \<Rightarrow> core_column" where
  "column_core c = set_indexed False c"

definition extends_columns :: "('g, 'v) core_ops \<Rightarrow> 'g \<Rightarrow> 'g \<Rightarrow> bool" where
  "extends_columns C g h \<longleftrightarrow> (\<forall>u cs. c_columns C g u = Some cs \<longrightarrow>
     (\<exists>ds more. c_columns C h u = Some (ds @ more) \<and> map column_core ds = map column_core cs))"

lemma extends_refl: "extends_columns C g g"
  unfolding extends_columns_def by (metis append_Nil2)

lemma extends_trans:
  assumes "extends_columns C g h" "extends_columns C h k"
  shows "extends_columns C g k"
  unfolding extends_columns_def
proof (intro allI impI)
  fix u cs assume "c_columns C g u = Some cs"
  then obtain ds m where d: "c_columns C h u = Some (ds @ m)" "map column_core ds = map column_core cs"
    using assms(1) unfolding extends_columns_def by blast
  then obtain es n where e: "c_columns C k u = Some (es @ n)" "map column_core es = map column_core (ds @ m)"
    using assms(2) unfolding extends_columns_def by blast
  have "length ds \<le> length es" using e(2) by (metis length_append length_map le_add1)
  moreover have "map column_core (take (length ds) es) = map column_core ds"
    using e(2) by (metis append_eq_conv_conj map_append length_map take_map)
  ultimately show "\<exists>ds more. c_columns C k u = Some (ds @ more) \<and> map column_core ds = map column_core cs"
    using e(1) d(2) by (intro exI[of _ "take (length ds) es"] exI[of _ "drop (length ds) es @ n"]) simp
qed

lemma extends_fold:
  assumes "\<And>x g. x \<in> set xs \<Longrightarrow> extends_columns C g (f x g)"
  shows "extends_columns C g (fold f xs g)"
  using assms
proof (induction xs arbitrary: g)
  case (Cons x xs)
  have "extends_columns C g (f x g)" using Cons.prems by simp
  moreover have "extends_columns C (f x g) (fold f xs (f x g))" using Cons by simp
  ultimately show ?case using extends_trans by simp
qed (simp add: extends_refl)

lemma core_set_indexed: "map column_core (cs[k := set_indexed b (cs ! k)]) = map column_core cs"
proof (cases "k < length cs")
  case True
  have "column_core (set_indexed b c) = column_core c" for c by (simp add: column_core_def set_indexed_def)
  then show ?thesis by (simp add: map_update) (metis True list_update_id nth_map)
qed (simp add: list_update_beyond)

lemma extends_index:
  assumes "core_laws C"
  shows "extends_columns C g (c_add_index C t k g)" "extends_columns C g (c_remove_index C t k g)"
proof -
  have e: "extends_columns C g (f g)"
    if "\<And>u. c_columns C (f g) u = (if u = t then map_option (\<lambda>cs. cs[k := set_indexed b (cs ! k)]) (c_columns C g t)
      else c_columns C g u)" for f b
    unfolding extends_columns_def that
  proof (intro allI impI)
    fix u cs assume "c_columns C g u = Some cs"
    then show "\<exists>ds more. (if u = t then map_option (\<lambda>cs. cs[k := set_indexed b (cs ! k)]) (c_columns C g t)
        else c_columns C g u) = Some (ds @ more) \<and> map column_core ds = map column_core cs"
      by (intro exI[of _ "if u = t then cs[k := set_indexed b (cs ! k)] else cs"] exI[of _ "[]"])
        (auto simp: core_set_indexed)
  qed
  show "extends_columns C g (c_add_index C t k g)" "extends_columns C g (c_remove_index C t k g)"
    by (rule e, rule core_lawsD[OF assms])+
qed

lemma insert_nth_end: "insert_nth (length xs) x xs = xs @ [x]"
  by (simp add: insert_nth_def)

lemma extends_add_column:
  assumes "core_laws C"
  shows "extends_columns C g (add_column C t p g)"
proof -
  have ins: "extends_columns C g (c_insert_column C t (column_count C g t) c g)" for c
    unfolding extends_columns_def
  proof (intro allI impI)
    fix u cs assume u: "c_columns C g u = Some cs"
    show "\<exists>ds more. c_columns C (c_insert_column C t (column_count C g t) c g) u = Some (ds @ more) \<and>
        map column_core ds = map column_core cs"
    proof (cases "u = t")
      case True
      then have "c_columns C (c_insert_column C t (column_count C g t) c g) u = Some (cs @ [c])"
        using u by (simp add: core_lawsD[OF assms] column_count_def insert_nth_end)
      then show ?thesis by blast
    next
      case False
      then show ?thesis using u by (intro exI[of _ cs] exI[of _ "[]"]) (simp add: core_lawsD[OF assms])
    qed
  qed
  show ?thesis
    unfolding add_column_def insert_column_def Let_def
    using ins extends_trans[OF ins extends_index(1)[OF assms]] by auto
qed

lemma extends_create:
  assumes "core_laws C"
  shows "extends_columns C g (create_table C os g)"
  unfolding extends_columns_def using create_table_keeps[OF assms] by (metis append_Nil2)

lemma extends_initial:
  assumes "core_laws C"
  shows "extends_columns C g (add_initial_columns C os g)"
  unfolding add_initial_columns_def
  by (rule extends_fold) (simp add: extends_refl extends_add_column[OF assms])

lemma additive_extends:
  assumes "core_laws C"
  shows "extends_columns C g (apply_additive_changes C cs upd g)"
  unfolding apply_additive_changes_def
proof (rule extends_fold)
  fix c g show "extends_columns C g (apply_additive C upd c g)"
    by (cases c) (simp_all add: extends_refl extends_create extends_initial extends_add_column extends_index assms)
qed

section \<open>Removing columns by their old positions\<close>

lemma nths_cong_below: "(\<And>i. i < length xs \<Longrightarrow> i \<in> A \<longleftrightarrow> i \<in> B) \<Longrightarrow> nths xs A = nths xs B"
  unfolding nths_def by (intro arg_cong[where f = "map fst"] filter_cong) (auto simp: set_zip)

lemma nths_remove_nth:
  assumes "k < length xs" "\<forall>i \<in> S. i < k"
  shows "nths (remove_nth k xs) (- S) = nths xs (- insert k S)"
proof -
  define a x b where "a = take k xs" and "x = xs ! k" and "b = drop (Suc k) xs"
  have xs: "xs = a @ x # b" using assms(1) by (simp add: a_def x_def b_def id_take_nth_drop)
  have l: "length a = k" using assms(1) by (simp add: a_def)
  have r: "remove_nth k xs = a @ b" by (simp add: remove_nth_def a_def b_def)
  have S: "j + k \<notin> S" "Suc j + k \<notin> S" for j using assms(2) by fastforce+
  have "nths b {j. j + k \<in> - S} = b" by (rule nths_all) (simp add: S)
  moreover have "nths (x # b) {j. j + k \<in> - insert k S} = b"
  proof -
    have "nths b {j. Suc j \<in> {j. j + k \<in> - insert k S}} = b" by (rule nths_all) (use S in simp)
    then show ?thesis by (simp add: nths_Cons)
  qed
  moreover have "nths a (- S) = nths a (- insert k S)" by (rule nths_cong_below) (use l in auto)
  ultimately show ?thesis unfolding r unfolding xs nths_append l by simp
qed

lemma foldl_remove_nth:
  assumes "sorted_wrt (>) ks" "\<forall>k \<in> set ks. k < length xs"
  shows "foldl (\<lambda>xs k. remove_nth k xs) xs ks = nths xs (- set ks)"
  using assms
proof (induction ks arbitrary: xs)
  case (Cons k ks)
  have below: "\<forall>i \<in> set ks. i < k" using Cons.prems(1) by simp
  have "\<forall>i \<in> set ks. i < length (remove_nth k xs)"
    using below Cons.prems(2) by (fastforce simp: remove_nth_def)
  then show ?case using Cons.IH[of "remove_nth k xs"] Cons.prems below nths_remove_nth[of k xs "set ks"] by simp
qed (simp add: nths_all)

text \<open>The columns a list of changes removes from a table, in the order of the list.\<close>

fun removed_of :: "string \<Rightarrow> schema_change \<Rightarrow> size list" where
  "removed_of u (Remove_Property os p) = (if object_table os = u then [p_column p] else [])"
| "removed_of u c = []"

definition removed_columns :: "string \<Rightarrow> schema_change list \<Rightarrow> size list" where
  "removed_columns u cs = concat (map (removed_of u) cs)"

lemma removed_columns_simps [simp]:
  "removed_columns u [] = []"
  "removed_columns u (c # cs) = removed_of u c @ removed_columns u cs"
  "removed_columns u (cs @ ds) = removed_columns u cs @ removed_columns u ds"
  by (simp_all add: removed_columns_def)

lemma removed_columns_keep: "\<forall>c \<in> set cs. is_not_remove c \<Longrightarrow> removed_columns u cs = []"
proof (induction cs)
  case (Cons c cs)
  then show ?case by (cases c) auto
qed simp

text \<open>In the order of \<open>compare\<close> they are descending.\<close>

lemma removed_columns_sorted:
  assumes "removals_late cs"
  shows "sorted_wrt (\<ge>) (removed_columns u cs)"
proof -
  obtain A R N where s: "cs = A @ R @ N" "\<forall>c \<in> set A. is_not_remove c" "\<forall>c \<in> set R. \<not> is_not_remove c"
    "sorted_wrt (\<lambda>a b. removed_column b \<le> removed_column a) R" "\<forall>c \<in> set N. \<exists>os. c = Add_Initial_Properties os"
    using assms unfolding removals_late_def by blast
  have "\<forall>c \<in> set N. is_not_remove c" using s(5) by auto
  then have e: "removed_columns u cs = removed_columns u R" using s(1,2) by (simp add: removed_columns_keep)
  have "sorted_wrt (\<ge>) (removed_columns u R) \<and> set (removed_columns u R) \<subseteq> removed_column ` set R"
    using s(3,4)
  proof (induction R)
    case (Cons c R)
    then obtain os p where c: "c = Remove_Property os p" by (cases c) auto
    have IH: "sorted_wrt (\<ge>) (removed_columns u R)" "set (removed_columns u R) \<subseteq> removed_column ` set R"
      using Cons by simp_all
    have "\<forall>r \<in> set R. removed_column r \<le> p_column p" using Cons.prems(2) c by simp
    then have "\<forall>k \<in> set (removed_columns u R). k \<le> p_column p" using IH(2) by blast
    then show ?case using IH c by auto
  qed simp
  then show ?thesis using e by simp
qed

lemma strict_of_distinct: "sorted_wrt (\<ge>) ks \<Longrightarrow> distinct ks \<Longrightarrow> sorted_wrt (>) (ks :: nat list)"
  by (induction ks) (auto simp: order.strict_iff_order)

lemma removed_property_changes:
  "removed_columns u (property_changes e t p) =
    (if object_table e = u \<and> (\<exists>os q. Remove_Property os q \<in> set (property_changes e t p)) then [p_column p] else [])"
  by (cases "property_for_name t (p_name p)") (auto simp: property_changes_def)

lemma removed_object_changes:
  "removed_columns u (object_changes e t) =
    (if object_table e = u
     then map p_column (filter (\<lambda>p. \<exists>os q. Remove_Property os q \<in> set (property_changes e t p)) (os_persisted e))
     else [])"
proof -
  have "removed_columns u (concat (map (property_changes e t) ps)) =
    (if object_table e = u
     then map p_column (filter (\<lambda>p. \<exists>os q. Remove_Property os q \<in> set (property_changes e t p)) ps) else [])" for ps
    by (induction ps) (auto simp: removed_property_changes)
  moreover have "removed_columns u (map (Add_Property e) qs) = []" for qs by (rule removed_columns_keep) auto
  ultimately show ?thesis by (simp add: object_changes_def)
qed

lemma removed_pairs_none:
  assumes "u \<notin> object_table ` set e"
  shows "removed_columns u (concat (map (pair_changes inc) (zip_matching t e))) = []"
  using assms
proof (induction t e rule: zip_matching.induct)
  case (1 a as b bs)
  then show ?case by (auto simp: removed_object_changes)
next
  case (2 as)
  show ?case by (induction as) simp_all
next
  case (3 b bs)
  have "removed_columns u (concat (map (pair_changes inc) (map (\<lambda>b. (None, Some b)) xs))) = []" for xs
    by (induction xs) simp_all
  from this[of "b # bs"] show ?case by (simp del: list.map pair_changes_simps)
qed

lemma removed_pairs:
  assumes "distinct (map os_name e)" "\<forall>os \<in> set e. distinct (map p_column (os_persisted os))"
  shows "distinct (removed_columns u (concat (map (pair_changes inc) (zip_matching t e)))) \<and>
    (\<forall>k \<in> set (removed_columns u (concat (map (pair_changes inc) (zip_matching t e)))).
      \<exists>os \<in> set e. object_table os = u \<and> k \<in> p_column ` set (os_persisted os))"
  using assms
proof (induction t e rule: zip_matching.induct)
  case (1 a as b bs)
  consider "os_name a = os_name b" | "os_name a \<noteq> os_name b" "os_name a < os_name b"
    | "os_name a \<noteq> os_name b" "\<not> os_name a < os_name b" by blast
  then show ?case
  proof cases
    case 1
    have fresh: "object_table b = u \<Longrightarrow> u \<notin> object_table ` set bs"
      using "1.prems"(1) by (auto simp: object_table_def)
    have IH: "distinct (removed_columns u (concat (map (pair_changes inc) (zip_matching as bs))))"
      "\<forall>k \<in> set (removed_columns u (concat (map (pair_changes inc) (zip_matching as bs)))).
        \<exists>os \<in> set bs. object_table os = u \<and> k \<in> p_column ` set (os_persisted os)"
      using "1.IH"(1)[OF 1] "1.prems" by simp_all
    have dp: "distinct (map p_column (filter P (os_persisted b)))" for P
      using "1.prems"(2) by (simp add: distinct_map_filter)
    show ?thesis
    proof (cases "object_table b = u")
      case True
      then show ?thesis
        using 1 dp removed_pairs_none[OF fresh[OF True], of inc as]
        by (auto simp: removed_object_changes)
    next
      case False
      then show ?thesis using 1 IH by (simp add: removed_object_changes)
    qed
  next
    case 2
    then show ?thesis using "1.IH"(2) "1.prems" by simp
  next
    case 3
    then show ?thesis using "1.IH"(3) "1.prems" by simp
  qed
next
  case (2 as)
  have "removed_columns u (concat (map (pair_changes inc) (map (\<lambda>a. (Some a, None)) as))) = []"
    by (induction as) simp_all
  then show ?case by simp
next
  case (3 b bs)
  have "removed_columns u (concat (map (pair_changes inc) (map (\<lambda>b. (None, Some b)) xs))) = []" for xs
    by (induction xs) simp_all
  from this[of "b # bs"] show ?case by (simp del: list.map pair_changes_simps)
qed

lemma mset_removed_columns:
  "mset cs = mset ds \<Longrightarrow> mset (removed_columns u cs) = mset (removed_columns u ds)"
proof -
  have "mset (removed_columns u cs) = sum_mset (image_mset (\<lambda>c. mset (removed_of u c)) (mset cs))" for cs
    by (induction cs) simp_all
  then show "mset cs = mset ds \<Longrightarrow> mset (removed_columns u cs) = mset (removed_columns u ds)" by simp
qed

lemma compare_removed_columns:
  assumes "distinct (map os_name e)" "\<forall>os \<in> set e. distinct (map p_column (os_persisted os))"
  shows "sorted_wrt (>) (removed_columns u (schema_compare e t inc))"
    and "k \<in> set (removed_columns u (schema_compare e t inc)) \<Longrightarrow>
      \<exists>os \<in> set e. object_table os = u \<and> k \<in> p_column ` set (os_persisted os)"
proof -
  let ?ds = "concat (map (pair_changes inc) (zip_matching t e))"
  have m: "mset (removed_columns u (schema_compare e t inc)) = mset (removed_columns u ?ds)"
    by (rule mset_removed_columns[OF mset_compare])
  then have "distinct (removed_columns u (schema_compare e t inc))"
    using removed_pairs[OF assms] by (metis mset_eq_imp_distinct_iff)
  then show "sorted_wrt (>) (removed_columns u (schema_compare e t inc))"
    by (rule strict_of_distinct[OF removed_columns_sorted[OF compare_removals_late]])
  show "k \<in> set (removed_columns u (schema_compare e t inc)) \<Longrightarrow>
      \<exists>os \<in> set e. object_table os = u \<and> k \<in> p_column ` set (os_persisted os)"
    using removed_pairs[OF assms] mset_eq_setD[OF m] by blast
qed

section \<open>After the migration\<close>

definition column_names :: "('g, 'v) core_ops \<Rightarrow> 'g \<Rightarrow> string \<Rightarrow> string list option" where
  "column_names C g u = map_option (map cc_name) (c_columns C g u)"

lemma names_set_indexed: "map cc_name (cs[k := set_indexed b (cs ! k)]) = map cc_name cs"
proof (cases "k < length cs")
  case True
  then show ?thesis by (simp add: map_update set_indexed_def) (metis True list_update_id nth_map)
qed (simp add: list_update_beyond)

lemma post_migration_step:
  assumes C: "core_laws C" and r: "apply_post_migration C initial False c g = Inr g'"
    and u: "column_names C g u = Some ns"
  shows "column_names C g' u = Some (foldl (\<lambda>xs k. remove_nth k xs) ns (removed_of u c))"
proof (cases c)
  case (Remove_Property os p)
  then have "g' = c_remove_column C (object_table os) (p_column p) g" using r by (simp split: if_splits)
  then show ?thesis
    using u Remove_Property by (auto simp: column_names_def core_lawsD[OF C] remove_nth_def take_map drop_map)
next
  case (Add_Table os)
  then show ?thesis using r u create_table_keeps[OF C] by (auto simp: column_names_def)
next
  case (Add_Index os p)
  then show ?thesis using r u by (auto simp: column_names_def core_lawsD[OF C] names_set_indexed)
next
  case (Remove_Index os p)
  then show ?thesis using r u by (auto simp: column_names_def core_lawsD[OF C] names_set_indexed)
next
  case (Change_Primary_Key os pk)
  then have "g' = g" using r by (auto split: option.splits if_splits)
  then show ?thesis using u Change_Primary_Key by simp
qed (use r u in simp_all)

lemma post_migration_names:
  assumes C: "core_laws C" and r: "apply_post_migration_changes C initial False cs g = Inr g'"
    and u: "column_names C g u = Some ns"
  shows "column_names C g' u = Some (foldl (\<lambda>xs k. remove_nth k xs) ns (removed_columns u cs))"
  using r u
proof (induction cs arbitrary: g ns)
  case (Cons c cs)
  then obtain h where h: "apply_post_migration C initial False c g = Inr h"
    "apply_post_migration_changes C initial False cs h = Inr g'"
    by (auto split: sum.splits)
  from Cons.IH[OF h(2) post_migration_step[OF C h(1) Cons.prems(2)]] show ?case by simp
qed simp

section \<open>A column as it is written and read\<close>

lemma to_from_core_type:
  assumes "base_type t \<in> {PT_Int, PT_Bool, PT_Float, PT_Double, PT_String, PT_Data, PT_Date}"
  shows "from_core_type (Core_Column n (to_core_type t) nl idx tgt []) = base_type t OR (if nl then PT_Nullable else PT_Required)"
  using assms by (auto simp: to_core_type_def PT_defs Let_def)

end
