(* ===== verification/Schema_Properties.thy ===== *)
theory Schema_Properties
  imports Schema_Validate Object_Store_Laws
begin

text \<open>
  What validation, comparison and migration of schemas guarantee, with the inputs on which the
  source does not do what it means to.
\<close>

section \<open>Small schemas for the examples\<close>

definition int_property :: "string \<Rightarrow> size \<Rightarrow> property" where
  "int_property n col = (make_property n PT_Int False False [])\<lparr>p_column := col\<rparr>"

definition schema_ab :: schema where
  "schema_ab = [\<lparr>os_name = ''T'', os_persisted = [int_property ''b'' 0, int_property ''a'' 1], os_computed = [],
     os_primary_key = []\<rparr>]"

definition schema_b :: schema where
  "schema_b = [\<lparr>os_name = ''T'', os_persisted = [int_property ''b'' 0], os_computed = [], os_primary_key = []\<rparr>]"

lemma schema_ab_named: "well_named schema_ab" "\<forall>os \<in> set schema_ab. os_computed os = []"
  by (simp_all add: well_named_def sorted_schema_def schema_ab_def int_property_def make_property_def property_is_computed_def)

lemma schema_b_named: "well_named schema_b"
  by (simp add: well_named_def sorted_schema_def schema_b_def int_property_def make_property_def property_is_computed_def)

section \<open>Validation\<close>

text \<open>
  C36. A schema whose class names and link targets are ASCII passes validation exactly when it is
  valid as the code means it: type names are unique, property names and aliases are unique and do not clash,
  at most one property is primary, every property has an allowed combination of type and flags, and every
  link and every origin of linking objects resolves.  The type of a primary key is looked at without its
  flags, so that an array is taken for one.  For other names the lookup of classes may fail
  (\<open>find_misses_class\<close>).
\<close>

theorem validation_exact:
  assumes "sorted_schema s" "ascii_links s"
  shows "schema_validate s = Inr () \<longleftrightarrow> schema_valid s"
  by (rule schema_validate_iff[OF assms])

theorem validation_exact_witness: "schema_validate schema_b = Inr ()"
proof -
  have "sorted_schema schema_b" by (simp add: sorted_schema_def schema_b_def)
  moreover have "ascii_links schema_b"
    by (simp add: ascii_links_def ascii_schema_def ascii_def schema_b_def all_properties_def int_property_def
        make_property_def of_char_def)
  moreover have "schema_valid schema_b"
    by (simp add: schema_valid_def object_valid_def schema_b_def all_properties_def int_property_def
        make_property_def type_allowed_def links_resolve_def type_eq_def base_type_def PT_defs)
  ultimately show ?thesis using validation_exact by blast
qed

text \<open>
  A schema holding the two classes ``a'' and ``\<open>\<guillemotleft>0xC3 0x84\<guillemotright>\<close>'' (an A with diaeresis in UTF-8) is
  sorted by unsigned bytes when it is built but searched by signed bytes: the class ``a'' is in it
  and is not found.
\<close>

theorem find_misses_class:
  "\<exists>x y. make_schema [x, y] = [x, y] \<and> os_name x = ''a'' \<and> os_name y = [Char True True False False False False True True,
     Char False False True False False False False True] \<and> schema_find (make_schema [x, y]) ''a'' = None"
proof -
  define x where "x = make_object_schema ''a'' [] []"
  define y where "y = make_object_schema [Char True True False False False False True True,
     Char False False True False False False False True] [] []"
  have n: "os_name x = ''a''" "os_name y = [Char True True False False False False True True,
     Char False False True False False False False True]" by (simp_all add: x_def y_def make_object_schema_def)
  then have s: "make_schema [x, y] = [x, y]" by (simp add: make_schema_def less_eq_char_def)
  have "sd_less (os_name y) ''a''" "\<not> sd_less (os_name x) ''a''"
    by (simp_all add: n sd_less_def sd_key_def signed_char_def of_char_def)
  then have "lower_bound (\<lambda>i. sd_less (os_name ([x, y] ! i)) ''a'') 0 2 = 2"
    by (simp add: lower_bound.simps numeral_2_eq_2 Let_def)
  then have "schema_find [x, y] ''a'' = None" by (simp add: schema_find_def numeral_2_eq_2)
  then show ?thesis using n s by metis
qed

section \<open>Comparison\<close>

text \<open>
  C4. Applying the changes \<open>compare\<close> computes turns the columns of the existing schema into those
  of the target: every property of a target class has its type, flags, link target and index, every
  other property of that class is gone, and classes outside the target stay (or go, when removals
  are asked for).  The reordering done by the partition and the sort does not matter.
\<close>

theorem compare_reaches_target:
  assumes "well_named e" "\<forall>os \<in> set e. os_computed os = []" "well_named t"
  shows "apply_changes (schema_compare e t inc) obj n (columns_of existing_cell e obj n) =
    (if obj \<in> os_name ` set t then columns_of target_cell t obj n
     else if inc then None else columns_of existing_cell e obj n)"
  by (rule compare_effect[OF assms])

theorem compare_reaches_target_witness:
  "apply_changes (schema_compare schema_ab schema_b False) ''T'' ''a'' (columns_of existing_cell schema_ab ''T'' ''a'') = None"
  using compare_reaches_target[OF schema_ab_named schema_b_named, of False "''T''" "''a''"]
  by (simp add: schema_b_def columns_of_def lookup_cell_def int_property_def make_property_def)

text \<open>
  When versions are equal and \<open>compare\<close> reports anything at all, the check of the manual mode
  throws, so the point after it that the source marks as unreachable is not reached.
\<close>

theorem manual_mode_never_falls_through:
  "needs_write_transaction Manual v (schema_compare e t False) v \<noteq> Inl Reached_Unreachable"
proof -
  have "\<exists>c \<in> set (schema_compare e t False). \<not> changes_nothing c" if "schema_compare e t False \<noteq> []"
  proof -
    have m: "set (schema_compare e t False) = (\<Union>p \<in> set (zip_matching t e). set (pair_changes False p))"
      using mset_eq_setD[OF mset_compare[of e t False]] by simp
    from that obtain c where "c \<in> set (schema_compare e t False)" by (cases "schema_compare e t False") auto
    then obtain p where c: "c \<in> set (pair_changes False p)" "p \<in> set (zip_matching t e)"
      unfolding m by (rule UN_E)
    have "\<exists>d \<in> set (pair_changes False p). \<not> changes_nothing d"
    proof -
      consider t e where "p = (Some t, Some e)" | t where "p = (Some t, None)" | e where "p = (None, Some e)"
        | "p = (None, None)" by (metis option.exhaust surj_pair)
      then show ?thesis
      proof cases
        case (1 t e)
        have "\<not> changes_nothing d" if "d \<in> set (property_changes e t q)" for d q
          using that by (cases "property_for_name t (p_name q)") (auto simp: property_changes_def split: if_splits)
        then have "\<not> changes_nothing c" using c(1) 1 by (auto simp: object_changes_def split: if_splits)
        then show ?thesis using c(1) by blast
      qed (use c in auto)
    qed
    then show ?thesis using c(2) m by blast
  qed
  then have "schema_compare e t False = [] \<or> verify_no_changes_required (schema_compare e t False) \<noteq> Inr ()"
    using verify_nothing_iff by blast
  then show ?thesis
    by (cases "verify_no_changes_required (schema_compare e t False)") (auto simp: needs_write_transaction_def)
qed

section \<open>Modes\<close>

text \<open>
  \<open>verify_no_migration_required\<close> throws exactly when \<open>needs_migration\<close> answers yes; the changes
  that need no migration are also accepted by the additive mode, and what the read-only modes
  accept is also accepted by the additive mode.
\<close>

theorem migration_checks_agree:
  "(verify_no_migration_required cs = Inr () \<longleftrightarrow> \<not> needs_migration cs) \<and>
   (verify_no_migration_required cs = Inr () \<longrightarrow> (\<exists>b. verify_valid_additive_changes cs upd = Inr b)) \<and>
   (verify_compatible_for_readonly cs = Inr () \<longrightarrow> (\<exists>b. verify_valid_additive_changes cs upd = Inr b))"
proof -
  have "\<not> change_needs_migration c \<Longrightarrow> \<not> rewrites_data c" for c by (cases c) simp_all
  then show ?thesis
    using verify_migration_iff[of cs] verify_additive_cases(1)[of cs upd] verify_readonly_iff[of cs]
    by (auto simp: needs_migration_def list_ex_iff)
qed

theorem migration_checks_agree_witness:
  "\<exists>b. verify_valid_additive_changes [Add_Table (hd schema_b)] False = Inr b"
proof -
  have "\<not> needs_migration [Add_Table (hd schema_b)]" by (simp add: needs_migration_def)
  then show ?thesis using migration_checks_agree[of "[Add_Table (hd schema_b)]" False] by blast
qed

text \<open>
  C38. The Realm decides to do without a write transaction only when nothing needs writing: either
  nothing changed, or the mode is read-only and no existing data or missing property is concerned,
  or the mode is additive, the version is the same, and nothing is added or rewritten.
\<close>

theorem no_write_only_when_safe:
  assumes "needs_write_transaction mode current changes version = Inr No_Write"
  shows "version = current \<and> changes = [] \<or>
    (mode = Immutable \<or> mode = Read_Only_Alternative) \<and>
      (\<forall>c \<in> set changes. \<not> rewrites_data c \<and> \<not> is_property_addition c) \<or>
    mode = Additive \<and> version = current \<and> (\<forall>c \<in> set changes. \<not> rewrites_data c \<and> \<not> is_addition c)"
  using no_write_cases[OF assms] by blast

theorem no_write_only_when_safe_witness:
  "\<not> is_property_addition (Add_Table (hd schema_b))"
proof -
  have "needs_write_transaction Immutable 3 [Add_Table (hd schema_b)] 3 = Inr No_Write"
    by (simp add: needs_write_transaction_def verify_compatible_for_readonly_def verify_no_errors_def)
  from no_write_only_when_safe[OF this] show ?thesis by simp
qed

text \<open>
  The immutable mode opens a file that has a property the schema does not have, although its
  documentation requires the tables present in the file to match the schema exactly.
\<close>

theorem immutable_accepts_extra_property:
  "needs_write_transaction Immutable v (schema_compare schema_ab schema_b False) v = Inr No_Write \<and>
   (\<exists>os p. Remove_Property os p \<in> set (schema_compare schema_ab schema_b False))"
proof -
  let ?os = "hd schema_ab" and ?p = "int_property ''a'' 1"
  have "object_changes ?os (hd schema_b) = [Remove_Property ?os ?p]"
    by (simp add: object_changes_def property_changes_def property_for_name_def property_is_computed_def schema_ab_def
        schema_b_def int_property_def make_property_def requires_index_def type_eq_def)
  moreover have "zip_matching schema_b schema_ab = [(Some (hd schema_b), Some ?os)]"
    by (simp add: schema_ab_def schema_b_def)
  ultimately have m: "mset (schema_compare schema_ab schema_b False) = {#Remove_Property ?os ?p#}"
    by (simp add: mset_compare)
  then have "schema_compare schema_ab schema_b False = [Remove_Property ?os ?p]" by simp
  then show ?thesis
    by (auto simp: needs_write_transaction_def verify_compatible_for_readonly_def verify_no_errors_def)
qed

section \<open>Migration\<close>

text \<open>
  C25. In the additive mode no stored column is lost or moved: every table keeps its columns, at
  their positions, with their names, types and targets; new columns only follow them.
\<close>

theorem additive_changes_keep_columns:
  assumes "core_laws C" "c_columns C g u = Some cs"
  shows "\<exists>ds more. c_columns C (apply_additive_changes C changes upd g) u = Some (ds @ more) \<and>
    map column_core ds = map column_core cs"
  using additive_extends[OF assms(1), of g changes upd] assms(2) unfolding extends_columns_def by blast

definition toy_table :: "string \<Rightarrow> core_column list option" where
  "toy_table = (\<lambda>t. if t = ''class_T'' then Some [Core_Column ''b'' Core_Int False False [] [],
     Core_Column ''a'' Core_Int False False [] []] else None)"

theorem additive_changes_keep_columns_witness:
  "\<exists>cs. c_columns toy_core (apply_additive_changes toy_core (schema_compare schema_ab schema_b False) True toy_table)
     ''class_T'' = Some cs \<and> 2 \<le> length cs"
proof -
  have "c_columns toy_core toy_table ''class_T'' = Some [Core_Column ''b'' Core_Int False False [] [],
     Core_Column ''a'' Core_Int False False [] []]" by (simp add: toy_core_def toy_table_def)
  from additive_changes_keep_columns[OF toy_core_laws this, of "schema_compare schema_ab schema_b False" True]
  obtain ds more where d: "c_columns toy_core (apply_additive_changes toy_core
      (schema_compare schema_ab schema_b False) True toy_table) ''class_T'' = Some (ds @ more)"
    "map column_core ds = map column_core [Core_Column ''b'' Core_Int False False [] [],
     Core_Column ''a'' Core_Int False False [] []]" by blast
  have "length ds = 2" using arg_cong[OF d(2), of length] by simp
  then show ?thesis using d(1) by (intro exI[of _ "ds @ more"]) simp
qed

text \<open>
  C15. After a migration without a migration function the removed properties' columns, and only
  those, are gone from every table, although each removal shifts the columns behind it: the
  recorded positions stay right because \<open>compare\<close> orders the removals by descending column, over
  all classes at once.
\<close>

theorem post_migration_removes_exactly:
  assumes "core_laws C" "distinct (map os_name e)" "\<forall>os \<in> set e. distinct (map p_column (os_persisted os))"
    and "\<forall>os \<in> set e. object_table os = u \<longrightarrow> (\<forall>p \<in> set (os_persisted os). p_column p < length ns)"
    and "column_names C g u = Some ns"
    and "apply_post_migration_changes C initial False (schema_compare e t inc) g = Inr g'"
  shows "column_names C g' u = Some (nths ns (- set (removed_columns u (schema_compare e t inc))))"
proof -
  note R = compare_removed_columns[OF assms(2,3)]
  have "\<forall>k \<in> set (removed_columns u (schema_compare e t inc)). k < length ns"
    using R(2) assms(4) by blast
  then show ?thesis
    using post_migration_names[OF assms(1,6,5)] foldl_remove_nth[OF R(1)] by simp
qed

theorem post_migration_removes_exactly_witness:
  "\<exists>g'. column_names toy_core g' ''class_T'' =
     Some (nths [''b'', ''a''] (- set (removed_columns ''class_T'' (schema_compare schema_ab schema_b False))))"
proof -
  have fine: "\<exists>g'. apply_post_migration_changes toy_core [] False cs g = Inr g'"
    if "\<forall>c \<in> set cs. \<exists>os p. c = Remove_Property os p" for cs g
    using that
  proof (induction cs arbitrary: g)
    case (Cons c cs)
    then obtain os p where "c = Remove_Property os p" by auto
    then show ?case using Cons by simp
  qed simp
  have "zip_matching schema_b schema_ab = [(Some (hd schema_b), Some (hd schema_ab))]"
    by (simp add: schema_ab_def schema_b_def)
  then have "set (schema_compare schema_ab schema_b False) = set (object_changes (hd schema_ab) (hd schema_b))"
    using mset_eq_setD[OF mset_compare[of schema_ab schema_b False]] by simp
  moreover have "object_changes (hd schema_ab) (hd schema_b) = [Remove_Property (hd schema_ab) (int_property ''a'' 1)]"
    by (simp add: object_changes_def property_changes_def property_for_name_def property_is_computed_def schema_ab_def
        schema_b_def int_property_def make_property_def requires_index_def type_eq_def)
  ultimately obtain g' where r: "apply_post_migration_changes toy_core [] False (schema_compare schema_ab schema_b False)
      toy_table = Inr g'" using fine[of "schema_compare schema_ab schema_b False" toy_table] by auto
  have e: "distinct (map os_name schema_ab)" "\<forall>os \<in> set schema_ab. distinct (map p_column (os_persisted os))"
    "\<forall>os \<in> set schema_ab. object_table os = ''class_T'' \<longrightarrow> (\<forall>p \<in> set (os_persisted os). p_column p < length [''b'', ''a''])"
    by (simp_all add: schema_ab_def int_property_def make_property_def)
  have "column_names toy_core toy_table ''class_T'' = Some [''b'', ''a'']"
    by (simp add: column_names_def toy_core_def toy_table_def)
  from post_migration_removes_exactly[OF toy_core_laws e this r] show ?thesis by blast
qed

section \<open>Storing and reading back\<close>

text \<open>The types a validated persisted property can have, and the form in which a column remembers them.\<close>

definition stored_type :: "prop_type \<Rightarrow> bool" where
  "stored_type t \<longleftrightarrow> t = PT_Object OR PT_Nullable \<or> t = PT_Object OR PT_Array \<or>
     (\<exists>b \<in> {PT_Int, PT_Bool, PT_Float, PT_Double, PT_String, PT_Data, PT_Date}.
        t \<in> {b, b OR PT_Nullable, b OR PT_Array, b OR PT_Nullable OR PT_Array})"

definition as_stored :: "property \<Rightarrow> size \<Rightarrow> property" where
  "as_stored p k = p\<lparr>p_public_name := [], p_is_primary := False,
     p_is_indexed := requires_index p \<and> \<not> is_array (p_type p) \<and> \<not> type_eq (p_type p) PT_Object, p_column := k\<rparr>"

text \<open>The column \<open>insert_column\<close> puts into the table.\<close>

definition new_column :: "property \<Rightarrow> core_column" where
  "new_column p =
     (if type_eq (p_type p) PT_Object then
        Core_Column (p_name p) (if is_array (p_type p) then Core_Link_List else Core_Link) False False
          (table_name_for_object_type (p_object_type p)) []
      else if is_array (p_type p) then
        Core_Column (p_name p) Core_Table False False []
          [Core_Column array_column_name (to_core_type (base_type (p_type p))) (is_nullable (p_type p)) False [] []]
      else Core_Column (p_name p) (to_core_type (p_type p)) (is_nullable (p_type p)) (requires_index p) [] [])"

lemma insert_nth_at: "k \<le> length xs \<Longrightarrow> insert_nth k x xs ! k = x \<and> k < length (insert_nth k x xs)"
  by (simp add: insert_nth_def nth_append)

lemma insert_column_columns:
  assumes "core_laws C" "c_columns C g t = Some cs" "k \<le> length cs"
  shows "c_columns C (insert_column C t p k g) t = Some (insert_nth k (new_column p) cs)"
  using assms insert_nth_at[OF assms(3)]
  by (simp add: insert_column_def new_column_def core_lawsD Let_def set_indexed_def insert_nth_def list_update_append)

lemma from_new_column:
  assumes "stored_type (p_type p)"
  shows "from_core_type (new_column p) = p_type p"
  using assms unfolding stored_type_def new_column_def
  by (elim disjE bexE insertE; simp add: type_eq_def is_array_def is_nullable_def to_core_type_def base_type_def PT_defs Let_def)

lemma to_core_not_table: "to_core_type t \<noteq> Core_Table"
  by (simp add: to_core_type_def Let_def)

lemma new_column_parts:
  "cc_name (new_column p) = p_name p"
  "cc_indexed (new_column p) \<longleftrightarrow> requires_index p \<and> \<not> is_array (p_type p) \<and> \<not> type_eq (p_type p) PT_Object"
  "cc_type (new_column p) = Core_Table \<Longrightarrow> length (cc_sub (new_column p)) = 1 \<and> cc_name (hd (cc_sub (new_column p))) = array_column_name"
  "type_eq (p_type p) PT_Object \<Longrightarrow> cc_target (new_column p) = table_name_for_object_type (p_object_type p)"
  by (auto simp: new_column_def to_core_not_table split: if_splits)

text \<open>
  C37. A property written as a column is read back from it: name, type with its flags, link target and
  index come back as they were stored (public name and primary mark are kept elsewhere), at the column
  it was inserted at.
\<close>

theorem column_round_trip:
  assumes "core_laws C" "c_columns C g t = Some cs" "k \<le> length cs"
    and "stored_type (p_type p)" "p_name p \<noteq> c_object_id_column C" "p_link_origin p = []"
    and "\<not> type_eq (p_type p) PT_Object \<longrightarrow> p_object_type p = []"
  shows "\<exists>ds. c_columns C (insert_column C t p k g) t = Some ds \<and>
    property_for_column_index C ds k = Some (as_stored p k)"
proof -
  let ?ds = "insert_nth k (new_column p) cs"
  have n: "?ds ! k = new_column p" using insert_nth_at[OF assms(3)] by blast
  have "property_for_column_index C ?ds k = Some (as_stored p k)"
    unfolding property_for_column_index_def n Let_def from_new_column[OF assms(4)] new_column_parts(1,2)
    using assms(5-7) new_column_parts(3,4)[of p]
    by (cases p) (auto simp: as_stored_def)
  then show ?thesis using insert_column_columns[OF assms(1-3)] by blast
qed

theorem column_round_trip_witness:
  "\<exists>ds. c_columns toy_core (insert_column toy_core ''class_T'' (int_property ''c'' 0) 2 toy_table) ''class_T'' = Some ds \<and>
    property_for_column_index toy_core ds 2 = Some (as_stored (int_property ''c'' 0) 2)"
proof -
  have c: "c_columns toy_core toy_table ''class_T'' = Some [Core_Column ''b'' Core_Int False False [] [],
     Core_Column ''a'' Core_Int False False [] []]" by (simp add: toy_core_def toy_table_def)
  have "stored_type (p_type (int_property ''c'' 0))" "p_name (int_property ''c'' 0) \<noteq> c_object_id_column toy_core"
    "p_link_origin (int_property ''c'' 0) = []" "p_object_type (int_property ''c'' 0) = []"
    by (simp_all add: stored_type_def int_property_def make_property_def PT_defs toy_core_def)
  then show ?thesis using column_round_trip[OF toy_core_laws c, of 2 "int_property ''c'' 0"] by simp
qed

text \<open>
  Renaming onto a property whose column stands before the old one: the old column moves down by one
  when the new property's column is removed, but the target schema keeps the position from before,
  which is past the last column of the table.
\<close>

theorem rename_leaves_stale_column:
  "\<exists>g' target' p cs. rename_property toy_core schema_b ''T'' ''a'' ''b'' toy_table = Inr (g', target') \<and>
     p \<in> set (os_persisted (hd target')) \<and> c_columns toy_core g' ''class_T'' = Some cs \<and> length cs \<le> p_column p"
proof -
  let ?b = "Core_Column ''b'' Core_Int False False [] []" and ?a = "Core_Column ''a'' Core_Int False False [] []"
  define os where "os = object_schema_from_group toy_core toy_table ''T''"
  have tn: "table_name_for_object_type ''T'' = ''class_T''"
    by (simp add: table_name_for_object_type_def class_prefix_def)
  have c: "c_columns toy_core toy_table ''class_T'' = Some [?b, ?a]" by (simp add: toy_core_def toy_table_def)
  have p: "property_for_column_index toy_core [?b, ?a] 0 = Some (int_property ''b'' 0)"
    "property_for_column_index toy_core [?b, ?a] (Suc 0) = Some (int_property ''a'' 1)"
    by (simp_all add: property_for_column_index_def toy_core_def int_property_def make_property_def type_eq_def
        base_type_def PT_defs Let_def)
  have "get_primary_key_for_object toy_core toy_table ''T'' = []"
    by (simp add: get_primary_key_for_object_def toy_core_def)
  then have ps: "os_persisted os = [int_property ''b'' 0, int_property ''a'' 1]"
    unfolding os_def object_schema_from_group_def tn c
    by (simp add: p map_filter_simps set_primary_key_property_def primary_key_property_def)
  have q: "property_for_name os ''a'' = Some (int_property ''a'' 1)" "property_for_name os ''b'' = Some (int_property ''b'' 0)"
    by (simp_all add: property_for_name_def ps int_property_def make_property_def)
  have t: "schema_find schema_b ''T'' = Some (hd schema_b)" "property_for_name (hd schema_b) ''a'' = None"
    "property_for_name (hd schema_b) ''b'' = Some (int_property ''b'' 0)"
    by (simp_all add: schema_find_def schema_b_def lower_bound.simps sd_less_def property_for_name_def int_property_def
       make_property_def)
  have f: "p_column (int_property n k) = k" "p_name (int_property n k) = n" "p_object_type (int_property n k) = []"
    "p_type (int_property n k) = PT_Int" "\<not> is_nullable PT_Int" for n k
    by (simp_all add: int_property_def make_property_def is_nullable_def PT_defs)
  define g' where "g' = c_remove_column toy_core ''class_T'' 0 (c_rename_column toy_core ''class_T'' 1 ''b'' toy_table)"
  define target' where "target' = map (\<lambda>os. if os_name os = ''T'' then os\<lparr>os_persisted := map (\<lambda>p.
      if p_column p = 0 then p\<lparr>p_column := 1\<rparr> else if p_column p > 0 then p\<lparr>p_column := p_column p - 1\<rparr> else p)
      (os_persisted os)\<rparr> else os) schema_b"
  have "rename_property toy_core schema_b ''T'' ''a'' ''b'' toy_table = Inr (g', target')"
    unfolding rename_property_def Let_def tn c t(1) option.case os_def[symmetric] q
    by (simp add: t f g'_def target'_def type_eq_equiv)
  moreover have "int_property ''b'' 1 \<in> set (os_persisted (hd target'))"
    by (simp add: target'_def schema_b_def int_property_def)
  moreover have "c_columns toy_core g' ''class_T'' = Some [set_column_name ''b'' ?a]"
    by (simp add: g'_def core_lawsD[OF toy_core_laws] c remove_nth_def)
  ultimately show ?thesis using f(1)[of "''b''" 1] by fastforce
qed

section \<open>Reading the whole schema\<close>

definition named_columns :: "core_column list \<Rightarrow> property list \<Rightarrow> bool" where
  "named_columns cs ps \<longleftrightarrow> (\<forall>p \<in> set ps. p_column p = column_index cs (p_name p))"

lemma update_first_members:
  "x \<in> set (update_first q f xs) \<Longrightarrow> x \<in> set xs \<or> (\<exists>y \<in> set xs. x = f y)"
  by (induction xs) (auto split: if_splits)

lemma named_columns_primary:
  assumes "named_columns cs (os_persisted os)"
  shows "named_columns cs (os_persisted (set_primary_key_property os))"
  unfolding named_columns_def
proof
  fix p assume p: "p \<in> set (os_persisted (set_primary_key_property os))"
  then have "p \<in> set (os_persisted os) \<or> (\<exists>y \<in> set (os_persisted os). p = y\<lparr>p_is_primary := True\<rparr>)"
    by (auto simp: set_primary_key_property_def update_property_def split: if_splits option.splits
        dest: update_first_members)
  then show "p_column p = column_index cs (p_name p)"
    using assms by (auto simp: named_columns_def)
qed

lemma os_name_primary [simp]: "os_name (set_primary_key_property os) = os_name os"
  by (simp add: set_primary_key_property_def update_property_def split: option.split)

lemma column_index_nth:
  assumes "distinct (map cc_name cs)" "i < length cs"
  shows "column_index cs (cc_name (cs ! i)) = i"
proof -
  have "cc_name (cs ! k) \<noteq> cc_name (cs ! i)" if "k < i" for k
    using that assms by (metis (no_types, lifting) distinct_conv_nth length_map less_trans nat_neq_iff nth_map)
  then have "takeWhile (\<lambda>c. cc_name c \<noteq> cc_name (cs ! i)) cs = take i cs"
    by (intro takeWhile_eq_take_P_nth) simp_all
  then show ?thesis using assms(2) by (simp add: column_index_def)
qed

lemma read_properties_named:
  assumes "distinct (map cc_name cs)"
  shows "named_columns cs (List.map_filter (property_for_column_index C cs) [0..<length cs])"
  unfolding named_columns_def
proof
  fix p assume "p \<in> set (List.map_filter (property_for_column_index C cs) [0..<length cs])"
  then obtain i where i: "i < length cs" "property_for_column_index C cs i = Some p"
    by (auto simp: map_filter_def)
  then have "p_name p = cc_name (cs ! i)" "p_column p = i"
    by (auto simp: property_for_column_index_def Let_def split: if_splits)
  then show "p_column p = column_index cs (p_name p)" using column_index_nth[OF assms i(1)] by simp
qed

lemma map_same_columns:
  "named_columns cs ps \<Longrightarrow> map (\<lambda>p. p\<lparr>p_column := column_index cs (p_name p)\<rparr>) ps = ps"
  by (induction ps) (simp_all add: named_columns_def)

text \<open>
  The two ways of finding out where a property is stored agree: looking the columns of the schema
  read from the group up by name again changes nothing, as long as column names are unique.
\<close>

theorem read_columns_are_lookups:
  assumes "\<forall>t cs. c_columns C g t = Some cs \<longrightarrow> distinct (map cc_name cs)"
  shows "set_schema_columns C g (schema_from_group C g) = schema_from_group C g"
proof -
  have os: "(case c_columns C g (table_name_for_object_type (os_name os)) of None \<Rightarrow> os
      | Some cs \<Rightarrow> os\<lparr>os_persisted := map (\<lambda>p. p\<lparr>p_column := column_index cs (p_name p)\<rparr>) (os_persisted os)\<rparr>) = os"
    if "os = object_schema_from_group C g t" for os t
  proof -
    have n: "os_name os = t" by (simp add: that object_schema_from_group_def Let_def)
    show ?thesis
    proof (cases "c_columns C g (table_name_for_object_type t)")
      case (Some cs)
      have "named_columns cs (os_persisted os)"
        unfolding that object_schema_from_group_def Some Let_def option.case
        using read_properties_named[of cs C] assms Some by (intro named_columns_primary) simp
      then show ?thesis by (simp add: n Some map_same_columns)
    qed (simp add: n)
  qed
  have "set (schema_from_group C g) \<subseteq> range (object_schema_from_group C g)"
    by (auto simp: schema_from_group_def make_schema_sorted)
  then show ?thesis unfolding set_schema_columns_def by (intro map_idI) (use os in blast)
qed

theorem read_columns_are_lookups_witness:
  "set_schema_columns toy_core toy_table (schema_from_group toy_core toy_table) = schema_from_group toy_core toy_table"
  by (rule read_columns_are_lookups) (simp add: toy_core_def toy_table_def)

text \<open>
  Validation lets an array of integers be a primary key and be indexed, because the comparison of
  property types ignores the flags; creating the table then makes an ordinary integer column of it.
\<close>

theorem array_primary_key_accepted:
  "let p = (make_property ''k'' (PT_Int OR PT_Array) True True []); os = make_object_schema ''T'' [p] [] in
     schema_validate (make_schema [os]) = Inr () \<and>
     create_table toy_core os (\<lambda>t. None) ''class_T'' =
       Some [Core_Column ''!OID'' Core_Int False False [] [], Core_Column ''k'' Core_Int False True [] []]"
proof -
  define p where "p = make_property ''k'' (PT_Int OR PT_Array) True True []"
  define os where "os = make_object_schema ''T'' [p] []"
  have f: "p_name p = ''k''" "p_is_primary p" "p_is_indexed p" "p_type p = PT_Int OR PT_Array" "p_object_type p = []"
    "p_link_origin p = []" "p_public_name p = []"
    by (simp_all add: p_def make_property_def)
  have o: "os = \<lparr>os_name = ''T'', os_persisted = [p], os_computed = [], os_primary_key = ''k''\<rparr>"
    by (simp add: os_def make_object_schema_def f)
  have s: "make_schema [os] = [os]" by (simp add: make_schema_def)
  have "sorted_schema [os]" by (simp add: sorted_schema_def)
  moreover have "ascii_links [os]"
    by (simp add: ascii_links_def ascii_schema_def ascii_def all_properties_def o f of_char_def)
  moreover have "schema_valid [os]"
    by (simp add: schema_valid_def object_valid_def o all_properties_def f type_allowed_def links_resolve_def
        type_eq_def base_type_def type_is_indexable_def PT_defs)
  ultimately have "schema_validate [os] = Inr ()" using schema_validate_iff by blast
  moreover have "create_table toy_core os (\<lambda>t. None) ''class_T'' =
      Some [Core_Column ''!OID'' Core_Int False False [] [], Core_Column ''k'' Core_Int False True [] []]"
    by (simp add: create_table_def o primary_key_property_def property_for_name_def f table_name_for_object_type_def
        class_prefix_def toy_core_def toy_create_def to_core_type_def base_type_def is_nullable_def PT_defs Let_def)
  ultimately show ?thesis using s unfolding os_def p_def Let_def by simp
qed

end
