(* ===== verification/Sync_Progress.thy ===== *)
theory Sync_Progress
  imports Prelude
begin

text \<open>
  \<open>SyncProgressNotifier\<close> (\<open>sync/sync_session.cpp\<close>): the callbacks that report how much of a Realm
  has been transferred, and when they expire.
\<close>

section \<open>Data\<close>

datatype direction = Upload | Download

record progress =
  pg_uploadable :: size
  pg_downloadable :: size
  pg_uploaded :: size
  pg_downloaded :: size
  pg_snapshot :: size

record package =
  pk_captured :: "size option"
  pk_snapshot :: size
  pk_streaming :: bool
  pk_download :: bool

text \<open>
  The packages are an \<open>unordered_map\<close>: its iteration order, which the language leaves open, is the
  order of the list.  A callback is represented by the token of its package.
\<close>

record progress_notifier =
  pn_next_token :: size
  pn_local_version :: size
  pn_current :: "progress option"
  pn_packages :: "(size \<times> package) list"

definition initial_progress :: progress_notifier where
  "initial_progress = \<lparr>pn_next_token = 1, pn_local_version = 0, pn_current = None, pn_packages = []\<rparr>"

section \<open>Operations\<close>

text \<open>The new package, what the returned closure reports (nothing for the empty one), and \<open>is_expired\<close>.\<close>

definition transferred :: "package \<Rightarrow> progress \<Rightarrow> size" where
  "transferred p cur = (if pk_download p then pg_downloaded cur else pg_uploaded cur)"

definition transferrable :: "package \<Rightarrow> progress \<Rightarrow> size" where
  "transferrable p cur = (if pk_download p then pg_downloadable cur else pg_uploadable cur)"

definition create_invocation :: "package \<Rightarrow> progress \<Rightarrow> package \<times> (size \<times> size) option \<times> bool" where
  "create_invocation p cur =
     (if pk_streaming p then (p, Some (transferred p cur, transferrable p cur), False)
      else case pk_captured p of
        Some t \<Rightarrow> (p, Some (transferred p cur, t), t \<le> transferred p cur)
      | None \<Rightarrow>
          if \<not> pk_download p \<and> pg_snapshot cur < pk_snapshot p then (p, None, False)
          else let t = transferrable p cur
            in (p\<lparr>pk_captured := Some t\<rparr>, Some (transferred p cur, t), t \<le> transferred p cur))"

text \<open>An invocation: the token of the package, what it is told, and the snapshot it is told about.\<close>

record report =
  rp_token :: size
  rp_transferred :: size
  rp_transferrable :: size
  rp_snapshot :: size

definition report_of :: "size \<Rightarrow> progress \<Rightarrow> (size \<times> size) option \<Rightarrow> report list" where
  "report_of k cur call =
     (case call of Some (a, t) \<Rightarrow> [\<lparr>rp_token = k, rp_transferred = a, rp_transferrable = t, rp_snapshot = pg_snapshot cur\<rparr>]
      | None \<Rightarrow> [])"

definition register_callback :: "direction \<Rightarrow> bool \<Rightarrow> progress_notifier \<Rightarrow>
    size \<times> progress_notifier \<times> report list" where
  "register_callback dir streaming n =
     (let token = pn_next_token n;
          n = n\<lparr>pn_next_token := token + 1\<rparr>;
          package = \<lparr>pk_captured = None, pk_snapshot = pn_local_version n, pk_streaming = streaming,
            pk_download = (dir = Download)\<rparr>
      in case pn_current n of
        None \<Rightarrow> (token, n\<lparr>pn_packages := pn_packages n @ [(token, package)]\<rparr>, [])
      | Some cur \<Rightarrow>
          let (package, call, skip) = create_invocation package cur
          in (if skip then 0 else token,
              if skip then n else n\<lparr>pn_packages := pn_packages n @ [(token, package)]\<rparr>,
              report_of token cur call))"

definition unregister_callback :: "size \<Rightarrow> progress_notifier \<Rightarrow> progress_notifier" where
  "unregister_callback token n = n\<lparr>pn_packages := filter (\<lambda>(k, p). k \<noteq> token) (pn_packages n)\<rparr>"

fun update_packages :: "progress \<Rightarrow> (size \<times> package) list \<Rightarrow> (size \<times> package) list \<times> report list" where
  "update_packages cur [] = ([], [])"
| "update_packages cur ((k, p) # ps) =
     (let (p', call, should_delete) = create_invocation p cur; (ps', reports) = update_packages cur ps
      in (if should_delete then ps' else (k, p') # ps', report_of k cur call @ reports))"

definition update_progress :: "size \<Rightarrow> size \<Rightarrow> size \<Rightarrow> size \<Rightarrow> size \<Rightarrow> size \<Rightarrow> progress_notifier \<Rightarrow>
    progress_notifier \<times> report list" where
  "update_progress downloaded downloadable uploaded uploadable download_version snapshot n =
     (if download_version = 0 then (n, [])
      else
        let cur = \<lparr>pg_uploadable = uploadable, pg_downloadable = downloadable, pg_uploaded = uploaded,
              pg_downloaded = downloaded, pg_snapshot = snapshot\<rparr>;
            (ps, reports) = update_packages cur (pn_packages n)
        in (n\<lparr>pn_current := Some cur, pn_packages := ps\<rparr>, reports))"

definition set_local_version :: "size \<Rightarrow> progress_notifier \<Rightarrow> progress_notifier" where
  "set_local_version version n = n\<lparr>pn_local_version := version\<rparr>"

section \<open>Runs\<close>

datatype progress_op =
    Register direction bool
  | Unregister size
  | Update size size size size size size
  | Local_Version size

fun progress_step :: "progress_op \<Rightarrow> progress_notifier \<Rightarrow> progress_notifier \<times> report list" where
  "progress_step (Register dir streaming) n = snd (register_callback dir streaming n)"
| "progress_step (Unregister token) n = (unregister_callback token n, [])"
| "progress_step (Update d da u ua dv s) n = update_progress d da u ua dv s n"
| "progress_step (Local_Version v) n = (set_local_version v n, [])"

fun run_progress :: "progress_op list \<Rightarrow> progress_notifier \<Rightarrow> progress_notifier \<times> report list" where
  "run_progress [] n = (n, [])"
| "run_progress (op # ops) n =
     (let (n', reports) = progress_step op n; (n'', more) = run_progress ops n' in (n'', reports @ more))"

section \<open>What a callback that is not streaming is told\<close>

definition reports_for :: "size \<Rightarrow> report list \<Rightarrow> report list" where
  "reports_for k rs = filter (\<lambda>r. rp_token r = k) rs"

lemma reports_for_append [simp]: "reports_for k (rs @ rs') = reports_for k rs @ reports_for k rs'"
  by (simp add: reports_for_def)

lemma reports_for_of [simp]:
  "reports_for k (report_of j cur call) = (if j = k then report_of j cur call else [])"
  by (auto simp: reports_for_def report_of_def split: option.split)

lemma report_of_simps [simp]:
  "report_of k cur None = []"
  "report_of k cur (Some (a, t)) = [\<lparr>rp_token = k, rp_transferred = a, rp_transferrable = t, rp_snapshot = pg_snapshot cur\<rparr>]"
  by (simp_all add: report_of_def)

text \<open>The first report decides the total, only the last one may reach it.\<close>

definition one_shot :: "bool \<Rightarrow> size \<Rightarrow> report list \<Rightarrow> bool" where
  "one_shot download version rs \<longleftrightarrow>
     (\<forall>r \<in> set rs. rp_transferrable r = rp_transferrable (hd rs)) \<and>
     (\<forall>r \<in> set (butlast rs). rp_transferred r < rp_transferrable r) \<and>
     (rs \<noteq> [] \<and> \<not> download \<longrightarrow> version \<le> rp_snapshot (hd rs))"

definition waiting_for :: "package \<Rightarrow> report list \<Rightarrow> bool" where
  "waiting_for p rs \<longleftrightarrow> \<not> pk_streaming p \<and>
     (\<forall>r \<in> set rs. rp_transferred r < rp_transferrable r) \<and>
     (case pk_captured p of None \<Rightarrow> rs = [] | Some t \<Rightarrow> rs \<noteq> [] \<and> (\<forall>r \<in> set rs. rp_transferrable r = t)) \<and>
     (rs \<noteq> [] \<and> \<not> pk_download p \<longrightarrow> pk_snapshot p \<le> rp_snapshot (hd rs))"

lemma waiting_one_shot:
  assumes "waiting_for p rs"
  shows "one_shot (pk_download p) (pk_snapshot p) rs"
  using assms by (cases rs) (auto simp: waiting_for_def one_shot_def dest: in_set_butlastD split: option.splits)

text \<open>An invocation keeps the package's kind, and either keeps it waiting or completes it.\<close>

lemma create_invocation_waiting:
  assumes "waiting_for p rs" "create_invocation p cur = (p', call, expired)"
  shows "pk_download p' = pk_download p \<and> pk_snapshot p' = pk_snapshot p \<and>
    (if expired then one_shot (pk_download p) (pk_snapshot p) (rs @ report_of k cur call)
     else waiting_for p' (rs @ report_of k cur call))"
proof (cases "pk_captured p")
  case None
  then show ?thesis
    using assms by (auto simp: create_invocation_def waiting_for_def one_shot_def Let_def split: if_splits)
next
  case (Some t)
  then have "p' = p" "call = Some (transferred p cur, t)" "expired = (t \<le> transferred p cur)"
    using assms by (auto simp: create_invocation_def waiting_for_def)
  then show ?thesis
    using assms(1) Some by (cases rs) (auto simp: waiting_for_def one_shot_def butlast_append)
qed

lemma update_packages_keys: "(k, p) \<in> set (fst (update_packages cur ps)) \<Longrightarrow> k \<in> fst ` set ps"
proof (induction ps)
  case (Cons kp ps)
  then show ?case by (cases kp) (auto split: prod.splits if_splits)
qed simp

lemma update_packages_distinct: "distinct (map fst ps) \<Longrightarrow> distinct (map fst (fst (update_packages cur ps)))"
proof (induction ps)
  case (Cons kp ps)
  then show ?case using update_packages_keys[of "fst kp" _ cur ps]
    by (cases kp) (fastforce split: prod.split)
qed simp

lemma update_packages_other:
  "k \<notin> fst ` set ps \<Longrightarrow> reports_for k (snd (update_packages cur ps)) = [] \<and> map_of (fst (update_packages cur ps)) k = None"
proof (induction ps)
  case (Cons kp ps)
  then show ?case by (cases kp) (auto split: prod.split)
qed (simp add: reports_for_def)

lemma update_packages_this:
  assumes "distinct (map fst ps)" "map_of ps k = Some p" "create_invocation p cur = (p', call, expired)"
  shows "reports_for k (snd (update_packages cur ps)) = report_of k cur call \<and>
    map_of (fst (update_packages cur ps)) k = (if expired then None else Some p')"
  using assms(1,2)
proof (induction ps)
  case (Cons kp ps)
  obtain j q where kp: "kp = (j, q)" by force
  show ?case
  proof (cases "j = k")
    case True
    then have "k \<notin> fst ` set ps" "q = p" using Cons.prems kp by auto
    then show ?thesis using update_packages_other[of k ps cur] assms(3) True kp by (auto split: prod.split)
  next
    case False
    then show ?thesis using Cons kp by (auto split: prod.split)
  qed
qed simp

text \<open>The invariant along a run: tokens are handed out once, and the package of \<open>k\<close> has told what it should.\<close>

definition fresh_tokens :: "progress_notifier \<Rightarrow> bool" where
  "fresh_tokens n \<longleftrightarrow> distinct (map fst (pn_packages n)) \<and> 0 < pn_next_token n \<and>
     (\<forall>k \<in> fst ` set (pn_packages n). 0 < k \<and> k < pn_next_token n)"

definition follows :: "size \<Rightarrow> bool \<Rightarrow> size \<Rightarrow> progress_notifier \<Rightarrow> report list \<Rightarrow> bool" where
  "follows k download version n rs \<longleftrightarrow> fresh_tokens n \<and> k < pn_next_token n \<and>
     (case map_of (pn_packages n) k of
        None \<Rightarrow> one_shot download version rs
      | Some p \<Rightarrow> waiting_for p rs \<and> pk_download p = download \<and> pk_snapshot p = version)"

lemma follows_one_shot:
  assumes "follows k download version n rs"
  shows "one_shot download version rs"
proof (cases "map_of (pn_packages n) k")
  case None
  then show ?thesis using assms by (simp add: follows_def)
next
  case (Some p)
  then show ?thesis using assms waiting_one_shot[of p rs] by (simp add: follows_def)
qed

lemma fresh_register:
  assumes "fresh_tokens n"
  shows "fresh_tokens (fst (snd (register_callback dir streaming n)))"
  using assms by (auto simp: fresh_tokens_def register_callback_def Let_def split: option.split prod.split)

lemma follows_register:
  assumes "follows k download version n rs"
  shows "follows k download version (fst (snd (register_callback dir streaming n)))
    (rs @ reports_for k (snd (snd (register_callback dir streaming n))))"
proof -
  have "k < pn_next_token n" using assms by (simp add: follows_def)
  then have "map_of (pn_packages (fst (snd (register_callback dir streaming n)))) k = map_of (pn_packages n) k"
    "reports_for k (snd (snd (register_callback dir streaming n))) = []"
    "k < pn_next_token (fst (snd (register_callback dir streaming n)))"
    by (auto simp: register_callback_def Let_def map_add_def reports_for_def[of _ "[]"] split: option.split prod.split)
  then show ?thesis using assms fresh_register by (simp add: follows_def)
qed

lemma follows_update:
  assumes "follows k download version n rs"
  shows "follows k download version (fst (update_progress d da u ua dv s n))
    (rs @ reports_for k (snd (update_progress d da u ua dv s n)))"
proof (cases "dv = 0")
  case True
  then show ?thesis using assms by (simp add: update_progress_def reports_for_def)
next
  case False
  define cur where "cur = \<lparr>pg_uploadable = ua, pg_downloadable = da, pg_uploaded = u, pg_downloaded = d, pg_snapshot = s\<rparr>"
  let ?U = "update_packages cur (pn_packages n)"
  have u: "update_progress d da u ua dv s n = (n\<lparr>pn_current := Some cur, pn_packages := fst ?U\<rparr>, snd ?U)"
    using False by (simp add: update_progress_def cur_def Let_def split: prod.split)
  have f: "fresh_tokens (n\<lparr>pn_current := Some cur, pn_packages := fst ?U\<rparr>)"
    using assms update_packages_distinct[of "pn_packages n" cur]
    by (auto simp: follows_def fresh_tokens_def dest!: update_packages_keys)
  show ?thesis
  proof (cases "map_of (pn_packages n) k")
    case None
    then have "k \<notin> fst ` set (pn_packages n)" by (simp add: map_of_eq_None_iff)
    from update_packages_other[OF this, of cur] show ?thesis
      using assms None f unfolding u by (simp add: follows_def)
  next
    case (Some p)
    obtain p' call expired where c: "create_invocation p cur = (p', call, expired)"
      by (metis prod_cases3)
    have d: "distinct (map fst (pn_packages n))" using assms by (simp add: follows_def fresh_tokens_def)
    have w: "waiting_for p rs" "pk_download p = download" "pk_snapshot p = version"
      using assms Some by (simp_all add: follows_def)
    show ?thesis
      using create_invocation_waiting[OF w(1) c, of k] update_packages_this[OF d Some c] assms f w(2,3)
      unfolding u by (auto simp: follows_def)
  qed
qed

lemma map_of_filter_other: "k \<noteq> j \<Longrightarrow> map_of (filter (\<lambda>(i, p). i \<noteq> j) ps) k = map_of ps k"
  by (induction ps) auto

lemma map_of_filter_same: "map_of (filter (\<lambda>(i, p). i \<noteq> j) ps) j = None"
  by (induction ps) auto

lemma follows_unregister:
  assumes "follows k download version n rs"
  shows "follows k download version (unregister_callback token n) rs"
proof -
  have m: "map_of (pn_packages (unregister_callback token n)) k = (if token = k then None else map_of (pn_packages n) k)"
    by (simp add: unregister_callback_def map_of_filter_other map_of_filter_same)
  have "distinct (map fst (pn_packages (unregister_callback token n)))"
    using assms by (simp add: follows_def fresh_tokens_def unregister_callback_def distinct_map_filter)
  then have f: "fresh_tokens (unregister_callback token n)"
    using assms by (auto simp: follows_def fresh_tokens_def unregister_callback_def)
  have "pn_next_token (unregister_callback token n) = pn_next_token n" by (simp add: unregister_callback_def)
  then show ?thesis
    using assms m f waiting_one_shot by (auto simp: follows_def split: option.splits)
qed

lemma follows_step:
  assumes "follows k download version n rs"
  shows "follows k download version (fst (progress_step op n)) (rs @ reports_for k (snd (progress_step op n)))"
proof (cases op)
  case (Register dir streaming)
  then show ?thesis using follows_register[OF assms] by simp
next
  case (Unregister token)
  then show ?thesis using follows_unregister[OF assms] by (simp add: reports_for_def)
next
  case (Update d da u ua dv s)
  then show ?thesis using follows_update[OF assms] by simp
next
  case (Local_Version v)
  then show ?thesis using assms by (simp add: reports_for_def set_local_version_def follows_def fresh_tokens_def)
qed

lemma follows_run:
  "follows k download version n rs \<Longrightarrow>
    follows k download version (fst (run_progress ops n)) (rs @ reports_for k (snd (run_progress ops n)))"
proof (induction ops arbitrary: n rs)
  case (Cons op ops)
  from Cons.IH[OF follows_step[OF Cons.prems, of op]] show ?case
    by (cases "progress_step op n"; cases "run_progress ops (fst (progress_step op n))") simp
qed (simp add: reports_for_def)

text \<open>No package has the token 0, so every state follows the empty record of 0.\<close>

lemma fresh_run:
  assumes "fresh_tokens n"
  shows "fresh_tokens (fst (run_progress ops n))"
proof -
  have "map_of (pn_packages n) 0 = None" using assms by (auto simp: fresh_tokens_def map_of_eq_None_iff)
  then have "follows 0 True 0 n []" using assms by (simp add: follows_def one_shot_def fresh_tokens_def)
  from follows_run[OF this] show ?thesis by (simp add: follows_def)
qed

lemma follows_registered:
  assumes "fresh_tokens n"
  shows "follows (pn_next_token n) (dir = Download) (pn_local_version n) (fst (snd (register_callback dir False n)))
    (snd (snd (register_callback dir False n)))"
proof -
  let ?p = "\<lparr>pk_captured = None, pk_snapshot = pn_local_version n, pk_streaming = False, pk_download = (dir = Download)\<rparr>"
  have k: "pn_next_token n \<notin> fst ` set (pn_packages n)" using assms by (auto simp: fresh_tokens_def)
  have w: "waiting_for ?p []" by (simp add: waiting_for_def)
  have m: "map_of (pn_packages n) (pn_next_token n) = None" using k by (simp add: map_of_eq_None_iff)
  have f: "fresh_tokens (fst (snd (register_callback dir False n)))" using fresh_register[OF assms] .
  show ?thesis
  proof (cases "pn_current n")
    case None
    then show ?thesis using w f m
      by (simp add: follows_def register_callback_def Let_def map_add_def)
  next
    case (Some cur)
    obtain p' call expired where c: "create_invocation ?p cur = (p', call, expired)" by (metis prod_cases3)
    show ?thesis
      using create_invocation_waiting[OF w c, of "pn_next_token n"] f m
      by (auto simp: follows_def register_callback_def Let_def map_add_def Some c)
  qed
qed

end
