(* ===== verification/Sync_Connections.thy ===== *)
theory Sync_Connections
  imports Callback_Walk
begin

text \<open>
  \<open>ConnectionChangeNotifier\<close> (\<open>sync/sync_session.cpp\<close>): a vector of callbacks that may be changed by
  the callbacks while it is being walked through.
\<close>

section \<open>Data\<close>

datatype connection_state = Disconnected | Connecting | Connected

text \<open>A callback is an opaque identifier of the client's function.\<close>

record connection_callback =
  cc_fn :: nat
  cc_token :: size

record connection_notifier =
  cn_callbacks :: "connection_callback list"
  cn_index :: size
  cn_count :: size
  cn_next_token :: size

definition initial_connections :: connection_notifier where
  "initial_connections = \<lparr>cn_callbacks = [], cn_index = npos, cn_count = npos, cn_next_token = 0\<rparr>"

section \<open>Operations\<close>

definition add_callback :: "nat \<Rightarrow> connection_notifier \<Rightarrow> size \<times> connection_notifier" where
  "add_callback fn n =
     (let token = cn_next_token n in
      (token, n\<lparr>cn_next_token := token + 1, cn_callbacks := cn_callbacks n @ [\<lparr>cc_fn = fn, cc_token = token\<rparr>]\<rparr>))"

definition callback_position :: "size \<Rightarrow> connection_callback list \<Rightarrow> size" where
  "callback_position token cs = length (takeWhile (\<lambda>c. cc_token c \<noteq> token) cs)"

definition remove_callback :: "size \<Rightarrow> connection_notifier \<Rightarrow> connection_notifier" where
  "remove_callback token n =
     (let idx = callback_position token (cn_callbacks n) in
      if idx = length (cn_callbacks n) then n
      else n\<lparr>cn_index := index_after_removal idx (cn_index n),
        cn_count := size_sub (cn_count n) 1,
        cn_callbacks := take idx (cn_callbacks n) @ drop (Suc idx) (cn_callbacks n)\<rparr>)"

text \<open>What a callback does to the notifier while it runs.\<close>

datatype connection_op = Add_Callback nat | Remove_Callback size

fun connection_step :: "connection_op \<Rightarrow> connection_notifier \<Rightarrow> connection_notifier" where
  "connection_step (Add_Callback fn) n = snd (add_callback fn n)"
| "connection_step (Remove_Callback token) n = remove_callback token n"

text \<open>
  The walk of \<open>invoke_callbacks\<close>, with the tokens of the invoked callbacks.  \<open>script\<close> says what each
  function does.  Reading past the end of the vector is an outcome of its own; \<open>None\<close> is a walk that
  does not end, which is possible as callbacks may keep adding callbacks once the count has wrapped.
\<close>

datatype walk = Walked connection_notifier "size list" | Read_Past_End "size list"

partial_function (option) invoke_loop :: "(nat \<Rightarrow> connection_op list) \<Rightarrow> connection_notifier \<Rightarrow> size list \<Rightarrow> walk option" where
  "invoke_loop script n log =
     (if cn_index n < cn_count n then
        if length (cn_callbacks n) \<le> cn_index n then Some (Read_Past_End log)
        else
          let cb = cn_callbacks n ! cn_index n; n = fold connection_step (script (cc_fn cb)) n
          in invoke_loop script (n\<lparr>cn_index := size_succ (cn_index n)\<rparr>) (log @ [cc_token cb])
      else Some (Walked (n\<lparr>cn_index := npos\<rparr>) log))"

definition invoke_callbacks :: "(nat \<Rightarrow> connection_op list) \<Rightarrow> connection_notifier \<Rightarrow> walk option" where
  "invoke_callbacks script n =
     (let n = n\<lparr>cn_count := length (cn_callbacks n)\<rparr> in
      invoke_loop script (n\<lparr>cn_index := size_succ (cn_index n)\<rparr>) [])"

section \<open>Specification\<close>

text \<open>Every callback of the vector in turn, unless one before it removed it.\<close>

fun removes :: "connection_op list \<Rightarrow> size set" where
  "removes [] = {}"
| "removes (Add_Callback fn # ops) = removes ops"
| "removes (Remove_Callback t # ops) = insert t (removes ops)"

fun visits :: "(nat \<Rightarrow> connection_op list) \<Rightarrow> size set \<Rightarrow> connection_callback list \<Rightarrow> size list" where
  "visits script gone [] = []"
| "visits script gone (c # cs) =
     (if cc_token c \<in> gone then visits script gone cs
      else cc_token c # visits script (gone \<union> removes (script (cc_fn c))) cs)"

section \<open>The walk meets the specification\<close>

definition distinct_tokens :: "connection_notifier \<Rightarrow> bool" where
  "distinct_tokens n \<longleftrightarrow> distinct (map cc_token (cn_callbacks n)) \<and>
     (\<forall>c \<in> set (cn_callbacks n). cc_token c < cn_next_token n)"

lemma connection_tokens:
  assumes "map cc_token (cn_callbacks n) = ys @ t # zs" "t \<notin> set ys"
  shows "map cc_token (cn_callbacks (remove_callback t n)) = ys @ zs \<and>
    cn_index (remove_callback t n) = index_after_removal (length ys) (cn_index n) \<and>
    cn_count (remove_callback t n) = size_sub (cn_count n) 1"
proof -
  have "callback_position t (cn_callbacks n) = length ys"
    using token_position_present[OF assms] by (simp add: callback_position_def)
  moreover have "length ys < length (cn_callbacks n)" using arg_cong[OF assms(1), of length] by simp
  ultimately show ?thesis by (simp add: remove_callback_def Let_def take_map[symmetric] drop_map[symmetric] assms(1))
qed

interpretation cw: callback_list "\<lambda>n. map cc_token (cn_callbacks n)" cn_index cn_count cn_next_token remove_callback
proof unfold_locales
  fix t and n :: connection_notifier
  assume "t \<notin> set (map cc_token (cn_callbacks n))"
  then have "callback_position t (cn_callbacks n) = length (cn_callbacks n)"
    unfolding callback_position_def by (rule token_position_absent)
  then show "map cc_token (cn_callbacks (remove_callback t n)) = map cc_token (cn_callbacks n) \<and>
    cn_index (remove_callback t n) = cn_index n \<and> cn_count (remove_callback t n) = cn_count n"
    by (simp add: remove_callback_def)
qed (simp_all add: connection_tokens, simp add: remove_callback_def Let_def)

lemma distinct_tokens_fresh: "distinct_tokens n = cw.issued_tokens n"
  by (simp add: distinct_tokens_def cw.issued_tokens_def)

lemma removeAll_tokens: "removeAll t (map cc_token bs) = map cc_token (filter (\<lambda>c. cc_token c \<noteq> t) bs)"
  by (induction bs) auto

lemma remove_callback_keeps:
  "c \<in> set (cn_callbacks n) \<Longrightarrow> cc_token c \<noteq> t \<Longrightarrow> c \<in> set (cn_callbacks (remove_callback t n))"
proof -
  assume c: "c \<in> set (cn_callbacks n)" "cc_token c \<noteq> t"
  let ?k = "callback_position t (cn_callbacks n)"
  show ?thesis
  proof (cases "?k < length (cn_callbacks n)")
    case True
    then have "cc_token (cn_callbacks n ! ?k) = t"
      using nth_length_takeWhile[of "\<lambda>c. cc_token c \<noteq> t"] unfolding callback_position_def by blast
    moreover have "cn_callbacks n = take ?k (cn_callbacks n) @ cn_callbacks n ! ?k # drop (Suc ?k) (cn_callbacks n)"
      using True by (rule id_take_nth_drop)
    then have "c \<in> set (take ?k (cn_callbacks n) @ cn_callbacks n ! ?k # drop (Suc ?k) (cn_callbacks n))"
      using c(1) by simp
    ultimately show ?thesis using c(2) by (auto simp: remove_callback_def Let_def)
  next
    case False
    moreover have "?k \<le> length (cn_callbacks n)" unfolding callback_position_def by (rule length_takeWhile_le)
    ultimately show ?thesis using c(1) by (simp add: remove_callback_def)
  qed
qed

text \<open>The callbacks to come are those of the vector.\<close>

definition still_to_come :: "size \<Rightarrow> size list \<Rightarrow> connection_callback list \<Rightarrow> connection_notifier \<Rightarrow> bool" where
  "still_to_come bound as bs n \<longleftrightarrow> cw.in_walk bound as (map cc_token bs) n \<and> set bs \<subseteq> set (cn_callbacks n)"

lemma still_to_come_steps:
  assumes "still_to_come bound as bs n" "removes ops \<subseteq> {..<bound}"
  shows "\<exists>as'. still_to_come bound as' (filter (\<lambda>c. cc_token c \<notin> removes ops) bs) (fold connection_step ops n)"
  using assms
proof (induction ops arbitrary: as bs n)
  case (Cons op ops)
  show ?case
  proof (cases op)
    case (Add_Callback fn)
    have "still_to_come bound as bs (snd (add_callback fn n))"
      using Cons.prems(1) unfolding still_to_come_def
      by (auto simp: add_callback_def Let_def intro: cw.in_walk_add)
    from Cons.IH[OF this] show ?thesis using Cons.prems(2) by (simp add: Add_Callback)
  next
    case (Remove_Callback t)
    then have t: "t < bound" "removes ops \<subseteq> {..<bound}" using Cons.prems(2) by auto
    have "still_to_come bound (removeAll t as) (filter (\<lambda>c. cc_token c \<noteq> t) bs) (remove_callback t n)"
      using Cons.prems(1) cw.in_walk_remove[OF _ t(1), of as "map cc_token bs" n] remove_callback_keeps[of _ n t]
      unfolding still_to_come_def removeAll_tokens by auto
    from Cons.IH[OF this t(2)] show ?thesis by (simp add: Remove_Callback conj_commute)
  qed
qed auto

lemma invoke_loop_visits:
  assumes "still_to_come bound as (filter (\<lambda>c. cc_token c \<notin> gone) cs) n"
    and "\<forall>fn. removes (script fn) \<subseteq> {..<bound}"
  shows "\<exists>n'. invoke_loop script (n\<lparr>cn_index := size_succ (cn_index n)\<rparr>) log = Some (Walked n' (log @ visits script gone cs))"
  using assms(1)
proof (induction cs arbitrary: as gone n log)
  case Nil
  then have "\<not> size_succ (cn_index n) < cn_count n" by (simp add: still_to_come_def cw.in_walk_end)
  then show ?case by (subst invoke_loop.simps) simp
next
  case (Cons c cs)
  show ?case
  proof (cases "cc_token c \<in> gone")
    case True
    then show ?thesis using Cons.IH[of as gone n log] Cons.prems by simp
  next
    case False
    let ?bs = "filter (\<lambda>c. cc_token c \<notin> gone) cs"
    have s: "still_to_come bound as (c # ?bs) n" using Cons.prems False by simp
    then have w: "cw.in_walk bound as (cc_token c # map cc_token ?bs) n" by (simp add: still_to_come_def)
    note h = cw.in_walk_here[OF w]
    have "distinct (map cc_token (cn_callbacks n))" using w by (simp add: cw.in_walk_def cw.issued_tokens_def)
    moreover have "cc_token (cn_callbacks n ! length as) = cc_token c" "cn_callbacks n ! length as \<in> set (cn_callbacks n)"
      "c \<in> set (cn_callbacks n)"
      using h s by (simp_all add: still_to_come_def)
    ultimately have x: "cn_callbacks n ! length as = c" by (simp add: distinct_map inj_on_def)
    let ?n = "n\<lparr>cn_index := length as\<rparr>"
    have "still_to_come bound (as @ [cc_token c]) ?bs ?n"
      using s cw.in_walk_next[OF w, of ?n] by (simp add: still_to_come_def)
    moreover have "removes (script (cc_fn c)) \<subseteq> {..<bound}" using assms(2) by simp
    ultimately have "\<exists>as'. still_to_come bound as' (filter (\<lambda>d. cc_token d \<notin> removes (script (cc_fn c))) ?bs)
        (fold connection_step (script (cc_fn c)) ?n)"
      by (rule still_to_come_steps)
    then obtain as' where "still_to_come bound as' (filter (\<lambda>d. cc_token d \<notin> gone \<union> removes (script (cc_fn c))) cs)
        (fold connection_step (script (cc_fn c)) ?n)"
      by (auto simp: conj_commute)
    from Cons.IH[OF this, of "log @ [cc_token c]"] show ?thesis
      by (subst invoke_loop.simps) (use h in \<open>simp add: x False Let_def\<close>)
  qed
qed

lemma invoke_callbacks_visits:
  assumes "distinct_tokens n" "cn_index n = npos" "length (cn_callbacks n) < npos"
    and "\<forall>fn. removes (script fn) \<subseteq> {..<cn_next_token n}"
  shows "\<exists>n'. invoke_callbacks script n = Some (Walked n' (visits script {} (cn_callbacks n)))"
proof -
  let ?n = "n\<lparr>cn_count := length (cn_callbacks n)\<rparr>"
  have "cw.in_walk (cn_next_token ?n) [] (map cc_token (cn_callbacks ?n)) ?n"
    using assms(1-3) by (intro cw.in_walk_start) (simp_all add: distinct_tokens_fresh cw.issued_tokens_def)
  then have "still_to_come (cn_next_token n) [] (filter (\<lambda>c. cc_token c \<notin> {}) (cn_callbacks n)) ?n"
    by (simp add: still_to_come_def)
  from invoke_loop_visits[OF this assms(4), of "[]"] show ?thesis
    unfolding invoke_callbacks_def Let_def by simp
qed

end
