(* ===== verification/Sync_Session.thy ===== *)
theory Sync_Session
  imports Sync_Progress Sync_Connections
begin

text \<open>
  \<open>SyncSession\<close> (\<open>sync/sync_session.cpp\<close>): the state machine that owns a session of the sync client.
  Every section that holds the state mutex is one atomic step; a method that takes the mutex several times
  is a task that other threads may interrupt.  What happens outside the object is recorded in a trace: calls
  of the sync client's session, of callbacks and of handlers.
\<close>

section \<open>Errors\<close>

datatype protocol_error =
    P_Connection_Closed | P_Other_Error | P_Unknown_Message | P_Bad_Syntax | P_Limits_Exceeded
  | P_Wrong_Protocol_Version | P_Bad_Session_Ident | P_Reuse_Of_Session_Ident | P_Bound_In_Other_Session
  | P_Bad_Message_Order | P_Bad_Decompression | P_Bad_Changeset_Header_Syntax | P_Bad_Changeset_Size
  | P_Bad_Changesets | P_Session_Closed | P_Other_Session_Error | P_Token_Expired | P_Bad_Authentication
  | P_Illegal_Realm_Path | P_No_Such_Realm | P_Permission_Denied | P_Bad_Server_File_Ident
  | P_Bad_Client_File_Ident | P_Bad_Server_Version | P_Bad_Client_Version | P_Diverging_Histories
  | P_Bad_Changeset | P_Disabled_Session | P_Partial_Sync_Disabled | P_Unsupported_Session_Feature
  | P_Bad_Origin_File_Ident | P_Bad_Client_File | P_Server_File_Deleted | P_Client_File_Blacklisted
  | P_User_Blacklisted | P_Transact_Before_Upload | P_Client_File_Expired | P_Unlisted int

datatype client_error = C_Connection_Closed | C_Pong_Timeout | C_Any_Other int

datatype error_code = Success | Operation_Aborted | Protocol protocol_error | Client client_error | Other_Category int

record sync_error =
  e_code :: error_code
  e_fatal :: bool
  e_user_info :: "(string \<times> string) list"
  e_unrecognized :: bool

definition is_client_reset_requested :: "sync_error \<Rightarrow> bool" where
  "is_client_reset_requested e \<longleftrightarrow> e_code e \<in> Protocol ` {P_Bad_Server_File_Ident, P_Bad_Client_File_Ident,
     P_Bad_Server_Version, P_Diverging_Histories, P_Client_File_Expired}"

section \<open>State\<close>

datatype session_state = Waiting_For_Access_Token | Active | Dying | Inactive

datatype stop_policy = Immediately | Live_Indefinitely | After_Changes_Uploaded

datatype resync_mode = Recover | Discard_Local | Manual_Resync

text \<open>The fields of \<open>SyncConfig\<close> that the state machine reads.\<close>

record sync_config =
  cfg_user :: "string option"
  cfg_realm_url :: string
  cfg_stop_policy :: stop_policy
  cfg_has_error_handler :: bool
  cfg_cancel_waits :: bool
  cfg_resync_mode :: resync_mode
  cfg_url_prefix :: "string option"

text \<open>A wait that the sync client will call back once, with what its closure captured.\<close>

datatype wait = Completion direction nat | Death nat

datatype event =
    Entered session_state
  | Session_Made nat "bool option"
  | Session_Bound nat string string
  | Session_Refreshed nat string
  | Reconnect_Delay_Cancelled nat
  | Server_Overridden nat string int
  | Commit_Notified nat nat
  | Wait_Started nat wait
  | Session_Destroyed nat
  | Token_Requested
  | Unregistered
  | Connection_Changed connection_state connection_state
  | Callback_Added nat
  | Callback_Called nat error_code
  | Callback_Dropped nat
  | Error_Reported sync_error
  | File_Action bool string string string string
  | User_Invalidated string
  | Progress_Reported report
  | Null_Dereference

text \<open>
  The sync client's session is a number, as is a completion callback.  The last fields are not the
  object's: the path a recovery file would get, the waits the sync client still has to answer, the
  next number of a session, and the trace.
\<close>

record session =
  s_state :: session_state
  s_connection :: connection_state
  s_death_count :: nat
  s_config :: sync_config
  s_force_resync :: bool
  s_path :: string
  s_downloads :: "nat list"
  s_uploads :: "nat list"
  s_resync_counter :: nat
  s_override :: "(string \<times> int) option"
  s_raw :: "nat option"
  s_bound :: bool
  s_deferred_commit :: "nat option"
  s_deferred_close :: bool
  s_url :: "string option"
  s_multiplex :: string
  s_progress :: progress_notifier
  s_external :: bool
  s_recovery_path :: string
  s_waits :: "(nat \<times> wait) list"
  s_next_raw :: nat
  s_trace :: "event list"

definition make_sync_session :: "string \<Rightarrow> sync_config \<Rightarrow> bool \<Rightarrow> string \<Rightarrow> session" where
  "make_sync_session path config force recovery =
     \<lparr>s_state = Inactive, s_connection = Disconnected, s_death_count = 0, s_config = config,
      s_force_resync = force, s_path = path, s_downloads = [], s_uploads = [], s_resync_counter = 0,
      s_override = None, s_raw = None, s_bound = False, s_deferred_commit = None, s_deferred_close = False,
      s_url = None, s_multiplex = [], s_progress = initial_progress, s_external = False,
      s_recovery_path = recovery, s_waits = [], s_next_raw = 0, s_trace = []\<rparr>"

definition emit :: "event list \<Rightarrow> session \<Rightarrow> session" where
  "emit es s = s\<lparr>s_trace := s_trace s @ es\<rparr>"

text \<open>A call through \<open>m_session\<close>.\<close>

definition on_raw :: "(nat \<Rightarrow> session \<Rightarrow> session) \<Rightarrow> session \<Rightarrow> session" where
  "on_raw f s = (case s_raw s of Some r \<Rightarrow> f r s | None \<Rightarrow> emit [Null_Dereference] s)"

definition start_wait :: "wait \<Rightarrow> nat \<Rightarrow> session \<Rightarrow> session" where
  "start_wait w r s = emit [Wait_Started r w] (s\<lparr>s_waits := s_waits s @ [(r, w)]\<rparr>)"

section \<open>Entering states\<close>

definition add_completion_callback :: "direction \<Rightarrow> session \<Rightarrow> session" where
  "add_completion_callback dir s = on_raw (start_wait (Completion dir (s_resync_counter s))) s"

definition enter_waiting :: "session \<Rightarrow> session" where
  "enter_waiting s = s\<lparr>s_deferred_close := False\<rparr>"

definition enter_active :: "session \<Rightarrow> session" where
  "enter_active s =
     (let s = (if s_uploads s \<noteq> [] then add_completion_callback Upload s else s)
      in if s_downloads s \<noteq> [] then add_completion_callback Download s else s)"

definition destroy_raw :: "session \<Rightarrow> session" where
  "destroy_raw s = (case s_raw s of Some r \<Rightarrow> emit [Session_Destroyed r] (s\<lparr>s_raw := None\<rparr>) | None \<Rightarrow> s)"

definition enter_inactive :: "session \<Rightarrow> session" where
  "enter_inactive s =
     (let old = s_connection s; downloads = s_downloads s; uploads = s_uploads s;
          s = destroy_raw (s\<lparr>s_connection := Disconnected, s_downloads := [], s_uploads := []\<rparr>);
          s = emit [Unregistered] s;
          s = (if old \<noteq> Disconnected then emit [Connection_Changed old (s_connection s)] s else s)
      in emit (map (\<lambda>c. Callback_Called c Operation_Aborted) (downloads @ uploads)) s)"

definition enter_dying :: "session \<Rightarrow> session" where
  "enter_dying s =
     (if s_raw s = None then enter_inactive (emit [Entered Inactive] (s\<lparr>s_state := Inactive\<rparr>))
      else let count = s_death_count s + 1 in on_raw (start_wait (Death count)) (s\<lparr>s_death_count := count\<rparr>))"

definition advance_state :: "session_state \<Rightarrow> session \<Rightarrow> session" where
  "advance_state st s =
     (let s = emit [Entered st] (s\<lparr>s_state := st\<rparr>) in
      case st of Waiting_For_Access_Token \<Rightarrow> enter_waiting s | Active \<Rightarrow> enter_active s
      | Dying \<Rightarrow> enter_dying s | Inactive \<Rightarrow> enter_inactive s)"

section \<open>The methods that depend on the state\<close>

definition create_sync_session :: "session \<Rightarrow> session" where
  "create_sync_session s =
     (if s_raw s \<noteq> None then s
      else let r = s_next_raw s;
          reset = (if s_force_resync s then Some (cfg_resync_mode (s_config s) = Recover) else None)
        in emit [Session_Made r reset] (s\<lparr>s_raw := Some r, s_next_raw := r + 1, s_bound := False\<rparr>))"

text \<open>\<open>close\<close> in each state.\<close>

definition state_close :: "session \<Rightarrow> session" where
  "state_close s =
     (case s_state s of
        Waiting_For_Access_Token \<Rightarrow>
          (case cfg_stop_policy (s_config s) of
             Immediately \<Rightarrow> advance_state Inactive s
           | Live_Indefinitely \<Rightarrow> s\<lparr>s_deferred_close := True\<rparr>
           | After_Changes_Uploaded \<Rightarrow> s\<lparr>s_deferred_close := True\<rparr>)
      | Active \<Rightarrow>
          (case cfg_stop_policy (s_config s) of
             Immediately \<Rightarrow> advance_state Inactive s
           | Live_Indefinitely \<Rightarrow> s
           | After_Changes_Uploaded \<Rightarrow> advance_state Dying s)
      | Dying \<Rightarrow> s
      | Inactive \<Rightarrow> emit [Unregistered] s)"

definition bind_or_refresh :: "string \<Rightarrow> nat \<Rightarrow> session \<Rightarrow> session" where
  "bind_or_refresh token r s =
     (if s_bound s then emit [Session_Refreshed r token, Reconnect_Delay_Cancelled r] s
      else case s_url s of
        Some url \<Rightarrow> emit [Session_Bound r url token] (s\<lparr>s_bound := True\<rparr>)
      | None \<Rightarrow> emit [Null_Dereference] s)"

definition refresh_waiting :: "string \<Rightarrow> string option \<Rightarrow> session \<Rightarrow> session" where
  "refresh_waiting token server_url s =
     (let s = create_sync_session s;
          s = (if s_url s = None then s\<lparr>s_url := server_url\<rparr> else s);
          s = on_raw (bind_or_refresh token) s;
          s = (case s_override s of Some (a, p) \<Rightarrow> on_raw (\<lambda>r. emit [Server_Overridden r a p]) s | None \<Rightarrow> s);
          s = (case s_deferred_commit s of
              Some v \<Rightarrow> (on_raw (\<lambda>r. emit [Commit_Notified r v]) s)\<lparr>s_deferred_commit := None\<rparr> | None \<Rightarrow> s);
          s = advance_state Active s
      in if s_deferred_close s then state_close s else s)"

definition state_refresh :: "string \<Rightarrow> string option \<Rightarrow> session \<Rightarrow> session" where
  "state_refresh token server_url s =
     (case s_state s of
        Waiting_For_Access_Token \<Rightarrow> refresh_waiting token server_url s
      | Active \<Rightarrow> on_raw (\<lambda>r. emit [Session_Refreshed r token, Reconnect_Delay_Cancelled r]) s
      | Dying \<Rightarrow> s
      | Inactive \<Rightarrow> s)"

definition access_token_expired :: "session \<Rightarrow> session" where
  "access_token_expired s =
     (if s_state s = Active then emit [Token_Requested] (advance_state Waiting_For_Access_Token s) else s)"

definition state_log_out :: "session \<Rightarrow> session" where
  "state_log_out s = (if s_state s = Inactive then s else advance_state Inactive s)"

text \<open>Also whether the binding is to be asked for a token.\<close>

definition state_revive :: "session \<Rightarrow> session \<times> bool" where
  "state_revive s =
     (case s_state s of
        Waiting_For_Access_Token \<Rightarrow> (s\<lparr>s_deferred_close := False\<rparr>, False)
      | Active \<Rightarrow> (s, False)
      | Dying \<Rightarrow> (advance_state Active s, False)
      | Inactive \<Rightarrow> (advance_state Waiting_For_Access_Token s, True))"

definition state_reconnect :: "session \<Rightarrow> session" where
  "state_reconnect s =
     (case s_state s of
        Waiting_For_Access_Token \<Rightarrow> emit [Token_Requested] s
      | Active \<Rightarrow> on_raw (\<lambda>r. emit [Reconnect_Delay_Cancelled r]) s
      | Dying \<Rightarrow> s
      | Inactive \<Rightarrow> s)"

definition state_notify :: "nat \<Rightarrow> session \<Rightarrow> session" where
  "state_notify version s =
     (case s_state s of
        Waiting_For_Access_Token \<Rightarrow> s\<lparr>s_deferred_commit := Some version\<rparr>
      | Active \<Rightarrow> on_raw (\<lambda>r. emit [Commit_Notified r version]) s
      | Dying \<Rightarrow> s
      | Inactive \<Rightarrow> s)"

definition state_wait :: "direction \<Rightarrow> session \<Rightarrow> session" where
  "state_wait dir s = (if s_state s = Active \<or> s_state s = Dying then add_completion_callback dir s else s)"

definition state_override :: "string \<Rightarrow> int \<Rightarrow> session \<Rightarrow> session" where
  "state_override address port s =
     (let s = s\<lparr>s_override := Some (address, port)\<rparr> in
      if s_state s = Active \<or> s_state s = Dying then on_raw (\<lambda>r. emit [Server_Overridden r address port]) s else s)"

text \<open>Also whether the error has been dealt with.\<close>

definition state_handle_error :: "sync_error \<Rightarrow> session \<Rightarrow> session \<times> bool" where
  "state_handle_error e s =
     (if s_state s = Dying then (if e_fatal e then advance_state Inactive s else s, True) else (s, False))"

section \<open>The methods of the session\<close>

definition nonsync_transact_notify :: "nat \<Rightarrow> session \<Rightarrow> session" where
  "nonsync_transact_notify version s =
     state_notify version (s\<lparr>s_progress := set_local_version version (s_progress s)\<rparr>)"

definition revive_if_needed :: "session \<Rightarrow> session" where
  "revive_if_needed s = (let (s, ask) = state_revive s in if ask then emit [Token_Requested] s else s)"

definition refresh_access_token :: "string \<Rightarrow> string option \<Rightarrow> session \<Rightarrow> session" where
  "refresh_access_token token server_url s =
     (if s_url s = None \<and> server_url = None then s else state_refresh token server_url s)"

definition callbacks_of :: "direction \<Rightarrow> session \<Rightarrow> nat list" where
  "callbacks_of dir s = (case dir of Upload \<Rightarrow> s_uploads s | Download \<Rightarrow> s_downloads s)"

definition wait_for_completion :: "direction \<Rightarrow> nat \<Rightarrow> session \<Rightarrow> session" where
  "wait_for_completion dir callback s =
     (let s = (if callbacks_of dir s = [] then state_wait dir s else s);
          s = (case dir of Upload \<Rightarrow> s\<lparr>s_uploads := s_uploads s @ [callback]\<rparr>
            | Download \<Rightarrow> s\<lparr>s_downloads := s_downloads s @ [callback]\<rparr>)
      in emit [Callback_Added callback] s)"

definition cancel_pending_waits :: "error_code \<Rightarrow> session \<Rightarrow> session" where
  "cancel_pending_waits code s =
     emit (map (\<lambda>c. Callback_Called c code) (s_downloads s @ s_uploads s)) (s\<lparr>s_downloads := [], s_uploads := []\<rparr>)"

text \<open>The callbacks that the sync client answers.\<close>

definition wait_fired :: "nat \<times> wait \<Rightarrow> error_code \<Rightarrow> session \<Rightarrow> session" where
  "wait_fired w code s =
     (let s = s\<lparr>s_waits := remove1 w (s_waits s)\<rparr> in
      case snd w of
        Completion dir counter \<Rightarrow>
          if counter \<noteq> s_resync_counter s then s
          else emit (map (\<lambda>c. Callback_Called c code) (callbacks_of dir s))
            (case dir of Upload \<Rightarrow> s\<lparr>s_uploads := []\<rparr> | Download \<Rightarrow> s\<lparr>s_downloads := []\<rparr>)
      | Death count \<Rightarrow> if s_state s = Dying \<and> s_death_count s = count then advance_state Inactive s else s)"

definition handle_progress_update :: "nat \<Rightarrow> nat \<Rightarrow> nat \<Rightarrow> nat \<Rightarrow> nat \<Rightarrow> nat \<Rightarrow> session \<Rightarrow> session" where
  "handle_progress_update d da u ua dv v s =
     (let (p, reports) = update_progress d da u ua dv v (s_progress s)
      in emit (map Progress_Reported reports) (s\<lparr>s_progress := p\<rparr>))"

section \<open>Handling an error\<close>

definition original_path_key :: string where "original_path_key = ''ORIGINAL_FILE_PATH''"
definition recovery_path_key :: string where "recovery_path_key = ''RECOVERY_FILE_PATH''"

definition update_error_and_mark_file_for_deletion :: "bool \<Rightarrow> sync_error \<Rightarrow> session \<Rightarrow> sync_error \<times> session" where
  "update_error_and_mark_file_for_deletion should_backup e s =
     (let recovery = (if should_backup then s_recovery_path s else []);
          e = e\<lparr>e_user_info := e_user_info e @ [(original_path_key, s_path s)] @
            (if should_backup then [(recovery_path_key, recovery)] else [])\<rparr>
      in (e, case cfg_user (s_config s) of
          Some user \<Rightarrow> emit [File_Action should_backup (s_path s) (cfg_realm_url (s_config s)) user recovery] s
        | None \<Rightarrow> emit [Null_Dereference] s))"

text \<open>
  The two halves of a client resync, between which the lock is not held.  The second overwrites, without the
  lock, the callbacks that are there: those are destroyed without being called.
\<close>

definition resync_begin :: "session \<Rightarrow> session" where
  "resync_begin s =
     advance_state Inactive (s\<lparr>s_force_resync := True, s_resync_counter := s_resync_counter s + 1,
       s_downloads := [], s_uploads := []\<rparr>)"

definition resync_restore :: "nat list \<Rightarrow> nat list \<Rightarrow> session \<Rightarrow> session" where
  "resync_restore downloads uploads s =
     emit (map Callback_Dropped (s_downloads s @ s_uploads s)) (s\<lparr>s_downloads := downloads, s_uploads := uploads\<rparr>)"

datatype error_action = Ignore | Renew_Token | Invalidate_User | Delete_Realm | Back_Up_Realm | Only_Report

definition protocol_action :: "protocol_error \<Rightarrow> error_action" where
  "protocol_action p =
     (if p \<in> {P_Connection_Closed, P_Other_Error, P_Session_Closed, P_Other_Session_Error, P_Disabled_Session} then Ignore
      else if p = P_Token_Expired then Renew_Token
      else if p = P_Bad_Authentication then Invalidate_User
      else if p = P_Permission_Denied then Delete_Realm
      else if p \<in> {P_Bad_Client_File, P_Bad_Client_File_Ident, P_Bad_Origin_File_Ident, P_Bad_Server_File_Ident,
          P_Bad_Server_Version, P_Client_File_Blacklisted, P_Diverging_Histories, P_Server_File_Deleted,
          P_User_Blacklisted, P_Client_File_Expired} then Back_Up_Realm
      else Only_Report)"

definition client_action :: "client_error \<Rightarrow> error_action" where
  "client_action c = (if c = C_Connection_Closed \<or> c = C_Pong_Timeout then Ignore else Only_Report)"

datatype next_state_after_error = Next_None | Next_Inactive | Next_Error

text \<open>The last section of \<open>handle_error\<close>, before the error is reported.\<close>

definition finish_error :: "next_state_after_error \<Rightarrow> sync_error \<Rightarrow> session \<Rightarrow> session" where
  "finish_error next_state e s =
     (case next_state of
        Next_None \<Rightarrow> if cfg_cancel_waits (s_config s) then cancel_pending_waits (e_code e) s else s
      | Next_Inactive \<Rightarrow> advance_state Inactive s
      | Next_Error \<Rightarrow> cancel_pending_waits (e_code e) s)"

text \<open>The connection listener, up to its call of \<open>handle_error\<close>.\<close>

definition connection_event :: "connection_state \<Rightarrow> session \<Rightarrow> session" where
  "connection_event new s = emit [Connection_Changed (s_connection s) new] (s\<lparr>s_connection := new\<rparr>)"

section \<open>Tasks\<close>

text \<open>
  What a thread in \<open>handle_error\<close> or \<open>update_configuration\<close> does when it runs next: a section under the
  lock, or work between two of them.
\<close>

datatype task =
    Handle_Error sync_error
  | Decide_Error sync_error
  | Begin_Resync
  | Restore_Callbacks "nat list" "nat list"
  | Revive_Session
  | Expire_Token
  | Cancel_Waits sync_error
  | Tell_User string sync_error
  | Mark_File bool sync_error
  | Finish_Error next_state_after_error sync_error
  | Report_Error sync_error
  | Configure sync_config

fun action_task :: "error_action \<Rightarrow> sync_error \<Rightarrow> task option" where
  "action_task Ignore e = None"
| "action_task Renew_Token e = Some Expire_Token"
| "action_task Invalidate_User e = Some (Cancel_Waits e)"
| "action_task Delete_Realm e = Some (Mark_File False e)"
| "action_task Back_Up_Realm e = Some (Mark_File True e)"
| "action_task Only_Report e = Some (Finish_Error (if e_fatal e then Next_Error else Next_None) e)"

definition decide_error :: "sync_error \<Rightarrow> session \<Rightarrow> task option" where
  "decide_error e s =
     (if is_client_reset_requested e \<and> cfg_resync_mode (s_config s) \<noteq> Manual_Resync then Some Begin_Resync
      else case e_code e of
          Protocol p \<Rightarrow> action_task (protocol_action p) e
        | Client c \<Rightarrow> action_task (client_action c) e
        | Success \<Rightarrow> action_task Only_Report (e\<lparr>e_unrecognized := True\<rparr>)
        | Operation_Aborted \<Rightarrow> action_task Only_Report (e\<lparr>e_unrecognized := True\<rparr>)
        | Other_Category c \<Rightarrow> action_task Only_Report (e\<lparr>e_unrecognized := True\<rparr>))"

text \<open>
  One round of the loop of \<open>update_configuration\<close>, which ends when it finds the session inactive; the revival
  after it is in a section of its own.
\<close>

definition update_configuration_round :: "sync_config \<Rightarrow> session \<Rightarrow> session \<times> task option" where
  [simp]: "update_configuration_round config s =
     (if s_state s \<noteq> Inactive then (advance_state Inactive s, Some (Configure config))
      else (s\<lparr>s_config := config\<rparr>, Some Revive_Session))"

text \<open>One round of a task, and what is left of it.\<close>

fun run_task :: "task \<Rightarrow> session \<Rightarrow> session \<times> task option" where
  "run_task (Handle_Error e) s =
     (let (s, handled) = state_handle_error e s in (s, if handled then None else Some (Decide_Error e)))"
| "run_task (Decide_Error e) s = (s, decide_error e s)"
| "run_task Begin_Resync s = (resync_begin s, Some (Restore_Callbacks (s_downloads s) (s_uploads s)))"
| "run_task (Restore_Callbacks downloads uploads) s = (resync_restore downloads uploads s, Some Revive_Session)"
| "run_task Revive_Session s = (revive_if_needed s, None)"
| "run_task Expire_Token s = (access_token_expired s, None)"
| "run_task (Cancel_Waits e) s =
     (cancel_pending_waits (e_code e) s,
      Some (case cfg_user (s_config s) of Some user \<Rightarrow> Tell_User user e | None \<Rightarrow> Finish_Error Next_None e))"
| "run_task (Tell_User user e) s = (emit [User_Invalidated user] s, Some (Finish_Error Next_None e))"
| "run_task (Mark_File should_backup e) s =
     (let (e, s) = update_error_and_mark_file_for_deletion should_backup e s in (s, Some (Finish_Error Next_Inactive e)))"
| "run_task (Finish_Error next_state e) s = (finish_error next_state e s, Some (Report_Error e))"
| "run_task (Report_Error e) s = (if cfg_has_error_handler (s_config s) then emit [Error_Reported e] s else s, None)"
| "run_task (Configure config) s = update_configuration_round config s"

section \<open>References\<close>

text \<open>Whether an external reference is alive is what the weak pointer answers.\<close>

definition external_reference :: "session \<Rightarrow> session" where
  "external_reference s = s\<lparr>s_external := True\<rparr>"

definition release_external_reference :: "session \<Rightarrow> session" where
  "release_external_reference s = s\<lparr>s_external := False\<rparr>"

definition did_drop_external_reference :: "session \<Rightarrow> session" where
  "did_drop_external_reference s = (if s_external s then s else state_close s)"

definition set_multiplex_identifier :: "string \<Rightarrow> session \<Rightarrow> session" where
  "set_multiplex_identifier ident s = s\<lparr>s_multiplex := ident\<rparr>"

definition set_url_prefix :: "string \<Rightarrow> session \<Rightarrow> session" where
  "set_url_prefix prefix s = s\<lparr>s_config := (s_config s)\<lparr>cfg_url_prefix := Some prefix\<rparr>\<rparr>"

section \<open>Steps\<close>

datatype action =
    Refresh_Token string "string option"
  | Notify_Commit nat
  | Revive
  | Reconnect
  | Log_Out
  | Close
  | Wait_For direction nat
  | Override string int
  | Update_Configuration sync_config
  | Take_Reference
  | Release_Reference
  | Drop_Reference
  | Set_Multiplex string
  | Set_Url_Prefix string
  | Wait_Fired "nat \<times> wait" error_code
  | Connection_Event connection_state "sync_error option"
  | Progress_Event nat nat nat nat nat nat

fun perform :: "action \<Rightarrow> session \<Rightarrow> session" where
  "perform (Refresh_Token token url) s = refresh_access_token token url s"
| "perform (Notify_Commit v) s = nonsync_transact_notify v s"
| "perform Revive s = revive_if_needed s"
| "perform Reconnect s = state_reconnect s"
| "perform Log_Out s = state_log_out s"
| "perform Close s = state_close s"
| "perform (Wait_For dir c) s = wait_for_completion dir c s"
| "perform (Override a p) s = state_override a p s"
| "perform (Update_Configuration config) s = s"
| "perform Take_Reference s = external_reference s"
| "perform Release_Reference s = release_external_reference s"
| "perform Drop_Reference s = did_drop_external_reference s"
| "perform (Set_Multiplex ident) s = set_multiplex_identifier ident s"
| "perform (Set_Url_Prefix p) s = set_url_prefix p s"
| "perform (Wait_Fired w code) s = wait_fired w code s"
| "perform (Connection_Event new e) s = connection_event new s"
| "perform (Progress_Event d da u ua dv v) s = handle_progress_update d da u ua dv v s"

text \<open>
  What the sync client may do: answer a wait once, as aborted only when the session it was made on is
  gone; report connection changes and errors as soon as it has made a session, also after that session
  was destroyed.  A new configuration is for the same user.
\<close>

fun enabled :: "action \<Rightarrow> session \<Rightarrow> bool" where
  "enabled (Wait_Fired w code) s \<longleftrightarrow> w \<in> set (s_waits s) \<and>
     (code = Success \<or> code = Operation_Aborted \<and> s_raw s \<noteq> Some (fst w))"
| "enabled (Connection_Event new e) s \<longleftrightarrow> 0 < s_next_raw s"
| "enabled (Update_Configuration config) s \<longleftrightarrow> cfg_user config = cfg_user (s_config s)"
| "enabled a s \<longleftrightarrow> True"

text \<open>The task that an action begins.\<close>

fun begun :: "action \<Rightarrow> task list" where
  "begun (Connection_Event new (Some e)) = [Handle_Error e]"
| "begun (Update_Configuration config) = [Configure config]"
| "begun a = []"

text \<open>A session and the tasks that threads are in.\<close>

record machine =
  mc_session :: session
  mc_tasks :: "task list"

datatype step = Perform action | Run nat

fun step_enabled :: "step \<Rightarrow> machine \<Rightarrow> bool" where
  "step_enabled (Perform a) m \<longleftrightarrow> enabled a (mc_session m)"
| "step_enabled (Run i) m \<longleftrightarrow> i < length (mc_tasks m)"

fun do_step :: "step \<Rightarrow> machine \<Rightarrow> machine" where
  "do_step (Perform a) m = \<lparr>mc_session = perform a (mc_session m), mc_tasks = mc_tasks m @ begun a\<rparr>"
| "do_step (Run i) m =
     (let (s, t) = run_task (mc_tasks m ! i) (mc_session m)
      in \<lparr>mc_session = s, mc_tasks = take i (mc_tasks m) @ (case t of None \<Rightarrow> [] | Some t \<Rightarrow> [t]) @ drop (Suc i) (mc_tasks m)\<rparr>)"

inductive session_step :: "machine \<Rightarrow> step \<Rightarrow> machine \<Rightarrow> bool" where
  step: "step_enabled a m \<Longrightarrow> session_step m a (do_step a m)"

inductive_cases session_stepE: "session_step m a m'"

text \<open>Reachable by steps that satisfy a condition; in general there is none.\<close>

inductive reachable_by :: "(step \<Rightarrow> machine \<Rightarrow> bool) \<Rightarrow> machine \<Rightarrow> bool" for P where
  start: "cfg_user config \<noteq> None \<Longrightarrow>
    reachable_by P \<lparr>mc_session = make_sync_session path config force recovery, mc_tasks = []\<rparr>"
| extend: "reachable_by P m \<Longrightarrow> session_step m a m' \<Longrightarrow> P a m \<Longrightarrow> reachable_by P m'"

abbreviation reachable :: "machine \<Rightarrow> bool" where
  "reachable \<equiv> reachable_by (\<lambda>a m. True)"

text \<open>The callbacks of a client resync are restored before the session is active again and before others are added.\<close>

fun undisturbed_task :: "task \<Rightarrow> session \<Rightarrow> bool" where
  "undisturbed_task (Restore_Callbacks downloads uploads) s \<longleftrightarrow>
     s_state s \<noteq> Active \<and> s_state s \<noteq> Dying \<and> s_downloads s = [] \<and> s_uploads s = []"
| "undisturbed_task t s \<longleftrightarrow> True"

fun undisturbed :: "step \<Rightarrow> machine \<Rightarrow> bool" where
  "undisturbed (Run i) m \<longleftrightarrow> undisturbed_task (mc_tasks m ! i) (mc_session m)"
| "undisturbed (Perform a) m \<longleftrightarrow> True"

end
