(* ===== verification/Sync_Session_Invariants.thy ===== *)
theory Sync_Session_Invariants
  imports Sync_Session
begin

text \<open>
  The invariant of a session, kept by every step: no null pointer is followed, an active session has
  a bound session of the sync client, and whoever waits has a wait of that session outstanding.
\<close>

section \<open>Effects of the small operations\<close>

lemma emit_simps [simp]:
  "s_state (emit es s) = s_state s" "s_connection (emit es s) = s_connection s"
  "s_death_count (emit es s) = s_death_count s" "s_config (emit es s) = s_config s"
  "s_force_resync (emit es s) = s_force_resync s" "s_path (emit es s) = s_path s"
  "s_downloads (emit es s) = s_downloads s" "s_uploads (emit es s) = s_uploads s"
  "s_resync_counter (emit es s) = s_resync_counter s" "s_override (emit es s) = s_override s"
  "s_raw (emit es s) = s_raw s" "s_bound (emit es s) = s_bound s"
  "s_deferred_commit (emit es s) = s_deferred_commit s" "s_deferred_close (emit es s) = s_deferred_close s"
  "s_url (emit es s) = s_url s" "s_waits (emit es s) = s_waits s" "s_next_raw (emit es s) = s_next_raw s"
  "s_trace (emit es s) = s_trace s @ es" "callbacks_of dir (emit es s) = callbacks_of dir s"
  "s_progress (emit es s) = s_progress s" "s_external (emit es s) = s_external s"
  by (simp_all add: emit_def callbacks_of_def split: direction.split)

lemma start_wait_simps [simp]:
  "s_state (start_wait w r s) = s_state s" "s_connection (start_wait w r s) = s_connection s"
  "s_death_count (start_wait w r s) = s_death_count s" "s_config (start_wait w r s) = s_config s"
  "s_downloads (start_wait w r s) = s_downloads s" "s_uploads (start_wait w r s) = s_uploads s"
  "s_resync_counter (start_wait w r s) = s_resync_counter s" "s_raw (start_wait w r s) = s_raw s"
  "s_bound (start_wait w r s) = s_bound s" "s_url (start_wait w r s) = s_url s"
  "s_deferred_close (start_wait w r s) = s_deferred_close s"
  "s_deferred_commit (start_wait w r s) = s_deferred_commit s"
  "s_waits (start_wait w r s) = s_waits s @ [(r, w)]" "s_next_raw (start_wait w r s) = s_next_raw s"
  "s_trace (start_wait w r s) = s_trace s @ [Wait_Started r w]"
  "callbacks_of dir (start_wait w r s) = callbacks_of dir s"
  by (simp_all add: start_wait_def callbacks_of_def split: direction.split)

lemma on_raw_Some [simp]: "s_raw s = Some r \<Longrightarrow> on_raw f s = f r s"
  by (simp add: on_raw_def)

lemma callbacks_of_simps [simp]:
  "callbacks_of Upload s = s_uploads s" "callbacks_of Download s = s_downloads s"
  by (simp_all add: callbacks_of_def)

section \<open>The invariant\<close>

text \<open>What holds in the middle of a step as well.\<close>

definition base_inv :: "session \<Rightarrow> bool" where
  "base_inv s \<longleftrightarrow> Null_Dereference \<notin> set (s_trace s) \<and> cfg_user (s_config s) \<noteq> None \<and>
     (\<forall>(r, w) \<in> set (s_waits s). r < s_next_raw s \<and> (\<forall>k. w = Death k \<longrightarrow> k \<le> s_death_count s)) \<and>
     (\<forall>r. s_raw s = Some r \<longrightarrow> r < s_next_raw s)"

text \<open>A session of the sync client exists only bound to a server.\<close>

definition raw_inv :: "session \<Rightarrow> bool" where
  "raw_inv s \<longleftrightarrow> (s_raw s \<noteq> None \<longrightarrow> s_bound s \<and> s_url s \<noteq> None)"

definition connected :: "session \<Rightarrow> nat \<Rightarrow> bool" where
  "connected s r \<longleftrightarrow> s_raw s = Some r \<and> s_bound s \<and> s_url s \<noteq> None"

text \<open>Every non-empty list of callbacks has a wait of the present session that will call them.\<close>

definition waits_inv :: "session \<Rightarrow> nat \<Rightarrow> bool" where
  "waits_inv s r \<longleftrightarrow>
     (\<forall>dir. callbacks_of dir s \<noteq> [] \<longrightarrow> (r, Completion dir (s_resync_counter s)) \<in> set (s_waits s))"

definition session_inv :: "bool \<Rightarrow> session \<Rightarrow> bool" where
  "session_inv aw s \<longleftrightarrow> base_inv s \<and> raw_inv s \<and>
     (case s_state s of
        Waiting_For_Access_Token \<Rightarrow> True
      | Active \<Rightarrow> (\<exists>r. connected s r \<and> (aw \<longrightarrow> waits_inv s r))
      | Dying \<Rightarrow> (\<exists>r. connected s r \<and> (aw \<longrightarrow> waits_inv s r) \<and> (r, Death (s_death_count s)) \<in> set (s_waits s))
      | Inactive \<Rightarrow> s_raw s = None)"

lemma session_inv_base: "session_inv aw s \<Longrightarrow> base_inv s" "session_inv aw s \<Longrightarrow> raw_inv s"
  by (simp_all add: session_inv_def)

lemma base_emit: "base_inv s \<Longrightarrow> Null_Dereference \<notin> set es \<Longrightarrow> base_inv (emit es s)"
  by (simp add: base_inv_def)

lemma session_emit: "session_inv aw s \<Longrightarrow> Null_Dereference \<notin> set es \<Longrightarrow> session_inv aw (emit es s)"
  by (simp add: session_inv_def base_inv_def raw_inv_def connected_def waits_inv_def split: session_state.splits)

lemma base_start_wait:
  "base_inv s \<Longrightarrow> s_raw s = Some r \<Longrightarrow> (\<And>k. w = Death k \<Longrightarrow> k \<le> s_death_count s) \<Longrightarrow> base_inv (start_wait w r s)"
  by (auto simp: base_inv_def)

section \<open>Entering a state\<close>

lemma enter_inactive_simps [simp]:
  "s_raw (enter_inactive s) = None" "s_state (enter_inactive s) = s_state s"
  "s_config (enter_inactive s) = s_config s" "s_waits (enter_inactive s) = s_waits s"
  "s_death_count (enter_inactive s) = s_death_count s" "s_next_raw (enter_inactive s) = s_next_raw s"
  "s_downloads (enter_inactive s) = []" "s_uploads (enter_inactive s) = []"
  "s_connection (enter_inactive s) = Disconnected" "s_url (enter_inactive s) = s_url s"
  "s_resync_counter (enter_inactive s) = s_resync_counter s"
  "s_deferred_commit (enter_inactive s) = s_deferred_commit s"
  "s_force_resync (enter_inactive s) = s_force_resync s"
  by (simp_all add: enter_inactive_def destroy_raw_def Let_def split: option.split)

lemma enter_inactive_trace:
  "\<exists>es. s_trace (enter_inactive s) = s_trace s @ es @
       map (\<lambda>c. Callback_Called c Operation_Aborted) (s_downloads s @ s_uploads s) \<and>
     Null_Dereference \<notin> set es \<and> (\<forall>c e. Callback_Called c e \<notin> set es) \<and> (\<forall>c. Callback_Added c \<notin> set es) \<and>
     (\<forall>st. Entered st \<notin> set es)"
  by (cases "s_raw s") (auto simp: enter_inactive_def destroy_raw_def Let_def)

lemma advance_inactive_simps [simp]:
  "s_raw (advance_state Inactive s) = None" "s_state (advance_state Inactive s) = Inactive"
  "s_config (advance_state Inactive s) = s_config s" "s_waits (advance_state Inactive s) = s_waits s"
  "s_death_count (advance_state Inactive s) = s_death_count s" "s_next_raw (advance_state Inactive s) = s_next_raw s"
  "s_downloads (advance_state Inactive s) = []" "s_uploads (advance_state Inactive s) = []"
  "s_connection (advance_state Inactive s) = Disconnected" "s_url (advance_state Inactive s) = s_url s"
  "s_resync_counter (advance_state Inactive s) = s_resync_counter s"
  "s_deferred_commit (advance_state Inactive s) = s_deferred_commit s"
  "s_force_resync (advance_state Inactive s) = s_force_resync s"
  by (simp_all add: advance_state_def Let_def)

lemma inv_inactive:
  assumes "base_inv s"
  shows "session_inv aw (advance_state Inactive s)"
proof -
  have "Null_Dereference \<notin> set (s_trace (advance_state Inactive s))"
    using enter_inactive_trace[of "emit [Entered Inactive] (s\<lparr>s_state := Inactive\<rparr>)"] assms
    by (auto simp: advance_state_def base_inv_def)
  then show ?thesis using assms by (simp add: session_inv_def base_inv_def raw_inv_def)
qed

lemma advance_waiting_simps [simp]:
  "s_raw (advance_state Waiting_For_Access_Token s) = s_raw s"
  "s_state (advance_state Waiting_For_Access_Token s) = Waiting_For_Access_Token"
  "s_config (advance_state Waiting_For_Access_Token s) = s_config s"
  "s_waits (advance_state Waiting_For_Access_Token s) = s_waits s"
  "s_death_count (advance_state Waiting_For_Access_Token s) = s_death_count s"
  "s_next_raw (advance_state Waiting_For_Access_Token s) = s_next_raw s"
  "s_bound (advance_state Waiting_For_Access_Token s) = s_bound s"
  "s_url (advance_state Waiting_For_Access_Token s) = s_url s"
  "s_downloads (advance_state Waiting_For_Access_Token s) = s_downloads s"
  "s_uploads (advance_state Waiting_For_Access_Token s) = s_uploads s"
  "s_resync_counter (advance_state Waiting_For_Access_Token s) = s_resync_counter s"
  "s_trace (advance_state Waiting_For_Access_Token s) = s_trace s @ [Entered Waiting_For_Access_Token]"
  by (simp_all add: advance_state_def enter_waiting_def Let_def)

lemma inv_waiting:
  assumes "base_inv s" "raw_inv s"
  shows "session_inv aw (advance_state Waiting_For_Access_Token s)"
  using assms by (simp add: session_inv_def base_inv_def raw_inv_def)

definition new_waits :: "session \<Rightarrow> nat \<Rightarrow> (nat \<times> wait) list" where
  "new_waits s r = (if s_uploads s \<noteq> [] then [(r, Completion Upload (s_resync_counter s))] else []) @
     (if s_downloads s \<noteq> [] then [(r, Completion Download (s_resync_counter s))] else [])"

lemma advance_active:
  assumes "s_raw s = Some r"
  shows "advance_state Active s = s\<lparr>s_state := Active, s_waits := s_waits s @ new_waits s r,
    s_trace := s_trace s @ [Entered Active] @ map (\<lambda>(r, w). Wait_Started r w) (new_waits s r)\<rparr>"
  using assms
  by (simp add: advance_state_def enter_active_def add_completion_callback_def new_waits_def start_wait_def emit_def
      on_raw_def Let_def)

lemma new_waits_facts:
  "(q, w) \<in> set (new_waits s r) \<Longrightarrow> q = r \<and> (\<forall>k. w \<noteq> Death k)"
  "callbacks_of dir s \<noteq> [] \<Longrightarrow> (r, Completion dir (s_resync_counter s)) \<in> set (new_waits s r)"
  subgoal by (auto simp: new_waits_def split: if_splits)
  subgoal by (cases dir) (simp_all add: new_waits_def)
  done

lemma no_null_waits: "Null_Dereference \<notin> set (map (\<lambda>(r, w). Wait_Started r w) ws)"
  by auto

lemma base_more_waits:
  assumes "base_inv s" "s_raw s = Some r" "s_death_count s \<le> d"
    and "\<And>q w k. (q, w) \<in> set ws \<Longrightarrow> q = r \<and> (w = Death k \<longrightarrow> k \<le> d)"
    and "Null_Dereference \<notin> set es"
  shows "base_inv (s\<lparr>s_state := st, s_death_count := d, s_waits := s_waits s @ ws, s_trace := s_trace s @ es\<rparr>)"
proof -
  have "r < s_next_raw s" using assms(1,2) by (simp add: base_inv_def)
  moreover have "q < s_next_raw s \<and> (\<forall>k. w = Death k \<longrightarrow> k \<le> d)" if "(q, w) \<in> set (s_waits s)" for q w
    using assms(1,3) that by (auto simp: base_inv_def)
  ultimately have "\<forall>(q, w) \<in> set (s_waits s @ ws). q < s_next_raw s \<and> (\<forall>k. w = Death k \<longrightarrow> k \<le> d)"
    using assms(4) by auto
  then show ?thesis using assms(1,5) by (simp add: base_inv_def)
qed

lemma inv_active:
  assumes "base_inv s" "connected s r"
  shows "session_inv aw (advance_state Active s)"
proof -
  have r: "s_raw s = Some r" using assms(2) by (simp add: connected_def)
  let ?s = "advance_state Active s"
  have "base_inv (s\<lparr>s_state := Active, s_death_count := s_death_count s, s_waits := s_waits s @ new_waits s r,
      s_trace := s_trace s @ [Entered Active] @ map (\<lambda>(r, w). Wait_Started r w) (new_waits s r)\<rparr>)"
    by (rule base_more_waits[OF assms(1) r]) (use new_waits_facts(1) no_null_waits in auto)
  then have "base_inv ?s" unfolding advance_active[OF r] by simp
  moreover have "connected ?s r" "s_state ?s = Active"
    using assms(2) unfolding advance_active[OF r] by (simp_all add: connected_def)
  moreover have "waits_inv ?s r"
    unfolding waits_inv_def
  proof (intro allI impI)
    fix dir assume "callbacks_of dir ?s \<noteq> []"
    then have "callbacks_of dir s \<noteq> []" unfolding advance_active[OF r] by (cases dir) simp_all
    from new_waits_facts(2)[OF this, of r] show "(r, Completion dir (s_resync_counter ?s)) \<in> set (s_waits ?s)"
      unfolding advance_active[OF r] by simp
  qed
  ultimately show ?thesis unfolding session_inv_def raw_inv_def by (auto simp: connected_def)
qed

lemma advance_dying:
  assumes "s_raw s = Some r"
  shows "advance_state Dying s = s\<lparr>s_state := Dying, s_death_count := s_death_count s + 1,
    s_waits := s_waits s @ [(r, Death (s_death_count s + 1))],
    s_trace := s_trace s @ [Entered Dying, Wait_Started r (Death (s_death_count s + 1))]\<rparr>"
  using assms
  by (simp add: advance_state_def enter_dying_def start_wait_def emit_def on_raw_def Let_def)

lemma inv_dying:
  assumes "base_inv s" "connected s r" "aw \<Longrightarrow> waits_inv s r"
  shows "session_inv aw (advance_state Dying s)"
proof -
  have r: "s_raw s = Some r" using assms(2) by (simp add: connected_def)
  let ?s = "advance_state Dying s"
  have "base_inv ?s"
    unfolding advance_dying[OF r] by (rule base_more_waits[OF assms(1) r]) auto
  moreover have "connected ?s r" "s_state ?s = Dying" "(r, Death (s_death_count ?s)) \<in> set (s_waits ?s)"
    using assms(2) unfolding advance_dying[OF r] by (simp_all add: connected_def)
  moreover have "waits_inv ?s r" if aw
    unfolding waits_inv_def
  proof (intro allI impI)
    fix dir assume "callbacks_of dir ?s \<noteq> []"
    then have "callbacks_of dir s \<noteq> []" unfolding advance_dying[OF r] by (cases dir) simp_all
    then show "(r, Completion dir (s_resync_counter ?s)) \<in> set (s_waits ?s)"
      using assms(3)[OF that] unfolding advance_dying[OF r] by (simp add: waits_inv_def)
  qed
  ultimately show ?thesis unfolding session_inv_def raw_inv_def by (auto simp: connected_def)
qed

section \<open>The methods keep the invariant\<close>

lemma session_inv_cong:
  assumes "s_state s = s_state s'" "s_death_count s = s_death_count s'"
    "cfg_user (s_config s) = cfg_user (s_config s')" "s_downloads s = s_downloads s'" "s_uploads s = s_uploads s'"
    "s_resync_counter s = s_resync_counter s'" "s_raw s = s_raw s'" "s_bound s = s_bound s'"
    "s_url s = s_url s'" "s_waits s = s_waits s'" "s_next_raw s = s_next_raw s'" "s_trace s = s_trace s'"
  shows "session_inv aw s = session_inv aw s'"
proof -
  have c: "callbacks_of dir s = callbacks_of dir s'" for dir using assms by (cases dir) simp_all
  show ?thesis
    unfolding session_inv_def base_inv_def raw_inv_def connected_def waits_inv_def assms c ..
qed

lemma session_invE:
  assumes "session_inv aw s"
  shows "s_state s = Active \<Longrightarrow> \<exists>r. connected s r \<and> (aw \<longrightarrow> waits_inv s r)"
    "s_state s = Dying \<Longrightarrow> \<exists>r. connected s r \<and> (aw \<longrightarrow> waits_inv s r) \<and> (r, Death (s_death_count s)) \<in> set (s_waits s)"
    "s_state s = Inactive \<Longrightarrow> s_raw s = None"
  using assms by (simp_all add: session_inv_def)

lemma session_inv_raw:
  assumes "session_inv aw s" "s_state s = Active \<or> s_state s = Dying"
  obtains r where "s_raw s = Some r" "connected s r" "aw \<longrightarrow> waits_inv s r"
  using session_invE[OF assms(1)] assms(2) by (auto simp: connected_def)

lemma inv_close:
  assumes "session_inv aw s"
  shows "session_inv aw (state_close s)"
proof -
  have d: "session_inv aw (s\<lparr>s_deferred_close := True\<rparr>)" using assms session_inv_cong[of "s\<lparr>s_deferred_close := True\<rparr>" s] by simp
  have i: "session_inv aw (advance_state Inactive s)" by (rule inv_inactive[OF session_inv_base(1)[OF assms]])
  show ?thesis
  proof (cases "s_state s")
    case Active
    then obtain r where "connected s r" "aw \<Longrightarrow> waits_inv s r" using session_invE(1)[OF assms] by blast
    then have "session_inv aw (advance_state Dying s)" by (rule inv_dying[OF session_inv_base(1)[OF assms]])
    then show ?thesis using assms i Active by (simp add: state_close_def split: stop_policy.split)
  next
    case Inactive
    then show ?thesis using session_emit[OF assms, of "[Unregistered]"] by (simp add: state_close_def)
  qed (use assms i d in \<open>simp_all add: state_close_def split: stop_policy.split\<close>)
qed

lemma create_sync_session_raw:
  assumes "base_inv s" "raw_inv s"
  obtains r where "s_raw (create_sync_session s) = Some r" "base_inv (create_sync_session s)"
    "s_url (create_sync_session s) = s_url s"
    "s_bound (create_sync_session s) \<Longrightarrow> s_url (create_sync_session s) \<noteq> None"
proof (cases "s_raw s")
  case None
  then have "base_inv (create_sync_session s)"
    using assms(1) by (auto simp: create_sync_session_def base_inv_def Let_def)
  then show ?thesis using that None by (simp add: create_sync_session_def Let_def)
next
  case (Some r)
  then show ?thesis using that assms by (simp add: create_sync_session_def raw_inv_def)
qed

lemma base_inv_url: "base_inv (s\<lparr>s_url := u\<rparr>) = base_inv s" "base_inv (s\<lparr>s_bound := b\<rparr>) = base_inv s"
  "base_inv (s\<lparr>s_deferred_commit := c\<rparr>) = base_inv s"
  by (simp_all add: base_inv_def)

lemma bind_or_refresh_connected:
  assumes "base_inv s" "s_raw s = Some r" "s_url s \<noteq> None"
  shows "base_inv (bind_or_refresh token r s) \<and> connected (bind_or_refresh token r s) r"
proof -
  obtain url where "s_url s = Some url" using assms(3) by blast
  then show ?thesis
    using assms base_emit[of "s\<lparr>s_bound := True\<rparr>" "[Session_Bound r url token]"]
      base_emit[of s "[Session_Refreshed r token, Reconnect_Delay_Cancelled r]"]
    by (simp add: bind_or_refresh_def connected_def base_inv_url)
qed

lemma inv_refresh_waiting:
  assumes "session_inv aw s" "s_url s \<noteq> None \<or> server_url \<noteq> None"
  shows "session_inv aw (refresh_waiting token server_url s)"
proof -
  obtain r where c: "s_raw (create_sync_session s) = Some r" "base_inv (create_sync_session s)"
    "s_url (create_sync_session s) = s_url s"
    using create_sync_session_raw session_inv_base[OF assms(1)] by blast
  define s1 where "s1 = (let s = create_sync_session s in if s_url s = None then s\<lparr>s_url := server_url\<rparr> else s)"
  have "base_inv s1" "s_raw s1 = Some r" "s_url s1 \<noteq> None"
    using c assms(2) by (auto simp: s1_def Let_def base_inv_url)
  note b = bind_or_refresh_connected[OF this, of token] this(2)
  define s2 where "s2 = on_raw (bind_or_refresh token) s1"
  have s2: "base_inv s2" "connected s2 r" using b by (simp_all add: s2_def)
  define s3 where "s3 = (case s_override s2 of Some (a, p) \<Rightarrow> on_raw (\<lambda>r. emit [Server_Overridden r a p]) s2 | None \<Rightarrow> s2)"
  have s3: "base_inv s3" "connected s3 r"
    using s2 base_emit[OF s2(1)] by (auto simp: s3_def connected_def split: option.split)
  define s4 where "s4 = (case s_deferred_commit s3 of
      Some v \<Rightarrow> (on_raw (\<lambda>r. emit [Commit_Notified r v]) s3)\<lparr>s_deferred_commit := None\<rparr> | None \<Rightarrow> s3)"
  have s4: "base_inv s4" "connected s4 r"
    using s3 base_emit[OF s3(1)] by (auto simp: s4_def connected_def base_inv_url split: option.split)
  have i: "session_inv aw (advance_state Active s4)" by (rule inv_active[OF s4])
  have "refresh_waiting token server_url s =
      (let s = advance_state Active s4 in if s_deferred_close s then state_close s else s)"
    unfolding refresh_waiting_def s1_def s2_def s3_def s4_def Let_def ..
  then show ?thesis using i inv_close[OF i] by (simp add: Let_def)
qed

lemma inv_on_raw_emit:
  assumes "session_inv aw s" "s_state s = Active \<or> s_state s = Dying" "\<And>r. Null_Dereference \<notin> set (es r)"
  shows "session_inv aw (on_raw (\<lambda>r. emit (es r)) s)"
  using assms session_emit[OF assms(1)] by (auto elim: session_inv_raw)

lemma inv_refresh:
  assumes "session_inv aw s"
  shows "session_inv aw (refresh_access_token token url s)"
  using assms inv_refresh_waiting[OF assms] inv_on_raw_emit[OF assms]
  by (auto simp: refresh_access_token_def state_refresh_def split: session_state.split)

lemma inv_expired:
  assumes "session_inv aw s"
  shows "session_inv aw (access_token_expired s)"
  using session_emit[OF inv_waiting[OF session_inv_base[OF assms]], of "[Token_Requested]"] assms
  by (simp add: access_token_expired_def)

lemma inv_log_out: "session_inv aw s \<Longrightarrow> session_inv aw (state_log_out s)"
  by (simp add: state_log_out_def inv_inactive session_inv_base)

lemma inv_revive:
  assumes "session_inv aw s"
  shows "session_inv aw (revive_if_needed s)"
proof (cases "s_state s")
  case Waiting_For_Access_Token
  then show ?thesis using assms session_inv_cong[of "s\<lparr>s_deferred_close := False\<rparr>" s]
    by (simp add: revive_if_needed_def state_revive_def)
next
  case Dying
  then obtain r where "connected s r" using session_invE(2)[OF assms] by blast
  then show ?thesis using inv_active[OF session_inv_base(1)[OF assms]] Dying
    by (simp add: revive_if_needed_def state_revive_def)
next
  case Inactive
  then show ?thesis using session_emit[OF inv_waiting[OF session_inv_base[OF assms]], of "[Token_Requested]"]
    by (simp add: revive_if_needed_def state_revive_def)
qed (use assms in \<open>simp add: revive_if_needed_def state_revive_def\<close>)

lemma inv_reconnect:
  assumes "session_inv aw s"
  shows "session_inv aw (state_reconnect s)"
  using assms session_emit[OF assms, of "[Token_Requested]"] inv_on_raw_emit[OF assms]
  by (auto simp: state_reconnect_def split: session_state.split)

lemma inv_notify:
  assumes "session_inv aw s"
  shows "session_inv aw (nonsync_transact_notify v s)"
proof -
  let ?s = "s\<lparr>s_progress := set_local_version v (s_progress s)\<rparr>"
  have i: "session_inv aw ?s" using session_inv_cong[of ?s s] assms by simp
  then have "session_inv aw (?s\<lparr>s_deferred_commit := Some v\<rparr>)" using session_inv_cong[of "?s\<lparr>s_deferred_commit := Some v\<rparr>" s] assms by simp
  then show ?thesis using i inv_on_raw_emit[OF i, of "\<lambda>r. [Commit_Notified r v]"]
    by (auto simp: nonsync_transact_notify_def state_notify_def split: session_state.split)
qed

lemma inv_override:
  assumes "session_inv aw s"
  shows "session_inv aw (state_override a p s)"
proof -
  let ?s = "s\<lparr>s_override := Some (a, p)\<rparr>"
  have i: "session_inv aw ?s" using session_inv_cong[of ?s s] assms by simp
  then show ?thesis using inv_on_raw_emit[OF i, of "\<lambda>r. [Server_Overridden r a p]"]
    by (simp add: state_override_def Let_def)
qed

lemma inv_progress:
  assumes "session_inv aw s"
  shows "session_inv aw (handle_progress_update d da u ua dv v s)"
proof -
  obtain p reports where u: "update_progress d da u ua dv v (s_progress s) = (p, reports)" by force
  have "session_inv aw (s\<lparr>s_progress := p\<rparr>)" using session_inv_cong[of "s\<lparr>s_progress := p\<rparr>" s] assms by simp
  then show ?thesis using u by (auto simp: handle_progress_update_def intro!: session_emit)
qed

lemma session_inv_clear:
  assumes "session_inv aw s"
  shows "session_inv aw (s\<lparr>s_uploads := []\<rparr>)" "session_inv aw (s\<lparr>s_downloads := []\<rparr>)"
proof -
  have c: "callbacks_of dir (s\<lparr>s_uploads := []\<rparr>) \<noteq> [] \<Longrightarrow> callbacks_of dir s \<noteq> []"
    "callbacks_of dir (s\<lparr>s_downloads := []\<rparr>) \<noteq> [] \<Longrightarrow> callbacks_of dir s \<noteq> []" for dir
    by (cases dir; simp)+
  then have "waits_inv s r \<Longrightarrow> waits_inv (s\<lparr>s_uploads := []\<rparr>) r" "waits_inv s r \<Longrightarrow> waits_inv (s\<lparr>s_downloads := []\<rparr>) r" for r
    by (simp_all add: waits_inv_def)
  then show "session_inv aw (s\<lparr>s_uploads := []\<rparr>)" "session_inv aw (s\<lparr>s_downloads := []\<rparr>)"
    using assms by (auto simp: session_inv_def base_inv_def raw_inv_def connected_def split: session_state.splits)
qed

lemma session_inv_clear_both: "session_inv aw s \<Longrightarrow> session_inv aw (s\<lparr>s_downloads := [], s_uploads := []\<rparr>)"
  using session_inv_clear by blast

lemma inv_cancel:
  assumes "session_inv aw s"
  shows "session_inv aw (cancel_pending_waits code s)"
  unfolding cancel_pending_waits_def by (rule session_emit[OF session_inv_clear_both[OF assms]]) auto

lemma inv_wait_for:
  assumes "session_inv aw s"
  shows "session_inv aw (wait_for_completion dir c s)"
proof -
  define s1 where "s1 = (if callbacks_of dir s = [] then state_wait dir s else s)"
  define s2 where "s2 = (case dir of Upload \<Rightarrow> s1\<lparr>s_uploads := s_uploads s1 @ [c]\<rparr>
    | Download \<Rightarrow> s1\<lparr>s_downloads := s_downloads s1 @ [c]\<rparr>)"
  have e: "wait_for_completion dir c s = emit [Callback_Added c] s2"
    unfolding wait_for_completion_def s1_def s2_def Let_def ..
  have "session_inv aw s2"
  proof (cases "s_state s = Active \<or> s_state s = Dying")
    case True
    then obtain r where r: "s_raw s = Some r" "connected s r" "aw \<longrightarrow> waits_inv s r"
      using session_inv_raw[OF assms] by metis
    have w: "waits_inv s1 r" "(r, Completion dir (s_resync_counter s1)) \<in> set (s_waits s1)" if aw
      using r(1) mp[OF r(3) that] True by (auto simp: s1_def state_wait_def add_completion_callback_def waits_inv_def)
    have "base_inv (start_wait (Completion dir (s_resync_counter s)) r s)"
      by (rule base_start_wait[OF session_inv_base(1)[OF assms] r(1)]) simp
    then have "base_inv s1"
      using session_inv_base(1)[OF assms] r(1) by (simp add: s1_def state_wait_def add_completion_callback_def)
    moreover have "s_state s1 = s_state s" "s_raw s1 = Some r" "s_bound s1 = s_bound s" "s_url s1 = s_url s"
      "s_death_count s1 = s_death_count s" "set (s_waits s) \<subseteq> set (s_waits s1)"
      using r(1) by (auto simp: s1_def state_wait_def add_completion_callback_def)
    ultimately have "session_inv aw s1"
      using assms True r w(1) by (auto simp: session_inv_def raw_inv_def connected_def)
    moreover have "waits_inv s2 r" if aw
      using w[OF that] by (cases dir) (auto simp: s2_def waits_inv_def callbacks_of_def split: direction.splits)
    ultimately show ?thesis
      using r(1) \<open>s_raw s1 = Some r\<close>
      by (cases dir) (auto simp: s2_def session_inv_def base_inv_def raw_inv_def connected_def split: session_state.splits)
  next
    case False
    then have "s1 = s" by (simp add: s1_def state_wait_def)
    then show ?thesis using assms False
      by (cases dir) (auto simp: s2_def session_inv_def base_inv_def raw_inv_def split: session_state.splits)
  qed
  then show ?thesis unfolding e by (rule session_emit) simp
qed

lemma base_inv_remove:
  assumes "base_inv s"
  shows "base_inv (s\<lparr>s_waits := remove1 w (s_waits s)\<rparr>)"
proof -
  have "\<forall>(r, w) \<in> set (remove1 w (s_waits s)). r < s_next_raw s \<and> (\<forall>k. w = Death k \<longrightarrow> k \<le> s_death_count s)"
    using assms unfolding base_inv_def by (meson set_remove1_subset subsetD)
  then show ?thesis using assms by (simp add: base_inv_def)
qed

lemma session_inv_remove:
  assumes "session_inv aw s" "\<And>dir. callbacks_of dir s \<noteq> [] \<Longrightarrow> snd w \<noteq> Completion dir (s_resync_counter s)"
    "s_state s = Dying \<Longrightarrow> snd w \<noteq> Death (s_death_count s)"
  shows "session_inv aw (s\<lparr>s_waits := remove1 w (s_waits s)\<rparr>)"
proof -
  let ?s = "s\<lparr>s_waits := remove1 w (s_waits s)\<rparr>"
  have c: "callbacks_of dir ?s = callbacks_of dir s" for dir by (cases dir) simp_all
  have "waits_inv ?s r" if "waits_inv s r" for r
    unfolding waits_inv_def c
  proof (intro allI impI)
    fix dir assume d: "callbacks_of dir s \<noteq> []"
    then have "(r, Completion dir (s_resync_counter s)) \<in> set (s_waits s)" "(r, Completion dir (s_resync_counter s)) \<noteq> w"
      using that assms(2)[OF d] by (auto simp: waits_inv_def)
    then show "(r, Completion dir (s_resync_counter ?s)) \<in> set (s_waits ?s)" by simp
  qed
  moreover have "(r, Death (s_death_count s)) \<in> set (remove1 w (s_waits s))"
    if "s_state s = Dying" "(r, Death (s_death_count s)) \<in> set (s_waits s)" for r
    using that assms(3) by (metis in_set_remove1 snd_conv)
  moreover have "base_inv ?s" by (rule base_inv_remove[OF session_inv_base(1)[OF assms(1)]])
  ultimately show ?thesis
    using assms(1) by (auto simp: session_inv_def raw_inv_def connected_def split: session_state.splits)
qed

lemma inv_fired:
  assumes "session_inv aw s"
  shows "session_inv aw (wait_fired w code s)"
proof (cases "snd w")
  case (Completion dir k)
  show ?thesis
  proof (cases "k = s_resync_counter s")
    case True
    let ?c = "case dir of Upload \<Rightarrow> s\<lparr>s_uploads := []\<rparr> | Download \<Rightarrow> s\<lparr>s_downloads := []\<rparr>"
    have "session_inv aw ?c" using session_inv_clear[OF assms] by (cases dir) simp_all
    then have "session_inv aw (?c\<lparr>s_waits := remove1 w (s_waits ?c)\<rparr>)"
      by (rule session_inv_remove) (auto simp: Completion callbacks_of_def split: direction.splits)
    moreover have "?c\<lparr>s_waits := remove1 w (s_waits ?c)\<rparr> = (case dir of
        Upload \<Rightarrow> s\<lparr>s_waits := remove1 w (s_waits s), s_uploads := []\<rparr>
      | Download \<Rightarrow> s\<lparr>s_waits := remove1 w (s_waits s), s_downloads := []\<rparr>)" by (cases dir) simp_all
    ultimately show ?thesis
      using True by (auto simp: wait_fired_def Completion Let_def intro!: session_emit split: direction.splits)
  next
    case False
    then have "session_inv aw (s\<lparr>s_waits := remove1 w (s_waits s)\<rparr>)"
      by (intro session_inv_remove[OF assms]) (simp_all add: Completion)
    then show ?thesis using False by (simp add: wait_fired_def Completion)
  qed
next
  case (Death k)
  show ?thesis
  proof (cases "s_state s = Dying \<and> s_death_count s = k")
    case True
    from inv_inactive[OF base_inv_remove[OF session_inv_base(1)[OF assms]]] show ?thesis using True by (simp add: wait_fired_def Death)
  next
    case False
    then have "session_inv aw (s\<lparr>s_waits := remove1 w (s_waits s)\<rparr>)"
      by (intro session_inv_remove[OF assms]) (auto simp: Death)
    then show ?thesis using False by (auto simp: wait_fired_def Death)
  qed
qed

lemma inv_finish:
  assumes "session_inv aw s"
  shows "session_inv aw (finish_error n e s)"
  using inv_cancel[OF assms] inv_inactive[OF session_inv_base(1)[OF assms]] assms
  by (simp add: finish_error_def split: next_state_after_error.split)

lemma inv_mark:
  assumes "session_inv aw s" "update_error_and_mark_file_for_deletion b e s = (e', s')"
  shows "session_inv aw s'"
proof -
  have "cfg_user (s_config s) \<noteq> None" using session_inv_base(1)[OF assms(1)] by (simp add: base_inv_def)
  then show ?thesis using assms(2) session_emit[OF assms(1)]
    by (auto simp: update_error_and_mark_file_for_deletion_def Let_def)
qed

lemma inv_resync_begin:
  assumes "session_inv aw s"
  shows "session_inv aw (resync_begin s)"
  unfolding resync_begin_def by (rule inv_inactive) (use session_inv_base(1)[OF assms] in \<open>simp add: base_inv_def\<close>)

lemma inv_resync_restore:
  assumes "session_inv aw s" "aw \<Longrightarrow> undisturbed_task (Restore_Callbacks d u) s"
  shows "session_inv aw (resync_restore d u s)"
proof -
  have "session_inv aw (s\<lparr>s_downloads := d, s_uploads := u\<rparr>)"
    using assms by (auto simp: session_inv_def base_inv_def raw_inv_def connected_def split: session_state.splits)
  then show ?thesis unfolding resync_restore_def by (rule session_emit) auto
qed

lemma inv_connection:
  assumes "session_inv aw s"
  shows "session_inv aw (connection_event new s)"
proof -
  have "session_inv aw (s\<lparr>s_connection := new\<rparr>)" using session_inv_cong[of "s\<lparr>s_connection := new\<rparr>" s] assms by simp
  then show ?thesis unfolding connection_event_def by (rule session_emit) simp
qed

lemma inv_perform:
  assumes "session_inv aw s" "enabled a s"
  shows "session_inv aw (perform a s)"
proof (cases a)
  case Take_Reference
  then show ?thesis using assms(1) session_inv_cong[of "s\<lparr>s_external := True\<rparr>" s] by (simp add: external_reference_def)
next
  case Release_Reference
  then show ?thesis using assms(1) session_inv_cong[of "s\<lparr>s_external := False\<rparr>" s] by (simp add: release_external_reference_def)
next
  case (Set_Multiplex m)
  then show ?thesis using assms(1) session_inv_cong[of "s\<lparr>s_multiplex := m\<rparr>" s] by (simp add: set_multiplex_identifier_def)
next
  case (Set_Url_Prefix p)
  then show ?thesis using assms(1) session_inv_cong[of "s\<lparr>s_config := (s_config s)\<lparr>cfg_url_prefix := Some p\<rparr>\<rparr>" s]
    by (simp add: set_url_prefix_def)
qed (use assms in \<open>simp_all add: inv_refresh inv_notify inv_revive inv_reconnect inv_log_out inv_close inv_wait_for
  inv_override inv_fired inv_connection inv_progress did_drop_external_reference_def\<close>)

section \<open>Tasks\<close>

text \<open>A new configuration is for the same user.\<close>

fun task_ok :: "session \<Rightarrow> task \<Rightarrow> bool" where
  "task_ok s (Configure config) \<longleftrightarrow> cfg_user config = cfg_user (s_config s)"
| "task_ok s t \<longleftrightarrow> True"

lemma inv_run_task:
  assumes "session_inv aw s" "task_ok s t" "aw \<Longrightarrow> undisturbed_task t s"
  shows "session_inv aw (fst (run_task t s))"
proof (cases t)
  case (Handle_Error e)
  then show ?thesis using assms(1) inv_inactive[OF session_inv_base(1)[OF assms(1)]] by (simp add: state_handle_error_def)
next
  case (Restore_Callbacks d u)
  have "session_inv aw (resync_restore d u s)"
    by (rule inv_resync_restore[OF assms(1)]) (use assms(3) Restore_Callbacks in simp)
  then show ?thesis by (simp add: Restore_Callbacks)
next
  case (Mark_File b e)
  then show ?thesis using inv_mark[OF assms(1)] by (simp split: prod.split)
next
  case (Report_Error e)
  then show ?thesis using session_emit[OF assms(1), of "[Error_Reported e]"] assms(1) by simp
next
  case (Tell_User u e)
  then show ?thesis using session_emit[OF assms(1), of "[User_Invalidated u]"] by simp
next
  case (Configure config)
  then show ?thesis
    using assms(1,2) inv_inactive[OF session_inv_base(1)[OF assms(1)]] session_inv_cong[of "s\<lparr>s_config := config\<rparr>" s] by simp
qed (use assms inv_resync_begin inv_revive inv_expired inv_cancel inv_finish in simp_all)

section \<open>What keeps the configuration\<close>

lemma config_on_raw: "(\<And>r s. s_config (f r s) = s_config s) \<Longrightarrow> s_config (on_raw f s) = s_config s"
  by (simp add: on_raw_def split: option.split)

lemma config_advance [simp]: "s_config (advance_state st s) = s_config s"
proof -
  have w: "s_config (on_raw (start_wait w) s) = s_config s" for w s by (rule config_on_raw) simp
  have i: "s_config (enter_inactive s) = s_config s" for s by simp
  show ?thesis
    by (cases st) (simp_all add: advance_state_def enter_waiting_def enter_active_def enter_dying_def add_completion_callback_def
      Let_def w del: on_raw_Some)
qed

lemma config_close [simp]: "s_config (state_close s) = s_config s"
  by (simp add: state_close_def split: session_state.split stop_policy.split)

lemma config_emit_raw [simp]: "s_config (on_raw (\<lambda>r. emit (es r)) s) = s_config s"
  by (rule config_on_raw) simp

lemma config_create [simp]: "s_config (create_sync_session s) = s_config s"
  by (simp add: create_sync_session_def Let_def)

lemma config_bind [simp]: "s_config (on_raw (bind_or_refresh token) s) = s_config s"
  by (rule config_on_raw) (simp add: bind_or_refresh_def split: option.split)

lemma config_refresh_waiting [simp]: "s_config (refresh_waiting token url s) = s_config s"
proof -
  have o: "s_config (case x of None \<Rightarrow> s | Some y \<Rightarrow> f y) = s_config s" if "\<And>y. s_config (f y) = s_config s"
    for x :: "'x option" and f and s :: session using that by (cases x) simp_all
  have p: "s_config (case y of (a, p) \<Rightarrow> g a p) = s_config s" if "\<And>a p. s_config (g a p) = s_config s"
    for y :: "'a \<times> 'b" and g and s :: session using that by (cases y) simp_all
  define s1 where "s1 = (let s = create_sync_session s in if s_url s = None then s\<lparr>s_url := url\<rparr> else s)"
  define s2 where "s2 = on_raw (bind_or_refresh token) s1"
  define s3 where "s3 = (case s_override s2 of Some (a, p) \<Rightarrow> on_raw (\<lambda>r. emit [Server_Overridden r a p]) s2 | None \<Rightarrow> s2)"
  define s4 where "s4 = (case s_deferred_commit s3 of
      Some v \<Rightarrow> (on_raw (\<lambda>r. emit [Commit_Notified r v]) s3)\<lparr>s_deferred_commit := None\<rparr> | None \<Rightarrow> s3)"
  have "s_config s1 = s_config s" by (simp add: s1_def Let_def)
  moreover have "s_config s2 = s_config s1" by (simp add: s2_def)
  moreover have "s_config s3 = s_config s2" unfolding s3_def by (intro o p) simp
  moreover have "s_config s4 = s_config s3" unfolding s4_def by (intro o) simp
  moreover have "refresh_waiting token url s =
      (let s = advance_state Active s4 in if s_deferred_close s then state_close s else s)"
    unfolding refresh_waiting_def s1_def s2_def s3_def s4_def Let_def ..
  ultimately show ?thesis by (simp add: Let_def)
qed

lemma config_perform: "\<forall>p. a \<noteq> Set_Url_Prefix p \<Longrightarrow> s_config (perform a s) = s_config s"
proof (cases a)
  case (Wait_For dir c)
  have "s_config (on_raw (start_wait w) s) = s_config s" for w s by (rule config_on_raw) simp
  then show ?thesis
    by (cases dir) (simp_all add: Wait_For wait_for_completion_def state_wait_def add_completion_callback_def Let_def)
next
  case (Progress_Event d da u ua dv v)
  then show ?thesis by (simp add: handle_progress_update_def split: prod.split)
next
  case (Wait_Fired w code)
  then show ?thesis by (simp add: wait_fired_def Let_def split: wait.split direction.split)
qed (simp_all add: refresh_access_token_def state_refresh_def nonsync_transact_notify_def state_notify_def revive_if_needed_def
    state_revive_def state_reconnect_def state_log_out_def state_override_def external_reference_def
    release_external_reference_def did_drop_external_reference_def set_multiplex_identifier_def
    connection_event_def Let_def split: session_state.split)

lemma user_perform: "cfg_user (s_config (perform a s)) = cfg_user (s_config s)"
  by (cases "\<exists>p. a = Set_Url_Prefix p") (auto simp: config_perform set_url_prefix_def)

lemma config_run_task: "\<forall>c. t \<noteq> Configure c \<Longrightarrow> s_config (fst (run_task t s)) = s_config s"
  by (cases t) (simp_all add: state_handle_error_def resync_begin_def resync_restore_def revive_if_needed_def state_revive_def
    access_token_expired_def cancel_pending_waits_def update_error_and_mark_file_for_deletion_def finish_error_def
    Let_def split: session_state.split option.split next_state_after_error.split)

lemma user_run_task: "task_ok s t \<Longrightarrow> cfg_user (s_config (fst (run_task t s))) = cfg_user (s_config s)"
  by (cases "\<exists>c. t = Configure c") (auto simp: config_run_task)

lemma task_ok_user: "cfg_user (s_config s') = cfg_user (s_config s) \<Longrightarrow> task_ok s' t = task_ok s t"
  by (cases t) simp_all

lemma run_task_ok: "task_ok s t \<Longrightarrow> snd (run_task t s) = Some t' \<Longrightarrow> task_ok s t'"
proof (cases t)
  case (Decide_Error e)
  have "action_task a e = Some t' \<Longrightarrow> task_ok s t'" for a e by (cases a) auto
  then show "snd (run_task t s) = Some t' \<Longrightarrow> task_ok s t'"
    by (auto simp: Decide_Error decide_error_def split: if_splits error_code.splits)
qed (auto simp: state_handle_error_def split: if_splits option.splits prod.splits)

section \<open>Reachable machines\<close>

text \<open>Everyone waiting has a wait outstanding if the restorations were undisturbed (\<open>aw\<close>).\<close>

definition machine_inv :: "bool \<Rightarrow> machine \<Rightarrow> bool" where
  "machine_inv aw m \<longleftrightarrow> session_inv aw (mc_session m) \<and> list_all (task_ok (mc_session m)) (mc_tasks m)"

lemma machine_step_inv:
  assumes "session_step m a m'" "machine_inv aw m" "aw \<Longrightarrow> undisturbed a m"
  shows "machine_inv aw m'"
proof (cases a)
  case (Perform b)
  then have m': "mc_session m' = perform b (mc_session m)" "mc_tasks m' = mc_tasks m @ begun b" "enabled b (mc_session m)"
    using assms(1) by (auto elim!: session_stepE)
  have "list_all (task_ok (mc_session m)) (begun b)"
    using m'(3) by (cases "b" rule: begun.cases) auto
  then show ?thesis
    using assms(2) inv_perform[of aw "mc_session m" b] m' task_ok_user[of "mc_session m'" "mc_session m"] user_perform
    by (auto simp: machine_inv_def list_all_iff)
next
  case (Run i)
  let ?t = "mc_tasks m ! i"
  obtain s t where r: "run_task ?t (mc_session m) = (s, t)" by (cases "run_task ?t (mc_session m)")
  then have m': "mc_session m' = s" "i < length (mc_tasks m)"
    "mc_tasks m' = take i (mc_tasks m) @ (case t of None \<Rightarrow> [] | Some t \<Rightarrow> [t]) @ drop (Suc i) (mc_tasks m)"
    using assms(1) by (auto simp: Run elim!: session_stepE)
  have ok: "task_ok (mc_session m) ?t" using assms(2) m'(2) by (simp add: machine_inv_def list_all_length)
  have "session_inv aw s"
    using inv_run_task[OF _ ok, of aw] assms(2,3) r by (simp add: machine_inv_def Run)
  moreover have "task_ok s x = task_ok (mc_session m) x" for x
    using task_ok_user[of s "mc_session m"] user_run_task[OF ok] r by simp
  moreover have "task_ok (mc_session m) x" if "t = Some x" for x using run_task_ok[OF ok] r that by simp
  ultimately show ?thesis
    using assms(2) m' by (auto simp: machine_inv_def list_all_iff dest: in_set_takeD in_set_dropD split: option.splits)
qed

lemma reachable_by_inv:
  assumes "reachable_by P m" "\<And>a m. aw \<Longrightarrow> P a m \<Longrightarrow> undisturbed a m"
  shows "machine_inv aw m"
  using assms(1)
proof (induction rule: reachable_by.induct)
  case (start config path force recovery)
  then show ?case by (simp add: machine_inv_def make_sync_session_def session_inv_def base_inv_def raw_inv_def)
next
  case (extend m a m')
  show ?case by (rule machine_step_inv[OF extend.hyps(2) extend.IH]) (use assms(2) extend.hyps in blast)
qed

lemma reachable_inv:
  "reachable_by P m \<Longrightarrow> session_inv False (mc_session m)"
  "reachable_by undisturbed m \<Longrightarrow> session_inv True (mc_session m)"
  using reachable_by_inv[of P m False] reachable_by_inv[of undisturbed m True] by (simp_all add: machine_inv_def)

lemma reachable_tasks: "reachable_by P m \<Longrightarrow> list_all (task_ok (mc_session m)) (mc_tasks m)"
  using reachable_by_inv[of P m False] by (simp add: machine_inv_def)

end
