(* ===== verification/Sync_Session_Traces.thy ===== *)
theory Sync_Session_Traces
  imports Sync_Session_Invariants "HOL-Library.Multiset"
begin

text \<open>
  What the trace of a session shows: the state machine keeps to its diagram, the sync client's session
  is used as its documentation demands, and every completion callback is called at most once.
\<close>

section \<open>Views of a trace\<close>

text \<open>The diagram in the comment before the states.\<close>

definition documented :: "(session_state \<times> session_state) set" where
  "documented =
     {(Waiting_For_Access_Token, Active), (Waiting_For_Access_Token, Inactive),
      (Active, Waiting_For_Access_Token), (Active, Inactive), (Active, Dying),
      (Dying, Inactive), (Dying, Active), (Inactive, Waiting_For_Access_Token)}"

fun walk_states :: "(session_state \<times> session_state) set \<Rightarrow> session_state \<Rightarrow> event list \<Rightarrow> session_state option" where
  "walk_states D st [] = Some st"
| "walk_states D st (Entered st' # es) = (if (st, st') \<in> D then walk_states D st' es else None)"
| "walk_states D st (e # es) = walk_states D st es"

text \<open>
  The life of the client's sessions: one at a time, made, bound, used only while bound, destroyed.  The
  flag says whether the present session is bound.
\<close>

fun use_raw :: "event \<Rightarrow> nat option \<times> bool \<Rightarrow> (nat option \<times> bool) option" where
  "use_raw (Session_Made r c) m = (if fst m = None then Some (Some r, False) else None)"
| "use_raw (Session_Bound r u t) m = (if m = (Some r, False) then Some (Some r, True) else None)"
| "use_raw (Session_Refreshed r t) m = (if m = (Some r, True) then Some m else None)"
| "use_raw (Reconnect_Delay_Cancelled r) m = (if m = (Some r, True) then Some m else None)"
| "use_raw (Server_Overridden r a p) m = (if m = (Some r, True) then Some m else None)"
| "use_raw (Commit_Notified r v) m = (if m = (Some r, True) then Some m else None)"
| "use_raw (Wait_Started r w) m = (if m = (Some r, True) then Some m else None)"
| "use_raw (Session_Destroyed r) m = (if m = (Some r, True) then Some (None, False) else None)"
| "use_raw Null_Dereference m = None"
| "use_raw e m = Some m"

fun uses_raw :: "event list \<Rightarrow> nat option \<times> bool \<Rightarrow> (nat option \<times> bool) option" where
  "uses_raw [] m = Some m"
| "uses_raw (e # es) m = (case use_raw e m of Some m \<Rightarrow> uses_raw es m | None \<Rightarrow> None)"

fun added_callbacks :: "event list \<Rightarrow> nat multiset" where
  "added_callbacks [] = {#}"
| "added_callbacks (Callback_Added c # es) = add_mset c (added_callbacks es)"
| "added_callbacks (e # es) = added_callbacks es"

fun called_callbacks :: "event list \<Rightarrow> nat multiset" where
  "called_callbacks [] = {#}"
| "called_callbacks (Callback_Called c code # es) = add_mset c (called_callbacks es)"
| "called_callbacks (e # es) = called_callbacks es"

fun dropped_callbacks :: "event list \<Rightarrow> nat multiset" where
  "dropped_callbacks [] = {#}"
| "dropped_callbacks (Callback_Dropped c # es) = add_mset c (dropped_callbacks es)"
| "dropped_callbacks (e # es) = dropped_callbacks es"

lemma walk_states_append:
  "walk_states D st (es @ fs) = (case walk_states D st es of Some st' \<Rightarrow> walk_states D st' fs | None \<Rightarrow> None)"
  by (induction D st es rule: walk_states.induct) auto

lemma uses_raw_append:
  "uses_raw (es @ fs) m = (case uses_raw es m of Some m' \<Rightarrow> uses_raw fs m' | None \<Rightarrow> None)"
  by (induction es arbitrary: m) (auto split: option.split)

lemma added_callbacks_append [simp]: "added_callbacks (es @ fs) = added_callbacks es + added_callbacks fs"
  by (induction es rule: added_callbacks.induct) auto

lemma called_callbacks_append [simp]: "called_callbacks (es @ fs) = called_callbacks es + called_callbacks fs"
  by (induction es rule: called_callbacks.induct) auto

lemma dropped_callbacks_append [simp]: "dropped_callbacks (es @ fs) = dropped_callbacks es + dropped_callbacks fs"
  by (induction es rule: dropped_callbacks.induct) auto

section \<open>Steps of the views\<close>

definition raw_view :: "session \<Rightarrow> nat option \<times> bool" where
  "raw_view s = (s_raw s, s_raw s \<noteq> None \<and> s_bound s)"

definition pending :: "session \<Rightarrow> nat multiset" where
  "pending s = mset (s_downloads s) + mset (s_uploads s)"

definition leads :: "(session_state \<times> session_state) set \<Rightarrow> session \<Rightarrow> session \<Rightarrow> bool" where
  "leads D s s' \<longleftrightarrow> (\<exists>es. s_trace s' = s_trace s @ es \<and>
     walk_states D (s_state s) es = Some (s_state s') \<and>
     uses_raw es (raw_view s) = Some (raw_view s') \<and>
     pending s + added_callbacks es = pending s' + called_callbacks es \<and> dropped_callbacks es = {#})"

lemma leads_refl: "leads D s s"
  unfolding leads_def by (rule exI[of _ "[]"]) simp

lemma leads_trans:
  assumes "leads D s t" "leads D t u"
  shows "leads D s u"
proof -
  obtain es where e: "s_trace t = s_trace s @ es" "walk_states D (s_state s) es = Some (s_state t)"
    "uses_raw es (raw_view s) = Some (raw_view t)" "pending s + added_callbacks es = pending t + called_callbacks es"
    "dropped_callbacks es = {#}"
    using assms(1) unfolding leads_def by blast
  obtain fs where f: "s_trace u = s_trace t @ fs" "walk_states D (s_state t) fs = Some (s_state u)"
    "uses_raw fs (raw_view t) = Some (raw_view u)" "pending t + added_callbacks fs = pending u + called_callbacks fs"
    "dropped_callbacks fs = {#}"
    using assms(2) unfolding leads_def by blast
  have "pending s + added_callbacks (es @ fs) = pending t + called_callbacks es + added_callbacks fs"
    using e(4) by (simp add: add.assoc[symmetric])
  also have "\<dots> = pending u + called_callbacks (es @ fs)" using f(4) by (simp add: ac_simps)
  finally show ?thesis
    unfolding leads_def using e f
    by (intro exI[of _ "es @ fs"]) (simp add: walk_states_append uses_raw_append)
qed

text \<open>Fields outside the views.\<close>

lemma leads_same:
  assumes "s_trace s' = s_trace s" "s_state s' = s_state s" "s_raw s' = s_raw s" "s_bound s' = s_bound s"
    "s_downloads s' = s_downloads s" "s_uploads s' = s_uploads s"
  shows "leads D s s'"
  unfolding leads_def using assms by (intro exI[of _ "[]"]) (simp add: raw_view_def pending_def)

fun neutral_event :: "event \<Rightarrow> bool" where
  "neutral_event Token_Requested = True"
| "neutral_event Unregistered = True"
| "neutral_event (Connection_Changed a b) = True"
| "neutral_event (Error_Reported e) = True"
| "neutral_event (File_Action b p u i r) = True"
| "neutral_event (User_Invalidated u) = True"
| "neutral_event (Progress_Reported r) = True"
| "neutral_event e = False"

definition neutral :: "event list \<Rightarrow> bool" where
  "neutral es \<longleftrightarrow> list_all neutral_event es"

lemma neutral_views:
  "neutral es \<Longrightarrow> walk_states D st es = Some st \<and> uses_raw es m = Some m \<and>
     added_callbacks es = {#} \<and> called_callbacks es = {#} \<and> dropped_callbacks es = {#}"
proof (induction es)
  case (Cons e es)
  then show ?case by (cases e) (simp_all add: neutral_def)
qed simp

lemma leads_emit: "neutral es \<Longrightarrow> leads D s (emit es s)"
  unfolding leads_def by (intro exI[of _ es]) (simp add: neutral_views raw_view_def pending_def)

lemma leads_use:
  assumes "s_raw s = Some r" "s_bound s" "uses_raw es (Some r, True) = Some (Some r, True)"
    "walk_states D (s_state s) es = Some (s_state s)" "added_callbacks es = {#}" "called_callbacks es = {#}"
    "dropped_callbacks es = {#}"
  shows "leads D s (emit es s)"
  unfolding leads_def using assms by (intro exI[of _ es]) (simp add: raw_view_def pending_def)

lemma leads_start_wait:
  assumes "s_raw s = Some r" "s_bound s"
  shows "leads D s (start_wait w r s)"
  unfolding leads_def using assms by (intro exI[of _ "[Wait_Started r w]"]) (simp add: raw_view_def pending_def)

lemma called_map: "called_callbacks (map (\<lambda>c. Callback_Called c code) cs) = mset cs"
  by (induction cs) auto

lemma called_views:
  "walk_states D st (map (\<lambda>c. Callback_Called c code) cs) = Some st"
  "uses_raw (map (\<lambda>c. Callback_Called c code) cs) m = Some m"
  "added_callbacks (map (\<lambda>c. Callback_Called c code) cs) = {#}"
  "dropped_callbacks (map (\<lambda>c. Callback_Called c code) cs) = {#}"
  by (induction cs) auto

section \<open>Entering a state\<close>

lemma leads_inactive:
  assumes "(s_state s, Inactive) \<in> D" "s_raw s \<noteq> None \<Longrightarrow> s_bound s"
  shows "leads D s (advance_state Inactive s)"
proof -
  define es where "es = [Entered Inactive] @ (case s_raw s of Some r \<Rightarrow> [Session_Destroyed r] | None \<Rightarrow> []) @
    [Unregistered] @ (if s_connection s \<noteq> Disconnected then [Connection_Changed (s_connection s) Disconnected] else []) @
    map (\<lambda>c. Callback_Called c Operation_Aborted) (s_downloads s @ s_uploads s)"
  have "s_trace (advance_state Inactive s) = s_trace s @ es"
    by (simp add: advance_state_def enter_inactive_def destroy_raw_def es_def Let_def split: option.split)
  moreover have "walk_states D (s_state s) es = Some Inactive"
    using assms(1) by (simp add: es_def walk_states_append called_views split: option.split)
  moreover have "uses_raw es (raw_view s) = Some (None, False)"
    using assms(2) by (cases "s_raw s") (simp_all add: es_def uses_raw_append called_views raw_view_def)
  moreover have "added_callbacks es = {#}" "called_callbacks es = pending s" "dropped_callbacks es = {#}"
    by (simp_all add: es_def called_views called_map pending_def split: option.split)
  ultimately show ?thesis
    unfolding leads_def by (intro exI[of _ es]) (simp add: raw_view_def pending_def)
qed

lemma leads_waiting:
  assumes "(s_state s, Waiting_For_Access_Token) \<in> D"
  shows "leads D s (advance_state Waiting_For_Access_Token s)"
  unfolding leads_def using assms
  by (intro exI[of _ "[Entered Waiting_For_Access_Token]"]) (simp add: raw_view_def pending_def)

lemma leads_active:
  assumes "(s_state s, Active) \<in> D" "s_raw s = Some r" "s_bound s"
  shows "leads D s (advance_state Active s)"
proof -
  let ?es = "map (\<lambda>(r, w). Wait_Started r w) (new_waits s r)"
  have "walk_states D Active ?es = Some Active \<and> uses_raw ?es (Some r, True) = Some (Some r, True) \<and>
      added_callbacks ?es = {#} \<and> called_callbacks ?es = {#} \<and> dropped_callbacks ?es = {#}"
    by (simp add: new_waits_def)
  then show ?thesis
    unfolding leads_def advance_active[OF assms(2)] using assms
    by (intro exI[of _ "[Entered Active] @ ?es"]) (simp add: raw_view_def pending_def)
qed

lemma leads_dying:
  assumes "(s_state s, Dying) \<in> D" "s_raw s = Some r" "s_bound s"
  shows "leads D s (advance_state Dying s)"
  unfolding leads_def advance_dying[OF assms(2)] using assms
  by (intro exI[of _ "[Entered Dying, Wait_Started r (Death (s_death_count s + 1))]"]) (simp add: raw_view_def pending_def)

section \<open>The methods\<close>

lemma raw_inv_bound: "raw_inv s \<Longrightarrow> s_raw s \<noteq> None \<Longrightarrow> s_bound s"
  by (simp add: raw_inv_def)

lemma inv_bound: "session_inv aw s \<Longrightarrow> s_raw s \<noteq> None \<Longrightarrow> s_bound s"
  by (simp add: session_inv_def raw_inv_def)

text \<open>From now on the relation contains the documented edges.\<close>

lemma documentedD:
  assumes "documented \<subseteq> D"
  shows "(Waiting_For_Access_Token, Active) \<in> D" "(Waiting_For_Access_Token, Inactive) \<in> D"
    "(Active, Waiting_For_Access_Token) \<in> D" "(Active, Inactive) \<in> D" "(Active, Dying) \<in> D"
    "(Dying, Inactive) \<in> D" "(Dying, Active) \<in> D" "(Inactive, Waiting_For_Access_Token) \<in> D"
  using assms by (auto simp: documented_def)

lemma to_inactive:
  assumes "documented \<subseteq> D" "st \<noteq> Inactive"
  shows "(st, Inactive) \<in> D"
  using documentedD[OF assms(1)] assms(2) by (cases st) simp_all

lemma leads_close:
  assumes "session_inv aw s" "documented \<subseteq> D"
  shows "leads D s (state_close s)"
proof (cases "s_state s")
  case Waiting_For_Access_Token
  then show ?thesis
    using leads_inactive[of s D] inv_bound[OF assms(1)] documentedD[OF assms(2)] leads_same[of "s\<lparr>s_deferred_close := True\<rparr>" s]
    by (simp add: state_close_def split: stop_policy.split)
next
  case Active
  then obtain r where "s_raw s = Some r" "s_bound s" using session_inv_raw[OF assms(1)] by (metis connected_def)
  then show ?thesis
    using leads_inactive[of s D] leads_dying[of s D] documentedD[OF assms(2)] Active
    by (simp add: state_close_def leads_refl split: stop_policy.split)
next
  case Dying
  then show ?thesis by (simp add: state_close_def leads_refl)
next
  case Inactive
  then show ?thesis by (simp add: state_close_def leads_emit neutral_def)
qed

lemma leads_create:
  "leads D s (create_sync_session s)"
proof (cases "s_raw s")
  case None
  define reset where "reset = (if s_force_resync s then Some (cfg_resync_mode (s_config s) = Recover) else None)"
  have "s_trace (create_sync_session s) = s_trace s @ [Session_Made (s_next_raw s) reset]"
    "s_state (create_sync_session s) = s_state s" "raw_view (create_sync_session s) = (Some (s_next_raw s), False)"
    "pending (create_sync_session s) = pending s" "raw_view s = (None, False)"
    using None by (simp_all add: create_sync_session_def reset_def raw_view_def pending_def Let_def)
  then show ?thesis unfolding leads_def by (intro exI[of _ "[Session_Made (s_next_raw s) reset]"]) simp
qed (simp add: create_sync_session_def leads_refl)

lemma state_create [simp]: "s_state (create_sync_session s) = s_state s"
  by (simp add: create_sync_session_def Let_def)

lemma state_bind [simp]: "s_state (bind_or_refresh token r s) = s_state s"
  by (simp add: bind_or_refresh_def split: option.split)

lemma leads_bind:
  assumes "s_raw s = Some r" "s_url s \<noteq> None"
  shows "leads D s (bind_or_refresh token r s)"
proof (cases "s_bound s")
  case True
  then show ?thesis using leads_use[OF assms(1) True, of "[Session_Refreshed r token, Reconnect_Delay_Cancelled r]" D]
    by (simp add: bind_or_refresh_def)
next
  case False
  then obtain url where u: "s_url s = Some url" using assms(2) by blast
  show ?thesis
    unfolding leads_def using assms(1) False u
    by (intro exI[of _ "[Session_Bound r url token]"]) (simp add: bind_or_refresh_def raw_view_def pending_def)
qed

lemma leads_on_raw:
  assumes "connected s r" "uses_raw (es r) (Some r, True) = Some (Some r, True)"
    "walk_states D (s_state s) (es r) = Some (s_state s)" "added_callbacks (es r) = {#}" "called_callbacks (es r) = {#}"
    "dropped_callbacks (es r) = {#}"
  shows "leads D s (on_raw (\<lambda>r. emit (es r)) s)"
  using leads_use[of s r "es r" D] assms by (simp add: connected_def)

lemma leads_refresh_waiting:
  assumes "session_inv aw s" "s_url s \<noteq> None \<or> server_url \<noteq> None" "documented \<subseteq> D" "s_state s = Waiting_For_Access_Token"
  shows "leads D s (refresh_waiting token server_url s)"
proof -
  obtain r where c: "s_raw (create_sync_session s) = Some r" "base_inv (create_sync_session s)"
    "s_url (create_sync_session s) = s_url s"
    using create_sync_session_raw session_inv_base[OF assms(1)] by blast
  define s0 where "s0 = create_sync_session s"
  define s1 where "s1 = (if s_url s0 = None then s0\<lparr>s_url := server_url\<rparr> else s0)"
  have l1: "leads D s s1"
    using leads_trans[OF leads_create leads_same[of "s0\<lparr>s_url := server_url\<rparr>" "create_sync_session s" D]]
      leads_create[of D s] by (simp add: s1_def s0_def)
  have s1: "base_inv s1" "s_raw s1 = Some r" "s_url s1 \<noteq> None"
    using c assms(2) by (auto simp: s1_def s0_def base_inv_url)
  define s2 where "s2 = on_raw (bind_or_refresh token) s1"
  have l2: "leads D s1 s2" using leads_bind[OF s1(2,3)] s1(2) by (simp add: s2_def)
  have s2: "base_inv s2" "connected s2 r" using bind_or_refresh_connected[OF s1] s1(2) by (simp_all add: s2_def)
  define s3 where "s3 = (case s_override s2 of Some (a, p) \<Rightarrow> on_raw (\<lambda>r. emit [Server_Overridden r a p]) s2 | None \<Rightarrow> s2)"
  have l3: "leads D s2 s3"
    using leads_on_raw[OF s2(2), of "\<lambda>r. [Server_Overridden r a p]" D for a p]
    by (auto simp: s3_def leads_refl split: option.split)
  have s3: "base_inv s3" "connected s3 r"
    using s2 base_emit[OF s2(1)] by (auto simp: s3_def connected_def split: option.split)
  define s4 where "s4 = (case s_deferred_commit s3 of
      Some v \<Rightarrow> (on_raw (\<lambda>r. emit [Commit_Notified r v]) s3)\<lparr>s_deferred_commit := None\<rparr> | None \<Rightarrow> s3)"
  have l4: "leads D s3 s4"
  proof (cases "s_deferred_commit s3")
    case (Some v)
    let ?t = "on_raw (\<lambda>r. emit [Commit_Notified r v]) s3"
    have "leads D s3 ?t" using leads_on_raw[OF s3(2), of "\<lambda>r. [Commit_Notified r v]" D] by simp
    then show ?thesis using leads_trans leads_same[of "?t\<lparr>s_deferred_commit := None\<rparr>" ?t D] by (simp add: s4_def Some)
  qed (simp add: s4_def leads_refl)
  have s4: "base_inv s4" "connected s4 r"
    using s3 base_emit[OF s3(1)] by (auto simp: s4_def connected_def base_inv_url split: option.split)
  have l: "leads D s s4" using leads_trans[OF leads_trans[OF l1 l2] leads_trans[OF l3 l4]] .
  have "s_state s2 = s_state s" using s1(2) by (simp add: s2_def s1_def s0_def)
  then have "s_state s3 = s_state s" using s2(2) by (simp add: s3_def connected_def split: option.split)
  then have "s_state s4 = s_state s" using s3(2) by (simp add: s4_def connected_def split: option.split)
  then have l5: "leads D s4 (advance_state Active s4)"
    using leads_active documentedD(1)[OF assms(3)] s4(2) assms(4) by (simp add: connected_def)
  have i: "session_inv aw (advance_state Active s4)" by (rule inv_active[OF s4])
  have "refresh_waiting token server_url s =
      (let s = advance_state Active s4 in if s_deferred_close s then state_close s else s)"
    unfolding refresh_waiting_def s0_def s1_def s2_def s3_def s4_def Let_def ..
  then show ?thesis
    using leads_trans[OF l l5] leads_trans leads_close[OF i assms(3)] by (auto simp: Let_def)
qed

lemma leads_refresh:
  assumes "session_inv aw s" "documented \<subseteq> D"
  shows "leads D s (refresh_access_token token url s)"
proof (cases "s_state s")
  case Active
  then obtain r where "connected s r" using session_inv_raw[OF assms(1)] by metis
  from leads_on_raw[OF this, of "\<lambda>r. [Session_Refreshed r token, Reconnect_Delay_Cancelled r]" D]
  show ?thesis using Active by (simp add: refresh_access_token_def state_refresh_def leads_refl)
qed (use leads_refresh_waiting[OF assms(1) _ assms(2)] in
  \<open>auto simp: refresh_access_token_def state_refresh_def leads_refl\<close>)

lemma leads_expired:
  assumes "documented \<subseteq> D"
  shows "leads D s (access_token_expired s)"
  using leads_trans[OF leads_waiting leads_emit[of "[Token_Requested]"], of s D] documentedD(3)[OF assms]
  by (simp add: access_token_expired_def leads_refl neutral_def)

lemma leads_log_out:
  assumes "session_inv aw s" "documented \<subseteq> D"
  shows "leads D s (state_log_out s)"
  using leads_inactive[of s D] inv_bound[OF assms(1)] to_inactive[OF assms(2)]
  by (simp add: state_log_out_def leads_refl)

lemma leads_revive:
  assumes "session_inv aw s" "documented \<subseteq> D"
  shows "leads D s (revive_if_needed s)"
proof (cases "s_state s")
  case Waiting_For_Access_Token
  then show ?thesis using leads_same[of "s\<lparr>s_deferred_close := False\<rparr>" s]
    by (simp add: revive_if_needed_def state_revive_def)
next
  case Dying
  then obtain r where "connected s r" using session_invE(2)[OF assms(1)] by blast
  then show ?thesis using leads_active[of s D r] Dying documentedD[OF assms(2)]
    by (simp add: revive_if_needed_def state_revive_def connected_def)
next
  case Inactive
  then show ?thesis
    using leads_trans[OF leads_waiting leads_emit[of "[Token_Requested]"], of s D] documentedD(8)[OF assms(2)]
    by (simp add: revive_if_needed_def state_revive_def neutral_def)
qed (simp add: revive_if_needed_def state_revive_def leads_refl)

lemma leads_reconnect:
  assumes "session_inv aw s"
  shows "leads D s (state_reconnect s)"
proof (cases "s_state s")
  case Active
  then obtain r where "connected s r" using session_inv_raw[OF assms(1)] by metis
  from leads_on_raw[OF this, of "\<lambda>r. [Reconnect_Delay_Cancelled r]" D] show ?thesis
    using Active by (simp add: state_reconnect_def)
qed (simp_all add: state_reconnect_def leads_refl leads_emit neutral_def)

lemma leads_notify:
  assumes "session_inv aw s"
  shows "leads D s (nonsync_transact_notify v s)"
proof -
  let ?s = "s\<lparr>s_progress := set_local_version v (s_progress s)\<rparr>"
  have p: "leads D s ?s" by (rule leads_same) simp_all
  have "leads D ?s (state_notify v ?s)"
  proof (cases "s_state s")
    case Active
    then obtain r where "connected s r" using session_inv_raw[OF assms(1)] by metis
    then have "connected ?s r" by (simp add: connected_def)
    from leads_on_raw[OF this, of "\<lambda>r. [Commit_Notified r v]" D] show ?thesis
      using Active by (simp add: state_notify_def)
  next
    case Waiting_For_Access_Token
    then show ?thesis using leads_same[of "?s\<lparr>s_deferred_commit := Some v\<rparr>" ?s] by (simp add: state_notify_def)
  qed (simp_all add: state_notify_def leads_refl)
  from leads_trans[OF p this] show ?thesis by (simp add: nonsync_transact_notify_def)
qed

lemma leads_override:
  assumes "session_inv aw s"
  shows "leads D s (state_override a p s)"
proof -
  let ?s = "s\<lparr>s_override := Some (a, p)\<rparr>"
  have o: "leads D s ?s" by (rule leads_same) simp_all
  show ?thesis
  proof (cases "s_state s = Active \<or> s_state s = Dying")
    case True
    then obtain r where "connected s r" using session_inv_raw[OF assms(1)] by metis
    then have "connected ?s r" by (simp add: connected_def)
    from leads_trans[OF o leads_on_raw[OF this, of "\<lambda>r. [Server_Overridden r a p]"]] show ?thesis
      using True by (simp add: state_override_def Let_def)
  next
    case False
    then show ?thesis using o by (auto simp: state_override_def Let_def)
  qed
qed

lemma leads_progress: "leads D s (handle_progress_update d da u ua dv v s)"
proof -
  obtain p reports where u: "update_progress d da u ua dv v (s_progress s) = (p, reports)" by force
  have "neutral (map Progress_Reported reports)" by (simp add: neutral_def list_all_iff)
  from leads_trans[OF leads_same leads_emit[OF this], of "s\<lparr>s_progress := p\<rparr>" s] show ?thesis
    by (simp add: handle_progress_update_def u)
qed

lemma leads_cancel: "leads D s (cancel_pending_waits code s)"
  unfolding leads_def
  by (intro exI[of _ "map (\<lambda>c. Callback_Called c code) (s_downloads s @ s_uploads s)"])
    (simp add: cancel_pending_waits_def called_views called_map raw_view_def pending_def walk_states_append uses_raw_append)

lemma leads_wait_for:
  assumes "session_inv aw s"
  shows "leads D s (wait_for_completion dir c s)"
proof -
  define s1 where "s1 = (if callbacks_of dir s = [] then state_wait dir s else s)"
  have l: "leads D s s1"
  proof (cases "s_state s = Active \<or> s_state s = Dying")
    case True
    then obtain r where "connected s r" using session_inv_raw[OF assms(1)] by metis
    then show ?thesis
      using leads_start_wait[of s r D] by (simp add: s1_def state_wait_def add_completion_callback_def connected_def leads_refl)
  next
    case False
    then show ?thesis by (auto simp: s1_def state_wait_def leads_refl)
  qed
  have "leads D s1 (wait_for_completion dir c s)"
    unfolding leads_def wait_for_completion_def Let_def s1_def[symmetric]
    by (intro exI[of _ "[Callback_Added c]"]) (cases dir; simp add: raw_view_def pending_def)
  with l show ?thesis by (rule leads_trans)
qed

lemma leads_fired:
  assumes "session_inv aw s" "documented \<subseteq> D"
  shows "leads D s (wait_fired w code s)"
proof -
  let ?s = "s\<lparr>s_waits := remove1 w (s_waits s)\<rparr>"
  have l: "leads D s ?s" by (rule leads_same) simp_all
  show ?thesis
  proof (cases "snd w")
    case (Completion dir k)
    have "leads D ?s (emit (map (\<lambda>c. Callback_Called c code) (callbacks_of dir ?s))
        (case dir of Upload \<Rightarrow> ?s\<lparr>s_uploads := []\<rparr> | Download \<Rightarrow> ?s\<lparr>s_downloads := []\<rparr>))"
      unfolding leads_def
      by (intro exI[of _ "map (\<lambda>c. Callback_Called c code) (callbacks_of dir ?s)"])
        (cases dir; simp add: called_views called_map raw_view_def pending_def)
    with l show ?thesis using leads_trans[OF l] by (simp add: wait_fired_def Completion Let_def)
  next
    case (Death k)
    show ?thesis
    proof (cases "s_state s = Dying \<and> s_death_count s = k")
      case True
      then have "leads D ?s (advance_state Inactive ?s)"
        using inv_bound[OF assms(1)] documentedD(6)[OF assms(2)] by (intro leads_inactive) simp_all
      from leads_trans[OF l this] show ?thesis using True by (simp add: wait_fired_def Death)
    next
      case False
      then show ?thesis using l by (auto simp: wait_fired_def Death)
    qed
  qed
qed

lemma leads_connection: "leads D s (connection_event new s)"
  unfolding connection_event_def by (rule leads_trans[OF leads_same leads_emit]) (simp_all add: neutral_def)

lemma leads_perform:
  assumes "session_inv aw s" "documented \<subseteq> D"
  shows "leads D s (perform a s)"
proof (cases a)
  case Drop_Reference
  then show ?thesis using leads_close[OF assms] by (simp add: did_drop_external_reference_def leads_refl)
qed (use assms in \<open>simp_all add: leads_refresh leads_notify leads_revive leads_reconnect leads_log_out leads_close
  leads_wait_for leads_override leads_fired leads_progress leads_connection leads_refl leads_same external_reference_def
  release_external_reference_def set_multiplex_identifier_def set_url_prefix_def\<close>)

section \<open>Tasks\<close>

lemma leads_finish:
  assumes "session_inv aw s" "n = Next_Inactive \<Longrightarrow> (s_state s, Inactive) \<in> D"
  shows "leads D s (finish_error n e s)"
  using assms leads_cancel leads_inactive[of s D] inv_bound[OF assms(1)]
  by (cases n) (simp_all add: finish_error_def leads_refl)

lemma leads_mark:
  assumes "session_inv aw s"
  shows "leads D s (snd (update_error_and_mark_file_for_deletion b e s))"
proof -
  obtain u where "cfg_user (s_config s) = Some u" using session_inv_base(1)[OF assms(1)] by (auto simp: base_inv_def)
  then have "snd (update_error_and_mark_file_for_deletion b e s) =
      emit [File_Action b (s_path s) (cfg_realm_url (s_config s)) u (if b then s_recovery_path s else [])] s"
    by (simp add: update_error_and_mark_file_for_deletion_def Let_def)
  then show ?thesis by (simp add: leads_emit neutral_def)
qed

text \<open>
  The tasks that enter the inactive state whatever the state is: an error may be reported to a session that
  has become inactive in the meantime, and then it does so once more, an edge the diagram does not have.
\<close>

fun deactivates :: "task \<Rightarrow> bool" where
  "deactivates Begin_Resync = True"
| "deactivates (Finish_Error Next_Inactive e) = True"
| "deactivates t = False"

text \<open>The callbacks a task holds aside.\<close>

fun held :: "task \<Rightarrow> nat multiset" where
  "held (Restore_Callbacks downloads uploads) = mset downloads + mset uploads"
| "held t = {#}"

definition held_by :: "task option \<Rightarrow> nat multiset" where
  "held_by t = (case t of None \<Rightarrow> {#} | Some t \<Rightarrow> held t)"

text \<open>As \<open>leads\<close>, with what is held and what is dropped.\<close>

definition moves :: "(session_state \<times> session_state) set \<Rightarrow> nat multiset \<Rightarrow> session \<Rightarrow> nat multiset \<Rightarrow> session \<Rightarrow> bool \<Rightarrow> bool" where
  "moves D h s h' s' u \<longleftrightarrow> (\<exists>es. s_trace s' = s_trace s @ es \<and>
     walk_states D (s_state s) es = Some (s_state s') \<and>
     uses_raw es (raw_view s) = Some (raw_view s') \<and>
     pending s + h + added_callbacks es = pending s' + h' + called_callbacks es + dropped_callbacks es \<and>
     (u \<longrightarrow> dropped_callbacks es = {#}))"

lemma leads_moves: "leads D s s' \<Longrightarrow> moves D {#} s {#} s' u"
  unfolding leads_def moves_def by auto

lemma moves_begin:
  assumes "session_inv aw s" "(s_state s, Inactive) \<in> D"
  shows "moves D {#} s (pending s) (resync_begin s) u"
proof -
  let ?s = "s\<lparr>s_force_resync := True, s_resync_counter := s_resync_counter s + 1, s_downloads := [], s_uploads := []\<rparr>"
  have "leads D ?s (resync_begin s)"
    unfolding resync_begin_def using leads_inactive[of ?s D] assms(2) inv_bound[OF assms(1)] by simp
  then show ?thesis
    unfolding leads_def moves_def by (elim exE conjE) (intro exI conjI, auto simp: pending_def raw_view_def)
qed

lemma dropped_map: "walk_states D st (map Callback_Dropped cs) = Some st" "uses_raw (map Callback_Dropped cs) m = Some m"
  "added_callbacks (map Callback_Dropped cs) = {#}" "called_callbacks (map Callback_Dropped cs) = {#}"
  "dropped_callbacks (map Callback_Dropped cs) = mset cs"
  by (induction cs) auto

lemma moves_restore:
  "moves D (mset d + mset u) s {#} (resync_restore d u s) (undisturbed_task (Restore_Callbacks d u) s)"
  unfolding moves_def
  by (intro exI[of _ "map Callback_Dropped (s_downloads s @ s_uploads s)"])
    (simp add: resync_restore_def dropped_map pending_def raw_view_def walk_states_append uses_raw_append ac_simps
      del: map_append)

lemma held_decide: "held_by (decide_error e s) = {#}"
proof -
  have "held_by (action_task a e) = {#}" for a e by (cases a) (simp_all add: held_by_def)
  then show ?thesis by (simp add: decide_error_def held_by_def split: error_code.split)
qed

lemma run_task_moves:
  assumes "session_inv aw s" "documented \<subseteq> D" "deactivates t \<Longrightarrow> (s_state s, Inactive) \<in> D"
  shows "moves D (held t) s (held_by (snd (run_task t s))) (fst (run_task t s)) (undisturbed_task t s)"
proof (cases t)
  case (Handle_Error e)
  then show ?thesis
    using leads_inactive[of s D] inv_bound[OF assms(1)] documentedD(6)[OF assms(2)]
    by (auto simp: state_handle_error_def held_by_def leads_refl intro!: leads_moves)
next
  case (Decide_Error e)
  then show ?thesis using held_decide[of e s] leads_moves[OF leads_refl] by simp
next
  case Begin_Resync
  then show ?thesis using moves_begin[OF assms(1), of D] assms(3) by (simp add: held_by_def pending_def)
next
  case (Restore_Callbacks d u)
  then show ?thesis using moves_restore[of D d u s] by (simp add: held_by_def)
next
  case (Cancel_Waits e)
  then show ?thesis using leads_moves[OF leads_cancel] by (simp add: held_by_def split: option.split)
next
  case (Tell_User u e)
  then show ?thesis using leads_moves[OF leads_emit[of "[User_Invalidated u]"]] by (simp add: held_by_def neutral_def)
next
  case (Mark_File b e)
  obtain e' s' where u: "update_error_and_mark_file_for_deletion b e s = (e', s')" by force
  then show ?thesis using leads_moves[OF leads_mark[OF assms(1)], of D b e] by (simp add: Mark_File held_by_def u)
next
  case (Finish_Error n e)
  then show ?thesis using leads_moves[OF leads_finish[OF assms(1)]] assms(3) by (simp add: held_by_def)
next
  case (Report_Error e)
  then show ?thesis using leads_moves[OF leads_emit[of "[Error_Reported e]"]] leads_moves[OF leads_refl]
    by (simp add: held_by_def neutral_def)
next
  case (Configure config)
  then show ?thesis
    using leads_moves[OF leads_inactive[of s D]] leads_moves[OF leads_same[of "s\<lparr>s_config := config\<rparr>" s D]]
      to_inactive[OF assms(2)] inv_bound[OF assms(1)] by (simp add: held_by_def)
qed (use leads_revive[OF assms(1,2)] leads_expired[OF assms(2)] leads_moves in \<open>simp_all add: held_by_def\<close>)

section \<open>All steps\<close>

definition held_back :: "machine \<Rightarrow> nat multiset" where
  "held_back m = sum_list (map held (mc_tasks m))"

fun enters_inactive :: "step \<Rightarrow> machine \<Rightarrow> bool" where
  "enters_inactive (Run i) m \<longleftrightarrow> deactivates (mc_tasks m ! i)"
| "enters_inactive (Perform a) m \<longleftrightarrow> False"

lemma step_moves:
  assumes "session_step m a m'" "machine_inv aw m" "documented \<subseteq> D"
    and "enters_inactive a m \<Longrightarrow> (s_state (mc_session m), Inactive) \<in> D"
  shows "moves D (held_back m) (mc_session m) (held_back m') (mc_session m') (undisturbed a m)"
proof (cases a)
  case (Perform b)
  have "held_back m' = held_back m"
    using assms(1) by (cases b rule: begun.cases) (auto simp: Perform held_back_def elim!: session_stepE)
  moreover have "leads D (mc_session m) (mc_session m')"
    using assms(1) leads_perform[OF _ assms(3)] assms(2) by (auto simp: Perform machine_inv_def elim!: session_stepE)
  ultimately show ?thesis
    unfolding leads_def moves_def by (elim exE conjE) (intro exI conjI, auto simp: ac_simps)
next
  case (Run i)
  let ?t = "mc_tasks m ! i"
  obtain s t where r: "run_task ?t (mc_session m) = (s, t)" by (cases "run_task ?t (mc_session m)")
  then have m': "mc_session m' = s" "i < length (mc_tasks m)"
    "mc_tasks m' = take i (mc_tasks m) @ (case t of None \<Rightarrow> [] | Some t \<Rightarrow> [t]) @ drop (Suc i) (mc_tasks m)"
    using assms(1) by (auto simp: Run elim!: session_stepE)
  let ?o = "sum_list (map held (take i (mc_tasks m))) + sum_list (map held (drop (Suc i) (mc_tasks m)))"
  have h: "held_back m = held ?t + ?o" "held_back m' = held_by t + ?o"
  proof -
    have "held_back m = sum_list (map held (take i (mc_tasks m) @ ?t # drop (Suc i) (mc_tasks m)))"
      unfolding held_back_def using id_take_nth_drop[OF m'(2)] by simp
    then show "held_back m = held ?t + ?o" by (simp add: ac_simps)
    show "held_back m' = held_by t + ?o"
      unfolding held_back_def m'(3) by (simp add: held_by_def ac_simps split: option.split)
  qed
  have "moves D (held ?t) (mc_session m) (held_by t) s (undisturbed a m)"
    using run_task_moves[OF _ assms(3), of aw "mc_session m" ?t] assms(2,4) r by (simp add: machine_inv_def Run)
  then show ?thesis
    unfolding h m'(1) moves_def by (elim exE conjE) (intro exI conjI, auto simp: ac_simps)
qed

definition any_edge :: "(session_state \<times> session_state) set" where
  "any_edge = insert (Inactive, Inactive) documented"

lemma any_edge_inactive: "(st, Inactive) \<in> any_edge" "documented \<subseteq> any_edge"
  by (cases st; simp add: any_edge_def documented_def) (auto simp: any_edge_def)

text \<open>From the beginning.\<close>

lemma reachable_trace:
  assumes "reachable_by P m"
  shows "uses_raw (s_trace (mc_session m)) (None, False) = Some (raw_view (mc_session m))"
    "added_callbacks (s_trace (mc_session m)) = pending (mc_session m) + held_back m +
       called_callbacks (s_trace (mc_session m)) + dropped_callbacks (s_trace (mc_session m))"
    "(\<And>a m. P a m \<Longrightarrow> undisturbed a m) \<Longrightarrow> dropped_callbacks (s_trace (mc_session m)) = {#}"
proof -
  let ?u = "\<forall>a m. P a m \<longrightarrow> undisturbed a m"
  have "uses_raw (s_trace (mc_session m)) (None, False) = Some (raw_view (mc_session m)) \<and>
    added_callbacks (s_trace (mc_session m)) = pending (mc_session m) + held_back m +
       called_callbacks (s_trace (mc_session m)) + dropped_callbacks (s_trace (mc_session m)) \<and>
    (?u \<longrightarrow> dropped_callbacks (s_trace (mc_session m)) = {#})"
    using assms
  proof (induction rule: reachable_by.induct)
    case (start config path force recovery)
    then show ?case by (simp add: make_sync_session_def raw_view_def pending_def held_back_def)
  next
    case (extend m a m')
    have "moves any_edge (held_back m) (mc_session m) (held_back m') (mc_session m') (undisturbed a m)"
      by (rule step_moves[OF extend.hyps(2) reachable_by_inv[OF extend.hyps(1), of False] any_edge_inactive(2)])
        (simp_all add: any_edge_inactive(1))
    then obtain es where es: "s_trace (mc_session m') = s_trace (mc_session m) @ es"
      "uses_raw es (raw_view (mc_session m)) = Some (raw_view (mc_session m'))"
      "pending (mc_session m) + held_back m + added_callbacks es =
        pending (mc_session m') + held_back m' + called_callbacks es + dropped_callbacks es"
      "undisturbed a m \<longrightarrow> dropped_callbacks es = {#}"
      unfolding moves_def by blast
    have "added_callbacks (s_trace (mc_session m')) =
        (pending (mc_session m) + held_back m + added_callbacks es) +
        (called_callbacks (s_trace (mc_session m)) + dropped_callbacks (s_trace (mc_session m)))"
      using extend.IH by (simp add: es(1) ac_simps)
    also have "\<dots> = pending (mc_session m') + held_back m' + called_callbacks (s_trace (mc_session m')) +
        dropped_callbacks (s_trace (mc_session m'))"
      unfolding es(3) by (simp add: es(1) ac_simps)
    finally show ?case using extend.IH extend.hyps(3) es by (auto simp: uses_raw_append)
  qed
  then show "uses_raw (s_trace (mc_session m)) (None, False) = Some (raw_view (mc_session m))"
    "added_callbacks (s_trace (mc_session m)) = pending (mc_session m) + held_back m +
       called_callbacks (s_trace (mc_session m)) + dropped_callbacks (s_trace (mc_session m))"
    "(\<And>a m. P a m \<Longrightarrow> undisturbed a m) \<Longrightarrow> dropped_callbacks (s_trace (mc_session m)) = {#}"
    by auto
qed

end
