(* ===== verification/Sync_Properties.thy ===== *)
theory Sync_Properties
  imports Sync_Session_Traces
begin

text \<open>
  What the synchronisation sessions guarantee, and the interleavings with which they do not.
\<close>

section \<open>Runs from a concrete session\<close>

definition example_config :: sync_config where
  "example_config = \<lparr>cfg_user = Some ''u'', cfg_realm_url = ''r'', cfg_stop_policy = After_Changes_Uploaded,
     cfg_has_error_handler = True, cfg_cancel_waits = False, cfg_resync_mode = Recover, cfg_url_prefix = None\<rparr>"

definition example_machine :: machine where
  "example_machine = \<lparr>mc_session = make_sync_session ''p'' example_config False ''b'', mc_tasks = []\<rparr>"

definition run_steps :: "step list \<Rightarrow> machine \<Rightarrow> machine" where
  "run_steps as m = fold do_step as m"

fun run_ok :: "(step \<Rightarrow> machine \<Rightarrow> bool) \<Rightarrow> step list \<Rightarrow> machine \<Rightarrow> bool" where
  "run_ok P [] m = True"
| "run_ok P (a # as) m = (step_enabled a m \<and> P a m \<and> run_ok P as (do_step a m))"

lemma reachable_run: "reachable_by P m \<Longrightarrow> run_ok P as m \<Longrightarrow> reachable_by P (run_steps as m)"
  by (induction as arbitrary: m) (auto simp: run_steps_def intro: extend step)

lemma reachable_example: "run_ok P as example_machine \<Longrightarrow> reachable_by P (run_steps as example_machine)"
  by (rule reachable_run) (auto simp: example_machine_def example_config_def intro: start)

definition log_in :: "step list" where
  "log_in = [Perform Revive, Perform (Refresh_Token ''t'' (Some ''s''))]"

definition file_error :: "protocol_error \<Rightarrow> sync_error" where
  "file_error p = \<lparr>e_code = Protocol p, e_fatal = True, e_user_info = [], e_unrecognized = False\<rparr>"

section \<open>The state machine\<close>

text \<open>
  C17. Every transition a session makes is one of the documented diagram, for every method, every call from the
  sync client and every interleaving of the threads, except that an error reported to a session that is
  inactive already may make it enter the inactive state again.
\<close>

theorem transitions_documented:
  assumes "reachable m" "session_step m a m'" "enters_inactive a m \<Longrightarrow> s_state (mc_session m) \<noteq> Inactive"
  shows "\<exists>es. s_trace (mc_session m') = s_trace (mc_session m) @ es \<and>
    walk_states documented (s_state (mc_session m)) es = Some (s_state (mc_session m'))"
proof -
  have "moves documented (held_back m) (mc_session m) (held_back m') (mc_session m') (undisturbed a m)"
    by (rule step_moves[OF assms(2) reachable_by_inv[OF assms(1), of False]])
      (use assms(3) to_inactive[of documented] in auto)
  then show ?thesis unfolding moves_def by blast
qed

theorem transitions_documented_witness:
  "\<exists>es. s_trace (mc_session (do_step (Perform Close) (run_steps log_in example_machine))) =
       s_trace (mc_session (run_steps log_in example_machine)) @ es \<and>
     walk_states documented Active es = Some Dying"
proof -
  have r: "reachable (run_steps log_in example_machine)" by (rule reachable_example) code_simp
  have "s_state (mc_session (run_steps log_in example_machine)) = Active"
    "s_state (mc_session (do_step (Perform Close) (run_steps log_in example_machine))) = Dying" by code_simp+
  then show ?thesis using transitions_documented[OF r step[of "Perform Close"]] by simp
qed

text \<open>
  C18. The session of the sync client is used as its documentation demands: there is one at a time, it
  is bound once and before any other use, nothing is called on it after it is destroyed, and no null
  pointer is followed.
\<close>

theorem client_session_protocol:
  assumes "reachable m"
  shows "uses_raw (s_trace (mc_session m)) (None, False) = Some (s_raw (mc_session m), s_raw (mc_session m) \<noteq> None)"
  using reachable_trace(1)[OF assms] inv_bound[OF reachable_inv(1)[OF assms]] by (auto simp: raw_view_def)

theorem client_session_protocol_witness:
  "uses_raw (s_trace (mc_session (run_steps log_in example_machine))) (None, False) = Some (Some 0, True)"
proof -
  have r: "reachable (run_steps log_in example_machine)" by (rule reachable_example) code_simp
  have "s_raw (mc_session (run_steps log_in example_machine)) = Some 0" by code_simp
  then show ?thesis using client_session_protocol[OF r] by simp
qed

section \<open>Completion callbacks\<close>

text \<open>
  C5. Whatever happens to the session, and however the threads interleave, the completion callbacks added are,
  counted with repetition, those pending, those that a client resync holds aside, those called and those
  dropped.  A callback is dropped only when it was added while a client resync held others aside: if every
  restoration finds none, none is dropped.
\<close>

theorem callbacks_conserved:
  assumes "reachable m"
  shows "added_callbacks (s_trace (mc_session m)) =
      mset (s_downloads (mc_session m)) + mset (s_uploads (mc_session m)) + held_back m +
      called_callbacks (s_trace (mc_session m)) + dropped_callbacks (s_trace (mc_session m)) \<and>
    (reachable_by undisturbed m \<longrightarrow> dropped_callbacks (s_trace (mc_session m)) = {#})"
  using reachable_trace(2)[OF assms] reachable_trace(3)[of undisturbed m] by (simp add: pending_def)

text \<open>Someone waits for the upload when the server asks for a client reset, which has just begun.\<close>

definition resync_begun :: "step list" where
  "resync_begun = log_in @ [Perform (Wait_For Upload 1),
     Perform (Connection_Event Disconnected (Some (file_error P_Bad_Server_Version))), Run 0, Run 0, Run 0]"

theorem callbacks_conserved_witness:
  "{#1#} = {#1#} + called_callbacks (s_trace (mc_session (run_steps resync_begun example_machine)))"
proof -
  let ?m = "run_steps resync_begun example_machine"
  have r: "reachable ?m" "reachable_by undisturbed ?m" by (rule reachable_example; code_simp)+
  have "s_downloads (mc_session ?m) = []" "s_uploads (mc_session ?m) = []" "held_back ?m = {#1#}" by code_simp+
  moreover have "added_callbacks (s_trace (mc_session ?m)) = {#1#}" by code_simp
  ultimately show ?thesis using callbacks_conserved[OF r(1)] r(2) by simp
qed

text \<open>
  C16. While a session is active or dying, whoever waits for completion will be called: the sync client
  owes an answer to a wait made on the present session, and that answer calls everyone waiting.  This
  needs that no client resync was disturbed: each found the session not yet active again, and nobody
  waiting, when it put the callbacks back.
\<close>

theorem waiters_are_answered:
  assumes "reachable_by undisturbed m" "s_state (mc_session m) = Active \<or> s_state (mc_session m) = Dying"
    and "c \<in> set (callbacks_of dir (mc_session m))"
  shows "\<exists>r k. s_raw (mc_session m) = Some r \<and> (r, Completion dir k) \<in> set (s_waits (mc_session m)) \<and>
    Callback_Called c code \<in> set (s_trace (wait_fired (r, Completion dir k) code (mc_session m))) \<and>
    callbacks_of dir (wait_fired (r, Completion dir k) code (mc_session m)) = []"
proof -
  let ?s = "mc_session m"
  obtain r where r: "s_raw ?s = Some r" "waits_inv ?s r"
    using session_inv_raw[OF reachable_inv(2)[OF assms(1)] assms(2)] by metis
  have "callbacks_of dir ?s \<noteq> []" using assms(3) by auto
  then have w: "(r, Completion dir (s_resync_counter ?s)) \<in> set (s_waits ?s)" using r(2) by (simp add: waits_inv_def)
  let ?t = "wait_fired (r, Completion dir (s_resync_counter ?s)) code ?s"
  have "Callback_Called c code \<in> set (s_trace ?t) \<and> callbacks_of dir ?t = []"
    using assms(3) by (cases dir) (simp_all add: wait_fired_def)
  then show ?thesis using r(1) w by blast
qed

theorem waiters_are_answered_witness:
  "\<exists>k. (1, Completion Upload k) \<in>
     set (s_waits (mc_session (run_steps (resync_begun @ [Run 0, Run 0, Perform (Refresh_Token ''t'' None)]) example_machine)))"
proof -
  let ?m = "run_steps (resync_begun @ [Run 0, Run 0, Perform (Refresh_Token ''t'' None)]) example_machine"
  have r: "reachable_by undisturbed ?m" by (rule reachable_example) code_simp
  have f: "s_state (mc_session ?m) = Active" "callbacks_of Upload (mc_session ?m) = [1]" "s_raw (mc_session ?m) = Some 1"
    by code_simp+
  then show ?thesis using waiters_are_answered[OF r, of 1 Upload Success] by auto
qed

text \<open>
  C26. A dying session dies: the sync client owes it the answer that makes it inactive.  An answer to a
  wait from an earlier time of dying, before the session was revived, does not.
\<close>

theorem dying_session_dies:
  assumes "reachable m" "s_state (mc_session m) = Dying"
  shows "(\<exists>r. s_raw (mc_session m) = Some r \<and> (r, Death (s_death_count (mc_session m))) \<in> set (s_waits (mc_session m)) \<and>
      s_state (wait_fired (r, Death (s_death_count (mc_session m))) code (mc_session m)) = Inactive) \<and>
    (\<forall>r k. k \<noteq> s_death_count (mc_session m) \<longrightarrow> s_state (wait_fired (r, Death k) code (mc_session m)) = Dying)"
proof -
  let ?s = "mc_session m"
  obtain r where "s_raw ?s = Some r" "(r, Death (s_death_count ?s)) \<in> set (s_waits ?s)"
    using session_invE(2)[OF reachable_inv(1)[OF assms(1)] assms(2)] by (auto simp: connected_def)
  then show ?thesis using assms(2) by (auto simp: wait_fired_def)
qed

theorem dying_session_dies_witness:
  "s_state (wait_fired (0, Death 1) Success (mc_session (run_steps
     (log_in @ [Perform Close, Perform Revive, Perform Close]) example_machine))) = Dying"
proof -
  let ?m = "run_steps (log_in @ [Perform Close, Perform Revive, Perform Close]) example_machine"
  have r: "reachable ?m" by (rule reachable_example) code_simp
  have "s_state (mc_session ?m) = Dying" "s_death_count (mc_session ?m) = 2" by code_simp+
  then show ?thesis using dying_session_dies[OF r] by auto
qed

section \<open>Configuration\<close>

text \<open>
  C31.  However the threads interleave, the configuration is replaced only by a thread in
  \<open>update_configuration\<close>, by the one it was called with, for the same user, and while the session is inactive
  and has no session of the sync client; the thread then revives it.  The prefix of the URL apart, which has a
  method of its own.
\<close>

theorem configuration_replaced_when_idle:
  assumes "reachable m" "session_step m a m'"
    and "(s_config (mc_session m'))\<lparr>cfg_url_prefix := p\<rparr> \<noteq> (s_config (mc_session m))\<lparr>cfg_url_prefix := p\<rparr>"
  shows "\<exists>i config. a = Run i \<and> mc_tasks m ! i = Configure config \<and> cfg_user config = cfg_user (s_config (mc_session m)) \<and>
    s_state (mc_session m) = Inactive \<and> s_raw (mc_session m) = None \<and>
    mc_session m' = (mc_session m)\<lparr>s_config := config\<rparr> \<and> mc_tasks m' ! i = Revive_Session"
proof (cases a)
  case (Perform b)
  have "(s_config (perform b (mc_session m)))\<lparr>cfg_url_prefix := p\<rparr> = (s_config (mc_session m))\<lparr>cfg_url_prefix := p\<rparr>"
    by (cases "\<exists>u. b = Set_Url_Prefix u") (auto simp: config_perform set_url_prefix_def)
  then show ?thesis using assms(2,3) by (auto simp: Perform elim!: session_stepE)
next
  case (Run i)
  let ?t = "mc_tasks m ! i"
  have i: "i < length (mc_tasks m)" "mc_session m' = fst (run_task ?t (mc_session m))"
    "mc_tasks m' = take i (mc_tasks m) @ (case snd (run_task ?t (mc_session m)) of None \<Rightarrow> [] | Some t \<Rightarrow> [t]) @
      drop (Suc i) (mc_tasks m)"
    using assms(2) by (auto simp: Run split: prod.splits elim!: session_stepE)
  then obtain c where c: "?t = Configure c" using config_run_task[of ?t "mc_session m"] assms(3) by (metis (no_types))
  then have s: "s_state (mc_session m) = Inactive" using i(2) assms(3) by (auto split: if_splits)
  have "cfg_user c = cfg_user (s_config (mc_session m))"
    using reachable_tasks[OF assms(1)] i(1) c by (auto simp: list_all_length)
  moreover have "s_raw (mc_session m) = None" using session_invE(3)[OF reachable_inv(1)[OF assms(1)] s] .
  ultimately show ?thesis using i c s by (simp add: Run nth_append)
qed

theorem configuration_replaced_when_idle_witness:
  "let m = run_steps (log_in @ [Perform (Update_Configuration (example_config\<lparr>cfg_cancel_waits := True\<rparr>)), Run 0]) example_machine
   in s_state (mc_session m) = Inactive \<and> s_raw (mc_session m) = None"
proof -
  let ?as = "log_in @ [Perform (Update_Configuration (example_config\<lparr>cfg_cancel_waits := True\<rparr>)), Run 0]"
  let ?m = "run_steps ?as example_machine"
  have r: "reachable ?m" by (rule reachable_example) code_simp
  have f: "step_enabled (Run 0) ?m" "(s_config (mc_session (do_step (Run 0) ?m)))\<lparr>cfg_url_prefix := None\<rparr> \<noteq>
      (s_config (mc_session ?m))\<lparr>cfg_url_prefix := None\<rparr>" by code_simp+
  show ?thesis using configuration_replaced_when_idle[OF r step[OF f(1)] f(2)] unfolding Let_def by blast
qed

text \<open>
  \<open>update_configuration\<close> need not end: a thread that revives the session after each round keeps it from being
  found inactive.  Without that, two rounds are enough.
\<close>

lemma configure_round:
  assumes "mc_tasks m = [Configure config]" "s_state (mc_session m) = Inactive"
  shows "let m' = do_step (Run 0) (do_step (Perform Revive) m) in
    mc_tasks m' = [Configure config] \<and> s_state (mc_session m') = Inactive"
  using assms by (simp add: revive_if_needed_def state_revive_def)

theorem update_configuration_may_not_end:
  "mc_tasks m = [Configure config] \<Longrightarrow> s_state (mc_session m) = Inactive \<Longrightarrow>
    mc_tasks (run_steps (concat (replicate n [Perform Revive, Run 0])) m) = [Configure config]"
  "mc_tasks m = [Configure config] \<Longrightarrow> s_config (mc_session (run_steps [Run 0, Run 0] m)) = config \<or>
    s_state (mc_session m) = Inactive \<and> s_config (mc_session (run_steps [Run 0] m)) = config"
proof -
  show "mc_tasks (run_steps (concat (replicate n [Perform Revive, Run 0])) m) = [Configure config]"
    if "mc_tasks m = [Configure config]" "s_state (mc_session m) = Inactive"
    using that
  proof (induction n arbitrary: m)
    case (Suc n)
    have "concat (replicate (Suc n) [Perform Revive, Run 0]) = [Perform Revive, Run 0] @ concat (replicate n [Perform Revive, Run 0])"
      by simp
    then show ?case
      using Suc.IH[of "do_step (Run 0) (do_step (Perform Revive) m)"] configure_round[OF Suc.prems]
      by (simp only: run_steps_def fold_append fold_simps comp_apply Let_def)
  qed (simp add: run_steps_def)
  show "s_config (mc_session (run_steps [Run 0, Run 0] m)) = config \<or>
      s_state (mc_session m) = Inactive \<and> s_config (mc_session (run_steps [Run 0] m)) = config"
    if "mc_tasks m = [Configure config]"
    using that by (simp add: run_steps_def)
qed

section \<open>Notifiers\<close>

text \<open>
  A progress callback that is not streaming is told one total only, that of its first report; every
  report but the last falls short of it; and an uploading one hears nothing before the client has seen the
  local version at registration.  This holds for any later updates, registrations and removals.
\<close>

theorem progress_is_one_shot:
  "one_shot (dir = Download) (pn_local_version (fst (run_progress before initial_progress)))
     (reports_for (pn_next_token (fst (run_progress before initial_progress)))
       (snd (run_progress (Register dir False # after) (fst (run_progress before initial_progress)))))"
proof -
  let ?n = "fst (run_progress before initial_progress)"
  let ?k = "pn_next_token ?n"
  have "fresh_tokens initial_progress" by (simp add: fresh_tokens_def initial_progress_def)
  then have n: "fresh_tokens ?n" by (rule fresh_run)
  let ?R = "register_callback dir False ?n"
  have all: "reports_for ?k (snd (snd ?R)) = snd (snd ?R)"
    by (auto simp: register_callback_def reports_for_def report_of_def Let_def split: option.split prod.split)
  obtain rs where rs: "rs = snd (snd ?R) @ reports_for ?k (snd (run_progress after (fst (snd ?R))))" by simp
  have "follows ?k (dir = Download) (pn_local_version ?n) (fst (run_progress after (fst (snd ?R)))) rs"
    unfolding rs by (rule follows_run[OF follows_registered[OF n]])
  then have "one_shot (dir = Download) (pn_local_version ?n) rs" by (rule follows_one_shot)
  moreover have "reports_for ?k (snd (run_progress (Register dir False # after) ?n)) = rs"
    using all by (cases "snd ?R") (simp add: rs split: prod.split)
  ultimately show ?thesis by simp
qed

text \<open>
  C27. A change of the connection state is told to every callback in the order of registration, also when
  callbacks add or remove callbacks meanwhile: those added during the walk hear of the next change, those
  removed before their turn of nothing.  Callbacks added in the walk must not be removed in it.
\<close>

theorem connection_walk_visits:
  assumes "distinct_tokens n" "cn_index n = npos" "length (cn_callbacks n) < npos"
    and "\<forall>fn. removes (script fn) \<subseteq> {..<cn_next_token n}"
  shows "\<exists>n'. invoke_callbacks script n = Some (Walked n' (visits script {} (cn_callbacks n)))"
  by (rule invoke_callbacks_visits[OF assms])

definition two_callbacks :: connection_notifier where
  "two_callbacks = snd (add_callback 1 (snd (add_callback 0 initial_connections)))"

theorem connection_walk_visits_witness:
  "\<exists>n'. invoke_callbacks (\<lambda>fn. if fn = 0 then [Remove_Callback 0, Add_Callback 7] else []) two_callbacks =
     Some (Walked n' [0, 1])"
proof -
  let ?script = "\<lambda>fn :: nat. if fn = 0 then [Remove_Callback 0, Add_Callback 7] else []"
  have "distinct_tokens two_callbacks" "cn_index two_callbacks = npos" "length (cn_callbacks two_callbacks) < npos"
    "\<forall>fn. removes (?script fn) \<subseteq> {..<cn_next_token two_callbacks}" "visits ?script {} (cn_callbacks two_callbacks) = [0, 1]"
    by (auto simp: two_callbacks_def add_callback_def initial_connections_def distinct_tokens_def npos_def Let_def
        less_Suc_eq split: if_splits)
  then show ?thesis using connection_walk_visits[of two_callbacks ?script] by simp
qed

section \<open>Interleavings that go wrong\<close>

text \<open>
  A callback that waits for completion after the user logged out and in again can be told that its
  wait was aborted although the new session is alive: the answer to a wait on the destroyed session is
  only recognised as stale after a client resync, not after an ordinary log-out.
\<close>

theorem log_out_aborts_later_wait:
  "let as = log_in @ [Perform (Wait_For Download 1), Perform Log_Out] @ log_in @ [Perform (Wait_For Download 2)];
     s = mc_session (run_steps as example_machine); w = (0, Completion Download 0) in
   run_ok undisturbed (as @ [Perform (Wait_Fired w Operation_Aborted)]) example_machine \<and> s_state s = Active \<and> s_raw s = Some 1 \<and>
   s_downloads s = [2] \<and> Callback_Called 2 Operation_Aborted \<in> set (s_trace (wait_fired w Operation_Aborted s))"
  by code_simp

text \<open>
  \<open>handle_error\<close> puts the callbacks back after a client resync without holding the lock: one that was
  added after the session became inactive is overwritten, neither pending nor ever called.
\<close>

theorem resync_loses_callback:
  "let as = resync_begun @ [Perform (Wait_For Download 9), Run 0]; s = mc_session (run_steps as example_machine) in
   run_ok (\<lambda>a m. True) as example_machine \<and> added_callbacks (s_trace s) = {#1, 9#} \<and> s_downloads s = [] \<and> s_uploads s = [1] \<and>
   called_callbacks (s_trace s) = {#} \<and> dropped_callbacks (s_trace s) = {#9#}"
  by code_simp

text \<open>
  The same gap strands the waiter that was held aside: another thread revives the session and a token makes it
  active before the callbacks are back, so that nothing is registered for them.  The session is active, one
  waits, and no answer that the sync client owes will call it.
\<close>

theorem resync_strands_waiter:
  "let as = resync_begun @ [Perform Revive, Perform (Refresh_Token ''t'' None), Run 0, Run 0];
     m = run_steps as example_machine; s = mc_session m in
   run_ok (\<lambda>a m. True) as example_machine \<and> mc_tasks m = [] \<and> s_state s = Active \<and> s_uploads s = [1] \<and>
   list_all (\<lambda>w. s_uploads (wait_fired w Success s) = [1]) (s_waits s)"
  by code_simp

text \<open>
  A report of the destroyed session that arrives late is believed: an inactive session, which was
  set to disconnected on purpose, says it is connected; and an error enters the inactive state again,
  which the assertion in \<open>advance_state\<close> forbids.
\<close>

theorem late_events_believed:
  "let as = log_in @ [Perform Log_Out]; connect = as @ [Perform (Connection_Event Connected None)];
     fail = as @ [Perform (Connection_Event Disconnected (Some (file_error P_Permission_Denied))), Run 0, Run 0, Run 0, Run 0];
     s = mc_session (run_steps connect example_machine); t = mc_session (run_steps fail example_machine) in
   run_ok undisturbed connect example_machine \<and> s_state s = Inactive \<and> s_connection s = Connected \<and>
   run_ok undisturbed fail example_machine \<and> walk_states documented Inactive (s_trace t) = None"
  by code_simp

text \<open>
  A callback that adds two callbacks and removes them again while it is told of a change makes the
  walk read past the end of the vector: removing lowers the count of callbacks to call also for callbacks
  that were never counted.
\<close>

theorem removing_added_callbacks_overruns:
  "invoke_callbacks (\<lambda>fn. [Add_Callback 1, Add_Callback 2, Remove_Callback 1, Remove_Callback 2])
     (snd (add_callback 0 initial_connections)) = Some (Read_Past_End [0])"
proof -
  let ?c = "\<lambda>k. \<lparr>cc_fn = k, cc_token = k\<rparr>"
  let ?script = "\<lambda>fn :: nat. [Add_Callback 1, Add_Callback 2, Remove_Callback 1, Remove_Callback 2]"
  let ?n = "\<lparr>cn_callbacks = [?c 0], cn_index = 0, cn_count = 1, cn_next_token = 1\<rparr>"
  let ?m = "\<lparr>cn_callbacks = [?c 0], cn_index = 0, cn_count = npos, cn_next_token = 3\<rparr>"
  have s: "fold connection_step (?script 0) ?n = ?m"
    by (simp add: add_callback_def remove_callback_def index_after_removal_def callback_position_def size_sub_def npos_def Let_def)
  have i: "invoke_callbacks ?script (snd (add_callback 0 initial_connections)) = invoke_loop ?script ?n []"
    by (simp add: invoke_callbacks_def add_callback_def initial_connections_def size_succ_def Let_def)
  have j: "invoke_loop ?script ?n [] = invoke_loop ?script (?m\<lparr>cn_index := 1\<rparr>) [0]"
    by (subst invoke_loop.simps) (simp add: s[simplified] size_succ_def npos_def Let_def del: fold_simps)
  have k: "invoke_loop ?script (?m\<lparr>cn_index := 1\<rparr>) [0] = Some (Read_Past_End [0])"
    by (subst invoke_loop.simps) (simp add: npos_def)
  show ?thesis using i j k by simp
qed

end
