(* ===== verification/Spec2Isabelle.thy ===== *)
theory Spec2Isabelle
  imports Index_Set_Properties Change_Properties Calculate_Properties Checker_Properties Notifier_Properties Results_Properties List_Properties Transact_Properties KVO_Properties Transact_Log_Properties Schema_Properties Sync_Properties
begin

text \<open>
  \<^bold>\<open>Realm's object store, verified.\<close>

  The C++ of this repository is the object store of Realm (\<open>src/seco/Pods/Realm\<close>), which the
  application links: it turns commits of a database into precise change notifications, checks and
  migrates schemas, and drives synchronisation sessions.  This development models its core logic
  and proves it correct.  Isabelle's kernel checks every theorem; no axiom is added.

  \<^bold>\<open>Parts and theories.\<close>

  \<^item> \<open>Prelude\<close>: sizes, \<open>std::lower_bound\<close>, and the arithmetic of the k-th number outside a finite
    set (\<open>nth_outside\<close>) and of its inverse (\<open>rank_outside\<close>).
  \<^item> \<open>Range_List\<close>, \<open>Chunked_Ranges\<close>, \<open>Index_Set\<close>, \<open>Index_Set_Laws\<close>, \<open>Index_Set_Count\<close>, \<open>Range_Builder\<close>,
    \<open>Index_Set_Bulk\<close>, \<open>Index_Set_Shifted\<close>: \<open>index_set.cpp\<close> and \<open>index_set.hpp\<close>.  A chunked vector is a
    list of chunks that cache their bounds and their count; an iterator is a pair of positions.
    The operations are written over iterators as in the source; their specifications say what
    they do to the represented set and that they keep the invariant of \<open>verify()\<close>.
  \<^item> \<open>Index_Set_Interface\<close>: the contract of \<open>IndexSet\<close> as two locales, interpreted on the chunked
    vectors.  Clients use only the facts of the interpretations \<open>ix\<close> and \<open>ixb\<close>.
  \<^item> \<open>Sequence_Edits\<close>: what a pair of deletions and insertions means for a sequence, and how two
    consecutive edits compose.
  \<^item> \<open>Change_Builder\<close>, \<open>Change_Builder_Laws\<close>, \<open>Change_Merge\<close>, \<open>Change_Edits\<close>:
    \<open>impl/collection_change_builder.cpp\<close>, the record of the changes of a collection.  \<open>tracks b xs ys\<close>
    says that the record \<open>b\<close> describes how \<open>xs\<close> became \<open>ys\<close>; every operation and \<open>merge\<close> keeps it.
  \<^item> \<open>Change_Calculate\<close>, \<open>Change_Calculate_Rows\<close>, \<open>Change_Calculate_Unsorted\<close>,
    \<open>Change_Calculate_Blocks\<close>, \<open>Change_Calculate_Sorted\<close>: \<open>calculate\<close> of the same file, the change set
    between the results of a query before and after a write.  \<open>Rows\<close> is about the matching of the
    two lists, \<open>Unsorted\<close> and \<open>Sorted\<close> about the two ways of finding moves, \<open>Blocks\<close> about the search
    for longest matching blocks that the second one uses.
  \<^item> \<open>Change_Checker\<close>, \<open>Change_Checker_Laws\<close>: \<open>DeepChangeChecker\<close> of \<open>impl/collection_notifier.cpp\<close>,
    which decides whether a row counts as changed because of the rows it links to.  What it reads of
    the tables is a record of functions (\<open>link_store\<close>).  The fuel of \<open>find_related\<close> is the number of
    tables and two, and is proved to be enough.
  \<^item> \<open>Callback_Walk\<close>: the loop that calls a list of callbacks while the callbacks add to and remove from
    the list.  Two classes have it; its laws (each callback once, those added meanwhile too, no stale
    position) are proved once in the locale \<open>callback_list\<close>.
  \<^item> \<open>Collection_Notifier\<close>, \<open>Notifier_Walks\<close>, \<open>Notifier_Clients\<close>, \<open>Notifier_Package\<close>: the rest of
    \<open>impl/collection_notifier.cpp\<close>.  A \<open>notifier\<close> is the object's fields; a callback of the client is
    data.  \<open>Notifier_Clients\<close> puts a notifier beside its clients, who fold what they receive into their
    own copy of the collection, and proves by rule induction over \<open>scene_step\<close> that the copies stay
    those of the versions delivered, as long as callbacks added during a delivery are not removed in it.
  \<^item> \<open>Results_Notifier\<close>, \<open>List_Notifiers\<close>: the subclasses of \<open>impl/results_notifier.cpp\<close>,
    \<open>impl/list_notifier.cpp\<close>, \<open>impl/primitive_list_notifier.cpp\<close> and \<open>impl/object_notifier.cpp\<close>: what they
    ask the transaction log for, their run, and what they hand over.  The query is a function
    parameter.
  \<^item> \<open>Row_Records\<close>, \<open>Row_Marks\<close>: what a change builder says of the rows of a table, which are not ordered: new
    rows come last, the last row replaces a deleted one, rows are swapped.  \<open>row_record\<close> holds while a log
    is read, \<open>row_change\<close> of the finished record; \<open>row_marks\<close> is about the modified rows and columns.
  \<^item> \<open>Transact_Instructions\<close>, \<open>Transact_Observer\<close>: the instructions of the transaction log and the handlers
    of \<open>impl/transact_log_handler.cpp\<close>, one function per instruction on a \<open>log_state\<close>.
  \<^item> \<open>Transact_World\<close>, \<open>Transact_Tracking\<close>, \<open>Transact_Simulation\<close>, \<open>Transact_Outcome\<close>: tables and link lists
    whose objects and slots have an identity, the instructions as steps on them (\<open>world_step\<close>), and a
    simulation between these steps and the observer.  There are no steps for merged and moved rows, ordered
    deletions, insertions within a table, subtables, and new or moved columns and tables.
  \<^item> \<open>KVO_Adapter\<close>: \<open>KVOAdapter\<close> of the same file, which turns the record into what a binding that observes
    single rows is told, and the order of the calls when a transaction is advanced.
  \<^item> \<open>Integer_Coding\<close>, \<open>Transact_Parser\<close>, \<open>Transact_Parsing\<close>: the bytes of the transaction log
    (\<open>core/realm/impl/transact_log.hpp\<close>).  The input of the parser is the rest of the current block and the
    blocks to come; a reader is a function to an optional value and the input after it.  \<open>Transact_Parsing\<close>
    shows of every reader that it does not see where one block ends and the next begins, and models the
    loops that call the handler, which is a parameter.
  \<^item> \<open>Input_Streams\<close>: \<open>core/realm/impl/input_stream.hpp\<close>.  The two kinds of stream are the locales
    \<open>input_stream\<close> and \<open>block_source\<close>; an adaptor makes the second out of the first (\<open>sublocale\<close>).  Each stream of
    the header is an interpretation, and so is the reversed stream below.
  \<^item> \<open>Transact_Encoder\<close>, \<open>Transact_Encoding\<close>, \<open>Transact_Roundtrip\<close>, \<open>Transact_Logs\<close>: the encoder, an instruction
    being the list of the arguments that are encoded one by one into a growing buffer, where a write outside
    the reserved room fails; that it never does; and what the parser reads back.  The methods
    \<open>select_table\<close>, \<open>select_descriptor\<close> and \<open>select_link_list\<close> are not in the sources: they are the parameter
    \<open>select\<close>, relied on (\<open>selections_read\<close>) to write what the parser reads as that selection.
  \<^item> \<open>Transact_Reverser\<close>, \<open>Transact_Undo\<close>, \<open>Undo_Selections\<close>: \<open>TransactReverser\<close>, which writes the log of a
    rollback.  \<open>represents\<close> relates its ranges of bytes to a list of instructions; \<open>addressed\<close> pairs each instruction
    with the selection it acts on.
  \<^item> \<open>Schema_Model\<close>, \<open>Schema_Validate\<close>, \<open>Schema_Compare\<close>, \<open>Schema_Effects\<close>: \<open>property.hpp\<close>,
    \<open>object_schema.cpp\<close>, \<open>schema.cpp\<close>.  A property type is a byte with two flag bits; a schema is a
    sorted list of object schemas; a comparison is a list of \<open>schema_change\<close>s.  \<open>Schema_Effects\<close>
    gives the changes a meaning on the columns of a class.
  \<^item> \<open>Schema_Policies\<close>: which changes each schema mode accepts (\<open>object_store.cpp\<close>) and when the
    Realm opens a write transaction for them (\<open>shared_realm.cpp\<close>).
  \<^item> \<open>Object_Store\<close>, \<open>Object_Store_Laws\<close>: the rest of \<open>object_store.cpp\<close>.  The storage engine is a
    record of operations over an abstract group (\<open>core_ops\<close>); the laws state the documented effect
    of its column operations, and a small engine satisfies them.
  \<^item> \<open>Sync_Progress\<close>, \<open>Sync_Connections\<close>: the two notifiers of \<open>sync/sync_session.cpp\<close>, with the
    callbacks of the client as data (what they do to the notifier while they run).
  \<^item> \<open>Sync_Session\<close>, \<open>Sync_Session_Invariants\<close>, \<open>Sync_Session_Traces\<close>: the rest of that file.  A
    \<open>session\<close> is the object's fields and, for what lies outside it, a trace of the calls it makes and
    the waits the sync client owes an answer to; every section that holds the mutex is a function on it.
    \<open>handle_error\<close> and \<open>update_configuration\<close>, which take the mutex several times, are \<open>task\<close>s: a \<open>machine\<close> is a
    session and the tasks that threads are in, and \<open>session_step\<close> allows every method, every documented call of
    the sync client and the next round of any task, in any order.  \<open>reachable_by\<close> restricts the steps of a run
    by a condition; \<open>undisturbed\<close> is the one without which a client resync may lose or strand a callback.
  \<^item> \<open>Index_Set_Properties\<close>, \<open>Change_Properties\<close>, \<open>Calculate_Properties\<close>, \<open>Checker_Properties\<close>,
    \<open>Notifier_Properties\<close>, \<open>Results_Properties\<close>, \<open>List_Properties\<close>, \<open>Transact_Properties\<close>,
    \<open>KVO_Properties\<close>, \<open>Transact_Log_Properties\<close>, \<open>Schema_Properties\<close>, \<open>Sync_Properties\<close>: the properties
    of these parts.

  \<^bold>\<open>Conventions.\<close>  A \<open>size_t\<close> is a natural number; additions are assumed not to reach \<open>2 ^ 64\<close>, and
  subtractions that may pass below zero wrap around (\<open>size_sub\<close>).  The transaction log is at the width of the
  code: each integer type has its range, and a buffer that would pass \<open>2 ^ 64 - 1\<close> bytes cannot grow.
  Assertions are those of a release build: inactive; only the transaction log observer keeps them, as the
  error \<open>Log_Assertion\<close>, and is proved not to fail on the logs of \<open>world_step\<close>.  Memory is always available.
  Loops over iterators are recursive functions with termination proofs; the loop of \<open>do_remove\<close>, which
  looks its position up again after each edit, is a partial function proved to return.

  \<^bold>\<open>Not modelled.\<close>  The storage engine (realm-core) and the sync client are prebuilt libraries: of their
  headers only the transaction log has its code in the repository; tables, columns and queries are parameters
  where they are called.  Of the object store, \<open>SyncUser\<close>, \<open>SyncManager\<close>, the files and metadata of
  synchronisation and partial synchronisation are left out, which mostly call that library, the file system or
  the network; so are \<open>Realm\<close> and \<open>RealmCoordinator\<close> but for the schema modes and the order of calls around a
  transaction, and \<open>Results\<close>, \<open>List\<close>, \<open>Object\<close> and \<open>ThreadSafeReference\<close>, which forward to the tables.  The
  language bindings convert types.
\<close>

end
